(* ===== verification/Prelude.thy ===== *)
theory Prelude
  imports Main "HOL-Library.Word" "HOL-Library.Monad_Syntax"
begin

text \<open>
  Shared vocabulary of the development: machine-integer type names, the panic monad
  \<open>'a run\<close> (\<open>None\<close> is a kernel panic: every profile of the workspace sets
  \<^verbatim>\<open>panic = "abort"\<close>, so a panic ends the execution), checked indexing, the integer
  helpers of \<^verbatim>\<open>core\<close> that the kernel calls (\<open>div_ceil\<close>, \<open>trailing_zeros\<close>,
  \<open>next_power_of_two\<close>, \<open>ilog2\<close>), alignment arithmetic, and the generic list and
  bit lemmas the components share.
\<close>

unbundle bit_operations_syntax

named_theorems rt_defs \<open>definitions of the modelled Rust runtime, unfolded on demand\<close>

named_theorems inv_intros \<open>preservation lemmas of component invariants\<close>

section \<open>Machine integers and panics\<close>

type_synonym u8 = "8 word"

type_synonym u16 = "16 word"

type_synonym u32 = "32 word"

type_synonym u64 = "64 word"

type_synonym 'a run = "'a option"

abbreviation panic :: "'a run" where
  "panic \<equiv> None"

abbreviation ret :: "'a \<Rightarrow> 'a run" where
  "ret x \<equiv> Some x"

text \<open>Slice and array accesses: an index past the end panics.\<close>

definition idx :: "'a list \<Rightarrow> nat \<Rightarrow> 'a run" where
  [rt_defs]: "idx xs i = (if i < length xs then ret (xs ! i) else panic)"

definition upd :: "'a list \<Rightarrow> nat \<Rightarrow> 'a \<Rightarrow> 'a list run" where
  [rt_defs]: "upd xs i v = (if i < length xs then ret (xs[i := v]) else panic)"

lemma idx_Some_iff [simp]: "idx xs i = Some x \<longleftrightarrow> i < length xs \<and> x = xs ! i"
  by (auto simp: idx_def)

lemma idx_None_iff [simp]: "idx xs i = None \<longleftrightarrow> length xs \<le> i"
  by (auto simp: idx_def)

lemma upd_Some_iff [simp]: "upd xs i v = Some ys \<longleftrightarrow> i < length xs \<and> ys = xs[i := v]"
  by (auto simp: upd_def)

lemma upd_None_iff [simp]: "upd xs i v = None \<longleftrightarrow> length xs \<le> i"
  by (auto simp: upd_def)

lemma idx_in_range: "i < length xs \<Longrightarrow> idx xs i = Some (xs ! i)"
  by simp

lemma upd_in_range: "i < length xs \<Longrightarrow> upd xs i v = Some (xs[i := v])"
  by simp

section \<open>Integer helpers of the standard library\<close>

definition div_ceil :: "nat \<Rightarrow> nat \<Rightarrow> nat" where
  "div_ceil a b = (if a mod b = 0 then a div b else a div b + 1)"

lemma div_ceil_upper: "0 < b \<Longrightarrow> a \<le> div_ceil a b * b"
proof -
  assume b: "0 < b"
  have *: "a = a div b * b + a mod b" by simp
  show ?thesis
  proof (cases "a mod b = 0")
    case True
    then show ?thesis using * by (simp add: div_ceil_def)
  next
    case False
    have "a \<le> a div b * b + b" using * mod_less_divisor [OF b, of a] by linarith
    with False show ?thesis by (simp add: div_ceil_def)
  qed
qed

lemma div_ceil_least: "0 < b \<Longrightarrow> a \<le> k * b \<Longrightarrow> div_ceil a b \<le> k"
proof -
  assume b: "0 < b" and k: "a \<le> k * b"
  have 1: "a div b \<le> k"
    using k b by (metis div_le_mono nonzero_mult_div_cancel_right not_less_zero)
  show ?thesis
  proof (cases "a mod b = 0")
    case True
    with 1 show ?thesis by (simp add: div_ceil_def)
  next
    case False
    have "a div b \<noteq> k"
    proof
      assume "a div b = k"
      then have "k * b + a mod b = a" using div_mult_mod_eq [of a b] by simp
      with k False show False by simp
    qed
    with 1 False show ?thesis by (simp add: div_ceil_def)
  qed
qed

lemma less_div_ceil_iff: "0 < b \<Longrightarrow> i < div_ceil a b \<longleftrightarrow> i * b < a"
  using div_ceil_upper [of b a] div_ceil_least [of b a i]
  by (metis dual_order.strict_trans1 linorder_not_less mult_le_mono1)

lemma div_ceil_0 [simp]: "div_ceil 0 b = 0"
  by (simp add: div_ceil_def)

text \<open>
  \<open>trailing_zeros\<close> of a \<open>w\<close>-bit value, given as its bit function: the least set bit,
  or \<open>w\<close> when there is none.
\<close>

function tz_from :: "nat \<Rightarrow> nat \<Rightarrow> (nat \<Rightarrow> bool) \<Rightarrow> nat" where
  "tz_from i w p = (if w \<le> i then w else if p i then i else tz_from (Suc i) w p)"
  by pat_completeness auto
termination
  by (relation "measure (\<lambda>(i, w, p). w - i)") auto

declare tz_from.simps [simp del]

definition trailing_zeros :: "nat \<Rightarrow> (nat \<Rightarrow> bool) \<Rightarrow> nat" where
  "trailing_zeros w p = tz_from 0 w p"

lemma tz_from_spec:
  assumes "i \<le> k" and "k < w" and "p k" and "\<forall>j. i \<le> j \<and> j < k \<longrightarrow> \<not> p j"
  shows "tz_from i w p = k"
  using assms
proof (induction i w p rule: tz_from.induct)
  case (1 i w p)
  show ?case
  proof (cases "p i")
    case True
    with "1.prems" have "i = k" by (metis le_neq_implies_less order_refl)
    with True "1.prems" show ?thesis by (simp add: tz_from.simps [of k])
  next
    case False
    with "1.prems" have "i \<noteq> k" by auto
    with "1.prems" have "Suc i \<le> k" by simp
    with False "1.prems" "1.IH" have "tz_from (Suc i) w p = k" by auto
    with False "1.prems" show ?thesis by (simp add: tz_from.simps [of i])
  qed
qed

lemma tz_from_none:
  assumes "\<forall>j. i \<le> j \<and> j < w \<longrightarrow> \<not> p j"
  shows "tz_from i w p = w"
  using assms
proof (induction i w p rule: tz_from.induct)
  case (1 i w p)
  then show ?case by (cases "w \<le> i") (auto simp: tz_from.simps [of i])
qed

lemma trailing_zeros_eqI:
  "k < w \<Longrightarrow> p k \<Longrightarrow> (\<And>j. j < k \<Longrightarrow> \<not> p j) \<Longrightarrow> trailing_zeros w p = k"
  by (simp add: trailing_zeros_def tz_from_spec)

lemma trailing_zeros_bit:
  assumes "k < w" and "p k"
  shows "trailing_zeros w p < w" and "p (trailing_zeros w p)"
    and "\<And>j. j < trailing_zeros w p \<Longrightarrow> \<not> p j"
proof -
  define m where "m = (LEAST j. p j)"
  have pm: "p m" and mk: "m \<le> k"
    using assms(2) by (auto simp: m_def intro: LeastI Least_le)
  have least: "\<not> p j" if "j < m" for j
    using that not_less_Least unfolding m_def by blast
  have "trailing_zeros w p = m"
    using pm mk least assms(1) by (intro trailing_zeros_eqI) auto
  with pm mk assms(1) least show "trailing_zeros w p < w" and "p (trailing_zeros w p)"
    and "\<And>j. j < trailing_zeros w p \<Longrightarrow> \<not> p j" by auto
qed

section \<open>Words\<close>

lemma unat_succ: "w + 1 \<noteq> (0 :: 'a::len word) \<Longrightarrow> unat (w + 1) = Suc (unat w)"
  using unatSuc [of w] by (simp add: add.commute)

lemma unat_succ_bound:
  "Suc (unat w) < 2 ^ LENGTH('a) \<Longrightarrow> unat (w + 1 :: 'a::len word) = Suc (unat w)"
  by (simp add: unat_word_ariths)

lemma succ_nonzero: "Suc (unat w) < 2 ^ LENGTH('a) \<Longrightarrow> w + 1 \<noteq> (0 :: 'a::len word)"
  using unat_succ_bound [of w] by force

lemma word_less_succ:
  "a < b \<Longrightarrow> b + 1 \<noteq> (0 :: 'a::len word) \<Longrightarrow> a < b + 1"
  "b + 1 \<noteq> (0 :: 'a::len word) \<Longrightarrow> b < b + 1"
  by (simp_all add: word_less_nat_alt unat_succ)

section \<open>Alignment by powers of two\<close>

definition round_up :: "nat \<Rightarrow> nat \<Rightarrow> nat" where
  "round_up a n = (n + a - 1) div a * a"

lemma round_up_dvd [simp]: "a dvd round_up a n"
  by (simp add: round_up_def)

lemma round_up_ge: "0 < a \<Longrightarrow> n \<le> round_up a n"
proof -
  assume a: "0 < a"
  have "n + a - 1 = (n + a - 1) div a * a + (n + a - 1) mod a" by simp
  moreover have "(n + a - 1) mod a \<le> a - 1" using a by (simp add: less_Suc_eq_le [symmetric])
  ultimately show ?thesis using a unfolding round_up_def by linarith
qed

lemma round_up_less: "0 < a \<Longrightarrow> round_up a n < n + a"
  unfolding round_up_def
  by (metis add_gr_0 diff_less div_times_less_eq_dividend le_less_trans less_numeral_extra(1)
      zero_less_diff not_gr_zero zero_less_one)

lemma round_up_of_dvd: "0 < a \<Longrightarrow> a dvd n \<Longrightarrow> round_up a n = n"
proof -
  assume a: "0 < a" and "a dvd n"
  then obtain k where k: "n = k * a" by (metis dvd_div_mult_self)
  have "((a - 1) + k * a) div a = k + (a - 1) div a"
    using a by (intro div_mult_self1) simp
  then have "(k * a + (a - 1)) div a = k" using a by (simp only: add.commute) simp
  moreover have "k * a + a - 1 = k * a + (a - 1)" using a by linarith
  ultimately show ?thesis using k by (simp only: round_up_def)
qed

text \<open>
  Evaluating a run step by step: the continuation of a bind is left alone until the value
  bound is known.
\<close>

lemma bind_weak: "x = y \<Longrightarrow> Option.bind x f = Option.bind y f"
  by simp

section \<open>Alignment masks\<close>

lemma unat_and_not_mask: "unat (w AND NOT (mask k) :: 'a::len word) = unat w div 2 ^ k * 2 ^ k"
proof -
  have "unat (w AND NOT (mask k)) = push_bit k (drop_bit k (unat w))"
    by (rule bit_eqI)
      (auto simp: bit_unsigned_iff bit_and_iff bit_not_iff bit_mask_iff bit_push_bit_iff bit_drop_bit_eq
        dest: bit_imp_le_length)
  then show ?thesis by (simp add: push_bit_eq_mult drop_bit_eq_div)
qed

lemma unat_and_mask: "unat (w AND mask k :: 'a::len word) = unat w mod 2 ^ k"
proof -
  have "unat (w AND mask k) = take_bit k (unat w)"
    by (rule bit_eqI) (auto simp: bit_unsigned_iff bit_and_iff bit_mask_iff bit_take_bit_iff dest: bit_imp_le_length)
  then show ?thesis by (simp add: take_bit_eq_mod)
qed

lemma unat_pow2: "k < LENGTH('a) \<Longrightarrow> unat ((2 :: 'a::len word) ^ k) = 2 ^ k"
proof -
  assume "k < LENGTH('a)"
  then have "(2::nat) ^ k < 2 ^ LENGTH('a)" by (rule power_strict_increasing) simp
  then have "unat (word_of_nat (2 ^ k) :: 'a word) = 2 ^ k" by (simp only: unat_of_nat mod_less)
  moreover have "(word_of_nat (2 ^ k) :: 'a word) = 2 ^ k" by simp
  ultimately show ?thesis by metis
qed

lemma unat_mask: "k < LENGTH('a) \<Longrightarrow> unat (mask k :: 'a::len word) = 2 ^ k - 1"
proof -
  assume k: "k < LENGTH('a)"
  have "1 \<le> (2 :: 'a word) ^ k" using unat_pow2 [OF k] by (simp add: word_le_nat_alt)
  then show ?thesis using unat_pow2 [OF k] by (simp add: mask_eq_exp_minus_1 unat_sub)
qed

lemma align_up_mask:
  assumes "k < 64" and "unat x + 2 ^ k \<le> 2 ^ 64"
  shows "unat ((x + mask k) AND NOT (mask k) :: u64) = round_up (2 ^ k) (unat x)"
proof -
  have mk: "unat (mask k :: u64) = 2 ^ k - 1"
    using assms(1) by (simp add: unat_mask)
  have "unat x + unat (mask k :: u64) < 2 ^ 64"
    unfolding mk using assms(2) one_le_power [of "2::nat" k] by linarith
  then have "unat (x + mask k) = unat x + (2 ^ k - 1)" using unat_add_lem [of x "mask k"] mk by simp
  then have "unat (x + mask k) = unat x + 2 ^ k - 1" using one_le_power [of "2::nat" k] by linarith
  then show ?thesis by (simp add: unat_and_not_mask round_up_def)
qed

lemma align_up_word:
  assumes "k < 64" and "unat x + 2 ^ k \<le> 2 ^ 64"
  shows "unat ((x + 2 ^ k - 1) AND NOT (2 ^ k - 1 :: u64)) = round_up (2 ^ k) (unat x)"
proof -
  have m: "(2 :: u64) ^ k - 1 = mask k" and xm: "x + 2 ^ k - 1 = x + mask k"
    by (simp_all add: mask_eq_exp_minus_1)
  show ?thesis unfolding xm unfolding m by (rule align_up_mask [OF assms])
qed

end
