(* ===== verification/Steps.thy ===== *)
theory Steps
  imports Prelude
begin

text \<open>
  Shared vocabulary of the concurrent components. Every one of them is a labelled step
  relation \<open>step s i s'\<close>: thread \<open>i\<close> takes one atomic step. The locale \<open>threads_system\<close> gives
  invariants of the reachable states from invariants of the single steps; the counting
  lemmas follow how many threads stand at a point of the program.
\<close>

section \<open>Reachable states\<close>

inductive runs :: "('s \<Rightarrow> nat \<Rightarrow> 's \<Rightarrow> bool) \<Rightarrow> 's \<Rightarrow> 's \<Rightarrow> bool" for step where
  runs_refl [intro!]: "runs step s s"
| runs_step: "runs step s s' \<Longrightarrow> step s' i s'' \<Longrightarrow> runs step s s''"

lemma runs_one: "step s i s' \<Longrightarrow> runs step s s'"
  by (rule runs_step [OF runs_refl])

locale threads_system =
  fixes step :: "'s \<Rightarrow> nat \<Rightarrow> 's \<Rightarrow> bool"
    and start :: "'s \<Rightarrow> bool"
    and good :: "'s \<Rightarrow> bool"
  assumes start_good: "start s \<Longrightarrow> good s"
    and step_good: "good s \<Longrightarrow> step s i s' \<Longrightarrow> good s'"
begin

lemma runs_good:
  assumes "runs step s s'" and "good s"
  shows "good s'"
  using assms by (induction rule: runs.induct) (blast intro: step_good)+

lemma reachable_good: "runs step s s' \<Longrightarrow> start s \<Longrightarrow> good s'"
  by (blast intro: runs_good start_good)

end

section \<open>Counting threads\<close>

definition cnt :: "('a \<Rightarrow> bool) \<Rightarrow> 'a list \<Rightarrow> int" where
  "cnt P xs = int (length (filter P xs))"

lemma cnt_nonneg: "0 \<le> cnt P xs"
  by (simp add: cnt_def)

lemma cnt_le_length: "cnt P xs \<le> int (length xs)"
  by (simp add: cnt_def)

lemma cnt_Cons [simp]: "cnt P [] = 0" "cnt P (x # xs) = (if P x then 1 else 0) + cnt P xs"
  by (simp_all add: cnt_def)

lemma cnt_upd:
  "i < length xs \<Longrightarrow> cnt P (xs[i := y]) = cnt P xs - (if P (xs ! i) then 1 else 0) + (if P y then 1 else 0)"
  by (induction xs arbitrary: i) (auto split: nat.splits)

lemma cnt_pos: "i < length xs \<Longrightarrow> P (xs ! i) \<Longrightarrow> 1 \<le> cnt P xs"
  by (auto simp: cnt_def filter_empty_conv Suc_le_eq)

lemma cnt_posE:
  assumes "0 < cnt P xs"
  obtains i where "i < length xs" "P (xs ! i)"
  using assms by (auto simp: cnt_def filter_empty_conv in_set_conv_nth)

lemma cnt_zero: "\<forall>x \<in> set xs. \<not> P x \<Longrightarrow> cnt P xs = 0"
  by (simp add: cnt_def filter_empty_conv)

lemma cnt_replicate [simp]: "cnt P (replicate n x) = (if P x then int n else 0)"
  by (simp add: cnt_def)

lemma cnt_unique:
  assumes "cnt P xs \<le> 1" and "i < length xs" and "j < length xs" and "P (xs ! i)" and "P (xs ! j)"
  shows "i = j"
proof (rule ccontr)
  assume ne: "i \<noteq> j"
  have "length (filter P xs) = card {k. k < length xs \<and> P (xs ! k)}" by (rule length_filter_conv_card)
  moreover have "card {i, j} \<le> card {k. k < length xs \<and> P (xs ! k)}"
    using assms by (intro card_mono) auto
  ultimately show False using assms(1) ne by (simp add: cnt_def)
qed

section \<open>Wait queues and their lock\<close>

text \<open>
  A wait queue of the blocking primitives holds exactly the threads that are blocked on it,
  once each; its ticket lock is owned by the thread that is about to enter the queue.
\<close>

definition at_pc :: "('a \<Rightarrow> bool) \<Rightarrow> 'a list \<Rightarrow> nat set" where
  "at_pc B pcs = {i. i < length pcs \<and> B (pcs ! i)}"

definition waitq :: "('a \<Rightarrow> bool) \<Rightarrow> nat list \<Rightarrow> 'a list \<Rightarrow> bool" where
  "waitq B q pcs \<longleftrightarrow> distinct q \<and> set q = at_pc B pcs"

definition owned :: "('a \<Rightarrow> bool) \<Rightarrow> nat option \<Rightarrow> 'a list \<Rightarrow> bool" where
  "owned B ow pcs \<longleftrightarrow> at_pc B pcs = set_option ow"

lemma at_pc_upd:
  "i < length pcs \<Longrightarrow> at_pc B (pcs[i := p]) = (if B p then insert i (at_pc B pcs) else at_pc B pcs - {i})"
  by (auto simp: at_pc_def nth_list_update)

lemma at_pc_iff: "i \<in> at_pc B pcs \<longleftrightarrow> i < length pcs \<and> B (pcs ! i)"
  by (simp add: at_pc_def)

lemma at_pc_none: "\<forall>p \<in> set pcs. \<not> B p \<Longrightarrow> at_pc B pcs = {}"
  by (auto simp: at_pc_def)

lemma at_pc_same:
  "i < length pcs \<Longrightarrow> B (pcs ! i) = B p \<Longrightarrow> at_pc B (pcs[i := p]) = at_pc B pcs"
  unfolding at_pc_upd by (auto simp: at_pc_def)

lemma waitq_upd:
  "waitq B q pcs \<Longrightarrow> i < length pcs \<Longrightarrow> B (pcs ! i) = B p \<Longrightarrow> waitq B q (pcs[i := p])"
  by (simp add: waitq_def at_pc_same)

lemma waitq_push:
  "waitq B q pcs \<Longrightarrow> i < length pcs \<Longrightarrow> \<not> B (pcs ! i) \<Longrightarrow> B p \<Longrightarrow> waitq B (q @ [i]) (pcs[i := p])"
  by (auto simp: waitq_def at_pc_upd at_pc_iff)

lemma waitq_hd: "waitq B (t # q) pcs \<Longrightarrow> t < length pcs \<and> B (pcs ! t)"
  using at_pc_iff [of t B pcs] by (auto simp: waitq_def)

lemma waitq_pop: "waitq B (t # q) pcs \<Longrightarrow> \<not> B p \<Longrightarrow> waitq B q (pcs[t := p])"
  using waitq_hd [of B t q pcs] by (auto simp: waitq_def at_pc_upd)

lemma waitq_pop_at:
  assumes "waitq B (t # q) pcs" and "i < length pcs" and "\<not> B (pcs ! i)" and "\<not> B p" and "\<not> B p'"
  shows "waitq B q (pcs[t := p, i := p'])"
proof -
  have "i \<noteq> t" using waitq_hd [OF assms(1)] assms(3) by auto
  then show ?thesis using waitq_upd [OF waitq_pop [OF assms(1,4)], of i p'] assms by simp
qed

lemma waitq_nonempty: "waitq B q pcs \<Longrightarrow> i < length pcs \<Longrightarrow> B (pcs ! i) \<Longrightarrow> q \<noteq> []"
  using at_pc_iff [of i B pcs] by (auto simp: waitq_def)

lemma owned_upd:
  "owned B ow pcs \<Longrightarrow> i < length pcs \<Longrightarrow> B (pcs ! i) = B p \<Longrightarrow> owned B ow (pcs[i := p])"
  by (simp add: owned_def at_pc_same)

lemma owned_take:
  "owned B None pcs \<Longrightarrow> i < length pcs \<Longrightarrow> B p \<Longrightarrow> owned B (Some i) (pcs[i := p])"
  by (simp add: owned_def at_pc_upd)

lemma owned_is: "owned B ow pcs \<Longrightarrow> i < length pcs \<Longrightarrow> B (pcs ! i) \<Longrightarrow> ow = Some i"
  using at_pc_iff [of i B pcs] by (auto simp: owned_def)

lemma owned_drop:
  "owned B ow pcs \<Longrightarrow> i < length pcs \<Longrightarrow> B (pcs ! i) \<Longrightarrow> \<not> B p \<Longrightarrow> owned B None (pcs[i := p])"
  using owned_is [of B ow pcs i] by (simp add: owned_def at_pc_upd)

lemma owned_someE:
  assumes "owned B ow pcs" and "ow \<noteq> None"
  obtains i where "i < length pcs" "B (pcs ! i)" "ow = Some i"
  using assms at_pc_iff [of _ B pcs] by (auto simp: owned_def)

lemmas queue_rules = waitq_upd waitq_push waitq_pop owned_upd owned_take owned_drop

lemma waitq_none: "\<forall>p \<in> set pcs. \<not> B p \<Longrightarrow> waitq B [] pcs" "\<forall>p \<in> set pcs. \<not> B p \<Longrightarrow> owned B None pcs"
  by (simp_all add: waitq_def owned_def at_pc_none)

text \<open>Waking every thread of a queue.\<close>

definition wake_each :: "'a \<Rightarrow> nat list \<Rightarrow> 'a list \<Rightarrow> 'a list" where
  "wake_each p q pcs = fold (\<lambda>t ps. ps[t := p]) q pcs"

lemma wake_each_simps [simp]:
  "wake_each p [] pcs = pcs" "wake_each p (t # q) pcs = wake_each p q (pcs[t := p])"
  by (simp_all add: wake_each_def)

lemma length_wake_each [simp]: "length (wake_each p q pcs) = length pcs"
  by (induction q arbitrary: pcs) auto

lemma nth_wake_each:
  "i < length pcs \<Longrightarrow> wake_each p q pcs ! i = (if i \<in> set q then p else pcs ! i)"
  by (induction q arbitrary: pcs) (auto simp: nth_list_update)

lemma at_pc_wake_each:
  "\<not> B p \<Longrightarrow> at_pc B (wake_each p q pcs) = at_pc B pcs - set q"
  by (auto simp: at_pc_def nth_wake_each split: if_splits)

lemma waitq_wake_each: "waitq B q pcs \<Longrightarrow> \<not> B p \<Longrightarrow> waitq B [] (wake_each p q pcs)"
  by (simp add: waitq_def at_pc_wake_each)

lemma at_pc_disjoint: "\<forall>x. B' x \<longrightarrow> \<not> B x \<Longrightarrow> at_pc B pcs - at_pc B' pcs = at_pc B pcs"
  by (auto simp: at_pc_def)

lemma waitq_wake_other:
  assumes "waitq B q pcs" and "waitq B' q' pcs" and "\<not> B p" and "\<forall>x. B' x \<longrightarrow> \<not> B x"
  shows "waitq B q (wake_each p q' pcs)"
  using assms at_pc_disjoint [OF assms(4), of pcs] by (simp add: waitq_def at_pc_wake_each)

lemma owned_wake_each:
  assumes "owned B ow pcs" and "waitq B' q pcs" and "\<not> B p" and "\<forall>x. B' x \<longrightarrow> \<not> B x"
  shows "owned B ow (wake_each p q pcs)"
  using assms at_pc_disjoint [OF assms(4), of pcs] by (simp add: owned_def waitq_def at_pc_wake_each)

lemma cnt_at_pc: "cnt P xs = int (card (at_pc P xs))"
  by (simp add: cnt_def at_pc_def length_filter_conv_card)

lemma cnt_wake_each:
  "waitq B q pcs \<Longrightarrow> \<not> P p \<Longrightarrow> \<forall>x. B x \<longrightarrow> \<not> P x \<Longrightarrow> cnt P (wake_each p q pcs) = cnt P pcs"
  by (simp add: cnt_at_pc at_pc_wake_each waitq_def at_pc_disjoint)

end
