(* ===== verification/Locks.thy ===== *)
theory Locks
  imports Steps
begin

text \<open>
  Spinning locks and one-time initialisation: \<^verbatim>\<open>lib/vespertine-common/src/lock.rs\<close>, the kernel's
  wrapper \<^verbatim>\<open>core/sync/lock.rs\<close> and \<^verbatim>\<open>core/sync/once.rs\<close>. Each thread has a program point; a step
  is one atomic operation of one thread. A spin iteration that reads an unchanged value
  changes nothing and is left out.
\<close>

section \<open>Mutual exclusion as an interface\<close>

locale exclusive_lock = threads_system step start good
  for step :: "'s \<Rightarrow> nat \<Rightarrow> 's \<Rightarrow> bool" and start :: "'s \<Rightarrow> bool" and good :: "'s \<Rightarrow> bool" +
  fixes inside :: "'s \<Rightarrow> nat \<Rightarrow> bool"
  assumes one_inside: "good s \<Longrightarrow> inside s i \<Longrightarrow> inside s j \<Longrightarrow> i = j"
begin

lemma exclusion:
  assumes "start s" and "runs step s s'" and "inside s' i" and "inside s' j"
  shows "i = j"
  using one_inside [OF reachable_good [OF assms(2,1)] assms(3,4)] .

end

section \<open>Spin lock\<close>

datatype spin_pc = SpOut | SpSwap | SpSpin | SpIn

record spin_lock =
  locked :: bool
  spin_pcs :: "spin_pc list"

inductive spin_step :: "spin_lock \<Rightarrow> nat \<Rightarrow> spin_lock \<Rightarrow> bool" where
  spin_call: "i < length (spin_pcs s) \<Longrightarrow> spin_pcs s ! i = SpOut \<Longrightarrow>
    spin_step s i (s\<lparr>spin_pcs := (spin_pcs s)[i := SpSwap]\<rparr>)"
| spin_acquire: "i < length (spin_pcs s) \<Longrightarrow> spin_pcs s ! i = SpSwap \<Longrightarrow> \<not> locked s \<Longrightarrow>
    spin_step s i (s\<lparr>locked := True, spin_pcs := (spin_pcs s)[i := SpIn]\<rparr>)"
| spin_fail: "i < length (spin_pcs s) \<Longrightarrow> spin_pcs s ! i = SpSwap \<Longrightarrow> locked s \<Longrightarrow>
    spin_step s i (s\<lparr>locked := True, spin_pcs := (spin_pcs s)[i := SpSpin]\<rparr>)"
| spin_seen_free: "i < length (spin_pcs s) \<Longrightarrow> spin_pcs s ! i = SpSpin \<Longrightarrow> \<not> locked s \<Longrightarrow>
    spin_step s i (s\<lparr>spin_pcs := (spin_pcs s)[i := SpSwap]\<rparr>)"
| spin_unlock: "i < length (spin_pcs s) \<Longrightarrow> spin_pcs s ! i = SpIn \<Longrightarrow>
    spin_step s i (s\<lparr>locked := False, spin_pcs := (spin_pcs s)[i := SpOut]\<rparr>)"

definition spin_start :: "spin_lock \<Rightarrow> bool" where
  "spin_start s \<longleftrightarrow> \<not> locked s \<and> (\<forall>p \<in> set (spin_pcs s). p = SpOut)"

definition spin_good :: "spin_lock \<Rightarrow> bool" where
  "spin_good s \<longleftrightarrow> cnt (\<lambda>p. p = SpIn) (spin_pcs s) = (if locked s then 1 else 0)"

definition spin_inside :: "spin_lock \<Rightarrow> nat \<Rightarrow> bool" where
  "spin_inside s i \<longleftrightarrow> i < length (spin_pcs s) \<and> spin_pcs s ! i = SpIn"

interpretation spin: exclusive_lock spin_step spin_start spin_good spin_inside
proof unfold_locales
  fix s assume "spin_start s"
  then show "spin_good s" by (auto simp: spin_start_def spin_good_def intro!: cnt_zero)
next
  fix s i s' assume "spin_good s" and "spin_step s i s'"
  then show "spin_good s'"
    using cnt_pos [of i "spin_pcs s" "\<lambda>p. p = SpIn"]
    by (cases rule: spin_step.cases [OF \<open>spin_step s i s'\<close>]) (auto simp: spin_good_def cnt_upd split: if_splits)
next
  fix s i j assume "spin_good s" and "spin_inside s i" and "spin_inside s j"
  then show "i = j"
    using cnt_unique [of "\<lambda>p. p = SpIn" "spin_pcs s" i j] by (simp add: spin_good_def spin_inside_def)
qed

section \<open>Ticket lock\<close>

datatype ticket_pc = TOut | TWait u64 | TIn

record ticket_lock =
  ticket :: u64
  serving :: u64
  ticket_pcs :: "ticket_pc list"

inductive ticket_step :: "ticket_lock \<Rightarrow> nat \<Rightarrow> ticket_lock \<Rightarrow> bool" where
  ticket_draw: "i < length (ticket_pcs s) \<Longrightarrow> ticket_pcs s ! i = TOut \<Longrightarrow>
    ticket_step s i (s\<lparr>ticket := ticket s + 1, ticket_pcs := (ticket_pcs s)[i := TWait (ticket s)]\<rparr>)"
| ticket_enter: "i < length (ticket_pcs s) \<Longrightarrow> ticket_pcs s ! i = TWait k \<Longrightarrow> serving s = k \<Longrightarrow>
    ticket_step s i (s\<lparr>ticket_pcs := (ticket_pcs s)[i := TIn]\<rparr>)"
| ticket_unlock: "i < length (ticket_pcs s) \<Longrightarrow> ticket_pcs s ! i = TIn \<Longrightarrow>
    ticket_step s i (s\<lparr>serving := serving s + 1, ticket_pcs := (ticket_pcs s)[i := TOut]\<rparr>)"

inductive_cases ticket_stepE: "ticket_step s i s'"

definition ticket_start :: "ticket_lock \<Rightarrow> bool" where
  "ticket_start s \<longleftrightarrow> ticket s = serving s \<and> length (ticket_pcs s) < 2 ^ 64 \<and> (\<forall>p \<in> set (ticket_pcs s). p = TOut)"

text \<open>The line of threads in the lock, in the order they drew their tickets.\<close>

definition in_line :: "ticket_lock \<Rightarrow> nat list \<Rightarrow> bool" where
  "in_line s Q \<longleftrightarrow> waitq (\<lambda>p. p \<noteq> TOut) Q (ticket_pcs s) \<and>
     ticket s = serving s + of_nat (length Q) \<and>
     (\<forall>k < length Q. ticket_pcs s ! (Q ! k) = TWait (serving s + of_nat k) \<or> k = 0 \<and> ticket_pcs s ! (Q ! k) = TIn)"

definition ticket_good :: "ticket_lock \<Rightarrow> bool" where
  "ticket_good s \<longleftrightarrow> length (ticket_pcs s) < 2 ^ 64 \<and> (\<exists>Q. in_line s Q)"

definition ticket_inside :: "ticket_lock \<Rightarrow> nat \<Rightarrow> bool" where
  "ticket_inside s i \<longleftrightarrow> i < length (ticket_pcs s) \<and> ticket_pcs s ! i = TIn"

text \<open>The abstract queue lock the tickets implement.\<close>

inductive line_step :: "nat list \<Rightarrow> nat \<Rightarrow> nat list \<Rightarrow> bool" where
  line_join: "i \<notin> set Q \<Longrightarrow> line_step Q i (Q @ [i])"
| line_stay: "line_step (i # Q) i (i # Q)"
| line_leave: "line_step (i # Q) i Q"

lemma in_line_length: "in_line s Q \<Longrightarrow> length Q \<le> length (ticket_pcs s)"
proof -
  assume "in_line s Q"
  then have "distinct Q" "set Q \<subseteq> {..<length (ticket_pcs s)}" by (auto simp: in_line_def waitq_def at_pc_def)
  then show ?thesis using card_mono [of "{..<length (ticket_pcs s)}" "set Q"] by (simp add: distinct_card)
qed

lemma in_line_index:
  assumes "in_line s Q" and "i < length (ticket_pcs s)" and "ticket_pcs s ! i \<noteq> TOut"
  obtains k where "k < length Q" "Q ! k = i"
proof -
  have "i \<in> set Q" using assms by (simp add: in_line_def waitq_def at_pc_iff)
  then show ?thesis using that by (auto simp: in_set_conv_nth)
qed

lemma small_word_inj: "m < 2 ^ 64 \<Longrightarrow> n < 2 ^ 64 \<Longrightarrow> (of_nat m :: u64) = of_nat n \<Longrightarrow> m = n"
  by (drule arg_cong [where f = unat]) (simp add: unsigned_of_nat take_bit_nat_eq_self)

lemma in_line_head:
  assumes l: "in_line s Q" and n: "length (ticket_pcs s) < 2 ^ 64" and i: "i < length (ticket_pcs s)"
    and p: "ticket_pcs s ! i = TIn \<or> ticket_pcs s ! i = TWait (serving s)"
  obtains Q' where "Q = i # Q'"
proof -
  obtain k where k: "k < length Q" "Q ! k = i" using in_line_index [OF l i] p by (metis ticket_pc.distinct(1) ticket_pc.distinct(3))
  then have "k < 2 ^ 64" using in_line_length [OF l] n by simp
  moreover have "k = 0 \<or> (of_nat k :: u64) = of_nat 0" using l k p by (auto simp: in_line_def)
  ultimately have "k = 0" using small_word_inj [of k 0] by auto
  then show ?thesis using k that by (cases Q) auto
qed

lemma ticket_step_line:
  assumes st: "ticket_step s i s'" and l: "in_line s Q" and n: "length (ticket_pcs s) < 2 ^ 64"
  obtains Q' where "in_line s' Q'" "line_step Q i Q'"
  using st
proof (cases rule: ticket_step.cases)
  case ticket_draw
  have ni: "i \<notin> set Q" using l ticket_draw by (simp add: in_line_def waitq_def at_pc_iff)
  have "waitq (\<lambda>p. p \<noteq> TOut) (Q @ [i]) ((ticket_pcs s)[i := TWait (ticket s)])"
    using l ticket_draw by (intro waitq_push) (auto simp: in_line_def)
  moreover have "ticket_pcs s' ! ((Q @ [i]) ! k) = TWait (serving s + of_nat k) \<or> k = 0 \<and> ticket_pcs s' ! ((Q @ [i]) ! k) = TIn"
    if "k < length (Q @ [i])" for k
  proof (cases "k = length Q")
    case True
    then show ?thesis using l ticket_draw by (simp add: in_line_def)
  next
    case False
    then have "k < length Q" "Q ! k \<noteq> i" using that ni nth_mem [of k Q] by auto
    then show ?thesis using l ticket_draw by (auto simp: in_line_def nth_append)
  qed
  ultimately have "in_line s' (Q @ [i])" using l ticket_draw by (simp add: in_line_def)
  then show ?thesis using that line_join [OF ni] by blast
next
  case (ticket_enter k)
  obtain Q' where q: "Q = i # Q'" using in_line_head [OF l n] ticket_enter by metis
  have "waitq (\<lambda>p. p \<noteq> TOut) Q ((ticket_pcs s)[i := TIn])"
    using l ticket_enter by (intro waitq_upd) (auto simp: in_line_def)
  moreover have "ticket_pcs s' ! (Q ! j) = TWait (serving s + of_nat j) \<or> j = 0 \<and> ticket_pcs s' ! (Q ! j) = TIn"
    if "j < length Q" for j
  proof (cases j)
    case 0
    then show ?thesis using ticket_enter q by simp
  next
    case (Suc m)
    then have "Q ! j \<noteq> i" using l q that nth_mem [of m Q'] by (auto simp: in_line_def waitq_def)
    then show ?thesis using l ticket_enter that Suc by (auto simp: in_line_def)
  qed
  ultimately have "in_line s' Q" using l ticket_enter by (simp add: in_line_def)
  then show ?thesis using that q line_stay by blast
next
  case ticket_unlock
  obtain Q' where q: "Q = i # Q'" using in_line_head [OF l n] ticket_unlock by metis
  have "waitq (\<lambda>p. p \<noteq> TOut) Q' ((ticket_pcs s)[i := TOut])"
    using l q by (intro waitq_pop) (auto simp: in_line_def)
  moreover have "ticket_pcs s' ! (Q' ! j) = TWait (serving s + 1 + of_nat j)" if "j < length Q'" for j
  proof -
    have "Q' ! j \<noteq> i" using l q that nth_mem [of j Q'] by (auto simp: in_line_def waitq_def)
    moreover have "ticket_pcs s ! (Q' ! j) = TWait (serving s + of_nat (Suc j))"
      using l q that by (auto simp: in_line_def)
    ultimately show ?thesis using ticket_unlock by (simp add: add.assoc)
  qed
  ultimately have "in_line s' Q'" using l ticket_unlock q by (simp add: in_line_def)
  then show ?thesis using that q line_leave by blast
qed

lemma ticket_start_line: "ticket_start s \<Longrightarrow> in_line s []"
  by (auto simp: ticket_start_def in_line_def waitq_def at_pc_def)

lemma ticket_step_length: "ticket_step s i s' \<Longrightarrow> length (ticket_pcs s') = length (ticket_pcs s)"
  by (auto elim: ticket_stepE)

interpretation ticket: exclusive_lock ticket_step ticket_start ticket_good ticket_inside
proof unfold_locales
  fix s assume "ticket_start s"
  then show "ticket_good s" using ticket_start_line by (auto simp: ticket_good_def ticket_start_def)
next
  fix s i s' assume "ticket_good s" and "ticket_step s i s'"
  then show "ticket_good s'"
    using ticket_step_length unfolding ticket_good_def by (metis ticket_step_line)
next
  fix s i j assume g: "ticket_good s" and i: "ticket_inside s i" and j: "ticket_inside s j"
  obtain Q where "in_line s Q" "length (ticket_pcs s) < 2 ^ 64" using g by (auto simp: ticket_good_def)
  then show "i = j" using i j in_line_head unfolding ticket_inside_def by (metis list.inject)
qed

text \<open>
  C21. First come, first served. In every reachable state of the ticket lock the threads in it
  form a line in the order of their tickets, also after the counters have wrapped around.
  Only the first of the line is ever inside; if nobody is, the first one can enter; and each
  step of a thread joins the line at its end, leaves it from its front, or keeps it.
\<close>

theorem ticket_lock_fifo:
  assumes "ticket_start s0" and "runs ticket_step s0 s"
  shows "\<exists>Q. in_line s Q \<and>
     (\<forall>i. ticket_inside s i \<longrightarrow> Q \<noteq> [] \<and> hd Q = i) \<and>
     (Q \<noteq> [] \<longrightarrow> (\<exists>s'. ticket_step s (hd Q) s' \<and> (ticket_inside s (hd Q) \<or> ticket_inside s' (hd Q)))) \<and>
     (\<forall>i s'. ticket_step s i s' \<longrightarrow> (\<exists>Q'. in_line s' Q' \<and> line_step Q i Q'))"
proof -
  obtain Q where l: "in_line s Q" and n: "length (ticket_pcs s) < 2 ^ 64"
    using ticket.reachable_good [OF assms(2,1)] by (auto simp: ticket_good_def)
  have head: "Q \<noteq> [] \<and> hd Q = i" if "ticket_inside s i" for i
    using in_line_head [OF l n, of i] that unfolding ticket_inside_def by (metis list.discI list.sel(1))
  have enter: "\<exists>s'. ticket_step s (hd Q) s' \<and> (ticket_inside s (hd Q) \<or> ticket_inside s' (hd Q))" if ne: "Q \<noteq> []"
  proof -
    have h: "hd Q < length (ticket_pcs s)"
      using l hd_in_set [OF ne] by (auto simp: in_line_def waitq_def at_pc_iff)
    have "ticket_pcs s ! hd Q = TWait (serving s) \<or> ticket_pcs s ! hd Q = TIn"
      using l ne by (auto simp: in_line_def hd_conv_nth)
    then show ?thesis
    proof
      assume "ticket_pcs s ! hd Q = TWait (serving s)"
      from ticket_enter [OF h this refl] h show ?thesis by (auto simp: ticket_inside_def)
    next
      assume "ticket_pcs s ! hd Q = TIn"
      from ticket_unlock [OF h this] this h show ?thesis by (auto simp: ticket_inside_def)
    qed
  qed
  show ?thesis using l head enter ticket_step_line [OF _ l n] by metis
qed

theorem ticket_lock_fifo_witness:
  "\<exists>s Q. runs ticket_step \<lparr>ticket = - 1, serving = - 1, ticket_pcs = [TOut, TOut]\<rparr> s \<and> in_line s Q \<and> Q \<noteq> [] \<and>
     ticket s = 0"
proof -
  let ?s = "\<lparr>ticket = - 1, serving = - 1, ticket_pcs = [TOut, TOut]\<rparr> :: ticket_lock"
  let ?t = "\<lparr>ticket = 0, serving = - 1, ticket_pcs = [TOut, TWait (- 1)]\<rparr> :: ticket_lock"
  have "ticket_step ?s 1 ?t" using ticket_draw [of 1 ?s] by simp
  then have r: "runs ticket_step ?s ?t" by (rule runs_one)
  have s: "ticket_start ?s" by (simp add: ticket_start_def)
  obtain Q where "in_line ?t Q" using ticket_lock_fifo [OF s r] by blast
  moreover from this have "Q \<noteq> []" using waitq_nonempty [of "\<lambda>p. p \<noteq> TOut" Q "ticket_pcs ?t" 1] by (simp add: in_line_def)
  ultimately show ?thesis using r by (metis ticket_lock.select_convs(1))
qed

section \<open>Interrupts around a lock\<close>

text \<open>
  The kernel's lock turns interrupts off before it takes the raw lock and restores them when
  the guard is dropped. A core's critical sections nest: between a lock and the drop of its
  guard other locks are taken and dropped.
\<close>

definition lock_enter :: "bool \<Rightarrow> bool \<times> bool" where
  "lock_enter interrupts = (if interrupts then False else interrupts, interrupts)"

definition guard_drop :: "bool \<Rightarrow> bool \<Rightarrow> bool" where
  "guard_drop interrupts_state interrupts = (if interrupts_state then True else interrupts)"

datatype nesting = Section "nesting list"

fun run_section :: "nesting \<Rightarrow> bool \<Rightarrow> bool \<times> bool list"
  and run_sections :: "nesting list \<Rightarrow> bool \<Rightarrow> bool \<times> bool list" where
  "run_section (Section xs) b =
    (case lock_enter b of (b1, saved) \<Rightarrow>
       case run_sections xs b1 of (b2, seen) \<Rightarrow> (guard_drop saved b2, b1 # seen @ [b2]))"
| "run_sections [] b = (b, [])"
| "run_sections (x # xs) b =
    (case run_section x b of (b1, seen1) \<Rightarrow> case run_sections xs b1 of (b2, seen2) \<Rightarrow> (b2, seen1 @ seen2))"

lemma nested_sections_restore:
  "fst (run_section x b) = b \<and> True \<notin> set (snd (run_section x b))"
  "\<not> c \<Longrightarrow> fst (run_sections xs c) = c \<and> True \<notin> set (snd (run_sections xs c))"
proof (induction x b and xs c rule: run_section_run_sections.induct)
  case (1 xs b)
  have "fst (run_sections xs False) = False \<and> True \<notin> set (snd (run_sections xs False))"
    using 1 [of False b] by (simp add: lock_enter_def)
  then show ?case by (cases "run_sections xs False") (auto simp: lock_enter_def guard_drop_def)
next
  case (3 x xs c)
  then show ?case by (cases "run_section x c"; cases "run_sections xs c") auto
qed simp

section \<open>One-time initialisation\<close>

datatype once_state = UNINITIATED | RUNNING | READY

datatype 'v once_pc = OnStart | OnLoop | OnInit | OnPublish | OnDone "'v option"

record 'v once_cell =
  cell_state :: once_state
  cell_value :: "'v option"
  once_pcs :: "'v once_pc list"

text \<open>Thread \<open>i\<close> would initialise the cell with \<open>f i\<close>. \<open>OnDone v\<close> is the value it returns; \<open>None\<close> is uninitialised memory.\<close>

inductive once_step :: "(nat \<Rightarrow> 'v) \<Rightarrow> 'v once_cell \<Rightarrow> nat \<Rightarrow> 'v once_cell \<Rightarrow> bool" for f where
  once_fast: "i < length (once_pcs s) \<Longrightarrow> once_pcs s ! i = OnStart \<Longrightarrow> cell_state s = READY \<Longrightarrow>
    once_step f s i (s\<lparr>once_pcs := (once_pcs s)[i := OnDone (cell_value s)]\<rparr>)"
| once_slow: "i < length (once_pcs s) \<Longrightarrow> once_pcs s ! i = OnStart \<Longrightarrow> cell_state s \<noteq> READY \<Longrightarrow>
    once_step f s i (s\<lparr>once_pcs := (once_pcs s)[i := OnLoop]\<rparr>)"
| once_claim: "i < length (once_pcs s) \<Longrightarrow> once_pcs s ! i = OnLoop \<Longrightarrow> cell_state s = UNINITIATED \<Longrightarrow>
    once_step f s i (s\<lparr>cell_state := RUNNING, once_pcs := (once_pcs s)[i := OnInit]\<rparr>)"
| once_seen: "i < length (once_pcs s) \<Longrightarrow> once_pcs s ! i = OnLoop \<Longrightarrow> cell_state s = READY \<Longrightarrow>
    once_step f s i (s\<lparr>once_pcs := (once_pcs s)[i := OnDone (cell_value s)]\<rparr>)"
| once_write: "i < length (once_pcs s) \<Longrightarrow> once_pcs s ! i = OnInit \<Longrightarrow>
    once_step f s i (s\<lparr>cell_value := Some (f i), once_pcs := (once_pcs s)[i := OnPublish]\<rparr>)"
| once_publish: "i < length (once_pcs s) \<Longrightarrow> once_pcs s ! i = OnPublish \<Longrightarrow>
    once_step f s i (s\<lparr>cell_state := READY, once_pcs := (once_pcs s)[i := OnDone (cell_value s)]\<rparr>)"

definition once_get :: "'v once_cell \<Rightarrow> 'v option option" where
  "once_get s = (if cell_state s = READY then Some (cell_value s) else None)"

definition once_deref :: "'v once_cell \<Rightarrow> 'v option run" where
  "once_deref s = (if cell_state s = READY then ret (cell_value s) else panic)"

definition once_start :: "'v once_cell \<Rightarrow> bool" where
  "once_start s \<longleftrightarrow> cell_state s = UNINITIATED \<and> (\<forall>p \<in> set (once_pcs s). p = OnStart)"

fun initialising :: "'v once_pc \<Rightarrow> bool" where
  "initialising OnInit = True"
| "initialising OnPublish = True"
| "initialising _ = False"

definition once_good :: "(nat \<Rightarrow> 'v) \<Rightarrow> 'v once_cell \<Rightarrow> bool" where
  "once_good f s \<longleftrightarrow>
    cnt initialising (once_pcs s) = (if cell_state s = RUNNING then 1 else 0) \<and>
    (OnPublish \<in> set (once_pcs s) \<or> cell_state s = READY \<longrightarrow> (\<exists>i < length (once_pcs s). cell_value s = Some (f i))) \<and>
    (\<forall>v. OnDone v \<in> set (once_pcs s) \<longrightarrow> cell_state s = READY \<and> v = cell_value s)"

lemma set_upd_cases: "x \<in> set (xs[i := y]) \<Longrightarrow> x = y \<or> x \<in> set xs"
  using set_update_subset_insert [of xs i y] by auto

lemma once_step_good:
  assumes "once_step f s i s'" and g: "once_good f s"
  shows "once_good f s'"
  using assms(1)
proof (cases rule: once_step.cases)
  case once_write
  have "cell_state s = RUNNING" using cnt_pos [of i "once_pcs s" initialising] once_write g by (auto simp: once_good_def split: if_splits)
  then show ?thesis using once_write g by (auto simp: once_good_def cnt_upd dest!: set_upd_cases)
next
  case once_publish
  have "cell_state s = RUNNING" using cnt_pos [of i "once_pcs s" initialising] once_publish g by (auto simp: once_good_def split: if_splits)
  moreover have "OnPublish \<in> set (once_pcs s)" using once_publish nth_mem [of i "once_pcs s"] by simp
  ultimately show ?thesis using once_publish g by (auto simp: once_good_def cnt_upd dest!: set_upd_cases)
qed (use g in \<open>auto simp: once_good_def cnt_upd dest!: set_upd_cases\<close>)

interpretation once: threads_system "once_step f" once_start "once_good f" for f :: "nat \<Rightarrow> 'v"
proof unfold_locales
  fix s :: "'v once_cell" assume "once_start s"
  then show "once_good f s" by (auto simp: once_start_def once_good_def intro!: cnt_zero)
qed (rule once_step_good)

text \<open>
  A cell is initialised once. Whatever number of threads race for it, all that return get
  the same value, the value one of them computed, and never uninitialised memory; two threads
  never run their initialisers at the same time, and a cell that is ready stays as it is.
\<close>

theorem once_initialised_once:
  assumes "once_start s0" and "runs (once_step f) s0 s" and "OnDone v \<in> set (once_pcs s)"
  shows "(\<exists>i < length (once_pcs s). v = Some (f i)) \<and> once_get s = Some v \<and>
    (\<forall>w. OnDone w \<in> set (once_pcs s) \<longrightarrow> w = v) \<and>
    (\<forall>i. i < length (once_pcs s) \<longrightarrow> \<not> initialising (once_pcs s ! i)) \<and>
    (\<forall>j s'. once_step f s j s' \<longrightarrow> once_deref s' = ret v)"
proof -
  have g: "once_good f s" using once.reachable_good [OF assms(2,1)] .
  then have r: "cell_state s = READY" "v = cell_value s" using assms(3) by (auto simp: once_good_def)
  have none: "\<not> initialising (once_pcs s ! i)" if "i < length (once_pcs s)" for i
    using g r cnt_pos [OF that, of initialising] by (auto simp: once_good_def)
  have keep: "once_deref s' = ret v" if "once_step f s j s'" for j s'
    using that r none [of j] by (cases rule: once_step.cases) (auto simp: once_deref_def)
  have "\<exists>i < length (once_pcs s). v = Some (f i)" "\<forall>w. OnDone w \<in> set (once_pcs s) \<longrightarrow> w = v"
    using g r unfolding once_good_def by blast+
  then show ?thesis using r none keep by (simp add: once_get_def)
qed

theorem once_initialised_once_witness:
  "\<exists>s. runs (once_step (\<lambda>i. i + 10)) \<lparr>cell_state = UNINITIATED, cell_value = None, once_pcs = [OnStart]\<rparr> s \<and>
     once_get s = Some (Some 10)"
proof -
  let ?f = "\<lambda>i::nat. i + 10"
  let ?s = "\<lambda>st v p. \<lparr>cell_state = st, cell_value = v, once_pcs = [p]\<rparr> :: nat once_cell"
  have "once_step ?f (?s UNINITIATED None OnStart) 0 (?s UNINITIATED None OnLoop)"
    using once_slow [of 0 "?s UNINITIATED None OnStart" ?f] by simp
  then have 1: "runs (once_step ?f) (?s UNINITIATED None OnStart) (?s UNINITIATED None OnLoop)" by (rule runs_one)
  have "once_step ?f (?s UNINITIATED None OnLoop) 0 (?s RUNNING None OnInit)"
    using once_claim [of 0 "?s UNINITIATED None OnLoop" ?f] by simp
  note 2 = runs_step [OF 1 this]
  have "once_step ?f (?s RUNNING None OnInit) 0 (?s RUNNING (Some 10) OnPublish)"
    using once_write [of 0 "?s RUNNING None OnInit" ?f] by simp
  note 3 = runs_step [OF 2 this]
  have "once_step ?f (?s RUNNING (Some 10) OnPublish) 0 (?s READY (Some 10) (OnDone (Some 10)))"
    using once_publish [of 0 "?s RUNNING (Some 10) OnPublish" ?f] by simp
  note 4 = runs_step [OF 3 this]
  have "once_start (?s UNINITIATED None OnStart)" by (simp add: once_start_def)
  from once_initialised_once [OF this 4, of "Some 10"] 4 show ?thesis by auto
qed

end
