(* ===== verification/Blocking.thy ===== *)
theory Blocking
  imports Locks
begin

text \<open>
  The blocking primitives: \<^verbatim>\<open>core/sync/mutex.rs\<close>, \<^verbatim>\<open>semaphore.rs\<close> and \<^verbatim>\<open>rwlock.rs\<close>. A thread that
  must wait enters the wait queue of the primitive and blocks; the releasing thread pops one
  thread and wakes it, after which it tries again. The wait queue's ticket lock is an owner
  field: taking it and the first access under it are one step, as are the last access and
  its release. Waking is \<^verbatim>\<open>wake_thread\<close>, seen here as the move out of the blocked point.
\<close>

section \<open>Mutex\<close>

datatype mutex_pc = MIdle | MTry | MCheck | MPush | MBlocked | MHold | MPop

record mutex =
  is_locked :: bool
  m_queue :: "nat list"
  m_owner :: "nat option"
  m_pcs :: "mutex_pc list"

inductive mutex_step :: "mutex \<Rightarrow> nat \<Rightarrow> mutex \<Rightarrow> bool" where
  m_call: "i < length (m_pcs s) \<Longrightarrow> m_pcs s ! i = MIdle \<Longrightarrow>
    mutex_step s i (s\<lparr>m_pcs := (m_pcs s)[i := MTry]\<rparr>)"
| m_swap_ok: "i < length (m_pcs s) \<Longrightarrow> m_pcs s ! i = MTry \<Longrightarrow> \<not> is_locked s \<Longrightarrow>
    mutex_step s i (s\<lparr>is_locked := True, m_pcs := (m_pcs s)[i := MHold]\<rparr>)"
| m_swap_fail: "i < length (m_pcs s) \<Longrightarrow> m_pcs s ! i = MTry \<Longrightarrow> is_locked s \<Longrightarrow>
    mutex_step s i (s\<lparr>is_locked := True, m_pcs := (m_pcs s)[i := MCheck]\<rparr>)"
| m_check_free: "i < length (m_pcs s) \<Longrightarrow> m_pcs s ! i = MCheck \<Longrightarrow> m_owner s = None \<Longrightarrow> \<not> is_locked s \<Longrightarrow>
    mutex_step s i (s\<lparr>m_pcs := (m_pcs s)[i := MTry]\<rparr>)"
| m_check_held: "i < length (m_pcs s) \<Longrightarrow> m_pcs s ! i = MCheck \<Longrightarrow> m_owner s = None \<Longrightarrow> is_locked s \<Longrightarrow>
    mutex_step s i (s\<lparr>m_owner := Some i, m_pcs := (m_pcs s)[i := MPush]\<rparr>)"
| m_push: "i < length (m_pcs s) \<Longrightarrow> m_pcs s ! i = MPush \<Longrightarrow>
    mutex_step s i (s\<lparr>m_queue := m_queue s @ [i], m_owner := None, m_pcs := (m_pcs s)[i := MBlocked]\<rparr>)"
| m_unlock: "i < length (m_pcs s) \<Longrightarrow> m_pcs s ! i = MHold \<Longrightarrow>
    mutex_step s i (s\<lparr>is_locked := False, m_pcs := (m_pcs s)[i := MPop]\<rparr>)"
| m_pop_wake: "i < length (m_pcs s) \<Longrightarrow> m_pcs s ! i = MPop \<Longrightarrow> m_owner s = None \<Longrightarrow> m_queue s = t # q \<Longrightarrow>
    mutex_step s i (s\<lparr>m_queue := q, m_pcs := (m_pcs s)[t := MTry, i := MIdle]\<rparr>)"
| m_pop_none: "i < length (m_pcs s) \<Longrightarrow> m_pcs s ! i = MPop \<Longrightarrow> m_owner s = None \<Longrightarrow> m_queue s = [] \<Longrightarrow>
    mutex_step s i (s\<lparr>m_pcs := (m_pcs s)[i := MIdle]\<rparr>)"

definition mutex_start :: "mutex \<Rightarrow> bool" where
  "mutex_start s \<longleftrightarrow> \<not> is_locked s \<and> m_queue s = [] \<and> m_owner s = None \<and> (\<forall>p \<in> set (m_pcs s). p = MIdle)"

definition mutex_holds :: "mutex \<Rightarrow> nat \<Rightarrow> bool" where
  "mutex_holds s i \<longleftrightarrow> i < length (m_pcs s) \<and> m_pcs s ! i = MHold"

text \<open>
  A queue of waiting threads is never forgotten: while it is not empty the mutex is held, or a
  thread is about to try again or to pop the queue. The thread about to enter the queue has
  seen the mutex held, and whoever released it since then has still to pop.
\<close>

definition mutex_good :: "mutex \<Rightarrow> bool" where
  "mutex_good s \<longleftrightarrow>
    cnt (\<lambda>p. p = MHold) (m_pcs s) = (if is_locked s then 1 else 0) \<and>
    waitq (\<lambda>p. p = MBlocked) (m_queue s) (m_pcs s) \<and> owned (\<lambda>p. p = MPush) (m_owner s) (m_pcs s) \<and>
    (m_owner s \<noteq> None \<longrightarrow> is_locked s \<or> 0 < cnt (\<lambda>p. p = MPop) (m_pcs s)) \<and>
    (m_queue s \<noteq> [] \<longrightarrow> is_locked s \<or>
       0 < cnt (\<lambda>p. p = MPop) (m_pcs s) + cnt (\<lambda>p. p \<in> {MTry, MCheck}) (m_pcs s))"

lemma mutex_step_good:
  assumes "mutex_step s i s'" and g: "mutex_good s"
  shows "mutex_good s'"
  using assms(1)
proof (cases rule: mutex_step.cases)
  case m_push
  then have "m_owner s = Some i" using owned_is g by (fastforce simp: mutex_good_def)
  then show ?thesis using m_push g
    using cnt_nonneg [of "\<lambda>p. p \<in> {MTry, MCheck}" "m_pcs s"]
    by (auto simp: mutex_good_def cnt_upd intro!: waitq_push owned_drop)
next
  case m_unlock
  then show ?thesis using g cnt_nonneg [of "\<lambda>p. p = MPop" "m_pcs s"] cnt_nonneg [of "\<lambda>p. p \<in> {MTry, MCheck}" "m_pcs s"]
      cnt_pos [of i "m_pcs s" "\<lambda>p. p = MHold"]
    by (auto simp: mutex_good_def cnt_upd split: if_splits intro!: waitq_upd owned_upd)
next
  case (m_pop_wake t q)
  have t: "t < length (m_pcs s)" "m_pcs s ! t = MBlocked" "t \<noteq> i"
    using waitq_hd [of "\<lambda>p. p = MBlocked" t q "m_pcs s"] g m_pop_wake by (auto simp: mutex_good_def)
  then show ?thesis using m_pop_wake g cnt_nonneg [of "\<lambda>p. p \<in> {MTry, MCheck}" "m_pcs s"]
      cnt_pos [of i "m_pcs s" "\<lambda>p. p = MPop"]
    by (auto simp: mutex_good_def cnt_upd intro!: waitq_pop_at owned_upd)
qed (use g in \<open>auto simp: mutex_good_def cnt_upd split: if_splits intro!: waitq_upd owned_upd owned_take\<close>)

interpretation mutex: exclusive_lock mutex_step mutex_start mutex_good mutex_holds
proof unfold_locales
  fix s assume "mutex_start s"
  then show "mutex_good s"
    by (auto simp: mutex_start_def mutex_good_def intro!: cnt_zero waitq_none)
next
  fix s i j assume "mutex_good s" and "mutex_holds s i" and "mutex_holds s j"
  then show "i = j"
    using cnt_unique [of "\<lambda>p. p = MHold" "m_pcs s" i j] by (auto simp: mutex_good_def mutex_holds_def split: if_splits)
qed (rule mutex_step_good)


text \<open>
  C19. The mutex excludes and never forgets a waiter. In every reachable state at most one thread
  holds the mutex, and exactly when it is marked locked. A blocked thread is in the wait queue,
  and while one is blocked, some other thread holds the mutex or is on its way through
  \<open>lock\<close> or \<open>unlock\<close> and can take a step: no wake-up is lost and the mutex cannot deadlock.
\<close>

theorem mutex_no_lost_wakeup:
  assumes "mutex_start s0" and "runs mutex_step s0 s"
  shows "(\<forall>i j. mutex_holds s i \<and> mutex_holds s j \<longrightarrow> i = j) \<and> (is_locked s \<longleftrightarrow> (\<exists>i. mutex_holds s i)) \<and>
    (\<forall>i < length (m_pcs s). m_pcs s ! i = MBlocked \<longrightarrow> i \<in> set (m_queue s) \<and>
       (\<exists>j < length (m_pcs s). m_pcs s ! j \<notin> {MIdle, MBlocked} \<and> (\<exists>s'. mutex_step s j s')))"
proof -
  have g: "mutex_good s" using mutex.reachable_good [OF assms(2,1)] .
  have held: "is_locked s \<longleftrightarrow> (\<exists>i. mutex_holds s i)"
    using g cnt_pos [of _ "m_pcs s" "\<lambda>p. p = MHold"] cnt_posE [of "\<lambda>p. p = MHold" "m_pcs s"]
    unfolding mutex_good_def mutex_holds_def by (metis (full_types) not_one_le_zero zero_less_one)
  have "\<exists>j < length (m_pcs s). m_pcs s ! j \<notin> {MIdle, MBlocked} \<and> (\<exists>s'. mutex_step s j s')"
    if "i < length (m_pcs s)" "m_pcs s ! i = MBlocked" for i
  proof (cases "m_owner s = None")
    case False
    then obtain j where "j < length (m_pcs s)" "m_pcs s ! j = MPush"
      using g owned_someE [of "\<lambda>p. p = MPush"] unfolding mutex_good_def by metis
    then show ?thesis using m_push by (metis empty_iff insert_iff mutex_pc.distinct)
  next
    case None: True
    have "m_queue s \<noteq> []" using waitq_nonempty [OF _ that(1)] that(2) g unfolding mutex_good_def by blast
    then have "is_locked s \<or> 0 < cnt (\<lambda>p. p = MPop) (m_pcs s) \<or> 0 < cnt (\<lambda>p. p \<in> {MTry, MCheck}) (m_pcs s)"
      using g cnt_nonneg [of "\<lambda>p. p = MPop" "m_pcs s"] unfolding mutex_good_def by linarith
    then obtain j where j: "j < length (m_pcs s)" "m_pcs s ! j \<in> {MHold, MPop, MTry, MCheck}"
      using held unfolding mutex_holds_def by (auto elim!: cnt_posE)
    then have "\<exists>s'. mutex_step s j s'"
      using m_unlock m_pop_wake m_pop_none m_swap_ok m_swap_fail m_check_free m_check_held None
      by (cases "m_queue s"; cases "is_locked s") blast+
    then show ?thesis using j by auto
  qed
  moreover have "i \<in> set (m_queue s)" if "i < length (m_pcs s)" "m_pcs s ! i = MBlocked" for i
    using g that by (simp add: mutex_good_def waitq_def at_pc_iff)
  ultimately show ?thesis using held mutex.exclusion [OF assms] by blast
qed

definition mutex_idle :: "nat \<Rightarrow> mutex" where
  "mutex_idle n = \<lparr>is_locked = False, m_queue = [], m_owner = None, m_pcs = replicate n MIdle\<rparr>"

theorem mutex_no_lost_wakeup_witness:
  "\<exists>s. runs mutex_step (mutex_idle 2) s \<and> is_locked s \<and> (\<exists>i. mutex_holds s i)"
proof -
  let ?a = "(mutex_idle 2)\<lparr>m_pcs := (m_pcs (mutex_idle 2))[0 := MTry]\<rparr>"
  let ?b = "?a\<lparr>is_locked := True, m_pcs := (m_pcs ?a)[0 := MHold]\<rparr>"
  have "mutex_step (mutex_idle 2) 0 ?a" by (rule m_call) (simp_all add: mutex_idle_def)
  moreover have "mutex_step ?a 0 ?b" by (rule m_swap_ok) (simp_all add: mutex_idle_def)
  ultimately have r: "runs mutex_step (mutex_idle 2) ?b" by (blast intro: runs_step runs_one)
  have s: "mutex_start (mutex_idle 2)" by (simp add: mutex_start_def mutex_idle_def)
  have "is_locked ?b" by simp
  then show ?thesis using mutex_no_lost_wakeup [OF s r] r by blast
qed

section \<open>Semaphore\<close>

text \<open>
  The counter is an \<^verbatim>\<open>isize\<close>: additions wrap at 64 signed bits. The fields \<open>signals\<close> and \<open>passes\<close>
  record how often \<open>signal\<close> was called and \<open>wait\<close> returned; the code does not have them.
\<close>

definition isize :: "int \<Rightarrow> int" where
  "isize x = (x + 2 ^ 63) mod 2 ^ 64 - 2 ^ 63"

lemma isize_id [simp]: "- (2 ^ 63) \<le> x \<Longrightarrow> x < 2 ^ 63 \<Longrightarrow> isize x = x"
  by (simp add: isize_def)

datatype sem_pc = SIdle | STry int | SCheck | SPush | SBlocked | SAwake | SPop

record semaphore =
  counter :: int
  s_queue :: "nat list"
  s_owner :: "nat option"
  s_pcs :: "sem_pc list"
  signals :: int
  passes :: int

inductive sem_step :: "semaphore \<Rightarrow> nat \<Rightarrow> semaphore \<Rightarrow> bool" where
  s_wait: "i < length (s_pcs s) \<Longrightarrow> s_pcs s ! i = SIdle \<Longrightarrow>
    sem_step s i (s\<lparr>s_pcs := (s_pcs s)[i := STry (counter s)]\<rparr>)"
| s_cas_ok: "i < length (s_pcs s) \<Longrightarrow> s_pcs s ! i = STry v \<Longrightarrow> 0 < v \<Longrightarrow> counter s = v \<Longrightarrow>
    sem_step s i (s\<lparr>counter := isize (v - 1), passes := passes s + 1, s_pcs := (s_pcs s)[i := SIdle]\<rparr>)"
| s_cas_fail: "i < length (s_pcs s) \<Longrightarrow> s_pcs s ! i = STry v \<Longrightarrow> 0 < v \<Longrightarrow>
    sem_step s i (s\<lparr>s_pcs := (s_pcs s)[i := STry (counter s)]\<rparr>)"
| s_empty: "i < length (s_pcs s) \<Longrightarrow> s_pcs s ! i = STry v \<Longrightarrow> v \<le> 0 \<Longrightarrow>
    sem_step s i (s\<lparr>s_pcs := (s_pcs s)[i := SCheck]\<rparr>)"
| s_check_free: "i < length (s_pcs s) \<Longrightarrow> s_pcs s ! i = SCheck \<Longrightarrow> s_owner s = None \<Longrightarrow> 0 < counter s \<Longrightarrow>
    sem_step s i (s\<lparr>s_pcs := (s_pcs s)[i := STry (counter s)]\<rparr>)"
| s_check_empty: "i < length (s_pcs s) \<Longrightarrow> s_pcs s ! i = SCheck \<Longrightarrow> s_owner s = None \<Longrightarrow> counter s \<le> 0 \<Longrightarrow>
    sem_step s i (s\<lparr>s_owner := Some i, s_pcs := (s_pcs s)[i := SPush]\<rparr>)"
| s_push: "i < length (s_pcs s) \<Longrightarrow> s_pcs s ! i = SPush \<Longrightarrow>
    sem_step s i (s\<lparr>s_queue := s_queue s @ [i], s_owner := None, s_pcs := (s_pcs s)[i := SBlocked]\<rparr>)"
| s_resume: "i < length (s_pcs s) \<Longrightarrow> s_pcs s ! i = SAwake \<Longrightarrow>
    sem_step s i (s\<lparr>s_pcs := (s_pcs s)[i := STry (counter s)]\<rparr>)"
| s_signal: "i < length (s_pcs s) \<Longrightarrow> s_pcs s ! i = SIdle \<Longrightarrow>
    sem_step s i (s\<lparr>counter := isize (counter s + 1), signals := signals s + 1, s_pcs := (s_pcs s)[i := SPop]\<rparr>)"
| s_pop_wake: "i < length (s_pcs s) \<Longrightarrow> s_pcs s ! i = SPop \<Longrightarrow> s_owner s = None \<Longrightarrow> s_queue s = t # q \<Longrightarrow>
    sem_step s i (s\<lparr>s_queue := q, s_pcs := (s_pcs s)[t := SAwake, i := SIdle]\<rparr>)"
| s_pop_none: "i < length (s_pcs s) \<Longrightarrow> s_pcs s ! i = SPop \<Longrightarrow> s_owner s = None \<Longrightarrow> s_queue s = [] \<Longrightarrow>
    sem_step s i (s\<lparr>s_pcs := (s_pcs s)[i := SIdle]\<rparr>)"

definition sem_start :: "int \<Rightarrow> semaphore \<Rightarrow> bool" where
  "sem_start n s \<longleftrightarrow> counter s = n \<and> 0 \<le> n \<and> s_queue s = [] \<and> s_owner s = None \<and> signals s = 0 \<and> passes s = 0 \<and>
     (\<forall>p \<in> set (s_pcs s). p = SIdle)"

fun s_active :: "sem_pc \<Rightarrow> bool" where
  "s_active (STry _) = True"
| "s_active SCheck = True"
| "s_active SAwake = True"
| "s_active _ = False"

text \<open>
  Every unit of the counter that waitq threads could use has a thread on its way: one that
  tries again, or one that has still to pop the queue.
\<close>

definition sem_counts :: "int \<Rightarrow> semaphore \<Rightarrow> bool" where
  "sem_counts n s \<longleftrightarrow>
    counter s = n + signals s - passes s \<and> 0 \<le> counter s \<and> 0 \<le> passes s \<and>
    (s_owner s \<noteq> None \<longrightarrow> counter s \<le> cnt (\<lambda>p. p = SPop) (s_pcs s)) \<and>
    (s_queue s \<noteq> [] \<longrightarrow> counter s \<le> cnt (\<lambda>p. p = SPop) (s_pcs s) + cnt s_active (s_pcs s))"

definition sem_good :: "int \<Rightarrow> semaphore \<Rightarrow> bool" where
  "sem_good n s \<longleftrightarrow> 0 \<le> signals s \<and>
    waitq (\<lambda>p. p = SBlocked) (s_queue s) (s_pcs s) \<and> owned (\<lambda>p. p = SPush) (s_owner s) (s_pcs s) \<and>
    (n + signals s < 2 ^ 63 \<longrightarrow> sem_counts n s)"

lemma sem_step_good:
  assumes "sem_step s i s'" and g: "sem_good n s"
  shows "sem_good n s'"
  using assms(1)
proof (cases rule: sem_step.cases)
  case s_push
  then have "s_owner s = Some i" using owned_is g by (fastforce simp: sem_good_def)
  then show ?thesis using s_push g cnt_nonneg [of s_active "s_pcs s"]
    by (auto simp: sem_good_def sem_counts_def cnt_upd intro!: waitq_push owned_drop)
next
  case (s_pop_wake t q)
  have t: "t < length (s_pcs s)" "s_pcs s ! t = SBlocked" "t \<noteq> i"
    using waitq_hd [of "\<lambda>p. p = SBlocked" t q "s_pcs s"] g s_pop_wake by (auto simp: sem_good_def)
  then show ?thesis using s_pop_wake g
    by (auto simp: sem_good_def sem_counts_def cnt_upd intro!: waitq_pop_at owned_upd)
next
  case (s_check_empty)
  then show ?thesis using g cnt_nonneg [of s_active "s_pcs s"] cnt_nonneg [of "\<lambda>p. p = SPop" "s_pcs s"]
      cnt_pos [of i "s_pcs s" s_active]
    by (auto simp: sem_good_def sem_counts_def cnt_upd intro!: waitq_upd owned_take)
qed (use g cnt_nonneg [of s_active "s_pcs s"] cnt_nonneg [of "\<lambda>p. p = SPop" "s_pcs s"] in
   \<open>auto simp: sem_good_def sem_counts_def cnt_upd intro!: waitq_upd owned_upd owned_take\<close>)

interpretation sem: threads_system sem_step "sem_start n" "sem_good n" for n
proof unfold_locales
  fix s assume "sem_start n s"
  then show "sem_good n s"
    by (auto simp: sem_start_def sem_good_def sem_counts_def intro!: waitq_none)
qed (rule sem_step_good)

text \<open>
  The semaphore counts and never forgets a waiter. As long as the initial count plus the
  number of signals fits the counter, the counter is the initial count plus signals minus
  completed waits and is never negative, so at most that many waits return; and while the
  counter is positive and a thread is blocked, some thread is about to pop the queue or to
  try again.
\<close>

theorem semaphore_counts:
  assumes "sem_start n s0" and "runs sem_step s0 s" and "n + signals s < 2 ^ 63"
  shows "counter s = n + signals s - passes s \<and> passes s \<le> n + signals s \<and>
    (\<forall>i < length (s_pcs s). s_pcs s ! i = SBlocked \<and> 0 < counter s \<longrightarrow>
       (\<exists>j < length (s_pcs s). s_active (s_pcs s ! j) \<or> s_pcs s ! j = SPop))"
proof -
  have g: "sem_good n s" using sem.reachable_good [OF assms(2,1)] .
  then have c: "sem_counts n s" using assms(3) by (simp add: sem_good_def)
  have "\<exists>j < length (s_pcs s). s_active (s_pcs s ! j) \<or> s_pcs s ! j = SPop"
    if "i < length (s_pcs s)" "s_pcs s ! i = SBlocked" "0 < counter s" for i
  proof -
    have "s_queue s \<noteq> []" using waitq_nonempty [OF _ that(1)] that(2) g unfolding sem_good_def by blast
    then have "0 < cnt (\<lambda>p. p = SPop) (s_pcs s) \<or> 0 < cnt s_active (s_pcs s)"
      using c that(3) unfolding sem_counts_def by linarith
    then show ?thesis by (auto elim!: cnt_posE)
  qed
  then show ?thesis using c by (auto simp: sem_counts_def)
qed

definition sem_idle :: "int \<Rightarrow> nat \<Rightarrow> semaphore" where
  "sem_idle n k = \<lparr>counter = n, s_queue = [], s_owner = None, s_pcs = replicate k SIdle, signals = 0, passes = 0\<rparr>"

theorem semaphore_counts_witness:
  "\<exists>s. runs sem_step (sem_idle 0 2) s \<and> signals s = 1 \<and> counter s = 1 - passes s"
proof -
  let ?a = "(sem_idle 0 2)\<lparr>counter := isize (counter (sem_idle 0 2) + 1), signals := signals (sem_idle 0 2) + 1,
              s_pcs := (s_pcs (sem_idle 0 2))[0 := SPop]\<rparr>"
  have "sem_step (sem_idle 0 2) 0 ?a" by (rule s_signal) (simp_all add: sem_idle_def)
  then have r: "runs sem_step (sem_idle 0 2) ?a" by (rule runs_one)
  have s: "sem_start 0 (sem_idle 0 2)" by (simp add: sem_start_def sem_idle_def)
  have one: "signals ?a = 1" by (simp add: sem_idle_def)
  show ?thesis using semaphore_counts [OF s r] r one by (intro exI [of _ ?a]) simp
qed

end
