(* ===== verification/Rwlock.thy ===== *)
theory Rwlock
  imports Blocking
begin

text \<open>
  The readers-writer lock: \<^verbatim>\<open>core/sync/rwlock.rs\<close>. The state word counts the readers and has its
  top bit set for a writer; writers that wait are counted separately and make new readers
  wait. Program points \<open>Rd\<close> and \<open>Wr\<close> belong to \<open>read\<close> and \<open>write\<close>, the points \<open>RdPop\<close>, \<open>WrPop\<close>
  and \<open>WrReaders\<close> to the drop of a guard.
\<close>

definition WRITER_BIT :: u64 where
  "WRITER_BIT = push_bit 63 1"

datatype rw_pc = RwIdle
  | RdLoad | RdSeen u64 | RdCas u64 | RdCheck | RdPush | RdBlocked | RdHold | RdPop
  | WrLoad | WrCas | WrAdd | WrCheck | WrPush | WrBlocked | WrDec | WrHold | WrPop | WrReaders

record rwlock =
  rw_state :: u64
  writers_waiting :: u64
  w_queue :: "nat list"
  w_owner :: "nat option"
  r_queue :: "nat list"
  r_owner :: "nat option"
  rw_pcs :: "rw_pc list"

inductive rw_step :: "rwlock \<Rightarrow> nat \<Rightarrow> rwlock \<Rightarrow> bool" where
  rd_call: "i < length (rw_pcs s) \<Longrightarrow> rw_pcs s ! i = RwIdle \<Longrightarrow>
    rw_step s i (s\<lparr>rw_pcs := (rw_pcs s)[i := RdLoad]\<rparr>)"
| rd_load: "i < length (rw_pcs s) \<Longrightarrow> rw_pcs s ! i = RdLoad \<Longrightarrow>
    rw_step s i (s\<lparr>rw_pcs := (rw_pcs s)[i := RdSeen (rw_state s)]\<rparr>)"
| rd_free: "i < length (rw_pcs s) \<Longrightarrow> rw_pcs s ! i = RdSeen v \<Longrightarrow> v AND WRITER_BIT = 0 \<Longrightarrow> writers_waiting s = 0 \<Longrightarrow>
    rw_step s i (s\<lparr>rw_pcs := (rw_pcs s)[i := RdCas v]\<rparr>)"
| rd_busy: "i < length (rw_pcs s) \<Longrightarrow> rw_pcs s ! i = RdSeen v \<Longrightarrow> v AND WRITER_BIT \<noteq> 0 \<or> writers_waiting s \<noteq> 0 \<Longrightarrow>
    rw_step s i (s\<lparr>rw_pcs := (rw_pcs s)[i := RdCheck]\<rparr>)"
| rd_cas_ok: "i < length (rw_pcs s) \<Longrightarrow> rw_pcs s ! i = RdCas v \<Longrightarrow> rw_state s = v \<Longrightarrow>
    rw_step s i (s\<lparr>rw_state := v + 1, rw_pcs := (rw_pcs s)[i := RdHold]\<rparr>)"
| rd_cas_fail: "i < length (rw_pcs s) \<Longrightarrow> rw_pcs s ! i = RdCas v \<Longrightarrow>
    rw_step s i (s\<lparr>rw_pcs := (rw_pcs s)[i := RdLoad]\<rparr>)"
| rd_check_busy: "i < length (rw_pcs s) \<Longrightarrow> rw_pcs s ! i = RdCheck \<Longrightarrow> r_owner s = None \<Longrightarrow>
    rw_state s AND WRITER_BIT \<noteq> 0 \<Longrightarrow>
    rw_step s i (s\<lparr>r_owner := Some i, rw_pcs := (rw_pcs s)[i := RdPush]\<rparr>)"
| rd_check_free: "i < length (rw_pcs s) \<Longrightarrow> rw_pcs s ! i = RdCheck \<Longrightarrow> r_owner s = None \<Longrightarrow>
    rw_state s AND WRITER_BIT = 0 \<Longrightarrow>
    rw_step s i (s\<lparr>rw_pcs := (rw_pcs s)[i := RdLoad]\<rparr>)"
| rd_push: "i < length (rw_pcs s) \<Longrightarrow> rw_pcs s ! i = RdPush \<Longrightarrow>
    rw_step s i (s\<lparr>r_queue := r_queue s @ [i], r_owner := None, rw_pcs := (rw_pcs s)[i := RdBlocked]\<rparr>)"
| rd_drop: "i < length (rw_pcs s) \<Longrightarrow> rw_pcs s ! i = RdHold \<Longrightarrow>
    rw_step s i (s\<lparr>rw_state := rw_state s - 1, rw_pcs := (rw_pcs s)[i := if rw_state s = 1 then RdPop else RwIdle]\<rparr>)"
| rd_pop_wake: "i < length (rw_pcs s) \<Longrightarrow> rw_pcs s ! i = RdPop \<Longrightarrow> w_owner s = None \<Longrightarrow> w_queue s = t # q \<Longrightarrow>
    rw_step s i (s\<lparr>w_queue := q, rw_pcs := (rw_pcs s)[t := WrDec, i := RwIdle]\<rparr>)"
| rd_pop_none: "i < length (rw_pcs s) \<Longrightarrow> rw_pcs s ! i = RdPop \<Longrightarrow> w_owner s = None \<Longrightarrow> w_queue s = [] \<Longrightarrow>
    rw_step s i (s\<lparr>rw_pcs := (rw_pcs s)[i := RwIdle]\<rparr>)"
| wr_call: "i < length (rw_pcs s) \<Longrightarrow> rw_pcs s ! i = RwIdle \<Longrightarrow>
    rw_step s i (s\<lparr>rw_pcs := (rw_pcs s)[i := WrLoad]\<rparr>)"
| wr_load: "i < length (rw_pcs s) \<Longrightarrow> rw_pcs s ! i = WrLoad \<Longrightarrow>
    rw_step s i (s\<lparr>rw_pcs := (rw_pcs s)[i := if rw_state s = 0 then WrCas else WrAdd]\<rparr>)"
| wr_cas_ok: "i < length (rw_pcs s) \<Longrightarrow> rw_pcs s ! i = WrCas \<Longrightarrow> rw_state s = 0 \<Longrightarrow>
    rw_step s i (s\<lparr>rw_state := WRITER_BIT, rw_pcs := (rw_pcs s)[i := WrHold]\<rparr>)"
| wr_cas_fail: "i < length (rw_pcs s) \<Longrightarrow> rw_pcs s ! i = WrCas \<Longrightarrow>
    rw_step s i (s\<lparr>rw_pcs := (rw_pcs s)[i := WrLoad]\<rparr>)"
| wr_add: "i < length (rw_pcs s) \<Longrightarrow> rw_pcs s ! i = WrAdd \<Longrightarrow>
    rw_step s i (s\<lparr>writers_waiting := writers_waiting s + 1, rw_pcs := (rw_pcs s)[i := WrCheck]\<rparr>)"
| wr_check_busy: "i < length (rw_pcs s) \<Longrightarrow> rw_pcs s ! i = WrCheck \<Longrightarrow> w_owner s = None \<Longrightarrow> rw_state s \<noteq> 0 \<Longrightarrow>
    rw_step s i (s\<lparr>w_owner := Some i, rw_pcs := (rw_pcs s)[i := WrPush]\<rparr>)"
| wr_check_free: "i < length (rw_pcs s) \<Longrightarrow> rw_pcs s ! i = WrCheck \<Longrightarrow> w_owner s = None \<Longrightarrow> rw_state s = 0 \<Longrightarrow>
    rw_step s i (s\<lparr>rw_pcs := (rw_pcs s)[i := WrDec]\<rparr>)"
| wr_push: "i < length (rw_pcs s) \<Longrightarrow> rw_pcs s ! i = WrPush \<Longrightarrow>
    rw_step s i (s\<lparr>w_queue := w_queue s @ [i], w_owner := None, rw_pcs := (rw_pcs s)[i := WrBlocked]\<rparr>)"
| wr_dec: "i < length (rw_pcs s) \<Longrightarrow> rw_pcs s ! i = WrDec \<Longrightarrow>
    rw_step s i (s\<lparr>writers_waiting := writers_waiting s - 1, rw_pcs := (rw_pcs s)[i := WrLoad]\<rparr>)"
| wr_drop: "i < length (rw_pcs s) \<Longrightarrow> rw_pcs s ! i = WrHold \<Longrightarrow>
    rw_step s i (s\<lparr>rw_state := 0, rw_pcs := (rw_pcs s)[i := WrPop]\<rparr>)"
| wr_pop_wake: "i < length (rw_pcs s) \<Longrightarrow> rw_pcs s ! i = WrPop \<Longrightarrow> w_owner s = None \<Longrightarrow> w_queue s = t # q \<Longrightarrow>
    rw_step s i (s\<lparr>w_queue := q, rw_pcs := (rw_pcs s)[t := WrDec, i := RwIdle]\<rparr>)"
| wr_pop_none: "i < length (rw_pcs s) \<Longrightarrow> rw_pcs s ! i = WrPop \<Longrightarrow> w_owner s = None \<Longrightarrow> w_queue s = [] \<Longrightarrow>
    rw_step s i (s\<lparr>rw_pcs := (rw_pcs s)[i := WrReaders]\<rparr>)"
| wr_wake_readers: "i < length (rw_pcs s) \<Longrightarrow> rw_pcs s ! i = WrReaders \<Longrightarrow> r_owner s = None \<Longrightarrow>
    rw_step s i (s\<lparr>r_queue := [], rw_pcs := (wake_each RdLoad (r_queue s) (rw_pcs s))[i := RwIdle]\<rparr>)"

definition rw_start :: "rwlock \<Rightarrow> bool" where
  "rw_start s \<longleftrightarrow> rw_state s = 0 \<and> writers_waiting s = 0 \<and> w_queue s = [] \<and> w_owner s = None \<and> r_queue s = [] \<and>
     r_owner s = None \<and> (\<forall>p \<in> set (rw_pcs s). p = RwIdle) \<and> length (rw_pcs s) < 2 ^ 63"

fun wr_active :: "rw_pc \<Rightarrow> bool" where
  "wr_active p = (p \<in> {WrLoad, WrCas, WrAdd, WrCheck, WrPush, WrDec})"

abbreviation readers :: "rwlock \<Rightarrow> int" where
  "readers s \<equiv> cnt (\<lambda>p. p = RdHold) (rw_pcs s)"

abbreviation writers :: "rwlock \<Rightarrow> int" where
  "writers s \<equiv> cnt (\<lambda>p. p = WrHold) (rw_pcs s)"

abbreviation poppers :: "rwlock \<Rightarrow> int" where
  "poppers s \<equiv> cnt (\<lambda>p. p = RdPop \<or> p = WrPop) (rw_pcs s)"

abbreviation w_poppers :: "rwlock \<Rightarrow> int" where
  "w_poppers s \<equiv> cnt (\<lambda>p. p = WrPop \<or> p = WrReaders) (rw_pcs s)"

abbreviation trying :: "rwlock \<Rightarrow> int" where
  "trying s \<equiv> cnt wr_active (rw_pcs s)"

text \<open>What the state word means.\<close>

definition rw_word :: "rwlock \<Rightarrow> bool" where
  "rw_word s \<longleftrightarrow> length (rw_pcs s) < 2 ^ 63 \<and>
     (writers s = 0 \<and> uint (rw_state s) = readers s \<or> writers s = 1 \<and> readers s = 0 \<and> rw_state s = WRITER_BIT) \<and>
     (\<forall>v. RdCas v \<in> set (rw_pcs s) \<longrightarrow> v AND WRITER_BIT = 0)"

text \<open>The queues and their locks.\<close>

definition rw_queues :: "rwlock \<Rightarrow> bool" where
  "rw_queues s \<longleftrightarrow>
     waitq (\<lambda>p. p = WrBlocked) (w_queue s) (rw_pcs s) \<and> owned (\<lambda>p. p = WrPush) (w_owner s) (rw_pcs s) \<and>
     waitq (\<lambda>p. p = RdBlocked) (r_queue s) (rw_pcs s) \<and> owned (\<lambda>p. p = RdPush) (r_owner s) (rw_pcs s)"

text \<open>
  No waiter is forgotten. Queued writers: somebody holds the lock, is about to pop the queue,
  or is a writer on its way. Queued readers: a writer holds the lock, is about to wake them,
  is on its way or is waitq itself.
\<close>

definition rw_served :: "rwlock \<Rightarrow> bool" where
  "rw_served s \<longleftrightarrow>
     (w_owner s \<noteq> None \<longrightarrow> rw_state s \<noteq> 0 \<or> 0 < poppers s) \<and>
     (w_queue s \<noteq> [] \<longrightarrow> rw_state s \<noteq> 0 \<or> 0 < poppers s \<or> 0 < trying s) \<and>
     (r_queue s \<noteq> [] \<or> r_owner s \<noteq> None \<longrightarrow> 0 < writers s \<or> 0 < w_poppers s \<or> 0 < trying s \<or> w_queue s \<noteq> [])"

section \<open>The state word\<close>

lemma writer_bit_iff: "v AND WRITER_BIT = 0 \<longleftrightarrow> \<not> bit v 63" for v :: u64
  unfolding WRITER_BIT_def bit_iff_and_push_bit_not_eq_0 by simp

lemma writer_bit_facts [simp]:
  "WRITER_BIT AND WRITER_BIT \<noteq> 0" "WRITER_BIT \<noteq> 0" "uint WRITER_BIT = 2 ^ 63"
  by (simp_all add: WRITER_BIT_def push_bit_eq_mult)

lemma small_no_writer: "uint v < 2 ^ 63 \<Longrightarrow> v AND WRITER_BIT = 0" for v :: u64
proof -
  assume "uint v < 2 ^ 63"
  then have "uint v div 2 ^ 63 = 0" by (simp add: div_pos_pos_trivial)
  then have "\<not> bit (uint v) 63" by (simp add: bit_iff_odd)
  then show ?thesis unfolding writer_bit_iff by (simp add: bit_uint_iff)
qed

lemma readers_bound: "length (rw_pcs s) < 2 ^ 63 \<Longrightarrow> cnt P (rw_pcs s) < 2 ^ 63"
  using cnt_le_length [of P "rw_pcs s"] by simp

lemma uint_succ: "uint v + 1 < 2 ^ 64 \<Longrightarrow> uint (v + 1) = uint v + 1" for v :: u64
  by (simp add: uint_word_ariths)

lemma uint_pred: "0 < uint v \<Longrightarrow> uint (v - 1) = uint v - 1" for v :: u64
  using uint_lt2p [of v] by (simp add: uint_word_ariths)

lemma rw_step_word:
  assumes st: "rw_step s i s'" and w: "rw_word s" and q: "rw_queues s"
  shows "rw_word s'"
  using st
proof (cases rule: rw_step.cases)
  case (rd_cas_ok v)
  have "v AND WRITER_BIT = 0" using w rd_cas_ok nth_mem [of i "rw_pcs s"] by (simp add: rw_word_def)
  then have "writers s = 0" "uint v = readers s" using w rd_cas_ok by (auto simp: rw_word_def)
  moreover have "uint (v + 1) = uint v + 1"
    using calculation(2) readers_bound [of s "\<lambda>p. p = RdHold"] w by (intro uint_succ) (simp add: rw_word_def)
  ultimately show ?thesis using w rd_cas_ok by (auto simp: rw_word_def cnt_upd dest!: set_upd_cases)
next
  case rd_drop
  have r: "1 \<le> readers s" using cnt_pos [of i "rw_pcs s"] rd_drop by auto
  then have "writers s = 0" "uint (rw_state s) = readers s" using w by (auto simp: rw_word_def)
  then show ?thesis using w rd_drop r uint_pred [of "rw_state s"]
    by (auto simp: rw_word_def cnt_upd dest!: set_upd_cases)
next
  case wr_cas_ok
  have "writers s = 0" "readers s = 0" using w wr_cas_ok by (auto simp: rw_word_def)
  then show ?thesis using w wr_cas_ok by (auto simp: rw_word_def cnt_upd dest!: set_upd_cases)
next
  case wr_drop
  have r: "1 \<le> writers s" using cnt_pos [of i "rw_pcs s"] wr_drop by auto
  then have "writers s = 1" "readers s = 0" using w by (auto simp: rw_word_def)
  then show ?thesis using w wr_drop by (auto simp: rw_word_def cnt_upd dest!: set_upd_cases)
next
  case wr_wake_readers
  have "cnt P (wake_each RdLoad (r_queue s) (rw_pcs s)) = cnt P (rw_pcs s)" if "\<not> P RdLoad" "\<not> P RdBlocked" for P
    using q that by (intro cnt_wake_each) (auto simp: rw_queues_def)
  moreover have "wake_each RdLoad (r_queue s) (rw_pcs s) ! i = WrReaders"
    using q wr_wake_readers by (auto simp: nth_wake_each rw_queues_def waitq_def at_pc_iff)
  moreover have "RdCas v \<in> set (rw_pcs s)" if "RdCas v \<in> set (wake_each RdLoad (r_queue s) (rw_pcs s))" for v
    using that by (auto simp: in_set_conv_nth nth_wake_each split: if_splits)
  ultimately show ?thesis using w wr_wake_readers by (auto simp: rw_word_def cnt_upd dest!: set_upd_cases)
next
  case (rd_pop_wake t q)
  have "t < length (rw_pcs s)" "rw_pcs s ! t = WrBlocked" "t \<noteq> i"
    using waitq_hd [of "\<lambda>p. p = WrBlocked" t q "rw_pcs s"] \<open>rw_queues s\<close> rd_pop_wake by (auto simp: rw_queues_def)
  then show ?thesis using w rd_pop_wake by (auto simp: rw_word_def cnt_upd dest!: set_upd_cases)
next
  case (wr_pop_wake t q)
  have "t < length (rw_pcs s)" "rw_pcs s ! t = WrBlocked" "t \<noteq> i"
    using waitq_hd [of "\<lambda>p. p = WrBlocked" t q "rw_pcs s"] \<open>rw_queues s\<close> wr_pop_wake by (auto simp: rw_queues_def)
  then show ?thesis using w wr_pop_wake by (auto simp: rw_word_def cnt_upd dest!: set_upd_cases)
qed (use w in \<open>auto simp: rw_word_def cnt_upd dest!: set_upd_cases\<close>)

lemma rw_queues_pop:
  assumes q: "rw_queues s" and h: "w_queue s = t # r" and i: "i < length (rw_pcs s)" "rw_pcs s ! i = RdPop \<or> rw_pcs s ! i = WrPop"
  shows "rw_queues (s\<lparr>w_queue := r, rw_pcs := (rw_pcs s)[t := WrDec, i := RwIdle]\<rparr>)"
proof -
  have t: "t < length (rw_pcs s)" "rw_pcs s ! t = WrBlocked"
    using waitq_hd [of "\<lambda>p. p = WrBlocked" t r "rw_pcs s"] q h by (auto simp: rw_queues_def)
  have "waitq (\<lambda>p. p = WrBlocked) r ((rw_pcs s)[t := WrDec, i := RwIdle])"
    using q h i by (intro waitq_pop_at) (auto simp: rw_queues_def)
  moreover have "t \<noteq> i" using t i by auto
  ultimately show ?thesis using q t i by (auto simp: rw_queues_def intro!: waitq_upd owned_upd)
qed

lemma rw_step_queues:
  assumes st: "rw_step s i s'" and q: "rw_queues s"
  shows "rw_queues s'"
  using st
proof (cases rule: rw_step.cases)
  case (rd_pop_wake t r)
  then show ?thesis using rw_queues_pop [OF q] by simp
next
  case (wr_pop_wake t r)
  then show ?thesis using rw_queues_pop [OF q] by simp
next
  case wr_wake_readers
  have i: "wake_each RdLoad (r_queue s) (rw_pcs s) ! i = WrReaders"
    using q wr_wake_readers by (auto simp: nth_wake_each rw_queues_def waitq_def at_pc_iff)
  have "waitq (\<lambda>p. p = RdBlocked) [] (wake_each RdLoad (r_queue s) (rw_pcs s))"
    "waitq (\<lambda>p. p = WrBlocked) (w_queue s) (wake_each RdLoad (r_queue s) (rw_pcs s))"
    "owned (\<lambda>p. p = WrPush) (w_owner s) (wake_each RdLoad (r_queue s) (rw_pcs s))"
    "owned (\<lambda>p. p = RdPush) (r_owner s) (wake_each RdLoad (r_queue s) (rw_pcs s))"
    using q by (auto simp: rw_queues_def intro!: waitq_wake_each waitq_wake_other [where B' = "\<lambda>p. p = RdBlocked"]
        owned_wake_each [where B' = "\<lambda>p. p = RdBlocked"])
  then show ?thesis using wr_wake_readers i by (auto simp: rw_queues_def intro!: waitq_upd owned_upd)
next
  case rd_push
  then have "waitq (\<lambda>p. p = RdBlocked) (r_queue s @ [i]) ((rw_pcs s)[i := RdBlocked])"
    "owned (\<lambda>p. p = RdPush) None ((rw_pcs s)[i := RdBlocked])"
    using q by (auto simp: rw_queues_def intro!: waitq_push intro: owned_drop)
  then show ?thesis using rd_push q by (auto simp: rw_queues_def intro!: waitq_upd owned_upd)
next
  case wr_push
  then have "waitq (\<lambda>p. p = WrBlocked) (w_queue s @ [i]) ((rw_pcs s)[i := WrBlocked])"
    "owned (\<lambda>p. p = WrPush) None ((rw_pcs s)[i := WrBlocked])"
    using q by (auto simp: rw_queues_def intro!: waitq_push intro: owned_drop)
  then show ?thesis using wr_push q by (auto simp: rw_queues_def intro!: waitq_upd owned_upd)
next
  case rd_check_busy
  then have "owned (\<lambda>p. p = RdPush) (Some i) ((rw_pcs s)[i := RdPush])"
    using q by (auto simp: rw_queues_def intro!: owned_take)
  then show ?thesis using rd_check_busy q by (auto simp: rw_queues_def intro!: waitq_upd owned_upd)
next
  case wr_check_busy
  then have "owned (\<lambda>p. p = WrPush) (Some i) ((rw_pcs s)[i := WrPush])"
    using q by (auto simp: rw_queues_def intro!: owned_take)
  then show ?thesis using wr_check_busy q by (auto simp: rw_queues_def intro!: waitq_upd owned_upd)
qed (use q in \<open>auto simp: rw_queues_def intro!: waitq_upd owned_upd\<close>)

section \<open>Wake-ups\<close>

lemma rw_pop_target:
  assumes "rw_queues s" and "w_queue s = t # r"
  shows "t < length (rw_pcs s) \<and> rw_pcs s ! t = WrBlocked"
  using waitq_hd [of "\<lambda>p. p = WrBlocked" t r "rw_pcs s"] assms by (auto simp: rw_queues_def)

lemmas rw_nonneg = cnt_nonneg [of wr_active] cnt_nonneg [of "\<lambda>p. p = RdPop \<or> p = WrPop"]
  cnt_nonneg [of "\<lambda>p. p = WrPop \<or> p = WrReaders"] cnt_nonneg [of "\<lambda>p. p = WrHold"]

lemma rw_step_served:
  assumes st: "rw_step s i s'" and w: "rw_word s" and q: "rw_queues s" and v: "rw_served s"
  shows "rw_served s'"
  using st
proof (cases rule: rw_step.cases)
  case (rd_pop_wake t r)
  then show ?thesis using rw_pop_target [OF q] v rw_nonneg [of "rw_pcs s"]
    by (auto simp: rw_served_def cnt_upd nth_list_update)
next
  case (wr_pop_wake t r)
  then show ?thesis using rw_pop_target [OF q] v rw_nonneg [of "rw_pcs s"]
    by (auto simp: rw_served_def cnt_upd nth_list_update)
next
  case wr_wake_readers
  have "cnt P (wake_each RdLoad (r_queue s) (rw_pcs s)) = cnt P (rw_pcs s)" if "\<not> P RdLoad" "\<not> P RdBlocked" for P
    using q that by (intro cnt_wake_each) (auto simp: rw_queues_def)
  moreover have "wake_each RdLoad (r_queue s) (rw_pcs s) ! i = WrReaders"
    using q wr_wake_readers by (auto simp: nth_wake_each rw_queues_def waitq_def at_pc_iff)
  ultimately show ?thesis using wr_wake_readers v by (auto simp: rw_served_def cnt_upd)
next
  case (rd_cas_ok x)
  then have "rw_state s' = rw_state s + 1" "readers s' = readers s + 1" by (simp_all add: cnt_upd)
  moreover have "rw_word s'" by (rule rw_step_word [OF st w q])
  ultimately have "rw_state s' \<noteq> 0" using cnt_nonneg [of "\<lambda>p. p = RdHold" "rw_pcs s"] by (auto simp: rw_word_def)
  then show ?thesis using rd_cas_ok v by (auto simp: rw_served_def cnt_upd)
next
  case rd_drop
  then show ?thesis using v rw_nonneg [of "rw_pcs s"] by (auto simp: rw_served_def cnt_upd)
next
  case wr_drop
  then show ?thesis using v rw_nonneg [of "rw_pcs s"] by (auto simp: rw_served_def cnt_upd)
next
  case wr_cas_ok
  then show ?thesis using v rw_nonneg [of "rw_pcs s"] by (auto simp: rw_served_def cnt_upd)
next
  case wr_push
  then have "w_owner s = Some i" using owned_is [of "\<lambda>p. p = WrPush"] q unfolding rw_queues_def by blast
  then show ?thesis using wr_push v rw_nonneg [of "rw_pcs s"] by (auto simp: rw_served_def cnt_upd)
next
  case rd_check_busy
  then have "writers s = 1"
    using w small_no_writer [of "rw_state s"] readers_bound [of s "\<lambda>p. p = RdHold"] by (auto simp: rw_word_def)
  then show ?thesis using rd_check_busy v rw_nonneg [of "rw_pcs s"] by (auto simp: rw_served_def cnt_upd)
next
  case rd_push
  then have "r_owner s = Some i" using owned_is [of "\<lambda>p. p = RdPush"] q unfolding rw_queues_def by blast
  then show ?thesis using rd_push v rw_nonneg [of "rw_pcs s"] by (auto simp: rw_served_def cnt_upd)
qed (use v rw_nonneg [of "rw_pcs s"] in \<open>auto simp: rw_served_def cnt_upd\<close>)

definition rw_good :: "rwlock \<Rightarrow> bool" where
  "rw_good s \<longleftrightarrow> rw_word s \<and> rw_queues s \<and> rw_served s"

interpretation rw: threads_system rw_step rw_start rw_good
proof unfold_locales
  fix s assume s: "rw_start s"
  then have "cnt P (rw_pcs s) = 0" if "\<not> P RwIdle" for P using that by (auto simp: rw_start_def intro!: cnt_zero)
  then show "rw_good s" using s
    by (auto simp: rw_start_def rw_good_def rw_word_def rw_queues_def rw_served_def intro!: waitq_none)
qed (auto simp: rw_good_def intro: rw_step_word rw_step_queues rw_step_served)

text \<open>
  C20. The readers-writer lock excludes and never forgets a waiter. With fewer than \<open>2 ^ 63\<close>
  threads, in every reachable state a writer excludes readers and other writers, the state
  word is the number of readers or the writer bit, and while a thread is blocked some other
  thread holds the lock or is on its way through one of its operations.
\<close>

theorem rwlock_correct:
  assumes "rw_start s0" and "runs rw_step s0 s"
  shows "(\<forall>i < length (rw_pcs s). \<forall>j < length (rw_pcs s). rw_pcs s ! i = WrHold \<and> rw_pcs s ! j \<in> {WrHold, RdHold} \<longrightarrow> i = j) \<and>
    (rw_state s = (if \<exists>i < length (rw_pcs s). rw_pcs s ! i = WrHold then WRITER_BIT
                   else of_nat (card {i. i < length (rw_pcs s) \<and> rw_pcs s ! i = RdHold}))) \<and>
    (\<forall>i < length (rw_pcs s). rw_pcs s ! i \<in> {RdBlocked, WrBlocked} \<longrightarrow>
       (\<exists>j < length (rw_pcs s). rw_pcs s ! j \<notin> {RwIdle, RdBlocked, WrBlocked}))"
proof -
  have g: "rw_word s" "rw_queues s" "rw_served s"
    using rw.reachable_good [OF assms(2,1)] by (simp_all add: rw_good_def)
  have excl: "i = j" if "i < length (rw_pcs s)" "j < length (rw_pcs s)" "rw_pcs s ! i = WrHold" "rw_pcs s ! j \<in> {WrHold, RdHold}" for i j
    using cnt_unique [of "\<lambda>p. p = WrHold" "rw_pcs s" i j] cnt_pos [of i "rw_pcs s" "\<lambda>p. p = WrHold"]
      cnt_pos [of j "rw_pcs s" "\<lambda>p. p = RdHold"] g(1) that by (auto simp: rw_word_def)
  have word: "rw_state s = (if \<exists>i < length (rw_pcs s). rw_pcs s ! i = WrHold then WRITER_BIT
                   else of_nat (card {i. i < length (rw_pcs s) \<and> rw_pcs s ! i = RdHold}))"
  proof (cases "0 < writers s")
    case True
    then have "\<exists>i < length (rw_pcs s). rw_pcs s ! i = WrHold" by (auto elim: cnt_posE)
    then show ?thesis using g(1) True by (auto simp: rw_word_def)
  next
    case False
    then have "\<not> (\<exists>i < length (rw_pcs s). rw_pcs s ! i = WrHold)"
      using cnt_pos [of _ "rw_pcs s" "\<lambda>p. p = WrHold"] by force
    moreover have "uint (rw_state s) = int (card {i. i < length (rw_pcs s) \<and> rw_pcs s ! i = RdHold})"
      using g(1) False cnt_at_pc [of "\<lambda>p. p = RdHold" "rw_pcs s"] unfolding rw_word_def at_pc_def by auto
    then have "rw_state s = of_nat (card {i. i < length (rw_pcs s) \<and> rw_pcs s ! i = RdHold})"
      by (metis of_int_of_nat_eq word_of_int_uint)
    ultimately show ?thesis by auto
  qed
  have free: "0 < readers s \<or> 0 < writers s" if "rw_state s \<noteq> 0"
    using g(1) that uint_0_iff [of "rw_state s"] cnt_nonneg [of "\<lambda>p. p = RdHold" "rw_pcs s"] by (auto simp: rw_word_def)
  have some: "\<exists>j < length (rw_pcs s). rw_pcs s ! j \<notin> {RwIdle, RdBlocked, WrBlocked}"
    if i: "i < length (rw_pcs s)" "rw_pcs s ! i \<in> {RdBlocked, WrBlocked}" for i
  proof -
    have "w_queue s \<noteq> [] \<or> r_queue s \<noteq> []"
      using i g(2) waitq_nonempty [of "\<lambda>p. p = WrBlocked" "w_queue s" "rw_pcs s" i]
        waitq_nonempty [of "\<lambda>p. p = RdBlocked" "r_queue s" "rw_pcs s" i] by (auto simp: rw_queues_def)
    then have "rw_state s \<noteq> 0 \<or> 0 < writers s \<or> 0 < poppers s \<or> 0 < w_poppers s \<or> 0 < trying s"
      using g(3) unfolding rw_served_def by blast
    then have "0 < readers s \<or> 0 < writers s \<or> 0 < poppers s \<or> 0 < w_poppers s \<or> 0 < trying s" using free by blast
    then show ?thesis by (elim disjE) (force elim!: cnt_posE)+
  qed
  show ?thesis using excl word some by blast
qed

definition rw_idle :: "nat \<Rightarrow> rwlock" where
  "rw_idle n = \<lparr>rw_state = 0, writers_waiting = 0, w_queue = [], w_owner = None, r_queue = [], r_owner = None,
                rw_pcs = replicate n RwIdle\<rparr>"

theorem rwlock_correct_witness:
  "\<exists>s. runs rw_step (rw_idle 2) s \<and> rw_pcs s ! 0 = WrHold \<and> rw_pcs s ! 1 \<noteq> RdHold \<and> rw_state s = WRITER_BIT"
proof -
  let ?a = "(rw_idle 2)\<lparr>rw_pcs := (rw_pcs (rw_idle 2))[0 := WrLoad]\<rparr>"
  let ?b = "?a\<lparr>rw_pcs := (rw_pcs ?a)[0 := if rw_state ?a = 0 then WrCas else WrAdd]\<rparr>"
  let ?c = "?b\<lparr>rw_state := WRITER_BIT, rw_pcs := (rw_pcs ?b)[0 := WrHold]\<rparr>"
  have "rw_step (rw_idle 2) 0 ?a" by (rule wr_call) (simp_all add: rw_idle_def)
  moreover have "rw_step ?a 0 ?b" by (rule wr_load) (simp_all add: rw_idle_def)
  moreover have "rw_step ?b 0 ?c" by (rule wr_cas_ok) (simp_all add: rw_idle_def)
  ultimately have r: "runs rw_step (rw_idle 2) ?c" by (blast intro: runs_step runs_one)
  have s: "rw_start (rw_idle 2)" by (simp add: rw_start_def rw_idle_def)
  have p: "0 < length (rw_pcs ?c)" "rw_pcs ?c ! 0 = WrHold" by (simp_all add: rw_idle_def)
  then have "rw_state ?c = WRITER_BIT" "rw_pcs ?c ! 1 \<noteq> RdHold"
    using rwlock_correct [OF s r] by (auto simp: rw_idle_def)
  then show ?thesis using r p by blast
qed

end
