(* ===== verification/Async.thy ===== *)
theory Async
  imports Steps
begin

text \<open>
  Asynchronous tasks: the executor of \<^verbatim>\<open>core/asynchronous/mod.rs\<close> and the bridge from system calls to
  asynchronous objects in \<^verbatim>\<open>core/asynchronous/syscall_bridge.rs\<close>. A task is a number; polling it is
  the work of its future, which may finish it, push tasks or do nothing.
\<close>

section \<open>The executor\<close>

datatype exec_pc = ExPop | ExPoll nat | ExCheck | ExMark | ExYield

record executor =
  run_queue :: "nat list"
  queue_held :: bool
  registered :: bool
  exec_blocked :: bool
  exec_pc :: exec_pc
  polled :: "nat list"

text \<open>
  \<open>push_task\<close> runs under the queue lock: the task is appended and a blocked executor is woken.
  The executor pops a task or, finding none, takes the lock again, marks itself blocked while
  it still holds it, and yields; it runs on once it has been made ready. Thread 0 is the
  executor, any other number a thread that pushes.
\<close>

definition push_task :: "nat \<Rightarrow> executor \<Rightarrow> executor" where
  "push_task t s =
    (let s1 = s\<lparr>run_queue := run_queue s @ [t]\<rparr>
     in if registered s1 \<and> exec_blocked s1 then s1\<lparr>exec_blocked := False\<rparr> else s1)"

inductive exec_step :: "executor \<Rightarrow> nat \<Rightarrow> executor \<Rightarrow> bool" where
  ex_push: "0 < i \<Longrightarrow> \<not> queue_held s \<Longrightarrow> exec_step s i (push_task t s)"
| ex_register: "\<not> registered s \<Longrightarrow> exec_step s 0 (s\<lparr>registered := True\<rparr>)"
| ex_pop: "registered s \<Longrightarrow> exec_pc s = ExPop \<Longrightarrow> \<not> queue_held s \<Longrightarrow> run_queue s = t # q \<Longrightarrow>
    exec_step s 0 (s\<lparr>run_queue := q, exec_pc := ExPoll t\<rparr>)"
| ex_none: "registered s \<Longrightarrow> exec_pc s = ExPop \<Longrightarrow> \<not> queue_held s \<Longrightarrow> run_queue s = [] \<Longrightarrow>
    exec_step s 0 (s\<lparr>exec_pc := ExCheck\<rparr>)"
| ex_poll: "exec_pc s = ExPoll t \<Longrightarrow> exec_step s 0 (s\<lparr>exec_pc := ExPop, polled := polled s @ [t]\<rparr>)"
| ex_check_some: "exec_pc s = ExCheck \<Longrightarrow> \<not> queue_held s \<Longrightarrow> run_queue s \<noteq> [] \<Longrightarrow>
    exec_step s 0 (s\<lparr>exec_pc := ExPop\<rparr>)"
| ex_check_none: "exec_pc s = ExCheck \<Longrightarrow> \<not> queue_held s \<Longrightarrow> run_queue s = [] \<Longrightarrow>
    exec_step s 0 (s\<lparr>queue_held := True, exec_pc := ExMark\<rparr>)"
| ex_mark: "exec_pc s = ExMark \<Longrightarrow> exec_step s 0 (s\<lparr>exec_blocked := True, queue_held := False, exec_pc := ExYield\<rparr>)"
| ex_resume: "exec_pc s = ExYield \<Longrightarrow> \<not> exec_blocked s \<Longrightarrow> exec_step s 0 (s\<lparr>exec_pc := ExPop\<rparr>)"

definition exec_start :: "executor \<Rightarrow> bool" where
  "exec_start s \<longleftrightarrow> run_queue s = [] \<and> \<not> queue_held s \<and> \<not> registered s \<and> \<not> exec_blocked s \<and> exec_pc s = ExPop \<and> polled s = []"

definition exec_good :: "executor \<Rightarrow> bool" where
  "exec_good s \<longleftrightarrow>
    (exec_blocked s \<longrightarrow> run_queue s = [] \<and> exec_pc s = ExYield) \<and>
    (queue_held s \<longleftrightarrow> exec_pc s = ExMark) \<and> (exec_pc s = ExMark \<longrightarrow> run_queue s = []) \<and>
    (exec_pc s \<noteq> ExPop \<longrightarrow> registered s)"

interpretation executor: threads_system exec_step exec_start exec_good
proof unfold_locales
  fix s i s' assume g: "exec_good s" and "exec_step s i s'"
  from this(2) show "exec_good s'"
    using g by (cases rule: exec_step.cases) (auto simp: exec_good_def push_task_def Let_def)
qed (simp add: exec_start_def exec_good_def)


definition idle_executor :: executor where
  "idle_executor = \<lparr>run_queue = [], queue_held = False, registered = False, exec_blocked = False, exec_pc = ExPop, polled = []\<rparr>"


section \<open>The system-call bridge\<close>

text \<open>
  A system call polls its future; when it is pending the future has stored the caller's waker
  and the thread marks itself blocked and yields. The waker runs on another core when the
  event happens: it wakes the thread only if the thread is marked blocked. Thread 0 is the
  caller, 1 the source of the event.
\<close>

datatype bridge_pc = BrPoll | BrPending | BrBlocked | BrDone

record bridge =
  br_pc :: bridge_pc
  event :: bool
  armed :: bool

definition waker_wake :: "bridge \<Rightarrow> bridge" where
  "waker_wake s = (if br_pc s = BrBlocked then s\<lparr>br_pc := BrPoll\<rparr> else s)"

inductive bridge_step :: "bridge \<Rightarrow> nat \<Rightarrow> bridge \<Rightarrow> bool" where
  br_ready: "br_pc s = BrPoll \<Longrightarrow> event s \<Longrightarrow> bridge_step s 0 (s\<lparr>br_pc := BrDone\<rparr>)"
| br_pending: "br_pc s = BrPoll \<Longrightarrow> \<not> event s \<Longrightarrow> bridge_step s 0 (s\<lparr>br_pc := BrPending, armed := True\<rparr>)"
| br_block: "br_pc s = BrPending \<Longrightarrow> bridge_step s 0 (s\<lparr>br_pc := BrBlocked\<rparr>)"
| br_event: "bridge_step s 1 (if armed s then waker_wake (s\<lparr>event := True, armed := False\<rparr>) else s\<lparr>event := True\<rparr>)"

lemma bridge_stuck:
  assumes "runs bridge_step s s'" and "br_pc s = BrBlocked" and "event s" and "\<not> armed s"
  shows "br_pc s' = BrBlocked \<and> event s' \<and> \<not> armed s'"
  using assms
proof (induction rule: runs.induct)
  case (runs_step s s' i s'')
  then show ?case by (auto elim!: bridge_step.cases)
qed simp

text \<open>
  A system call can sleep through its wake-up. If the event happens after the poll has
  stored the waker and before the thread is marked blocked, the waker does nothing; the thread
  then blocks, and from there no further event ever wakes it although its result is ready.
\<close>

theorem syscall_bridge_loses_wakeup:
  "\<exists>s. runs bridge_step \<lparr>br_pc = BrPoll, event = False, armed = False\<rparr> s \<and> br_pc s = BrBlocked \<and> event s \<and>
     (\<forall>s'. runs bridge_step s s' \<longrightarrow> br_pc s' = BrBlocked)"
proof -
  let ?s = "\<lambda>p e a. \<lparr>br_pc = p, event = e, armed = a\<rparr> :: bridge"
  have "bridge_step (?s BrPoll False False) 0 (?s BrPending False True)"
    using br_pending [of "?s BrPoll False False"] by simp
  then have 1: "runs bridge_step (?s BrPoll False False) (?s BrPending False True)" by (rule runs_one)
  have "bridge_step (?s BrPending False True) 1 (?s BrPending True False)"
    using br_event [of "?s BrPending False True"] by (simp add: waker_wake_def)
  note 2 = runs_step [OF 1 this]
  have "bridge_step (?s BrPending True False) 0 (?s BrBlocked True False)"
    using br_block [of "?s BrPending True False"] by simp
  note 3 = runs_step [OF 2 this]
  have "br_pc s' = BrBlocked" if "runs bridge_step (?s BrBlocked True False) s'" for s'
    using bridge_stuck [OF that] by simp
  then show ?thesis using 3 by (intro exI [of _ "?s BrBlocked True False"]) auto
qed

theorem syscall_bridge_loses_wakeup_witness:
  "\<exists>s. runs bridge_step \<lparr>br_pc = BrPoll, event = False, armed = False\<rparr> s \<and> br_pc s = BrBlocked \<and> event s \<and>
     \<not> runs bridge_step s (s\<lparr>br_pc := BrDone\<rparr>)"
proof -
  obtain s where "runs bridge_step \<lparr>br_pc = BrPoll, event = False, armed = False\<rparr> s" "br_pc s = BrBlocked" "event s"
    "\<forall>s'. runs bridge_step s s' \<longrightarrow> br_pc s' = BrBlocked"
    using syscall_bridge_loses_wakeup by blast
  then show ?thesis by fastforce
qed

end
