(* ===== verification/Calendar.thy ===== *)
theory Calendar
  imports Prelude
begin

text \<open>
  Civil time: \<^verbatim>\<open>core/time/datetime.rs\<close> and the decoding of the clock registers in
  \<^verbatim>\<open>arch/x86_64/timer/realtime.rs\<close>. Rust divides towards zero, and the date part is computed in
  32-bit signed integers, whose wrap-around is written out where a value can leave the range.
\<close>

section \<open>Signed arithmetic\<close>

definition tdiv :: "int \<Rightarrow> int \<Rightarrow> int" where
  "tdiv a b = (if 0 \<le> a then a div b else - ((- a) div b))"

definition tmod :: "int \<Rightarrow> int \<Rightarrow> int" where
  "tmod a b = a - tdiv a b * b"

definition i32 :: "int \<Rightarrow> int" where
  "i32 x = (x + 2 ^ 31) mod 2 ^ 32 - 2 ^ 31"

definition u32 :: "int \<Rightarrow> int" where
  "u32 x = x mod 2 ^ 32"

lemma i32_id [simp]: "- (2 ^ 31) \<le> x \<Longrightarrow> x < 2 ^ 31 \<Longrightarrow> i32 x = x"
  by (simp add: i32_def)

lemma u32_id [simp]: "0 \<le> x \<Longrightarrow> x < 2 ^ 32 \<Longrightarrow> u32 x = x"
  by (simp add: u32_def)

section \<open>Conversions\<close>

record datetime =
  year :: int
  month :: int
  day :: int
  hour :: int
  minute :: int
  second :: int

definition days_before_year :: "int \<Rightarrow> int" where
  "days_before_year yoe = 365 * yoe + yoe div 4 - yoe div 100"

definition year_of_era :: "int \<Rightarrow> int" where
  "year_of_era doe = (doe - doe div 1460 + doe div 36524 - doe div 146096) div 365"

definition epoch_to_datetime :: "int \<Rightarrow> datetime" where
  "epoch_to_datetime epoch_secs =
    (let days0 = i32 (tdiv epoch_secs 86400);
         secs0 = i32 (tmod epoch_secs 86400);
         (secs_of_day, days) = (if secs0 < 0 then (secs0 + 86400, i32 (days0 - 1)) else (secs0, days0));
         h = secs_of_day div 3600;
         rem_secs = secs_of_day mod 3600;
         mi = rem_secs div 60;
         s = rem_secs mod 60;
         days_shifted = i32 (days + 719468);
         era = tdiv (if 0 \<le> days_shifted then days_shifted else i32 (days_shifted - 146096)) 146097;
         doe = i32 (days_shifted - i32 (era * 146097));
         yoe = year_of_era doe;
         y = i32 (yoe + era * 400);
         doy = doe - days_before_year yoe;
         mp = (5 * doy + 2) div 153;
         d = doy - (153 * mp + 2) div 5 + 1;
         m = (if mp < 10 then mp + 3 else mp - 9)
     in \<lparr>year = i32 (y + (if m \<le> 2 then 1 else 0)), month = m, day = d, hour = h, minute = mi, second = s\<rparr>)"

definition datetime_to_epoch :: "datetime \<Rightarrow> int" where
  "datetime_to_epoch dt =
    (let m = month dt; d = day dt;
         y = year dt - (if m \<le> 2 then 1 else 0);
         era = tdiv (if 0 \<le> y then y else y - 399) 400;
         yoe = y - era * 400;
         doy = (153 * (if 2 < m then m - 3 else m + 9) + 2) div 5 + d - 1;
         doe = yoe * 365 + yoe div 4 - yoe div 100 + doy;
         ts = era * 146097 + doe - 719468
     in ts * 86400 + u32 (hour dt * 3600) + u32 (minute dt * 60) + second dt)"

section \<open>Years of an era\<close>

text \<open>
  An era is 400 years of 146097 days. The year formula is right at the first and at the last
  day of each of the 400 years, and it is monotone, so it is right on every day.
\<close>

definition adjusted :: "int \<Rightarrow> int" where
  "adjusted doe = doe - doe div 1460 + doe div 36524 - doe div 146096"

lemma year_table:
  "list_all (\<lambda>y. 365 * y \<le> adjusted (days_before_year y) \<and>
      (y < 399 \<longrightarrow> adjusted (days_before_year (y + 1) - 1) \<le> 365 * y + 364) \<and>
      days_before_year (y + 1) \<le> days_before_year y + 366) (map int [0..<400])"
  by code_simp

lemma year_bounds:
  assumes "0 \<le> y" and "y \<le> 399"
  shows "365 * y \<le> adjusted (days_before_year y)"
    and "y < 399 \<Longrightarrow> adjusted (days_before_year (y + 1) - 1) \<le> 365 * y + 364"
    and "days_before_year (y + 1) \<le> days_before_year y + 366"
proof -
  have "nat y \<in> set [0..<400]" using assms by auto
  moreover have "int (nat y) = y" using assms(1) by simp
  ultimately have "365 * y \<le> adjusted (days_before_year y) \<and>
      (y < 399 \<longrightarrow> adjusted (days_before_year (y + 1) - 1) \<le> 365 * y + 364) \<and>
      days_before_year (y + 1) \<le> days_before_year y + 366"
    using year_table unfolding list_all_iff set_map by (metis (no_types, lifting) image_eqI)
  then show "365 * y \<le> adjusted (days_before_year y)"
    and "y < 399 \<Longrightarrow> adjusted (days_before_year (y + 1) - 1) \<le> 365 * y + 364"
    and "days_before_year (y + 1) \<le> days_before_year y + 366" by auto
qed

lemma div_succ: "0 < n \<Longrightarrow> (x + 1) div n = x div n + (if x mod n = n - 1 then 1 else 0)" for x n :: int
proof (cases "n = 1")
  case False
  assume n: "0 < n"
  then have "(x + 1) div n = x div n + (x mod n + 1) div n" using False by (simp add: div_add1_eq [of x 1])
  moreover have "0 \<le> x mod n" "x mod n < n" using n by simp_all
  ultimately show ?thesis by (cases "x mod n = n - 1") (simp_all add: div_pos_pos_trivial)
qed simp

lemma adjusted_step: "adjusted x \<le> adjusted (x + 1)"
proof -
  have "x mod 36524 = 36523" if "x mod 146096 = 146095"
    using mod_mod_cancel [of 36524 146096 x] that by simp
  then show ?thesis by (simp add: adjusted_def div_succ)
qed

lemma adjusted_mono: "a \<le> b \<Longrightarrow> adjusted a \<le> adjusted b"
proof (induction b rule: int_ge_induct)
  case (step b)
  then show ?case using adjusted_step [of b] by simp
qed simp

lemma year_of_era_correct:
  assumes "0 \<le> doe" and "doe \<le> 146096"
  defines "y \<equiv> year_of_era doe"
  shows "0 \<le> y" and "y \<le> 399" and "days_before_year y \<le> doe" and "doe \<le> days_before_year y + 365"
    and "y < 399 \<Longrightarrow> doe < days_before_year (y + 1)"
proof -
  have yd: "y = adjusted doe div 365" by (simp add: y_def year_of_era_def adjusted_def)
  have "adjusted 0 \<le> adjusted doe" "adjusted doe \<le> adjusted 146096" using assms adjusted_mono by auto
  then have a: "0 \<le> adjusted doe" "adjusted doe \<le> 145999" by (simp_all add: adjusted_def)
  then show y: "0 \<le> y" "y \<le> 399" by (simp_all add: yd pos_imp_zdiv_nonneg_iff)
  have in_year: "365 * y \<le> adjusted doe" "adjusted doe \<le> 365 * y + 364" unfolding yd by linarith+
  show lo: "days_before_year y \<le> doe"
  proof (rule ccontr)
    assume "\<not> ?thesis"
    then have lt: "doe \<le> days_before_year y - 1" by simp
    then have "1 \<le> y" using y(1) assms(1) by (cases "y = 0") (auto simp: days_before_year_def)
    then have "adjusted (days_before_year y - 1) \<le> 365 * (y - 1) + 364" using year_bounds(2) [of "y - 1"] y(2) by simp
    then show False using adjusted_mono [OF lt] in_year by simp
  qed
  show hi: "doe < days_before_year (y + 1)" if "y < 399"
  proof (rule ccontr)
    assume "\<not> ?thesis"
    then have "adjusted (days_before_year (y + 1)) \<le> adjusted doe" by (simp add: adjusted_mono)
    then show False using year_bounds(1) [of "y + 1"] that y in_year by simp
  qed
  show "doe \<le> days_before_year y + 365"
  proof (cases "y < 399")
    case True
    then show ?thesis using hi year_bounds(3) [OF y] by simp
  next
    case False
    then have "y = 399" using y(2) by simp
    then show ?thesis using assms(2) by (simp add: days_before_year_def)
  qed
qed

section \<open>Round trips\<close>

lemma ceil_floor: "0 < n \<Longrightarrow> - ((- z + (n - 1)) div n) = z div n" for z n :: int
proof -
  assume n: "0 < n"
  have z: "z = z div n * n + z mod n" by simp
  have m: "0 \<le> z mod n" "z mod n < n" using n by simp_all
  have e: "(- z + (n - 1)) = (n - 1 - z mod n) + - (z div n) * n" using z by (simp add: algebra_simps)
  have "(- z + (n - 1)) div n = - (z div n) + (n - 1 - z mod n) div n"
    unfolding e using n by (subst div_mult_self1) simp_all
  then show ?thesis using m by (simp add: div_pos_pos_trivial)
qed

lemma tdiv_floor: "0 < n \<Longrightarrow> tdiv (if 0 \<le> z then z else z - (n - 1)) n = z div n"
  using ceil_floor [of n z] by (auto simp: tdiv_def)

lemma split_floor: "0 < n \<Longrightarrow> (if tmod t n < 0 then (tmod t n + n, tdiv t n - 1) else (tmod t n, tdiv t n)) = (t mod n, t div n)"
proof (cases "0 \<le> t")
  case True
  assume n: "0 < n"
  have "tmod t n = t mod n" using True by (simp add: tmod_def tdiv_def minus_div_mult_eq_mod)
  moreover have "0 \<le> t mod n" using n by simp
  ultimately show ?thesis using True by (simp add: tdiv_def)
next
  case False
  assume n: "0 < n"
  have "(- t) div n * n + (- t) mod n = - t" by simp
  then have "tmod t n = - ((- t) mod n)" using False unfolding tmod_def tdiv_def by (simp only: if_False)
  moreover have "- t mod n = 0 \<or> 0 < - t mod n" using pos_mod_sign [OF n, of "- t"] by linarith
  ultimately show ?thesis using False n zmod_zminus1_eq_if [of "- t" n] zdiv_zminus1_eq_if [of n "- t"]
    by (auto simp: tdiv_def)
qed

text \<open>The fields of a date that exist.\<close>

definition leap :: "int \<Rightarrow> bool" where
  "leap y \<longleftrightarrow> 4 dvd y \<and> (100 dvd y \<longrightarrow> 400 dvd y)"

definition month_days :: "int \<Rightarrow> int \<Rightarrow> int" where
  "month_days y m = (if m = 2 then if leap y then 29 else 28 else if m \<in> {4, 6, 9, 11} then 30 else 31)"

definition valid_fields :: "datetime \<Rightarrow> bool" where
  "valid_fields dt \<longleftrightarrow> 1 \<le> month dt \<and> month dt \<le> 12 \<and> 1 \<le> day dt \<and> day dt \<le> 31 \<and>
     0 \<le> hour dt \<and> hour dt < 24 \<and> 0 \<le> minute dt \<and> minute dt < 60 \<and> 0 \<le> second dt \<and> second dt < 60"

text \<open>The month table: \<open>mp\<close> is the month counted from March.\<close>

lemma month_table:
  assumes "0 \<le> doy" and "doy \<le> (365 :: int)"
  defines "mp \<equiv> (5 * doy + 2) div 153"
  shows "0 \<le> mp" and "mp \<le> 11" and "1 \<le> doy - (153 * mp + 2) div 5 + 1" and "doy - (153 * mp + 2) div 5 + 1 \<le> 31"
proof -
  have mp: "153 * mp \<le> 5 * doy + 2" "5 * doy + 2 \<le> 153 * mp + 152" unfolding mp_def by linarith+
  show "0 \<le> mp" "mp \<le> 11" using assms(1,2) mp by linarith+
  have q: "5 * ((153 * mp + 2) div 5) \<le> 153 * mp + 2" "153 * mp + 2 \<le> 5 * ((153 * mp + 2) div 5) + 4" by linarith+
  show "1 \<le> doy - (153 * mp + 2) div 5 + 1" using mp q by linarith
  show "doy - (153 * mp + 2) div 5 + 1 \<le> 31" using mp q by linarith
qed

lemma days_split:
  assumes "- 180000000000000 \<le> t" and "t \<le> 180000000000000"
  defines "z \<equiv> t div 86400 + 719468"
  defines "doe \<equiv> z mod 146097"
  defines "doy \<equiv> doe - days_before_year (year_of_era doe)"
  defines "mp \<equiv> (5 * doy + 2) div 153"
  shows "epoch_to_datetime t =
    \<lparr>year = year_of_era doe + z div 146097 * 400 + (if 10 \<le> mp then 1 else 0),
     month = (if mp < 10 then mp + 3 else mp - 9), day = doy - (153 * mp + 2) div 5 + 1,
     hour = t mod 86400 div 3600, minute = t mod 86400 mod 3600 div 60, second = t mod 86400 mod 3600 mod 60\<rparr>"
proof -
  have d: "- 2083333334 \<le> t div 86400" "t div 86400 \<le> 2083333334" using assms(1,2) by linarith+
  have s: "0 \<le> t mod 86400" "t mod 86400 < 86400" by simp_all
  have sp: "(if tmod t 86400 < 0 then (tmod t 86400 + 86400, tdiv t 86400 - 1) else (tmod t 86400, tdiv t 86400)) = (t mod 86400, t div 86400)"
    by (rule split_floor) simp
  have td: "tdiv t 86400 = t div 86400 \<and> tmod t 86400 = t mod 86400 \<and> \<not> tmod t 86400 < 0 \<or>
      tdiv t 86400 = t div 86400 + 1 \<and> tmod t 86400 = t mod 86400 - 86400 \<and> tmod t 86400 < 0"
    using sp by (auto split: if_splits)
  have i: "i32 (tdiv t 86400) = tdiv t 86400" "i32 (tmod t 86400) = tmod t 86400" "i32 (tdiv t 86400 - 1) = tdiv t 86400 - 1"
    using td d s by auto
  have z: "i32 (t div 86400 + 719468) = z" using d by (simp add: z_def)
  have e: "tdiv (if 0 \<le> z then z else i32 (z - 146096)) 146097 = z div 146097"
  proof -
    have "i32 (z - 146096) = z - 146096" using d by (simp add: z_def)
    then show ?thesis using tdiv_floor [of 146097 z] by (cases "0 \<le> z") simp_all
  qed
  have doe: "0 \<le> doe" "doe \<le> 146096" by (simp_all add: doe_def)
  have "z = z div 146097 * 146097 + doe" unfolding doe_def by simp
  then have er: "i32 (z div 146097 * 146097) = z div 146097 * 146097" "i32 (z - z div 146097 * 146097) = doe"
    using doe d by (simp_all add: z_def)
  note y = year_of_era_correct [OF doe]
  have "- 14300 \<le> z div 146097" "z div 146097 \<le> 14300" using d unfolding z_def by linarith+
  then have yr: "i32 (year_of_era doe + z div 146097 * 400) = year_of_era doe + z div 146097 * 400"
    "i32 (year_of_era doe + z div 146097 * 400 + 1) = year_of_era doe + z div 146097 * 400 + 1"
    using y(1,2) by simp_all
  have mb: "0 \<le> mp" "mp \<le> 11" using month_table(1,2) [of doy] y(3,4) by (auto simp: mp_def doy_def)
  show ?thesis
    unfolding epoch_to_datetime_def Let_def i sp prod.case z e er doy_def [symmetric] mp_def [symmetric]
    using mb yr by (cases "mp < 10") simp_all
qed

lemma datetime_to_epoch_split:
  assumes "yoe = y - y div 400 * 400"
    and "mp = (if 2 < month dt then month dt - 3 else month dt + 9)" and "y = year dt - (if month dt \<le> 2 then 1 else 0)"
    and "valid_fields dt"
  shows "datetime_to_epoch dt =
    (y div 400 * 146097 + days_before_year yoe + (153 * mp + 2) div 5 + day dt - 1 - 719468) * 86400 +
      hour dt * 3600 + minute dt * 60 + second dt"
proof -
  have "tdiv (if 0 \<le> y then y else y - 399) 400 = y div 400" using tdiv_floor [of 400 y] by (cases "0 \<le> y") simp_all
  moreover have "u32 (hour dt * 3600) = hour dt * 3600" "u32 (minute dt * 60) = minute dt * 60"
    using assms(4) by (simp_all add: valid_fields_def)
  ultimately show ?thesis
    unfolding datetime_to_epoch_def Let_def assms(2,3) [symmetric] days_before_year_def
    by (simp add: assms(1) algebra_simps)
qed

text \<open>
  Timestamps and dates. For every timestamp of more than five million years around the
  epoch, the computed date has valid fields and converts back to the same timestamp.
\<close>

theorem epoch_datetime_roundtrip:
  assumes "- 180000000000000 \<le> t" and "t \<le> 180000000000000"
  shows "valid_fields (epoch_to_datetime t) \<and> datetime_to_epoch (epoch_to_datetime t) = t"
proof -
  define z where "z = t div 86400 + 719468"
  define doe where "doe = z mod 146097"
  define yoe where "yoe = year_of_era doe"
  define doy where "doy = doe - days_before_year yoe"
  define mp where "mp = (5 * doy + 2) div 153"
  have doe: "0 \<le> doe" "doe \<le> 146096" by (simp_all add: doe_def)
  note y = year_of_era_correct [OF doe, folded yoe_def]
  have doy: "0 \<le> doy" "doy \<le> 365" using y(3,4) by (simp_all add: doy_def)
  note m = month_table [OF doy, folded mp_def]
  note ep = days_split [OF assms, folded z_def, folded doe_def, folded yoe_def, folded doy_def, folded mp_def]
  let ?dt = "epoch_to_datetime t"
  have sod: "0 \<le> t mod 86400" "t mod 86400 < 86400" by simp_all
  have v: "valid_fields ?dt" using m sod unfolding ep valid_fields_def by (auto split: if_splits)
  have yy: "year ?dt - (if month ?dt \<le> 2 then 1 else 0) = yoe + z div 146097 * 400" using m by (auto simp: ep)
  have mm: "(if 2 < month ?dt then month ?dt - 3 else month ?dt + 9) = mp" using m by (auto simp: ep)
  have dd: "(yoe + z div 146097 * 400) div 400 = z div 146097" using y(1,2) by (simp add: div_pos_pos_trivial)
  have ye: "yoe = (yoe + z div 146097 * 400) - (yoe + z div 146097 * 400) div 400 * 400" unfolding dd by simp
  have e: "datetime_to_epoch ?dt =
    (z div 146097 * 146097 + days_before_year yoe + (153 * mp + 2) div 5 + day ?dt - 1 - 719468) * 86400 +
      hour ?dt * 3600 + minute ?dt * 60 + second ?dt"
    using datetime_to_epoch_split [OF ye mm [symmetric] yy [symmetric] v] unfolding dd .
  have "days_before_year yoe + (153 * mp + 2) div 5 + day ?dt - 1 = doe" by (simp add: ep doy_def)
  then have q: "z div 146097 * 146097 + days_before_year yoe + (153 * mp + 2) div 5 + day ?dt - 1 - 719468 = t div 86400"
    using div_mult_mod_eq [of z 146097] unfolding doe_def z_def by linarith
  have "hour ?dt * 3600 + minute ?dt * 60 + second ?dt = t mod 86400"
    unfolding ep datetime.simps using div_mult_mod_eq [of "t mod 86400" 3600] div_mult_mod_eq [of "t mod 86400 mod 3600" 60]
    by linarith
  then have "datetime_to_epoch ?dt = t div 86400 * 86400 + t mod 86400" using e unfolding q by linarith
  then have "datetime_to_epoch ?dt = t" by (simp only: div_mult_mod_eq)
  then show ?thesis using v by simp
qed

theorem epoch_datetime_roundtrip_witness:
  "datetime_to_epoch (epoch_to_datetime 951782400) = 951782400 \<and>
     epoch_to_datetime 951782400 = \<lparr>year = 2000, month = 2, day = 29, hour = 0, minute = 0, second = 0\<rparr>"
proof -
  have "datetime_to_epoch (epoch_to_datetime 951782400) = 951782400" using epoch_datetime_roundtrip [of 951782400] by simp
  moreover have "epoch_to_datetime 951782400 = \<lparr>year = 2000, month = 2, day = 29, hour = 0, minute = 0, second = 0\<rparr>" by code_simp
  ultimately show ?thesis by simp
qed

section \<open>The hardware clock\<close>

text \<open>The bytes of the clock's registers, status register B and the century register (0 when there is none).\<close>

record rtc =
  rtc_second :: int
  rtc_minute :: int
  rtc_hour :: int
  rtc_day :: int
  rtc_month :: int
  rtc_year :: int
  rtc_century :: int
  rtc_status_b :: int
  century_reg :: int

definition from_bcd :: "int \<Rightarrow> int" where
  "from_bcd x = (x AND 0x0F) + x div 16 * 10"

definition read_rtc :: "rtc \<Rightarrow> datetime" where
  "read_rtc r =
    (let century = (if century_reg r \<noteq> 0 then rtc_century r else 20);
         bcd = rtc_status_b r AND 0x04 = 0;
         s = (if bcd then from_bcd (rtc_second r) else rtc_second r);
         mi = (if bcd then from_bcd (rtc_minute r) else rtc_minute r);
         h = (if bcd then ((rtc_hour r AND 0x0F) + (rtc_hour r AND 0x70) div 16 * 10) OR (rtc_hour r AND 0x80) else rtc_hour r);
         d = (if bcd then from_bcd (rtc_day r) else rtc_day r);
         m = (if bcd then from_bcd (rtc_month r) else rtc_month r);
         y = (if bcd then from_bcd (rtc_year r) else rtc_year r);
         c = (if bcd \<and> century_reg r \<noteq> 0 then from_bcd century else century);
         h' = (if rtc_status_b r AND 0x02 = 0 \<and> h AND 0x80 \<noteq> 0 then ((h AND 0x7F) + 12) mod 24 else h)
     in \<lparr>year = y + c * 100, month = m, day = d, hour = h', minute = mi, second = s\<rparr>)"

definition to_bcd :: "int \<Rightarrow> int" where
  "to_bcd x = x div 10 * 16 + x mod 10"

lemma bcd_table: "list_all (\<lambda>x. from_bcd (to_bcd x) = x) (map int [0..<100])"
  by code_simp

lemma bcd_roundtrip: "0 \<le> x \<Longrightarrow> x < 100 \<Longrightarrow> from_bcd (to_bcd x) = x"
proof -
  assume "0 \<le> x" "x < 100"
  then have "x \<in> set (map int [0..<100])" by (auto simp: image_iff intro: bexI [of _ "nat x"])
  then show ?thesis using bcd_table by (auto simp: list_all_iff)
qed

text \<open>In 12-hour mode noon is stored as 12 with the afternoon bit, midnight as 12 without it: both are read wrongly.\<close>

lemma twelve_hour_clock_wrong:
  "hour (read_rtc \<lparr>rtc_second = 0, rtc_minute = 0, rtc_hour = 0x92, rtc_day = 1, rtc_month = 1, rtc_year = 0,
      rtc_century = 0x20, rtc_status_b = 0, century_reg = 0x32\<rparr>) = 0"
  "hour (read_rtc \<lparr>rtc_second = 0, rtc_minute = 0, rtc_hour = 0x12, rtc_day = 1, rtc_month = 1, rtc_year = 0,
      rtc_century = 0x20, rtc_status_b = 0, century_reg = 0x32\<rparr>) = 12"
  by (simp_all add: read_rtc_def Let_def from_bcd_def)

end
