(* ===== verification/Pmm.thy ===== *)
theory Pmm
  imports Prelude
begin

text \<open>
  The physical memory manager of \<^verbatim>\<open>kernel/src/memory/pmm.rs\<close>: a buddy allocator over a
  page-frame database. The free lists are doubly linked through headers stored in the
  free pages themselves, so the state keeps the headers as a map from physical addresses
  to \<open>free_block\<close>s (the higher-half offset added by the code is a fixed injection and
  cancels). Physical addresses are \<open>nat\<close>: they are below \<open>2 ^ 52\<close> on the target, so
  no address computation of this file wraps.
\<close>

section \<open>Data\<close>

definition ORDER_MAX :: nat where
  "ORDER_MAX = 11"

definition HUGE_PAGE_SIZE :: nat where
  "HUGE_PAGE_SIZE = 2097152"

definition NORMAL_PAGE_SIZE :: nat where
  "NORMAL_PAGE_SIZE = 4096"

definition PF_FREE :: u16 where "PF_FREE = 1"
definition PF_KERNEL :: u16 where "PF_KERNEL = 2"
definition PF_PAGE_TABLE :: u16 where "PF_PAGE_TABLE = 4"
definition PF_VMO :: u16 where "PF_VMO = 8"
definition PF_PINNED :: u16 where "PF_PINNED = 16"
definition PF_BUDDY_HEAD :: u16 where "PF_BUDDY_HEAD = 32"

lemmas pf_defs = PF_FREE_def PF_KERNEL_def PF_PINNED_def PF_BUDDY_HEAD_def

record free_block =
  fb_prev :: nat
  fb_next :: nat

datatype block_size = Normal | Huge

record page_frame =
  refcount :: u32
  flags :: u16
  buddy_order :: u16

record pmm =
  freelist :: "nat list"
  pfndb :: "page_frame list"
  pfndb_phys_addr :: nat
  headers :: "nat \<Rightarrow> free_block"

definition pmm_new :: pmm where
  "pmm_new = \<lparr>freelist = replicate (ORDER_MAX + 1) 0, pfndb = [], pfndb_phys_addr = 0,
              headers = (\<lambda>_. \<lparr>fb_prev = 0, fb_next = 0\<rparr>)\<rparr>"

section \<open>Operations\<close>

definition set_prev :: "pmm \<Rightarrow> nat \<Rightarrow> nat \<Rightarrow> pmm" where
  "set_prev s a v = s\<lparr>headers := (headers s)(a := (headers s a)\<lparr>fb_prev := v\<rparr>)\<rparr>"

definition set_next :: "pmm \<Rightarrow> nat \<Rightarrow> nat \<Rightarrow> pmm" where
  "set_next s a v = s\<lparr>headers := (headers s)(a := (headers s a)\<lparr>fb_next := v\<rparr>)\<rparr>"

definition set_header :: "pmm \<Rightarrow> nat \<Rightarrow> free_block \<Rightarrow> pmm" where
  "set_header s a b = s\<lparr>headers := (headers s)(a := b)\<rparr>"

definition set_head :: "pmm \<Rightarrow> nat \<Rightarrow> nat \<Rightarrow> pmm run" where
  "set_head s order v = do { fl \<leftarrow> upd (freelist s) order v; ret (s\<lparr>freelist := fl\<rparr>) }"

definition upd_frame :: "pmm \<Rightarrow> nat \<Rightarrow> (page_frame \<Rightarrow> page_frame) \<Rightarrow> pmm run" where
  "upd_frame s pfn f =
    do { fr \<leftarrow> idx (pfndb s) pfn; ret (s\<lparr>pfndb := (pfndb s)[pfn := f fr]\<rparr>) }"

text \<open>The search loop of \<open>alloc_order\<close>: the first non-empty list from \<open>order\<close> up.\<close>

function find_list :: "nat list \<Rightarrow> nat \<Rightarrow> nat option run" where
  "find_list fl order =
    do { list_addr \<leftarrow> idx fl order;
         if list_addr = 0
         then if ORDER_MAX < order + 1 then ret None else find_list fl (order + 1)
         else ret (Some order) }"
  by pat_completeness auto
termination
  by (relation "measure (\<lambda>(fl, order). 12 - order)") (auto simp: ORDER_MAX_def)

declare find_list.simps [simp del]

definition pop_head :: "pmm \<Rightarrow> nat \<Rightarrow> (nat \<times> pmm) run" where
  "pop_head s order =
    do { list_addr \<leftarrow> idx (freelist s) order;
         let block = headers s list_addr;
             s1 = (if fb_next block \<noteq> 0 then set_prev s (fb_next block) 0 else s)
         in do { s2 \<leftarrow> set_head s1 order (fb_next block); ret (list_addr, s2) } }"

definition split_step :: "pmm \<Rightarrow> nat \<Rightarrow> nat \<Rightarrow> pmm run" where
  "split_step s addr order =
    (let buddy_addr = addr + push_bit order NORMAL_PAGE_SIZE
     in do { order_head_addr \<leftarrow> idx (freelist s) order;
             let s1 = (if order_head_addr \<noteq> 0 then set_prev s order_head_addr buddy_addr else s)
             in do { s2 \<leftarrow> set_head s1 order buddy_addr;
                     let s3 = set_header s2 buddy_addr \<lparr>fb_prev = 0, fb_next = order_head_addr\<rparr>
                     in upd_frame s3 (buddy_addr div NORMAL_PAGE_SIZE)
                          (\<lambda>f. f\<lparr>refcount := 0, flags := PF_FREE OR PF_BUDDY_HEAD,
                                  buddy_order := word_of_nat order\<rparr>) } })"

fun split_block :: "pmm \<Rightarrow> nat \<Rightarrow> nat \<Rightarrow> nat \<Rightarrow> pmm run" where
  "split_block s addr 0 target_order = ret s"
| "split_block s addr (Suc order) target_order =
    (if target_order < Suc order
     then do { s' \<leftarrow> split_step s addr order; split_block s' addr order target_order }
     else ret s)"

definition alloc_order :: "pmm \<Rightarrow> nat \<Rightarrow> (nat option \<times> pmm) run" where
  "alloc_order s target_order =
    do { found \<leftarrow> find_list (freelist s) target_order;
         case found of
           None \<Rightarrow> ret (None, s)
         | Some order \<Rightarrow>
             do { (block_addr, s1) \<leftarrow> pop_head s order;
                  let block_pfn = block_addr div NORMAL_PAGE_SIZE
                  in do { s2 \<leftarrow> upd_frame s1 block_pfn
                                 (\<lambda>f. f\<lparr>refcount := 0,
                                       flags := flags f AND NOT (PF_FREE OR PF_BUDDY_HEAD)\<rparr>);
                          s3 \<leftarrow> split_block s2 block_addr order target_order;
                          s4 \<leftarrow> upd_frame s3 block_pfn (\<lambda>f. f\<lparr>refcount := 1, flags := PF_KERNEL\<rparr>);
                          ret (Some block_addr, s4) } } }"

fun size_order :: "block_size \<Rightarrow> nat" where
  "size_order Huge = 9"
| "size_order Normal = 0"

definition pmm_alloc :: "pmm \<Rightarrow> block_size \<Rightarrow> (nat option \<times> pmm) run" where
  "pmm_alloc s sz = alloc_order s (size_order sz)"

definition merge_block :: "pmm \<Rightarrow> nat \<Rightarrow> nat \<Rightarrow> nat \<Rightarrow> (nat \<times> pmm) run" where
  "merge_block s block_addr buddy_addr order =
    (let prev = fb_prev (headers s buddy_addr);
         next = fb_next (headers s buddy_addr)
     in do { s1 \<leftarrow> (if prev \<noteq> 0 then ret (set_next s prev next) else set_head s order next);
             let s2 = (if next \<noteq> 0 then set_prev s1 next prev else s1);
                 s3 = set_next (set_prev s2 buddy_addr 0) buddy_addr 0
             in ret (if block_addr < buddy_addr then block_addr else buddy_addr, s3) })"

function coalesce :: "pmm \<Rightarrow> nat \<Rightarrow> nat \<Rightarrow> (nat \<times> nat \<times> pmm) run" where
  "coalesce s block_addr order =
    (if order < ORDER_MAX
     then let buddy_addr = block_addr XOR push_bit order NORMAL_PAGE_SIZE;
              buddy_pfn = buddy_addr div NORMAL_PAGE_SIZE
          in do { f \<leftarrow> idx (pfndb s) buddy_pfn;
                  if flags f AND (PF_FREE OR PF_BUDDY_HEAD) = (PF_FREE OR PF_BUDDY_HEAD)
                     \<and> word_of_nat order = buddy_order f
                  then do { s1 \<leftarrow> upd_frame s buddy_pfn
                                   (\<lambda>f. f\<lparr>flags := flags f AND NOT PF_BUDDY_HEAD\<rparr>);
                            (merged, s2) \<leftarrow> merge_block s1 block_addr buddy_addr order;
                            coalesce s2 merged (order + 1) }
                  else ret (block_addr, order, s) }
     else ret (block_addr, order, s))"
  by pat_completeness auto
termination
  by (relation "measure (\<lambda>(s, a, order). ORDER_MAX - order)") auto

declare coalesce.simps [simp del]

definition push_block :: "pmm \<Rightarrow> nat \<Rightarrow> nat \<Rightarrow> pmm run" where
  "push_block s block_addr order =
    do { s1 \<leftarrow> upd_frame s (block_addr div NORMAL_PAGE_SIZE)
                (\<lambda>f. f\<lparr>refcount := 0, flags := PF_FREE OR PF_BUDDY_HEAD,
                        buddy_order := word_of_nat order\<rparr>);
         old_head \<leftarrow> idx (freelist s1) order;
         let s2 = set_header s1 block_addr \<lparr>fb_prev = 0, fb_next = old_head\<rparr>;
             s3 = (if old_head \<noteq> 0 then set_prev s2 old_head block_addr else s2)
         in set_head s3 order block_addr }"

definition free_order :: "pmm \<Rightarrow> nat \<Rightarrow> nat \<Rightarrow> pmm run" where
  "free_order s block_addr order =
    do { f \<leftarrow> idx (pfndb s) (block_addr div NORMAL_PAGE_SIZE);
         if flags f AND PF_FREE \<noteq> 0 then panic
         else do { (final_addr, final_order, s1) \<leftarrow> coalesce s block_addr order;
                   push_block s1 final_addr final_order } }"

definition pmm_free :: "pmm \<Rightarrow> nat \<Rightarrow> block_size \<Rightarrow> pmm run" where
  "pmm_free s block_addr sz = free_order s block_addr (size_order sz)"

end
