(* ===== verification/Pmm_Inv.thy ===== *)
theory Pmm_Inv
  imports Pmm
begin

text \<open>
  Correctness of the buddy allocator. The free lists are related to abstract lists of
  block addresses by \<open>dll\<close> (a doubly linked, zero-terminated list in the header map);
  \<open>pmm_core\<close> ties the lists to the page-frame flags and says that free blocks are
  aligned, inside the database and pairwise disjoint. The two allocator operations are
  then verified against the set of free frames: \<open>alloc_order\<close> removes exactly the
  frames of the block it returns, \<open>free_order\<close> adds exactly the frames of the block it
  is given, and neither panics.
\<close>

section \<open>Doubly linked lists in the header map\<close>

fun dll :: "(nat \<Rightarrow> free_block) \<Rightarrow> nat \<Rightarrow> nat \<Rightarrow> nat list \<Rightarrow> bool" where
  "dll m p x [] \<longleftrightarrow> x = 0"
| "dll m p x (a # as) \<longleftrightarrow> x = a \<and> a \<noteq> 0 \<and> fb_prev (m a) = p \<and> dll m a (fb_next (m a)) as"

text \<open>A segment: like \<open>dll\<close>, but ending with a pointer to \<open>y\<close>.\<close>

fun dseg :: "(nat \<Rightarrow> free_block) \<Rightarrow> nat \<Rightarrow> nat \<Rightarrow> nat list \<Rightarrow> nat \<Rightarrow> bool" where
  "dseg m p x [] y \<longleftrightarrow> x = y"
| "dseg m p x (a # as) y \<longleftrightarrow>
     x = a \<and> a \<noteq> 0 \<and> fb_prev (m a) = p \<and> dseg m a (fb_next (m a)) as y"

lemma dll_cong: "(\<And>a. a \<in> set xs \<Longrightarrow> m' a = m a) \<Longrightarrow> dll m' p x xs = dll m p x xs"
  by (induction xs arbitrary: p x) auto

lemma dseg_cong: "(\<And>a. a \<in> set xs \<Longrightarrow> m' a = m a) \<Longrightarrow> dseg m' p x xs y = dseg m p x xs y"
  by (induction xs arbitrary: p x) auto

lemma dll_upd [simp]: "a \<notin> set xs \<Longrightarrow> dll (m(a := v)) p x xs = dll m p x xs"
  by (rule dll_cong) auto

lemma dll_append:
  "dll m p x (xs @ ys) \<longleftrightarrow> (\<exists>y. dseg m p x xs y \<and> dll m (last (p # xs)) y ys)"
  by (induction xs arbitrary: p x) auto

lemma dll_nonzero: "dll m p x xs \<Longrightarrow> a \<in> set xs \<Longrightarrow> a \<noteq> 0"
  by (induction xs arbitrary: p x) auto

lemma dll_zero_head: "dll m p 0 xs \<longleftrightarrow> xs = []"
  by (cases xs) auto

lemma dll_head: "dll m p x xs \<Longrightarrow> x \<noteq> 0 \<Longrightarrow> \<exists>ys. xs = x # ys"
  by (cases xs) auto

lemma dseg_set_next:
  assumes "dseg m p x (xs @ [b]) y" and "distinct (xs @ [b])"
  shows "dseg (m(b := (m b)\<lparr>fb_next := z\<rparr>)) p x (xs @ [b]) z"
  using assms by (induction xs arbitrary: p x) auto

lemma dseg_last_next: "dseg m p x (xs @ [b]) y \<Longrightarrow> fb_next (m b) = y"
  by (induction xs arbitrary: p x) auto

lemma dll_set_prev:
  assumes "dll m p y ys" and "distinct ys"
  shows "dll (if y \<noteq> 0 then m(y := (m y)\<lparr>fb_prev := q\<rparr>) else m) q y ys"
proof (cases ys)
  case (Cons c cs)
  have "dll (m(c := (m c)\<lparr>fb_prev := q\<rparr>)) c (fb_next (m c)) cs"
    using assms Cons by simp
  with assms Cons show ?thesis by simp
qed (use assms in auto)

text \<open>The three surgeries: at the head (push, pop) and anywhere (unlink).\<close>

definition push_headers :: "(nat \<Rightarrow> free_block) \<Rightarrow> nat \<Rightarrow> nat \<Rightarrow> (nat \<Rightarrow> free_block)" where
  "push_headers m a h =
    (let m' = m(a := \<lparr>fb_prev = 0, fb_next = h\<rparr>)
     in if h \<noteq> 0 then m'(h := (m' h)\<lparr>fb_prev := a\<rparr>) else m')"

lemma dll_push:
  assumes "dll m 0 h xs" and "a \<notin> set xs" and "a \<noteq> 0" and "distinct xs"
  shows "dll (push_headers m a h) 0 a (a # xs)"
proof -
  let ?m = "m(a := \<lparr>fb_prev = 0, fb_next = h\<rparr>)"
  have "dll ?m 0 h xs" using assms by simp
  then have "dll (if h \<noteq> 0 then ?m(h := (?m h)\<lparr>fb_prev := a\<rparr>) else ?m) a h xs"
    using assms(4) by (rule dll_set_prev)
  moreover have "h \<noteq> a" using assms by (cases xs) auto
  ultimately show ?thesis using assms by (simp add: push_headers_def Let_def split: if_splits)
qed

lemma dll_pop:
  assumes "dll m 0 h (a # xs)" and "distinct (a # xs)"
  shows "dll (if fb_next (m a) \<noteq> 0 then m(fb_next (m a) := (m (fb_next (m a)))\<lparr>fb_prev := 0\<rparr>) else m)
           0 (fb_next (m a)) xs"
  using assms dll_set_prev [of m a "fb_next (m a)" xs 0] by simp

definition unlink_headers :: "(nat \<Rightarrow> free_block) \<Rightarrow> nat \<Rightarrow> (nat \<Rightarrow> free_block)" where
  "unlink_headers m a =
    (let p = fb_prev (m a); n = fb_next (m a);
         m1 = (if p \<noteq> 0 then m(p := (m p)\<lparr>fb_next := n\<rparr>) else m);
         m2 = (if n \<noteq> 0 then m1(n := (m1 n)\<lparr>fb_prev := p\<rparr>) else m1)
     in m2(a := \<lparr>fb_prev = 0, fb_next = 0\<rparr>))"

lemma dll_unlink:
  assumes d: "dll m 0 h (xs @ a # ys)" and dist: "distinct (xs @ a # ys)"
  shows "dll (unlink_headers m a) 0 (if fb_prev (m a) \<noteq> 0 then h else fb_next (m a)) (xs @ ys)"
proof -
  obtain y where seg: "dseg m 0 h xs y" and y: "y = a" and anz: "a \<noteq> 0"
    and prev: "fb_prev (m a) = last (0 # xs)" and tail: "dll m a (fb_next (m a)) ys"
    using d by (auto simp: dll_append)
  define n where "n = fb_next (m a)"
  define p where "p = fb_prev (m a)"
  have nin: "n = 0 \<or> n \<in> set ys" using tail by (cases ys) (auto simp: n_def)
  have pin: "p = 0 \<and> xs = [] \<or> p \<noteq> 0 \<and> xs \<noteq> [] \<and> p = last xs"
  proof (cases "xs = []")
    case False
    have "last xs \<noteq> 0" using dll_nonzero [OF d, of "last xs"] False by simp
    with False prev show ?thesis by (simp add: p_def)
  qed (simp add: prev p_def)
  define m1 where "m1 = (if p \<noteq> 0 then m(p := (m p)\<lparr>fb_next := n\<rparr>) else m)"
  define m2 where "m2 = (if n \<noteq> 0 then m1(n := (m1 n)\<lparr>fb_prev := p\<rparr>) else m1)"
  have um: "unlink_headers m a = m2(a := \<lparr>fb_prev = 0, fb_next = 0\<rparr>)"
    by (simp add: unlink_headers_def m2_def m1_def n_def p_def Let_def)
  have seg1: "dseg m1 0 (if p \<noteq> 0 then h else n) xs n"
  proof (cases "xs = []")
    case False
    then obtain zs b where zs: "xs = zs @ [b]" by (metis rev_exhaust)
    then have "p = b" "p \<noteq> 0" using pin by auto
    then show ?thesis
      using dseg_set_next [of m 0 h zs b y n] seg dist zs by (simp add: m1_def)
  qed (use pin in simp)
  have tail1: "dll m1 a n ys"
  proof -
    have "p = 0 \<or> p \<in> set xs" using pin by auto
    then have "m1 c = m c" if "c \<in> set ys" for c
      using that dist by (auto simp: m1_def)
    then show ?thesis using tail dll_cong [of ys m1 m] by (simp add: n_def)
  qed
  have seg2: "dseg m2 0 (if p \<noteq> 0 then h else n) xs n"
    using seg1 dist nin by (subst dseg_cong [of xs m2 m1]) (auto simp: m2_def)
  have tail2: "dll m2 p n ys"
    using dll_set_prev [OF tail1, of p] dist by (simp add: m2_def)
  have "dseg (unlink_headers m a) 0 (if p \<noteq> 0 then h else n) xs n"
    using seg2 dist by (subst dseg_cong [of xs "unlink_headers m a" m2]) (auto simp: um)
  moreover have "dll (unlink_headers m a) p n ys"
    using tail2 dist by (simp add: um)
  moreover have "last (0 # xs) = p" by (simp add: prev p_def)
  ultimately show ?thesis
    by (auto simp: dll_append p_def [symmetric] n_def [symmetric])
qed

lemma unlink_headers_other:
  assumes "dll m 0 h (xs @ a # ys)" and "b \<notin> set (xs @ a # ys)"
  shows "unlink_headers m a b = m b"
proof -
  have "fb_next (m a) = 0 \<or> fb_next (m a) \<in> set ys"
    using assms(1) by (cases ys) (auto simp: dll_append)
  moreover have "fb_prev (m a) = 0 \<or> fb_prev (m a) \<in> set xs"
    using assms(1) by (cases xs rule: rev_cases) (auto simp: dll_append)
  ultimately show ?thesis using assms(2) by (auto simp: unlink_headers_def Let_def)
qed

lemma push_headers_other: "b \<noteq> a \<Longrightarrow> b \<noteq> h \<or> h = 0 \<Longrightarrow> push_headers m a h b = m b"
  by (auto simp: push_headers_def Let_def)

section \<open>Frames, buddies, alignment\<close>

definition frames :: "nat \<Rightarrow> nat \<Rightarrow> nat set" where
  "frames a ord = {a div NORMAL_PAGE_SIZE ..< a div NORMAL_PAGE_SIZE + 2 ^ ord}"

definition aligned :: "nat \<Rightarrow> nat \<Rightarrow> bool" where
  "aligned a ord \<longleftrightarrow> NORMAL_PAGE_SIZE * 2 ^ ord dvd a"

definition buddy :: "nat \<Rightarrow> nat \<Rightarrow> nat" where
  "buddy a ord = a XOR push_bit ord NORMAL_PAGE_SIZE"

definition head_flag :: "page_frame \<Rightarrow> bool" where
  "head_flag f \<longleftrightarrow> flags f AND (PF_FREE OR PF_BUDDY_HEAD) = (PF_FREE OR PF_BUDDY_HEAD)"

lemma page_size_push: "push_bit ord NORMAL_PAGE_SIZE = NORMAL_PAGE_SIZE * 2 ^ ord"
  by (simp add: push_bit_eq_mult)

lemma alignedE:
  assumes "aligned a ord"
  obtains q where "a = NORMAL_PAGE_SIZE * (2 ^ ord * q)"
  using assms by (auto simp: aligned_def dvd_def mult.assoc)

lemma aligned_page: "aligned a ord \<Longrightarrow> NORMAL_PAGE_SIZE * (a div NORMAL_PAGE_SIZE) = a"
  by (erule alignedE) (simp add: NORMAL_PAGE_SIZE_def)

lemma aligned_pfn: "a = NORMAL_PAGE_SIZE * (2 ^ ord * q) \<Longrightarrow> a div NORMAL_PAGE_SIZE = 2 ^ ord * q"
  by (simp add: NORMAL_PAGE_SIZE_def)

lemma frames_nonempty: "a div NORMAL_PAGE_SIZE \<in> frames a ord"
  by (simp add: frames_def)

lemma xor_one: "(q :: nat) XOR 1 = (if even q then q + 1 else q - 1)"
  by (auto simp: xor_nat_def xor_one_eq)

lemma buddy_eq:
  assumes "a = NORMAL_PAGE_SIZE * (2 ^ ord * q)"
  shows "buddy a ord = NORMAL_PAGE_SIZE * (2 ^ ord * (if even q then q + 1 else q - 1))"
proof -
  have p: "(NORMAL_PAGE_SIZE :: nat) = 2 ^ 12" by (simp add: NORMAL_PAGE_SIZE_def)
  have "a = push_bit (12 + ord) q" using assms by (simp add: p push_bit_eq_mult power_add)
  moreover have "push_bit ord NORMAL_PAGE_SIZE = push_bit (12 + ord) (1 :: nat)"
    by (simp add: p push_bit_eq_mult power_add)
  ultimately have "buddy a ord = push_bit (12 + ord) (q XOR 1)"
    by (simp add: buddy_def push_bit_xor)
  then show ?thesis 
    by (simp add: p push_bit_eq_mult power_add xor_one [unfolded One_nat_def])
qed

lemma buddy_aligned: "aligned a ord \<Longrightarrow> aligned (buddy a ord) ord"
  by (erule alignedE) (simp add: buddy_eq [OF refl] aligned_def)

lemma buddy_neq: "aligned a ord \<Longrightarrow> buddy a ord \<noteq> a"
proof (erule alignedE)
  fix q assume q: "a = NORMAL_PAGE_SIZE * (2 ^ ord * q)"
  then show "buddy a ord \<noteq> a"
    unfolding buddy_eq [OF q] by (auto simp: NORMAL_PAGE_SIZE_def elim: oddE)
qed

lemma buddy_buddy: "aligned a ord \<Longrightarrow> buddy (buddy a ord) ord = a"
  by (simp add: buddy_def xor.assoc)

lemma merge_aligned:
  assumes "aligned a ord"
  shows "aligned (min a (buddy a ord)) (Suc ord)"
    and "frames (min a (buddy a ord)) (Suc ord) = frames a ord \<union> frames (buddy a ord) ord"
proof -
  obtain q where q: "a = NORMAL_PAGE_SIZE * (2 ^ ord * q)" using assms by (rule alignedE)
  let ?b = "NORMAL_PAGE_SIZE * (2 ^ ord * (if even q then q + 1 else q - 1))"
  have b: "buddy a ord = ?b" by (rule buddy_eq [OF q])
  have m: "min a (buddy a ord) = NORMAL_PAGE_SIZE * (2 ^ Suc ord * (q div 2))"
    unfolding b unfolding q by (cases "even q") (auto simp: NORMAL_PAGE_SIZE_def min_def elim!: evenE oddE)
  show "aligned (min a (buddy a ord)) (Suc ord)" by (simp add: m aligned_def)
  have "{2 ^ Suc ord * (q div 2) ..< 2 ^ Suc ord * (q div 2) + 2 ^ Suc ord} =
        {2 ^ ord * q ..< 2 ^ ord * q + 2 ^ ord} \<union>
        {2 ^ ord * (if even q then q + 1 else q - 1) ..<
         2 ^ ord * (if even q then q + 1 else q - 1) + 2 ^ ord}"
    by (cases "even q") (auto elim!: evenE oddE simp: algebra_simps)
  then show "frames (min a (buddy a ord)) (Suc ord) = frames a ord \<union> frames (buddy a ord) ord"
    unfolding frames_def
    by (simp only: aligned_pfn [OF m] aligned_pfn [OF q] aligned_pfn [OF b])
qed

lemma split_frames:
  assumes "aligned a (Suc ord)"
  shows "buddy a ord = a + push_bit ord NORMAL_PAGE_SIZE"
    and "frames a (Suc ord) = frames a ord \<union> frames (buddy a ord) ord"
    and "frames a ord \<inter> frames (buddy a ord) ord = {}"
    and "aligned a ord"
proof -
  obtain q where q: "a = NORMAL_PAGE_SIZE * (2 ^ ord * (2 * q))"
    using assms by (metis alignedE mult.assoc mult.commute power_Suc)
  have b: "buddy a ord = NORMAL_PAGE_SIZE * (2 ^ ord * (2 * q + 1))"
    using buddy_eq [OF q] by simp
  show "buddy a ord = a + push_bit ord NORMAL_PAGE_SIZE"
    unfolding b page_size_push by (subst q) (simp add: algebra_simps)
  show al: "aligned a ord" by (simp add: q aligned_def)
  have pb: "buddy a ord div NORMAL_PAGE_SIZE = 2 ^ ord * (2 * q + 1)" by (rule aligned_pfn [OF b])
  have pa: "a div NORMAL_PAGE_SIZE = 2 ^ ord * (2 * q)" by (rule aligned_pfn [OF q])
  show "frames a (Suc ord) = frames a ord \<union> frames (buddy a ord) ord"
    by (auto simp: frames_def pa pb algebra_simps)
  show "frames a ord \<inter> frames (buddy a ord) ord = {}"
    by (auto simp: frames_def pa pb algebra_simps)
qed

section \<open>The allocator invariant\<close>

type_synonym lists = "nat \<Rightarrow> nat list"

definition free_set :: "lists \<Rightarrow> (nat \<times> nat) set" where
  "free_set L = {(a, ord). ord \<le> ORDER_MAX \<and> a \<in> set (L ord)}"

definition free_area :: "lists \<Rightarrow> nat set" where
  "free_area L = (\<Union>(a, ord) \<in> free_set L. frames a ord)"

definition block_ok :: "pmm \<Rightarrow> nat \<Rightarrow> nat \<Rightarrow> bool" where
  "block_ok s a ord \<longleftrightarrow> aligned a ord \<and> a div NORMAL_PAGE_SIZE + 2 ^ ord \<le> length (pfndb s)"

definition lists_ok :: "pmm \<Rightarrow> lists \<Rightarrow> bool" where
  "lists_ok s L \<longleftrightarrow> length (freelist s) = ORDER_MAX + 1 \<and>
     (\<forall>ord \<le> ORDER_MAX. dll (headers s) 0 (freelist s ! ord) (L ord) \<and> distinct (L ord))"

definition marks_ok :: "pmm \<Rightarrow> lists \<Rightarrow> bool" where
  "marks_ok s L \<longleftrightarrow>
     (\<forall>a ord. (a, ord) \<in> free_set L \<longrightarrow>
        block_ok s a ord \<and> head_flag (pfndb s ! (a div NORMAL_PAGE_SIZE)) \<and>
        buddy_order (pfndb s ! (a div NORMAL_PAGE_SIZE)) = word_of_nat ord) \<and>
     (\<forall>p < length (pfndb s). head_flag (pfndb s ! p) \<longrightarrow>
        (\<exists>ord. (NORMAL_PAGE_SIZE * p, ord) \<in> free_set L))"

definition disjoint_blocks :: "lists \<Rightarrow> bool" where
  "disjoint_blocks L \<longleftrightarrow>
     (\<forall>a ord b ord'. (a, ord) \<in> free_set L \<longrightarrow> (b, ord') \<in> free_set L \<longrightarrow> (a, ord) \<noteq> (b, ord') \<longrightarrow>
        frames a ord \<inter> frames b ord' = {})"

definition pmm_core :: "pmm \<Rightarrow> lists \<Rightarrow> bool" where
  "pmm_core s L \<longleftrightarrow> lists_ok s L \<and> marks_ok s L \<and> disjoint_blocks L"

text \<open>A block outside the free lists that may be put on one.\<close>

definition floating :: "pmm \<Rightarrow> lists \<Rightarrow> nat \<Rightarrow> nat \<Rightarrow> bool" where
  "floating s L a ord \<longleftrightarrow>
     a \<noteq> 0 \<and> ord \<le> ORDER_MAX \<and> block_ok s a ord \<and> frames a ord \<inter> free_area L = {}"

lemma free_set_push: "ord \<le> ORDER_MAX \<Longrightarrow> free_set (L(ord := a # L ord)) = insert (a, ord) (free_set L)"
  by (auto simp: free_set_def)

lemma free_set_remove:
  assumes "L ord = xs @ a # ys" and "distinct (L ord)"
  shows "free_set (L(ord := xs @ ys)) = free_set L - {(a, ord)}"
  using assms by (auto simp: free_set_def)

lemma free_area_insert: "free_area (L(ord := a # L ord)) = frames a ord \<union> free_area L"
  if "ord \<le> ORDER_MAX"
  using that by (simp add: free_area_def free_set_push)

lemma free_area_remove:
  assumes "disjoint_blocks L" and "(a, ord) \<in> free_set L"
    and "L ord = xs @ a # ys" and "distinct (L ord)"
  shows "free_area (L(ord := xs @ ys)) = free_area L - frames a ord"
proof -
  have "frames b o' \<inter> frames a ord = {}" if "(b, o') \<in> free_set L - {(a, ord)}" for b o'
    using assms(1,2) that unfolding disjoint_blocks_def by blast
  moreover have "free_set (L(ord := xs @ ys)) = free_set L - {(a, ord)}"
    using assms(3,4) by (rule free_set_remove)
  ultimately show ?thesis unfolding free_area_def using assms(2) by auto
qed

lemma floating_notin: "floating s L a ord \<Longrightarrow> o' \<le> ORDER_MAX \<Longrightarrow> a \<notin> set (L o')"
  using frames_nonempty by (force simp: floating_def free_area_def free_set_def)

lemma distinct_blocks_addr:
  assumes "disjoint_blocks L" and "(a, ord) \<in> free_set L" and "(b, o') \<in> free_set L"
    and "(a, ord) \<noteq> (b, o')"
  shows "a \<noteq> b" and "a div NORMAL_PAGE_SIZE \<noteq> b div NORMAL_PAGE_SIZE"
proof -
  have *: "frames a ord \<inter> frames b o' = {}"
    using assms unfolding disjoint_blocks_def by blast
  then show "a div NORMAL_PAGE_SIZE \<noteq> b div NORMAL_PAGE_SIZE"
    using frames_nonempty by (metis disjoint_iff)
  then show "a \<noteq> b" by auto
qed

lemma lists_ok_insert:
  assumes "lists_ok s L" and "disjoint_blocks L" and "floating s L a ord"
    and "freelist s' = (freelist s)[ord := a]"
    and "headers s' = push_headers (headers s) a (freelist s ! ord)"
  shows "lists_ok s' (L(ord := a # L ord))"
proof -
  have ord: "ord \<le> ORDER_MAX" and anz: "a \<noteq> 0" using assms(3) by (auto simp: floating_def)
  have old: "dll (headers s) 0 (freelist s ! o') (L o')" "distinct (L o')" if "o' \<le> ORDER_MAX" for o'
    using assms(1) that by (auto simp: lists_ok_def)
  have new: "dll (headers s') 0 a (a # L ord)"
    unfolding assms(5)
    using dll_push [OF old(1) [OF ord] floating_notin [OF assms(3) ord] anz old(2) [OF ord]] .
  have "dll (headers s') 0 (freelist s ! o') (L o')" if o': "o' \<le> ORDER_MAX" "o' \<noteq> ord" for o'
  proof -
    have "headers s' b = headers s b" if b: "b \<in> set (L o')" for b
    proof -
      have "b \<noteq> a" using floating_notin [OF assms(3) o'(1)] b by auto
      moreover have "b \<noteq> freelist s ! ord \<or> freelist s ! ord = 0"
      proof (rule ccontr)
        assume "\<not> ?thesis"
        then obtain ys where "b = freelist s ! ord" "L ord = b # ys"
          using dll_head [OF old(1) [OF ord]] by auto
        then have "(b, ord) \<in> free_set L" "(b, o') \<in> free_set L"
          using b o' ord by (auto simp: free_set_def)
        then show False using distinct_blocks_addr(1) [OF assms(2)] o'(2) by blast
      qed
      ultimately show ?thesis unfolding assms(5) by (rule push_headers_other)
    qed
    then show ?thesis using old(1) [OF o'(1)] dll_cong [of "L o'" "headers s'" "headers s"] by simp
  qed
  with new assms(1,4) ord floating_notin [OF assms(3) ord] old(2) show ?thesis
    by (auto simp: lists_ok_def)
qed

lemma marks_ok_insert:
  assumes "marks_ok s L" and "disjoint_blocks L" and "floating s L a ord"
    and "pfndb s' = (pfndb s)[a div NORMAL_PAGE_SIZE := f]"
    and "head_flag f" and "buddy_order f = word_of_nat ord"
  shows "marks_ok s' (L(ord := a # L ord))"
proof -
  have ord: "ord \<le> ORDER_MAX" and ok: "block_ok s a ord" using assms(3) by (auto simp: floating_def)
  have pfn: "a div NORMAL_PAGE_SIZE < length (pfndb s)"
    using ok by (simp add: block_ok_def) (metis add_leD1 le_neq_implies_less less_add_same_cancel1
        nat_less_le not_add_less1 zero_less_numeral zero_less_power)
  have page: "NORMAL_PAGE_SIZE * (a div NORMAL_PAGE_SIZE) = a"
    using ok aligned_page by (auto simp: block_ok_def)
  have other: "b div NORMAL_PAGE_SIZE \<noteq> a div NORMAL_PAGE_SIZE" if "(b, o') \<in> free_set L" for b o'
  proof
    assume eq: "b div NORMAL_PAGE_SIZE = a div NORMAL_PAGE_SIZE"
    have "a div NORMAL_PAGE_SIZE \<in> free_area L"
      using that eq frames_nonempty [of b o'] by (auto simp: free_area_def)
    then show False using assms(3) frames_nonempty [of a ord] by (auto simp: floating_def)
  qed
  have bk: "block_ok s' = block_ok s" by (simp add: block_ok_def fun_eq_iff assms(4))
  show ?thesis
    unfolding marks_ok_def bk free_set_push [OF ord]
    using assms(1) ok other pfn page assms(4-6)
    by (auto simp: marks_ok_def nth_list_update; metis)
qed

lemma core_insert:
  assumes "pmm_core s L" and "floating s L a ord"
    and "freelist s' = (freelist s)[ord := a]"
    and "headers s' = push_headers (headers s) a (freelist s ! ord)"
    and "pfndb s' = (pfndb s)[a div NORMAL_PAGE_SIZE := f]"
    and "head_flag f" and "buddy_order f = word_of_nat ord"
  shows "pmm_core s' (L(ord := a # L ord))"
proof -
  have "disjoint_blocks (L(ord := a # L ord))"
    using assms(1,2) unfolding pmm_core_def disjoint_blocks_def floating_def
    by (auto simp: free_set_push free_area_def)
  then show ?thesis
    using assms lists_ok_insert [of s L a ord s'] marks_ok_insert [of s L a ord s' f]
    by (auto simp: pmm_core_def)
qed

lemma pfn_in_range: "block_ok s a ord \<Longrightarrow> a div NORMAL_PAGE_SIZE < length (pfndb s)"
  unfolding block_ok_def
  by (metis add_leD1 le_neq_implies_less less_add_same_cancel1 nat_less_le not_add_less1
      zero_less_numeral zero_less_power)

lemma lists_ok_remove:
  assumes "lists_ok s L" and "disjoint_blocks L" and ord: "ord \<le> ORDER_MAX"
    and split: "L ord = xs @ a # ys"
    and "freelist s' = (freelist s)[ord := h]" and "dll (headers s') 0 h (xs @ ys)"
    and hdr: "\<And>b. b \<notin> set (L ord) \<Longrightarrow> headers s' b = headers s b"
  shows "lists_ok s' (L(ord := xs @ ys))"
proof -
  have old: "dll (headers s) 0 (freelist s ! o') (L o')" "distinct (L o')" if "o' \<le> ORDER_MAX" for o'
    using assms(1) that by (auto simp: lists_ok_def)
  have "dll (headers s') 0 (freelist s ! o') (L o')" if o': "o' \<le> ORDER_MAX" "o' \<noteq> ord" for o'
  proof -
    have "b \<notin> set (L ord)" if b: "b \<in> set (L o')" for b
    proof
      assume "b \<in> set (L ord)"
      then have "(b, ord) \<in> free_set L" "(b, o') \<in> free_set L"
        using b o' ord by (auto simp: free_set_def)
      then show False using distinct_blocks_addr(1) [OF assms(2)] o'(2) by blast
    qed
    then show ?thesis
      using old(1) [OF o'(1)] dll_cong [of "L o'" "headers s'" "headers s"] hdr by simp
  qed
  moreover have "distinct (xs @ ys)" using old(2) [OF ord] split by auto
  ultimately show ?thesis using assms(1,5,6) ord old(2) by (auto simp: lists_ok_def)
qed

lemma marks_ok_remove:
  assumes "marks_ok s L" and "disjoint_blocks L" and mem: "(a, ord) \<in> free_set L"
    and split: "L ord = xs @ a # ys" "distinct (L ord)"
    and upd: "pfndb s' = (pfndb s)[a div NORMAL_PAGE_SIZE := f]" and "\<not> head_flag f"
  shows "marks_ok s' (L(ord := xs @ ys))"
proof -
  have ok: "block_ok s a ord" using assms(1) mem by (auto simp: marks_ok_def)
  have fs: "free_set (L(ord := xs @ ys)) = free_set L - {(a, ord)}"
    using split by (rule free_set_remove)
  have bk: "block_ok s' = block_ok s" by (simp add: block_ok_def fun_eq_iff upd)
  have other: "b div NORMAL_PAGE_SIZE \<noteq> a div NORMAL_PAGE_SIZE"
    if "(b, o') \<in> free_set L - {(a, ord)}" for b o'
    using distinct_blocks_addr(2) [OF assms(2) mem, of b o'] that by auto
  have keep: "\<exists>o'. (NORMAL_PAGE_SIZE * p, o') \<in> free_set L - {(a, ord)}"
    if "p < length (pfndb s)" "head_flag (pfndb s ! p)" "p \<noteq> a div NORMAL_PAGE_SIZE" for p
  proof -
    obtain o' where "(NORMAL_PAGE_SIZE * p, o') \<in> free_set L"
      using assms(1) \<open>p < _\<close> \<open>head_flag _\<close> unfolding marks_ok_def by blast
    moreover have "NORMAL_PAGE_SIZE * p \<noteq> a"
      using that(3) by (auto simp: NORMAL_PAGE_SIZE_def)
    ultimately show ?thesis by blast
  qed
  have same: "pfndb s' ! (b div NORMAL_PAGE_SIZE) = pfndb s ! (b div NORMAL_PAGE_SIZE)"
    if "(b, o') \<in> free_set L - {(a, ord)}" for b o'
    using other [OF that] by (simp add: upd)
  have gone: "p \<noteq> a div NORMAL_PAGE_SIZE" if "p < length (pfndb s)" "head_flag (pfndb s' ! p)" for p
    using that assms(7) by (auto simp: upd)
  show ?thesis
    unfolding marks_ok_def bk fs
  proof (intro conjI allI impI)
    fix b o' assume mem': "(b, o') \<in> free_set L - {(a, ord)}"
    then show "block_ok s b o'" "head_flag (pfndb s' ! (b div NORMAL_PAGE_SIZE))"
      "buddy_order (pfndb s' ! (b div NORMAL_PAGE_SIZE)) = word_of_nat o'"
      using assms(1) same [OF mem'] by (auto simp: marks_ok_def)
  next
    fix p assume p: "p < length (pfndb s')" "head_flag (pfndb s' ! p)"
    with gone [of p] upd have "head_flag (pfndb s ! p)" by simp
    with p gone [of p] upd show "\<exists>o'. (NORMAL_PAGE_SIZE * p, o') \<in> free_set L - {(a, ord)}"
      by (intro keep) simp_all
  qed
qed

lemma core_remove:
  assumes "pmm_core s L" and mem: "(a, ord) \<in> free_set L" and split: "L ord = xs @ a # ys"
    and "freelist s' = (freelist s)[ord := h]" and "dll (headers s') 0 h (xs @ ys)"
    and "\<And>b. b \<notin> set (L ord) \<Longrightarrow> headers s' b = headers s b"
    and "pfndb s' = (pfndb s)[a div NORMAL_PAGE_SIZE := f]" and "\<not> head_flag f"
  shows "pmm_core s' (L(ord := xs @ ys))"
    and "free_area (L(ord := xs @ ys)) = free_area L - frames a ord"
    and "free_set (L(ord := xs @ ys)) = free_set L - {(a, ord)}"
proof -
  have ord: "ord \<le> ORDER_MAX" using mem by (simp add: free_set_def)
  have dist: "distinct (L ord)" using assms(1) ord by (simp add: pmm_core_def lists_ok_def)
  show fs: "free_set (L(ord := xs @ ys)) = free_set L - {(a, ord)}"
    using split dist by (rule free_set_remove)
  have db: "disjoint_blocks L" using assms(1) by (simp add: pmm_core_def)
  then have "disjoint_blocks (L(ord := xs @ ys))"
    unfolding disjoint_blocks_def fs by blast
  moreover have "lists_ok s' (L(ord := xs @ ys))"
    using assms ord by (intro lists_ok_remove [of s L ord xs a ys s' h]) (auto simp: pmm_core_def)
  moreover have "marks_ok s' (L(ord := xs @ ys))"
    using assms dist
    by (intro marks_ok_remove [of s L a ord xs ys s' f]) (auto simp: pmm_core_def)
  ultimately show "pmm_core s' (L(ord := xs @ ys))" by (simp add: pmm_core_def)
  show "free_area (L(ord := xs @ ys)) = free_area L - frames a ord"
    by (rule free_area_remove [OF db mem split dist])
qed

section \<open>Splitting\<close>

lemma head_flag_free: "head_flag (f\<lparr>refcount := r, flags := PF_FREE OR PF_BUDDY_HEAD, buddy_order := b\<rparr>)"
  by (simp add: head_flag_def)

lemma upd_frame_Some:
  "pfn < length (pfndb s) \<Longrightarrow>
     upd_frame s pfn f = Some (s\<lparr>pfndb := (pfndb s)[pfn := f (pfndb s ! pfn)]\<rparr>)"
  by (simp add: upd_frame_def idx_in_range)

lemma set_head_Some:
  "ord < length (freelist s) \<Longrightarrow> set_head s ord v = Some (s\<lparr>freelist := (freelist s)[ord := v]\<rparr>)"
  by (simp add: set_head_def upd_in_range)

lemma set_ops [simp]:
  "freelist (set_prev s a v) = freelist s" "pfndb (set_prev s a v) = pfndb s"
  "freelist (set_next s a v) = freelist s" "pfndb (set_next s a v) = pfndb s"
  "freelist (set_header s a b) = freelist s" "pfndb (set_header s a b) = pfndb s"
  "headers (set_prev s a v) = (headers s)(a := (headers s a)\<lparr>fb_prev := v\<rparr>)"
  "headers (set_next s a v) = (headers s)(a := (headers s a)\<lparr>fb_next := v\<rparr>)"
  "headers (set_header s a b) = (headers s)(a := b)"
  by (simp_all add: set_prev_def set_next_def set_header_def)

lemma push_headers_swap:
  "h \<noteq> a \<Longrightarrow>
     (if h \<noteq> 0 then m(h := (m h)\<lparr>fb_prev := a\<rparr>) else m)(a := \<lparr>fb_prev = 0, fb_next = h\<rparr>) =
     push_headers m a h"
  by (auto simp: push_headers_def Let_def fun_eq_iff)

lemma list_head_neq:
  assumes "lists_ok s L" and "floating s L a ord"
  shows "freelist s ! ord \<noteq> a"
proof -
  have ord: "ord \<le> ORDER_MAX" and "a \<noteq> 0" using assms(2) by (auto simp: floating_def)
  moreover have "dll (headers s) 0 (freelist s ! ord) (L ord)"
    using assms(1) ord by (simp add: lists_ok_def)
  ultimately show ?thesis
    using floating_notin [OF assms(2) ord] by (cases "L ord") auto
qed

text \<open>No two free blocks of one order are buddies of each other: everything is merged.\<close>

definition coalesced :: "lists \<Rightarrow> bool" where
  "coalesced L \<longleftrightarrow>
     (\<forall>a ord. (a, ord) \<in> free_set L \<longrightarrow> ord < ORDER_MAX \<longrightarrow> (buddy a ord, ord) \<notin> free_set L)"

lemma coalesced_insert:
  assumes "coalesced L" and "aligned x ord" and "ord \<le> ORDER_MAX"
    and "ord < ORDER_MAX \<longrightarrow> (buddy x ord, ord) \<notin> free_set L"
  shows "coalesced (L(ord := x # L ord))"
proof -
  have "buddy a o' \<noteq> x" if "(a, o') \<in> free_set L" "o' = ord" "o' < ORDER_MAX" for a o'
    using that assms(4) by (auto simp: buddy_def xor.assoc)
  then show ?thesis
    using assms buddy_neq [OF assms(2)] unfolding coalesced_def free_set_push [OF assms(3)] by auto
qed

lemma coalesced_subset: "coalesced L \<Longrightarrow> free_set L' \<subseteq> free_set L \<Longrightarrow> coalesced L'"
  unfolding coalesced_def by blast

lemma split_step_core:
  assumes core: "pmm_core s L" and fl: "floating s L a (Suc ord)" and co: "coalesced L"
  defines "L' \<equiv> L(ord := buddy a ord # L ord)"
  shows "\<exists>s'. split_step s a ord = Some s' \<and> pmm_core s' L' \<and> floating s' L' a ord \<and>
           coalesced L' \<and> length (pfndb s') = length (pfndb s) \<and>
           free_area L' \<union> frames a ord = free_area L \<union> frames a (Suc ord) \<and>
           (\<forall>p. p \<notin> frames a (Suc ord) \<longrightarrow> pfndb s' ! p = pfndb s ! p)"
proof -
  have ord: "Suc ord \<le> ORDER_MAX" and al: "aligned a (Suc ord)" and anz: "a \<noteq> 0"
    and rng: "a div NORMAL_PAGE_SIZE + 2 ^ Suc ord \<le> length (pfndb s)"
    and dj: "frames a (Suc ord) \<inter> free_area L = {}"
    using fl by (auto simp: floating_def block_ok_def)
  note sf = split_frames [OF al]
  define b where "b = buddy a ord"
  have b: "b = a + push_bit ord NORMAL_PAGE_SIZE" by (simp add: b_def sf(1))
  have bal: "aligned b ord" unfolding b_def using sf(4) by (rule buddy_aligned)
  have bnz: "b \<noteq> 0" by (simp add: b anz)
  have bpfn: "b div NORMAL_PAGE_SIZE = a div NORMAL_PAGE_SIZE + 2 ^ ord"
    unfolding b page_size_push by (simp add: NORMAL_PAGE_SIZE_def)
  have flb: "floating s L b ord"
    using ord bnz bal rng bpfn dj sf(2) by (auto simp: floating_def block_ok_def b_def)
  have len: "length (freelist s) = ORDER_MAX + 1" and lok: "lists_ok s L"
    using core by (auto simp: pmm_core_def lists_ok_def)
  have hb: "freelist s ! ord \<noteq> b" using lok flb by (rule list_head_neq)
  have pb: "b div NORMAL_PAGE_SIZE < length (pfndb s)"
    using flb pfn_in_range by (auto simp: floating_def)
  obtain s' where run: "split_step s a ord = Some s'"
    and s': "freelist s' = (freelist s)[ord := b]"
      "headers s' = push_headers (headers s) b (freelist s ! ord)"
      "pfndb s' = (pfndb s)[b div NORMAL_PAGE_SIZE := (pfndb s ! (b div NORMAL_PAGE_SIZE))
         \<lparr>refcount := 0, flags := PF_FREE OR PF_BUDDY_HEAD, buddy_order := word_of_nat ord\<rparr>]"
    using len ord pb push_headers_swap [OF hb, of "headers s"]
    by (simp add: split_step_def b [symmetric] Let_def idx_in_range set_head_Some upd_frame_Some
        split: if_splits)
  have core': "pmm_core s' L'"
    unfolding L'_def b_def [symmetric] by (rule core_insert [OF core flb s' head_flag_free]) simp
  have area: "free_area L' = frames b ord \<union> free_area L"
    using ord by (simp add: L'_def b_def free_area_insert)
  have "floating s' L' a ord"
    using fl sf(2,3,4) ord dj rng
    by (auto simp: floating_def block_ok_def area s' b_def)
  moreover have "coalesced L'"
    unfolding L'_def b_def [symmetric]
    using co bal ord flb floating_notin [of s L a "Suc ord" ord] fl
    by (intro coalesced_insert) (auto simp: b_def buddy_buddy [OF sf(4)] free_set_def)
  moreover have "pfndb s' ! p = pfndb s ! p" if "p \<notin> frames a (Suc ord)" for p
    using that frames_nonempty [of b ord] sf(2) by (metis UnCI b_def nth_list_update_neq s'(3))
  ultimately show ?thesis using run core' area sf(2) s' by (auto simp: b_def)
qed

lemma split_block_core:
  assumes "pmm_core s L" and "floating s L a ord" and "coalesced L" and "t \<le> ord"
  shows "\<exists>s' L'. split_block s a ord t = Some s' \<and> pmm_core s' L' \<and> floating s' L' a t \<and>
           coalesced L' \<and> length (pfndb s') = length (pfndb s) \<and>
           free_area L' \<union> frames a t = free_area L \<union> frames a ord \<and>
           (\<forall>p. p \<notin> frames a ord \<longrightarrow> pfndb s' ! p = pfndb s ! p)"
  using assms
proof (induction ord arbitrary: s L)
  case 0
  then show ?case by auto
next
  case (Suc ord)
  show ?case
  proof (cases "t < Suc ord")
    case True
    obtain s1 L1 where 1: "split_step s a ord = Some s1" "pmm_core s1 L1" "floating s1 L1 a ord"
      "coalesced L1" "length (pfndb s1) = length (pfndb s)"
      "free_area L1 \<union> frames a ord = free_area L \<union> frames a (Suc ord)"
      "\<forall>p. p \<notin> frames a (Suc ord) \<longrightarrow> pfndb s1 ! p = pfndb s ! p"
      using split_step_core [OF Suc.prems(1,2,3)] by blast
    have "frames a ord \<subseteq> frames a (Suc ord)" by (auto simp: frames_def)
    moreover obtain s' L' where 2: "split_block s1 a ord t = Some s'" "pmm_core s' L'" "floating s' L' a t"
      "coalesced L'" "length (pfndb s') = length (pfndb s1)"
      "free_area L' \<union> frames a t = free_area L1 \<union> frames a ord"
      "\<forall>p. p \<notin> frames a ord \<longrightarrow> pfndb s' ! p = pfndb s1 ! p"
      using Suc.IH [OF 1(2,3,4)] True by auto
    ultimately have "\<forall>p. p \<notin> frames a (Suc ord) \<longrightarrow> pfndb s' ! p = pfndb s ! p" using 1(7) by auto
    with True 1 2 show ?thesis by (intro exI [of _ s'] exI [of _ L']) simp
  next
    case False
    with Suc.prems show ?thesis by (auto intro!: exI [of _ L])
  qed
qed

section \<open>Allocation\<close>

lemma find_list_spec:
  assumes "lists_ok s L" and "ord \<le> ORDER_MAX"
  shows "find_list (freelist s) ord = Some None \<and> (\<forall>o'. ord \<le> o' \<and> o' \<le> ORDER_MAX \<longrightarrow> L o' = []) \<or>
         (\<exists>o' a xs. find_list (freelist s) ord = Some (Some o') \<and> ord \<le> o' \<and> o' \<le> ORDER_MAX \<and>
            L o' = a # xs \<and> freelist s ! o' = a)"
  using assms
proof (induction "freelist s" ord rule: find_list.induct)
  case (1 ord)
  have len: "ord < length (freelist s)" using 1 by (simp add: lists_ok_def)
  have d: "dll (headers s) 0 (freelist s ! ord) (L ord)" using 1 by (simp add: lists_ok_def)
  show ?case
  proof (cases "freelist s ! ord = 0")
    case True
    then have e: "L ord = []" using d by (simp add: dll_zero_head)
    show ?thesis
    proof (cases "ord = ORDER_MAX")
      case True
      with \<open>freelist s ! ord = 0\<close> len e show ?thesis
        by (auto simp: find_list.simps [of _ ORDER_MAX] idx_in_range)
    next
      case False
      have eq: "find_list (freelist s) ord = find_list (freelist s) (ord + 1)"
        using True len False "1.prems"(2) by (simp add: find_list.simps [of _ ord] idx_in_range)
      have IH: "find_list (freelist s) (ord + 1) = Some None \<and>
          (\<forall>o'. ord + 1 \<le> o' \<and> o' \<le> ORDER_MAX \<longrightarrow> L o' = []) \<or>
         (\<exists>o' a xs. find_list (freelist s) (ord + 1) = Some (Some o') \<and> ord + 1 \<le> o' \<and>
            o' \<le> ORDER_MAX \<and> L o' = a # xs \<and> freelist s ! o' = a)"
        using "1.hyps" True len False "1.prems" by simp
      then show ?thesis
        unfolding eq using e by (metis Suc_eq_plus1 Suc_leD not_less_eq_eq order_antisym)
    qed
  next
    case False
    then show ?thesis
      using dll_head [OF d False] len "1.prems"(2)
      by (auto simp: find_list.simps [of _ ord] idx_in_range)
  qed
qed

lemma pop_head_core:
  assumes core: "pmm_core s L" and ord: "ord \<le> ORDER_MAX" and L: "L ord = a # xs"
    and f: "\<not> head_flag (f (pfndb s ! (a div NORMAL_PAGE_SIZE)))"
  shows "\<exists>s1 s2. pop_head s ord = Some (a, s1) \<and>
           upd_frame s1 (a div NORMAL_PAGE_SIZE) f = Some s2 \<and> pmm_core s2 (L(ord := xs)) \<and>
           floating s2 (L(ord := xs)) a ord \<and> length (pfndb s2) = length (pfndb s) \<and>
           free_area (L(ord := xs)) = free_area L - frames a ord \<and>
           free_set (L(ord := xs)) \<subseteq> free_set L \<and> frames a ord \<subseteq> free_area L \<and>
           (\<forall>p. p \<noteq> a div NORMAL_PAGE_SIZE \<longrightarrow> pfndb s2 ! p = pfndb s ! p)"
proof -
  have mem: "(a, ord) \<in> free_set L" using L ord by (simp add: free_set_def)
  have len: "length (freelist s) = ORDER_MAX + 1" and d: "dll (headers s) 0 (freelist s ! ord) (a # xs)"
    and dist: "distinct (a # xs)"
    using core ord L by (auto simp: pmm_core_def lists_ok_def)
  have ok: "block_ok s a ord" using core mem by (simp add: pmm_core_def marks_ok_def)
  have ha: "freelist s ! ord = a" and anz: "a \<noteq> 0" using d by auto
  define n where "n = fb_next (headers s a)"
  define m where "m = (if n \<noteq> 0 then (headers s)(n := (headers s n)\<lparr>fb_prev := 0\<rparr>) else headers s)"
  have dm: "dll m 0 n xs" using dll_pop [OF d dist] by (simp add: m_def n_def split: if_splits)
  have nin: "n = 0 \<or> n \<in> set xs" using d by (cases xs) (auto simp: n_def)
  obtain s1 s2 where run: "pop_head s ord = Some (a, s1)"
      "upd_frame s1 (a div NORMAL_PAGE_SIZE) f = Some s2"
    and s2: "freelist s2 = (freelist s)[ord := n]" "headers s2 = m"
      "pfndb s2 = (pfndb s)[a div NORMAL_PAGE_SIZE := f (pfndb s ! (a div NORMAL_PAGE_SIZE))]"
    using len ord ha pfn_in_range [OF ok]
    by (simp add: pop_head_def idx_in_range Let_def n_def [symmetric] m_def set_head_Some upd_frame_Some
        split: if_splits)
  have hdr: "headers s2 b = headers s b" if "b \<notin> set (L ord)" for b
    using that nin L by (auto simp: s2 m_def)
  have rm: "pmm_core s2 (L(ord := [] @ xs))" "free_area (L(ord := [] @ xs)) = free_area L - frames a ord"
    "free_set (L(ord := [] @ xs)) = free_set L - {(a, ord)}"
    using core_remove [OF core mem _ s2(1) _ hdr s2(3) f, of "[]" xs] L dm s2(2) by simp_all
  moreover have "frames a ord \<subseteq> free_area L" using mem by (auto simp: free_area_def)
  moreover have "floating s2 (L(ord := xs)) a ord"
    using rm(2) ok ord anz by (auto simp: floating_def block_ok_def s2)
  ultimately show ?thesis using run s2 by auto
qed

text \<open>
  The allocator state is well formed when abstract lists exist for it with no two mergeable
  blocks; the free frames are read off the page-frame flags.
\<close>

definition pmm_wf :: "pmm \<Rightarrow> bool" where
  "pmm_wf s \<longleftrightarrow> (\<exists>L. pmm_core s L \<and> coalesced L)"

definition free_frames :: "pmm \<Rightarrow> nat set" where
  "free_frames s =
    (\<Union>p \<in> {p. p < length (pfndb s) \<and> head_flag (pfndb s ! p)}.
       {p ..< p + 2 ^ unat (buddy_order (pfndb s ! p))})"

definition free_block_of :: "pmm \<Rightarrow> nat \<Rightarrow> nat \<Rightarrow> bool" where
  "free_block_of s a ord \<longleftrightarrow>
     a div NORMAL_PAGE_SIZE < length (pfndb s) \<and> NORMAL_PAGE_SIZE dvd a \<and>
     head_flag (pfndb s ! (a div NORMAL_PAGE_SIZE)) \<and>
     unat (buddy_order (pfndb s ! (a div NORMAL_PAGE_SIZE))) = ord"

lemma order_word: "ord \<le> ORDER_MAX \<Longrightarrow> unat (word_of_nat ord :: u16) = ord"
  by (simp add: ORDER_MAX_def unat_of_nat)

lemma free_block_of_iff:
  assumes "pmm_core s L"
  shows "free_block_of s a ord \<longleftrightarrow> (a, ord) \<in> free_set L"
proof
  assume "(a, ord) \<in> free_set L"
  with assms show "free_block_of s a ord"
    using pfn_in_range [of s a ord] order_word [of ord]
    by (auto simp: pmm_core_def marks_ok_def free_block_of_def block_ok_def aligned_def free_set_def
        intro: dvd_mult_left)
next
  assume fb: "free_block_of s a ord"
  then have page: "NORMAL_PAGE_SIZE * (a div NORMAL_PAGE_SIZE) = a"
    by (simp add: free_block_of_def)
  with fb assms obtain o' where o': "(a, o') \<in> free_set L"
    unfolding pmm_core_def marks_ok_def free_block_of_def by metis
  with assms have "buddy_order (pfndb s ! (a div NORMAL_PAGE_SIZE)) = word_of_nat o'" "o' \<le> ORDER_MAX"
    by (auto simp: pmm_core_def marks_ok_def free_set_def)
  with fb o' show "(a, ord) \<in> free_set L" by (simp add: free_block_of_def order_word)
qed

lemma free_frames_eq: "pmm_core s L \<Longrightarrow> free_frames s = free_area L"
proof -
  assume core: "pmm_core s L"
  have pfn: "NORMAL_PAGE_SIZE * p div NORMAL_PAGE_SIZE = p" for p
    by (simp add: NORMAL_PAGE_SIZE_def)
  have "free_frames s = (\<Union>(a, ord) \<in> {(a, ord). free_block_of s a ord}. frames a ord)"
  proof (intro equalityI subsetI)
    fix x assume "x \<in> free_frames s"
    then obtain p where p: "p < length (pfndb s)" "head_flag (pfndb s ! p)"
      "x \<in> {p ..< p + 2 ^ unat (buddy_order (pfndb s ! p))}"
      unfolding free_frames_def by blast
    then have "free_block_of s (NORMAL_PAGE_SIZE * p) (unat (buddy_order (pfndb s ! p)))"
      by (simp add: free_block_of_def pfn)
    moreover have "x \<in> frames (NORMAL_PAGE_SIZE * p) (unat (buddy_order (pfndb s ! p)))"
      using p(3) by (simp add: frames_def pfn)
    ultimately show "x \<in> (\<Union>(a, ord) \<in> {(a, ord). free_block_of s a ord}. frames a ord)" by blast
  next
    fix x assume "x \<in> (\<Union>(a, ord) \<in> {(a, ord). free_block_of s a ord}. frames a ord)"
    then show "x \<in> free_frames s" unfolding free_frames_def free_block_of_def frames_def by auto
  qed
  also have "{(a, ord). free_block_of s a ord} = free_set L"
    using free_block_of_iff [OF core] by auto
  finally show ?thesis by (simp add: free_area_def)
qed

lemma head_flag_cleared: "\<not> head_flag (f\<lparr>refcount := r, flags := g AND NOT (PF_FREE OR PF_BUDDY_HEAD)\<rparr>)"
proof -
  have "(g AND NOT (PF_FREE OR PF_BUDDY_HEAD)) AND (PF_FREE OR PF_BUDDY_HEAD) = 0"
    by (rule bit_word_eqI) (auto simp: bit_and_iff bit_or_iff bit_not_iff)
  then show ?thesis by (simp add: head_flag_def pf_defs)
qed

lemma head_flag_kernel: "\<not> head_flag (f\<lparr>refcount := r, flags := PF_KERNEL\<rparr>)"
  by (simp add: head_flag_def pf_defs)

text \<open>Rewriting the flags of a frame that is no free block's head keeps the invariant.\<close>

lemma core_mark:
  assumes core: "pmm_core s L" and p: "p < length (pfndb s)" and fl: "p \<notin> free_area L"
    and f: "\<not> head_flag f"
  shows "pmm_core (s\<lparr>pfndb := (pfndb s)[p := f]\<rparr>) L"
proof -
  let ?s = "s\<lparr>pfndb := (pfndb s)[p := f]\<rparr>"
  have bk: "block_ok ?s = block_ok s" by (simp add: block_ok_def fun_eq_iff)
  have other: "a div NORMAL_PAGE_SIZE \<noteq> p" if "(a, ord) \<in> free_set L" for a ord
    using that fl frames_nonempty [of a ord] by (auto simp: free_area_def)
  have "marks_ok ?s L"
    unfolding marks_ok_def bk
  proof (intro conjI allI impI)
    fix a ord assume mem: "(a, ord) \<in> free_set L"
    with core other [OF mem] show "block_ok s a ord" "head_flag (pfndb ?s ! (a div NORMAL_PAGE_SIZE))"
      "buddy_order (pfndb ?s ! (a div NORMAL_PAGE_SIZE)) = word_of_nat ord"
      by (auto simp: pmm_core_def marks_ok_def)
  next
    fix q assume q: "q < length (pfndb ?s)" "head_flag (pfndb ?s ! q)"
    then have "q \<noteq> p" using f p by auto
    with q core show "\<exists>ord. (NORMAL_PAGE_SIZE * q, ord) \<in> free_set L"
      by (simp add: pmm_core_def marks_ok_def)
  qed
  with core show ?thesis by (simp add: pmm_core_def lists_ok_def)
qed

lemma alloc_order_core:
  assumes core: "pmm_core s L" and co: "coalesced L" and ord: "ord \<le> ORDER_MAX"
  shows "alloc_order s ord = Some (None, s) \<and> (\<forall>o' a. ord \<le> o' \<longrightarrow> (a, o') \<notin> free_set L) \<or>
         (\<exists>a s' L'. alloc_order s ord = Some (Some a, s') \<and> pmm_core s' L' \<and> coalesced L' \<and>
            aligned a ord \<and> a \<noteq> 0 \<and> frames a ord \<subseteq> free_area L \<and>
            free_area L' = free_area L - frames a ord \<and> length (pfndb s') = length (pfndb s) \<and>
            (\<forall>p. p \<notin> free_area L \<longrightarrow> pfndb s' ! p = pfndb s ! p) \<and>
            refcount (pfndb s' ! (a div NORMAL_PAGE_SIZE)) = 1 \<and>
            flags (pfndb s' ! (a div NORMAL_PAGE_SIZE)) = PF_KERNEL)"
proof -
  have lok: "lists_ok s L" using core by (simp add: pmm_core_def)
  consider (none) "find_list (freelist s) ord = Some None"
      "\<forall>o'. ord \<le> o' \<and> o' \<le> ORDER_MAX \<longrightarrow> L o' = []"
    | (some) o' a xs where "find_list (freelist s) ord = Some (Some o')" "ord \<le> o'" "o' \<le> ORDER_MAX"
      "L o' = a # xs"
    using find_list_spec [OF lok ord] by blast
  then show ?thesis
  proof cases
    case none
    then show ?thesis by (auto simp: alloc_order_def free_set_def)
  next
    case some
    define p where "p = a div NORMAL_PAGE_SIZE"
    define L1 where "L1 = L(o' := xs)"
    define f where "f = (\<lambda>f. f\<lparr>refcount := 0, flags := flags f AND NOT (PF_FREE OR PF_BUDDY_HEAD)\<rparr> :: page_frame)"
    obtain s1 s2 where pop: "pop_head s o' = Some (a, s1)" "upd_frame s1 p f = Some s2"
      "pmm_core s2 L1" "floating s2 L1 a o'" "length (pfndb s2) = length (pfndb s)"
      "free_area L1 = free_area L - frames a o'" "free_set L1 \<subseteq> free_set L"
      "frames a o' \<subseteq> free_area L" "\<forall>q. q \<noteq> p \<longrightarrow> pfndb s2 ! q = pfndb s ! q"
      using pop_head_core [where f = f, OF core some(3,4)] head_flag_cleared
      unfolding p_def L1_def f_def by blast
    have "coalesced L1" using co pop(7) by (rule coalesced_subset)
    then obtain s3 L3 where sp: "split_block s2 a o' ord = Some s3" "pmm_core s3 L3"
      "floating s3 L3 a ord" "coalesced L3" "length (pfndb s3) = length (pfndb s2)"
      "free_area L3 \<union> frames a ord = free_area L1 \<union> frames a o'"
      "\<forall>q. q \<notin> frames a o' \<longrightarrow> pfndb s3 ! q = pfndb s2 ! q"
      using split_block_core [OF pop(3,4) _ some(2)] by blast
    have pr: "p < length (pfndb s3)" "p \<notin> free_area L3"
      using sp(3) pfn_in_range [of s3 a ord] frames_nonempty [of a ord]
      by (auto simp: floating_def p_def)
    define g where "g = (\<lambda>f. f\<lparr>refcount := 1, flags := PF_KERNEL\<rparr> :: page_frame)"
    define s4 where "s4 = s3\<lparr>pfndb := (pfndb s3)[p := g (pfndb s3 ! p)]\<rparr>"
    have core4: "pmm_core s4 L3"
      unfolding s4_def using sp(2) pr by (rule core_mark) (simp add: g_def head_flag_kernel)
    have run: "alloc_order s ord = Some (Some a, s4)"
      using some pop(1) pop(2) [unfolded f_def] sp pr
      by (simp add: alloc_order_def p_def [symmetric] Let_def g_def [symmetric] upd_frame_Some s4_def)
    have fl3: "aligned a ord" "a \<noteq> 0" "frames a ord \<inter> free_area L3 = {}"
      using sp(3) by (auto simp: floating_def block_ok_def)
    moreover have "free_area L3 \<union> frames a ord = free_area L" using sp(6) pop(6,8) by blast
    ultimately have "frames a ord \<subseteq> free_area L" "free_area L3 = free_area L - frames a ord" by blast+
    moreover have "pfndb s4 ! q = pfndb s ! q" if "q \<notin> free_area L" for q
    proof -
      have "q \<noteq> p" "q \<notin> frames a o'" using that pop(8) frames_nonempty [of a o'] p_def by blast+
      then show ?thesis using pop(9) sp(7) by (simp add: s4_def)
    qed
    ultimately show ?thesis
      using run core4 sp fl3 pop(5) pr(1) by (auto simp: s4_def g_def p_def [symmetric])
  qed
qed

section \<open>Freeing\<close>

definition db_covers :: "pmm \<Rightarrow> bool" where
  "db_covers s \<longleftrightarrow> 2 ^ ORDER_MAX dvd length (pfndb s)"

text \<open>
  When the database covers whole maximal blocks, a buddy of a block inside it is inside
  it too.
\<close>

lemma buddy_block_ok:
  assumes "block_ok s a ord" and "db_covers s" and "ord < ORDER_MAX"
  shows "block_ok s (buddy a ord) ord"
proof -
  obtain q where q: "a = NORMAL_PAGE_SIZE * (2 ^ ord * q)"
    using assms(1) by (auto simp: block_ok_def elim: alignedE)
  obtain k where "length (pfndb s) = 2 ^ ORDER_MAX * k"
    using assms(2) by (auto simp: db_covers_def dvd_def)
  moreover have "(2 :: nat) ^ ORDER_MAX = 2 ^ Suc ord * 2 ^ (ORDER_MAX - Suc ord)"
    using assms(3) le_add_diff_inverse [of "Suc ord" ORDER_MAX] power_add [of "2 :: nat" "Suc ord" "ORDER_MAX - Suc ord"]
    by (simp only: Suc_le_eq)
  ultimately have n: "length (pfndb s) = 2 ^ Suc ord * (2 ^ (ORDER_MAX - Suc ord) * k)" by simp
  define n where "n = 2 ^ (ORDER_MAX - Suc ord) * k"
  have "2 ^ ord * (q + 1) \<le> 2 ^ ord * (2 * n)"
    using assms(1) aligned_pfn [OF q] n by (simp add: block_ok_def n_def algebra_simps)
  then have "q + 1 \<le> 2 * n" by (simp only: mult_le_cancel1) simp
  then have "(if even q then q + 1 else q - 1) + 1 \<le> 2 * n" by presburger
  then have "2 ^ ord * ((if even q then q + 1 else q - 1) + 1) \<le> 2 ^ ord * (2 * n)"
    by (rule mult_le_mono2)
  then have "buddy a ord div NORMAL_PAGE_SIZE + 2 ^ ord \<le> length (pfndb s)"
    unfolding aligned_pfn [OF buddy_eq [OF q]] n by (simp add: n_def algebra_simps)
  then show ?thesis using buddy_aligned assms(1) by (auto simp: block_ok_def)
qed

lemma head_flag_unheaded: "\<not> head_flag (f\<lparr>flags := g AND NOT PF_BUDDY_HEAD\<rparr>)"
proof
  assume "head_flag (f\<lparr>flags := g AND NOT PF_BUDDY_HEAD\<rparr>)"
  then have "bit ((g AND NOT PF_BUDDY_HEAD) AND (PF_FREE OR PF_BUDDY_HEAD)) 5 =
      bit (PF_FREE OR PF_BUDDY_HEAD) 5" by (simp add: head_flag_def)
  moreover have "bit PF_BUDDY_HEAD 5" by (simp add: pf_defs bit_numeral_word_iff)
  ultimately show False by (simp add: bit_and_iff bit_or_iff bit_not_iff)
qed

lemma free_block_eta: "r\<lparr>fb_prev := p, fb_next := n\<rparr> = \<lparr>fb_prev = p, fb_next = n\<rparr>"
  for r :: free_block
  by (cases r) simp

lemma merge_block_eq:
  assumes "ord < length (freelist s)"
    and "fb_prev (headers s b) \<noteq> b" and "fb_next (headers s b) \<noteq> b"
  shows "merge_block s a b ord = Some (min a b,
      s\<lparr>freelist := (freelist s)[ord := (if fb_prev (headers s b) \<noteq> 0 then freelist s ! ord
                                        else fb_next (headers s b))],
        headers := unlink_headers (headers s) b\<rparr>)"
  using assms
  by (auto simp: merge_block_def Let_def set_head_Some min_def unlink_headers_def
      set_prev_def set_next_def fun_upd_twist free_block_eta)

lemma merge_block_core:
  assumes core: "pmm_core s L" and mem: "(b, ord) \<in> free_set L"
    and s1: "s1 = s\<lparr>pfndb := (pfndb s)[b div NORMAL_PAGE_SIZE := f]\<rparr>" and f: "\<not> head_flag f"
  shows "\<exists>s2 L'. merge_block s1 a b ord = Some (min a b, s2) \<and> pmm_core s2 L' \<and>
           free_area L' = free_area L - frames b ord \<and> free_set L' \<subseteq> free_set L \<and>
           pfndb s2 = pfndb s1"
proof -
  have ord: "ord \<le> ORDER_MAX" using mem by (simp add: free_set_def)
  obtain xs ys where L: "L ord = xs @ b # ys"
    using mem by (auto simp: free_set_def dest: split_list)
  have len: "length (freelist s) = ORDER_MAX + 1" and d: "dll (headers s) 0 (freelist s ! ord) (xs @ b # ys)"
    and dist: "distinct (xs @ b # ys)"
    using core ord unfolding pmm_core_def lists_ok_def L [symmetric] by blast+
  define h where "h = (if fb_prev (headers s b) \<noteq> 0 then freelist s ! ord else fb_next (headers s b))"
  have bn: "fb_prev (headers s b) \<noteq> b" "fb_next (headers s b) \<noteq> b"
    using d dist by (cases xs rule: rev_cases; cases ys; auto simp: dll_append)+
  obtain s2 where run: "merge_block s1 a b ord = Some (min a b, s2)"
    and s2: "freelist s2 = (freelist s)[ord := h]" "headers s2 = unlink_headers (headers s) b"
      "pfndb s2 = pfndb s1"
    using merge_block_eq [of ord s1 b a] len ord bn s1 by (simp add: h_def)
  have "dll (headers s2) 0 h (xs @ ys)"
    using dll_unlink [OF d dist] by (simp add: s2 h_def)
  moreover have "headers s2 c = headers s c" if "c \<notin> set (L ord)" for c
    using that unlink_headers_other [OF d] L by (simp add: s2)
  ultimately have "pmm_core s2 (L(ord := xs @ ys))"
    "free_area (L(ord := xs @ ys)) = free_area L - frames b ord"
    "free_set (L(ord := xs @ ys)) = free_set L - {(b, ord)}"
    using core_remove [OF core mem L s2(1), of f] s2(3) s1 f by simp_all
  with run s2(3) show ?thesis by auto
qed

lemma ivl_subset_lessThan: "(a :: nat) < b \<Longrightarrow> {a ..< b} \<subseteq> {..< n} \<longleftrightarrow> b \<le> n"
  by (cases b) (auto simp: subset_eq less_Suc_eq_le Suc_le_eq)

lemma coalesce_core:
  assumes "pmm_core s L" and "floating s L a ord" and "coalesced L" and "db_covers s"
  shows "\<exists>a' o' s' L'. coalesce s a ord = Some (a', o', s') \<and> pmm_core s' L' \<and> floating s' L' a' o' \<and>
           free_area L' \<union> frames a' o' = free_area L \<union> frames a ord \<and> coalesced L' \<and>
           (o' < ORDER_MAX \<longrightarrow> (buddy a' o', o') \<notin> free_set L') \<and>
           length (pfndb s') = length (pfndb s) \<and>
           (\<forall>p. p \<notin> free_area L \<union> frames a ord \<longrightarrow> pfndb s' ! p = pfndb s ! p)"
  using assms
proof (induction "ORDER_MAX - ord" arbitrary: s L a ord)
  case 0
  then have "coalesce s a ord = Some (a, ord, s)" "\<not> ord < ORDER_MAX"
    by (simp_all add: coalesce.simps [of s a ord])
  with 0 show ?case by blast
next
  case (Suc n)
  define b where "b = buddy a ord"
  define p where "p = b div NORMAL_PAGE_SIZE"
  have ord: "ord < ORDER_MAX" using Suc.hyps(2) by simp
  have ok: "block_ok s a ord" and anz: "a \<noteq> 0" and dis: "frames a ord \<inter> free_area L = {}"
    using Suc.prems(2) by (auto simp: floating_def)
  have okb: "block_ok s b ord"
    unfolding b_def using ok Suc.prems(4) ord by (rule buddy_block_ok)
  have pr: "p < length (pfndb s)" unfolding p_def using okb by (rule pfn_in_range)
  have page: "NORMAL_PAGE_SIZE dvd b" using okb by (auto simp: block_ok_def aligned_def intro: dvd_mult_left)
  have test: "head_flag (pfndb s ! p) \<and> word_of_nat ord = buddy_order (pfndb s ! p) \<longleftrightarrow>
      (b, ord) \<in> free_set L"
  proof -
    have "(b, ord) \<in> free_set L \<longleftrightarrow> free_block_of s b ord"
      using free_block_of_iff [OF Suc.prems(1)] by simp
    also have "\<dots> \<longleftrightarrow> head_flag (pfndb s ! p) \<and> word_of_nat ord = buddy_order (pfndb s ! p)"
      using pr page ord order_word [of ord]
      by (auto simp: free_block_of_def p_def)
    finally show ?thesis by simp
  qed
  show ?case
  proof (cases "(b, ord) \<in> free_set L")
    case False
    then have "coalesce s a ord = Some (a, ord, s)"
      using ord pr test
      by (auto simp add: coalesce.simps [of s a ord] Let_def idx_in_range buddy_def [symmetric]
          b_def [symmetric] p_def [symmetric] head_flag_def)
    with Suc.prems False show ?thesis unfolding b_def by blast
  next
    case True
    let ?f = "(pfndb s ! p)\<lparr>flags := flags (pfndb s ! p) AND NOT PF_BUDDY_HEAD\<rparr>"
    define s1 where "s1 = s\<lparr>pfndb := (pfndb s)[p := ?f]\<rparr>"
    obtain s2 L' where m: "merge_block s1 a b ord = Some (min a b, s2)" "pmm_core s2 L'"
      "free_area L' = free_area L - frames b ord" "free_set L' \<subseteq> free_set L" "pfndb s2 = pfndb s1"
      using merge_block_core [OF Suc.prems(1) True s1_def [unfolded p_def]] head_flag_unheaded by blast
    have len: "length (pfndb s2) = length (pfndb s)" by (simp add: m(5) s1_def)
    have step: "coalesce s a ord = coalesce s2 (min a b) (Suc ord)"
      using ord pr test True m(1)
      by (simp add: coalesce.simps [of s a ord] Let_def idx_in_range buddy_def [symmetric]
          b_def [symmetric] p_def [symmetric] head_flag_def upd_frame_Some s1_def [symmetric])
    have al: "aligned a ord" using ok by (simp add: block_ok_def)
    have bnz: "b \<noteq> 0"
      using True Suc.prems(1) dll_nonzero
      unfolding pmm_core_def lists_ok_def free_set_def by blast
    have fr: "frames (min a b) (Suc ord) = frames a ord \<union> frames b ord"
      unfolding b_def using al by (rule merge_aligned)
    have sub: "frames b ord \<subseteq> free_area L" using True by (auto simp: free_area_def)
    have "block_ok s2 (min a b) (Suc ord)"
    proof -
      have "aligned (min a b) (Suc ord)" unfolding b_def using al by (rule merge_aligned)
      moreover have "frames (min a b) (Suc ord) \<subseteq> {..< length (pfndb s)}"
        unfolding fr using ok okb by (auto simp: block_ok_def frames_def)
      then have "min a b div NORMAL_PAGE_SIZE + 2 ^ Suc ord \<le> length (pfndb s)"
        unfolding frames_def by (subst (asm) ivl_subset_lessThan) auto
      ultimately show ?thesis by (simp add: block_ok_def len)
    qed
    then have fl2: "floating s2 L' (min a b) (Suc ord)"
      using anz bnz ord m(3) dis fr by (auto simp: floating_def min_def)
    have "coalesced L'" using Suc.prems(3) m(4) by (rule coalesced_subset)
    moreover have "db_covers s2" using Suc.prems(4) len by (simp add: db_covers_def)
    moreover have "n = ORDER_MAX - Suc ord" using Suc.hyps(2) by simp
    moreover have "free_area L' \<union> frames (min a b) (Suc ord) = free_area L \<union> frames a ord"
      using m(3) fr sub by blast
    moreover have "pfndb s2 ! q = pfndb s ! q" if "q \<notin> free_area L \<union> frames a ord" for q
    proof -
      have "q \<noteq> p" using that sub frames_nonempty [of b ord] unfolding p_def by blast
      then show ?thesis by (simp add: m(5) s1_def)
    qed
    ultimately show ?thesis
      using Suc.hyps(1) [OF _ m(2) fl2] len unfolding step by (metis (no_types, lifting))
  qed
qed

lemma push_block_core:
  assumes core: "pmm_core s L" and fl: "floating s L a ord"
  shows "\<exists>s'. push_block s a ord = Some s' \<and> pmm_core s' (L(ord := a # L ord)) \<and>
           length (pfndb s') = length (pfndb s) \<and>
           (\<forall>p. p \<noteq> a div NORMAL_PAGE_SIZE \<longrightarrow> pfndb s' ! p = pfndb s ! p)"
proof -
  have lok: "lists_ok s L" using core by (simp add: pmm_core_def)
  have ord: "ord < length (freelist s)" and ok: "block_ok s a ord"
    using lok fl by (auto simp: lists_ok_def floating_def)
  let ?p = "a div NORMAL_PAGE_SIZE"
  let ?f = "(pfndb s ! ?p)\<lparr>refcount := 0, flags := PF_FREE OR PF_BUDDY_HEAD, buddy_order := word_of_nat ord\<rparr>"
  define s' where "s' = s\<lparr>pfndb := (pfndb s)[?p := ?f], freelist := (freelist s)[ord := a],
      headers := push_headers (headers s) a (freelist s ! ord)\<rparr>"
  have "push_block s a ord = Some s'"
    using ord pfn_in_range [OF ok] list_head_neq [OF lok fl]
    by (auto simp: push_block_def upd_frame_Some idx_in_range set_head_Some Let_def s'_def
        push_headers_def set_header_def set_prev_def)
  moreover have "pmm_core s' (L(ord := a # L ord))"
    using core fl by (rule core_insert) (auto simp: s'_def head_flag_free)
  ultimately show ?thesis by (auto simp: s'_def)
qed

lemma free_order_core:
  assumes core: "pmm_core s L" and fl: "floating s L a ord" and co: "coalesced L" and cov: "db_covers s"
    and used: "flags (pfndb s ! (a div NORMAL_PAGE_SIZE)) AND PF_FREE = 0"
  shows "\<exists>s' L'. free_order s a ord = Some s' \<and> pmm_core s' L' \<and> coalesced L' \<and>
           free_area L' = free_area L \<union> frames a ord \<and> length (pfndb s') = length (pfndb s) \<and>
           (\<forall>p. p \<notin> free_area L' \<longrightarrow> pfndb s' ! p = pfndb s ! p)"
proof -
  obtain a' o' s1 L1 where c: "coalesce s a ord = Some (a', o', s1)" "pmm_core s1 L1"
    "floating s1 L1 a' o'" "free_area L1 \<union> frames a' o' = free_area L \<union> frames a ord" "coalesced L1"
    "o' < ORDER_MAX \<longrightarrow> (buddy a' o', o') \<notin> free_set L1" "length (pfndb s1) = length (pfndb s)"
    "\<forall>p. p \<notin> free_area L \<union> frames a ord \<longrightarrow> pfndb s1 ! p = pfndb s ! p"
    using coalesce_core [OF core fl co cov] by blast
  obtain s' where p: "push_block s1 a' o' = Some s'" "pmm_core s' (L1(o' := a' # L1 o'))"
    "length (pfndb s') = length (pfndb s1)"
    "\<forall>p. p \<noteq> a' div NORMAL_PAGE_SIZE \<longrightarrow> pfndb s' ! p = pfndb s1 ! p"
    using push_block_core [OF c(2,3)] by blast
  have "aligned a' o'" "o' \<le> ORDER_MAX" using c(3) by (auto simp: floating_def block_ok_def)
  then have "coalesced (L1(o' := a' # L1 o'))"
    "free_area (L1(o' := a' # L1 o')) = free_area L \<union> frames a ord"
    using coalesced_insert [OF c(5)] c(4,6) by (auto simp: free_area_insert)
  moreover have "free_order s a ord = Some s'"
    using c(1) p(1) used pfn_in_range [of s a ord] fl
    by (simp add: free_order_def idx_in_range floating_def)
  moreover have "pfndb s' ! p = pfndb s ! p" if "p \<notin> free_area L \<union> frames a ord" for p
    using that c(4,8) p(4) frames_nonempty [of a' o'] by (metis UnCI)
  ultimately show ?thesis using p(2,3) c(7) by (metis (no_types, lifting))
qed

section \<open>The free lists are canonical\<close>

text \<open>
  Two aligned blocks that meet are nested, so in a coalesced state every aligned block
  whose frames are all free lies inside one free block: the free blocks are determined by
  the free frames.
\<close>

lemma aligned_nested:
  assumes "aligned a ord" and "aligned b o'" and "ord \<le> o'" and "frames a ord \<inter> frames b o' \<noteq> {}"
  shows "frames a ord \<subseteq> frames b o'"
proof -
  obtain q where q: "a = NORMAL_PAGE_SIZE * (2 ^ ord * q)" using assms(1) by (rule alignedE)
  obtain r where "b = NORMAL_PAGE_SIZE * (2 ^ o' * r)" using assms(2) by (rule alignedE)
  moreover have e: "(2 :: nat) ^ o' = 2 ^ ord * 2 ^ (o' - ord)"
    using assms(3) by (simp flip: power_add)
  ultimately have r: "b = NORMAL_PAGE_SIZE * (2 ^ ord * (2 ^ (o' - ord) * r))" by simp
  have fa: "frames a ord = {2 ^ ord * q ..< 2 ^ ord * (q + 1)}"
    unfolding frames_def aligned_pfn [OF q] by (simp add: algebra_simps)
  have fb: "frames b o' = {2 ^ ord * (2 ^ (o' - ord) * r) ..< 2 ^ ord * (2 ^ (o' - ord) * (r + 1))}"
    unfolding frames_def aligned_pfn [OF r] e by (simp add: algebra_simps)
  obtain x where "x \<in> frames a ord" "x \<in> frames b o'" using assms(4) by blast
  then have "2 ^ ord * q \<le> x" "x < 2 ^ ord * (q + 1)" "2 ^ ord * (2 ^ (o' - ord) * r) \<le> x"
    "x < 2 ^ ord * (2 ^ (o' - ord) * (r + 1))"
    unfolding fa fb atLeastLessThan_iff by blast+
  then have "2 ^ ord * q < 2 ^ ord * (2 ^ (o' - ord) * (r + 1))"
    "2 ^ ord * (2 ^ (o' - ord) * r) < 2 ^ ord * (q + 1)" by linarith+
  then have "q + 1 \<le> 2 ^ (o' - ord) * (r + 1)" "2 ^ (o' - ord) * r \<le> q"
    by (simp_all only: mult_less_cancel1) simp_all
  then have "2 ^ ord * (q + 1) \<le> 2 ^ ord * (2 ^ (o' - ord) * (r + 1))"
    "2 ^ ord * (2 ^ (o' - ord) * r) \<le> 2 ^ ord * q"
    by (simp_all only: mult_le_mono2)
  then show ?thesis unfolding fa fb by (rule ivl_subset [THEN iffD2, OF disjI2, OF conjI, rotated])
qed

lemma free_block_aligned: "pmm_core s L \<Longrightarrow> (a, ord) \<in> free_set L \<Longrightarrow> aligned a ord \<and> a \<noteq> 0 \<and> ord \<le> ORDER_MAX"
  using dll_nonzero unfolding pmm_core_def marks_ok_def lists_ok_def block_ok_def free_set_def by blast

lemma frames_eqD:
  assumes "aligned a ord" and "aligned b ord" and "frames a ord \<inter> frames b ord \<noteq> {}"
  shows "a = b"
proof -
  have "frames a ord = frames b ord"
    using aligned_nested [OF assms(1,2)] aligned_nested [OF assms(2,1)] assms(3) by blast
  then have "a div NORMAL_PAGE_SIZE \<in> frames b ord" "b div NORMAL_PAGE_SIZE \<in> frames a ord"
    using frames_nonempty by blast+
  then have "a div NORMAL_PAGE_SIZE = b div NORMAL_PAGE_SIZE"
    by (simp add: frames_def)
  then show ?thesis using aligned_page [OF assms(1)] aligned_page [OF assms(2)] by metis
qed

lemma covered_by_free_block:
  assumes core: "pmm_core s L" and co: "coalesced L"
  shows "aligned a ord \<Longrightarrow> ord \<le> ORDER_MAX \<Longrightarrow> frames a ord \<subseteq> free_area L \<Longrightarrow>
           \<exists>b o'. (b, o') \<in> free_set L \<and> ord \<le> o' \<and> frames a ord \<subseteq> frames b o'"
proof (induction ord arbitrary: a)
  case 0
  have "a div NORMAL_PAGE_SIZE \<in> free_area L" using 0(3) frames_nonempty by blast
  then obtain b o' where b: "(b, o') \<in> free_set L" "a div NORMAL_PAGE_SIZE \<in> frames b o'"
    by (auto simp: free_area_def)
  then have "frames a 0 \<subseteq> frames b o'" by (auto simp: frames_def)
  with b show ?case by blast
next
  case (Suc ord)
  note sp = split_frames [OF Suc.prems(1)]
  have half: "\<exists>c o'. (c, o') \<in> free_set L \<and> ord \<le> o' \<and> frames x ord \<subseteq> frames c o'"
    if "x = a \<or> x = buddy a ord" for x
  proof (rule Suc.IH)
    show "aligned x ord" using that sp(4) buddy_aligned [OF sp(4)] by blast
    show "frames x ord \<subseteq> free_area L" using that Suc.prems(3) sp(2) by blast
  qed (use Suc.prems(2) in simp)
  obtain b o1 where b: "(b, o1) \<in> free_set L" "ord \<le> o1" "frames a ord \<subseteq> frames b o1"
    using half [of a] by blast
  obtain c o2 where c: "(c, o2) \<in> free_set L" "ord \<le> o2" "frames (buddy a ord) ord \<subseteq> frames c o2"
    using half [of "buddy a ord"] by blast
  note al = free_block_aligned [OF core b(1)] free_block_aligned [OF core c(1)]
  show ?case
  proof (cases "o1 = ord \<and> o2 = ord")
    case True
    have "b = a" using frames_eqD [of b ord a] al True sp(4) b(3) frames_nonempty [of a ord] by auto
    moreover have "c = buddy a ord"
      using frames_eqD [of c ord "buddy a ord"] al True buddy_aligned [OF sp(4)] c(3)
        frames_nonempty [of "buddy a ord" ord] by auto
    ultimately have False using co b(1) c(1) True Suc.prems(2) by (auto simp: coalesced_def)
    then show ?thesis ..
  next
    case False
    then consider "Suc ord \<le> o1" | "Suc ord \<le> o2" using b(2) c(2) by linarith
    then show ?thesis
    proof cases
      case 1
      moreover have "frames a (Suc ord) \<inter> frames b o1 \<noteq> {}"
        using b(3) sp(2) frames_nonempty [of a ord] by blast
      ultimately show ?thesis using aligned_nested [OF Suc.prems(1)] al b(1) by blast
    next
      case 2
      moreover have "frames a (Suc ord) \<inter> frames c o2 \<noteq> {}"
        using c(3) sp(2) frames_nonempty [of "buddy a ord" ord] by blast
      ultimately show ?thesis using aligned_nested [OF Suc.prems(1)] al c(1) by blast
    qed
  qed
qed

text \<open>The free blocks, read off the free frames alone: the maximal aligned free blocks.\<close>

lemma free_set_canonical:
  assumes core: "pmm_core s L" and co: "coalesced L"
  shows "(a, ord) \<in> free_set L \<longleftrightarrow>
           aligned a ord \<and> ord \<le> ORDER_MAX \<and> frames a ord \<subseteq> free_area L \<and>
           (\<forall>b o'. aligned b o' \<and> ord < o' \<and> o' \<le> ORDER_MAX \<and> frames a ord \<subseteq> frames b o' \<longrightarrow>
              \<not> frames b o' \<subseteq> free_area L)"
    (is "?l \<longleftrightarrow> ?r")
proof
  assume l: ?l
  have "\<not> frames b o' \<subseteq> free_area L"
    if b: "aligned b o'" "ord < o'" "o' \<le> ORDER_MAX" "frames a ord \<subseteq> frames b o'" for b o'
  proof
    assume "frames b o' \<subseteq> free_area L"
    then obtain c o2 where c: "(c, o2) \<in> free_set L" "o' \<le> o2" "frames b o' \<subseteq> frames c o2"
      using covered_by_free_block [OF core co b(1,3)] by blast
    then have "frames a ord \<inter> frames c o2 \<noteq> {}" using b(4) frames_nonempty by blast
    moreover have "(a, ord) \<noteq> (c, o2)" using c(2) b(2) by auto
    moreover have "disjoint_blocks L" using core by (simp add: pmm_core_def)
    ultimately show False using l c(1) by (simp add: disjoint_blocks_def)
  qed
  moreover have "frames a ord \<subseteq> free_area L" using l unfolding free_area_def by blast
  ultimately show ?r using free_block_aligned [OF core l] by blast
next
  assume r: ?r
  then obtain b o' where b: "(b, o') \<in> free_set L" "ord \<le> o'" "frames a ord \<subseteq> frames b o'"
    using covered_by_free_block [OF core co, of a ord] by blast
  have "frames b o' \<subseteq> free_area L" using b(1) unfolding free_area_def by blast
  then have "\<not> ord < o'" using r b(3) free_block_aligned [OF core b(1)] by blast
  then have o': "o' = ord" using b(2) by simp
  moreover have "b = a"
    using frames_eqD [of b ord a] b(3) r free_block_aligned [OF core b(1)] frames_nonempty [of a ord] o'
    by blast
  ultimately show ?l using b(1) by simp
qed

lemma free_area_in_db: "pmm_core s L \<Longrightarrow> free_area L \<subseteq> {..< length (pfndb s)}"
  unfolding pmm_core_def marks_ok_def free_area_def frames_def block_ok_def by fastforce

lemma free_blocks_determined:
  assumes "pmm_wf s" and "pmm_wf s'" and "free_frames s = free_frames s'"
  shows "free_block_of s a ord \<longleftrightarrow> free_block_of s' a ord"
proof -
  obtain L L' where "pmm_core s L" "coalesced L" "pmm_core s' L'" "coalesced L'"
    using assms by (auto simp: pmm_wf_def)
  with assms(3) show ?thesis
    by (simp add: free_block_of_iff free_set_canonical free_frames_eq)
qed

text \<open>Allocation and freeing, stated over the state alone.\<close>

lemma alloc_order_wf:
  assumes "pmm_wf s" and "ord \<le> ORDER_MAX"
  shows "alloc_order s ord = Some (None, s) \<and> (\<forall>a. aligned a ord \<longrightarrow> \<not> frames a ord \<subseteq> free_frames s) \<or>
         (\<exists>a s'. alloc_order s ord = Some (Some a, s') \<and> pmm_wf s' \<and> aligned a ord \<and> a \<noteq> 0 \<and>
            frames a ord \<subseteq> free_frames s \<and> free_frames s' = free_frames s - frames a ord \<and>
            length (pfndb s') = length (pfndb s) \<and>
            (\<forall>p. p \<notin> free_frames s \<longrightarrow> pfndb s' ! p = pfndb s ! p) \<and>
            refcount (pfndb s' ! (a div NORMAL_PAGE_SIZE)) = 1 \<and>
            flags (pfndb s' ! (a div NORMAL_PAGE_SIZE)) = PF_KERNEL)"
proof -
  obtain L where L: "pmm_core s L" "coalesced L" using assms(1) by (auto simp: pmm_wf_def)
  consider (none) "alloc_order s ord = Some (None, s)" "\<forall>o' a. ord \<le> o' \<longrightarrow> (a, o') \<notin> free_set L"
    | (some) a s' L' where "alloc_order s ord = Some (Some a, s')" "pmm_core s' L'" "coalesced L'"
      "aligned a ord" "a \<noteq> 0" "frames a ord \<subseteq> free_area L" "free_area L' = free_area L - frames a ord"
      "length (pfndb s') = length (pfndb s)" "\<forall>p. p \<notin> free_area L \<longrightarrow> pfndb s' ! p = pfndb s ! p"
      "refcount (pfndb s' ! (a div NORMAL_PAGE_SIZE)) = 1"
      "flags (pfndb s' ! (a div NORMAL_PAGE_SIZE)) = PF_KERNEL"
    using alloc_order_core [OF L assms(2)] by blast
  then show ?thesis
  proof cases
    case none
    then show ?thesis
      using covered_by_free_block [OF L _ assms(2)] unfolding free_frames_eq [OF L(1)] by blast
  next
    case some
    then show ?thesis
      unfolding pmm_wf_def free_frames_eq [OF L(1)] using free_frames_eq [OF some(2)] by blast
  qed
qed

lemma free_order_wf:
  assumes "pmm_wf s" and "db_covers s" and "ord \<le> ORDER_MAX" and "a \<noteq> 0" and "block_ok s a ord"
    and "frames a ord \<inter> free_frames s = {}"
    and "flags (pfndb s ! (a div NORMAL_PAGE_SIZE)) AND PF_FREE = 0"
  obtains s' where "free_order s a ord = Some s'" "pmm_wf s'"
    "free_frames s' = free_frames s \<union> frames a ord" "length (pfndb s') = length (pfndb s)"
    "\<And>p. p \<notin> free_frames s' \<Longrightarrow> pfndb s' ! p = pfndb s ! p"
proof -
  obtain L where L: "pmm_core s L" "coalesced L" using assms(1) by (auto simp: pmm_wf_def)
  have "floating s L a ord" using assms(3-6) free_frames_eq [OF L(1)] by (simp add: floating_def)
  then obtain s' L' where f: "free_order s a ord = Some s'" "pmm_core s' L'" "coalesced L'"
    "free_area L' = free_area L \<union> frames a ord" "length (pfndb s') = length (pfndb s)"
    "\<forall>p. p \<notin> free_area L' \<longrightarrow> pfndb s' ! p = pfndb s ! p"
    using free_order_core [OF L(1) _ L(2) assms(2) assms(7)] by blast
  have "free_frames s' = free_area L'" "free_frames s = free_area L"
    using free_frames_eq f(2) L(1) by blast+
  with f show ?thesis using that [of s'] unfolding pmm_wf_def by metis
qed

section \<open>Sample states\<close>

text \<open>A database with every frame in use, and one with a single free block.\<close>

definition used_frame :: page_frame where
  "used_frame = \<lparr>refcount = 1, flags = PF_KERNEL, buddy_order = 0\<rparr>"

definition used_pmm :: "nat \<Rightarrow> pmm" where
  "used_pmm n = pmm_new\<lparr>pfndb := replicate n used_frame\<rparr>"

definition one_free_pmm :: "nat \<Rightarrow> nat \<Rightarrow> nat \<Rightarrow> pmm" where
  "one_free_pmm n a ord = (used_pmm n)\<lparr>
     freelist := (freelist (used_pmm n))[ord := a],
     pfndb := (pfndb (used_pmm n))[a div NORMAL_PAGE_SIZE :=
                \<lparr>refcount = 0, flags = PF_FREE OR PF_BUDDY_HEAD, buddy_order = word_of_nat ord\<rparr>],
     headers := push_headers (headers (used_pmm n)) a 0\<rparr>"

lemma fresh_pmm_core:
  "pmm_core (s\<lparr>pfndb := replicate n used_frame, freelist := replicate (ORDER_MAX + 1) 0, pfndb_phys_addr := m\<rparr>) (\<lambda>_. [])"
proof -
  have "\<not> head_flag used_frame" by (simp add: head_flag_def used_frame_def pf_defs)
  moreover have "replicate (ORDER_MAX + 1) 0 ! ord = (0 :: nat)" if "ord \<le> ORDER_MAX" for ord
    using that by (subst nth_replicate) simp_all
  ultimately show ?thesis
    unfolding pmm_core_def lists_ok_def marks_ok_def disjoint_blocks_def free_set_def by simp
qed

lemma used_pmm_core: "pmm_core (used_pmm n) (\<lambda>_. [])" "coalesced (\<lambda>_. [])" "free_area (\<lambda>_. []) = {}"
  using fresh_pmm_core [where s = pmm_new and n = n and m = 0]
  by (simp_all add: used_pmm_def pmm_new_def coalesced_def free_area_def free_set_def)

lemma one_free_pmm_core:
  assumes "a \<noteq> 0" and "ord \<le> ORDER_MAX" and "aligned a ord" and "a div NORMAL_PAGE_SIZE + 2 ^ ord \<le> n"
  shows "pmm_core (one_free_pmm n a ord) ((\<lambda>_. [])(ord := [a]))" "coalesced ((\<lambda>_. [])(ord := [a]))"
    "free_area ((\<lambda>_. [])(ord := [a])) = frames a ord"
proof -
  have fl: "floating (used_pmm n) (\<lambda>_. []) a ord"
    using assms used_pmm_core(3) by (simp add: floating_def block_ok_def used_pmm_def)
  have h: "freelist (used_pmm n) ! ord = 0"
    using assms(2) unfolding used_pmm_def pmm_new_def by (simp del: replicate.simps)
  show "pmm_core (one_free_pmm n a ord) ((\<lambda>_. [])(ord := [a]))"
    using core_insert [OF used_pmm_core(1) fl, where
        f = "\<lparr>refcount = 0, flags = PF_FREE OR PF_BUDDY_HEAD, buddy_order = word_of_nat ord\<rparr>"
        and s' = "one_free_pmm n a ord"] h
    by (simp add: one_free_pmm_def head_flag_def)
  show "coalesced ((\<lambda>_. [])(ord := [a]))"
    using coalesced_insert [OF used_pmm_core(2) assms(3,2)] by (simp add: free_set_def)
  show "free_area ((\<lambda>_. [])(ord := [a])) = frames a ord"
    using free_area_insert [OF assms(2), of "\<lambda>_. []" a] used_pmm_core(3) by simp
qed

lemma sample_free: 
  "pmm_wf (one_free_pmm 4 8192 1)" "free_frames (one_free_pmm 4 8192 1) = frames 8192 1"
proof -
  note c = one_free_pmm_core [of 8192 1 4]
  have "8192 \<noteq> (0::nat)" "1 \<le> ORDER_MAX" "aligned 8192 1" "8192 div NORMAL_PAGE_SIZE + 2 ^ 1 \<le> 4"
    by (simp_all add: ORDER_MAX_def aligned_def NORMAL_PAGE_SIZE_def)
  note c = c [OF this]
  show "pmm_wf (one_free_pmm 4 8192 1)" using c(1,2) unfolding pmm_wf_def by blast
  show "free_frames (one_free_pmm 4 8192 1) = frames 8192 1" using c(3) free_frames_eq [OF c(1)] by simp
qed

section \<open>The contract of the allocator\<close>

text \<open>
  C1. Allocation. In a well-formed state \<open>alloc_order\<close> never panics. It either returns an
  aligned, non-null block of the requested order whose frames were free, removes exactly
  those frames from the free frames, leaves the entries of frames in use alone, marks the head frame \<open>PF_KERNEL\<close> with reference count
  one and keeps the state well formed; or it returns \<open>None\<close>, changes nothing, and there was
  no aligned run of \<open>2 ^ ord\<close> free frames at all.
\<close>

theorem alloc_order_correct:
  assumes "pmm_wf s" and "ord \<le> ORDER_MAX"
  shows "alloc_order s ord = Some (None, s) \<and> (\<forall>a. aligned a ord \<longrightarrow> \<not> frames a ord \<subseteq> free_frames s) \<or>
         (\<exists>a s'. alloc_order s ord = Some (Some a, s') \<and> pmm_wf s' \<and> aligned a ord \<and> a \<noteq> 0 \<and>
            frames a ord \<subseteq> free_frames s \<and> free_frames s' = free_frames s - frames a ord \<and>
            length (pfndb s') = length (pfndb s) \<and>
            (\<forall>p. p \<notin> free_frames s \<longrightarrow> pfndb s' ! p = pfndb s ! p) \<and>
            refcount (pfndb s' ! (a div NORMAL_PAGE_SIZE)) = 1 \<and>
            flags (pfndb s' ! (a div NORMAL_PAGE_SIZE)) = PF_KERNEL)"
  using assms by (rule alloc_order_wf)

theorem alloc_order_correct_witness:
  "pmm_wf (one_free_pmm 4 8192 1) \<and> 0 \<le> ORDER_MAX \<and>
   (\<exists>a s'. alloc_order (one_free_pmm 4 8192 1) 0 = Some (Some a, s') \<and> pmm_wf s' \<and>
      free_frames s' = frames 8192 1 - frames a 0)"
proof -
  have "aligned 8192 0" "frames 8192 0 \<subseteq> frames 8192 1"
    by (auto simp: aligned_def frames_def NORMAL_PAGE_SIZE_def)
  then show ?thesis
    using alloc_order_correct [OF sample_free(1), of 0] sample_free by auto
qed

text \<open>
  C2. Freeing. Given a well-formed state whose database covers whole maximal blocks, and an
  aligned block inside the database whose frames are all in use and whose head frame is not
  marked \<open>PF_FREE\<close>, \<open>free_order\<close> never panics: it adds exactly the frames of the block to
  the free frames, leaves the entry of every frame that stays in use alone, and keeps the
  state well formed, in particular fully coalesced.
\<close>

theorem free_order_correct:
  assumes "pmm_wf s" and "db_covers s" and "ord \<le> ORDER_MAX" and "a \<noteq> 0" and "block_ok s a ord"
    and "frames a ord \<inter> free_frames s = {}"
    and "flags (pfndb s ! (a div NORMAL_PAGE_SIZE)) AND PF_FREE = 0"
  shows "\<exists>s'. free_order s a ord = Some s' \<and> pmm_wf s' \<and>
           free_frames s' = free_frames s \<union> frames a ord \<and> length (pfndb s') = length (pfndb s) \<and>
           (\<forall>p. p \<notin> free_frames s' \<longrightarrow> pfndb s' ! p = pfndb s ! p)"
  using free_order_wf [OF assms] by (metis (no_types, lifting))

theorem free_order_correct_witness:
  "pmm_wf (used_pmm 2048) \<and> db_covers (used_pmm 2048) \<and>
   (\<exists>s'. free_order (used_pmm 2048) 4096 0 = Some s' \<and> pmm_wf s' \<and> free_frames s' = frames 4096 0)"
proof -
  let ?s = "used_pmm 2048"
  have wf: "pmm_wf ?s" using used_pmm_core(1,2) unfolding pmm_wf_def by blast
  have emp: "free_frames ?s = {}" using free_frames_eq [OF used_pmm_core(1)] used_pmm_core(3) by simp
  have len: "length (pfndb ?s) = 2048" by (simp add: used_pmm_def)
  have cov: "db_covers ?s" by (simp add: db_covers_def len ORDER_MAX_def)
  have "pfndb ?s ! 1 = used_frame" unfolding used_pmm_def by simp
  then have "flags (pfndb ?s ! (4096 div NORMAL_PAGE_SIZE)) AND PF_FREE = 0"
    by (simp add: NORMAL_PAGE_SIZE_def used_frame_def pf_defs)
  moreover have "block_ok ?s 4096 0"
    unfolding block_ok_def len by (simp add: aligned_def NORMAL_PAGE_SIZE_def)
  ultimately show ?thesis
    using free_order_correct [OF wf cov, of 0 4096] emp wf cov by auto
qed

text \<open>
  C3. Round trip. A block obtained from \<open>alloc_order\<close> can be freed at the same order, and
  freeing it restores the free frames and the very same set of free blocks, however the
  allocation split them.
\<close>

theorem alloc_free_roundtrip:
  assumes "pmm_wf s" and "db_covers s" and "ord \<le> ORDER_MAX" and "alloc_order s ord = Some (Some a, s')"
  shows "\<exists>s''. free_order s' a ord = Some s'' \<and> pmm_wf s'' \<and> free_frames s'' = free_frames s \<and>
           free_block_of s'' = free_block_of s"
proof -
  obtain L where L: "pmm_core s L" "coalesced L" using assms(1) by (auto simp: pmm_wf_def)
  obtain L' where L': "pmm_core s' L'" "coalesced L'" "a \<noteq> 0" "aligned a ord"
    "frames a ord \<subseteq> free_area L" "free_area L' = free_area L - frames a ord"
    "length (pfndb s') = length (pfndb s)" "flags (pfndb s' ! (a div NORMAL_PAGE_SIZE)) = PF_KERNEL"
    using alloc_order_core [OF L assms(3)] assms(4) by auto
  then have "frames a ord \<subseteq> {..< length (pfndb s)}" using free_area_in_db [OF L(1)] by blast
  then have "a div NORMAL_PAGE_SIZE + 2 ^ ord \<le> length (pfndb s)"
    unfolding frames_def by (subst (asm) ivl_subset_lessThan) auto
  with L' have fl: "floating s' L' a ord" using assms(3) by (auto simp: floating_def block_ok_def)
  have "db_covers s'" using assms(2) L'(7) by (simp add: db_covers_def)
  moreover have "flags (pfndb s' ! (a div NORMAL_PAGE_SIZE)) AND PF_FREE = 0"
    using L'(8) by (simp add: pf_defs)
  ultimately obtain s'' L'' where f: "free_order s' a ord = Some s''" "pmm_core s'' L''" "coalesced L''"
    "free_area L'' = free_area L' \<union> frames a ord"
    using free_order_core [OF L'(1) fl L'(2)] by blast
  have wf: "pmm_wf s''" using f unfolding pmm_wf_def by blast
  have area: "free_frames s'' = free_frames s"
    using f(4) L'(5,6) free_frames_eq [OF f(2)] free_frames_eq [OF L(1)] by blast
  with f(1) wf free_blocks_determined [OF wf assms(1) area] show ?thesis by (auto simp: fun_eq_iff)
qed

theorem alloc_free_roundtrip_witness:
  "\<exists>a s' s''. alloc_order (one_free_pmm 2048 4096 0) 0 = Some (Some a, s') \<and>
     free_order s' a 0 = Some s'' \<and> pmm_wf s'' \<and> free_frames s'' = frames 4096 0"
proof -
  let ?s = "one_free_pmm 2048 4096 0"
  have "4096 \<noteq> (0::nat)" "0 \<le> ORDER_MAX" "aligned 4096 0" "4096 div NORMAL_PAGE_SIZE + 2 ^ 0 \<le> 2048"
    by (simp_all add: aligned_def NORMAL_PAGE_SIZE_def)
  note c = one_free_pmm_core [OF this]
  have wf: "pmm_wf ?s" using c(1,2) unfolding pmm_wf_def by blast
  have ff: "free_frames ?s = frames 4096 0" using c(3) free_frames_eq [OF c(1)] by simp
  have "length (pfndb ?s) = 2048" unfolding one_free_pmm_def used_pmm_def by simp
  then have cov: "db_covers ?s" by (simp add: db_covers_def ORDER_MAX_def)
  have "(4096, 0) \<in> free_set ((\<lambda>_. [])(0 := [4096]))" by (simp add: free_set_def)
  then obtain a s' where al: "alloc_order ?s 0 = Some (Some a, s')"
    using alloc_order_core [OF c(1,2), of 0] by auto
  then show ?thesis using alloc_free_roundtrip [OF wf cov _ al] ff by auto
qed

section \<open>Limits of the checks in \<open>free_order\<close>\<close>

lemmas pmm_run = free_order_def push_block_def alloc_order_def pop_head_def split_step_def
  merge_block_def set_prev_def set_next_def set_header_def set_head_def upd_frame_def
  used_pmm_def one_free_pmm_def pmm_new_def used_frame_def pf_defs ORDER_MAX_def
  NORMAL_PAGE_SIZE_def idx_def upd_def Let_def coalesce.simps find_list.simps push_headers_def

text \<open>
  The double-free check reads only the head frame's \<open>PF_FREE\<close> flag, and merging leaves the
  upper half's flags at \<open>PF_KERNEL\<close>. With frames 2 and 3 in use: freeing 2, then 3, then 3
  again is accepted, after which an order-1 allocation returns frames 2 and 3 and an order-0
  allocation returns frame 3 a second time.
\<close>

theorem double_free_undetected:
  "do { s1 \<leftarrow> free_order (used_pmm 4) 8192 0;
        s2 \<leftarrow> free_order s1 12288 0;
        s3 \<leftarrow> free_order s2 12288 0;
        (r1, s4) \<leftarrow> alloc_order s3 1;
        (r2, s5) \<leftarrow> alloc_order s4 0;
        ret (r1, r2) } = Some (Some 8192, Some 12288)"
  by (simp add: pmm_run cong: bind_weak)

text \<open>
  Freeing reads the buddy's entry without a bounds check: with a database of three
  frames, freeing the last one looks up frame 3 and panics, although the same block was
  handed out by the allocator.
\<close>

theorem free_order_buddy_out_of_range:
  "do { (r, s1) \<leftarrow> alloc_order (one_free_pmm 3 8192 0) 0; ret r } = Some (Some 8192) \<and>
   do { (r, s1) \<leftarrow> alloc_order (one_free_pmm 3 8192 0) 0; free_order s1 8192 0 } = None"
  by (simp add: pmm_run cong: bind_weak)

end
