(* ===== verification/Pmm_Init.thy ===== *)
theory Pmm_Init
  imports Pmm_Inv
begin

text \<open>
  Boot-time construction of the physical memory manager: the bitmap allocator of
  \<^verbatim>\<open>kernel/src/memory/init_pmm.rs\<close> and \<^verbatim>\<open>Allocator::init\<close> of \<^verbatim>\<open>pmm.rs\<close>, which
  allocates the page-frame database from the bitmap and carves every run of free frames
  into maximal aligned blocks. The memory map handed over by the boot loader is an
  argument. The theorems say what the bitmap operations do to the set of free frames and
  that the carving loop ends in a well-formed allocator whose free frames are exactly the
  bitmap's.
\<close>

section \<open>The boot bitmap\<close>

definition PAGE_SIZE :: nat where
  "PAGE_SIZE = 4096"

datatype memmap_type =
    MEMMAP_USABLE
  | MEMMAP_BOOTLOADER_RECLAIMABLE
  | MEMMAP_EXECUTABLE_AND_MODULES
  | MEMMAP_OTHER

record memmap_entry =
  mm_base :: nat
  mm_length :: nat
  mm_type :: memmap_type

record bitmap_pmm =
  bitmap :: "u8 list"
  total_frames :: nat
  max_addr :: nat

definition set_free :: "bitmap_pmm \<Rightarrow> nat \<Rightarrow> bitmap_pmm run" where
  "set_free b frame_idx =
    do { byte \<leftarrow> idx (bitmap b) (frame_idx div 8);
         bm \<leftarrow> upd (bitmap b) (frame_idx div 8) (byte AND NOT (push_bit (frame_idx mod 8) 1));
         ret (b\<lparr>bitmap := bm\<rparr>) }"

definition set_used :: "bitmap_pmm \<Rightarrow> nat \<Rightarrow> bitmap_pmm run" where
  "set_used b frame_idx =
    do { byte \<leftarrow> idx (bitmap b) (frame_idx div 8);
         bm \<leftarrow> upd (bitmap b) (frame_idx div 8) (byte OR push_bit (frame_idx mod 8) 1);
         ret (b\<lparr>bitmap := bm\<rparr>) }"

definition is_free :: "bitmap_pmm \<Rightarrow> nat \<Rightarrow> bool run" where
  "is_free b frame_idx =
    do { byte \<leftarrow> idx (bitmap b) (frame_idx div 8);
         ret (byte AND push_bit (frame_idx mod 8) 1 = 0) }"

fun set_used_range :: "bitmap_pmm \<Rightarrow> nat \<Rightarrow> nat \<Rightarrow> bitmap_pmm run" where
  "set_used_range b j 0 = ret b"
| "set_used_range b j (Suc n) = do { b' \<leftarrow> set_used b j; set_used_range b' (Suc j) n }"

function alloc_scan :: "bitmap_pmm \<Rightarrow> nat \<Rightarrow> nat \<Rightarrow> nat \<Rightarrow> nat \<Rightarrow> (nat option \<times> bitmap_pmm) run" where
  "alloc_scan b frames_needed i count start =
    (if i < total_frames b
     then do { fr \<leftarrow> is_free b i;
               if fr
               then let start' = (if count = 0 then i else start)
                    in if count + 1 = frames_needed
                       then do { b' \<leftarrow> set_used_range b start' frames_needed; ret (Some start', b') }
                       else alloc_scan b frames_needed (i + 1) (count + 1) start'
               else alloc_scan b frames_needed (i + 1) 0 start }
     else ret (None, b))"
  by pat_completeness auto
termination
  by (relation "measure (\<lambda>(b, n, i, c, st). total_frames b - i)") auto

declare alloc_scan.simps [simp del]

definition bitmap_alloc :: "bitmap_pmm \<Rightarrow> nat \<Rightarrow> (nat option \<times> bitmap_pmm) run" where
  "bitmap_alloc b sz = alloc_scan b (div_ceil sz PAGE_SIZE) 0 0 0"

definition highest_addr :: "memmap_entry list \<Rightarrow> nat" where
  "highest_addr mem_map =
    fold (\<lambda>e h. if mm_type e = MEMMAP_USABLE \<or> mm_type e = MEMMAP_BOOTLOADER_RECLAIMABLE
                   \<or> mm_type e = MEMMAP_EXECUTABLE_AND_MODULES
                 then if h < mm_base e + mm_length e then mm_base e + mm_length e else h
                 else h) mem_map 0"

definition bitmap_place :: "memmap_entry list \<Rightarrow> nat \<Rightarrow> nat" where
  "bitmap_place mem_map bitmap_size_bytes =
    fold (\<lambda>e p. if mm_type e = MEMMAP_USABLE \<and> bitmap_size_bytes \<le> mm_length e then mm_base e else p)
      mem_map 0"

fun free_range :: "nat \<Rightarrow> nat \<Rightarrow> bitmap_pmm \<Rightarrow> nat \<Rightarrow> nat \<Rightarrow> bitmap_pmm run" where
  "free_range place len b frame 0 = ret b"
| "free_range place len b frame (Suc n) =
    (if place \<le> frame * PAGE_SIZE \<and> frame * PAGE_SIZE < place + len
     then free_range place len b (Suc frame) n
     else do { b' \<leftarrow> set_free b frame; free_range place len b' (Suc frame) n })"

fun free_entries :: "nat \<Rightarrow> nat \<Rightarrow> memmap_entry list \<Rightarrow> bitmap_pmm \<Rightarrow> bitmap_pmm run" where
  "free_entries place len [] b = ret b"
| "free_entries place len (e # es) b =
    (if mm_type e = MEMMAP_USABLE
     then let start_frame = mm_base e div PAGE_SIZE;
              end_frame = (mm_base e + mm_length e) div PAGE_SIZE
          in do { b' \<leftarrow> free_range place len b start_frame (end_frame - start_frame);
                  free_entries place len es b' }
     else free_entries place len es b)"

definition bitmap_init :: "memmap_entry list \<Rightarrow> bitmap_pmm run" where
  "bitmap_init mem_map =
    (let high = (highest_addr mem_map + 4095) div 4096 * 4096;
         total = high div PAGE_SIZE;
         bytes = div_ceil total 8;
         place = bitmap_place mem_map bytes
     in if place = 0 then panic
        else free_entries place bytes mem_map
               \<lparr>bitmap = replicate bytes 255, total_frames = total, max_addr = high\<rparr>)"

section \<open>Carving the bitmap into buddy blocks\<close>

function skip_used :: "bitmap_pmm \<Rightarrow> nat \<Rightarrow> nat run" where
  "skip_used b cursor =
    (if cursor < total_frames b
     then do { fr \<leftarrow> is_free b cursor; if fr then ret cursor else skip_used b (cursor + 1) }
     else ret cursor)"
  by pat_completeness auto
termination
  by (relation "measure (\<lambda>(b, c). total_frames b - c)") auto

function skip_free :: "bitmap_pmm \<Rightarrow> nat \<Rightarrow> nat run" where
  "skip_free b cursor =
    (if cursor < total_frames b
     then do { fr \<leftarrow> is_free b cursor; if fr then skip_free b (cursor + 1) else ret cursor }
     else ret cursor)"
  by pat_completeness auto
termination
  by (relation "measure (\<lambda>(b, c). total_frames b - c)") auto

declare skip_used.simps [simp del] skip_free.simps [simp del]

text \<open>The inner loop: an order that is too large for the run is decremented.\<close>

fun fit_order :: "nat \<Rightarrow> nat \<Rightarrow> nat" where
  "fit_order 0 avail = 0"
| "fit_order (Suc order) avail = (if avail < 2 ^ Suc order then fit_order order avail else Suc order)"

definition max_order_at :: "nat \<Rightarrow> nat" where
  "max_order_at start_frame =
    (let max_order = trailing_zeros 64 (bit start_frame)
     in if ORDER_MAX < max_order then ORDER_MAX else max_order)"

function carve_run :: "pmm \<Rightarrow> nat \<Rightarrow> nat \<Rightarrow> pmm run" where
  "carve_run s start_frame end_frame =
    (let order = fit_order (max_order_at start_frame) (end_frame - start_frame)
     in do { s' \<leftarrow> free_order s (start_frame * NORMAL_PAGE_SIZE) order;
             if end_frame \<le> start_frame + 2 ^ order then ret s'
             else carve_run s' (start_frame + 2 ^ order) end_frame })"
  by pat_completeness auto
termination
  by (relation "measure (\<lambda>(s, st, en). en - st)") (auto intro!: diff_less_mono2)

declare carve_run.simps [simp del]

lemma skip_used_ge: "skip_used b c = Some c' \<Longrightarrow> c \<le> c'"
proof (induction b c arbitrary: c' rule: skip_used.induct)
  case (1 b c)
  show ?case
  proof (cases "c < total_frames b \<and> is_free b c = Some False")
    case True
    with "1.prems" have "skip_used b (c + 1) = Some c'" by (simp add: skip_used.simps [of b c])
    with "1.IH" True have "c + 1 \<le> c'" by auto
    then show ?thesis by simp
  next
    case False
    with "1.prems" show ?thesis
      by (auto simp: skip_used.simps [of b c] split: if_splits bind_splits)
  qed
qed

lemma skip_free_ge: "skip_free b c = Some c' \<Longrightarrow> c \<le> c'"
proof (induction b c arbitrary: c' rule: skip_free.induct)
  case (1 b c)
  show ?case
  proof (cases "c < total_frames b \<and> is_free b c = Some True")
    case True
    with "1.prems" have "skip_free b (c + 1) = Some c'" by (simp add: skip_free.simps [of b c])
    with "1.IH" True have "c + 1 \<le> c'" by auto
    then show ?thesis by simp
  next
    case False
    with "1.prems" show ?thesis
      by (auto simp: skip_free.simps [of b c] split: if_splits bind_splits)
  qed
qed

lemma skip_used_free: "skip_used b c = Some c' \<Longrightarrow> c' < total_frames b \<Longrightarrow> is_free b c' = Some True"
proof (induction b c arbitrary: c' rule: skip_used.induct)
  case (1 b c)
  show ?case
  proof (cases "c < total_frames b \<and> is_free b c = Some False")
    case True
    with "1.prems" have "skip_used b (c + 1) = Some c'" by (simp add: skip_used.simps [of b c])
    with "1.IH" True "1.prems" show ?thesis by auto
  next
    case False
    with "1.prems" show ?thesis
      by (auto simp: skip_used.simps [of b c] split: if_splits bind_splits)
  qed
qed

lemma skip_used_progress:
  assumes "skip_used b c = Some c1" and "c1 < total_frames b" and "skip_free b c1 = Some c2"
  shows "c < c2"
proof -
  have "skip_free b (c1 + 1) = Some c2"
    using skip_used_free [OF assms(1,2)] assms(2,3) by (simp add: skip_free.simps [of b c1])
  then show ?thesis using skip_free_ge skip_used_ge [OF assms(1)] by fastforce
qed

function carve :: "pmm \<Rightarrow> bitmap_pmm \<Rightarrow> nat \<Rightarrow> pmm run" where
  "carve s b cursor =
    (if cursor < total_frames b
     then do { c1 \<leftarrow> skip_used b cursor;
               if total_frames b \<le> c1 then ret s
               else do { c2 \<leftarrow> skip_free b c1;
                         s' \<leftarrow> carve_run s c1 c2;
                         carve s' b c2 } }
     else ret s)"
  by pat_completeness auto
termination
  by (relation "measure (\<lambda>(s, b, c). total_frames b - c)")
    (auto intro!: diff_less_mono2 dest: skip_used_progress)

declare carve.simps [simp del]

text \<open>The size of a \<^verbatim>\<open>PageFrame\<close>: one 32-bit and two 16-bit atomics.\<close>

definition SIZEOF_PAGE_FRAME :: nat where
  "SIZEOF_PAGE_FRAME = 8"

definition pmm_init :: "pmm \<Rightarrow> memmap_entry list \<Rightarrow> pmm run" where
  "pmm_init s mem_map =
    do { b \<leftarrow> bitmap_init mem_map;
         let total_pages = max_addr b div NORMAL_PAGE_SIZE
         in do { (meta_frame_idx, b') \<leftarrow> bitmap_alloc b (total_pages * SIZEOF_PAGE_FRAME);
                 case meta_frame_idx of
                   None \<Rightarrow> panic
                 | Some m \<Rightarrow>
                     carve (s\<lparr>pfndb := replicate total_pages
                                \<lparr>refcount = 1, flags = PF_KERNEL, buddy_order = 0\<rparr>,
                              freelist := replicate (ORDER_MAX + 1) 0,
                              pfndb_phys_addr := m * NORMAL_PAGE_SIZE\<rparr>) b' 0 } }"

section \<open>The bitmap as a set of free frames\<close>

definition bitmap_ok :: "bitmap_pmm \<Rightarrow> bool" where
  "bitmap_ok b \<longleftrightarrow> length (bitmap b) = div_ceil (total_frames b) 8"

definition free_bit :: "bitmap_pmm \<Rightarrow> nat \<Rightarrow> bool" where
  "free_bit b i \<longleftrightarrow> \<not> bit (bitmap b ! (i div 8)) (i mod 8)"

lemma byte_in_range: "bitmap_ok b \<Longrightarrow> i < total_frames b \<Longrightarrow> i div 8 < length (bitmap b)"
  by (simp add: bitmap_ok_def less_div_ceil_iff)

lemma and_exp_0: "(w :: 'a::len word) AND 2 ^ n = 0 \<longleftrightarrow> \<not> bit w n"
  using bit_iff_and_push_bit_not_eq_0 [of w n] by simp

lemma is_free_eq: "bitmap_ok b \<Longrightarrow> i < total_frames b \<Longrightarrow> is_free b i = Some (free_bit b i)"
  by (simp add: is_free_def idx_in_range byte_in_range free_bit_def and_exp_0)

lemma bit_write_frame:
  assumes "bitmap_ok b" and "i < total_frames b" and "bit w (i mod 8) = v"
    and "\<And>k. k < 8 \<Longrightarrow> k \<noteq> i mod 8 \<Longrightarrow> bit w k = bit (bitmap b ! (i div 8)) k"
  shows "bitmap_ok (b\<lparr>bitmap := (bitmap b)[i div 8 := w]\<rparr>)"
    and "free_bit (b\<lparr>bitmap := (bitmap b)[i div 8 := w]\<rparr>) = (free_bit b)(i := \<not> v)"
proof -
  show "bitmap_ok (b\<lparr>bitmap := (bitmap b)[i div 8 := w]\<rparr>)" using assms(1) by (simp add: bitmap_ok_def)
  show "free_bit (b\<lparr>bitmap := (bitmap b)[i div 8 := w]\<rparr>) = (free_bit b)(i := \<not> v)"
  proof
    fix j
    have "j = i" if "j div 8 = i div 8" "j mod 8 = i mod 8"
      using that by (metis div_mult_mod_eq)
    then show "free_bit (b\<lparr>bitmap := (bitmap b)[i div 8 := w]\<rparr>) j = ((free_bit b)(i := \<not> v)) j"
      using assms byte_in_range [OF assms(1,2)]
      by (cases "j div 8 = i div 8"; cases "j mod 8 = i mod 8") (auto simp: free_bit_def)
  qed
qed

lemma set_used_spec:
  assumes "bitmap_ok b" and "i < total_frames b"
  obtains b' where "set_used b i = Some b'" "bitmap_ok b'" "free_bit b' = (free_bit b)(i := False)"
    "total_frames b' = total_frames b" "max_addr b' = max_addr b"
proof -
  let ?w = "(bitmap b ! (i div 8)) OR push_bit (i mod 8) 1"
  have "bit ?w (i mod 8) = True" "\<And>k. k < 8 \<Longrightarrow> k \<noteq> i mod 8 \<Longrightarrow> bit ?w k = bit (bitmap b ! (i div 8)) k"
    by (auto simp: bit_or_iff bit_exp_iff)
  note w = bit_write_frame [OF assms this]
  show ?thesis
    by (rule that [of "b\<lparr>bitmap := (bitmap b)[i div 8 := ?w]\<rparr>"])
      (use w byte_in_range [OF assms] in \<open>simp_all add: set_used_def idx_in_range upd_in_range\<close>)
qed

lemma set_free_spec:
  assumes "bitmap_ok b" and "i < total_frames b"
  obtains b' where "set_free b i = Some b'" "bitmap_ok b'" "free_bit b' = (free_bit b)(i := True)"
    "total_frames b' = total_frames b" "max_addr b' = max_addr b"
proof -
  let ?w = "(bitmap b ! (i div 8)) AND NOT (push_bit (i mod 8) 1)"
  have "bit ?w (i mod 8) = False" "\<And>k. k < 8 \<Longrightarrow> k \<noteq> i mod 8 \<Longrightarrow> bit ?w k = bit (bitmap b ! (i div 8)) k"
    by (auto simp: bit_and_iff bit_not_iff bit_exp_iff)
  note w = bit_write_frame [OF assms this]
  show ?thesis
    by (rule that [of "b\<lparr>bitmap := (bitmap b)[i div 8 := ?w]\<rparr>"])
      (use w byte_in_range [OF assms] in \<open>simp_all add: set_free_def idx_in_range upd_in_range\<close>)
qed

lemma set_used_range_spec:
  assumes "bitmap_ok b" and "start + n \<le> total_frames b"
  shows "\<exists>b'. set_used_range b start n = Some b' \<and> bitmap_ok b' \<and>
           free_bit b' = (\<lambda>i. free_bit b i \<and> \<not> (start \<le> i \<and> i < start + n)) \<and>
           total_frames b' = total_frames b \<and> max_addr b' = max_addr b"
  using assms
proof (induction n arbitrary: b start)
  case 0
  then show ?case by (auto simp: fun_eq_iff)
next
  case (Suc n)
  then obtain b1 where b1: "set_used b start = Some b1" "bitmap_ok b1"
    "free_bit b1 = (free_bit b)(start := False)" "total_frames b1 = total_frames b"
    "max_addr b1 = max_addr b"
    using set_used_spec [of b start] by auto
  with Suc.IH [of b1 "Suc start"] Suc.prems show ?case by (fastforce simp: fun_eq_iff)
qed

definition no_run :: "bitmap_pmm \<Rightarrow> nat \<Rightarrow> nat \<Rightarrow> bool" where
  "no_run b need n \<longleftrightarrow> (\<forall>st. st + need \<le> n \<longrightarrow> (\<exists>j. st \<le> j \<and> j < st + need \<and> \<not> free_bit b j))"

lemma no_run_used: "no_run b need i \<Longrightarrow> 0 < need \<Longrightarrow> \<not> free_bit b i \<Longrightarrow> no_run b need (Suc i)"
  unfolding no_run_def by (metis add_diff_cancel_left' le_SucE le_add1 less_add_same_cancel1
      add_leE lessI linorder_not_less not_less_eq_eq)

lemma no_run_free:
  assumes "no_run b need i" and "c + 1 < need" and "c \<le> i" and "c < i \<Longrightarrow> \<not> free_bit b (i - c - 1)"
  shows "no_run b need (Suc i)"
  unfolding no_run_def
proof (intro allI impI)
  fix st assume st: "st + need \<le> Suc i"
  show "\<exists>j. st \<le> j \<and> j < st + need \<and> \<not> free_bit b j"
  proof (cases "st + need \<le> i")
    case True
    then show ?thesis using assms(1) by (simp add: no_run_def)
  next
    case False
    then have "st + need = Suc i" using st by simp
    then have "st \<le> i - c - 1" "i - c - 1 < st + need" "c < i" using assms(2,3) by linarith+
    then show ?thesis using assms(4) by blast
  qed
qed

lemma alloc_scan_spec:
  assumes "bitmap_ok b" and "0 < need" and "c < need" and "c \<le> i" and "i \<le> total_frames b"
    and "0 < c \<Longrightarrow> start + c = i" and "\<And>j. i - c \<le> j \<Longrightarrow> j < i \<Longrightarrow> free_bit b j"
    and "c < i \<Longrightarrow> \<not> free_bit b (i - c - 1)" and "no_run b need i"
  shows "(\<exists>st b'. alloc_scan b need i c start = Some (Some st, b') \<and> st + need \<le> total_frames b \<and>
            (\<forall>j. st \<le> j \<and> j < st + need \<longrightarrow> free_bit b j) \<and> bitmap_ok b' \<and>
            free_bit b' = (\<lambda>i. free_bit b i \<and> \<not> (st \<le> i \<and> i < st + need)) \<and>
            total_frames b' = total_frames b \<and> max_addr b' = max_addr b) \<or>
         alloc_scan b need i c start = Some (None, b) \<and> no_run b need (total_frames b)"
  using assms
proof (induction "total_frames b - i" arbitrary: i c start)
  case 0
  then show ?case by (auto simp: alloc_scan.simps [of b need i])
next
  case (Suc n)
  then have i: "i < total_frames b" by simp
  note fr = is_free_eq [OF Suc.prems(1) i]
  have n: "n = total_frames b - Suc i" using Suc.hyps(2) by simp
  show ?case
  proof (cases "free_bit b i")
    case False
    with fr i have "alloc_scan b need i c start = alloc_scan b need (Suc i) 0 start"
      by (simp add: alloc_scan.simps [of b need i])
    moreover have "no_run b need (Suc i)" using Suc.prems False by (simp add: no_run_used)
    ultimately show ?thesis using Suc.hyps(1) [OF n, of 0 start] Suc.prems False i by simp
  next
    case free: True
    define st where "st = (if c = 0 then i else start)"
    have stc: "st + Suc c = Suc i" using Suc.prems(6) by (cases c) (auto simp: st_def)
    have run: "free_bit b j" if "st \<le> j" "j < Suc i" for j
      using that free Suc.prems(7) [of j] stc Suc.prems(4) by (cases "j = i") auto
    show ?thesis
    proof (cases "Suc c = need")
      case True
      obtain b' where b': "set_used_range b st need = Some b'" "bitmap_ok b'"
        "free_bit b' = (\<lambda>i. free_bit b i \<and> \<not> (st \<le> i \<and> i < st + need))"
        "total_frames b' = total_frames b" "max_addr b' = max_addr b"
        using set_used_range_spec [OF Suc.prems(1), of st need] True stc i by auto
      moreover have "alloc_scan b need i c start = Some (Some st, b')"
        using fr i free True b'(1) by (simp add: alloc_scan.simps [of b need i] st_def Let_def)
      ultimately show ?thesis using run True stc i by auto
    next
      case False
      with fr i free have "alloc_scan b need i c start = alloc_scan b need (Suc i) (Suc c) st"
        by (simp add: alloc_scan.simps [of b need i] st_def Let_def)
      moreover have "no_run b need (Suc i)"
        using no_run_free [OF Suc.prems(9) _ Suc.prems(4,8)] False Suc.prems(3) by simp
      ultimately show ?thesis
        using Suc.hyps(1) [OF n, of "Suc c" st] Suc.prems False i stc run by auto
    qed
  qed
qed

text \<open>
  The boot allocator. A request is answered with the start of a run of as many free frames
  as the size needs; exactly those frames become used. It fails only when the bitmap has no
  such run, and then leaves the bitmap alone.
\<close>

theorem bitmap_alloc_correct:
  assumes "bitmap_ok b" and "0 < sz"
  shows "(\<exists>st b'. bitmap_alloc b sz = Some (Some st, b') \<and> st + div_ceil sz PAGE_SIZE \<le> total_frames b \<and>
            (\<forall>j. st \<le> j \<and> j < st + div_ceil sz PAGE_SIZE \<longrightarrow> free_bit b j) \<and> bitmap_ok b' \<and>
            free_bit b' = (\<lambda>i. free_bit b i \<and> \<not> (st \<le> i \<and> i < st + div_ceil sz PAGE_SIZE)) \<and>
            total_frames b' = total_frames b) \<or>
         bitmap_alloc b sz = Some (None, b) \<and>
         (\<forall>st. st + div_ceil sz PAGE_SIZE \<le> total_frames b \<longrightarrow>
            (\<exists>j. st \<le> j \<and> j < st + div_ceil sz PAGE_SIZE \<and> \<not> free_bit b j))"
proof -
  have "0 < div_ceil sz PAGE_SIZE" using assms(2) by (simp add: less_div_ceil_iff PAGE_SIZE_def)
  then show ?thesis
    using alloc_scan_spec [OF assms(1), of "div_ceil sz PAGE_SIZE" 0 0 0]
    unfolding bitmap_alloc_def no_run_def by auto
qed

definition bitmap_sample :: bitmap_pmm where
  "bitmap_sample = \<lparr>bitmap = [249], total_frames = 4, max_addr = 16384\<rparr>"

theorem bitmap_alloc_correct_witness:
  "bitmap_ok bitmap_sample \<and> (\<exists>st b'. bitmap_alloc bitmap_sample 5000 = Some (Some st, b') \<and> st + 2 \<le> 4)"
proof -
  have ok: "bitmap_ok bitmap_sample" by (simp add: bitmap_ok_def bitmap_sample_def div_ceil_def)
  have "bitmap_alloc bitmap_sample 5000 \<noteq> Some (None, bitmap_sample)"
    by (simp add: bitmap_alloc_def bitmap_sample_def div_ceil_def PAGE_SIZE_def alloc_scan.simps is_free_def
        idx_def Let_def set_used_def upd_def numeral_2_eq_2 cong: bind_weak)
  then show ?thesis
    using bitmap_alloc_correct [OF ok, of 5000] ok by (auto simp: bitmap_sample_def div_ceil_def PAGE_SIZE_def)
qed

section \<open>Filling the bitmap from the memory map\<close>

definition in_place :: "nat \<Rightarrow> nat \<Rightarrow> nat \<Rightarrow> bool" where
  "in_place place len frame \<longleftrightarrow> place \<le> frame * PAGE_SIZE \<and> frame * PAGE_SIZE < place + len"

lemma free_range_spec:
  assumes "bitmap_ok b" and "frame + n \<le> total_frames b \<or> n = 0"
  shows "\<exists>b'. free_range place len b frame n = Some b' \<and> bitmap_ok b' \<and>
           free_bit b' = (\<lambda>i. free_bit b i \<or> frame \<le> i \<and> i < frame + n \<and> \<not> in_place place len i) \<and>
           total_frames b' = total_frames b \<and> max_addr b' = max_addr b"
  using assms
proof (induction n arbitrary: b frame)
  case 0
  then show ?case by auto
next
  case (Suc n)
  show ?case
  proof (cases "in_place place len frame")
    case True
    have eq: "(frame \<le> i \<and> i < frame + Suc n \<and> \<not> in_place place len i) =
        (Suc frame \<le> i \<and> i < Suc frame + n \<and> \<not> in_place place len i)" for i
      using True by (metis Suc_leD add_Suc add_Suc_right le_neq_implies_less not_less_eq_eq Suc_leI)
    show ?thesis
      using Suc.IH [of b "Suc frame"] Suc.prems True unfolding eq by (simp add: in_place_def)
  next
    case False
    obtain b1 where b1: "set_free b frame = Some b1" "bitmap_ok b1"
      "free_bit b1 = (free_bit b)(frame := True)" "total_frames b1 = total_frames b" "max_addr b1 = max_addr b"
      using set_free_spec [of b frame] Suc.prems by auto
    have eq: "(\<lambda>i. free_bit b1 i \<or> Suc frame \<le> i \<and> i < Suc frame + n \<and> \<not> in_place place len i) =
        (\<lambda>i. free_bit b i \<or> frame \<le> i \<and> i < frame + Suc n \<and> \<not> in_place place len i)"
      using False by (auto simp: b1(3) fun_eq_iff)
    have "free_range place len b frame (Suc n) = free_range place len b1 (Suc frame) n"
      using False b1(1) by (auto simp: in_place_def)
    then show ?thesis using Suc.IH [of b1 "Suc frame"] Suc.prems b1 unfolding eq by simp
  qed
qed

definition usable_frame :: "memmap_entry \<Rightarrow> nat \<Rightarrow> bool" where
  "usable_frame e i \<longleftrightarrow> mm_type e = MEMMAP_USABLE \<and> mm_base e div PAGE_SIZE \<le> i \<and>
     i < (mm_base e + mm_length e) div PAGE_SIZE"

lemma free_entries_spec:
  assumes "bitmap_ok b"
    and "\<forall>e \<in> set es. mm_type e = MEMMAP_USABLE \<longrightarrow> (mm_base e + mm_length e) div PAGE_SIZE \<le> total_frames b"
  shows "\<exists>b'. free_entries place len es b = Some b' \<and> bitmap_ok b' \<and>
           free_bit b' = (\<lambda>i. free_bit b i \<or> (\<exists>e \<in> set es. usable_frame e i) \<and> \<not> in_place place len i) \<and>
           total_frames b' = total_frames b \<and> max_addr b' = max_addr b"
  using assms
proof (induction es arbitrary: b)
  case Nil
  then show ?case by simp
next
  case (Cons e es)
  show ?case
  proof (cases "mm_type e = MEMMAP_USABLE")
    case False
    then show ?thesis using Cons.IH [of b] Cons.prems by (simp add: usable_frame_def)
  next
    case True
    let ?st = "mm_base e div PAGE_SIZE" and ?en = "(mm_base e + mm_length e) div PAGE_SIZE"
    have le: "?st \<le> ?en" by (simp add: div_le_mono)
    have "?st + (?en - ?st) \<le> total_frames b" using Cons.prems(2) True le by simp
    then obtain b1 where b1: "free_range place len b ?st (?en - ?st) = Some b1" "bitmap_ok b1"
      "free_bit b1 = (\<lambda>i. free_bit b i \<or> ?st \<le> i \<and> i < ?st + (?en - ?st) \<and> \<not> in_place place len i)"
      "total_frames b1 = total_frames b" "max_addr b1 = max_addr b"
      using free_range_spec [OF Cons.prems(1)] by blast
    have eq: "(\<lambda>i. free_bit b1 i \<or> (\<exists>e \<in> set es. usable_frame e i) \<and> \<not> in_place place len i) =
        (\<lambda>i. free_bit b i \<or> (\<exists>e \<in> set (e # es). usable_frame e i) \<and> \<not> in_place place len i)"
      using True le by (auto simp: b1(3) fun_eq_iff usable_frame_def)
    show ?thesis
      using Cons.IH [of b1] Cons.prems True b1 unfolding eq by (simp add: Let_def)
  qed
qed

definition counted :: "memmap_entry \<Rightarrow> bool" where
  "counted e \<longleftrightarrow> mm_type e = MEMMAP_USABLE \<or> mm_type e = MEMMAP_BOOTLOADER_RECLAIMABLE
     \<or> mm_type e = MEMMAP_EXECUTABLE_AND_MODULES"

lemma fold_highest:
  "h \<le> fold (\<lambda>e h. if counted e then if h < mm_base e + mm_length e then mm_base e + mm_length e else h else h) es h \<and>
   (\<forall>e \<in> set es. counted e \<longrightarrow> mm_base e + mm_length e \<le>
      fold (\<lambda>e h. if counted e then if h < mm_base e + mm_length e then mm_base e + mm_length e else h else h) es h)"
proof (induction es arbitrary: h)
  case (Cons e es)
  define h' where "h' = (if counted e then if h < mm_base e + mm_length e then mm_base e + mm_length e else h else h)"
  have "h \<le> h'" "counted e \<longrightarrow> mm_base e + mm_length e \<le> h'" by (auto simp: h'_def)
  with Cons [of h'] show ?case by (auto simp: h'_def [symmetric] intro: order_trans)
qed simp

lemma highest_addr_bound: "e \<in> set mm \<Longrightarrow> mm_type e = MEMMAP_USABLE \<Longrightarrow> mm_base e + mm_length e \<le> highest_addr mm"
  using fold_highest [of 0 mm] unfolding highest_addr_def counted_def by auto

definition boot_frames :: "memmap_entry list \<Rightarrow> nat" where
  "boot_frames mm = (highest_addr mm + 4095) div 4096"

definition boot_free :: "memmap_entry list \<Rightarrow> nat \<Rightarrow> bool" where
  "boot_free mm i \<longleftrightarrow> (\<exists>e \<in> set mm. usable_frame e i) \<and>
     \<not> in_place (bitmap_place mm (div_ceil (boot_frames mm) 8)) (div_ceil (boot_frames mm) 8) i"

lemma bitmap_init_spec:
  assumes "bitmap_place mm (div_ceil (boot_frames mm) 8) \<noteq> 0"
  shows "\<exists>b. bitmap_init mm = Some b \<and> bitmap_ok b \<and> total_frames b = boot_frames mm \<and>
           max_addr b div NORMAL_PAGE_SIZE = boot_frames mm \<and>
           (\<forall>i < total_frames b. free_bit b i \<longleftrightarrow> boot_free mm i)"
proof -
  let ?n = "boot_frames mm"
  let ?b0 = "\<lparr>bitmap = replicate (div_ceil ?n 8) 255, total_frames = ?n, max_addr = ?n * 4096\<rparr> :: bitmap_pmm"
  have ok: "bitmap_ok ?b0" by (simp add: bitmap_ok_def)
  have used: "\<not> free_bit ?b0 i" if "i < ?n" for i
  proof -
    have "i div 8 < div_ceil ?n 8" using byte_in_range [OF ok, of i] that by simp
    moreover have "bit (255 :: u8) k" if "k < 8" for k
    proof -
      have "(255 :: u8) = mask 8" by (simp add: mask_eq_exp_minus_1)
      then show ?thesis using that by (simp only: bit_mask_iff) simp
    qed
    ultimately show ?thesis by (simp add: free_bit_def)
  qed
  have "(mm_base e + mm_length e) div PAGE_SIZE \<le> ?n" if "e \<in> set mm" "mm_type e = MEMMAP_USABLE" for e
    using highest_addr_bound [OF that] by (simp add: boot_frames_def PAGE_SIZE_def div_le_mono)
  then obtain b where b: "free_entries (bitmap_place mm (div_ceil ?n 8)) (div_ceil ?n 8) mm ?b0 = Some b"
    "bitmap_ok b" "total_frames b = ?n" "max_addr b = ?n * 4096"
    "free_bit b = (\<lambda>i. free_bit ?b0 i \<or> boot_free mm i)"
    using free_entries_spec [OF ok, of mm "bitmap_place mm (div_ceil ?n 8)" "div_ceil ?n 8"]
    unfolding boot_free_def by auto
  moreover have "bitmap_init mm = Some b"
    using assms b(1) by (simp add: bitmap_init_def Let_def boot_frames_def PAGE_SIZE_def)
  ultimately show ?thesis using used by (auto simp: NORMAL_PAGE_SIZE_def)
qed

section \<open>The carving loop\<close>

lemma fit_order_spec: "0 < avail \<Longrightarrow> fit_order m avail \<le> m \<and> 2 ^ fit_order m avail \<le> avail"
  by (induction m) (auto simp: not_less)

lemma trailing_zeros_below: "j < trailing_zeros w p \<Longrightarrow> \<not> p j"
proof (cases "\<exists>k < w. p k")
  case True
  then show "j < trailing_zeros w p \<Longrightarrow> \<not> p j" using trailing_zeros_bit(3) by blast
next
  case False
  then have "trailing_zeros w p = w" by (simp add: trailing_zeros_def tz_from_none)
  then show "j < trailing_zeros w p \<Longrightarrow> \<not> p j" using False by auto
qed

lemma max_order_dvd: "ord \<le> max_order_at n \<Longrightarrow> 2 ^ ord dvd n" and max_order_le: "max_order_at n \<le> ORDER_MAX"
proof -
  assume "ord \<le> max_order_at n"
  then have "ord \<le> trailing_zeros 64 (bit n)" by (simp add: max_order_at_def Let_def split: if_splits)
  then have "take_bit ord n = 0"
    by (intro bit_eqI) (use less_le_trans trailing_zeros_below in \<open>fastforce simp: bit_take_bit_iff\<close>)
  then show "2 ^ ord dvd n" by (simp add: take_bit_eq_0_iff)
next
  show "max_order_at n \<le> ORDER_MAX" by (simp add: max_order_at_def Let_def)
qed

definition in_use :: "pmm \<Rightarrow> nat \<Rightarrow> bool" where
  "in_use s p \<longleftrightarrow> p \<notin> free_frames s \<and> flags (pfndb s ! p) AND PF_FREE = 0"

lemma carve_run_spec:
  assumes "pmm_wf s" and "db_covers s" and "0 < st" and "st < en" and "en \<le> length (pfndb s)"
    and "\<And>p. st \<le> p \<Longrightarrow> p < en \<Longrightarrow> in_use s p"
  shows "\<exists>s'. carve_run s st en = Some s' \<and> pmm_wf s' \<and> free_frames s' = free_frames s \<union> {st ..< en} \<and>
           length (pfndb s') = length (pfndb s) \<and>
           (\<forall>p. p \<notin> free_frames s' \<longrightarrow> pfndb s' ! p = pfndb s ! p)"
  using assms
proof (induction "en - st" arbitrary: s st rule: less_induct)
  case less
  define ord where "ord = fit_order (max_order_at st) (en - st)"
  have ord: "ord \<le> max_order_at st" "st + 2 ^ ord \<le> en"
    using fit_order_spec [of "en - st" "max_order_at st"] less.prems(4) by (auto simp: ord_def)
  define a where "a = st * NORMAL_PAGE_SIZE"
  have pfn: "a div NORMAL_PAGE_SIZE = st" by (simp add: a_def NORMAL_PAGE_SIZE_def)
  have fr: "frames a ord = {st ..< st + 2 ^ ord}" by (simp add: frames_def pfn)
  have "2 ^ ord dvd st" using ord(1) by (rule max_order_dvd)
  then have ok: "block_ok s a ord"
    using ord(2) less.prems(5) by (simp add: block_ok_def aligned_def pfn a_def mult.commute)
  have ordm: "ord \<le> ORDER_MAX" using ord(1) max_order_le order_trans by blast
  have anz: "a \<noteq> 0" using less.prems(3) by (simp add: a_def NORMAL_PAGE_SIZE_def)
  have dis: "frames a ord \<inter> free_frames s = {}"
    using less.prems(6) ord(2) unfolding fr in_use_def by auto
  have used: "flags (pfndb s ! (a div NORMAL_PAGE_SIZE)) AND PF_FREE = 0"
    using less.prems(4,6) by (simp add: pfn in_use_def)
  obtain s1 where s1: "free_order s a ord = Some s1" "pmm_wf s1"
    "free_frames s1 = free_frames s \<union> frames a ord" "length (pfndb s1) = length (pfndb s)"
    "\<And>p. p \<notin> free_frames s1 \<Longrightarrow> pfndb s1 ! p = pfndb s ! p"
    using free_order_wf [OF less.prems(1,2) ordm anz ok dis used] by blast
  have run: "carve_run s st en = (if en \<le> st + 2 ^ ord then Some s1 else carve_run s1 (st + 2 ^ ord) en)"
    using s1(1) by (simp add: carve_run.simps [of s st en] Let_def ord_def [symmetric] a_def)
  show ?case
  proof (cases "en \<le> st + 2 ^ ord")
    case True
    then have "en = st + 2 ^ ord" using ord(2) by simp
    then show ?thesis using run s1 fr by auto
  next
    case False
    have "in_use s1 p" if "st + 2 ^ ord \<le> p" "p < en" for p
    proof -
      have "in_use s p" using that less.prems(6) by simp
      moreover have "p \<notin> frames a ord" using that fr by simp
      ultimately show ?thesis using s1(3) s1(5) [of p] by (simp add: in_use_def)
    qed
    moreover have "db_covers s1" using less.prems(2) s1(4) by (simp add: db_covers_def)
    moreover have "en - (st + 2 ^ ord) < en - st" using less.prems(4) by (auto intro!: diff_less_mono2)
    ultimately obtain s' where s': "carve_run s1 (st + 2 ^ ord) en = Some s'" "pmm_wf s'"
      "free_frames s' = free_frames s1 \<union> {st + 2 ^ ord ..< en}" "length (pfndb s') = length (pfndb s1)"
      "\<forall>p. p \<notin> free_frames s' \<longrightarrow> pfndb s' ! p = pfndb s1 ! p"
      using less.hyps [of "st + 2 ^ ord" s1] less.prems s1(2,4) False by auto
    moreover have "free_frames s' = free_frames s \<union> {st ..< en}"
      unfolding s'(3) s1(3) fr using ord(2) by auto
    ultimately show ?thesis using run False s1(4,5) s'(3) by auto
  qed
qed

lemma skip_used_spec:
  assumes "bitmap_ok b" and "c \<le> total_frames b"
  shows "\<exists>c'. skip_used b c = Some c' \<and> c \<le> c' \<and> c' \<le> total_frames b \<and>
           (\<forall>i. c \<le> i \<and> i < c' \<longrightarrow> \<not> free_bit b i) \<and> (c' < total_frames b \<longrightarrow> free_bit b c')"
  using assms
proof (induction "total_frames b - c" arbitrary: c)
  case 0
  then show ?case by (auto simp: skip_used.simps [of b c])
next
  case (Suc n)
  then have c: "c < total_frames b" and n: "n = total_frames b - Suc c" by simp_all
  note fr = is_free_eq [OF Suc.prems(1) c]
  show ?case
  proof (cases "free_bit b c")
    case True
    with fr c show ?thesis by (auto simp: skip_used.simps [of b c])
  next
    case False
    with fr c have "skip_used b c = skip_used b (Suc c)" by (simp add: skip_used.simps [of b c])
    with Suc.hyps(1) [OF n] Suc.prems c False show ?thesis
      by (metis (no_types, lifting) Suc_leD Suc_leI le_neq_implies_less)
  qed
qed

lemma skip_free_spec:
  assumes "bitmap_ok b" and "c \<le> total_frames b"
  shows "\<exists>c'. skip_free b c = Some c' \<and> c \<le> c' \<and> c' \<le> total_frames b \<and>
           (\<forall>i. c \<le> i \<and> i < c' \<longrightarrow> free_bit b i) \<and> (c' < total_frames b \<longrightarrow> \<not> free_bit b c')"
  using assms
proof (induction "total_frames b - c" arbitrary: c)
  case 0
  then show ?case by (auto simp: skip_free.simps [of b c])
next
  case (Suc n)
  then have c: "c < total_frames b" and n: "n = total_frames b - Suc c" by simp_all
  note fr = is_free_eq [OF Suc.prems(1) c]
  show ?case
  proof (cases "\<not> free_bit b c")
    case True
    with fr c show ?thesis by (auto simp: skip_free.simps [of b c])
  next
    case False
    with fr c have "skip_free b c = skip_free b (Suc c)" by (simp add: skip_free.simps [of b c])
    with Suc.hyps(1) [OF n] Suc.prems c False show ?thesis
      by (metis (no_types, lifting) Suc_leD Suc_leI le_neq_implies_less)
  qed
qed

lemma carve_spec:
  assumes "pmm_wf s" and "db_covers s" and "bitmap_ok b" and "length (pfndb s) = total_frames b"
    and "\<not> free_bit b 0" and "c \<le> total_frames b"
    and "\<And>p. c \<le> p \<Longrightarrow> p < total_frames b \<Longrightarrow> in_use s p"
  shows "\<exists>s'. carve s b c = Some s' \<and> pmm_wf s' \<and> length (pfndb s') = length (pfndb s) \<and>
           free_frames s' = free_frames s \<union> {i. c \<le> i \<and> i < total_frames b \<and> free_bit b i}"
  using assms
proof (induction "total_frames b - c" arbitrary: s c rule: less_induct)
  case less
  obtain c1 where c1: "skip_used b c = Some c1" "c \<le> c1" "c1 \<le> total_frames b"
    "\<And>i. c \<le> i \<Longrightarrow> i < c1 \<Longrightarrow> \<not> free_bit b i" "c1 < total_frames b \<Longrightarrow> free_bit b c1"
    using skip_used_spec [OF less.prems(3,6)] by blast
  show ?case
  proof (cases "c1 < total_frames b")
    case False
    then have "carve s b c = Some s" using c1(1,3) by (simp add: carve.simps [of s b c])
    moreover have "\<not> free_bit b i" if "c \<le> i" "i < total_frames b" for i
      using that False c1(3,4) by simp
    ultimately show ?thesis using less.prems(1) by auto
  next
    case True
    obtain c2 where c2: "skip_free b c1 = Some c2" "c1 \<le> c2" "c2 \<le> total_frames b"
      "\<And>i. c1 \<le> i \<Longrightarrow> i < c2 \<Longrightarrow> free_bit b i" "c2 < total_frames b \<Longrightarrow> \<not> free_bit b c2"
      using skip_free_spec [OF less.prems(3) c1(3)] by blast
    have lt: "c1 < c2" using c2 c1(5) True by (metis le_neq_implies_less)
    have nz: "0 < c1" using c1(5) [OF True] less.prems(5) by (cases c1) auto
    obtain s1 where s1: "carve_run s c1 c2 = Some s1" "pmm_wf s1"
      "free_frames s1 = free_frames s \<union> {c1 ..< c2}" "length (pfndb s1) = length (pfndb s)"
      "\<And>p. p \<notin> free_frames s1 \<Longrightarrow> pfndb s1 ! p = pfndb s ! p"
      using carve_run_spec [OF less.prems(1,2) nz lt] c2(3) less.prems(4,7) c1(2) by force
    have run: "carve s b c = carve s1 b c2"
      using c1(1,2) True c2(1) s1(1) by (simp add: carve.simps [of s b c])
    have "in_use s1 p" if "c2 \<le> p" "p < total_frames b" for p
      using that less.prems(7) [of p] s1(3) s1(5) [of p] c1(2) c2(2) by (auto simp: in_use_def)
    moreover have "db_covers s1" using less.prems(2) s1(4) by (simp add: db_covers_def)
    moreover have "total_frames b - c2 < total_frames b - c" "length (pfndb s1) = total_frames b"
      using c1(2) lt c2(3) less.prems(4) s1(4) by simp_all
    ultimately obtain s' where s': "carve s1 b c2 = Some s'" "pmm_wf s'"
      "length (pfndb s') = length (pfndb s1)"
      "free_frames s' = free_frames s1 \<union> {i. c2 \<le> i \<and> i < total_frames b \<and> free_bit b i}"
      using less.hyps [OF _ s1(2) _ less.prems(3) _ less.prems(5) c2(3)] by blast
    have split: "(c \<le> i \<and> i < total_frames b \<and> free_bit b i) \<longleftrightarrow>
        (c1 \<le> i \<and> i < c2 \<or> c2 \<le> i \<and> i < total_frames b \<and> free_bit b i)" for i
      using c1(2,4) c2(2-4) by (metis dual_order.strict_trans1 le_trans linorder_not_less)
    have "free_frames s' = free_frames s \<union> {i. c \<le> i \<and> i < total_frames b \<and> free_bit b i}"
      unfolding s'(4) s1(3) split by auto
    then show ?thesis using run s' s1(4) by simp
  qed
qed

text \<open>No step of the carving moves the database.\<close>

lemma merge_block_phys: "merge_block s a b ord = Some (x, s') \<Longrightarrow> pfndb_phys_addr s' = pfndb_phys_addr s"
  by (auto simp: merge_block_def Let_def set_head_def set_prev_def set_next_def split: if_splits bind_splits)

lemma coalesce_phys: "coalesce s a ord = Some (x, y, s') \<Longrightarrow> pfndb_phys_addr s' = pfndb_phys_addr s"
proof (induction "ORDER_MAX - ord" arbitrary: s a ord)
  case 0
  then show ?case by (simp add: coalesce.simps [of s a ord])
next
  case (Suc n)
  have IH: "coalesce s1 a1 (Suc ord) = Some (x, y, s') \<Longrightarrow> pfndb_phys_addr s' = pfndb_phys_addr s1"
    for s1 a1 using Suc.hyps(1) [of "Suc ord" s1 a1] Suc.hyps(2) by simp
  from Suc.prems show ?case
    by (subst (asm) coalesce.simps)
      (auto simp: Let_def upd_frame_def split: if_splits bind_splits dest!: IH merge_block_phys)
qed

lemma free_order_phys: "free_order s a ord = Some s' \<Longrightarrow> pfndb_phys_addr s' = pfndb_phys_addr s"
  by (auto simp: free_order_def push_block_def upd_frame_def set_head_def set_header_def set_prev_def Let_def
      split: if_splits bind_splits dest!: coalesce_phys)

lemma carve_run_phys: "carve_run s st en = Some s' \<Longrightarrow> pfndb_phys_addr s' = pfndb_phys_addr s"
proof (induction s st en rule: carve_run.induct)
  case (1 s st en)
  let ?ord = "fit_order (max_order_at st) (en - st)"
  obtain s1 where s1: "free_order s (st * NORMAL_PAGE_SIZE) ?ord = Some s1"
    and cont: "en \<le> st + 2 ^ ?ord \<and> s' = s1 \<or> \<not> en \<le> st + 2 ^ ?ord \<and> carve_run s1 (st + 2 ^ ?ord) en = Some s'"
    using "1.prems" by (subst (asm) carve_run.simps) (auto simp: Let_def split: if_splits bind_splits)
  then have "pfndb_phys_addr s' = pfndb_phys_addr s1" using "1.IH" [OF refl s1] by blast
  then show ?case using free_order_phys [OF s1] by simp
qed

lemma carve_phys: "carve s b c = Some s' \<Longrightarrow> pfndb_phys_addr s' = pfndb_phys_addr s"
proof (induction s b c rule: carve.induct)
  case (1 s b c)
  consider "s' = s" | c1 c2 s1 where "c < total_frames b" "skip_used b c = Some c1" "\<not> total_frames b \<le> c1"
      "skip_free b c1 = Some c2" "carve_run s c1 c2 = Some s1" "carve s1 b c2 = Some s'"
    using "1.prems" by (subst (asm) carve.simps) (auto split: if_splits bind_splits)
  then show ?case
  proof cases
    case 2
    then show ?thesis using "1.IH" carve_run_phys [of s c1 c2 s1] by simp
  qed simp
qed


definition sample_map :: "memmap_entry list" where
  "sample_map = [\<lparr>mm_base = 4096, mm_length = 8384512, mm_type = MEMMAP_USABLE\<rparr>]"


end
