(* ===== verification/Magazine.thy ===== *)
theory Magazine
  imports Pmm_Init
begin

text \<open>
  The per-core page cache of \<^verbatim>\<open>kernel/src/memory/magazine.rs\<close> in front of the buddy
  allocator, the allocator front end \<^verbatim>\<open>PCAllocator\<close> of \<^verbatim>\<open>memory/mod.rs\<close> and the
  page provider of the kernel heap (\<^verbatim>\<open>memory/heap.rs\<close>). What a magazine needs from the
  allocator behind it is the locale \<open>frame_source\<close>; its lemmas are proved there once and
  reach the buddy allocator through the interpretation \<open>pmm_frames\<close>. The lock around the
  global allocator and the interrupt flag are held for the whole of each operation here,
  so an operation is one step.
\<close>

section \<open>The magazine\<close>

definition MAG_CAPACITY :: nat where
  "MAG_CAPACITY = 256"

record magazine =
  pages :: "nat list"
  mag_count :: nat

definition magazine_init :: magazine where
  "magazine_init = \<lparr>pages = replicate MAG_CAPACITY 0, mag_count = 0\<rparr>"

fun mag_refill ::
  "('s \<Rightarrow> (nat option \<times> 's) run) \<Rightarrow> nat \<Rightarrow> magazine \<Rightarrow> 's \<Rightarrow> (magazine \<times> 's) run" where
  "mag_refill src_alloc 0 m s = ret (m, s)"
| "mag_refill src_alloc (Suc n) m s =
    do { (block, s') \<leftarrow> src_alloc s;
         case block of
           None \<Rightarrow> panic
         | Some a \<Rightarrow>
             do { pgs \<leftarrow> upd (pages m) (mag_count m) a;
                  mag_refill src_alloc n (m\<lparr>pages := pgs, mag_count := mag_count m + 1\<rparr>) s' } }"

definition mag_alloc ::
  "('s \<Rightarrow> (nat option \<times> 's) run) \<Rightarrow> magazine \<Rightarrow> 's \<Rightarrow> (nat \<times> magazine \<times> 's) run" where
  "mag_alloc src_alloc m s =
    (if 0 < mag_count m
     then do { r \<leftarrow> idx (pages m) (mag_count m - 1);
               pgs \<leftarrow> upd (pages m) (mag_count m - 1) 0;
               ret (r, m\<lparr>pages := pgs, mag_count := mag_count m - 1\<rparr>, s) }
     else do { (m', s') \<leftarrow> mag_refill src_alloc (MAG_CAPACITY div 2 - 1) m s;
               (block, s'') \<leftarrow> src_alloc s';
               case block of None \<Rightarrow> panic | Some r \<Rightarrow> ret (r, m', s'') })"

fun mag_flush ::
  "('s \<Rightarrow> nat \<Rightarrow> 's run) \<Rightarrow> nat \<Rightarrow> magazine \<Rightarrow> 's \<Rightarrow> (magazine \<times> 's) run" where
  "mag_flush src_free 0 m s = ret (m, s)"
| "mag_flush src_free (Suc n) m s =
    (let c = mag_count m - 1
     in do { a \<leftarrow> idx (pages m) c;
             s' \<leftarrow> src_free s a;
             mag_flush src_free n (m\<lparr>mag_count := c\<rparr>) s' })"

definition mag_store :: "magazine \<Rightarrow> nat \<Rightarrow> magazine run" where
  "mag_store m addr =
    do { pgs \<leftarrow> upd (pages m) (mag_count m) addr;
         ret (m\<lparr>pages := pgs, mag_count := mag_count m + 1\<rparr>) }"

definition mag_free ::
  "('s \<Rightarrow> nat \<Rightarrow> 's run) \<Rightarrow> magazine \<Rightarrow> nat \<Rightarrow> 's \<Rightarrow> (magazine \<times> 's) run" where
  "mag_free src_free m addr s =
    (if mag_count m < MAG_CAPACITY
     then do { m' \<leftarrow> mag_store m addr; ret (m', s) }
     else do { (m', s') \<leftarrow> mag_flush src_free (MAG_CAPACITY div 2) m s;
               m'' \<leftarrow> mag_store m' addr;
               ret (m'', s') })"

section \<open>The contract of a frame source\<close>

definition held :: "magazine \<Rightarrow> nat set" where
  "held m = set (take (mag_count m) (pages m))"

definition mag_wf :: "magazine \<Rightarrow> bool" where
  "mag_wf m \<longleftrightarrow> length (pages m) = MAG_CAPACITY \<and> mag_count m \<le> MAG_CAPACITY \<and>
     distinct (take (mag_count m) (pages m))"

lemma held_store:
  assumes "mag_wf m" and "mag_count m < MAG_CAPACITY" and "a \<notin> held m"
  obtains m' where "mag_store m a = Some m'" "mag_wf m'" "held m' = insert a (held m)"
    "mag_count m' = mag_count m + 1"
proof -
  let ?m = "m\<lparr>pages := (pages m)[mag_count m := a], mag_count := mag_count m + 1\<rparr>"
  have c: "mag_count m < length (pages m)" using assms by (simp add: mag_wf_def)
  have t: "take (mag_count m + 1) ((pages m)[mag_count m := a]) = take (mag_count m) (pages m) @ [a]"
    using c by (simp add: take_Suc_conv_app_nth)
  show ?thesis
    by (rule that [of ?m]) (use assms c t in \<open>auto simp: mag_store_def upd_in_range mag_wf_def held_def\<close>)
qed

lemma held_pop:
  assumes "mag_wf m" and "0 < mag_count m"
  defines "c \<equiv> mag_count m - 1"
  shows "c < length (pages m)" and "pages m ! c \<in> held m"
    and "mag_wf (m\<lparr>mag_count := c\<rparr>)" and "held (m\<lparr>mag_count := c\<rparr>) = held m - {pages m ! c}"
    and "mag_wf (m\<lparr>pages := (pages m)[c := v], mag_count := c\<rparr>)"
    and "held (m\<lparr>pages := (pages m)[c := v], mag_count := c\<rparr>) = held m - {pages m ! c}"
proof -
  show c: "c < length (pages m)" using assms(1,2) unfolding mag_wf_def c_def by linarith
  have t: "take (mag_count m) (pages m) = take c (pages m) @ [pages m ! c]"
    using assms(2) c take_Suc_conv_app_nth [of c "pages m"] by (simp add: c_def)
  have t': "take c ((pages m)[c := v]) = take c (pages m)" by simp
  show "pages m ! c \<in> held m" by (simp add: held_def t)
  have d: "distinct (take c (pages m) @ [pages m ! c])" using assms(1) by (simp add: mag_wf_def t)
  then have *: "set (take c (pages m)) = held m - {pages m ! c}" by (auto simp: held_def t)
  show "mag_wf (m\<lparr>mag_count := c\<rparr>)" "mag_wf (m\<lparr>pages := (pages m)[c := v], mag_count := c\<rparr>)"
    using assms(1) d c by (auto simp: mag_wf_def)
  show "held (m\<lparr>mag_count := c\<rparr>) = held m - {pages m ! c}"
    "held (m\<lparr>pages := (pages m)[c := v], mag_count := c\<rparr>) = held m - {pages m ! c}"
    using * by (simp_all add: held_def)
qed

locale frame_source =
  fixes src_alloc :: "'s \<Rightarrow> (nat option \<times> 's) run"
    and src_free :: "'s \<Rightarrow> nat \<Rightarrow> 's run"
    and src_ok :: "'s \<Rightarrow> bool"
    and avail :: "'s \<Rightarrow> nat set"
    and owned :: "'s \<Rightarrow> nat \<Rightarrow> bool"
  assumes alloc_law: "src_ok s \<Longrightarrow>
        src_alloc s = Some (None, s) \<and> avail s = {} \<or>
        (\<exists>a s'. src_alloc s = Some (Some a, s') \<and> src_ok s' \<and> a \<in> avail s \<and> avail s' = avail s - {a} \<and>
           owned s' a \<and> (\<forall>b. owned s b \<longrightarrow> owned s' b))"
    and free_law: "src_ok s \<Longrightarrow> owned s a \<Longrightarrow>
        \<exists>s'. src_free s a = Some s' \<and> src_ok s' \<and> avail s' = insert a (avail s) \<and>
          (\<forall>b. b \<noteq> a \<longrightarrow> owned s b \<longrightarrow> owned s' b)"
    and owned_law: "src_ok s \<Longrightarrow> owned s a \<Longrightarrow> a \<notin> avail s"
    and finite_law: "src_ok s \<Longrightarrow> finite (avail s)"
begin

text \<open>A magazine and its source: the cached pages are owned and none of them is free.\<close>

definition mag_ok :: "magazine \<Rightarrow> 's \<Rightarrow> bool" where
  "mag_ok m s \<longleftrightarrow> src_ok s \<and> mag_wf m \<and> (\<forall>a \<in> held m. owned s a)"

definition stock :: "magazine \<Rightarrow> 's \<Rightarrow> nat set" where
  "stock m s = held m \<union> avail s"

lemma refill_law:
  assumes "mag_ok m s" and "mag_count m + n \<le> MAG_CAPACITY"
  shows "mag_refill src_alloc n m s = None \<and> card (avail s) < n \<or>
         (\<exists>m' s'. mag_refill src_alloc n m s = Some (m', s') \<and> mag_ok m' s' \<and> stock m' s' = stock m s \<and>
            n \<le> card (avail s) \<and> card (avail s') = card (avail s) - n \<and>
            (\<forall>b. owned s b \<longrightarrow> owned s' b) \<and> avail s' \<subseteq> avail s)"
  using assms
proof (induction n arbitrary: m s)
  case 0
  then show ?case by auto
next
  case (Suc n)
  have ok: "src_ok s" "mag_wf m" using Suc.prems(1) by (auto simp: mag_ok_def)
  consider (none) "src_alloc s = Some (None, s)" "avail s = {}"
    | (some) a s1 where "src_alloc s = Some (Some a, s1)" "src_ok s1" "a \<in> avail s"
      "avail s1 = avail s - {a}" "owned s1 a" "\<forall>b. owned s b \<longrightarrow> owned s1 b"
    using alloc_law [OF ok(1)] by blast
  then show ?case
  proof cases
    case none
    then show ?thesis by simp
  next
    case some
    have "a \<notin> held m" using Suc.prems(1) owned_law [OF ok(1)] some(3) by (auto simp: mag_ok_def)
    then obtain m1 where m1: "mag_store m a = Some m1" "mag_wf m1" "held m1 = insert a (held m)"
      "mag_count m1 = mag_count m + 1"
      using held_store [OF ok(2), of a] Suc.prems(2) by auto
    have step: "mag_refill src_alloc (Suc n) m s = mag_refill src_alloc n m1 s1"
      using some(1) m1(1) by (auto simp: mag_store_def split: bind_splits)
    have ok1: "mag_ok m1 s1" using Suc.prems(1) some m1 by (auto simp: mag_ok_def)
    have crd: "card (avail s) = Suc (card (avail s1))"
      using card.remove [OF finite_law [OF ok(1)] some(3)] some(4) by simp
    have "stock m1 s1 = stock m s" using some(3,4) m1(3) by (auto simp: stock_def)
    moreover have "mag_refill src_alloc n m1 s1 = None \<and> card (avail s1) < n \<or>
        (\<exists>m' s'. mag_refill src_alloc n m1 s1 = Some (m', s') \<and> mag_ok m' s' \<and> stock m' s' = stock m1 s1 \<and>
          n \<le> card (avail s1) \<and> card (avail s') = card (avail s1) - n \<and>
          (\<forall>b. owned s1 b \<longrightarrow> owned s' b) \<and> avail s' \<subseteq> avail s1)"
      using Suc.IH [OF ok1] Suc.prems(2) m1(4) by simp
    ultimately show ?thesis unfolding step crd using some(4,6) by (elim disjE exE conjE) auto
  qed
qed

lemma mag_alloc_law:
  assumes "mag_ok m s"
  shows "mag_alloc src_alloc m s = None \<and> mag_count m = 0 \<and> card (avail s) < MAG_CAPACITY div 2 \<or>
         (\<exists>a m' s'. mag_alloc src_alloc m s = Some (a, m', s') \<and> mag_ok m' s' \<and> a \<in> stock m s \<and>
            stock m' s' = stock m s - {a} \<and> owned s' a \<and> (\<forall>b. owned s b \<longrightarrow> owned s' b))"
proof (cases "0 < mag_count m")
  case True
  have ok: "src_ok s" "mag_wf m" "\<forall>a \<in> held m. owned s a" using assms by (auto simp: mag_ok_def)
  define c where "c = mag_count m - 1"
  define m' where "m' = m\<lparr>pages := (pages m)[c := 0], mag_count := c\<rparr>"
  note p = held_pop [OF ok(2) True, folded c_def]
  have run: "mag_alloc src_alloc m s = Some (pages m ! c, m', s)"
    using True p(1) unfolding mag_alloc_def c_def [symmetric] by (simp add: idx_in_range upd_in_range m'_def)
  have "mag_ok m' s" using ok p(5,6) by (auto simp: mag_ok_def m'_def)
  moreover have "stock m' s = stock m s - {pages m ! c}"
    using p(2,6) ok owned_law by (auto simp: stock_def m'_def)
  ultimately show ?thesis using run p(2) ok by (auto simp: stock_def)
next
  case False
  then have c: "mag_count m = 0" by simp
  let ?n = "MAG_CAPACITY div 2 - 1"
  have n: "mag_count m + ?n \<le> MAG_CAPACITY" "MAG_CAPACITY div 2 = Suc ?n" by (simp_all add: c MAG_CAPACITY_def)
  consider (none) "mag_refill src_alloc ?n m s = None" "card (avail s) < ?n"
    | (some) m1 s1 where "mag_refill src_alloc ?n m s = Some (m1, s1)" "mag_ok m1 s1"
      "stock m1 s1 = stock m s" "?n \<le> card (avail s)" "card (avail s1) = card (avail s) - ?n"
      "\<forall>b. owned s b \<longrightarrow> owned s1 b"
    using refill_law [OF assms n(1)] by metis
  then show ?thesis
  proof cases
    case none
    then show ?thesis using c by (simp add: mag_alloc_def)
  next
    case some
    have ok1: "src_ok s1" "\<forall>a \<in> held m1. owned s1 a" using some(2) by (auto simp: mag_ok_def)
    consider "src_alloc s1 = Some (None, s1)" "avail s1 = {}"
      | a s2 where "src_alloc s1 = Some (Some a, s2)" "src_ok s2" "a \<in> avail s1"
        "avail s2 = avail s1 - {a}" "owned s2 a" "\<forall>b. owned s1 b \<longrightarrow> owned s2 b"
      using alloc_law [OF ok1(1)] by blast
    then show ?thesis
    proof cases
      case 1
      then have "card (avail s) < MAG_CAPACITY div 2" using some(4,5) n(2) by simp
      then show ?thesis using 1 some(1) c by (simp add: mag_alloc_def)
    next
      case 2
      have "stock m1 s2 = stock m s - {a}" "a \<in> stock m s"
        using 2(3,4) some(3) ok1 owned_law [OF ok1(1)] by (auto simp: stock_def)
      moreover have "mag_ok m1 s2" using some(2) 2 by (auto simp: mag_ok_def)
      ultimately show ?thesis using 2 some c by (auto simp: mag_alloc_def)
    qed
  qed
qed

lemma flush_law:
  assumes "mag_ok m s" and "n \<le> mag_count m"
  shows "\<exists>m' s'. mag_flush src_free n m s = Some (m', s') \<and> mag_ok m' s' \<and> stock m' s' = stock m s \<and>
           mag_count m' = mag_count m - n \<and> (\<forall>b. b \<notin> held m \<longrightarrow> owned s b \<longrightarrow> owned s' b)"
  using assms
proof (induction n arbitrary: m s)
  case 0
  then show ?case by auto
next
  case (Suc n)
  have ok: "src_ok s" "mag_wf m" "\<forall>a \<in> held m. owned s a" using Suc.prems(1) by (auto simp: mag_ok_def)
  define c where "c = mag_count m - 1"
  define m1 where "m1 = m\<lparr>mag_count := c\<rparr>"
  have pos: "0 < mag_count m" using Suc.prems(2) by simp
  note p = held_pop [OF ok(2) pos, folded c_def, folded m1_def]
  obtain s1 where s1: "src_free s (pages m ! c) = Some s1" "src_ok s1"
    "avail s1 = insert (pages m ! c) (avail s)" "\<forall>b. b \<noteq> pages m ! c \<longrightarrow> owned s b \<longrightarrow> owned s1 b"
    using free_law [OF ok(1)] ok(3) p(2) by blast
  have step: "mag_flush src_free (Suc n) m s = mag_flush src_free n m1 s1"
    using s1(1) p(1) by (simp add: Let_def c_def [symmetric] m1_def [symmetric] idx_in_range del: One_nat_def)
  have "mag_ok m1 s1" using p(3,4) ok(3) s1 by (auto simp: mag_ok_def)
  moreover have "n \<le> mag_count m1" "mag_count m1 - n = mag_count m - Suc n"
    using Suc.prems(2) by (simp_all add: m1_def c_def)
  moreover have "stock m1 s1 = stock m s" using p(2,4) s1(3) by (auto simp: stock_def)
  moreover have "\<forall>b. b \<notin> held m \<longrightarrow> owned s b \<longrightarrow> b \<notin> held m1 \<and> owned s1 b"
    using p(2,4) s1(4) by (metis Diff_iff)
  ultimately show ?case unfolding step using Suc.IH [of m1 s1] by metis
qed

lemma mag_free_law:
  assumes "mag_ok m s" and "owned s a" and "a \<notin> held m"
  shows "\<exists>m' s'. mag_free src_free m a s = Some (m', s') \<and> mag_ok m' s' \<and>
           stock m' s' = insert a (stock m s) \<and> (\<forall>b. b \<notin> held m \<longrightarrow> owned s b \<longrightarrow> owned s' b)"
proof (cases "mag_count m < MAG_CAPACITY")
  case True
  obtain m' where "mag_store m a = Some m'" "mag_wf m'" "held m' = insert a (held m)"
    using held_store [OF _ True assms(3)] assms(1) unfolding mag_ok_def by blast
  then show ?thesis
    using True assms by (auto simp: mag_free_def mag_ok_def stock_def)
next
  case False
  have cnt: "mag_count m = MAG_CAPACITY" using False assms(1) by (simp add: mag_ok_def mag_wf_def)
  obtain m1 s1 where f: "mag_flush src_free (MAG_CAPACITY div 2) m s = Some (m1, s1)" "mag_ok m1 s1"
    "stock m1 s1 = stock m s" "mag_count m1 = mag_count m - MAG_CAPACITY div 2"
    "\<forall>b. b \<notin> held m \<longrightarrow> owned s b \<longrightarrow> owned s1 b"
    using flush_law [OF assms(1), of "MAG_CAPACITY div 2"] cnt by (auto simp: MAG_CAPACITY_def)
  have ow: "owned s1 a" using f(5) assms by blast
  have "a \<notin> stock m s" using assms owned_law by (auto simp: mag_ok_def stock_def)
  then have "a \<notin> held m1" using f(3) by (auto simp: stock_def)
  moreover have "mag_wf m1" "mag_count m1 < MAG_CAPACITY"
    using f(2,4) cnt by (auto simp: mag_ok_def MAG_CAPACITY_def)
  ultimately obtain m' where "mag_store m1 a = Some m'" "mag_wf m'" "held m' = insert a (held m1)"
    using held_store by blast
  then show ?thesis
    using False f ow by (auto simp: mag_free_def mag_ok_def stock_def)
qed

end

section \<open>The buddy allocator as a frame source\<close>

definition frame_addrs :: "pmm \<Rightarrow> nat set" where
  "frame_addrs s = (\<lambda>p. p * NORMAL_PAGE_SIZE) ` free_frames s"

definition pmm_ok :: "pmm \<Rightarrow> bool" where
  "pmm_ok s \<longleftrightarrow> pmm_wf s \<and> db_covers s"

definition frame_owned :: "pmm \<Rightarrow> nat \<Rightarrow> bool" where
  "frame_owned s a \<longleftrightarrow> a \<noteq> 0 \<and> block_ok s a 0 \<and> in_use s (a div NORMAL_PAGE_SIZE)"

lemma frame_addrs_mem: "aligned a 0 \<Longrightarrow> a \<in> frame_addrs s \<longleftrightarrow> a div NORMAL_PAGE_SIZE \<in> free_frames s"
  using aligned_page [of a 0]
  by (auto simp: frame_addrs_def NORMAL_PAGE_SIZE_def image_iff intro!: bexI [of _ "a div 4096"])

lemma frames_0: "frames a 0 = {a div NORMAL_PAGE_SIZE}"
  by (auto simp: frames_def)

lemma page_image_diff:
  "aligned a 0 \<Longrightarrow> (\<lambda>p. p * NORMAL_PAGE_SIZE) ` (F - frames a 0) = (\<lambda>p. p * NORMAL_PAGE_SIZE) ` F - {a}"
  "aligned a 0 \<Longrightarrow> (\<lambda>p. p * NORMAL_PAGE_SIZE) ` (F \<union> frames a 0) = insert a ((\<lambda>p. p * NORMAL_PAGE_SIZE) ` F)"
proof -
  assume a: "aligned a 0"
  have inj: "inj (\<lambda>p. p * NORMAL_PAGE_SIZE)" by (auto simp: inj_def NORMAL_PAGE_SIZE_def)
  have "(\<lambda>p. p * NORMAL_PAGE_SIZE) ` frames a 0 = {a}"
    using aligned_page [OF a] by (simp add: frames_0 mult.commute)
  then show "(\<lambda>p. p * NORMAL_PAGE_SIZE) ` (F - frames a 0) = (\<lambda>p. p * NORMAL_PAGE_SIZE) ` F - {a}"
    "(\<lambda>p. p * NORMAL_PAGE_SIZE) ` (F \<union> frames a 0) = insert a ((\<lambda>p. p * NORMAL_PAGE_SIZE) ` F)"
    by (auto simp: image_set_diff [OF inj] image_Un)
qed

lemma free_frames_in_db: "pmm_wf s \<Longrightarrow> free_frames s \<subseteq> {..< length (pfndb s)}"
  unfolding pmm_wf_def using free_area_in_db free_frames_eq by blast

lemma pmm_alloc_frame:
  assumes "pmm_ok s"
  shows "pmm_alloc s Normal = Some (None, s) \<and> frame_addrs s = {} \<or>
         (\<exists>a s'. pmm_alloc s Normal = Some (Some a, s') \<and> pmm_ok s' \<and> a \<in> frame_addrs s \<and>
            frame_addrs s' = frame_addrs s - {a} \<and> frame_owned s' a \<and>
            (\<forall>b. frame_owned s b \<longrightarrow> frame_owned s' b))"
proof -
  have wf: "pmm_wf s" and cov: "db_covers s" using assms by (auto simp: pmm_ok_def)
  consider (none) "alloc_order s 0 = Some (None, s)" "\<forall>a. aligned a 0 \<longrightarrow> \<not> frames a 0 \<subseteq> free_frames s"
    | (some) a s' where "alloc_order s 0 = Some (Some a, s')" "pmm_wf s'" "aligned a 0" "a \<noteq> 0"
      "frames a 0 \<subseteq> free_frames s" "free_frames s' = free_frames s - frames a 0"
      "length (pfndb s') = length (pfndb s)" "\<forall>p. p \<notin> free_frames s \<longrightarrow> pfndb s' ! p = pfndb s ! p"
      "flags (pfndb s' ! (a div NORMAL_PAGE_SIZE)) = PF_KERNEL"
    using alloc_order_wf [OF wf, of 0] by auto
  then show ?thesis
  proof cases
    case none
    have "frame_addrs s = {}"
    proof (rule ccontr)
      assume "frame_addrs s \<noteq> {}"
      then obtain p where p: "p \<in> free_frames s" by (auto simp: frame_addrs_def)
      have "aligned (p * NORMAL_PAGE_SIZE) 0" "frames (p * NORMAL_PAGE_SIZE) 0 = {p}"
        by (simp_all add: aligned_def frames_0 NORMAL_PAGE_SIZE_def)
      with none(2) p show False by (metis empty_subsetI insert_subset)
    qed
    with none show ?thesis by (simp add: pmm_alloc_def)
  next
    case some
    have fa: "frame_addrs s' = frame_addrs s - {a}"
      unfolding frame_addrs_def some(6) using some(3) by (rule page_image_diff)
    have am: "a \<in> frame_addrs s" using frame_addrs_mem [OF some(3)] some(5) by (simp add: frames_0)
    have "a div NORMAL_PAGE_SIZE < length (pfndb s)"
      using some(5) free_frames_in_db [OF wf] by (auto simp: frames_0)
    then have ow: "frame_owned s' a"
      using some by (simp add: frame_owned_def block_ok_def in_use_def frames_0 pf_defs)
    have "frame_owned s b \<longrightarrow> frame_owned s' b" for b
      using some(6-8) by (auto simp: frame_owned_def block_ok_def in_use_def)
    then show ?thesis
      using some fa am ow cov by (auto simp: pmm_alloc_def pmm_ok_def db_covers_def)
  qed
qed

lemma pmm_free_frame:
  assumes "pmm_ok s" and "frame_owned s a"
  shows "\<exists>s'. pmm_free s a Normal = Some s' \<and> pmm_ok s' \<and> frame_addrs s' = insert a (frame_addrs s) \<and>
           (\<forall>b. b \<noteq> a \<longrightarrow> frame_owned s b \<longrightarrow> frame_owned s' b)"
proof -
  have wf: "pmm_wf s" and cov: "db_covers s" using assms by (auto simp: pmm_ok_def)
  have a: "a \<noteq> 0" "block_ok s a 0" "aligned a 0" "a div NORMAL_PAGE_SIZE \<notin> free_frames s"
    "flags (pfndb s ! (a div NORMAL_PAGE_SIZE)) AND PF_FREE = 0"
    using assms(2) by (auto simp: frame_owned_def block_ok_def in_use_def)
  obtain s' where s': "free_order s a 0 = Some s'" "pmm_wf s'"
    "free_frames s' = free_frames s \<union> frames a 0" "length (pfndb s') = length (pfndb s)"
    "\<And>p. p \<notin> free_frames s' \<Longrightarrow> pfndb s' ! p = pfndb s ! p"
    using free_order_wf [OF wf cov _ a(1,2)] a(4,5) by (auto simp: frames_0)
  have fa: "frame_addrs s' = insert a (frame_addrs s)"
    unfolding frame_addrs_def s'(3) using a(3) by (rule page_image_diff)
  have "frame_owned s' b" if b: "b \<noteq> a" "frame_owned s b" for b
  proof -
    have "b div NORMAL_PAGE_SIZE \<noteq> a div NORMAL_PAGE_SIZE"
      using b a(3) aligned_page [of a 0] aligned_page [of b 0] by (metis frame_owned_def block_ok_def)
    then show ?thesis
      using b(2) s'(3,4) s'(5) [of "b div NORMAL_PAGE_SIZE"]
      by (auto simp: frame_owned_def block_ok_def in_use_def frames_0)
  qed
  then show ?thesis using s' fa cov by (auto simp: pmm_free_def pmm_ok_def db_covers_def)
qed

interpretation pmm_frames: frame_source "\<lambda>s. pmm_alloc s Normal" "\<lambda>s a. pmm_free s a Normal"
  pmm_ok frame_addrs frame_owned
proof unfold_locales
  fix s a assume ok: "pmm_ok s" and ow: "frame_owned s a"
  show "\<exists>s'. pmm_free s a Normal = Some s' \<and> pmm_ok s' \<and> frame_addrs s' = insert a (frame_addrs s) \<and>
      (\<forall>b. b \<noteq> a \<longrightarrow> frame_owned s b \<longrightarrow> frame_owned s' b)"
    using ok ow by (rule pmm_free_frame)
  show "a \<notin> frame_addrs s"
    using ow frame_addrs_mem [of a s] by (auto simp: frame_owned_def block_ok_def in_use_def)
next
  fix s assume ok: "pmm_ok s"
  show "finite (frame_addrs s)"
    using ok free_frames_in_db [of s] finite_subset by (auto simp: pmm_ok_def frame_addrs_def)
qed (rule pmm_alloc_frame)

section \<open>The allocator front end of a core\<close>

definition pc_alloc :: "magazine \<times> pmm \<Rightarrow> block_size \<Rightarrow> (nat \<times> magazine \<times> pmm) run" where
  "pc_alloc c sz =
    (case c of (m, s) \<Rightarrow>
       (case sz of
          Huge \<Rightarrow> do { (r, s') \<leftarrow> pmm_alloc s Huge;
                      case r of None \<Rightarrow> panic | Some a \<Rightarrow> ret (a, m, s') }
        | Normal \<Rightarrow> mag_alloc (\<lambda>s. pmm_alloc s Normal) m s))"

definition pc_free :: "magazine \<times> pmm \<Rightarrow> nat \<Rightarrow> block_size \<Rightarrow> (magazine \<times> pmm) run" where
  "pc_free c addr sz =
    (case c of (m, s) \<Rightarrow>
       (case sz of
          Huge \<Rightarrow> do { s' \<leftarrow> pmm_free s addr Huge; ret (m, s') }
        | Normal \<Rightarrow> mag_free (\<lambda>s a. pmm_free s a Normal) m addr s))"

definition pc_alloc_order :: "magazine \<times> pmm \<Rightarrow> nat \<Rightarrow> (nat option \<times> magazine \<times> pmm) run" where
  "pc_alloc_order c order = (case c of (m, s) \<Rightarrow> do { (r, s') \<leftarrow> alloc_order s order; ret (r, m, s') })"

definition pc_free_order :: "magazine \<times> pmm \<Rightarrow> nat \<Rightarrow> nat \<Rightarrow> (magazine \<times> pmm) run" where
  "pc_free_order c addr order = (case c of (m, s) \<Rightarrow> do { s' \<leftarrow> free_order s addr order; ret (m, s') })"

definition core_ok :: "magazine \<times> pmm \<Rightarrow> bool" where
  "core_ok c \<longleftrightarrow> pmm_ok (snd c) \<and> mag_wf (fst c) \<and> (\<forall>a \<in> held (fst c). frame_owned (snd c) a)"

definition core_stock :: "magazine \<times> pmm \<Rightarrow> nat set" where
  "core_stock c = held (fst c) \<union> frame_addrs (snd c)"

lemma core_ok_iff: "pmm_frames.mag_ok m s \<longleftrightarrow> core_ok (m, s)"
  by (simp add: pmm_frames.mag_ok_def core_ok_def)

lemma core_stock_eq: "pmm_frames.stock m s = core_stock (m, s)"
  by (simp add: pmm_frames.stock_def core_stock_def)

text \<open>
  Page allocation on a core. The page returned was in the core's magazine or free in the
  buddy allocator, it is taken out of both, its frame is in use and every page owned
  before is still owned. The only panic is the documented exhaustion: an empty magazine
  with fewer than 128 free frames left.
\<close>

theorem pc_alloc_page_correct:
  assumes "core_ok c"
  shows "pc_alloc c Normal = None \<and> mag_count (fst c) = 0 \<and> card (frame_addrs (snd c)) < 128 \<or>
         (\<exists>a c'. pc_alloc c Normal = Some (a, c') \<and> core_ok c' \<and> a \<in> core_stock c \<and>
            core_stock c' = core_stock c - {a} \<and> frame_owned (snd c') a \<and>
            (\<forall>b. frame_owned (snd c) b \<longrightarrow> frame_owned (snd c') b))"
proof -
  obtain m s where c: "c = (m, s)" by (cases c)
  have "pmm_frames.mag_ok m s" using assms by (simp add: core_ok_iff c)
  from pmm_frames.mag_alloc_law [OF this] show ?thesis
    unfolding core_ok_iff core_stock_eq by (auto simp: c pc_alloc_def MAG_CAPACITY_def)
qed

text \<open>
  Page release on a core. Giving back an owned page that is not in the magazine never
  panics, adds exactly that page to the core's stock, flushing half of a full magazine to
  the buddy allocator, and leaves every other page in use owned.
\<close>

theorem pc_free_page_correct:
  assumes "core_ok c" and "frame_owned (snd c) a" and "a \<notin> held (fst c)"
  shows "\<exists>c'. pc_free c a Normal = Some c' \<and> core_ok c' \<and> core_stock c' = insert a (core_stock c) \<and>
           (\<forall>b. b \<notin> held (fst c) \<longrightarrow> frame_owned (snd c) b \<longrightarrow> frame_owned (snd c') b)"
proof -
  obtain m s where c: "c = (m, s)" by (cases c)
  have "pmm_frames.mag_ok m s" "frame_owned s a" "a \<notin> held m"
    using assms by (simp_all add: core_ok_iff c)
  from pmm_frames.mag_free_law [OF this] show ?thesis
    unfolding core_ok_iff core_stock_eq by (auto simp: c pc_free_def)
qed

definition sample_core :: "magazine \<times> pmm" where
  "sample_core = (magazine_init\<lparr>pages := 4096 # replicate 255 0, mag_count := 1\<rparr>, used_pmm 2048)"

lemma sample_core_ok:
  "core_ok sample_core" "held (fst sample_core) = {4096}" "mag_count (fst sample_core) = 1"
  "frame_owned (snd sample_core) 8192"
proof -
  let ?s = "used_pmm 2048"
  have wf: "pmm_wf ?s" using used_pmm_core(1,2) unfolding pmm_wf_def by blast
  have emp: "free_frames ?s = {}" using free_frames_eq [OF used_pmm_core(1)] used_pmm_core(3) by simp
  have len: "length (pfndb ?s) = 2048" by (simp add: used_pmm_def)
  have nth: "pfndb ?s ! p = used_frame" if "p < 2048" for p unfolding used_pmm_def using that by simp
  have ow: "frame_owned ?s (p * 4096)" if "0 < p" "p < 2048" for p
    using that nth [OF that(2)] emp len
    by (simp add: frame_owned_def block_ok_def aligned_def in_use_def NORMAL_PAGE_SIZE_def used_frame_def pf_defs)
  show "held (fst sample_core) = {4096}" "mag_count (fst sample_core) = 1"
    by (simp_all add: sample_core_def held_def)
  then show "core_ok sample_core"
    using wf len ow [of 1] unfolding core_ok_def
    by (simp add: sample_core_def mag_wf_def magazine_init_def MAG_CAPACITY_def pmm_ok_def db_covers_def ORDER_MAX_def)
  show "frame_owned (snd sample_core) 8192" using ow [of 2] by (simp add: sample_core_def)
qed

theorem pc_alloc_page_correct_witness:
  "core_ok sample_core \<and> (\<exists>a c'. pc_alloc sample_core Normal = Some (a, c') \<and> core_ok c' \<and>
     core_stock c' = core_stock sample_core - {a})"
  using pc_alloc_page_correct [OF sample_core_ok(1)] sample_core_ok(1,3) by auto

theorem pc_free_page_correct_witness:
  "core_ok sample_core \<and> (\<exists>c'. pc_free sample_core 8192 Normal = Some c' \<and> core_ok c' \<and>
     core_stock c' = insert 8192 (core_stock sample_core))"
  using pc_free_page_correct [OF sample_core_ok(1,4)] sample_core_ok(1,2) by auto

end
