(* ===== verification/Paging.thy ===== *)
theory Paging
  imports Pmm "HOL-Library.Sublist"
begin

text \<open>
  Four-level page tables: \<^verbatim>\<open>kernel/src/memory/paging.rs\<close>. Table memory maps the virtual
  address of a table in the direct map to its 512 entries, indexed by nine-bit words. The frame allocator of the
  \<^verbatim>\<open>Pager\<close> is an argument of the operations that grow a table; its contract is the locale
  \<open>table_source\<close>, which the per-core page allocator satisfies.
\<close>

section \<open>Entries and addresses\<close>

type_synonym pte = u64

type_synonym tables = "u64 \<Rightarrow> 9 word \<Rightarrow> pte"

definition ADDR_MASK :: u64 where
  "ADDR_MASK = 0x000FFFFFFFFFF000"

definition pte_new :: "u64 \<Rightarrow> u64 \<Rightarrow> pte" where
  "pte_new phys_addr fl = (phys_addr AND ADDR_MASK) OR fl"

definition is_unused :: "pte \<Rightarrow> bool" where
  "is_unused e \<longleftrightarrow> e = 0"

definition get_addr :: "pte \<Rightarrow> u64" where
  "get_addr e = e AND ADDR_MASK"

definition is_present :: "pte \<Rightarrow> bool" where
  "is_present e \<longleftrightarrow> e AND 1 = 1"

definition is_huge :: "pte \<Rightarrow> bool" where
  "is_huge e \<longleftrightarrow> e AND push_bit 7 1 \<noteq> 0"

definition get_flags ::
  "bool \<Rightarrow> bool \<Rightarrow> bool \<Rightarrow> bool \<Rightarrow> bool \<Rightarrow> bool \<Rightarrow> bool \<Rightarrow> bool \<Rightarrow> bool \<Rightarrow> bool \<Rightarrow> u64" where
  "get_flags present writable user_access writethru no_cache accessed dirty huge global no_execute =
    (let flag = (\<lambda>b n. if b then push_bit n 1 else 0)
     in flag present 0 OR flag writable 1 OR flag user_access 2 OR flag writethru 3 OR flag no_cache 4
        OR flag accessed 5 OR flag dirty 6 OR flag huge 7 OR flag global 8 OR flag no_execute 63)"

definition virt_new :: "u64 \<Rightarrow> u64 \<Rightarrow> u64 \<Rightarrow> u64 \<Rightarrow> u64 \<Rightarrow> u64" where
  "virt_new l4 l3 l2 l1 offset =
    (let addr = push_bit 39 (l4 AND 0x1FF) OR push_bit 30 (l3 AND 0x1FF) OR push_bit 21 (l2 AND 0x1FF)
                OR push_bit 12 (l1 AND 0x1FF) OR (offset AND 0xFFF)
     in if addr AND push_bit 47 1 \<noteq> 0 then addr OR 0xFFFF000000000000 else addr)"

definition get_idxs :: "u64 \<Rightarrow> u64 \<times> u64 \<times> u64 \<times> u64 \<times> u64" where
  "get_idxs v = (drop_bit 39 v AND 0x1FF, drop_bit 30 v AND 0x1FF, drop_bit 21 v AND 0x1FF,
                 drop_bit 12 v AND 0x1FF, v AND 0xFFF)"

definition get_huge_offset :: "u64 \<Rightarrow> u64" where
  "get_huge_offset v = v AND 0x1FFFFF"

definition get_offset :: "u64 \<Rightarrow> u64" where
  "get_offset v = v AND 0xFFF"

text \<open>The four table indices as array positions.\<close>

definition i4 :: "u64 \<Rightarrow> 9 word" where "i4 v = ucast (fst (get_idxs v))"
definition i3 :: "u64 \<Rightarrow> 9 word" where "i3 v = ucast (fst (snd (get_idxs v)))"
definition i2 :: "u64 \<Rightarrow> 9 word" where "i2 v = ucast (fst (snd (snd (get_idxs v))))"
definition i1 :: "u64 \<Rightarrow> 9 word" where "i1 v = ucast (fst (snd (snd (snd (get_idxs v)))))"

section \<open>Walks over the tables\<close>

definition next_table :: "pte \<Rightarrow> u64 \<Rightarrow> u64 option" where
  "next_table e off = (if is_present e then Some (get_addr e + off) else None)"

definition write_entry :: "tables \<Rightarrow> u64 \<Rightarrow> 9 word \<Rightarrow> pte \<Rightarrow> tables" where
  "write_entry tm t i e = tm(t := (tm t)(i := e))"

definition zero_table :: "tables \<Rightarrow> u64 \<Rightarrow> tables" where
  "zero_table tm t = tm(t := (\<lambda>_. 0))"

definition get_or_create_next ::
  "('s \<Rightarrow> (u64 \<times> 's) run) \<Rightarrow> u64 \<Rightarrow> u64 \<Rightarrow> 9 word \<Rightarrow> tables \<times> 's \<Rightarrow> (u64 \<times> tables \<times> 's) run" where
  "get_or_create_next alloc off t i = (\<lambda>(tm, s).
    do { (tm', s') \<leftarrow>
           (if \<not> is_present (tm t i)
            then do { (frame, s') \<leftarrow> alloc s;
                      ret (write_entry (zero_table tm (frame + off)) t i (pte_new frame 7), s') }
            else ret (tm, s));
         ret (get_addr (tm' t i) + off, tm', s') })"

definition translate :: "tables \<Rightarrow> u64 \<Rightarrow> u64 \<Rightarrow> u64 \<Rightarrow> u64 option" where
  "translate tm root off v =
    do { l3_table \<leftarrow> next_table (tm root (i4 v)) off;
         l2_table \<leftarrow> next_table (tm l3_table (i3 v)) off;
         let l2_entry = tm l2_table (i2 v)
         in if \<not> is_present l2_entry then None
            else if is_huge l2_entry then Some (get_addr l2_entry + get_huge_offset v)
            else do { l1_table \<leftarrow> next_table l2_entry off;
                      let final_entry = tm l1_table (i1 v)
                      in if \<not> is_present final_entry then None
                         else Some (get_addr final_entry + get_offset v) } }"

text \<open>\<^verbatim>\<open>PageTable::map_page\<close>; it always ends in \<^verbatim>\<open>Some(())\<close> when it returns.\<close>

definition map_page ::
  "('s \<Rightarrow> (u64 \<times> 's) run) \<Rightarrow> u64 \<Rightarrow> u64 \<Rightarrow> tables \<times> 's \<Rightarrow> u64 \<Rightarrow> u64 \<Rightarrow> u64 \<Rightarrow> block_size \<Rightarrow> (tables \<times> 's) run" where
  "map_page alloc root off st virt phys fl sz =
    do { (l3_table, st1) \<leftarrow> get_or_create_next alloc off root (i4 virt) st;
         (l2_table, st2) \<leftarrow> get_or_create_next alloc off l3_table (i3 virt) st1;
         if sz = Huge
         then ret (write_entry (fst st2) l2_table (i2 virt) (pte_new phys (fl OR push_bit 7 1)), snd st2)
         else do { (l1_table, st3) \<leftarrow> get_or_create_next alloc off l2_table (i2 virt) st2;
                   ret (write_entry (fst st3) l1_table (i1 virt) (pte_new phys fl), snd st3) } }"

definition unmap_page :: "tables \<Rightarrow> u64 \<Rightarrow> u64 \<Rightarrow> u64 \<Rightarrow> block_size \<Rightarrow> tables" where
  "unmap_page tm root off virt sz =
    (case next_table (tm root (i4 virt)) off of
       None \<Rightarrow> tm
     | Some l3_table \<Rightarrow>
         (case next_table (tm l3_table (i3 virt)) off of
            None \<Rightarrow> tm
          | Some l2_table \<Rightarrow>
              if sz = Huge then write_entry tm l2_table (i2 virt) 0
              else (case next_table (tm l2_table (i2 virt)) off of
                      None \<Rightarrow> tm
                    | Some l1_table \<Rightarrow> write_entry tm l1_table (i1 virt) 0)))"

definition change_entry :: "tables \<Rightarrow> u64 \<Rightarrow> 9 word \<Rightarrow> u64 \<Rightarrow> tables" where
  "change_entry tm t i fl =
    (if is_present (tm t i) then write_entry tm t i (pte_new (get_addr (tm t i)) fl) else tm)"

definition change_flags :: "tables \<Rightarrow> u64 \<Rightarrow> u64 \<Rightarrow> u64 \<Rightarrow> u64 \<Rightarrow> block_size \<Rightarrow> tables" where
  "change_flags tm root off virt new_fl sz =
    (case next_table (tm root (i4 virt)) off of
       None \<Rightarrow> tm
     | Some l3_table \<Rightarrow>
         (case next_table (tm l3_table (i3 virt)) off of
            None \<Rightarrow> tm
          | Some l2_table \<Rightarrow>
              if sz = Huge then change_entry tm l2_table (i2 virt) (new_fl OR push_bit 7 1)
              else (case next_table (tm l2_table (i2 virt)) off of
                      None \<Rightarrow> tm
                    | Some l1_table \<Rightarrow> change_entry tm l1_table (i1 virt) new_fl)))"

section \<open>The pager\<close>

text \<open>
  The active root is the record's only field that changes; a failed assertion panics. The
  TLB invalidation that ends each operation has no effect on table memory.
\<close>

definition pager_new_root ::
  "('s \<Rightarrow> (u64 option \<times> 's) run) \<Rightarrow> u64 \<Rightarrow> u64 \<Rightarrow> tables \<times> 's \<Rightarrow> (u64 option \<times> tables \<times> 's) run" where
  "pager_new_root galloc off cr3 = (\<lambda>(tm, s).
    do { (r, s') \<leftarrow> galloc s;
         case r of
           None \<Rightarrow> ret (None, tm, s')
         | Some frame \<Rightarrow>
             let tm1 = zero_table tm (frame + off);
                 old = (cr3 AND ADDR_MASK) + off
             in ret (Some frame,
                     tm1(frame + off := (\<lambda>i. if 256 \<le> i then tm1 old i else tm1 (frame + off) i)),
                     s') })"

definition virt_aligned :: "u64 \<Rightarrow> block_size \<Rightarrow> bool" where
  "virt_aligned v sz \<longleftrightarrow> (if sz = Normal then get_offset v = 0 else get_huge_offset v = 0)"

definition phys_aligned :: "u64 \<Rightarrow> block_size \<Rightarrow> bool" where
  "phys_aligned p sz \<longleftrightarrow> (if sz = Normal then p AND 0xFFF = 0 else p AND 0x1FFFFF = 0)"

definition pager_map_page ::
  "('s \<Rightarrow> (u64 \<times> 's) run) \<Rightarrow> u64 \<Rightarrow> u64 \<Rightarrow> tables \<times> 's \<Rightarrow> u64 \<Rightarrow> u64 \<Rightarrow> u64 \<Rightarrow> block_size \<Rightarrow> (tables \<times> 's) run" where
  "pager_map_page alloc l4_addr off st virt phys fl sz =
    (if phys_aligned phys sz \<and> virt_aligned virt sz
     then map_page alloc (l4_addr + off) off st virt phys fl sz else panic)"

definition pager_unmap_page :: "u64 \<Rightarrow> u64 \<Rightarrow> tables \<Rightarrow> u64 \<Rightarrow> block_size \<Rightarrow> tables run" where
  "pager_unmap_page l4_addr off tm virt sz =
    (if virt_aligned virt sz then ret (unmap_page tm (l4_addr + off) off virt sz) else panic)"

definition pager_translate :: "u64 \<Rightarrow> u64 \<Rightarrow> tables \<Rightarrow> u64 \<Rightarrow> u64 option" where
  "pager_translate l4_addr off tm virt = translate tm (l4_addr + off) off virt"

definition pager_change_flags :: "u64 \<Rightarrow> u64 \<Rightarrow> tables \<Rightarrow> u64 \<Rightarrow> u64 \<Rightarrow> block_size \<Rightarrow> tables run" where
  "pager_change_flags l4_addr off tm virt new_fl sz =
    (if virt_aligned virt sz then ret (change_flags tm (l4_addr + off) off virt new_fl sz) else panic)"

definition map_mmio_addr ::
  "('s \<Rightarrow> (u64 \<times> 's) run) \<Rightarrow> u64 \<Rightarrow> u64 \<Rightarrow> tables \<times> 's \<Rightarrow> u64 \<Rightarrow> (tables \<times> 's) run" where
  "map_mmio_addr alloc l4_addr off st phys =
    pager_map_page alloc l4_addr off st (phys + off) phys
      (get_flags True True False True True False False False True True) Normal"

end
