(* ===== verification/Paging_Inv.thy ===== *)
theory Paging_Inv
  imports Paging
begin

text \<open>
  Correctness of the page-table operations. The tables reachable from a root form a tree
  (\<open>pt_wf\<close>: no table is reached by two paths), disjoint from the frames the allocator
  still holds. Against the lookup that a walk performs, mapping, unmapping and changing the
  flags of a page change exactly that page.
\<close>

section \<open>The tree of tables\<close>

definition descend :: "tables \<Rightarrow> u64 \<Rightarrow> nat \<Rightarrow> u64 \<Rightarrow> 9 word \<Rightarrow> u64 option" where
  "descend tm off n t i =
    (if n = 2 \<and> is_huge (tm t i) then None else next_table (tm t i) off)"

fun tab :: "tables \<Rightarrow> u64 \<Rightarrow> nat \<Rightarrow> u64 \<Rightarrow> 9 word list \<Rightarrow> u64 option" where
  "tab tm off n t [] = Some t"
| "tab tm off n t (i # is) = do { u \<leftarrow> descend tm off n t i; tab tm off (Suc n) u is }"

lemma tab_snoc:
  "tab tm off n t (p @ [i]) = do { u \<leftarrow> tab tm off n t p; descend tm off (n + length p) u i }"
  by (induction p arbitrary: n t) (auto split: bind_splits)

definition pt_wf :: "tables \<Rightarrow> u64 \<Rightarrow> u64 \<Rightarrow> bool" where
  "pt_wf tm off root \<longleftrightarrow>
    (\<forall>p q t. length p \<le> 3 \<longrightarrow> length q \<le> 3 \<longrightarrow>
       tab tm off 0 root p = Some t \<longrightarrow> tab tm off 0 root q = Some t \<longrightarrow> p = q)"

lemma pt_wfD:
  "pt_wf tm off root \<Longrightarrow> tab tm off 0 root p = Some t \<Longrightarrow> tab tm off 0 root q = Some t \<Longrightarrow>
   length p \<le> 3 \<Longrightarrow> length q \<le> 3 \<Longrightarrow> p = q"
  unfolding pt_wf_def by blast

definition table_set :: "tables \<Rightarrow> u64 \<Rightarrow> u64 \<Rightarrow> u64 set" where
  "table_set tm off root = {t. \<exists>p. length p \<le> 3 \<and> tab tm off 0 root p = Some t}"

definition path :: "u64 \<Rightarrow> 9 word list" where
  "path v = [i4 v, i3 v, i2 v, i1 v]"

lemma write_entry_same [simp]: "write_entry tm t i e t i = e"
  by (simp add: write_entry_def)

lemma write_entry_other: "(u, j) \<noteq> (t, i) \<Longrightarrow> write_entry tm t i e u j = tm u j"
  by (auto simp: write_entry_def)

lemma tab_write:
  assumes "pt_wf tm off root" and "tab tm off 0 root p = Some t" and "length p \<le> 3"
    and "length q \<le> 4" and "\<not> prefix (p @ [i]) q"
  shows "tab (write_entry tm t i e) off 0 root q = tab tm off 0 root q"
  using assms(4,5)
proof (induction q rule: rev_induct)
  case (snoc j q)
  have np: "\<not> prefix (p @ [i]) q" using snoc.prems(2) by (meson prefix_prefix)
  have IH: "tab (write_entry tm t i e) off 0 root q = tab tm off 0 root q"
    using snoc.IH snoc.prems(1) np by simp
  have "write_entry tm t i e u j = tm u j" if u: "tab tm off 0 root q = Some u" for u
  proof (rule write_entry_other, rule notI)
    assume "(u, j) = (t, i)"
    moreover from this have "q = p" using pt_wfD [OF assms(1) u] assms(2,3) snoc.prems(1) by auto
    ultimately show False using snoc.prems(2) by simp
  qed
  then show ?case by (auto simp: tab_snoc IH descend_def split: bind_splits)
qed simp

lemma tab_zero:
  assumes "nt \<notin> table_set tm off root" and "length q \<le> 4"
  shows "tab (zero_table tm nt) off 0 root q = tab tm off 0 root q"
  using assms(2)
proof (induction q rule: rev_induct)
  case (snoc j q)
  have "zero_table tm nt u j = tm u j" if "tab tm off 0 root q = Some u" for u
    using that assms(1) snoc.prems by (auto simp: zero_table_def table_set_def)
  then show ?case using snoc by (auto simp: tab_snoc descend_def split: bind_splits)
qed simp

text \<open>The entry that maps an address and the size of its page.\<close>

definition lookup :: "tables \<Rightarrow> u64 \<Rightarrow> u64 \<Rightarrow> u64 \<Rightarrow> (pte \<times> block_size) option" where
  "lookup tm root off v =
    (case tab tm off 0 root [i4 v, i3 v] of
       None \<Rightarrow> None
     | Some t2 \<Rightarrow>
         if \<not> is_present (tm t2 (i2 v)) then None
         else if is_huge (tm t2 (i2 v)) then Some (tm t2 (i2 v), Huge)
         else (case tab tm off 0 root [i4 v, i3 v, i2 v] of
                 None \<Rightarrow> None
               | Some t1 \<Rightarrow> if is_present (tm t1 (i1 v)) then Some (tm t1 (i1 v), Normal) else None))"

definition page_offset :: "block_size \<Rightarrow> u64 \<Rightarrow> u64" where
  "page_offset sz v = (if sz = Normal then get_offset v else get_huge_offset v)"

lemma translate_lookup:
  "translate tm root off v = map_option (\<lambda>(e, sz). get_addr e + page_offset sz v) (lookup tm root off v)"
  by (auto simp: translate_def lookup_def page_offset_def descend_def next_table_def Let_def
      split: bind_splits option.splits)

lemma lookup_write_other:
  assumes "pt_wf tm off root" and "tab tm off 0 root p = Some t" and "length p \<le> 3"
    and "\<not> prefix (p @ [i]) (path v)"
  shows "lookup (write_entry tm t i e) root off v = lookup tm root off v"
proof -
  have pre: "prefix [i4 v, i3 v] (path v)" "prefix [i4 v, i3 v, i2 v] (path v)" by (auto simp: path_def)
  have t2: "tab (write_entry tm t i e) off 0 root [i4 v, i3 v] = tab tm off 0 root [i4 v, i3 v]"
    by (rule tab_write [OF assms(1,2,3)]) (use assms(4) pre(1) prefix_order.order_trans in auto)
  have t1: "tab (write_entry tm t i e) off 0 root [i4 v, i3 v, i2 v] = tab tm off 0 root [i4 v, i3 v, i2 v]"
    by (rule tab_write [OF assms(1,2,3)]) (use assms(4) pre(2) prefix_order.order_trans in auto)
  have e2: "write_entry tm t i e u (i2 v) = tm u (i2 v)" if u: "tab tm off 0 root [i4 v, i3 v] = Some u" for u
    by (rule write_entry_other) (use pt_wfD [OF assms(1) u, of p] assms(2-4) in \<open>auto simp: path_def\<close>)
  have e1: "write_entry tm t i e u (i1 v) = tm u (i1 v)"
    if u: "tab tm off 0 root [i4 v, i3 v, i2 v] = Some u" for u
    by (rule write_entry_other) (use pt_wfD [OF assms(1) u, of p] assms(2-4) in \<open>auto simp: path_def\<close>)
  show ?thesis unfolding lookup_def t1 t2 using e1 e2 by (auto split: option.splits)
qed

lemma lookup_zero:
  assumes "nt \<notin> table_set tm off root"
  shows "lookup (zero_table tm nt) root off v = lookup tm root off v"
proof -
  have e: "zero_table tm nt u j = tm u j" if "tab tm off 0 root q = Some u" "length q \<le> 3" for u j q
    using that assms by (auto simp: zero_table_def table_set_def)
  have t: "tab (zero_table tm nt) off 0 root [i4 v, i3 v] = tab tm off 0 root [i4 v, i3 v]"
    "tab (zero_table tm nt) off 0 root [i4 v, i3 v, i2 v] = tab tm off 0 root [i4 v, i3 v, i2 v]"
    by (rule tab_zero [OF assms]; simp)+
  show ?thesis unfolding lookup_def t
    using e [of "[i4 v, i3 v]"] e [of "[i4 v, i3 v, i2 v]"] by (auto split: option.splits)
qed

lemma lookup_blocked:
  assumes "tab tm off 0 root p = Some t" and "length p \<le> 2" and "prefix (p @ [i]) (path v)"
    and "\<not> is_present (tm t i)"
  shows "lookup tm root off v = None"
proof -
  have "p = [] \<and> i = i4 v \<or> p = [i4 v] \<and> i = i3 v \<or> p = [i4 v, i3 v] \<and> i = i2 v"
    using assms(2,3) by (cases p rule: list.exhaust; simp add: path_def)
      (auto simp: prefix_Cons Cons_eq_append_conv le_Suc_eq length_Suc_conv)
  then show ?thesis
    using assms(1,4) by (auto simp: lookup_def descend_def next_table_def split: bind_splits if_splits)
qed


section \<open>Entry bits\<close>

lemma ADDR_MASK_bits: "bit ADDR_MASK n \<longleftrightarrow> 12 \<le> n \<and> n < 52"
proof -
  have "ADDR_MASK = push_bit 12 (mask 40)"
    by (simp add: ADDR_MASK_def mask_eq_exp_minus_1 push_bit_eq_mult)
  then have "bit ADDR_MASK n \<longleftrightarrow> bit (push_bit 12 (mask 40) :: u64) n" by simp
  then show ?thesis by (auto simp: bit_push_bit_iff bit_mask_iff)
qed

lemma bit_128: "bit (128 :: u64) n \<longleftrightarrow> n = 7" "bit (128 :: int) n \<longleftrightarrow> n = 7"
  "bit (128 :: nat) n \<longleftrightarrow> n = 7"
proof -
  have "bit (128 :: u64) n \<longleftrightarrow> bit (push_bit 7 1 :: u64) n" "bit (128 :: int) n \<longleftrightarrow> bit (push_bit 7 1 :: int) n"
    "bit (128 :: nat) n \<longleftrightarrow> bit (push_bit 7 1 :: nat) n" by simp_all
  then show "bit (128 :: u64) n \<longleftrightarrow> n = 7" "bit (128 :: int) n \<longleftrightarrow> n = 7" "bit (128 :: nat) n \<longleftrightarrow> n = 7"
    by (auto simp only: bit_push_bit_iff bit_1_iff) auto
qed

lemma is_present_bit: "is_present e \<longleftrightarrow> bit e 0"
  by (simp add: is_present_def and_one_eq bit_0 odd_iff_mod_2_eq_one)

lemma is_huge_bit: "is_huge (e :: pte) \<longleftrightarrow> bit e 7"
proof -
  have "e AND push_bit 7 1 = (if bit e 7 then push_bit 7 1 else 0)"
    by (rule bit_word_eqI) (auto simp: bit_simps bit_128)
  then show ?thesis by (simp add: is_huge_def)
qed

definition plain_flags :: "u64 \<Rightarrow> bool" where
  "plain_flags fl \<longleftrightarrow> fl AND ADDR_MASK = 0"

lemma plain_flags_bit: "plain_flags fl \<Longrightarrow> 12 \<le> n \<Longrightarrow> n < 52 \<Longrightarrow> \<not> bit fl n"
  unfolding plain_flags_def by (metis ADDR_MASK_bits bit_and_iff bit_0_eq bot_apply bot_bool_def)

lemma get_addr_new: "plain_flags fl \<Longrightarrow> get_addr (pte_new phys fl) = phys AND ADDR_MASK"
  unfolding get_addr_def pte_new_def
  by (rule bit_word_eqI) (auto simp: bit_simps ADDR_MASK_bits plain_flags_bit)

lemma present_new [simp]: "is_present (pte_new phys fl) \<longleftrightarrow> is_present fl"
  by (auto simp: is_present_bit pte_new_def bit_simps ADDR_MASK_bits)

lemma huge_new [simp]: "is_huge (pte_new phys fl) \<longleftrightarrow> is_huge fl"
  by (auto simp: is_huge_bit pte_new_def bit_simps ADDR_MASK_bits)

lemma zero_entry [simp]: "\<not> is_present 0" "\<not> is_huge 0"
  by (simp_all add: is_present_def is_huge_def)

lemma table_flags [simp]: "is_present 7" "\<not> is_huge 7" "plain_flags 7"
  by (simp_all add: is_present_def is_huge_def plain_flags_def ADDR_MASK_def)

lemma huge_flags [simp]:
  "is_present (fl OR 128) \<longleftrightarrow> is_present fl" "is_huge (fl OR 128)"
  "plain_flags fl \<Longrightarrow> plain_flags (fl OR 128)"
proof -
  show "is_present (fl OR 128) \<longleftrightarrow> is_present fl" "is_huge (fl OR 128)"
    by (auto simp: is_present_bit is_huge_bit bit_simps bit_128)
  have "(fl OR 128) AND ADDR_MASK = fl AND ADDR_MASK" for fl :: u64
    by (rule bit_word_eqI) (auto simp: bit_simps ADDR_MASK_bits bit_128)
  then show "plain_flags fl \<Longrightarrow> plain_flags (fl OR 128)" by (simp add: plain_flags_def)
qed

section \<open>Growing the tree\<close>

definition not_huge_at :: "tables \<Rightarrow> u64 \<Rightarrow> u64 \<Rightarrow> u64 \<Rightarrow> bool" where
  "not_huge_at tm off root v \<longleftrightarrow>
    (case tab tm off 0 root [i4 v, i3 v] of
       None \<Rightarrow> True | Some t2 \<Rightarrow> is_present (tm t2 (i2 v)) \<longrightarrow> \<not> is_huge (tm t2 (i2 v)))"

definition pt_inv :: "('s \<Rightarrow> bool) \<Rightarrow> ('s \<Rightarrow> u64 set) \<Rightarrow> u64 \<Rightarrow> u64 \<Rightarrow> tables \<times> 's \<Rightarrow> bool" where
  "pt_inv ok spare off root st \<longleftrightarrow>
    ok (snd st) \<and> pt_wf (fst st) off root \<and>
    (\<forall>f \<in> spare (snd st). f + off \<notin> table_set (fst st) off root)"

text \<open>The tree after an absent entry was made to point to a zeroed table.\<close>

lemma tab_graft:
  assumes wf: "pt_wf tm off root" and p: "tab tm off 0 root p = Some t" "length p \<le> 2"
    and new: "f + off \<notin> table_set tm off root" and absent: "\<not> is_present (tm t i)"
    and f: "f AND ADDR_MASK = f" and q: "length q \<le> 3"
  shows "tab (write_entry (zero_table tm (f + off)) t i (pte_new f 7)) off 0 root q =
    (if q = p @ [i] then Some (f + off) else tab tm off 0 root q)"
proof -
  let ?z = "zero_table tm (f + off)" and ?e = "pte_new f 7"
  let ?w = "write_entry ?z t i ?e"
  have z: "tab ?z off 0 root q = tab tm off 0 root q" if "length q \<le> 4" for q
    using that by (rule tab_zero [OF new])
  have wfz: "pt_wf ?z off root" using wf z unfolding pt_wf_def by auto
  have tne: "t \<noteq> f + off" using p new by (auto simp: table_set_def)
  have pz: "tab ?z off 0 root p = Some t" using p z by simp
  have pw: "tab ?w off 0 root p = Some t"
    using tab_write [OF wfz pz] p(2) pz by (simp add: prefix_def)
  have here: "tab ?w off 0 root (p @ [i]) = Some (f + off)"
    by (simp add: tab_snoc pw descend_def next_table_def get_addr_new f)
  have absent_z: "tab tm off 0 root (p @ [i]) = None"
    using p absent by (simp add: tab_snoc descend_def next_table_def)
  consider "\<not> prefix (p @ [i]) q" | "q = p @ [i]" | j r where "q = p @ [i] @ j # r"
    by (auto simp: prefix_def) (metis neq_Nil_conv append_Nil2)
  then show ?thesis
  proof cases
    case 1
    then show ?thesis using tab_write [OF wfz pz, of q i ?e] z [of q] p(2) q by auto
  next
    case 2
    then show ?thesis using here by simp
  next
    case (3 j r)
    have app: "tab m off n u (a @ b) = do { x \<leftarrow> tab m off n u a; tab m off (n + length a) x b }"
      for m :: tables and n u a b by (induction a arbitrary: n u) (auto split: bind_splits)
    have "tab m off 0 root q = do { x \<leftarrow> tab m off 0 root (p @ [i]); tab m off (Suc (length p)) x (j # r) }" for m
      using app [of m 0 root "p @ [i]" "j # r"] 3 by simp
    then show ?thesis
      using here absent_z 3 tne
      by (simp add: descend_def next_table_def write_entry_def zero_table_def)
  qed
qed

lemma graft_entry:
  assumes "tab tm off 0 root q = Some x" "length q \<le> 3" "f + off \<notin> table_set tm off root" "(x, j) \<noteq> (t, i)"
  shows "write_entry (zero_table tm (f + off)) t i e x j = tm x j"
  using assms by (auto simp: write_entry_def zero_table_def table_set_def)

lemma path_split:
  assumes "prefix (p @ [i]) (path v)" "length p \<le> 2"
  obtains j r where "path v = (p @ [i]) @ j # r"
proof -
  obtain r where r: "path v = (p @ [i]) @ r" using assms(1) by (auto simp: prefix_def)
  then have "length r = 3 - length p" by (metis add_diff_cancel_left' length_append length_append_singleton
      path_def list.size(3,4) One_nat_def Suc_eq_plus1 add_2_eq_Suc' diff_Suc_Suc eval_nat_numeral(3) numeral_2_eq_2)
  with assms(2) obtain j r' where "r = j # r'" by (cases r) auto
  with r that show ?thesis by auto
qed

lemma graft_lookup:
  assumes wf: "pt_wf tm off root" and p: "tab tm off 0 root p = Some t" "length p \<le> 2"
    and new: "f + off \<notin> table_set tm off root" and absent: "\<not> is_present (tm t i)"
    and f: "f AND ADDR_MASK = f"
  shows "lookup (write_entry (zero_table tm (f + off)) t i (pte_new f 7)) root off v = lookup tm root off v"
proof (cases "prefix (p @ [i]) (path v)")
  case False
  let ?z = "zero_table tm (f + off)"
  have z: "tab ?z off 0 root q = tab tm off 0 root q" if "length q \<le> 4" for q
    using that by (rule tab_zero [OF new])
  have "pt_wf ?z off root" using wf z unfolding pt_wf_def by auto
  then show ?thesis
    using lookup_write_other [of ?z off root p t i v] False p z [of p] lookup_zero [OF new] by simp
next
  case True
  let ?w = "write_entry (zero_table tm (f + off)) t i (pte_new f 7)"
  have old: "lookup tm root off v = None" by (rule lookup_blocked [OF p True absent])
  have tne: "t \<noteq> f + off" using p new by (auto simp: table_set_def)
  have nt: "?w (f + off) j = 0" for j using tne by (simp add: write_entry_def zero_table_def)
  note g = tab_graft [OF wf p new absent f]
  have pi: "tab ?w off 0 root (p @ [i]) = Some (f + off)" using g p(2) by simp
  obtain j r where "path v = (p @ [i]) @ j # r"
    by (rule path_split [OF True p(2)])
  then have pre: "prefix ((p @ [i]) @ [j]) (path v)" by (simp add: prefix_def)
  show ?thesis
  proof (cases "length p = 2")
    case True
    then have "p = [i4 v, i3 v] \<and> i = i2 v \<and> j = i1 v"
      using pre by (auto simp: path_def length_Suc_conv numeral_2_eq_2)
    then have "tab ?w off 0 root [i4 v, i3 v] = Some t" "?w t (i2 v) = pte_new f 7"
      "tab ?w off 0 root [i4 v, i3 v, i2 v] = Some (f + off)"
      using pi g [of p] p by auto
    then show ?thesis unfolding old by (simp add: lookup_def nt del: tab.simps)
  next
    case False
    then show ?thesis unfolding old using lookup_blocked [OF pi _ pre] nt p(2) by simp
  qed
qed


lemma lookup_leaf:
  "tab tm off 0 root [i4 v, i3 v, i2 v] = Some t1 \<Longrightarrow>
   lookup tm root off v =
     (if is_present (tm t1 (i1 v)) then Some (tm t1 (i1 v), Normal) else None)"
  by (auto simp: lookup_def descend_def next_table_def Let_def split: bind_splits if_splits)

lemma lookup_huge:
  "tab tm off 0 root [i4 v, i3 v] = Some t2 \<Longrightarrow> is_huge (tm t2 (i2 v)) \<Longrightarrow>
   lookup tm root off v =
     (if is_present (tm t2 (i2 v)) then Some (tm t2 (i2 v), Huge) else None)"
  by (simp add: lookup_def del: tab.simps)

definition same_page :: "block_size \<Rightarrow> u64 \<Rightarrow> u64 \<Rightarrow> bool" where
  "same_page sz v w \<longleftrightarrow> i4 v = i4 w \<and> i3 v = i3 w \<and> i2 v = i2 w \<and> (sz = Normal \<longrightarrow> i1 v = i1 w)"

definition leaf_pte :: "u64 \<Rightarrow> u64 \<Rightarrow> block_size \<Rightarrow> pte" where
  "leaf_pte phys fl sz = pte_new phys (if sz = Huge then fl OR 128 else fl)"

text \<open>Writing the entry that maps a page, or clearing it, in an existing table.\<close>

lemma leaf_write:
  assumes wf: "pt_wf tm off root" and t: "tab tm off 0 root [i4 v, i3 v, i2 v] = Some t"
  shows "pt_wf (write_entry tm t (i1 v) e) off root"
    "table_set (write_entry tm t (i1 v) e) off root = table_set tm off root"
    "lookup (write_entry tm t (i1 v) e) root off w =
      (if same_page Normal v w then if is_present e then Some (e, Normal) else None
       else lookup tm root off w)"
proof -
  let ?w = "write_entry tm t (i1 v) e" and ?p = "[i4 v, i3 v, i2 v]"
  have tab: "tab ?w off 0 root q = tab tm off 0 root q" if "length q \<le> 3" for q
    by (rule tab_write [OF wf t]) (use that in \<open>auto dest: prefix_length_le\<close>)
  show "pt_wf ?w off root" using wf tab unfolding pt_wf_def by auto
  show "table_set ?w off root = table_set tm off root" using tab unfolding table_set_def by auto
  show "lookup ?w root off w =
      (if same_page Normal v w then if is_present e then Some (e, Normal) else None
       else lookup tm root off w)"
  proof (cases "same_page Normal v w")
    case True
    then have "tab ?w off 0 root [i4 w, i3 w, i2 w] = Some t" "i1 v = i1 w"
      using tab [of ?p] t by (auto simp: same_page_def simp del: tab.simps)
    then show ?thesis using True lookup_leaf [of ?w off root w t] by simp
  next
    case False
    then have "\<not> prefix (?p @ [i1 v]) (path w)" by (auto simp: path_def same_page_def)
    then show ?thesis using lookup_write_other [OF wf t] False by auto
  qed
qed

lemma l2_write:
  assumes wf: "pt_wf tm off root" and t: "tab tm off 0 root [i4 v, i3 v] = Some t"
    and e: "is_present e \<longrightarrow> is_huge e"
  shows "pt_wf (write_entry tm t (i2 v) e) off root"
    "table_set (write_entry tm t (i2 v) e) off root \<subseteq> table_set tm off root"
    "lookup (write_entry tm t (i2 v) e) root off w =
      (if same_page Huge v w then if is_present e then Some (e, Huge) else None
       else lookup tm root off w)"
proof -
  let ?w = "write_entry tm t (i2 v) e" and ?p = "[i4 v, i3 v]"
  have t': "tab ?w off 0 root ?p = Some t"
    using tab_write [OF wf t, of ?p "i2 v" e] t by (simp add: prefix_def)
  have blocked: "tab ?w off 0 root (?p @ [i2 v]) = None"
    unfolding tab_snoc t' using e by (auto simp: descend_def next_table_def)
  have tab: "tab ?w off 0 root q = tab tm off 0 root q \<or> tab ?w off 0 root q = None" if "length q \<le> 3" for q
  proof (cases "prefix (?p @ [i2 v]) q")
    case True
    then have "q = ?p @ [i2 v]" using that by (auto simp: prefix_def)
    then show ?thesis using blocked by simp
  next
    case False
    then show ?thesis using tab_write [OF wf t, of q "i2 v" e] that by simp
  qed
  show "pt_wf ?w off root" using wf tab unfolding pt_wf_def by (metis option.distinct(1))
  show "table_set ?w off root \<subseteq> table_set tm off root"
    using tab unfolding table_set_def by (force simp del: tab.simps)
  show "lookup ?w root off w =
      (if same_page Huge v w then if is_present e then Some (e, Huge) else None
       else lookup tm root off w)"
  proof (cases "same_page Huge v w")
    case True
    then have "tab ?w off 0 root [i4 w, i3 w] = Some t" "i2 v = i2 w"
      using t' by (auto simp: same_page_def simp del: tab.simps)
    then show ?thesis using True e lookup_huge [of ?w off root w t]
      by (cases "is_present e") (simp_all add: lookup_def del: tab.simps)
  next
    case False
    then have "\<not> prefix (?p @ [i2 v]) (path w)" by (auto simp: path_def same_page_def)
    then show ?thesis using lookup_write_other [OF wf t] False by auto
  qed
qed

section \<open>The contract of a frame allocator for tables\<close>

locale table_source =
  fixes alloc :: "'s \<Rightarrow> (u64 \<times> 's) run"
    and ok :: "'s \<Rightarrow> bool"
    and spare :: "'s \<Rightarrow> u64 set"
    and reserve :: nat
  assumes alloc_returns: "ok s \<Longrightarrow> reserve < card (spare s) \<Longrightarrow> alloc s \<noteq> None"
    and alloc_takes: "ok s \<Longrightarrow> alloc s = Some (f, s') \<Longrightarrow>
      ok s' \<and> f \<in> spare s \<and> spare s' = spare s - {f}"
    and spare_addr: "ok s \<Longrightarrow> f \<in> spare s \<Longrightarrow> f AND ADDR_MASK = f"
begin

lemma create_next:
  assumes iv: "pt_inv ok spare off root (tm, s)" and p: "tab tm off 0 root p = Some t" "length p \<le> 2"
    and nh: "length p = 2 \<longrightarrow> is_present (tm t i) \<longrightarrow> \<not> is_huge (tm t i)"
    and room: "reserve < card (spare s)"
  obtains u tm' s' where "get_or_create_next alloc off t i (tm, s) = Some (u, tm', s')"
    "pt_inv ok spare off root (tm', s')" "tab tm' off 0 root (p @ [i]) = Some u"
    "\<And>v. lookup tm' root off v = lookup tm root off v"
    "\<And>v. not_huge_at tm off root v \<Longrightarrow> not_huge_at tm' off root v"
    "card (spare s) \<le> Suc (card (spare s'))" "spare s' \<subseteq> spare s"
proof (cases "is_present (tm t i)")
  case True
  then have "tab tm off 0 root (p @ [i]) = Some (get_addr (tm t i) + off)"
    using p nh by (simp add: tab_snoc descend_def next_table_def)
  with True that [of "get_addr (tm t i) + off" tm s] iv show thesis
    by (simp add: get_or_create_next_def)
next
  case False
  have ok: "ok s" and wf: "pt_wf tm off root" and fresh: "\<And>f. f \<in> spare s \<Longrightarrow> f + off \<notin> table_set tm off root"
    using iv by (auto simp: pt_inv_def)
  obtain f s' where a: "alloc s = Some (f, s')" using alloc_returns [OF ok room] by auto
  have s': "ok s'" "f \<in> spare s" "spare s' = spare s - {f}" using alloc_takes [OF ok a] by auto
  have f: "f AND ADDR_MASK = f" by (rule spare_addr [OF ok s'(2)])
  let ?w = "write_entry (zero_table tm (f + off)) t i (pte_new f 7)"
  note g = tab_graft [OF wf p fresh [OF s'(2)] False f]
  have wf': "pt_wf ?w off root"
    using wf g fresh [OF s'(2)] unfolding pt_wf_def table_set_def
    by (simp del: tab.simps split: if_splits) blast
  have ts: "table_set ?w off root \<subseteq> insert (f + off) (table_set tm off root)"
    using g unfolding table_set_def by (auto simp del: tab.simps split: if_splits)
  have iv': "pt_inv ok spare off root (?w, s')"
    using s' wf' ts fresh unfolding pt_inv_def by auto
  have nh': "not_huge_at ?w off root v" if v: "not_huge_at tm off root v" for v
  proof (cases "tab ?w off 0 root [i4 v, i3 v]")
    case (Some x)
    consider "x = f + off" | "tab tm off 0 root [i4 v, i3 v] = Some x"
      using g [of "[i4 v, i3 v]"] Some by (auto simp del: tab.simps split: if_splits)
    then have "\<not> is_huge (?w x (i2 v)) \<or> \<not> is_present (?w x (i2 v))"
    proof cases
      case 1
      then show ?thesis using p fresh [OF s'(2)]
        by (auto simp: write_entry_def zero_table_def table_set_def)
    next
      case 2
      then show ?thesis
        using v graft_entry [OF 2 _ fresh [OF s'(2)], of "i2 v" t i "pte_new f 7"]
        by (cases "(x, i2 v) = (t, i)") (auto simp: not_huge_at_def simp del: tab.simps)
    qed
    then show ?thesis using Some by (auto simp: not_huge_at_def simp del: tab.simps)
  qed (simp add: not_huge_at_def del: tab.simps)
  have "get_or_create_next alloc off t i (tm, s) = Some (f + off, ?w, s')"
    using False a by (simp add: get_or_create_next_def get_addr_new f)
  moreover have "tab ?w off 0 root (p @ [i]) = Some (f + off)" using g p(2) by simp
  moreover have "card (spare s) \<le> Suc (card (spare s'))"
    using s'(2,3) card_Suc_Diff1 [of "spare s" f] card.infinite by (cases "finite (spare s)") auto
  ultimately show thesis
    using that [of "f + off" ?w s'] iv' nh' graft_lookup [OF wf p fresh [OF s'(2)] False f] s'(3) by auto
qed

lemma map_page_law:
  assumes iv: "pt_inv ok spare off root (tm, s)" and room: "reserve + 3 \<le> card (spare s)"
    and fl: "plain_flags fl" "is_present fl"
    and nh: "sz = Normal \<longrightarrow> not_huge_at tm off root v"
  obtains tm' s' where "map_page alloc root off (tm, s) v phys fl sz = Some (tm', s')"
    "pt_inv ok spare off root (tm', s')" "spare s' \<subseteq> spare s" "card (spare s) \<le> card (spare s') + 3"
    "\<And>w. lookup tm' root off w =
       (if same_page sz v w then Some (leaf_pte phys fl sz, sz) else lookup tm root off w)"
proof -
  obtain t3 tm1 s1 where c1: "get_or_create_next alloc off root (i4 v) (tm, s) = Some (t3, tm1, s1)"
    "pt_inv ok spare off root (tm1, s1)" "tab tm1 off 0 root ([] @ [i4 v]) = Some t3"
    "\<And>w. lookup tm1 root off w = lookup tm root off w"
    "\<And>w. not_huge_at tm off root w \<Longrightarrow> not_huge_at tm1 off root w"
    "card (spare s) \<le> Suc (card (spare s1))" "spare s1 \<subseteq> spare s"
    by (rule create_next [OF iv, of "[]" root "i4 v"]) (use room in auto)
  obtain t2 tm2 s2 where c2: "get_or_create_next alloc off t3 (i3 v) (tm1, s1) = Some (t2, tm2, s2)"
    "pt_inv ok spare off root (tm2, s2)" "tab tm2 off 0 root ([i4 v] @ [i3 v]) = Some t2"
    "\<And>w. lookup tm2 root off w = lookup tm1 root off w"
    "\<And>w. not_huge_at tm1 off root w \<Longrightarrow> not_huge_at tm2 off root w"
    "card (spare s1) \<le> Suc (card (spare s2))" "spare s2 \<subseteq> spare s1"
    by (rule create_next [OF c1(2), of "[i4 v]" t3 "i3 v"]) (use room c1 in auto)
  have wf2: "pt_wf tm2 off root" using c2(2) by (simp add: pt_inv_def)
  show thesis
  proof (cases sz)
    case Huge
    let ?e = "pte_new phys (fl OR push_bit 7 1)"
    have t2: "tab tm2 off 0 root [i4 v, i3 v] = Some t2" using c2(3) by simp
    have e: "is_present ?e \<longrightarrow> is_huge ?e" by simp
    note w = l2_write [OF wf2 t2 e]
    have e': "is_present ?e" using fl by simp
    show ?thesis
    proof (rule that)
      show "map_page alloc root off (tm, s) v phys fl sz = Some (write_entry tm2 t2 (i2 v) ?e, s2)"
        using c1(1) c2(1) Huge by (simp add: map_page_def)
      show "pt_inv ok spare off root (write_entry tm2 t2 (i2 v) ?e, s2)"
        using c2(2) w(1,2) unfolding pt_inv_def by auto
      show "spare s2 \<subseteq> spare s" "card (spare s) \<le> card (spare s2) + 3" using c1 c2 by auto
      show "lookup (write_entry tm2 t2 (i2 v) ?e) root off w =
          (if same_page sz v w then Some (leaf_pte phys fl sz, sz) else lookup tm root off w)" for w
        unfolding w(3) using c1(4) c2(4) e' Huge by (simp add: leaf_pte_def)
    qed
  next
    case Normal
    have "not_huge_at tm2 off root v" using nh Normal c1(5) c2(5) by blast
    then have nh2: "is_present (tm2 t2 (i2 v)) \<longrightarrow> \<not> is_huge (tm2 t2 (i2 v))"
      using c2(3) by (simp add: not_huge_at_def del: tab.simps)
    obtain t1 tm3 s3 where c3: "get_or_create_next alloc off t2 (i2 v) (tm2, s2) = Some (t1, tm3, s3)"
      "pt_inv ok spare off root (tm3, s3)" "tab tm3 off 0 root ([i4 v, i3 v] @ [i2 v]) = Some t1"
      "\<And>w. lookup tm3 root off w = lookup tm2 root off w"
      "card (spare s2) \<le> Suc (card (spare s3))" "spare s3 \<subseteq> spare s2"
      by (rule create_next [OF c2(2), of "[i4 v, i3 v]" t2 "i2 v"]) (use room c1 c2 nh2 in auto)
    have wf3: "pt_wf tm3 off root" and t1: "tab tm3 off 0 root [i4 v, i3 v, i2 v] = Some t1"
      using c3(2,3) by (auto simp: pt_inv_def)
    note w = leaf_write [OF wf3 t1, of "pte_new phys fl"]
    show ?thesis
    proof (rule that)
      show "map_page alloc root off (tm, s) v phys fl sz = Some (write_entry tm3 t1 (i1 v) (pte_new phys fl), s3)"
        using c1(1) c2(1) c3(1) Normal by (simp add: map_page_def)
      show "pt_inv ok spare off root (write_entry tm3 t1 (i1 v) (pte_new phys fl), s3)"
        using c3(2) w(1,2) unfolding pt_inv_def by auto
      show "spare s3 \<subseteq> spare s" "card (spare s) \<le> card (spare s3) + 3" using c1 c2 c3 by auto
      show "lookup (write_entry tm3 t1 (i1 v) (pte_new phys fl)) root off w =
          (if same_page sz v w then Some (leaf_pte phys fl sz, sz) else lookup tm root off w)" for w
        unfolding w(3) using c1(4) c2(4) c3(4) fl Normal by (simp add: leaf_pte_def)
    qed
  qed
qed

end

section \<open>Unmapping and changing flags\<close>

lemma lookup_no_l2: "tab tm off 0 root [i4 v, i3 v] = None \<Longrightarrow> lookup tm root off v = None"
  by (simp add: lookup_def del: tab.simps)

lemma lookup_no_l1:
  "tab tm off 0 root [i4 v, i3 v, i2 v] = None \<Longrightarrow> not_huge_at tm off root v \<Longrightarrow> lookup tm root off v = None"
  by (auto simp: lookup_def not_huge_at_def simp del: tab.simps split: option.splits)

lemma not_huge_same: "same_page sz v w \<Longrightarrow> not_huge_at tm off root v \<longleftrightarrow> not_huge_at tm off root w"
  by (auto simp: same_page_def not_huge_at_def simp del: tab.simps split: option.splits)

lemma unmap_page_tab:
  "unmap_page tm root off v Huge =
    (case tab tm off 0 root [i4 v, i3 v] of None \<Rightarrow> tm | Some t2 \<Rightarrow> write_entry tm t2 (i2 v) 0)"
  "not_huge_at tm off root v \<Longrightarrow> unmap_page tm root off v Normal =
    (case tab tm off 0 root [i4 v, i3 v, i2 v] of None \<Rightarrow> tm | Some t1 \<Rightarrow> write_entry tm t1 (i1 v) 0)"
  by (auto simp: unmap_page_def descend_def next_table_def not_huge_at_def split: option.splits bind_splits if_splits)

lemma unmap_page_law:
  assumes wf: "pt_wf tm off root" and nh: "sz = Normal \<longrightarrow> not_huge_at tm off root v"
  shows "pt_wf (unmap_page tm root off v sz) off root \<and>
    table_set (unmap_page tm root off v sz) off root \<subseteq> table_set tm off root \<and>
    lookup (unmap_page tm root off v sz) root off w =
      (if same_page sz v w then None else lookup tm root off w)"
proof (cases sz)
  case Huge
  show ?thesis
  proof (cases "tab tm off 0 root [i4 v, i3 v]")
    case None
    then have "same_page sz v w \<Longrightarrow> lookup tm root off w = None"
      using lookup_no_l2 [of tm off root w] by (simp add: same_page_def del: tab.simps)
    then show ?thesis using None wf Huge by (simp add: unmap_page_tab del: tab.simps)
  next
    case (Some t2)
    then show ?thesis using l2_write [OF wf Some, of 0] Huge by (simp add: unmap_page_tab del: tab.simps)
  qed
next
  case Normal
  with nh have nhv: "not_huge_at tm off root v" by simp
  show ?thesis
  proof (cases "tab tm off 0 root [i4 v, i3 v, i2 v]")
    case None
    then have "same_page sz v w \<Longrightarrow> lookup tm root off w = None"
      using lookup_no_l1 [of tm off root w] nhv not_huge_same [of sz v w tm off root]
      by (simp add: same_page_def del: tab.simps)
    then show ?thesis using None wf nhv Normal by (simp add: unmap_page_tab del: tab.simps)
  next
    case (Some t1)
    then show ?thesis using leaf_write [OF wf Some, of 0] nhv Normal by (simp add: unmap_page_tab del: tab.simps)
  qed
qed

lemma change_flags_tab:
  "change_flags tm root off v fl Huge =
    (case tab tm off 0 root [i4 v, i3 v] of None \<Rightarrow> tm | Some t2 \<Rightarrow> change_entry tm t2 (i2 v) (fl OR 128))"
  "not_huge_at tm off root v \<Longrightarrow> change_flags tm root off v fl Normal =
    (case tab tm off 0 root [i4 v, i3 v, i2 v] of None \<Rightarrow> tm | Some t1 \<Rightarrow> change_entry tm t1 (i1 v) fl)"
  by (auto simp: change_flags_def descend_def next_table_def not_huge_at_def split: option.splits bind_splits if_splits)

text \<open>
  Changing flags keeps the frame of the page and replaces its flags; an address that is not
  mapped stays unmapped. A huge change is meant for a huge mapping.
\<close>

definition remark :: "u64 \<Rightarrow> pte \<times> block_size \<Rightarrow> pte \<times> block_size" where
  "remark fl = (\<lambda>(e, sz). (leaf_pte (get_addr e) fl sz, sz))"

lemma change_flags_law:
  assumes wf: "pt_wf tm off root" and fl: "is_present fl"
    and kind: "\<forall>e s. lookup tm root off v = Some (e, s) \<longrightarrow> s = sz"
    and nh: "sz = Normal \<longrightarrow> not_huge_at tm off root v"
    and hg: "sz = Huge \<longrightarrow> lookup tm root off v \<noteq> None"
  shows "pt_wf (change_flags tm root off v fl sz) off root \<and>
    table_set (change_flags tm root off v fl sz) off root \<subseteq> table_set tm off root \<and>
    lookup (change_flags tm root off v fl sz) root off w =
      (if same_page sz v w then map_option (remark fl) (lookup tm root off w) else lookup tm root off w)"
proof (cases sz)
  case Huge
  with hg kind obtain e where e: "lookup tm root off v = Some (e, Huge)" by auto
  then obtain t2 where t2: "tab tm off 0 root [i4 v, i3 v] = Some t2" "is_present (tm t2 (i2 v))"
    "is_huge (tm t2 (i2 v))" "e = tm t2 (i2 v)"
    by (auto simp: lookup_def simp del: tab.simps split: option.splits if_splits)
  have "same_page Huge v w \<Longrightarrow> lookup tm root off w = Some (e, Huge)"
    using t2 by (simp add: lookup_def same_page_def del: tab.simps)
  then show ?thesis
    using l2_write [OF wf t2(1), of "pte_new (get_addr (tm t2 (i2 v))) (fl OR 128)"] t2 fl Huge
    by (simp add: change_flags_tab change_entry_def remark_def leaf_pte_def del: tab.simps)
next
  case Normal
  with nh have nhv: "not_huge_at tm off root v" by simp
  show ?thesis
  proof (cases "tab tm off 0 root [i4 v, i3 v, i2 v]")
    case None
    then have "same_page sz v w \<Longrightarrow> lookup tm root off w = None"
      using lookup_no_l1 [of tm off root w] nhv not_huge_same [of sz v w tm off root]
      by (simp add: same_page_def del: tab.simps)
    then show ?thesis using None wf nhv Normal by (simp add: change_flags_tab del: tab.simps)
  next
    case (Some t1)
    have l: "same_page Normal v w \<Longrightarrow>
        lookup tm root off w = (if is_present (tm t1 (i1 v)) then Some (tm t1 (i1 v), Normal) else None)"
      using lookup_leaf [of tm off root w t1] Some by (simp add: same_page_def del: tab.simps)
    show ?thesis
      using leaf_write [OF wf Some, of "pte_new (get_addr (tm t1 (i1 v))) fl"] nhv Normal Some l wf fl
      by (cases "is_present (tm t1 (i1 v))")
        (simp_all add: change_flags_tab change_entry_def remark_def leaf_pte_def del: tab.simps)
  qed
qed

section \<open>Address arithmetic\<close>

lemma mask_numerals: "(0x1FF :: u64) = mask 9" "(0xFFF :: u64) = mask 12" "(0xFFFF000000000000 :: u64) = push_bit 48 (mask 16)"
  by (simp_all add: mask_eq_exp_minus_1 push_bit_eq_mult)

lemma bit_raw_virt:
  "bit (push_bit 39 (l4 AND 0x1FF) OR push_bit 30 (l3 AND 0x1FF) OR push_bit 21 (l2 AND 0x1FF)
        OR push_bit 12 (l1 AND 0x1FF) OR (offs AND 0xFFF) :: u64) n \<longleftrightarrow>
   (if n < 12 then bit offs n else if n < 21 then bit l1 (n - 12) else if n < 30 then bit l2 (n - 21)
    else if n < 39 then bit l3 (n - 30) else n < 48 \<and> bit l4 (n - 39))"
  unfolding mask_numerals by (auto simp: bit_or_iff bit_push_bit_iff bit_and_iff bit_mask_iff)

lemma bit_47_test: "(a :: u64) AND push_bit 47 1 \<noteq> 0 \<longleftrightarrow> bit a 47"
  by (simp only: push_bit_eq_mult mult_1 and_exp_eq_0_iff_not_bit not_not)

lemma bit_virt_new:
  assumes "n < 64"
  shows "bit (virt_new l4 l3 l2 l1 offs) n \<longleftrightarrow>
   (if n < 12 then bit offs n else if n < 21 then bit l1 (n - 12) else if n < 30 then bit l2 (n - 21)
    else if n < 39 then bit l3 (n - 30) else if n < 48 then bit l4 (n - 39) else bit l4 8)"
proof -
  let ?raw = "push_bit 39 (l4 AND 0x1FF) OR push_bit 30 (l3 AND 0x1FF) OR push_bit 21 (l2 AND 0x1FF)
        OR push_bit 12 (l1 AND 0x1FF) OR (offs AND 0xFFF) :: u64"
  have hi: "bit (0xFFFF000000000000 :: u64) n \<longleftrightarrow> 48 \<le> n"
    unfolding mask_numerals using assms by (auto simp: bit_push_bit_iff bit_mask_iff)
  have top: "bit ?raw 47 \<longleftrightarrow> bit l4 8" unfolding bit_raw_virt by simp
  have v: "bit (virt_new l4 l3 l2 l1 offs) n \<longleftrightarrow> bit ?raw n \<or> bit l4 8 \<and> 48 \<le> n"
    unfolding virt_new_def Let_def bit_47_test top by (simp only: if_split bit_or_iff hi split: if_splits) blast
  show ?thesis unfolding v bit_raw_virt by auto
qed

text \<open>
  Address round trip. The indices of an address built by \<open>VirtAddress::new\<close> are the low
  nine (twelve) bits of the arguments, and rebuilding an address from its own indices and
  offset gives the sign extension of its low 48 bits: exactly the address itself when it is
  canonical.
\<close>

theorem virt_address_roundtrip:
  "get_idxs (virt_new l4 l3 l2 l1 offs) =
     (l4 AND 0x1FF, l3 AND 0x1FF, l2 AND 0x1FF, l1 AND 0x1FF, offs AND 0xFFF) \<and>
   (case get_idxs v of (l4, l3, l2, l1, offs) \<Rightarrow> virt_new l4 l3 l2 l1 offs) = signed_take_bit 47 v"
proof -
  have bits: "bit (drop_bit k (virt_new l4 l3 l2 l1 offs) AND 0x1FF) n \<longleftrightarrow> n < 9 \<and> bit (virt_new l4 l3 l2 l1 offs) (k + n)"
    for k n unfolding mask_numerals by (auto simp: bit_simps)
  have "get_idxs (virt_new l4 l3 l2 l1 offs) =
     (l4 AND 0x1FF, l3 AND 0x1FF, l2 AND 0x1FF, l1 AND 0x1FF, offs AND 0xFFF)"
    unfolding get_idxs_def prod.inject
  proof (intro conjI)
    show "virt_new l4 l3 l2 l1 offs AND 0xFFF = offs AND 0xFFF"
      unfolding mask_numerals by (rule bit_word_eqI) (auto simp: bit_simps bit_virt_new)
  qed (rule bit_word_eqI; unfold bits; auto simp: bit_virt_new mask_numerals bit_simps)+
  moreover have "(case get_idxs v of (l4, l3, l2, l1, offs) \<Rightarrow> virt_new l4 l3 l2 l1 offs) = signed_take_bit 47 v"
    unfolding get_idxs_def prod.case
    by (rule bit_word_eqI) (auto simp: bit_virt_new mask_numerals bit_simps)
  ultimately show ?thesis ..
qed

end
