(* ===== verification/Frames.thy ===== *)
theory Frames
  imports Prelude
begin

text \<open>
  The interface of a page-frame allocator as its clients use it: \<open>stock\<close> is the set of
  frames it can still hand out, \<open>live\<close> the frames it has handed out. An allocation may panic
  only when no more than \<open>reserve\<close> frames are left. Sorted association lists stand for the
  ordered maps (\<^verbatim>\<open>BTreeMap\<close>) of the clients.
\<close>

section \<open>Ordered maps\<close>

fun bt_insert :: "'k::linorder \<Rightarrow> 'v \<Rightarrow> ('k \<times> 'v) list \<Rightarrow> ('k \<times> 'v) list" where
  "bt_insert k v [] = [(k, v)]"
| "bt_insert k v ((k', v') # m) =
    (if k < k' then (k, v) # (k', v') # m
     else if k = k' then (k, v) # m else (k', v') # bt_insert k v m)"

definition bt_remove :: "'k \<Rightarrow> ('k \<times> 'v) list \<Rightarrow> ('k \<times> 'v) list" where
  "bt_remove k m = filter (\<lambda>(k', _). k' \<noteq> k) m"

definition bt_ok :: "('k::linorder \<times> 'v) list \<Rightarrow> bool" where
  "bt_ok m \<longleftrightarrow> sorted_wrt (<) (map fst m)"

lemma bt_ok_Nil [simp]: "bt_ok []"
  by (simp add: bt_ok_def)

lemma bt_ok_distinct: "bt_ok m \<Longrightarrow> distinct (map fst m)"
  by (simp add: bt_ok_def strict_sorted_iff)

lemma bt_insert_keys: "fst ` set (bt_insert k v m) = insert k (fst ` set m)"
  by (induction k v m rule: bt_insert.induct) auto

lemma bt_insert_ok [simp]: "bt_ok m \<Longrightarrow> bt_ok (bt_insert k v m)"
proof (induction k v m rule: bt_insert.induct)
  case (2 k v k' v' m)
  then show ?case using bt_insert_keys [of k v m] by (auto simp: bt_ok_def)
qed (simp add: bt_ok_def)

lemma bt_insert_set:
  "bt_ok m \<Longrightarrow> set (bt_insert k v m) = insert (k, v) {x \<in> set m. fst x \<noteq> k}"
  by (induction k v m rule: bt_insert.induct) (auto simp: bt_ok_def)

lemma map_of_bt_insert [simp]: "bt_ok m \<Longrightarrow> map_of (bt_insert k v m) = (map_of m)(k \<mapsto> v)"
  by (induction k v m rule: bt_insert.induct) (auto simp: bt_ok_def fun_eq_iff)

lemma bt_filter_ok [simp]: "bt_ok m \<Longrightarrow> bt_ok (filter P m)"
proof (induction m)
  case (Cons x m)
  then show ?case by (auto simp: bt_ok_def)
qed simp

lemma bt_remove_ok [simp]: "bt_ok m \<Longrightarrow> bt_ok (bt_remove k m)"
  by (simp add: bt_remove_def)

lemma map_of_bt_remove: "map_of (bt_remove k m) = (map_of m)(k := None)"
  by (induction m) (auto simp: bt_remove_def fun_eq_iff)

lemma bt_map_of_iff: "bt_ok m \<Longrightarrow> map_of m k = Some v \<longleftrightarrow> (k, v) \<in> set m"
  by (simp add: bt_ok_distinct)

section \<open>Page-frame allocators\<close>

fun free_each :: "('c \<Rightarrow> nat \<Rightarrow> 'c run) \<Rightarrow> 'c \<Rightarrow> nat list \<Rightarrow> 'c run" where
  "free_each pfree c [] = ret c"
| "free_each pfree c (a # as) = do { c' \<leftarrow> pfree c a; free_each pfree c' as }"

locale page_frames =
  fixes palloc :: "'c \<Rightarrow> (nat \<times> 'c) run"
    and pfree :: "'c \<Rightarrow> nat \<Rightarrow> 'c run"
    and pok :: "'c \<Rightarrow> bool"
    and live :: "'c \<Rightarrow> nat \<Rightarrow> bool"
    and stock :: "'c \<Rightarrow> nat set"
    and reserve :: nat
  assumes palloc_some: "pok c \<Longrightarrow> palloc c = Some (a, c') \<Longrightarrow>
        pok c' \<and> a \<noteq> 0 \<and> a \<in> stock c \<and> stock c' = stock c - {a} \<and> \<not> live c a \<and> live c' a \<and>
        (\<forall>b. live c b \<longrightarrow> live c' b)"
    and palloc_returns: "pok c \<Longrightarrow> reserve < card (stock c) \<Longrightarrow> palloc c \<noteq> None"
    and pfree_law: "pok c \<Longrightarrow> live c a \<Longrightarrow>
        \<exists>c'. pfree c a = Some c' \<and> pok c' \<and> stock c' = insert a (stock c) \<and>
          (\<forall>b. b \<noteq> a \<longrightarrow> live c b \<longrightarrow> live c' b)"
    and live_not_stock: "pok c \<Longrightarrow> live c a \<Longrightarrow> a \<notin> stock c"
    and stock_finite: "pok c \<Longrightarrow> finite (stock c)"
begin

lemma palloc_card:
  assumes "pok c" and "palloc c = Some (a, c')"
  shows "card (stock c) = Suc (card (stock c'))"
  using palloc_some [OF assms] card_Suc_Diff1 [OF stock_finite [OF assms(1)], of a] by auto

text \<open>Giving back a list of distinct live frames.\<close>

lemma free_each_law:
  assumes "pok c" and "distinct as" and "\<forall>a \<in> set as. live c a"
  shows "\<exists>c'. free_each pfree c as = Some c' \<and> pok c' \<and> stock c' = stock c \<union> set as \<and>
    (\<forall>b. b \<notin> set as \<longrightarrow> live c b \<longrightarrow> live c' b)"
  using assms
proof (induction as arbitrary: c)
  case (Cons a as)
  obtain c1 where c1: "pfree c a = Some c1" "pok c1" "stock c1 = insert a (stock c)"
    "\<And>b. b \<noteq> a \<Longrightarrow> live c b \<Longrightarrow> live c1 b"
    using pfree_law [OF Cons.prems(1), of a] Cons.prems(3) by auto
  have "\<forall>b \<in> set as. live c1 b" using Cons.prems(2,3) c1(4) by (metis distinct.simps(2) list.set_intros(2))
  then obtain c2 where "free_each pfree c1 as = Some c2" "pok c2" "stock c2 = stock c1 \<union> set as"
    "\<forall>b. b \<notin> set as \<longrightarrow> live c1 b \<longrightarrow> live c2 b"
    using Cons.IH [OF c1(2)] Cons.prems(2) by auto
  then show ?case using c1 by auto
qed simp

end

end
