(* ===== verification/Vmo.thy ===== *)
theory Vmo
  imports Frames
begin

text \<open>
  Virtual memory objects: \<^verbatim>\<open>kernel/src/memory/vmo.rs\<close>. An anonymous object maps page offsets
  to frames, 0 standing for a page not allocated yet; a physical object maps them to device
  addresses. The frame allocator is an argument (contract \<open>page_frames\<close>). The file-backed object
  is in \<^verbatim>\<open>Ext2_Obj\<close>. Sums of offsets wrap, as they do in the release build.
\<close>

section \<open>Anonymous and physical objects\<close>

record vmo =
  vmo_size :: u64
  vmo_pages :: "(u64 \<times> nat) list"
  is_physical :: bool

definition VMO_PAGE :: u64 where
  "VMO_PAGE = 4096"

definition num_pages :: "u64 \<Rightarrow> nat" where
  "num_pages sz = div_ceil (unat sz) 4096"

definition vmo_new :: "u64 \<Rightarrow> vmo" where
  "vmo_new sz =
    \<lparr>vmo_size = sz,
     vmo_pages = fold (\<lambda>i. bt_insert (of_nat i * VMO_PAGE) 0) [0..<num_pages sz] [],
     is_physical = False\<rparr>"

definition vmo_new_phys :: "u64 \<Rightarrow> u64 \<Rightarrow> vmo" where
  "vmo_new_phys phys_addr sz =
    \<lparr>vmo_size = sz,
     vmo_pages = fold (\<lambda>i. bt_insert (of_nat i * VMO_PAGE) (unat (phys_addr + of_nat i * VMO_PAGE)))
                   [0..<num_pages sz] [],
     is_physical = True\<rparr>"

definition resident :: "vmo \<Rightarrow> u64 \<Rightarrow> nat option" where
  "resident v off = (case map_of (vmo_pages v) off of Some pfn \<Rightarrow> if pfn \<noteq> 0 then Some pfn else None | None \<Rightarrow> None)"

definition request_page ::
  "('c \<Rightarrow> (nat \<times> 'c) run) \<Rightarrow> vmo \<Rightarrow> 'c \<Rightarrow> u64 \<Rightarrow> ((unit + nat) \<times> vmo \<times> 'c) run" where
  "request_page palloc v c off =
    (if vmo_size v \<le> off then ret (Inl (), v, c)
     else case resident v off of
       Some pfn \<Rightarrow> ret (Inr pfn, v, c)
     | None \<Rightarrow>
         if is_physical v then ret (Inl (), v, c)
         else do { (pfn, c') \<leftarrow> palloc c;
                   ret (Inr pfn, v\<lparr>vmo_pages := bt_insert off pfn (vmo_pages v)\<rparr>, c') })"

definition or_insert :: "u64 \<Rightarrow> (u64 \<times> nat) list \<Rightarrow> (u64 \<times> nat) list" where
  "or_insert off ps = (if map_of ps off = None then bt_insert off 0 ps else ps)"

definition resize_object ::
  "('c \<Rightarrow> nat \<Rightarrow> 'c run) \<Rightarrow> vmo \<Rightarrow> 'c \<Rightarrow> u64 \<Rightarrow> ((unit + unit) \<times> vmo \<times> 'c) run" where
  "resize_object pfree v c new_size =
    (if is_physical v then ret (Inl (), v, c)
     else if new_size = vmo_size v then ret (Inr (), v, c)
     else if new_size < vmo_size v
     then do { c' \<leftarrow> free_each pfree c
                 (map snd (filter (\<lambda>(off, pfn). new_size \<le> off \<and> pfn \<noteq> 0) (vmo_pages v)));
               ret (Inr (), v\<lparr>vmo_pages := filter (\<lambda>(off, _). \<not> new_size \<le> off) (vmo_pages v),
                               vmo_size := new_size\<rparr>, c') }
     else ret (Inr (), v\<lparr>vmo_pages := fold (\<lambda>i. or_insert (of_nat i * VMO_PAGE)) [0..<num_pages new_size] (vmo_pages v),
                         vmo_size := new_size\<rparr>, c))"

text \<open>
  Copying a range: \<open>mem\<close> gives the contents of each frame. A child page whose parent page was
  never allocated keeps whatever the fresh frame held.
\<close>

fun clone_pages ::
  "('c \<Rightarrow> (nat \<times> 'c) run) \<Rightarrow> vmo \<Rightarrow> u64 \<Rightarrow> nat list \<Rightarrow> (u64 \<times> nat) list \<Rightarrow> (nat \<Rightarrow> 'p) \<Rightarrow> 'c
     \<Rightarrow> ((u64 \<times> nat) list \<times> (nat \<Rightarrow> 'p) \<times> 'c) run" where
  "clone_pages palloc v off [] child mem c = ret (child, mem, c)"
| "clone_pages palloc v off (i # is) child mem c =
    do { (child_pfn, c') \<leftarrow> palloc c;
         let page_off = of_nat i * VMO_PAGE;
             mem' = (case resident v (off + page_off) of
                       Some parent_pfn \<Rightarrow> mem(child_pfn := mem parent_pfn) | None \<Rightarrow> mem)
         in clone_pages palloc v off is (bt_insert page_off child_pfn child) mem' c' }"

definition clone_range ::
  "('c \<Rightarrow> (nat \<times> 'c) run) \<Rightarrow> vmo \<Rightarrow> (nat \<Rightarrow> 'p) \<Rightarrow> 'c \<Rightarrow> u64 \<Rightarrow> u64 \<Rightarrow> ((unit + vmo) \<times> (nat \<Rightarrow> 'p) \<times> 'c) run" where
  "clone_range palloc v mem c off len =
    (if is_physical v then ret (Inl (), mem, c)
     else if vmo_size v < off + len then ret (Inl (), mem, c)
     else do { (child, mem', c') \<leftarrow> clone_pages palloc v off [0..<num_pages len] [] mem c;
               ret (Inr \<lparr>vmo_size = len, vmo_pages = child, is_physical = False\<rparr>, mem', c') })"

definition vmo_drop :: "('c \<Rightarrow> nat \<Rightarrow> 'c run) \<Rightarrow> vmo \<Rightarrow> 'c \<Rightarrow> 'c run" where
  "vmo_drop pfree v c =
    (if is_physical v then ret c
     else free_each pfree c (map snd (filter (\<lambda>(_, pfn). pfn \<noteq> 0) (vmo_pages v))))"

section \<open>Pinning\<close>

text \<open>
  Every page of the range is requested first; then the \<open>PF_PINNED\<close> bit of each frame below
  the end of the frame database is set. \<open>set_pin\<close> writes that bit in the database.
\<close>

fun request_pages ::
  "('v \<Rightarrow> 'c \<Rightarrow> u64 \<Rightarrow> ((unit + nat) \<times> 'v \<times> 'c) run) \<Rightarrow> 'v \<Rightarrow> 'c \<Rightarrow> nat list \<Rightarrow> nat list
     \<Rightarrow> ((unit + nat list) \<times> 'v \<times> 'c) run" where
  "request_pages req v c [] acc = ret (Inr acc, v, c)"
| "request_pages req v c (i # is) acc =
    do { (r, v', c') \<leftarrow> req v c (of_nat i * VMO_PAGE);
         case r of Inl _ \<Rightarrow> ret (Inl (), v', c')
                 | Inr a \<Rightarrow> request_pages req v' c' is (acc @ [a]) }"

definition pin ::
  "('v \<Rightarrow> 'c \<Rightarrow> u64 \<Rightarrow> ((unit + nat) \<times> 'v \<times> 'c) run) \<Rightarrow> (nat list \<Rightarrow> 'c \<Rightarrow> 'c) \<Rightarrow> u64 \<Rightarrow> 'v \<Rightarrow> 'c
     \<Rightarrow> u64 \<Rightarrow> u64 \<Rightarrow> ((unit + nat list) \<times> 'v \<times> 'c) run" where
  "pin req set_pins current_size v c off len =
    (if current_size < off + len then ret (Inl (), v, c)
     else do { (r, v', c') \<leftarrow> request_pages req v c
                 [unat (off div VMO_PAGE)..<div_ceil (unat (off + len)) 4096] [];
               ret (r, v', case r of Inl _ \<Rightarrow> c' | Inr addrs \<Rightarrow> set_pins addrs c') })"

section \<open>Frames held by an object\<close>

definition frames_of :: "(u64 \<times> nat) list \<Rightarrow> nat list" where
  "frames_of ps = filter (\<lambda>a. a \<noteq> 0) (map snd ps)"

definition vmo_frames :: "vmo \<Rightarrow> nat list" where
  "vmo_frames v = (if is_physical v then [] else frames_of (vmo_pages v))"

definition vmo_inv :: "('c \<Rightarrow> nat \<Rightarrow> bool) \<Rightarrow> 'c \<Rightarrow> vmo \<Rightarrow> bool" where
  "vmo_inv live c v \<longleftrightarrow>
    bt_ok (vmo_pages v) \<and> distinct (vmo_frames v) \<and> (\<forall>a \<in> set (vmo_frames v). live c a)"

lemma frames_of_simps [simp]:
  "frames_of [] = []" "frames_of ((k, a) # ps) = (if a = 0 then frames_of ps else a # frames_of ps)"
  by (auto simp: frames_of_def)

lemma frames_insert:
  assumes "bt_ok ps" and "map_of ps k = None \<or> map_of ps k = Some 0" and "a \<noteq> 0"
  shows "set (frames_of (bt_insert k a ps)) = insert a (set (frames_of ps))"
    and "a \<notin> set (frames_of ps) \<Longrightarrow> distinct (frames_of (bt_insert k a ps)) = distinct (frames_of ps)"
proof -
  have *: "set (frames_of (bt_insert k a ps)) = insert a (set (frames_of ps)) \<and>
      (a \<notin> set (frames_of ps) \<longrightarrow> distinct (frames_of (bt_insert k a ps)) = distinct (frames_of ps))"
    using assms
  proof (induction k a ps rule: bt_insert.induct)
    case (2 k v k' v' m)
    have "bt_ok m" using 2(2) by (simp add: bt_ok_def)
    then show ?case using 2 by (cases "k < k'"; cases "k = k'") auto
  qed simp
  then show "set (frames_of (bt_insert k a ps)) = insert a (set (frames_of ps))"
    "a \<notin> set (frames_of ps) \<Longrightarrow> distinct (frames_of (bt_insert k a ps)) = distinct (frames_of ps)" by auto
qed

lemma frames_insert_0: "map_of ps k = None \<Longrightarrow> frames_of (bt_insert k 0 ps) = frames_of ps"
  by (induction k "0 :: nat" ps rule: bt_insert.induct) (auto split: if_splits)

lemma frames_pad:
  "bt_ok ps \<Longrightarrow> bt_ok (fold (\<lambda>i. or_insert (of_nat i * VMO_PAGE)) is ps) \<and>
     frames_of (fold (\<lambda>i. or_insert (of_nat i * VMO_PAGE)) is ps) = frames_of ps"
  by (induction "is" arbitrary: ps) (auto simp: or_insert_def frames_insert_0)

lemma frames_drop: "map snd (filter (\<lambda>(_, a). 0 < a) ps) = frames_of ps"
  by (induction ps) auto

lemma frames_partition:
  assumes "distinct (frames_of ps)"
  shows "distinct (map snd (filter (\<lambda>(off, a). n \<le> off \<and> a \<noteq> 0) ps))"
    and "set (map snd (filter (\<lambda>(off, a). n \<le> off \<and> a \<noteq> 0) ps)) =
      set (frames_of ps) - set (frames_of (filter (\<lambda>(off, _). \<not> n \<le> off) ps))"
    and "distinct (frames_of (filter (\<lambda>(off, _). \<not> n \<le> off) ps))"
    and "set (frames_of (filter (\<lambda>(off, _). \<not> n \<le> off) ps)) \<subseteq> set (frames_of ps)"
proof -
  have "distinct (map snd (filter (\<lambda>(off, a). n \<le> off \<and> a \<noteq> 0) ps)) \<and>
     set (map snd (filter (\<lambda>(off, a). n \<le> off \<and> a \<noteq> 0) ps)) =
      set (frames_of ps) - set (frames_of (filter (\<lambda>(off, _). \<not> n \<le> off) ps)) \<and>
     distinct (frames_of (filter (\<lambda>(off, _). \<not> n \<le> off) ps)) \<and>
     set (frames_of (filter (\<lambda>(off, _). \<not> n \<le> off) ps)) \<subseteq> set (frames_of ps)"
    using assms
  proof (induction ps)
    case (Cons x ps)
    obtain k a where x: "x = (k, a)" by (cases x)
    show ?case
    proof (cases "a = 0")
      case True
      then show ?thesis using Cons by (auto simp: x)
    next
      case False
      then have "distinct (frames_of ps)" "a \<notin> set (frames_of ps)" using Cons.prems by (auto simp: x)
      then show ?thesis using Cons.IH False by (cases "n \<le> k") (auto simp: x)
    qed
  qed simp
  then show "distinct (map snd (filter (\<lambda>(off, a). n \<le> off \<and> a \<noteq> 0) ps))"
    "set (map snd (filter (\<lambda>(off, a). n \<le> off \<and> a \<noteq> 0) ps)) =
      set (frames_of ps) - set (frames_of (filter (\<lambda>(off, _). \<not> n \<le> off) ps))"
    "distinct (frames_of (filter (\<lambda>(off, _). \<not> n \<le> off) ps))"
    "set (frames_of (filter (\<lambda>(off, _). \<not> n \<le> off) ps)) \<subseteq> set (frames_of ps)" by auto
qed

lemma vmo_new_empty: "bt_ok (vmo_pages (vmo_new sz))" "vmo_frames (vmo_new sz) = []"
proof -
  have "bt_ok (fold (\<lambda>i. bt_insert (of_nat i * VMO_PAGE) 0) is ps) \<and>
      (\<forall>a. a \<in> set (frames_of (fold (\<lambda>i. bt_insert (of_nat i * VMO_PAGE) 0) is ps)) \<longrightarrow> a \<in> set (frames_of ps))"
    if "bt_ok ps" for "is" and ps :: "(u64 \<times> nat) list"
    using that
  proof (induction "is" arbitrary: ps)
    case (Cons i "is")
    have "set (frames_of (bt_insert (of_nat i * VMO_PAGE) 0 ps)) \<subseteq> set (frames_of ps)"
      using Cons.prems by (auto simp: frames_of_def bt_insert_set)
    then show ?case using Cons.IH [of "bt_insert (of_nat i * VMO_PAGE) 0 ps"] Cons.prems by auto
  qed simp
  from this [of "[]" "[0..<num_pages sz]"]
  show "bt_ok (vmo_pages (vmo_new sz))" "vmo_frames (vmo_new sz) = []"
    by (auto simp: vmo_new_def vmo_frames_def)
qed

section \<open>Operation sequences\<close>

datatype vmo_act = VRequest u64 | VResize u64

fun vmo_step :: "('c \<Rightarrow> (nat \<times> 'c) run) \<Rightarrow> ('c \<Rightarrow> nat \<Rightarrow> 'c run) \<Rightarrow> vmo_act \<Rightarrow> vmo \<times> 'c \<Rightarrow> (vmo \<times> 'c) run" where
  "vmo_step palloc pfree (VRequest off) (v, c) = do { (_, v', c') \<leftarrow> request_page palloc v c off; ret (v', c') }"
| "vmo_step palloc pfree (VResize n) (v, c) = do { (_, v', c') \<leftarrow> resize_object pfree v c n; ret (v', c') }"

fun vmo_run :: "('c \<Rightarrow> (nat \<times> 'c) run) \<Rightarrow> ('c \<Rightarrow> nat \<Rightarrow> 'c run) \<Rightarrow> vmo_act list \<Rightarrow> vmo \<times> 'c \<Rightarrow> (vmo \<times> 'c) run" where
  "vmo_run palloc pfree [] st = ret st"
| "vmo_run palloc pfree (x # xs) st = do { st' \<leftarrow> vmo_step palloc pfree x st; vmo_run palloc pfree xs st' }"

context page_frames
begin

lemma request_page_law:
  assumes ok: "pok c" and iv: "vmo_inv live c v"
  shows "request_page palloc v c off = None \<and> palloc c = None \<or>
    (\<exists>r v' c'. request_page palloc v c off = Some (r, v', c') \<and> pok c' \<and> vmo_inv live c' v' \<and>
       stock c' \<union> set (vmo_frames v') = stock c \<union> set (vmo_frames v) \<and>
       card (stock c) \<le> Suc (card (stock c')) \<and>
       vmo_size v' = vmo_size v \<and> is_physical v' = is_physical v \<and>
       (\<forall>k. k \<noteq> off \<longrightarrow> resident v' k = resident v k) \<and>
       (case r of Inl _ \<Rightarrow> vmo_size v \<le> off \<or> is_physical v \<and> resident v off = None
                | Inr a \<Rightarrow> off < vmo_size v \<and> resident v' off = Some a \<and> resident v off \<in> {None, Some a}))"
proof (cases "vmo_size v \<le> off \<or> resident v off \<noteq> None \<or> is_physical v")
  case True
  then obtain r where r: "request_page palloc v c off = Some (r, v, c)"
    "case r of Inl _ \<Rightarrow> vmo_size v \<le> off \<or> is_physical v \<and> resident v off = None
             | Inr a \<Rightarrow> off < vmo_size v \<and> resident v off = Some a \<and> resident v off \<in> {None, Some a}"
    by (cases "resident v off"; cases "vmo_size v \<le> off") (auto simp: request_page_def not_le split: sum.splits)
  show ?thesis by (rule disjI2, rule exI [of _ r], rule exI [of _ v], rule exI [of _ c]) (use r ok iv in simp)
next
  case False
  then have nr: "off < vmo_size v" "resident v off = None" "\<not> is_physical v" "\<not> vmo_size v \<le> off" by auto
  show ?thesis
  proof (cases "palloc c")
    case None
    then show ?thesis using nr by (simp add: request_page_def)
  next
    case (Some ac)
    obtain a c' where a: "palloc c = Some (a, c')" using Some by (cases ac) auto
    note al = palloc_some [OF ok a]
    let ?v = "v\<lparr>vmo_pages := bt_insert off a (vmo_pages v)\<rparr>"
    have bt: "bt_ok (vmo_pages v)" and d: "distinct (frames_of (vmo_pages v))"
      and lv: "\<forall>b \<in> set (frames_of (vmo_pages v)). live c b"
      using iv nr by (auto simp: vmo_inv_def vmo_frames_def)
    have m: "map_of (vmo_pages v) off = None \<or> map_of (vmo_pages v) off = Some 0"
      using nr by (auto simp: resident_def split: option.splits if_splits)
    have nin: "a \<notin> set (frames_of (vmo_pages v))" using lv al by auto
    note fi = frames_insert [OF bt m, of a]
    have "vmo_inv live c' ?v"
      using bt d fi nin al lv nr by (auto simp: vmo_inv_def vmo_frames_def)
    moreover have "stock c' \<union> set (vmo_frames ?v) = stock c \<union> set (vmo_frames v)"
      using al fi nr by (auto simp: vmo_frames_def)
    moreover have "resident ?v off = Some a" "k \<noteq> off \<Longrightarrow> resident ?v k = resident v k" for k
      using bt al by (auto simp: resident_def)
    ultimately show ?thesis
      using nr a al palloc_card [OF ok a] by (auto simp: request_page_def)
  qed
qed

lemma resize_object_law:
  assumes ok: "pok c" and iv: "vmo_inv live c v"
  obtains r v' c' where "resize_object pfree v c n = Some (r, v', c')" "pok c'" "vmo_inv live c' v'"
    "stock c' \<union> set (vmo_frames v') = stock c \<union> set (vmo_frames v)" "stock c \<subseteq> stock c'"
    "is_physical v' = is_physical v" "\<not> is_physical v \<Longrightarrow> r = Inr () \<and> vmo_size v' = n"
    "\<And>k. \<not> is_physical v \<Longrightarrow> k < n \<Longrightarrow> resident v' k = resident v k"
proof -
  have bt: "bt_ok (vmo_pages v)" using iv by (simp add: vmo_inv_def)
  consider (triv) "is_physical v \<or> n = vmo_size v" | (shrink) "\<not> is_physical v" "n < vmo_size v"
    | (grow) "\<not> is_physical v" "vmo_size v < n" by fastforce
  then show thesis
  proof cases
    case triv
    have run: "resize_object pfree v c n = Some (if is_physical v then Inl () else Inr (), v, c)"
      unfolding resize_object_def using triv by (cases "is_physical v") simp_all
    show ?thesis by (rule that [OF run ok iv]) (use triv in auto)
  next
    case shrink
    let ?gone = "map snd (filter (\<lambda>(off, pfn). n \<le> off \<and> pfn \<noteq> 0) (vmo_pages v))"
    let ?v = "v\<lparr>vmo_pages := filter (\<lambda>(off, _). \<not> n \<le> off) (vmo_pages v), vmo_size := n\<rparr>"
    have d: "distinct (frames_of (vmo_pages v))" and lv: "\<forall>b \<in> set (frames_of (vmo_pages v)). live c b"
      using iv shrink by (auto simp: vmo_inv_def vmo_frames_def)
    note p = frames_partition [OF d, of n]
    have lvg: "\<forall>a \<in> set ?gone. live c a" unfolding p(2) using lv by blast
    obtain c' where c': "free_each pfree c ?gone = Some c'" "pok c'" "stock c' = stock c \<union> set ?gone"
      "\<forall>b. b \<notin> set ?gone \<longrightarrow> live c b \<longrightarrow> live c' b"
      using free_each_law [OF ok p(1)] lvg by blast
    have r: "resident ?v k = resident v k" if "k < n" for k
    proof -
      have "map_of (filter (\<lambda>(off, _). \<not> n \<le> off) ps) k = map_of ps k" for ps :: "(u64 \<times> nat) list"
        using that by (induction ps) auto
      then show ?thesis by (simp add: resident_def)
    qed
    have run: "resize_object pfree v c n = Some (Inr (), ?v, c')"
      using shrink c'(1) by (auto simp: resize_object_def)
    have iv': "vmo_inv live c' ?v"
      unfolding vmo_inv_def using bt p shrink c'(4) lv by (auto simp: vmo_frames_def)
    have st: "stock c' \<union> set (vmo_frames ?v) = stock c \<union> set (vmo_frames v)"
      using c'(3) p(2,4) shrink by (auto simp: vmo_frames_def)
    show ?thesis by (rule that [OF run c'(2) iv' st]) (use c'(3) r shrink in auto)
  next
    case grow
    let ?v = "v\<lparr>vmo_pages := fold (\<lambda>i. or_insert (of_nat i * VMO_PAGE)) [0..<num_pages n] (vmo_pages v),
                vmo_size := n\<rparr>"
    have run: "resize_object pfree v c n = Some (Inr (), ?v, c)" using grow by (auto simp: resize_object_def)
    note pad = frames_pad [OF bt, of "[0..<num_pages n]"]
    have "case_option True (\<lambda>a. a = 0) (map_of ps k) \<longrightarrow> case_option True (\<lambda>a. a = 0) (map_of (or_insert j ps) k)"
      "map_of ps k = Some a \<Longrightarrow> map_of (or_insert j ps) k = Some a" if "bt_ok ps" for ps k j a
      using that by (auto simp: or_insert_def split: option.splits if_splits)
    then have oi: "resident (v\<lparr>vmo_pages := or_insert j ps\<rparr>) k = resident (v\<lparr>vmo_pages := ps\<rparr>) k" if "bt_ok ps" for ps k j
      using that unfolding resident_def by (cases "map_of ps k") (auto simp: or_insert_def split: option.splits)
    have "resident (v\<lparr>vmo_pages := fold (\<lambda>i. or_insert (of_nat i * VMO_PAGE)) is ps\<rparr>) k = resident (v\<lparr>vmo_pages := ps\<rparr>) k"
      if "bt_ok ps" for "is" ps k using that
    proof (induction "is" arbitrary: ps)
      case (Cons i "is")
      then have "bt_ok (or_insert (of_nat i * VMO_PAGE) ps)" by (simp add: or_insert_def)
      then show ?case using Cons oi by simp
    qed simp
    from this [OF bt] have r: "resident ?v k = resident v k" for k by (simp add: resident_def)
    show ?thesis by (rule that [OF run ok]) (use iv pad r grow in \<open>auto simp: vmo_inv_def vmo_frames_def\<close>)
  qed
qed

lemma vmo_drop_law:
  assumes "pok c" and "vmo_inv live c v"
  shows "\<exists>c'. vmo_drop pfree v c = Some c' \<and> pok c' \<and> stock c' = stock c \<union> set (vmo_frames v) \<and>
    (\<forall>b. b \<notin> set (vmo_frames v) \<longrightarrow> live c b \<longrightarrow> live c' b)"
  using free_each_law [OF assms(1), of "vmo_frames v"] assms
  by (auto simp: vmo_drop_def vmo_inv_def vmo_frames_def frames_drop)

lemma vmo_run_law:
  assumes "pok c" and "vmo_inv live c v" and "reserve + length xs \<le> card (stock c)"
  shows "\<exists>v' c'. vmo_run palloc pfree xs (v, c) = Some (v', c') \<and> pok c' \<and> vmo_inv live c' v' \<and>
     stock c' \<union> set (vmo_frames v') = stock c \<union> set (vmo_frames v)"
  using assms
proof (induction xs arbitrary: v c)
  case (Cons x xs)
  have "\<exists>v1 c1. vmo_step palloc pfree x (v, c) = Some (v1, c1) \<and> pok c1 \<and> vmo_inv live c1 v1 \<and>
     stock c1 \<union> set (vmo_frames v1) = stock c \<union> set (vmo_frames v) \<and> card (stock c) \<le> Suc (card (stock c1))"
  proof (cases x)
    case (VRequest off)
    have "palloc c \<noteq> None" using palloc_returns [OF Cons.prems(1)] Cons.prems(3) by simp
    then show ?thesis using request_page_law [OF Cons.prems(1,2), of off] VRequest by auto
  next
    case (VResize n)
    obtain r v1 c1 where r: "resize_object pfree v c n = Some (r, v1, c1)" "pok c1" "vmo_inv live c1 v1"
      "stock c1 \<union> set (vmo_frames v1) = stock c \<union> set (vmo_frames v)" "stock c \<subseteq> stock c1"
      by (rule resize_object_law [OF Cons.prems(1,2), of n])
    have "card (stock c) \<le> card (stock c1)" by (rule card_mono [OF stock_finite [OF r(2)] r(5)])
    then show ?thesis using r VResize by auto
  qed
  then obtain v1 c1 where s: "vmo_step palloc pfree x (v, c) = Some (v1, c1)" "pok c1" "vmo_inv live c1 v1"
     "stock c1 \<union> set (vmo_frames v1) = stock c \<union> set (vmo_frames v)" "card (stock c) \<le> Suc (card (stock c1))" by blast
  then show ?case using Cons.IH [OF s(2,3)] Cons.prems(3) by auto
qed auto

end

end
