(* ===== verification/Core_Frames.thy ===== *)
theory Core_Frames
  imports Magazine Paging_Inv Vmo
begin

text \<open>
  The per-core page allocator satisfies the two allocator contracts of the memory clients:
  \<open>page_frames\<close> for memory objects and \<open>table_source\<close> for page tables. The properties of
  memory objects and of the pager on the kernel's own allocator follow.
\<close>

type_synonym core_alloc = "magazine \<times> pmm"

definition core_live :: "core_alloc \<Rightarrow> nat \<Rightarrow> bool" where
  "core_live c a \<longleftrightarrow> frame_owned (snd c) a \<and> a \<notin> held (fst c)"

definition core_page_alloc :: "core_alloc \<Rightarrow> (nat \<times> core_alloc) run" where
  "core_page_alloc c = pc_alloc c Normal"

definition core_page_free :: "core_alloc \<Rightarrow> nat \<Rightarrow> core_alloc run" where
  "core_page_free c a = pc_free c a Normal"

lemma core_finite: "core_ok c \<Longrightarrow> finite (core_stock c)"
  using pmm_frames.finite_law by (auto simp: core_ok_def core_stock_def held_def)

lemma core_stock_card:
  assumes "core_ok c" and "127 < card (core_stock c)" and "mag_count (fst c) = 0"
  shows "128 \<le> card (frame_addrs (snd c))"
proof -
  have "held (fst c) = {}" using assms(3) by (simp add: held_def)
  then show ?thesis using assms(2) by (simp add: core_stock_def)
qed

interpretation core_pages: page_frames core_page_alloc core_page_free core_ok core_live core_stock 127
proof unfold_locales
  fix c assume ok: "core_ok c"
  obtain m s where c: "c = (m, s)" by (cases c)
  have mo: "pmm_frames.mag_ok m s" and pk: "pmm_ok s" using ok by (simp_all add: core_ok_iff c core_ok_def)
  note al = pmm_frames.mag_alloc_law [OF mo, unfolded core_ok_iff core_stock_eq]
  have live_stock: "core_live c b \<Longrightarrow> b \<notin> core_stock c" for b
    using pmm_frames.owned_law [OF pk, of b] by (auto simp: core_live_def core_stock_def c)
  then show "core_live c b \<Longrightarrow> b \<notin> core_stock c" for b .
  show "finite (core_stock c)" by (rule core_finite [OF ok])
  show "core_page_alloc c \<noteq> None" if "127 < card (core_stock c)"
    using al core_stock_card [OF ok that] by (auto simp: c core_page_alloc_def pc_alloc_def MAG_CAPACITY_def)
  show "core_ok c' \<and> a \<noteq> 0 \<and> a \<in> core_stock c \<and> core_stock c' = core_stock c - {a} \<and> \<not> core_live c a \<and>
      core_live c' a \<and> (\<forall>b. core_live c b \<longrightarrow> core_live c' b)"
    if "core_page_alloc c = Some (a, c')" for a c'
  proof -
    obtain m' s' where c': "c' = (m', s')" by (cases c')
    have st: "core_ok (m', s')" "a \<in> core_stock c" "core_stock (m', s') = core_stock c - {a}" "frame_owned s' a"
      "\<forall>b. frame_owned s b \<longrightarrow> frame_owned s' b"
      using al that by (auto simp: core_page_alloc_def pc_alloc_def c c')
    have "a \<noteq> 0" using st(4) by (simp add: frame_owned_def)
    moreover have "\<not> core_live c a" using live_stock st(2) by blast
    moreover have nh: "b \<notin> held m'" if "b \<notin> core_stock c - {a}" for b
      using that st(3) by (auto simp: core_stock_def)
    ultimately show ?thesis
      using st live_stock nh by (auto simp: core_live_def c c')
  qed
  show "\<exists>c'. core_page_free c a = Some c' \<and> core_ok c' \<and> core_stock c' = insert a (core_stock c) \<and>
      (\<forall>b. b \<noteq> a \<longrightarrow> core_live c b \<longrightarrow> core_live c' b)" if lv: "core_live c a" for a
  proof -
    have ow: "frame_owned s a" "a \<notin> held m" using lv by (simp_all add: core_live_def c)
    obtain m' s' where f: "pc_free c a Normal = Some (m', s')" "core_ok (m', s')"
      "core_stock (m', s') = insert a (core_stock c)" "\<forall>b. b \<notin> held m \<longrightarrow> frame_owned s b \<longrightarrow> frame_owned s' b"
      using pmm_frames.mag_free_law [OF mo ow, unfolded core_ok_iff core_stock_eq] by (auto simp: pc_free_def c)
    have "core_live (m', s') b" if "b \<noteq> a" "core_live c b" for b
      using that f(3,4) live_stock [OF that(2)] by (auto simp: core_live_def c core_stock_def)
    then show ?thesis using f by (auto simp: core_page_free_def)
  qed
qed

section \<open>Frames for page tables\<close>

definition table_alloc :: "core_alloc \<Rightarrow> (u64 \<times> core_alloc) run" where
  "table_alloc c = do { (a, c') \<leftarrow> core_page_alloc c; ret (of_nat a, c') }"

definition table_ok :: "core_alloc \<Rightarrow> bool" where
  "table_ok c \<longleftrightarrow> core_ok c \<and> (\<forall>a \<in> core_stock c. a < 2 ^ 52)"

definition table_spare :: "core_alloc \<Rightarrow> u64 set" where
  "table_spare c = of_nat ` core_stock c"

lemma core_stock_aligned: "core_ok c \<Longrightarrow> a \<in> core_stock c \<Longrightarrow> 4096 dvd a"
  by (auto simp: core_stock_def core_ok_def frame_owned_def block_ok_def aligned_def NORMAL_PAGE_SIZE_def frame_addrs_def)

lemma frame_word_addr:
  assumes "4096 dvd a" and "a < 2 ^ 52"
  shows "(of_nat a :: u64) AND ADDR_MASK = of_nat a"
proof (rule bit_word_eqI)
  fix n assume "n < LENGTH(64)"
  have lo: "\<not> bit a n" if "n < 12"
  proof -
    obtain k where "a = k * 2 ^ 12" using assms(1) by (auto simp: dvd_def mult.commute)
    then have "a = push_bit 12 k" by (simp add: push_bit_eq_mult)
    then show ?thesis using that by (simp add: bit_push_bit_iff)
  qed
  have hi: "\<not> bit a n" if "52 \<le> n"
  proof -
    have "take_bit 52 a = a" using assms(2) by (simp add: take_bit_nat_eq_self)
    then show ?thesis using that bit_take_bit_iff [of 52 a n] by auto
  qed
  show "bit ((of_nat a :: u64) AND ADDR_MASK) n \<longleftrightarrow> bit (of_nat a :: u64) n"
    using lo hi by (cases "n < 12"; cases "52 \<le> n") (auto simp: bit_and_iff ADDR_MASK_bits bit_of_nat_iff)
qed

lemma frame_word_inj: "inj_on (of_nat :: nat \<Rightarrow> u64) {a. a < 2 ^ 52}"
proof (rule inj_onI)
  fix a b :: nat assume *: "a \<in> {a. a < 2 ^ 52}" "b \<in> {a. a < 2 ^ 52}" "(of_nat a :: u64) = of_nat b"
  then have "a < 2 ^ LENGTH(64)" "b < 2 ^ LENGTH(64)" by auto
  then show "a = b" using arg_cong [OF *(3), of unat] by (simp add: unat_of_nat take_bit_nat_eq_self)
qed

lemma table_spare_card: "table_ok c \<Longrightarrow> card (table_spare c) = card (core_stock c)"
  unfolding table_spare_def table_ok_def
  by (intro card_image inj_on_subset [OF frame_word_inj]) auto

interpretation core_tables: table_source table_alloc table_ok table_spare 127
proof unfold_locales
  fix c assume ok: "table_ok c"
  then have cok: "core_ok c" and bd: "\<forall>a \<in> core_stock c. a < 2 ^ 52" by (auto simp: table_ok_def)
  show "table_alloc c \<noteq> None" if "127 < card (table_spare c)"
  proof -
    have "core_page_alloc c \<noteq> None" using core_pages.palloc_returns [OF cok] that table_spare_card [OF ok] by simp
    then show ?thesis by (auto simp: table_alloc_def)
  qed
  show "f AND ADDR_MASK = f" if "f \<in> table_spare c" for f
    using that bd core_stock_aligned [OF cok] frame_word_addr by (auto simp: table_spare_def)
  show "table_ok c' \<and> f \<in> table_spare c \<and> table_spare c' = table_spare c - {f}"
    if run: "table_alloc c = Some (f, c')" for f c'
  proof -
    obtain a where a: "core_page_alloc c = Some (a, c')" "f = of_nat a"
      using run by (auto simp: table_alloc_def split: bind_splits)
    note p = core_pages.palloc_some [OF cok a(1)]
    have "of_nat ` (core_stock c - {a}) = (of_nat ` core_stock c :: u64 set) - {of_nat a}"
      using inj_on_image_set_diff [OF frame_word_inj, of "core_stock c" "{a}"] bd p by auto
    then show ?thesis using p bd by (auto simp: table_ok_def table_spare_def a(2))
  qed
qed

section \<open>Properties on the kernel's allocator\<close>

text \<open>
  Page requests of a memory object. Past the end, or on an absent page of a physical
  object, the request fails and nothing changes. Otherwise it returns the frame recorded
  for the offset, allocating one only when the page had none, so asking twice gives the
  same frame; no other page changes, no frame is lost or shared, and the only panic is an
  exhausted allocator.
\<close>

theorem request_page_correct:
  assumes "core_ok c" and "vmo_inv core_live c v" and "127 < card (core_stock c)"
  shows "\<exists>r v' c'. request_page core_page_alloc v c off = Some (r, v', c') \<and> core_ok c' \<and>
     vmo_inv core_live c' v' \<and>
     core_stock c' \<union> set (vmo_frames v') = core_stock c \<union> set (vmo_frames v) \<and>
     (\<forall>k. k \<noteq> off \<longrightarrow> resident v' k = resident v k) \<and>
     (if vmo_size v \<le> off \<or> is_physical v \<and> resident v off = None then r = Inl ()
      else \<exists>a. r = Inr a \<and> resident v off \<in> {None, Some a} \<and>
             request_page core_page_alloc v' c' off = Some (Inr a, v', c'))"
proof -
  have "core_page_alloc c \<noteq> None" using core_pages.palloc_returns assms(1,3) by blast
  then obtain r v' c' where r: "request_page core_page_alloc v c off = Some (r, v', c')" "core_ok c'"
    "vmo_inv core_live c' v'" "core_stock c' \<union> set (vmo_frames v') = core_stock c \<union> set (vmo_frames v)"
    "vmo_size v' = vmo_size v" "\<forall>k. k \<noteq> off \<longrightarrow> resident v' k = resident v k"
    "case r of Inl _ \<Rightarrow> vmo_size v \<le> off \<or> is_physical v \<and> resident v off = None
             | Inr a \<Rightarrow> off < vmo_size v \<and> resident v' off = Some a \<and> resident v off \<in> {None, Some a}"
    using core_pages.request_page_law [OF assms(1,2), of off]
    by (elim disjE exE conjE) (simp, rule that, assumption+)
  have bad: "r = Inl ()" if "vmo_size v \<le> off \<or> is_physical v \<and> resident v off = None"
    using r(1) that by (auto simp: request_page_def split: option.splits if_splits)
  have good: "request_page core_page_alloc v' c' off = Some (Inr a, v', c')"
    if "off < vmo_size v" "resident v' off = Some a" for a
    using that r(5) by (simp add: request_page_def)
  show ?thesis using r bad good by (auto split: sum.splits)
qed

text \<open>
  C13. Life of an anonymous memory object. Whatever sequence of page requests and resizes
  follows its creation, dropping the object gives back every frame it took and no other:
  the allocator's stock ends as it began. With one spare frame per operation beyond the
  allocator's reserve, nothing in the sequence panics.
\<close>

theorem vmo_lifecycle:
  assumes "core_ok c" and "127 + length ops \<le> card (core_stock c)"
  shows "\<exists>v c' c''. vmo_run core_page_alloc core_page_free ops (vmo_new sz, c) = Some (v, c') \<and>
     vmo_inv core_live c' v \<and> core_stock c' \<inter> set (vmo_frames v) = {} \<and>
     vmo_drop core_page_free v c' = Some c'' \<and> core_ok c'' \<and> core_stock c'' = core_stock c"
proof -
  have iv: "vmo_inv core_live c (vmo_new sz)" by (simp add: vmo_inv_def vmo_new_empty)
  obtain v c' where r: "vmo_run core_page_alloc core_page_free ops (vmo_new sz, c) = Some (v, c')" "core_ok c'"
    "vmo_inv core_live c' v" "core_stock c' \<union> set (vmo_frames v) = core_stock c"
    using core_pages.vmo_run_law [OF assms(1) iv assms(2)] by (auto simp: vmo_new_empty)
  moreover have "core_stock c' \<inter> set (vmo_frames v) = {}"
    using core_pages.live_not_stock [OF r(2)] r(3) by (auto simp: vmo_inv_def)
  moreover obtain c'' where "vmo_drop core_page_free v c' = Some c''" "core_ok c''"
    "core_stock c'' = core_stock c' \<union> set (vmo_frames v)"
    using core_pages.vmo_drop_law [OF r(2,3)] by auto
  ultimately show ?thesis by (cases c'') auto
qed

text \<open>
  Mapping a page. With an aligned frame and address, flags that hold the present bit and
  no address bits, and three frames to spare, \<open>map_page\<close> never panics and changes exactly
  the page it is asked for: a walk of any address of that page finds the frame with these
  flags, a walk of any other address finds what it found before, and the tables remain a
  tree disjoint from the allocator's frames. A normal page must not lie inside a huge one.
\<close>

theorem pager_map_page_correct:
  assumes "pt_inv table_ok table_spare off (l4 + off) (tm, c)" and "130 \<le> card (core_stock c)"
    and "plain_flags fl" and "is_present fl"
    and "phys_aligned phys sz" and "virt_aligned v sz"
    and "sz = Normal \<longrightarrow> not_huge_at tm off (l4 + off) v"
  shows "\<exists>tm' c'. pager_map_page table_alloc l4 off (tm, c) v phys fl sz = Some (tm', c') \<and>
     pt_inv table_ok table_spare off (l4 + off) (tm', c') \<and> table_spare c' \<subseteq> table_spare c \<and>
     (\<forall>w. lookup tm' (l4 + off) off w =
        (if same_page sz v w then Some (leaf_pte phys fl sz, sz) else lookup tm (l4 + off) off w))"
proof -
  have ok: "table_ok c" using assms(1) by (simp add: pt_inv_def)
  have room: "127 + 3 \<le> card (table_spare c)" using assms(2) table_spare_card [OF ok] by simp
  obtain tm' c' where "map_page table_alloc (l4 + off) off (tm, c) v phys fl sz = Some (tm', c')"
    "pt_inv table_ok table_spare off (l4 + off) (tm', c')" "table_spare c' \<subseteq> table_spare c"
    "\<And>w. lookup tm' (l4 + off) off w =
       (if same_page sz v w then Some (leaf_pte phys fl sz, sz) else lookup tm (l4 + off) off w)"
    by (rule core_tables.map_page_law [OF assms(1) room assms(3,4,7), of phys]) (rule that)
  then show ?thesis using assms(5,6) by (auto simp: pager_map_page_def)
qed

text \<open>
  Unmapping a page makes exactly the addresses of that page fault, keeps the tree of
  tables, and panics only on a misaligned address.
\<close>

theorem pager_unmap_page_correct:
  assumes "pt_wf tm off (l4 + off)" and "sz = Normal \<longrightarrow> not_huge_at tm off (l4 + off) v"
  shows "pager_unmap_page l4 off tm v sz = None \<and> \<not> virt_aligned v sz \<or>
    (\<exists>tm'. pager_unmap_page l4 off tm v sz = Some tm' \<and> pt_wf tm' off (l4 + off) \<and>
       (\<forall>w. pager_translate l4 off tm' w =
          (if same_page sz v w then None else pager_translate l4 off tm w)))"
  using unmap_page_law [OF assms] by (auto simp: pager_unmap_page_def pager_translate_def translate_lookup)

section \<open>Witnesses\<close>

definition roomy_core :: core_alloc where
  "roomy_core = (magazine_init, one_free_pmm 2048 2097152 9)"

lemma roomy_core_ok: "core_ok roomy_core" "core_stock roomy_core = (\<lambda>p. p * 4096) ` {512..<1024}"
  "card (core_stock roomy_core) = 512"
proof -
  let ?s = "one_free_pmm 2048 2097152 9"
  have al: "aligned 2097152 9" "frames 2097152 9 = {512..<1024}"
    by (simp_all add: aligned_def frames_def NORMAL_PAGE_SIZE_def)
  note c = one_free_pmm_core [of 2097152 9 2048]
  have c1: "pmm_core ?s ((\<lambda>_. [])(9 := [2097152]))" "coalesced ((\<lambda>_. [])(9 := [2097152]))"
    "free_area ((\<lambda>_. [])(9 := [2097152])) = frames 2097152 9"
    using c [OF _ _ al(1)] by (simp_all add: ORDER_MAX_def NORMAL_PAGE_SIZE_def)
  have wf: "pmm_wf ?s" using c1(1,2) unfolding pmm_wf_def by blast
  have ff: "free_frames ?s = {512..<1024}" using free_frames_eq [OF c1(1)] c1(3) al by simp
  have len: "length (pfndb ?s) = 2048" by (simp add: one_free_pmm_def used_pmm_def)
  have h: "held magazine_init = {}" by (simp add: held_def magazine_init_def)
  show "core_ok roomy_core"
    using wf len h by (simp add: core_ok_def roomy_core_def pmm_ok_def db_covers_def ORDER_MAX_def mag_wf_def
        magazine_init_def MAG_CAPACITY_def)
  show st: "core_stock roomy_core = (\<lambda>p. p * 4096) ` {512..<1024}"
    by (simp add: core_stock_def roomy_core_def h frame_addrs_def ff NORMAL_PAGE_SIZE_def)
  have "inj_on (\<lambda>p. p * (4096 :: nat)) {512..<1024}" by (auto simp: inj_on_def)
  then show "card (core_stock roomy_core) = 512" unfolding st by (simp add: card_image)
qed

theorem request_page_correct_witness:
  "\<exists>a v' c'. request_page core_page_alloc (vmo_new 8192) roomy_core 4096 = Some (Inr a, v', c') \<and>
     core_ok c' \<and> vmo_inv core_live c' v'"
proof -
  have iv: "vmo_inv core_live roomy_core (vmo_new 8192)" by (simp add: vmo_inv_def vmo_new_empty)
  have "vmo_size (vmo_new 8192) = 8192" "\<not> is_physical (vmo_new 8192)" by (simp_all add: vmo_new_def)
  then show ?thesis
    using request_page_correct [OF roomy_core_ok(1) iv, of 4096] roomy_core_ok(3) by auto
qed

theorem vmo_lifecycle_witness:
  "\<exists>v c' c''. vmo_run core_page_alloc core_page_free [VRequest 0, VResize 4096, VRequest 4096] (vmo_new 8192, roomy_core)
       = Some (v, c') \<and> vmo_drop core_page_free v c' = Some c'' \<and> core_stock c'' = core_stock roomy_core"
  using vmo_lifecycle [OF roomy_core_ok(1), of "[VRequest 0, VResize 4096, VRequest 4096]" 8192] roomy_core_ok(3)
  by (auto simp del: vmo_run.simps)

definition empty_tables :: tables where
  "empty_tables = (\<lambda>_ _. 0)"

lemma empty_tables_tab: "tab empty_tables off n root p = Some t \<Longrightarrow> p = [] \<and> t = root"
  by (cases p) (auto simp: empty_tables_def descend_def next_table_def)

lemma empty_tables_inv:
  "pt_wf empty_tables off root" "not_huge_at empty_tables off root v"
  "pt_inv table_ok table_spare 0 (0x1000 + 0) (empty_tables, roomy_core)"
proof -
  show wf: "pt_wf empty_tables off root" for off root
    unfolding pt_wf_def using empty_tables_tab by blast
  show "not_huge_at empty_tables off root v"
    by (simp add: not_huge_at_def empty_tables_def descend_def next_table_def)
  have ts: "table_set empty_tables 0 0x1000 = {0x1000}"
    unfolding table_set_def
  proof (intro equalityI subsetI; clarsimp)
    fix t p assume "tab empty_tables 0 0 0x1000 p = Some t"
    then show "t = 0x1000" using empty_tables_tab by blast
  next
    show "\<exists>p. length p \<le> 3 \<and> tab empty_tables 0 0 0x1000 p = Some 0x1000" by (rule exI [of _ "[]"]) simp
  qed
  have tok: "table_ok roomy_core" using roomy_core_ok(1,2) by (auto simp: table_ok_def)
  have "0x1000 \<notin> table_spare roomy_core"
  proof
    assume "0x1000 \<in> table_spare roomy_core"
    then have "(of_nat 4096 :: u64) \<in> of_nat ` core_stock roomy_core" by (simp add: table_spare_def)
    then obtain a where a: "a \<in> core_stock roomy_core" "(of_nat 4096 :: u64) = of_nat a" by (rule imageE) blast
    from a(1) obtain p where p: "p \<in> {512..<1024}" "a = p * 4096" unfolding roomy_core_ok(2) by (rule imageE) blast
    have "4096 = a" by (rule inj_onD [OF frame_word_inj a(2)]) (use p in auto)
    then show False using p by simp
  qed
  then show "pt_inv table_ok table_spare 0 (0x1000 + 0) (empty_tables, roomy_core)"
    using wf tok ts by (auto simp: pt_inv_def)
qed

theorem pager_map_page_correct_witness:
  "\<exists>tm' c'. pager_map_page table_alloc 0x1000 0 (empty_tables, roomy_core) 0x40000000 0x5000 7 Normal = Some (tm', c') \<and>
     lookup tm' (0x1000 + 0) 0 0x40000123 = Some (leaf_pte 0x5000 7 Normal, Normal)"
proof -
  have al: "phys_aligned 0x5000 Normal" "virt_aligned 0x40000000 Normal"
    by (simp_all add: phys_aligned_def virt_aligned_def get_offset_def)
  have sp: "same_page Normal 0x40000000 0x40000123"
    by (simp add: same_page_def i4_def i3_def i2_def i1_def get_idxs_def)
  show ?thesis
    using pager_map_page_correct [OF empty_tables_inv(3) _ table_flags(3,1) al] roomy_core_ok(3)
      empty_tables_inv(2) sp by force
qed

theorem pager_unmap_page_correct_witness:
  "\<exists>tm'. pager_unmap_page 0x1000 0 empty_tables 0x40000000 Huge = Some tm' \<and>
     (\<forall>w. pager_translate 0x1000 0 tm' w =
        (if same_page Huge 0x40000000 w then None else pager_translate 0x1000 0 empty_tables w))"
proof -
  have "virt_aligned 0x40000000 Huge" by (simp add: virt_aligned_def get_huge_offset_def)
  then show ?thesis
    using pager_unmap_page_correct [of empty_tables 0 "0x1000" Huge "0x40000000", OF empty_tables_inv(1)] by auto
qed

end
