(* ===== verification/Bytes.thy ===== *)
theory Bytes
  imports Prelude
begin

text \<open>
  Bytes in memory: the physical memory the drivers reach through the direct map, as a byte per
  address, and the little-endian layout of the integers in on-disk and in-memory structures.
\<close>

type_synonym pmem = "nat \<Rightarrow> u8"

definition poke :: "pmem \<Rightarrow> nat \<Rightarrow> u8 list \<Rightarrow> pmem" where
  "poke m p bs = (\<lambda>a. if p \<le> a \<and> a < p + length bs then bs ! (a - p) else m a)"

definition peek :: "pmem \<Rightarrow> nat \<Rightarrow> nat \<Rightarrow> u8 list" where
  "peek m p n = map m [p..<p + n]"

definition le_bytes :: "nat \<Rightarrow> 'a::len word \<Rightarrow> u8 list" where
  "le_bytes n w = map (\<lambda>k. ucast (drop_bit (8 * k) w)) [0..<n]"

fun le_word :: "u8 list \<Rightarrow> 'a::len word" where
  "le_word [] = 0"
| "le_word (b # bs) = ucast b OR push_bit 8 (le_word bs)"

abbreviation field :: "u8 list \<Rightarrow> nat \<Rightarrow> nat \<Rightarrow> 'a::len word" where
  "field bs off n \<equiv> le_word (take n (drop off bs))"

section \<open>Memory\<close>

lemma length_peek [simp]: "length (peek m p n) = n"
  by (simp add: peek_def)

lemma peek_nth [simp]: "i < n \<Longrightarrow> peek m p n ! i = m (p + i)"
  by (simp add: peek_def)

lemma peek_poke_same: "peek (poke m p bs) p (length bs) = bs"
  by (rule nth_equalityI) (simp_all add: poke_def)

lemma peek_poke_within:
  "off + n \<le> length bs \<Longrightarrow> peek (poke m p bs) (p + off) n = take n (drop off bs)"
  by (rule nth_equalityI) (simp_all add: poke_def add.assoc)

lemma peek_poke_apart: "q + n \<le> p \<or> p + length bs \<le> q \<Longrightarrow> peek (poke m p bs) q n = peek m q n"
  by (rule nth_equalityI) (auto simp: poke_def)

lemma poke_apart: "a < p \<or> p + length bs \<le> a \<Longrightarrow> poke m p bs a = m a"
  by (auto simp: poke_def)

lemma poke_Nil [simp]: "poke m p [] = m"
  by (auto simp: poke_def fun_eq_iff)

lemma take_peek: "take k (peek m p n) = peek m p (min k n)"
  by (rule nth_equalityI) simp_all

lemma drop_peek: "drop k (peek m p n) = peek m (p + k) (n - k)"
  by (rule nth_equalityI) (simp_all add: add.assoc)

section \<open>Little-endian integers\<close>

lemma length_le_bytes [simp]: "length (le_bytes n w) = n"
  by (simp add: le_bytes_def)

lemma le_bytes_Suc: "le_bytes (Suc n) w = ucast w # le_bytes n (drop_bit 8 w)"
  by (simp add: le_bytes_def map_upt_Suc add.commute del: upt_Suc)

lemma le_word_le_bytes: "le_word (le_bytes n w) = take_bit (8 * n) w"
proof (induction n arbitrary: w)
  case 0
  then show ?case by (simp add: le_bytes_def)
next
  case (Suc n)
  have "ucast (ucast w :: u8) OR push_bit 8 (take_bit (8 * n) (drop_bit 8 w)) = take_bit (8 * Suc n) w"
    by (rule bit_word_eqI) (auto simp: bit_simps)
  then show ?case by (simp add: le_bytes_Suc Suc.IH)
qed

lemma le_word_zeros [simp]: "le_word (replicate n 0) = 0"
  by (induction n) simp_all

lemma le_roundtrip: "LENGTH('a) \<le> 8 * n \<Longrightarrow> le_word (le_bytes n (w :: 'a::len word)) = w"
  by (simp add: le_word_le_bytes take_bit_word_eq_self)

end
