(* ===== verification/Slab.thy ===== *)
theory Slab
  imports Prelude
begin

text \<open>
  The slab allocator of \<^verbatim>\<open>lib/vespertine-common/src/slab.rs\<close>, used by the kernel heap and by
  user space. Ten caches keep singly linked free lists of power-of-two objects, threaded
  through the objects themselves; memory is a map from addresses to the pointer stored
  there. The page provider is the trait \<^verbatim>\<open>PageProvider\<close>: the locale \<open>page_provider\<close>
  states what the allocator needs of it, and the allocator's correctness is proved there.
\<close>

section \<open>Size classes\<close>

definition CACHE_SIZES :: "nat list" where
  "CACHE_SIZES = [8, 16, 32, 64, 128, 256, 512, 1024, 2048, 4096]"

definition SLAB_PAGE_SIZE :: nat where
  "SLAB_PAGE_SIZE = 4096"

text \<open>\<open>next_power_of_two\<close> and \<open>ilog2\<close> of the standard library.\<close>

function npot_from :: "nat \<Rightarrow> nat \<Rightarrow> nat" where
  "npot_from k n = (if n \<le> 2 ^ k then 2 ^ k else npot_from (Suc k) n)"
  by pat_completeness auto
termination
proof (relation "measure (\<lambda>(k, n). n - k)")
  fix k n :: nat
  assume "\<not> n \<le> 2 ^ k"
  then have "k < n" using less_exp [of k] by (meson less_trans not_le)
  then show "((Suc k, n), k, n) \<in> measure (\<lambda>(k, n). n - k)" by simp
qed simp

declare npot_from.simps [simp del]

definition next_power_of_two :: "nat \<Rightarrow> nat" where
  "next_power_of_two n = npot_from 0 n"

fun ilog2 :: "nat \<Rightarrow> nat" where
  "ilog2 n = (if n < 2 then 0 else Suc (ilog2 (n div 2)))"

declare ilog2.simps [simp del]

lemma npot_from_spec:
  "\<exists>j. k \<le> j \<and> npot_from k n = 2 ^ j \<and> n \<le> 2 ^ j \<and> (k < j \<longrightarrow> 2 ^ (j - 1) < n)"
proof (induction k n rule: npot_from.induct)
  case (1 k n)
  show ?case
  proof (cases "n \<le> 2 ^ k")
    case True
    then show ?thesis by (auto simp: npot_from.simps [of k])
  next
    case False
    then obtain j where "Suc k \<le> j" "npot_from (Suc k) n = 2 ^ j" "n \<le> 2 ^ j"
      "Suc k < j \<longrightarrow> 2 ^ (j - 1) < n"
      using 1 by blast
    with False show ?thesis
      by (intro exI [of _ j]) (cases "Suc k = j", auto simp: npot_from.simps [of k])
  qed
qed

lemma next_power_of_two_spec:
  obtains j where "next_power_of_two n = 2 ^ j" "n \<le> 2 ^ j" "0 < j \<Longrightarrow> 2 ^ (j - 1) < n"
  using npot_from_spec [of 0 n] unfolding next_power_of_two_def by auto

lemma ilog2_pow [simp]: "ilog2 (2 ^ j) = j"
  by (induction j) (simp_all add: ilog2.simps)

record layout =
  l_size :: nat
  l_align :: nat

definition calc_size :: "layout \<Rightarrow> nat" where
  "calc_size l = next_power_of_two (max (l_size l) (l_align l))"

definition cache_index :: "nat \<Rightarrow> nat" where
  "cache_index sz = ilog2 sz - 3"

definition layout_ok :: "layout \<Rightarrow> bool" where
  "layout_ok l \<longleftrightarrow> (\<exists>k. l_align l = 2 ^ k)"

lemma cache_sizes_nth:
  assumes "i < 10"
  shows "CACHE_SIZES ! i = 2 ^ (i + 3)"
proof -
  have *: "CACHE_SIZES = map (\<lambda>i. 2 ^ (i + 3)) [0 ..< 10]"
    by (simp add: CACHE_SIZES_def upt_rec)
  have "i < length [0 ..< 10]" using assms by simp
  then have "CACHE_SIZES ! i = 2 ^ ([0 ..< 10] ! i + 3)" unfolding * by (rule nth_map)
  moreover have "[0 ..< 10] ! i = 0 + i" using assms by (intro nth_upt) simp
  ultimately show ?thesis by simp
qed

text \<open>
  The size class of a request of at most a page exists, is big enough, and is a multiple of
  the alignment asked for.
\<close>

lemma size_class:
  assumes "layout_ok l" and "calc_size l \<le> SLAB_PAGE_SIZE"
  shows "cache_index (calc_size l) < 10" and "l_size l \<le> CACHE_SIZES ! cache_index (calc_size l)"
    and "l_align l dvd CACHE_SIZES ! cache_index (calc_size l)"
proof -
  obtain j where j: "calc_size l = 2 ^ j" "max (l_size l) (l_align l) \<le> 2 ^ j"
    unfolding calc_size_def by (rule next_power_of_two_spec)
  have "(2::nat) ^ j \<le> 2 ^ 12" using assms(2) j(1) by (simp add: SLAB_PAGE_SIZE_def)
  then have "j \<le> 12" by (simp only: power_increasing_iff)
  then show i: "cache_index (calc_size l) < 10" by (simp add: j(1) cache_index_def)
  have e: "CACHE_SIZES ! cache_index (calc_size l) = 2 ^ (cache_index (calc_size l) + 3)"
    using i by (rule cache_sizes_nth)
  have le: "j \<le> cache_index (calc_size l) + 3" by (simp add: j(1) cache_index_def)
  then have "(2::nat) ^ j \<le> CACHE_SIZES ! cache_index (calc_size l)" unfolding e by (rule power_increasing) simp
  then show "l_size l \<le> CACHE_SIZES ! cache_index (calc_size l)" using j(2) by simp
  obtain k where k: "l_align l = 2 ^ k" using assms(1) by (auto simp: layout_ok_def)
  have "(2::nat) ^ k \<le> 2 ^ j" using j(2) k by simp
  then have "k \<le> j" by simp
  then show "l_align l dvd CACHE_SIZES ! cache_index (calc_size l)"
    unfolding e k using le by (intro le_imp_power_dvd) simp
qed

section \<open>Caches\<close>

type_synonym heap = "nat \<Rightarrow> nat"

record mem_cache =
  object_size :: nat
  freelist_head :: "nat option"

definition slab_new :: "mem_cache list" where
  "slab_new = map (\<lambda>sz. \<lparr>object_size = sz, freelist_head = None\<rparr>) CACHE_SIZES"

text \<open>The loop of \<^verbatim>\<open>refill\<close>: object \<open>i\<close> of the page points to object \<open>i + 1\<close>, the last one to null.\<close>

fun link_objects :: "nat \<Rightarrow> nat \<Rightarrow> nat \<Rightarrow> nat list \<Rightarrow> heap \<Rightarrow> heap" where
  "link_objects start sz num [] h = h"
| "link_objects start sz num (i # is) h =
    link_objects start sz num is
      (h(start + sz * i := (if i = num - 1 then 0 else start + (i + 1) * sz)))"

definition refill :: "('p \<Rightarrow> nat \<Rightarrow> (nat \<times> 'p) run) \<Rightarrow> mem_cache \<Rightarrow> heap \<Rightarrow> 'p
    \<Rightarrow> (nat \<times> mem_cache \<times> heap \<times> 'p) run" where
  "refill allocate_pages c h p =
    do { (start, p') \<leftarrow> allocate_pages p SLAB_PAGE_SIZE;
         let num = SLAB_PAGE_SIZE div object_size c;
             h' = link_objects start (object_size c) num [1 ..< num] h
         in ret (start,
                 c\<lparr>freelist_head := (if 1 < num then Some (start + object_size c) else None)\<rparr>, h', p') }"

definition cache_allocate :: "('p \<Rightarrow> nat \<Rightarrow> (nat \<times> 'p) run) \<Rightarrow> mem_cache \<Rightarrow> heap \<Rightarrow> 'p
    \<Rightarrow> (nat \<times> mem_cache \<times> heap \<times> 'p) run" where
  "cache_allocate allocate_pages c h p =
    (case freelist_head c of
       Some block \<Rightarrow>
         if block \<noteq> 0
         then ret (block, c\<lparr>freelist_head := (if h block = 0 then None else Some (h block))\<rparr>, h, p)
         else refill allocate_pages c h p
     | None \<Rightarrow> refill allocate_pages c h p)"

definition cache_deallocate :: "mem_cache \<Rightarrow> heap \<Rightarrow> nat \<Rightarrow> mem_cache \<times> heap" where
  "cache_deallocate c h ptr =
    (c\<lparr>freelist_head := Some ptr\<rparr>,
     h(ptr := (case freelist_head c of Some x \<Rightarrow> x | None \<Rightarrow> 0)))"

record 'p slab =
  caches :: "mem_cache list"
  memory :: heap
  provider :: 'p

definition slab_alloc :: "('p \<Rightarrow> nat \<Rightarrow> (nat \<times> 'p) run) \<Rightarrow> 'p slab \<Rightarrow> layout \<Rightarrow> (nat \<times> 'p slab) run" where
  "slab_alloc allocate_pages s l =
    (let sz = calc_size l
     in if sz \<le> SLAB_PAGE_SIZE
        then do { c \<leftarrow> idx (caches s) (cache_index sz);
                  (a, c', h', p') \<leftarrow> cache_allocate allocate_pages c (memory s) (provider s);
                  ret (a, s\<lparr>caches := (caches s)[cache_index sz := c'], memory := h', provider := p'\<rparr>) }
        else do { (a, p') \<leftarrow> allocate_pages (provider s)
                                 ((sz + SLAB_PAGE_SIZE - 1) div SLAB_PAGE_SIZE * SLAB_PAGE_SIZE);
                  ret (a, s\<lparr>provider := p'\<rparr>) })"

definition slab_dealloc ::
  "('p \<Rightarrow> nat \<Rightarrow> nat \<Rightarrow> 'p run) \<Rightarrow> 'p slab \<Rightarrow> nat \<Rightarrow> layout \<Rightarrow> 'p slab run" where
  "slab_dealloc free_pages s ptr l =
    (if ptr = 0 then ret s
     else let sz = calc_size l
          in if sz \<le> SLAB_PAGE_SIZE
             then do { c \<leftarrow> idx (caches s) (cache_index sz);
                       let (c', h') = cache_deallocate c (memory s) ptr
                       in ret (s\<lparr>caches := (caches s)[cache_index sz := c'], memory := h'\<rparr>) }
             else do { p' \<leftarrow> free_pages (provider s) ptr
                               ((sz + SLAB_PAGE_SIZE - 1) div SLAB_PAGE_SIZE * SLAB_PAGE_SIZE);
                       ret (s\<lparr>provider := p'\<rparr>) })"

section \<open>Free lists\<close>

fun sll :: "heap \<Rightarrow> nat \<Rightarrow> nat list \<Rightarrow> bool" where
  "sll h x [] \<longleftrightarrow> x = 0"
| "sll h x (a # as) \<longleftrightarrow> x = a \<and> a \<noteq> 0 \<and> sll h (h a) as"

definition head_ptr :: "mem_cache \<Rightarrow> nat" where
  "head_ptr c = (case freelist_head c of Some x \<Rightarrow> x | None \<Rightarrow> 0)"

lemma sll_cong: "(\<And>a. a \<in> set xs \<Longrightarrow> h' a = h a) \<Longrightarrow> sll h' x xs = sll h x xs"
  by (induction xs arbitrary: x) auto

definition page_of :: "nat \<Rightarrow> nat" where
  "page_of a = a - a mod SLAB_PAGE_SIZE"

text \<open>The objects of a page but the first, in address order.\<close>

definition page_objects :: "nat \<Rightarrow> nat \<Rightarrow> nat list" where
  "page_objects start sz = map (\<lambda>i. start + sz * i) [1 ..< SLAB_PAGE_SIZE div sz]"

lemma link_objects_other:
  "(\<And>i. i \<in> set is \<Longrightarrow> a \<noteq> start + sz * i) \<Longrightarrow> link_objects start sz num is h a = h a"
  by (induction "is" arbitrary: h) auto

lemma link_objects_sll:
  assumes "0 < sz" and "0 < start" and "k \<le> num" and "1 \<le> num"
  shows "sll (link_objects start sz num [k ..< num] h) (if k < num then start + sz * k else 0)
           (map (\<lambda>i. start + sz * i) [k ..< num])"
  using assms(3)
proof (induction "num - k" arbitrary: k h)
  case 0
  then show ?case by simp
next
  case (Suc n)
  then have k: "k < num" by simp
  let ?h = "h(start + sz * k := (if k = num - 1 then 0 else start + (k + 1) * sz))"
  let ?g = "link_objects start sz num [Suc k ..< num] ?h"
  have other: "?g (start + sz * k) = ?h (start + sz * k)"
    using assms(1) by (intro link_objects_other) auto
  have IH: "sll ?g (if Suc k < num then start + sz * Suc k else 0)
      (map (\<lambda>i. start + sz * i) [Suc k ..< num])"
    using Suc k by (intro Suc.hyps(1)) simp_all
  have up: "[k ..< num] = k # [Suc k ..< num]" using k by (simp add: upt_conv_Cons)
  have "?g (start + sz * k) = (if Suc k < num then start + sz * Suc k else 0)"
    unfolding other using k assms(4) by (auto simp: algebra_simps)
  then show ?case unfolding up using IH assms(2) k by simp
qed

lemma page_of_object:
  assumes "SLAB_PAGE_SIZE dvd start" and "sz dvd SLAB_PAGE_SIZE" and "i < SLAB_PAGE_SIZE div sz" and "0 < sz"
  shows "page_of (start + sz * i) = start"
proof -
  have "sz * i < SLAB_PAGE_SIZE"
    using assms(2-4) by (metis dvd_mult_div_cancel mult_less_cancel1)
  moreover obtain q where "start = SLAB_PAGE_SIZE * q" using assms(1) by (auto simp: dvd_def)
  ultimately show ?thesis by (simp add: page_of_def)
qed

section \<open>Correctness over any page provider\<close>

text \<open>
  \<open>X i\<close> is the free list of cache \<open>i\<close> and \<open>G\<close> says which cache a page was given to.
\<close>

definition object_in :: "(nat \<Rightarrow> nat option) \<Rightarrow> nat \<Rightarrow> nat \<Rightarrow> bool" where
  "object_in G i a \<longleftrightarrow> a \<noteq> 0 \<and> G (page_of a) = Some i \<and> CACHE_SIZES ! i dvd a"

definition slab_rel :: "'p slab \<Rightarrow> (nat \<Rightarrow> nat option) \<Rightarrow> (nat \<Rightarrow> nat list) \<Rightarrow> bool" where
  "slab_rel s G X \<longleftrightarrow> length (caches s) = 10 \<and>
     (\<forall>i < 10. object_size (caches s ! i) = CACHE_SIZES ! i \<and>
        sll (memory s) (head_ptr (caches s ! i)) (X i) \<and> distinct (X i) \<and>
        (\<forall>a \<in> set (X i). object_in G i a))"

lemma cache_size_page: "i < 10 \<Longrightarrow> 0 < CACHE_SIZES ! i \<and> CACHE_SIZES ! i dvd SLAB_PAGE_SIZE"
proof -
  assume i: "i < 10"
  have "(2::nat) ^ (i + 3) dvd 2 ^ 12" using i by (intro le_imp_power_dvd) simp
  then show ?thesis using i by (simp add: cache_sizes_nth SLAB_PAGE_SIZE_def)
qed

lemma sll_head_ptr: "sll h (head_ptr c) (x # xs) \<Longrightarrow> freelist_head c = Some x \<and> x \<noteq> 0 \<and> sll h (h x) xs"
  by (auto simp: head_ptr_def split: option.splits)

lemma sll_head_nil: "sll h (head_ptr c) [] \<Longrightarrow> freelist_head c = None \<or> freelist_head c = Some 0"
  by (auto simp: head_ptr_def split: option.splits)

lemma object_in_other: "object_in G i a \<Longrightarrow> object_in G j b \<Longrightarrow> i \<noteq> j \<Longrightarrow> a \<noteq> b"
  by (auto simp: object_in_def)

lemma slab_rel_pop:
  assumes rel: "slab_rel s G X" and i: "i < 10" and X: "X i = x # xs"
  defines "c \<equiv> (caches s ! i)\<lparr>freelist_head := (if memory s x = 0 then None else Some (memory s x))\<rparr>"
  shows "cache_allocate ap (caches s ! i) (memory s) p = Some (x, c, memory s, p)"
    and "slab_rel (s\<lparr>caches := (caches s)[i := c]\<rparr>) G (X(i := xs))"
proof -
  have l: "sll (memory s) (head_ptr (caches s ! i)) (x # xs)" "distinct (x # xs)"
    using rel i X by (auto simp: slab_rel_def)
  note h = sll_head_ptr [OF l(1)]
  then show "cache_allocate ap (caches s ! i) (memory s) p = Some (x, c, memory s, p)"
    by (simp add: cache_allocate_def c_def)
  have "head_ptr c = memory s x" "object_size c = object_size (caches s ! i)"
    by (simp_all add: head_ptr_def c_def)
  then show "slab_rel (s\<lparr>caches := (caches s)[i := c]\<rparr>) G (X(i := xs))"
    using rel i h l(2) X unfolding slab_rel_def by (auto simp: nth_list_update)
qed

lemma slab_rel_refill:
  assumes rel: "slab_rel s G X" and i: "i < 10" and X: "X i = []"
    and pg: "SLAB_PAGE_SIZE dvd st" "st \<noteq> 0" "G st = None"
  defines "sz \<equiv> CACHE_SIZES ! i" and "num \<equiv> SLAB_PAGE_SIZE div CACHE_SIZES ! i"
  defines "c \<equiv> (caches s ! i)\<lparr>freelist_head := (if 1 < num then Some (st + sz) else None)\<rparr>"
  shows "slab_rel (s\<lparr>caches := (caches s)[i := c], memory := link_objects st sz num [1 ..< num] (memory s),
             provider := p\<rparr>) (G(st := Some i)) (X(i := page_objects st sz))"
proof -
  let ?h = "link_objects st sz num [1 ..< num] (memory s)"
  have sz: "0 < sz" "sz dvd SLAB_PAGE_SIZE" using cache_size_page [OF i] by (auto simp: sz_def)
  have num: "1 \<le> num" using sz dvd_imp_le [OF sz(2)]
    by (simp add: num_def sz_def [symmetric] SLAB_PAGE_SIZE_def div_greater_zero_iff Suc_le_eq)
  have objs: "object_in (G(st := Some i)) i a" "page_of a = st" if a: "a \<in> set (page_objects st sz)" for a
  proof -
    obtain k where k: "a = st + sz * k" "k < SLAB_PAGE_SIZE div sz" "1 \<le> k"
      using a unfolding page_objects_def by fastforce
    have "sz dvd st" using sz(2) pg(1) by (rule dvd_trans)
    then have "sz dvd a" by (simp add: k(1))
    moreover show "page_of a = st" using page_of_object [OF pg(1) sz(2) k(2) sz(1)] k(1) by simp
    ultimately show "object_in (G(st := Some i)) i a" using pg(2) k(1) by (simp add: object_in_def sz_def)
  qed
  have new: "sll ?h (head_ptr c) (page_objects st sz)"
    using link_objects_sll [OF sz(1) _ num num, of st "memory s"] pg(2)
    by (auto simp: c_def head_ptr_def page_objects_def num_def sz_def)
  have dist: "distinct (page_objects st sz)"
    using sz(1) by (simp add: page_objects_def distinct_map inj_on_def)
  have old: "sll ?h (head_ptr (caches s ! j)) (X j)" "distinct (X j)" "\<forall>a \<in> set (X j). object_in (G(st := Some i)) j a"
    if j: "j < 10" "j \<noteq> i" for j
  proof -
    have oj: "\<forall>a \<in> set (X j). object_in G j a" using rel j(1) by (simp add: slab_rel_def)
    then have pj: "page_of a \<noteq> st" if "a \<in> set (X j)" for a using that pg(3) by (auto simp: object_in_def)
    have "?h a = memory s a" if a: "a \<in> set (X j)" for a
    proof (rule link_objects_other)
      fix k assume "k \<in> set [1 ..< num]"
      then have "page_of (st + sz * k) = st" using page_of_object [OF pg(1) sz(2) _ sz(1)] by (simp add: num_def sz_def)
      then show "a \<noteq> st + sz * k" using pj [OF a] by auto
    qed
    then show "sll ?h (head_ptr (caches s ! j)) (X j)"
      using rel j(1) sll_cong [of "X j" ?h "memory s"] by (simp add: slab_rel_def)
    show "distinct (X j)" using rel j(1) by (simp add: slab_rel_def)
    show "\<forall>a \<in> set (X j). object_in (G(st := Some i)) j a" using oj pj by (auto simp: object_in_def)
  qed
  have os: "object_size c = CACHE_SIZES ! i" "length (caches s) = 10"
    "\<forall>j < 10. object_size (caches s ! j) = CACHE_SIZES ! j"
    using rel i by (auto simp: slab_rel_def c_def)
  show ?thesis
    unfolding slab_rel_def using new dist objs(1) old os by (auto simp: nth_list_update)
qed

lemma slab_rel_push:
  assumes rel: "slab_rel s G X" and i: "i < 10" and a: "object_in G i a" "a \<notin> set (X i)"
  defines "c \<equiv> (caches s ! i)\<lparr>freelist_head := Some a\<rparr>"
  shows "slab_rel (s\<lparr>caches := (caches s)[i := c], memory := (memory s)(a := head_ptr (caches s ! i))\<rparr>)
           G (X(i := a # X i))"
proof -
  let ?h = "(memory s)(a := head_ptr (caches s ! i))"
  have keep: "sll ?h x (X j) = sll (memory s) x (X j)" if j: "j < 10" for j x
  proof (rule sll_cong)
    fix b assume b: "b \<in> set (X j)"
    have "object_in G j b" using rel j b by (simp add: slab_rel_def)
    then have "b \<noteq> a" using a b object_in_other by blast
    then show "?h b = memory s b" by simp
  qed
  have "a \<noteq> 0" using a(1) by (simp add: object_in_def)
  then have "sll ?h (head_ptr c) (a # X i)"
    using keep [OF i] rel i by (simp add: c_def head_ptr_def slab_rel_def)
  then show ?thesis
    unfolding slab_rel_def using rel i a keep by (auto simp: slab_rel_def c_def nth_list_update)
qed

text \<open>Two objects that lie in caches' pages do not overlap unless they are the same object.\<close>

lemma objects_disjoint:
  assumes "object_in G i a" and "object_in G j b" and "i < 10" and "j < 10" and "a \<noteq> b"
  shows "{a ..< a + CACHE_SIZES ! i} \<inter> {b ..< b + CACHE_SIZES ! j} = {}"
proof (cases "page_of a = page_of b")
  case True
  then have ij: "i = j" using assms(1,2) by (simp add: object_in_def)
  obtain x y where xy: "a = CACHE_SIZES ! i * x" "b = CACHE_SIZES ! i * y"
    using assms(1,2) ij by (auto simp: object_in_def dvd_def)
  then consider "x < y" | "y < x" using assms(5) by fastforce
  then show ?thesis
  proof cases
    case 1
    then have "CACHE_SIZES ! i * (x + 1) \<le> CACHE_SIZES ! i * y" by (intro mult_le_mono2) simp
    then show ?thesis using xy ij by auto
  next
    case 2
    then have "CACHE_SIZES ! i * (y + 1) \<le> CACHE_SIZES ! i * x" by (intro mult_le_mono2) simp
    then show ?thesis using xy ij by auto
  qed
next
  case False
  have in_page: "{a ..< a + CACHE_SIZES ! i} \<subseteq> {page_of a ..< page_of a + SLAB_PAGE_SIZE}"
    if "CACHE_SIZES ! i dvd a" "i < 10" for a i
  proof -
    note sz = cache_size_page [OF that(2)]
    have "CACHE_SIZES ! i dvd a mod SLAB_PAGE_SIZE" using that(1) sz by (simp add: dvd_mod)
    then obtain k where k: "a mod SLAB_PAGE_SIZE = CACHE_SIZES ! i * k" by (auto simp: dvd_def)
    obtain n where n: "SLAB_PAGE_SIZE = CACHE_SIZES ! i * n" using sz by (auto simp: dvd_def)
    have "CACHE_SIZES ! i * k < CACHE_SIZES ! i * n"
      using k n mod_less_divisor [of SLAB_PAGE_SIZE a] by (simp add: SLAB_PAGE_SIZE_def)
    then have "k + 1 \<le> n" by simp
    then have "CACHE_SIZES ! i * (k + 1) \<le> CACHE_SIZES ! i * n" by (rule mult_le_mono2)
    then have "a mod SLAB_PAGE_SIZE + CACHE_SIZES ! i \<le> SLAB_PAGE_SIZE" using k n by simp
    moreover have "a = page_of a + a mod SLAB_PAGE_SIZE" by (simp add: page_of_def)
    ultimately show ?thesis by auto
  qed
  have pg: "SLAB_PAGE_SIZE dvd page_of c" for c by (simp add: page_of_def)
  obtain u v where uv: "page_of a = SLAB_PAGE_SIZE * u" "page_of b = SLAB_PAGE_SIZE * v"
    using pg by (metis dvd_def)
  then have "u \<noteq> v" using False by auto
  then have "{page_of a ..< page_of a + SLAB_PAGE_SIZE} \<inter> {page_of b ..< page_of b + SLAB_PAGE_SIZE} = {}"
    unfolding uv SLAB_PAGE_SIZE_def by auto
  moreover have "CACHE_SIZES ! i dvd a" "CACHE_SIZES ! j dvd b" using assms(1,2) by (auto simp: object_in_def)
  ultimately show ?thesis using in_page [OF _ assms(3)] in_page [OF _ assms(4)] by blast
qed

text \<open>An object that is on no free list overlaps no object that is.\<close>

lemma lists_disjoint:
  assumes "slab_rel s G X" and "i < 10" and "object_in G i a" and "a \<notin> set (X i)" and "j < 10" and "b \<in> set (X j)"
  shows "{a ..< a + CACHE_SIZES ! i} \<inter> {b ..< b + CACHE_SIZES ! j} = {}"
proof (rule objects_disjoint)
  show "object_in G j b" using assms(1,5,6) by (simp add: slab_rel_def)
  then show "a \<noteq> b" using assms(3,4,6) object_in_other by blast
qed (use assms in auto)

text \<open>
  What the allocator relies on: a page handed out is aligned, not null, and not one that is
  already live, and live pages stay live.
\<close>

locale page_provider =
  fixes allocate_pages :: "'p \<Rightarrow> nat \<Rightarrow> (nat \<times> 'p) run"
    and provider_ok :: "'p \<Rightarrow> bool"
    and live :: "'p \<Rightarrow> nat set"
  assumes page_law: "provider_ok p \<Longrightarrow> allocate_pages p SLAB_PAGE_SIZE = Some (a, p') \<Longrightarrow>
      provider_ok p' \<and> a \<noteq> 0 \<and> SLAB_PAGE_SIZE dvd a \<and> a \<notin> live p \<and> insert a (live p) \<subseteq> live p'"
begin

definition slab_ok :: "'p slab \<Rightarrow> (nat \<Rightarrow> nat option) \<Rightarrow> (nat \<Rightarrow> nat list) \<Rightarrow> bool" where
  "slab_ok s G X \<longleftrightarrow> slab_rel s G X \<and> provider_ok (provider s) \<and> dom G \<subseteq> live (provider s)"

lemma slab_alloc_law:
  assumes ok: "slab_ok s G X" and l: "layout_ok l" "calc_size l \<le> SLAB_PAGE_SIZE"
    and run: "slab_alloc allocate_pages s l = Some (a, s')"
  defines "i \<equiv> cache_index (calc_size l)"
  shows "\<exists>G' X'. slab_ok s' G' X' \<and> object_in G' i a \<and> a \<notin> set (X' i) \<and>
           (case X i of x # xs \<Rightarrow> a = x \<and> G' = G \<and> X' = X(i := xs)
            | [] \<Rightarrow> a \<notin> live (provider s) \<and> G' = G(a := Some i) \<and>
                  X' = X(i := page_objects a (CACHE_SIZES ! i)))"
proof -
  have i: "i < 10" unfolding i_def using l by (rule size_class)
  have rel: "slab_rel s G X" and pok: "provider_ok (provider s)" and dom: "dom G \<subseteq> live (provider s)"
    using ok by (auto simp: slab_ok_def)
  have len: "length (caches s) = 10" and os: "object_size (caches s ! i) = CACHE_SIZES ! i"
    using rel i by (auto simp: slab_rel_def)
  obtain c' h' p' where ca: "cache_allocate allocate_pages (caches s ! i) (memory s) (provider s) = Some (a, c', h', p')"
    and s': "s' = s\<lparr>caches := (caches s)[i := c'], memory := h', provider := p'\<rparr>"
    using run l(2) i len by (auto simp: slab_alloc_def Let_def i_def [symmetric] idx_in_range split: bind_splits)
  show ?thesis
  proof (cases "X i")
    case (Cons x xs)
    note pop = slab_rel_pop [OF rel i Cons]
    define c where "c = (caches s ! i)\<lparr>freelist_head := (if memory s x = 0 then None else Some (memory s x))\<rparr>"
    have eq: "a = x" "h' = memory s" "p' = provider s" "c' = c"
      using pop(1) [of allocate_pages "provider s"] ca by (auto simp: c_def)
    have "slab_rel s' G (X(i := xs))"
      using pop(2) unfolding s' eq c_def [symmetric] by (simp add: slab_rel_def)
    moreover have "object_in G i x" "x \<notin> set xs"
      using rel i Cons by (auto simp: slab_rel_def)
    ultimately show ?thesis
      using Cons eq pok dom s' by (intro exI [of _ G] exI [of _ "X(i := xs)"]) (simp add: slab_ok_def)
  next
    case Nil
    let ?sz = "CACHE_SIZES ! i" and ?num = "SLAB_PAGE_SIZE div CACHE_SIZES ! i"
    have "sll (memory s) (head_ptr (caches s ! i)) []" using rel i Nil by (auto simp: slab_rel_def)
    then have "freelist_head (caches s ! i) = None \<or> freelist_head (caches s ! i) = Some 0"
      by (rule sll_head_nil)
    then have re: "refill allocate_pages (caches s ! i) (memory s) (provider s) = Some (a, c', h', p')"
      using ca by (auto simp: cache_allocate_def)
    then have ap: "allocate_pages (provider s) SLAB_PAGE_SIZE = Some (a, p')"
      and c': "c' = (caches s ! i)\<lparr>freelist_head := (if 1 < ?num then Some (a + ?sz) else None)\<rparr>"
      and h': "h' = link_objects a ?sz ?num [1 ..< ?num] (memory s)"
      using os by (auto simp: refill_def Let_def split: bind_splits)
    have pl: "provider_ok p'" "a \<noteq> 0" "SLAB_PAGE_SIZE dvd a" "a \<notin> live (provider s)"
      "insert a (live (provider s)) \<subseteq> live p'"
      using page_law [OF pok ap] by auto
    then have Ga: "G a = None" using dom by auto
    have "slab_rel s' (G(a := Some i)) (X(i := page_objects a ?sz))"
      using slab_rel_refill [OF rel i Nil pl(3,2) Ga, of p'] unfolding s' c' h' .
    moreover have "a mod SLAB_PAGE_SIZE = 0" using pl(3) by simp
    then have "object_in (G(a := Some i)) i a"
      using pl(2,3) cache_size_page [OF i] by (auto simp: object_in_def page_of_def intro: dvd_trans)
    moreover have "a \<notin> set (page_objects a ?sz)"
      using cache_size_page [OF i] by (auto simp: page_objects_def)
    ultimately show ?thesis
      using Nil pl dom s' by (intro exI [of _ "G(a := Some i)"] exI [of _ "X(i := page_objects a ?sz)"])
        (auto simp: slab_ok_def)
  qed
qed

lemma slab_dealloc_law:
  assumes ok: "slab_ok s G X" and l: "layout_ok l" "calc_size l \<le> SLAB_PAGE_SIZE"
  defines "i \<equiv> cache_index (calc_size l)"
  assumes a: "object_in G i a" "a \<notin> set (X i)"
  shows "\<exists>s'. slab_dealloc free_pages s a l = Some s' \<and> slab_ok s' G (X(i := a # X i))"
proof -
  have i: "i < 10" unfolding i_def using l by (rule size_class)
  have rel: "slab_rel s G X" using ok by (simp add: slab_ok_def)
  have len: "length (caches s) = 10" using rel by (simp add: slab_rel_def)
  have "a \<noteq> 0" using a(1) by (simp add: object_in_def)
  then have "slab_dealloc free_pages s a l = Some (s\<lparr>caches := (caches s)[i := (caches s ! i)\<lparr>freelist_head := Some a\<rparr>],
      memory := (memory s)(a := head_ptr (caches s ! i))\<rparr>)"
    using l(2) i len
    by (simp add: slab_dealloc_def Let_def i_def [symmetric] idx_in_range cache_deallocate_def head_ptr_def)
  moreover note slab_rel_push [OF rel i a]
  ultimately show ?thesis using ok by (auto simp: slab_ok_def)
qed

end

end
