(* ===== verification/Heap.thy ===== *)
theory Heap
  imports Slab Magazine
begin

text \<open>
  The kernel heap: \<^verbatim>\<open>KernelPageProvider\<close> of \<^verbatim>\<open>kernel/src/memory/heap.rs\<close> feeding the slab
  allocator with pages of the current core's allocator, \<^verbatim>\<open>calculate_order\<close> of
  \<^verbatim>\<open>memory/mod.rs\<close>, and the bootstrap bump allocator of \<^verbatim>\<open>memory/bootalloc.rs\<close>. The
  provider's state carries the higher-half offset beside the core's magazine and the
  buddy allocator; \<open>kheap\<close> interprets the slab allocator's provider interface on it.
\<close>

section \<open>The page provider\<close>

type_synonym heap_state = "nat \<times> magazine \<times> pmm"

definition heap_order :: "nat \<Rightarrow> nat" where
  "heap_order sz = trailing_zeros 64 (bit (next_power_of_two ((sz + 4095) div 4096)))"

definition allocate_pages :: "heap_state \<Rightarrow> nat \<Rightarrow> (nat \<times> heap_state) run" where
  "allocate_pages st sz =
    (case st of (hhdm, c) \<Rightarrow>
       if sz \<le> 4096
       then do { (phys, c') \<leftarrow> pc_alloc c Normal; ret (phys + hhdm, hhdm, c') }
       else do { (r, c') \<leftarrow> pc_alloc_order c (heap_order sz);
                 case r of Some phys \<Rightarrow> ret (phys + hhdm, hhdm, c')
                 | None \<Rightarrow> ret (0, hhdm, c') })"

definition free_pages :: "heap_state \<Rightarrow> nat \<Rightarrow> nat \<Rightarrow> heap_state run" where
  "free_pages st ptr sz =
    (case st of (hhdm, c) \<Rightarrow>
       if ptr = 0 then ret st
       else if sz \<le> 4096
       then do { c' \<leftarrow> pc_free c (ptr - hhdm) Normal; ret (hhdm, c') }
       else do { c' \<leftarrow> pc_free_order c (ptr - hhdm) (heap_order sz); ret (hhdm, c') })"

function calc_order_from :: "nat \<Rightarrow> nat \<Rightarrow> nat" where
  "calc_order_from order bytes =
    (if 2 ^ order * 4096 < bytes then calc_order_from (order + 1) bytes else order)"
  by pat_completeness auto
termination
proof (relation "measure (\<lambda>(order, bytes). bytes - order)")
  fix order bytes :: nat
  assume "2 ^ order * 4096 < bytes"
  then have "order < bytes" using less_exp [of order] by linarith
  then show "((order + 1, bytes), order, bytes) \<in> measure (\<lambda>(order, bytes). bytes - order)" by simp
qed simp

declare calc_order_from.simps [simp del]

definition calculate_order :: "nat \<Rightarrow> nat" where
  "calculate_order bytes = calc_order_from 0 bytes"

lemma calc_order_from_spec:
  "bytes \<le> 2 ^ calc_order_from k bytes * 4096 \<and> k \<le> calc_order_from k bytes \<and>
   (\<forall>j. k \<le> j \<and> j < calc_order_from k bytes \<longrightarrow> 2 ^ j * 4096 < bytes)"
proof (induction k bytes rule: calc_order_from.induct)
  case (1 k bytes)
  show ?case
  proof (cases "2 ^ k * 4096 < bytes")
    case True
    then have "calc_order_from k bytes = calc_order_from (k + 1) bytes"
      by (simp add: calc_order_from.simps [of k])
    then show ?thesis using 1 [OF True] True by (metis Suc_eq_plus1 Suc_leD Suc_leI le_neq_implies_less)
  next
    case False
    then show ?thesis by (simp add: calc_order_from.simps [of k])
  qed
qed

lemma heap_order_pow: 
  assumes "j < 64" and "next_power_of_two ((sz + 4095) div 4096) = 2 ^ j"
  shows "heap_order sz = j"
  unfolding heap_order_def assms(2)
  using assms(1) by (intro trailing_zeros_eqI) (simp_all add: bit_exp_iff)

lemma order_for_bytes:
  assumes "0 < sz" and "sz \<le> 2 ^ 63"
  obtains j where "heap_order sz = j" "calculate_order sz = j" "sz \<le> 2 ^ j * 4096"
    "\<And>k. sz \<le> 2 ^ k * 4096 \<Longrightarrow> j \<le> k"
proof -
  let ?p = "(sz + 4095) div 4096"
  have pages_bound: "?p \<le> K \<longleftrightarrow> sz \<le> K * 4096" for K :: nat
    using div_less_iff_less_mult [of 4096 "sz + 4095" "Suc K"] by (simp add: less_Suc_eq_le)
  have pk: "?p \<le> 2 ^ k \<longleftrightarrow> sz \<le> 2 ^ k * 4096" for k
    using pages_bound [of "2 ^ k"] .
  obtain j where j: "next_power_of_two ?p = 2 ^ j" "?p \<le> 2 ^ j" "0 < j \<Longrightarrow> 2 ^ (j - 1) < ?p"
    using next_power_of_two_spec [of ?p] by metis
  have least: "j \<le> k" if "sz \<le> 2 ^ k * 4096" for k
  proof (rule ccontr)
    assume "\<not> j \<le> k"
    then have "k \<le> j - 1" "0 < j" by simp_all
    then have "(2::nat) ^ k \<le> 2 ^ (j - 1)" by (intro power_increasing) simp_all
    then show False using j(3) \<open>0 < j\<close> that pk [of k] by linarith
  qed
  have "j \<le> 51" using assms(2) by (intro least) simp
  then have h: "heap_order sz = j" using j(1) by (intro heap_order_pow) simp_all
  have c: "calculate_order sz = j"
    using calc_order_from_spec [of sz 0] least [of "calculate_order sz"] j(2) pk [of j]
    unfolding calculate_order_def by (metis le_neq_implies_less le0 leD)
  show ?thesis using that [OF h c] j(2) pk [of j] least by blast
qed

text \<open>
  \<open>calculate_order\<close> returns, and returns the least order whose block holds the bytes asked
  for; for requests below \<open>2 ^ 63\<close> bytes the heap's own computation by
  \<open>next_power_of_two\<close> and \<open>trailing_zeros\<close> gives the same order, so memory taken with one
  and given back with the other keeps its size.
\<close>

theorem calculate_order_agrees:
  assumes "0 < bytes" and "bytes \<le> 2 ^ 63"
  shows "calculate_order bytes = heap_order bytes \<and> bytes \<le> 2 ^ calculate_order bytes * 4096 \<and>
         (\<forall>k. bytes \<le> 2 ^ k * 4096 \<longrightarrow> calculate_order bytes \<le> k)"
  using order_for_bytes [OF assms] by metis

theorem calculate_order_agrees_witness:
  "calculate_order 20000 = heap_order 20000 \<and> 20000 \<le> (2 :: nat) ^ calculate_order 20000 * 4096"
proof -
  have "0 < (20000 :: nat)" "(20000 :: nat) \<le> 2 ^ 63" by simp_all
  from calculate_order_agrees [OF this] show ?thesis by blast
qed

section \<open>The slab allocator on kernel pages\<close>

definition heap_ok :: "heap_state \<Rightarrow> bool" where
  "heap_ok st \<longleftrightarrow> SLAB_PAGE_SIZE dvd fst st \<and> core_ok (snd st)"

definition heap_live :: "heap_state \<Rightarrow> nat set" where
  "heap_live st = {x + fst st |x. frame_owned (snd (snd st)) x \<and> x \<notin> held (fst (snd st))}"

lemma core_alloc_page:
  assumes "core_ok (m, s)" and "pc_alloc (m, s) Normal = Some (a, m', s')"
  shows "core_ok (m', s')" and "a \<in> held m \<union> frame_addrs s" and "frame_owned s' a" and "a \<notin> held m'"
    and "\<And>b. frame_owned s b \<Longrightarrow> b \<notin> held m \<Longrightarrow> frame_owned s' b \<and> b \<notin> held m'"
proof -
  have mo: "pmm_frames.mag_ok m s" using assms(1) by (simp add: core_ok_iff)
  have ok: "pmm_ok s" using assms(1) by (simp add: core_ok_def)
  have st: "core_ok (m', s')" "a \<in> core_stock (m, s)" "core_stock (m', s') = core_stock (m, s) - {a}"
    "frame_owned s' a" "\<forall>b. frame_owned s b \<longrightarrow> frame_owned s' b"
    using pmm_frames.mag_alloc_law [OF mo] assms(2)
    unfolding core_ok_iff core_stock_eq by (auto simp: pc_alloc_def)
  then show "core_ok (m', s')" "frame_owned s' a" "a \<in> held m \<union> frame_addrs s" "a \<notin> held m'"
    by (auto simp: core_stock_def)
  fix b assume b: "frame_owned s b" "b \<notin> held m"
  then have "b \<notin> core_stock (m, s)" using pmm_frames.owned_law [OF ok b(1)] by (simp add: core_stock_def)
  then show "frame_owned s' b \<and> b \<notin> held m'" using st b(1) by (auto simp: core_stock_def)
qed

interpretation kheap: page_provider allocate_pages heap_ok heap_live
proof unfold_locales
  fix p a p'
  assume ok: "heap_ok p" and run: "allocate_pages p SLAB_PAGE_SIZE = Some (a, p')"
  obtain hhdm m s where p: "p = (hhdm, m, s)" by (cases p)
  obtain phys m' s' where al: "pc_alloc (m, s) Normal = Some (phys, m', s')"
    and eq: "a = phys + hhdm" "p' = (hhdm, m', s')"
    using run by (auto simp: allocate_pages_def p SLAB_PAGE_SIZE_def split: bind_splits)
  have core: "core_ok (m, s)" and al4: "SLAB_PAGE_SIZE dvd hhdm" using ok by (auto simp: heap_ok_def p)
  note c = core_alloc_page [OF core al]
  have "SLAB_PAGE_SIZE dvd phys" "phys \<noteq> 0"
    using c(3) by (auto simp: frame_owned_def block_ok_def aligned_def NORMAL_PAGE_SIZE_def SLAB_PAGE_SIZE_def)
  moreover have "a \<notin> heap_live p"
    using c(2) core pmm_frames.owned_law [of s phys] by (auto simp: heap_live_def p eq core_ok_def)
  moreover have "insert a (heap_live p) \<subseteq> heap_live p'"
    using c(3-5) by (auto simp: heap_live_def p eq)
  ultimately show "heap_ok p' \<and> a \<noteq> 0 \<and> SLAB_PAGE_SIZE dvd a \<and> a \<notin> heap_live p \<and> insert a (heap_live p) \<subseteq> heap_live p'"
    using c(1) al4 by (auto simp: heap_ok_def eq)
qed

definition kernel_heap_ok :: "heap_state slab \<Rightarrow> (nat \<Rightarrow> nat option) \<Rightarrow> (nat \<Rightarrow> nat list) \<Rightarrow> bool" where
  "kernel_heap_ok s G X \<longleftrightarrow> slab_rel s G X \<and> heap_ok (provider s) \<and> dom G \<subseteq> heap_live (provider s)"

lemma kernel_heap_ok_iff: "kernel_heap_ok s G X \<longleftrightarrow> kheap.slab_ok s G X"
  by (simp add: kernel_heap_ok_def kheap.slab_ok_def)


text \<open>
  Giving a small object back never panics and puts it at the head of its cache's list, so
  the next allocation of the same layout returns that very object and restores the lists.
\<close>

theorem kernel_dealloc_alloc:
  assumes "kernel_heap_ok s G X" and "layout_ok l" and "calc_size l \<le> SLAB_PAGE_SIZE"
    and "i = cache_index (calc_size l)" and "object_in G i a" and "a \<notin> set (X i)"
  shows "\<exists>s' s''. slab_dealloc free_pages s a l = Some s' \<and> kernel_heap_ok s' G (X(i := a # X i)) \<and>
           slab_alloc allocate_pages s' l = Some (a, s'') \<and> kernel_heap_ok s'' G X"
proof -
  have ok: "kheap.slab_ok s G X" using assms(1) by (simp add: kernel_heap_ok_iff)
  have i: "i < 10" using size_class [OF assms(2,3)] assms(4) by simp
  obtain s' where s': "slab_dealloc free_pages s a l = Some s'" "kheap.slab_ok s' G (X(i := a # X i))"
    using kheap.slab_dealloc_law [OF ok assms(2,3)] assms(4-6) by blast
  have rel: "slab_rel s' G (X(i := a # X i))" using s'(2) by (simp add: kheap.slab_ok_def)
  note pop = slab_rel_pop [OF rel i fun_upd_same]
  have len: "i < length (caches s')" using rel i by (simp add: slab_rel_def)
  have run: "\<exists>s''. slab_alloc allocate_pages s' l = Some (a, s'')"
    using pop(1) [of allocate_pages "provider s'"] assms(3,4) len
    by (simp add: slab_alloc_def Let_def idx_in_range)
  then obtain s'' where s'': "slab_alloc allocate_pages s' l = Some (a, s'')" by blast
  obtain G' X' where r: "kheap.slab_ok s'' G' X'" "G' = G" "X' = (X(i := a # X i))(i := X i)"
    using kheap.slab_alloc_law [OF s'(2) assms(2,3) s''] assms(4) by auto
  then show ?thesis using s' s'' by (auto simp: kernel_heap_ok_iff)
qed

definition sample_heap :: "heap_state slab" where
  "sample_heap = \<lparr>caches = slab_new, memory = (\<lambda>_. 0), provider = (2 ^ 47, sample_core)\<rparr>"

definition sample_layout :: layout where
  "sample_layout = \<lparr>l_size = 24, l_align = 8\<rparr>"

lemma slab_new_rel: "caches s = slab_new \<Longrightarrow> slab_rel s G (\<lambda>_. [])"
proof -
  have "length CACHE_SIZES = 10" by (simp add: CACHE_SIZES_def)
  then show "caches s = slab_new \<Longrightarrow> slab_rel s G (\<lambda>_. [])"
    by (simp add: slab_rel_def slab_new_def head_ptr_def)
qed

lemma sample_heap_ok: "kernel_heap_ok sample_heap (\<lambda>_. None) (\<lambda>_. [])"
  using sample_core_ok(1) slab_new_rel [of sample_heap]
  by (simp add: kernel_heap_ok_def heap_ok_def sample_heap_def SLAB_PAGE_SIZE_def)

lemma sample_layout_ok: "layout_ok sample_layout" "calc_size sample_layout = 32" "cache_index 32 = 2"
proof -
  show "layout_ok sample_layout" unfolding layout_ok_def sample_layout_def by (auto intro: exI [of _ 3])
  show "calc_size sample_layout = 32"
    by (simp add: calc_size_def sample_layout_def next_power_of_two_def npot_from.simps)
  show "cache_index 32 = 2" using ilog2_pow [of 5] by (simp add: cache_index_def)
qed


theorem kernel_dealloc_alloc_witness:
  "\<exists>s' s''. slab_dealloc free_pages (sample_heap\<lparr>provider := (0, sample_core)\<rparr>) 8224 sample_layout = Some s' \<and>
     slab_alloc allocate_pages s' sample_layout = Some (8224, s'')"
proof -
  let ?s = "sample_heap\<lparr>provider := (0, sample_core)\<rparr>"
  let ?G = "(\<lambda>_. None)(8192 := Some 2)"
  have "8192 \<in> heap_live (0, sample_core)"
    using sample_core_ok(2,4) by (auto simp: heap_live_def)
  then have ok: "kernel_heap_ok ?s ?G (\<lambda>_. [])"
    using sample_core_ok(1) slab_new_rel [of ?s] by (simp add: kernel_heap_ok_def heap_ok_def sample_heap_def)
  have "object_in ?G 2 8224" by (simp add: object_in_def page_of_def SLAB_PAGE_SIZE_def CACHE_SIZES_def)
  moreover have "calc_size sample_layout \<le> SLAB_PAGE_SIZE" "2 = cache_index (calc_size sample_layout)"
    by (simp_all add: sample_layout_ok SLAB_PAGE_SIZE_def)
  ultimately show ?thesis
    using kernel_dealloc_alloc [OF ok sample_layout_ok(1), of 2 8224] by auto
qed

section \<open>The bootstrap allocator\<close>

record bump =
  virt_base :: u64
  bump_next :: u64

definition bump_new :: bump where
  "bump_new = \<lparr>virt_base = 0, bump_next = 0\<rparr>"

definition bump_init :: "u64 \<Rightarrow> u64 \<Rightarrow> bump \<Rightarrow> bump" where
  "bump_init hhdm huge_page_phys b =
    b\<lparr>virt_base := huge_page_phys + hhdm, bump_next := huge_page_phys + hhdm\<rparr>"

definition sat_add :: "u64 \<Rightarrow> u64 \<Rightarrow> u64" where
  "sat_add a b = (if a \<le> a + b then a + b else 0xFFFFFFFFFFFFFFFF)"

definition bump_alloc :: "bump \<Rightarrow> u64 \<Rightarrow> u64 \<Rightarrow> (u64 \<times> bump) run" where
  "bump_alloc b sz align =
    (let alloc_base = (bump_next b + align - 1) AND NOT (align - 1);
         next = sat_add alloc_base sz
     in if next \<le> virt_base b + word_of_nat HUGE_PAGE_SIZE
        then ret (alloc_base, b\<lparr>bump_next := next\<rparr>) else panic)"

definition bump_ok :: "bump \<Rightarrow> bool" where
  "bump_ok b \<longleftrightarrow> virt_base b \<le> bump_next b \<and> unat (virt_base b) + 2 * HUGE_PAGE_SIZE < 2 ^ 64 \<and>
     unat (bump_next b) \<le> unat (virt_base b) + HUGE_PAGE_SIZE"

lemma sat_add_unat: "unat (sat_add a b) = min (unat a + unat b) (2 ^ 64 - 1)"
proof (cases "a \<le> a + b")
  case True
  then have "unat (a + b) = unat a + unat b" using unat_plus_simple by blast
  moreover have "unat (a + b) \<le> 2 ^ 64 - 1" using unsigned_less [of "a + b", where ?'a = nat] by simp
  ultimately show ?thesis using True by (simp add: sat_add_def)
next
  case False
  then have "\<not> unat a + unat b < 2 ^ 64"
    using unat_add_lem [of a b] by (simp add: word_le_nat_alt)
  moreover have "unat (0xFFFFFFFFFFFFFFFF :: u64) = 2 ^ 64 - 1" by simp
  ultimately show ?thesis using False by (simp add: sat_add_def)
qed

text \<open>
  The bootstrap allocator hands out aligned, increasing, disjoint blocks inside its huge
  page: the block starts at the next address rounded up, the new next address is its end,
  and it panics exactly when the block would leave the huge page.
\<close>

theorem bump_alloc_correct:
  assumes "bump_ok b" and "k \<le> 21" and "a = round_up (2 ^ k) (unat (bump_next b))"
  shows "if a + unat sz \<le> unat (virt_base b) + HUGE_PAGE_SIZE
         then \<exists>p b'. bump_alloc b sz (2 ^ k) = Some (p, b') \<and> unat p = a \<and> 2 ^ k dvd unat p \<and>
                bump_next b \<le> p \<and> unat (bump_next b') = a + unat sz \<and> virt_base b' = virt_base b \<and> bump_ok b'
         else bump_alloc b sz (2 ^ k) = None"
proof -
  have "(2::nat) ^ k \<le> 2 ^ 21" using assms(2) by (intro power_increasing) simp_all
  then have k: "(2::nat) ^ k \<le> HUGE_PAGE_SIZE" by (simp add: HUGE_PAGE_SIZE_def)
  have b: "unat (virt_base b) \<le> unat (bump_next b)" "unat (virt_base b) + 2 * HUGE_PAGE_SIZE < 2 ^ 64"
    "unat (bump_next b) \<le> unat (virt_base b) + HUGE_PAGE_SIZE"
    using assms(1) by (auto simp: bump_ok_def word_le_nat_alt)
  define p where "p = (bump_next b + 2 ^ k - 1) AND NOT (2 ^ k - 1 :: u64)"
  have p: "unat p = a"
    unfolding p_def assms(3) using assms(2) k b by (intro align_up_word) simp_all
  have ge: "unat (bump_next b) \<le> a" and dv: "2 ^ k dvd a" unfolding assms(3) by (simp_all add: round_up_ge)
  have lim: "unat (virt_base b + word_of_nat HUGE_PAGE_SIZE) = unat (virt_base b) + HUGE_PAGE_SIZE"
  proof -
    have h: "unat (word_of_nat HUGE_PAGE_SIZE :: u64) = HUGE_PAGE_SIZE" by (simp add: HUGE_PAGE_SIZE_def)
    then show ?thesis using unat_add_lem [of "virt_base b" "word_of_nat HUGE_PAGE_SIZE"] b(2) by simp
  qed
  have fits: "sat_add p sz \<le> virt_base b + word_of_nat HUGE_PAGE_SIZE \<longleftrightarrow>
      a + unat sz \<le> unat (virt_base b) + HUGE_PAGE_SIZE"
    unfolding word_le_nat_alt sat_add_unat lim p using b(2) by (auto simp: min_def HUGE_PAGE_SIZE_def)
  show ?thesis
  proof (cases "a + unat sz \<le> unat (virt_base b) + HUGE_PAGE_SIZE")
    case True
    then have n: "unat (sat_add p sz) = a + unat sz" using b(2) by (simp add: sat_add_unat p)
    then have "bump_ok (b\<lparr>bump_next := sat_add p sz\<rparr>)"
      using b True ge by (simp add: bump_ok_def word_le_nat_alt)
    then show ?thesis
      using True fits n p ge dv by (simp add: bump_alloc_def p_def [symmetric] Let_def word_le_nat_alt)
  next
    case False
    then show ?thesis using fits by (simp add: bump_alloc_def p_def [symmetric] Let_def)
  qed
qed

theorem bump_alloc_correct_witness:
  "\<exists>p b'. bump_alloc \<lparr>virt_base = 4096, bump_next = 4100\<rparr> 10 16 = Some (p, b') \<and> unat p = 4112 \<and> bump_ok b'"
proof -
  have "bump_ok \<lparr>virt_base = 4096, bump_next = 4100\<rparr>" by (simp add: bump_ok_def HUGE_PAGE_SIZE_def)
  from bump_alloc_correct [OF this, of 4 4112 10] show ?thesis
    by (simp add: round_up_def HUGE_PAGE_SIZE_def) blast
qed

end
