(* ===== verification/Bitflags.thy ===== *)
theory Bitflags
  imports Prelude
begin

text \<open>
  The bit helpers of \<^verbatim>\<open>kernel/src/util/bitwise.rs\<close> and
  \<^verbatim>\<open>lib/vespertine-abi/src/bitwise.rs\<close> (the two files are the same code) and the flag
  types their \<^verbatim>\<open>define_bitflags!\<close> macro generates. A flag type is a word of the
  declared width; the locale \<open>flag_set\<close> is the contract the capability code relies on,
  interpreted on the macro's operations at every width.
\<close>

section \<open>Single bits\<close>

text \<open>
  A shift count is a \<open>u8\<close>. The kernel is built with the release profile, where a count
  of at least the width is reduced modulo the width.
\<close>

definition shl :: "'a::len word \<Rightarrow> u8 \<Rightarrow> 'a word" where
  "shl x b = push_bit (unat b mod LENGTH('a)) x"

definition set_bit_at :: "'a::len word \<Rightarrow> u8 \<Rightarrow> 'a word" where
  "set_bit_at value b = value OR shl 1 b"

definition unset_bit_at :: "'a::len word \<Rightarrow> u8 \<Rightarrow> 'a word" where
  "unset_bit_at value b = value AND NOT (shl 1 b)"

definition check_bit_at :: "'a::len word \<Rightarrow> u8 \<Rightarrow> bool" where
  "check_bit_at value b \<longleftrightarrow> value AND shl 1 b \<noteq> 0"

lemma bit_shl_1:
  "bit (shl (1 :: 'a::len word) b) i \<longleftrightarrow> i < LENGTH('a) \<and> i = unat b mod LENGTH('a)"
  by (auto simp: shl_def push_bit_of_1 bit_exp_iff exp_eq_zero_iff)

lemma check_bit_at_iff: "check_bit_at (v :: 'a::len word) b \<longleftrightarrow> bit v (unat b mod LENGTH('a))"
proof
  assume "check_bit_at v b"
  then obtain i where "bit (v AND shl 1 b) i"
    unfolding check_bit_at_def using bit_eqI by (metis bit_0_eq bot_apply bot_bool_def)
  then show "bit v (unat b mod LENGTH('a))" by (auto simp: bit_and_iff bit_shl_1)
next
  assume "bit v (unat b mod LENGTH('a))"
  then have "bit (v AND shl 1 b) (unat b mod LENGTH('a))"
    by (simp add: bit_and_iff bit_shl_1)
  then show "check_bit_at v b" unfolding check_bit_at_def by force
qed

lemma bit_set_bit_at:
  "i < LENGTH('a) \<Longrightarrow>
     bit (set_bit_at (v :: 'a::len word) b) i \<longleftrightarrow> bit v i \<or> i = unat b mod LENGTH('a)"
  by (simp add: set_bit_at_def bit_or_iff bit_shl_1)

lemma bit_unset_bit_at:
  "i < LENGTH('a) \<Longrightarrow>
     bit (unset_bit_at (v :: 'a::len word) b) i \<longleftrightarrow> bit v i \<and> i \<noteq> unat b mod LENGTH('a)"
  by (simp add: unset_bit_at_def bit_and_iff bit_not_iff bit_shl_1)

section \<open>Flag sets\<close>

definition flags_new :: "'a::len word" where
  "flags_new = 0"

text \<open>The macro's \<open>all\<close> is the literal \<open>0b11111\<close> for every type it generates.\<close>

definition flags_all :: "'a::len word" where
  "flags_all = 31"

definition flags_contains :: "'a::len word \<Rightarrow> 'a word \<Rightarrow> bool" where
  "flags_contains self other \<longleftrightarrow> self AND other = other"

definition flags_insert :: "'a::len word \<Rightarrow> 'a word \<Rightarrow> 'a word" where
  "flags_insert self other = self OR other"

definition flags_remove :: "'a::len word \<Rightarrow> 'a word \<Rightarrow> 'a word" where
  "flags_remove self other = self AND NOT other"

locale flag_set =
  fixes contains :: "'f \<Rightarrow> 'f \<Rightarrow> bool"
    and insert :: "'f \<Rightarrow> 'f \<Rightarrow> 'f"
    and remove :: "'f \<Rightarrow> 'f \<Rightarrow> 'f"
    and none :: "'f"
  assumes contains_refl [simp]: "contains a a"
    and contains_trans: "contains a b \<Longrightarrow> contains b c \<Longrightarrow> contains a c"
    and contains_antisym: "contains a b \<Longrightarrow> contains b a \<Longrightarrow> a = b"
    and contains_none [simp]: "contains a none"
    and insert_upper1: "contains (insert a b) a"
    and insert_upper2: "contains (insert a b) b"
    and insert_least: "contains c a \<Longrightarrow> contains c b \<Longrightarrow> contains c (insert a b)"
    and remove_lower: "contains a (remove a b)"
    and remove_insert: "contains (insert (remove a b) b) a"
begin

lemma contains_insert_iff: "contains c (insert a b) \<longleftrightarrow> contains c a \<and> contains c b"
  using insert_least insert_upper1 insert_upper2 contains_trans by blast

lemma insert_comm: "insert a b = insert b a"
  by (rule contains_antisym) (auto simp: contains_insert_iff insert_upper1 insert_upper2)

lemma insert_absorb: "contains a b \<Longrightarrow> insert a b = a"
  by (rule contains_antisym) (auto simp: contains_insert_iff insert_upper1)

lemma insert_none: "insert a none = a"
  by (simp add: insert_absorb)

lemma remove_mono: "contains (remove a b) c \<Longrightarrow> contains a c"
  using contains_trans remove_lower by blast

end

text \<open>A containment of flags is containment bit by bit.\<close>

lemma flags_contains_iff:
  "flags_contains (a :: 'a::len word) b \<longleftrightarrow> (\<forall>n < LENGTH('a). bit b n \<longrightarrow> bit a n)"
  unfolding flags_contains_def by (auto simp: bit_eq_iff bit_and_iff)

interpretation bitflags: flag_set
  "flags_contains :: 'a::len word \<Rightarrow> 'a word \<Rightarrow> bool" flags_insert flags_remove flags_new
proof (unfold_locales, goal_cases)
  case (3 a b)
  then show ?case by (metis flags_contains_def and.commute)
qed (auto simp: flags_contains_iff flags_insert_def flags_remove_def flags_new_def
       bit_or_iff bit_and_iff bit_not_iff)

lemma flags_contains_and: "flags_contains a (a AND b)" "flags_contains b (a AND b)"
  by (simp_all add: flags_contains_iff bit_and_iff)

end
