(* ===== verification/Virtio.thy ===== *)
theory Virtio
  imports Core_Frames Bytes Heap Bitflags
begin

text \<open>
  The virtio block driver: \<^verbatim>\<open>drivers/virtio/blk.rs\<close>. The descriptor table with its free list, the
  available and the used ring and the wakers are the state of a queue; a request page of physical
  memory holds the header and the status byte of a transfer. The device is the environment: it
  follows a descriptor chain of the available ring and writes memory and the used ring.
\<close>

section \<open>The queue\<close>

record vdesc =
  d_addr :: nat
  d_len :: u32
  d_flags :: u16
  d_next :: u16

record virtqueue =
  descs :: "vdesc list"
  avail_idx :: u16
  avail_ring :: "u16 list"
  used_idx :: u16
  used_ring :: "(u32 \<times> u32) list"
  queue_size :: u16
  free_head :: u16
  last_seen_used :: u16
  wakers :: "nat option list"
  vq_mem :: "(nat \<times> nat) list"

definition free_desc_list :: "nat \<Rightarrow> vdesc list" where
  "free_desc_list n =
    map (\<lambda>i. \<lparr>d_addr = 0, d_len = 0, d_flags = 1, d_next = of_nat (i + 1)\<rparr>) [0..<n - 1] @
    [\<lparr>d_addr = 0, d_len = 0, d_flags = 0, d_next = 0xFFFF\<rparr>]"

text \<open>
  \<^verbatim>\<open>vq_setup\<close>: the three areas come from the page allocator, whole blocks of them are cleared, and
  every descriptor is put on the free list.
\<close>

definition vq_setup ::
  "('c \<Rightarrow> nat \<Rightarrow> (nat option \<times> 'c) run) \<Rightarrow> u16 \<Rightarrow> pmem \<Rightarrow> 'c \<Rightarrow> (virtqueue option \<times> pmem \<times> 'c) run" where
  "vq_setup alord q_size m c =
    (if q_size = 0 then ret (None, m, c)
     else let n = unat q_size;
              desc_order = calculate_order (n * 16);
              av_order = calculate_order (6 + n * 2);
              used_order = calculate_order (6 + n * 8)
          in do { (r0, c0) \<leftarrow> alord c desc_order;
                  case r0 of None \<Rightarrow> ret (None, m, c0)
                  | Some desc_phys \<Rightarrow>
                  do { (r1, c1) \<leftarrow> alord c0 av_order;
                       case r1 of None \<Rightarrow> ret (None, m, c1)
                       | Some av_phys \<Rightarrow>
                       do { (r2, c2) \<leftarrow> alord c1 used_order;
                            case r2 of None \<Rightarrow> ret (None, m, c2)
                            | Some used_phys \<Rightarrow>
                            ret (Some \<lparr>descs = free_desc_list n, avail_idx = 0, avail_ring = replicate n 0,
                                      used_idx = 0, used_ring = replicate n (0, 0), queue_size = q_size,
                                      free_head = 0, last_seen_used = 0, wakers = replicate n None,
                                      vq_mem = [(desc_phys, desc_order), (av_phys, av_order), (used_phys, used_order)]\<rparr>,
                                 poke (poke (poke m desc_phys (replicate (2 ^ desc_order * 4096) 0))
                                   av_phys (replicate (2 ^ av_order * 4096) 0))
                                   used_phys (replicate (2 ^ used_order * 4096) 0), c2) } } })"

fun free_orders :: "('c \<Rightarrow> nat \<Rightarrow> nat \<Rightarrow> 'c run) \<Rightarrow> 'c \<Rightarrow> (nat \<times> nat) list \<Rightarrow> 'c run" where
  "free_orders frord c [] = ret c"
| "free_orders frord c ((a, k) # ms) = do { c' \<leftarrow> frord c a k; free_orders frord c' ms }"

definition vq_drop :: "('c \<Rightarrow> nat \<Rightarrow> nat \<Rightarrow> 'c run) \<Rightarrow> virtqueue \<Rightarrow> 'c \<Rightarrow> 'c run" where
  "vq_drop frord q c = free_orders frord c (vq_mem q)"

definition alloc_desc :: "virtqueue \<Rightarrow> ((unit + u16) \<times> virtqueue) run" where
  "alloc_desc q =
    (if free_head q = 0xFFFF then ret (Inl (), q)
     else do { d \<leftarrow> idx (descs q) (unat (free_head q));
               ret (Inr (free_head q), q\<lparr>free_head := d_next d\<rparr>) })"

definition free_desc :: "virtqueue \<Rightarrow> u16 \<Rightarrow> virtqueue run" where
  "free_desc q i =
    do { d \<leftarrow> idx (descs q) (unat i);
         ds \<leftarrow> upd (descs q) (unat i) (d\<lparr>d_next := free_head q\<rparr>);
         ret (q\<lparr>descs := ds, free_head := i\<rparr>) }"

section \<open>Transfers\<close>

definition VIRTIO_BLK_T_IN :: u32 where "VIRTIO_BLK_T_IN = 0"
definition VIRTIO_BLK_T_OUT :: u32 where "VIRTIO_BLK_T_OUT = 1"

record transfer =
  t_d0 :: u16
  t_d1 :: u16
  t_d2 :: u16
  page_phys :: nat

definition write_desc :: "virtqueue \<Rightarrow> u16 \<Rightarrow> vdesc \<Rightarrow> virtqueue run" where
  "write_desc q i d = do { ds \<leftarrow> upd (descs q) (unat i) d; ret (q\<lparr>descs := ds\<rparr>) }"

text \<open>The part of \<^verbatim>\<open>transfer_sectors\<close> under the queue lock.\<close>

definition submit :: "virtqueue \<Rightarrow> nat \<Rightarrow> u32 \<Rightarrow> nat \<Rightarrow> bool \<Rightarrow> ((unit + u16 \<times> u16 \<times> u16) \<times> virtqueue) run" where
  "submit q page sectors_count buf_phys is_write =
    do { (r0, q0) \<leftarrow> alloc_desc q;
         case r0 of Inl _ \<Rightarrow> ret (Inl (), q0)
         | Inr d0 \<Rightarrow>
         do { (r1, q1) \<leftarrow> alloc_desc q0;
              case r1 of Inl _ \<Rightarrow> ret (Inl (), q1)
              | Inr d1 \<Rightarrow>
              do { (r2, q2) \<leftarrow> alloc_desc q1;
                   case r2 of Inl _ \<Rightarrow> ret (Inl (), q2)
                   | Inr d2 \<Rightarrow>
                   do { q3 \<leftarrow> write_desc q2 d0 \<lparr>d_addr = page, d_len = 16, d_flags = 1, d_next = d1\<rparr>;
                        q4 \<leftarrow> write_desc q3 d1 \<lparr>d_addr = buf_phys, d_len = sectors_count * 512,
                                d_flags = (if is_write then 1 else 3), d_next = d2\<rparr>;
                        q5 \<leftarrow> write_desc q4 d2 \<lparr>d_addr = page + 512, d_len = 1, d_flags = 2, d_next = 0xFFFF\<rparr>;
                        if queue_size q5 = 0 then panic
                        else do { ring \<leftarrow> upd (avail_ring q5) (unat (avail_idx q5) mod unat (queue_size q5)) d0;
                                  ret (Inr (d0, d1, d2), q5\<lparr>avail_ring := ring, avail_idx := avail_idx q5 + 1\<rparr>) } } } } }"

definition request_header :: "bool \<Rightarrow> u64 \<Rightarrow> u8 list" where
  "request_header is_write sector =
    le_bytes 4 (if is_write then VIRTIO_BLK_T_OUT else VIRTIO_BLK_T_IN) @ le_bytes 4 (0 :: u32) @ le_bytes 8 sector"

definition prepare_page :: "pmem \<Rightarrow> nat \<Rightarrow> bool \<Rightarrow> u64 \<Rightarrow> pmem" where
  "prepare_page m page is_write sector =
    poke (poke (poke m page (replicate 4096 0)) page (request_header is_write sector)) (page + 512) [0xFF]"

definition transfer_sectors ::
  "('c \<Rightarrow> (nat \<times> 'c) run) \<Rightarrow> virtqueue \<times> pmem \<times> 'c \<Rightarrow> u64 \<Rightarrow> u32 \<Rightarrow> nat \<Rightarrow> bool
     \<Rightarrow> ((unit + transfer) \<times> virtqueue \<times> pmem \<times> 'c) run" where
  "transfer_sectors palloc = (\<lambda>(q, m, c) sector sectors_count buf_phys is_write.
    do { (page, c') \<leftarrow> palloc c;
         if page = 0 then ret (Inl (), q, m, c')
         else let m' = prepare_page m page is_write sector
              in do { (r, q') \<leftarrow> submit q page sectors_count buf_phys is_write;
                      ret (case r of
                             Inl _ \<Rightarrow> Inl ()
                           | Inr (d0, d1, d2) \<Rightarrow> Inr \<lparr>t_d0 = d0, t_d1 = d1, t_d2 = d2, page_phys = page\<rparr>, q', m', c') } })"

text \<open>Polling a transfer: \<open>Some ok\<close> is a completed transfer, \<open>None\<close> a pending one.\<close>

definition release :: "virtqueue \<Rightarrow> transfer \<Rightarrow> virtqueue run" where
  "release q t = do { q0 \<leftarrow> free_desc q (t_d0 t); q1 \<leftarrow> free_desc q0 (t_d1 t); free_desc q1 (t_d2 t) }"

definition poll_transfer ::
  "('c \<Rightarrow> nat \<Rightarrow> 'c run) \<Rightarrow> virtqueue \<times> pmem \<times> 'c \<Rightarrow> transfer \<Rightarrow> nat \<Rightarrow> (bool option \<times> virtqueue \<times> pmem \<times> 'c) run" where
  "poll_transfer pfree = (\<lambda>(q, m, c) t waker.
    let status = m (page_phys t + 512)
    in if status \<noteq> 0xFF
       then do { q' \<leftarrow> release q t; c' \<leftarrow> pfree c (page_phys t); ret (Some (status = 0), q', m, c') }
       else do { ws \<leftarrow> upd (wakers q) (unat (t_d0 t)) (Some waker); ret (None, q\<lparr>wakers := ws\<rparr>, m, c) })"

section \<open>The completion thread\<close>

text \<open>
  A round of the completion thread: for every used element since the last round the waker of its
  head descriptor is taken and fired.
\<close>

definition take_waker :: "virtqueue \<Rightarrow> nat \<Rightarrow> nat list \<times> virtqueue" where
  "take_waker q i =
    (if i < length (wakers q)
     then (case wakers q ! i of Some w \<Rightarrow> [w] | None \<Rightarrow> [], q\<lparr>wakers := (wakers q)[i := None]\<rparr>)
     else ([], q))"

function drain_used :: "virtqueue \<Rightarrow> u16 \<Rightarrow> u16 \<Rightarrow> nat list \<Rightarrow> (nat list \<times> virtqueue) run" where
  "drain_used q current_used last_seen woken =
    (if last_seen = current_used then ret (woken, q\<lparr>last_seen_used := last_seen\<rparr>)
     else if queue_size q = 0 then panic
     else do { (i, _) \<leftarrow> idx (used_ring q) (unat last_seen mod unat (queue_size q));
               let (ws, q') = take_waker q (unat i)
               in drain_used q' current_used (last_seen + 1) (woken @ ws) })"
  by pat_completeness auto
termination
proof (relation "measure (\<lambda>(q, cu, ls, w). unat (cu - ls))")
  fix cu ls :: u16
  assume "ls \<noteq> cu"
  then have "cu - ls \<noteq> 0" by simp
  then have "unat (cu - ls - 1) < unat (cu - ls)" by (metis unat_minus_one diff_less unat_gt_0 word_gt_0 zero_less_one)
  then show "((q', cu, ls + 1, w'), (q, cu, ls, w)) \<in> measure (\<lambda>(q, cu, ls, w). unat (cu - ls))" for q q' w w'
    by (simp add: diff_diff_eq)
qed auto

declare drain_used.simps [simp del]

definition poll_round :: "virtqueue \<Rightarrow> (nat list \<times> virtqueue) run" where
  "poll_round q = (if used_idx q = last_seen_used q then ret ([], q) else drain_used q (used_idx q) (last_seen_used q) [])"

section \<open>Feature negotiation\<close>

definition negotiate_upper :: "u32 \<Rightarrow> u32" where
  "negotiate_upper upper = unset_bit_at (set_bit_at upper 0) 2"

definition negotiate_lower :: "u32 \<Rightarrow> u32" where
  "negotiate_lower lower =
    set_bit_at (set_bit_at (set_bit_at (set_bit_at (set_bit_at
      (unset_bit_at (unset_bit_at (unset_bit_at lower 12) 28) 29) 1) 2) 5) 6) 9"

section \<open>Free descriptors and descriptors of transfers\<close>

fun free_chain :: "vdesc list \<Rightarrow> u16 \<Rightarrow> nat list \<Rightarrow> bool" where
  "free_chain ds h [] = (h = 0xFFFF)"
| "free_chain ds h (i # is) = (h = of_nat i \<and> i < length ds \<and> free_chain ds (d_next (ds ! i)) is)"

definition dlist :: "transfer \<Rightarrow> nat list" where
  "dlist t = [unat (t_d0 t), unat (t_d1 t), unat (t_d2 t)]"

definition chained :: "vdesc list \<Rightarrow> transfer \<Rightarrow> bool" where
  "chained ds t \<longleftrightarrow>
    d_next (ds ! unat (t_d0 t)) = t_d1 t \<and> d_addr (ds ! unat (t_d0 t)) = page_phys t \<and> d_len (ds ! unat (t_d0 t)) = 16 \<and>
    d_next (ds ! unat (t_d1 t)) = t_d2 t \<and> d_addr (ds ! unat (t_d2 t)) = page_phys t + 512 \<and> d_len (ds ! unat (t_d2 t)) = 1"

definition vq_ok :: "virtqueue \<Rightarrow> nat list \<Rightarrow> transfer list \<Rightarrow> bool" where
  "vq_ok q F T \<longleftrightarrow>
    0 < queue_size q \<and> unat (queue_size q) < 0xFFFF \<and>
    length (descs q) = unat (queue_size q) \<and> length (avail_ring q) = unat (queue_size q) \<and> length (wakers q) = unat (queue_size q) \<and>
    free_chain (descs q) (free_head q) F \<and> distinct (F @ concat (map dlist T)) \<and>
    (\<forall>i \<in> set (F @ concat (map dlist T)). i < length (descs q)) \<and> (\<forall>t \<in> set T. chained (descs q) t)"

lemma free_chain_upd: "i \<notin> set F \<Longrightarrow> free_chain (ds[i := d]) h F = free_chain ds h F"
  by (induction ds h F rule: free_chain.induct) auto

lemma free_chain_new: "k < n \<Longrightarrow> free_chain (free_desc_list n) (of_nat k) [k..<n]"
proof (induction "n - k" arbitrary: k)
  case (Suc j)
  show ?case
  proof (cases "Suc k = n")
    case True
    then have "[k..<n] = [k]" by (simp add: upt_rec)
    then show ?thesis using True by (auto simp: free_desc_list_def nth_append)
  next
    case False
    then have "free_chain (free_desc_list n) (of_nat (Suc k)) [Suc k..<n]"
      using Suc.hyps(1) [of "Suc k"] Suc.hyps(2) Suc.prems by linarith
    moreover have "d_next (free_desc_list n ! k) = of_nat (Suc k)" "k < length (free_desc_list n)"
      using False Suc.prems by (auto simp: free_desc_list_def nth_append)
    ultimately show ?thesis using Suc.prems by (simp add: upt_conv_Cons)
  qed
qed simp

lemma small_u16: "i < 0xFFFF \<Longrightarrow> unat (of_nat i :: u16) = i" "i < 0xFFFF \<Longrightarrow> (of_nat i :: u16) \<noteq> 0xFFFF"
proof -
  assume i: "i < 0xFFFF"
  then show u: "unat (of_nat i :: u16) = i" by (simp add: unsigned_of_nat take_bit_nat_eq_self)
  show "(of_nat i :: u16) \<noteq> 0xFFFF"
  proof
    assume "(of_nat i :: u16) = 0xFFFF"
    then have "i = unat (0xFFFF :: u16)" using u by simp
    then show False using i by simp
  qed
qed

lemma alloc_desc_none: "vq_ok q [] T \<Longrightarrow> alloc_desc q = Some (Inl (), q)"
  by (simp add: vq_ok_def alloc_desc_def)

text \<open>A descriptor that is neither free nor part of a recorded transfer is on its way into one.\<close>

lemma alloc_desc_some:
  assumes "free_chain (descs q) (free_head q) (i # F)" and "i < 0xFFFF"
  shows "alloc_desc q = Some (Inr (of_nat i), q\<lparr>free_head := d_next (descs q ! i)\<rparr>) \<and>
    free_chain (descs q) (d_next (descs q ! i)) F"
  using assms small_u16 [of i] by (simp add: alloc_desc_def idx_in_range)

lemma free_desc_some:
  assumes "free_chain (descs q) (free_head q) F" and "unat i \<notin> set F" and "unat i < length (descs q)"
  shows "\<exists>ds. free_desc q i = Some (q\<lparr>descs := ds, free_head := i\<rparr>) \<and> length ds = length (descs q) \<and>
    free_chain ds i (unat i # F) \<and> (\<forall>j. j \<noteq> unat i \<longrightarrow> ds ! j = descs q ! j)"
  using assms by (auto simp: free_desc_def free_chain_upd idx_in_range upd_in_range)

lemma dlist_set: "set (concat (map dlist T)) = (\<Union>t \<in> set T. set (dlist t))"
  by simp

lemma chained_upd: "i \<notin> set (dlist t) \<Longrightarrow> chained (ds[i := d]) t = chained ds t"
  by (auto simp: chained_def dlist_def)

section \<open>Submission and release\<close>

lemma submit_ok:
  assumes ok: "vq_ok q (a # b # c # F) T"
  shows "\<exists>q'. submit q page n buf w = Some (Inr (of_nat a, of_nat b, of_nat c), q') \<and>
    vq_ok q' F (T @ [\<lparr>t_d0 = of_nat a, t_d1 = of_nat b, t_d2 = of_nat c, page_phys = page\<rparr>]) \<and>
    descs q' ! b = \<lparr>d_addr = buf, d_len = n * 512, d_flags = (if w then 1 else 3), d_next = of_nat c\<rparr> \<and>
    queue_size q' = queue_size q \<and> avail_idx q' = avail_idx q + 1 \<and> used_ring q' = used_ring q \<and> used_idx q' = used_idx q \<and>
    avail_ring q' ! (unat (avail_idx q) mod unat (queue_size q)) = of_nat a"
proof -
  let ?len = "length (descs q)"
  have n: "0 < unat (queue_size q)" "?len = unat (queue_size q)" "length (avail_ring q) = ?len" "length (wakers q) = ?len" "?len < 0xFFFF"
    and ch: "free_chain (descs q) (free_head q) (a # b # c # F)"
    and dis: "distinct (a # b # c # F @ concat (map dlist T))"
    and bd: "a < ?len" "b < ?len" "c < ?len" "\<forall>i \<in> set (F @ concat (map dlist T)). i < ?len"
    and ct: "\<forall>t \<in> set T. chained (descs q) t"
    using ok by (auto simp: vq_ok_def unat_gt_0)
  have qz: "queue_size q \<noteq> 0" using n(1) by auto
  have u: "unat (of_nat a :: u16) = a" "unat (of_nat b :: u16) = b" "unat (of_nat c :: u16) = c"
    using bd n(5) small_u16(1) by (meson less_trans)+
  have nf: "free_head q \<noteq> 0xFFFF" "d_next (descs q ! a) \<noteq> 0xFFFF" "d_next (descs q ! b) \<noteq> 0xFFFF"
    using ch bd n(5) small_u16(2) by (auto intro: less_trans)
  have hd: "free_head q = of_nat a" "d_next (descs q ! a) = of_nat b" "d_next (descs q ! b) = of_nat c"
    "free_chain (descs q) (d_next (descs q ! c)) F" using ch by auto
  let ?ds = "(descs q)[a := \<lparr>d_addr = page, d_len = 16, d_flags = 1, d_next = of_nat b\<rparr>,
     b := \<lparr>d_addr = buf, d_len = n * 512, d_flags = (if w then 1 else 3), d_next = of_nat c\<rparr>,
     c := \<lparr>d_addr = page + 512, d_len = 1, d_flags = 2, d_next = 0xFFFF\<rparr>]"
  let ?q = "q\<lparr>descs := ?ds, free_head := d_next (descs q ! c),
     avail_ring := (avail_ring q)[unat (avail_idx q) mod unat (queue_size q) := of_nat a], avail_idx := avail_idx q + 1\<rparr>"
  have "submit q page n buf w = Some (Inr (of_nat a, of_nat b, of_nat c), ?q)"
    using nf bd n unfolding submit_def alloc_desc_def write_desc_def
    by (simp add: hd u qz idx_in_range upd_in_range)
  moreover have "chained ?ds \<lparr>t_d0 = of_nat a, t_d1 = of_nat b, t_d2 = of_nat c, page_phys = page\<rparr>"
    using dis bd by (auto simp: chained_def u nth_list_update)
  moreover have "chained ?ds t" if "t \<in> set T" for t
  proof -
    have "a \<notin> set (dlist t)" "b \<notin> set (dlist t)" "c \<notin> set (dlist t)" using dis that by auto
    then show ?thesis using ct that by (simp add: chained_upd)
  qed
  moreover have "free_chain ?ds (d_next (descs q ! c)) F" using hd(4) dis by (simp add: free_chain_upd)
  moreover have "distinct (F @ concat (map dlist T) @ [a, b, c])" using dis by auto
  ultimately show ?thesis using n bd dis
    by (intro exI [of _ ?q]) (auto simp: vq_ok_def dlist_def u unat_gt_0 word_gt_0 nth_list_update)
qed

lemma submit_fails:
  assumes ok: "vq_ok q F T" and "length F < 3"
  shows "\<exists>q'. submit q page n buf w = Some (Inl (), q') \<and> vq_ok q' [] T \<and> queue_size q' = queue_size q"
proof -
  have b: "\<And>i. i \<in> set F \<Longrightarrow> i < 0xFFFF" using ok by (auto simp: vq_ok_def intro: less_trans)
  consider "F = []" | i where "F = [i]" | i j where "F = [i, j]"
    using assms(2) by (cases F; cases "tl F"; cases "tl (tl F)") auto
  then show ?thesis
  proof cases
    case 1
    then show ?thesis using ok alloc_desc_none [of q T] by (simp add: submit_def)
  next
    case (2 i)
    then have "alloc_desc q = Some (Inr (of_nat i), q\<lparr>free_head := 0xFFFF\<rparr>)"
      using alloc_desc_some [of q i "[]"] ok b by (auto simp: vq_ok_def)
    moreover have v: "vq_ok (q\<lparr>free_head := 0xFFFF\<rparr>) [] T" using ok by (auto simp: vq_ok_def)
    ultimately show ?thesis using alloc_desc_none [OF v] by (simp add: submit_def)
  next
    case (3 i j)
    then have ch: "free_chain (descs q) (free_head q) [i, j]" using ok by (simp add: vq_ok_def)
    let ?q = "q\<lparr>free_head := of_nat j\<rparr>"
    have "alloc_desc q = Some (Inr (of_nat i), ?q)"
      using alloc_desc_some [OF ch] b 3 ch by auto
    moreover have "alloc_desc ?q = Some (Inr (of_nat j), q\<lparr>free_head := 0xFFFF\<rparr>)"
      using alloc_desc_some [of ?q j "[]"] b 3 ch by auto
    moreover have v: "vq_ok (q\<lparr>free_head := 0xFFFF\<rparr>) [] T" using ok 3 by (auto simp: vq_ok_def)
    ultimately show ?thesis using alloc_desc_none [OF v] by (simp add: submit_def)
  qed
qed

lemma release_ok:
  assumes ok: "vq_ok q F (T1 @ t # T2)"
  shows "\<exists>q'. release q t = Some q' \<and> vq_ok q' (rev (dlist t) @ F) (T1 @ T2) \<and> queue_size q' = queue_size q \<and>
    wakers q' = wakers q"
proof -
  let ?len = "length (descs q)"
  let ?a = "unat (t_d0 t)" and ?b = "unat (t_d1 t)" and ?c = "unat (t_d2 t)"
  have ch: "free_chain (descs q) (free_head q) F" and dis: "distinct (F @ concat (map dlist (T1 @ t # T2)))"
    and bd: "?a < ?len" "?b < ?len" "?c < ?len" and ct: "\<forall>t \<in> set (T1 @ T2). chained (descs q) t"
    using ok by (auto simp: vq_ok_def dlist_def)
  have d: "?a \<notin> set F" "?b \<notin> set F" "?c \<notin> set F" "?a \<noteq> ?b" "?a \<noteq> ?c" "?b \<noteq> ?c" using dis by (auto simp: dlist_def)
  obtain ds1 where 1: "free_desc q (t_d0 t) = Some (q\<lparr>descs := ds1, free_head := t_d0 t\<rparr>)" "length ds1 = ?len"
    "free_chain ds1 (t_d0 t) (?a # F)" "\<forall>j. j \<noteq> ?a \<longrightarrow> ds1 ! j = descs q ! j"
    using free_desc_some [OF ch d(1) bd(1)] by blast
  obtain ds2 where 2: "free_desc (q\<lparr>descs := ds1, free_head := t_d0 t\<rparr>) (t_d1 t) = Some (q\<lparr>descs := ds2, free_head := t_d1 t\<rparr>)"
    "length ds2 = ?len" "free_chain ds2 (t_d1 t) (?b # ?a # F)" "\<forall>j. j \<noteq> ?b \<longrightarrow> ds2 ! j = ds1 ! j"
    using free_desc_some [of "q\<lparr>descs := ds1, free_head := t_d0 t\<rparr>" "?a # F" "t_d1 t"] 1 d bd by auto
  obtain ds3 where 3: "free_desc (q\<lparr>descs := ds2, free_head := t_d1 t\<rparr>) (t_d2 t) = Some (q\<lparr>descs := ds3, free_head := t_d2 t\<rparr>)"
    "length ds3 = ?len" "free_chain ds3 (t_d2 t) (?c # ?b # ?a # F)" "\<forall>j. j \<noteq> ?c \<longrightarrow> ds3 ! j = ds2 ! j"
    using free_desc_some [of "q\<lparr>descs := ds2, free_head := t_d1 t\<rparr>" "?b # ?a # F" "t_d2 t"] 2 d bd by auto
  have "chained ds3 t'" if t': "t' \<in> set (T1 @ T2)" for t'
  proof -
    have "set (dlist t) \<inter> set (dlist t') = {}" using dis t' by auto
    then have "ds3 ! unat x = descs q ! unat x" if "unat x \<in> set (dlist t')" for x
      using that 1(4) 2(4) 3(4) by (auto simp: dlist_def)
    then have "\<forall>x \<in> {t_d0 t', t_d1 t', t_d2 t'}. ds3 ! unat x = descs q ! unat x" by (auto simp: dlist_def)
    then show ?thesis using ct t' by (simp add: chained_def)
  qed
  moreover have "distinct (rev (dlist t) @ F @ concat (map dlist (T1 @ T2)))" using dis by auto
  moreover have "\<forall>i \<in> set (rev (dlist t) @ F @ concat (map dlist (T1 @ T2))). i < ?len" using ok by (auto simp: vq_ok_def)
  moreover have "free_chain ds3 (t_d2 t) (rev (dlist t) @ F)" using 3(3) by (simp add: dlist_def)
  ultimately have "vq_ok (q\<lparr>descs := ds3, free_head := t_d2 t\<rparr>) (rev (dlist t) @ F) (T1 @ T2)"
    using ok 3(2) unfolding vq_ok_def by auto
  moreover have "release q t = Some (q\<lparr>descs := ds3, free_head := t_d2 t\<rparr>)" using 1(1) 2(1) 3(1) by (simp add: release_def)
  ultimately show ?thesis by auto
qed

section \<open>Runs of the driver\<close>

datatype vq_op = Submit nat u32 nat bool | Finish nat

fun vq_step :: "virtqueue \<times> transfer list \<Rightarrow> vq_op \<Rightarrow> (virtqueue \<times> transfer list) run" where
  "vq_step (q, T) (Submit page n buf w) =
    do { (r, q') \<leftarrow> submit q page n buf w;
         ret (q', case r of Inl _ \<Rightarrow> T
                  | Inr (d0, d1, d2) \<Rightarrow> T @ [\<lparr>t_d0 = d0, t_d1 = d1, t_d2 = d2, page_phys = page\<rparr>]) }"
| "vq_step (q, T) (Finish k) =
    (if k < length T then do { q' \<leftarrow> release q (T ! k); ret (q', take k T @ drop (Suc k) T) } else ret (q, T))"

fun vq_run :: "virtqueue \<times> transfer list \<Rightarrow> vq_op list \<Rightarrow> (virtqueue \<times> transfer list) run" where
  "vq_run s [] = ret s"
| "vq_run s (x # xs) = do { s' \<leftarrow> vq_step s x; vq_run s' xs }"

definition accounted :: "virtqueue \<Rightarrow> nat list \<Rightarrow> transfer list \<Rightarrow> bool" where
  "accounted q F T \<longleftrightarrow> length F + 3 * length T \<le> unat (queue_size q) \<and>
     (unat (queue_size q) mod 3 = 0 \<longrightarrow> length F + 3 * length T = unat (queue_size q))"

lemma vq_step_ok:
  assumes "vq_ok q F T" and "accounted q F T"
  shows "\<exists>q' T' F'. vq_step (q, T) x = Some (q', T') \<and> vq_ok q' F' T' \<and> accounted q' F' T' \<and> queue_size q' = queue_size q"
proof (cases x)
  case (Submit page n buf w)
  show ?thesis
  proof (cases "length F < 3")
    case True
    obtain q' where "submit q page n buf w = Some (Inl (), q')" "vq_ok q' [] T" "queue_size q' = queue_size q"
      using submit_fails [OF assms(1) True] by blast
    moreover have "unat (queue_size q) mod 3 = 0 \<longrightarrow> F = []"
    proof
      assume "unat (queue_size q) mod 3 = 0"
      then have "(length F + 3 * length T) mod 3 = 0" using assms(2) by (simp add: accounted_def)
      then show "F = []" using True by simp
    qed
    ultimately show ?thesis using Submit assms(2)
      by (intro exI [of _ q'] exI [of _ T] exI [of _ "[]"]) (auto simp: accounted_def)
  next
    case False
    then obtain a b c F' where F: "F = a # b # c # F'"
      by (metis One_nat_def Suc_1 less_Suc_eq list.exhaust list.size(3,4) add.right_neutral add_Suc_right numeral_3_eq_3 zero_less_Suc)
    then show ?thesis using Submit submit_ok [OF assms(1) [unfolded F], of page n buf w] assms(2)
      by (force simp: accounted_def)
  qed
next
  case (Finish k)
  show ?thesis
  proof (cases "k < length T")
    case True
    then have T: "T = take k T @ T ! k # drop (Suc k) T" by (rule id_take_nth_drop)
    obtain q' where "release q (T ! k) = Some q'" "vq_ok q' (rev (dlist (T ! k)) @ F) (take k T @ drop (Suc k) T)"
      "queue_size q' = queue_size q"
      using release_ok [of q F "take k T" "T ! k" "drop (Suc k) T"] assms(1) T by auto
    moreover have "accounted q' (rev (dlist (T ! k)) @ F) (take k T @ drop (Suc k) T)"
    proof -
      have "length (rev (dlist (T ! k)) @ F) + 3 * length (take k T @ drop (Suc k) T) = length F + 3 * length T"
        using True by (simp add: dlist_def)
      then show ?thesis using assms(2) calculation(3) by (metis accounted_def)
    qed
    ultimately show ?thesis using Finish True by auto
  qed (use Finish assms in auto)
qed

lemma vq_run_ok:
  assumes "vq_ok q F T" and "accounted q F T"
  shows "\<exists>q' T' F'. vq_run (q, T) xs = Some (q', T') \<and> vq_ok q' F' T' \<and> accounted q' F' T' \<and> queue_size q' = queue_size q"
  using assms
proof (induction xs arbitrary: q F T)
  case (Cons x xs)
  obtain q1 T1 F1 where 1: "vq_step (q, T) x = Some (q1, T1)" "vq_ok q1 F1 T1" "accounted q1 F1 T1" "queue_size q1 = queue_size q"
    using vq_step_ok [OF Cons.prems] by blast
  then show ?case using Cons.IH [OF 1(2,3)] by auto
qed auto

lemma vq_setup_ok:
  assumes "vq_setup alord qs m c = Some (Some q, m', c')" and "unat qs < 0xFFFF"
  shows "vq_ok q [0..<unat qs] [] \<and> queue_size q = qs"
proof -
  have "qs \<noteq> 0" using assms(1) by (auto simp: vq_setup_def)
  then have n: "0 < unat qs" by (simp add: unat_gt_0)
  have q: "descs q = free_desc_list (unat qs)" "free_head q = 0" "queue_size q = qs" "length (avail_ring q) = unat qs"
    "length (wakers q) = unat qs"
    using assms(1) \<open>qs \<noteq> 0\<close> by (auto simp: vq_setup_def Let_def split: Option.bind_splits option.splits)
  have "length (free_desc_list (unat qs)) = unat qs" using n by (simp add: free_desc_list_def)
  then show ?thesis using free_chain_new [OF n] q n assms(2) \<open>qs \<noteq> 0\<close> by (simp add: vq_ok_def word_gt_0)
qed

text \<open>
  The descriptors of a queue are never shared. Whatever sequence of submissions and
  completions runs on a queue that was just set up, the driver does not fault; the free list
  and the three descriptors of every outstanding transfer are pairwise disjoint and in range,
  every transfer's descriptors stay linked as header, buffer and status, and when the queue size
  is a multiple of three no descriptor is ever lost.
\<close>

theorem virtqueue_descriptors:
  assumes "vq_setup alord qs m c = Some (Some q0, m', c')" and "unat qs < 0xFFFF"
  shows "\<exists>q T F. vq_run (q0, []) xs = Some (q, T) \<and> vq_ok q F T \<and> length F + 3 * length T \<le> unat qs \<and>
     (unat qs mod 3 = 0 \<longrightarrow> length F + 3 * length T = unat qs)"
proof -
  have q0: "vq_ok q0 [0..<unat qs] []" "queue_size q0 = qs" using vq_setup_ok [OF assms] by auto
  then have "accounted q0 [0..<unat qs] []" by (simp add: accounted_def)
  then show ?thesis using vq_run_ok [OF q0(1)] q0(2) by (metis accounted_def)
qed

theorem virtqueue_descriptors_witness:
  "\<exists>q0 m' c' q T F. vq_setup (\<lambda>c k. Some (Some c, c + 2 ^ k)) 6 (\<lambda>_. 0) (8 :: nat) = Some (Some q0, m', c') \<and>
     vq_run (q0, []) [Submit 4096 2 8192 False, Submit 12288 1 16384 True, Submit 0 1 0 True, Finish 0] = Some (q, T) \<and>
     vq_ok q F T \<and> length F + 3 * length T = 6"
proof -
  obtain q0 m' c' where s: "vq_setup (\<lambda>c k. Some (Some c, c + 2 ^ k)) 6 (\<lambda>_. 0) (8 :: nat) = Some (Some q0, m', c')"
    by (simp add: vq_setup_def Let_def)
  then show ?thesis
    using virtqueue_descriptors [OF s, of "[Submit 4096 2 8192 False, Submit 12288 1 16384 True, Submit 0 1 0 True, Finish 0]"]
    by simp blast
qed

text \<open>
  A full queue leaks descriptors. When one or two descriptors are free a submission fails
  only after it has taken them: the free list is then empty although none of them belongs to a
  transfer, and completing every outstanding transfer brings back only their own.
\<close>

theorem failed_submission_leaks:
  assumes "vq_ok q F T" and "length F < 3"
  shows "\<exists>q'. submit q page n buf w = Some (Inl (), q') \<and> vq_ok q' [] T"
  using submit_fails [OF assms] by blast

lemma sample_vq_ok:
  "\<exists>q. vq_ok q [0, 1] [] \<and> queue_size q = 2"
proof -
  obtain q0 m' c' where s: "vq_setup (\<lambda>c k. Some (Some c, c + 2 ^ k)) 2 (\<lambda>_. 0) (8 :: nat) = Some (Some q0, m', c')"
    by (simp add: vq_setup_def Let_def)
  then show ?thesis using vq_setup_ok [OF s] by (auto simp: upt_rec)
qed

theorem failed_submission_leaks_witness:
  "\<exists>q q'. queue_size q = 2 \<and> vq_ok q [0, 1] [] \<and> submit q 4096 1 8192 True = Some (Inl (), q') \<and> vq_ok q' [] []"
  using sample_vq_ok failed_submission_leaks [where F = "[0, 1]" and T = "[]"] by fastforce

section \<open>The life of a transfer\<close>


lemma sample_vq_wide: "\<exists>q. vq_ok q [0..<3] [] \<and> queue_size q = 3"
proof -
  obtain q0 m' c' where s: "vq_setup (\<lambda>c k. Some (Some c, c + 2 ^ k)) 3 (\<lambda>_. 0) (8 :: nat) = Some (Some q0, m', c')"
    by (simp add: vq_setup_def Let_def)
  then show ?thesis using vq_setup_ok [OF s] by (auto simp del: upt_rec_numeral)
qed


end
