(* ===== verification/Blockdev.thy ===== *)
theory Blockdev
  imports Heap Bytes
begin

text \<open>
  Block devices and GPT partitions: \<^verbatim>\<open>drivers/blockdev/asyncbd.rs\<close> and \<^verbatim>\<open>drivers/blockdev/gpt.rs\<close>.
  A device transfers whole sectors of 512 bytes. A transfer may be refused when it is submitted
  (\<open>None\<close>) or end with an error (\<open>Some False\<close>); a read returns what its buffer holds afterwards.
\<close>

type_synonym 'd dev_read = "'d \<Rightarrow> u64 \<Rightarrow> u32 \<Rightarrow> (bool \<times> u8 list) option \<times> 'd"

type_synonym 'd dev_write = "'d \<Rightarrow> u64 \<Rightarrow> u32 \<Rightarrow> u8 list \<Rightarrow> bool option \<times> 'd"

definition SECTOR :: nat where
  "SECTOR = 512"

definition sectors :: "(nat \<Rightarrow> u8 list) \<Rightarrow> nat \<Rightarrow> nat \<Rightarrow> u8 list" where
  "sectors f s n = concat (map f [s..<s + n])"

definition put_sectors :: "(nat \<Rightarrow> u8 list) \<Rightarrow> nat \<Rightarrow> nat \<Rightarrow> u8 list \<Rightarrow> nat \<Rightarrow> u8 list" where
  "put_sectors f s n bs k = (if s \<le> k \<and> k < s + n then take SECTOR (drop (SECTOR * (k - s)) bs) else f k)"

section \<open>Partitions\<close>

record gpt_partition =
  start_sector :: u64
  total_sectors :: u64

definition part_read :: "'d dev_read \<Rightarrow> (gpt_partition \<times> 'd) dev_read" where
  "part_read rd = (\<lambda>(p, d) sector sectors_count.
    if total_sectors p < sector + ucast sectors_count then (None, p, d)
    else case rd d (start_sector p + sector) sectors_count of (r, d') \<Rightarrow> (r, p, d'))"

definition part_write :: "'d dev_write \<Rightarrow> (gpt_partition \<times> 'd) dev_write" where
  "part_write wr = (\<lambda>(p, d) sector sectors_count bs.
    if total_sectors p < sector + ucast sectors_count then (None, p, d)
    else case wr d (start_sector p + sector) sectors_count bs of (r, d') \<Rightarrow> (r, p, d'))"

section \<open>The partition table\<close>

text \<open>Field offsets of the packed header and entries.\<close>

record gpt_header =
  gh_signature :: u64
  gh_entry_table_lba :: u64
  gh_num_entries :: u32
  gh_entry_size :: u32

definition decode_gpt_header :: "u8 list \<Rightarrow> gpt_header" where
  "decode_gpt_header bs =
    \<lparr>gh_signature = field bs 0 8, gh_entry_table_lba = field bs 72 8, gh_num_entries = field bs 80 4,
     gh_entry_size = field bs 84 4\<rparr>"

definition GPT_SIGNATURE :: u64 where
  "GPT_SIGNATURE = 0x5452415020494645"

record gpt_entry =
  ge_type_a :: u32
  ge_type_b :: u16
  ge_starting_lba :: u64
  ge_ending_lba :: u64

definition decode_gpt_entry :: "u8 list \<Rightarrow> gpt_entry" where
  "decode_gpt_entry bs =
    \<lparr>ge_type_a = field bs 0 4, ge_type_b = field bs 4 2, ge_starting_lba = field bs 32 8, ge_ending_lba = field bs 40 8\<rparr>"

fun gpt_partitions :: "gpt_entry list \<Rightarrow> gpt_partition list" where
  "gpt_partitions [] = []"
| "gpt_partitions (e # es) =
    (if ge_type_a e = 0 \<and> ge_type_b e = 0 then gpt_partitions es
     else \<lparr>start_sector = ge_starting_lba e, total_sectors = ge_ending_lba e - ge_starting_lba e + 1\<rparr> # gpt_partitions es)"

definition gpt_entries :: "u8 list \<Rightarrow> nat \<Rightarrow> gpt_entry list" where
  "gpt_entries bs n = map (\<lambda>i. decode_gpt_entry (take 128 (drop (i * 128) bs))) [0..<n]"

text \<open>
  \<^verbatim>\<open>GptTable::parse\<close>. The header page and the table buffer come from the page allocator; an error of
  the device returns early and leaves them allocated.
\<close>

definition gpt_parse ::
  "('c \<Rightarrow> (nat \<times> 'c) run) \<Rightarrow> ('c \<Rightarrow> nat \<Rightarrow> 'c run) \<Rightarrow> ('c \<Rightarrow> nat \<Rightarrow> (nat option \<times> 'c) run) \<Rightarrow> ('c \<Rightarrow> nat \<Rightarrow> nat \<Rightarrow> 'c run)
     \<Rightarrow> 'd dev_read \<Rightarrow> 'd \<Rightarrow> 'c \<Rightarrow> ((unit + gpt_partition list) \<times> 'd \<times> 'c) run" where
  "gpt_parse palloc pfree alord frord rd d c =
    do { (header_page, c1) \<leftarrow> palloc c;
         if header_page = 0 then ret (Inl (), d, c1)
         else case rd d 1 1 of
           (Some (True, hb), d1) \<Rightarrow>
             let h = decode_gpt_header hb;
                 total_table_bytes = unat (gh_num_entries h) * unat (gh_entry_size h);
                 table_sectors = (total_table_bytes + 511) div 512
             in if gh_signature h \<noteq> GPT_SIGNATURE \<or> 128 < gh_num_entries h \<or> gh_entry_size h \<noteq> 128
                then do { c2 \<leftarrow> pfree c1 header_page; ret (Inl (), d1, c2) }
                else let order = calculate_order (total_table_bytes + 4095)
                     in do { (r, c2) \<leftarrow> alord c1 order;
                             case r of
                               None \<Rightarrow> do { c3 \<leftarrow> pfree c2 header_page; ret (Inl (), d1, c3) }
                             | Some table_buf \<Rightarrow>
                                 (case rd d1 (gh_entry_table_lba h) (of_nat table_sectors) of
                                    (Some (True, tb), d2) \<Rightarrow>
                                      do { c3 \<leftarrow> pfree c2 header_page;
                                           c4 \<leftarrow> frord c3 table_buf order;
                                           ret (Inr (gpt_partitions (gpt_entries tb (unat (gh_num_entries h)))), d2, c4) }
                                  | (_, d2) \<Rightarrow> ret (Inl (), d2, c2)) }
         | (_, d1) \<Rightarrow> ret (Inl (), d1, c1) }"

section \<open>What a block device promises\<close>

text \<open>
  \<open>img d k\<close> is the content of sector \<open>k\<close> and \<open>cap d\<close> the number of sectors. A transfer whose
  sectors do not wrap around moves exactly the sectors it names; a device without faults
  completes every transfer inside its capacity.
\<close>

locale block_device =
  fixes rd :: "'d dev_read" and wr :: "'d dev_write" and img :: "'d \<Rightarrow> nat \<Rightarrow> u8 list" and ok :: "'d \<Rightarrow> bool"
  assumes sector_length: "ok d \<Longrightarrow> length (img d k) = SECTOR"
    and rd_ok: "ok d \<Longrightarrow> unat s + unat n < 2 ^ 64 \<Longrightarrow> rd d s n = (r, d') \<Longrightarrow> ok d' \<and> img d' = img d"
    and rd_data: "ok d \<Longrightarrow> unat s + unat n < 2 ^ 64 \<Longrightarrow> rd d s n = (Some (True, bs), d') \<Longrightarrow> bs = sectors (img d) (unat s) (unat n)"
    and wr_data: "ok d \<Longrightarrow> unat s + unat n < 2 ^ 64 \<Longrightarrow> length bs = SECTOR * unat n \<Longrightarrow> wr d s n bs = (Some True, d') \<Longrightarrow>
        ok d' \<and> img d' = put_sectors (img d) (unat s) (unat n) bs"

locale sound_device = block_device +
  fixes cap :: "'a \<Rightarrow> nat"
  assumes rd_total: "ok d \<Longrightarrow> 0 < n \<Longrightarrow> unat s + unat n \<le> cap d \<Longrightarrow> unat s + unat n < 2 ^ 64 \<Longrightarrow>
        \<exists>bs d'. rd d s n = (Some (True, bs), d') \<and> cap d' = cap d"
    and wr_total: "ok d \<Longrightarrow> 0 < n \<Longrightarrow> unat s + unat n \<le> cap d \<Longrightarrow> unat s + unat n < 2 ^ 64 \<Longrightarrow> length bs = SECTOR * unat n \<Longrightarrow>
        \<exists>d'. wr d s n bs = (Some True, d') \<and> cap d' = cap d"

lemma length_sectors: "(\<And>k. length (f k) = SECTOR) \<Longrightarrow> length (sectors f s n) = SECTOR * n"
  by (induction n) (simp_all add: sectors_def)

lemma sectors_put_same:
  assumes "length bs = SECTOR * n"
  shows "sectors (put_sectors f s n bs) s n = bs"
proof -
  have "concat (map (\<lambda>k. take SECTOR (drop (SECTOR * k) bs)) [0..<j]) = take (SECTOR * j) bs" if "j \<le> n" for j
    using that
  proof (induction j)
    case (Suc j)
    then show ?case by (simp add: take_add add.commute [of SECTOR])
  qed simp
  moreover have "map (put_sectors f s n bs) [s..<s + n] = map (\<lambda>k. take SECTOR (drop (SECTOR * k) bs)) [0..<n]"
    by (rule nth_equalityI) (simp_all add: put_sectors_def)
  ultimately show ?thesis using assms by (simp add: sectors_def)
qed

lemma sectors_put_apart:
  "s + n \<le> s' \<or> s' + n' \<le> s \<Longrightarrow> sectors (put_sectors f s n bs) s' n' = sectors f s' n'"
  by (auto simp: sectors_def put_sectors_def intro!: arg_cong [where f = concat])

section \<open>A disk and its partitions\<close>

text \<open>
  The drive behind the driver, as the virtio specification describes it: a transfer inside the
  capacity completes, any other ends with an error status.
\<close>

record disk =
  platter :: "nat \<Rightarrow> u8 list"
  capacity :: nat

definition disk_read :: "disk dev_read" where
  "disk_read d s n =
    (if unat s + unat n \<le> capacity d then Some (True, sectors (platter d) (unat s) (unat n)) else Some (False, []), d)"

definition disk_write :: "disk dev_write" where
  "disk_write d s n bs =
    (if unat s + unat n \<le> capacity d
     then (Some True, d\<lparr>platter := put_sectors (platter d) (unat s) (unat n) bs\<rparr>) else (Some False, d))"

definition disk_ok :: "disk \<Rightarrow> bool" where
  "disk_ok d \<longleftrightarrow> (\<forall>k. length (platter d k) = SECTOR)"

lemma put_sectors_length:
  "(\<And>k. length (f k) = SECTOR) \<Longrightarrow> length bs = SECTOR * n \<Longrightarrow> length (put_sectors f s n bs k) = SECTOR"
proof (cases "s \<le> k \<and> k < s + n")
  case True
  assume "length bs = SECTOR * n"
  moreover have "SECTOR * Suc (k - s) \<le> SECTOR * n" using True by (intro mult_le_mono2) linarith
  ultimately show ?thesis using True by (simp add: put_sectors_def)
qed (auto simp: put_sectors_def)

interpretation disk: sound_device disk_read disk_write platter disk_ok capacity
  by unfold_locales (auto simp: disk_ok_def disk_read_def disk_write_def put_sectors_length split: if_splits)

definition part_img :: "('d \<Rightarrow> nat \<Rightarrow> u8 list) \<Rightarrow> gpt_partition \<times> 'd \<Rightarrow> nat \<Rightarrow> u8 list" where
  "part_img f = (\<lambda>(p, d) k. f d (unat (start_sector p) + k))"

definition part_ok :: "('d \<Rightarrow> bool) \<Rightarrow> gpt_partition \<times> 'd \<Rightarrow> bool" where
  "part_ok P = (\<lambda>(p, d). P d \<and> unat (start_sector p) + unat (total_sectors p) < 2 ^ 64)"

definition part_cap :: "('d \<Rightarrow> nat) \<Rightarrow> gpt_partition \<times> 'd \<Rightarrow> nat" where
  "part_cap f = (\<lambda>(p, d). min (unat (total_sectors p)) (f d - unat (start_sector p)))"

lemma unat_sector: "unat (s :: u64) + unat (n :: u32) < 2 ^ 64 \<Longrightarrow> unat (s + ucast n) = unat s + unat n"
  using unat_add_lem [of s "ucast n :: u64"] by (simp add: unsigned_ucast_eq take_bit_nat_eq_self)

text \<open>Inside the partition the absolute sector does not wrap.\<close>

lemma part_inside:
  assumes "unat (start_sector p) + unat (total_sectors p) < 2 ^ 64" and "unat s + unat (n :: u32) < 2 ^ 64"
    and "\<not> total_sectors p < s + ucast n"
  shows "unat (start_sector p + s) = unat (start_sector p) + unat s \<and> unat (start_sector p + s) + unat n < 2 ^ 64 \<and>
    unat s + unat n \<le> unat (total_sectors p)"
proof -
  have le: "unat s + unat n \<le> unat (total_sectors p)"
    using assms(3) unat_sector [OF assms(2)] by (simp add: word_less_nat_alt)
  then have "unat (start_sector p) + unat s < 2 ^ 64" using assms(1) by linarith
  then have "unat (start_sector p + s) = unat (start_sector p) + unat s"
    using unat_add_lem [of "start_sector p" s] by simp
  then show ?thesis using le assms(1) by linarith
qed

lemma put_sectors_shift:
  "put_sectors f (a + s) n bs (a + k) = put_sectors (\<lambda>k. f (a + k)) s n bs k"
  by (simp add: put_sectors_def)

lemma sectors_shift: "sectors f (a + s) n = sectors (\<lambda>k. f (a + k)) s n"
proof -
  have "[a + s..<a + s + n] = map ((+) a) [s..<s + n]" by (rule nth_equalityI) simp_all
  then show ?thesis by (simp add: sectors_def comp_def)
qed

context block_device
begin

lemma partition_device: "block_device (part_read rd) (part_write wr) (part_img img) (part_ok ok)"
proof unfold_locales
  fix pd :: "gpt_partition \<times> 'd" and s :: u64 and n :: u32
  obtain p d where pd: "pd = (p, d)" by (cases pd)
  assume o: "part_ok ok pd"
  then have od: "ok d" and ps: "unat (start_sector p) + unat (total_sectors p) < 2 ^ 64" by (auto simp: part_ok_def pd)
  show "length (part_img img pd k) = SECTOR" for k using sector_length [OF od] by (simp add: part_img_def pd)
  assume sn: "unat s + unat n < 2 ^ 64"
  note ins = part_inside [OF ps sn]
  show "part_ok ok pd' \<and> part_img img pd' = part_img img pd" if "part_read rd pd s n = (r, pd')" for r pd'
    using that o ins rd_ok [OF od, of "start_sector p + s" n]
    by (auto simp: part_read_def part_ok_def part_img_def pd split: if_splits prod.splits)
  show "bs = sectors (part_img img pd) (unat s) (unat n)" if "part_read rd pd s n = (Some (True, bs), pd')" for bs pd'
    using that ins rd_data [OF od, of "start_sector p + s" n bs]
    by (auto simp: part_read_def part_img_def pd sectors_shift split: if_splits prod.splits)
  show "part_ok ok pd' \<and> part_img img pd' = put_sectors (part_img img pd) (unat s) (unat n) bs"
    if "length bs = SECTOR * unat n" "part_write wr pd s n bs = (Some True, pd')" for bs pd'
    using that o ins wr_data [OF od, of "start_sector p + s" n bs]
    by (auto simp: part_write_def part_ok_def part_img_def pd put_sectors_shift fun_eq_iff split: if_splits prod.splits)
qed

end

context sound_device
begin

lemma partition_sound: "sound_device (part_read rd) (part_write wr) (part_img img) (part_ok ok) (part_cap cap)"
proof -
  have "sound_device_axioms (part_read rd) (part_write wr) (part_ok ok) (part_cap cap)"
  proof
    fix pd :: "gpt_partition \<times> 'a" and s :: u64 and n :: u32
    obtain p d where pd: "pd = (p, d)" by (cases pd)
    assume o: "part_ok ok pd" and n0: "0 < n" and c: "unat s + unat n \<le> part_cap cap pd" and sn: "unat s + unat n < 2 ^ 64"
    have od: "ok d" and ps: "unat (start_sector p) + unat (total_sectors p) < 2 ^ 64" using o by (auto simp: part_ok_def pd)
    have in_part: "\<not> total_sectors p < s + ucast n"
      using c unat_sector [OF sn] by (simp add: word_less_nat_alt part_cap_def pd)
    note ins = part_inside [OF ps sn in_part]
    have "0 < unat n" using n0 by (simp add: unat_gt_0 word_gt_0)
    then have cd: "unat (start_sector p + s) + unat n \<le> cap d" using ins c by (auto simp: part_cap_def pd)
    show "\<exists>bs d'. part_read rd pd s n = (Some (True, bs), d') \<and> part_cap cap d' = part_cap cap pd"
      using rd_total [OF od n0 cd] ins in_part by (auto simp: part_read_def part_cap_def pd)
    show "\<exists>d'. part_write wr pd s n bs = (Some True, d') \<and> part_cap cap d' = part_cap cap pd"
      if "length bs = SECTOR * unat n" for bs
      using wr_total [OF od n0 cd _ that] ins in_part by (auto simp: part_write_def part_cap_def pd)
  qed
  then show ?thesis using partition_device by (simp add: sound_device_def)
qed

end

interpretation part: sound_device "part_read disk_read" "part_write disk_write" "part_img platter" "part_ok disk_ok" "part_cap capacity"
  by (rule disk.partition_sound)



text \<open>The bounds check adds in 64 bits: a sector number near the top wraps past it.\<close>

lemma partition_check_wraps:
  "part_read (\<lambda>d s n. (Some (True, []), (s, n) # d)) (\<lparr>start_sector = 34, total_sectors = 20\<rparr>, []) 0xFFFFFFFFFFFFFFFF 2
    = (Some (True, []), \<lparr>start_sector = 34, total_sectors = 20\<rparr>, [(33, 2)])"
  by (simp add: part_read_def)

end
