(* ===== verification/Bcache.thy ===== *)
theory Bcache
  imports Blockdev
begin

text \<open>
  The block cache of the file system: \<^verbatim>\<open>drivers/blockdev/ext2/cache.rs\<close>. Operations run one after the
  other here; a hit on an entry that is in flight waits for another task, so in this model it
  never returns (\<open>None\<close>).
\<close>

record centry =
  block_id :: "nat option"
  referenced :: bool
  dirty :: bool
  in_flight :: bool
  cdata :: "u8 list"

record bcache =
  entries :: "centry list"
  clock_hand :: nat
  block_size :: nat
  sectors_per_block :: nat

definition cache_new :: "nat \<Rightarrow> nat \<Rightarrow> bcache" where
  "cache_new bs n =
    \<lparr>entries = replicate n \<lparr>block_id = None, referenced = False, dirty = False, in_flight = False, cdata = replicate bs 0\<rparr>,
     clock_hand = 0, block_size = bs, sectors_per_block = bs div 512\<rparr>"

fun find_entry :: "(centry \<Rightarrow> bool) \<Rightarrow> centry list \<Rightarrow> nat option" where
  "find_entry P [] = None"
| "find_entry P (e # es) = (if P e then Some 0 else map_option Suc (find_entry P es))"

abbreviation find_block :: "centry list \<Rightarrow> nat \<Rightarrow> nat option" where
  "find_block es b \<equiv> find_entry (\<lambda>e. block_id e = Some b) es"

text \<open>
  The second-chance scan. \<open>checked\<close> counts entries in flight and is not reset between rounds. Every
  iteration either counts an entry or clears a reference bit, so the scan ends.
\<close>

definition scan_measure :: "centry list \<Rightarrow> nat \<Rightarrow> nat" where
  "scan_measure es checked = length (filter (\<lambda>e. referenced e \<and> \<not> in_flight e) es) + (length es - checked)"

lemma filter_update_less:
  "i < length es \<Longrightarrow> P (es ! i) \<Longrightarrow> \<not> P x \<Longrightarrow> length (filter P (es[i := x])) < length (filter P es)"
proof (induction es arbitrary: i)
  case (Cons e es)
  then show ?case by (cases i) auto
qed simp

function (sequential) clock_scan :: "centry list \<Rightarrow> nat \<Rightarrow> nat \<Rightarrow> (nat option \<times> centry list \<times> nat) run" where
  "clock_scan es hand checked =
    (if length es \<le> hand then panic
     else let e = es ! hand; hand' = (hand + 1) mod length es
          in if in_flight e
             then (if length es \<le> checked + 1 then ret (None, es, hand') else clock_scan es hand' (checked + 1))
             else if \<not> referenced e then ret (Some hand, es, hand')
             else clock_scan (es[hand := e\<lparr>referenced := False\<rparr>]) hand' checked)"
  by pat_completeness auto
termination
  by (relation "measure (\<lambda>(es, hand, checked). scan_measure es checked)")
    (auto simp: scan_measure_def intro!: filter_update_less)

declare clock_scan.simps [simp del]

definition select_slot :: "bcache \<Rightarrow> (nat option \<times> bcache) run" where
  "select_slot c =
    do { (r, es, hand) \<leftarrow>
           (case find_entry (\<lambda>e. block_id e = None \<and> \<not> in_flight e) (entries c) of
              Some i \<Rightarrow> ret (Some i, entries c, clock_hand c)
            | None \<Rightarrow> clock_scan (entries c) (clock_hand c) 0);
         ret (r, c\<lparr>entries := (case r of Some i \<Rightarrow> es[i := (es ! i)\<lparr>in_flight := True\<rparr>] | None \<Rightarrow> es), clock_hand := hand\<rparr>) }"

definition upd_entry :: "bcache \<Rightarrow> nat \<Rightarrow> (centry \<Rightarrow> centry) \<Rightarrow> bcache" where
  "upd_entry c i f = c\<lparr>entries := (entries c)[i := f (entries c ! i)]\<rparr>"

definition sector_of :: "bcache \<Rightarrow> nat \<Rightarrow> u64" where
  "sector_of c b = of_nat b * of_nat (sectors_per_block c)"

text \<open>Writing back a dirty victim; \<open>False\<close> is an error of the device.\<close>

definition write_back :: "'d dev_write \<Rightarrow> bcache \<Rightarrow> nat \<Rightarrow> 'd \<Rightarrow> bool \<times> bcache \<times> 'd" where
  "write_back wr c i d =
    (let e = entries c ! i
     in case (if dirty e then block_id e else None) of
          None \<Rightarrow> (True, c, d)
        | Some old \<Rightarrow>
            (case wr d (sector_of c old) (of_nat (sectors_per_block c)) (cdata e) of
               (Some True, d') \<Rightarrow> (True, upd_entry c i (\<lambda>e. e\<lparr>dirty := False\<rparr>), d')
             | (_, d') \<Rightarrow> (False, c, d')))"

definition cache_read ::
  "'d dev_read \<Rightarrow> 'd dev_write \<Rightarrow> bcache \<Rightarrow> 'd \<Rightarrow> nat \<Rightarrow> ((unit + u8 list) \<times> bcache \<times> 'd) run" where
  "cache_read rd wr c d b =
    (case find_block (entries c) b of
       Some i \<Rightarrow>
         if in_flight (entries c ! i) then None
         else ret (Inr (take (block_size c) (cdata (entries c ! i))), upd_entry c i (\<lambda>e. e\<lparr>referenced := True\<rparr>), d)
     | None \<Rightarrow>
         do { (r, c1) \<leftarrow> select_slot c;
              case r of
                None \<Rightarrow> ret (Inl (), c1, d)
              | Some i \<Rightarrow>
                  (case write_back wr c1 i d of
                     (False, c2, d2) \<Rightarrow> ret (Inl (), c2, d2)
                   | (True, c2, d2) \<Rightarrow>
                       let c3 = upd_entry c2 i (\<lambda>e. e\<lparr>block_id := Some b\<rparr>)
                       in case rd d2 (sector_of c3 b) (of_nat (sectors_per_block c3)) of
                            (None, d3) \<Rightarrow> ret (Inl (), c3, d3)
                          | (Some (okay, bs), d3) \<Rightarrow>
                              let c4 = upd_entry c3 i (\<lambda>e. e\<lparr>cdata := bs\<rparr>)
                              in if okay
                                 then ret (Inr (take (block_size c4) bs),
                                           upd_entry c4 i (\<lambda>e. e\<lparr>referenced := True, in_flight := False\<rparr>), d3)
                                 else ret (Inl (), c4, d3)) })"

definition cache_write ::
  "'d dev_write \<Rightarrow> bcache \<Rightarrow> 'd \<Rightarrow> nat \<Rightarrow> u8 list \<Rightarrow> ((unit + unit) \<times> bcache \<times> 'd) run" where
  "cache_write wr c d b src =
    (case find_block (entries c) b of
       Some i \<Rightarrow>
         if in_flight (entries c ! i) then None
         else ret (Inr (), upd_entry c i (\<lambda>e. e\<lparr>referenced := True, dirty := True, cdata := src\<rparr>), d)
     | None \<Rightarrow>
         do { (r, c1) \<leftarrow> select_slot c;
              case r of
                None \<Rightarrow> ret (Inl (), c1, d)
              | Some i \<Rightarrow>
                  (case write_back wr c1 i d of
                     (False, c2, d2) \<Rightarrow> ret (Inl (), c2, d2)
                   | (True, c2, d2) \<Rightarrow>
                       ret (Inr (), upd_entry c2 i (\<lambda>e. e\<lparr>block_id := Some b, referenced := True, dirty := True,
                                                        in_flight := False, cdata := src\<rparr>), d2)) })"

fun dirty_blocks :: "centry list \<Rightarrow> (nat \<times> u8 list) list" where
  "dirty_blocks [] = []"
| "dirty_blocks (e # es) =
    (case (if dirty e \<and> \<not> in_flight e then block_id e else None) of
       Some b \<Rightarrow> (b, cdata e) # dirty_blocks es
     | None \<Rightarrow> dirty_blocks es)"

fun write_all :: "'d dev_write \<Rightarrow> bcache \<Rightarrow> (nat \<times> u8 list) list \<Rightarrow> 'd \<Rightarrow> bool \<times> 'd" where
  "write_all wr c [] d = (True, d)"
| "write_all wr c ((b, bs) # rest) d =
    (case wr d (sector_of c b) (of_nat (sectors_per_block c)) bs of
       (Some True, d') \<Rightarrow> write_all wr c rest d'
     | (_, d') \<Rightarrow> (False, d'))"

definition cache_flush :: "'d dev_write \<Rightarrow> bcache \<Rightarrow> 'd \<Rightarrow> (unit + unit) \<times> bcache \<times> 'd" where
  "cache_flush wr c d =
    (case write_all wr c (dirty_blocks (entries c)) d of
       (True, d') \<Rightarrow> (Inr (), c\<lparr>entries := map (\<lambda>e. if dirty e \<and> \<not> in_flight e then e\<lparr>dirty := False\<rparr> else e) (entries c)\<rparr>, d')
     | (False, d') \<Rightarrow> (Inl (), c, d'))"

section \<open>Slots\<close>

lemma find_entry_Some:
  "find_entry P es = Some i \<Longrightarrow> i < length es \<and> P (es ! i) \<and> (\<forall>j < i. \<not> P (es ! j))"
proof (induction es arbitrary: i)
  case (Cons e es)
  then show ?case by (auto split: if_splits simp: nth_Cons less_Suc_eq_0_disj split: nat.splits)
qed simp

lemma find_entry_None: "find_entry P es = None \<longleftrightarrow> (\<forall>e \<in> set es. \<not> P e)"
  by (induction es) auto

lemma clock_scan_idle:
  assumes "hand < length es" and "\<forall>e \<in> set es. \<not> in_flight e"
  shows "\<exists>i es' hand'. clock_scan es hand checked = Some (Some i, es', hand') \<and> i < length es \<and> hand' < length es \<and>
    length es' = length es \<and> (\<forall>j < length es. \<exists>r. es' ! j = (es ! j)\<lparr>referenced := r\<rparr>)"
  using assms
proof (induction es hand checked rule: clock_scan.induct)
  case (1 es hand checked)
  let ?e = "es ! hand" and ?h = "(hand + 1) mod length es"
  have nf: "\<not> in_flight ?e" using "1.prems" by simp
  have h: "?h < length es" using "1.prems" by (cases es) auto
  show ?case
  proof (cases "referenced ?e")
    case False
    have "\<exists>r. es ! j = (es ! j)\<lparr>referenced := r\<rparr>" for j by (rule exI [of _ "referenced (es ! j)"]) simp
    then show ?thesis using False nf h "1.prems" by (subst clock_scan.simps) (auto simp: Let_def)
  next
    case True
    let ?es = "es[hand := ?e\<lparr>referenced := False\<rparr>]"
    have "\<forall>e \<in> set ?es. \<not> in_flight e" using "1.prems" nf by (auto dest!: set_update_subset_insert [THEN subsetD])
    then obtain i es' hand' where r: "clock_scan ?es ?h checked = Some (Some i, es', hand')" "i < length es" "hand' < length es"
      "length es' = length es" "\<forall>j < length es. \<exists>r. es' ! j = (?es ! j)\<lparr>referenced := r\<rparr>"
      using "1.IH"(2) [of ?e ?h] True nf h "1.prems" by auto
    have "\<exists>r. es' ! j = (es ! j)\<lparr>referenced := r\<rparr>" if j: "j < length es" for j
    proof -
      obtain r' where "es' ! j = (?es ! j)\<lparr>referenced := r'\<rparr>" using r(5) j by blast
      then have "es' ! j = (es ! j)\<lparr>referenced := r'\<rparr>" using j by (cases "j = hand") simp_all
      then show ?thesis by blast
    qed
    then show ?thesis using r True nf "1.prems" by (subst clock_scan.simps) (auto simp: Let_def)
  qed
qed

section \<open>What the cache holds\<close>

text \<open>
  \<open>disk_block\<close> is a block on the device, \<open>content\<close> the block as the clients of the cache see it.
  The invariant names the slot that is in flight, if any.
\<close>

definition disk_block :: "('d \<Rightarrow> nat \<Rightarrow> u8 list) \<Rightarrow> nat \<Rightarrow> 'd \<Rightarrow> nat \<Rightarrow> u8 list" where
  "disk_block f spb d b = sectors (f d) (b * spb) spb"

definition content :: "('d \<Rightarrow> nat \<Rightarrow> u8 list) \<Rightarrow> bcache \<Rightarrow> 'd \<Rightarrow> nat \<Rightarrow> u8 list" where
  "content f c d b =
    (case find_block (entries c) b of Some i \<Rightarrow> cdata (entries c ! i) | None \<Rightarrow> disk_block f (sectors_per_block c) d b)"

definition valid_block :: "bcache \<Rightarrow> nat \<Rightarrow> bool" where
  "valid_block c b \<longleftrightarrow> b * sectors_per_block c + sectors_per_block c < 2 ^ 64"

definition geometry_ok :: "bcache \<Rightarrow> bool" where
  "geometry_ok c \<longleftrightarrow> 0 < sectors_per_block c \<and> sectors_per_block c < 2 ^ 32 \<and> block_size c = SECTOR * sectors_per_block c \<and>
     clock_hand c < length (entries c)"

definition entry_ok :: "('d \<Rightarrow> nat \<Rightarrow> u8 list) \<Rightarrow> bcache \<Rightarrow> 'd \<Rightarrow> centry \<Rightarrow> bool" where
  "entry_ok f c d e \<longleftrightarrow>
    (case block_id e of
       None \<Rightarrow> \<not> dirty e
     | Some b \<Rightarrow> valid_block c b \<and> length (cdata e) = block_size c \<and> (\<not> dirty e \<longrightarrow> cdata e = disk_block f (sectors_per_block c) d b))"

definition ids_distinct :: "centry list \<Rightarrow> bool" where
  "ids_distinct es \<longleftrightarrow> (\<forall>i j b. i < length es \<longrightarrow> j < length es \<longrightarrow> block_id (es ! i) = Some b \<longrightarrow> block_id (es ! j) = Some b \<longrightarrow> i = j)"

definition cache_inv :: "('d \<Rightarrow> nat \<Rightarrow> u8 list) \<Rightarrow> ('d \<Rightarrow> bool) \<Rightarrow> bcache \<Rightarrow> 'd \<Rightarrow> nat option \<Rightarrow> bool" where
  "cache_inv f okay c d fl \<longleftrightarrow> okay d \<and> geometry_ok c \<and> ids_distinct (entries c) \<and>
     (\<forall>j < length (entries c). (in_flight (entries c ! j) \<longleftrightarrow> fl = Some j) \<and> entry_ok f c d (entries c ! j))"

lemma find_block_at:
  "ids_distinct es \<Longrightarrow> i < length es \<Longrightarrow> block_id (es ! i) = Some b \<Longrightarrow> find_block es b = Some i"
proof -
  assume d: "ids_distinct es" and i: "i < length es" "block_id (es ! i) = Some b"
  then obtain j where j: "find_block es b = Some j"
    using find_entry_None [of "\<lambda>e. block_id e = Some b" es] by (metis not_Some_eq nth_mem)
  then show ?thesis using find_entry_Some [OF j] d i by (auto simp: ids_distinct_def)
qed

lemma content_at:
  "cache_inv f okay c d fl \<Longrightarrow> i < length (entries c) \<Longrightarrow> block_id (entries c ! i) = Some b \<Longrightarrow> content f c d b = cdata (entries c ! i)"
  using find_block_at by (fastforce simp: cache_inv_def content_def)

lemma content_miss:
  "\<forall>i < length (entries c). block_id (entries c ! i) \<noteq> Some b \<Longrightarrow> content f c d b = disk_block f (sectors_per_block c) d b"
proof -
  assume "\<forall>i < length (entries c). block_id (entries c ! i) \<noteq> Some b"
  then have "find_block (entries c) b = None" by (auto simp: find_entry_None in_set_conv_nth)
  then show ?thesis by (simp add: content_def)
qed

text \<open>Entries that agree but for their flags give the same content.\<close>

lemma content_cong:
  assumes "cache_inv f okay c d fl" and "cache_inv f okay c' d fl'" and "length (entries c') = length (entries c)"
    and "\<forall>i < length (entries c). block_id (entries c' ! i) = block_id (entries c ! i) \<and> cdata (entries c' ! i) = cdata (entries c ! i)"
    and "sectors_per_block c' = sectors_per_block c"
  shows "content f c' d = content f c d"
proof
  fix b
  show "content f c' d b = content f c d b"
  proof (cases "\<exists>i < length (entries c). block_id (entries c ! i) = Some b")
    case True
    then obtain i where "i < length (entries c)" "block_id (entries c ! i) = Some b" by blast
    then show ?thesis using content_at [OF assms(1), of i b] content_at [OF assms(2), of i b] assms(3,4) by simp
  next
    case False
    then show ?thesis using content_miss [of c b f d] content_miss [of c' b f d] assms(3,4,5) by simp
  qed
qed

lemma upd_entry_fields [simp]:
  "clock_hand (upd_entry c i g) = clock_hand c" "block_size (upd_entry c i g) = block_size c"
  "sectors_per_block (upd_entry c i g) = sectors_per_block c" "length (entries (upd_entry c i g)) = length (entries c)"
  "entries (upd_entry c i g) ! j = (if j = i \<and> i < length (entries c) then g (entries c ! i) else entries c ! j)"
  by (cases "i < length (entries c)"; simp add: upd_entry_def nth_list_update list_update_beyond; fail)+

lemma entry_ok_flags [simp]:
  "entry_ok f c d (e\<lparr>referenced := r\<rparr>) = entry_ok f c d e" "entry_ok f c d (e\<lparr>in_flight := r\<rparr>) = entry_ok f c d e"
  by (simp_all add: entry_ok_def split: option.split)

lemma geometry_upd [simp]: "geometry_ok (upd_entry c i g) = geometry_ok c"
  by (simp add: geometry_ok_def)

lemma valid_upd [simp]: "valid_block (upd_entry c i g) = valid_block c"
  by (simp add: valid_block_def fun_eq_iff)

lemma entry_ok_upd [simp]: "entry_ok f (upd_entry c i g) = entry_ok f c"
  by (simp add: entry_ok_def fun_eq_iff split: option.split)

lemma sector_exact:
  assumes "geometry_ok c" and "valid_block c b"
  shows "unat (sector_of c b) = b * sectors_per_block c" "unat (of_nat (sectors_per_block c) :: u32) = sectors_per_block c"
    "unat (sector_of c b) + unat (of_nat (sectors_per_block c) :: u32) < 2 ^ 64" "(0 :: u32) < of_nat (sectors_per_block c)"
proof -
  have v: "b * sectors_per_block c < 2 ^ 64" "b * sectors_per_block c + sectors_per_block c < 2 ^ 64" "0 < sectors_per_block c"
    "sectors_per_block c < 2 ^ 32" using assms by (auto simp: geometry_ok_def valid_block_def)
  have "sector_of c b = of_nat (b * sectors_per_block c)" by (simp add: sector_of_def)
  then show 1: "unat (sector_of c b) = b * sectors_per_block c" using v(1) by (simp only: unsigned_of_nat) (simp add: take_bit_nat_eq_self)
  show 2: "unat (of_nat (sectors_per_block c) :: u32) = sectors_per_block c" using v(4) by (simp add: unsigned_of_nat take_bit_nat_eq_self)
  show "unat (sector_of c b) + unat (of_nat (sectors_per_block c) :: u32) < 2 ^ 64" using 1 2 v(2) by simp
  show "(0 :: u32) < of_nat (sectors_per_block c)" using 2 v(3) by (metis unat_gt_0 word_gt_0)
qed

lemma hit_flags:
  assumes "cache_inv f okay c d None" and "i < length (entries c)"
  shows "cache_inv f okay (upd_entry c i (\<lambda>e. e\<lparr>referenced := True\<rparr>)) d None \<and>
    content f (upd_entry c i (\<lambda>e. e\<lparr>referenced := True\<rparr>)) d = content f c d"
proof -
  let ?c = "upd_entry c i (\<lambda>e. e\<lparr>referenced := True\<rparr>)"
  have "cache_inv f okay ?c d None" using assms by (auto simp: cache_inv_def ids_distinct_def)
  then show ?thesis using content_cong [OF assms(1), of ?c None] by simp
qed

lemma select_slot_ok:
  assumes inv: "cache_inv f okay c d None"
  shows "\<exists>i c1. select_slot c = Some (Some i, c1) \<and> i < length (entries c) \<and> cache_inv f okay c1 d (Some i) \<and>
    content f c1 d = content f c d \<and> length (entries c1) = length (entries c) \<and>
    (\<forall>j < length (entries c). block_id (entries c1 ! j) = block_id (entries c ! j)) \<and>
    block_size c1 = block_size c \<and> sectors_per_block c1 = sectors_per_block c \<and>
    (\<forall>j < length (entries c). dirty (entries c1 ! j) = dirty (entries c ! j))"
proof -
  let ?es = "entries c"
  have nf: "\<forall>e \<in> set ?es. \<not> in_flight e" and h: "clock_hand c < length ?es"
    using inv by (auto simp: cache_inv_def geometry_ok_def in_set_conv_nth)
  have "\<exists>i es hand. (case find_entry (\<lambda>e. block_id e = None \<and> \<not> in_flight e) ?es of
              Some i \<Rightarrow> ret (Some i, ?es, clock_hand c) | None \<Rightarrow> clock_scan ?es (clock_hand c) 0) = Some (Some i, es, hand) \<and>
      i < length ?es \<and> hand < length ?es \<and> length es = length ?es \<and> (\<forall>j < length ?es. \<exists>r. es ! j = (?es ! j)\<lparr>referenced := r\<rparr>)"
  proof (cases "find_entry (\<lambda>e. block_id e = None \<and> \<not> in_flight e) ?es")
    case None
    then show ?thesis using clock_scan_idle [OF h nf, of 0] by auto
  next
    case (Some i)
    have "\<exists>r. ?es ! j = (?es ! j)\<lparr>referenced := r\<rparr>" for j by (rule exI [of _ "referenced (?es ! j)"]) simp
    then show ?thesis using Some find_entry_Some [OF Some] h by auto
  qed
  then obtain i es hand where s: "(case find_entry (\<lambda>e. block_id e = None \<and> \<not> in_flight e) ?es of
              Some i \<Rightarrow> ret (Some i, ?es, clock_hand c) | None \<Rightarrow> clock_scan ?es (clock_hand c) 0) = Some (Some i, es, hand)"
    "i < length ?es" "hand < length ?es" "length es = length ?es" "\<forall>j < length ?es. \<exists>r. es ! j = (?es ! j)\<lparr>referenced := r\<rparr>"
    by blast
  let ?c = "c\<lparr>entries := es[i := (es ! i)\<lparr>in_flight := True\<rparr>], clock_hand := hand\<rparr>"
  have same: "block_id (entries ?c ! j) = block_id (?es ! j) \<and> cdata (entries ?c ! j) = cdata (?es ! j) \<and> dirty (entries ?c ! j) = dirty (?es ! j) \<and>
      in_flight (entries ?c ! j) = (j = i \<or> in_flight (?es ! j)) \<and> entry_ok f c d (entries ?c ! j) = entry_ok f c d (?es ! j)"
    if j: "j < length ?es" for j
  proof -
    obtain r where "es ! j = (?es ! j)\<lparr>referenced := r\<rparr>" using s(5) j by blast
    then show ?thesis using j s(4) by (cases "j = i") simp_all
  qed
  have eq: "entry_ok f ?c d = entry_ok f c d" by (simp add: entry_ok_def valid_block_def fun_eq_iff split: option.split)
  have "cache_inv f okay ?c d (Some i)" unfolding cache_inv_def eq
  proof (intro conjI allI impI)
    show "okay d" "geometry_ok ?c" using inv s by (auto simp: cache_inv_def geometry_ok_def)
    show "ids_distinct (entries ?c)" using inv s(4) same by (simp add: cache_inv_def ids_distinct_def)
    fix j assume "j < length (entries ?c)"
    then have j: "j < length ?es" using s(4) by simp
    then show "in_flight (entries ?c ! j) = (Some i = Some j)" "entry_ok f c d (entries ?c ! j)"
      using same [OF j] inv by (auto simp: cache_inv_def)
  qed
  moreover have "select_slot c = Some (Some i, ?c)" using s(1) by (simp add: select_slot_def)
  ultimately show ?thesis using content_cong [OF inv, of ?c "Some i"] same s(2,4) by auto
qed

text \<open>A clean slot takes a new block.\<close>

lemma assign_slot:
  assumes inv: "cache_inv f okay c d (Some i)" and i: "i < length (entries c)" and cl: "\<not> dirty (entries c ! i)"
    and miss: "\<forall>j < length (entries c). block_id (entries c ! j) \<noteq> Some b" and v: "valid_block c b"
    and bs: "length bs = block_size c" "\<not> dd \<Longrightarrow> bs = disk_block f (sectors_per_block c) d b"
    and g: "g (entries c ! i) = \<lparr>block_id = Some b, referenced = True, dirty = dd, in_flight = False, cdata = bs\<rparr>"
  shows "cache_inv f okay (upd_entry c i g) d None \<and> content f (upd_entry c i g) d = (content f c d)(b := bs)"
proof -
  let ?c = "upd_entry c i g"
  have inv': "cache_inv f okay ?c d None"
    using inv i miss v bs by (auto simp: cache_inv_def g ids_distinct_def entry_ok_def)
  have "content f ?c d b' = (if b' = b then bs else content f c d b')" for b'
  proof (cases "b' = b")
    case True
    then show ?thesis using content_at [OF inv', of i b] i g by simp
  next
    case ne: False
    show ?thesis
    proof (cases "\<exists>j < length (entries c). j \<noteq> i \<and> block_id (entries c ! j) = Some b'")
      case True
      then show ?thesis using content_at [OF inv', of _ b'] content_at [OF inv, of _ b'] ne by auto
    next
      case False
      then have "\<forall>j < length (entries ?c). block_id (entries ?c ! j) \<noteq> Some b'" using ne g i by auto
      then have "content f ?c d b' = disk_block f (sectors_per_block c) d b'" using content_miss by fastforce
      moreover have "content f c d b' = disk_block f (sectors_per_block c) d b'"
      proof (cases "block_id (entries c ! i) = Some b'")
        case True
        then show ?thesis using content_at [OF inv i True] inv i cl by (auto simp: cache_inv_def entry_ok_def)
      next
        case no: False
        then have "\<forall>j < length (entries c). block_id (entries c ! j) \<noteq> Some b'" using False by blast
        then show ?thesis by (rule content_miss)
      qed
      ultimately show ?thesis using ne by simp
    qed
  qed
  then show ?thesis using inv' by (simp add: fun_eq_iff)
qed

section \<open>The cache over a block device\<close>

lemma blocks_apart: "b \<noteq> b' \<Longrightarrow> b * n + n \<le> b' * n \<or> b' * n + n \<le> (b :: nat) * n"
proof -
  assume "b \<noteq> b'"
  then have "Suc b \<le> b' \<or> Suc b' \<le> b" by linarith
  then show ?thesis using mult_le_mono1 [of "Suc b" b' n] mult_le_mono1 [of "Suc b'" b n] by auto
qed

lemma entry_ok_disk:
  "entry_ok f c d e \<Longrightarrow> (\<And>b. block_id e = Some b \<Longrightarrow> disk_block f (sectors_per_block c) d' b = disk_block f (sectors_per_block c) d b) \<Longrightarrow>
    entry_ok f c d' e"
  by (auto simp: entry_ok_def split: option.splits)

text \<open>What two states of the cache share across an operation.\<close>

definition same_shape :: "bcache \<Rightarrow> bcache \<Rightarrow> bool" where
  "same_shape c c' \<longleftrightarrow> length (entries c') = length (entries c) \<and> block_size c' = block_size c \<and> sectors_per_block c' = sectors_per_block c"

lemma same_shape_upd [simp]: "same_shape c c' \<Longrightarrow> same_shape c (upd_entry c' i g)" "same_shape c c"
  by (simp_all add: same_shape_def)

lemma same_shape_valid: "same_shape c c' \<Longrightarrow> valid_block c' = valid_block c"
  by (simp add: same_shape_def valid_block_def fun_eq_iff)

lemma dirty_blocks_iff:
  "(b, bs) \<in> set (dirty_blocks es) \<longleftrightarrow> (\<exists>e \<in> set es. dirty e \<and> \<not> in_flight e \<and> block_id e = Some b \<and> bs = cdata e)"
  by (induction es) (auto split: option.splits if_splits)

lemma ids_distinct_Cons:
  "ids_distinct (e # es) \<Longrightarrow> ids_distinct es \<and> (\<forall>b. block_id e = Some b \<longrightarrow> (\<forall>e' \<in> set es. block_id e' \<noteq> Some b))"
proof -
  assume d: "ids_distinct (e # es)"
  have "i = j" if "i < length es" "j < length es" "block_id (es ! i) = Some b" "block_id (es ! j) = Some b" for i j b
    using d [unfolded ids_distinct_def, rule_format, of "Suc i" "Suc j" b] that by simp
  moreover have "block_id e' \<noteq> Some b" if e: "block_id e = Some b" and e': "e' \<in> set es" for b e'
  proof -
    obtain k where "k < length es" "e' = es ! k" using e' by (auto simp: in_set_conv_nth)
    then show ?thesis using d [unfolded ids_distinct_def, rule_format, of 0 "Suc k" b] e by auto
  qed
  ultimately show ?thesis by (auto simp: ids_distinct_def)
qed

lemma dirty_blocks_distinct: "ids_distinct es \<Longrightarrow> distinct (map fst (dirty_blocks es))"
proof (induction es)
  case (Cons e es)
  have "b \<notin> fst ` set (dirty_blocks es)" if "block_id e = Some b" for b
    using ids_distinct_Cons [OF Cons.prems] that by (auto simp: dirty_blocks_iff)
  then show ?case using Cons.IH ids_distinct_Cons [OF Cons.prems] by (auto split: option.split)
qed simp

context block_device
begin

lemma disk_block_length: "ok d \<Longrightarrow> length (disk_block img spb d b) = SECTOR * spb"
  using length_sectors [of "img d"] sector_length by (simp add: disk_block_def)

lemma read_block_data:
  assumes "ok d" and "geometry_ok c" and "valid_block c b"
    and "rd d (sector_of c b) (of_nat (sectors_per_block c)) = (r, d')"
  shows "ok d' \<and> disk_block img spb d' = disk_block img spb d \<and>
    (\<forall>bs. r = Some (True, bs) \<longrightarrow> bs = disk_block img (sectors_per_block c) d b)"
  using rd_ok [OF assms(1) sector_exact(3) [OF assms(2,3)] assms(4)]
    rd_data [OF assms(1) sector_exact(3) [OF assms(2,3)], of _ d'] assms(4) sector_exact(1,2) [OF assms(2,3)]
  by (auto simp: disk_block_def)

lemma write_block_data:
  assumes "ok d" and "geometry_ok c" and "valid_block c b" and "length bs = block_size c"
    and "wr d (sector_of c b) (of_nat (sectors_per_block c)) bs = (Some True, d')"
  shows "ok d' \<and> disk_block img (sectors_per_block c) d' = (disk_block img (sectors_per_block c) d)(b := bs)"
proof -
  let ?n = "sectors_per_block c"
  note ex = sector_exact [OF assms(2,3)]
  have l: "length bs = SECTOR * ?n" using assms(2,4) by (simp add: geometry_ok_def)
  have w: "ok d' \<and> img d' = put_sectors (img d) (b * ?n) ?n bs"
    using wr_data [OF assms(1) ex(3) _ assms(5)] l ex(1,2) by simp
  have "disk_block img ?n d' b' = (if b' = b then bs else disk_block img ?n d b')" for b'
    using w sectors_put_same [OF l] sectors_put_apart [OF blocks_apart [of b b' ?n]] by (simp add: disk_block_def)
  then show ?thesis using w by (simp add: fun_eq_iff)
qed

lemma write_back_ok:
  assumes inv: "cache_inv img ok c d (Some i)" and i: "i < length (entries c)" and wb: "write_back wr c i d = (True, c2, d2)"
  shows "cache_inv img ok c2 d2 (Some i) \<and> content img c2 d2 = content img c d \<and> \<not> dirty (entries c2 ! i) \<and> same_shape c c2 \<and>
    (\<forall>j < length (entries c). block_id (entries c2 ! j) = block_id (entries c ! j))"
proof -
  let ?e = "entries c ! i"
  have e: "entry_ok img c d ?e" and g: "geometry_ok c" and od: "ok d" and ds: "ids_distinct (entries c)" using inv i by (auto simp: cache_inv_def)
  show ?thesis
  proof (cases "dirty ?e")
    case False
    then show ?thesis using wb inv by (simp add: write_back_def same_shape_def)
  next
    case True
    then obtain old where old: "block_id ?e = Some old" "valid_block c old" "length (cdata ?e) = block_size c"
      using e by (auto simp: entry_ok_def split: option.splits)
    let ?c = "upd_entry c i (\<lambda>e. e\<lparr>dirty := False\<rparr>)"
    have w: "wr d (sector_of c old) (of_nat (sectors_per_block c)) (cdata ?e) = (Some True, d2)" and c2: "c2 = ?c"
      using wb True old(1) by (auto simp: write_back_def Let_def split: prod.splits option.splits bool.splits)
    have db: "ok d2" "disk_block img (sectors_per_block c) d2 = (disk_block img (sectors_per_block c) d)(old := cdata ?e)"
      using write_block_data [OF od g old(2,3) w] by auto
    have others: "block_id (entries c ! j) \<noteq> Some old" if "j < length (entries c)" "j \<noteq> i" for j
      using ds i old(1) that by (auto simp: ids_distinct_def)
    have eo: "entry_ok img c d2 (entries ?c ! j)" if j: "j < length (entries c)" for j
    proof (cases "j = i")
      case True
      then show ?thesis using old db i by (simp add: entry_ok_def)
    next
      case False
      have "entry_ok img c d (entries c ! j)" using inv j by (simp add: cache_inv_def)
      then have "entry_ok img c d2 (entries c ! j)" by (rule entry_ok_disk) (use others [OF j False] db(2) in auto)
      then show ?thesis using False by simp
    qed
    have inv2: "cache_inv img ok ?c d2 (Some i)"
      using inv db(1) eo by (auto simp: cache_inv_def ids_distinct_def)
    have "content img ?c d2 b = content img c d b" for b
    proof (cases "\<exists>j < length (entries c). block_id (entries c ! j) = Some b")
      case True
      then obtain j where "j < length (entries c)" "block_id (entries c ! j) = Some b" by blast
      then show ?thesis using content_at [OF inv, of j b] content_at [OF inv2, of j b] by (cases "j = i") simp_all
    next
      case False
      then have ne: "b \<noteq> old" using i old(1) by auto
      have "content img ?c d2 b = disk_block img (sectors_per_block c) d2 b"
        using content_miss [of ?c b img d2] False by auto
      moreover have "content img c d b = disk_block img (sectors_per_block c) d b" using content_miss [of c b img d] False by auto
      ultimately show ?thesis using ne db(2) by simp
    qed
    then show ?thesis using inv2 i by (auto simp: c2 fun_eq_iff)
  qed
qed

lemma evict_ok:
  assumes inv: "cache_inv img ok c d None" and miss: "find_block (entries c) b = None"
  obtains i c1 where "select_slot c = Some (Some i, c1)" "cache_inv img ok c1 d (Some i)" "i < length (entries c1)"
    "same_shape c c1" "content img c1 d = content img c d" "\<forall>j < length (entries c). block_id (entries c1 ! j) = block_id (entries c ! j)"
    "\<And>c2 d2. write_back wr c1 i d = (True, c2, d2) \<Longrightarrow> cache_inv img ok c2 d2 (Some i) \<and> i < length (entries c2) \<and>
       \<not> dirty (entries c2 ! i) \<and> content img c2 d2 = content img c d \<and> same_shape c c2 \<and>
       (\<forall>j < length (entries c2). block_id (entries c2 ! j) \<noteq> Some b) \<and>
       (\<forall>j < length (entries c2). block_id (entries c2 ! j) = block_id (entries c ! j))"
proof -
  have m: "\<forall>j < length (entries c). block_id (entries c ! j) \<noteq> Some b" using miss by (auto simp: find_entry_None)
  obtain i c1 where s: "select_slot c = Some (Some i, c1)" "i < length (entries c)" "cache_inv img ok c1 d (Some i)"
    "content img c1 d = content img c d" "length (entries c1) = length (entries c)"
    "\<forall>j < length (entries c). block_id (entries c1 ! j) = block_id (entries c ! j)" "same_shape c c1"
    using select_slot_ok [OF inv] by (auto simp: same_shape_def)
  have i: "i < length (entries c1)" using s by simp
  show ?thesis
  proof (rule that [OF s(1,3) i s(7,4,6)])
    fix c2 d2 assume wb: "write_back wr c1 i d = (True, c2, d2)"
    show "cache_inv img ok c2 d2 (Some i) \<and> i < length (entries c2) \<and> \<not> dirty (entries c2 ! i) \<and>
      content img c2 d2 = content img c d \<and> same_shape c c2 \<and> (\<forall>j < length (entries c2). block_id (entries c2 ! j) \<noteq> Some b) \<and>
      (\<forall>j < length (entries c2). block_id (entries c2 ! j) = block_id (entries c ! j))"
      using write_back_ok [OF s(3) i wb] s m by (simp add: same_shape_def)
  qed
qed

lemma cache_read_ok:
  assumes inv: "cache_inv img ok c d None" and v: "valid_block c b"
    and r: "cache_read rd wr c d b = Some (Inr bs, c', d')"
  shows "bs = content img c d b \<and> cache_inv img ok c' d' None \<and> content img c' d' = content img c d \<and> same_shape c c'"
proof (cases "find_block (entries c) b")
  case (Some i)
  have i: "i < length (entries c)" "block_id (entries c ! i) = Some b" using find_entry_Some [OF Some] by auto
  have "length (cdata (entries c ! i)) = block_size c" using inv i by (auto simp: cache_inv_def entry_ok_def)
  then show ?thesis using hit_flags [OF inv i(1)] r Some content_at [OF inv i]
    by (auto simp: cache_read_def split: if_splits)
next
  case None
  obtain i c1 where s: "select_slot c = Some (Some i, c1)" "\<And>c2 d2. write_back wr c1 i d = (True, c2, d2) \<Longrightarrow>
       cache_inv img ok c2 d2 (Some i) \<and> i < length (entries c2) \<and> \<not> dirty (entries c2 ! i) \<and> content img c2 d2 = content img c d \<and>
       same_shape c c2 \<and> (\<forall>j < length (entries c2). block_id (entries c2 ! j) \<noteq> Some b)"
    by (rule evict_ok [OF inv None]) blast
  let ?upd = "\<lambda>c2 bs. upd_entry (upd_entry (upd_entry c2 i (\<lambda>e. e\<lparr>block_id := Some b\<rparr>)) i (\<lambda>e. e\<lparr>cdata := bs\<rparr>)) i
      (\<lambda>e. e\<lparr>referenced := True, in_flight := False\<rparr>)"
  obtain c2 d2 bs' where w: "write_back wr c1 i d = (True, c2, d2)"
    and rr: "rd d2 (sector_of c2 b) (of_nat (sectors_per_block c2)) = (Some (True, bs'), d')"
    and out: "bs = take (block_size c2) bs'" "c' = ?upd c2 bs'"
    using r None s(1) by (auto simp: cache_read_def Let_def sector_of_def split: prod.splits bool.splits option.splits if_splits)
  note e = s(2) [OF w]
  have g: "ok d2" "geometry_ok c2" "valid_block c2 b" using e v same_shape_valid [of c c2] by (simp_all add: cache_inv_def)
  have d': "ok d'" "\<And>n. disk_block img n d' = disk_block img n d2" "bs' = disk_block img (sectors_per_block c2) d2 b"
    using read_block_data [OF g rr] by auto
  have len: "length bs' = block_size c2" using d'(3) disk_block_length [OF g(1)] g(2) by (simp add: geometry_ok_def)
  have inv': "cache_inv img ok c2 d' (Some i)" "content img c2 d' = content img c2 d2"
  proof -
    have "entry_ok img c2 d' = entry_ok img c2 d2" by (rule ext) (simp add: entry_ok_def d'(2) split: option.split)
    then show "cache_inv img ok c2 d' (Some i)" using e d'(1) by (simp add: cache_inv_def)
    show "content img c2 d' = content img c2 d2" by (rule ext) (simp add: content_def d'(2) split: option.split)
  qed
  have c': "c' = upd_entry c2 i (\<lambda>e. e\<lparr>block_id := Some b, cdata := bs', referenced := True, in_flight := False\<rparr>)"
    using e out(2) by (simp add: upd_entry_def)
  have "cache_inv img ok c' d' None \<and> content img c' d' = (content img c2 d')(b := bs')" unfolding c'
    by (rule assign_slot [where dd = False, OF inv'(1)]) (use e g d' len in auto)
  moreover have "content img c2 d' b = bs'"
    using content_miss [of c2 b img d'] e d'(2,3) by simp
  ultimately show ?thesis using inv'(2) e out(1) len c' by (auto simp: fun_eq_iff)
qed

lemma cache_write_ok:
  assumes inv: "cache_inv img ok c d None" and v: "valid_block c b" and len: "length src = block_size c"
    and r: "cache_write wr c d b src = Some (Inr u, c', d')"
  shows "cache_inv img ok c' d' None \<and> content img c' d' = (content img c d)(b := src) \<and> same_shape c c'"
proof (cases "find_block (entries c) b")
  case (Some i)
  have i: "i < length (entries c)" "block_id (entries c ! i) = Some b" using find_entry_Some [OF Some] by auto
  let ?c = "upd_entry c i (\<lambda>e. e\<lparr>referenced := True, dirty := True, cdata := src\<rparr>)"
  have out: "c' = ?c" "d' = d" using r Some by (auto simp: cache_write_def split: if_splits)
  have "entry_ok img c d ((entries c ! i)\<lparr>referenced := True, dirty := True, cdata := src\<rparr>)"
    using i v len by (simp add: entry_ok_def)
  then have inv': "cache_inv img ok ?c d None" using inv by (auto simp: cache_inv_def ids_distinct_def)
  have "content img ?c d b' = (if b' = b then src else content img c d b')" for b'
  proof (cases "\<exists>j < length (entries c). block_id (entries c ! j) = Some b'")
    case True
    then obtain j where j: "j < length (entries c)" "block_id (entries c ! j) = Some b'" by blast
    have "ids_distinct (entries c)" using inv by (simp add: cache_inv_def)
    then have "j = i \<longleftrightarrow> b' = b" using i j unfolding ids_distinct_def by (metis option.inject)
    then show ?thesis using content_at [OF inv j] content_at [OF inv', of j b'] j by (cases "j = i") simp_all
  next
    case False
    then have "b' \<noteq> b" using i by blast
    moreover have "\<forall>j < length (entries ?c). block_id (entries ?c ! j) \<noteq> Some b'" using False by simp
    moreover have "\<forall>j < length (entries c). block_id (entries c ! j) \<noteq> Some b'" using False by blast
    ultimately show ?thesis using content_miss [of ?c b' img d] content_miss [of c b' img d] by simp
  qed
  then show ?thesis using inv' out by (simp add: fun_eq_iff)
next
  case None
  obtain i c1 where s: "select_slot c = Some (Some i, c1)" "\<And>c2 d2. write_back wr c1 i d = (True, c2, d2) \<Longrightarrow>
       cache_inv img ok c2 d2 (Some i) \<and> i < length (entries c2) \<and> \<not> dirty (entries c2 ! i) \<and> content img c2 d2 = content img c d \<and>
       same_shape c c2 \<and> (\<forall>j < length (entries c2). block_id (entries c2 ! j) \<noteq> Some b)"
    by (rule evict_ok [OF inv None]) blast
  let ?g = "\<lambda>e. e\<lparr>block_id := Some b, referenced := True, dirty := True, in_flight := False, cdata := src\<rparr>"
  obtain okay c2 d2 where wb: "write_back wr c1 i d = (okay, c2, d2)" by (metis prod_cases3)
  have "cache_write wr c d b src = (if okay then Some (Inr (), upd_entry c2 i ?g, d2) else Some (Inl (), c2, d2))"
    unfolding cache_write_def None s(1) option.case by (cases okay) (simp_all add: wb)
  then have o: okay and c': "c' = upd_entry c2 i ?g" and d2: "d' = d2" using r by (simp_all split: if_splits)
  have w: "write_back wr c1 i d = (True, c2, d')" using wb o d2 by simp
  note e = s(2) [OF w]
  have "valid_block c2 b" "length src = block_size c2"
    using e v len same_shape_valid [of c c2] by (simp_all add: same_shape_def)
  then have "cache_inv img ok c' d' None \<and> content img c' d' = (content img c2 d')(b := src)" unfolding c'
    by (intro assign_slot [where dd = True]) (use e in auto)
  then show ?thesis using e c' by auto
qed

lemma write_all_data:
  assumes "ok d" and "geometry_ok c" and "\<forall>(b, bs) \<in> set l. valid_block c b \<and> length bs = block_size c" and "distinct (map fst l)"
    and "write_all wr c l d = (True, d')"
  shows "ok d' \<and> (\<forall>b. disk_block img (sectors_per_block c) d' b =
     (case map_of l b of Some bs \<Rightarrow> bs | None \<Rightarrow> disk_block img (sectors_per_block c) d b))"
  using assms
proof (induction l arbitrary: d)
  case (Cons x l)
  obtain b bs where x: "x = (b, bs)" by (cases x)
  obtain d1 where w: "wr d (sector_of c b) (of_nat (sectors_per_block c)) bs = (Some True, d1)" "write_all wr c l d1 = (True, d')"
    using Cons.prems(5) by (auto simp: x split: prod.splits option.splits bool.splits)
  have "valid_block c b" "length bs = block_size c" using Cons.prems(3) by (auto simp: x)
  then have d1: "ok d1" "disk_block img (sectors_per_block c) d1 = (disk_block img (sectors_per_block c) d)(b := bs)"
    using write_block_data [OF Cons.prems(1,2) _ _ w(1)] by auto
  have "map_of l b = None" using Cons.prems(4) by (simp add: x map_of_eq_None_iff)
  moreover have "ok d' \<and> (\<forall>b. disk_block img (sectors_per_block c) d' b =
      (case map_of l b of Some bs \<Rightarrow> bs | None \<Rightarrow> disk_block img (sectors_per_block c) d1 b))"
    using Cons.IH [OF d1(1) Cons.prems(2) _ _ w(2)] Cons.prems(3,4) by simp
  ultimately show ?case by (simp add: x d1(2) split: option.split)
qed simp

lemma cache_flush_ok:
  assumes inv: "cache_inv img ok c d None" and r: "cache_flush wr c d = (Inr u, c', d')"
  shows "cache_inv img ok c' d' None \<and> content img c' d' = content img c d \<and> same_shape c c' \<and>
    (\<forall>b. disk_block img (sectors_per_block c) d' b = content img c d b)"
proof -
  let ?l = "dirty_blocks (entries c)" and ?n = "sectors_per_block c"
  let ?c = "c\<lparr>entries := map (\<lambda>e. if dirty e \<and> \<not> in_flight e then e\<lparr>dirty := False\<rparr> else e) (entries c)\<rparr>"
  have od: "ok d" "geometry_ok c" and ids: "ids_distinct (entries c)" using inv by (auto simp: cache_inv_def)
  have w: "write_all wr c ?l d = (True, d')" and c': "c' = ?c" using r by (auto simp: cache_flush_def split: prod.splits bool.splits)
  have "\<forall>(b, bs) \<in> set ?l. valid_block c b \<and> length bs = block_size c"
  proof clarify
    fix b bs assume "(b, bs) \<in> set ?l"
    then obtain e where "e \<in> set (entries c)" "block_id e = Some b" "bs = cdata e" by (auto simp: dirty_blocks_iff)
    then show "valid_block c b \<and> length bs = block_size c" using inv by (auto simp: cache_inv_def entry_ok_def in_set_conv_nth)
  qed
  then have d': "ok d'" "\<And>b. disk_block img ?n d' b = (case map_of ?l b of Some bs \<Rightarrow> bs | None \<Rightarrow> disk_block img ?n d b)"
    using write_all_data [OF od _ dirty_blocks_distinct [OF ids] w] by auto
  have at: "disk_block img ?n d' b = cdata (entries c ! j)" if j: "j < length (entries c)" "block_id (entries c ! j) = Some b" for j b
  proof (cases "dirty (entries c ! j)")
    case True
    have "\<not> in_flight (entries c ! j)" using inv j by (simp add: cache_inv_def)
    then have "(b, cdata (entries c ! j)) \<in> set ?l" using True j by (auto simp: dirty_blocks_iff)
    then show ?thesis using d'(2) [of b] dirty_blocks_distinct [OF ids] by simp
  next
    case False
    have "map_of ?l b = None"
    proof (rule ccontr)
      assume "map_of ?l b \<noteq> None"
      then obtain bs where "(b, bs) \<in> set ?l" by (meson map_of_SomeD not_None_eq)
      then obtain k where "k < length (entries c)" "dirty (entries c ! k)" "block_id (entries c ! k) = Some b"
        by (metis dirty_blocks_iff in_set_conv_nth)
      then show False using ids j False unfolding ids_distinct_def by metis
    qed
    then show ?thesis using d'(2) [of b] False inv j by (auto simp: cache_inv_def entry_ok_def)
  qed
  have all: "disk_block img ?n d' b = content img c d b" for b
  proof (cases "\<exists>j < length (entries c). block_id (entries c ! j) = Some b")
    case True
    then show ?thesis using at content_at [OF inv] by metis
  next
    case False
    then have "(b, bs) \<notin> set ?l" for bs by (metis dirty_blocks_iff in_set_conv_nth)
    then have "map_of ?l b = None" by (meson map_of_SomeD not_None_eq)
    then show ?thesis using d'(2) [of b] False content_miss [of c b img d] by simp
  qed
  have eo: "block_id (entries ?c ! j) = block_id (entries c ! j) \<and> cdata (entries ?c ! j) = cdata (entries c ! j) \<and>
      in_flight (entries ?c ! j) = in_flight (entries c ! j) \<and> entry_ok img ?c d' (entries ?c ! j)" if j: "j < length (entries c)" for j
  proof -
    have "entry_ok img c d (entries c ! j)" "\<not> in_flight (entries c ! j)" using inv j by (simp_all add: cache_inv_def)
    then show ?thesis using j at [OF j] by (auto simp: entry_ok_def valid_block_def split: option.splits)
  qed
  have inv': "cache_inv img ok ?c d' None"
    using inv eo d'(1) by (simp add: cache_inv_def geometry_ok_def ids_distinct_def)
  have "content img ?c d' b = content img c d b" for b
  proof (cases "\<exists>j < length (entries c). block_id (entries c ! j) = Some b")
    case True
    then obtain j where j: "j < length (entries c)" "block_id (entries c ! j) = Some b" by blast
    then show ?thesis using content_at [OF inv j] content_at [OF inv', of j b] eo [OF j(1)] by simp
  next
    case False
    then show ?thesis using content_miss [of ?c b img d'] eo all [of b] by simp
  qed
  then show ?thesis using inv' c' all by (simp add: same_shape_def fun_eq_iff)
qed

end

section \<open>A device without faults\<close>

definition fits :: "('d \<Rightarrow> nat) \<Rightarrow> bcache \<Rightarrow> 'd \<Rightarrow> nat \<Rightarrow> bool" where
  "fits cap c d b \<longleftrightarrow> valid_block c b \<and> b * sectors_per_block c + sectors_per_block c \<le> cap d"

definition cached_fit :: "('d \<Rightarrow> nat) \<Rightarrow> bcache \<Rightarrow> 'd \<Rightarrow> bool" where
  "cached_fit cap c d \<longleftrightarrow> (\<forall>j < length (entries c). \<forall>b. block_id (entries c ! j) = Some b \<longrightarrow> fits cap c d b)"

lemma fits_cong: "same_shape c c' \<Longrightarrow> cap d' = cap d \<Longrightarrow> fits cap c' d' = fits cap c d"
  using same_shape_valid [of c c'] by (simp add: fits_def same_shape_def fun_eq_iff)

context sound_device
begin

lemma wr_block_total:
  assumes "ok d" and "geometry_ok c" and "fits cap c d b" and "length bs = block_size c"
  shows "\<exists>d'. wr d (sector_of c b) (of_nat (sectors_per_block c)) bs = (Some True, d') \<and> cap d' = cap d"
proof -
  have v: "valid_block c b" using assms(3) by (simp add: fits_def)
  note ex = sector_exact [OF assms(2) v]
  have "unat (sector_of c b) + unat (of_nat (sectors_per_block c) :: u32) \<le> cap d"
    using assms(3) ex(1,2) by (simp add: fits_def)
  then show ?thesis using wr_total [OF assms(1) ex(4) _ ex(3), of bs] assms(2,4) ex(2) by (simp add: geometry_ok_def)
qed

lemma rd_block_total:
  assumes "ok d" and "geometry_ok c" and "fits cap c d b"
  shows "\<exists>bs d'. rd d (sector_of c b) (of_nat (sectors_per_block c)) = (Some (True, bs), d') \<and> cap d' = cap d"
proof -
  have v: "valid_block c b" using assms(3) by (simp add: fits_def)
  note ex = sector_exact [OF assms(2) v]
  have "unat (sector_of c b) + unat (of_nat (sectors_per_block c) :: u32) \<le> cap d"
    using assms(3) ex(1,2) by (simp add: fits_def)
  then show ?thesis using rd_total [OF assms(1) ex(4) _ ex(3)] by simp
qed

lemma write_back_total:
  assumes "cache_inv img ok c d (Some i)" and "i < length (entries c)" and "cached_fit cap c d"
  shows "\<exists>c2 d2. write_back wr c i d = (True, c2, d2) \<and> cap d2 = cap d"
proof (cases "if dirty (entries c ! i) then block_id (entries c ! i) else None")
  case (Some old)
  then have o: "dirty (entries c ! i)" "block_id (entries c ! i) = Some old" by (auto split: if_splits)
  have "ok d" "geometry_ok c" "length (cdata (entries c ! i)) = block_size c" "fits cap c d old"
    using assms o by (auto simp: cache_inv_def entry_ok_def cached_fit_def)
  from wr_block_total [OF this(1,2,4,3)] show ?thesis using Some by (auto simp: write_back_def Let_def)
qed (auto simp: write_back_def Let_def)

lemma evict_total:
  assumes inv: "cache_inv img ok c d None" and fit: "cached_fit cap c d" and miss: "find_block (entries c) b = None"
  obtains i c1 c2 d2 where "select_slot c = Some (Some i, c1)" "write_back wr c1 i d = (True, c2, d2)" "cap d2 = cap d"
    "cache_inv img ok c2 d2 (Some i)" "same_shape c c2" "i < length (entries c2)"
    "\<forall>j < length (entries c2). block_id (entries c2 ! j) = block_id (entries c ! j)"
proof -
  obtain i c1 where s: "select_slot c = Some (Some i, c1)" "cache_inv img ok c1 d (Some i)" "i < length (entries c1)"
    "same_shape c c1" "\<forall>j < length (entries c). block_id (entries c1 ! j) = block_id (entries c ! j)"
    "\<And>c2 d2. write_back wr c1 i d = (True, c2, d2) \<Longrightarrow> cache_inv img ok c2 d2 (Some i) \<and> i < length (entries c2) \<and>
       same_shape c c2 \<and> (\<forall>j < length (entries c2). block_id (entries c2 ! j) = block_id (entries c ! j))"
    by (rule evict_ok [OF inv miss]) blast
  have "cached_fit cap c1 d"
    using fit s(4,5) fits_cong [OF s(4), of cap d d] by (simp add: cached_fit_def same_shape_def)
  then obtain c2 d2 where w: "write_back wr c1 i d = (True, c2, d2)" "cap d2 = cap d"
    using write_back_total [OF s(2,3)] by blast
  show ?thesis by (rule that [OF s(1) w]) (use s(6) [OF w(1)] in auto)
qed

lemma cache_read_total:
  assumes inv: "cache_inv img ok c d None" and fit: "cached_fit cap c d" and b: "fits cap c d b"
  shows "\<exists>bs c' d'. cache_read rd wr c d b = Some (Inr bs, c', d') \<and> cap d' = cap d \<and> cached_fit cap c' d'"
proof (cases "find_block (entries c) b")
  case (Some i)
  have i: "i < length (entries c)" using find_entry_Some [OF Some] by simp
  then have "\<not> in_flight (entries c ! i)" using inv by (simp add: cache_inv_def)
  moreover have "cached_fit cap (upd_entry c i (\<lambda>e. e\<lparr>referenced := True\<rparr>)) d" using fit by (auto simp: cached_fit_def fits_def)
  ultimately show ?thesis using Some by (simp add: cache_read_def)
next
  case None
  obtain i c1 c2 d2 where e: "select_slot c = Some (Some i, c1)" "write_back wr c1 i d = (True, c2, d2)" "cap d2 = cap d"
    "cache_inv img ok c2 d2 (Some i)" "same_shape c c2" "i < length (entries c2)"
    "\<forall>j < length (entries c2). block_id (entries c2 ! j) = block_id (entries c ! j)"
    by (rule evict_total [OF inv fit None])
  have f2: "fits cap c2 d2 = fits cap c d" by (rule fits_cong [OF e(5)]) (rule e(3))
  then obtain bs d3 where r: "rd d2 (sector_of c2 b) (of_nat (sectors_per_block c2)) = (Some (True, bs), d3)" "cap d3 = cap d2"
    using rd_block_total [of d2 c2 b] e(4) b by (auto simp: cache_inv_def)
  let ?c = "upd_entry (upd_entry (upd_entry c2 i (\<lambda>e. e\<lparr>block_id := Some b\<rparr>)) i (\<lambda>e. e\<lparr>cdata := bs\<rparr>)) i
      (\<lambda>e. e\<lparr>referenced := True, in_flight := False\<rparr>)"
  have "same_shape c ?c" using e(5) by simp
  then have "fits cap ?c d3 = fits cap c d" by (rule fits_cong) (simp add: r(2) e(3))
  then have "cached_fit cap ?c d3" using fit b e(5,7) by (auto simp: cached_fit_def same_shape_def)
  then show ?thesis using None e(1,2,3) r by (simp add: cache_read_def Let_def sector_of_def)
qed

lemma cache_write_total:
  assumes inv: "cache_inv img ok c d None" and fit: "cached_fit cap c d" and b: "fits cap c d b"
  shows "\<exists>c' d'. cache_write wr c d b src = Some (Inr (), c', d') \<and> cap d' = cap d \<and> cached_fit cap c' d'"
proof (cases "find_block (entries c) b")
  case (Some i)
  have i: "i < length (entries c)" using find_entry_Some [OF Some] by simp
  then have "\<not> in_flight (entries c ! i)" using inv by (simp add: cache_inv_def)
  moreover have "cached_fit cap (upd_entry c i (\<lambda>e. e\<lparr>referenced := True, dirty := True, cdata := src\<rparr>)) d"
    using fit by (auto simp: cached_fit_def fits_def)
  ultimately show ?thesis using Some by (simp add: cache_write_def)
next
  case None
  obtain i c1 c2 d2 where e: "select_slot c = Some (Some i, c1)" "write_back wr c1 i d = (True, c2, d2)" "cap d2 = cap d"
    "cache_inv img ok c2 d2 (Some i)" "same_shape c c2" "i < length (entries c2)"
    "\<forall>j < length (entries c2). block_id (entries c2 ! j) = block_id (entries c ! j)"
    by (rule evict_total [OF inv fit None])
  let ?c = "upd_entry c2 i (\<lambda>e. e\<lparr>block_id := Some b, referenced := True, dirty := True, in_flight := False, cdata := src\<rparr>)"
  have "same_shape c ?c" using e(5) by simp
  then have "fits cap ?c d2 = fits cap c d" by (rule fits_cong) (simp add: e(3))
  then have "cached_fit cap ?c d2" using fit b e(5,7) by (auto simp: cached_fit_def same_shape_def)
  then show ?thesis using None e(1,2,3) by (simp add: cache_write_def)
qed

end

section \<open>Block stores\<close>

text \<open>
  What the file system relies on: a store of blocks of one size, read and written as a whole, the
  valid ones given by \<open>has\<close>.
\<close>

locale block_store =
  fixes sread :: "'s \<Rightarrow> nat \<Rightarrow> ((unit + u8 list) \<times> 's) run" and swrite :: "'s \<Rightarrow> nat \<Rightarrow> u8 list \<Rightarrow> ((unit + unit) \<times> 's) run"
    and sinv :: "'s \<Rightarrow> bool" and blocks :: "'s \<Rightarrow> nat \<Rightarrow> u8 list" and has :: "'s \<Rightarrow> nat \<Rightarrow> bool" and bsize :: "'s \<Rightarrow> nat"
  assumes block_length: "sinv s \<Longrightarrow> has s b \<Longrightarrow> length (blocks s b) = bsize s"
    and sread_law: "sinv s \<Longrightarrow> has s b \<Longrightarrow>
        \<exists>s'. sread s b = Some (Inr (blocks s b), s') \<and> sinv s' \<and> blocks s' = blocks s \<and> has s' = has s \<and> bsize s' = bsize s"
    and swrite_law: "sinv s \<Longrightarrow> has s b \<Longrightarrow> length bs = bsize s \<Longrightarrow>
        \<exists>s'. swrite s b bs = Some (Inr (), s') \<and> sinv s' \<and> blocks s' = (blocks s)(b := bs) \<and> has s' = has s \<and> bsize s' = bsize s"

text \<open>Sequences of reads and writes, on the store and on a plain map of blocks.\<close>

datatype bio = BRead nat | BWrite nat "u8 list"

fun bio_run ::
  "('s \<Rightarrow> nat \<Rightarrow> ((unit + u8 list) \<times> 's) run) \<Rightarrow> ('s \<Rightarrow> nat \<Rightarrow> u8 list \<Rightarrow> ((unit + unit) \<times> 's) run) \<Rightarrow> 's \<Rightarrow> bio list
     \<Rightarrow> ((unit + u8 list list) \<times> 's) run" where
  "bio_run sread swrite s [] = ret (Inr [], s)"
| "bio_run sread swrite s (BRead b # xs) =
    do { (r, s') \<leftarrow> sread s b;
         case r of Inl _ \<Rightarrow> ret (Inl (), s')
         | Inr bs \<Rightarrow> do { (q, s'') \<leftarrow> bio_run sread swrite s' xs; ret (map_sum id ((#) bs) q, s'') } }"
| "bio_run sread swrite s (BWrite b bs # xs) =
    do { (r, s') \<leftarrow> swrite s b bs;
         case r of Inl _ \<Rightarrow> ret (Inl (), s') | Inr _ \<Rightarrow> bio_run sread swrite s' xs }"

fun bio_spec :: "(nat \<Rightarrow> u8 list) \<Rightarrow> bio list \<Rightarrow> u8 list list \<times> (nat \<Rightarrow> u8 list)" where
  "bio_spec f [] = ([], f)"
| "bio_spec f (BRead b # xs) = (case bio_spec f xs of (rs, f') \<Rightarrow> (f b # rs, f'))"
| "bio_spec f (BWrite b bs # xs) = bio_spec (f(b := bs)) xs"

fun bio_ok :: "(nat \<Rightarrow> bool) \<Rightarrow> nat \<Rightarrow> bio \<Rightarrow> bool" where
  "bio_ok P n (BRead b) \<longleftrightarrow> P b"
| "bio_ok P n (BWrite b bs) \<longleftrightarrow> P b \<and> length bs = n"

context block_store
begin

lemma bio_run_spec:
  assumes "sinv s" and "\<forall>x \<in> set xs. bio_ok (has s) (bsize s) x"
  shows "\<exists>s'. bio_run sread swrite s xs = Some (Inr (fst (bio_spec (blocks s) xs)), s') \<and> sinv s' \<and>
    blocks s' = snd (bio_spec (blocks s) xs) \<and> has s' = has s \<and> bsize s' = bsize s"
  using assms
proof (induction "blocks s" xs arbitrary: s rule: bio_spec.induct)
  case (2 b xs)
  obtain s1 where 1: "sread s b = Some (Inr (blocks s b), s1)" "sinv s1" "blocks s1 = blocks s" "has s1 = has s" "bsize s1 = bsize s"
    using sread_law [OF "2.prems"(1), of b] "2.prems"(2) by auto
  show ?case using "2.hyps" [of s1] "2.prems"(2) 1 by (auto split: prod.splits)
next
  case (3 b bs xs)
  obtain s1 where 1: "swrite s b bs = Some (Inr (), s1)" "sinv s1" "blocks s1 = (blocks s)(b := bs)" "has s1 = has s" "bsize s1 = bsize s"
    using swrite_law [OF "3.prems"(1), of b bs] "3.prems"(2) by auto
  show ?case using "3.hyps" [of s1] "3.prems"(2) 1 by auto
qed auto

end

context sound_device
begin

lemma cached_store:
  "block_store (\<lambda>(c, d). cache_read rd wr c d) (\<lambda>(c, d). cache_write wr c d)
     (\<lambda>(c, d). cache_inv img ok c d None \<and> cached_fit cap c d) (\<lambda>(c, d). content img c d) (\<lambda>(c, d). fits cap c d) (\<lambda>(c, d). block_size c)"
proof unfold_locales
  fix s :: "bcache \<times> 'a" and b
  obtain c d where s: "s = (c, d)" by (cases s)
  assume "case s of (c, d) \<Rightarrow> cache_inv img ok c d None \<and> cached_fit cap c d" and "(case s of (c, d) \<Rightarrow> fits cap c d) b"
  then have inv: "cache_inv img ok c d None" and cf: "cached_fit cap c d" and b: "fits cap c d b" and v: "valid_block c b"
    by (simp_all add: s fits_def)
  show "length ((case s of (c, d) \<Rightarrow> content img c d) b) = (case s of (c, d) \<Rightarrow> block_size c)"
  proof (cases "find_block (entries c) b")
    case (Some i)
    then show ?thesis using find_entry_Some [OF Some] inv by (auto simp: s content_def cache_inv_def entry_ok_def)
  next
    case None
    then show ?thesis using disk_block_length [of d] inv by (simp add: s content_def cache_inv_def geometry_ok_def)
  qed
  obtain bs c' d' where r: "cache_read rd wr c d b = Some (Inr bs, c', d')" "cap d' = cap d" "cached_fit cap c' d'"
    using cache_read_total [OF inv cf b] by blast
  note ro = cache_read_ok [OF inv v r(1)]
  have "fits cap c' d' = fits cap c d" by (rule fits_cong [OF conjunct2 [OF conjunct2 [OF conjunct2 [OF ro]]]]) (rule r(2))
  then show "\<exists>s'. (case s of (c, d) \<Rightarrow> cache_read rd wr c d) b = Some (Inr ((case s of (c, d) \<Rightarrow> content img c d) b), s') \<and>
      (case s' of (c, d) \<Rightarrow> cache_inv img ok c d None \<and> cached_fit cap c d) \<and>
      (case s' of (c, d) \<Rightarrow> content img c d) = (case s of (c, d) \<Rightarrow> content img c d) \<and>
      (case s' of (c, d) \<Rightarrow> fits cap c d) = (case s of (c, d) \<Rightarrow> fits cap c d) \<and>
      (case s' of (c, d) \<Rightarrow> block_size c) = (case s of (c, d) \<Rightarrow> block_size c)"
    using r ro by (intro exI [of _ "(c', d')"]) (simp add: s same_shape_def)
  fix bs :: "u8 list" assume "length bs = (case s of (c, d) \<Rightarrow> block_size c)"
  then have l: "length bs = block_size c" by (simp add: s)
  obtain c' d' where w: "cache_write wr c d b bs = Some (Inr (), c', d')" "cap d' = cap d" "cached_fit cap c' d'"
    using cache_write_total [OF inv cf b] by blast
  note wo = cache_write_ok [OF inv v l w(1)]
  have "fits cap c' d' = fits cap c d" by (rule fits_cong [OF conjunct2 [OF conjunct2 [OF wo]]]) (rule w(2))
  then show "\<exists>s'. (case s of (c, d) \<Rightarrow> cache_write wr c d) b bs = Some (Inr (), s') \<and>
      (case s' of (c, d) \<Rightarrow> cache_inv img ok c d None \<and> cached_fit cap c d) \<and>
      (case s' of (c, d) \<Rightarrow> content img c d) = (case s of (c, d) \<Rightarrow> content img c d)(b := bs) \<and>
      (case s' of (c, d) \<Rightarrow> fits cap c d) = (case s of (c, d) \<Rightarrow> fits cap c d) \<and>
      (case s' of (c, d) \<Rightarrow> block_size c) = (case s of (c, d) \<Rightarrow> block_size c)"
    using w wo by (intro exI [of _ "(c', d')"]) (simp add: s same_shape_def)
qed

lemma write_all_total:
  assumes "ok d" and "geometry_ok c" and "\<forall>(b, bs) \<in> set l. fits cap c d b \<and> length bs = block_size c"
  shows "\<exists>d'. write_all wr c l d = (True, d')"
  using assms
proof (induction l arbitrary: d)
  case (Cons x l)
  obtain b bs where x: "x = (b, bs)" by (cases x)
  have b: "fits cap c d b" "valid_block c b" "length bs = block_size c" using Cons.prems(3) by (auto simp: x fits_def)
  obtain d1 where w: "wr d (sector_of c b) (of_nat (sectors_per_block c)) bs = (Some True, d1)" "cap d1 = cap d"
    using wr_block_total [OF Cons.prems(1,2) b(1,3)] by blast
  have "ok d1" using write_block_data [OF Cons.prems(1,2) b(2,3) w(1)] by simp
  moreover have "fits cap c d1 = fits cap c d" using w(2) by (simp add: fits_def fun_eq_iff)
  ultimately show ?case using Cons.IH [of d1] Cons.prems(2,3) w(1) by (simp add: x)
qed simp

lemma cache_flush_total:
  assumes "cache_inv img ok c d None" and "cached_fit cap c d"
  shows "\<exists>c' d'. cache_flush wr c d = (Inr (), c', d')"
proof -
  have "fits cap c d b \<and> length bs = block_size c" if m: "(b, bs) \<in> set (dirty_blocks (entries c))" for b bs
  proof -
    obtain j where j: "j < length (entries c)" "block_id (entries c ! j) = Some b" "bs = cdata (entries c ! j)"
      using m by (metis dirty_blocks_iff in_set_conv_nth)
    then have "entry_ok img c d (entries c ! j)" using assms(1) by (simp add: cache_inv_def)
    then show ?thesis using assms(2) j by (simp add: entry_ok_def cached_fit_def)
  qed
  then obtain d' where "write_all wr c (dirty_blocks (entries c)) d = (True, d')"
    using write_all_total [of d c "dirty_blocks (entries c)"] assms(1) by (auto simp: cache_inv_def)
  then show ?thesis by (simp add: cache_flush_def)
qed

end

text \<open>The store the kernel mounts: the cache over a partition of the drive.\<close>

abbreviation part_cache_read :: "bcache \<times> gpt_partition \<times> disk \<Rightarrow> nat \<Rightarrow> ((unit + u8 list) \<times> bcache \<times> gpt_partition \<times> disk) run" where
  "part_cache_read \<equiv> \<lambda>(c, d). cache_read (part_read disk_read) (part_write disk_write) c d"

abbreviation part_cache_write :: "bcache \<times> gpt_partition \<times> disk \<Rightarrow> nat \<Rightarrow> u8 list \<Rightarrow> ((unit + unit) \<times> bcache \<times> gpt_partition \<times> disk) run" where
  "part_cache_write \<equiv> \<lambda>(c, d). cache_write (part_write disk_write) c d"

interpretation cached: block_store part_cache_read part_cache_write
  "\<lambda>(c, d). cache_inv (part_img platter) (part_ok disk_ok) c d None \<and> cached_fit (part_cap capacity) c d"
  "\<lambda>(c, d). content (part_img platter) c d" "\<lambda>(c, d). fits (part_cap capacity) c d" "\<lambda>(c, d). block_size c"
  by (rule part.cached_store)

lemma cache_new_inv:
  assumes "okay d" and "0 < spb" and "spb < 2 ^ 32" and "0 < n"
  shows "cache_inv f okay (cache_new (SECTOR * spb) n) d None \<and> cached_fit cap (cache_new (SECTOR * spb) n) d \<and>
    content f (cache_new (SECTOR * spb) n) d = disk_block f spb d \<and> block_size (cache_new (SECTOR * spb) n) = SECTOR * spb"
proof -
  let ?c = "cache_new (SECTOR * spb) n"
  have spb: "sectors_per_block ?c = spb" by (simp add: cache_new_def SECTOR_def)
  have "content f ?c d b = disk_block f spb d b" for b using content_miss [of ?c b f d] spb by (simp add: cache_new_def)
  then show ?thesis using assms spb
    by (simp add: cache_inv_def cached_fit_def geometry_ok_def ids_distinct_def entry_ok_def cache_new_def fun_eq_iff)
qed

text \<open>
  C28. The block cache is transparent. On a partition of a drive without faults, any sequence of
  reads and writes of blocks through a fresh cache of any size returns exactly what the same
  sequence on an uncached array of blocks returns, and a flush afterwards succeeds and leaves
  every block of the partition with its latest content.
\<close>

theorem cache_transparent:
  assumes "disk_ok d" and "unat (start_sector p) + unat (total_sectors p) < 2 ^ 64"
    and "0 < spb" and "spb < 2 ^ 32" and "0 < n"
    and "\<forall>x \<in> set xs. bio_ok (fits (part_cap capacity) (cache_new (SECTOR * spb) n) (p, d)) (SECTOR * spb) x"
  shows "\<exists>c' d' c'' d''. bio_run part_cache_read part_cache_write (cache_new (SECTOR * spb) n, p, d) xs =
       Some (Inr (fst (bio_spec (disk_block (part_img platter) spb (p, d)) xs)), c', d') \<and>
     cache_flush (part_write disk_write) c' d' = (Inr (), c'', d'') \<and>
     disk_block (part_img platter) (sectors_per_block c') d'' = snd (bio_spec (disk_block (part_img platter) spb (p, d)) xs)"
proof -
  let ?c = "cache_new (SECTOR * spb) n"
  have "part_ok disk_ok (p, d)" using assms(1,2) by (simp add: part_ok_def)
  note c = cache_new_inv [where f = "part_img platter" and okay = "part_ok disk_ok" and cap = "part_cap capacity", OF this assms(3,4,5)]
  obtain c' d' where r: "bio_run part_cache_read part_cache_write (?c, p, d) xs =
       Some (Inr (fst (bio_spec (disk_block (part_img platter) spb (p, d)) xs)), c', d')"
    "cache_inv (part_img platter) (part_ok disk_ok) c' d' None" "cached_fit (part_cap capacity) c' d'"
    "content (part_img platter) c' d' = snd (bio_spec (disk_block (part_img platter) spb (p, d)) xs)"
    using cached.bio_run_spec [of "(?c, p, d)" xs] c assms(6) by auto
  obtain c'' d'' where fl: "cache_flush (part_write disk_write) c' d' = (Inr (), c'', d'')"
    using part.cache_flush_total [OF r(2,3)] by blast
  have "disk_block (part_img platter) (sectors_per_block c') d'' = snd (bio_spec (disk_block (part_img platter) spb (p, d)) xs)"
    by (rule ext) (use part.cache_flush_ok [OF r(2) fl] r(4) in simp)
  then show ?thesis using r(1) fl by blast
qed

theorem cache_transparent_witness:
  "let d = \<lparr>platter = \<lambda>_. replicate SECTOR 0, capacity = 100\<rparr>; p = \<lparr>start_sector = 34, total_sectors = 20\<rparr>; c = cache_new (SECTOR * 2) 1 in
   \<exists>s. bio_run part_cache_read part_cache_write (c, p, d) [BWrite 1 (replicate 1024 7), BRead 2, BRead 1] = Some (Inr
     [disk_block (part_img platter) 2 (p, d) 2, replicate 1024 7], s)"
proof -
  let ?d = "\<lparr>platter = \<lambda>_. replicate SECTOR 0, capacity = 100\<rparr>" and ?p = "\<lparr>start_sector = 34, total_sectors = 20\<rparr>"
  have "disk_ok ?d" by (simp add: disk_ok_def)
  moreover have "fits (part_cap capacity) (cache_new (SECTOR * 2) 1) (?p, ?d) b" if "b \<le> 2" for b
    using that by (simp add: fits_def valid_block_def part_cap_def cache_new_def SECTOR_def)
  ultimately show ?thesis
    using cache_transparent [of ?d ?p 2 1 "[BWrite 1 (replicate 1024 7), BRead 2, BRead 1]"] by (auto simp: SECTOR_def Let_def)
qed

section \<open>Faults\<close>

text \<open>
  A failed read wedges its block. When the device fails the read of a block that is not cached
  (and no victim has to be written back), the operation returns an error but leaves the slot in
  flight under the block's number: whatever the device does from then on, no read or write of
  that block ever returns.
\<close>

theorem failed_read_wedges_block:
  assumes "cache_inv f okay c d None" and "find_block (entries c) b = None" and "\<forall>e \<in> set (entries c). \<not> dirty e"
    and "\<forall>s n bs d'. rd d s n \<noteq> (Some (True, bs), d')"
  shows "\<exists>c' d'. cache_read rd wr c d b = Some (Inl (), c', d') \<and>
     (\<forall>rd' wr' d'' src. cache_read rd' wr' c' d'' b = None \<and> cache_write wr' c' d'' b src = None)"
proof -
  obtain i c1 where s: "select_slot c = Some (Some i, c1)" "i < length (entries c)" "cache_inv f okay c1 d (Some i)"
    "length (entries c1) = length (entries c)" "\<forall>j < length (entries c). block_id (entries c1 ! j) = block_id (entries c ! j)"
    "\<forall>j < length (entries c). dirty (entries c1 ! j) = dirty (entries c ! j)"
    using select_slot_ok [OF assms(1)] by blast
  have cl: "\<not> dirty (entries c1 ! i)" using assms(3) s(2,6) by simp
  let ?c2 = "upd_entry c1 i (\<lambda>e. e\<lparr>block_id := Some b\<rparr>)"
  have miss: "\<forall>j < length (entries c1). block_id (entries c1 ! j) \<noteq> Some b" using assms(2) s(4,5) by (auto simp: find_entry_None)
  have stuck: "find_block (entries c') b = Some i \<and> in_flight (entries c' ! i)"
    if c': "c' = ?c2 \<or> (\<exists>bs. c' = upd_entry ?c2 i (\<lambda>e. e\<lparr>cdata := bs\<rparr>))" for c'
  proof -
    have len: "length (entries c') = length (entries c1)" and ids: "\<forall>j < length (entries c1). block_id (entries c' ! j) = (if j = i then Some b else block_id (entries c1 ! j))"
      and fl: "in_flight (entries c' ! i)"
      using c' s(2,3,4) by (auto simp: cache_inv_def)
    have "ids_distinct (entries c')" using ids miss s(3) len by (auto simp: ids_distinct_def cache_inv_def)
    then show ?thesis using find_block_at [of "entries c'" i b] ids len fl s(2,4) by simp
  qed
  obtain r d3 where rr: "rd d (sector_of ?c2 b) (of_nat (sectors_per_block ?c2)) = (r, d3)" by (cases "rd d (sector_of ?c2 b) (of_nat (sectors_per_block ?c2))")
  have wb: "write_back wr c1 i d = (True, c1, d)" using cl by (simp add: write_back_def)
  have "\<exists>c'. cache_read rd wr c d b = Some (Inl (), c', d3) \<and> (c' = ?c2 \<or> (\<exists>bs. c' = upd_entry ?c2 i (\<lambda>e. e\<lparr>cdata := bs\<rparr>)))"
  proof (cases r)
    case None
    then show ?thesis using assms(2) s(1) wb rr by (simp add: cache_read_def Let_def)
  next
    case (Some ob)
    obtain okay' bs where ob: "ob = (okay', bs)" by (cases ob)
    then have "\<not> okay'" using assms(4) rr Some by metis
    then show ?thesis using assms(2) s(1) wb rr Some ob by (auto simp: cache_read_def Let_def)
  qed
  then obtain c' where c': "cache_read rd wr c d b = Some (Inl (), c', d3)" "find_block (entries c') b = Some i \<and> in_flight (entries c' ! i)"
    using stuck by blast
  from c'(2) have "cache_read rd' wr' c' d'' b = None \<and> cache_write wr' c' d'' b src = None" for rd' wr' d'' src
    by (simp add: cache_read_def cache_write_def)
  then show ?thesis using c'(1) by blast
qed

theorem failed_read_wedges_block_witness:
  "\<exists>c'. cache_read (\<lambda>d s n. (None, d)) (\<lambda>d s n bs. (None, d)) (cache_new (SECTOR * 2) 4) () 5 = Some (Inl (), c', ()) \<and>
     cache_read (\<lambda>d s n. (Some (True, replicate 1024 0), d)) (\<lambda>d s n bs. (Some True, d)) c' () 5 = None"
proof -
  let ?rd = "\<lambda>(d :: unit) (s :: u64) (n :: u32). (None :: (bool \<times> u8 list) option, d)"
  have i: "cache_inv (\<lambda>_ _. []) (\<lambda>_. True) (cache_new (SECTOR * 2) 4) () None"
    using cache_new_inv [of "\<lambda>_. True" "()" 2 4 "\<lambda>_ _. []"] by simp
  have m: "find_block (entries (cache_new (SECTOR * 2) 4)) 5 = None" "\<forall>e \<in> set (entries (cache_new (SECTOR * 2) 4)). \<not> dirty e"
    by (simp_all add: cache_new_def find_entry_None)
  have "\<exists>c' d'. cache_read ?rd (\<lambda>d s n bs. (None, d)) (cache_new (SECTOR * 2) 4) () 5 = Some (Inl (), c', d') \<and>
     (\<forall>rd' wr' (d'' :: unit) src. cache_read rd' wr' c' d'' 5 = None \<and> cache_write wr' c' d'' 5 src = None)"
    by (rule failed_read_wedges_block [OF i m]) simp
  then obtain c' d' where r: "cache_read ?rd (\<lambda>d s n bs. (None, d)) (cache_new (SECTOR * 2) 4) () 5 = Some (Inl (), c', d')"
    and w: "\<forall>rd' wr' (d'' :: unit) src. cache_read rd' wr' c' d'' 5 = None \<and> cache_write wr' c' d'' 5 src = None" by blast
  have "d' = ()" by simp
  then show ?thesis using r w by blast
qed

end
