(* ===== verification/Abi.thy ===== *)
theory Abi
  imports Bitflags
begin

text \<open>
  The kernel ABI of \<^verbatim>\<open>lib/vespertine-abi\<close>: access rights and signals (\<^verbatim>\<open>lib.rs\<close>),
  the operations of every object class (\<^verbatim>\<open>op.rs\<close>), the invocation type and the right
  each invocation demands (\<^verbatim>\<open>Invocation::required_rights\<close>), the packet constants of
  \<^verbatim>\<open>protocol.rs\<close>, and the error codes of \<^verbatim>\<open>core/object/invoke.rs\<close> with their
  translation to syscall status words (\<^verbatim>\<open>arch/x86_64/task/syscall.rs\<close>).
\<close>

section \<open>Rights, signals, handles\<close>

type_synonym access_rights = u8

type_synonym signal = u32

type_synonym handle_id = u64

definition READ :: access_rights where "READ = 1"
definition WRITE :: access_rights where "WRITE = 2"
definition EXECUTE :: access_rights where "EXECUTE = 4"
definition CREATE :: access_rights where "CREATE = 8"
definition MUTATE :: access_rights where "MUTATE = 16"

definition READABLE :: signal where "READABLE = 1"
definition WRITABLE :: signal where "WRITABLE = 2"
definition PEER_CLOSED :: signal where "PEER_CLOSED = 4"

lemmas rights_defs = READ_def WRITE_def EXECUTE_def CREATE_def MUTATE_def

lemmas signal_defs = READABLE_def WRITABLE_def PEER_CLOSED_def

section \<open>Operations and invocations\<close>

datatype channel_op =
    PushSmall "u8 list" u8
  | PushLarge handle_id u64 u64
  | Pull u64

datatype socket_op =
    Create handle_id handle_id
  | SetNB bool

datatype directory_op =
    Link u64 u64 handle_id
  | Unlink u64 u64
  | Lookup u64 u64
  | ListDir u64 handle_id

datatype file_op =
    FileRead u64 u64 u64
  | FileWrite u64 u64 u64
  | Stat
  | GetVmo

datatype vmo_op =
    GetPage u64
  | Resize u64
  | CloneVmo u64 u64
  | MapIntoProc u64 u64 u64

datatype proc_op =
    KillProc
  | GetStatus u64
  | Unmap u64 u64
  | SpawnThread u64 u64 u64 u8

datatype thread_op = KillThread | Join | GetID

datatype proc_man_op =
    Spawn handle_id handle_id access_rights handle_id handle_id u64 u64 u64 u64

datatype mem_man_op = CreatePool u64

datatype mem_pool_op = AllocateVmo u64 | CreateSubPool u64

datatype clock_op = GetTimestamp

datatype wait_op = WaitOne signal | WaitMany u64 u64

datatype invocation =
    Ping
  | GetInfo
  | Channel channel_op
  | DirectoryInv directory_op
  | FileInv file_op
  | VmoInv vmo_op
  | ProcInv proc_op
  | ThreadInv thread_op
  | ProcessManager proc_man_op
  | MemoryManager mem_man_op
  | MemPoolInv mem_pool_op
  | ClockInv clock_op
  | SocketInv socket_op
  | WaitInv wait_op

fun required_rights :: "invocation \<Rightarrow> access_rights" where
  "required_rights Ping = READ"
| "required_rights GetInfo = READ"
| "required_rights (Channel (PushSmall _ _)) = WRITE"
| "required_rights (Channel (PushLarge _ _ _)) = WRITE"
| "required_rights (Channel (Pull _)) = READ"
| "required_rights (DirectoryInv (Link _ _ _)) = WRITE"
| "required_rights (DirectoryInv (Unlink _ _)) = WRITE"
| "required_rights (DirectoryInv (Lookup _ _)) = READ"
| "required_rights (DirectoryInv (ListDir _ _)) = READ"
| "required_rights (FileInv (FileRead _ _ _)) = READ"
| "required_rights (FileInv (FileWrite _ _ _)) = WRITE"
| "required_rights (FileInv Stat) = READ"
| "required_rights (FileInv GetVmo) = READ"
| "required_rights (VmoInv (GetPage _)) = READ"
| "required_rights (VmoInv (Resize _)) = MUTATE"
| "required_rights (VmoInv (CloneVmo _ _)) = CREATE"
| "required_rights (VmoInv (MapIntoProc _ _ _)) = MUTATE"
| "required_rights (ProcInv KillProc) = WRITE"
| "required_rights (ProcInv (GetStatus _)) = READ"
| "required_rights (ProcInv (Unmap _ _)) = MUTATE"
| "required_rights (ProcInv (SpawnThread _ _ _ _)) = CREATE"
| "required_rights (ThreadInv KillThread) = WRITE"
| "required_rights (ThreadInv Join) = READ"
| "required_rights (ThreadInv GetID) = READ"
| "required_rights (ProcessManager (Spawn _ _ _ _ _ _ _ _ _)) = CREATE"
| "required_rights (MemoryManager (CreatePool _)) = CREATE"
| "required_rights (MemPoolInv (AllocateVmo _)) = CREATE"
| "required_rights (MemPoolInv (CreateSubPool _)) = CREATE"
| "required_rights (ClockInv GetTimestamp) = READ"
| "required_rights (SocketInv (Create _ _)) = CREATE"
| "required_rights (SocketInv (SetNB _)) = WRITE"
| "required_rights (WaitInv _) = READ"

section \<open>Errors\<close>

datatype invocation_error =
    AccessDenied | InvalidHandle | InvalidArgument | InvalidPointer | UnsupportedOperation
  | PathNotFound | BufferFull | OutOfMemory | WouldBlock | PoolExhausted | NameTooLong
  | InvalidEncoding | NotMapped | ThreadSpawnFail

datatype sys_error =
    SysSuccess | SysInvalidPointer | SysBadAddress | SysOutOfMemory | SysInvalidHandle
  | SysAccessDenied | SysInvalidArgument | SysUnsupportedOperation | SysBufferFull
  | SysWouldBlock | SysPoolExhausted | SysNameTooLong | SysInvalidEncoding | SysNotMapped
  | SysUnknownSyscall | SysThreadSpawnFail

text \<open>The discriminants of \<^verbatim>\<open>enum SysError\<close> (the cast \<^verbatim>\<open>as usize\<close>).\<close>

fun sys_error_code :: "sys_error \<Rightarrow> nat" where
  "sys_error_code SysSuccess = 0"
| "sys_error_code SysInvalidPointer = 1"
| "sys_error_code SysBadAddress = 2"
| "sys_error_code SysOutOfMemory = 3"
| "sys_error_code SysInvalidHandle = 21"
| "sys_error_code SysAccessDenied = 22"
| "sys_error_code SysInvalidArgument = 23"
| "sys_error_code SysUnsupportedOperation = 24"
| "sys_error_code SysBufferFull = 25"
| "sys_error_code SysWouldBlock = 26"
| "sys_error_code SysPoolExhausted = 27"
| "sys_error_code SysNameTooLong = 28"
| "sys_error_code SysInvalidEncoding = 29"
| "sys_error_code SysNotMapped = 30"
| "sys_error_code SysUnknownSyscall = 41"
| "sys_error_code SysThreadSpawnFail = 50"

definition sys_error_from :: "nat \<Rightarrow> sys_error" where
  "sys_error_from status =
    (if status = 0 then SysSuccess else if status = 1 then SysInvalidPointer
     else if status = 2 then SysBadAddress else if status = 3 then SysOutOfMemory
     else if status = 21 then SysInvalidHandle else if status = 22 then SysAccessDenied
     else if status = 23 then SysInvalidArgument
     else if status = 24 then SysUnsupportedOperation
     else if status = 25 then SysBufferFull else if status = 26 then SysWouldBlock
     else if status = 27 then SysPoolExhausted else if status = 28 then SysNameTooLong
     else if status = 29 then SysInvalidEncoding else if status = 30 then SysNotMapped
     else if status = 41 then SysUnknownSyscall
     else if status = 50 then SysThreadSpawnFail else SysUnknownSyscall)"

fun from_invocation_err :: "invocation_error \<Rightarrow> sys_error" where
  "from_invocation_err AccessDenied = SysAccessDenied"
| "from_invocation_err InvalidHandle = SysInvalidHandle"
| "from_invocation_err InvalidArgument = SysInvalidArgument"
| "from_invocation_err InvalidPointer = SysInvalidPointer"
| "from_invocation_err UnsupportedOperation = SysUnsupportedOperation"
| "from_invocation_err BufferFull = SysBufferFull"
| "from_invocation_err OutOfMemory = SysOutOfMemory"
| "from_invocation_err PathNotFound = SysBadAddress"
| "from_invocation_err WouldBlock = SysWouldBlock"
| "from_invocation_err PoolExhausted = SysPoolExhausted"
| "from_invocation_err NameTooLong = SysNameTooLong"
| "from_invocation_err InvalidEncoding = SysInvalidEncoding"
| "from_invocation_err NotMapped = SysNotMapped"
| "from_invocation_err ThreadSpawnFail = SysThreadSpawnFail"

lemma sys_error_from_code [simp]: "sys_error_from (sys_error_code e) = e"
  by (cases e) (simp_all add: sys_error_from_def)

lemma from_invocation_err_inj: "from_invocation_err e = from_invocation_err e' \<Longrightarrow> e = e'"
  by (cases e; cases e') simp_all

lemma from_invocation_err_not_success: "from_invocation_err e \<noteq> SysSuccess"
  by (cases e) simp_all

lemma required_rights_single: "required_rights i \<in> {READ, WRITE, CREATE, MUTATE}"
  by (cases i rule: required_rights.cases) simp_all

end
