(* ===== verification/Usermem.thy ===== *)
theory Usermem
  imports Abi
begin

text \<open>
  Copies between the kernel and a user's buffer: \<^verbatim>\<open>arch/x86_64/task/syscall.rs\<close>
  (\<^verbatim>\<open>safe_copy_from\<close>, \<^verbatim>\<open>safe_copy_to\<close>, \<^verbatim>\<open>fetch_user_string\<close>, \<^verbatim>\<open>give_user_string\<close>) and the two copy
  routines in \<^verbatim>\<open>task/syscall.asm\<close> they call. Memory is a byte per address together with the
  addresses that can be read and written; an access to another address faults, and the fault
  handler ends a user copy there with the bytes before it copied. A kernel address is copied
  directly: a fault there is a kernel panic.
\<close>

record umem =
  mbyte :: "u64 \<Rightarrow> u8"
  can_read :: "u64 \<Rightarrow> bool"
  can_write :: "u64 \<Rightarrow> bool"

definition KERNEL_BASE :: u64 where
  "KERNEL_BASE = 0xFFFF800000000000"

definition bytes_at :: "umem \<Rightarrow> u64 \<Rightarrow> nat \<Rightarrow> u8 list" where
  "bytes_at m p n = map (\<lambda>k. mbyte m (p + of_nat k)) [0..<n]"

fun read_bytes :: "umem \<Rightarrow> u64 \<Rightarrow> nat \<Rightarrow> bool \<times> u8 list" where
  "read_bytes m p 0 = (True, [])"
| "read_bytes m p (Suc n) =
    (if can_read m p then case read_bytes m (p + 1) n of (b, bs) \<Rightarrow> (b, mbyte m p # bs) else (False, []))"

fun write_bytes :: "umem \<Rightarrow> u64 \<Rightarrow> u8 list \<Rightarrow> bool \<times> umem" where
  "write_bytes m p [] = (True, m)"
| "write_bytes m p (b # bs) =
    (if can_write m p then write_bytes (m\<lparr>mbyte := (mbyte m)(p := b)\<rparr>) (p + 1) bs else (False, m))"

definition user_range :: "u64 \<Rightarrow> u64 \<Rightarrow> bool" where
  "user_range p len \<longleftrightarrow> unat p + unat len < 2 ^ 64 \<and> p + len < KERNEL_BASE"

definition copy_from_user :: "umem \<Rightarrow> u64 \<Rightarrow> u64 \<Rightarrow> bool \<times> u8 list" where
  "copy_from_user m src len = (if user_range src len then read_bytes m src (unat len) else (False, []))"

definition copy_to_user :: "umem \<Rightarrow> u64 \<Rightarrow> u8 list \<Rightarrow> bool \<times> umem" where
  "copy_to_user m dst bs = (if user_range dst (of_nat (length bs)) then write_bytes m dst bs else (False, m))"

definition safe_copy_from :: "umem \<Rightarrow> u64 \<Rightarrow> u64 \<Rightarrow> (bool \<times> u8 list) run" where
  "safe_copy_from m src len =
    (if KERNEL_BASE \<le> src
     then (case read_bytes m src (unat len) of (b, bs) \<Rightarrow> if b then ret (True, bs) else panic)
     else ret (copy_from_user m src len))"

definition safe_copy_to :: "umem \<Rightarrow> u64 \<Rightarrow> u8 list \<Rightarrow> (bool \<times> umem) run" where
  "safe_copy_to m dst bs =
    (if KERNEL_BASE \<le> dst
     then (case write_bytes m dst bs of (b, m') \<Rightarrow> if b then ret (True, m') else panic)
     else ret (copy_to_user m dst bs))"

section \<open>UTF-8\<close>

text \<open>The validity check of \<^verbatim>\<open>str::from_utf8\<close>: the well-formed byte sequences of the Unicode standard.\<close>

definition cont :: "u8 \<Rightarrow> bool" where
  "cont b \<longleftrightarrow> 0x80 \<le> b \<and> b \<le> 0xBF"

fun utf8_valid :: "u8 list \<Rightarrow> bool" where
  "utf8_valid [] = True"
| "utf8_valid (a # s) =
    (if a < 0x80 then utf8_valid s
     else case s of
       [] \<Rightarrow> False
     | b # s2 \<Rightarrow>
         if 0xC2 \<le> a \<and> a \<le> 0xDF then cont b \<and> utf8_valid s2
         else (case s2 of
           [] \<Rightarrow> False
         | c # s3 \<Rightarrow>
             if 0xE0 \<le> a \<and> a \<le> 0xEF
             then (if a = 0xE0 then 0xA0 \<le> b \<and> b \<le> 0xBF else if a = 0xED then 0x80 \<le> b \<and> b \<le> 0x9F else cont b) \<and>
                  cont c \<and> utf8_valid s3
             else (case s3 of
               [] \<Rightarrow> False
             | d # s4 \<Rightarrow>
                 0xF0 \<le> a \<and> a \<le> 0xF4 \<and>
                 (if a = 0xF0 then 0x90 \<le> b \<and> b \<le> 0xBF else if a = 0xF4 then 0x80 \<le> b \<and> b \<le> 0x8F else cont b) \<and>
                 cont c \<and> cont d \<and> utf8_valid s4)))"

section \<open>Strings\<close>

text \<open>
  The string buffer is allocated but not cleared; \<open>junk\<close> is what it holds. The result of the copy
  is not looked at.
\<close>

definition fetch_user_string :: "u8 list \<Rightarrow> umem \<Rightarrow> u64 \<Rightarrow> u64 \<Rightarrow> u64 \<Rightarrow> (sys_error + u8 list) run" where
  "fetch_user_string junk m ptr len strlen_max =
    (if strlen_max < len then ret (Inl SysInvalidArgument)
     else if ptr = 0 then ret (Inl SysBadAddress)
     else if 2 ^ 64 \<le> unat ptr + unat len then ret (Inl SysBadAddress)
     else if KERNEL_BASE \<le> ptr + len then ret (Inl SysBadAddress)
     else do { (_, bs) \<leftarrow> safe_copy_from m ptr len;
               let s = take (unat len) (bs @ drop (length bs) junk)
               in ret (if utf8_valid s then Inr s else Inl SysInvalidArgument) })"

definition give_user_string :: "umem \<Rightarrow> u64 \<Rightarrow> u8 list \<Rightarrow> ((sys_error + unit) \<times> umem) run" where
  "give_user_string m user_buffer s =
    (if user_buffer = 0 then ret (Inl SysBadAddress, m)
     else do { (_, m') \<leftarrow> safe_copy_to m user_buffer s; ret (Inr (), m') })"

section \<open>What the copies do\<close>

lemma bytes_at_0 [simp]: "bytes_at m p 0 = []"
  by (simp add: bytes_at_def)

lemma bytes_at_Suc: "bytes_at m p (Suc n) = mbyte m p # bytes_at m (p + 1) n"
  by (simp add: bytes_at_def map_upt_Suc add.assoc del: upt_Suc)

lemma length_bytes_at [simp]: "length (bytes_at m p n) = n"
  by (simp add: bytes_at_def)

lemma read_bytes_ok:
  "\<forall>k < n. can_read m (p + of_nat k) \<Longrightarrow> read_bytes m p n = (True, bytes_at m p n)"
proof (induction n arbitrary: p)
  case (Suc n)
  have "can_read m p" using Suc.prems [rule_format, of 0] by simp
  moreover have "\<forall>k < n. can_read m (p + 1 + of_nat k)"
    using Suc.prems by (metis Suc_less_eq add.assoc of_nat_Suc)
  ultimately show ?case using Suc.IH by (simp add: bytes_at_Suc)
qed simp

lemma write_bytes_frame:
  "write_bytes m p bs = (b, m') \<Longrightarrow> can_read m' = can_read m \<and> can_write m' = can_write m"
  by (induction m p bs rule: write_bytes.induct) (auto split: if_splits)

lemma write_bytes_ok:
  assumes "\<forall>k < length bs. can_write m (p + of_nat k)" and "length bs \<le> 2 ^ 64"
  shows "\<exists>m'. write_bytes m p bs = (True, m') \<and>
     (\<forall>a. mbyte m' a = (if unat (a - p) < length bs then bs ! unat (a - p) else mbyte m a))"
  using assms
proof (induction bs arbitrary: m p)
  case (Cons b bs)
  let ?m = "m\<lparr>mbyte := (mbyte m)(p := b)\<rparr>"
  have w: "can_write m p" using Cons.prems(1) [rule_format, of 0] by simp
  have "can_write ?m (p + 1 + of_nat k)" if "k < length bs" for k
    using Cons.prems(1) [rule_format, of "Suc k"] that by (simp add: add.assoc)
  then obtain m' where m': "write_bytes ?m (p + 1) bs = (True, m')"
    "\<forall>a. mbyte m' a = (if unat (a - (p + 1)) < length bs then bs ! unat (a - (p + 1)) else mbyte ?m a)"
    using Cons.IH [of ?m "p + 1"] Cons.prems(2) by auto
  have "mbyte m' a = (if unat (a - p) < Suc (length bs) then (b # bs) ! unat (a - p) else mbyte m a)" for a
  proof (cases "a = p")
    case True
    have "unat (- 1 :: u64) = 2 ^ 64 - 1" by (simp add: unsigned_minus_1_eq_mask mask_eq_exp_minus_1)
    then have "\<not> unat (a - (p + 1)) < length bs" using True Cons.prems(2) by simp
    then show ?thesis using m'(2) True by simp
  next
    case False
    then have "a - p \<noteq> 0" by simp
    then have "unat (a - p) = Suc (unat (a - p - 1))" using unat_minus_one [of "a - p"] unat_gt_0 [of "a - p"] by simp
    then show ?thesis using m'(2) False by (simp add: diff_diff_eq)
  qed
  then show ?case using w m'(1) by simp
qed simp

text \<open>User memory without faults.\<close>

definition mem_open :: "umem \<Rightarrow> bool" where
  "mem_open m \<longleftrightarrow> (\<forall>a. can_read m a \<and> can_write m a)"

lemma user_range_below: "user_range p l \<Longrightarrow> \<not> KERNEL_BASE \<le> p"
proof -
  assume r: "user_range p l"
  then have "unat (p + l) = unat p + unat l" using unat_add_lem [of p l] by (simp add: user_range_def)
  then have "p \<le> p + l" by (simp add: word_le_nat_alt)
  moreover have "p + l < KERNEL_BASE" using r by (simp add: user_range_def)
  ultimately show ?thesis by simp
qed

lemma user_range_shorter: "user_range p l \<Longrightarrow> n \<le> unat l \<Longrightarrow> user_range p (of_nat n)"
proof -
  assume r: "user_range p l" and n: "n \<le> unat l"
  have u: "unat (of_nat n :: u64) = n"
    using n unsigned_less [of l, where ?'a = nat] by (simp add: unsigned_of_nat take_bit_nat_eq_self)
  have a: "unat (p + l) = unat p + unat l" using r unat_add_lem [of p l] by (simp add: user_range_def)
  have b: "unat (p + of_nat n) = unat p + n" using r n u unat_add_lem [of p "of_nat n"] by (simp add: user_range_def)
  have "p + of_nat n \<le> p + l" using a b n by (simp add: word_le_nat_alt)
  then show ?thesis using r n u unfolding user_range_def by (auto intro: le_less_trans)
qed

lemma safe_copy_from_open:
  "mem_open m \<Longrightarrow> user_range p l \<Longrightarrow> n \<le> unat l \<Longrightarrow> safe_copy_from m p (of_nat n) = Some (True, bytes_at m p n)"
  using user_range_below [of p l] user_range_shorter [of p l n] unsigned_less [of l, where ?'a = nat]
  by (simp add: safe_copy_from_def copy_from_user_def mem_open_def read_bytes_ok unsigned_of_nat take_bit_nat_eq_self)

lemma safe_copy_to_open:
  assumes "mem_open m" and "user_range p l" and "length bs \<le> unat l"
  shows "\<exists>m'. safe_copy_to m p bs = Some (True, m') \<and> mem_open m' \<and> bytes_at m' p (length bs) = bs \<and>
    (\<forall>a. length bs \<le> unat (a - p) \<longrightarrow> mbyte m' a = mbyte m a)"
proof -
  have n: "length bs < 2 ^ 64" using assms(3) unsigned_less [of l, where ?'a = nat] by simp
  obtain m' where m': "write_bytes m p bs = (True, m')"
    "\<forall>a. mbyte m' a = (if unat (a - p) < length bs then bs ! unat (a - p) else mbyte m a)"
    using write_bytes_ok [of bs m p] assms(1) n by (auto simp: mem_open_def)
  have "mbyte m' (p + of_nat k) = bs ! k" if "k < length bs" for k
    using m'(2) that n by (simp add: unsigned_of_nat take_bit_nat_eq_self)
  then have "bytes_at m' p (length bs) = bs" by (auto simp: bytes_at_def intro!: nth_equalityI)
  moreover have "mem_open m'" using assms(1) write_bytes_frame [OF m'(1)] by (simp add: mem_open_def)
  ultimately show ?thesis
    using m' user_range_below [OF assms(2)] user_range_shorter [OF assms(2,3)]
    by (simp add: safe_copy_to_def copy_to_user_def)
qed

end
