(* ===== verification/Ext2.thy ===== *)
theory Ext2
  imports Bcache Core_Frames Usermem
begin

text \<open>
  The ext2 file system: \<^verbatim>\<open>drivers/blockdev/ext2/mod.rs\<close> and \<^verbatim>\<open>structs.rs\<close>. The state is the physical
  memory, the page allocator and the block store below (the cache over a partition). Scratch
  pages are allocated, filled and freed as in the code; an early return on a failed read leaves
  its page allocated. Fields on disk are little-endian at their packed offsets.
\<close>

section \<open>Structures on disk\<close>

record superblock =
  sb_blocks_count :: u32
  sb_log_block_size :: u32
  sb_blocks_per_group :: u32
  sb_inodes_per_group :: u32
  sb_magic :: u16
  sb_rev_level :: u32
  sb_inode_size :: u16

definition decode_superblock :: "u8 list \<Rightarrow> superblock" where
  "decode_superblock bs =
    \<lparr>sb_blocks_count = field bs 4 4, sb_log_block_size = field bs 24 4, sb_blocks_per_group = field bs 32 4,
     sb_inodes_per_group = field bs 40 4, sb_magic = field bs 56 2, sb_rev_level = field bs 76 4, sb_inode_size = field bs 88 2\<rparr>"

record group_desc =
  gd_inode_table :: u32

definition decode_group_desc :: "u8 list \<Rightarrow> group_desc" where
  "decode_group_desc bs = \<lparr>gd_inode_table = field bs 8 4\<rparr>"

record inode =
  i_mode :: u16
  i_size :: u32
  direct :: "u32 list"
  single_indirect :: u32
  double_indirect :: u32
  triple_indirect :: u32

definition decode_inode :: "u8 list \<Rightarrow> inode" where
  "decode_inode bs =
    \<lparr>i_mode = field bs 0 2, i_size = field bs 4 4, direct = map (\<lambda>k. field bs (40 + 4 * k) 4) [0..<12],
     single_indirect = field bs 88 4, double_indirect = field bs 92 4, triple_indirect = field bs 96 4\<rparr>"

record dir_header =
  de_inode :: u32
  de_record_length :: u16
  de_name_length :: u8
  de_file_type :: u8

definition decode_dir_header :: "u8 list \<Rightarrow> dir_header" where
  "decode_dir_header bs =
    \<lparr>de_inode = field bs 0 4, de_record_length = field bs 4 2, de_name_length = field bs 6 1, de_file_type = field bs 7 1\<rparr>"

section \<open>The mounted file system\<close>

record ext2_fs =
  fs_block_size :: u32
  fs_sectors_per_block :: u32
  inodes_per_group :: u32
  blocks_per_group :: u32
  inode_size :: u32
  bgdt :: "group_desc list"

text \<open>
  Mounting. The group table is read in whole blocks; their number is computed as the code has it.
\<close>

definition mount ::
  "('c \<Rightarrow> (nat \<times> 'c) run) \<Rightarrow> ('c \<Rightarrow> nat \<Rightarrow> 'c run) \<Rightarrow> ('c \<Rightarrow> nat \<Rightarrow> (nat option \<times> 'c) run) \<Rightarrow> ('c \<Rightarrow> nat \<Rightarrow> nat \<Rightarrow> 'c run)
     \<Rightarrow> 'd dev_read \<Rightarrow> u8 list \<Rightarrow> 'd \<Rightarrow> 'c \<Rightarrow> ((unit + ext2_fs \<times> bcache) \<times> 'd \<times> 'c) run" where
  "mount palloc pfree alord frord rd junk d c =
    do { (page, c1) \<leftarrow> palloc c;
         if page = 0 then ret (Inl (), d, c1)
         else case rd d 2 2 of
           (Some (True, sbb), d1) \<Rightarrow>
             let sb = decode_superblock sbb
             in if sb_magic sb \<noteq> 0xEF53 then do { c2 \<leftarrow> pfree c1 page; ret (Inl (), d1, c2) }
                else
                  let block_size = push_bit (unat (sb_log_block_size sb) mod 32) (1024 :: u32);
                      sectors_per_block = block_size div 512;
                      isize = (if 1 \<le> sb_rev_level sb then ucast (sb_inode_size sb) else 128) :: u32
                  in if sb_blocks_per_group sb = 0 \<or> block_size = 0 then panic
                     else
                       let num_groups = (sb_blocks_count sb + sb_blocks_per_group sb - 1) div sb_blocks_per_group sb;
                           bgdt_bytes = unat num_groups * 32;
                           bgdt_blocks = (of_nat bgdt_bytes * block_size - 1) div block_size;
                           bgdt_sectors = bgdt_blocks * sectors_per_block;
                           start_sector = (if block_size = 1024 then 2 else 1) * ucast sectors_per_block :: u64;
                           order = calculate_order (unat bgdt_sectors * 512 + 4095)
                       in do { (r, c2) \<leftarrow> alord c1 order;
                               case r of
                                 None \<Rightarrow> do { c3 \<leftarrow> pfree c2 page; ret (Inl (), d1, c3) }
                               | Some buf \<Rightarrow>
                                   (case rd d1 start_sector bgdt_sectors of
                                      (Some (True, tb), d2) \<Rightarrow>
                                        do { c3 \<leftarrow> pfree c2 page;
                                             c4 \<leftarrow> frord c3 buf order;
                                             ret (Inr (\<lparr>fs_block_size = block_size, fs_sectors_per_block = sectors_per_block,
                                                        inodes_per_group = sb_inodes_per_group sb,
                                                        blocks_per_group = sb_blocks_per_group sb, inode_size = isize,
                                                        bgdt = map (\<lambda>i. decode_group_desc (take 32 (drop (32 * i) (tb @ junk))))
                                                                 [0..<unat num_groups]\<rparr>,
                                                       cache_new (unat block_size) 512), d2, c4) }
                                    | (_, d2) \<Rightarrow> ret (Inl (), d2, c2)) }
         | (_, d1) \<Rightarrow> ret (Inl (), d1, c1) }"

definition read_block ::
  "('s \<Rightarrow> nat \<Rightarrow> ((unit + u8 list) \<times> 's) run) \<Rightarrow> ext2_fs \<Rightarrow> pmem \<Rightarrow> 's \<Rightarrow> u32 \<Rightarrow> nat \<Rightarrow> (bool \<times> pmem \<times> 's) run" where
  "read_block sread fs m s b dest =
    (if b = 0 then ret (True, poke m dest (replicate (unat (fs_block_size fs)) 0), s)
     else do { (r, s') \<leftarrow> sread s (unat b);
               ret (case r of Inl _ \<Rightarrow> (False, m, s') | Inr bs \<Rightarrow> (True, poke m dest bs, s')) })"

definition read_inode ::
  "('c \<Rightarrow> (nat \<times> 'c) run) \<Rightarrow> ('c \<Rightarrow> nat \<Rightarrow> 'c run) \<Rightarrow> ('s \<Rightarrow> nat \<Rightarrow> ((unit + u8 list) \<times> 's) run) \<Rightarrow> ext2_fs
     \<Rightarrow> pmem \<times> 'c \<times> 's \<Rightarrow> u32 \<Rightarrow> ((unit + inode) \<times> pmem \<times> 'c \<times> 's) run" where
  "read_inode palloc pfree sread fs = (\<lambda>(m, c, s) inode_num.
    if inode_num = 0 then ret (Inl (), m, c, s)
    else if inodes_per_group fs = 0 then panic
    else let bg_index = (inode_num - 1) div inodes_per_group fs;
             local_inode_idx = (inode_num - 1) mod inodes_per_group fs
         in if length (bgdt fs) \<le> unat bg_index then ret (Inl (), m, c, s)
            else if fs_block_size fs = 0 then panic
            else let byte_offset = local_inode_idx * inode_size fs;
                     target = gd_inode_table (bgdt fs ! unat bg_index) + byte_offset div fs_block_size fs;
                     off = byte_offset mod fs_block_size fs
                 in do { (page, c1) \<leftarrow> palloc c;
                         if page = 0 then ret (Inl (), m, c1, s)
                         else do { (okay, m1, s1) \<leftarrow> read_block sread fs m s target page;
                                   c2 \<leftarrow> pfree c1 page;
                                   ret (if okay then Inr (decode_inode (peek m1 (page + unat off) 128)) else Inl (),
                                        m1, c2, s1) } })"

section \<open>Directories\<close>

definition entry_name :: "pmem \<Rightarrow> nat \<Rightarrow> nat \<Rightarrow> nat \<Rightarrow> u8 list option" where
  "entry_name m base bs off =
    (let e = decode_dir_header (peek m (base + off) 8); n = unat (de_name_length e);
         nm = peek m (base + off + 8) n
     in if de_inode e \<noteq> 0 \<and> 0 < n \<and> off + 8 + n \<le> bs \<and> utf8_valid nm then Some nm else None)"

function scan_block :: "pmem \<Rightarrow> nat \<Rightarrow> nat \<Rightarrow> u8 list \<Rightarrow> nat \<Rightarrow> u32 option" where
  "scan_block m base bs name off =
    (if bs \<le> off then None
     else let e = decode_dir_header (peek m (base + off) 8)
          in if de_record_length e = 0 then None
             else if entry_name m base bs off = Some name then Some (de_inode e)
             else scan_block m base bs name (off + unat (de_record_length e)))"
  by pat_completeness auto
termination
proof (relation "measure (\<lambda>(m, base, bs, name, off). bs - off)")
  fix m :: pmem and base bs off :: nat and name e
  assume "\<not> bs \<le> off" and "e = decode_dir_header (peek m (base + off) 8)" and "de_record_length e \<noteq> 0"
  moreover have "0 < unat (de_record_length e)" using calculation(3) by (simp add: unat_gt_0 word_gt_0)
  ultimately show "((m, base, bs, name, off + unat (de_record_length e)), (m, base, bs, name, off)) \<in>
      measure (\<lambda>(m, base, bs, name, off). bs - off)" by simp
qed simp

declare scan_block.simps [simp del]

fun lookup_blocks ::
  "('s \<Rightarrow> nat \<Rightarrow> ((unit + u8 list) \<times> 's) run) \<Rightarrow> ext2_fs \<Rightarrow> nat \<Rightarrow> u8 list \<Rightarrow> u32 list \<Rightarrow> pmem \<Rightarrow> 's
     \<Rightarrow> ((unit + u32 option) \<times> pmem \<times> 's) run" where
  "lookup_blocks sread fs page name [] m s = ret (Inr None, m, s)"
| "lookup_blocks sread fs page name (b # bs) m s =
    (if b = 0 then lookup_blocks sread fs page name bs m s
     else do { (okay, m1, s1) \<leftarrow> read_block sread fs m s b page;
               if \<not> okay then ret (Inl (), m1, s1)
               else case scan_block m1 page (unat (fs_block_size fs)) name 0 of
                      Some i \<Rightarrow> ret (Inr (Some i), m1, s1)
                    | None \<Rightarrow> lookup_blocks sread fs page name bs m1 s1 })"

definition lookup_in_dir ::
  "('c \<Rightarrow> (nat \<times> 'c) run) \<Rightarrow> ('c \<Rightarrow> nat \<Rightarrow> 'c run) \<Rightarrow> ('s \<Rightarrow> nat \<Rightarrow> ((unit + u8 list) \<times> 's) run) \<Rightarrow> ext2_fs
     \<Rightarrow> pmem \<times> 'c \<times> 's \<Rightarrow> inode \<Rightarrow> u8 list \<Rightarrow> ((unit + u32 option) \<times> pmem \<times> 'c \<times> 's) run" where
  "lookup_in_dir palloc pfree sread fs = (\<lambda>(m, c, s) ino name.
    do { (page, c1) \<leftarrow> palloc c;
         if page = 0 then ret (Inl (), m, c1, s)
         else do { (r, m1, s1) \<leftarrow> lookup_blocks sread fs page name (direct ino) m s;
                   c2 \<leftarrow> pfree c1 page;
                   ret (r, m1, c2, s1) } })"

section \<open>Blocks of a file\<close>

text \<open>
  Reading the entries \<open>is\<close> of a tree of pointer blocks, starting at block \<open>b\<close>, through one scratch
  page. A zero pointer is a hole; a failed read returns at once.
\<close>

fun follow_pointers ::
  "('s \<Rightarrow> nat \<Rightarrow> ((unit + u8 list) \<times> 's) run) \<Rightarrow> ext2_fs \<Rightarrow> nat \<Rightarrow> u32 \<Rightarrow> nat list \<Rightarrow> pmem \<Rightarrow> 's \<Rightarrow> ((unit + u32) \<times> pmem \<times> 's) run" where
  "follow_pointers sread fs page b [] m s = ret (Inr b, m, s)"
| "follow_pointers sread fs page b (i # is) m s =
    (if b = 0 then ret (Inr 0, m, s)
     else do { (okay, m1, s1) \<leftarrow> read_block sread fs m s b page;
               if \<not> okay then ret (Inl (), m1, s1)
               else follow_pointers sread fs page (le_word (peek m1 (page + 4 * i) 4)) is m1 s1 })"

definition through_page ::
  "('c \<Rightarrow> (nat \<times> 'c) run) \<Rightarrow> ('c \<Rightarrow> nat \<Rightarrow> 'c run) \<Rightarrow> ('s \<Rightarrow> nat \<Rightarrow> ((unit + u8 list) \<times> 's) run) \<Rightarrow> ext2_fs
     \<Rightarrow> pmem \<times> 'c \<times> 's \<Rightarrow> u32 \<Rightarrow> nat list \<Rightarrow> ((unit + u32) \<times> pmem \<times> 'c \<times> 's) run" where
  "through_page palloc pfree sread fs = (\<lambda>(m, c, s) b is.
    if b = 0 then ret (Inr 0, m, c, s)
    else do { (page, c1) \<leftarrow> palloc c;
              if page = 0 then ret (Inl (), m, c1, s)
              else do { (r, m1, s1) \<leftarrow> follow_pointers sread fs page b is m s;
                        case r of
                          Inl _ \<Rightarrow> ret (Inl (), m1, c1, s1)
                        | Inr p \<Rightarrow> do { c2 \<leftarrow> pfree c1 page; ret (Inr p, m1, c2, s1) } } })"

definition resolve_file_block ::
  "('c \<Rightarrow> (nat \<times> 'c) run) \<Rightarrow> ('c \<Rightarrow> nat \<Rightarrow> 'c run) \<Rightarrow> ('s \<Rightarrow> nat \<Rightarrow> ((unit + u8 list) \<times> 's) run) \<Rightarrow> ext2_fs
     \<Rightarrow> pmem \<times> 'c \<times> 's \<Rightarrow> inode \<Rightarrow> nat \<Rightarrow> ((unit + u32) \<times> pmem \<times> 'c \<times> 's) run" where
  "resolve_file_block palloc pfree sread fs st ino file_block_idx =
    (let ppb = unat (fs_block_size fs) div 4;
         rem1 = file_block_idx - 12;
         rem2 = rem1 + ppb;
         rem3 = rem2 - ppb * ppb
     in if file_block_idx < 12 then do { b \<leftarrow> idx (direct ino) file_block_idx; ret (Inr b, st) }
        else if rem1 < ppb then through_page palloc pfree sread fs st (single_indirect ino) [rem1]
        else if rem2 < ppb * ppb
          then through_page palloc pfree sread fs st (double_indirect ino) [rem2 div ppb, rem2 mod ppb]
        else if rem3 < ppb * ppb * ppb
          then through_page palloc pfree sread fs st (triple_indirect ino)
                 [rem3 div (ppb * ppb), rem3 mod (ppb * ppb) div ppb, rem3 mod (ppb * ppb) mod ppb]
        else ret (Inl (), st))"

end
