(* ===== verification/Page_Memory.thy ===== *)
theory Page_Memory
  imports Core_Frames Bytes
begin

text \<open>
  Bytes of the pages an allocator hands out: the contract \<open>byte_frames\<close> adds to \<open>page_frames\<close> that
  pages are aligned, so that a page in use is not touched by writes to free pages. It holds of
  the kernel's allocator.
\<close>

lemma unat_of_nat64: "n < 2 ^ 64 \<Longrightarrow> unat (of_nat n :: u64) = n"
  by (simp add: unsigned_of_nat take_bit_nat_eq_self)

lemma vmo_new_resident: "resident (vmo_new sz) off = None"
proof (rule ccontr)
  assume "resident (vmo_new sz) off \<noteq> None"
  then obtain pg where "map_of (vmo_pages (vmo_new sz)) off = Some pg" "pg \<noteq> 0"
    by (auto simp: resident_def split: option.splits if_splits)
  then have "pg \<in> set (vmo_frames (vmo_new sz))"
    using bt_map_of_iff [OF vmo_new_empty(1) [of sz], of off pg] by (force simp: vmo_frames_def frames_of_def vmo_new_def)
  then show False by (simp add: vmo_new_empty)
qed

locale byte_frames = page_frames palloc pfree pok live stock reserve
  for palloc :: "'c \<Rightarrow> (nat \<times> 'c) run" and pfree pok live stock reserve +
  assumes frame_dvd: "pok c \<Longrightarrow> a \<in> stock c \<or> live c a \<Longrightarrow> 4096 dvd a"
begin

text \<open>Memory outside the free pages.\<close>

definition kept :: "'c \<Rightarrow> pmem \<Rightarrow> pmem \<Rightarrow> bool" where
  "kept c m m' \<longleftrightarrow> (\<forall>a. a div 4096 * 4096 \<notin> stock c \<longrightarrow> m' a = m a)"

lemma kept_refl [simp]: "kept c m m"
  by (simp add: kept_def)

lemma kept_trans: "kept c m m1 \<Longrightarrow> kept c m1 m2 \<Longrightarrow> kept c m m2"
  by (simp add: kept_def)

lemma kept_shrink: "stock c' \<subseteq> stock c \<Longrightarrow> kept c' m m' \<Longrightarrow> kept c m m'"
  by (auto simp: kept_def)

text \<open>A write into a page of the allocator leaves the rest of memory alone.\<close>

lemma poke_page_kept:
  assumes "pok c" and "page \<in> stock c" and "off + length bs \<le> 4096"
  shows "kept c m (poke m (page + off) bs)"
proof -
  have "4096 dvd page" using frame_dvd [OF assms(1)] assms(2) by blast
  then have "a div 4096 * 4096 = page" if "page + off \<le> a" "a < page + off + length bs" for a
    using that assms(3) by (auto elim!: dvdE)
  then show ?thesis using assms(2) by (auto simp: kept_def poke_def)
qed

lemma live_apart:
  assumes "pok c" and "live c pg" and "kept c m m'" and "t < 4096"
  shows "m' (pg + t) = m (pg + t)"
proof -
  have "4096 dvd pg" using frame_dvd assms(1,2) by blast
  then have "(pg + t) div 4096 * 4096 = pg" using assms(4) by (auto elim!: dvdE)
  then show ?thesis using assms(3) live_not_stock [OF assms(1,2)] by (simp add: kept_def)
qed

end

lemma core_aligned:
  assumes "core_ok c" and "a \<in> core_stock c \<or> core_live c a"
  shows "4096 dvd a"
proof -
  have o: "frame_owned s b \<Longrightarrow> 4096 dvd b" for s b by (simp add: frame_owned_def block_ok_def aligned_def NORMAL_PAGE_SIZE_def)
  then show ?thesis using assms by (auto simp: core_ok_def core_stock_def core_live_def frame_addrs_def NORMAL_PAGE_SIZE_def)
qed

interpretation core_mem: byte_frames core_page_alloc core_page_free core_ok core_live core_stock 127
  by unfold_locales (rule core_aligned)

end
