(* ===== verification/Handles.thy ===== *)
theory Handles
  imports Abi
begin

text \<open>
  The per-process handle table of \<^verbatim>\<open>core/object/handle.rs\<close> and the capability transfers
  built on it: \<^verbatim>\<open>proc_cpy_handle\<close> (\<^verbatim>\<open>core/object/vfs.rs\<close>) and the handle-table part of
  process creation (\<^verbatim>\<open>core/object/models/procman.rs\<close>). A table maps handle ids to
  entries; an entry is an object reference with the rights it carries. Handle ids are
  64-bit words and \<open>next_id\<close> wraps as the release build does.

  The locale \<open>capability_table\<close> is what the object layer relies on; it is interpreted on
  the table's operations. The \<open>authority\<close> of a table is the set of object/rights pairs it
  can exercise: lookups, duplication and closing never extend it.
\<close>

section \<open>The table\<close>

record 'o handle_entry =
  rights :: access_rights
  object :: 'o

record 'o handle_table =
  entries :: "handle_id \<rightharpoonup> 'o handle_entry"
  next_id :: u64

definition handle_table_new :: "'o handle_table" where
  "handle_table_new = \<lparr>entries = Map.empty, next_id = 1\<rparr>"

definition ht_insert :: "'o handle_table \<Rightarrow> 'o \<Rightarrow> access_rights \<Rightarrow> handle_id \<times> 'o handle_table" where
  "ht_insert t obj rs =
    (let i = next_id t
     in (i, t\<lparr>next_id := next_id t + 1,
              entries := (entries t)(i \<mapsto> \<lparr>rights = rs, object = obj\<rparr>)\<rparr>))"

definition ht_insert_at :: "'o handle_table \<Rightarrow> handle_id \<Rightarrow> 'o \<Rightarrow> access_rights \<Rightarrow> 'o handle_table" where
  "ht_insert_at t i obj rs =
    (let t' = t\<lparr>entries := (entries t)(i \<mapsto> \<lparr>rights = rs, object = obj\<rparr>)\<rparr>
     in if next_id t \<le> i then t'\<lparr>next_id := i + 1\<rparr> else t')"

definition ht_get :: "'o handle_table \<Rightarrow> handle_id \<Rightarrow> 'o handle_entry option" where
  "ht_get t i = entries t i"

definition ht_close :: "'o handle_table \<Rightarrow> handle_id \<Rightarrow> (invocation_error + unit) \<times> 'o handle_table" where
  "ht_close t i =
    (case entries t i of
       Some _ \<Rightarrow> (Inr (), t\<lparr>entries := (entries t)(i := None)\<rparr>)
     | None \<Rightarrow> (Inl InvalidHandle, t))"

definition resolve_entry ::
  "'o handle_table \<Rightarrow> handle_id \<Rightarrow> access_rights \<Rightarrow> invocation_error + 'o handle_entry" where
  "resolve_entry t i required =
    (case entries t i of
       None \<Rightarrow> Inl InvalidHandle
     | Some e \<Rightarrow> if \<not> flags_contains (rights e) required then Inl AccessDenied else Inr e)"

definition resolve ::
  "'o handle_table \<Rightarrow> handle_id \<Rightarrow> access_rights \<Rightarrow> invocation_error + 'o" where
  "resolve t i required =
    (case resolve_entry t i required of Inl e \<Rightarrow> Inl e | Inr en \<Rightarrow> Inr (object en))"

definition ht_duplicate ::
  "'o handle_table \<Rightarrow> handle_id \<Rightarrow> access_rights
     \<Rightarrow> (invocation_error + handle_id) \<times> 'o handle_table" where
  "ht_duplicate t i requested =
    (case entries t i of
       None \<Rightarrow> (Inl InvalidHandle, t)
     | Some e \<Rightarrow>
         if \<not> flags_contains (rights e) requested then (Inl AccessDenied, t)
         else (case ht_insert t (object e) requested of (h, t') \<Rightarrow> (Inr h, t')))"

definition proc_cpy_handle ::
  "'o handle_table \<Rightarrow> handle_id \<Rightarrow> 'o handle_table \<Rightarrow> access_rights \<Rightarrow> handle_id option
     \<Rightarrow> (invocation_error + handle_id) \<times> 'o handle_table" where
  "proc_cpy_handle src src_handle dst dst_rights dst_handle =
    (case ht_get src src_handle of
       Some entry \<Rightarrow>
         (case dst_handle of
            Some i \<Rightarrow> (Inr i, ht_insert_at dst i (object entry) dst_rights)
          | None \<Rightarrow>
              (case ht_insert dst (object entry) dst_rights of (h, dst') \<Rightarrow> (Inr h, dst')))
     | None \<Rightarrow> (Inl PathNotFound, dst))"

text \<open>
  \<^verbatim>\<open>kernel_invoke\<close>: the entry is resolved with the rights the invocation demands, and
  the object's handler runs with the rights of the entry. The handler is the code of the
  object class, so it is an argument.
\<close>

definition kernel_invoke ::
  "('o \<Rightarrow> invocation \<Rightarrow> access_rights \<Rightarrow> 's \<Rightarrow> (invocation_error + u64) \<times> 's)
     \<Rightarrow> 'o handle_table \<Rightarrow> handle_id \<Rightarrow> invocation \<Rightarrow> 's \<Rightarrow> (invocation_error + u64) \<times> 's" where
  "kernel_invoke obj_invoke t handle invo s =
    (case resolve_entry t handle (required_rights invo) of
       Inl e \<Rightarrow> (Inl e, s)
     | Inr en \<Rightarrow> obj_invoke (object en) invo (rights en) s)"

section \<open>Table invariant and authority\<close>

definition ht_inv :: "'o handle_table \<Rightarrow> bool" where
  "ht_inv t \<longleftrightarrow> (\<forall>i \<in> dom (entries t). i < next_id t)"

definition authority :: "'o handle_table \<Rightarrow> ('o \<times> access_rights) set" where
  "authority t = {(ob, r). \<exists>i e. entries t i = Some e \<and> object e = ob \<and> flags_contains (rights e) r}"

lemma ht_inv_new: "ht_inv handle_table_new"
  by (simp add: ht_inv_def handle_table_new_def)

lemma authority_entries:
  "authority t =
     (\<Union>(r, ob) \<in> ran (\<lambda>i. map_option (\<lambda>e. (rights e, object e)) (entries t i)).
        {(ob, r') |r'. flags_contains r r'})"
  by (fastforce simp: authority_def ran_def)

section \<open>The contract of a capability table\<close>

locale capability_table =
  fixes lookup :: "'t \<Rightarrow> handle_id \<Rightarrow> (access_rights \<times> 'o) option"
    and ins :: "'t \<Rightarrow> 'o \<Rightarrow> access_rights \<Rightarrow> handle_id \<times> 't"
    and del :: "'t \<Rightarrow> handle_id \<Rightarrow> (invocation_error + unit) \<times> 't"
    and inv :: "'t \<Rightarrow> bool"
    and room :: "'t \<Rightarrow> bool"
  assumes ins_fresh: "inv t \<Longrightarrow> lookup t (fst (ins t ob r)) = None"
    and ins_lookup: "lookup (snd (ins t ob r)) = (lookup t)(fst (ins t ob r) \<mapsto> (r, ob))"
    and ins_inv: "inv t \<Longrightarrow> room t \<Longrightarrow> inv (snd (ins t ob r))"
    and del_lookup: "lookup (snd (del t i)) = (lookup t)(i := None)"
    and del_result: "fst (del t i) = (if lookup t i = None then Inl InvalidHandle else Inr ())"
    and del_inv: "inv t \<Longrightarrow> inv (snd (del t i))"
begin

definition auth :: "'t \<Rightarrow> ('o \<times> access_rights) set" where
  "auth t = {(ob, r'). \<exists>i r. lookup t i = Some (r, ob) \<and> flags_contains r r'}"

lemma auth_ins:
  assumes "inv t"
  shows "auth (snd (ins t ob r)) = auth t \<union> {(ob, r') |r'. flags_contains r r'}"
  using ins_fresh [OF assms, of ob r]
  by (auto simp: auth_def ins_lookup split: if_splits) (metis option.distinct(1))

lemma auth_del: "auth (snd (del t i)) \<subseteq> auth t"
  by (auto simp: auth_def del_lookup split: if_splits)

text \<open>A derived handle with rights the source contains adds no authority.\<close>

lemma auth_ins_attenuated:
  assumes "inv t" and "lookup t i = Some (r, ob)" and "flags_contains r r'"
  shows "auth (snd (ins t ob r')) = auth t"
proof -
  have "{(ob, q) |q. flags_contains r' q} \<subseteq> auth t"
    using assms(2,3) bitflags.contains_trans by (fastforce simp: auth_def)
  then show ?thesis using auth_ins [OF assms(1)] by auto
qed

lemma ins_preserves_others:
  assumes "inv t" and "lookup t i = Some x"
  shows "lookup (snd (ins t ob r)) i = Some x"
  using assms ins_fresh [OF assms(1), of ob r] by (auto simp: ins_lookup)

end

definition ht_lookup :: "'o handle_table \<Rightarrow> handle_id \<Rightarrow> (access_rights \<times> 'o) option" where
  "ht_lookup t i = map_option (\<lambda>e. (rights e, object e)) (ht_get t i)"

definition ht_room :: "'o handle_table \<Rightarrow> bool" where
  "ht_room t \<longleftrightarrow> next_id t + 1 \<noteq> 0"

interpretation ht: capability_table ht_lookup ht_insert ht_close ht_inv ht_room
proof (unfold_locales, goal_cases)
  case (1 t ob r)
  then show ?case
    by (auto simp: ht_insert_def ht_lookup_def ht_get_def ht_inv_def Let_def dom_def)
next
  case (3 t ob r)
  then show ?case
    by (auto simp: ht_insert_def ht_inv_def ht_room_def Let_def intro: word_less_succ)
qed (auto simp: ht_insert_def ht_lookup_def ht_get_def ht_close_def ht_inv_def Let_def
       fun_eq_iff split: option.splits)

lemma ht_auth_eq: "ht.auth t = authority t"
  by (auto simp: ht.auth_def authority_def ht_lookup_def ht_get_def)

section \<open>Sequences of handle operations\<close>

text \<open>
  What a thread can do to its own table without creating objects:
  \<^verbatim>\<open>kernel_duplicate\<close> and \<^verbatim>\<open>kernel_close\<close> in any order.
\<close>

datatype handle_op = OpDuplicate handle_id access_rights | OpClose handle_id

fun handle_step :: "'o handle_table \<Rightarrow> handle_op \<Rightarrow> 'o handle_table" where
  "handle_step t (OpDuplicate i r) = snd (ht_duplicate t i r)"
| "handle_step t (OpClose i) = snd (ht_close t i)"

definition run_handle_ops :: "'o handle_table \<Rightarrow> handle_op list \<Rightarrow> 'o handle_table" where
  "run_handle_ops t ops = fold (\<lambda>x t. handle_step t x) ops t"

lemma authority_insert_subset:
  "authority (snd (ht_insert t ob r)) \<subseteq> authority t \<union> {(ob, r') |r'. flags_contains r r'}"
  by (auto simp: authority_def ht_insert_def Let_def split: if_splits)

lemma authority_insert_at_subset:
  "authority (ht_insert_at t i ob r) \<subseteq> authority t \<union> {(ob, r') |r'. flags_contains r r'}"
  by (auto simp: authority_def ht_insert_at_def Let_def split: if_splits)

lemma authority_close_subset: "authority (snd (ht_close t i)) \<subseteq> authority t"
  using ht.auth_del [of t i] by (simp add: ht_auth_eq)

lemma resolve_authority:
  "resolve t i r = Inr ob \<Longrightarrow> {(ob, r') |r'. flags_contains r r'} \<subseteq> authority t"
  by (fastforce simp: resolve_def resolve_entry_def authority_def
      split: option.splits if_splits dest: bitflags.contains_trans)

lemma authority_duplicate_subset: "authority (snd (ht_duplicate t i r)) \<subseteq> authority t"
proof (cases "entries t i")
  case None
  then show ?thesis by (simp add: ht_duplicate_def)
next
  case (Some e)
  show ?thesis
  proof (cases "flags_contains (rights e) r")
    case True
    have "{(object e, r') |r'. flags_contains r r'} \<subseteq> authority t"
      using Some True bitflags.contains_trans by (fastforce simp: authority_def)
    then have "authority (snd (ht_insert t (object e) r)) \<subseteq> authority t"
      using authority_insert_subset [of t "object e" r] by blast
    with Some True show ?thesis by (simp add: ht_duplicate_def case_prod_beta)
  next
    case False
    with Some show ?thesis by (simp add: ht_duplicate_def)
  qed
qed

lemma authority_step_subset: "authority (handle_step t x) \<subseteq> authority t"
  by (cases x) (simp_all add: authority_duplicate_subset authority_close_subset)

text \<open>
  C4. No sequence of duplications and closes gives a process authority it did not have:
  every object/rights pair its table can exercise afterwards was exercisable before.
\<close>

theorem handle_ops_no_amplification: "authority (run_handle_ops t ops) \<subseteq> authority t"
  unfolding run_handle_ops_def
proof (induction ops arbitrary: t)
  case Nil
  show ?case by simp
next
  case (Cons x ops)
  have "authority (fold (\<lambda>x t. handle_step t x) ops (handle_step t x)) \<subseteq> authority t"
    using Cons.IH [of "handle_step t x"] authority_step_subset [of t x] by blast
  then show ?case by simp
qed

text \<open>
  Duplicating a handle succeeds exactly when the handle exists and carries the
  requested rights; the new id was unused, resolves to the same object with exactly the
  requested rights, every other handle is unchanged and the table invariant is kept, as
  long as the 64-bit id counter has not wrapped.
\<close>

theorem ht_duplicate_correct:
  assumes "ht_inv t" and "ht_room t"
  shows "case ht_duplicate t i r of
           (Inl e, t') \<Rightarrow> t' = t \<and>
             (e = InvalidHandle \<and> ht_get t i = None \<or>
              e = AccessDenied \<and> (\<exists>en. ht_get t i = Some en \<and> \<not> flags_contains (rights en) r))
         | (Inr h, t') \<Rightarrow> ht_inv t' \<and> ht_get t h = None \<and>
             (\<exists>en. ht_get t i = Some en \<and> flags_contains (rights en) r \<and>
                ht_get t' = (ht_get t)(h \<mapsto> \<lparr>rights = r, object = object en\<rparr>))"
proof (cases "ht_get t i")
  case None
  then show ?thesis by (simp add: ht_duplicate_def ht_get_def)
next
  case (Some en)
  show ?thesis
  proof (cases "flags_contains (rights en) r")
    case True
    have fresh: "ht_get t (next_id t) = None"
      using assms(1) by (auto simp: ht_inv_def ht_get_def dom_def)
    have "ht_inv (snd (ht_insert t (object en) r))"
      using assms by (rule ht.ins_inv)
    with Some True fresh show ?thesis
      by (simp add: ht_duplicate_def ht_get_def ht_insert_def Let_def fun_eq_iff)
  next
    case False
    with Some show ?thesis by (simp add: ht_duplicate_def ht_get_def)
  qed
qed

definition demo_table :: "nat handle_table" where
  "demo_table = snd (ht_insert handle_table_new 7 (READ OR WRITE))"

theorem ht_duplicate_correct_witness:
  "ht_inv demo_table \<and> ht_room demo_table \<and>
   (case ht_duplicate demo_table 1 READ of
      (Inl e, t') \<Rightarrow> False
    | (Inr h, t') \<Rightarrow> h = 2 \<and> ht_get demo_table h = None \<and>
        ht_get t' h = Some \<lparr>rights = READ, object = 7\<rparr>)"
proof -
  have inv: "ht_inv demo_table" and room: "ht_room demo_table"
    by (auto simp: demo_table_def ht_insert_def handle_table_new_def ht_inv_def ht_room_def Let_def)
  have "flags_contains (READ OR WRITE) READ" by (simp add: flags_contains_def rights_defs)
  then show ?thesis
    using inv room ht_duplicate_correct [OF inv room, of 1 READ]
    by (auto simp: ht_duplicate_def demo_table_def ht_insert_def handle_table_new_def
        ht_get_def Let_def)
qed

section \<open>The handle table of a new process\<close>

text \<open>
  The handle part of \<^verbatim>\<open>ProcManOp::Spawn\<close>. \<open>read_grants\<close> is the copy of the grant array
  from user memory (\<open>None\<close> when \<^verbatim>\<open>safe_copy_from\<close> fails) and \<open>self_obj\<close> the process
  object itself, inserted at id 1 after the process has been created.
\<close>

record handle_grant =
  hg_id :: handle_id
  hg_rights :: access_rights
  hg_tag :: u64

fun grant_all ::
  "'o handle_table \<Rightarrow> handle_grant list \<Rightarrow> 'o handle_table \<Rightarrow> handle_grant list
     \<Rightarrow> invocation_error + ('o handle_table \<times> handle_grant list)" where
  "grant_all parent [] child acc = Inr (child, rev acc)"
| "grant_all parent (g # gs) child acc =
    (case resolve parent (hg_id g) (hg_rights g) of
       Inl _ \<Rightarrow> Inl InvalidHandle
     | Inr ob \<Rightarrow>
         (case ht_insert child ob (hg_rights g) of
            (h, child') \<Rightarrow>
              grant_all parent gs child'
                (\<lparr>hg_id = h, hg_rights = hg_rights g, hg_tag = hg_tag g\<rparr> # acc)))"

definition insert_if_resolved ::
  "'o handle_table \<Rightarrow> handle_id \<Rightarrow> access_rights \<Rightarrow> handle_id \<Rightarrow> 'o handle_table \<Rightarrow> 'o handle_table" where
  "insert_if_resolved parent src required slot child =
    (case resolve parent src required of
       Inr ob \<Rightarrow> ht_insert_at child slot ob required
     | Inl _ \<Rightarrow> child)"

definition spawn_table ::
  "(u64 \<Rightarrow> u64 \<Rightarrow> handle_grant list option) \<Rightarrow> 'o \<Rightarrow> 'o handle_table \<Rightarrow> handle_id
     \<Rightarrow> access_rights \<Rightarrow> handle_id \<Rightarrow> handle_id \<Rightarrow> u64 \<Rightarrow> u64
     \<Rightarrow> invocation_error + ('o handle_table \<times> handle_grant list)" where
  "spawn_table read_grants self_obj parent root_handle root_rights source sink extra_ptr extra_len =
    (case resolve parent root_handle root_rights of
       Inl e \<Rightarrow> Inl e
     | Inr root \<Rightarrow>
         (let t0 = ht_insert_at handle_table_new 0 root root_rights;
              t1 = insert_if_resolved parent source READ 2 t0;
              t2 = insert_if_resolved parent sink WRITE 3 t1;
              granted =
                (if 0 < extra_len
                 then (case read_grants extra_ptr extra_len of
                         None \<Rightarrow> Inl InvalidPointer
                       | Some gs \<Rightarrow> grant_all parent gs t2 [])
                 else Inr (t2, []))
          in case granted of
               Inl e \<Rightarrow> Inl e
             | Inr (t3, child_extra) \<Rightarrow>
                 Inr (ht_insert_at t3 1 self_obj (READ OR WRITE OR MUTATE), child_extra)))"

lemma grant_all_authority:
  "grant_all parent gs child acc = Inr (child', out) \<Longrightarrow>
     authority child' \<subseteq> authority child \<union> authority parent"
proof (induction parent gs child acc rule: grant_all.induct)
  case (1 parent child acc)
  then show ?case by simp
next
  case (2 parent g gs child acc)
  then obtain ob where ob: "resolve parent (hg_id g) (hg_rights g) = Inr ob"
    by (auto split: sum.splits)
  let ?t = "ht_insert child ob (hg_rights g)"
  have "authority child' \<subseteq> authority (snd ?t) \<union> authority parent"
    using 2 ob by (auto split: prod.splits)
  moreover have "authority (snd ?t) \<subseteq> authority child \<union> authority parent"
    using authority_insert_subset [of child ob "hg_rights g"] resolve_authority [OF ob] by blast
  ultimately show ?case by blast
qed

lemma insert_if_resolved_authority:
  "authority (insert_if_resolved parent src req slot child) \<subseteq> authority child \<union> authority parent"
proof (cases "resolve parent src req")
  case (Inr ob)
  then show ?thesis
    using authority_insert_at_subset [of child slot ob req] resolve_authority [OF Inr]
    by (auto simp: insert_if_resolved_def)
qed (simp add: insert_if_resolved_def)

lemma authority_new [simp]: "authority handle_table_new = {}"
  by (simp add: authority_def handle_table_new_def)

text \<open>
  C5. A spawned process starts with no more authority than its parent holds, apart from
  the handle to itself: every right in the child's initial table on any other object is
  one the parent's table could exercise.
\<close>

theorem spawn_attenuates:
  assumes "spawn_table rg self parent rooth rootr source sink ptr len = Inr (child, gs)"
  shows "authority child \<subseteq>
           authority parent \<union> {(self, r) |r. flags_contains (READ OR WRITE OR MUTATE) r}"
proof -
  from assms obtain root where root: "resolve parent rooth rootr = Inr root"
    by (auto simp: spawn_table_def split: sum.splits)
  define t0 where "t0 = ht_insert_at handle_table_new 0 root rootr"
  define t1 where "t1 = insert_if_resolved parent source READ 2 t0"
  define t2 where "t2 = insert_if_resolved parent sink WRITE 3 t1"
  have "authority t0 \<subseteq> authority parent"
    using authority_insert_at_subset [of handle_table_new 0 root rootr] resolve_authority [OF root]
    by (auto simp: t0_def)
  then have t2: "authority t2 \<subseteq> authority parent"
    using insert_if_resolved_authority [of parent source READ 2 t0]
      insert_if_resolved_authority [of parent sink WRITE 3 t1]
    unfolding t2_def t1_def by blast
  from assms root obtain t3 where
    t3: "t3 = t2 \<or> (\<exists>gs'. grant_all parent gs' t2 [] = Inr (t3, gs))"
    and child: "child = ht_insert_at t3 1 self (READ OR WRITE OR MUTATE)"
    by (auto simp: spawn_table_def Let_def t0_def t1_def t2_def
        split: sum.splits prod.splits option.splits if_splits)
  have "authority t3 \<subseteq> authority parent"
    using t3 t2 grant_all_authority by blast
  with child authority_insert_at_subset [of t3 1 self "READ OR WRITE OR MUTATE"]
  show ?thesis by blast
qed

definition demo_parent :: "nat handle_table" where
  "demo_parent = snd (ht_insert (snd (ht_insert handle_table_new 10 (READ OR WRITE))) 11 READ)"

definition demo_grants :: "u64 \<Rightarrow> u64 \<Rightarrow> handle_grant list option" where
  "demo_grants ptr len = Some [\<lparr>hg_id = 2, hg_rights = READ, hg_tag = 4096\<rparr>]"

lemmas spawn_eval = demo_parent_def demo_grants_def spawn_table_def insert_if_resolved_def
  ht_insert_def ht_insert_at_def handle_table_new_def resolve_def resolve_entry_def
  flags_contains_def rights_defs Let_def

theorem spawn_attenuates_witness:
  "\<exists>child gs. spawn_table demo_grants 99 demo_parent 1 READ 2 1 64 1 = Inr (child, gs) \<and>
     authority child \<subseteq>
       authority demo_parent \<union> {(99, r) |r. flags_contains (READ OR WRITE OR MUTATE) r}"
proof -
  obtain child gs where
    run: "spawn_table demo_grants 99 demo_parent 1 READ 2 1 64 1 = Inr (child, gs)"
    by (simp add: spawn_eval)
  with spawn_attenuates [OF run] show ?thesis by blast
qed

lemma ht_insert_next: "next_id (snd (ht_insert t ob r)) = next_id t + 1"
  by (simp add: ht_insert_def Let_def)

lemma ht_insert_fst: "fst (ht_insert t ob r) = next_id t"
  by (simp add: ht_insert_def Let_def)

text \<open>
  The grants handed to the child: each gets a fresh id above the ids in use, with the
  granted rights, and nothing already in the table changes.
\<close>

lemma grant_all_installs:
  assumes "grant_all parent gs child acc = Inr (child', out)" and "ht_inv child"
    and "unat (next_id child) + length gs < 2 ^ 64"
  shows "\<exists>new. out = rev acc @ new \<and> entries child \<subseteq>\<^sub>m entries child' \<and>
           (\<forall>g \<in> set new. next_id child \<le> hg_id g \<and>
              (\<exists>e. entries child' (hg_id g) = Some e \<and> rights e = hg_rights g))"
  using assms
proof (induction parent gs child acc rule: grant_all.induct)
  case (1 parent child acc)
  then show ?case by simp
next
  case (2 parent g gs child acc)
  then obtain ob where ob: "resolve parent (hg_id g) (hg_rights g) = Inr ob"
    by (auto split: sum.splits)
  define ins where "ins = ht_insert child ob (hg_rights g)"
  define h where "h = fst ins"
  define t where "t = snd ins"
  define g' where "g' = \<lparr>hg_id = h, hg_rights = hg_rights g, hg_tag = hg_tag g\<rparr>"
  have ins: "ht_insert child ob (hg_rights g) = (h, t)" by (simp add: h_def t_def ins_def)
  have h: "h = next_id child" and n: "next_id t = next_id child + 1"
    by (simp_all add: h_def t_def ins_def ht_insert_fst ht_insert_next)
  have bound: "Suc (unat (next_id child)) < 2 ^ 64" using "2.prems"(3) by simp
  then have room: "ht_room child" using succ_nonzero [of "next_id child"] by (simp add: ht_room_def)
  have unat_n: "unat (next_id t) = Suc (unat (next_id child))"
    using bound unat_succ_bound [of "next_id child"] by (simp add: n)
  have inv: "ht_inv t" using ht.ins_inv [OF "2.prems"(2) room] by (simp add: t_def ins_def)
  have sub: "entries child \<subseteq>\<^sub>m entries t"
    using "2.prems"(2) by (auto simp: map_le_def t_def ins_def ht_insert_def Let_def ht_inv_def)
  have hent: "entries t h = Some \<lparr>rights = hg_rights g, object = ob\<rparr>"
    by (simp add: t_def h_def ins_def ht_insert_def Let_def)
  from "2.IH" [OF ob ins [symmetric]] "2.prems" ob ins inv unat_n
  obtain new where new: "out = rev (g' # acc) @ new" "entries t \<subseteq>\<^sub>m entries child'"
    "\<forall>q \<in> set new. next_id t \<le> hg_id q \<and>
       (\<exists>e. entries child' (hg_id q) = Some e \<and> rights e = hg_rights q)"
    by (auto simp: g'_def)
  have hin: "entries child' h = Some \<lparr>rights = hg_rights g, object = ob\<rparr>"
    using new(2) hent by (metis domI map_le_def)
  have le: "next_id child \<le> next_id t" using unat_n by (simp add: word_le_nat_alt)
  show ?case
    by (rule exI [of _ "g' # new"])
      (use new sub hin le h in \<open>auto simp: g'_def intro: map_le_trans order_trans\<close>)
qed

lemma ht_inv_insert_at: "ht_inv t \<Longrightarrow> i + 1 \<noteq> 0 \<Longrightarrow> ht_inv (ht_insert_at t i ob r)"
proof -
  assume inv: "ht_inv t" and i: "i + 1 \<noteq> 0"
  have *: "j < i + 1" if "entries t j = Some e" "next_id t \<le> i" for j e
    using that i inv unfolding ht_inv_def by (meson domI less_le_trans word_less_succ)
  show ?thesis
    using inv i by (auto simp: ht_inv_def ht_insert_at_def Let_def word_less_succ intro: *)
qed

lemma ht_inv_insert_if_resolved:
  "ht_inv t \<Longrightarrow> slot + 1 \<noteq> 0 \<Longrightarrow> ht_inv (insert_if_resolved parent src req slot t)"
  by (auto simp: insert_if_resolved_def ht_inv_insert_at split: sum.splits)

text \<open>
  When the parent's sink handle resolves, every grant reported to the child is a
  working handle of the child's final table carrying exactly the granted rights (for any
  number of grants that fits the 64-bit id space).
\<close>

theorem spawn_grants_usable:
  assumes "spawn_table rg self parent rooth rootr source sink ptr len = Inr (child, gs)"
    and "resolve parent sink WRITE = Inr sinkobj"
    and "\<And>xs. rg ptr len = Some xs \<Longrightarrow> length xs + 4 < 2 ^ 64"
    and "g \<in> set gs"
  shows "\<exists>e. ht_get child (hg_id g) = Some e \<and> rights e = hg_rights g"
proof -
  from assms(1) obtain root where root: "resolve parent rooth rootr = Inr root"
    by (auto simp: spawn_table_def split: sum.splits)
  define t0 where "t0 = ht_insert_at handle_table_new 0 root rootr"
  define t1 where "t1 = insert_if_resolved parent source READ 2 t0"
  define t2 where "t2 = insert_if_resolved parent sink WRITE 3 t1"
  have "next_id t0 = 1" by (simp add: t0_def ht_insert_at_def handle_table_new_def Let_def)
  then have "next_id t1 \<le> 3"
    by (auto simp: t1_def insert_if_resolved_def ht_insert_at_def Let_def split: sum.splits)
  then have n2: "next_id t2 = 4"
    using assms(2) by (simp add: t2_def insert_if_resolved_def ht_insert_at_def Let_def)
  have inv: "ht_inv t2"
    unfolding t2_def t1_def t0_def
    by (intro ht_inv_insert_if_resolved ht_inv_insert_at ht_inv_new) simp_all
  from assms(1,4) root obtain t3 xs where
    grants: "rg ptr len = Some xs" "grant_all parent xs t2 [] = Inr (t3, gs)"
    and child: "child = ht_insert_at t3 1 self (READ OR WRITE OR MUTATE)"
    by (auto simp: spawn_table_def Let_def t0_def t1_def t2_def
        split: sum.splits prod.splits option.splits if_splits)
  have "unat (next_id t2) + length xs < 2 ^ 64"
    using assms(3) [OF grants(1)] n2 by simp
  from grant_all_installs [OF grants(2) inv this] assms(4) n2
  obtain e where "4 \<le> hg_id g" and e: "entries t3 (hg_id g) = Some e" "rights e = hg_rights g"
    by auto
  then have "hg_id g \<noteq> 1" by (auto simp: word_le_nat_alt)
  with e child show ?thesis
    by (auto simp: ht_get_def ht_insert_at_def Let_def)
qed

theorem spawn_grants_usable_witness:
  "\<exists>child gs g. spawn_table demo_grants 99 demo_parent 1 READ 2 1 64 1 = Inr (child, gs) \<and>
     resolve demo_parent 1 WRITE = Inr 10 \<and> g \<in> set gs \<and>
     (\<exists>e. ht_get child (hg_id g) = Some e \<and> rights e = hg_rights g)"
proof -
  have "\<exists>child g. spawn_table demo_grants 99 demo_parent 1 READ 2 1 64 1 = Inr (child, [g])"
    by (simp add: spawn_eval)
  then obtain child g where
    run: "spawn_table demo_grants 99 demo_parent 1 READ 2 1 64 1 = Inr (child, [g])" by blast
  have sink: "resolve demo_parent 1 WRITE = Inr 10" by (simp add: spawn_eval)
  have "\<exists>e. ht_get child (hg_id g) = Some e \<and> rights e = hg_rights g"
    by (rule spawn_grants_usable [OF run sink]) (auto simp: demo_grants_def)
  with run sink show ?thesis by (metis list.set_intros(1))
qed

lemma grant_all_prefix:
  "grant_all parent gs child acc = Inr (child', out) \<Longrightarrow> \<exists>new. out = rev acc @ new"
  by (induction parent gs child acc rule: grant_all.induct)
    (fastforce split: sum.splits prod.splits)+

lemma grant_all_first_id:
  assumes "grant_all parent (g # gs) child [] = Inr (child', out)"
  shows "hg_id (hd out) = next_id child"
proof -
  from assms obtain ob where
    "grant_all parent gs (snd (ht_insert child ob (hg_rights g)))
       [\<lparr>hg_id = next_id child, hg_rights = hg_rights g, hg_tag = hg_tag g\<rparr>] = Inr (child', out)"
    by (auto simp: case_prod_beta ht_insert_fst split: sum.splits)
  from grant_all_prefix [OF this] show ?thesis by auto
qed

text \<open>
  When neither the source nor the sink handle resolves, the id counter still stands
  at 1 when the grants are installed: the first grant is reported to the child as id 1,
  but in the child's final table id 1 is the handle to the process itself.
\<close>

theorem spawn_first_grant_clobbered:
  assumes "spawn_table rg self parent rooth rootr source sink ptr len = Inr (child, gs)"
    and "resolve parent source READ = Inl e1" and "resolve parent sink WRITE = Inl e2"
    and "0 < len" and "rg ptr len = Some (g # xs)"
  shows "hg_id (hd gs) = 1 \<and>
         ht_get child 1 = Some \<lparr>rights = READ OR WRITE OR MUTATE, object = self\<rparr>"
proof -
  from assms(1) obtain root where root: "resolve parent rooth rootr = Inr root"
    by (auto simp: spawn_table_def split: sum.splits)
  define t0 where "t0 = ht_insert_at handle_table_new 0 root rootr"
  have n0: "next_id t0 = 1" by (simp add: t0_def ht_insert_at_def handle_table_new_def Let_def)
  from assms root obtain t3 where
    g: "grant_all parent (g # xs) t0 [] = Inr (t3, gs)"
    and child: "child = ht_insert_at t3 1 self (READ OR WRITE OR MUTATE)"
    by (auto simp: spawn_table_def insert_if_resolved_def Let_def t0_def
        simp del: grant_all.simps split: sum.splits)
  show ?thesis
    using grant_all_first_id [OF g] n0 child by (simp add: ht_get_def ht_insert_at_def Let_def)
qed

theorem spawn_first_grant_clobbered_witness:
  "\<exists>child gs. spawn_table demo_grants 99 demo_parent 1 READ 50 51 64 1 = Inr (child, gs) \<and>
     resolve demo_parent 2 READ = Inr 11 \<and> hg_id (hd gs) = 1 \<and>
     ht_get child 1 = Some \<lparr>rights = READ OR WRITE OR MUTATE, object = 99\<rparr>"
proof -
  obtain child gs where
    run: "spawn_table demo_grants 99 demo_parent 1 READ 50 51 64 1 = Inr (child, gs)"
    by (simp add: spawn_eval)
  have "resolve demo_parent 50 READ = Inl InvalidHandle"
    "resolve demo_parent 51 WRITE = Inl InvalidHandle" "resolve demo_parent 2 READ = Inr 11"
    by (simp_all add: spawn_eval)
  with spawn_first_grant_clobbered [OF run, of InvalidHandle InvalidHandle] run show ?thesis
    by (auto simp: demo_grants_def)
qed

end
