(* ===== verification/Directory.thy ===== *)
theory Directory
  imports Handles Usermem Frames Bytes "HOL-Library.List_Lexorder"
begin

text \<open>
  Directories and path walks: \<^verbatim>\<open>core/object/models/directory.rs\<close>, the directory packets of
  \<^verbatim>\<open>lib/vespertine-abi/src/protocol.rs\<close> and \<^verbatim>\<open>kernel_walk\<close> in \<^verbatim>\<open>core/object/vfs.rs\<close>. A world is
  the handle table of the calling process, the directories of the system (ordered maps from
  names to objects) and memory. An object is a directory of this kind or something else,
  whose handler is an argument where it matters.
\<close>

section \<open>Objects and the world\<close>

datatype kobj =
    KDirectory nat
  | KFile nat
  | KVmo nat
  | KPool "nat list"
  | KMemoryManager
  | KProcess nat
  | KProcessManager
  | KThread nat
  | KSocket nat
  | KSocketFactory
  | KClock
  | KExtDir nat
  | KExtFile nat

fun type_name :: "kobj \<Rightarrow> string" where
  "type_name (KDirectory _) = ''Directory''"
| "type_name (KFile _) = ''File''"
| "type_name (KVmo _) = ''VMO''"
| "type_name (KPool _) = ''MemPool''"
| "type_name KMemoryManager = ''Memory Manager''"
| "type_name (KProcess _) = ''Process''"
| "type_name KProcessManager = ''Process Manager''"
| "type_name (KThread _) = ''Thread''"
| "type_name (KSocket _) = ''Socket''"
| "type_name KSocketFactory = ''SocketFactory''"
| "type_name KClock = ''Clock''"
| "type_name (KExtDir _) = ''Directory''"
| "type_name (KExtFile _) = ''File''"

type_synonym filename = "u8 list"

record world =
  handles :: "kobj handle_table"
  dirs :: "nat \<Rightarrow> (filename \<times> kobj) list"
  wmem :: umem

definition FILENAME_LEN_MAX :: u64 where
  "FILENAME_LEN_MAX = 254"

definition filename_new :: "umem \<Rightarrow> u64 \<Rightarrow> u64 \<Rightarrow> (invocation_error + filename) run" where
  "filename_new m ptr len =
    (if FILENAME_LEN_MAX < len then ret (Inl NameTooLong)
     else do { (copied, bs) \<leftarrow> safe_copy_from m ptr len;
               ret (if \<not> copied then Inl InvalidPointer
                    else if utf8_valid bs then Inr bs else Inl InvalidArgument) })"

section \<open>Operations of a directory\<close>

definition dir_link :: "nat \<Rightarrow> filename \<Rightarrow> handle_id \<Rightarrow> world \<Rightarrow> (invocation_error + u64) \<times> world" where
  "dir_link d nm h w =
    (case ht_get (handles w) h of
       None \<Rightarrow> (Inl InvalidHandle, w)
     | Some en \<Rightarrow> (Inr 0, w\<lparr>dirs := (dirs w)(d := bt_insert nm (object en) (dirs w d))\<rparr>))"

definition dir_unlink :: "nat \<Rightarrow> filename \<Rightarrow> world \<Rightarrow> (invocation_error + u64) \<times> world" where
  "dir_unlink d nm w = (Inr 0, w\<lparr>dirs := (dirs w)(d := bt_remove nm (dirs w d))\<rparr>)"

definition lookup_rights :: "access_rights \<Rightarrow> access_rights" where
  "lookup_rights rs = rs AND (MUTATE OR READ OR WRITE OR CREATE OR EXECUTE)"

definition dir_lookup :: "nat \<Rightarrow> filename \<Rightarrow> access_rights \<Rightarrow> world \<Rightarrow> (invocation_error + u64) \<times> world" where
  "dir_lookup d nm calling w =
    (case map_of (dirs w d) nm of
       None \<Rightarrow> (Inl PathNotFound, w)
     | Some ob \<Rightarrow> (case ht_insert (handles w) ob (lookup_rights calling) of (h, t) \<Rightarrow> (Inr h, w\<lparr>handles := t\<rparr>)))"

text \<open>An operation that takes its name from the caller's memory.\<close>

definition with_name ::
  "u64 \<Rightarrow> u64 \<Rightarrow> (filename \<Rightarrow> world \<Rightarrow> (invocation_error + u64) \<times> world) \<Rightarrow> world \<Rightarrow> ((invocation_error + u64) \<times> world) run" where
  "with_name ptr len f w =
    do { r \<leftarrow> filename_new (wmem w) ptr len;
         ret (case r of Inl e \<Rightarrow> (Inl e, w) | Inr nm \<Rightarrow> f nm w) }"

section \<open>Listing\<close>

definition VESPER_MAGIC :: u32 where
  "VESPER_MAGIC = 0xc001ca75"

definition IS_STREAM :: u16 where
  "IS_STREAM = 2"

definition HAS_NEXT :: u16 where
  "HAS_NEXT = 4"

record dir_packet =
  packet_flags :: u16
  entry_type :: u8
  entry_name :: "u8 list"

definition entry_type_of :: "string \<Rightarrow> u8" where
  "entry_type_of tn = (if tn = ''Directory'' then 1 else if tn = ''File'' then 2 else 3)"

text \<open>
  The bytes of one packet: a header of magic, version, flags, type, payload length and a
  reserved word, padded to 24 bytes, then the type, the length and the 254 bytes of the name.
  \<open>pad\<close> is what the four bytes of structure padding hold.
\<close>

definition encode_packet :: "u8 list \<Rightarrow> dir_packet \<Rightarrow> u8 list" where
  "encode_packet pad p =
    le_bytes 4 VESPER_MAGIC @ le_bytes 2 (1 :: u16) @ le_bytes 2 (packet_flags p) @ le_bytes 4 (1 :: u32) @
    le_bytes 4 (256 :: u32) @ le_bytes 4 (0 :: u32) @ pad @
    [entry_type p, of_nat (length (entry_name p))] @ entry_name p @ replicate (254 - length (entry_name p)) 0"

fun list_packets :: "(filename \<times> kobj) list \<Rightarrow> dir_packet list" where
  "list_packets [] = []"
| "list_packets ((nm, ob) # es) =
    \<lparr>packet_flags = (if es = [] then IS_STREAM else IS_STREAM OR HAS_NEXT),
     entry_type = entry_type_of (type_name ob), entry_name = take 254 nm\<rparr> # list_packets es"

text \<open>Every packet is written to the sink; the first write that fails ends the listing. \<open>sink\<close> is the sink's handler.\<close>

fun write_packets ::
  "(u8 list \<Rightarrow> 's \<Rightarrow> (invocation_error + u64) \<times> 's) \<Rightarrow> u8 list \<Rightarrow> dir_packet list \<Rightarrow> 's \<Rightarrow> (invocation_error + u64) \<times> 's" where
  "write_packets sink pad [] st = (Inr 0, st)"
| "write_packets sink pad (p # ps) st =
    (case sink (encode_packet pad p) st of
       (Inl e, st') \<Rightarrow> (Inl e, st')
     | (Inr _, st') \<Rightarrow> write_packets sink pad ps st')"

definition dir_list ::
  "(kobj \<Rightarrow> u8 list \<Rightarrow> world \<Rightarrow> (invocation_error + u64) \<times> world) \<Rightarrow> u8 list \<Rightarrow> nat \<Rightarrow> handle_id \<Rightarrow> world
     \<Rightarrow> (invocation_error + u64) \<times> world" where
  "dir_list obj_write pad d sink w =
    (case resolve (handles w) sink WRITE of
       Inl e \<Rightarrow> (Inl e, w)
     | Inr ob \<Rightarrow> write_packets (obj_write ob) pad (list_packets (dirs w d)) w)"

fun directory_invoke ::
  "(kobj \<Rightarrow> u8 list \<Rightarrow> world \<Rightarrow> (invocation_error + u64) \<times> world) \<Rightarrow> u8 list \<Rightarrow> nat \<Rightarrow> invocation \<Rightarrow> access_rights \<Rightarrow> world
     \<Rightarrow> ((invocation_error + u64) \<times> world) run" where
  "directory_invoke ow pad d (DirectoryInv (Link name len h)) rs w = with_name name len (\<lambda>nm. dir_link d nm h) w"
| "directory_invoke ow pad d (DirectoryInv (Unlink name len)) rs w = with_name name len (dir_unlink d) w"
| "directory_invoke ow pad d (DirectoryInv (Lookup name len)) rs w =
    (if FILENAME_LEN_MAX < len then ret (Inl NameTooLong, w) else with_name name len (\<lambda>nm. dir_lookup d nm rs) w)"
| "directory_invoke ow pad d (DirectoryInv (ListDir off sink)) rs w = ret (dir_list ow pad d sink w)"
| "directory_invoke ow pad d _ rs w = ret (Inl UnsupportedOperation, w)"

section \<open>Walking a path\<close>

definition SLASH :: u8 where
  "SLASH = 47"

fun split_slash :: "u8 list \<Rightarrow> u8 list list" where
  "split_slash [] = [[]]"
| "split_slash (c # cs) =
    (if c = SLASH then [] # split_slash cs
     else case split_slash cs of [] \<Rightarrow> [[c]] | x # xs \<Rightarrow> (c # x) # xs)"

definition skipped :: "u8 list \<Rightarrow> bool" where
  "skipped nm \<longleftrightarrow> nm = [] \<or> nm = [46] \<or> nm = [46, 46]"

text \<open>
  A lookup through a handle, as \<^verbatim>\<open>kernel_invoke\<close> dispatches it: the handle must carry the right to
  read; a directory looks the name up, and \<open>other\<close> is the handler of every other object. The name
  is a kernel string, so the copy of it cannot fail, but it can be too long.
\<close>

definition lookup_through ::
  "(kobj \<Rightarrow> filename \<Rightarrow> access_rights \<Rightarrow> world \<Rightarrow> (invocation_error + u64) \<times> world) \<Rightarrow> handle_id \<Rightarrow> filename \<Rightarrow> world
     \<Rightarrow> (invocation_error + u64) \<times> world" where
  "lookup_through other h nm w =
    (case resolve_entry (handles w) h (required_rights (DirectoryInv (Lookup 0 0))) of
       Inl e \<Rightarrow> (Inl e, w)
     | Inr en \<Rightarrow>
         (case object en of
            KDirectory d \<Rightarrow>
              if FILENAME_LEN_MAX < of_nat (length nm) then (Inl NameTooLong, w) else dir_lookup d nm (rights en) w
          | ob \<Rightarrow> other ob nm (rights en) w))"

fun walk_from ::
  "(kobj \<Rightarrow> filename \<Rightarrow> access_rights \<Rightarrow> world \<Rightarrow> (invocation_error + u64) \<times> world) \<Rightarrow> handle_id \<Rightarrow> u8 list list \<Rightarrow> handle_id
     \<Rightarrow> world \<Rightarrow> (invocation_error + handle_id) \<times> world" where
  "walk_from other start [] cur w = (Inr cur, w)"
| "walk_from other start (dir # ds) cur w =
    (if skipped dir then walk_from other start ds cur w
     else case lookup_through other cur dir w of
            (Inl e, w') \<Rightarrow> (Inl e, w')
          | (Inr h, w') \<Rightarrow>
              walk_from other start ds h
                (if cur \<noteq> start then w'\<lparr>handles := snd (ht_close (handles w') cur)\<rparr> else w'))"

definition kernel_walk ::
  "(kobj \<Rightarrow> filename \<Rightarrow> access_rights \<Rightarrow> world \<Rightarrow> (invocation_error + u64) \<times> world) \<Rightarrow> u8 list \<Rightarrow> handle_id \<Rightarrow> world
     \<Rightarrow> (invocation_error + handle_id) \<times> world" where
  "kernel_walk other path handle w =
    (let ds = split_slash path; start = (if hd ds = [] then 0 else handle)
     in walk_from other start ds start w)"

section \<open>What a walk finds\<close>

fun path_target :: "(nat \<Rightarrow> (filename \<times> kobj) list) \<Rightarrow> kobj \<Rightarrow> filename list \<Rightarrow> kobj option" where
  "path_target ds ob [] = Some ob"
| "path_target ds ob (nm # ns) =
    (case ob of
       KDirectory d \<Rightarrow> (case map_of (ds d) nm of Some ob' \<Rightarrow> path_target ds ob' ns | None \<Rightarrow> None)
     | _ \<Rightarrow> None)"

definition path_names :: "u8 list \<Rightarrow> filename list" where
  "path_names path = filter (\<lambda>nm. \<not> skipped nm) (split_slash path)"

lemma lookup_rights_id [simp]: "lookup_rights (lookup_rights rs) = lookup_rights rs"
  by (simp add: lookup_rights_def and.assoc)

lemma lookup_rights_read [simp]: "flags_contains (lookup_rights rs) READ = flags_contains rs READ"
proof -
  have "(rs AND (MUTATE OR READ OR WRITE OR CREATE OR EXECUTE)) AND READ = rs AND READ"
    by (rule bit_word_eqI) (auto simp: bit_simps)
  then show ?thesis by (simp add: flags_contains_def lookup_rights_def)
qed

lemma lookup_rights_sub: "flags_contains rs (lookup_rights rs)"
  by (auto simp: flags_contains_def lookup_rights_def bit_simps intro!: bit_word_eqI)

lemma lookup_through_dir:
  assumes "entries (handles w) h = Some en" and "object en = KDirectory d" and "flags_contains (rights en) READ"
    and "length nm \<le> 254" and "map_of (dirs w d) nm = Some ob"
  shows "lookup_through other h nm w =
    (Inr (next_id (handles w)), w\<lparr>handles := snd (ht_insert (handles w) ob (lookup_rights (rights en)))\<rparr>)"
proof -
  have "\<not> FILENAME_LEN_MAX < of_nat (length nm)"
    using assms(4) by (simp add: FILENAME_LEN_MAX_def word_less_nat_alt unsigned_of_nat take_bit_nat_eq_self)
  then show ?thesis using assms
    by (simp add: lookup_through_def resolve_entry_def dir_lookup_def ht_insert_def Let_def)
qed

lemma walk_from_law:
  assumes "ht_inv (handles w)" and "entries (handles w) cur = Some en" and "flags_contains (rights en) READ"
    and "start \<in> dom (entries (handles w))"
    and "path_target (dirs w) (object en) (filter (\<lambda>nm. \<not> skipped nm) ds) = Some target"
    and "\<forall>nm \<in> set ds. length nm \<le> 254" and "unat (next_id (handles w)) + length ds < 2 ^ 64"
  shows "\<exists>h w'. walk_from other start ds cur w = (Inr h, w') \<and> dirs w' = dirs w \<and>
    ht_inv (handles w') \<and> unat (next_id (handles w')) \<le> unat (next_id (handles w)) + length ds \<and>
    (if filter (\<lambda>nm. \<not> skipped nm) ds = [] then h = cur \<and> w' = w
     else next_id (handles w) \<le> h \<and>
       entries (handles w') = (if cur = start then entries (handles w) else (entries (handles w))(cur := None))
         (h \<mapsto> \<lparr>rights = lookup_rights (rights en), object = target\<rparr>))"
  using assms
proof (induction ds arbitrary: cur en w)
  case (Cons nm ds)
  let ?t = "handles w"
  show ?case
  proof (cases "skipped nm")
    case True
    then obtain h w' where "walk_from other start ds cur w = (Inr h, w')" "dirs w' = dirs w"
      "ht_inv (handles w')" "unat (next_id (handles w')) \<le> unat (next_id (handles w)) + length ds"
      "if filter (\<lambda>nm. \<not> skipped nm) ds = [] then h = cur \<and> w' = w
       else next_id (handles w) \<le> h \<and>
         entries (handles w') = (if cur = start then entries (handles w) else (entries (handles w))(cur := None))
           (h \<mapsto> \<lparr>rights = lookup_rights (rights en), object = target\<rparr>)"
      using Cons.IH [of w cur en] Cons.prems by auto
    then show ?thesis using True by (intro exI [of _ h] exI [of _ w']) simp
  next
    case False
    obtain d where d: "object en = KDirectory d" using Cons.prems(5) False by (auto split: kobj.splits)
    then obtain ob where ob: "map_of (dirs w d) nm = Some ob" "path_target (dirs w) ob (filter (\<lambda>nm. \<not> skipped nm) ds) = Some target"
      using Cons.prems(5) False by (auto split: option.splits)
    let ?h = "next_id ?t" and ?t1 = "snd (ht_insert ?t ob (lookup_rights (rights en)))"
    have lk: "lookup_through other cur nm w = (Inr ?h, w\<lparr>handles := ?t1\<rparr>)"
      using lookup_through_dir [OF Cons.prems(2) d Cons.prems(3) _ ob(1)] Cons.prems(6) by simp
    have nx: "unat (?h + 1) = unat ?h + 1"
      using Cons.prems(7) unat_add_lem [of ?h 1] by simp
    have lt: "?h < ?h + 1" by (simp add: word_less_nat_alt nx)
    have fresh: "entries ?t ?h = None" using Cons.prems(1) by (auto simp: ht_inv_def)
    have ne: "cur \<noteq> ?h" "start \<noteq> ?h" using fresh Cons.prems(2,4) by auto
    define t2 where "t2 = (if cur \<noteq> start then snd (ht_close ?t1 cur) else ?t1)"
    have e2: "entries t2 = (if cur = start then entries ?t else (entries ?t)(cur := None))(?h \<mapsto> \<lparr>rights = lookup_rights (rights en), object = ob\<rparr>)"
      and n2: "next_id t2 = ?h + 1"
      using ne Cons.prems(2) by (auto simp: t2_def ht_insert_def ht_close_def Let_def fun_eq_iff split: option.splits)
    have inv: "ht_inv t2" using Cons.prems(1) lt unfolding ht_inv_def e2 n2
      by (auto split: if_splits intro: less_trans)
    have st: "start \<in> dom (entries t2)" using Cons.prems(4) by (auto simp: e2)
    have eh: "entries t2 ?h = Some \<lparr>rights = lookup_rights (rights en), object = ob\<rparr>" unfolding e2 by simp
    let ?w2 = "w\<lparr>handles := t2\<rparr>" and ?en = "\<lparr>rights = lookup_rights (rights en), object = ob\<rparr>"
    have "\<exists>h w'. walk_from other start ds ?h ?w2 = (Inr h, w') \<and> dirs w' = dirs ?w2 \<and>
        ht_inv (handles w') \<and> unat (next_id (handles w')) \<le> unat (next_id (handles ?w2)) + length ds \<and>
        (if filter (\<lambda>nm. \<not> skipped nm) ds = [] then h = ?h \<and> w' = ?w2
         else next_id (handles ?w2) \<le> h \<and> entries (handles w') =
           (if ?h = start then entries (handles ?w2) else (entries (handles ?w2))(?h := None))
             (h \<mapsto> \<lparr>rights = lookup_rights (rights ?en), object = target\<rparr>))"
      using inv st ob(2) Cons.prems(3,6,7) n2 nx eh by (intro Cons.IH) simp_all
    then obtain h w' where h: "walk_from other start ds ?h ?w2 = (Inr h, w')" "dirs w' = dirs w"
      "if filter (\<lambda>nm. \<not> skipped nm) ds = [] then h = ?h \<and> w' = ?w2
       else ?h + 1 \<le> h \<and> entries (handles w') = ((entries t2)(?h := None))(h \<mapsto> \<lparr>rights = lookup_rights (rights en), object = target\<rparr>)"
      and hn: "ht_inv (handles w')" "unat (next_id (handles w')) \<le> unat (next_id (handles w)) + Suc (length ds)"
      using ne n2 nx by (auto split: if_splits)
    have "walk_from other start (nm # ds) cur w = (Inr h, w')"
      using False lk h(1) by (auto simp: t2_def split: if_splits)
    moreover have "?h \<le> h \<and> entries (handles w') =
        (if cur = start then entries ?t else (entries ?t)(cur := None))(h \<mapsto> \<lparr>rights = lookup_rights (rights en), object = target\<rparr>)"
    proof (cases "filter (\<lambda>nm. \<not> skipped nm) ds = []")
      case True
      then show ?thesis using h(3) ob(2) e2 by simp
    next
      case 2: False
      have "(entries t2)(?h := None) = (if cur = start then entries ?t else (entries ?t)(cur := None))"
        using fresh ne unfolding e2 by (auto simp: fun_eq_iff)
      then show ?thesis using h(3) 2 lt by (simp add: less_imp_le order_trans [of ?h "?h + 1" h])
    qed
    ultimately show ?thesis using h(2) hn False by simp
  qed
qed simp

text \<open>
  C24. Walking a path. From a start handle with the right to read, a walk along names that exist
  returns a handle to exactly the object the directory tree has at that path, with the rights of
  the start handle and no more; every intermediate handle has been closed, so the table has
  gained that one entry only. A path without names returns the start handle itself.
\<close>

theorem kernel_walk_resolves:
  assumes "start = (if hd (split_slash path) = [] then 0 else handle)"
    and "ht_inv (handles w)" and "entries (handles w) start = Some en" and "flags_contains (rights en) READ"
    and "path_target (dirs w) (object en) (path_names path) = Some target"
    and "\<forall>nm \<in> set (split_slash path). length nm \<le> 254"
    and "unat (next_id (handles w)) + length (split_slash path) < 2 ^ 64"
  shows "\<exists>h w'. kernel_walk other path handle w = (Inr h, w') \<and> dirs w' = dirs w \<and>
    (if path_names path = [] then h = start \<and> w' = w
     else entries (handles w) h = None \<and> flags_contains (rights en) (lookup_rights (rights en)) \<and>
       entries (handles w') = (entries (handles w))(h \<mapsto> \<lparr>rights = lookup_rights (rights en), object = target\<rparr>))"
proof -
  have d: "start \<in> dom (entries (handles w))" using assms(3) by auto
  have fresh: "entries (handles w) h = None" if "next_id (handles w) \<le> h" for h
  proof (rule ccontr)
    assume "entries (handles w) h \<noteq> None"
    then have "h < next_id (handles w)" using assms(2) by (auto simp: ht_inv_def)
    with that show False by simp
  qed
  obtain h w' where "walk_from other start (split_slash path) start w = (Inr h, w')" "dirs w' = dirs w"
    "if path_names path = [] then h = start \<and> w' = w
     else next_id (handles w) \<le> h \<and> entries (handles w') = (entries (handles w))(h \<mapsto> \<lparr>rights = lookup_rights (rights en), object = target\<rparr>)"
    using walk_from_law [OF assms(2,3,4) d assms(5) [unfolded path_names_def] assms(6,7), of other]
    unfolding path_names_def by auto
  then show ?thesis using assms(1) fresh lookup_rights_sub by (auto simp: kernel_walk_def Let_def split: if_splits)
qed

definition demo_world :: world where
  "demo_world =
    \<lparr>handles = ht_insert_at handle_table_new 0 (KDirectory 0) (READ OR WRITE),
     dirs = (\<lambda>_. [])(0 := [([97], KDirectory 1)], 1 := [([98], KFile 5)]),
     wmem = \<lparr>mbyte = (\<lambda>_. 0), can_read = (\<lambda>_. True), can_write = (\<lambda>_. True)\<rparr>\<rparr>"

lemmas demo_world_eval = demo_world_def ht_insert_at_def handle_table_new_def Let_def

text \<open>The path \<^verbatim>\<open>/a/b\<close>.\<close>

theorem kernel_walk_resolves_witness:
  "\<exists>h w'. kernel_walk (\<lambda>_ _ _ w. (Inl UnsupportedOperation, w)) [47, 97, 47, 98] 9 demo_world = (Inr h, w') \<and>
     entries (handles w') h = Some \<lparr>rights = lookup_rights (READ OR WRITE), object = KFile 5\<rparr>"
proof -
  have pn: "path_names [47, 97, 47, 98] = [[97], [98]]" by (simp add: path_names_def SLASH_def skipped_def)
  have 1: "0 = (if hd (split_slash [47, 97, 47, 98]) = [] then 0 else 9 :: u64)" by (simp add: SLASH_def)
  have 2: "ht_inv (handles demo_world)" by (auto simp: demo_world_eval ht_inv_def)
  have 3: "entries (handles demo_world) 0 = Some \<lparr>rights = READ OR WRITE, object = KDirectory 0\<rparr>" by (simp add: demo_world_eval)
  have 4: "flags_contains (rights \<lparr>rights = READ OR WRITE, object = KDirectory 0\<rparr>) READ"
    by (simp add: flags_contains_def READ_def WRITE_def)
  have 5: "path_target (dirs demo_world) (object \<lparr>rights = READ OR WRITE, object = KDirectory 0\<rparr>) (path_names [47, 97, 47, 98]) = Some (KFile 5)"
    by (simp add: pn demo_world_def)
  have 6: "\<forall>nm \<in> set (split_slash [47, 97, 47, 98]). length nm \<le> 254" by (simp add: SLASH_def)
  have 7: "unat (next_id (handles demo_world)) + length (split_slash [47, 97, 47, 98]) < 2 ^ 64" by (simp add: SLASH_def demo_world_eval)
  show ?thesis
    using kernel_walk_resolves [OF 1 2 3 4 5 6 7, of "\<lambda>_ _ _ w. (Inl UnsupportedOperation, w)"] by (auto simp: pn)
qed

text \<open>
  A walk that fails half way leaks a handle. Walking \<^verbatim>\<open>/a/x\<close> where \<^verbatim>\<open>a\<close> exists and \<^verbatim>\<open>x\<close> does not
  reports the missing path and leaves the handle to \<^verbatim>\<open>a\<close> in the caller's table.
\<close>

theorem failed_walk_leaks_handle:
  "case kernel_walk (\<lambda>_ _ _ w. (Inl UnsupportedOperation, w)) [47, 97, 47, 120] 9 demo_world of (r, w') \<Rightarrow>
     r = Inl PathNotFound \<and> entries (handles demo_world) 1 = None \<and>
     map_option object (entries (handles w') 1) = Some (KDirectory 1)"
  by (simp add: kernel_walk_def SLASH_def skipped_def lookup_through_def demo_world_eval resolve_entry_def dir_lookup_def ht_insert_def
      flags_contains_def lookup_rights_def rights_defs FILENAME_LEN_MAX_def)

text \<open>
  Directories amplify rights. Whoever can read and write a directory can link any object it
  has a handle to, whatever the rights of that handle, and look it up again: the new handle has
  the rights of the directory handle. Here an object held without the right to write becomes
  writable.
\<close>

theorem link_lookup_amplifies:
  assumes "ht_inv (handles w)" and "entries (handles w) h = Some \<lparr>rights = r, object = ob\<rparr>"
    and "entries (handles w) dh = Some \<lparr>rights = dr, object = KDirectory d\<rparr>" and "flags_contains dr WRITE"
    and "bt_ok (dirs w d)" and "(ob, WRITE) \<notin> authority (handles w)"
  shows "case dir_link d nm h w of (r1, w1) \<Rightarrow> case dir_lookup d nm dr w1 of (r2, w2) \<Rightarrow>
     r1 = Inr 0 \<and> r2 = Inr (next_id (handles w)) \<and> (ob, WRITE) \<in> authority (handles w2)"
proof -
  have "dr AND (MUTATE OR READ OR WRITE OR CREATE OR EXECUTE) AND WRITE = dr AND WRITE"
    by (rule bit_word_eqI) (auto simp: bit_simps)
  then have "flags_contains (lookup_rights dr) WRITE"
    using assms(4) by (simp add: flags_contains_def lookup_rights_def and.assoc)
  then have "(ob, WRITE) \<in> authority (snd (ht_insert (handles w) ob (lookup_rights dr)))"
    by (auto simp: authority_def ht_insert_def Let_def)
  then show ?thesis using assms
    by (simp add: dir_link_def dir_lookup_def ht_get_def ht_insert_def Let_def)
qed

theorem link_lookup_amplifies_witness:
  "case dir_link 0 [120] 5 (demo_world\<lparr>handles := ht_insert_at (handles demo_world) 5 (KFile 7) READ\<rparr>) of (r1, w1) \<Rightarrow>
     case dir_lookup 0 [120] (READ OR WRITE) w1 of (r2, w2) \<Rightarrow> (KFile 7, WRITE) \<in> authority (handles w2)"
proof -
  let ?w = "demo_world\<lparr>handles := ht_insert_at (handles demo_world) 5 (KFile 7) READ\<rparr>"
  have 1: "ht_inv (handles ?w)" by (auto simp: demo_world_eval ht_inv_def)
  have 2: "entries (handles ?w) 5 = Some \<lparr>rights = READ, object = KFile 7\<rparr>"
    "entries (handles ?w) 0 = Some \<lparr>rights = READ OR WRITE, object = KDirectory 0\<rparr>" by (simp_all add: demo_world_eval)
  have 3: "flags_contains (READ OR WRITE) WRITE" by (simp add: flags_contains_def rights_defs)
  have 4: "bt_ok (dirs ?w 0)" by (simp add: demo_world_def bt_ok_def)
  have 5: "(KFile 7, WRITE) \<notin> authority (handles ?w)"
    by (auto simp: authority_def demo_world_eval flags_contains_def rights_defs split: if_splits)
  show ?thesis using link_lookup_amplifies [OF 1 2 3 4 5, of "[120]"] by (auto split: prod.splits)
qed

section \<open>Directories are dictionaries\<close>

lemma lookup_after_link:
  assumes "bt_ok (dirs w d)" and "dir_link d nm h w = (Inr 0, w1)"
  shows "\<exists>en. ht_get (handles w) h = Some en \<and> map_of (dirs w1 d) = (map_of (dirs w d))(nm \<mapsto> object en) \<and> bt_ok (dirs w1 d)"
  using assms by (auto simp: dir_link_def split: option.splits)

lemma lookup_after_unlink:
  "map_of (dirs (snd (dir_unlink d nm w)) d) = (map_of (dirs w d))(nm := None)"
  by (simp add: dir_unlink_def map_of_bt_remove)

text \<open>A packet is 280 bytes; its flags tell whether another one follows.\<close>

lemma length_encode_packet:
  "length pad = 4 \<Longrightarrow> length (entry_name p) \<le> 254 \<Longrightarrow> length (encode_packet pad p) = 280"
  by (simp add: encode_packet_def le_bytes_def)

lemma list_packets_flags:
  "i < length es \<Longrightarrow> packet_flags (list_packets es ! i) = (if Suc i = length es then IS_STREAM else IS_STREAM OR HAS_NEXT) \<and>
     entry_name (list_packets es ! i) = take 254 (fst (es ! i))"
  by (induction es arbitrary: i rule: list_packets.induct) (auto simp: nth_Cons split: nat.splits)

end
