(* ===== verification/Ext2_Obj.thy ===== *)
theory Ext2_Obj
  imports Ext2_Inv Directory
begin

text \<open>
  Files and directories of a mounted volume as kernel objects: \<^verbatim>\<open>drivers/blockdev/ext2/obj.rs\<close>, and
  the file-backed memory object \<^verbatim>\<open>FileVmo\<close> of \<^verbatim>\<open>memory/vmo.rs\<close> through which files are read. The state
  is the handle table and the memory of the calling process, the objects handed out so far, the
  physical memory, the page allocator and the block store. User memory is kept apart from the
  pages the kernel reads into.
\<close>

section \<open>File-backed memory\<close>

record file_vmo =
  anonymous_vmo :: vmo
  fv_inode_num :: u32
  fv_inode :: inode

definition file_vmo_new :: "u32 \<Rightarrow> inode \<Rightarrow> u64 \<Rightarrow> file_vmo" where
  "file_vmo_new n ino sz = \<lparr>anonymous_vmo = vmo_new sz, fv_inode_num = n, fv_inode = ino\<rparr>"

text \<open>The blocks of one page, read one after the other into the page; the first error ends the loop.\<close>

fun load_blocks ::
  "('c \<Rightarrow> (nat \<times> 'c) run) \<Rightarrow> ('c \<Rightarrow> nat \<Rightarrow> 'c run) \<Rightarrow> ('s \<Rightarrow> nat \<Rightarrow> ((unit + u8 list) \<times> 's) run) \<Rightarrow> ext2_fs
     \<Rightarrow> inode \<Rightarrow> nat \<Rightarrow> nat \<Rightarrow> nat list \<Rightarrow> pmem \<times> 'c \<times> 's \<Rightarrow> (bool \<times> pmem \<times> 'c \<times> 's) run" where
  "load_blocks palloc pfree sread fs ino page start [] st = ret (True, st)"
| "load_blocks palloc pfree sread fs ino page start (i # is) st =
    do { (r, m1, c1, s1) \<leftarrow> resolve_file_block palloc pfree sread fs st ino (start + i);
         case r of
           Inl _ \<Rightarrow> ret (False, m1, c1, s1)
         | Inr b \<Rightarrow>
             do { (okay, m2, s2) \<leftarrow> read_block sread fs m1 s1 b (page + i * unat (fs_block_size fs));
                  if okay then load_blocks palloc pfree sread fs ino page start is (m2, c1, s2)
                  else ret (False, m2, c1, s2) } }"

definition file_request_page ::
  "('c \<Rightarrow> (nat \<times> 'c) run) \<Rightarrow> ('c \<Rightarrow> nat \<Rightarrow> 'c run) \<Rightarrow> ('s \<Rightarrow> nat \<Rightarrow> ((unit + u8 list) \<times> 's) run) \<Rightarrow> ext2_fs
     \<Rightarrow> file_vmo \<Rightarrow> pmem \<times> 'c \<times> 's \<Rightarrow> u64 \<Rightarrow> ((unit + nat) \<times> file_vmo \<times> pmem \<times> 'c \<times> 's) run" where
  "file_request_page palloc pfree sread fs fv = (\<lambda>(m, c, s) off.
    if vmo_size (anonymous_vmo fv) \<le> off then ret (Inl (), fv, m, c, s)
    else case resident (anonymous_vmo fv) off of
      Some pfn \<Rightarrow> ret (Inr pfn, fv, m, c, s)
    | None \<Rightarrow>
        do { (page, c1) \<leftarrow> palloc c;
             if page = 0 then ret (Inl (), fv, m, c1, s)
             else if fs_block_size fs = 0 then panic
             else do { (okay, st) \<leftarrow> load_blocks palloc pfree sread fs (fv_inode fv) page
                          (unat off div unat (fs_block_size fs)) [0..<4096 div unat (fs_block_size fs)] (m, c1, s);
                       ret (if okay
                            then (Inr page, fv\<lparr>anonymous_vmo := (anonymous_vmo fv)\<lparr>vmo_pages :=
                                     bt_insert off page (vmo_pages (anonymous_vmo fv))\<rparr>\<rparr>, st)
                            else (Inl (), fv, st)) } })"

section \<open>Files\<close>

record ext_file =
  ef_inode_num :: u32
  ef_inode :: inode
  ef_vmo :: file_vmo
  ef_offset :: u64

text \<open>
  The copy loop of a read. Each round copies at least one byte, so it ends; positions are below the
  32-bit size of the file and do not wrap.
\<close>

function read_loop ::
  "('c \<Rightarrow> (nat \<times> 'c) run) \<Rightarrow> ('c \<Rightarrow> nat \<Rightarrow> 'c run) \<Rightarrow> ('s \<Rightarrow> nat \<Rightarrow> ((unit + u8 list) \<times> 's) run) \<Rightarrow> ext2_fs
     \<Rightarrow> nat \<Rightarrow> u64 \<Rightarrow> nat \<Rightarrow> nat \<Rightarrow> file_vmo \<Rightarrow> umem \<Rightarrow> pmem \<times> 'c \<times> 's
     \<Rightarrow> ((invocation_error + nat) \<times> file_vmo \<times> umem \<times> pmem \<times> 'c \<times> 's) run" where
  "read_loop palloc pfree sread fs offset buffer_ptr read_len bytes_copied fv um st =
    (if read_len \<le> bytes_copied then ret (Inr bytes_copied, fv, um, st)
     else let current = offset + bytes_copied; page_offset = current div 4096 * 4096; inner = current mod 4096;
              chunk = min (4096 - inner) (read_len - bytes_copied)
          in do { (r, fv1, m1, c1, s1) \<leftarrow> file_request_page palloc pfree sread fs fv st (of_nat page_offset);
                  case r of
                    Inl _ \<Rightarrow> ret (Inl InvalidPointer, fv1, um, m1, c1, s1)
                  | Inr page \<Rightarrow>
                      do { (okay, um1) \<leftarrow> safe_copy_to um (buffer_ptr + of_nat bytes_copied) (peek m1 (page + inner) chunk);
                           if okay
                           then read_loop palloc pfree sread fs offset buffer_ptr read_len (bytes_copied + chunk) fv1 um1 (m1, c1, s1)
                           else ret (Inl InvalidPointer, fv1, um1, m1, c1, s1) } })"
  by pat_completeness auto
termination
proof (relation "measure (\<lambda>(pa, pf, sr, fs, off, buf, len, copied, fv, um, st). len - copied)")
qed (auto intro!: diff_less_mono2)

declare read_loop.simps [simp del]

definition read_bytes_async ::
  "('c \<Rightarrow> (nat \<times> 'c) run) \<Rightarrow> ('c \<Rightarrow> nat \<Rightarrow> 'c run) \<Rightarrow> ('s \<Rightarrow> nat \<Rightarrow> ((unit + u8 list) \<times> 's) run) \<Rightarrow> ext2_fs
     \<Rightarrow> inode \<Rightarrow> u64 \<Rightarrow> u64 \<Rightarrow> u64 \<Rightarrow> file_vmo \<Rightarrow> umem \<Rightarrow> pmem \<times> 'c \<times> 's
     \<Rightarrow> ((invocation_error + nat) \<times> file_vmo \<times> umem \<times> pmem \<times> 'c \<times> 's) run" where
  "read_bytes_async palloc pfree sread fs ino offset buffer_ptr req_len fv um st =
    (let file_size = unat (i_size ino); read_len = min (file_size - unat offset) (unat req_len)
     in if file_size \<le> unat offset \<or> read_len = 0 then ret (Inr 0, fv, um, st)
        else read_loop palloc pfree sread fs (unat offset) buffer_ptr read_len 0 fv um st)"

section \<open>Objects\<close>

record ext_dir =
  ed_inode_num :: u32
  ed_inode :: inode

text \<open>
  \<open>x_vmos\<close> names the file behind a memory object handed out by \<^verbatim>\<open>GetVmo\<close>; \<open>x_next\<close> numbers new objects.
\<close>

record ('c, 's) ext_world =
  x_handles :: "kobj handle_table"
  x_mem :: umem
  x_dirs :: "nat \<Rightarrow> ext_dir"
  x_files :: "nat \<Rightarrow> ext_file"
  x_vmos :: "nat \<rightharpoonup> nat"
  x_next :: nat
  x_low :: "pmem \<times> 'c \<times> 's"

fun ext_file_invoke ::
  "('c \<Rightarrow> (nat \<times> 'c) run) \<Rightarrow> ('c \<Rightarrow> nat \<Rightarrow> 'c run) \<Rightarrow> ('s \<Rightarrow> nat \<Rightarrow> ((unit + u8 list) \<times> 's) run) \<Rightarrow> ext2_fs
     \<Rightarrow> nat \<Rightarrow> invocation \<Rightarrow> ('c, 's) ext_world \<Rightarrow> ((invocation_error + u64) \<times> ('c, 's) ext_world) run" where
  "ext_file_invoke palloc pfree sread fs f (FileInv (FileRead _ buffer_ptr len)) w =
    (let fo = x_files w f
     in do { (r, fv, um, st) \<leftarrow> read_bytes_async palloc pfree sread fs (ef_inode fo) (ef_offset fo) buffer_ptr len (ef_vmo fo) (x_mem w) (x_low w);
             let w1 = w\<lparr>x_mem := um, x_low := st\<rparr>
             in ret (case r of
                 Inl e \<Rightarrow> (Inl e, w1\<lparr>x_files := (x_files w)(f := fo\<lparr>ef_vmo := fv\<rparr>)\<rparr>)
               | Inr n \<Rightarrow> (Inr (of_nat n), w1\<lparr>x_files := (x_files w)(f := fo\<lparr>ef_vmo := fv, ef_offset := ef_offset fo + of_nat n\<rparr>)\<rparr>)) })"
| "ext_file_invoke palloc pfree sread fs f (FileInv Stat) w = ret (Inr (ucast (i_size (ef_inode (x_files w f)))), w)"
| "ext_file_invoke palloc pfree sread fs f (FileInv GetVmo) w =
    (case ht_insert (x_handles w) (KVmo (x_next w)) flags_all of
       (h, t) \<Rightarrow> ret (Inr h, w\<lparr>x_handles := t, x_vmos := (x_vmos w)(x_next w \<mapsto> f), x_next := Suc (x_next w)\<rparr>))"
| "ext_file_invoke palloc pfree sread fs f _ w = ret (Inl UnsupportedOperation, w)"

definition is_directory :: "inode \<Rightarrow> bool" where
  "is_directory ino \<longleftrightarrow> i_mode ino AND 0xF000 = 0x4000"

definition child_rights :: "access_rights \<Rightarrow> access_rights" where
  "child_rights calling = calling AND (READ OR WRITE OR EXECUTE)"

text \<open>The object for an inode: a directory or a file whose memory object is empty.\<close>

definition add_object :: "u32 \<Rightarrow> inode \<Rightarrow> ('c, 's) ext_world \<Rightarrow> kobj \<times> ('c, 's) ext_world" where
  "add_object n ino w =
    (let i = x_next w; w1 = w\<lparr>x_next := Suc i\<rparr>
     in if is_directory ino then (KExtDir i, w1\<lparr>x_dirs := (x_dirs w)(i := \<lparr>ed_inode_num = n, ed_inode = ino\<rparr>)\<rparr>)
        else (KExtFile i, w1\<lparr>x_files := (x_files w)(i := \<lparr>ef_inode_num = n, ef_inode = ino,
                ef_vmo = file_vmo_new n ino (ucast (i_size ino)), ef_offset = 0\<rparr>)\<rparr>))"

definition ext_lookup ::
  "('c \<Rightarrow> (nat \<times> 'c) run) \<Rightarrow> ('c \<Rightarrow> nat \<Rightarrow> 'c run) \<Rightarrow> ('s \<Rightarrow> nat \<Rightarrow> ((unit + u8 list) \<times> 's) run) \<Rightarrow> ext2_fs
     \<Rightarrow> nat \<Rightarrow> u64 \<Rightarrow> u64 \<Rightarrow> access_rights \<Rightarrow> ('c, 's) ext_world \<Rightarrow> ((invocation_error + u64) \<times> ('c, 's) ext_world) run" where
  "ext_lookup palloc pfree sread fs d name_ptr name_len calling w =
    do { fn \<leftarrow> filename_new (x_mem w) name_ptr name_len;
         case fn of
           Inl e \<Rightarrow> ret (Inl e, w)
         | Inr nm \<Rightarrow>
             do { (r, st1) \<leftarrow> lookup_in_dir palloc pfree sread fs (x_low w) (ed_inode (x_dirs w d)) nm;
                  case r of
                    Inr (Some n) \<Rightarrow>
                      do { (ri, st2) \<leftarrow> read_inode palloc pfree sread fs st1 n;
                           case ri of
                             Inl _ \<Rightarrow> ret (Inl PathNotFound, w\<lparr>x_low := st2\<rparr>)
                           | Inr ino \<Rightarrow>
                               (case add_object n ino (w\<lparr>x_low := st2\<rparr>) of (ob, w1) \<Rightarrow>
                                case ht_insert (x_handles w1) ob (child_rights calling) of (h, t) \<Rightarrow>
                                ret (Inr h, w1\<lparr>x_handles := t\<rparr>)) }
                  | _ \<Rightarrow> ret (Inl PathNotFound, w\<lparr>x_low := st1\<rparr>) } }"

section \<open>Listing a directory\<close>

function list_block :: "pmem \<Rightarrow> nat \<Rightarrow> nat \<Rightarrow> nat \<Rightarrow> (u8 list \<times> u8) list" where
  "list_block m base bs off =
    (if bs \<le> off then []
     else let e = decode_dir_header (peek m (base + off) 8)
          in if de_record_length e = 0 then []
             else (case Ext2.entry_name m base bs off of
                     Some nm \<Rightarrow> if nm = [46] \<or> nm = [46, 46] then [] else [(nm, de_file_type e)]
                   | None \<Rightarrow> []) @ list_block m base bs (off + unat (de_record_length e)))"
  by pat_completeness auto
termination
proof (relation "measure (\<lambda>(m, base, bs, off). bs - off)")
  fix m :: pmem and base bs off :: nat and e
  assume "\<not> bs \<le> off" and "e = decode_dir_header (peek m (base + off) 8)" and "de_record_length e \<noteq> 0"
  moreover have "0 < unat (de_record_length e)" using calculation(3) by (simp add: unat_gt_0 word_gt_0)
  ultimately show "((m, base, bs, off + unat (de_record_length e)), (m, base, bs, off)) \<in> measure (\<lambda>(m, base, bs, off). bs - off)" by simp
qed simp

declare list_block.simps [simp del]

fun list_blocks ::
  "('s \<Rightarrow> nat \<Rightarrow> ((unit + u8 list) \<times> 's) run) \<Rightarrow> ext2_fs \<Rightarrow> nat \<Rightarrow> u32 list \<Rightarrow> pmem \<Rightarrow> 's
     \<Rightarrow> ((unit + (u8 list \<times> u8) list) \<times> pmem \<times> 's) run" where
  "list_blocks sread fs page [] m s = ret (Inr [], m, s)"
| "list_blocks sread fs page (b # bl) m s =
    (if b = 0 then list_blocks sread fs page bl m s
     else do { (okay, m1, s1) \<leftarrow> read_block sread fs m s b page;
               if \<not> okay then ret (Inl (), m1, s1)
               else do { (r, m2, s2) \<leftarrow> list_blocks sread fs page bl m1 s1;
                         ret (map_sum id ((@) (list_block m1 page (unat (fs_block_size fs)) 0)) r, m2, s2) } })"

definition disk_entry_type :: "u8 \<Rightarrow> u8" where
  "disk_entry_type ft = (if ft = 2 then 1 else if ft = 1 then 2 else 3)"

fun ext_packets :: "(u8 list \<times> u8) list \<Rightarrow> dir_packet list" where
  "ext_packets [] = []"
| "ext_packets ((nm, ft) # es) =
    \<lparr>packet_flags = (if es = [] then IS_STREAM else IS_STREAM OR HAS_NEXT),
     entry_type = disk_entry_type ft, entry_name = take 254 nm\<rparr> # ext_packets es"

definition ext_list ::
  "('c \<Rightarrow> (nat \<times> 'c) run) \<Rightarrow> ('c \<Rightarrow> nat \<Rightarrow> 'c run) \<Rightarrow> ('s \<Rightarrow> nat \<Rightarrow> ((unit + u8 list) \<times> 's) run) \<Rightarrow> ext2_fs
     \<Rightarrow> (kobj \<Rightarrow> u8 list \<Rightarrow> ('c, 's) ext_world \<Rightarrow> (invocation_error + u64) \<times> ('c, 's) ext_world) \<Rightarrow> u8 list \<Rightarrow> nat \<Rightarrow> handle_id
     \<Rightarrow> ('c, 's) ext_world \<Rightarrow> ((invocation_error + u64) \<times> ('c, 's) ext_world) run" where
  "ext_list palloc pfree sread fs obj_write pad d sink w =
    (case x_low w of (m, c, s) \<Rightarrow>
     do { (page, c1) \<leftarrow> palloc c;
          if page = 0 then ret (Inl OutOfMemory, w\<lparr>x_low := (m, c1, s)\<rparr>)
          else do { (r, m1, s1) \<leftarrow> list_blocks sread fs page (direct (ed_inode (x_dirs w d))) m s;
                    c2 \<leftarrow> pfree c1 page;
                    let w1 = w\<lparr>x_low := (m1, c2, s1)\<rparr>
                    in case r of
                         Inl _ \<Rightarrow> ret (Inl InvalidPointer, w1)
                       | Inr es \<Rightarrow>
                           (case resolve (x_handles w1) sink WRITE of
                              Inl e \<Rightarrow> ret (Inl e, w1)
                            | Inr ob \<Rightarrow> ret (write_packets (obj_write ob) pad (ext_packets es) w1)) } })"

fun ext_dir_invoke ::
  "('c \<Rightarrow> (nat \<times> 'c) run) \<Rightarrow> ('c \<Rightarrow> nat \<Rightarrow> 'c run) \<Rightarrow> ('s \<Rightarrow> nat \<Rightarrow> ((unit + u8 list) \<times> 's) run) \<Rightarrow> ext2_fs
     \<Rightarrow> (kobj \<Rightarrow> u8 list \<Rightarrow> ('c, 's) ext_world \<Rightarrow> (invocation_error + u64) \<times> ('c, 's) ext_world) \<Rightarrow> u8 list \<Rightarrow> nat \<Rightarrow> invocation
     \<Rightarrow> access_rights \<Rightarrow> ('c, 's) ext_world \<Rightarrow> ((invocation_error + u64) \<times> ('c, 's) ext_world) run" where
  "ext_dir_invoke palloc pfree sread fs ow pad d (DirectoryInv (Lookup name len)) rs w = ext_lookup palloc pfree sread fs d name len rs w"
| "ext_dir_invoke palloc pfree sread fs ow pad d (DirectoryInv (ListDir _ sink)) rs w = ext_list palloc pfree sread fs ow pad d sink w"
| "ext_dir_invoke palloc pfree sread fs ow pad d _ rs w = ret (Inl UnsupportedOperation, w)"

section \<open>The bytes of a file\<close>

definition file_byte :: "(nat \<Rightarrow> u8 list) \<Rightarrow> nat \<Rightarrow> inode \<Rightarrow> nat \<Rightarrow> u8" where
  "file_byte f bs ino i = block_of f bs (the (file_block f (bs div 4) ino (i div bs))) ! (i mod bs)"

text \<open>
  A file whose pages all lie in its direct and single-indirect blocks, with every block it names on
  the volume.
\<close>

definition file_blocks_ok :: "(nat \<Rightarrow> bool) \<Rightarrow> (nat \<Rightarrow> u8 list) \<Rightarrow> nat \<Rightarrow> inode \<Rightarrow> nat \<Rightarrow> bool" where
  "file_blocks_ok P f bs ino n \<longleftrightarrow> length (direct ino) = 12 \<and>
    (\<forall>k < n. k < 12 + bs div 4 \<and> block_valid P f (bs div 4) ino k \<and>
       (the (file_block f (bs div 4) ino k) = 0 \<or> P (unat (the (file_block f (bs div 4) ino k)))))"

definition file_pages :: "inode \<Rightarrow> nat" where
  "file_pages ino = div_ceil (unat (i_size ino)) 4096"

text \<open>What the pages of a file-backed object hold.\<close>

definition holds_file :: "('c \<Rightarrow> nat \<Rightarrow> bool) \<Rightarrow> (nat \<Rightarrow> u8) \<Rightarrow> inode \<Rightarrow> pmem \<Rightarrow> 'c \<Rightarrow> file_vmo \<Rightarrow> bool" where
  "holds_file lv fb ino m c fv \<longleftrightarrow> fv_inode fv = ino \<and> vmo_size (anonymous_vmo fv) = ucast (i_size ino) \<and>
    bt_ok (vmo_pages (anonymous_vmo fv)) \<and>
    (\<forall>off pg. resident (anonymous_vmo fv) off = Some pg \<longrightarrow> lv c pg \<and> (\<forall>t < 4096. m (pg + t) = fb (unat off + t)))"

lemma unat_size: "unat (ucast (n :: u32) :: u64) = unat n"
  by (simp add: unsigned_ucast_eq take_bit_nat_eq_self less_trans [OF unsigned_less])

lemma div_ceil_above: "4096 * q < n \<Longrightarrow> q < div_ceil n 4096"
proof -
  assume "4096 * q < n"
  moreover have "n = 4096 * (n div 4096) + n mod 4096" "n mod 4096 < 4096" by simp_all
  ultimately have "q < n div 4096 \<or> n mod 4096 \<noteq> 0 \<and> q \<le> n div 4096" by linarith
  then show ?thesis by (auto simp: div_ceil_def)
qed

lemma file_vmo_new_holds: "holds_file lv fb ino m c (file_vmo_new n ino (ucast (i_size ino)))"
  using vmo_new_empty(1) vmo_new_resident by (simp add: holds_file_def file_vmo_new_def) (simp add: vmo_new_def)

lemma tree_path_small: "k < 12 + p \<Longrightarrow> tree_path p ino k \<noteq> None"
proof -
  assume "k < 12 + p"
  then have "k < 12 \<or> k - 12 < p" by linarith
  then show ?thesis by (auto simp: tree_path_def)
qed

lemma user_range_within:
  assumes "user_range p l" and "n \<le> unat l" and "j \<le> n"
  shows "unat (p + of_nat j) = unat p + j" and "user_range (p + of_nat j) (of_nat (n - j))" and "unat (of_nat (n - j) :: u64) = n - j"
proof -
  have l: "unat l < 2 ^ 64" using unsigned_less [of l, where ?'a = nat] by simp
  have sum: "unat p + unat l < 2 ^ 64" using assms(1) by (simp add: user_range_def)
  have u: "unat (of_nat k :: u64) = k" if "k \<le> n" for k
    using that l assms(2) by (simp add: unsigned_of_nat take_bit_nat_eq_self)
  then show "unat (of_nat (n - j) :: u64) = n - j" by simp
  show pj: "unat (p + of_nat j) = unat p + j"
    using unat_add_lem [of p "of_nat j"] u [OF assms(3)] sum assms(2,3) by simp
  have "p + of_nat j + of_nat (n - j) = p + of_nat n" using assms(3) by (simp add: of_nat_diff)
  then show "user_range (p + of_nat j) (of_nat (n - j))"
    using user_range_shorter [OF assms(1,2)] pj u [of n] u [of "n - j"] assms(3) by (simp add: user_range_def)
qed

lemma outside_range:
  assumes "user_range p l" and "n \<le> unat l" and "unat a < unat p \<or> unat p + n \<le> unat a"
  shows "n \<le> unat (a - p)"
proof (rule ccontr)
  assume "\<not> n \<le> unat (a - p)"
  then have "unat p + unat (a - p) < 2 ^ 64" using assms(1,2) by (simp add: user_range_def)
  then have "unat a = unat p + unat (a - p)" using unat_add_lem [of p "a - p"] by simp
  then show False using assms(3) \<open>\<not> n \<le> unat (a - p)\<close> by simp
qed

context ext2_world
begin

lemma load_blocks_law:
  assumes "fs_ok fs s" and "file_blocks_ok (has s) (blocks s) (bsize s) ino (start + n)" and "pok c" and "reserve < card (stock c)"
    and "live c page" and "n * bsize s \<le> 4096" and "i \<le> n"
  shows "\<exists>m' c' s'. load_blocks palloc pfree sread fs ino page start [i..<n] (m, c, s) = Some (True, m', c', s') \<and>
    same_store s s' \<and> same_pages c c' \<and>
    (\<forall>t. i * bsize s \<le> t \<and> t < n * bsize s \<longrightarrow> m' (page + t) = file_byte (blocks s) (bsize s) ino (start * bsize s + t)) \<and>
    (\<forall>t < i * bsize s. m' (page + t) = m (page + t)) \<and>
    (\<forall>a. a div 4096 * 4096 \<noteq> page \<longrightarrow> a div 4096 * 4096 \<notin> stock c \<longrightarrow> m' a = m a)"
  using assms
proof (induction "n - i" arbitrary: i m c s)
  case 0
  then show ?case by (auto simp: same_store_def same_pages_def fs_ok_def)
next
  case (Suc d)
  let ?bs = "bsize s" and ?k = "start + i"
  have il: "i < n" "[i..<n] = i # [Suc i..<n]" using Suc.hyps(2) by (auto simp: upt_conv_Cons)
  have bs: "0 < ?bs" "unat (fs_block_size fs) = ?bs" using Suc.prems(1) by (auto simp: fs_ok_def)
  have kk: "?k < 12 + ?bs div 4" "length (direct ino) = 12" "block_valid (has s) (blocks s) (?bs div 4) ino ?k"
    using Suc.prems(2) il by (auto simp: file_blocks_ok_def)
  obtain r "is" where t: "tree_path (?bs div 4) ino ?k = Some (r, is)" using tree_path_small [OF kk(1), of ino] by auto
  define b where "b = pointer_path (blocks s) r is"
  have fb: "file_block (blocks s) (?bs div 4) ino ?k = Some b" using t by (simp add: file_block_def b_def)
  have bok: "b = 0 \<or> has s (unat b)"
    using Suc.prems(2) il(1) fb unfolding file_blocks_ok_def by (metis add_strict_left_mono option.sel)
  obtain m1 c1 s1 where r1: "resolve_file_block palloc pfree sread fs (m, c, s) ino ?k = Some (Inr b, m1, c1, s1)"
      "same_store s s1" "same_pages c c1" "kept c m m1"
    using resolve_law [OF Suc.prems(1) refl _ t _ kk(2) Suc.prems(3,4), where m = m and k = "start + i"] kk(1,3) t unfolding b_def block_valid_def by auto
  have s1: "fs_ok fs s1" "has s1 = has s" "blocks s1 = blocks s" "bsize s1 = ?bs"
    using r1(2) fs_ok_same [OF Suc.prems(1) r1(2)] by (auto simp: same_store_def)
  have c1: "pok c1" "stock c1 = stock c" "live c1 page" using r1(3) Suc.prems(5) by (auto simp: same_pages_def)
  let ?blk = "block_of (blocks s) ?bs b"
  obtain s2 where r2: "read_block sread fs m1 s1 b (page + i * ?bs) = Some (True, poke m1 (page + i * ?bs) ?blk, s2)" "same_store s1 s2"
    using read_block_law [OF s1(1), of b m1 "page + i * ?bs"] bok s1 by auto
  define m2 where "m2 = poke m1 (page + i * ?bs) ?blk"
  have bl: "length ?blk = ?bs" using block_of_length [OF Suc.prems(1) bok] .
  have s2: "fs_ok fs s2" "has s2 = has s" "blocks s2 = blocks s" "bsize s2 = ?bs"
    using r2(2) fs_ok_same [OF s1(1) r2(2)] s1 by (auto simp: same_store_def)
  have d: "d = n - Suc i" using Suc.hyps(2) by simp
  obtain m' c' s' where ih: "load_blocks palloc pfree sread fs ino page start [Suc i..<n] (m2, c1, s2) = Some (True, m', c', s')"
     "same_store s2 s'" "same_pages c1 c'"
     "\<forall>t. Suc i * ?bs \<le> t \<and> t < n * ?bs \<longrightarrow> m' (page + t) = file_byte (blocks s) ?bs ino (start * ?bs + t)"
     "\<forall>t < Suc i * ?bs. m' (page + t) = m2 (page + t)"
     "\<forall>a. a div 4096 * 4096 \<noteq> page \<longrightarrow> a div 4096 * 4096 \<notin> stock c \<longrightarrow> m' a = m2 a"
    using Suc.hyps(1) [OF d, of s2 c1 m2] Suc.prems s2 c1 il(1) by auto
  have in_blk: "m2 (page + t) = file_byte (blocks s) ?bs ino (start * ?bs + t)" if "i * ?bs \<le> t" "t < Suc i * ?bs" for t
  proof -
    have "t div ?bs = i" using that by (intro div_nat_eqI) (simp_all add: mult.commute)
    then have "(start * ?bs + t) div ?bs = ?k" "(start * ?bs + t) mod ?bs = t - i * ?bs"
      using bs(1) minus_div_mult_eq_mod [of t ?bs] by auto
    then show ?thesis using that bl fb by (simp add: m2_def poke_def file_byte_def)
  qed
  have below: "m2 (page + t) = m (page + t)" if "t < i * ?bs" for t
  proof -
    have "i * ?bs \<le> n * ?bs" using il(1) by simp
    then have "t < 4096" using that Suc.prems(6) by linarith
    then show ?thesis using live_apart [OF Suc.prems(3,5) r1(4)] that by (simp add: m2_def poke_def)
  qed
  have out: "m2 a = m a" if "a div 4096 * 4096 \<noteq> page" "a div 4096 * 4096 \<notin> stock c" for a
  proof -
    have "4096 dvd page" using frame_dvd Suc.prems(3,5) by blast
    have "Suc i * ?bs \<le> n * ?bs" using il(1) by (intro mult_le_mono1) simp
    then have "i * ?bs + ?bs \<le> 4096" using Suc.prems(6) by simp
    with \<open>4096 dvd page\<close> have "\<not> (page + i * ?bs \<le> a \<and> a < page + i * ?bs + ?bs)" using that(1) by (auto elim!: dvdE)
    then show ?thesis using that(2) r1(4) bl by (auto simp: m2_def poke_def kept_def)
  qed
  have all: "m' (page + t) = file_byte (blocks s) ?bs ino (start * ?bs + t)" if "i * ?bs \<le> t" "t < n * ?bs" for t
    using that ih(4,5) in_blk [of t] by (cases "t < Suc i * ?bs") auto
  have "load_blocks palloc pfree sread fs ino page start [i..<n] (m, c, s) = Some (True, m', c', s')"
    using r1(1) r2(1) ih(1) bs(2) by (simp add: il(2) m2_def)
  moreover have "same_store s s'" using same_store_trans [OF same_store_trans [OF r1(2) r2(2)] ih(2)] .
  moreover have "same_pages c c'" using r1(3) ih(3) by (auto simp: same_pages_def)
  ultimately show ?case using all below out ih(5,6) by auto
qed

lemma file_request_page_law:
  assumes fs: "fs_ok fs s" and dv: "bsize s dvd 4096"
    and ok: "file_blocks_ok (has s) (blocks s) (bsize s) ino (file_pages ino * (4096 div bsize s))"
    and h: "holds_file live (file_byte (blocks s) (bsize s) ino) ino m c fv"
    and c: "pok c" "Suc reserve < card (stock c)" and off: "4096 dvd unat off" "unat off < unat (i_size ino)"
  shows "\<exists>pg fv' m' c' s'. file_request_page palloc pfree sread fs fv (m, c, s) off = Some (Inr pg, fv', m', c', s') \<and>
    same_store s s' \<and> pok c' \<and> stock c' \<subseteq> stock c \<and> card (stock c) \<le> Suc (card (stock c')) \<and> kept c m m' \<and>
    holds_file live (file_byte (blocks s) (bsize s) ino) ino m' c' fv' \<and>
    (\<forall>t < 4096. m' (pg + t) = file_byte (blocks s) (bsize s) ino (unat off + t)) \<and> (\<forall>a. live c a \<longrightarrow> live c' a)"
proof (cases "resident (anonymous_vmo fv) off")
  case (Some pg)
  have "\<not> vmo_size (anonymous_vmo fv) \<le> off" using h off(2) by (simp add: holds_file_def word_le_nat_alt unat_size)
  then show ?thesis using Some h fs c by (auto simp: file_request_page_def same_store_def fs_ok_def holds_file_def)
next
  case None
  let ?bs = "bsize s" and ?fb = "file_byte (blocks s) (bsize s) ino"
  have sz: "\<not> vmo_size (anonymous_vmo fv) \<le> off" using h off(2) by (simp add: holds_file_def word_le_nat_alt unat_size)
  have bs: "0 < ?bs" "unat (fs_block_size fs) = ?bs" "fs_block_size fs \<noteq> 0" using fs by (auto simp: fs_ok_def)
  obtain page c1 where a: "palloc c = Some (page, c1)" using palloc_returns [OF c(1)] c(2) by fastforce
  note al = palloc_some [OF c(1) a]
  have room: "reserve < card (stock c1)" using c(2) palloc_card [OF c(1) a] by simp
  let ?start = "unat off div ?bs" and ?n = "4096 div ?bs"
  have full: "?n * ?bs = 4096" "?start * ?bs = unat off" using dv off(1) dvd_trans [OF dv off(1)] by auto
  obtain q where q: "unat off = 4096 * q" using off(1) by (auto elim!: dvdE)
  have "?start = q * ?n" using dv by (simp add: q div_mult_swap mult.commute)
  moreover have "q < file_pages ino" using off(2) q div_ceil_above by (simp add: file_pages_def)
  then have "Suc q * ?n \<le> file_pages ino * ?n" by (intro mult_le_mono1) simp
  ultimately have "?start + ?n \<le> file_pages ino * ?n" by simp
  then have okp: "file_blocks_ok (has s) (blocks s) ?bs ino (?start + ?n)" using ok by (auto simp: file_blocks_ok_def)
  obtain m' c' s' where ld: "load_blocks palloc pfree sread fs ino page ?start [0..<?n] (m, c1, s) = Some (True, m', c', s')"
     "same_store s s'" "same_pages c1 c'"
     "\<forall>t. t < ?n * ?bs \<longrightarrow> m' (page + t) = ?fb (?start * ?bs + t)"
     "\<forall>a. a div 4096 * 4096 \<noteq> page \<longrightarrow> a div 4096 * 4096 \<notin> stock c1 \<longrightarrow> m' a = m a"
    using load_blocks_law [OF fs okp _ room, of page 0 m] al full(1) by auto
  let ?fv = "fv\<lparr>anonymous_vmo := (anonymous_vmo fv)\<lparr>vmo_pages := bt_insert off page (vmo_pages (anonymous_vmo fv))\<rparr>\<rparr>"
  have run: "file_request_page palloc pfree sread fs fv (m, c, s) off = Some (Inr page, ?fv, m', c', s')"
    using sz None a al bs ld(1) h by (simp add: file_request_page_def holds_file_def)
  have kp: "kept c m m'" using ld(5) al by (auto simp: kept_def)
  have mem: "\<forall>t < 4096. m' (page + t) = ?fb (unat off + t)" using ld(4) full by simp
  have lv: "live c a \<Longrightarrow> live c' a" "live c' page" for a using al ld(3) by (auto simp: same_pages_def)
  have bt: "bt_ok (vmo_pages (anonymous_vmo fv))" using h by (simp add: holds_file_def)
  then have res: "resident (anonymous_vmo ?fv) k = (if k = off then Some page else resident (anonymous_vmo fv) k)" for k
    using al by (simp add: resident_def)
  have "holds_file live ?fb ino m' c' ?fv"
    using h bt mem lv live_apart [OF c(1) _ kp] unfolding holds_file_def res by (auto split: if_splits)
  moreover have "stock c' \<subseteq> stock c" "card (stock c) \<le> Suc (card (stock c'))" "pok c'"
    using al ld(3) palloc_card [OF c(1) a] by (auto simp: same_pages_def)
  ultimately show ?thesis using run ld(2) kp mem lv by blast
qed

lemma read_loop_law:
  assumes "fs_ok fs s" and "bsize s dvd 4096"
    and "file_blocks_ok (has s) (blocks s) (bsize s) ino (file_pages ino * (4096 div bsize s))"
    and "holds_file live (file_byte (blocks s) (bsize s) ino) ino m c fv"
    and "pok c" and "reserve + 2 + (off + len - 1) div 4096 < card (stock c) + (off + n) div 4096"
    and "off + len \<le> unat (i_size ino)" and "mem_open um" and "user_range buf l" and "len \<le> unat l" and "n \<le> len"
  shows "\<exists>fv' um' m' c' s'. read_loop palloc pfree sread fs off buf len n fv um (m, c, s) = Some (Inr len, fv', um', m', c', s') \<and>
    same_store s s' \<and> pok c' \<and> kept c m m' \<and> holds_file live (file_byte (blocks s) (bsize s) ino) ino m' c' fv' \<and> mem_open um' \<and>
    (\<forall>j. n \<le> j \<and> j < len \<longrightarrow> mbyte um' (buf + of_nat j) = file_byte (blocks s) (bsize s) ino (off + j)) \<and>
    (\<forall>a. unat a < unat buf + n \<or> unat buf + len \<le> unat a \<longrightarrow> mbyte um' a = mbyte um a)"
  using assms
proof (induction "len - n" arbitrary: n fv um m c s rule: less_induct)
  case less
  show ?case
  proof (cases "len \<le> n")
    case True
    then have "n = len" using less.prems(11) by simp
    then show ?thesis using less.prems by (subst read_loop.simps) (auto simp: same_store_def fs_ok_def)
  next
    case False
    let ?cur = "off + n" and ?fb = "file_byte (blocks s) (bsize s) ino"
    let ?in = "?cur mod 4096" and ?po = "?cur div 4096 * 4096"
    define chunk where "chunk = min (4096 - ?in) (len - n)"
    have ch: "0 < chunk" "n + chunk \<le> len" "?in + chunk \<le> 4096" "chunk \<le> len - n" using False by (auto simp: chunk_def)
    have cur: "?cur < unat (i_size ino)" "?po + ?in = ?cur" "?po \<le> ?cur" using less.prems(7) False by auto
    then have pos: "?po < unat (i_size ino)" by linarith
    have usz: "unat (i_size ino) < 2 ^ 32" using unsigned_less [of "i_size ino", where ?'a = nat] by simp
    then have "?po < 2 ^ 64" using cur by simp
    then have up: "unat (of_nat ?po :: u64) = ?po" by (rule unat_of_nat64)
    have dv: "?cur div 4096 \<le> (off + len - 1) div 4096" using False by (intro div_le_mono) simp
    obtain pg fv1 m1 c1 s1 where rq: "file_request_page palloc pfree sread fs fv (m, c, s) (of_nat ?po) = Some (Inr pg, fv1, m1, c1, s1)"
      "same_store s s1" "pok c1" "stock c1 \<subseteq> stock c" "card (stock c) \<le> Suc (card (stock c1))" "kept c m m1"
      "holds_file live ?fb ino m1 c1 fv1" "\<forall>t < 4096. m1 (pg + t) = ?fb (?po + t)"
      using file_request_page_law [OF less.prems(1-5), of "of_nat ?po"] less.prems(6) dv pos up by auto
    have s1: "fs_ok fs s1" "bsize s1 = bsize s" "has s1 = has s" "blocks s1 = blocks s"
      using fs_ok_same [OF less.prems(1) rq(2)] rq(2) by (auto simp: same_store_def)
    let ?p = "buf + of_nat n" and ?bytes = "peek m1 (pg + ?in) chunk"
    have bytes: "?bytes ! j = ?fb (?cur + j)" if "j < chunk" for j using that rq(8) ch(3) cur(2) by (simp add: add.assoc)
    note rg = user_range_within(2,3) [OF less.prems(9,10,11)]
    obtain um1 where w: "safe_copy_to um ?p ?bytes = Some (True, um1)" "mem_open um1" "bytes_at um1 ?p chunk = ?bytes"
        "\<forall>a. chunk \<le> unat (a - ?p) \<longrightarrow> mbyte um1 a = mbyte um a"
      using safe_copy_to_open [OF less.prems(8) rg(1), of ?bytes] rg(2) ch(4) by auto
    have room: "reserve + 2 + (off + len - 1) div 4096 < card (stock c1) + (off + (n + chunk)) div 4096" if "n + chunk < len"
    proof -
      have "chunk = 4096 - ?in" using that by (simp add: chunk_def)
      then have "off + (n + chunk) = ?po + 4096" using cur(2) ch(3) by linarith
      then have "(off + (n + chunk)) div 4096 = Suc (?cur div 4096)" by simp
      then show ?thesis using less.prems(6) rq(5) by linarith
    qed
    have at: "unat (buf + of_nat j) = unat buf + j" if "j \<le> len" for j by (rule user_range_within(1) [OF less.prems(9,10) that])
    have first: "mbyte um1 (buf + of_nat j) = ?fb (off + j)" if "n \<le> j" "j < n + chunk" for j
    proof -
      have "mbyte um1 (?p + of_nat (j - n)) = ?bytes ! (j - n)" using w(3) that
        by (metis (no_types, lifting) add_less_cancel_left bytes_at_def diff_zero le_add_diff_inverse length_upt nth_map nth_upt add_0)
      moreover have "?p + of_nat (j - n) = buf + of_nat j" using that by (simp add: of_nat_diff)
      ultimately show ?thesis using bytes [of "j - n"] that by simp
    qed
    have other: "mbyte um1 a = mbyte um a" if "unat a < unat buf + n \<or> unat buf + (n + chunk) \<le> unat a" for a
      using w(4) outside_range [OF rg(1), of chunk a] rg(2) ch(4) at [OF less.prems(11)] that by auto
    show ?thesis
    proof (cases "n + chunk < len")
      case True
      then have dec: "len - (n + chunk) < len - n" using ch(1) by linarith
      obtain fv' um' m' c' s' where ih: "read_loop palloc pfree sread fs off buf len (n + chunk) fv1 um1 (m1, c1, s1) = Some (Inr len, fv', um', m', c', s')"
        "same_store s1 s'" "pok c'" "kept c1 m1 m'" "holds_file live ?fb ino m' c' fv'" "mem_open um'"
        "\<forall>j. n + chunk \<le> j \<and> j < len \<longrightarrow> mbyte um' (buf + of_nat j) = ?fb (off + j)"
        "\<forall>a. unat a < unat buf + (n + chunk) \<or> unat buf + len \<le> unat a \<longrightarrow> mbyte um' a = mbyte um1 a"
        using less.hyps [OF dec, of s1 m1 c1 fv1 um1] less.prems rq(3,7) s1 w(2) room [OF True] ch True by auto
      have "mbyte um' (buf + of_nat j) = ?fb (off + j)" if "n \<le> j" "j < len" for j
        using ih(7,8) first [of j] at [of j] that by (cases "j < n + chunk") auto
      moreover have "mbyte um' a = mbyte um a" if "unat a < unat buf + n \<or> unat buf + len \<le> unat a" for a
        using ih(8) other [of a] that ch(2) by auto
      moreover have "kept c m m'" using rq(4,6) ih(4) by (auto simp: kept_def)
      moreover have "read_loop palloc pfree sread fs off buf len n fv um (m, c, s) = Some (Inr len, fv', um', m', c', s')"
        using False rq(1) w(1) ih(1) by (subst read_loop.simps) (simp add: Let_def chunk_def)
      ultimately show ?thesis using ih(3,5,6) same_store_trans [OF rq(2) ih(2)] by blast
    next
      case 2: False
      then have e: "n + chunk = len" using ch(2) by simp
      have "read_loop palloc pfree sread fs off buf len len fv1 um1 (m1, c1, s1) = Some (Inr len, fv1, um1, m1, c1, s1)"
        by (subst read_loop.simps) simp
      then have "read_loop palloc pfree sread fs off buf len n fv um (m, c, s) = Some (Inr len, fv1, um1, m1, c1, s1)"
        using False rq(1) w(1) e by (subst read_loop.simps) (simp add: Let_def chunk_def [symmetric])
      then show ?thesis using rq w(2) first other e by blast
    qed
  qed
qed

end

section \<open>Reading files\<close>

text \<open>A file object whose memory object agrees with the volume.\<close>

definition file_ready :: "ext2_fs \<Rightarrow> inode \<Rightarrow> file_vmo \<Rightarrow> pmem \<times> core_alloc \<times> store \<Rightarrow> bool" where
  "file_ready fs ino fv = (\<lambda>(m, c, s). ext2.fs_ok fs s \<and> core_ok c \<and> store_bsize s dvd 4096 \<and>
     file_blocks_ok (store_has s) (store_blocks s) (store_bsize s) ino (file_pages ino * (4096 div store_bsize s)) \<and>
     holds_file core_live (file_byte (store_blocks s) (store_bsize s) ino) ino m c fv)"

abbreviation low_stock :: "pmem \<times> core_alloc \<times> store \<Rightarrow> nat set" where
  "low_stock st \<equiv> core_stock (fst (snd st))"

abbreviation low_byte :: "inode \<Rightarrow> pmem \<times> core_alloc \<times> store \<Rightarrow> nat \<Rightarrow> u8" where
  "low_byte ino st \<equiv> file_byte (store_blocks (snd (snd st))) (store_bsize (snd (snd st))) ino"

lemma page_count: "0 < n \<Longrightarrow> ((off :: nat) + n - 1) div 4096 \<le> off div 4096 + n div 4096 + 1"
proof -
  assume "0 < n"
  define a r b t where "a = off div 4096" and "r = off mod 4096" and "b = n div 4096" and "t = n mod 4096"
  have "off = 4096 * a + r" "r < 4096" "n = 4096 * b + t" "t < 4096" unfolding a_def r_def b_def t_def by simp_all
  then have "off + n - 1 < (a + b + 2) * 4096" by simp
  then show ?thesis using less_mult_imp_div_less [of "off + n - 1" "a + b + 2" 4096] by (simp add: a_def b_def)
qed

lemma read_bytes_law:
  assumes "file_ready fs ino fv st" and "mem_open um" and "user_range buf len"
    and "n = min (unat (i_size ino) - unat off) (unat len)" and "130 + n div 4096 < card (low_stock st)"
  shows "\<exists>fv' um' st'. read_bytes_async core_page_alloc core_page_free part_cache_read fs ino off buf len fv um st = Some (Inr n, fv', um', st') \<and>
     file_ready fs ino fv' st' \<and> low_byte ino st' = low_byte ino st \<and> mem_open um' \<and>
     bytes_at um' buf n = map (low_byte ino st) [unat off..<unat off + n] \<and>
     (\<forall>a. unat a < unat buf \<or> unat buf + n \<le> unat a \<longrightarrow> mbyte um' a = mbyte um a) \<and>
     (\<forall>a. a div 4096 * 4096 \<notin> low_stock st \<longrightarrow> fst st' a = fst st a)"
proof (cases "unat (i_size ino) \<le> unat off \<or> n = 0")
  case True
  then have "n = 0" using assms(4) by auto
  then show ?thesis using assms(1,2,4) by (auto simp: read_bytes_async_def Let_def)
next
  case False
  obtain m c s where st: "st = (m, c, s)" by (cases st) auto
  have r: "ext2.fs_ok fs s" "store_bsize s dvd 4096" "core_ok c"
    "file_blocks_ok (store_has s) (store_blocks s) (store_bsize s) ino (file_pages ino * (4096 div store_bsize s))"
    "holds_file core_live (file_byte (store_blocks s) (store_bsize s) ino) ino m c fv"
    using assms(1) by (auto simp: file_ready_def st)
  have n: "unat off + n \<le> unat (i_size ino)" "n \<le> unat len" "0 < n" using False assms(4) by auto
  have room: "127 + 2 + (unat off + n - 1) div 4096 < card (core_stock c) + (unat off + 0) div 4096"
    using page_count [OF n(3), of "unat off"] assms(5) by (simp add: st)
  obtain fv' um' m' c' s' where l: "read_loop core_page_alloc core_page_free part_cache_read fs (unat off) buf n 0 fv um (m, c, s) =
      Some (Inr n, fv', um', m', c', s')" "ext2.same_store s s'" "core_ok c'" "core_mem.kept c m m'"
     "holds_file core_live (file_byte (store_blocks s) (store_bsize s) ino) ino m' c' fv'" "mem_open um'"
     "\<forall>j. 0 \<le> j \<and> j < n \<longrightarrow> mbyte um' (buf + of_nat j) = file_byte (store_blocks s) (store_bsize s) ino (unat off + j)"
     "\<forall>a. unat a < unat buf + 0 \<or> unat buf + n \<le> unat a \<longrightarrow> mbyte um' a = mbyte um a"
    using ext2.read_loop_law [OF r(1,2,4,5,3) room n(1) assms(2,3) n(2) le0] by blast
  have s': "ext2.fs_ok fs s'" "store_has s' = store_has s" "store_blocks s' = store_blocks s" "store_bsize s' = store_bsize s"
    using ext2.fs_ok_same [OF r(1) l(2)] l(2) by (auto simp: ext2.same_store_def)
  have "file_ready fs ino fv' (m', c', s')" using r l(3,5) s' by (simp add: file_ready_def)
  moreover have "bytes_at um' buf n = map (file_byte (store_blocks s) (store_bsize s) ino) [unat off..<unat off + n]"
    using l(7) by (intro nth_equalityI) (simp_all add: bytes_at_def)
  moreover have "read_bytes_async core_page_alloc core_page_free part_cache_read fs ino off buf len fv um st = Some (Inr n, fv', um', m', c', s')"
    using False l(1) unfolding read_bytes_async_def Let_def st assms(4) [symmetric] by simp
  ultimately show ?thesis using l(4,6,8) s' by (auto simp: st core_mem.kept_def)
qed


text \<open>A file of the sample volume: block 5, then holes.\<close>

definition sample_world :: "(core_alloc, store) ext_world" where
  "sample_world =
    \<lparr>x_handles = handle_table_new, x_mem = \<lparr>mbyte = (\<lambda>a. if a = 8192 then 97 else 0), can_read = (\<lambda>_. True), can_write = (\<lambda>_. True)\<rparr>,
     x_dirs = (\<lambda>_. \<lparr>ed_inode_num = 2, ed_inode = sample_inode\<rparr>),
     x_files = (\<lambda>_. \<lparr>ef_inode_num = 12, ef_inode = sample_inode, ef_vmo = file_vmo_new 12 sample_inode 1024, ef_offset = 7\<rparr>),
     x_vmos = Map.empty, x_next = 5, x_low = (\<lambda>_. 0, roomy_core, sample_store)\<rparr>"

lemma sample_file_ready: "file_ready sample_fs sample_inode (file_vmo_new 12 sample_inode 1024) (x_low sample_world)"
proof -
  have "file_block (store_blocks sample_store) 256 sample_inode k = Some (if k = 0 then 5 else 0)"
    "block_valid (store_has sample_store) (store_blocks sample_store) 256 sample_inode k" if "k < 4" for k
    using that by (auto simp: file_block_def block_valid_def tree_path_def sample_inode_def less_Suc_eq numeral_eq_Suc)
  then have "file_blocks_ok (store_has sample_store) (store_blocks sample_store) 1024 sample_inode 4"
    using sample_store_ok(3) [of 5] by (auto simp: file_blocks_ok_def) (simp add: sample_inode_def)
  moreover have "file_pages sample_inode = 1" by (simp add: file_pages_def sample_inode_def div_ceil_def)
  ultimately show ?thesis
    using sample_mounted mounted_fs [OF sample_mounted] sample_store_ok(2) file_vmo_new_holds [where ino = sample_inode]
    by (simp add: file_ready_def sample_world_def) (simp add: sample_inode_def)
qed


section \<open>Looking up and listing\<close>

text \<open>The slot of an inode and what has to hold of the tables for it to be on the volume.\<close>

definition inode_offset :: "ext2_fs \<Rightarrow> u32 \<Rightarrow> nat" where
  "inode_offset fs n = unat (n - 1) mod unat (inodes_per_group fs) * unat (inode_size fs)"

definition inode_group :: "ext2_fs \<Rightarrow> u32 \<Rightarrow> nat" where
  "inode_group fs n = unat (n - 1) div unat (inodes_per_group fs)"

definition inode_block :: "ext2_fs \<Rightarrow> nat \<Rightarrow> u32 \<Rightarrow> nat" where
  "inode_block fs bs n = unat (gd_inode_table (bgdt fs ! inode_group fs n)) + inode_offset fs n div bs"

definition inode_at :: "ext2_fs \<Rightarrow> (nat \<Rightarrow> u8 list) \<Rightarrow> nat \<Rightarrow> u32 \<Rightarrow> inode" where
  "inode_at fs f bs n = decode_inode (take 128 (drop (inode_offset fs n mod bs) (f (inode_block fs bs n))))"

definition inode_valid :: "ext2_fs \<Rightarrow> (nat \<Rightarrow> bool) \<Rightarrow> nat \<Rightarrow> u32 \<Rightarrow> bool" where
  "inode_valid fs P bs n \<longleftrightarrow> n \<noteq> 0 \<and> inodes_per_group fs \<noteq> 0 \<and> inode_group fs n < length (bgdt fs) \<and>
     unat (inodes_per_group fs) * unat (inode_size fs) < 2 ^ 32 \<and> 128 \<le> unat (inode_size fs) \<and> unat (inode_size fs) dvd bs \<and>
     inode_block fs bs n < 2 ^ 32 \<and> inode_block fs bs n \<noteq> 0 \<and> P (inode_block fs bs n)"

definition dir_ok :: "(nat \<Rightarrow> bool) \<Rightarrow> (nat \<Rightarrow> u8 list) \<Rightarrow> inode \<Rightarrow> (u32 \<Rightarrow> dentry list) \<Rightarrow> bool" where
  "dir_ok P f ino D \<longleftrightarrow>
    (\<forall>b \<in> set (direct ino). b \<noteq> 0 \<longrightarrow> P (unat b) \<and> f (unat b) = dir_block (D b) \<and> (\<forall>e \<in> set (D b). dentry_ok e))"

definition dir_entries :: "inode \<Rightarrow> (u32 \<Rightarrow> dentry list) \<Rightarrow> dentry list" where
  "dir_entries ino D = concat (map (\<lambda>b. if b = 0 then [] else D b) (direct ino))"

lemma dir_names: "concat (map (\<lambda>b. if b = 0 then [] else names (D b)) bl) = names (concat (map (\<lambda>b. if b = 0 then [] else D b) bl))"
  by (induction bl) (auto simp: names_def)

lemma filename_new_open:
  assumes "mem_open m" and "user_range p l" and "unat l \<le> 254" and "utf8_valid (bytes_at m p (unat l))"
  shows "filename_new m p l = Some (Inr (bytes_at m p (unat l)))"
proof -
  have "\<not> FILENAME_LEN_MAX < l" using assms(3) by (simp add: FILENAME_LEN_MAX_def word_less_nat_alt)
  moreover have "safe_copy_from m p l = Some (True, bytes_at m p (unat l))"
    using safe_copy_from_open [OF assms(1,2), of "unat l"] by simp
  ultimately show ?thesis using assms(4) by (simp add: filename_new_def)
qed

lemma lookup_law:
  assumes "mounted fs c s" and "nm \<noteq> []" and "dir_ok (store_has s) (store_blocks s) ino D"
  shows "\<exists>m' c' s'. lookup_in_dir core_page_alloc core_page_free part_cache_read fs (m, c, s) ino nm =
       Some (Inr (map_of (names (dir_entries ino D)) nm), m', c', s') \<and>
     ext2.same_store s s' \<and> ext2.same_pages c c' \<and> core_mem.kept c m m'"
proof -
  from mounted_fs [OF assms(1)] have fs: "ext2.fs_ok fs s" and c: "core_ok c" "127 < card (core_stock c)" by auto
  obtain page c1 c2 where pg: "core_page_alloc c = Some (page, c1)" "page \<noteq> 0" "page \<in> core_stock c" "core_page_free c1 page = Some c2"
    "ext2.same_pages c c2"
    by (rule ext2.page_round [OF c])
  obtain m' s' where "lookup_blocks part_cache_read fs page nm (direct ino) m s =
      Some (Inr (map_of (names (dir_entries ino D)) nm), m', s')" "ext2.same_store s s'" "core_mem.kept c m m'"
    using ext2.lookup_blocks_law [OF fs _ assms(2) c(1) pg(3), of "direct ino" D m] assms(3)
    by (auto simp: dir_ok_def dir_entries_def dir_names)
  then show ?thesis using pg(1,2,4,5) by (auto simp: lookup_in_dir_def)
qed

lemma mounted_same: "mounted fs c s \<Longrightarrow> ext2.same_store s s' \<Longrightarrow> ext2.same_pages c c' \<Longrightarrow> mounted fs c' s'"
  by (auto simp: mounted_def ext2.same_store_def ext2.same_pages_def)

lemma inode_law:
  assumes "mounted fs c s" and "inode_valid fs (store_has s) (store_bsize s) n"
  shows "\<exists>m' c' s'. read_inode core_page_alloc core_page_free part_cache_read fs (m, c, s) n =
       Some (Inr (inode_at fs (store_blocks s) (store_bsize s) n), m', c', s') \<and>
     ext2.same_store s s' \<and> ext2.same_pages c c' \<and> core_mem.kept c m m'"
proof -
  note v = assms(2) [unfolded inode_valid_def inode_block_def]
  from mounted_fs [OF assms(1)] have fs: "ext2.fs_ok fs s" and c: "core_ok c" "127 < card (core_stock c)" by auto
  show ?thesis unfolding inode_at_def inode_block_def
    by (rule ext2.read_inode_law [OF fs _ _ inode_group_def _ inode_offset_def _ _ _ _ refl _ _ c]) (use v in auto)
qed



text \<open>What a listing shows of the entries of a directory.\<close>

definition listing :: "dentry list \<Rightarrow> (u8 list \<times> u8) list" where
  "listing es = map (\<lambda>e. (d_name e, d_ftype e))
     (filter (\<lambda>e. d_ino e \<noteq> 0 \<and> d_name e \<noteq> [] \<and> d_name e \<noteq> [46] \<and> d_name e \<noteq> [46, 46]) es)"

lemma listing_append [simp]: "listing (es @ fs) = listing es @ listing fs"
  by (simp add: listing_def)

lemma list_block_spec:
  assumes "\<forall>e \<in> set es. dentry_ok e" and "bs = length pre + length (dir_block es)" and "peek m base bs = pre @ dir_block es"
  shows "list_block m base bs (length pre) = listing es"
  using assms
proof (induction es arbitrary: pre)
  case Nil
  then show ?case by (subst list_block.simps) (simp add: dir_block_def listing_def)
next
  case (Cons e es)
  have "dentry_ok e" "bs = length pre + rec_len e + length (dir_block es)" "peek m base bs = pre @ encode_dentry e @ dir_block es"
    using Cons.prems by (simp_all add: dir_block_def)
  note d = dentry_read [OF this]
  have "list_block m base bs (length pre + rec_len e) = listing es"
    using Cons.IH [of "pre @ encode_dentry e"] Cons.prems by (simp add: dir_block_def)
  then show ?case using d by (subst list_block.simps) (auto simp: Let_def listing_def)
qed

context ext2_world
begin

lemma list_blocks_law:
  assumes "fs_ok fs s"
    and "\<forall>b \<in> set bl. b \<noteq> 0 \<longrightarrow> has s (unat b) \<and> blocks s (unat b) = dir_block (D b) \<and> (\<forall>e \<in> set (D b). dentry_ok e)"
    and "pok c" and "page \<in> stock c"
  shows "\<exists>m' s'. list_blocks sread fs page bl m s = Some (Inr (listing (concat (map (\<lambda>b. if b = 0 then [] else D b) bl))), m', s') \<and>
     same_store s s' \<and> kept c m m'"
  using assms
proof (induction bl arbitrary: m s)
  case Nil
  then show ?case by (simp add: same_store_def fs_ok_def listing_def)
next
  case (Cons b bl)
  show ?case
  proof (cases "b = 0")
    case True
    then show ?thesis using Cons by simp
  next
    case False
    then have b: "has s (unat b)" "blocks s (unat b) = dir_block (D b)" "\<forall>e \<in> set (D b). dentry_ok e" using Cons.prems(2) by auto
    let ?m = "poke m page (dir_block (D b))"
    have len: "length (dir_block (D b)) = bsize s" "unat (fs_block_size fs) = bsize s" "bsize s \<le> 4096"
      using block_length [OF _ b(1)] b(2) Cons.prems(1) by (auto simp: fs_ok_def)
    obtain s1 where r: "read_block sread fs m s b page = Some (True, ?m, s1)" "same_store s s1"
      using read_block_law [OF Cons.prems(1), of b m page] b False by (auto simp: block_of_def)
    have sc: "list_block ?m page (bsize s) 0 = listing (D b)"
      using list_block_spec [of "D b" "bsize s" "[]" ?m page] b(3) len(1) peek_poke_same [of m page "dir_block (D b)"] by simp
    have k: "kept c m ?m" using poke_page_kept [OF Cons.prems(3,4), of 0] len by simp
    have "fs_ok fs s1" "has s1 = has s" "blocks s1 = blocks s" using r(2) fs_ok_same [OF Cons.prems(1) r(2)] by (auto simp: same_store_def)
    then obtain m' s' where "list_blocks sread fs page bl ?m s1 =
        Some (Inr (listing (concat (map (\<lambda>b. if b = 0 then [] else D b) bl))), m', s')" "same_store s1 s'" "kept c ?m m'"
      using Cons.IH [of s1 ?m] Cons.prems by auto
    then show ?thesis using False r sc len(2) same_store_trans [OF r(2)] kept_trans [OF k] by auto
  qed
qed

end

text \<open>
  Listing a directory of a volume. The sink receives one packet for every entry in use except
  the two dot entries, in the order of the directory's blocks, with its name and kind; every
  packet but the last announces another. The scan ends on every well-formed block, and its page
  is given back before the first packet is sent.
\<close>

theorem ext_list_correct:
  assumes "x_low w = (m, c, s)" and "mounted fs c s" and "dir_ok (store_has s) (store_blocks s) (ed_inode (x_dirs w d)) D"
    and "resolve (x_handles w) sink WRITE = Inr ob"
  shows "\<exists>m' c' s'. read_only c s m c' s' m' \<and>
     ext_dir_invoke core_page_alloc core_page_free part_cache_read fs ow pad d (DirectoryInv (ListDir pos sink)) rs w =
       Some (write_packets (ow ob) pad (ext_packets (listing (dir_entries (ed_inode (x_dirs w d)) D))) (w\<lparr>x_low := (m', c', s')\<rparr>))"
proof -
  from mounted_fs [OF assms(2)] have fs: "ext2.fs_ok fs s" and c: "core_ok c" "127 < card (core_stock c)" by auto
  obtain page c1 c2 where pg: "core_page_alloc c = Some (page, c1)" "page \<noteq> 0" "page \<in> core_stock c" "core_page_free c1 page = Some c2"
    "ext2.same_pages c c2"
    by (rule ext2.page_round [OF c])
  obtain m' s' where l: "list_blocks part_cache_read fs page (direct (ed_inode (x_dirs w d))) m s =
      Some (Inr (listing (dir_entries (ed_inode (x_dirs w d)) D)), m', s')" "ext2.same_store s s'" "core_mem.kept c m m'"
    using ext2.list_blocks_law [OF fs _ c(1) pg(3), of "direct (ed_inode (x_dirs w d))" D m] assms(3)
    by (auto simp: dir_ok_def dir_entries_def)
  have "ext_dir_invoke core_page_alloc core_page_free part_cache_read fs ow pad d (DirectoryInv (ListDir pos sink)) rs w =
       Some (write_packets (ow ob) pad (ext_packets (listing (dir_entries (ed_inode (x_dirs w d)) D))) (w\<lparr>x_low := (m', c2, s')\<rparr>))"
    using pg(1,2,4) l(1) assms(1,4) by (simp add: ext_list_def Let_def)
  then show ?thesis using read_onlyI [OF l(2) pg(5) l(3)] by blast
qed

theorem ext_list_correct_witness:
  "\<exists>w'. ext_dir_invoke core_page_alloc core_page_free part_cache_read sample_fs (\<lambda>_ bs w. (Inr (of_nat (length bs)), w\<lparr>x_next := length bs\<rparr>))
      (replicate 4 0) 0 (DirectoryInv (ListDir 0 1)) READ (sample_world\<lparr>x_handles := snd (ht_insert handle_table_new (KSocket 0) WRITE)\<rparr>) = Some (Inr 0, w') \<and>
     x_next w' = 280"
proof -
  let ?w = "sample_world\<lparr>x_handles := snd (ht_insert handle_table_new (KSocket 0) WRITE)\<rparr>"
  have d: "dir_ok (store_has sample_store) (store_blocks sample_store) (ed_inode (x_dirs ?w 0)) (\<lambda>_. sample_dir)"
    using sample_store_ok(3) [of 5] by (simp add: dir_ok_def sample_world_def sample_inode_def sample_blocks sample_dir_def dentry_ok_def rec_len_def)
  have l: "x_low ?w = (\<lambda>_. 0, roomy_core, sample_store)" by (simp add: sample_world_def)
  have r: "resolve (x_handles ?w) 1 WRITE = Inr (KSocket 0)"
    by (simp add: resolve_def resolve_entry_def ht_insert_def handle_table_new_def Let_def flags_contains_def)
  have e: "listing (dir_entries (ed_inode (x_dirs sample_world 0)) (\<lambda>_. sample_dir)) = [([97], 2)]"
    by (simp add: sample_world_def sample_inode_def dir_entries_def listing_def sample_dir_def)
  show ?thesis
    using ext_list_correct [OF l sample_mounted d r, of "\<lambda>_ bs w. (Inr (of_nat (length bs)), w\<lparr>x_next := length bs\<rparr>)" "replicate 4 0" 0 READ]
    by (auto simp: e encode_packet_def)
qed

text \<open>The memory object of a file comes with every right, whatever rights the file was opened with.\<close>

lemma get_vmo_amplifies:
  "\<exists>h w'. ext_file_invoke pa pf sr fs f (FileInv GetVmo) w = Some (Inr h, w') \<and>
     entries (x_handles w') h = Some \<lparr>rights = flags_all, object = KVmo (x_next w)\<rparr>"
  by (simp add: ht_insert_def Let_def)

end
