(* ===== verification/Acpi.thy ===== *)
theory Acpi
  imports Bytes
begin

text \<open>
  The firmware tables: \<^verbatim>\<open>kernel/src/core/acpi/\<close> (\<^verbatim>\<open>rsdp.rs\<close>, \<^verbatim>\<open>sdt.rs\<close>, \<^verbatim>\<open>madt.rs\<close>, \<^verbatim>\<open>fadt.rs\<close>). Memory is a byte per
  virtual address, physical memory starts at \<open>hhdm\<close>; packed structures are read field by field. A
  missing table or a wrong checksum panics.
\<close>

type_synonym vmem = "u64 \<Rightarrow> u8"

definition bytes_from :: "vmem \<Rightarrow> u64 \<Rightarrow> nat \<Rightarrow> u8 list" where
  "bytes_from vm p n = map (\<lambda>k. vm (p + of_nat k)) [0..<n]"

abbreviation fld :: "vmem \<Rightarrow> u64 \<Rightarrow> nat \<Rightarrow> nat \<Rightarrow> 'a::len word" where
  "fld vm p off n \<equiv> le_word (bytes_from vm (p + of_nat off) n)"

section \<open>The root pointer\<close>

record rsdp =
  rsdp_bytes :: "u8 list"
  rsdp_revision :: u8
  rsdt_address :: u32
  xsdt_address :: u64

definition rsdp_get :: "vmem \<Rightarrow> u64 \<Rightarrow> rsdp" where
  "rsdp_get vm p =
    \<lparr>rsdp_bytes = bytes_from vm p (if 2 \<le> vm (p + 15) then 36 else 20), rsdp_revision = vm (p + 15),
     rsdt_address = fld vm p 16 4, xsdt_address = (if 2 \<le> vm (p + 15) then fld vm p 24 8 else 0)\<rparr>"

definition checksum :: "u8 list \<Rightarrow> u8" where
  "checksum bs = fold (\<lambda>x acc. acc + x) bs 0"

definition rsdp_validate :: "rsdp \<Rightarrow> bool" where
  "rsdp_validate r \<longleftrightarrow> checksum (take 20 (rsdp_bytes r)) = 0 \<and> (2 \<le> rsdp_revision r \<longrightarrow> checksum (rsdp_bytes r) = 0)"

datatype acpi_root = RSDT u64 | XSDT u64

definition get_table :: "u64 \<Rightarrow> rsdp \<Rightarrow> acpi_root run" where
  "get_table hhdm r =
    (if \<not> rsdp_validate r then panic
     else if 2 \<le> rsdp_revision r \<and> xsdt_address r \<noteq> 0 then ret (XSDT (xsdt_address r + hhdm))
     else ret (RSDT (ucast (rsdt_address r) + hhdm)))"

section \<open>The table of tables\<close>

text \<open>The header of a table is 36 bytes, its length at offset 4; the subtraction wraps as in the release build.\<close>

definition sdt_addresses :: "vmem \<Rightarrow> u64 \<Rightarrow> acpi_root \<Rightarrow> u64 list" where
  "sdt_addresses vm hhdm root =
    (case root of
       RSDT addr \<Rightarrow> map (\<lambda>i. ucast (fld vm addr (36 + i * 4) 4 :: u32) + hhdm) [0..<unat (ucast (fld vm addr 4 4 :: u32) - 36 :: u64) div 4]
     | XSDT addr \<Rightarrow> map (\<lambda>i. (fld vm addr (36 + i * 8) 8 :: u64) + hhdm) [0..<unat (ucast (fld vm addr 4 4 :: u32) - 36 :: u64) div 8])"

definition find_table :: "vmem \<Rightarrow> u8 list \<Rightarrow> u64 list \<Rightarrow> u64 option" where
  "find_table vm signature addrs = find (\<lambda>a. bytes_from vm a 4 = signature) addrs"

section \<open>Interrupt controllers\<close>

record local_apic =
  proc_id :: u8
  apic_id :: u8
  is_enabled :: bool

record io_apic =
  ioapic_id :: u8
  ioapic_addr :: u32
  gsi_base :: u32

record interrupt_override =
  io_bus :: u8
  io_source :: u8
  io_gsi :: u32
  io_flags :: u16

record madt_info =
  local_apic_base :: u32
  local_apics :: "local_apic list"
  io_apics :: "io_apic list"
  overrides :: "interrupt_override list"

definition madt_entry :: "vmem \<Rightarrow> u64 \<Rightarrow> madt_info \<Rightarrow> madt_info" where
  "madt_entry vm p info =
    (if vm p = 0
     then info\<lparr>local_apics := local_apics info @ [\<lparr>proc_id = vm (p + 2), apic_id = vm (p + 3), is_enabled = ((fld vm p 4 4 :: u32) AND 1 \<noteq> 0)\<rparr>]\<rparr>
     else if vm p = 1
     then info\<lparr>io_apics := io_apics info @ [\<lparr>ioapic_id = vm (p + 2), ioapic_addr = fld vm p 4 4, gsi_base = fld vm p 8 4\<rparr>]\<rparr>
     else if vm p = 2
     then info\<lparr>overrides := overrides info @ [\<lparr>io_bus = vm (p + 2), io_source = vm (p + 3), io_gsi = fld vm p 4 4, io_flags = fld vm p 8 2\<rparr>]\<rparr>
     else info)"

partial_function (option) madt_loop :: "vmem \<Rightarrow> u64 \<Rightarrow> u64 \<Rightarrow> madt_info \<Rightarrow> madt_info run" where
  "madt_loop vm end_addr p info =
    (if p < end_addr
     then if vm (p + 1) = 0 then Some info
          else madt_loop vm end_addr (p + ucast (vm (p + 1))) (madt_entry vm p info)
     else Some info)"

definition parse_madt :: "vmem \<Rightarrow> u64 list \<Rightarrow> madt_info run" where
  "parse_madt vm addrs =
    (case find_table vm [65, 80, 73, 67] addrs of
       None \<Rightarrow> panic
     | Some a \<Rightarrow>
         madt_loop vm (a + ucast (fld vm a 4 4 :: u32)) (a + 44)
           \<lparr>local_apic_base = fld vm a 36 4, local_apics = [], io_apics = [], overrides = []\<rparr>)"

section \<open>The power management table\<close>

definition get_pm_timer_addr :: "vmem \<Rightarrow> u64 list \<Rightarrow> (u64 \<times> bool) run" where
  "get_pm_timer_addr vm addrs =
    (case find_table vm [70, 65, 67, 80] addrs of
       None \<Rightarrow> panic
     | Some a \<Rightarrow>
         ret (if 2 \<le> vm (a + 8) \<and> (fld vm a 212 8 :: u64) \<noteq> 0 then (fld vm a 212 8, vm (a + 208) = 0)
              else (ucast (fld vm a 76 4 :: u32), False)))"

definition get_century_register :: "vmem \<Rightarrow> u64 list \<Rightarrow> u8 run" where
  "get_century_register vm addrs =
    (case find_table vm [70, 65, 67, 80] addrs of None \<Rightarrow> panic | Some a \<Rightarrow> ret (vm (a + 108)))"

section \<open>What the parser recovers\<close>

text \<open>The entries as the firmware writes them.\<close>

datatype madt_item = LocalApicItem u8 u8 u32 | IoApicItem u8 u32 u32 | OverrideItem u8 u8 u32 u16 | OtherItem u8 "u8 list"

fun encode_item :: "madt_item \<Rightarrow> u8 list" where
  "encode_item (LocalApicItem p a f) = [0, 8, p, a] @ le_bytes 4 f"
| "encode_item (IoApicItem i a g) = [1, 12, i, 0] @ le_bytes 4 a @ le_bytes 4 g"
| "encode_item (OverrideItem b s g f) = [2, 10, b, s] @ le_bytes 4 g @ le_bytes 2 f"
| "encode_item (OtherItem t bs) = [t, of_nat (length bs + 2)] @ bs"

fun item_ok :: "madt_item \<Rightarrow> bool" where
  "item_ok (OtherItem t bs) \<longleftrightarrow> 2 < t \<and> length bs + 2 < 256"
| "item_ok _ = True"

fun add_item :: "madt_item \<Rightarrow> madt_info \<Rightarrow> madt_info" where
  "add_item (LocalApicItem p a f) info = info\<lparr>local_apics := local_apics info @ [\<lparr>proc_id = p, apic_id = a, is_enabled = (f AND 1 \<noteq> 0)\<rparr>]\<rparr>"
| "add_item (IoApicItem i a g) info = info\<lparr>io_apics := io_apics info @ [\<lparr>ioapic_id = i, ioapic_addr = a, gsi_base = g\<rparr>]\<rparr>"
| "add_item (OverrideItem b s g f) info = info\<lparr>overrides := overrides info @ [\<lparr>io_bus = b, io_source = s, io_gsi = g, io_flags = f\<rparr>]\<rparr>"
| "add_item (OtherItem _ _) info = info"

definition madt_bytes :: "u32 \<Rightarrow> u8 list \<Rightarrow> u32 \<Rightarrow> madt_item list \<Rightarrow> u8 list" where
  "madt_bytes base rest flags items =
    [65, 80, 73, 67] @ le_bytes 4 (of_nat (44 + length (concat (map encode_item items))) :: u32) @ rest @
    le_bytes 4 base @ le_bytes 4 flags @ concat (map encode_item items)"

lemma bytes_from_app:
  "bytes_from vm p n = xs @ ys \<Longrightarrow> bytes_from vm p (length xs) = xs \<and> bytes_from vm (p + of_nat (length xs)) (n - length xs) = ys"
proof -
  assume b: "bytes_from vm p n = xs @ ys"
  have n: "n = length xs + length ys" using arg_cong [OF b, of length] by (simp add: bytes_from_def)
  have nth: "vm (p + of_nat i) = (xs @ ys) ! i" if "i < n" for i using that b by (metis (no_types, lifting) bytes_from_def add.left_neutral length_map length_upt minus_nat.diff_0 nth_map nth_upt)
  show ?thesis
  proof
    show "bytes_from vm p (length xs) = xs" using nth n by (auto simp: bytes_from_def nth_append intro!: nth_equalityI)
    show "bytes_from vm (p + of_nat (length xs)) (n - length xs) = ys"
      using nth [of "length xs + _"] n by (auto simp: bytes_from_def nth_append add.assoc intro!: nth_equalityI)
  qed
qed

lemma bytes_from_part:
  assumes "bytes_from vm p (length bs) = bs" and "off + n \<le> length bs"
  shows "bytes_from vm (p + of_nat off) n = take n (drop off bs)"
proof -
  have "vm (p + of_nat i) = bs ! i" if "i < length bs" for i
    using that arg_cong [OF assms(1), of "\<lambda>l. l ! i"] by (simp add: bytes_from_def)
  from this [of "off + _"] show ?thesis
    using assms(2) by (auto simp: bytes_from_def add.assoc intro!: nth_equalityI)
qed

lemma item_length: "item_ok it \<Longrightarrow> 2 \<le> length (encode_item it) \<and> length (encode_item it) < 256 \<and> encode_item it ! 1 = of_nat (length (encode_item it))"
  by (cases it) auto

lemma item_read:
  assumes ok: "item_ok it" and b: "bytes_from vm p (length (encode_item it)) = encode_item it"
  shows "madt_entry vm p info = add_item it info" and "vm (p + 1) = of_nat (length (encode_item it))"
proof -
  have at: "vm (p + of_nat i) = encode_item it ! i" if "i < length (encode_item it)" for i
    using that arg_cong [OF b, of "\<lambda>l. l ! i"] by (simp add: bytes_from_def)
  note part = bytes_from_part [OF b]
  note l = item_length [OF ok]
  show "vm (p + 1) = of_nat (length (encode_item it))" using at [of 1] l by simp
  show "madt_entry vm p info = add_item it info"
  proof (cases it)
    case (LocalApicItem pr a f)
    then show ?thesis using at [of 0] at [of 2] at [of 3] part [of 4 4] by (simp add: madt_entry_def le_roundtrip)
  next
    case (IoApicItem i a g)
    then show ?thesis using at [of 0] at [of 2] part [of 4 4] part [of 8 4] by (simp add: madt_entry_def le_roundtrip)
  next
    case (OverrideItem bu s g f)
    then show ?thesis using at [of 0] at [of 2] at [of 3] part [of 4 4] part [of 8 2] by (simp add: madt_entry_def le_roundtrip)
  next
    case (OtherItem t bs)
    then show ?thesis using at [of 0] ok by (auto simp: madt_entry_def)
  qed
qed

lemma madt_loop_law:
  assumes "\<forall>it \<in> set items. item_ok it" and "bytes_from vm p (length (concat (map encode_item items))) = concat (map encode_item items)"
    and "unat p + length (concat (map encode_item items)) < 2 ^ 64"
  shows "madt_loop vm (p + of_nat (length (concat (map encode_item items)))) p info = Some (fold add_item items info)"
  using assms
proof (induction items arbitrary: p info)
  case Nil
  then show ?case by (subst madt_loop.simps) simp
next
  case (Cons it items)
  let ?e = "encode_item it" and ?r = "concat (map encode_item items)"
  have ok: "item_ok it" using Cons.prems(1) by simp
  note l = item_length [OF ok]
  have split: "bytes_from vm p (length ?e) = ?e" "bytes_from vm (p + of_nat (length ?e)) (length ?r) = ?r"
    using bytes_from_app [of vm p "length (?e @ ?r)" ?e ?r] Cons.prems(2) by simp_all
  note rd = item_read [OF ok split(1)]
  have ue: "unat (of_nat (length ?e) :: u64) = length ?e" using l by (simp add: unsigned_of_nat take_bit_nat_eq_self)
  have up: "unat (p + of_nat (length ?e)) = unat p + length ?e" using unat_add_lem [of p "of_nat (length ?e)"] ue Cons.prems(3) by simp
  have le: "ucast (of_nat (length ?e) :: u8) = (of_nat (length ?e) :: u64)"
    using l by (simp add: word_unat_eq_iff ue unsigned_ucast_eq) (simp add: unsigned_of_nat take_bit_nat_eq_self)
  have "0 < length ?e" "length ?e < 256" using l by linarith+
  then have nz: "(of_nat (length ?e) :: u8) \<noteq> 0"
    by (simp add: word_unat_eq_iff unsigned_of_nat take_bit_nat_eq_self)
  have "length (?e @ ?r) < 2 ^ 64" using Cons.prems(3) by simp
  then have ur: "unat (of_nat (length (?e @ ?r)) :: u64) = length (?e @ ?r)" 
    using take_bit_nat_eq_self [of "length (?e @ ?r)" 64] by (simp add: unsigned_of_nat del: of_nat_add)
  have lt: "p < p + of_nat (length (?e @ ?r))"
    using unat_add_lem [of p "of_nat (length (?e @ ?r))"] ur Cons.prems(3) \<open>0 < length ?e\<close> by (simp add: word_less_nat_alt)
  have en: "p + of_nat (length (?e @ ?r)) = p + of_nat (length ?e) + of_nat (length ?r)" by simp
  have IH: "madt_loop vm (p + of_nat (length ?e) + of_nat (length ?r)) (p + of_nat (length ?e)) (add_item it info) = Some (fold add_item items (add_item it info))"
    using Cons.IH [OF _ split(2), of "add_item it info"] Cons.prems(1,3) up by simp
  show ?case
    using lt nz IH unfolding en
    by (subst madt_loop.simps) (simp add: rd le add.assoc)
qed

text \<open>
  The interrupt controller table is parsed back to what the firmware wrote: for a table of
  entries of any kinds that lies below the end of the address space and is the first one with its
  signature, the parser returns, with the local APICs, the I/O APICs and the overrides of the table
  in their order; entries of unknown kinds are skipped.
\<close>

theorem parse_madt_roundtrip:
  assumes "bytes_from vm a (length (madt_bytes base rest flags items)) = madt_bytes base rest flags items"
    and "length rest = 28" and "\<forall>it \<in> set items. item_ok it" and "length (madt_bytes base rest flags items) < 2 ^ 32"
    and "unat a + length (madt_bytes base rest flags items) < 2 ^ 64"
    and "addrs = pre @ a # post" and "\<forall>x \<in> set pre. bytes_from vm x 4 \<noteq> [65, 80, 73, 67]"
  shows "parse_madt vm addrs =
    Some (fold add_item items \<lparr>local_apic_base = base, local_apics = [], io_apics = [], overrides = []\<rparr>)"
proof -
  let ?c = "concat (map encode_item items)" and ?b = "madt_bytes base rest flags items"
  have len: "length ?b = 44 + length ?c" using assms(2) by (simp add: madt_bytes_def)
  note part = bytes_from_part [OF assms(1)]
  have sig: "bytes_from vm a 4 = [65, 80, 73, 67]" using part [of 0 4] len by (simp add: madt_bytes_def)
  have "(fld vm a 4 4 :: u32) = of_nat (44 + length ?c)" using part [of 4 4] len by (simp add: madt_bytes_def le_roundtrip del: of_nat_add)
  moreover have "ucast (of_nat (44 + length ?c) :: u32) = (of_nat (44 + length ?c) :: u64)"
    using assms(4) len by (simp add: word_unat_eq_iff unsigned_ucast_eq unsigned_of_nat take_bit_nat_eq_self del: of_nat_add)
  ultimately have e: "a + ucast (fld vm a 4 4 :: u32) = a + 44 + of_nat (length ?c)" by simp
  have base: "(fld vm a 36 4 :: u32) = base" using part [of 36 4] len assms(2) by (simp add: madt_bytes_def le_roundtrip)
  have d: "drop 44 ?b = ?c" using assms(2) by (simp add: madt_bytes_def)
  then have items: "bytes_from vm (a + 44) (length ?c) = ?c" using part [of 44 "length ?c"] len by simp
  have "unat (a + 44) = unat a + 44" using unat_add_lem [of a 44] assms(5) len by simp
  then have "madt_loop vm (a + 44 + of_nat (length ?c)) (a + 44) info = Some (fold add_item items info)" for info
    using madt_loop_law [OF assms(3) items] assms(5) len by simp
  moreover have "find_table vm [65, 80, 73, 67] addrs = Some a"
    unfolding assms(6) using assms(7) sig by (induction pre) (simp_all add: find_table_def)
  ultimately show ?thesis by (simp only: parse_madt_def option.case e base)
qed

definition sample_madt :: "u8 list" where
  "sample_madt = madt_bytes 0xFEE00000 (replicate 28 0) 1 [LocalApicItem 0 0 1, OtherItem 4 [255, 0, 0, 1], OverrideItem 0 1 1 0, IoApicItem 1 0xFEC00000 0]"

lemma sample_madt_placed:
  "bytes_from (\<lambda>a. if unat (a - 0xFFFF800000001000) < length sample_madt then sample_madt ! unat (a - 0xFFFF800000001000) else 0)
     0xFFFF800000001000 (length sample_madt) = sample_madt"
proof (rule nth_equalityI)
  fix i assume "i < length (bytes_from (\<lambda>a. if unat (a - 0xFFFF800000001000) < length sample_madt then sample_madt ! unat (a - 0xFFFF800000001000) else 0)
     0xFFFF800000001000 (length sample_madt))"
  moreover have "length sample_madt < 2 ^ 64" by (simp add: sample_madt_def madt_bytes_def)
  ultimately show "bytes_from (\<lambda>a. if unat (a - 0xFFFF800000001000) < length sample_madt then sample_madt ! unat (a - 0xFFFF800000001000) else 0)
     0xFFFF800000001000 (length sample_madt) ! i = sample_madt ! i"
    by (simp add: bytes_from_def unsigned_of_nat take_bit_nat_eq_self)
qed (simp add: bytes_from_def)

theorem parse_madt_roundtrip_witness:
  "parse_madt (\<lambda>a. if unat (a - 0xFFFF800000001000) < length sample_madt then sample_madt ! unat (a - 0xFFFF800000001000) else 0) [0xFFFF800000001000] =
    Some \<lparr>local_apic_base = 0xFEE00000, local_apics = [\<lparr>proc_id = 0, apic_id = 0, is_enabled = True\<rparr>],
      io_apics = [\<lparr>ioapic_id = 1, ioapic_addr = 0xFEC00000, gsi_base = 0\<rparr>],
      overrides = [\<lparr>io_bus = 0, io_source = 1, io_gsi = 1, io_flags = 0\<rparr>]\<rparr>"
proof -
  let ?items = "[LocalApicItem 0 0 1, OtherItem 4 [255, 0, 0, 1], OverrideItem 0 1 1 0, IoApicItem 1 0xFEC00000 0]"
  have l: "length (madt_bytes 0xFEE00000 (replicate 28 0) 1 ?items) = 80" by (simp add: madt_bytes_def)
  show ?thesis
    unfolding sample_madt_def
    using parse_madt_roundtrip [OF sample_madt_placed [unfolded sample_madt_def], where pre = "[]" and post = "[]", OF _ _ _ _ refl] l
    by simp
qed

end
