(* ===== verification/Keyboard.thy ===== *)
theory Keyboard
  imports Prelude Acpi
begin

text \<open>
  The keyboard driver: \<^verbatim>\<open>kernel/src/drivers/keyboard/\<close> (\<^verbatim>\<open>mod.rs\<close>, \<^verbatim>\<open>scancodes.rs\<close>). The interrupt puts scancodes into a
  ring, the processor thread takes them out, follows shift, caps lock and the extension prefix,
  and writes the characters to its channel. Characters are their code points; all of the tables
  are below 128, so a character is one byte of output.
\<close>

section \<open>The tables\<close>

definition KBD_US_BASE :: "u8 list" where
  "KBD_US_BASE = [
    0, 27, 49, 50, 51, 52, 53, 54, 55, 56, 57, 48, 45, 61, 8, 9,
    113, 119, 101, 114, 116, 121, 117, 105, 111, 112, 91, 93, 10, 0, 97, 115,
    100, 102, 103, 104, 106, 107, 108, 59, 39, 96, 0, 92, 122, 120, 99, 118,
    98, 110, 109, 44, 46, 47, 0, 42, 0, 32, 0, 0, 0, 0, 0, 0,
    0, 0, 0, 0, 0, 0, 0, 55, 56, 57, 45, 52, 53, 54, 43, 49,
    50, 51, 48, 46, 0, 0, 0, 0, 0, 0, 0, 0, 0, 0, 0, 0,
    0, 0, 0, 0, 0, 0, 0, 0, 0, 0, 0, 0, 0, 0, 0, 0,
    0, 0, 0, 0, 0, 0, 0, 0, 0, 0, 0, 0, 0, 0, 0, 0]"

definition KBD_US_SHIFT :: "u8 list" where
  "KBD_US_SHIFT = [
    0, 27, 33, 64, 35, 36, 37, 94, 38, 42, 40, 41, 95, 43, 8, 9,
    81, 87, 69, 82, 84, 89, 85, 73, 79, 80, 123, 125, 10, 0, 65, 83,
    68, 70, 71, 72, 74, 75, 76, 58, 34, 126, 0, 124, 90, 88, 67, 86,
    66, 78, 77, 60, 62, 63, 0, 42, 0, 32, 0, 0, 0, 0, 0, 0,
    0, 0, 0, 0, 0, 0, 0, 0, 0, 0, 45, 0, 0, 0, 43, 0,
    0, 0, 0, 0, 0, 0, 0, 0, 0, 0, 0, 0, 0, 0, 0, 0,
    0, 0, 0, 0, 0, 0, 0, 0, 0, 0, 0, 0, 0, 0, 0, 0,
    0, 0, 0, 0, 0, 0, 0, 0, 0, 0, 0, 0, 0, 0, 0, 0]"

definition KBD_US_EXTENDED :: "u8 list" where
  "KBD_US_EXTENDED = [
    0, 0, 0, 0, 0, 0, 0, 0, 0, 0, 0, 0, 0, 0, 0, 0,
    0, 0, 0, 0, 0, 0, 0, 0, 0, 0, 0, 0, 10, 0, 0, 0,
    0, 0, 0, 0, 0, 0, 0, 0, 0, 0, 0, 0, 0, 0, 0, 0,
    0, 0, 0, 0, 0, 47, 0, 0, 0, 0, 0, 0, 0, 0, 0, 0,
    0, 0, 0, 0, 0, 0, 0, 0, 17, 0, 0, 19, 0, 20, 0, 0,
    18, 0, 0, 127, 0, 0, 0, 0, 0, 0, 0, 0, 0, 0, 0, 0,
    0, 0, 0, 0, 0, 0, 0, 0, 0, 0, 0, 0, 0, 0, 0, 0,
    0, 0, 0, 0, 0, 0, 0, 0, 0, 0, 0, 0, 0, 0, 0, 0]"

section \<open>The scancode ring\<close>

definition KBD_BUFFER_SIZE :: nat where
  "KBD_BUFFER_SIZE = 256"

record kbd_ring =
  kr_buffer :: "u8 list"
  kr_head :: u64
  kr_tail :: u64

definition push_scancode :: "u8 \<Rightarrow> kbd_ring \<Rightarrow> kbd_ring" where
  "push_scancode scancode r =
    r\<lparr>kr_buffer := (kr_buffer r)[unat (kr_tail r) mod KBD_BUFFER_SIZE := scancode], kr_tail := kr_tail r + 1\<rparr>"

definition take_scancode :: "kbd_ring \<Rightarrow> u8 \<times> kbd_ring" where
  "take_scancode r = (kr_buffer r ! (unat (kr_head r) mod KBD_BUFFER_SIZE), r\<lparr>kr_head := kr_head r + 1\<rparr>)"

section \<open>The interrupt line\<close>

record kbd_irq =
  keyboard_gsi :: u32
  edge :: bool
  active_high :: bool

definition apply_override :: "interrupt_override \<Rightarrow> kbd_irq \<Rightarrow> kbd_irq" where
  "apply_override e q =
    (if io_source e = 1
     then q\<lparr>keyboard_gsi := io_gsi e,
            active_high := (if io_flags e AND 3 = 3 then False else active_high q),
            edge := (if io_flags e AND 12 = 11 then False else edge q)\<rparr>
     else q)"

definition check_madt_overrides :: "madt_info \<Rightarrow> kbd_irq \<Rightarrow> kbd_irq" where
  "check_madt_overrides m q = fold apply_override (overrides m) q"

section \<open>The processor thread\<close>

record kbd_state =
  shift_held :: bool
  caps_lock :: bool
  is_extended :: bool

definition is_lower :: "u8 \<Rightarrow> bool" where
  "is_lower c \<longleftrightarrow> 97 \<le> c \<and> c \<le> 122"

definition is_upper :: "u8 \<Rightarrow> bool" where
  "is_upper c \<longleftrightarrow> 65 \<le> c \<and> c \<le> 90"

text \<open>One turn of the loop: the new state and the bytes written to the channel.\<close>

definition kbd_step :: "u8 \<Rightarrow> kbd_state \<Rightarrow> u8 list \<times> kbd_state" where
  "kbd_step scancode st =
    (if scancode = 0xE0 then ([], st\<lparr>is_extended := True\<rparr>)
     else let is_release = (scancode AND 0x80 \<noteq> 0);
              key = unat (scancode AND 0x7F);
              st1 = (if key = 0x2A \<or> key = 0x36 then st\<lparr>shift_held := \<not> is_release\<rparr>
                     else if key = 0x3A \<and> \<not> is_release then st\<lparr>caps_lock := \<not> caps_lock st\<rparr> else st);
              c = (if shift_held st1 then KBD_US_SHIFT ! key else if is_extended st1 then KBD_US_EXTENDED ! key else KBD_US_BASE ! key);
              c' = (if caps_lock st1 \<and> is_lower c then c - 32 else if caps_lock st1 \<and> is_upper c then c + 32 else c)
          in (if \<not> is_release \<and> c' \<noteq> 0 then [c'] else [], st1\<lparr>is_extended := False\<rparr>))"

fun kbd_run :: "u8 list \<Rightarrow> kbd_state \<Rightarrow> u8 list \<times> kbd_state" where
  "kbd_run [] st = ([], st)"
| "kbd_run (s # ss) st = (case kbd_step s st of (o1, st1) \<Rightarrow> case kbd_run ss st1 of (o2, st2) \<Rightarrow> (o1 @ o2, st2))"

section \<open>Laws\<close>

text \<open>The scancodes in the ring that have not been taken.\<close>

definition unread :: "kbd_ring \<Rightarrow> u8 list" where
  "unread r = map (\<lambda>k. kr_buffer r ! (unat (kr_head r + of_nat k) mod KBD_BUFFER_SIZE)) [0..<unat (kr_tail r - kr_head r)]"

lemma kbd_index: "unat (a + of_nat k :: u64) mod KBD_BUFFER_SIZE = (unat a + k) mod KBD_BUFFER_SIZE"
proof -
  have "unat (a + of_nat k) = (unat a + k mod 2 ^ 64) mod 2 ^ 64"
    by (subst unat_word_ariths(1)) (simp add: unsigned_of_nat take_bit_eq_mod)
  then have "unat (a + of_nat k) = (unat a + k) mod 2 ^ 64" by (simp only: mod_add_right_eq)
  moreover have "(x mod 2 ^ 64) mod 256 = x mod 256" for x :: nat by (rule mod_mod_cancel) simp
  ultimately show ?thesis by (simp only: KBD_BUFFER_SIZE_def)
qed

text \<open>With fewer than 256 unread scancodes the ring is a queue; more overwrite the oldest.\<close>

lemma kbd_ring_push:
  assumes "length (kr_buffer r) = KBD_BUFFER_SIZE" and "unat (kr_tail r - kr_head r) < KBD_BUFFER_SIZE"
  shows "unread (push_scancode s r) = unread r @ [s]"
proof -
  let ?n = "unat (kr_tail r - kr_head r)"
  have t: "kr_tail r = kr_head r + of_nat ?n" by simp
  have n1: "unat (kr_tail r + 1 - kr_head r) = ?n + 1"
  proof -
    have e: "kr_tail r + 1 - kr_head r = (kr_tail r - kr_head r) + 1" by (simp add: algebra_simps)
    have "?n + unat (1 :: u64) < 2 ^ LENGTH(64)" using assms(2) by (simp add: KBD_BUFFER_SIZE_def)
    then have "unat ((kr_tail r - kr_head r) + 1) = ?n + unat (1 :: u64)" by (rule unat_add_lem [THEN iffD1])
    then show ?thesis unfolding e by simp
  qed
  have ti: "unat (kr_tail r) mod KBD_BUFFER_SIZE = (unat (kr_head r) + ?n) mod KBD_BUFFER_SIZE" using kbd_index [of "kr_head r" ?n] t by simp
  have other: "(unat (kr_head r) + k) mod KBD_BUFFER_SIZE \<noteq> (unat (kr_head r) + ?n) mod KBD_BUFFER_SIZE" if "k < ?n" for k
  proof
    assume "(unat (kr_head r) + k) mod KBD_BUFFER_SIZE = (unat (kr_head r) + ?n) mod KBD_BUFFER_SIZE"
    then have "KBD_BUFFER_SIZE dvd (unat (kr_head r) + ?n) - (unat (kr_head r) + k)" using that by (metis mod_eq_dvd_iff_nat nat_add_left_cancel_le less_imp_le)
    then show False using that assms(2) by (auto dest!: dvd_imp_le)
  qed
  have keep: "push_scancode s r = r\<lparr>kr_buffer := (kr_buffer r)[unat (kr_tail r) mod KBD_BUFFER_SIZE := s], kr_tail := kr_tail r + 1\<rparr>"
    by (simp add: push_scancode_def)
  have idx: "unat (kr_head r + of_nat k) mod KBD_BUFFER_SIZE \<noteq> unat (kr_tail r) mod KBD_BUFFER_SIZE" if "k < ?n" for k
    using other [OF that] ti by (metis kbd_index)
  have new: "unat (kr_head r + of_nat ?n) mod KBD_BUFFER_SIZE = unat (kr_tail r) mod KBD_BUFFER_SIZE" using t by simp
  have "unat (kr_tail r) mod KBD_BUFFER_SIZE < length (kr_buffer r)" using assms(1) by (simp add: KBD_BUFFER_SIZE_def)
  then show ?thesis using idx [symmetric] new n1 by (auto simp: unread_def keep)
qed

lemma kbd_ring_take: "unread r = c # cs \<Longrightarrow> fst (take_scancode r) = c \<and> unread (snd (take_scancode r)) = cs"
proof -
  assume u: "unread r = c # cs"
  let ?n = "unat (kr_tail r - kr_head r)"
  have n: "?n = Suc (length cs)" using arg_cong [OF u, of length] by (simp add: unread_def)
  have "unat (kr_tail r - (kr_head r + 1)) = length cs"
  proof -
    have e: "kr_tail r - (kr_head r + 1) = (kr_tail r - kr_head r) - 1" by (simp add: algebra_simps)
    have "1 \<le> kr_tail r - kr_head r" using n by (simp add: word_le_nat_alt)
    then have "unat ((kr_tail r - kr_head r) - 1) = ?n - 1" by (simp only: unat_sub unsigned_1)
    then show ?thesis unfolding e using n by simp
  qed
  moreover have "unread r ! Suc k = kr_buffer r ! (unat (kr_head r + 1 + of_nat k) mod KBD_BUFFER_SIZE)" if "k < length cs" for k
    using that n by (simp add: unread_def add.assoc del: upt_Suc)
  ultimately have "unread (snd (take_scancode r)) = cs" using u by (auto simp: unread_def take_scancode_def intro!: nth_equalityI)
  moreover have "fst (take_scancode r) = unread r ! 0" using n by (simp add: unread_def take_scancode_def del: upt_Suc)
  ultimately show ?thesis using u by simp
qed

text \<open>A level-triggered override is never recognised: the masked flags cannot be 11.\<close>

lemma level_override_ignored: "edge (check_madt_overrides m q) = edge q"
proof -
  have "x AND 12 \<noteq> (11 :: u16)" for x
  proof
    assume a: "x AND 12 = (11 :: u16)"
    have "bit (x AND 12) 0 = bit (11 :: u16) 0" by (simp only: a)
    then show False by (simp add: bit_simps)
  qed
  then have "edge (fold apply_override es q) = edge q" for es
    by (induction es arbitrary: q) (simp_all add: apply_override_def)
  then show ?thesis by (simp add: check_madt_overrides_def)
qed

definition letter_key :: "nat \<Rightarrow> bool" where
  "letter_key k \<longleftrightarrow> is_lower (KBD_US_BASE ! k) \<longrightarrow>
    KBD_US_SHIFT ! k = KBD_US_BASE ! k - 32 \<and> is_upper (KBD_US_BASE ! k - 32) \<and> \<not> is_lower (KBD_US_BASE ! k - 32) \<and>
    KBD_US_BASE ! k - 32 \<noteq> 0 \<and> KBD_US_BASE ! k \<noteq> 0 \<and> k \<noteq> 0x2A \<and> k \<noteq> 0x36 \<and> k \<noteq> 0x3A \<and>
    (of_nat k :: u8) \<noteq> 0xE0 \<and> (of_nat k :: u8) AND 0x80 = 0 \<and> unat ((of_nat k :: u8) AND 0x7F) = k \<and>
    (of_nat k OR 0x80 :: u8) \<noteq> 0xE0 \<and> (of_nat k OR 0x80 :: u8) AND 0x80 \<noteq> 0 \<and> unat ((of_nat k OR 0x80 :: u8) AND 0x7F) = k"

lemma letter_keys: "\<forall>k \<in> set [0..<128]. letter_key k"
  by code_simp

text \<open>
  Typing a letter. Pressing and releasing the key of a letter, alone or while shift is held,
  writes exactly one character: the capital letter when exactly one of shift and caps lock is in
  effect, the small letter otherwise; the modifiers are afterwards as before.
\<close>

theorem letters_typed:
  assumes "k < 128" and "is_lower (KBD_US_BASE ! k)" and "\<not> is_extended st" and "\<not> shift_held st"
  shows "kbd_run [of_nat k, of_nat k OR 0x80] st = ([if caps_lock st then KBD_US_BASE ! k - 32 else KBD_US_BASE ! k], st) \<and>
    kbd_run [0x2A, of_nat k, of_nat k OR 0x80, 0xAA] st = ([if caps_lock st then KBD_US_BASE ! k else KBD_US_BASE ! k - 32], st)"
proof
  have l: "letter_key k" using letter_keys assms(1) by simp
  note f = l [unfolded letter_key_def, rule_format, OF assms(2)]
  have press: "kbd_step (of_nat k) st' = ([if caps_lock st' \<noteq> shift_held st' then KBD_US_BASE ! k - 32 else KBD_US_BASE ! k], st')"
    if "\<not> is_extended st'" for st'
    using f assms(2) that by (auto simp: kbd_step_def Let_def)
  have release: "kbd_step (of_nat k OR 0x80) st' = ([], st')" if "\<not> is_extended st'" for st'
    using f that by (simp add: kbd_step_def Let_def)
  have shift: "kbd_step 0x2A st = ([], st\<lparr>shift_held := True\<rparr>)" "kbd_step 0xAA (st\<lparr>shift_held := True\<rparr>) = ([], st)"
    using assms(3,4) by (simp_all add: kbd_step_def Let_def KBD_US_SHIFT_def is_lower_def is_upper_def)
  show "kbd_run [of_nat k, of_nat k OR 0x80] st = ([if caps_lock st then KBD_US_BASE ! k - 32 else KBD_US_BASE ! k], st)"
    using press [of st] release [of st] assms(3,4) by simp
  show "kbd_run [0x2A, of_nat k, of_nat k OR 0x80, 0xAA] st = ([if caps_lock st then KBD_US_BASE ! k else KBD_US_BASE ! k - 32], st)"
    using shift press [of "st\<lparr>shift_held := True\<rparr>"] release [of "st\<lparr>shift_held := True\<rparr>"] assms(3) by simp
qed


definition modifiers0 :: kbd_state where
  "modifiers0 = \<lparr>shift_held = False, caps_lock = False, is_extended = False\<rparr>"

theorem letters_typed_witness:
  "kbd_run [of_nat 0x1E, of_nat 0x1E OR 0x80] modifiers0 = ([0x61], modifiers0) \<and>
   kbd_run [0x2A, of_nat 0x1E, of_nat 0x1E OR 0x80, 0xAA] modifiers0 = ([0x41], modifiers0)"
  using letters_typed [of "0x1E" modifiers0] by (simp add: KBD_US_BASE_def is_lower_def modifiers0_def)

end
