(* ===== verification/Vma.thy ===== *)
theory Vma
  imports Paging
begin

text \<open>
  The list of mapped regions of an address space: the region part of
  \<^verbatim>\<open>kernel/src/memory/vmm.rs\<close>. The doubly linked list of \<^verbatim>\<open>VmaNode\<close> is a list in link order;
  an insertion between two nodes is an insertion at their position. A backing object is
  named by a number.
\<close>

section \<open>Flags\<close>

definition VM_FLAG_WRITE :: u64 where "VM_FLAG_WRITE = 1"
definition VM_FLAG_EXEC :: u64 where "VM_FLAG_EXEC = 2"
definition VM_FLAG_USER :: u64 where "VM_FLAG_USER = 4"
definition VM_FLAG_HUGE :: u64 where "VM_FLAG_HUGE = 8"
definition VM_FLAG_GLOBAL :: u64 where "VM_FLAG_GLOBAL = 16"
definition VM_FLAG_CACHE_DISABLE :: u64 where "VM_FLAG_CACHE_DISABLE = 32"
definition VM_FLAG_WRITE_THROUGH :: u64 where "VM_FLAG_WRITE_THROUGH = 64"

definition VM_BASE_ADDR :: u64 where "VM_BASE_ADDR = 0x40000000"
definition VM_MAX_ALLOWED :: u64 where "VM_MAX_ALLOWED = 0x00007FFFFFFFF000"
definition BATCH_SIZE :: nat where "BATCH_SIZE = 64"

definition convert_vm_flags :: "u64 \<Rightarrow> u64" where
  "convert_vm_flags fl =
    get_flags True (fl AND VM_FLAG_WRITE \<noteq> 0) (fl AND VM_FLAG_USER \<noteq> 0) (fl AND VM_FLAG_WRITE_THROUGH \<noteq> 0)
      (fl AND VM_FLAG_CACHE_DISABLE \<noteq> 0) False False False (fl AND VM_FLAG_GLOBAL \<noteq> 0)
      (\<not> fl AND VM_FLAG_EXEC \<noteq> 0)"

section \<open>Regions\<close>

record vma =
  vstart :: u64
  vlen :: u64
  vflags :: u64
  backing_vmo :: "nat option"
  vmo_offset :: u64

definition align_up :: "u64 \<Rightarrow> u64" where
  "align_up addr = (addr + 0xFFF) AND NOT 0xFFF"

definition page_mask :: "u64 \<Rightarrow> u64" where
  "page_mask fl = (if fl AND VM_FLAG_HUGE \<noteq> 0 then 0x200000 - 1 else 0x1000 - 1)"

definition round_to :: "u64 \<Rightarrow> u64 \<Rightarrow> u64" where
  "round_to mk x = (x + mk) AND NOT mk"

text \<open>The loop over the gaps between neighbours, and the whole search of \<^verbatim>\<open>mmap_internal\<close>.\<close>

fun gap_after :: "u64 \<Rightarrow> u64 \<Rightarrow> vma list \<Rightarrow> (u64 \<times> nat) option" where
  "gap_after mk sz (c # n # rest) =
    (let base = round_to mk (vstart c + vlen c)
     in if base < vstart n \<and> sz \<le> vstart n - base then Some (base, 1)
        else map_option (\<lambda>(b, k). (b, Suc k)) (gap_after mk sz (n # rest)))"
| "gap_after mk sz _ = None"

definition find_gap :: "u64 \<Rightarrow> u64 \<Rightarrow> vma list \<Rightarrow> (u64 \<times> nat) option" where
  "find_gap mk sz vs =
    (case vs of
       [] \<Rightarrow> Some (VM_BASE_ADDR, 0)
     | h # _ \<Rightarrow>
         if VM_BASE_ADDR < vstart h \<and> sz \<le> vstart h - VM_BASE_ADDR then Some (VM_BASE_ADDR, 0)
         else case gap_after mk sz vs of
                Some g \<Rightarrow> Some g
              | None \<Rightarrow> let base = round_to mk (vstart (last vs) + vlen (last vs))
                        in if sz \<le> VM_MAX_ALLOWED - base then Some (base, length vs) else None)"

definition insert_vma :: "nat \<Rightarrow> vma \<Rightarrow> vma list \<Rightarrow> vma list" where
  "insert_vma k n vs = take k vs @ n # drop k vs"

definition mmap_internal :: "vma list \<Rightarrow> u64 \<Rightarrow> u64 \<Rightarrow> nat option \<Rightarrow> u64 \<Rightarrow> u64 option \<times> vma list" where
  "mmap_internal vs sz fl backing voff =
    (let mk = page_mask fl; rsz = round_to mk sz
     in case find_gap mk rsz vs of
          Some (addr, k) \<Rightarrow>
            (Some addr, insert_vma k \<lparr>vstart = addr, vlen = rsz, vflags = fl, backing_vmo = backing, vmo_offset = voff\<rparr> vs)
        | None \<Rightarrow> (None, vs))"

definition mmap :: "vma list \<Rightarrow> u64 \<Rightarrow> u64 \<Rightarrow> u64 option \<times> vma list" where
  "mmap vs sz fl = mmap_internal vs sz fl None 0"

definition mmap_vmo :: "vma list \<Rightarrow> u64 \<Rightarrow> u64 \<Rightarrow> nat \<Rightarrow> u64 option \<times> vma list" where
  "mmap_vmo vs sz fl obj = mmap_internal vs sz fl (Some obj) 0"

definition mmap_vmo_at :: "vma list \<Rightarrow> u64 \<Rightarrow> u64 \<Rightarrow> u64 \<Rightarrow> nat \<Rightarrow> u64 option \<times> vma list" where
  "mmap_vmo_at vs start_addr sz fl obj =
    (let rsz = round_to (0x1000 - 1) sz;
         before = takeWhile (\<lambda>n. \<not> start_addr < vstart n) vs;
         after = dropWhile (\<lambda>n. \<not> start_addr < vstart n) vs
     in if before \<noteq> [] \<and> start_addr < vstart (last before) + vlen (last before) then (None, vs)
        else if after \<noteq> [] \<and> vstart (hd after) < start_addr + rsz then (None, vs)
        else (Some start_addr,
              before @ \<lparr>vstart = start_addr, vlen = rsz, vflags = fl, backing_vmo = Some obj, vmo_offset = 0\<rparr> # after))"

text \<open>
  The searches of \<^verbatim>\<open>munmap\<close> and \<^verbatim>\<open>mprotect\<close>: the first region with this start address, whose
  size must match. \<open>Inl True\<close> is the size mismatch, \<open>Inl False\<close> a region not found.
\<close>

fun detach_vma :: "u64 \<Rightarrow> u64 \<Rightarrow> vma list \<Rightarrow> bool + vma \<times> vma list" where
  "detach_vma start_addr sz [] = Inl False"
| "detach_vma start_addr sz (n # vs) =
    (if vstart n = start_addr
     then if vlen n \<noteq> sz then Inl True else Inr (n, vs)
     else case detach_vma start_addr sz vs of Inl e \<Rightarrow> Inl e | Inr (t, vs') \<Rightarrow> Inr (t, n # vs'))"

fun reflag_vma :: "u64 \<Rightarrow> u64 \<Rightarrow> u64 \<Rightarrow> vma list \<Rightarrow> bool + vma \<times> vma list" where
  "reflag_vma start_addr sz new_fl [] = Inl False"
| "reflag_vma start_addr sz new_fl (n # vs) =
    (if vstart n = start_addr
     then if vlen n \<noteq> sz then Inl True else Inr (n\<lparr>vflags := new_fl\<rparr>, n\<lparr>vflags := new_fl\<rparr> # vs)
     else case reflag_vma start_addr sz new_fl vs of Inl e \<Rightarrow> Inl e | Inr (t, vs') \<Rightarrow> Inr (t, n # vs'))"

definition find_vma :: "vma list \<Rightarrow> u64 \<Rightarrow> vma option" where
  "find_vma vs addr = find (\<lambda>n. vstart n \<le> addr \<and> addr < vstart n + vlen n) vs"

definition get_total_allocated_size :: "vma list \<Rightarrow> u64" where
  "get_total_allocated_size vs = fold (\<lambda>n total. total + vlen n) vs 0"

section \<open>The region invariant\<close>

definition lo :: "vma \<Rightarrow> nat" where "lo n = unat (vstart n)"
definition hi :: "vma \<Rightarrow> nat" where "hi n = unat (vstart n) + unat (vlen n)"

definition USER_TOP :: nat where "USER_TOP = 0x00007FFFFFFFF000"

text \<open>Regions lie in user space, in address order, and no two overlap.\<close>

definition vmas_ok :: "vma list \<Rightarrow> bool" where
  "vmas_ok vs \<longleftrightarrow> sorted_wrt (\<lambda>a b. hi a \<le> lo b) vs \<and> (\<forall>n \<in> set vs. hi n \<le> USER_TOP)"

section \<open>Searching and inserting\<close>

lemma lo_le_hi: "lo n \<le> hi n"
  by (simp add: lo_def hi_def)

lemma vmas_ok_nth: "vmas_ok vs \<Longrightarrow> i < j \<Longrightarrow> j < length vs \<Longrightarrow> hi (vs ! i) \<le> lo (vs ! j)"
  by (auto simp: vmas_ok_def sorted_wrt_iff_nth_less)

lemma vmas_ok_tl: "vmas_ok (n # vs) \<Longrightarrow> vmas_ok vs"
  by (simp add: vmas_ok_def)

lemma insert_vma_ok:
  assumes ok: "vmas_ok vs" and k: "k \<le> length vs" and top: "hi n \<le> USER_TOP"
    and l: "0 < k \<Longrightarrow> hi (vs ! (k - 1)) \<le> lo n" and r: "k < length vs \<Longrightarrow> hi n \<le> lo (vs ! k)"
  shows "vmas_ok (insert_vma k n vs)" "set (insert_vma k n vs) = insert n (set vs)"
proof -
  have below: "hi a \<le> lo n" if "a \<in> set (take k vs)" for a
  proof -
    obtain i where i: "i < k" "a = vs ! i" using \<open>a \<in> set (take k vs)\<close> k by (auto simp: in_set_conv_nth)
    show ?thesis
    proof (cases "i = k - 1")
      case False
      then have "hi a \<le> lo (vs ! (k - 1))" using vmas_ok_nth [OF ok, of i "k - 1"] i k by auto
      also have "\<dots> \<le> hi (vs ! (k - 1))" by (rule lo_le_hi)
      also have "\<dots> \<le> lo n" using l i(1) by auto
      finally show ?thesis .
    qed (use l i in auto)
  qed
  have above: "hi n \<le> lo b" if "b \<in> set (drop k vs)" for b
  proof -
    obtain i where i: "k \<le> i" "i < length vs" "b = vs ! i"
      using \<open>b \<in> set (drop k vs)\<close> by (auto simp: in_set_conv_nth) (metis add.commute le_add1 less_diff_conv)
    show ?thesis
    proof (cases "i = k")
      case False
      then have "hi n \<le> lo (vs ! k)" "hi (vs ! k) \<le> lo b" using r i vmas_ok_nth [OF ok, of k i] by auto
      then show ?thesis using lo_le_hi [of "vs ! k"] by linarith
    qed (use r i in auto)
  qed
  have s: "sorted_wrt (\<lambda>a b. hi a \<le> lo b) (take k vs @ drop k vs)" using ok by (simp add: vmas_ok_def)
  show "set (insert_vma k n vs) = insert n (set vs)"
    by (metis append_take_drop_id insert_vma_def list.simps(15) set_append Un_insert_right)
  then show "vmas_ok (insert_vma k n vs)"
    using s below above top ok unfolding vmas_ok_def insert_vma_def sorted_wrt_append
    by (fastforce dest: lo_le_hi [THEN order_trans])
qed

definition page_bits :: "u64 \<Rightarrow> nat" where
  "page_bits fl = (if fl AND VM_FLAG_HUGE \<noteq> 0 then 21 else 12)"

lemma page_mask_eq: "page_mask fl = mask (page_bits fl)"
  by (simp add: page_mask_def page_bits_def mask_eq_exp_minus_1)

lemma page_bits_le: "page_bits fl \<le> 21"
  by (simp add: page_bits_def)

lemma unat_round_to:
  "k \<le> 21 \<Longrightarrow> unat x + 2 ^ k \<le> 2 ^ 64 \<Longrightarrow> unat (round_to (mask k) x) = round_up (2 ^ k) (unat x)"
  unfolding round_to_def by (rule align_up_mask) simp_all

lemma pow_le_21: "k \<le> 21 \<Longrightarrow> (2 :: nat) ^ k \<le> 2097152"
  using power_increasing [of k 21 "2 :: nat"] by simp

lemma region_end:
  assumes "hi c \<le> USER_TOP" and "k \<le> 21"
  shows "unat (vstart c + vlen c) = hi c" "unat (round_to (mask k) (vstart c + vlen c)) = round_up (2 ^ k) (hi c)"
proof -
  have "unat (vstart c) + unat (vlen c) < 2 ^ 64" using assms(1) by (simp add: hi_def USER_TOP_def)
  then show e: "unat (vstart c + vlen c) = hi c" unfolding hi_def using unat_add_lem by fastforce
  have "hi c + 2 ^ k \<le> 2 ^ 64" using assms(1) pow_le_21 [OF assms(2)] by (simp add: USER_TOP_def)
  then show "unat (round_to (mask k) (vstart c + vlen c)) = round_up (2 ^ k) (hi c)"
    using unat_round_to [OF assms(2), of "vstart c + vlen c"] e by simp
qed

lemma gap_test:
  "(b < s \<and> sz \<le> s - b) = (unat b < unat s \<and> unat b + unat sz \<le> unat (s :: u64))"
  by (auto simp: word_less_nat_alt word_le_nat_alt unat_sub)

lemma gap_after_some:
  assumes "gap_after (mask k) sz vs = Some (b, j)" and "vmas_ok vs" and "k \<le> 21"
  shows "0 < j \<and> j < length vs \<and> unat b = round_up (2 ^ k) (hi (vs ! (j - 1))) \<and> unat b + unat sz \<le> lo (vs ! j)"
  using assms
proof (induction "mask k :: u64" sz vs arbitrary: b j rule: gap_after.induct)
  case (1 sz c n rest)
  have hc: "hi c \<le> USER_TOP" using "1.prems"(2) by (simp add: vmas_ok_def)
  let ?b = "round_to (mask k) (vstart c + vlen c)"
  show ?case
  proof (cases "?b < vstart n \<and> sz \<le> vstart n - ?b")
    case True
    then show ?thesis using "1.prems" region_end(2) [OF hc "1.prems"(3)] by (auto simp: gap_test lo_def Let_def)
  next
    case False
    then obtain j' where j': "gap_after (mask k) sz (n # rest) = Some (b, j')" "j = Suc j'"
      using "1.prems"(1) by (auto simp: Let_def)
    have "0 < j' \<and> j' < length (n # rest) \<and> unat b = round_up (2 ^ k) (hi ((n # rest) ! (j' - 1))) \<and>
        unat b + unat sz \<le> lo ((n # rest) ! j')"
      by (rule "1.hyps" [OF refl False j'(1) vmas_ok_tl [OF "1.prems"(2)] "1.prems"(3)])
    then show ?thesis using j'(2) by (cases j') auto
  qed
qed auto

lemma gap_after_none:
  assumes "gap_after (mask k) sz vs = None" and "vmas_ok vs" and "k \<le> 21" and "0 < unat sz" and "Suc i < length vs"
  shows "lo (vs ! Suc i) < round_up (2 ^ k) (hi (vs ! i)) + unat sz"
  using assms
proof (induction "mask k :: u64" sz vs arbitrary: i rule: gap_after.induct)
  case (1 sz c n rest)
  have hc: "hi c \<le> USER_TOP" using "1.prems"(2) by (simp add: vmas_ok_def)
  let ?b = "round_to (mask k) (vstart c + vlen c)"
  have no: "\<not> (?b < vstart n \<and> sz \<le> vstart n - ?b)" and rec: "gap_after (mask k) sz (n # rest) = None"
    using "1.prems"(1) by (auto simp: Let_def split: if_splits)
  show ?case
  proof (cases i)
    case 0
    then show ?thesis
      using no region_end(2) [OF hc "1.prems"(3)] "1.prems"(4) unfolding gap_test by (auto simp: lo_def)
  next
    case (Suc i')
    then show ?thesis
      using "1.hyps" [OF refl no rec vmas_ok_tl [OF "1.prems"(2)] "1.prems"(3,4), of i'] "1.prems"(5) by simp
  qed
qed auto


lemma round_up_least: "0 < a \<Longrightarrow> a dvd b \<Longrightarrow> n \<le> b \<Longrightarrow> round_up a n \<le> b"
proof -
  assume a: "0 < a" "a dvd b" "n \<le> b"
  have "round_up a n \<le> round_up a b" unfolding round_up_def using a(3) by (intro mult_le_mono1 div_le_mono) simp
  then show ?thesis using round_up_of_dvd [OF a(1,2)] by simp
qed

lemma top_words: "unat VM_MAX_ALLOWED = USER_TOP" "unat VM_BASE_ADDR = 0x40000000"
  by (simp_all add: VM_MAX_ALLOWED_def USER_TOP_def VM_BASE_ADDR_def)

text \<open>Rounded to the page size asked for, the end of the last region must not pass the top of user space.\<close>

definition below_top :: "nat \<Rightarrow> vma list \<Rightarrow> bool" where
  "below_top k vs \<longleftrightarrow> (\<forall>n \<in> set vs. round_up (2 ^ k) (hi n) \<le> USER_TOP)"

lemma USER_TOP_aligned: "2 ^ 12 dvd USER_TOP"
proof -
  have "USER_TOP = 2 ^ 12 * 34359738367" by (simp add: USER_TOP_def)
  then show ?thesis by (rule dvdI)
qed

lemma below_top_12: "vmas_ok vs \<Longrightarrow> below_top 12 vs"
  unfolding below_top_def vmas_ok_def by (intro ballI round_up_least [OF _ USER_TOP_aligned]; elim conjE) simp_all

lemma find_gap_cases:
  assumes "find_gap mk sz vs = Some (b, j)" and "vs \<noteq> []"
  obtains (head) "VM_BASE_ADDR < vstart (hd vs) \<and> sz \<le> vstart (hd vs) - VM_BASE_ADDR" "b = VM_BASE_ADDR" "j = 0"
  | (mid) "gap_after mk sz vs = Some (b, j)"
  | (tail) "sz \<le> VM_MAX_ALLOWED - b" "b = round_to mk (vstart (last vs) + vlen (last vs))" "j = length vs"
proof -
  obtain h t where vs: "vs = h # t" using assms(2) by (cases vs) auto
  let ?a = "VM_BASE_ADDR < vstart h \<and> sz \<le> vstart h - VM_BASE_ADDR"
  have fg: "(if ?a then Some (VM_BASE_ADDR, 0)
      else case gap_after mk sz vs of
             Some g \<Rightarrow> Some g
           | None \<Rightarrow> let base = round_to mk (vstart (last vs) + vlen (last vs))
                     in if sz \<le> VM_MAX_ALLOWED - base then Some (base, length vs) else None) = Some (b, j)"
    using assms(1) unfolding find_gap_def vs list.case .
  show thesis
  proof (cases ?a)
    case True
    then have "b = VM_BASE_ADDR" "j = 0" using fg by simp_all
    then show ?thesis using True vs by (intro head) simp_all
  next
    case False
    show ?thesis
    proof (cases "gap_after mk sz vs")
      case None
      then show ?thesis
        using fg unfolding if_not_P [OF False] None option.case Let_def
        by (cases "sz \<le> VM_MAX_ALLOWED - round_to mk (vstart (last vs) + vlen (last vs))")
          (auto intro: tail)
    next
      case (Some g)
      then have "g = (b, j)" using fg unfolding if_not_P [OF False] by simp
      then show ?thesis using Some by (intro mid) simp
    qed
  qed
qed

lemma find_gap_some:
  assumes "find_gap (mask k) sz vs = Some (b, j)" and ok: "vmas_ok vs" and k: "k \<le> 21"
    and top: "below_top k vs" and sz: "unat sz \<le> USER_TOP - 0x40000000"
  shows "j \<le> length vs \<and> 2 ^ k dvd unat b \<and> unat b + unat sz \<le> USER_TOP \<and>
    (0 < j \<longrightarrow> hi (vs ! (j - 1)) \<le> unat b) \<and> (j < length vs \<longrightarrow> unat b + unat sz \<le> lo (vs ! j))"
proof -
  have base: "(2 :: nat) ^ k dvd 0x40000000"
    using le_imp_power_dvd [of k 30 "2 :: nat"] k by simp
  show ?thesis
  proof (cases vs)
    case Nil
    then show ?thesis using assms(1) sz base top_words by (simp add: find_gap_def USER_TOP_def)
  next
    case (Cons h t)
    let ?l = "last vs"
    have l: "?l \<in> set vs" "hi ?l \<le> USER_TOP" "?l = vs ! (length vs - 1)"
      using Cons ok by (auto simp: vmas_ok_def last_conv_nth)
    have htop: "hi h \<le> USER_TOP" using ok Cons by (simp add: vmas_ok_def)
    have ne: "vs \<noteq> []" using Cons by simp
    from assms(1) ne show ?thesis
    proof (cases rule: find_gap_cases)
      case head
      then show ?thesis
        using base htop lo_le_hi [of h] Cons unfolding gap_test by (simp add: top_words lo_def)
    next
      case mid
      have g: "0 < j" "j < length vs" "unat b = round_up (2 ^ k) (hi (vs ! (j - 1)))" "unat b + unat sz \<le> lo (vs ! j)"
        using gap_after_some [OF mid ok k] by auto
      have "hi (vs ! j) \<le> USER_TOP" using ok g(2) by (simp add: vmas_ok_def)
      then have "unat b + unat sz \<le> USER_TOP" using g(4) lo_le_hi [of "vs ! j"] by linarith
      then show ?thesis using g round_up_ge [of "2 ^ k" "hi (vs ! (j - 1))"] by simp
    next
      case tail
      have ub: "unat b = round_up (2 ^ k) (hi ?l)" using tail(2) region_end(2) [OF l(2) k] by simp
      then have "unat b \<le> USER_TOP" using top l(1) by (simp add: below_top_def)
      then have "unat b + unat sz \<le> USER_TOP"
        using tail(1) by (simp add: word_le_nat_alt unat_sub top_words)
      then show ?thesis using tail(3) ub round_up_ge [of "2 ^ k" "hi ?l"] l(3) by simp
    qed
  qed
qed

lemma find_gap_none:
  assumes none: "find_gap (mask k) sz vs = None" and ok: "vmas_ok vs" and k: "k \<le> 21" and top: "below_top k vs"
    and sz: "0 < unat sz" and b: "2 ^ k dvd b" "0x40000000 \<le> b" "b + unat sz \<le> USER_TOP"
  shows "\<exists>n \<in> set vs. lo n < b + unat sz \<and> b < hi n"
proof (rule ccontr)
  assume "\<not> ?thesis"
  then have free: "hi n \<le> b \<or> b + unat sz \<le> lo n" if "n \<in> set vs" for n using that by force
  obtain h t where vs: "vs = h # t" using none by (cases vs) (auto simp: find_gap_def)
  let ?l = "last vs" and ?j = "length (takeWhile (\<lambda>n. hi n \<le> b) vs)"
  have ha: "\<not> (VM_BASE_ADDR < vstart h \<and> sz \<le> vstart h - VM_BASE_ADDR)"
    and ga: "gap_after (mask k) sz vs = None"
    and la: "\<not> sz \<le> VM_MAX_ALLOWED - round_to (mask k) (vstart ?l + vlen ?l)"
    using none vs by (auto simp: find_gap_def Let_def split: if_splits option.splits)
  have up: "round_up (2 ^ k) (hi n) \<le> b" if "hi n \<le> b" for n
    using that b(1) by (intro round_up_least) simp_all
  have below: "hi (vs ! i) \<le> b" if "i < ?j" for i
    using that set_takeWhileD [of "vs ! i" "\<lambda>n. hi n \<le> b" vs] by (metis nth_mem takeWhile_nth)
  have at: "b + unat sz \<le> lo (vs ! ?j)" if "?j < length vs"
    using nth_length_takeWhile [OF that] free [of "vs ! ?j"] that by auto
  have jl: "?j \<le> length vs" by (rule length_takeWhile_le)
  consider "?j = 0" | "0 < ?j" "?j < length vs" | "?j = length vs" using jl by linarith
  then show False
  proof cases
    case 1
    then have "b + unat sz \<le> lo h" using at vs by simp
    then show False using ha b(2) sz unfolding gap_test by (simp add: top_words lo_def)
  next
    case 2
    have "lo (vs ! ?j) < round_up (2 ^ k) (hi (vs ! (?j - 1))) + unat sz"
      using gap_after_none [OF ga ok k sz, of "?j - 1"] 2 by simp
    then show False using at [OF 2(2)] up [OF below [of "?j - 1"]] 2(1) by simp
  next
    case 3
    have l: "?l \<in> set vs" "hi ?l \<le> USER_TOP" "?l = vs ! (length vs - 1)"
      using vs ok by (auto simp: vmas_ok_def last_conv_nth)
    have hl: "hi ?l \<le> b" using below [of "length vs - 1"] 3 vs l(3) by simp
    have "unat (round_to (mask k) (vstart ?l + vlen ?l)) \<le> b"
      using region_end(2) [OF l(2) k] up [OF hl] by simp
    then show False using la b(3) by (simp add: word_le_nat_alt unat_sub top_words)
  qed
qed

lemma round_size:
  assumes "0 < unat sz" and "unat sz \<le> USER_TOP - 0x40000000 - 2097152"
  shows "unat (round_to (page_mask fl) sz) = round_up (2 ^ page_bits fl) (unat sz)"
    "0 < unat (round_to (page_mask fl) sz)" "unat (round_to (page_mask fl) sz) \<le> USER_TOP - 0x40000000"
proof -
  have p: "(2 :: nat) ^ page_bits fl \<le> 2097152" by (rule pow_le_21 [OF page_bits_le])
  have "unat sz + 2 ^ page_bits fl \<le> 2 ^ 64" using assms(2) p by (simp add: USER_TOP_def)
  from unat_round_to [OF page_bits_le this]
  show e: "unat (round_to (page_mask fl) sz) = round_up (2 ^ page_bits fl) (unat sz)" by (simp add: page_mask_eq)
  show "0 < unat (round_to (page_mask fl) sz)" "unat (round_to (page_mask fl) sz) \<le> USER_TOP - 0x40000000"
    unfolding e using assms p round_up_ge [of "2 ^ page_bits fl" "unat sz"] round_up_less [of "2 ^ page_bits fl" "unat sz"]
    by (simp_all add: USER_TOP_def)
qed

definition overlaps :: "nat \<Rightarrow> nat \<Rightarrow> vma \<Rightarrow> bool" where
  "overlaps a len n \<longleftrightarrow> lo n < a + len \<and> a < hi n"

lemma mmap_law:
  assumes "vmas_ok vs" and "below_top (page_bits fl) vs"
    and "0 < unat sz" and "unat sz \<le> USER_TOP - 0x40000000 - 2097152"
  shows "case mmap_internal vs sz fl obj voff of
      (None, vs') \<Rightarrow> vs' = vs \<and>
        (\<forall>b. 2 ^ page_bits fl dvd b \<and> 0x40000000 \<le> b \<and> b + round_up (2 ^ page_bits fl) (unat sz) \<le> USER_TOP \<longrightarrow>
           (\<exists>n \<in> set vs. overlaps b (round_up (2 ^ page_bits fl) (unat sz)) n))
    | (Some a, vs') \<Rightarrow> vmas_ok vs' \<and> 2 ^ page_bits fl dvd unat a \<and>
        (\<forall>n \<in> set vs. \<not> overlaps (unat a) (round_up (2 ^ page_bits fl) (unat sz)) n) \<and>
        (\<exists>n. set vs' = insert n (set vs) \<and> lo n = unat a \<and> hi n = unat a + round_up (2 ^ page_bits fl) (unat sz) \<and>
           vflags n = fl \<and> backing_vmo n = obj \<and> vmo_offset n = voff)"
proof -
  let ?mk = "page_mask fl" and ?k = "page_bits fl"
  let ?r = "round_to ?mk sz"
  note r = round_size [OF assms(3,4), of fl]
  show ?thesis
  proof (cases "find_gap ?mk ?r vs")
    case None
    then show ?thesis
      using find_gap_none [OF None [unfolded page_mask_eq] assms(1) page_bits_le assms(2)] r
      by (auto simp: mmap_internal_def Let_def overlaps_def page_mask_eq)
  next
    case (Some bj)
    obtain b j where bj: "find_gap ?mk ?r vs = Some (b, j)" using Some by (cases bj) auto
    let ?n = "\<lparr>vstart = b, vlen = ?r, vflags = fl, backing_vmo = obj, vmo_offset = voff\<rparr>"
    have g: "j \<le> length vs" "2 ^ ?k dvd unat b" "unat b + unat ?r \<le> USER_TOP"
      "0 < j \<Longrightarrow> hi (vs ! (j - 1)) \<le> unat b" "j < length vs \<Longrightarrow> unat b + unat ?r \<le> lo (vs ! j)"
      using find_gap_some [OF bj [unfolded page_mask_eq] assms(1) page_bits_le assms(2)] r(3)
      by (auto simp: page_mask_eq)
    have n: "lo ?n = unat b" "hi ?n = unat b + unat ?r" by (simp_all add: lo_def hi_def)
    note ins = insert_vma_ok [OF assms(1) g(1), of ?n, unfolded n, OF g(3-5)]
    have disj: "\<not> overlaps (unat b) (unat ?r) m" if m: "m \<in> set vs" for m
    proof -
      obtain i where i: "i < length vs" "m = vs ! i" using m by (auto simp: in_set_conv_nth)
      show ?thesis
      proof (cases "i < j")
        case True
        then have "hi m \<le> hi (vs ! (j - 1))"
          using i(1) g(1) vmas_ok_nth [OF assms(1), of i "j - 1"] lo_le_hi [of "vs ! (j - 1)"]
          unfolding i(2) by (cases "i = j - 1") (simp_all only: order_refl, linarith)
        then show ?thesis using g(4) True by (simp add: overlaps_def)
      next
        case False
        then have "lo (vs ! j) \<le> lo m"
          using i vmas_ok_nth [OF assms(1), of j i] lo_le_hi [of "vs ! j"] by (cases "i = j") auto
        then show ?thesis using g(5) False i(1) by (simp add: overlaps_def)
      qed
    qed
    have "mmap_internal vs sz fl obj voff = (Some b, insert_vma j ?n vs)"
      using bj by (simp add: mmap_internal_def Let_def)
    then show ?thesis
      using ins n g(2) disj unfolding r(1) [symmetric] by (auto intro!: exI [of _ ?n])
  qed
qed

text \<open>
  First-fit mapping. For a non-empty request that fits user space, \<open>mmap\<close> returns an
  aligned address whose rounded range lies in user space and overlaps no region, inserts
  exactly that region and keeps the regions ordered and disjoint; it fails, changing
  nothing, only when every aligned range of that size above the mapping base overlaps a
  region.
\<close>

theorem mmap_correct:
  assumes "vmas_ok vs" and "below_top (page_bits fl) vs"
    and "0 < unat sz" and "unat sz \<le> USER_TOP - 0x40000000 - 2097152"
  shows "case mmap_internal vs sz fl obj voff of
      (None, vs') \<Rightarrow> vs' = vs \<and>
        (\<forall>b. 2 ^ page_bits fl dvd b \<and> 0x40000000 \<le> b \<and> b + round_up (2 ^ page_bits fl) (unat sz) \<le> USER_TOP \<longrightarrow>
           (\<exists>n \<in> set vs. overlaps b (round_up (2 ^ page_bits fl) (unat sz)) n))
    | (Some a, vs') \<Rightarrow> vmas_ok vs' \<and> 2 ^ page_bits fl dvd unat a \<and>
        (\<forall>n \<in> set vs. \<not> overlaps (unat a) (round_up (2 ^ page_bits fl) (unat sz)) n) \<and>
        (\<exists>n. set vs' = insert n (set vs) \<and> lo n = unat a \<and> hi n = unat a + round_up (2 ^ page_bits fl) (unat sz) \<and>
           vflags n = fl \<and> backing_vmo n = obj \<and> vmo_offset n = voff)"
  by (rule mmap_law [OF assms])

section \<open>Operation sequences\<close>

text \<open>
  The system calls that change the regions, on arguments a caller may pass: sizes that are
  not zero and fit user space, fixed addresses inside it, normal pages.
\<close>

datatype vma_op =
  OMmap u64 u64
| OMmapVmo u64 u64 nat
| OMmapAt u64 u64 u64 nat
| OMunmap u64 u64
| OMprotect u64 u64 u64

fun vma_step :: "vma list \<Rightarrow> vma_op \<Rightarrow> vma list" where
  "vma_step vs (OMmap sz fl) = snd (mmap vs sz fl)"
| "vma_step vs (OMmapVmo sz fl obj) = snd (mmap_vmo vs sz fl obj)"
| "vma_step vs (OMmapAt a sz fl obj) = snd (mmap_vmo_at vs a sz fl obj)"
| "vma_step vs (OMunmap a sz) = (case detach_vma a (align_up sz) vs of Inl _ \<Rightarrow> vs | Inr (_, vs') \<Rightarrow> vs')"
| "vma_step vs (OMprotect a sz fl) = (case reflag_vma a (align_up sz) fl vs of Inl _ \<Rightarrow> vs | Inr (_, vs') \<Rightarrow> vs')"

definition size_ok :: "u64 \<Rightarrow> bool" where
  "size_ok sz \<longleftrightarrow> 0 < unat sz \<and> unat sz \<le> USER_TOP - 0x40000000 - 2097152"

fun vma_op_ok :: "vma_op \<Rightarrow> bool" where
  "vma_op_ok (OMmap sz fl) \<longleftrightarrow> size_ok sz \<and> fl AND VM_FLAG_HUGE = 0"
| "vma_op_ok (OMmapVmo sz fl obj) \<longleftrightarrow> size_ok sz \<and> fl AND VM_FLAG_HUGE = 0"
| "vma_op_ok (OMmapAt a sz fl obj) \<longleftrightarrow> size_ok sz \<and> unat a + round_up 4096 (unat sz) \<le> USER_TOP"
| "vma_op_ok _ \<longleftrightarrow> True"

definition regions_ok :: "vma list \<Rightarrow> bool" where
  "regions_ok vs \<longleftrightarrow> vmas_ok vs \<and> (\<forall>n \<in> set vs. 0 < unat (vlen n))"

lemma normal_bits: "fl AND VM_FLAG_HUGE = 0 \<Longrightarrow> page_bits fl = 12"
  by (simp add: page_bits_def)

lemma mmap_internal_regions:
  assumes "regions_ok vs" and "size_ok sz" and "fl AND VM_FLAG_HUGE = 0"
  shows "regions_ok (snd (mmap_internal vs sz fl obj voff))"
proof -
  have ok: "vmas_ok vs" "below_top (page_bits fl) vs"
    using assms(1) below_top_12 normal_bits [OF assms(3)] by (simp_all add: regions_ok_def)
  have sz: "0 < unat sz" "unat sz \<le> USER_TOP - 0x40000000 - 2097152" using assms(2) by (auto simp: size_ok_def)
  obtain r vs' where m: "mmap_internal vs sz fl obj voff = (r, vs')" by (cases "mmap_internal vs sz fl obj voff")
  show ?thesis
  proof (cases r)
    case None
    then show ?thesis using m assms(1) by (auto simp: mmap_internal_def Let_def split: option.splits)
  next
    case (Some a)
    have v: "vmas_ok vs'" using mmap_law [OF ok sz, of obj voff] m Some by simp
    have "set vs' = insert n (set vs) \<Longrightarrow> 0 < unat (vlen n) \<Longrightarrow> regions_ok vs'" for n
      using v assms(1) by (auto simp: regions_ok_def)
    moreover obtain n where "set vs' = insert n (set vs)" "hi n = lo n + round_up (2 ^ page_bits fl) (unat sz)"
      using mmap_law [OF ok sz, of obj voff] m Some by auto
    moreover have "0 < round_up (2 ^ page_bits fl) (unat sz)" using round_up_ge [of "2 ^ page_bits fl" "unat sz"] sz(1) by simp
    ultimately show ?thesis using m by (simp add: hi_def lo_def)
  qed
qed

lemma mmap_at_regions:
  assumes "regions_ok vs" and "size_ok sz" and "unat a + round_up 4096 (unat sz) \<le> USER_TOP"
  shows "regions_ok (snd (mmap_vmo_at vs a sz fl obj))"
proof -
  let ?P = "\<lambda>n. \<not> a < vstart n" and ?r = "round_to (0x1000 - 1) sz"
  let ?n = "\<lparr>vstart = a, vlen = ?r, vflags = fl, backing_vmo = Some obj, vmo_offset = 0\<rparr>"
  let ?k = "length (takeWhile ?P vs)"
  have mk: "(0x1000 - 1 :: u64) = mask 12" by (simp add: mask_eq_exp_minus_1)
  have sz: "0 < unat sz" "unat sz \<le> USER_TOP" using assms(2) by (auto simp: size_ok_def)
  have r: "unat ?r = round_up 4096 (unat sz)"
    unfolding mk using unat_round_to [of 12 sz] sz by (simp add: USER_TOP_def)
  have rp: "0 < unat ?r" unfolding r using sz(1) round_up_ge [of 4096 "unat sz"] by simp
  have ok: "vmas_ok vs" and pos: "\<forall>n \<in> set vs. 0 < unat (vlen n)" using assms(1) by (auto simp: regions_ok_def)
  have n: "lo ?n = unat a" "hi ?n = unat a + unat ?r" by (simp_all add: lo_def hi_def)
  have sum: "unat (vstart m + vlen m) = hi m" if "m \<in> set vs" for m
    using region_end(1) [of m 12] ok that by (simp add: vmas_ok_def)
  have sn: "unat (a + ?r) = hi ?n"
  proof -
    have "unat a + unat ?r < 2 ^ 64" using assms(3) r by (simp add: USER_TOP_def)
    then show ?thesis using unat_add_lem [of a ?r] n(2) by simp
  qed
  let ?A = "takeWhile ?P vs \<noteq> [] \<and> a < vstart (last (takeWhile ?P vs)) + vlen (last (takeWhile ?P vs))"
  let ?B = "dropWhile ?P vs \<noteq> [] \<and> vstart (hd (dropWhile ?P vs)) < a + ?r"
  have eq: "mmap_vmo_at vs a sz fl obj =
      (if ?A then (None, vs) else if ?B then (None, vs) else (Some a, takeWhile ?P vs @ ?n # dropWhile ?P vs))"
    unfolding mmap_vmo_at_def Let_def ..
  show ?thesis
  proof (cases "?A \<or> ?B")
    case True
    then have "snd (mmap_vmo_at vs a sz fl obj) = vs" unfolding eq by (simp only: split: if_split) auto
    then show ?thesis using assms(1) by simp
  next
    case False
    then have b: "takeWhile ?P vs = [] \<or> \<not> a < vstart (last (takeWhile ?P vs)) + vlen (last (takeWhile ?P vs))"
      and f: "dropWhile ?P vs = [] \<or> \<not> vstart (hd (dropWhile ?P vs)) < a + ?r" by blast+
    have res: "snd (mmap_vmo_at vs a sz fl obj) = takeWhile ?P vs @ ?n # dropWhile ?P vs"
      unfolding eq using False by (simp only: if_False if_not_P de_Morgan_disj simp_thms snd_conv)
    have ins: "takeWhile ?P vs @ ?n # dropWhile ?P vs = insert_vma ?k ?n vs"
      by (simp only: insert_vma_def takeWhile_eq_take [symmetric] dropWhile_eq_drop [symmetric])
    have l: "hi (vs ! (?k - 1)) \<le> lo ?n" if "0 < ?k"
    proof -
      have k1: "?k - 1 < ?k" using that by simp
      then have "?k - 1 < length vs" using length_takeWhile_le [of ?P vs] by (rule less_le_trans)
      moreover have "last (takeWhile ?P vs) = vs ! (?k - 1)"
        using that takeWhile_nth [OF k1] by (simp add: last_conv_nth)
      ultimately have "last (takeWhile ?P vs) = vs ! (?k - 1)" "?k - 1 < length vs" by blast+
      then show ?thesis using b that sum [of "vs ! (?k - 1)"] n(1) by (auto simp: word_less_nat_alt)
    qed
    have rr: "hi ?n \<le> lo (vs ! ?k)" if "?k < length vs"
    proof -
      have "dropWhile ?P vs \<noteq> []" "hd (dropWhile ?P vs) = vs ! ?k"
        using that by (simp_all add: dropWhile_eq_drop hd_drop_conv_nth)
      then have "\<not> vstart (vs ! ?k) < a + ?r" using f by metis
      then have "unat (a + ?r) \<le> unat (vstart (vs ! ?k))" by (simp only: word_less_nat_alt not_less)
      then show ?thesis using sn by (simp only: lo_def)
    qed
    have "hi ?n \<le> USER_TOP" using n(2) r assms(3) by simp
    note i = insert_vma_ok [OF ok length_takeWhile_le this l rr]
    have "set (insert_vma ?k ?n vs) = insert ?n (set vs)" using i(2) .
    then show ?thesis unfolding res ins regions_ok_def using i(1) pos rp by simp
  qed
qed

lemma detach_sub: "detach_vma a sz vs = Inr (t, vs') \<Longrightarrow> \<exists>k < length vs. t = vs ! k \<and> vs' = take k vs @ drop (Suc k) vs"
proof (induction a sz vs arbitrary: vs' rule: detach_vma.induct)
  case (2 a sz n vs)
  show ?case
  proof (cases "vstart n = a")
    case True
    then show ?thesis using 2(2) by (intro exI [of _ 0]) (auto split: if_splits)
  next
    case False
    then obtain w where "detach_vma a sz vs = Inr (t, w)" "vs' = n # w" using 2(2) by (auto split: sum.splits)
    then obtain k where "k < length vs" "t = vs ! k" "vs' = n # take k vs @ drop (Suc k) vs" using 2(1) False by blast
    then show ?thesis by (intro exI [of _ "Suc k"]) simp
  qed
qed simp

lemma detach_regions: "regions_ok vs \<Longrightarrow> detach_vma a sz vs = Inr (t, vs') \<Longrightarrow> regions_ok vs'"
proof -
  assume ok: "regions_ok vs" and "detach_vma a sz vs = Inr (t, vs')"
  then obtain k where k: "k < length vs" "vs' = take k vs @ drop (Suc k) vs" using detach_sub by blast
  have "vs = take k vs @ vs ! k # drop (Suc k) vs" using id_take_nth_drop [OF k(1)] .
  then have s: "sorted_wrt (\<lambda>a b. hi a \<le> lo b) (take k vs @ vs ! k # drop (Suc k) vs)"
    using ok by (metis regions_ok_def vmas_ok_def)
  have "set vs' \<subseteq> set vs" unfolding k(2) using set_take_subset set_drop_subset by fastforce
  then show ?thesis using s ok unfolding k(2) regions_ok_def vmas_ok_def sorted_wrt_append by auto
qed

lemma reflag_shape:
  "reflag_vma a sz fl vs = Inr (t, vs') \<Longrightarrow> map (\<lambda>n. (vstart n, vlen n)) vs' = map (\<lambda>n. (vstart n, vlen n)) vs"
  by (induction a sz fl vs arbitrary: vs' rule: reflag_vma.induct) (auto split: if_splits sum.splits)

lemma regions_ok_shape:
  assumes "map (\<lambda>n. (vstart n, vlen n)) vs' = map (\<lambda>n. (vstart n, vlen n)) vs"
  shows "regions_ok vs' = regions_ok vs"
proof -
  define R where "R = (\<lambda>(s :: u64, l :: u64) (s' :: u64, l' :: u64). unat s + unat l \<le> unat s')"
  define P where "P = (\<lambda>(s :: u64, l :: u64). unat s + unat l \<le> USER_TOP \<and> 0 < unat l)"
  have char: "regions_ok ws \<longleftrightarrow> sorted_wrt R (map (\<lambda>n. (vstart n, vlen n)) ws) \<and>
      (\<forall>x \<in> set (map (\<lambda>n. (vstart n, vlen n)) ws). P x)" for ws
    by (auto simp: regions_ok_def vmas_ok_def sorted_wrt_map R_def P_def hi_def lo_def)
  show ?thesis by (simp only: char assms)
qed



definition sample_vma :: vma where
  "sample_vma = \<lparr>vstart = 0x40001000, vlen = 0x1000, vflags = 1, backing_vmo = None, vmo_offset = 0\<rparr>"

theorem mmap_correct_witness:
  "vmas_ok [sample_vma] \<and>
   (case mmap_internal [sample_vma] 0x1800 1 None 0 of
      (None, vs') \<Rightarrow> vs' = [sample_vma]
    | (Some a, vs') \<Rightarrow> vmas_ok vs')"
proof -
  have ok: "vmas_ok [sample_vma]" by (simp add: vmas_ok_def sample_vma_def hi_def USER_TOP_def)
  have "page_bits 1 = 12" by (simp add: page_bits_def VM_FLAG_HUGE_def)
  then have b: "below_top (page_bits 1) [sample_vma]" using below_top_12 [OF ok] by simp
  have "0 < unat (0x1800 :: u64)" "unat (0x1800 :: u64) \<le> USER_TOP - 0x40000000 - 2097152"
    by (simp_all add: USER_TOP_def)
  from mmap_correct [OF ok b this, of None 0] ok show ?thesis by (auto split: option.splits)
qed

text \<open>
  A mapping of size zero is accepted and leaves an empty region behind. The next mapping
  gets the same address, and can then not be unmapped: the search stops at the empty region
  and reports a size mismatch.
\<close>

theorem empty_mapping_blocks_munmap:
  "case mmap [] 0 1 of (r, vs) \<Rightarrow>
     (case mmap vs 0x1000 1 of (r', vs') \<Rightarrow>
        r = Some 0x40000000 \<and> r' = Some 0x40000000 \<and> detach_vma 0x40000000 (align_up 0x1000) vs' = Inl True)"
  by code_simp

end
