(* ===== verification/Vmm.thy ===== *)
theory Vmm
  imports Vma Core_Frames Abi
begin

text \<open>
  Address spaces: the rest of \<^verbatim>\<open>kernel/src/memory/vmm.rs\<close>. An address space is its list of
  regions and the root of its page tables; table memory and the core's frame allocator are
  threaded through the operations. A page fault asks the backing object of its region for a
  frame through the argument \<open>req\<close>, the object's \<^verbatim>\<open>request_page\<close>. TLB shootdowns have no
  effect on this state.
\<close>

section \<open>State\<close>

record vmm =
  regions :: "vma list"
  l4_addr :: u64

type_synonym mem_state = "tables \<times> core_alloc"

definition vmm_new :: "u64 \<Rightarrow> u64 \<Rightarrow> mem_state \<Rightarrow> (vmm \<times> mem_state) run" where
  "vmm_new off cr3 = (\<lambda>(tm, m, s).
    do { (r, tm', s') \<leftarrow> pager_new_root
           (\<lambda>s. do { (r, s') \<leftarrow> pmm_alloc s Normal; ret (map_option of_nat r, s') }) off cr3 (tm, s);
         case r of None \<Rightarrow> panic
                 | Some frame \<Rightarrow> ret (\<lparr>regions = [], l4_addr = frame\<rparr>, tm', m, s') })"

definition vma_block :: "vma \<Rightarrow> block_size" where
  "vma_block n = (if vflags n AND VM_FLAG_HUGE \<noteq> 0 then Huge else Normal)"

definition vma_step_size :: "vma \<Rightarrow> u64" where
  "vma_step_size n = (if vflags n AND VM_FLAG_HUGE \<noteq> 0 then 0x200000 else 0x1000)"

section \<open>Unmapping\<close>

text \<open>
  The inner loop collects at most \<open>BATCH_SIZE\<close> mapped pages and unmaps them; the outer loop
  gives the frames of a batch back unless an object backs the region. A result of \<open>None\<close> is
  a panic of the pager (a misaligned region) or a loop that never ends.
\<close>

partial_function (option) munmap_batch ::
  "u64 \<Rightarrow> u64 \<Rightarrow> u64 \<Rightarrow> block_size \<Rightarrow> u64 \<Rightarrow> u64 \<Rightarrow> tables \<Rightarrow> u64 list \<Rightarrow> (u64 \<times> tables \<times> u64 list) run" where
  "munmap_batch l4 off stp sz cur end_page tm batch =
    (if cur < end_page \<and> length batch < BATCH_SIZE
     then case pager_translate l4 off tm cur of
            Some phys \<Rightarrow> do { tm' \<leftarrow> pager_unmap_page l4 off tm cur sz;
                             munmap_batch l4 off stp sz (cur + stp) end_page tm' (batch @ [phys]) }
          | None \<Rightarrow> munmap_batch l4 off stp sz (cur + stp) end_page tm batch
     else ret (cur, tm, batch))"

partial_function (option) munmap_pages ::
  "u64 \<Rightarrow> u64 \<Rightarrow> vma \<Rightarrow> u64 \<Rightarrow> u64 \<Rightarrow> mem_state \<Rightarrow> mem_state run" where
  "munmap_pages l4 off n cur end_page st =
    (case st of (tm, c) \<Rightarrow>
       if cur < end_page
       then do { (cur', tm', batch) \<leftarrow> munmap_batch l4 off (vma_step_size n) (vma_block n) cur end_page tm [];
                 c' \<leftarrow> (if backing_vmo n = None then free_each (\<lambda>c a. pc_free c a (vma_block n)) c (map unat batch)
                        else ret c);
                 munmap_pages l4 off n cur' end_page (tm', c') }
       else ret (tm, c))"

definition munmap :: "u64 \<Rightarrow> vmm \<Rightarrow> mem_state \<Rightarrow> u64 \<Rightarrow> u64 \<Rightarrow> ((bool + unit) \<times> vmm \<times> mem_state) run" where
  "munmap off vm st start_addr sz =
    (case detach_vma start_addr (align_up sz) (regions vm) of
       Inl e \<Rightarrow> ret (Inl e, vm, st)
     | Inr (n, vs) \<Rightarrow>
         do { st' \<leftarrow> munmap_pages (l4_addr vm) off n (vstart n) (vstart n + vlen n) st;
              ret (Inr (), vm\<lparr>regions := vs\<rparr>, st') })"

section \<open>Changing protection\<close>

partial_function (option) mprotect_pages ::
  "u64 \<Rightarrow> u64 \<Rightarrow> vma \<Rightarrow> u64 \<Rightarrow> u64 \<Rightarrow> tables \<Rightarrow> tables run" where
  "mprotect_pages l4 off n new_fl cur tm =
    (if cur < vstart n + vlen n
     then do { tm' \<leftarrow> pager_change_flags l4 off tm cur (convert_vm_flags new_fl) (vma_block n);
               mprotect_pages l4 off n new_fl (cur + vma_step_size n) tm' }
     else ret tm)"

definition mprotect :: "u64 \<Rightarrow> vmm \<Rightarrow> mem_state \<Rightarrow> u64 \<Rightarrow> u64 \<Rightarrow> u64 \<Rightarrow> ((bool + unit) \<times> vmm \<times> mem_state) run" where
  "mprotect off vm = (\<lambda>(tm, c) start_addr sz new_fl.
    case reflag_vma start_addr (align_up sz) new_fl (regions vm) of
      Inl e \<Rightarrow> ret (Inl e, vm, tm, c)
    | Inr (n, vs) \<Rightarrow>
        do { tm' \<leftarrow> mprotect_pages (l4_addr vm) off n new_fl (vstart n) tm;
             ret (Inr (), vm\<lparr>regions := vs\<rparr>, tm', c) })"

section \<open>Page faults\<close>

datatype fault_error =
  FaultInvocation invocation_error
| InvalidAddress
| FaultAccessDenied
| MappingFailed

definition fault_frame ::
  "(nat \<Rightarrow> u64 \<Rightarrow> 'v \<Rightarrow> core_alloc \<Rightarrow> ((unit + nat) \<times> 'v \<times> core_alloc) run) \<Rightarrow> vma \<Rightarrow> u64 \<Rightarrow> 'v \<Rightarrow> core_alloc
     \<Rightarrow> ((unit + nat) \<times> 'v \<times> core_alloc) run" where
  "fault_frame req n voff objs c =
    (case backing_vmo n of
       Some obj \<Rightarrow> req obj voff objs c
     | None \<Rightarrow> do { (a, c') \<leftarrow> pc_alloc c (vma_block n); ret (Inr a, objs, c') })"

definition handle_page_fault ::
  "(nat \<Rightarrow> u64 \<Rightarrow> 'v \<Rightarrow> core_alloc \<Rightarrow> ((unit + nat) \<times> 'v \<times> core_alloc) run) \<Rightarrow> u64 \<Rightarrow> vmm \<Rightarrow> 'v \<Rightarrow> mem_state \<Rightarrow> u64 \<Rightarrow> u64
     \<Rightarrow> ((fault_error + unit) \<times> 'v \<times> mem_state) run" where
  "handle_page_fault req off vm objs = (\<lambda>(tm, c) addr error_code.
    case find_vma (regions vm) addr of
      None \<Rightarrow> ret (Inl InvalidAddress, objs, tm, c)
    | Some n \<Rightarrow>
        if error_code AND push_bit 1 1 \<noteq> 0 \<and> vflags n AND VM_FLAG_WRITE = 0
        then ret (Inl FaultAccessDenied, objs, tm, c)
        else
          let fault_page = addr AND NOT (page_mask (vflags n));
              voff = fault_page - vstart n + vmo_offset n
          in do { (r, objs', c') \<leftarrow> fault_frame req n voff objs c;
                  case r of
                    Inl _ \<Rightarrow> ret (Inl MappingFailed, objs', tm, c')
                  | Inr phys_frame \<Rightarrow>
                      do { (tm', c'') \<leftarrow> pager_map_page table_alloc (l4_addr vm) off (tm, c') fault_page
                             (of_nat phys_frame) (convert_vm_flags (vflags n)) (vma_block n);
                           ret (Inr (), objs', tm', c'') } })"

section \<open>Teardown\<close>

partial_function (option) unmap_everything :: "u64 \<Rightarrow> vmm \<Rightarrow> mem_state \<Rightarrow> (vmm \<times> mem_state) run" where
  "unmap_everything off vm st =
    (case regions vm of
       [] \<Rightarrow> ret (vm, st)
     | n # _ \<Rightarrow> do { (_, vm', st') \<leftarrow> munmap off vm st (vstart n) (vlen n); unmap_everything off vm' st' })"

fun free_l2 :: "tables \<Rightarrow> u64 \<Rightarrow> 9 word list \<Rightarrow> pmm \<Rightarrow> pmm run" where
  "free_l2 tm l2 [] s = ret s"
| "free_l2 tm l2 (i # is) s =
    do { s' \<leftarrow> (if is_present (tm l2 i) \<and> \<not> is_huge (tm l2 i) then pmm_free s (unat (get_addr (tm l2 i))) Normal
                else ret s);
         free_l2 tm l2 is s' }"

fun free_l3 :: "tables \<Rightarrow> u64 \<Rightarrow> u64 \<Rightarrow> 9 word list \<Rightarrow> pmm \<Rightarrow> pmm run" where
  "free_l3 tm off l3 [] s = ret s"
| "free_l3 tm off l3 (i # is) s =
    do { s' \<leftarrow> (if is_present (tm l3 i)
                then do { s1 \<leftarrow> free_l2 tm (get_addr (tm l3 i) + off) (map of_nat [0..<512]) s;
                          pmm_free s1 (unat (get_addr (tm l3 i))) Normal }
                else ret s);
         free_l3 tm off l3 is s' }"

fun free_l4 :: "tables \<Rightarrow> u64 \<Rightarrow> u64 \<Rightarrow> 9 word list \<Rightarrow> pmm \<Rightarrow> pmm run" where
  "free_l4 tm off l4 [] s = ret s"
| "free_l4 tm off l4 (i # is) s =
    do { s' \<leftarrow> (if is_present (tm l4 i)
                then do { s1 \<leftarrow> free_l3 tm off (get_addr (tm l4 i) + off) (map of_nat [0..<512]) s;
                          pmm_free s1 (unat (get_addr (tm l4 i))) Normal }
                else ret s);
         free_l4 tm off l4 is s' }"

definition teardown :: "u64 \<Rightarrow> vmm \<Rightarrow> mem_state \<Rightarrow> (vmm \<times> mem_state) run" where
  "teardown off vm st =
    do { (vm', tm, m, s) \<leftarrow> unmap_everything off vm st;
         s1 \<leftarrow> free_l4 tm off (l4_addr vm' + off) (map of_nat [0..<256]) s;
         s2 \<leftarrow> pmm_free s1 (unat (l4_addr vm')) Normal;
         ret (vm', tm, m, s2) }"

section \<open>Pages and addresses\<close>

lemma bit_index: "bit (drop_bit k v AND 0x1FF :: u64) n \<longleftrightarrow> n < 9 \<and> bit v (k + n)"
  unfolding mask_numerals by (auto simp: bit_simps)

lemma index_eq_iff:
  "(ucast (drop_bit k v AND 0x1FF :: u64) :: 9 word) = ucast (drop_bit k w AND 0x1FF :: u64) \<longleftrightarrow>
   (\<forall>n. k \<le> n \<and> n < k + 9 \<longrightarrow> bit v n = bit w n)" (is "?l \<longleftrightarrow> ?r")
proof
  assume ?l
  then have "bit (ucast (drop_bit k v AND 0x1FF :: u64) :: 9 word) m = bit (ucast (drop_bit k w AND 0x1FF :: u64) :: 9 word) m" for m
    by simp
  then have *: "m < 9 \<Longrightarrow> bit v (k + m) = bit w (k + m)" for m
    unfolding bit_ucast_iff bit_index by auto
  show ?r
  proof (intro allI impI)
    fix n assume "k \<le> n \<and> n < k + 9"
    then show "bit v n = bit w n" using * [of "n - k"] by auto
  qed
next
  assume r: ?r
  show ?l by (rule bit_word_eqI) (use r in \<open>auto simp: bit_ucast_iff bit_index\<close>)
qed

lemma same_page_bits:
  "same_page Normal v w \<longleftrightarrow> (\<forall>n. 12 \<le> n \<and> n < 48 \<longrightarrow> bit v n = bit w n)" (is "?l \<longleftrightarrow> ?r")
proof -
  have "?l \<longleftrightarrow> (\<forall>n. 39 \<le> n \<and> n < 39 + 9 \<longrightarrow> bit v n = bit w n) \<and> (\<forall>n. 30 \<le> n \<and> n < 30 + 9 \<longrightarrow> bit v n = bit w n) \<and>
      (\<forall>n. 21 \<le> n \<and> n < 21 + 9 \<longrightarrow> bit v n = bit w n) \<and> (\<forall>n. 12 \<le> n \<and> n < 12 + 9 \<longrightarrow> bit v n = bit w n)"
    unfolding same_page_def i4_def i3_def i2_def i1_def get_idxs_def fst_conv snd_conv index_eq_iff by blast
  also have "\<dots> \<longleftrightarrow> ?r"
  proof
    assume a: "(\<forall>n. 39 \<le> n \<and> n < 39 + 9 \<longrightarrow> bit v n = bit w n) \<and> (\<forall>n. 30 \<le> n \<and> n < 30 + 9 \<longrightarrow> bit v n = bit w n) \<and>
      (\<forall>n. 21 \<le> n \<and> n < 21 + 9 \<longrightarrow> bit v n = bit w n) \<and> (\<forall>n. 12 \<le> n \<and> n < 12 + 9 \<longrightarrow> bit v n = bit w n)"
    show ?r
    proof (intro allI impI)
      fix n :: nat assume "12 \<le> n \<and> n < 48"
      then consider "39 \<le> n \<and> n < 39 + 9" | "30 \<le> n \<and> n < 30 + 9" | "21 \<le> n \<and> n < 21 + 9" | "12 \<le> n \<and> n < 12 + 9"
        by linarith
      then show "bit v n = bit w n" using a by cases blast+
    qed
  qed auto
  finally show ?thesis .
qed

lemma same_page_down: "same_page Normal (v AND NOT (mask 12)) w \<longleftrightarrow> same_page Normal v w"
  unfolding same_page_bits by (auto simp: bit_simps)

lemma same_page_self: "same_page sz v v"
  by (simp add: same_page_def)

definition pg :: "nat \<Rightarrow> u64" where
  "pg j = of_nat (j * 4096)"

lemma unat_pg: "j < 2 ^ 36 \<Longrightarrow> unat (pg j) = j * 4096"
  by (simp add: pg_def unat_of_nat take_bit_nat_eq_self del: of_nat_mult)

lemma same_page_pg:
  assumes "j < 2 ^ 36" and "unat w < 2 ^ 48"
  shows "same_page Normal (pg j) w \<longleftrightarrow> unat w div 4096 = j"
proof -
  have hi: "\<not> bit x n" if "unat x < 2 ^ 48" "48 \<le> n" for x :: u64 and n
  proof -
    have "take_bit 48 (unat x) = unat x" using that(1) by (simp add: take_bit_nat_eq_self)
    then have "\<not> bit (unat x) n" using that(2) by (metis bit_take_bit_iff not_less)
    then show ?thesis by (simp add: bit_unsigned_iff)
  qed
  have pj: "unat (pg j) < 2 ^ 48" using assms(1) by (simp add: unat_pg)
  have "same_page Normal (pg j) w \<longleftrightarrow> drop_bit 12 (pg j) = drop_bit 12 w" (is "?l \<longleftrightarrow> ?r")
  proof
    assume l: ?l
    show ?r
    proof (rule bit_word_eqI)
      fix n assume "n < LENGTH(64)"
      show "bit (drop_bit 12 (pg j)) n = bit (drop_bit 12 w) n"
        using l hi [OF pj, of "12 + n"] hi [OF assms(2), of "12 + n"] unfolding same_page_bits bit_drop_bit_eq o_def
        by (cases "12 + n < 48") auto
    qed
  next
    assume r: ?r
    show ?l unfolding same_page_bits
    proof (intro allI impI)
      fix n :: nat assume "12 \<le> n \<and> n < 48"
      then show "bit (pg j) n = bit w n"
        using arg_cong [OF r, of "\<lambda>x. bit x (n - 12)"] by (simp add: bit_drop_bit_eq)
    qed
  qed
  also have "\<dots> \<longleftrightarrow> unat (drop_bit 12 (pg j)) = unat (drop_bit 12 w)" by (simp add: unsigned_word_eqI word_unat_eq_iff)
  also have "\<dots> \<longleftrightarrow> unat w div 4096 = j"
    using assms(1) by (auto simp: unat_drop_bit_eq drop_bit_eq_div unat_pg unat_div)
  finally show ?thesis .
qed

lemma pg_aligned: "virt_aligned (pg j) Normal"
proof -
  have "pg j AND mask 12 = 0"
    by (rule bit_word_eqI) (auto simp: pg_def bit_simps bit_push_bit_iff push_bit_eq_mult [of 12 j, symmetric, simplified])
  then show ?thesis by (simp add: virt_aligned_def get_offset_def mask_eq_exp_minus_1)
qed

lemma pg_Suc: "pg j + 0x1000 = pg (Suc j)"
  by (simp add: pg_def)

lemma pg_less: "i < 2 ^ 36 \<Longrightarrow> j < 2 ^ 36 \<Longrightarrow> pg i < pg j \<longleftrightarrow> i < j"
  by (simp add: word_less_nat_alt unat_pg)

lemma not_huge_lookup: "not_huge_at tm off root v \<longleftrightarrow> (\<forall>e. lookup tm root off v \<noteq> Some (e, Huge))"
  by (auto simp: not_huge_at_def lookup_def simp del: tab.simps split: option.splits)

section \<open>Unmapping a region\<close>

definition page_frame_at :: "u64 \<Rightarrow> u64 \<Rightarrow> tables \<Rightarrow> nat \<Rightarrow> u64 option" where
  "page_frame_at l4 off tm j = pager_translate l4 off tm (pg j)"

text \<open>The frames mapped in a range of page numbers, in address order.\<close>

definition mapped_frames :: "u64 \<Rightarrow> u64 \<Rightarrow> tables \<Rightarrow> nat list \<Rightarrow> u64 list" where
  "mapped_frames l4 off tm js = List.map_filter (page_frame_at l4 off tm) js"

definition cleared :: "u64 \<Rightarrow> u64 \<Rightarrow> tables \<Rightarrow> tables \<Rightarrow> nat \<Rightarrow> nat \<Rightarrow> bool" where
  "cleared l4 off tm tm' p r \<longleftrightarrow> pt_wf tm' off (l4 + off) \<and>
    (\<forall>w. unat w < 2 ^ 48 \<longrightarrow> lookup tm' (l4 + off) off w =
       (if p \<le> unat w div 4096 \<and> unat w div 4096 < r then None else lookup tm (l4 + off) off w))"

lemma cleared_refl: "pt_wf tm off (l4 + off) \<Longrightarrow> cleared l4 off tm tm p p"
  by (auto simp: cleared_def)

lemma cleared_trans:
  "cleared l4 off tm tm1 p q \<Longrightarrow> cleared l4 off tm1 tm2 q r \<Longrightarrow> p \<le> q \<Longrightarrow> q \<le> r \<Longrightarrow> cleared l4 off tm tm2 p r"
  by (auto simp: cleared_def)

lemma cleared_skip:
  assumes "pt_wf tm off (l4 + off)" and "pager_translate l4 off tm (pg p) = None" and "p < 2 ^ 36"
  shows "cleared l4 off tm tm p (Suc p)"
proof -
  have "lookup tm (l4 + off) off w = None" if "unat w < 2 ^ 48" "unat w div 4096 = p" for w
  proof -
    have "same_page Normal (pg p) w" using same_page_pg [OF assms(3) that(1)] that(2) by simp
    moreover have "lookup tm (l4 + off) off (pg p) = None"
      using assms(2) by (simp add: pager_translate_def translate_lookup)
    ultimately show ?thesis
      by (auto simp: lookup_def same_page_def simp del: tab.simps split: option.splits if_splits)
  qed
  then show ?thesis using assms(1) by (auto simp: cleared_def less_Suc_eq dest: le_antisym)
qed

lemma cleared_unmap:
  assumes "pt_wf tm off (l4 + off)" and "not_huge_at tm off (l4 + off) (pg p)" and "p < 2 ^ 36"
  obtains tm' where "pager_unmap_page l4 off tm (pg p) Normal = Some tm'" "cleared l4 off tm tm' p (Suc p)"
proof (rule that)
  show "pager_unmap_page l4 off tm (pg p) Normal = Some (unmap_page tm (l4 + off) off (pg p) Normal)"
    by (simp add: pager_unmap_page_def pg_aligned)
  have law: "pt_wf (unmap_page tm (l4 + off) off (pg p) Normal) off (l4 + off) \<and>
      lookup (unmap_page tm (l4 + off) off (pg p) Normal) (l4 + off) off w =
        (if same_page Normal (pg p) w then None else lookup tm (l4 + off) off w)" for w
    using unmap_page_law [OF assms(1), of Normal "pg p" w] assms(2) by blast
  show "cleared l4 off tm (unmap_page tm (l4 + off) off (pg p) Normal) p (Suc p)"
    unfolding cleared_def using law same_page_pg [OF assms(3)] by (auto simp: less_Suc_eq dest: le_antisym)
qed

lemma cleared_translate:
  assumes "cleared l4 off tm tm' p r" and "j < 2 ^ 36" and "\<not> (p \<le> j \<and> j < r)"
  shows "page_frame_at l4 off tm' j = page_frame_at l4 off tm j"
    and "not_huge_at tm' off (l4 + off) (pg j) = not_huge_at tm off (l4 + off) (pg j)"
proof -
  have u: "unat (pg j) < 2 ^ 48" "unat (pg j) div 4096 = j" using assms(2) by (simp_all add: unat_pg)
  then have "lookup tm' (l4 + off) off (pg j) = lookup tm (l4 + off) off (pg j)"
    using assms(1,3) unfolding cleared_def by auto
  then show "page_frame_at l4 off tm' j = page_frame_at l4 off tm j"
    "not_huge_at tm' off (l4 + off) (pg j) = not_huge_at tm off (l4 + off) (pg j)"
    by (simp_all add: page_frame_at_def pager_translate_def translate_lookup not_huge_lookup)
qed

lemma mapped_frames_cleared:
  assumes "cleared l4 off tm tm' p r" and "\<forall>j \<in> set js. j < 2 ^ 36 \<and> \<not> (p \<le> j \<and> j < r)"
  shows "mapped_frames l4 off tm' js = mapped_frames l4 off tm js"
  unfolding mapped_frames_def using assms(2) cleared_translate(1) [OF assms(1)]
  by (induction js) (auto simp: List.map_filter_def)

lemma munmap_batch_law:
  assumes "pt_wf tm off (l4 + off)" and "p \<le> q" and "q < 2 ^ 36"
    and "\<forall>j. p \<le> j \<and> j < q \<longrightarrow> not_huge_at tm off (l4 + off) (pg j)"
  shows "\<exists>r tm'. munmap_batch l4 off 0x1000 Normal (pg p) (pg q) tm batch =
       Some (pg r, tm', batch @ mapped_frames l4 off tm [p..<r]) \<and> p \<le> r \<and> r \<le> q \<and>
     (p < q \<and> length batch < BATCH_SIZE \<longrightarrow> p < r) \<and> cleared l4 off tm tm' p r"
  using assms
proof (induction "q - p" arbitrary: p tm batch)
  case 0
  then have "p = q" by simp
  moreover have "munmap_batch l4 off 0x1000 Normal (pg q) (pg q) tm batch = Some (pg q, tm, batch)"
    by (subst munmap_batch.simps) simp
  ultimately show ?case using cleared_refl [OF 0(2)] by (auto simp: mapped_frames_def List.map_filter_def)
next
  case (Suc m)
  have pq: "p < q" "p < 2 ^ 36" using Suc.hyps(2) Suc.prems(3) by auto
  have lt: "pg p < pg q" using pg_less [of p q] pq Suc.prems(3) by simp
  show ?case
  proof (cases "length batch < BATCH_SIZE")
    case False
    then have "munmap_batch l4 off 0x1000 Normal (pg p) (pg q) tm batch = Some (pg p, tm, batch)"
      by (subst munmap_batch.simps) simp
    then show ?thesis using False Suc.prems(2) cleared_refl [OF Suc.prems(1)]
      by (intro exI [of _ p] exI [of _ tm]) (simp add: mapped_frames_def List.map_filter_def)
  next
    case True
    have step: "\<exists>tm1 f. cleared l4 off tm tm1 p (Suc p) \<and> mapped_frames l4 off tm [p] = f \<and>
        munmap_batch l4 off 0x1000 Normal (pg p) (pg q) tm batch =
          munmap_batch l4 off 0x1000 Normal (pg (Suc p)) (pg q) tm1 (batch @ f)"
    proof (cases "pager_translate l4 off tm (pg p)")
      case None
      have "munmap_batch l4 off 0x1000 Normal (pg p) (pg q) tm batch =
          munmap_batch l4 off 0x1000 Normal (pg (Suc p)) (pg q) tm batch"
        by (subst munmap_batch.simps) (simp add: None True lt pg_Suc)
      then show ?thesis using cleared_skip [OF Suc.prems(1) None pq(2)] None
        by (intro exI [of _ tm]) (simp add: mapped_frames_def page_frame_at_def List.map_filter_def)
    next
      case (Some f)
      have "not_huge_at tm off (l4 + off) (pg p)" using Suc.prems(4) pq(1) by blast
      then obtain tm' where u: "pager_unmap_page l4 off tm (pg p) Normal = Some tm'" "cleared l4 off tm tm' p (Suc p)"
        by (rule cleared_unmap [OF Suc.prems(1) _ pq(2)])
      have "munmap_batch l4 off 0x1000 Normal (pg p) (pg q) tm batch =
          munmap_batch l4 off 0x1000 Normal (pg (Suc p)) (pg q) tm' (batch @ [f])"
        by (subst munmap_batch.simps) (simp add: Some True lt pg_Suc u(1))
      then show ?thesis using u(2) Some
        by (intro exI [of _ tm']) (simp add: mapped_frames_def page_frame_at_def List.map_filter_def)
    qed
    then obtain tm1 where s: "cleared l4 off tm tm1 p (Suc p)"
      "munmap_batch l4 off 0x1000 Normal (pg p) (pg q) tm batch =
          munmap_batch l4 off 0x1000 Normal (pg (Suc p)) (pg q) tm1 (batch @ mapped_frames l4 off tm [p])" by blast
    have wf1: "pt_wf tm1 off (l4 + off)" using s(1) by (simp add: cleared_def)
    have nh1: "\<forall>j. Suc p \<le> j \<and> j < q \<longrightarrow> not_huge_at tm1 off (l4 + off) (pg j)"
      using cleared_translate(2) [OF s(1)] Suc.prems(3,4) by simp
    have m: "m = q - Suc p" using Suc.hyps(2) by simp
    obtain r tm' where r: "munmap_batch l4 off 0x1000 Normal (pg (Suc p)) (pg q) tm1 (batch @ mapped_frames l4 off tm [p]) =
       Some (pg r, tm', (batch @ mapped_frames l4 off tm [p]) @ mapped_frames l4 off tm1 [Suc p..<r])"
       "Suc p \<le> r" "r \<le> q" "cleared l4 off tm1 tm' (Suc p) r"
      using Suc.hyps(1) [OF m wf1 _ Suc.prems(3) nh1, of "batch @ mapped_frames l4 off tm [p]"] pq(1) by auto
    have "mapped_frames l4 off tm1 [Suc p..<r] = mapped_frames l4 off tm [Suc p..<r]"
      by (rule mapped_frames_cleared [OF s(1)]) (use r(3) Suc.prems(3) in auto)
    moreover have "[p..<r] = p # [Suc p..<r]" using r(2) by (simp add: upt_conv_Cons)
    ultimately have fs: "mapped_frames l4 off tm [p..<r] = mapped_frames l4 off tm [p] @ mapped_frames l4 off tm1 [Suc p..<r]"
      by (simp add: mapped_frames_def List.map_filter_def)
    have "munmap_batch l4 off 0x1000 Normal (pg p) (pg q) tm batch =
        Some (pg r, tm', batch @ mapped_frames l4 off tm [p..<r])"
      unfolding fs s(2) r(1) by simp
    then show ?thesis using r(2,3) cleared_trans [OF s(1) r(4)] by (intro exI [of _ r] exI [of _ tm']) simp
  qed
qed

lemma munmap_pages_law:
  assumes "pt_wf tm off (l4 + off)" and "p \<le> q" and "q < 2 ^ 36"
    and "\<forall>j. p \<le> j \<and> j < q \<longrightarrow> not_huge_at tm off (l4 + off) (pg j)"
    and "vma_block n = Normal" and "vma_step_size n = 0x1000" and "core_ok c"
    and "backing_vmo n = None \<Longrightarrow> distinct (map unat (mapped_frames l4 off tm [p..<q])) \<and>
           (\<forall>a \<in> set (mapped_frames l4 off tm [p..<q]). core_live c (unat a))"
  shows "\<exists>tm' c'. munmap_pages l4 off n (pg p) (pg q) (tm, c) = Some (tm', c') \<and> cleared l4 off tm tm' p q \<and> core_ok c' \<and>
     core_stock c' = core_stock c \<union>
       (if backing_vmo n = None then unat ` set (mapped_frames l4 off tm [p..<q]) else {})"
  using assms
proof (induction "q - p" arbitrary: p tm c rule: less_induct)
  case less
  show ?case
  proof (cases "p < q")
    case False
    then have "p = q" using less.prems(2) by simp
    moreover have "munmap_pages l4 off n (pg q) (pg q) (tm, c) = Some (tm, c)" by (subst munmap_pages.simps) simp
    ultimately show ?thesis using cleared_refl [OF less.prems(1)] less.prems(7)
      by (auto simp: mapped_frames_def List.map_filter_def)
  next
    case True
    have lt: "pg p < pg q" using pg_less [of p q] True less.prems(3) by simp
    obtain r tm1 where b: "munmap_batch l4 off 0x1000 Normal (pg p) (pg q) tm [] =
         Some (pg r, tm1, mapped_frames l4 off tm [p..<r])" "p < r" "r \<le> q" "cleared l4 off tm tm1 p r"
      using munmap_batch_law [OF less.prems(1-4), of "[]"] True by (auto simp: BATCH_SIZE_def)
    let ?F = "mapped_frames l4 off tm"
    have split: "?F [p..<q] = ?F [p..<r] @ ?F [r..<q]"
    proof -
      have "[p..<q] = [p..<r] @ [r..<q]" using b(2,3) upt_add_eq_append [of p r "q - r"] by simp
      then show ?thesis by (simp add: mapped_frames_def List.map_filter_def)
    qed
    have F1: "mapped_frames l4 off tm1 [r..<q] = ?F [r..<q]"
      by (rule mapped_frames_cleared [OF b(4)]) (use less.prems(3) in auto)
    have wf1: "pt_wf tm1 off (l4 + off)" using b(4) by (simp add: cleared_def)
    have nh1: "\<forall>j. r \<le> j \<and> j < q \<longrightarrow> not_huge_at tm1 off (l4 + off) (pg j)"
      using cleared_translate(2) [OF b(4)] less.prems(3,4) b(2) by simp
    have "\<exists>c1. (if backing_vmo n = None then free_each core_page_free c (map unat (?F [p..<r])) else Some c) = Some c1 \<and>
        core_ok c1 \<and> core_stock c1 = core_stock c \<union> (if backing_vmo n = None then unat ` set (?F [p..<r]) else {}) \<and>
        (backing_vmo n = None \<longrightarrow> (\<forall>a. a \<notin> unat ` set (?F [p..<r]) \<longrightarrow> core_live c a \<longrightarrow> core_live c1 a))"
    proof (cases "backing_vmo n = None")
      case True
      have fr: "distinct (map unat (?F [p..<r]))" "\<forall>a \<in> set (map unat (?F [p..<r])). core_live c a"
        using less.prems(8) [OF True] split by auto
      show ?thesis using core_pages.free_each_law [OF less.prems(7) fr] True by simp
    next
      case False
      then show ?thesis using less.prems(7) by (intro exI [of _ c]) auto
    qed
    then obtain c1 where c1: "(if backing_vmo n = None then free_each core_page_free c (map unat (?F [p..<r])) else Some c) = Some c1"
      "core_ok c1" "core_stock c1 = core_stock c \<union> (if backing_vmo n = None then unat ` set (?F [p..<r]) else {})"
      "backing_vmo n = None \<longrightarrow> (\<forall>a. a \<notin> unat ` set (?F [p..<r]) \<longrightarrow> core_live c a \<longrightarrow> core_live c1 a)"
      by (elim exE conjE) (rule that, assumption+)
    have cpf: "(\<lambda>c a. pc_free c a Normal) = core_page_free" by (simp add: fun_eq_iff core_page_free_def)
    have step: "munmap_pages l4 off n (pg p) (pg q) (tm, c) = munmap_pages l4 off n (pg r) (pg q) (tm1, c1)"
      by (subst munmap_pages.simps)
        (use lt b(1) c1(1) less.prems(5,6) in \<open>auto simp: cpf split: if_splits\<close>)
    have fr: "distinct (map unat (mapped_frames l4 off tm1 [r..<q])) \<and>
        (\<forall>a \<in> set (mapped_frames l4 off tm1 [r..<q]). core_live c1 (unat a))" if bk: "backing_vmo n = None"
    proof -
      have d: "distinct (map unat (?F [p..<r] @ ?F [r..<q]))" "\<forall>a \<in> set (?F [p..<r] @ ?F [r..<q]). core_live c (unat a)"
        using less.prems(8) [OF bk] split by auto
      then have "unat a \<notin> unat ` set (?F [p..<r])" if "a \<in> set (?F [r..<q])" for a using that by auto
      then show ?thesis using d c1(4) bk by (simp add: F1)
    qed
    have dec: "q - r < q - p" using b(2,3) by simp
    obtain tm' c' where "munmap_pages l4 off n (pg r) (pg q) (tm1, c1) = Some (tm', c')" "cleared l4 off tm1 tm' r q"
      "core_ok c'" "core_stock c' = core_stock c1 \<union> (if backing_vmo n = None then unat ` set (?F [r..<q]) else {})"
      using less.hyps [OF dec wf1 b(3) less.prems(3) nh1 less.prems(5,6) c1(2) fr] unfolding F1 by blast
    then show ?thesis using step cleared_trans [OF b(4)] b(2,3) c1(3) split
      by (intro exI [of _ tm'] exI [of _ c']) auto
  qed
qed


section \<open>Page faults\<close>

lemma convert_flags_bits:
  "is_present (convert_vm_flags fl)" "plain_flags (convert_vm_flags fl)"
  by (auto simp: is_present_def plain_flags_def ADDR_MASK_def convert_vm_flags_def get_flags_def Let_def)

definition vmo_req ::
  "nat \<Rightarrow> u64 \<Rightarrow> (nat \<Rightarrow> vmo) \<Rightarrow> core_alloc \<Rightarrow> ((unit + nat) \<times> (nat \<Rightarrow> vmo) \<times> core_alloc) run" where
  "vmo_req obj voff objs c =
    do { (r, v', c') \<leftarrow> request_page core_page_alloc (objs obj) c voff; ret (r, objs(obj := v'), c') }"

lemma find_vma_mem:
  assumes "vmas_ok vs" and "n \<in> set vs" and "lo n \<le> unat addr" and "unat addr < hi n"
  shows "find_vma vs addr = Some n"
proof -
  have in_region: "vstart m \<le> addr \<and> addr < vstart m + vlen m \<longleftrightarrow> lo m \<le> unat addr \<and> unat addr < hi m" if "m \<in> set vs" for m
    using region_end(1) [of m 12] that assms(1) by (simp add: vmas_ok_def word_le_nat_alt word_less_nat_alt lo_def)
  obtain i where i: "i < length vs" "n = vs ! i" using assms(2) by (auto simp: in_set_conv_nth)
  have "\<not> (lo (vs ! j) \<le> unat addr \<and> unat addr < hi (vs ! j))" if "j < i" for j
    using vmas_ok_nth [OF assms(1) that i(1)] assms(3) i(2) by auto
  then show ?thesis
    unfolding find_vma_def find_Some_iff using i in_region assms(2-4)
    by (intro exI [of _ i]) (auto simp: nth_mem)
qed

lemma find_vma_none:
  assumes "vmas_ok vs" and "\<forall>n \<in> set vs. \<not> (lo n \<le> unat addr \<and> unat addr < hi n)"
  shows "find_vma vs addr = None"
  unfolding find_vma_def find_None_iff
  using assms region_end(1) [where k = 12] by (auto simp: vmas_ok_def word_le_nat_alt word_less_nat_alt lo_def)

text \<open>
  Rejected page faults. An address in no region is an invalid address; a write to a
  region without the write flag is denied. Neither changes anything.
\<close>

theorem page_fault_rejected:
  assumes "vmas_ok (regions vm)"
    and "\<forall>n \<in> set (regions vm). lo n \<le> unat addr \<and> unat addr < hi n \<longrightarrow>
           error_code AND 2 \<noteq> 0 \<and> vflags n AND VM_FLAG_WRITE = 0"
  shows "handle_page_fault req off vm objs st addr error_code =
    Some (Inl (if \<exists>n \<in> set (regions vm). lo n \<le> unat addr \<and> unat addr < hi n then FaultAccessDenied else InvalidAddress),
          objs, st)"
proof (cases "\<exists>n \<in> set (regions vm). lo n \<le> unat addr \<and> unat addr < hi n")
  case True
  then obtain n where n: "n \<in> set (regions vm)" "lo n \<le> unat addr" "unat addr < hi n" by blast
  then show ?thesis
    using find_vma_mem [OF assms(1) n] assms(2) True by (cases st) (auto simp: handle_page_fault_def)
next
  case False
  then show ?thesis using find_vma_none [OF assms(1)] by (cases st) (auto simp: handle_page_fault_def)
qed

lemma fault_frames_kept:
  assumes "core_ok c" and "vmo_inv core_live c v" and "request_page core_page_alloc v c off = Some (r, v', c')"
    and "a \<in> set (vmo_frames v)"
  shows "core_live c' a"
proof -
  have "core_live c a" using assms(2,4) by (simp add: vmo_inv_def)
  moreover have "c' = c \<or> (\<exists>b. core_page_alloc c = Some (b, c'))"
    using assms(3) by (auto simp: request_page_def split: if_splits option.splits bind_splits)
  ultimately show ?thesis using core_pages.palloc_some [OF assms(1)] by blast
qed

lemma fault_frame_law:
  assumes ok: "table_ok c" and room: "131 \<le> card (core_stock c)" and blk: "vma_block n = Normal"
    and obj: "\<And>k. backing_vmo n = Some k \<Longrightarrow>
        vmo_inv core_live c (objs k) \<and> \<not> is_physical (objs k) \<and> voff < vmo_size (objs k) \<and>
        (\<forall>a \<in> set (vmo_frames (objs k)). 4096 dvd a \<and> a < 2 ^ 52)"
  shows "\<exists>a objs' c'. fault_frame vmo_req n voff objs c = Some (Inr a, objs', c') \<and> table_ok c' \<and> 4096 dvd a \<and> a < 2 ^ 52 \<and>
     core_stock c' \<subseteq> core_stock c \<and> a \<notin> core_stock c' \<and> 130 \<le> card (core_stock c') \<and>
     (\<forall>k. backing_vmo n = Some k \<longrightarrow> resident (objs' k) voff = Some a)"
proof -
  have cok: "core_ok c" and bd: "\<forall>a \<in> core_stock c. a < 2 ^ 52" using ok by (auto simp: table_ok_def)
  have al: "core_page_alloc c \<noteq> None" using core_pages.palloc_returns [OF cok] room by simp
  show ?thesis
  proof (cases "backing_vmo n")
    case None
    obtain a c' where a: "core_page_alloc c = Some (a, c')" using al by auto
    note p = core_pages.palloc_some [OF cok a]
    have "fault_frame vmo_req n voff objs c = Some (Inr a, objs, c')"
      using None a blk by (simp add: fault_frame_def core_page_alloc_def)
    moreover have "table_ok c'" using p bd by (auto simp: table_ok_def)
    ultimately show ?thesis
      using p None bd core_stock_aligned [OF cok, of a] core_pages.palloc_card [OF cok a] room
      by (intro exI [of _ a] exI [of _ objs] exI [of _ c']) simp
  next
    case (Some k)
    note o = obj [OF Some]
    have iv: "vmo_inv core_live c (objs k)" using o by blast
    obtain r v' c' where r: "request_page core_page_alloc (objs k) c voff = Some (r, v', c')" "core_ok c'"
      "vmo_inv core_live c' v'" "core_stock c' \<union> set (vmo_frames v') = core_stock c \<union> set (vmo_frames (objs k))"
      "card (core_stock c) \<le> Suc (card (core_stock c'))" "is_physical v' = is_physical (objs k)"
      "case r of Inl _ \<Rightarrow> vmo_size (objs k) \<le> voff \<or> is_physical (objs k) \<and> resident (objs k) voff = None
               | Inr a \<Rightarrow> voff < vmo_size (objs k) \<and> resident v' voff = Some a \<and> resident (objs k) voff \<in> {None, Some a}"
      using core_pages.request_page_law [OF cok iv, of voff] al by (elim disjE exE conjE) (simp, rule that, assumption+)
    obtain a where a: "r = Inr a" "resident v' voff = Some a" using r(7) o by (cases r) auto
    have "a \<in> set (frames_of (vmo_pages v'))"
      using a(2) by (force simp: resident_def frames_of_def split: option.splits if_splits dest!: map_of_SomeD)
    then have af: "a \<in> set (vmo_frames v')" using r(6) o by (simp add: vmo_frames_def)
    then have "core_live c' a" using r(3) by (simp add: vmo_inv_def)
    then have "a \<notin> core_stock c'" by (rule core_pages.live_not_stock [OF r(2)])
    moreover have "core_stock c' \<subseteq> core_stock c"
    proof
      fix x assume x: "x \<in> core_stock c'"
      show "x \<in> core_stock c"
      proof (rule ccontr)
        assume "x \<notin> core_stock c"
        then have "x \<in> set (vmo_frames (objs k))" using x r(4) by blast
        then show False using fault_frames_kept [OF cok iv r(1)] x core_pages.live_not_stock [OF r(2)] by blast
      qed
    qed
    moreover have "4096 dvd a" "a < 2 ^ 52"
      using af r(4) o bd core_stock_aligned [OF cok] by blast+
    ultimately show ?thesis
      using r(1,2,5) a Some bd room
      by (intro exI [of _ a] exI [of _ "objs(k := v')"] exI [of _ c']) (auto simp: fault_frame_def vmo_req_def table_ok_def)
  qed
qed


section \<open>Witnesses\<close>

definition sample_region :: vma where
  "sample_region = \<lparr>vstart = 0x40000000, vlen = 0x2000, vflags = 5, backing_vmo = None, vmo_offset = 0\<rparr>"

definition sample_vmm :: vmm where
  "sample_vmm = \<lparr>regions = [sample_region], l4_addr = 0x1000\<rparr>"

lemma sample_vmm_ok: "vmas_ok (regions sample_vmm)" "lo sample_region = 0x40000000" "hi sample_region = 0x40002000"
  by (simp_all add: vmas_ok_def sample_vmm_def sample_region_def lo_def hi_def USER_TOP_def)


theorem page_fault_rejected_witness:
  "handle_page_fault vmo_req 0 sample_vmm (\<lambda>_. vmo_new 0) (empty_tables, roomy_core) 0x50000000 2 =
     Some (Inl InvalidAddress, \<lambda>_. vmo_new 0, empty_tables, roomy_core)"
  using page_fault_rejected [OF sample_vmm_ok(1), where addr = "0x50000000" and error_code = 2 and req = vmo_req
      and off = 0 and objs = "\<lambda>_. vmo_new 0" and st = "(empty_tables, roomy_core)"]
  by (simp add: sample_vmm_def sample_region_def lo_def hi_def)


end
