(* ===== verification/Mempool.thy ===== *)
theory Mempool
  imports Abi
begin

text \<open>
  Memory quotas: \<^verbatim>\<open>kernel/src/core/object/models/mempool.rs\<close>. A pool is named by a number; the
  pool object of a handle is the path from its pool to the root, since parents never change.
  First the function as one thread runs it, then any number of threads running it at once,
  one atomic operation at a time.
\<close>

section \<open>One thread\<close>

record pools =
  limit :: "nat \<Rightarrow> u64 option"
  allocated :: "nat \<Rightarrow> u64"

definition over_limit :: "pools \<Rightarrow> nat \<Rightarrow> u64 \<Rightarrow> bool" where
  "over_limit ps p sz \<longleftrightarrow> (case limit ps p of Some lim \<Rightarrow> lim < allocated ps p + sz | None \<Rightarrow> False)"

definition reserve_at :: "nat \<Rightarrow> u64 \<Rightarrow> pools \<Rightarrow> pools" where
  "reserve_at p sz ps = ps\<lparr>allocated := (allocated ps)(p := allocated ps p + sz)\<rparr>"

definition release_at :: "nat \<Rightarrow> u64 \<Rightarrow> pools \<Rightarrow> pools" where
  "release_at p sz ps = ps\<lparr>allocated := (allocated ps)(p := allocated ps p - sz)\<rparr>"

fun try_allocate :: "nat list \<Rightarrow> u64 \<Rightarrow> pools \<Rightarrow> (invocation_error + unit) \<times> pools" where
  "try_allocate [] sz ps = (Inr (), ps)"
| "try_allocate (p # path) sz ps =
    (if over_limit ps p sz then (Inl PoolExhausted, ps)
     else case try_allocate path sz (reserve_at p sz ps) of
            (Inl e, ps') \<Rightarrow> (Inl e, release_at p sz ps')
          | (Inr _, ps') \<Rightarrow> (Inr (), ps'))"

definition pool_new :: "nat \<Rightarrow> u64 option \<Rightarrow> pools \<Rightarrow> pools" where
  "pool_new p lim ps = ps\<lparr>limit := (limit ps)(p := lim), allocated := (allocated ps)(p := 0)\<rparr>"

lemma reserve_simps [simp]:
  "limit (reserve_at p sz ps) = limit ps" "limit (release_at p sz ps) = limit ps"
  "allocated (reserve_at p sz ps) q = (if q = p then allocated ps p + sz else allocated ps q)"
  "allocated (release_at p sz ps) q = (if q = p then allocated ps p - sz else allocated ps q)"
  by (simp_all add: reserve_at_def release_at_def)

lemma try_allocate_frame:
  "try_allocate path sz ps = (r, ps') \<Longrightarrow> limit ps' = limit ps \<and> (\<forall>q. q \<notin> set path \<longrightarrow> allocated ps' q = allocated ps q)"
proof (induction path sz ps arbitrary: r ps' rule: try_allocate.induct)
  case (2 p path sz ps)
  show ?case
  proof (cases "over_limit ps p sz")
    case False
    obtain r1 ps1 where t: "try_allocate path sz (reserve_at p sz ps) = (r1, ps1)"
      by (cases "try_allocate path sz (reserve_at p sz ps)")
    show ?thesis using 2(1) [OF False t] 2(2) False t by (auto split: sum.splits)
  qed (use 2(2) in auto)
qed simp

text \<open>
  A reservation is all or nothing: on success every pool from the one asked to the root
  has grown by the size, each within its limit; on failure some pool on the path would have
  exceeded its limit, and no pool has changed. Sizes and limits below half the address space
  keep the sums from wrapping.
\<close>

theorem try_allocate_all_or_nothing:
  assumes "distinct path" and "sz < 2 ^ 63"
    and "\<forall>p \<in> set path. \<forall>lim. limit ps p = Some lim \<longrightarrow> allocated ps p \<le> lim \<and> lim < 2 ^ 63"
  shows "case try_allocate path sz ps of
      (Inl e, ps') \<Rightarrow> e = PoolExhausted \<and> ps' = ps \<and>
        (\<exists>p \<in> set path. \<exists>lim. limit ps p = Some lim \<and> unat lim < unat (allocated ps p) + unat sz)
    | (Inr _, ps') \<Rightarrow>
        (\<forall>q. allocated ps' q = (if q \<in> set path then allocated ps q + sz else allocated ps q)) \<and>
        (\<forall>p \<in> set path. \<forall>lim. limit ps p = Some lim \<longrightarrow>
           allocated ps' p \<le> lim \<and> unat (allocated ps' p) = unat (allocated ps p) + unat sz)"
  using assms
proof (induction path sz ps rule: try_allocate.induct)
  case (2 p path sz ps)
  have nw: "unat (allocated ps p + sz) = unat (allocated ps p) + unat sz" if "limit ps p = Some lim" for lim
  proof -
    have "unat (allocated ps p) < 2 ^ 63" "unat sz < 2 ^ 63"
      using 2(3,4) that by (auto simp: word_less_nat_alt word_le_nat_alt)
    then have "unat (allocated ps p) + unat sz < 2 ^ 64" by simp
    then show ?thesis using unat_add_lem [of "allocated ps p" sz] by simp
  qed
  show ?case
  proof (cases "over_limit ps p sz")
    case True
    then obtain lim where "limit ps p = Some lim" "lim < allocated ps p + sz"
      by (auto simp: over_limit_def split: option.splits)
    then show ?thesis using True nw [of lim] by (force simp: word_less_nat_alt)
  next
    case False
    obtain r ps' where t: "try_allocate path sz (reserve_at p sz ps) = (r, ps')"
      by (cases "try_allocate path sz (reserve_at p sz ps)")
    have d: "distinct path" "p \<notin> set path" using 2(2) by auto
    have same: "\<forall>q \<in> set path. allocated (reserve_at p sz ps) q = allocated ps q" using d(2) by auto
    have pre: "\<forall>q \<in> set path. \<forall>lim. limit (reserve_at p sz ps) q = Some lim \<longrightarrow>
        allocated (reserve_at p sz ps) q \<le> lim \<and> lim < 2 ^ 63"
      using 2(4) d(2) by auto
    note IH = 2(1) [OF False d(1) 2(3) pre, unfolded t prod.case]
    show ?thesis
    proof (cases r)
      case (Inl e)
      have undo: "release_at p sz (reserve_at p sz ps) = ps" by (simp add: release_at_def reserve_at_def)
      have e: "e = PoolExhausted" "ps' = reserve_at p sz ps"
        "\<exists>q \<in> set path. \<exists>lim. limit ps q = Some lim \<and> unat lim < unat (allocated (reserve_at p sz ps) q) + unat sz"
        using IH [unfolded Inl sum.case] by auto
      from e(3) same obtain q lim where "q \<in> set path" "limit ps q = Some lim" "unat lim < unat (allocated ps q) + unat sz"
        by metis
      then show ?thesis using t Inl False e(1,2) undo by auto
    next
      case (Inr u)
      have le: "allocated ps p + sz \<le> lim" if "limit ps p = Some lim" for lim
        using False that by (simp add: over_limit_def not_less)
      have a: "\<forall>q. allocated ps' q =
            (if q \<in> set path then allocated (reserve_at p sz ps) q + sz else allocated (reserve_at p sz ps) q)"
        "\<forall>q \<in> set path. \<forall>lim. limit ps q = Some lim \<longrightarrow>
            allocated ps' q \<le> lim \<and> unat (allocated ps' q) = unat (allocated (reserve_at p sz ps) q) + unat sz"
        using IH [unfolded Inr sum.case] by auto
      have all: "allocated ps' q = (if q \<in> set (p # path) then allocated ps q + sz else allocated ps q)" for q
        using a(1) d(2) by simp
      have lims: "allocated ps' q \<le> lim \<and> unat (allocated ps' q) = unat (allocated ps q) + unat sz"
        if "q \<in> set (p # path)" "limit ps q = Some lim" for q lim
      proof (cases "q = p")
        case True
        then show ?thesis using all [of p] le nw that(2) by simp
      next
        case False
        then show ?thesis using a(2) same that by simp
      qed
      show ?thesis using t Inr False all lims by simp
    qed
  qed
qed simp

text \<open>
  The limit check adds before it compares, so a request near \<open>2 ^ 64\<close> wraps around and is
  granted by a pool with a limit of 4096 bytes.
\<close>

theorem quota_check_wraps:
  "try_allocate [0] (0 - 50) \<lparr>limit = (\<lambda>_. Some 4096), allocated = (\<lambda>_. 100)\<rparr> =
     (Inr (), \<lparr>limit = (\<lambda>_. Some 4096), allocated = (\<lambda>_. 100)(0 := 50)\<rparr>)"
  by (simp add: over_limit_def reserve_at_def)

section \<open>Many threads\<close>

text \<open>
  A thread in \<^verbatim>\<open>try_allocate\<close> has a size, the pools it has still to reserve and those it holds,
  the last one first. Its atomic operations are a successful compare-exchange on the next
  pool, the rejection by that pool, and after a rejection one \<^verbatim>\<open>fetch_sub\<close> per held pool. A
  failed compare-exchange changes nothing and is retried.
\<close>

datatype phase = Climbing "nat list" | Unwinding | Granted | Refused

record task =
  tsize :: u64
  phase :: phase
  holding :: "nat list"

record quota =
  pool_state :: pools
  tasks :: "task list"

inductive quota_step :: "quota \<Rightarrow> quota \<Rightarrow> bool" where
  reserve: "i < length (tasks q) \<Longrightarrow> t = tasks q ! i \<Longrightarrow> phase t = Climbing (p # path) \<Longrightarrow>
    \<not> over_limit (pool_state q) p (tsize t) \<Longrightarrow>
    quota_step q (q\<lparr>pool_state := reserve_at p (tsize t) (pool_state q),
                    tasks := (tasks q)[i := t\<lparr>phase := Climbing path, holding := p # holding t\<rparr>]\<rparr>)"
| grant: "i < length (tasks q) \<Longrightarrow> t = tasks q ! i \<Longrightarrow> phase t = Climbing [] \<Longrightarrow>
    quota_step q (q\<lparr>tasks := (tasks q)[i := t\<lparr>phase := Granted\<rparr>]\<rparr>)"
| reject: "i < length (tasks q) \<Longrightarrow> t = tasks q ! i \<Longrightarrow> phase t = Climbing (p # path) \<Longrightarrow>
    over_limit (pool_state q) p (tsize t) \<Longrightarrow>
    quota_step q (q\<lparr>tasks := (tasks q)[i := t\<lparr>phase := Unwinding\<rparr>]\<rparr>)"
| unwind: "i < length (tasks q) \<Longrightarrow> t = tasks q ! i \<Longrightarrow> phase t = Unwinding \<Longrightarrow> holding t = p # ps \<Longrightarrow>
    quota_step q (q\<lparr>pool_state := release_at p (tsize t) (pool_state q),
                    tasks := (tasks q)[i := t\<lparr>holding := ps\<rparr>]\<rparr>)"
| refuse: "i < length (tasks q) \<Longrightarrow> t = tasks q ! i \<Longrightarrow> phase t = Unwinding \<Longrightarrow> holding t = [] \<Longrightarrow>
    quota_step q (q\<lparr>tasks := (tasks q)[i := t\<lparr>phase := Refused\<rparr>]\<rparr>)"

inductive quota_reach :: "quota \<Rightarrow> quota \<Rightarrow> bool" where
  start: "quota_reach q q"
| more: "quota_reach q q' \<Longrightarrow> quota_step q' q'' \<Longrightarrow> quota_reach q q''"

text \<open>What the tasks hold of a pool, as a sum of words.\<close>

definition share :: "nat \<Rightarrow> task \<Rightarrow> u64" where
  "share p t = of_nat (count_list (holding t) p) * tsize t"

definition held_total :: "quota \<Rightarrow> nat \<Rightarrow> u64" where
  "held_total q p = sum_list (map (share p) (tasks q))"

definition fresh_tasks :: "quota \<Rightarrow> bool" where
  "fresh_tasks q \<longleftrightarrow> (\<forall>t \<in> set (tasks q). holding t = [] \<and> (\<exists>path. phase t = Climbing path))"

definition quota_inv :: "(nat \<Rightarrow> u64) \<Rightarrow> quota \<Rightarrow> bool" where
  "quota_inv base q \<longleftrightarrow>
    (\<forall>p. allocated (pool_state q) p = base p + held_total q p) \<and>
    (\<forall>t \<in> set (tasks q). phase t = Refused \<longrightarrow> holding t = [])"

lemma sum_list_upd:
  "i < length xs \<Longrightarrow> sum_list (map f (xs[i := y])) = sum_list (map f xs) - f (xs ! i) + (f y :: u64)"
  by (induction xs arbitrary: i) (auto split: nat.splits simp: nth_Cons')

lemma held_total_upd:
  "i < length (tasks q) \<Longrightarrow>
   held_total (q\<lparr>pool_state := x, tasks := (tasks q)[i := t]\<rparr>) p = held_total q p - share p (tasks q ! i) + share p t"
  "i < length (tasks q) \<Longrightarrow>
   held_total (q\<lparr>tasks := (tasks q)[i := t]\<rparr>) p = held_total q p - share p (tasks q ! i) + share p t"
  by (simp_all add: held_total_def sum_list_upd)

lemma quota_step_inv:
  assumes "quota_step q q'" and "quota_inv base q"
  shows "quota_inv base q'"
  using assms
proof (induction rule: quota_step.induct)
  case (reserve i q t p path)
  let ?t = "t\<lparr>phase := Climbing path, holding := p # holding t\<rparr>"
  have "share x ?t = share x t + (if x = p then tsize t else 0)" for x
    by (simp add: share_def distrib_right)
  then show ?case using reserve held_total_upd [OF reserve(1), of ?t]
    by (auto simp: quota_inv_def dest!: set_update_subset_insert [THEN subsetD])
next
  case (unwind i q t p ps)
  let ?t = "t\<lparr>holding := ps\<rparr>"
  have "share x ?t = share x t - (if x = p then tsize t else 0)" for x
    using unwind(4) by (simp add: share_def distrib_right)
  then show ?case using unwind held_total_upd [OF unwind(1), of ?t]
    by (auto simp: quota_inv_def dest!: set_update_subset_insert [THEN subsetD])
next
  case (grant i q t)
  have "share x (t\<lparr>phase := Granted\<rparr>) = share x t" for x by (simp add: share_def)
  then show ?case using grant held_total_upd [OF grant(1), of "t\<lparr>phase := Granted\<rparr>"]
    by (auto simp: quota_inv_def dest!: set_update_subset_insert [THEN subsetD])
next
  case (reject i q t p path)
  have "share x (t\<lparr>phase := Unwinding\<rparr>) = share x t" for x by (simp add: share_def)
  then show ?case using reject held_total_upd [OF reject(1), of "t\<lparr>phase := Unwinding\<rparr>"]
    by (auto simp: quota_inv_def dest!: set_update_subset_insert [THEN subsetD])
next
  case (refuse i q t)
  have "share x (t\<lparr>phase := Refused\<rparr>) = share x t" for x by (simp add: share_def)
  then show ?case using refuse held_total_upd [OF refuse(1), of "t\<lparr>phase := Refused\<rparr>"]
    by (auto simp: quota_inv_def dest!: set_update_subset_insert [THEN subsetD])
qed

text \<open>Reservations never push a pool past its limit, whatever the other threads do.\<close>

definition limits_hold :: "quota \<Rightarrow> bool" where
  "limits_hold q \<longleftrightarrow>
    (\<forall>p lim. limit (pool_state q) p = Some lim \<longrightarrow> allocated (pool_state q) p \<le> lim)"

definition settled :: "quota \<Rightarrow> bool" where
  "settled q \<longleftrightarrow> (\<forall>t \<in> set (tasks q). phase t = Granted \<or> phase t = Refused)"

text \<open>
  Words cannot tell a release from a wrapped reservation, so the bound on limits is stated
  on the numbers: what the tasks of a pool hold plus its base never reaches \<open>2 ^ 64\<close>.
\<close>

definition nat_share :: "nat \<Rightarrow> task \<Rightarrow> nat" where
  "nat_share p t = count_list (holding t) p * unat (tsize t)"

definition nat_total :: "quota \<Rightarrow> nat \<Rightarrow> nat" where
  "nat_total q p = sum_list (map (nat_share p) (tasks q))"

definition bounded :: "(nat \<Rightarrow> u64) \<Rightarrow> quota \<Rightarrow> bool" where
  "bounded base q \<longleftrightarrow>
    (\<forall>t \<in> set (tasks q). tsize t < 2 ^ 63) \<and>
    (\<forall>p lim. limit (pool_state q) p = Some lim \<longrightarrow>
       lim < 2 ^ 63 \<and> unat (allocated (pool_state q) p) = unat (base p) + nat_total q p \<and>
       allocated (pool_state q) p \<le> lim)"

lemma boundedD:
  assumes "bounded base q"
  shows "\<forall>t \<in> set (tasks q). tsize t < 2 ^ 63"
    and "limit (pool_state q) p = Some lim \<Longrightarrow> lim < 2 ^ 63"
    and "limit (pool_state q) p = Some lim \<Longrightarrow> unat (allocated (pool_state q) p) = unat (base p) + nat_total q p"
    and "limit (pool_state q) p = Some lim \<Longrightarrow> allocated (pool_state q) p \<le> lim"
  using assms unfolding bounded_def by blast+

lemma boundedI:
  assumes "\<forall>t \<in> set (tasks q). tsize t < 2 ^ 63"
    and "\<And>p lim. limit (pool_state q) p = Some lim \<Longrightarrow>
       lim < 2 ^ 63 \<and> unat (allocated (pool_state q) p) = unat (base p) + nat_total q p \<and> allocated (pool_state q) p \<le> lim"
  shows "bounded base q"
  using assms unfolding bounded_def by blast

lemma nat_sum_upd:
  "i < length xs \<Longrightarrow> sum_list (map f (xs[i := y])) + f (xs ! i) = sum_list (map f xs) + (f y :: nat)"
  by (induction xs arbitrary: i) (auto split: nat.splits simp: nth_Cons')

lemma nat_total_upd:
  "i < length (tasks q) \<Longrightarrow>
   nat_total (q\<lparr>pool_state := x, tasks := (tasks q)[i := t]\<rparr>) p + nat_share p (tasks q ! i) = nat_total q p + nat_share p t"
  "i < length (tasks q) \<Longrightarrow>
   nat_total (q\<lparr>tasks := (tasks q)[i := t]\<rparr>) p + nat_share p (tasks q ! i) = nat_total q p + nat_share p t"
  by (simp_all add: nat_total_def nat_sum_upd)

lemma sizes_kept:
  "\<forall>t \<in> set ts. tsize t < b \<Longrightarrow> tsize u < b \<Longrightarrow> \<forall>t \<in> set (ts[i := u]). tsize t < b"
  by (auto dest!: set_update_subset_insert [THEN subsetD])

lemma bounded_task:
  assumes "bounded base q" and "i < length (tasks q)" and "holding u = holding (tasks q ! i)" and "tsize u = tsize (tasks q ! i)"
  shows "bounded base (q\<lparr>tasks := (tasks q)[i := u]\<rparr>)"
proof -
  note b = boundedD [OF assms(1)]
  have "nat_total (q\<lparr>tasks := (tasks q)[i := u]\<rparr>) x = nat_total q x" for x
    using nat_total_upd(2) [OF assms(2), where t = u and p = x] assms(3,4) by (simp add: nat_share_def)
  then show ?thesis using b(2-4) sizes_kept [OF b(1), of u i] b(1) assms(2,4) by (intro boundedI) simp_all
qed

lemma quota_step_bounded:
  assumes "quota_step q q'" and "bounded base q"
  shows "bounded base q'"
  using assms
proof (induction rule: quota_step.induct)
  case (reserve i q t p path)
  let ?t = "t\<lparr>phase := Climbing path, holding := p # holding t\<rparr>"
  let ?q = "q\<lparr>pool_state := reserve_at p (tsize t) (pool_state q), tasks := (tasks q)[i := ?t]\<rparr>"
  note b = boundedD [OF reserve(5)]
  have sz: "tsize t < 2 ^ 63" using b(1) reserve(1,2) by simp
  have nt: "nat_total ?q x = nat_total q x + (if x = p then unat (tsize t) else 0)" for x
    using nat_total_upd(1) [OF reserve(1), where x = "reserve_at p (tsize t) (pool_state q)" and t = ?t and p = x] reserve(2)
    by (cases "x = p") (simp_all add: nat_share_def)
  show ?case
  proof (rule boundedI)
    show "\<forall>u \<in> set (tasks ?q). tsize u < 2 ^ 63" using sizes_kept [OF b(1), of ?t i] sz by simp
    fix x lim assume "limit (pool_state ?q) x = Some lim"
    then have l: "limit (pool_state q) x = Some lim" by simp
    have "unat (allocated (pool_state q) x) + unat (tsize t) < 2 ^ 64"
      using b(2,4) [OF l] sz by (simp add: word_less_nat_alt word_le_nat_alt)
    then have "unat (allocated (pool_state q) x + tsize t) = unat (allocated (pool_state q) x) + unat (tsize t)"
      using unat_add_lem [of "allocated (pool_state q) x" "tsize t"] by simp
    then have add: "unat (allocated (pool_state q) x + tsize t) = unat (base x) + (nat_total q x + unat (tsize t))"
      using b(3) [OF l] by simp
    show "lim < 2 ^ 63 \<and> unat (allocated (pool_state ?q) x) = unat (base x) + nat_total ?q x \<and> allocated (pool_state ?q) x \<le> lim"
    proof (cases "x = p")
      case True
      then have "allocated (pool_state q) p + tsize t \<le> lim" using reserve(4) l by (simp add: over_limit_def not_less)
      then show ?thesis using True add b(2) [OF l] by (simp only: nt) simp
    next
      case False
      then show ?thesis using b(2-4) [OF l] by (simp only: nt) simp
    qed
  qed
next
  case (unwind i q t p ps)
  let ?t = "t\<lparr>holding := ps\<rparr>"
  let ?q = "q\<lparr>pool_state := release_at p (tsize t) (pool_state q), tasks := (tasks q)[i := ?t]\<rparr>"
  note b = boundedD [OF unwind(5)]
  have sz: "tsize t < 2 ^ 63" using b(1) unwind(1,2) by simp
  have nt: "nat_total q x = nat_total ?q x + (if x = p then unat (tsize t) else 0)" for x
    using nat_total_upd(1) [OF unwind(1), where x = "release_at p (tsize t) (pool_state q)" and t = ?t and p = x] unwind(2,4)
    by (cases "x = p") (simp_all add: nat_share_def)
  show ?case
  proof (rule boundedI)
    show "\<forall>u \<in> set (tasks ?q). tsize u < 2 ^ 63" using sizes_kept [OF b(1), of ?t i] sz by simp
    fix x lim assume "limit (pool_state ?q) x = Some lim"
    then have l: "limit (pool_state q) x = Some lim" by simp
    show "lim < 2 ^ 63 \<and> unat (allocated (pool_state ?q) x) = unat (base x) + nat_total ?q x \<and> allocated (pool_state ?q) x \<le> lim"
    proof (cases "x = p")
      case True
      then have n: "unat (allocated (pool_state q) p) = unat (base p) + nat_total ?q p + unat (tsize t)"
        using b(3) [OF l] nt [of p] by simp
      then have "unat (allocated (pool_state q) p - tsize t) = unat (base p) + nat_total ?q p"
        by (simp add: unat_sub word_le_nat_alt)
      then show ?thesis using True b(2,4) [OF l] n by (simp add: word_le_nat_alt)
    next
      case False
      then show ?thesis using b(2-4) [OF l] nt [of x] by simp
    qed
  qed
next
  case (grant i q t)
  then show ?case by (intro bounded_task) simp_all
next
  case (reject i q t p path)
  then show ?case by (intro bounded_task) simp_all
next
  case (refuse i q t)
  then show ?case by (intro bounded_task) simp_all
qed

lemma fresh_inv: "fresh_tasks q \<Longrightarrow> quota_inv (allocated (pool_state q)) q"
proof -
  assume f: "fresh_tasks q"
  have "map (share p) (tasks q) = map (\<lambda>_. 0) (tasks q)" for p
    using f by (auto simp: fresh_tasks_def share_def)
  then have "held_total q p = 0" for p by (simp only: held_total_def) simp
  then show ?thesis using f by (auto simp: quota_inv_def fresh_tasks_def)
qed

lemma fresh_bounded:
  assumes "fresh_tasks q" and "limits_hold q" and "\<forall>t \<in> set (tasks q). tsize t < 2 ^ 63"
    and "\<forall>p lim. limit (pool_state q) p = Some lim \<longrightarrow> lim < 2 ^ 63"
  shows "bounded (allocated (pool_state q)) q"
proof -
  have "map (nat_share p) (tasks q) = map (\<lambda>_. 0) (tasks q)" for p
    using assms(1) by (auto simp: fresh_tasks_def nat_share_def)
  then have "nat_total q p = 0" for p by (simp only: nat_total_def) simp
  then show ?thesis using assms by (intro boundedI) (simp_all add: limits_hold_def)
qed

lemma granted_share:
  "\<forall>t \<in> set ts. phase t \<noteq> Granted \<longrightarrow> holding t = [] \<Longrightarrow>
   sum_list (map (share p) (filter (\<lambda>t. phase t = Granted) ts)) = sum_list (map (share p) ts)"
  by (induction ts) (auto simp: share_def)


definition sample_pools :: pools where
  "sample_pools = \<lparr>limit = (\<lambda>p. if p = 0 then Some 100 else None), allocated = (\<lambda>_. 0)\<rparr>"

definition sample_quota :: quota where
  "sample_quota = \<lparr>pool_state = sample_pools,
     tasks = [\<lparr>tsize = 60, phase = Climbing [1, 0], holding = []\<rparr>, \<lparr>tsize = 60, phase = Climbing [0], holding = []\<rparr>]\<rparr>"


theorem try_allocate_all_or_nothing_witness:
  "case try_allocate [1, 0] 60 sample_pools of (r, ps') \<Rightarrow> r = Inr () \<and> allocated ps' 0 = 60 \<and> allocated ps' 1 = 60"
  using try_allocate_all_or_nothing [of "[1, 0]" 60 sample_pools]
  by (simp add: sample_pools_def over_limit_def)

end
