(* ===== verification/Queue.thy ===== *)
theory Queue
  imports Prelude
begin

text \<open>
  The intrusive FIFO queues that the macro \<^verbatim>\<open>impl_queue_methods!\<close> of
  \<^verbatim>\<open>kernel/src/util/queue.rs\<close> generates (scheduler mailboxes, wait queues, the graveyard,
  work queues). Items are addresses, null is 0, and the \<^verbatim>\<open>next\<close> field of all items is one
  map. The locale \<open>fifo\<close> is the queue interface; \<open>iq\<close> interprets it on the code's
  operations.
\<close>

section \<open>Operations\<close>

type_synonym links = "nat \<Rightarrow> nat"

record iqueue =
  q_len :: u64
  q_head :: nat
  q_tail :: nat

definition queue_new :: iqueue where
  "queue_new = \<lparr>q_len = 0, q_head = 0, q_tail = 0\<rparr>"

definition queue_push :: "links \<Rightarrow> iqueue \<Rightarrow> nat \<Rightarrow> links \<times> iqueue" where
  "queue_push nx q item =
    (if item = 0 then (nx, q)
     else let nx1 = nx(item := 0)
          in if q_tail q = 0
             then (nx1, q\<lparr>q_head := item, q_tail := item, q_len := q_len q + 1\<rparr>)
             else (nx1(q_tail q := item), q\<lparr>q_tail := item, q_len := q_len q + 1\<rparr>))"

definition queue_pop :: "links \<Rightarrow> iqueue \<Rightarrow> nat \<times> links \<times> iqueue" where
  "queue_pop nx q =
    (if q_head q = 0 then (0, nx, q)
     else let r = q_head q;
              h = nx r;
              q1 = q\<lparr>q_head := h\<rparr>;
              q2 = (if h = 0 then q1\<lparr>q_tail := 0\<rparr> else q1)
          in (r, nx(r := 0), q2\<lparr>q_len := q_len q - 1\<rparr>))"

section \<open>Representation\<close>

fun chain :: "links \<Rightarrow> nat list \<Rightarrow> bool" where
  "chain nx [] \<longleftrightarrow> True"
| "chain nx [a] \<longleftrightarrow> nx a = 0"
| "chain nx (a # b # xs) \<longleftrightarrow> nx a = b \<and> chain nx (b # xs)"

definition linked :: "links \<Rightarrow> nat \<Rightarrow> nat \<Rightarrow> nat list \<Rightarrow> bool" where
  "linked nx h t xs \<longleftrightarrow>
     h = (if xs = [] then 0 else hd xs) \<and> t = (if xs = [] then 0 else last xs) \<and>
     chain nx xs \<and> 0 \<notin> set xs \<and> distinct xs"

definition qrep :: "links \<Rightarrow> iqueue \<Rightarrow> nat list \<Rightarrow> bool" where
  "qrep nx q xs \<longleftrightarrow> linked nx (q_head q) (q_tail q) xs \<and> q_len q = word_of_nat (length xs)"

lemma chain_cong: "(\<And>a. a \<in> set xs \<Longrightarrow> nx' a = nx a) \<Longrightarrow> chain nx' xs = chain nx xs"
  by (induction nx xs rule: chain.induct) auto

lemma linked_cong: "(\<And>a. a \<in> set xs \<Longrightarrow> nx' a = nx a) \<Longrightarrow> linked nx' h t xs = linked nx h t xs"
  by (simp add: linked_def chain_cong [of xs nx' nx])

lemma linked_upd [simp]: "a \<notin> set xs \<Longrightarrow> linked (nx(a := v)) h t xs = linked nx h t xs"
  by (rule linked_cong) auto

lemma chain_snoc:
  "chain nx (xs @ [t]) \<Longrightarrow> a \<notin> set (xs @ [t]) \<Longrightarrow> distinct (xs @ [t]) \<Longrightarrow> chain (nx(a := 0, t := a)) (xs @ [t, a])"
proof (induction xs)
  case (Cons x xs)
  then show ?case by (cases xs) auto
qed auto

lemma linked_push:
  assumes "linked nx h t xs" and "a \<noteq> 0" and "a \<notin> set xs"
  shows "linked (if t = 0 then nx(a := 0) else nx(a := 0, t := a)) (if t = 0 then a else h) a (xs @ [a])"
proof (cases "xs = []")
  case True
  then show ?thesis using assms by (simp add: linked_def)
next
  case False
  then obtain ys where ys: "xs = ys @ [t]"
    using assms(1) by (metis append_butlast_last_id linked_def)
  then have "t \<noteq> 0" "chain nx (ys @ [t])" "distinct (ys @ [t])" using assms(1) by (auto simp: linked_def)
  then show ?thesis
    using assms ys chain_snoc [of nx ys t a] by (auto simp: linked_def hd_append)
qed

lemma linked_pop:
  assumes "linked nx h t (a # xs)"
  shows "h = a" and "a \<noteq> 0" and "nx a = (if xs = [] then 0 else hd xs)"
    and "linked (nx(a := 0)) (nx a) (if nx a = 0 then 0 else t) xs"
proof -
  show "h = a" "a \<noteq> 0" using assms by (auto simp: linked_def)
  show n: "nx a = (if xs = [] then 0 else hd xs)" using assms by (cases xs) (auto simp: linked_def)
  have "a \<notin> set xs" "chain nx xs" using assms by (cases xs; auto simp: linked_def)+
  then have "chain (nx(a := 0)) xs" using chain_cong [of xs "nx(a := 0)" nx] by (metis fun_upd_other)
  then show "linked (nx(a := 0)) (nx a) (if nx a = 0 then 0 else t) xs"
    using assms n by (cases xs) (auto simp: linked_def)
qed

lemma linked_nil: "linked nx h t [] \<longleftrightarrow> h = 0 \<and> t = 0"
  by (auto simp: linked_def)

lemma linked_head_0: "linked nx h t xs \<Longrightarrow> h = 0 \<longleftrightarrow> xs = []"
  unfolding linked_def by (metis hd_in_set)

lemma qrep_new: "qrep nx queue_new []"
  by (simp add: qrep_def queue_new_def linked_nil)

lemma qrep_push:
  assumes "qrep nx q xs" and "a \<noteq> 0" and "a \<notin> set xs"
  shows "qrep (fst (queue_push nx q a)) (snd (queue_push nx q a)) (xs @ [a])"
  using linked_push [of nx "q_head q" "q_tail q" xs a] assms
  by (auto simp: qrep_def queue_push_def Let_def add.commute)

lemma qrep_pop:
  assumes "qrep nx q (a # xs)"
  shows "\<exists>nx' q'. queue_pop nx q = (a, nx', q') \<and> qrep nx' q' xs \<and> nx' = nx(a := 0)"
proof -
  have l: "linked nx (q_head q) (q_tail q) (a # xs)" and n: "q_len q = word_of_nat (Suc (length xs))"
    using assms by (auto simp: qrep_def)
  note p = linked_pop [OF l]
  have "qrep (nx(a := 0)) (snd (snd (queue_pop nx q))) xs"
    using p n by (auto simp: qrep_def queue_pop_def Let_def linked_def)
  then show ?thesis using p(1,2) by (simp add: queue_pop_def Let_def)
qed

lemma queue_push_frame: "b \<noteq> a \<Longrightarrow> b \<noteq> q_tail q \<Longrightarrow> fst (queue_push nx q a) b = nx b"
  by (simp add: queue_push_def Let_def)

lemma linked_tail_in: "linked nx h t xs \<Longrightarrow> t = 0 \<or> t \<in> set xs"
  by (auto simp: linked_def)

section \<open>The interface\<close>

locale fifo =
  fixes push :: "'q \<Rightarrow> nat \<Rightarrow> 'q"
    and pop :: "'q \<Rightarrow> nat \<times> 'q"
    and rep :: "'q \<Rightarrow> nat list \<Rightarrow> bool"
  assumes push_law: "rep q xs \<Longrightarrow> a \<noteq> 0 \<Longrightarrow> a \<notin> set xs \<Longrightarrow> rep (push q a) (xs @ [a])"
    and pop_law: "rep q (a # xs) \<Longrightarrow> \<exists>q'. pop q = (a, q') \<and> rep q' xs"
    and pop_empty_law: "rep q [] \<Longrightarrow> pop q = (0, q)"
    and null_law: "rep q xs \<Longrightarrow> 0 \<notin> set xs"
begin

definition push_all :: "'q \<Rightarrow> nat list \<Rightarrow> 'q" where
  "push_all q xs = fold (\<lambda>a q. push q a) xs q"

fun pop_n :: "nat \<Rightarrow> 'q \<Rightarrow> nat list \<times> 'q" where
  "pop_n 0 q = ([], q)"
| "pop_n (Suc n) q = (case pop q of (a, q') \<Rightarrow> case pop_n n q' of (xs, q'') \<Rightarrow> (a # xs, q''))"

lemma push_all_rep:
  "rep q xs \<Longrightarrow> distinct (xs @ ys) \<Longrightarrow> 0 \<notin> set ys \<Longrightarrow> rep (push_all q ys) (xs @ ys)"
proof (induction ys arbitrary: q xs)
  case Nil
  then show ?case by (simp add: push_all_def)
next
  case (Cons y ys)
  have "rep (push q y) (xs @ [y])" using Cons.prems by (intro push_law) auto
  then have "rep (push_all (push q y) ys) ((xs @ [y]) @ ys)" using Cons by (intro Cons.IH) auto
  then show ?case by (simp add: push_all_def)
qed

lemma pop_n_rep: "rep q (xs @ ys) \<Longrightarrow> \<exists>q'. pop_n (length xs) q = (xs, q') \<and> rep q' ys"
proof (induction xs arbitrary: q)
  case (Cons x xs)
  obtain q1 where q1: "pop q = (x, q1)" "rep q1 (xs @ ys)" using pop_law [of q x "xs @ ys"] Cons.prems by auto
  then show ?case using Cons.IH [OF q1(2)] by auto
qed simp

lemma fifo_order:
  assumes "rep q xs" and "distinct (xs @ ys)" and "0 \<notin> set ys"
  shows "\<exists>q'. pop_n (length xs + length ys) (push_all q ys) = (xs @ ys, q') \<and> rep q' []"
  using pop_n_rep [of "push_all q ys" "xs @ ys" "[]"] push_all_rep [OF assms] by simp

end

interpretation iq: fifo "\<lambda>st a. queue_push (fst st) (snd st) a" "\<lambda>st. queue_pop (fst st) (snd st)"
  "\<lambda>st. qrep (fst st) (snd st)"
proof unfold_locales
  fix st :: "links \<times> iqueue" and xs :: "nat list" and a
  show "qrep (fst st) (snd st) xs \<Longrightarrow> a \<noteq> 0 \<Longrightarrow> a \<notin> set xs \<Longrightarrow>
      qrep (fst (queue_push (fst st) (snd st) a)) (snd (queue_push (fst st) (snd st) a)) (xs @ [a])"
    by (rule qrep_push)
  show "qrep (fst st) (snd st) (a # xs) \<Longrightarrow>
      \<exists>st'. queue_pop (fst st) (snd st) = (a, st') \<and> qrep (fst st') (snd st') xs"
    using qrep_pop [of "fst st" "snd st" a xs] by auto
  show "qrep (fst st) (snd st) [] \<Longrightarrow> queue_pop (fst st) (snd st) = (0, st)"
    by (auto simp: qrep_def linked_nil queue_pop_def)
  show "qrep (fst st) (snd st) xs \<Longrightarrow> 0 \<notin> set xs" by (auto simp: qrep_def linked_def)
qed

definition push_items :: "links \<times> iqueue \<Rightarrow> nat list \<Rightarrow> links \<times> iqueue" where
  "push_items st xs = fold (\<lambda>a st. queue_push (fst st) (snd st) a) xs st"

fun pop_items :: "nat \<Rightarrow> links \<times> iqueue \<Rightarrow> nat list \<times> (links \<times> iqueue)" where
  "pop_items 0 st = ([], st)"
| "pop_items (Suc n) st =
    (case queue_pop (fst st) (snd st) of (a, st') \<Rightarrow>
       case pop_items n st' of (xs, st'') \<Rightarrow> (a # xs, st''))"

lemma push_items_eq: "push_items = iq.push_all"
  by (simp add: push_items_def iq.push_all_def fun_eq_iff)

lemma pop_items_eq: "pop_items n st = iq.pop_n n st"
  by (induction n arbitrary: st) (simp_all add: iq.pop_n.simps case_prod_beta)

text \<open>
  The intrusive queue is first in, first out: pushing distinct non-null items and popping
  as many times returns what was queued before them and then the items, in the order they
  were pushed, and leaves the queue empty.
\<close>

theorem queue_fifo:
  assumes "qrep nx q xs" and "distinct (xs @ ys)" and "0 \<notin> set ys"
  shows "\<exists>nx' q'. pop_items (length xs + length ys) (push_items (nx, q) ys) = (xs @ ys, (nx', q')) \<and>
           qrep nx' q' []"
  using iq.fifo_order [of "(nx, q)" xs ys] assms by (auto simp: push_items_eq pop_items_eq)

theorem queue_fifo_witness:
  "\<exists>nx' q'. pop_items 3 (push_items ((\<lambda>_. 7), queue_new) [16, 8, 24]) = ([16, 8, 24], (nx', q')) \<and> qrep nx' q' []"
  using queue_fifo [OF qrep_new, of "[16, 8, 24]" "\<lambda>_. 7"] by (simp add: numeral_3_eq_3)

end
