(* ===== verification/Scheduler.thy ===== *)
theory Scheduler
  imports Queue
begin

text \<open>
  Threads and the per-core scheduler: \<^verbatim>\<open>kernel/src/core/thread/\<close> (\<^verbatim>\<open>priority.rs\<close>,
  \<^verbatim>\<open>tcb.rs\<close>, \<^verbatim>\<open>schedule.rs\<close>) with the hardware-timer decision of
  \<^verbatim>\<open>core/time/clock.rs\<close>. Thread control blocks live in one map from addresses; their
  \<^verbatim>\<open>next\<close> fields are the link map of theory \<open>Queue\<close>. A core's record holds the scheduler
  state, its callout queue and the registers \<^verbatim>\<open>schedule\<close> writes. The clock reading and
  the page-table root of a process are arguments. The context switch itself (assembly) is
  the returned action.
\<close>

section \<open>Priorities\<close>

type_synonym thread_priority = u8

definition MAXIMUM :: thread_priority where "MAXIMUM = 0"
definition HIGH :: thread_priority where "HIGH = 4"
definition MEDIUM :: thread_priority where "MEDIUM = 8"
definition LOW :: thread_priority where "LOW = 12"
definition REAPER :: thread_priority where "REAPER = 30"
definition IDLE :: thread_priority where "IDLE = 31"

definition i64_sat :: "int \<Rightarrow> int" where
  "i64_sat x = max (- (2 ^ 63)) (min (2 ^ 63 - 1) x)"

definition clamp_prio :: "int \<Rightarrow> thread_priority" where
  "clamp_prio x = word_of_int (if x < 0 then 0 else if 31 < x then 31 else x)"

text \<open>The operand is the value of \<^verbatim>\<open>rhs as i64\<close>, for each of the ten integer types.\<close>

definition prio_add :: "thread_priority \<Rightarrow> int \<Rightarrow> thread_priority" where
  "prio_add p rhs = clamp_prio (i64_sat (uint p + rhs))"

definition prio_sub :: "thread_priority \<Rightarrow> int \<Rightarrow> thread_priority" where
  "prio_sub p rhs = clamp_prio (i64_sat (uint p - rhs))"

definition int_sub_prio :: "int \<Rightarrow> thread_priority \<Rightarrow> thread_priority" where
  "int_sub_prio lhs p = clamp_prio (i64_sat (lhs - uint p))"

definition prio_cmp :: "thread_priority \<Rightarrow> int \<Rightarrow> int" where
  "prio_cmp p rhs = sgn (uint p - rhs)"

text \<open>\<^verbatim>\<open>ThreadPriority::from\<close>: no clamping.\<close>

definition prio_from :: "u8 \<Rightarrow> thread_priority" where
  "prio_from priority = priority"

section \<open>Thread control blocks and cores\<close>

datatype thread_state = Ready | Running | Blocked | Terminated

record tcb =
  thread_id :: u64
  tstate :: thread_state
  priority :: thread_priority
  wake_time :: u64
  total_runtime :: u64
  quantum_expiry :: u64
  stack_ptr :: u64
  stack_base :: u64
  stack_size :: u64
  extended_context :: u64
  home_core :: nat
  process :: nat

record threads =
  tcbs :: "nat \<Rightarrow> tcb"
  nx :: links

datatype timer = Stopped | Armed u64

record core =
  core_logical_id :: nat
  queue_length :: u64
  ready_queue_heads :: "nat list"
  ready_queue_tails :: "nat list"
  active_priorities :: u32
  mailbox :: iqueue
  idle_thread :: nat
  current_thread :: nat
  callout_queue :: "(u64 \<times> nat) list"
  timer_daemon_tcb :: nat
  tss_rsp0 :: u64
  kernel_rsp :: u64
  cr3 :: u64
  hw_timer :: timer

definition core_new :: "nat \<Rightarrow> core" where
  "core_new logical_id =
    \<lparr>core_logical_id = logical_id, queue_length = 0,
     ready_queue_heads = replicate 32 0, ready_queue_tails = replicate 32 0, active_priorities = 0,
     mailbox = queue_new, idle_thread = 0, current_thread = 0, callout_queue = [],
     timer_daemon_tcb = 0, tss_rsp0 = 0, kernel_rsp = 0, cr3 = 0, hw_timer = Stopped\<rparr>"

definition tcb_init ::
  "u64 \<Rightarrow> u64 \<Rightarrow> u64 \<Rightarrow> u64 \<Rightarrow> u64 \<Rightarrow> nat \<Rightarrow> thread_priority \<Rightarrow> nat \<Rightarrow> tcb" where
  "tcb_init tid stack_ptr_v stack_base_v stack_size_v fpu_ptr home_core_v priority_v proc =
    \<lparr>thread_id = tid, tstate = Ready, priority = priority_v, wake_time = 0, total_runtime = 0,
     quantum_expiry = 0, stack_ptr = stack_ptr_v, stack_base = stack_base_v, stack_size = stack_size_v,
     extended_context = fpu_ptr, home_core = home_core_v, process = proc\<rparr>"

definition set_state :: "threads \<Rightarrow> nat \<Rightarrow> thread_state \<Rightarrow> threads" where
  "set_state m a st = m\<lparr>tcbs := (tcbs m)(a := (tcbs m a)\<lparr>tstate := st\<rparr>)\<rparr>"

definition set_expiry :: "threads \<Rightarrow> nat \<Rightarrow> u64 \<Rightarrow> threads" where
  "set_expiry m a v = m\<lparr>tcbs := (tcbs m)(a := (tcbs m a)\<lparr>quantum_expiry := v\<rparr>)\<rparr>"

definition U64_MAX :: u64 where
  "U64_MAX = 0xFFFFFFFFFFFFFFFF"

section \<open>Ready queues\<close>

definition sched_push :: "threads \<Rightarrow> core \<Rightarrow> nat \<Rightarrow> (threads \<times> core) run" where
  "sched_push m c item =
    (if item = 0 then ret (m, c)
     else let p = unat (priority (tcbs m item));
              nx1 = (nx m)(item := 0)
          in do { t \<leftarrow> idx (ready_queue_tails c) p;
                  tails \<leftarrow> upd (ready_queue_tails c) p item;
                  (nx2, heads) \<leftarrow>
                    (if t = 0 then do { hs \<leftarrow> upd (ready_queue_heads c) p item; ret (nx1, hs) }
                     else ret (nx1(t := item), ready_queue_heads c));
                  ret (m\<lparr>nx := nx2\<rparr>,
                       c\<lparr>ready_queue_heads := heads, ready_queue_tails := tails,
                         queue_length := queue_length c + 1,
                         active_priorities := active_priorities c OR push_bit p 1\<rparr>) })"

definition sched_pop :: "threads \<Rightarrow> core \<Rightarrow> (nat \<times> threads \<times> core) run" where
  "sched_pop m c =
    (if active_priorities c = 0 then ret (0, m, c)
     else let hp = trailing_zeros 32 (bit (active_priorities c))
          in do { r \<leftarrow> idx (ready_queue_heads c) hp;
                  if r = 0 then ret (0, m, c)
                  else let h = nx m r
                       in do { heads \<leftarrow> upd (ready_queue_heads c) hp h;
                               tails \<leftarrow> (if h = 0 then upd (ready_queue_tails c) hp 0
                                          else ret (ready_queue_tails c));
                               ret (r, m\<lparr>nx := (nx m)(r := 0)\<rparr>,
                                    c\<lparr>ready_queue_heads := heads, ready_queue_tails := tails,
                                      active_priorities :=
                                        (if h = 0 then active_priorities c AND NOT (push_bit hp 1)
                                         else active_priorities c),
                                      queue_length := queue_length c - 1\<rparr>) } })"

text \<open>The mailbox loop at the start of \<^verbatim>\<open>schedule\<close>; \<open>None\<close> is a panic or no return.\<close>

partial_function (option) drain_mailbox :: "threads \<Rightarrow> core \<Rightarrow> (threads \<times> core) run" where
  "drain_mailbox m c =
    (case queue_pop (nx m) (mailbox c) of (item, nx', mb') \<Rightarrow>
       if item = 0 then ret (m\<lparr>nx := nx'\<rparr>, c\<lparr>mailbox := mb'\<rparr>)
       else do { (m', c') \<leftarrow> sched_push (set_state (m\<lparr>nx := nx'\<rparr>) item Ready) (c\<lparr>mailbox := mb'\<rparr>) item;
                 drain_mailbox m' c' })"

section \<open>The hardware timer\<close>

text \<open>
  The callout queue is a heap ordered by wake time; it is kept here as a list sorted by it,
  so that \<^verbatim>\<open>peek\<close> is the head.
\<close>

definition callout_push :: "(u64 \<times> nat) list \<Rightarrow> u64 \<times> nat \<Rightarrow> (u64 \<times> nat) list" where
  "callout_push q x = insort_key fst x q"

definition timer_event :: "threads \<Rightarrow> core \<Rightarrow> u64 \<Rightarrow> u64 \<times> bool" where
  "timer_event m c current_time =
    (let next0 = (if current_thread c \<noteq> 0 \<and> priority (tcbs m (current_thread c)) \<noteq> IDLE
                  then quantum_expiry (tcbs m (current_thread c)) else U64_MAX)
     in case callout_queue c of
          [] \<Rightarrow> (next0, True)
        | (w, _) # _ \<Rightarrow> (if w < next0 then w else next0, \<not> w \<le> current_time))"

definition timer_ticks :: "u64 \<Rightarrow> u64 \<Rightarrow> u64" where
  "timer_ticks next_event current_time =
    (let diff = max (if current_time \<le> next_event then next_event - current_time else 0) 1
     in if 0xFFFFFFFF < diff then 0xFFFFFFFF else diff)"

definition update_hardware_timer :: "threads \<Rightarrow> core \<Rightarrow> u64 \<Rightarrow> (threads \<times> core) run" where
  "update_hardware_timer m c current_time =
    (case timer_event m c current_time of (next_event, arm_hardware) \<Rightarrow>
       do { (m1, c1) \<leftarrow>
              (if \<not> arm_hardware \<and> timer_daemon_tcb c \<noteq> 0
                  \<and> tstate (tcbs m (timer_daemon_tcb c)) = Blocked
               then sched_push (set_state m (timer_daemon_tcb c) Ready) c (timer_daemon_tcb c)
               else ret (m, c));
            ret (m1, if arm_hardware
                     then c1\<lparr>hw_timer := (if next_event \<noteq> U64_MAX
                                          then Armed (timer_ticks next_event current_time)
                                          else Stopped)\<rparr>
                     else c1) })"

section \<open>Scheduling\<close>

datatype switch = NoSwitch | SwitchTo nat nat

definition choose_next :: "threads \<Rightarrow> core \<Rightarrow> nat \<Rightarrow> nat" where
  "choose_next m c popped =
    (if popped = 0
     then if current_thread c \<noteq> 0 \<and> tstate (tcbs m (current_thread c)) = Running
          then current_thread c else idle_thread c
     else popped)"

definition requeue_prev :: "threads \<Rightarrow> core \<Rightarrow> nat \<Rightarrow> nat \<Rightarrow> (threads \<times> core) run" where
  "requeue_prev m c prev next =
    (if prev \<noteq> 0 \<and> tstate (tcbs m prev) = Running
     then let m' = set_state m prev Ready
          in if prev \<noteq> idle_thread c \<and> prev \<noteq> next then sched_push m' c prev else ret (m', c)
     else ret (m, c))"

text \<open>
  \<open>now\<close> is \<^verbatim>\<open>get_time()\<close> and \<open>quantum\<close> is \<^verbatim>\<open>ns_to_ticks(DEFAULT_QUANTUM)\<close>. With a null
  previous thread the code reads its process field before testing the pointer: no result.
\<close>

definition schedule ::
  "(nat \<Rightarrow> u64) \<Rightarrow> u64 \<Rightarrow> u64 \<Rightarrow> threads \<Rightarrow> core \<Rightarrow> (switch \<times> threads \<times> core) run" where
  "schedule pml4 now quantum m c =
    do { (m1, c1) \<leftarrow> drain_mailbox m c;
         (popped, m2, c2) \<leftarrow> sched_pop m1 c1;
         let prev = current_thread c2;
             next = choose_next m2 c2 popped;
             m3 = set_expiry m2 next (if priority (tcbs m2 next) \<noteq> IDLE then now + quantum else U64_MAX)
         in do { (m4, c4) \<leftarrow> requeue_prev m3 c2 prev next;
                 let m5 = set_state m4 next Running;
                     top = stack_base (tcbs m5 next) + stack_size (tcbs m5 next)
                 in do { (m6, c6) \<leftarrow> update_hardware_timer m5
                           (c4\<lparr>current_thread := next, tss_rsp0 := top, kernel_rsp := top\<rparr>) now;
                         if prev = next then ret (NoSwitch, m6, c6)
                         else if prev = 0 then panic
                         else ret (SwitchTo prev next, m6,
                                   if process (tcbs m6 prev) \<noteq> process (tcbs m6 next)
                                   then c6\<lparr>cr3 := pml4 (process (tcbs m6 next))\<rparr> else c6) } } }"

definition unblock :: "threads \<Rightarrow> core \<Rightarrow> nat \<Rightarrow> (threads \<times> core) run" where
  "unblock m c thread = sched_push (set_state m thread Ready) c thread"

definition block ::
  "(nat \<Rightarrow> u64) \<Rightarrow> u64 \<Rightarrow> u64 \<Rightarrow> threads \<Rightarrow> core \<Rightarrow> nat \<Rightarrow> (switch \<times> threads \<times> core) run" where
  "block pml4 now quantum m c thread = schedule pml4 now quantum (set_state m thread Blocked) c"

definition terminate ::
  "(nat \<Rightarrow> u64) \<Rightarrow> u64 \<Rightarrow> u64 \<Rightarrow> threads \<Rightarrow> core \<Rightarrow> iqueue \<Rightarrow> (switch \<times> threads \<times> core \<times> iqueue) run" where
  "terminate pml4 now quantum m c graveyard =
    (let m1 = set_state m (current_thread c) Terminated
     in case queue_push (nx m1) graveyard (current_thread c) of (nx', g') \<Rightarrow>
          do { (sw, m2, c2) \<leftarrow> schedule pml4 now quantum (m1\<lparr>nx := nx'\<rparr>) c; ret (sw, m2, c2, g') })"

definition sleep_until ::
  "(nat \<Rightarrow> u64) \<Rightarrow> u64 \<Rightarrow> u64 \<Rightarrow> threads \<Rightarrow> core \<Rightarrow> u64 \<Rightarrow> (switch \<times> threads \<times> core) run" where
  "sleep_until pml4 now quantum m c target_time =
    (let cur = current_thread c;
         m1 = set_state m cur Blocked;
         m2 = m1\<lparr>tcbs := (tcbs m1)(cur := (tcbs m1 cur)\<lparr>wake_time := target_time\<rparr>)\<rparr>
     in schedule pml4 now quantum m2 (c\<lparr>callout_queue := callout_push (callout_queue c) (target_time, cur)\<rparr>))"

end
