(* ===== verification/Scheduler_Inv.thy ===== *)
theory Scheduler_Inv
  imports Scheduler
begin

text \<open>
  Correctness of the scheduler: the ready queues hold each ready thread once, under its
  priority, and the bitmap of active priorities marks the non-empty queues. \<open>sched_pop\<close>
  takes the oldest thread of the best priority; \<open>schedule\<close> runs the best ready thread,
  loses none and keeps the invariant.
\<close>

section \<open>The ready queues\<close>

definition ready_ok :: "threads \<Rightarrow> core \<Rightarrow> (nat \<Rightarrow> nat list) \<Rightarrow> bool" where
  "ready_ok m c Q \<longleftrightarrow>
     length (ready_queue_heads c) = 32 \<and> length (ready_queue_tails c) = 32 \<and>
     queue_length c = word_of_nat (\<Sum>p<32. length (Q p)) \<and>
     (\<forall>p<32. linked (nx m) (ready_queue_heads c ! p) (ready_queue_tails c ! p) (Q p) \<and>
        (\<forall>a \<in> set (Q p). unat (priority (tcbs m a)) = p) \<and>
        (bit (active_priorities c) p \<longleftrightarrow> Q p \<noteq> []))"

definition ready :: "(nat \<Rightarrow> nat list) \<Rightarrow> nat set" where
  "ready Q = (\<Union>p<32. set (Q p))"

text \<open>The fields of a core that queue operations leave alone.\<close>

definition same_rest :: "core \<Rightarrow> core \<Rightarrow> bool" where
  "same_rest c c' \<longleftrightarrow> mailbox c' = mailbox c \<and> idle_thread c' = idle_thread c \<and>
     current_thread c' = current_thread c \<and> callout_queue c' = callout_queue c \<and>
     timer_daemon_tcb c' = timer_daemon_tcb c \<and> tss_rsp0 c' = tss_rsp0 c \<and>
     kernel_rsp c' = kernel_rsp c \<and> cr3 c' = cr3 c \<and> hw_timer c' = hw_timer c"

lemma same_rest_trans: "same_rest a b \<Longrightarrow> same_rest b c \<Longrightarrow> same_rest a c"
  by (simp add: same_rest_def)

lemma sum_length_upd:
  assumes "p < (n :: nat)"
  shows "(\<Sum>i<n. length ((Q(p := xs)) i)) + length (Q p) = (\<Sum>i<n. length (Q i)) + length xs"
proof -
  have p: "p \<in> {..<n}" "finite {..<n}" using assms by auto
  have "(\<Sum>i\<in>{..<n} - {p}. length ((Q(p := xs)) i)) = (\<Sum>i\<in>{..<n} - {p}. length (Q i))"
    by (rule sum.cong) auto
  then show ?thesis
    using sum.remove [OF p(2,1), of "\<lambda>i. length ((Q(p := xs)) i)"] sum.remove [OF p(2,1), of "\<lambda>i. length (Q i)"]
    by simp
qed

lemma ready_ok_other:
  assumes "ready_ok m c Q" and "p < 32" and "p' < 32" and "p \<noteq> p'" and "a \<in> set (Q p)"
  shows "a \<notin> set (Q p')"
  using assms unfolding ready_ok_def by metis

lemma ready_push: "p < 32 \<Longrightarrow> ready (Q(p := Q p @ [a])) = insert a (ready Q)"
  by (auto simp: ready_def split: if_splits)

lemma ready_pop:
  assumes "ready_ok m c Q" and "p < 32" and "Q p = a # xs"
  shows "ready (Q(p := xs)) = ready Q - {a}"
proof -
  have "a \<notin> set (Q q)" if "q < 32" "q \<noteq> p" for q
    using ready_ok_other [OF assms(1,2) that(1)] that(2) assms(3) by auto
  moreover have "a \<notin> set xs" using assms by (auto simp: ready_ok_def linked_def)
  ultimately have "set ((Q(p := xs)) q) = set (Q q) - {a}" if "q < 32" for q
    using that assms(3) by (cases "q = p") auto
  then show ?thesis unfolding ready_def by auto
qed

lemma bit_or_exp: "p < 32 \<Longrightarrow> i < 32 \<Longrightarrow> bit ((w :: u32) OR push_bit p 1) i \<longleftrightarrow> bit w i \<or> i = p"
  by (auto simp: bit_or_iff bit_exp_iff)

lemma bit_clear_exp: "i < 32 \<Longrightarrow> bit ((w :: u32) AND NOT (push_bit p 1)) i \<longleftrightarrow> bit w i \<and> i \<noteq> p"
  by (auto simp: bit_and_iff bit_not_iff bit_exp_iff)

lemma sched_push_ok:
  assumes ok: "ready_ok m c Q" and a: "a \<noteq> 0" and p: "p = unat (priority (tcbs m a))" "p < 32"
    and nin: "a \<notin> set (Q p)"
  obtains m' c' where "sched_push m c a = Some (m', c')" "ready_ok m' c' (Q(p := Q p @ [a]))"
    "tcbs m' = tcbs m" "same_rest c c'" "\<And>b. b \<noteq> a \<Longrightarrow> b \<notin> set (Q p) \<Longrightarrow> nx m' b = nx m b"
proof -
  have len: "p < length (ready_queue_tails c)" "p < length (ready_queue_heads c)"
    using ok p(2) by (auto simp: ready_ok_def)
  define t where "t = ready_queue_tails c ! p"
  define h where "h = ready_queue_heads c ! p"
  have l: "linked (nx m) h t (Q p)" using ok p(2) by (auto simp: ready_ok_def t_def h_def)
  define nx' where "nx' = (if t = 0 then (nx m)(a := 0) else (nx m)(a := 0, t := a))"
  define m' where "m' = m\<lparr>nx := nx'\<rparr>"
  define c' where "c' = c\<lparr>ready_queue_heads := (ready_queue_heads c)[p := (if t = 0 then a else h)],
    ready_queue_tails := (ready_queue_tails c)[p := a], queue_length := queue_length c + 1,
    active_priorities := active_priorities c OR push_bit p 1\<rparr>"
  have run: "sched_push m c a = Some (m', c')"
    using a len by (simp add: sched_push_def Let_def p(1) [symmetric] idx_in_range upd_in_range
        t_def [symmetric] m'_def c'_def nx'_def h_def)
  have new: "linked nx' (if t = 0 then a else h) a (Q p @ [a])"
    unfolding nx'_def using l a nin by (rule linked_push)
  have frame': "nx' b = nx m b" if "b \<noteq> a" "b \<notin> set (Q p)" for b
    using that linked_tail_in [OF l] by (auto simp: nx'_def)
  have old: "linked nx' (ready_queue_heads c ! q) (ready_queue_tails c ! q) (Q q)" if q: "q < 32" "q \<noteq> p" for q
  proof -
    have "nx' b = nx m b" if b: "b \<in> set (Q q)" for b
    proof (rule frame')
      show "b \<noteq> a" using ok q b p(1) by (auto simp: ready_ok_def)
      show "b \<notin> set (Q p)" using ready_ok_other [OF ok q(1) p(2) q(2) b] .
    qed
    then show ?thesis using ok q(1) linked_cong [of "Q q" nx' "nx m"] by (simp add: ready_ok_def)
  qed
  have "(\<Sum>i<32. length ((Q(p := Q p @ [a])) i)) = Suc (\<Sum>i<32. length (Q i))"
    using sum_length_upd [OF p(2), of Q "Q p @ [a]"] by simp
  then have "queue_length c' = word_of_nat (\<Sum>i<32. length ((Q(p := Q p @ [a])) i))"
    using ok by (simp add: c'_def ready_ok_def add.commute)
  moreover have "bit (active_priorities c') q \<longleftrightarrow> (Q(p := Q p @ [a])) q \<noteq> []" if "q < 32" for q
    using ok that p(2) bit_or_exp [OF p(2) that, of "active_priorities c"] by (auto simp: c'_def ready_ok_def)
  ultimately have "ready_ok m' c' (Q(p := Q p @ [a]))"
    using ok new old p len unfolding ready_ok_def by (auto simp: m'_def c'_def nth_list_update)
  then show ?thesis
    using that [OF run] frame' by (simp add: m'_def c'_def same_rest_def)
qed

lemma active_0_iff: "ready_ok m c Q \<Longrightarrow> active_priorities c = 0 \<longleftrightarrow> (\<forall>p<32. Q p = [])"
proof -
  assume ok: "ready_ok m c Q"
  have "active_priorities c = 0 \<longleftrightarrow> (\<forall>p<32. \<not> bit (active_priorities c) p)"
    by (auto intro: bit_word_eqI)
  then show ?thesis using ok by (simp add: ready_ok_def)
qed

lemma sched_pop_ok:
  assumes ok: "ready_ok m c Q" and ne: "\<exists>p<32. Q p \<noteq> []"
  obtains p a xs m' c' where "p < 32" "Q p = a # xs" "\<And>q. q < p \<Longrightarrow> Q q = []"
    "sched_pop m c = Some (a, m', c')" "ready_ok m' c' (Q(p := xs))" "a \<noteq> 0"
    "tcbs m' = tcbs m" "same_rest c c'" "nx m' = (nx m)(a := 0)"
proof -
  let ?w = "active_priorities c"
  define p where "p = trailing_zeros 32 (bit ?w)"
  obtain k where k: "k < 32" "bit ?w k" using ok ne by (auto simp: ready_ok_def)
  note tz = trailing_zeros_bit [of k 32 "bit ?w", OF k, folded p_def]
  have wnz: "?w \<noteq> 0" using k by auto
  have p: "p < 32" and Qp: "Q p \<noteq> []" using tz ok by (auto simp: ready_ok_def)
  have low: "Q q = []" if "q < p" for q using tz(3) [OF that] that p ok by (auto simp: ready_ok_def)
  obtain a xs where axs: "Q p = a # xs" using Qp by (cases "Q p") auto
  have len: "p < length (ready_queue_tails c)" "p < length (ready_queue_heads c)"
    using ok p by (auto simp: ready_ok_def)
  have l: "linked (nx m) (ready_queue_heads c ! p) (ready_queue_tails c ! p) (a # xs)"
    using ok p axs by (auto simp: ready_ok_def)
  note pop = linked_pop [OF l]
  define m' where "m' = m\<lparr>nx := (nx m)(a := 0)\<rparr>"
  define c' where "c' = c\<lparr>ready_queue_heads := (ready_queue_heads c)[p := nx m a],
    ready_queue_tails := (if nx m a = 0 then (ready_queue_tails c)[p := 0] else ready_queue_tails c),
    active_priorities := (if nx m a = 0 then ?w AND NOT (push_bit p 1) else ?w),
    queue_length := queue_length c - 1\<rparr>"
  have run: "sched_pop m c = Some (a, m', c')"
    using wnz len pop(1,2) by (simp add: sched_pop_def p_def [symmetric] Let_def idx_in_range upd_in_range
        m'_def c'_def)
  have nil: "nx m a = 0 \<longleftrightarrow> xs = []"
    using linked_head_0 [OF pop(4)] .
  have old: "linked (nx m') (ready_queue_heads c ! q) (ready_queue_tails c ! q) (Q q)" if q: "q < 32" "q \<noteq> p" for q
  proof -
    have "a \<notin> set (Q q)" using ready_ok_other [OF ok p q(1), of a] q(2) axs by simp
    then show ?thesis using ok q(1) by (simp add: ready_ok_def m'_def)
  qed
  have new: "linked (nx m') (nx m a) (ready_queue_tails c' ! p) xs"
    using pop(4) len by (simp add: m'_def c'_def split: if_splits)
  have "(\<Sum>i<32. length (Q i)) = Suc (\<Sum>i<32. length ((Q(p := xs)) i))"
    using sum_length_upd [OF p, of Q xs] axs by simp
  then have "queue_length c' = word_of_nat (\<Sum>i<32. length ((Q(p := xs)) i))"
    using ok by (simp add: c'_def ready_ok_def)
  moreover have "bit (active_priorities c') q \<longleftrightarrow> (Q(p := xs)) q \<noteq> []" if q: "q < 32" for q
    using ok q nil axs bit_clear_exp [OF q, of ?w p] by (auto simp: c'_def ready_ok_def)
  moreover have "ready_queue_tails c' ! q = ready_queue_tails c ! q" if "q \<noteq> p" for q
    using that by (simp add: c'_def)
  ultimately have "ready_ok m' c' (Q(p := xs))"
    using ok new old p len axs unfolding ready_ok_def by (auto simp: m'_def c'_def nth_list_update)
  then show ?thesis
    using that [OF p axs low run _ pop(2)] by (simp add: m'_def c'_def same_rest_def)
qed

section \<open>Draining the mailbox\<close>

definition posted :: "(nat \<Rightarrow> nat list) \<Rightarrow> threads \<Rightarrow> nat list \<Rightarrow> nat \<Rightarrow> nat list" where
  "posted Q m M p = Q p @ filter (\<lambda>a. unat (priority (tcbs m a)) = p) M"

definition mark_ready :: "(nat \<Rightarrow> tcb) \<Rightarrow> nat set \<Rightarrow> (nat \<Rightarrow> tcb)" where
  "mark_ready f A a = (if a \<in> A then (f a)\<lparr>tstate := Ready\<rparr> else f a)"

lemma mark_ready_fields [simp]:
  "priority (mark_ready f A a) = priority (f a)" "process (mark_ready f A a) = process (f a)"
  "tstate (mark_ready f A a) = (if a \<in> A then Ready else tstate (f a))"
  by (simp_all add: mark_ready_def)

lemma ready_ok_fields:
  assumes "nx m' = nx m" and "\<And>a. priority (tcbs m' a) = priority (tcbs m a)"
    and "ready_queue_heads c' = ready_queue_heads c" and "ready_queue_tails c' = ready_queue_tails c"
    and "queue_length c' = queue_length c" and "active_priorities c' = active_priorities c"
  shows "ready_ok m' c' Q = ready_ok m c Q"
  using assms by (simp add: ready_ok_def)

lemma ready_ok_nx:
  assumes "ready_ok m c Q" and "\<And>a. a \<in> ready Q \<Longrightarrow> nx m' a = nx m a"
    and "\<And>a. priority (tcbs m' a) = priority (tcbs m a)"
  shows "ready_ok m' c Q"
proof -
  have "linked (nx m') h t (Q p) = linked (nx m) h t (Q p)" if "p < 32" for p h t
    using assms(2) that by (intro linked_cong) (auto simp: ready_def)
  then show ?thesis using assms(1,3) by (simp add: ready_ok_def)
qed

lemma drain_mailbox_ok:
  assumes "ready_ok m c Q" and "qrep (nx m) (mailbox c) M" and "set M \<inter> ready Q = {}"
    and "\<forall>a \<in> set M. unat (priority (tcbs m a)) < 32"
  shows "\<exists>m' c'. drain_mailbox m c = Some (m', c') \<and> ready_ok m' c' (posted Q m M) \<and>
           qrep (nx m') (mailbox c') [] \<and> tcbs m' = mark_ready (tcbs m) (set M) \<and>
           same_rest (c\<lparr>mailbox := mailbox c'\<rparr>) c'"
  using assms
proof (induction M arbitrary: m c Q)
  case Nil
  have "queue_pop (nx m) (mailbox c) = (0, nx m, mailbox c)"
    using Nil.prems(2) by (auto simp: qrep_def linked_nil queue_pop_def)
  then have "drain_mailbox m c = Some (m, c)" by (simp add: drain_mailbox.simps [of m c])
  moreover have "posted Q m [] = Q" by (simp add: posted_def fun_eq_iff)
  moreover have "mark_ready (tcbs m) {} = tcbs m" by (simp add: mark_ready_def fun_eq_iff)
  ultimately show ?case using Nil.prems by (simp add: same_rest_def)
next
  case (Cons a M)
  obtain mb' where pop: "queue_pop (nx m) (mailbox c) = (a, (nx m)(a := 0), mb')"
    and mb': "qrep ((nx m)(a := 0)) mb' M"
    using qrep_pop [OF Cons.prems(2)] by auto
  have anz: "a \<noteq> 0" and anM: "a \<notin> set M" using Cons.prems(2) by (auto simp: qrep_def linked_def)
  let ?m1 = "set_state (m\<lparr>nx := (nx m)(a := 0)\<rparr>) a Ready" and ?c1 = "c\<lparr>mailbox := mb'\<rparr>"
  let ?p = "unat (priority (tcbs m a))"
  have p: "?p < 32" using Cons.prems(4) by simp
  have ar: "a \<notin> ready Q" using Cons.prems(3) by auto
  have "ready_ok ?m1 c Q"
    by (rule ready_ok_nx [OF Cons.prems(1)]) (use ar in \<open>auto simp: set_state_def\<close>)
  then have ok1: "ready_ok ?m1 ?c1 Q" by (subst ready_ok_fields [of ?m1 ?m1 ?c1 c]) simp_all
  have pr: "?p = unat (priority (tcbs ?m1 a))" by (simp add: set_state_def)
  have "a \<notin> set (Q ?p)" using ar p by (auto simp: ready_def)
  then obtain m2 c2 where ps: "sched_push ?m1 ?c1 a = Some (m2, c2)"
    "ready_ok m2 c2 (Q(?p := Q ?p @ [a]))" "tcbs m2 = tcbs ?m1" "same_rest ?c1 c2"
    "\<And>b. b \<noteq> a \<Longrightarrow> b \<notin> set (Q ?p) \<Longrightarrow> nx m2 b = nx ?m1 b"
    by (rule sched_push_ok [OF ok1 anz pr p]) blast
  have "qrep (nx m2) (mailbox c2) M"
  proof -
    have "nx m2 b = ((nx m)(a := 0)) b" if b: "b \<in> set M" for b
      using ps(5) [of b] b anM Cons.prems(3) p by (auto simp: ready_def set_state_def)
    then have "linked (nx m2) h t M = linked ((nx m)(a := 0)) h t M" for h t by (rule linked_cong)
    then show ?thesis using mb' ps(4) by (simp add: qrep_def same_rest_def)
  qed
  moreover have "set M \<inter> ready (Q(?p := Q ?p @ [a])) = {}"
    using Cons.prems(3) anM unfolding ready_push [OF p] by auto
  moreover have tm: "tcbs m2 b = (if b = a then (tcbs m a)\<lparr>tstate := Ready\<rparr> else tcbs m b)" for b
    by (simp add: ps(3) set_state_def)
  then have "\<forall>b \<in> set M. unat (priority (tcbs m2 b)) < 32" using Cons.prems(4) by simp
  ultimately obtain m' c' where r: "drain_mailbox m2 c2 = Some (m', c')"
    "ready_ok m' c' (posted (Q(?p := Q ?p @ [a])) m2 M)" "qrep (nx m') (mailbox c') []"
    "tcbs m' = mark_ready (tcbs m2) (set M)" "same_rest (c2\<lparr>mailbox := mailbox c'\<rparr>) c'"
    using Cons.IH [OF ps(2)] by blast
  have "drain_mailbox m c = Some (m', c')"
    using pop anz ps(1) r(1) by (simp add: drain_mailbox.simps [of m c])
  moreover have "posted (Q(?p := Q ?p @ [a])) m2 M = posted Q m (a # M)"
    by (auto simp: posted_def fun_eq_iff tm intro!: filter_cong)
  moreover have "mark_ready (tcbs m2) (set M) = mark_ready (tcbs m) (set (a # M))"
    by (auto simp: mark_ready_def fun_eq_iff tm)
  moreover have "same_rest (c\<lparr>mailbox := mailbox c'\<rparr>) c'" using ps(4) r(5) by (simp add: same_rest_def)
  ultimately show ?case using r by auto
qed

lemma ready_posted: "(\<forall>a \<in> set M. unat (priority (tcbs m a)) < 32) \<Longrightarrow> ready (posted Q m M) = ready Q \<union> set M"
  by (auto simp: ready_def posted_def)

section \<open>The scheduler invariant\<close>

definition queued :: "threads \<Rightarrow> core \<Rightarrow> (nat \<Rightarrow> nat list) \<Rightarrow> nat list \<Rightarrow> bool" where
  "queued m c Q M \<longleftrightarrow> ready_ok m c Q \<and> qrep (nx m) (mailbox c) M \<and> set M \<inter> ready Q = {} \<and>
     (\<forall>a \<in> set M. unat (priority (tcbs m a)) < 32) \<and> (\<forall>a \<in> ready Q \<union> set M. tstate (tcbs m a) = Ready)"

definition core_inv :: "threads \<Rightarrow> core \<Rightarrow> (nat \<Rightarrow> nat list) \<Rightarrow> nat list \<Rightarrow> bool" where
  "core_inv m c Q M \<longleftrightarrow> queued m c Q M \<and>
     idle_thread c \<noteq> 0 \<and> idle_thread c \<notin> ready Q \<union> set M \<and> current_thread c \<noteq> 0 \<and>
     unat (priority (tcbs m (current_thread c))) < 32 \<and> unat (priority (tcbs m (idle_thread c))) < 32 \<and>
     timer_daemon_tcb c \<noteq> idle_thread c \<and>
     unat (priority (tcbs m (timer_daemon_tcb c))) < 32"

lemma queued_push:
  assumes q: "queued m c Q []" and a: "a \<noteq> 0" "a \<notin> ready Q" "unat (priority (tcbs m a)) < 32"
    and st: "tstate (tcbs m a) = Ready"
  obtains m' c' Q' where "sched_push m c a = Some (m', c')" "queued m' c' Q' []" "ready Q' = insert a (ready Q)"
    "tcbs m' = tcbs m" "same_rest c c'"
proof -
  let ?p = "unat (priority (tcbs m a))"
  have ok: "ready_ok m c Q" using q by (simp add: queued_def)
  have nin: "a \<notin> set (Q ?p)" using a(2,3) by (auto simp: ready_def)
  obtain m' c' where ps: "sched_push m c a = Some (m', c')" "ready_ok m' c' (Q(?p := Q ?p @ [a]))"
    "tcbs m' = tcbs m" "same_rest c c'"
    by (rule sched_push_ok [OF ok a(1) refl a(3) nin]) blast
  have "queued m' c' (Q(?p := Q ?p @ [a])) []"
    using q ps st a(3) by (auto simp: queued_def ready_push same_rest_def qrep_def linked_nil)
  then show ?thesis using that [OF ps(1) _ ready_push [OF a(3)] ps(3,4)] by blast
qed

lemma queued_upd:
  assumes "queued m c Q []" and "nx m' = nx m" and "\<And>a. priority (tcbs m' a) = priority (tcbs m a)"
    and "\<And>a. a \<in> ready Q \<Longrightarrow> tstate (tcbs m' a) = tstate (tcbs m a)"
    and "ready_queue_heads c' = ready_queue_heads c" and "ready_queue_tails c' = ready_queue_tails c"
    and "queue_length c' = queue_length c" and "active_priorities c' = active_priorities c"
    and "mailbox c' = mailbox c"
  shows "queued m' c' Q []"
  using assms ready_ok_fields [of m' m c' c Q] by (simp add: queued_def)

lemma tcb_set_simps [simp]:
  "nx (set_state m a st) = nx m" "nx (set_expiry m a v) = nx m"
  "priority (tcbs (set_state m a st) b) = priority (tcbs m b)"
  "priority (tcbs (set_expiry m a v) b) = priority (tcbs m b)"
  "process (tcbs (set_state m a st) b) = process (tcbs m b)"
  "process (tcbs (set_expiry m a v) b) = process (tcbs m b)"
  "tstate (tcbs (set_expiry m a v) b) = tstate (tcbs m b)"
  "tstate (tcbs (set_state m a st) b) = (if b = a then st else tstate (tcbs m b))"
  by (simp_all add: set_state_def set_expiry_def)

lemma requeue_prev_ok:
  fixes nxt :: nat
  assumes q: "queued m c Q []" and prev: "prev \<noteq> 0" "unat (priority (tcbs m prev)) < 32"
  defines "back \<equiv> (if tstate (tcbs m prev) = Running \<and> prev \<noteq> idle_thread c \<and> prev \<noteq> nxt then {prev} else {})"
  obtains m' c' Q' where "requeue_prev m c prev nxt = Some (m', c')" "queued m' c' Q' []"
    "ready Q' = ready Q \<union> back" "tcbs m' = tcbs (if tstate (tcbs m prev) = Running then set_state m prev Ready else m)"
    "same_rest c c'"
proof (cases "tstate (tcbs m prev) = Running")
  case False
  then show ?thesis using that [of m c Q] q by (simp add: requeue_prev_def back_def same_rest_def)
next
  case run: True
  let ?m = "set_state m prev Ready"
  have nr: "prev \<notin> ready Q" using q run by (force simp: queued_def)
  have q1: "queued ?m c Q []" by (rule queued_upd [OF q]) (use nr in auto)
  show ?thesis
  proof (cases "prev \<noteq> idle_thread c \<and> prev \<noteq> nxt")
    case True
    obtain m' c' Q' where ps: "sched_push ?m c prev = Some (m', c')" "queued m' c' Q' []"
      "ready Q' = insert prev (ready Q)" "tcbs m' = tcbs ?m" "same_rest c c'"
      by (rule queued_push [OF q1 prev(1) nr]) (use prev(2) in auto)
    then show ?thesis
      using that [OF _ ps(2)] run True prev(1) by (simp add: requeue_prev_def back_def)
  next
    case False
    then show ?thesis
      using that [of ?m c Q] q1 run prev(1) by (auto simp: requeue_prev_def back_def same_rest_def)
  qed
qed

lemma update_timer_ok:
  fixes now :: u64
  assumes q: "queued m c Q []" and td: "unat (priority (tcbs m (timer_daemon_tcb c))) < 32"
  defines "woken \<equiv> (if \<not> snd (timer_event m c now) \<and> timer_daemon_tcb c \<noteq> 0 \<and>
      tstate (tcbs m (timer_daemon_tcb c)) = Blocked then {timer_daemon_tcb c} else {})"
  obtains m' c' Q' where "update_hardware_timer m c now = Some (m', c')" "queued m' c' Q' []"
    "ready Q' = ready Q \<union> woken" "tcbs m' = mark_ready (tcbs m) woken"
    "same_rest (c\<lparr>hw_timer := hw_timer c'\<rparr>) c'"
proof (cases "woken = {}")
  case True
  then have w: "\<not> (\<not> snd (timer_event m c now) \<and> timer_daemon_tcb c \<noteq> 0 \<and>
      tstate (tcbs m (timer_daemon_tcb c)) = Blocked)" by (auto simp: woken_def split: if_splits)
  let ?c = "if snd (timer_event m c now)
    then c\<lparr>hw_timer := (if fst (timer_event m c now) \<noteq> U64_MAX
                       then Armed (timer_ticks (fst (timer_event m c now)) now) else Stopped)\<rparr> else c"
  have "update_hardware_timer m c now = Some (m, ?c)"
    using w by (auto simp: update_hardware_timer_def case_prod_beta)
  moreover have "queued m ?c Q []" by (rule queued_upd [OF q]) auto
  moreover have "mark_ready (tcbs m) {} = tcbs m" by (simp add: mark_ready_def fun_eq_iff)
  ultimately show ?thesis using that [of m ?c Q] True by (simp add: same_rest_def)
next
  case False
  let ?t = "timer_daemon_tcb c"
  have w: "\<not> snd (timer_event m c now)" "?t \<noteq> 0" "tstate (tcbs m ?t) = Blocked" and wd: "woken = {?t}"
    using False by (auto simp: woken_def split: if_splits)
  have nr: "?t \<notin> ready Q" using q w(3) by (force simp: queued_def)
  have q1: "queued (set_state m ?t Ready) c Q []" by (rule queued_upd [OF q]) (use nr in auto)
  obtain m' c' Q' where ps: "sched_push (set_state m ?t Ready) c ?t = Some (m', c')" "queued m' c' Q' []"
    "ready Q' = insert ?t (ready Q)" "tcbs m' = tcbs (set_state m ?t Ready)" "same_rest c c'"
    by (rule queued_push [OF q1 w(2) nr]) (use td in auto)
  have "update_hardware_timer m c now = Some (m', c')"
    using w ps(1) by (simp add: update_hardware_timer_def case_prod_beta)
  moreover have "tcbs m' = mark_ready (tcbs m) woken"
    by (auto simp: ps(4) wd mark_ready_def set_state_def fun_eq_iff)
  ultimately show ?thesis using that [OF _ ps(2)] ps(3,5) wd by (simp add: same_rest_def)
qed

lemma queued_priority: "queued m c Q M \<Longrightarrow> a \<in> ready Q \<union> set M \<Longrightarrow> unat (priority (tcbs m a)) < 32"
  by (auto simp: queued_def ready_ok_def ready_def)

text \<open>The first half of \<^verbatim>\<open>schedule\<close>: mailbox and pop, together.\<close>

lemma pick_ok:
  assumes inv: "core_inv m c Q M"
  obtains m1 c1 n m2 c2 Q2 where "drain_mailbox m c = Some (m1, c1)" "sched_pop m1 c1 = Some (n, m2, c2)"
    "queued m2 c2 Q2 []" "tcbs m2 = tcbs m" "same_rest (c\<lparr>mailbox := mailbox c2\<rparr>) c2"
    "n = 0 \<and> ready Q \<union> set M = {} \<and> ready Q2 = {} \<or>
     n \<noteq> 0 \<and> n \<in> ready Q \<union> set M \<and> ready Q2 = (ready Q \<union> set M) - {n} \<and>
     (\<forall>a \<in> ready Q \<union> set M. priority (tcbs m n) \<le> priority (tcbs m a)) \<and>
     (\<exists>p xs. p < 32 \<and> posted Q m M p = n # xs)"
proof -
  have q: "ready_ok m c Q" "qrep (nx m) (mailbox c) M" "set M \<inter> ready Q = {}"
    "\<forall>a \<in> set M. unat (priority (tcbs m a)) < 32" "\<forall>a \<in> ready Q \<union> set M. tstate (tcbs m a) = Ready"
    using inv by (auto simp: core_inv_def queued_def)
  obtain m1 c1 where d: "drain_mailbox m c = Some (m1, c1)" "ready_ok m1 c1 (posted Q m M)"
    "qrep (nx m1) (mailbox c1) []" "tcbs m1 = mark_ready (tcbs m) (set M)" "same_rest (c\<lparr>mailbox := mailbox c1\<rparr>) c1"
    using drain_mailbox_ok [OF q(1-4)] by blast
  have R: "ready (posted Q m M) = ready Q \<union> set M" using q(4) by (rule ready_posted)
  have same: "tcbs m1 a = tcbs m a" for a using q(5) by (auto simp: d(4) mark_ready_def)
  show ?thesis
  proof (cases "\<exists>p<32. posted Q m M p \<noteq> []")
    case False
    then have e: "ready Q \<union> set M = {}" unfolding R [symmetric] by (auto simp: ready_def)
    have "active_priorities c1 = 0" using active_0_iff [OF d(2)] False by blast
    then have "sched_pop m1 c1 = Some (0, m1, c1)" by (simp add: sched_pop_def)
    moreover have "queued m1 c1 (posted Q m M) []" using d(2,3) q(5) same R by (auto simp: queued_def)
    ultimately show ?thesis using that [OF d(1)] d(5) same e R by (metis ext)
  next
    case True
    obtain p n xs m2 c2 where p: "p < 32" "posted Q m M p = n # xs" "\<And>q. q < p \<Longrightarrow> posted Q m M q = []"
      "sched_pop m1 c1 = Some (n, m2, c2)" "ready_ok m2 c2 ((posted Q m M)(p := xs))" "n \<noteq> 0"
      "tcbs m2 = tcbs m1" "same_rest c1 c2" "nx m2 = (nx m1)(n := 0)"
      by (rule sched_pop_ok [OF d(2) True]) blast
    have R2: "ready ((posted Q m M)(p := xs)) = (ready Q \<union> set M) - {n}"
      using ready_pop [OF d(2) p(1,2)] R by simp
    have pr: "unat (priority (tcbs m a)) = q" if "q < 32" "a \<in> set (posted Q m M q)" for a q
      using d(2) that same by (simp add: ready_ok_def)
    have np: "unat (priority (tcbs m n)) = p" using pr [OF p(1)] p(2) by simp
    have "priority (tcbs m n) \<le> priority (tcbs m a)" if "a \<in> ready Q \<union> set M" for a
    proof -
      have "a \<in> ready (posted Q m M)" using that R by blast
      then obtain q where "q < 32" "a \<in> set (posted Q m M q)" by (auto simp: ready_def)
      moreover from this have "\<not> q < p" using p(3) by auto
      ultimately show ?thesis using pr np by (simp add: word_le_nat_alt)
    qed
    moreover have "n \<in> ready Q \<union> set M" unfolding R [symmetric] using p(1,2) by (force simp: ready_def)
    moreover have "queued m2 c2 ((posted Q m M)(p := xs)) []"
      using p(5,7,8) d(3) q(5) same R2 by (auto simp: queued_def same_rest_def qrep_def linked_nil)
    moreover have "same_rest (c\<lparr>mailbox := mailbox c2\<rparr>) c2" using d(5) p(8) by (simp add: same_rest_def)
    moreover have "tcbs m2 = tcbs m" using p(7) same by auto
    ultimately show ?thesis using that [OF d(1) p(4)] R2 p(1,2,6) by metis
  qed
qed

text \<open>
  C6. Scheduling. From a consistent core \<open>schedule\<close> always returns. The thread it makes current
  is a ready one of the best priority (the oldest of its class) when any thread is ready,
  counting the mailbox; otherwise the current thread if it is still running, and else the
  idle thread. The preempted thread is queued again unless it is the idle thread, no
  queued thread is lost or duplicated, only the timer daemon may be added, and the core
  stays consistent with an empty mailbox.
\<close>

theorem schedule_correct:
  assumes inv: "core_inv m c Q M"
  defines "prev \<equiv> current_thread c" and "R \<equiv> ready Q \<union> set M"
  shows "\<exists>m' c' Q' next. schedule pml4 now quantum m c =
             Some (if prev = next then NoSwitch else SwitchTo prev next, m', c') \<and>
           core_inv m' c' Q' [] \<and> current_thread c' = next \<and> tstate (tcbs m' next) = Running \<and>
           (if R = {} then next = (if tstate (tcbs m prev) = Running then prev else idle_thread c)
            else next \<in> R \<and> (\<forall>a \<in> R. priority (tcbs m next) \<le> priority (tcbs m a)) \<and>
                 (\<exists>p xs. p < 32 \<and> posted Q m M p = next # xs)) \<and>
           next \<notin> ready Q' \<and>
           (\<exists>T \<subseteq> {timer_daemon_tcb c}. ready Q' =
              (R \<union> (if tstate (tcbs m prev) = Running \<and> prev \<noteq> idle_thread c then {prev} else {})) - {next} \<union> T)"
proof -
  have i: "idle_thread c \<noteq> 0" "idle_thread c \<notin> R" "prev \<noteq> 0" "unat (priority (tcbs m prev)) < 32"
    "unat (priority (tcbs m (idle_thread c))) < 32" "timer_daemon_tcb c \<noteq> idle_thread c"
    "unat (priority (tcbs m (timer_daemon_tcb c))) < 32"
    using inv by (auto simp: core_inv_def prev_def R_def)
  obtain m1 c1 n m2 c2 Q2 where pk: "drain_mailbox m c = Some (m1, c1)" "sched_pop m1 c1 = Some (n, m2, c2)"
    "queued m2 c2 Q2 []" "tcbs m2 = tcbs m" "same_rest (c\<lparr>mailbox := mailbox c2\<rparr>) c2"
    "n = 0 \<and> R = {} \<and> ready Q2 = {} \<or> n \<noteq> 0 \<and> n \<in> R \<and> ready Q2 = R - {n} \<and>
     (\<forall>a \<in> R. priority (tcbs m n) \<le> priority (tcbs m a)) \<and> (\<exists>p xs. p < 32 \<and> posted Q m M p = n # xs)"
    by (rule pick_ok [OF inv, folded R_def]) (rule that)
  have c2: "current_thread c2 = prev" "idle_thread c2 = idle_thread c" "timer_daemon_tcb c2 = timer_daemon_tcb c"
    using pk(5) by (auto simp: same_rest_def prev_def)
  define nxt where "nxt = choose_next m2 c2 n"
  have nxt: "if R = {} then nxt = (if tstate (tcbs m prev) = Running then prev else idle_thread c) else nxt = n"
    using pk(4,6) c2 i(3) by (auto simp: nxt_def choose_next_def)
  have R2: "ready Q2 = R - {nxt}" using pk(6) nxt by (auto split: if_splits)
  define m3 where "m3 = set_expiry m2 nxt (if priority (tcbs m2 nxt) \<noteq> IDLE then now + quantum else U64_MAX)"
  have q3: "queued m3 c2 Q2 []" by (rule queued_upd [OF pk(3)]) (auto simp: m3_def)
  have f3: "tstate (tcbs m3 a) = tstate (tcbs m a)" "priority (tcbs m3 a) = priority (tcbs m a)" for a
    by (simp_all add: m3_def pk(4))
  have pp: "unat (priority (tcbs m3 prev)) < 32" using i(4) f3 by simp
  obtain m4 c4 Q4 where r: "requeue_prev m3 c2 prev nxt = Some (m4, c4)" "queued m4 c4 Q4 []"
    "ready Q4 = ready Q2 \<union> (if tstate (tcbs m3 prev) = Running \<and> prev \<noteq> idle_thread c2 \<and> prev \<noteq> nxt then {prev} else {})"
    "tcbs m4 = tcbs (if tstate (tcbs m3 prev) = Running then set_state m3 prev Ready else m3)" "same_rest c2 c4"
    by (rule requeue_prev_ok [OF q3 i(3) pp, of nxt]) (rule that)
  have ready4: "ready Q4 = (R \<union> (if tstate (tcbs m prev) = Running \<and> prev \<noteq> idle_thread c then {prev} else {})) - {nxt}"
    using r(3) R2 f3 c2 by auto
  define m5 where "m5 = set_state m4 nxt Running"
  define top where "top = stack_base (tcbs m5 nxt) + stack_size (tcbs m5 nxt)"
  define c5 where "c5 = c4\<lparr>current_thread := nxt, tss_rsp0 := top, kernel_rsp := top\<rparr>"
  have q5: "queued m5 c5 Q4 []" by (rule queued_upd [OF r(2)]) (use ready4 in \<open>auto simp: m5_def c5_def\<close>)
  have c5: "timer_daemon_tcb c5 = timer_daemon_tcb c" "idle_thread c5 = idle_thread c" "current_thread c5 = nxt"
    using r(5) c2 by (auto simp: c5_def same_rest_def)
  have p5: "priority (tcbs m5 a) = priority (tcbs m a)" for a by (simp add: m5_def r(4) f3)
  define T where "T = (if \<not> snd (timer_event m5 c5 now) \<and> timer_daemon_tcb c5 \<noteq> 0 \<and>
      tstate (tcbs m5 (timer_daemon_tcb c5)) = Blocked then {timer_daemon_tcb c5} else {})"
  have pt: "unat (priority (tcbs m5 (timer_daemon_tcb c5))) < 32" using i(7) p5 c5 by simp
  obtain m6 c6 Q6 where t: "update_hardware_timer m5 c5 now = Some (m6, c6)" "queued m6 c6 Q6 []"
    "ready Q6 = ready Q4 \<union> T" "tcbs m6 = mark_ready (tcbs m5) T" "same_rest (c5\<lparr>hw_timer := hw_timer c6\<rparr>) c6"
    by (rule update_timer_ok [OF q5 pt, of now, folded T_def]) (rule that)
  have nT: "nxt \<notin> T" by (auto simp: T_def m5_def split: if_splits)
  have pn: "unat (priority (tcbs m nxt)) < 32"
  proof (cases "R = {}")
    case False
    then have "nxt \<in> R" using nxt pk(6) by auto
    then show ?thesis using inv queued_priority unfolding R_def core_inv_def by blast
  qed (use nxt i in \<open>auto split: if_splits\<close>)
  define c7 where "c7 = (if prev = nxt then c6
    else if process (tcbs m6 prev) \<noteq> process (tcbs m6 nxt) then c6\<lparr>cr3 := pml4 (process (tcbs m6 nxt))\<rparr> else c6)"
  have run: "schedule pml4 now quantum m c = Some (if prev = nxt then NoSwitch else SwitchTo prev nxt, m6, c7)"
    using pk(1,2) c2(1) r(1) t(1) i(3)
    by (simp add: schedule_def Let_def nxt_def [symmetric] m3_def [symmetric] m5_def [symmetric]
        top_def [symmetric] c5_def [symmetric] c7_def)
  have "queued m6 c7 Q6 []" by (rule queued_upd [OF t(2)]) (auto simp: c7_def)
  moreover have cur: "current_thread c7 = nxt" and "idle_thread c7 = idle_thread c"
    "timer_daemon_tcb c7 = timer_daemon_tcb c"
    using t(5) c5 by (auto simp: c7_def same_rest_def)
  moreover have "idle_thread c \<notin> ready Q6" using t(3) ready4 i(2,6) c5 by (auto simp: T_def split: if_splits)
  moreover have "nxt \<noteq> 0" using nxt pk(6) i by (auto split: if_splits)
  moreover have "priority (tcbs m6 a) = priority (tcbs m a)" for a by (simp add: t(4) p5)
  ultimately have core: "core_inv m6 c7 Q6 []" using pn i by (simp add: core_inv_def)
  have st: "tstate (tcbs m6 nxt) = Running" using nT by (simp add: t(4) m5_def)
  have nin: "nxt \<notin> ready Q6" using t(3) ready4 nT by simp
  have "T \<subseteq> {timer_daemon_tcb c}" by (auto simp: T_def c5)
  with t(3) ready4 have rd: "\<exists>T \<subseteq> {timer_daemon_tcb c}. ready Q6 =
      (R \<union> (if tstate (tcbs m prev) = Running \<and> prev \<noteq> idle_thread c then {prev} else {})) - {nxt} \<union> T"
    by blast
  have pick: "if R = {} then nxt = (if tstate (tcbs m prev) = Running then prev else idle_thread c)
      else nxt \<in> R \<and> (\<forall>a \<in> R. priority (tcbs m nxt) \<le> priority (tcbs m a)) \<and>
           (\<exists>p xs. p < 32 \<and> posted Q m M p = nxt # xs)"
    using nxt pk(6) by (cases "R = {}") simp_all
  show ?thesis
    by (intro exI [of _ m6] exI [of _ c7] exI [of _ Q6] exI [of _ nxt] conjI run core cur st pick nin rd)
qed

definition sample_tcb :: "thread_priority \<Rightarrow> thread_state \<Rightarrow> tcb" where
  "sample_tcb p st = (tcb_init 1 0 4096 16384 0 0 p 0)\<lparr>tstate := st\<rparr>"

definition sample_threads :: threads where
  "sample_threads = \<lparr>tcbs = (\<lambda>a. if a = 8 then sample_tcb IDLE Ready else if a = 16 then sample_tcb MEDIUM Running
                               else sample_tcb HIGH Ready), nx = (\<lambda>_. 0)\<rparr>"

definition sample_sched :: core where
  "sample_sched = (core_new 0)\<lparr>idle_thread := 8, current_thread := 16,
                    mailbox := \<lparr>q_len = 1, q_head = 24, q_tail = 24\<rparr>\<rparr>"

lemma core_new_ready: "nx m = (\<lambda>_. 0) \<Longrightarrow> ready_ok m (core_new i) (\<lambda>_. [])"
  by (simp add: ready_ok_def core_new_def linked_nil)

lemma sample_sched_inv: "core_inv sample_threads sample_sched (\<lambda>_. []) [24]"
proof -
  have "ready_ok sample_threads (core_new 0) (\<lambda>_. [])" by (rule core_new_ready) (simp add: sample_threads_def)
  then have "ready_ok sample_threads sample_sched (\<lambda>_. [])"
    by (subst ready_ok_fields [of _ sample_threads _ "core_new 0"]) (simp_all add: sample_sched_def)
  then show ?thesis
    by (simp add: core_inv_def queued_def qrep_def linked_def sample_sched_def core_new_def sample_threads_def
        ready_def sample_tcb_def tcb_init_def IDLE_def MEDIUM_def HIGH_def)
qed

theorem schedule_correct_witness:
  "core_inv sample_threads sample_sched (\<lambda>_. []) [24] \<and>
   (\<exists>m' c'. schedule (\<lambda>_. 0) 5 10 sample_threads sample_sched = Some (SwitchTo 16 24, m', c') \<and>
      current_thread c' = 24 \<and> tstate (tcbs m' 24) = Running)"
proof -
  have "current_thread sample_sched = 16" "ready (\<lambda>_. []) \<union> set [24] = {24}"
    by (simp_all add: sample_sched_def ready_def)
  with schedule_correct [OF sample_sched_inv, of "\<lambda>_. 0" 5 10] sample_sched_inv show ?thesis by auto
qed

text \<open>
  A user thread's priority is not clamped: any byte of 32 or more is stored as it is, and
  the kernel panics on the queue index when such a thread is first made ready.
\<close>

theorem unclamped_priority_panics:
  assumes "core_inv m c Q M" and "a \<noteq> 0" and "32 \<le> p" and "priority (tcbs m a) = prio_from p"
  shows "unblock m c a = None"
proof -
  have "length (ready_queue_tails c) = 32" using assms(1) by (simp add: core_inv_def queued_def ready_ok_def)
  moreover have "32 \<le> unat p" using assms(3) by (simp add: word_le_nat_alt)
  ultimately show ?thesis
    using assms(2,4) by (simp add: unblock_def sched_push_def Let_def prio_from_def idx_def)
qed

theorem unclamped_priority_panics_witness:
  "unblock (sample_threads\<lparr>tcbs := (tcbs sample_threads)(32 := sample_tcb (prio_from 200) Blocked)\<rparr>) sample_sched 32 = None"
proof -
  let ?m = "sample_threads\<lparr>tcbs := (tcbs sample_threads)(32 := sample_tcb (prio_from 200) Blocked)\<rparr>"
  have "core_inv ?m sample_sched (\<lambda>_. []) [24]"
    using sample_sched_inv
    by (simp add: core_inv_def queued_def ready_ok_def sample_sched_def core_new_def sample_threads_def ready_def)
  then show ?thesis
    by (rule unclamped_priority_panics [of _ _ _ _ _ 200]) (simp_all add: sample_tcb_def tcb_init_def)
qed

lemma clamp_prio_value: "uint (clamp_prio x) = max 0 (min 31 x)"
  by (auto simp: clamp_prio_def uint_word_of_int max_def min_def)

text \<open>
  Priority arithmetic saturates: for every operand in the range of \<^verbatim>\<open>i64\<close>, adding to or
  subtracting from a priority gives the exact result limited to the 32 scheduler classes.
\<close>

theorem priority_arith_saturates:
  assumes "- (2 ^ 63) \<le> r" and "r < 2 ^ 63"
  shows "uint (prio_add p r) = max 0 (min 31 (uint p + r)) \<and>
         uint (prio_sub p r) = max 0 (min 31 (uint p - r)) \<and>
         uint (int_sub_prio r p) = max 0 (min 31 (r - uint p))"
proof -
  have "0 \<le> uint p" "uint p < 256" using uint_lt2p [of p] by simp_all
  then show ?thesis
    using assms by (auto simp: prio_add_def prio_sub_def int_sub_prio_def clamp_prio_value i64_sat_def max_def min_def)
qed

theorem priority_arith_saturates_witness:
  "uint (prio_add 30 5) = 31 \<and> uint (prio_sub 3 5) = 0"
  using priority_arith_saturates [of 5 30] priority_arith_saturates [of 5 3] by simp

end
