(* ===== verification/Dispatch.thy ===== *)
theory Dispatch
  imports Scheduler_Inv
begin

text \<open>
  Placing and waking threads across cores: \<^verbatim>\<open>kernel/src/core/thread/dispatch.rs\<close> and the
  wake tokens of \<^verbatim>\<open>core/thread/wait.rs\<close>. A machine is the shared thread memory, the cores
  that have been registered (\<open>None\<close> for a null entry of \<^verbatim>\<open>GLOBAL_CPU_DATA\<close>), and the
  inter-processor interrupts sent.
\<close>

record machine =
  mem :: threads
  cores :: "core option list"
  ipis :: "nat list"

definition MAX_CORES :: nat where
  "MAX_CORES = 256"

definition try_get_core :: "machine \<Rightarrow> nat \<Rightarrow> core option run" where
  "try_get_core s logical_id =
    (if logical_id < MAX_CORES then idx (cores s) logical_id else panic)"

definition get_core :: "machine \<Rightarrow> nat \<Rightarrow> core run" where
  "get_core s logical_id = do { r \<leftarrow> try_get_core s logical_id; r }"

definition core_load :: "core \<Rightarrow> u64" where
  "core_load c = queue_length c + q_len (mailbox c)"

text \<open>The least-loaded search shared by \<^verbatim>\<open>spawn_kernel_thread\<close> and \<^verbatim>\<open>spawn_user_thread\<close>.\<close>

fun best_core_from :: "core option list \<Rightarrow> nat \<Rightarrow> nat \<Rightarrow> u64 \<Rightarrow> nat" where
  "best_core_from [] logical_id best min_load = best"
| "best_core_from (None # cs) logical_id best min_load = best_core_from cs (Suc logical_id) best min_load"
| "best_core_from (Some c # cs) logical_id best min_load =
    (if core_load c < min_load then best_core_from cs (Suc logical_id) logical_id (core_load c)
     else best_core_from cs (Suc logical_id) best min_load)"

definition best_core :: "machine \<Rightarrow> nat" where
  "best_core s = best_core_from (cores s) 0 0 U64_MAX"

definition post_to_mailbox :: "machine \<Rightarrow> nat \<Rightarrow> nat \<Rightarrow> machine run" where
  "post_to_mailbox s target thread =
    do { c \<leftarrow> get_core s target;
         let (nx', mb') = queue_push (nx (mem s)) (mailbox c) thread
         in ret (s\<lparr>mem := (mem s)\<lparr>nx := nx'\<rparr>, cores := (cores s)[target := Some (c\<lparr>mailbox := mb'\<rparr>)]\<rparr>) }"

definition send_ipi_unless :: "bool \<Rightarrow> machine \<Rightarrow> nat \<Rightarrow> machine" where
  "send_ipi_unless here s target = (if here then s else s\<lparr>ipis := target # ipis s\<rparr>)"

text \<open>The common tail of the two spawn functions, for a thread control block just created.\<close>

definition place_thread :: "machine \<Rightarrow> nat \<Rightarrow> nat \<Rightarrow> machine run" where
  "place_thread s this_core tcb_ptr =
    (let b = best_core s;
         s1 = s\<lparr>mem := (mem s)\<lparr>tcbs := (tcbs (mem s))(tcb_ptr := (tcbs (mem s) tcb_ptr)\<lparr>home_core := b\<rparr>)\<rparr>\<rparr>
     in do { s2 \<leftarrow> post_to_mailbox s1 b tcb_ptr; ret (send_ipi_unless (b = this_core) s2 b) })"

definition wake_thread :: "machine \<Rightarrow> nat \<Rightarrow> nat \<Rightarrow> machine run" where
  "wake_thread s this_core thread =
    (let s1 = s\<lparr>mem := set_state (mem s) thread Ready\<rparr>;
         target = home_core (tcbs (mem s1) thread)
     in if this_core = target
        then do { c \<leftarrow> get_core s1 this_core;
                  (m', c') \<leftarrow> sched_push (mem s1) c thread;
                  ret (s1\<lparr>mem := m', cores := (cores s1)[this_core := Some c']\<rparr>) }
        else do { s2 \<leftarrow> post_to_mailbox s1 target thread; ret (send_ipi_unless False s2 target) })"

section \<open>Load balancing\<close>

lemma best_core_from_spec:
  assumes "\<forall>i < length cs. \<forall>c. cs ! i = Some c \<longrightarrow> core_load c < U64_MAX"
  shows "(\<forall>i < length cs. \<forall>c. cs ! i = Some c \<longrightarrow> min_load \<le> core_load c) \<and>
           best_core_from cs k best min_load = best \<or>
         (\<exists>j c. j < length cs \<and> best_core_from cs k best min_load = k + j \<and> cs ! j = Some c \<and>
            core_load c < min_load \<and> (\<forall>i < length cs. \<forall>d. cs ! i = Some d \<longrightarrow> core_load c \<le> core_load d) \<and>
            (\<forall>i < j. \<forall>d. cs ! i = Some d \<longrightarrow> core_load c < core_load d))"
  using assms
proof (induction cs arbitrary: k best min_load)
  case Nil
  then show ?case by simp
next
  case (Cons x cs)
  have tl: "\<forall>i < length cs. \<forall>c. cs ! i = Some c \<longrightarrow> core_load c < U64_MAX"
    using Cons.prems by (metis Suc_less_eq length_Cons nth_Cons_Suc)
  let ?new = "if x \<noteq> None \<and> core_load (the x) < min_load then (k, core_load (the x)) else (best, min_load)"
  have step: "best_core_from (x # cs) k best min_load = best_core_from cs (Suc k) (fst ?new) (snd ?new)"
    by (cases x) auto
  have hd: "x = Some c \<Longrightarrow> snd ?new \<le> core_load c" for c by auto
  show ?case
    using Cons.IH [OF tl, of "snd ?new" "Suc k" "fst ?new"]
  proof (elim disjE exE conjE)
    assume all: "\<forall>i < length cs. \<forall>c. cs ! i = Some c \<longrightarrow> snd ?new \<le> core_load c"
      and b: "best_core_from cs (Suc k) (fst ?new) (snd ?new) = fst ?new"
    have all': "\<forall>i < length (x # cs). \<forall>c. (x # cs) ! i = Some c \<longrightarrow> snd ?new \<le> core_load c"
      using all hd by (auto simp: nth_Cons split: nat.splits)
    show ?case
    proof (cases "x \<noteq> None \<and> core_load (the x) < min_load")
      case True
      then obtain c where c: "x = Some c" "core_load c < min_load" by auto
      then have "j = 0 \<Longrightarrow> (x # cs) ! j = Some c" for j by simp
      with c all' step b show ?thesis by (intro disjI2 exI [of _ 0] exI [of _ c]) simp
    next
      case False
      then have nw: "?new = (best, min_load)" by auto
      show ?thesis using all' step b unfolding nw by (intro disjI1) simp
    qed
  next
    fix j c
    assume j: "j < length cs" and b: "best_core_from cs (Suc k) (fst ?new) (snd ?new) = Suc k + j"
      and c: "cs ! j = Some c" "core_load c < snd ?new"
      and all: "\<forall>i < length cs. \<forall>d. cs ! i = Some d \<longrightarrow> core_load c \<le> core_load d"
      and low: "\<forall>i < j. \<forall>d. cs ! i = Some d \<longrightarrow> core_load c < core_load d"
    have h: "core_load c < core_load d" if "x = Some d" for d using hd [OF that] c(2) by simp
    have "core_load c < min_load" using c(2) by (auto split: if_splits)
    moreover have "\<forall>i < length (x # cs). \<forall>d. (x # cs) ! i = Some d \<longrightarrow> core_load c \<le> core_load d"
      using all h by (force simp: nth_Cons split: nat.splits)
    moreover have "\<forall>i < Suc j. \<forall>d. (x # cs) ! i = Some d \<longrightarrow> core_load c < core_load d"
      using low h by (auto simp: nth_Cons split: nat.splits)
    ultimately show ?case using j b c step by (intro disjI2 exI [of _ "Suc j"] exI [of _ c]) simp
  qed
qed

text \<open>
  A new thread is placed on the least-loaded registered core, the first one among equals,
  with its home core set to it, at the end of that core's mailbox, and an interrupt is sent
  to the core exactly when it is not the current one.
\<close>

theorem place_thread_least_loaded:
  assumes "length (cores s) \<le> MAX_CORES" and "i < length (cores s)" and "cores s ! i = Some d"
    and "\<forall>i < length (cores s). \<forall>c. cores s ! i = Some c \<longrightarrow> core_load c < U64_MAX"
    and "\<forall>i < length (cores s). \<forall>c. cores s ! i = Some c \<longrightarrow> (\<exists>M. qrep (nx (mem s)) (mailbox c) M \<and> t \<notin> set M)"
    and "t \<noteq> 0"
  shows "\<exists>b c M s'. place_thread s this t = Some s' \<and> b < length (cores s) \<and> cores s ! b = Some c \<and>
           (\<forall>j < length (cores s). \<forall>d. cores s ! j = Some d \<longrightarrow> core_load c \<le> core_load d) \<and>
           home_core (tcbs (mem s') t) = b \<and> qrep (nx (mem s)) (mailbox c) M \<and>
           (\<exists>c'. cores s' ! b = Some c' \<and> qrep (nx (mem s')) (mailbox c') (M @ [t])) \<and>
           (\<forall>j. j \<noteq> b \<longrightarrow> cores s' ! j = cores s ! j) \<and>
           ipis s' = (if b = this then ipis s else b # ipis s)"
proof -
  have "\<not> (\<forall>i < length (cores s). \<forall>c. cores s ! i = Some c \<longrightarrow> U64_MAX \<le> core_load c)"
    using assms(2-4) by (meson not_le)
  then obtain b c where b: "b < length (cores s)" "best_core s = b" "cores s ! b = Some c"
    "\<forall>j < length (cores s). \<forall>d. cores s ! j = Some d \<longrightarrow> core_load c \<le> core_load d"
    using best_core_from_spec [OF assms(4), of U64_MAX 0 0] unfolding best_core_def by auto
  obtain M where M: "qrep (nx (mem s)) (mailbox c) M" "t \<notin> set M" using assms(5) b(1,3) by blast
  have "qrep (fst (queue_push (nx (mem s)) (mailbox c) t)) (snd (queue_push (nx (mem s)) (mailbox c) t)) (M @ [t])"
    using M assms(6) by (intro qrep_push)
  moreover have "b < MAX_CORES" using b(1) assms(1) by simp
  ultimately show ?thesis
    using b M(1) by (intro exI [of _ b] exI [of _ c] exI [of _ M])
      (auto simp: place_thread_def post_to_mailbox_def get_core_def try_get_core_def idx_in_range Let_def
        case_prod_beta send_ipi_unless_def)
qed

theorem place_thread_least_loaded_witness:
  "\<exists>b s'. place_thread \<lparr>mem = sample_threads, cores = [Some sample_sched, None, Some (core_new 2)], ipis = []\<rparr> 0 40 = Some s' \<and>
     home_core (tcbs (mem s') 40) = b \<and> b \<in> {0, 2}"
proof -
  let ?s = "\<lparr>mem = sample_threads, cores = [Some sample_sched, None, Some (core_new 2)], ipis = []\<rparr>"
  have all: "P (cores ?s ! i)" if "P (Some sample_sched)" "P None" "P (Some (core_new 2))" "i < length (cores ?s)" for P i
    using that by (auto simp: less_Suc_eq nth_Cons split: nat.splits)
  have 1: "\<forall>i < length (cores ?s). \<forall>c. cores ?s ! i = Some c \<longrightarrow> core_load c < U64_MAX"
    by (intro allI impI) (drule all [rotated 3, of _ "\<lambda>x. \<forall>c. x = Some c \<longrightarrow> core_load c < U64_MAX"],
        auto simp: core_load_def sample_sched_def core_new_def queue_new_def U64_MAX_def)
  have "qrep (nx sample_threads) (mailbox sample_sched) [24]"
    using sample_sched_inv by (simp add: core_inv_def queued_def)
  moreover have "qrep (nx sample_threads) (mailbox (core_new 2)) []" by (simp add: core_new_def qrep_new)
  ultimately have 2: "\<forall>i < length (cores ?s). \<forall>c. cores ?s ! i = Some c \<longrightarrow>
      (\<exists>M. qrep (nx (mem ?s)) (mailbox c) M \<and> 40 \<notin> set M)"
    by (auto simp: less_Suc_eq nth_Cons split: nat.splits)
  have "length (cores ?s) \<le> MAX_CORES" "0 < length (cores ?s)" "cores ?s ! 0 = Some sample_sched"
    by (simp_all add: MAX_CORES_def)
  from place_thread_least_loaded [OF this 1 2, of 0]
  obtain b c s' where r: "place_thread ?s 0 40 = Some s'" "b < length (cores ?s)" "cores ?s ! b = Some c"
    "home_core (tcbs (mem s') 40) = b" by auto
  then have "b \<noteq> 1" "b < 3" by auto
  then have "b \<in> {0, 2}" by auto
  with r show ?thesis by blast
qed

section \<open>Waking\<close>

text \<open>A woken thread ends up ready: in its home core's ready queue when that is the current core,
  at the end of the home core's mailbox otherwise.\<close>

lemma wake_thread_local:
  assumes "this < length (cores s)" and "this < MAX_CORES" and "cores s ! this = Some c"
    and "queued (mem s) c Q []" and "t \<noteq> 0" and "t \<notin> ready Q" and "unat (priority (tcbs (mem s) t)) < 32"
    and "home_core (tcbs (mem s) t) = this"
  shows "\<exists>s' c' Q'. wake_thread s this t = Some s' \<and> cores s' ! this = Some c' \<and> queued (mem s') c' Q' [] \<and>
           ready Q' = insert t (ready Q) \<and> ipis s' = ipis s"
proof -
  have q: "queued (set_state (mem s) t Ready) c Q []"
    by (rule queued_upd [OF assms(4)]) (use assms(6) in auto)
  have p: "unat (priority (tcbs (set_state (mem s) t Ready) t)) < 32"
    "tstate (tcbs (set_state (mem s) t Ready) t) = Ready"
    using assms(7) by simp_all
  obtain m' c' Q' where "sched_push (set_state (mem s) t Ready) c t = Some (m', c')" "queued m' c' Q' []"
    "ready Q' = insert t (ready Q)"
    by (rule queued_push [OF q assms(5,6) p]) (rule that)
  moreover have "home_core (tcbs (set_state (mem s) t Ready) t) = this" using assms(8) by (simp add: set_state_def)
  ultimately show ?thesis
    using assms(1-3) by (auto simp: wake_thread_def Let_def get_core_def try_get_core_def idx_in_range)
qed

lemma wake_thread_remote:
  assumes "h < length (cores s)" and "h < MAX_CORES" and "cores s ! h = Some c" and "h \<noteq> this"
    and "qrep (nx (mem s)) (mailbox c) M" and "t \<noteq> 0" and "t \<notin> set M" and "home_core (tcbs (mem s) t) = h"
  shows "\<exists>s' c'. wake_thread s this t = Some s' \<and> cores s' ! h = Some c' \<and> qrep (nx (mem s')) (mailbox c') (M @ [t]) \<and>
           tstate (tcbs (mem s') t) = Ready \<and> ipis s' = h # ipis s"
proof -
  have "home_core (tcbs (set_state (mem s) t Ready) t) = h" using assms(8) by (simp add: set_state_def)
  then show ?thesis
    using assms(1-4) qrep_push [OF assms(5-7)]
    by (auto simp: wake_thread_def Let_def post_to_mailbox_def get_core_def try_get_core_def idx_in_range
        case_prod_beta send_ipi_unless_def)
qed

record wake_token =
  fired :: bool
  wt_thread :: nat

text \<open>\<^verbatim>\<open>MultiWakeQueue::wake_all\<close>: each token is fired once, and only its first firing wakes.\<close>

fun wake_all :: "(nat \<Rightarrow> 's \<Rightarrow> 's run) \<Rightarrow> nat list \<Rightarrow> (nat \<Rightarrow> wake_token) \<Rightarrow> 's \<Rightarrow> ((nat \<Rightarrow> wake_token) \<times> 's) run" where
  "wake_all wake [] tok s = ret (tok, s)"
| "wake_all wake (t # ts) tok s =
    (if \<not> fired (tok t)
     then do { s' \<leftarrow> wake (wt_thread (tok t)) s;
               wake_all wake ts (tok(t := (tok t)\<lparr>fired := True\<rparr>)) s' }
     else wake_all wake ts tok s)"

definition mwq_remove :: "nat list \<Rightarrow> nat \<Rightarrow> nat list" where
  "mwq_remove tokens token = filter (\<lambda>x. x \<noteq> token) tokens"

fun wake_list :: "(nat \<Rightarrow> 's \<Rightarrow> 's run) \<Rightarrow> nat list \<Rightarrow> 's \<Rightarrow> 's run" where
  "wake_list wake [] s = ret s"
| "wake_list wake (t # ts) s = do { s' \<leftarrow> wake t s; wake_list wake ts s' }"

lemma wake_all_once:
  assumes "distinct ts"
  shows "wake_all wake ts tok s =
    do { s' \<leftarrow> wake_list wake (map (\<lambda>t. wt_thread (tok t)) (filter (\<lambda>t. \<not> fired (tok t)) ts)) s;
         ret ((\<lambda>t. if t \<in> set ts then (tok t)\<lparr>fired := True\<rparr> else tok t), s') }"
  using assms
proof (induction ts arbitrary: tok s)
  case (Cons t ts)
  let ?tok = "tok(t := (tok t)\<lparr>fired := True\<rparr>)"
  have m1: "map (\<lambda>u. wt_thread (?tok u)) (filter (\<lambda>u. \<not> fired (?tok u)) ts) =
      map (\<lambda>u. wt_thread (tok u)) (filter (\<lambda>u. \<not> fired (tok u)) ts)"
    using Cons.prems by (auto intro!: map_cong filter_cong)
  have m2: "(\<lambda>u. if u \<in> set ts then (?tok u)\<lparr>fired := True\<rparr> else ?tok u) =
      (\<lambda>u. if u \<in> set (t # ts) then (tok u)\<lparr>fired := True\<rparr> else tok u)"
    using Cons.prems by (auto simp: fun_eq_iff)
  have m3: "(\<lambda>u. if u \<in> set ts then (tok u)\<lparr>fired := True\<rparr> else tok u) =
      (\<lambda>u. if u \<in> set (t # ts) then (tok u)\<lparr>fired := True\<rparr> else tok u)" if "fired (tok t)"
    using that by (auto simp: fun_eq_iff)
  have d: "distinct ts" using Cons.prems by simp
  show ?case
  proof (cases "fired (tok t)")
    case True
    then show ?thesis using Cons.IH [OF d, of tok s] m3 [OF True] by simp
  next
    case False
    have "wake_all wake ts ?tok s' = do { s'' \<leftarrow> wake_list wake (map (\<lambda>u. wt_thread (tok u)) (filter (\<lambda>u. \<not> fired (tok u)) ts)) s';
        ret ((\<lambda>u. if u \<in> set (t # ts) then (tok u)\<lparr>fired := True\<rparr> else tok u), s'') }" for s'
      unfolding Cons.IH [OF d, of ?tok s'] m1 m2 by (rule refl)
    then have eq: "wake_all wake ts ?tok = (\<lambda>s'. do { s'' \<leftarrow> wake_list wake (map (\<lambda>u. wt_thread (tok u)) (filter (\<lambda>u. \<not> fired (tok u)) ts)) s';
        ret ((\<lambda>u. if u \<in> set (t # ts) then (tok u)\<lparr>fired := True\<rparr> else tok u), s'') })" by (rule ext)
    show ?thesis using False by (simp add: eq)
  qed
qed simp

end
