(* ===== verification/Clock.thy ===== *)
theory Clock
  imports Scheduler_Inv "HOL-Library.Signed_Division"
begin

text \<open>
  Time: the conversions of \<^verbatim>\<open>core/time/clock.rs\<close> and the timer daemon of \<^verbatim>\<open>core/time/callout.rs\<close>. The
  frequency of the time source, of the local timer and the readings of the time source are
  arguments.
\<close>

section \<open>Conversions\<close>

definition ns_to_ticks :: "u64 \<Rightarrow> u64 \<Rightarrow> u64" where
  "ns_to_ticks time_src_fq ns = of_nat (unat ns * unat time_src_fq div 1000000000)"

definition get_realtime :: "64 word \<Rightarrow> 64 word \<Rightarrow> u64 \<Rightarrow> u64 \<Rightarrow> 64 word run" where
  "get_realtime boot_rtc boot_time fq now =
    (let d = sint (now - boot_time) in
     if fq = 0 \<or> (d = - (2 ^ 63) \<and> sint fq = - 1) then panic
     else ret (boot_rtc + word_of_int (d sdiv sint fq)))"

text \<open>Arming the timer: a deadline of the time-stamp counter, or a count for the local timer.\<close>

datatype arming = Deadline u64 | Oneshot u32

definition arm_sleep_ns :: "bool \<Rightarrow> u64 \<Rightarrow> u64 \<Rightarrow> u64 \<Rightarrow> u64 \<Rightarrow> arming" where
  "arm_sleep_ns use_deadline time_src_fq lapic_fq tsc ns =
    (if use_deadline then Deadline (tsc + ns * time_src_fq div 1000000000)
     else Oneshot (ucast (ns * lapic_fq div 1000000000)))"

definition arm_sleep_ticks :: "bool \<Rightarrow> u64 \<Rightarrow> u64 \<Rightarrow> u64 \<Rightarrow> u64 \<Rightarrow> arming run" where
  "arm_sleep_ticks use_deadline time_src_fq lapic_fq tsc ticks =
    (if use_deadline then ret (Deadline (tsc + ticks))
     else if time_src_fq = 0 then panic
     else ret (Oneshot (of_nat (max 1 (unat ticks * unat lapic_fq div unat time_src_fq)))))"

definition sleep_ns ::
  "(nat \<Rightarrow> u64) \<Rightarrow> u64 \<Rightarrow> u64 \<Rightarrow> u64 \<Rightarrow> threads \<Rightarrow> core \<Rightarrow> u64 \<Rightarrow> (switch \<times> threads \<times> core) run" where
  "sleep_ns pml4 fq now quantum m c ns = sleep_until pml4 now quantum m c (now + ns_to_ticks fq ns)"

section \<open>The timer daemon\<close>

text \<open>
  One round of the daemon: expired callouts are popped and their threads made ready until the
  earliest one lies in the future; then the daemon blocks. \<open>clk k\<close> is the time read in the
  \<open>k\<close>-th iteration.
\<close>

fun expire_callouts :: "(nat \<Rightarrow> u64) \<Rightarrow> nat \<Rightarrow> (u64 \<times> nat) list \<Rightarrow> threads \<Rightarrow> core \<Rightarrow> (threads \<times> core) run" where
  "expire_callouts clk k [] m c = ret (m, c\<lparr>callout_queue := []\<rparr>)"
| "expire_callouts clk k ((w, t) # q) m c =
    (if w \<le> clk k
     then do { (m', c') \<leftarrow> sched_push (set_state m t Ready) (c\<lparr>callout_queue := q\<rparr>) t;
               expire_callouts clk (Suc k) q m' c' }
     else ret (m, c\<lparr>callout_queue := (w, t) # q\<rparr>))"

definition timer_daemon_round ::
  "(nat \<Rightarrow> u64) \<Rightarrow> (nat \<Rightarrow> u64) \<Rightarrow> u64 \<Rightarrow> threads \<Rightarrow> core \<Rightarrow> (switch \<times> threads \<times> core) run" where
  "timer_daemon_round clk pml4 quantum m c =
    do { (m1, c1) \<leftarrow> expire_callouts clk 0 (callout_queue c) m c;
         schedule pml4 (clk (length (callout_queue c))) quantum (set_state m1 (current_thread c1) Blocked) c1 }"

section \<open>What a round wakes\<close>

lemma ns_to_ticks_exact:
  assumes "unat ns * unat fq div 1000000000 < 2 ^ 64"
  shows "unat (ns_to_ticks fq ns) = unat ns * unat fq div 1000000000"
  using assms by (simp add: ns_to_ticks_def unsigned_of_nat take_bit_nat_eq_self)

text \<open>The deadline variant multiplies in 64 bits: seven seconds at 3 GHz become less than one.\<close>

lemma arm_sleep_ns_wraps:
  "arm_sleep_ns True 3000000000 0 0 7000000000 = Deadline 2553255926 \<and> unat (ns_to_ticks 3000000000 7000000000) = 21000000000"
  by (simp add: arm_sleep_ns_def ns_to_ticks_def)

lemma arm_sleep_ticks_positive:
  assumes "time_src_fq \<noteq> 0" and "unat ticks * unat lapic_fq div unat time_src_fq < 2 ^ 32"
  shows "\<exists>n. arm_sleep_ticks False time_src_fq lapic_fq tsc ticks = Some (Oneshot n) \<and> 0 < n"
proof -
  let ?n = "max 1 (unat ticks * unat lapic_fq div unat time_src_fq)"
  have "0 < ?n" "?n < 2 ^ 32" using assms(2) by auto
  then have "unat (of_nat ?n :: u32) = ?n" by (simp add: unsigned_of_nat take_bit_nat_eq_self del: max_less_iff_conj)
  then have "(0 :: u32) < of_nat ?n" using \<open>0 < ?n\<close> by (simp only: word_less_nat_alt unat_0)
  then show ?thesis using assms(1) by (simp add: arm_sleep_ticks_def)
qed

text \<open>
  The sleepers of a core: their wake times in order, none of them queued to run.
\<close>

definition sleepers_ok :: "threads \<Rightarrow> (nat \<Rightarrow> nat list) \<Rightarrow> (u64 \<times> nat) list \<Rightarrow> bool" where
  "sleepers_ok m Q q \<longleftrightarrow> sorted (map fst q) \<and> distinct (map snd q) \<and>
     (\<forall>t \<in> snd ` set q. t \<noteq> 0 \<and> t \<notin> ready Q \<and> unat (priority (tcbs m t)) < 32)"

lemma callout_push_sorted: "sorted (map fst q) \<Longrightarrow> sorted (map fst (callout_push q x))"
  by (simp add: callout_push_def sorted_insort_key)

lemma expire_callouts_law:
  assumes "queued m c Q []" and "sleepers_ok m Q q" and "\<forall>i j. i \<le> j \<longrightarrow> clk i \<le> clk j"
  shows "\<exists>n m' c' Q'. expire_callouts clk k q m c = Some (m', c') \<and> n \<le> length q \<and>
     callout_queue c' = drop n q \<and> queued m' c' Q' [] \<and> ready Q' = ready Q \<union> snd ` set (take n q) \<and>
     (\<forall>(w, t) \<in> set (take n q). w \<le> clk (k + length q) \<and> tstate (tcbs m' t) = Ready) \<and>
     (\<forall>(w, t) \<in> set (drop n q). clk k < w) \<and>
     (\<forall>t. t \<notin> snd ` set (take n q) \<longrightarrow> tcbs m' t = tcbs m t) \<and> current_thread c' = current_thread c"
  using assms
proof (induction clk k q m c arbitrary: Q rule: expire_callouts.induct)
  case (1 clk k m c)
  then show ?case using queued_upd [of m c Q m "c\<lparr>callout_queue := []\<rparr>"] by auto
next
  case (2 clk k w t q m c)
  show ?case
  proof (cases "w \<le> clk k")
    case False
    then have "\<forall>(w', t') \<in> set ((w, t) # q). clk k < w'" using 2(3) by (auto simp: sleepers_ok_def)
    then show ?thesis
      using False 2(2) queued_upd [of m c Q m "c\<lparr>callout_queue := (w, t) # q\<rparr>"] by (auto intro!: exI [of _ 0])
  next
    case True
    let ?m = "set_state m t Ready" and ?c = "c\<lparr>callout_queue := q\<rparr>"
    have t: "t \<noteq> 0" "t \<notin> ready Q" "unat (priority (tcbs m t)) < 32" "t \<notin> snd ` set q"
      using 2(3) by (auto simp: sleepers_ok_def)
    have q1: "queued ?m ?c Q []" by (rule queued_upd [OF 2(2)]) (use t(2) in auto)
    obtain m1 c1 Q1 where p: "sched_push ?m ?c t = Some (m1, c1)" "queued m1 c1 Q1 []" "ready Q1 = insert t (ready Q)"
      "tcbs m1 = tcbs ?m" "same_rest ?c c1"
      by (rule queued_push [OF q1, of t]) (use t in auto)
    have s1: "sleepers_ok m1 Q1 q" using 2(3) p(3,4) t(4) by (auto simp: sleepers_ok_def image_iff)
    obtain n m' c' Q' where r: "expire_callouts clk (Suc k) q m1 c1 = Some (m', c')" "n \<le> length q"
      "callout_queue c' = drop n q" "queued m' c' Q' []" "ready Q' = ready Q1 \<union> snd ` set (take n q)"
      "\<forall>(w, t) \<in> set (take n q). w \<le> clk (Suc k + length q) \<and> tstate (tcbs m' t) = Ready"
      "\<forall>(w, t) \<in> set (drop n q). clk (Suc k) < w"
      "\<forall>t. t \<notin> snd ` set (take n q) \<longrightarrow> tcbs m' t = tcbs m1 t" "current_thread c' = current_thread c1"
      using 2(1) [OF True p(1) refl p(2) s1 2(4)] by blast
    have nt: "t \<notin> snd ` set (take n q)" using t(4) set_take_subset [of n q] by auto
    have mono: "clk k \<le> clk (Suc k)" "w \<le> clk (Suc k + length q)" using 2(4) True
      by (auto intro: order_trans)
    have "\<forall>(w', t') \<in> set (drop n q). clk k < w'" using r(7) mono(1) by (auto intro: le_less_trans)
    moreover have "tstate (tcbs m' t) = Ready" using r(8) nt p(4) by simp
    moreover have "tcbs m' b = tcbs m b" if "b \<notin> snd ` set (take (Suc n) ((w, t) # q))" for b
      using r(8) p(4) that by (simp add: set_state_def)
    moreover have "current_thread c' = current_thread c" using r(9) p(5) by (simp add: same_rest_def)
    ultimately show ?thesis using True p(1,3) r mono(2)
      by (intro exI [of _ "Suc n"] exI [of _ m'] exI [of _ c'] exI [of _ Q']) auto
  qed
qed

text \<open>
  Sleepers wake in time. A round of the timer daemon never panics; it makes ready exactly the
  sleepers of a prefix of the callout queue, all of whose wake times have passed by the end of
  the round, in wake-time order; every sleeper left behind had not expired when the round
  began; and no other thread changes.
\<close>

theorem timer_round_wakes_expired:
  assumes "queued m c Q []" and "sleepers_ok m Q (callout_queue c)" and "\<forall>i j. i \<le> j \<longrightarrow> clk i \<le> clk j"
  shows "\<exists>n m' c' Q'. expire_callouts clk 0 (callout_queue c) m c = Some (m', c') \<and>
     callout_queue c' = drop n (callout_queue c) \<and> queued m' c' Q' [] \<and>
     ready Q' = ready Q \<union> snd ` set (take n (callout_queue c)) \<and>
     (\<forall>(w, t) \<in> set (take n (callout_queue c)). w \<le> clk (length (callout_queue c)) \<and> tstate (tcbs m' t) = Ready) \<and>
     (\<forall>(w, t) \<in> set (callout_queue c'). clk 0 < w) \<and>
     (\<forall>t. t \<notin> snd ` set (take n (callout_queue c)) \<longrightarrow> tcbs m' t = tcbs m t)"
proof -
  obtain n m' c' Q' where "expire_callouts clk 0 (callout_queue c) m c = Some (m', c')"
    "callout_queue c' = drop n (callout_queue c)" "queued m' c' Q' []"
    "ready Q' = ready Q \<union> snd ` set (take n (callout_queue c))"
    "\<forall>(w, t) \<in> set (take n (callout_queue c)). w \<le> clk (0 + length (callout_queue c)) \<and> tstate (tcbs m' t) = Ready"
    "\<forall>(w, t) \<in> set (drop n (callout_queue c)). clk 0 < w"
    "\<forall>t. t \<notin> snd ` set (take n (callout_queue c)) \<longrightarrow> tcbs m' t = tcbs m t"
    using expire_callouts_law [OF assms, of 0] by blast
  then show ?thesis by (intro exI [of _ n] exI [of _ m'] exI [of _ c'] exI [of _ Q']) simp
qed

text \<open>Witness: two of three sleepers of an otherwise idle core have expired.\<close>

lemma sample_sleepers: "queued sample_threads ((core_new 0)\<lparr>callout_queue := q\<rparr>) (\<lambda>_. []) []"
proof -
  have "ready_ok sample_threads (core_new 0) (\<lambda>_. [])" by (rule core_new_ready) (simp add: sample_threads_def)
  then have "queued sample_threads (core_new 0) (\<lambda>_. []) []"
    by (simp add: queued_def core_new_def qrep_new ready_def)
  then show ?thesis by (rule queued_upd) simp_all
qed

theorem timer_round_wakes_expired_witness:
  "\<exists>n m' c' Q'. expire_callouts (\<lambda>k. 100) 0 [(40, 24), (90, 32), (110, 48)] sample_threads
       ((core_new 0)\<lparr>callout_queue := [(40, 24), (90, 32), (110, 48)]\<rparr>) = Some (m', c') \<and>
     callout_queue c' = drop n [(40, 24), (90, 32), (110, 48)] \<and> ready Q' = snd ` set (take n [(40 :: u64, 24), (90, 32), (110, 48)])"
proof -
  let ?q = "[(40, 24), (90, 32), (110, 48)]" and ?c = "(core_new 0)\<lparr>callout_queue := [(40, 24), (90, 32), (110, 48)]\<rparr>"
  have "sleepers_ok sample_threads (\<lambda>_. []) (callout_queue ?c)"
    by (simp add: sleepers_ok_def ready_def sample_threads_def sample_tcb_def tcb_init_def HIGH_def)
  from timer_round_wakes_expired [OF sample_sleepers this, of "\<lambda>_. 100"] show ?thesis
    by (auto simp: ready_def)
qed

end
