(* ===== verification/Objects.thy ===== *)
theory Objects
  imports Vmm Mempool Directory Dispatch Clock
begin

text \<open>
  The handlers of the memory, file, clock, thread and process objects
  (\<^verbatim>\<open>core/object/models/vmo.rs\<close>, \<^verbatim>\<open>mempool.rs\<close>, \<^verbatim>\<open>memman.rs\<close>, \<^verbatim>\<open>file.rs\<close>, \<^verbatim>\<open>framebuffer.rs\<close>, \<^verbatim>\<open>clock.rs\<close>,
  \<^verbatim>\<open>thread.rs\<close>, \<^verbatim>\<open>process.rs\<close>). Objects are named by numbers; the state is what the calling process
  sees of memory objects, pools, its address space and its handles. A current process is taken to
  exist.
\<close>

section \<open>Memory objects, pools and the memory manager\<close>

record msys =
  ms_handles :: "kobj handle_table"
  ms_mem :: umem
  ms_vmos :: "nat \<Rightarrow> vmo"
  ms_frames :: "nat \<Rightarrow> u8 list"
  ms_pools :: pools
  ms_nvmo :: nat
  ms_npool :: nat
  ms_vmm :: vmm
  ms_tables :: tables
  ms_core :: core_alloc

definition add_handle :: "kobj \<Rightarrow> access_rights \<Rightarrow> msys \<Rightarrow> (invocation_error + u64) \<times> msys" where
  "add_handle ob rs w = (case ht_insert (ms_handles w) ob rs of (h, t) \<Rightarrow> (Inr h, w\<lparr>ms_handles := t\<rparr>))"

definition add_vmo :: "vmo \<Rightarrow> access_rights \<Rightarrow> msys \<Rightarrow> (invocation_error + u64) \<times> msys" where
  "add_vmo v rs w = add_handle (KVmo (ms_nvmo w)) rs (w\<lparr>ms_vmos := (ms_vmos w)(ms_nvmo w := v), ms_nvmo := Suc (ms_nvmo w)\<rparr>)"

fun vmo_invoke :: "nat \<Rightarrow> invocation \<Rightarrow> msys \<Rightarrow> ((invocation_error + u64) \<times> msys) run" where
  "vmo_invoke i (VmoInv (GetPage off)) w =
    do { (r, v, c) \<leftarrow> request_page core_page_alloc (ms_vmos w i) (ms_core w) off;
         ret (case r of Inl _ \<Rightarrow> Inl InvalidArgument | Inr a \<Rightarrow> Inr (of_nat a), w\<lparr>ms_vmos := (ms_vmos w)(i := v), ms_core := c\<rparr>) }"
| "vmo_invoke i (VmoInv (Resize new_size)) w =
    do { (r, v, c) \<leftarrow> resize_object core_page_free (ms_vmos w i) (ms_core w) new_size;
         ret (case r of Inl _ \<Rightarrow> Inl UnsupportedOperation | Inr _ \<Rightarrow> Inr 0, w\<lparr>ms_vmos := (ms_vmos w)(i := v), ms_core := c\<rparr>) }"
| "vmo_invoke i (VmoInv (CloneVmo off len)) w =
    do { (r, fr, c) \<leftarrow> clone_range core_page_alloc (ms_vmos w i) (ms_frames w) (ms_core w) off len;
         let w1 = w\<lparr>ms_frames := fr, ms_core := c\<rparr>
         in ret (case r of Inl _ \<Rightarrow> (Inl InvalidArgument, w1) | Inr child \<Rightarrow> add_vmo child flags_all w1) }"
| "vmo_invoke i (VmoInv (MapIntoProc vaddr len vm_flags)) w =
    (case (if vaddr = 0 then mmap_vmo (regions (ms_vmm w)) len vm_flags i else mmap_vmo_at (regions (ms_vmm w)) vaddr len vm_flags i) of
       (r, vs) \<Rightarrow> ret (case r of None \<Rightarrow> Inl OutOfMemory | Some a \<Rightarrow> Inr a, w\<lparr>ms_vmm := (ms_vmm w)\<lparr>regions := vs\<rparr>\<rparr>))"
| "vmo_invoke i _ w = ret (Inl UnsupportedOperation, w)"

fun pool_invoke :: "nat list \<Rightarrow> invocation \<Rightarrow> access_rights \<Rightarrow> msys \<Rightarrow> (invocation_error + u64) \<times> msys" where
  "pool_invoke pth (MemPoolInv (AllocateVmo sz)) calling w =
    (if \<not> flags_contains calling WRITE then (Inl AccessDenied, w)
     else case try_allocate pth sz (ms_pools w) of
            (Inl e, ps) \<Rightarrow> (Inl e, w\<lparr>ms_pools := ps\<rparr>)
          | (Inr _, ps) \<Rightarrow> add_vmo (vmo_new sz) (READ OR WRITE OR MUTATE) (w\<lparr>ms_pools := ps\<rparr>))"
| "pool_invoke pth (MemPoolInv (CreateSubPool lim)) calling w =
    (if \<not> flags_contains calling WRITE then (Inl AccessDenied, w)
     else add_handle (KPool (ms_npool w # pth)) (READ OR WRITE OR CREATE)
            (w\<lparr>ms_pools := pool_new (ms_npool w) (Some lim) (ms_pools w), ms_npool := Suc (ms_npool w)\<rparr>))"
| "pool_invoke pth _ calling w = (Inl UnsupportedOperation, w)"

fun memman_invoke :: "invocation \<Rightarrow> access_rights \<Rightarrow> msys \<Rightarrow> (invocation_error + u64) \<times> msys" where
  "memman_invoke (MemoryManager (CreatePool lim)) calling w =
    (if \<not> flags_contains calling CREATE then (Inl AccessDenied, w)
     else add_handle (KPool [ms_npool w]) (READ OR WRITE OR CREATE)
            (w\<lparr>ms_pools := pool_new (ms_npool w) (if lim = 0 then None else Some lim) (ms_pools w), ms_npool := Suc (ms_npool w)\<rparr>))"
| "memman_invoke _ calling w = (Inl UnsupportedOperation, w)"

section \<open>Files in memory, the framebuffer and the clock\<close>

record file_obj =
  fo_addr :: u64
  fo_size :: u64

definition copy_out :: "umem \<Rightarrow> u64 \<Rightarrow> u8 list \<Rightarrow> ((invocation_error + u64) \<times> umem) run" where
  "copy_out um buffer_ptr bs =
    do { (okay, um') \<leftarrow> safe_copy_to um buffer_ptr bs; ret (if okay then Inr (of_nat (length bs)) else Inl InvalidPointer, um') }"

definition read_file :: "file_obj \<Rightarrow> u64 \<Rightarrow> u64 \<Rightarrow> u64 \<Rightarrow> umem \<Rightarrow> ((invocation_error + u64) \<times> umem) run" where
  "read_file f offset buffer_ptr req_len um =
    (let read_len = min (fo_size f - offset) req_len
     in if fo_size f \<le> offset \<or> read_len = 0 then ret (Inr 0, um)
        else copy_out um buffer_ptr (bytes_at um (fo_addr f + offset) (unat read_len)))"

fun file_invoke :: "file_obj \<Rightarrow> invocation \<Rightarrow> umem \<Rightarrow> ((invocation_error + u64) \<times> umem) run" where
  "file_invoke f (FileInv (FileRead offset buffer_ptr len)) um = read_file f offset buffer_ptr len um"
| "file_invoke f (FileInv Stat) um = ret (Inr (fo_size f), um)"
| "file_invoke f _ um = ret (Inl UnsupportedOperation, um)"

text \<open>The framebuffer: \<open>info\<close> is the bytes of its description, \<open>i\<close> the memory object of its pixels.\<close>

fun fb_invoke :: "u8 list \<Rightarrow> nat \<Rightarrow> invocation \<Rightarrow> access_rights \<Rightarrow> msys \<Rightarrow> ((invocation_error + u64) \<times> msys) run" where
  "fb_invoke info i (FileInv (FileRead offset buffer_ptr len)) calling w =
    (if \<not> flags_contains calling READ then ret (Inl AccessDenied, w)
     else if length info \<le> unat offset then ret (Inr 0, w)
     else do { (r, um) \<leftarrow> copy_out (ms_mem w) buffer_ptr (take (min (length info - unat offset) (unat len)) (drop (unat offset) info));
               ret (r, w\<lparr>ms_mem := um\<rparr>) })"
| "fb_invoke info i (VmoInv op) calling w = vmo_invoke i (VmoInv op) w"
| "fb_invoke info i _ calling w = ret (Inl UnsupportedOperation, w)"

fun clock_invoke :: "64 word \<Rightarrow> 64 word \<Rightarrow> u64 \<Rightarrow> u64 \<Rightarrow> invocation \<Rightarrow> (invocation_error + u64) run" where
  "clock_invoke boot_rtc boot_time fq now (ClockInv GetTimestamp) = do { t \<leftarrow> get_realtime boot_rtc boot_time fq now; ret (Inr t) }"
| "clock_invoke boot_rtc boot_time fq now _ = ret (Inl UnsupportedOperation)"

section \<open>Threads\<close>

text \<open>
  Killing a thread of this core calls the scheduler: \<open>resched\<close> is its effect. A thread of another
  core gets an inter-processor interrupt.
\<close>

fun thread_invoke ::
  "(machine \<Rightarrow> machine run) \<Rightarrow> nat \<Rightarrow> nat \<Rightarrow> invocation \<Rightarrow> access_rights \<Rightarrow> iqueue \<Rightarrow> machine \<Rightarrow> ((invocation_error + u64) \<times> iqueue \<times> machine) run" where
  "thread_invoke resched this_core t (ThreadInv KillThread) calling graveyard s =
    (if \<not> flags_contains calling WRITE then ret (Inl AccessDenied, graveyard, s)
     else let m1 = set_state (mem s) t Terminated; home = home_core (tcbs m1 t)
          in case queue_push (nx m1) graveyard t of (nx', g') \<Rightarrow>
               let s1 = s\<lparr>mem := m1\<lparr>nx := nx'\<rparr>\<rparr>
               in if home \<noteq> this_core
                  then do { _ \<leftarrow> get_core s1 home; ret (Inr 0, g', s1\<lparr>ipis := home # ipis s1\<rparr>) }
                  else do { s2 \<leftarrow> resched s1; ret (Inr 0, g', s2) })"
| "thread_invoke resched this_core t (ThreadInv GetID) calling graveyard s =
    ret (if \<not> flags_contains calling READ then Inl AccessDenied else Inr (thread_id (tcbs (mem s) t)), graveyard, s)"
| "thread_invoke resched this_core t _ calling graveyard s = ret (Inl UnsupportedOperation, graveyard, s)"

section \<open>Processes\<close>

record proc_cb =
  pc_id :: u64
  pc_active :: u64
  pc_terminated :: bool

record proc_status =
  ps_pid :: u64
  ps_active_threads :: u64
  ps_is_terminated :: bool
  ps_memory_usage :: u64

text \<open>
  The state is that of the process invoked, whose handle table and address space the operations
  change. \<open>layout\<close> gives the bytes of a status block, whose layout is the compiler's choice; \<open>spawn\<close>
  starts a thread in the calling process; \<open>wait_many\<close> polls the wait items until one is ready.
\<close>

definition proc_status_of :: "proc_cb \<Rightarrow> vmm \<Rightarrow> proc_status" where
  "proc_status_of p vm =
    \<lparr>ps_pid = pc_id p, ps_active_threads = pc_active p, ps_is_terminated = pc_terminated p,
     ps_memory_usage = get_total_allocated_size (regions vm)\<rparr>"

fun process_invoke ::
  "(proc_status \<Rightarrow> u8 list) \<Rightarrow> (u64 \<Rightarrow> u64 \<Rightarrow> msys \<Rightarrow> ((invocation_error + u64) \<times> msys) run) \<Rightarrow> (u64 \<Rightarrow> u64 \<Rightarrow> u64 \<Rightarrow> thread_priority \<Rightarrow> nat run) \<Rightarrow> u64 \<Rightarrow> invocation \<Rightarrow> proc_cb \<Rightarrow> msys \<Rightarrow> ((invocation_error + u64) \<times> proc_cb \<times> msys) run" where
  "process_invoke layout wait_many spawn off (ProcInv KillProc) p w = ret (Inr 0, p\<lparr>pc_terminated := True\<rparr>, w)"
| "process_invoke layout wait_many spawn off (ProcInv (GetStatus status_ptr)) p w =
    do { (_, um) \<leftarrow> safe_copy_to (ms_mem w) status_ptr (layout (proc_status_of p (ms_vmm w)));
         ret (Inr 0, p, w\<lparr>ms_mem := um\<rparr>) }"
| "process_invoke layout wait_many spawn off (ProcInv (Unmap vaddr len)) p w =
    do { (r, vm, tm, c) \<leftarrow> munmap off (ms_vmm w) (ms_tables w, ms_core w) vaddr len;
         ret (case r of Inl _ \<Rightarrow> Inl InvalidArgument | Inr _ \<Rightarrow> Inr 0, p, w\<lparr>ms_vmm := vm, ms_tables := tm, ms_core := c\<rparr>) }"
| "process_invoke layout wait_many spawn off (ProcInv (SpawnThread entry stack_top arg prio)) p w =
    do { t \<leftarrow> spawn entry stack_top arg (prio_from prio);
         case add_handle (KThread t) flags_all w of (r, w1) \<Rightarrow> ret (r, p\<lparr>pc_active := pc_active p + 1\<rparr>, w1) }"
| "process_invoke layout wait_many spawn off (WaitInv (WaitMany items_ptr count)) p w =
    (if count = 0 \<or> 64 < count then ret (Inl InvalidArgument, p, w)
     else do { (r, w1) \<leftarrow> wait_many items_ptr count w; ret (r, p, w1) })"
| "process_invoke layout wait_many spawn off _ p w = ret (Inl UnsupportedOperation, p, w)"

end
