(* ===== verification/Tar.thy ===== *)
theory Tar
  imports Objects
begin

text \<open>
  The ram disk: \<^verbatim>\<open>kernel/src/drivers/tar.rs\<close> and \<^verbatim>\<open>mount_kernel_dir\<close> of \<^verbatim>\<open>core/object/vfs.rs\<close>. The archive is read
  where the boot loader put it: \<open>img\<close> is memory counted from the start of the archive, \<open>sz\<close> its length
  and \<open>base\<close> its address. Headers are read through a raw pointer and may extend past the end, file
  contents are a checked slice. Offsets are natural numbers: an archive is shorter than \<open>2 ^ 63\<close>
  bytes and a size field is below \<open>2 ^ 36\<close>, so the machine's sums do not wrap (\<open>tar_step_fits\<close>).
\<close>

section \<open>Fields of a header\<close>

definition tar_name :: "pmem \<Rightarrow> nat \<Rightarrow> u8 list" where
  "tar_name img off = takeWhile (\<lambda>c. c \<noteq> 0) (peek img off 100)"

definition tar_size_text :: "pmem \<Rightarrow> nat \<Rightarrow> u8 list" where
  "tar_size_text img off = takeWhile (\<lambda>c. c \<noteq> 0 \<and> c \<noteq> 32) (peek img (off + 124) 12)"

text \<open>\<^verbatim>\<open>str::trim\<close>: white space of Unicode, by its encodings of one, two and three bytes.\<close>

definition white1 :: "u8 \<Rightarrow> bool" where
  "white1 a \<longleftrightarrow> 9 \<le> a \<and> a \<le> 13 \<or> a = 32"

definition white2 :: "u8 \<Rightarrow> u8 \<Rightarrow> bool" where
  "white2 a b \<longleftrightarrow> a = 0xC2 \<and> (b = 0x85 \<or> b = 0xA0)"

definition white3 :: "u8 \<Rightarrow> u8 \<Rightarrow> u8 \<Rightarrow> bool" where
  "white3 a b c \<longleftrightarrow> a = 0xE1 \<and> b = 0x9A \<and> c = 0x80 \<or> a = 0xE3 \<and> b = 0x80 \<and> c = 0x80 \<or> a = 0xE2 \<and> b = 0x81 \<and> c = 0x9F \<or>
     a = 0xE2 \<and> b = 0x80 \<and> (0x80 \<le> c \<and> c \<le> 0x8A \<or> c = 0xA8 \<or> c = 0xA9 \<or> c = 0xAF)"

fun trim_front :: "(u8 \<Rightarrow> u8 \<Rightarrow> bool) \<Rightarrow> (u8 \<Rightarrow> u8 \<Rightarrow> u8 \<Rightarrow> bool) \<Rightarrow> u8 list \<Rightarrow> u8 list" where
  "trim_front w2 w3 (a # b # c # s) =
    (if white1 a then trim_front w2 w3 (b # c # s) else if w2 a b then trim_front w2 w3 (c # s)
     else if w3 a b c then trim_front w2 w3 s else a # b # c # s)"
| "trim_front w2 w3 [a, b] = (if white1 a then trim_front w2 w3 [b] else if w2 a b then [] else [a, b])"
| "trim_front w2 w3 [a] = (if white1 a then [] else [a])"
| "trim_front w2 w3 [] = []"

definition trim :: "u8 list \<Rightarrow> u8 list" where
  "trim s = rev (trim_front (\<lambda>a b. white2 b a) (\<lambda>a b c. white3 c b a) (rev (trim_front white2 white3 s)))"

text \<open>\<^verbatim>\<open>usize::from_str_radix(_, 8)\<close>: one plus sign may precede the digits.\<close>

definition from_octal :: "u8 list \<Rightarrow> nat option" where
  "from_octal s =
    (let ds = (case s of c # r \<Rightarrow> if c = 43 \<and> r \<noteq> [] then r else s | [] \<Rightarrow> []);
         v = foldl (\<lambda>a d. a * 8 + unat (d - 48)) 0 ds
     in if s = [] \<or> (\<exists>d \<in> set ds. d < 48 \<or> 55 < d) \<or> 2 ^ 64 \<le> v then None else Some v)"

definition tar_fields :: "pmem \<Rightarrow> nat \<Rightarrow> (u8 list \<times> nat) run" where
  "tar_fields img off =
    (let filename = tar_name img off; size_str = tar_size_text img off
     in if \<not> utf8_valid filename \<or> \<not> utf8_valid size_str then panic
        else do { file_size \<leftarrow> from_octal (trim size_str); ret (filename, file_size) })"

definition tar_step :: "nat \<Rightarrow> nat" where
  "tar_step file_size = 512 + unat ((of_nat file_size + 511 :: u64) AND NOT 511)"

definition trim_slashes :: "u8 list \<Rightarrow> u8 list" where
  "trim_slashes s = rev (dropWhile (\<lambda>c. c = SLASH) (rev s))"

text \<open>The parent path and the child name: what is before and after the last slash.\<close>

definition split_last :: "u8 list \<Rightarrow> u8 list \<times> u8 list" where
  "split_last p =
    (let child = rev (takeWhile (\<lambda>c. c \<noteq> SLASH) (rev p))
     in if SLASH \<in> set p then (rev (tl (dropWhile (\<lambda>c. c \<noteq> SLASH) (rev p))), child) else ([], p))"

section \<open>Mounting\<close>

text \<open>
  The boot process's world with the files created so far; \<open>t_ndirs\<close> is the next free directory.
  \<open>other\<close> and \<open>other_link\<close> are the lookup and link handlers of objects that are not directories
  of this kind.
\<close>

record tar_state =
  t_world :: world
  t_files :: "file_obj list"
  t_ndirs :: nat

type_synonym looker = "kobj \<Rightarrow> filename \<Rightarrow> access_rights \<Rightarrow> world \<Rightarrow> (invocation_error + u64) \<times> world"
type_synonym linker = "kobj \<Rightarrow> filename \<Rightarrow> handle_id \<Rightarrow> access_rights \<Rightarrow> world \<Rightarrow> (invocation_error + u64) \<times> world"

definition mount_kernel_dir :: "linker \<Rightarrow> filename \<Rightarrow> handle_id \<Rightarrow> handle_id \<Rightarrow> world \<Rightarrow> world run" where
  "mount_kernel_dir other_link name handle root w =
    (case resolve_entry (handles w) root (required_rights (DirectoryInv (Link 0 0 0))) of
       Inl e \<Rightarrow> panic
     | Inr en \<Rightarrow>
         (case (case object en of
                  KDirectory d \<Rightarrow> if FILENAME_LEN_MAX < of_nat (length name) then (Inl NameTooLong, w) else dir_link d name handle w
                | ob \<Rightarrow> other_link ob name handle (rights en) w) of
            (Inl e, w') \<Rightarrow> panic
          | (Inr _, w') \<Rightarrow> ret w'))"

definition kernel_close :: "handle_id \<Rightarrow> world \<Rightarrow> world" where
  "kernel_close h w = w\<lparr>handles := snd (ht_close (handles w) h)\<rparr>"

definition new_file :: "file_obj \<Rightarrow> tar_state \<Rightarrow> kobj \<times> tar_state" where
  "new_file f st = (KFile (length (t_files st)), st\<lparr>t_files := t_files st @ [f]\<rparr>)"

definition new_directory :: "tar_state \<Rightarrow> kobj \<times> tar_state" where
  "new_directory st = (KDirectory (t_ndirs st),
     st\<lparr>t_ndirs := Suc (t_ndirs st), t_world := (t_world st)\<lparr>dirs := (dirs (t_world st))(t_ndirs st := [])\<rparr>\<rparr>)"

text \<open>A new object gets a handle with all rights, is linked under the parent, and both handles are closed.\<close>

definition mount_object :: "linker \<Rightarrow> handle_id \<Rightarrow> filename \<Rightarrow> kobj \<times> tar_state \<Rightarrow> tar_state run" where
  "mount_object other_link parent name = (\<lambda>(ob, st).
    (case ht_insert (handles (t_world st)) ob flags_all of (h, t) \<Rightarrow>
       do { w1 \<leftarrow> mount_kernel_dir other_link name h parent ((t_world st)\<lparr>handles := t\<rparr>);
            let w2 = (if parent \<noteq> 0 then kernel_close parent w1 else w1)
            in ret (st\<lparr>t_world := kernel_close h w2\<rparr>) }))"

definition tar_entry ::
  "looker \<Rightarrow> linker \<Rightarrow> u64 \<Rightarrow> nat \<Rightarrow> nat \<Rightarrow> u8 \<Rightarrow> u8 list \<Rightarrow> nat \<Rightarrow> tar_state \<Rightarrow> ((invocation_error + unit) \<times> tar_state) run" where
  "tar_entry other other_link base sz off flag p file_size st =
    (let (parent_path, child_name) = split_last p
     in if flag = 0x35 then
          (case kernel_walk other parent_path 0 (t_world st) of
             (Inl e, w) \<Rightarrow> ret (Inl e, st\<lparr>t_world := w\<rparr>)
           | (Inr parent, w) \<Rightarrow>
               do { st' \<leftarrow> mount_object other_link parent child_name (new_directory (st\<lparr>t_world := w\<rparr>)); ret (Inr (), st') })
        else if flag = 0x30 \<or> flag = 0 then
          (case kernel_walk other parent_path 0 (t_world st) of
             (Inl e, w) \<Rightarrow> ret (Inl e, st\<lparr>t_world := w\<rparr>)
           | (Inr parent, w) \<Rightarrow>
               if sz < off + 512 + file_size then panic
               else do { st' \<leftarrow> mount_object other_link parent child_name
                            (new_file \<lparr>fo_addr = base + of_nat (off + 512), fo_size = of_nat file_size\<rparr> (st\<lparr>t_world := w\<rparr>));
                         ret (Inr (), st') })
        else ret (Inl InvalidArgument, st))"

function parse_tar ::
  "looker \<Rightarrow> linker \<Rightarrow> pmem \<Rightarrow> u64 \<Rightarrow> nat \<Rightarrow> nat \<Rightarrow> tar_state \<Rightarrow> ((invocation_error + unit) \<times> tar_state) run" where
  "parse_tar other other_link img base sz off st =
    (if \<not> off < sz \<or> img off = 0 then ret (Inr (), st)
     else case tar_fields img off of
            None \<Rightarrow> panic
          | Some (filename, file_size) \<Rightarrow>
              let p = trim_slashes filename
              in if skipped p then parse_tar other other_link img base sz (off + tar_step file_size) st
                 else case tar_entry other other_link base sz off (img (off + 156)) p file_size st of
                        None \<Rightarrow> panic
                      | Some (Inl e, st') \<Rightarrow> ret (Inl e, st')
                      | Some (Inr _, st') \<Rightarrow> parse_tar other other_link img base sz (off + tar_step file_size) st')"
  by pat_completeness auto
termination
  by (relation "measure (\<lambda>(_, _, _, _, sz, off, _). sz - off)") (auto simp: tar_step_def)


section \<open>Sizes\<close>

lemma octal_bound: "foldl (\<lambda>a d. a * 8 + unat (d - 48 :: u8)) a ds < (a + 1) * 8 ^ length ds"
  if "\<forall>d \<in> set ds. 48 \<le> d \<and> d \<le> 55"
  using that
proof (induction ds arbitrary: a)
  case (Cons d ds)
  have "unat (d - 48) = unat d - 48" using Cons.prems by (simp add: unat_sub)
  then have d: "unat (d - 48) < 8" using Cons.prems by (auto simp: word_le_nat_alt)
  have "foldl (\<lambda>a d. a * 8 + unat (d - 48 :: u8)) (a * 8 + unat (d - 48)) ds < (a * 8 + unat (d - 48) + 1) * 8 ^ length ds"
    using Cons by simp
  also have "\<dots> \<le> (a * 8 + 8) * 8 ^ length ds" using d by (intro mult_right_mono) simp_all
  finally show ?case by (simp add: algebra_simps)
qed simp

lemma length_trim_front: "length (trim_front w2 w3 s) \<le> length s"
  by (induction w2 w3 s rule: trim_front.induct) auto

lemma length_trim: "length (trim s) \<le> length s"
  using length_trim_front [of white2 white3 s] length_trim_front [of _ _ "rev (trim_front white2 white3 s)"]
  unfolding trim_def by (metis length_rev order_trans)

lemma from_octal_bound:
  assumes "from_octal s = Some v" and "length s \<le> 12"
  shows "v < 2 ^ 36"
proof -
  define ds where "ds = (case s of c # r \<Rightarrow> if c = 43 \<and> r \<noteq> [] then r else s | [] \<Rightarrow> [])"
  have l: "length ds \<le> 12" using assms(2) by (auto simp: ds_def split: list.splits)
  have v: "v = foldl (\<lambda>a d. a * 8 + unat (d - 48)) 0 ds" "\<forall>d \<in> set ds. 48 \<le> d \<and> d \<le> 55"
    using assms(1) by (auto simp: from_octal_def Let_def ds_def [symmetric] not_less split: if_splits)
  have "v < 8 ^ length ds" using octal_bound [OF v(2), of 0] v(1) by simp
  also have "\<dots> \<le> 8 ^ 12" using l by (intro power_increasing) simp_all
  finally show ?thesis by simp
qed

lemma tar_step_round:
  assumes "n < 2 ^ 36"
  shows "tar_step n = 512 + round_up 512 n"
proof -
  have n: "unat (of_nat n :: u64) = n" using assms by (simp add: unsigned_of_nat take_bit_nat_eq_self)
  show ?thesis using align_up_word [of 9 "of_nat n"] assms by (simp add: tar_step_def n add.commute)
qed

text \<open>A header moves the offset on by less than \<open>2 ^ 37\<close>, whatever its size field holds.\<close>

lemma tar_step_fits: "tar_fields img off = Some (nm, n) \<Longrightarrow> tar_step n < 2 ^ 37"
proof -
  assume "tar_fields img off = Some (nm, n)"
  then have o: "from_octal (trim (tar_size_text img off)) = Some n" by (auto simp: tar_fields_def Let_def bind_eq_Some_conv split: if_splits)
  have "length (tar_size_text img off) \<le> 12" unfolding tar_size_text_def by (rule order_trans [OF length_takeWhile_le]) simp
  then have "length (trim (tar_size_text img off)) \<le> 12" using length_trim le_trans by blast
  then have n: "n < 2 ^ 36" using from_octal_bound o by blast
  have "round_up 512 n \<le> n + 511" by (simp add: round_up_def)
  then show ?thesis using n by (simp add: tar_step_round)
qed

section \<open>Archives\<close>

text \<open>
  What an archive holds: directories and files by the path of their parent and their name. The
  text of a directory ends with a slash, the size field is eleven octal digits and a zero.
\<close>

datatype tar_item = TarDir "u8 list" "u8 list" | TarFile "u8 list" "u8 list" "u8 list"

fun item_parent :: "tar_item \<Rightarrow> u8 list" where
  "item_parent (TarDir pp nm) = pp"
| "item_parent (TarFile pp nm c) = pp"

fun item_name :: "tar_item \<Rightarrow> u8 list" where
  "item_name (TarDir pp nm) = nm"
| "item_name (TarFile pp nm c) = nm"

fun item_content :: "tar_item \<Rightarrow> u8 list" where
  "item_content (TarDir pp nm) = []"
| "item_content (TarFile pp nm c) = c"

fun item_flag :: "tar_item \<Rightarrow> u8" where
  "item_flag (TarDir pp nm) = 0x35"
| "item_flag (TarFile pp nm c) = 0x30"

definition full_path :: "u8 list \<Rightarrow> u8 list \<Rightarrow> u8 list" where
  "full_path pp nm = (if pp = [] then nm else pp @ SLASH # nm)"

definition item_text :: "tar_item \<Rightarrow> u8 list" where
  "item_text it = full_path (item_parent it) (item_name it) @ (case it of TarDir _ _ \<Rightarrow> [SLASH] | _ \<Rightarrow> [])"

fun oct_digits :: "nat \<Rightarrow> nat \<Rightarrow> u8 list" where
  "oct_digits 0 n = []"
| "oct_digits (Suc k) n = oct_digits k (n div 8) @ [of_nat (48 + n mod 8)]"

definition tar_header :: "u8 list \<Rightarrow> nat \<Rightarrow> u8 \<Rightarrow> u8 list" where
  "tar_header text n flag =
    (text @ replicate (100 - length text) 0) @ replicate 24 48 @ (oct_digits 11 n @ [0]) @ replicate 20 48 @ [flag] @ replicate 355 0"

definition tar_block :: "tar_item \<Rightarrow> u8 list" where
  "tar_block it = tar_header (item_text it) (length (item_content it)) (item_flag it) @
     item_content it @ replicate (round_up 512 (length (item_content it)) - length (item_content it)) 0"

definition item_ok :: "tar_item \<Rightarrow> bool" where
  "item_ok it \<longleftrightarrow> length (item_text it) \<le> 100 \<and> utf8_valid (item_text it) \<and> 0 \<notin> set (item_text it) \<and>
     \<not> skipped (item_name it) \<and> SLASH \<notin> set (item_name it) \<and> length (item_content it) < 8 ^ 11"

text \<open>The tree an archive describes: every entry is added to the directory its parent path names.\<close>

type_synonym tree = "(nat \<Rightarrow> (filename \<times> kobj) list) \<times> nat \<times> nat"

fun unpack_item :: "nat \<Rightarrow> tar_item \<Rightarrow> tree \<Rightarrow> tree option" where
  "unpack_item root it (ds, nf, nd) =
    (case path_target ds (KDirectory root) (path_names (item_parent it)) of
       Some (KDirectory d) \<Rightarrow>
         (case it of
            TarDir _ nm \<Rightarrow> let ds1 = ds(nd := []) in Some (ds1(d := bt_insert nm (KDirectory nd) (ds1 d)), nf, Suc nd)
          | TarFile _ nm _ \<Rightarrow> Some (ds(d := bt_insert nm (KFile nf) (ds d)), Suc nf, nd))
     | _ \<Rightarrow> None)"

fun unpack :: "nat \<Rightarrow> tar_item list \<Rightarrow> tree \<Rightarrow> tree option" where
  "unpack root [] t = Some t"
| "unpack root (it # items) t = (case unpack_item root it t of None \<Rightarrow> None | Some t' \<Rightarrow> unpack root items t')"

definition file_contents :: "tar_item list \<Rightarrow> u8 list list" where
  "file_contents items = concat (map (\<lambda>it. case it of TarFile _ _ c \<Rightarrow> [c] | _ \<Rightarrow> []) items)"

section \<open>Reading a header back\<close>

lemma length_oct_digits [simp]: "length (oct_digits k n) = k"
  by (induction k arbitrary: n) simp_all

lemma length_tar_header: "length text \<le> 100 \<Longrightarrow> length (tar_header text n flag) = 512"
  by (simp add: tar_header_def)

lemma oct_digits_range: "d \<in> set (oct_digits k n) \<Longrightarrow> 48 \<le> d \<and> d \<le> 55"
proof (induction k arbitrary: n)
  case (Suc k)
  have "unat (of_nat (48 + n mod 8) :: u8) = 48 + n mod 8" by (simp only: unsigned_of_nat) (simp add: take_bit_nat_eq_self)
  then have "48 \<le> (of_nat (48 + n mod 8) :: u8) \<and> (of_nat (48 + n mod 8) :: u8) \<le> 55" by (simp only: word_le_nat_alt) simp
  then show ?case using Suc by auto
qed simp

lemma oct_digits_value: "foldl (\<lambda>a d. a * 8 + unat (d - 48 :: u8)) 0 (oct_digits k n) = n mod 8 ^ k"
proof (induction k arbitrary: n)
  case (Suc k)
  have e: "(of_nat (48 + n mod 8) :: u8) - 48 = of_nat (n mod 8)" by simp
  have "unat ((of_nat (48 + n mod 8) :: u8) - 48) = n mod 8" unfolding e by (simp add: unsigned_of_nat take_bit_nat_eq_self)
  then show ?case using Suc [of "n div 8"] by (simp add: mod_mult2_eq)
qed simp

lemma trim_digits:
  assumes "\<forall>d \<in> set s. 48 \<le> d \<and> d \<le> 55"
  shows "trim s = s"
proof -
  have w1: "\<not> white1 d" if "48 \<le> d" for d using that unfolding white1_def word_le_nat_alt by (auto simp: word_unat_eq_iff)
  have w2: "\<not> white2 a b" "\<not> white3 a b c" if "a \<le> 55" for a b c using that by (auto simp: white2_def white3_def)
  have f: "trim_front v2 v3 s = s" if "\<forall>d \<in> set s. 48 \<le> d \<and> d \<le> 55" "\<And>a b. a \<le> 55 \<Longrightarrow> b \<le> 55 \<Longrightarrow> \<not> v2 a b" "\<And>a b c. a \<le> 55 \<Longrightarrow> c \<le> 55 \<Longrightarrow> \<not> v3 a b c"
    for v2 v3 and s :: "u8 list"
    using that w1 by (cases "(v2, v3, s)" rule: trim_front.cases) auto
  have a: "trim_front white2 white3 s = s" using assms w2 by (intro f) auto
  have b: "trim_front (\<lambda>a b. white2 b a) (\<lambda>a b c. white3 c b a) (rev s) = rev s" using assms w2 by (intro f) auto
  show ?thesis by (simp only: trim_def a b rev_rev_ident)
qed

lemma from_octal_digits: "n < 8 ^ k \<Longrightarrow> k \<le> 21 \<Longrightarrow> 0 < k \<Longrightarrow> from_octal (oct_digits k n) = Some n"
proof -
  assume n: "n < 8 ^ k" and k: "k \<le> 21" "0 < k"
  obtain c r where s: "oct_digits k n = c # r" using k(2) length_oct_digits [of k n] by (cases "oct_digits k n") auto
  then have c: "c \<noteq> 43" using oct_digits_range [of c k n] by (auto simp: word_le_nat_alt)
  have "n < 2 ^ 64" using n power_increasing [OF k(1), of "8 :: nat"] by simp
  then show ?thesis using s c n oct_digits_value [of k n] oct_digits_range [of _ k n]
    by (auto simp: from_octal_def Let_def not_less)
qed

lemma utf8_ascii: "\<forall>c \<in> set s. c < 0x80 \<Longrightarrow> utf8_valid s"
  by (induction s) (simp_all add: utf8_valid.simps(2))


lemma header_read:
  assumes "peek img off 512 = tar_header text n flag" and "length text \<le> 100" and "0 \<notin> set text"
  shows "tar_name img off = text" and "tar_size_text img off = oct_digits 11 n" and "img (off + 156) = flag"
proof -
  let ?h = "tar_header text n flag"
  have "peek img off 100 = take 100 (peek img off 512)" by (simp add: take_peek)
  also have "\<dots> = take 100 ?h" by (simp only: assms(1))
  also have "\<dots> = text @ replicate (100 - length text) 0" using assms(2) by (simp add: tar_header_def)
  finally show "tar_name img off = text"
    using assms(3) by (auto simp: tar_name_def takeWhile_append)
next
  have "peek img (off + 124) 12 = take 12 (drop 124 (peek img off 512))" by (simp add: take_peek drop_peek)
  also have "\<dots> = oct_digits 11 n @ [0]" using assms(2) unfolding assms(1) by (simp add: tar_header_def)
  finally have p: "peek img (off + 124) 12 = oct_digits 11 n @ [0]" .
  have "d \<noteq> 0 \<and> d \<noteq> 32" if "d \<in> set (oct_digits 11 n)" for d using oct_digits_range [OF that] by (auto simp: word_le_nat_alt)
  then show "tar_size_text img off = oct_digits 11 n" unfolding tar_size_text_def p by (simp add: takeWhile_append)
next
  have "img (off + 156) = peek img off 512 ! 156" by simp
  also have "\<dots> = flag" using assms(2) unfolding assms(1) by (auto simp: tar_header_def nth_append)
  finally show "img (off + 156) = flag" .
qed

lemma fields_read:
  assumes "peek img off 512 = tar_header text n flag" and "length text \<le> 100" and "0 \<notin> set text"
    and "utf8_valid text" and "n < 8 ^ 11"
  shows "tar_fields img off = Some (text, n)"
proof -
  have d: "\<forall>d \<in> set (oct_digits 11 n). 48 \<le> d \<and> d \<le> 55" using oct_digits_range by blast
  then have "utf8_valid (oct_digits 11 n)" by (intro utf8_ascii) (auto simp: word_le_nat_alt word_less_nat_alt)
  then show ?thesis using header_read(1,2) [OF assms(1,2,3)] trim_digits [OF d] from_octal_digits [of n 11] assms(4,5)
    by (simp add: tar_fields_def Let_def)
qed

lemma trim_slashes_text: "SLASH \<notin> set nm \<Longrightarrow> nm \<noteq> [] \<Longrightarrow> trim_slashes (full_path pp nm @ sl) = full_path pp nm" if "set sl \<subseteq> {SLASH}"
proof -
  assume nm: "SLASH \<notin> set nm" "nm \<noteq> []"
  obtain c r where r: "rev nm = c # r" "c \<noteq> SLASH" using nm by (cases nm rule: rev_cases) auto
  have "dropWhile (\<lambda>c. c = SLASH) (rev sl @ rev (full_path pp nm)) = dropWhile (\<lambda>c. c = SLASH) (rev (full_path pp nm))"
    using that by (intro dropWhile_append2) auto
  also have "\<dots> = rev (full_path pp nm)" using r by (simp add: full_path_def)
  finally show ?thesis by (simp add: trim_slashes_def)
qed

lemma skipped_full_path: "\<not> skipped nm \<Longrightarrow> \<not> skipped (full_path pp nm)"
  by (cases pp) (auto simp: skipped_def full_path_def SLASH_def append_eq_Cons_conv Cons_eq_append_conv)

lemma split_last_full_path: "SLASH \<notin> set nm \<Longrightarrow> split_last (full_path pp nm) = (pp, nm)"
proof -
  assume nm: "SLASH \<notin> set nm"
  have "takeWhile (\<lambda>c. c \<noteq> SLASH) (rev nm @ SLASH # rev pp) = rev nm" "dropWhile (\<lambda>c. c \<noteq> SLASH) (rev nm @ SLASH # rev pp) = SLASH # rev pp"
    using nm by (auto simp: takeWhile_append dropWhile_append)
  then show ?thesis using nm by (auto simp: split_last_def full_path_def Let_def)
qed

lemma length_split_slash: "length (split_slash p) \<le> Suc (length p)"
  by (induction p) (auto split: list.splits)

lemma split_slash_pieces: "nm \<in> set (split_slash p) \<Longrightarrow> length nm \<le> length p"
  by (induction p arbitrary: nm) (fastforce split: list.splits if_splits)+

section \<open>Mounting an entry\<close>

lemma mount_object_law:
  assumes "entries (handles (t_world st)) ph = Some \<lparr>rights = rs, object = KDirectory d\<rparr>" and "flags_contains rs WRITE"
    and "ht_inv (handles (t_world st))" and "length nm \<le> 254" and "next_id (handles (t_world st)) + 1 \<noteq> 0"
  shows "mount_object other_link ph nm (ob, st) = Some (st\<lparr>t_world := (t_world st)\<lparr>
      dirs := (dirs (t_world st))(d := bt_insert nm ob (dirs (t_world st) d)),
      handles := (handles (t_world st))\<lparr>next_id := next_id (handles (t_world st)) + 1,
        entries := (if ph = 0 then entries (handles (t_world st)) else (entries (handles (t_world st)))(ph := None))\<rparr>\<rparr>\<rparr>)"
proof -
  let ?t = "handles (t_world st)"
  have fresh: "entries ?t (next_id ?t) = None" using assms(3) by (auto simp: ht_inv_def)
  have ne: "ph \<noteq> next_id ?t" using assms(1) fresh by auto
  have len: "\<not> FILENAME_LEN_MAX < of_nat (length nm)"
    using assms(4) by (simp add: FILENAME_LEN_MAX_def word_less_nat_alt unsigned_of_nat take_bit_nat_eq_self)
  have clean: "(entries ?t)(next_id ?t := None) = entries ?t" using fresh by (simp add: fun_upd_idem)
  have clean2: "(entries ?t)(ph := None, next_id ?t := None) = (entries ?t)(ph := None)" using fresh by (simp add: fun_upd_idem)
  show ?thesis using assms(1,2) ne len clean clean2
    by (simp add: mount_object_def mount_kernel_dir_def ht_insert_def Let_def resolve_entry_def dir_link_def ht_get_def
        kernel_close_def ht_close_def fun_upd_twist)
qed


definition tree_of :: "tar_state \<Rightarrow> tree" where
  "tree_of st = (dirs (t_world st), length (t_files st), t_ndirs st)"

definition file_image :: "pmem \<Rightarrow> u64 \<Rightarrow> file_obj \<Rightarrow> u8 list" where
  "file_image img base f = peek img (unat (fo_addr f - base)) (unat (fo_size f))"

definition boot_ok :: "nat \<Rightarrow> tar_state \<Rightarrow> bool" where
  "boot_ok root st \<longleftrightarrow> ht_inv (handles (t_world st)) \<and>
     (\<exists>rs. entries (handles (t_world st)) 0 = Some \<lparr>rights = rs, object = KDirectory root\<rparr> \<and> flags_contains rs READ \<and> flags_contains rs WRITE)"

lemma lookup_rights_write [simp]: "flags_contains (lookup_rights rs) WRITE = flags_contains rs WRITE"
proof -
  have "(rs AND (MUTATE OR READ OR WRITE OR CREATE OR EXECUTE)) AND WRITE = rs AND WRITE"
    by (rule bit_word_eqI) (auto simp: bit_simps)
  then show ?thesis by (simp add: flags_contains_def lookup_rights_def)
qed

text \<open>The walk to the parent: a handle on its directory that may be linked into, and nothing else new.\<close>

lemma parent_walk:
  assumes "boot_ok root st" and "path_target (dirs (t_world st)) (KDirectory root) (path_names pp) = Some (KDirectory d)"
    and "length pp \<le> 100" and "unat (next_id (handles (t_world st))) + 101 < 2 ^ 64"
  obtains ph w rs where "kernel_walk other pp 0 (t_world st) = (Inr ph, w)" and "dirs w = dirs (t_world st)" and "ht_inv (handles w)"
    and "unat (next_id (handles w)) \<le> unat (next_id (handles (t_world st))) + 101"
    and "entries (handles w) ph = Some \<lparr>rights = rs, object = KDirectory d\<rparr>" and "flags_contains rs WRITE"
    and "(if ph = 0 then entries (handles w) else (entries (handles w))(ph := None)) = entries (handles (t_world st))"
proof -
  let ?w = "t_world st"
  obtain rs where e0: "entries (handles ?w) 0 = Some \<lparr>rights = rs, object = KDirectory root\<rparr>" "flags_contains rs READ" "flags_contains rs WRITE"
    and iv: "ht_inv (handles ?w)" using assms(1) by (auto simp: boot_ok_def)
  have len: "length (split_slash pp) \<le> 101" using length_split_slash [of pp] assms(3) by simp
  have pieces: "\<forall>nm \<in> set (split_slash pp). length nm \<le> 254" using split_slash_pieces [of _ pp] assms(3) by fastforce
  have b: "unat (next_id (handles ?w)) + length (split_slash pp) < 2 ^ 64" using assms(4) len by simp
  have dm: "0 \<in> dom (entries (handles ?w))" using e0(1) by auto
  obtain ph w where w: "walk_from other 0 (split_slash pp) 0 ?w = (Inr ph, w)" "dirs w = dirs ?w" "ht_inv (handles w)"
    "unat (next_id (handles w)) \<le> unat (next_id (handles ?w)) + length (split_slash pp)"
    "if path_names pp = [] then ph = 0 \<and> w = ?w
     else next_id (handles ?w) \<le> ph \<and> entries (handles w) = (entries (handles ?w))(ph \<mapsto> \<lparr>rights = lookup_rights rs, object = KDirectory d\<rparr>)"
    using walk_from_law [OF iv e0(1) _ dm _ pieces b, of "KDirectory d" other] e0(2) assms(2) [unfolded path_names_def]
    unfolding path_names_def by auto
  have k: "kernel_walk other pp 0 ?w = (Inr ph, w)" using w(1) by (simp add: kernel_walk_def Let_def)
  show thesis
  proof (cases "path_names pp = []")
    case True
    then have "ph = 0" "w = ?w" "root = d" using w(5) assms(2) by simp_all
    then show thesis using that [of 0 ?w rs] k e0 iv by simp
  next
    case False
    then have p: "next_id (handles ?w) \<le> ph" "entries (handles w) = (entries (handles ?w))(ph \<mapsto> \<lparr>rights = lookup_rights rs, object = KDirectory d\<rparr>)"
      using w(5) by simp_all
    have "entries (handles ?w) ph = None" using iv p(1) by (force simp: ht_inv_def dom_def)
    moreover from this have "ph \<noteq> 0" using e0(1) by auto
    ultimately show thesis using that [of ph w "lookup_rights rs"] k w(2-4) p(2) e0(3) len by (simp add: fun_upd_idem)
  qed
qed

lemma tar_entry_law:
  assumes "boot_ok root st" and "item_ok it" and "unpack_item root it (tree_of st) = Some t'"
    and "unat (next_id (handles (t_world st))) + 102 < 2 ^ 64" and "off + 512 + length (item_content it) \<le> sz"
  shows "\<exists>st'. tar_entry other other_link base sz off (item_flag it) (full_path (item_parent it) (item_name it)) (length (item_content it)) st = Some (Inr (), st') \<and>
    boot_ok root st' \<and> tree_of st' = t' \<and> entries (handles (t_world st')) = entries (handles (t_world st)) \<and>
    unat (next_id (handles (t_world st'))) \<le> unat (next_id (handles (t_world st))) + 102 \<and>
    t_files st' = t_files st @ (case it of TarFile _ _ c \<Rightarrow> [\<lparr>fo_addr = base + of_nat (off + 512), fo_size = of_nat (length c)\<rparr>] | _ \<Rightarrow> [])"
proof -
  obtain d where d: "path_target (dirs (t_world st)) (KDirectory root) (path_names (item_parent it)) = Some (KDirectory d)"
    using assms(3) by (auto simp: tree_of_def split: option.splits kobj.splits)
  have pl: "length (item_parent it) \<le> 100" "length (item_name it) \<le> 254" using assms(2) by (auto simp: item_ok_def item_text_def full_path_def split: if_splits)
  have sl: "split_last (full_path (item_parent it) (item_name it)) = (item_parent it, item_name it)"
    using assms(2) by (intro split_last_full_path) (simp add: item_ok_def)
  obtain ph w rs where w: "kernel_walk other (item_parent it) 0 (t_world st) = (Inr ph, w)" "dirs w = dirs (t_world st)" "ht_inv (handles w)"
      "unat (next_id (handles w)) \<le> unat (next_id (handles (t_world st))) + 101"
      "entries (handles w) ph = Some \<lparr>rights = rs, object = KDirectory d\<rparr>" "flags_contains rs WRITE"
      "(if ph = 0 then entries (handles w) else (entries (handles w))(ph := None)) = entries (handles (t_world st))"
    by (rule parent_walk [OF assms(1) d pl(1)]) (use assms(4) in simp_all)
  have nx: "unat (next_id (handles w) + 1) = unat (next_id (handles w)) + 1"
    using w(4) assms(4) unat_add_lem [of "next_id (handles w)" 1] by simp
  then have nz: "next_id (handles w) + 1 \<noteq> 0" by (metis add_is_0 one_neq_zero unsigned_0)
  have iv: "ht_inv ((handles w)\<lparr>next_id := next_id (handles w) + 1, entries := entries (handles (t_world st))\<rparr>)"
  proof -
    have "\<forall>i \<in> dom (entries (handles (t_world st))). i < next_id (handles w)"
      using w(3) unfolding ht_inv_def w(7) [symmetric] by (auto split: if_splits)
    then show ?thesis using nx unfolding ht_inv_def by (auto simp: word_less_nat_alt intro: less_SucI)
  qed
  have mount: "mount_object other_link ph (item_name it) (ob, s) = Some (s\<lparr>t_world := (t_world s)\<lparr>
      dirs := (dirs (t_world s))(d := bt_insert (item_name it) ob (dirs (t_world s) d)),
      handles := (handles w)\<lparr>next_id := next_id (handles w) + 1, entries := entries (handles (t_world st))\<rparr>\<rparr>\<rparr>)"
    if "handles (t_world s) = handles w" for s ob
    using mount_object_law [of s ph rs d "item_name it" other_link ob] w(3,5,6) pl(2) nz unfolding that w(7) by simp
  have ok: "boot_ok root s" if "handles (t_world s) = (handles w)\<lparr>next_id := next_id (handles w) + 1, entries := entries (handles (t_world st))\<rparr>" for s
    using iv assms(1) unfolding boot_ok_def that by simp
  show ?thesis
  proof (cases it)
    case (TarDir pp nm)
    note m = mount [unfolded TarDir item_name.simps]
    show ?thesis using TarDir w(1,2,4) sl d assms(3) nx
      by (auto simp: tar_entry_def new_directory_def m tree_of_def Let_def intro!: ok)
  next
    case (TarFile pp nm c)
    note m = mount [unfolded TarFile item_name.simps]
    show ?thesis using TarFile w(1,2,4) sl d assms(3,5) nx
      by (auto simp: tar_entry_def new_file_def m tree_of_def Let_def intro!: ok)
  qed
qed


section \<open>Unpacking an archive\<close>

lemma length_tar_block: "item_ok it \<Longrightarrow> length (tar_block it) = 512 + round_up 512 (length (item_content it))"
  using round_up_ge [of 512 "length (item_content it)"] by (simp add: tar_block_def item_ok_def length_tar_header)

lemma parse_block:
  assumes "item_ok it" and "peek img off (length (tar_block it)) = tar_block it" and "off + length (tar_block it) \<le> sz"
  shows "parse_tar other other_link img base sz off st =
    (case tar_entry other other_link base sz off (item_flag it) (full_path (item_parent it) (item_name it)) (length (item_content it)) st of
       None \<Rightarrow> panic
     | Some (Inl e, st') \<Rightarrow> ret (Inl e, st')
     | Some (Inr _, st') \<Rightarrow> parse_tar other other_link img base sz (off + length (tar_block it)) st')"
proof -
  have ok: "length (item_text it) \<le> 100" "utf8_valid (item_text it)" "0 \<notin> set (item_text it)" "\<not> skipped (item_name it)"
    "SLASH \<notin> set (item_name it)" "length (item_content it) < 8 ^ 11" using assms(1) by (simp_all add: item_ok_def)
  let ?h = "tar_header (item_text it) (length (item_content it)) (item_flag it)"
  have "peek img off 512 = take 512 (peek img off (length (tar_block it)))" using length_tar_block [OF assms(1)] by (simp add: take_peek)
  then have h: "peek img off 512 = ?h" unfolding assms(2) using length_tar_header [OF ok(1)] by (simp add: tar_block_def)
  have ne: "item_name it \<noteq> []" using ok(4) by (auto simp: skipped_def)
  then obtain c r where cr: "item_text it = c # r" by (cases "item_text it") (auto simp: item_text_def full_path_def split: if_splits)
  have "img off = peek img off 512 ! 0" by simp
  then have nz: "img off \<noteq> 0" using ok(3) unfolding h by (simp add: tar_header_def cr)
  have f: "tar_fields img off = Some (item_text it, length (item_content it))" using fields_read [OF h ok(1,3,2,6)] .
  have t: "trim_slashes (item_text it) = full_path (item_parent it) (item_name it)"
    unfolding item_text_def by (intro trim_slashes_text ok ne) (auto split: tar_item.splits)
  have s: "tar_step (length (item_content it)) = length (tar_block it)"
    using tar_step_round [of "length (item_content it)"] length_tar_block [OF assms(1)] ok(6) by simp
  have lt: "off < sz" using assms(3) length_tar_block [OF assms(1)] by simp
  show ?thesis unfolding s [symmetric]
    by (subst parse_tar.simps) (simp add: lt nz f t skipped_full_path [OF ok(4)] header_read(3) [OF h ok(1,3)] Let_def)
qed

lemma archive_law:
  assumes "boot_ok root st" and "\<forall>it \<in> set items. item_ok it" and "unpack root items (tree_of st) = Some t'"
    and "unat (next_id (handles (t_world st))) + 102 * length items < 2 ^ 64" and "sz = off + length (concat (map tar_block items) @ trailer)"
    and "peek img off (length (concat (map tar_block items) @ trailer)) = concat (map tar_block items) @ trailer"
    and "trailer = [] \<or> hd trailer = 0" and "unat base + sz < 2 ^ 64"
  shows "\<exists>st'. parse_tar other other_link img base sz off st = Some (Inr (), st') \<and> tree_of st' = t' \<and>
    entries (handles (t_world st')) = entries (handles (t_world st)) \<and>
    map (file_image img base) (t_files st') = map (file_image img base) (t_files st) @ file_contents items"
  using assms
proof (induction items arbitrary: st off)
  case Nil
  have "off < sz \<Longrightarrow> img off = 0"
  proof -
    assume "off < sz"
    then have "trailer \<noteq> []" using Nil.prems(5) by auto
    then have "peek img off (length trailer) ! 0 = 0" using Nil.prems(6,7) by (simp add: hd_conv_nth)
    then show "img off = 0" using \<open>trailer \<noteq> []\<close> by simp
  qed
  then show ?case using Nil.prems(3) by (subst parse_tar.simps) (simp add: file_contents_def)
next
  case (Cons it items)
  let ?n = "length (tar_block it)" and ?rest = "concat (map tar_block items) @ trailer"
  have ok: "item_ok it" using Cons.prems(2) by simp
  obtain t1 where t1: "unpack_item root it (tree_of st) = Some t1" "unpack root items t1 = Some t'"
    using Cons.prems(3) by (auto split: option.splits)
  have pk: "peek img off ?n = tar_block it" "peek img (off + ?n) (length ?rest) = ?rest"
    using arg_cong [OF Cons.prems(6), of "take ?n"] arg_cong [OF Cons.prems(6), of "drop ?n"] by (simp_all add: take_peek drop_peek)
  have len: "?n = 512 + round_up 512 (length (item_content it))" using length_tar_block [OF ok] .
  have room: "off + 512 + length (item_content it) \<le> sz" using Cons.prems(5) len round_up_ge [of 512 "length (item_content it)"] by simp
  have nb: "unat (next_id (handles (t_world st))) + 102 < 2 ^ 64" using Cons.prems(4) by simp
  obtain s1 where s1: "tar_entry other other_link base sz off (item_flag it) (full_path (item_parent it) (item_name it)) (length (item_content it)) st = Some (Inr (), s1)"
      "boot_ok root s1" "tree_of s1 = t1" "entries (handles (t_world s1)) = entries (handles (t_world st))"
      "unat (next_id (handles (t_world s1))) \<le> unat (next_id (handles (t_world st))) + 102"
      "t_files s1 = t_files st @ (case it of TarFile _ _ c \<Rightarrow> [\<lparr>fo_addr = base + of_nat (off + 512), fo_size = of_nat (length c)\<rparr>] | _ \<Rightarrow> [])"
    using tar_entry_law [OF Cons.prems(1) ok t1(1) nb room, of other other_link base] by blast
  have img: "map (file_image img base) (t_files s1) = map (file_image img base) (t_files st) @ file_contents [it]"
  proof (cases it)
    case (TarFile pp nm c)
    have "unat (of_nat (off + 512) :: u64) = off + 512"
      using room Cons.prems(8) TarFile by (simp only: unsigned_of_nat) (simp add: take_bit_nat_eq_self)
    moreover have "base + of_nat (off + 512) - base = of_nat (off + 512)" by simp
    moreover have "unat (of_nat (length c) :: u64) = length c"
      using room Cons.prems(8) TarFile by (simp add: unsigned_of_nat take_bit_nat_eq_self)
    moreover have "peek img (off + 512) (length c) = c"
    proof -
      have "peek img (off + 512) (length c) = take (length c) (drop 512 (peek img off ?n))"
        using len TarFile round_up_ge [of 512 "length c"] by (simp add: take_peek drop_peek)
      also have "\<dots> = c" using ok unfolding pk(1) by (simp add: TarFile tar_block_def item_ok_def length_tar_header)
      finally show ?thesis .
    qed
    ultimately show ?thesis using s1(6) TarFile by (simp only: file_image_def) (simp add: file_contents_def file_image_def)
  qed (use s1(6) in \<open>simp add: file_contents_def\<close>)
  obtain st' where "parse_tar other other_link img base sz (off + ?n) s1 = Some (Inr (), st')" "tree_of st' = t'"
      "entries (handles (t_world st')) = entries (handles (t_world s1))"
      "map (file_image img base) (t_files st') = map (file_image img base) (t_files s1) @ file_contents items"
    using Cons.IH [OF s1(2) _ _ _ _ pk(2) Cons.prems(7,8)] Cons.prems(2,4,5) s1(3,5) t1(2) by auto
  moreover have "off + ?n \<le> sz" using Cons.prems(5) by simp
  ultimately show ?case
    using parse_block [OF ok pk(1), of sz other other_link base st] s1(1,4) img by (auto simp: file_contents_def)
qed


definition sample_items :: "tar_item list" where
  "sample_items = [TarDir [] [98, 105, 110], TarFile [98, 105, 110] [97] [1, 2, 3]]"

definition sample_archive :: "u8 list" where
  "sample_archive = concat (map tar_block sample_items) @ replicate 1024 0"

definition boot_state :: tar_state where
  "boot_state = \<lparr>t_world = \<lparr>handles = ht_insert_at handle_table_new 0 (KDirectory 0) (READ OR WRITE), dirs = (\<lambda>_. []),
     wmem = \<lparr>mbyte = (\<lambda>_. 0), can_read = (\<lambda>_. True), can_write = (\<lambda>_. True)\<rparr>\<rparr>, t_files = [], t_ndirs = 1\<rparr>"


end
