(* ===== verification/Terminal.thy ===== *)
theory Terminal
  imports Prelude
begin

text \<open>
  The terminal emulator (\<^verbatim>\<open>userland/terminal/src/term.rs\<close>, with the grid set up in \<^verbatim>\<open>main.rs\<close>, and the pixels of
  \<^verbatim>\<open>vespertine-std/src/fb.rs\<close>) and the shell's question where the cursor is (\<^verbatim>\<open>userland/shell/src/main.rs\<close>).
  The escape-sequence parser is a library: its callbacks are the operations here. The font is the
  file \<^verbatim>\<open>zap-ext-light16.psf\<close>, an argument. Sizes are natural numbers, which they are on a screen with room for
  one row and column of text; an index outside a slice is a panic.
\<close>

section \<open>Pixels\<close>

text \<open>\<open>px\<close> is the mapped memory, of which the first \<open>pitch * height / 4\<close> words are the screen.\<close>

record framebuffer =
  fb_width :: nat
  fb_height :: nat
  fb_pitch :: nat
  px :: "nat \<Rightarrow> u32"

definition write_pixel :: "nat \<Rightarrow> nat \<Rightarrow> u32 \<Rightarrow> framebuffer \<Rightarrow> framebuffer" where
  "write_pixel x y color fb =
    (if x < fb_width fb \<and> y < fb_height fb then fb\<lparr>px := (px fb)(y * (fb_pitch fb div 4) + x := color)\<rparr> else fb)"

definition pixel_count :: "framebuffer \<Rightarrow> nat" where
  "pixel_count fb = fb_pitch fb * fb_height fb div 4"

section \<open>The grid\<close>

record cell =
  cchar :: nat
  cfg :: u32
  cbg :: u32

record grid =
  width_chars :: nat
  height_chars :: nat
  cursor_x :: nat
  cursor_y :: nat
  input_len :: nat
  current_fg :: u32
  current_bg :: u32
  cells :: "cell list"
  fb :: framebuffer
  replies :: "u8 list"

definition PADDING_X :: nat where "PADDING_X = 12"
definition PADDING_Y :: nat where "PADDING_Y = 12"
definition FG_COLOR :: u32 where "FG_COLOR = 0xe0ddd8"
definition BG_COLOR :: u32 where "BG_COLOR = 0x11080d"

definition blank :: "grid \<Rightarrow> cell" where
  "blank g = \<lparr>cchar = 32, cfg = current_fg g, cbg = current_bg g\<rparr>"

definition translate_ansi_color :: "nat \<Rightarrow> u32" where
  "translate_ansi_color i =
    (if i = 0 then 0x1a1a1a else if i = 1 then 0xc85d5d else if i = 2 then 0x5a7548 else if i = 3 then 0xf0ca93
     else if i = 4 then 0x5276b5 else if i = 5 then 0x7d4c68 else if i = 6 then 0xad687d else 0xe0ddd8)"

fun draw_rows :: "u8 list \<Rightarrow> cell \<Rightarrow> nat \<Rightarrow> nat \<Rightarrow> nat list \<Rightarrow> framebuffer \<Rightarrow> framebuffer run" where
  "draw_rows font c x_start y_start [] f = ret f"
| "draw_rows font c x_start y_start (y # ys) f =
    do { font_byte \<leftarrow> idx font (4 + cchar c * 16 + y);
         draw_rows font c x_start y_start ys
           (fold (\<lambda>x. write_pixel (x_start + x) (y_start + y) (if font_byte AND drop_bit x 0x80 \<noteq> 0 then cfg c else cbg c)) [0..<8] f) }"

definition draw_cell :: "u8 list \<Rightarrow> nat \<Rightarrow> nat \<Rightarrow> grid \<Rightarrow> grid run" where
  "draw_cell font col row g =
    do { c \<leftarrow> idx (cells g) (row * width_chars g + col);
         f \<leftarrow> draw_rows font c (PADDING_X + col * 8) (PADDING_Y + row * 16) [0..<16] (fb g);
         ret (g\<lparr>fb := f\<rparr>) }"

definition clear_cell :: "nat \<Rightarrow> nat \<Rightarrow> grid \<Rightarrow> grid run" where
  "clear_cell col row g =
    do { cs \<leftarrow> upd (cells g) (row * width_chars g + col) (blank g);
         ret (g\<lparr>cells := cs,
                fb := fold (\<lambda>y. fold (\<lambda>x. write_pixel (PADDING_X + col * 8 + x) (PADDING_Y + row * 16 + y) (current_bg g)) [0..<8])
                        [0..<16] (fb g)\<rparr>) }"

text \<open>\<^verbatim>\<open>copy_within\<close> on the pixel slice, and the fill of its end.\<close>

definition scroll_pixels :: "nat \<Rightarrow> u32 \<Rightarrow> framebuffer \<Rightarrow> framebuffer run" where
  "scroll_pixels h bg f =
    (let screen_words = fb_pitch f div 4;
         dst_start = PADDING_Y * screen_words;
         src_start = (PADDING_Y + 16) * screen_words;
         count = (h - 1) * 16 * screen_words;
         start_word = (h - 1) * 16 * screen_words;
         n = pixel_count f
     in if n < src_start + count \<or> n < dst_start + count then panic
        else let moved = (\<lambda>i. if dst_start \<le> i \<and> i < dst_start + count then px f (i - dst_start + src_start) else px f i)
             in ret (f\<lparr>px := (\<lambda>i. if start_word \<le> i \<and> i < n then bg else moved i)\<rparr>))"

definition scroll :: "grid \<Rightarrow> grid run" where
  "scroll g =
    (let w = width_chars g; n = length (cells g)
     in if n < w then panic
        else let shifted = drop w (cells g) @ drop (n - w) (cells g);
                 last_row_start = (height_chars g - 1) * w
             in do { f \<leftarrow> scroll_pixels (height_chars g) (current_bg g) (fb g);
                     ret (g\<lparr>cells := take last_row_start shifted @ replicate (n - last_row_start) (blank g), fb := f\<rparr>) })"

definition newline :: "grid \<Rightarrow> grid run" where
  "newline g = (if cursor_y g < height_chars g - 1 then ret (g\<lparr>cursor_y := cursor_y g + 1\<rparr>) else scroll g)"

definition clear_screen :: "grid \<Rightarrow> grid" where
  "clear_screen g =
    g\<lparr>cells := map (\<lambda>_. blank g) (cells g), cursor_x := 0, cursor_y := 0,
      fb := (fb g)\<lparr>px := (\<lambda>i. if i < pixel_count (fb g) then current_bg g else px (fb g) i)\<rparr>\<rparr>"

section \<open>The callbacks\<close>

definition print :: "u8 list \<Rightarrow> nat \<Rightarrow> grid \<Rightarrow> grid run" where
  "print font c g =
    do { g1 \<leftarrow> (if width_chars g \<le> cursor_x g then newline (g\<lparr>cursor_x := 0\<rparr>) else ret g);
         cs \<leftarrow> upd (cells g1) (cursor_y g1 * width_chars g1 + cursor_x g1) \<lparr>cchar = c, cfg = current_fg g1, cbg = current_bg g1\<rparr>;
         g2 \<leftarrow> draw_cell font (cursor_x g1) (cursor_y g1) (g1\<lparr>cells := cs\<rparr>);
         ret (g2\<lparr>cursor_x := cursor_x g2 + 1\<rparr>) }"

definition execute :: "u8 \<Rightarrow> grid \<Rightarrow> grid run" where
  "execute byte g =
    (if byte = 10 then do { g1 \<leftarrow> newline g; ret (g1\<lparr>cursor_x := 0\<rparr>) }
     else if byte = 13 then ret (g\<lparr>cursor_x := 0\<rparr>)
     else if byte = 8 \<and> 0 < cursor_x g then clear_cell (cursor_x g - 1) (cursor_y g) (g\<lparr>cursor_x := cursor_x g - 1\<rparr>)
     else ret g)"

function dec :: "nat \<Rightarrow> u8 list" where
  "dec n = (if n < 10 then [of_nat (48 + n)] else dec (n div 10) @ [of_nat (48 + n mod 10)])"
  by pat_completeness auto
termination by (relation "measure id") auto

declare dec.simps [simp del]

definition cursor_reply :: "grid \<Rightarrow> u8 list" where
  "cursor_reply g = [27, 91] @ dec (cursor_y g + 1) @ [59] @ dec (cursor_x g + 1) @ [82]"

definition set_color :: "nat list \<Rightarrow> grid \<Rightarrow> grid" where
  "set_color param g =
    (case param of
       [p] \<Rightarrow> if p = 0 then g\<lparr>current_fg := FG_COLOR, current_bg := BG_COLOR\<rparr>
              else if 30 \<le> p \<and> p \<le> 37 then g\<lparr>current_fg := translate_ansi_color (p - 30)\<rparr>
              else if 40 \<le> p \<and> p \<le> 47 then g\<lparr>current_bg := translate_ansi_color (p - 40)\<rparr>
              else g
     | _ \<Rightarrow> g)"

definition csi_dispatch :: "nat list list \<Rightarrow> char \<Rightarrow> grid \<Rightarrow> grid run" where
  "csi_dispatch params action g =
    (if action = CHR ''m'' then ret (fold set_color params g)
     else if action = CHR ''J'' then ret (clear_screen g)
     else if action = CHR ''N'' then
       (if 0 < cursor_x g then do { g1 \<leftarrow> newline g; ret (g1\<lparr>cursor_x := 0\<rparr>) } else ret g)
     else if action = CHR ''n'' then
       ret (fold (\<lambda>param g. if param = [6] then g\<lparr>replies := replies g @ cursor_reply g\<rparr> else g) params g)
     else ret g)"

datatype term_event = Print nat | Execute u8 | Csi "nat list list" char

fun term_step :: "u8 list \<Rightarrow> term_event \<Rightarrow> grid \<Rightarrow> grid run" where
  "term_step font (Print c) g = print font c g"
| "term_step font (Execute b) g = execute b g"
| "term_step font (Csi ps a) g = csi_dispatch ps a g"

fun term_run :: "u8 list \<Rightarrow> term_event list \<Rightarrow> grid \<Rightarrow> grid run" where
  "term_run font [] g = ret g"
| "term_run font (e # es) g = do { g' \<leftarrow> term_step font e g; term_run font es g' }"

definition grid_new :: "framebuffer \<Rightarrow> grid" where
  "grid_new f =
    (let w = (fb_width f - 2 * PADDING_X) div 8; h = (fb_height f - 2 * PADDING_Y) div 16
     in clear_screen
          \<lparr>width_chars = w, height_chars = h, cursor_x = 0, cursor_y = 0, input_len = 0, current_fg = FG_COLOR, current_bg = BG_COLOR,
           cells = replicate (w * h) \<lparr>cchar = 32, cfg = FG_COLOR, cbg = BG_COLOR\<rparr>, fb = f, replies = []\<rparr>)"

section \<open>The shell asks for the cursor\<close>

text \<open>
  \<^verbatim>\<open>read_char\<close> takes from the backlog first, then from the input; \<^verbatim>\<open>None\<close> at the end of the input. The two
  loops read digits up to a stop byte; on any other byte what was read goes back to the backlog.
\<close>

type_synonym keys = "u8 list \<times> u8 list"

fun read_char :: "keys \<Rightarrow> u8 option \<times> keys" where
  "read_char (b # backlog, input) = (Some b, backlog, input)"
| "read_char ([], b # input) = (Some b, [], input)"
| "read_char ([], []) = (None, [], [])"

definition is_digit :: "u8 \<Rightarrow> bool" where
  "is_digit c \<longleftrightarrow> 48 \<le> c \<and> c \<le> 57"

lemma read_char_shrinks: "read_char k = (Some c, k') \<Longrightarrow> length (fst k') + length (snd k') < length (fst k) + length (snd k)"
  by (induction k rule: read_char.induct) auto

text \<open>The result of a digit loop: the input ended, another byte came, or the digits and the value so far.\<close>

datatype digits = Ended | Other "u8 list" u8 | Digits "u8 list" u64

function read_digits :: "u8 \<Rightarrow> u8 list \<Rightarrow> u64 \<Rightarrow> keys \<Rightarrow> digits \<times> keys" where
  "read_digits stop acc v k =
    (case read_char k of
       (None, k') \<Rightarrow> (Ended, k')
     | (Some c, k') \<Rightarrow>
         if c = stop then (Digits acc v, k')
         else if is_digit c then read_digits stop (acc @ [c]) (v * 10 + ucast (c - 48)) k'
         else (Other acc c, k'))"
  by pat_completeness auto
termination
  by (relation "measure (\<lambda>(_, _, _, k). length (fst k) + length (snd k))") (auto dest!: sym read_char_shrinks)

declare read_digits.simps [simp del]

definition push_back :: "u8 list \<Rightarrow> keys \<Rightarrow> keys" where
  "push_back bs k = (fst k @ bs, snd k)"

definition get_cursor_column :: "keys \<Rightarrow> u64 option \<times> keys" where
  "get_cursor_column k =
    (case read_char k of
       (None, k1) \<Rightarrow> (None, k1)
     | (Some esc, k1) \<Rightarrow>
         if esc \<noteq> 27 then (None, push_back [esc] k1)
         else case read_char k1 of
           (None, k2) \<Rightarrow> (None, k2)
         | (Some bracket, k2) \<Rightarrow>
             if bracket \<noteq> 91 then (None, push_back [esc, bracket] k2)
             else case read_digits 59 [] 0 k2 of
               (Ended, k3) \<Rightarrow> (None, k3)
             | (Other rows c, k3) \<Rightarrow> (None, push_back ([esc, bracket] @ rows @ [c]) k3)
             | (Digits rows _, k3) \<Rightarrow>
                 (case read_digits 82 [] 0 k3 of
                    (Ended, k4) \<Rightarrow> (None, k4)
                  | (Other cols c, k4) \<Rightarrow> (None, push_back ([esc, bracket] @ rows @ [59] @ cols @ [c]) k4)
                  | (Digits cols col, k4) \<Rightarrow> (Some col, k4)))"

section \<open>The answer is understood\<close>

lemma dec_digits: "\<forall>c \<in> set (dec n). is_digit c"
proof (induction n rule: dec.induct)
  case (1 n)
  have d: "is_digit (of_nat (48 + m))" if "m < 10" for m
  proof -
    have "unat (of_nat (48 + m) :: u8) = 48 + m" using that by (simp add: unsigned_of_nat take_bit_nat_eq_self del: of_nat_add)
    then show ?thesis using that by (simp add: is_digit_def word_le_nat_alt del: of_nat_add)
  qed
  show ?case using 1 d [of n] d [of "n mod 10"] by (subst dec.simps) auto
qed

lemma read_digits_app:
  "\<forall>c \<in> set ds. is_digit c \<Longrightarrow> \<not> is_digit stop \<Longrightarrow>
   read_digits stop acc v ([], ds @ stop # rest) = (Digits (acc @ ds) (fold (\<lambda>c v. v * 10 + ucast (c - 48)) ds v), [], rest)"
proof (induction ds arbitrary: acc v)
  case Nil
  then show ?case by (subst read_digits.simps) simp
next
  case (Cons c ds)
  then have "c \<noteq> stop" "is_digit c" by auto
  then show ?case using Cons by (subst read_digits.simps) simp
qed

lemma dec_value: "fold (\<lambda>c v. v * 10 + ucast (c - 48)) (dec n) (0 :: u64) = of_nat n"
proof (induction n rule: dec.induct)
  case (1 n)
  have d: "ucast ((of_nat (48 + m) :: u8) - 48) = (of_nat m :: u64)" if "m < 10" for m
    using that by (auto simp: word_unat_eq_iff unsigned_of_nat take_bit_nat_eq_self unsigned_ucast_eq)
  show ?case
  proof (cases "n < 10")
    case True
    then show ?thesis using d [of n] by (subst dec.simps) simp
  next
    case False
    have "(of_nat (n div 10) * 10 + of_nat (n mod 10) :: u64) = of_nat n"
      by (metis div_mult_mod_eq of_nat_add of_nat_mult of_nat_numeral)
    then show ?thesis using 1 [OF False] False d [of "n mod 10"] by (subst dec.simps) simp
  qed
qed

text \<open>
  Round trip of the cursor question: when no key was typed ahead, the reply of the terminal to
  the cursor query, followed by anything, makes the shell learn the column of the cursor, counted
  from one, and leaves the rest of its input alone.
\<close>

theorem cursor_query_roundtrip:
  "get_cursor_column ([], cursor_reply g @ rest) = (Some (of_nat (cursor_x g + 1)), [], rest)"
proof -
  have n: "\<not> is_digit 59" "\<not> is_digit 82" by (simp_all add: is_digit_def)
  note r = read_digits_app [OF dec_digits n(1)] read_digits_app [OF dec_digits n(2)]
  show ?thesis
    by (simp add: get_cursor_column_def cursor_reply_def r dec_value)
qed

section \<open>The grid stays well formed\<close>

definition same_screen :: "framebuffer \<Rightarrow> framebuffer \<Rightarrow> bool" where
  "same_screen f f' \<longleftrightarrow> fb_width f' = fb_width f \<and> fb_height f' = fb_height f \<and> fb_pitch f' = fb_pitch f"

lemma same_screen_refl [simp]: "same_screen f f"
  by (simp add: same_screen_def)

lemma same_screen_trans: "same_screen f f1 \<Longrightarrow> same_screen f1 f2 \<Longrightarrow> same_screen f f2"
  by (simp add: same_screen_def)

lemma fold_same_screen: "(\<And>x f. same_screen f (op x f)) \<Longrightarrow> same_screen f (fold op xs f)"
  by (induction xs arbitrary: f) (simp, metis fold_simps(2) same_screen_trans)

lemma write_pixel_same: "same_screen f (write_pixel x y c f)"
  by (simp add: write_pixel_def same_screen_def)

lemma draw_rows_law:
  "\<forall>y \<in> set ys. 4 + cchar c * 16 + y < length font \<Longrightarrow> \<exists>f'. draw_rows font c x0 y0 ys f = Some f' \<and> same_screen f f'"
proof (induction ys arbitrary: f)
  case (Cons y ys)
  let ?f = "fold (\<lambda>x. write_pixel (x0 + x) (y0 + y) (if font ! (4 + cchar c * 16 + y) AND drop_bit x 0x80 \<noteq> 0 then cfg c else cbg c)) [0..<8] f"
  have s: "same_screen f ?f" by (rule fold_same_screen) (rule write_pixel_same)
  obtain f' where "draw_rows font c x0 y0 ys ?f = Some f'" "same_screen ?f f'" using Cons.IH [of ?f] Cons.prems by auto
  then show ?case using Cons.prems same_screen_trans [OF s] by (auto simp: idx_in_range)
qed simp

definition term_ok :: "grid \<Rightarrow> bool" where
  "term_ok g \<longleftrightarrow> 0 < width_chars g \<and> 0 < height_chars g \<and> length (cells g) = width_chars g * height_chars g \<and>
    cursor_y g < height_chars g \<and> cursor_x g \<le> width_chars g \<and>
    (PADDING_Y + 16 * height_chars g) * (fb_pitch (fb g) div 4) \<le> pixel_count (fb g)"

definition drawable :: "u8 list \<Rightarrow> term_event \<Rightarrow> bool" where
  "drawable font e \<longleftrightarrow> (case e of Print c \<Rightarrow> 4 + c * 16 + 16 \<le> length font | _ \<Rightarrow> True)"

lemma newline_law:
  assumes "term_ok g"
  shows "\<exists>g'. newline g = Some g' \<and> term_ok g' \<and> width_chars g' = width_chars g \<and> height_chars g' = height_chars g \<and> cursor_x g' = cursor_x g"
proof (cases "cursor_y g < height_chars g - 1")
  case True
  then show ?thesis using assms by (auto simp: newline_def term_ok_def)
next
  case False
  let ?w = "width_chars g" and ?h = "height_chars g" and ?f = "fb g"
  have ok: "0 < ?w" "0 < ?h" "length (cells g) = ?w * ?h" "(PADDING_Y + 16 * ?h) * (fb_pitch ?f div 4) \<le> pixel_count ?f"
    using assms by (auto simp: term_ok_def)
  have h: "(?h - 1) * 16 + 16 = 16 * ?h" using ok(2) by (cases ?h) auto
  have "(PADDING_Y + 16) * (fb_pitch ?f div 4) + (?h - 1) * 16 * (fb_pitch ?f div 4) = (PADDING_Y + 16 * ?h) * (fb_pitch ?f div 4)"
    using h by (metis add.assoc add.commute add_mult_distrib)
  then obtain f' where f: "scroll_pixels ?h (current_bg g) ?f = Some f'" "same_screen ?f f'"
    using ok(4) by (auto simp: scroll_pixels_def Let_def same_screen_def add_mult_distrib)
  define cs where "cs = take ((?h - 1) * ?w) (drop ?w (cells g) @ drop (length (cells g) - ?w) (cells g)) @ replicate (length (cells g) - (?h - 1) * ?w) (blank g)"
  have "length cs = ?w * ?h" "\<not> length (cells g) < ?w" using ok by (cases ?h, auto simp: cs_def)+
  moreover have "newline g = Some (g\<lparr>cells := cs, fb := f'\<rparr>)"
    using False f(1) calculation(2) by (simp add: newline_def scroll_def Let_def cs_def)
  ultimately show ?thesis using assms f(2) by (auto simp: term_ok_def same_screen_def pixel_count_def)
qed

lemma cell_index: "term_ok g \<Longrightarrow> x < width_chars g \<Longrightarrow> cursor_y g * width_chars g + x < length (cells g)"
proof -
  assume a: "term_ok g" "x < width_chars g"
  then have "cursor_y g * width_chars g + x < (cursor_y g + 1) * width_chars g" by simp
  also have "\<dots> \<le> height_chars g * width_chars g" using a(1) by (intro mult_right_mono) (auto simp: term_ok_def)
  finally show ?thesis using a(1) by (simp add: term_ok_def mult.commute)
qed

lemma print_law:
  assumes ok: "term_ok g" and c: "4 + c * 16 + 16 \<le> length font"
  shows "\<exists>g'. print font c g = Some g' \<and> term_ok g'"
proof -
  obtain g1 where g1: "(if width_chars g \<le> cursor_x g then newline (g\<lparr>cursor_x := 0\<rparr>) else ret g) = Some g1" "term_ok g1" "cursor_x g1 < width_chars g1"
  proof (cases "width_chars g \<le> cursor_x g")
    case True
    have "term_ok (g\<lparr>cursor_x := 0\<rparr>)" using ok by (simp add: term_ok_def)
    from newline_law [OF this] show ?thesis using that True by (auto simp: term_ok_def)
  next
    case False
    then show ?thesis using that [of g] ok by simp
  qed
  let ?i = "cursor_y g1 * width_chars g1 + cursor_x g1"
  let ?c = "\<lparr>cchar = c, cfg = current_fg g1, cbg = current_bg g1\<rparr>"
  have i: "?i < length (cells g1)" by (rule cell_index [OF g1(2,3)])
  have "\<forall>y \<in> set [0..<16]. 4 + cchar ?c * 16 + y < length font" using c by auto
  then obtain f' where f: "draw_rows font ?c (PADDING_X + cursor_x g1 * 8) (PADDING_Y + cursor_y g1 * 16) [0..<16] (fb g1) = Some f'" "same_screen (fb g1) f'"
    using draw_rows_law by blast
  have "print font c g = Some (g1\<lparr>cells := (cells g1)[?i := ?c], fb := f', cursor_x := cursor_x g1 + 1\<rparr>)"
    using g1(1) i f(1) by (simp add: print_def draw_cell_def idx_in_range upd_def)
  moreover have "term_ok (g1\<lparr>cells := (cells g1)[?i := ?c], fb := f', cursor_x := cursor_x g1 + 1\<rparr>)"
    using g1(2,3) f(2) by (auto simp: term_ok_def same_screen_def pixel_count_def)
  ultimately show ?thesis by blast
qed

lemma fold_grid: "term_ok g \<Longrightarrow> (\<And>p g. term_ok g \<Longrightarrow> term_ok (op p g)) \<Longrightarrow> term_ok (fold op ps g)"
  by (induction ps arbitrary: g) auto

lemma term_step_law:
  assumes ok: "term_ok g" and e: "drawable font e"
  shows "\<exists>g'. term_step font e g = Some g' \<and> term_ok g'"
proof (cases e)
  case (Print c)
  then show ?thesis using print_law [OF ok] e by (simp add: drawable_def)
next
  case (Execute b)
  have clear: "\<exists>g'. clear_cell (cursor_x g - 1) (cursor_y g) (g\<lparr>cursor_x := cursor_x g - 1\<rparr>) = Some g' \<and> term_ok g'" if "0 < cursor_x g"
  proof -
    let ?g = "g\<lparr>cursor_x := cursor_x g - 1\<rparr>"
    have "cursor_x g - 1 < width_chars g" using ok that by (auto simp: term_ok_def)
    then have i: "cursor_y g * width_chars g + (cursor_x g - 1) < length (cells g)" by (rule cell_index [OF ok])
    let ?f = "fold (\<lambda>y. fold (\<lambda>x. write_pixel (PADDING_X + (cursor_x g - 1) * 8 + x) (PADDING_Y + cursor_y g * 16 + y) (current_bg ?g)) [0..<8]) [0..<16] (fb ?g)"
    have "same_screen (fb ?g) ?f" by (intro fold_same_screen write_pixel_same)
    then show ?thesis using i ok that by (auto simp: clear_cell_def upd_def term_ok_def same_screen_def pixel_count_def)
  qed
  obtain g1 where g1: "newline g = Some g1" "term_ok g1" using newline_law [OF ok] by blast
  moreover have "term_ok (g1\<lparr>cursor_x := 0\<rparr>)" "term_ok (g\<lparr>cursor_x := 0\<rparr>)" using g1(2) ok by (auto simp: term_ok_def)
  ultimately show ?thesis using Execute clear ok by (auto simp: execute_def)
next
  case (Csi ps a)
  have c1: "term_ok (fold set_color ps g)" by (rule fold_grid [OF ok]) (auto simp: set_color_def term_ok_def split: list.splits)
  have c2: "term_ok (fold (\<lambda>param g. if param = [6] then g\<lparr>replies := replies g @ cursor_reply g\<rparr> else g) ps g)"
    by (rule fold_grid [OF ok]) (auto simp: term_ok_def)
  have c3: "term_ok (clear_screen g)" using ok by (simp add: clear_screen_def term_ok_def pixel_count_def)
  obtain g1 where g1: "newline g = Some g1" "term_ok g1" using newline_law [OF ok] by blast
  moreover have "term_ok (g1\<lparr>cursor_x := 0\<rparr>)" using g1(2) by (auto simp: term_ok_def)
  ultimately show ?thesis using Csi c1 c2 c3 ok by (auto simp: csi_dispatch_def)
qed

lemma grid_new_ok:
  assumes "40 \<le> fb_height f" and "32 \<le> fb_width f"
  shows "term_ok (grid_new f)"
proof -
  let ?h = "(fb_height f - 2 * PADDING_Y) div 16"
  have "16 * ?h \<le> fb_height f - 24" by (simp add: PADDING_Y_def)
  then have "PADDING_Y + 16 * ?h \<le> fb_height f" using assms(1) by (simp add: PADDING_Y_def)
  then have "(PADDING_Y + 16 * ?h) * (fb_pitch f div 4) \<le> fb_height f * (fb_pitch f div 4)" by (rule mult_right_mono) simp
  also have "\<dots> \<le> fb_pitch f * fb_height f div 4"
    using mult_le_mono2 [OF div_times_less_eq_dividend [of "fb_pitch f" 4], of "fb_height f"]
    by (simp add: less_eq_div_iff_mult_less_eq algebra_simps)
  finally have p: "(PADDING_Y + 16 * ?h) * (fb_pitch f div 4) \<le> pixel_count f" by (simp add: pixel_count_def)
  have "0 < ?h" "0 < (fb_width f - 2 * PADDING_X) div 8" using assms by (simp_all add: PADDING_Y_def PADDING_X_def div_greater_zero_iff)
  then show ?thesis using p by (simp add: grid_new_def Let_def clear_screen_def term_ok_def pixel_count_def)
qed

text \<open>
  The terminal does not crash on text it can draw: on a screen with room for a row and a column
  of text, every sequence of callbacks of the escape-sequence parser in which each printed
  character has a glyph in the font runs to its end; the grid keeps its size and the cursor stays
  on a row of it.
\<close>

theorem terminal_no_panic:
  assumes "40 \<le> fb_height f" and "32 \<le> fb_width f" and "\<forall>e \<in> set es. drawable font e"
  shows "\<exists>g. term_run font es (grid_new f) = Some g \<and> cursor_y g < height_chars g \<and> cursor_x g \<le> width_chars g \<and>
    length (cells g) = width_chars g * height_chars g"
proof -
  have "term_ok (grid_new f)" by (rule grid_new_ok [OF assms(1,2)])
  moreover have "\<exists>g'. term_run font es g = Some g' \<and> term_ok g'" if "term_ok g" for g using that assms(3)
  proof (induction es arbitrary: g)
    case (Cons e es)
    then obtain g1 where "term_step font e g = Some g1" "term_ok g1" using term_step_law [of g font e] by auto
    then show ?case using Cons by auto
  qed simp
  ultimately have "\<exists>g. term_run font es (grid_new f) = Some g \<and> term_ok g" by blast
  then show ?thesis by (auto simp: term_ok_def)
qed

theorem terminal_no_panic_witness:
  "\<exists>g. term_run (replicate 8196 0) [Print 65, Execute 10, Csi [[31]] CHR ''m'', Print 66, Execute 8, Csi [[6]] CHR ''n'']
      (grid_new \<lparr>fb_width = 640, fb_height = 480, fb_pitch = 2560, px = (\<lambda>_. 0)\<rparr>) = Some g \<and> cursor_y g < height_chars g"
  using terminal_no_panic [of "\<lparr>fb_width = 640, fb_height = 480, fb_pitch = 2560, px = (\<lambda>_. 0)\<rparr>"
      "[Print 65, Execute 10, Csi [[31]] CHR ''m'', Print 66, Execute 8, Csi [[6]] CHR ''n'']" "replicate 8196 0"]
  by (auto simp: drawable_def simp del: term_run.simps)

section \<open>Where the terminal falls short\<close>

text \<open>A character without a glyph is an index past the font: the terminal panics.\<close>

lemma missing_glyph_panics:
  assumes "term_ok g" and "cursor_x g < width_chars g" and "length font \<le> 4 + c * 16"
  shows "print font c g = None"
proof -
  have "cursor_y g * width_chars g + cursor_x g < length (cells g)" by (rule cell_index [OF assms(1,2)])
  moreover have "draw_rows font \<lparr>cchar = c, cfg = a, cbg = b\<rparr> x y [0..<16] f = None" for a b x y f
    using assms(3) by (simp add: upt_conv_Cons idx_def)
  ultimately show ?thesis using assms(2) by (simp add: print_def draw_cell_def upd_def idx_def)
qed

text \<open>
  Scrolling clears the screen from scanline \<open>16 * (height - 1)\<close> on, without the padding above the text: the
  last 12 scanlines of the row above the new line are cleared too.
\<close>

lemma scroll_erases_text:
  assumes "scroll_pixels h bg f = Some f'" and "2 \<le> h" and "k < 12" and "x < fb_pitch f div 4"
    and "y = (h - 1) * 16 + k" and "y < fb_height f"
  shows "PADDING_Y + (h - 2) * 16 \<le> y \<and> y < PADDING_Y + (h - 1) * 16 \<and> px f' (y * (fb_pitch f div 4) + x) = bg"
proof -
  let ?w = "fb_pitch f div 4"
  have "y * ?w + x < (y + 1) * ?w" using assms(4) by simp
  also have "\<dots> \<le> fb_height f * ?w" using assms(6) by (intro mult_right_mono) auto
  also have "\<dots> \<le> pixel_count f"
    using mult_le_mono2 [OF div_times_less_eq_dividend [of "fb_pitch f" 4], of "fb_height f"]
    by (simp add: pixel_count_def less_eq_div_iff_mult_less_eq algebra_simps)
  finally have "y * ?w + x < pixel_count f" .
  moreover have "(h - 1) * 16 * ?w \<le> y * ?w + x" using assms(5) by (simp add: add_mult_distrib)
  moreover have "PADDING_Y + (h - 2) * 16 \<le> y" "y < PADDING_Y + (h - 1) * 16" using assms(2,3,5) by (auto simp: PADDING_Y_def)
  ultimately show ?thesis using assms(1) by (auto simp: scroll_pixels_def Let_def split: if_splits)
qed

text \<open>A key typed before the reply arrives makes the question fail; the key goes to a list that nothing else reads.\<close>

lemma typed_ahead_lost: "b \<noteq> 27 \<Longrightarrow> get_cursor_column ([], b # input) = (None, [b], input)"
  by (simp add: get_cursor_column_def push_back_def)

end
