(* ===== verification/Termloop.thy ===== *)
theory Termloop
  imports Terminal
begin

text \<open>
  The loop of the terminal, \<^verbatim>\<open>userland/terminal/src/main.rs\<close>: a turn handles what the keyboard and then what
  the shell has sent. \<open>advance\<close> is the escape-sequence parser, a third-party crate: from its state and
  the bytes it is given it computes the callbacks to make. The bytes the terminal writes to the
  shell's input, typed keys and cursor replies alike, are collected in \<open>replies\<close>.
\<close>

section \<open>A turn of the loop\<close>

type_synonym 'v parser = "'v \<Rightarrow> u8 list \<Rightarrow> term_event list \<times> 'v"

definition feed :: "'v parser \<Rightarrow> u8 list \<Rightarrow> u8 list \<Rightarrow> grid \<times> 'v \<Rightarrow> (grid \<times> 'v) run" where
  "feed advance font bs = (\<lambda>(g, v). case advance v bs of (es, v') \<Rightarrow> do { g' \<leftarrow> term_run font es g; ret (g', v') })"

definition to_shell :: "u8 list \<Rightarrow> grid \<times> 'v \<Rightarrow> grid \<times> 'v" where
  "to_shell bs = (\<lambda>(g, v). (g\<lparr>replies := replies g @ bs\<rparr>, v))"

text \<open>The result of a read: an error, or the bytes.\<close>

definition kbd_input :: "'v parser \<Rightarrow> u8 list \<Rightarrow> u8 list option \<Rightarrow> grid \<times> 'v \<Rightarrow> (grid \<times> 'v) run" where
  "kbd_input advance font r = (\<lambda>(g, v).
    case r of
      Some (b # bs) \<Rightarrow>
        if b = 8 then
          (if 0 < input_len g then map_option (to_shell (b # bs)) (feed advance font (b # bs) (g\<lparr>input_len := input_len g - 1\<rparr>, v))
           else ret (g, v))
        else let g1 = (if b = 10 \<or> b = 13 then g\<lparr>input_len := 0\<rparr>
                       else if 32 \<le> b \<or> b = 9 then g\<lparr>input_len := input_len g + length (b # bs)\<rparr> else g)
             in map_option (to_shell (b # bs)) (feed advance font (b # bs) (g1, v))
    | _ \<Rightarrow> ret (g, v))"

text \<open>The end of the shell's output ends the loop.\<close>

definition shell_output :: "'v parser \<Rightarrow> u8 list \<Rightarrow> u8 list option \<Rightarrow> grid \<times> 'v \<Rightarrow> (bool \<times> grid \<times> 'v) run" where
  "shell_output advance font r = (\<lambda>(g, v).
    let g1 = g\<lparr>input_len := 0\<rparr>
    in case r of
         None \<Rightarrow> ret (True, g1, v)
       | Some [] \<Rightarrow> ret (False, g1, v)
       | Some bs \<Rightarrow> map_option (Pair True) (feed advance font bs (g1, v)))"

text \<open>\<open>None\<close> as the input of a turn is a handle that is not ready.\<close>

definition term_turn ::
  "'v parser \<Rightarrow> u8 list \<Rightarrow> u8 list option option \<Rightarrow> u8 list option option \<Rightarrow> grid \<times> 'v \<Rightarrow> (bool \<times> grid \<times> 'v) run" where
  "term_turn advance font kbd shell s =
    do { s1 \<leftarrow> (case kbd of None \<Rightarrow> ret s | Some r \<Rightarrow> kbd_input advance font r s);
         case shell of None \<Rightarrow> ret (True, s1) | Some r \<Rightarrow> shell_output advance font r s1 }"

fun term_loop ::
  "'v parser \<Rightarrow> u8 list \<Rightarrow> (u8 list option option \<times> u8 list option option) list \<Rightarrow> grid \<times> 'v \<Rightarrow> (grid \<times> 'v) run" where
  "term_loop advance font [] s = ret s"
| "term_loop advance font ((kbd, shell) # turns) s =
    do { (go, s1) \<leftarrow> term_turn advance font kbd shell s; if go then term_loop advance font turns s1 else ret s1 }"

section \<open>What the callbacks leave alone\<close>

lemma newline_keeps: "newline g = Some g' \<Longrightarrow> input_len g' = input_len g \<and> replies g' = replies g"
  by (auto simp: newline_def scroll_def Let_def split: if_splits bind_splits)

lemma draw_cell_keeps: "draw_cell font x y g = Some g' \<Longrightarrow> input_len g' = input_len g \<and> replies g' = replies g"
  by (auto simp: draw_cell_def split: if_splits bind_splits)

lemma print_keeps: "print font c g = Some g' \<Longrightarrow> input_len g' = input_len g \<and> replies g' = replies g"
  by (auto simp: print_def split: if_splits bind_splits dest!: newline_keeps draw_cell_keeps)

lemma execute_keeps: "execute b g = Some g' \<Longrightarrow> input_len g' = input_len g \<and> replies g' = replies g"
  by (auto simp: execute_def clear_cell_def split: if_splits bind_splits dest!: newline_keeps)

fun plain :: "term_event \<Rightarrow> bool" where
  "plain (Csi _ _) = False"
| "plain _ = True"

lemma term_run_law:
  assumes "term_ok g" and "\<forall>e \<in> set es. drawable font e \<and> plain e"
  shows "\<exists>g'. term_run font es g = Some g' \<and> term_ok g' \<and> input_len g' = input_len g \<and> replies g' = replies g"
  using assms
proof (induction es arbitrary: g)
  case (Cons e es)
  obtain g1 where g1: "term_step font e g = Some g1" "term_ok g1" using term_step_law [OF Cons.prems(1), of font e] Cons.prems(2) by auto
  have k: "input_len g1 = input_len g" "replies g1 = replies g"
    using g1(1) Cons.prems(2) by (cases e; auto dest: print_keeps execute_keeps)+
  show ?case using Cons.IH [OF g1(2)] Cons.prems(2) g1(1) k by auto
qed simp

section \<open>Typing a line\<close>

text \<open>The line on the screen after some keys: a backspace takes the last character away.\<close>

fun line_after :: "u8 list \<Rightarrow> u8 list \<Rightarrow> u8 list" where
  "line_after acc [] = acc"
| "line_after acc (k # ks) = (if k = 8 then line_after (butlast acc) ks else line_after (acc @ [k]) ks)"

fun type_keys :: "'v parser \<Rightarrow> u8 list \<Rightarrow> u8 list \<Rightarrow> grid \<times> 'v \<Rightarrow> (grid \<times> 'v) run" where
  "type_keys advance font [] s = ret s"
| "type_keys advance font (k # ks) s = do { s1 \<leftarrow> kbd_input advance font (Some [k]) s; type_keys advance font ks s1 }"

lemma line_after_append: "line_after acc (xs @ ys) = line_after (line_after acc xs) ys"
  by (induction xs arbitrary: acc) auto

lemma type_keys_law:
  assumes "\<forall>k \<in> set ks. k = 8 \<or> k = 9 \<or> 32 \<le> k" and "\<forall>v. \<forall>k \<in> set ks. \<forall>e \<in> set (fst (advance v [k])). drawable font e \<and> plain e"
    and "term_ok g" and "input_len g = length line"
  shows "\<exists>g' v' sent. type_keys advance font ks (g, v) = Some (g', v') \<and> term_ok g' \<and> replies g' = replies g @ sent \<and>
    input_len g' = length (line_after line ks) \<and> line_after line sent = line_after line ks \<and>
    (\<forall>xs ys. sent = xs @ 8 # ys \<longrightarrow> line_after line xs \<noteq> [])"
  using assms
proof (induction ks arbitrary: g v line)
  case (Cons k ks)
  have adv: "\<forall>e \<in> set (fst (advance v [k])). drawable font e \<and> plain e" using Cons.prems(2) by auto
  obtain es v1 where a: "advance v [k] = (es, v1)" by (cases "advance v [k]")
  have step: "\<exists>g1. feed advance font [k] (g0, v) = Some (g1, v1) \<and> term_ok g1 \<and> input_len g1 = input_len g0 \<and> replies g1 = replies g0"
    if "term_ok g0" for g0
    using term_run_law [OF that, of es font] adv a by (auto simp: feed_def)
  show ?case
  proof (cases "k = 8 \<and> line = []")
    case True
    then have "kbd_input advance font (Some [k]) (g, v) = Some (g, v)" using Cons.prems(4) by (simp add: kbd_input_def)
    then show ?thesis using Cons.IH [of g "[]" v] Cons.prems True by auto
  next
    case False
    define line1 where "line1 = (if k = 8 then butlast line else line @ [k])"
    define g0 where "g0 = g\<lparr>input_len := length line1\<rparr>"
    have ok0: "term_ok g0" using Cons.prems(3) by (simp add: g0_def term_ok_def)
    obtain g1 where g1: "feed advance font [k] (g0, v) = Some (g1, v1)" "term_ok g1" "input_len g1 = length line1" "replies g1 = replies g"
      using step [OF ok0] by (auto simp: g0_def)
    have ne: "k \<noteq> 10" "k \<noteq> 13" using Cons.prems(1) by auto
    have run: "kbd_input advance font (Some [k]) (g, v) = Some (g1\<lparr>replies := replies g @ [k]\<rparr>, v1)"
      using g1(1,4) False Cons.prems(1,4) ne by (auto simp: kbd_input_def to_shell_def g0_def line1_def Let_def)
    have "term_ok (g1\<lparr>replies := replies g @ [k]\<rparr>)" using g1(2) by (simp add: term_ok_def)
    then obtain g' v' sent where r: "type_keys advance font ks (g1\<lparr>replies := replies g @ [k]\<rparr>, v1) = Some (g', v')" "term_ok g'"
        "replies g' = (replies g @ [k]) @ sent" "input_len g' = length (line_after line1 ks)" "line_after line1 sent = line_after line1 ks"
        "\<forall>xs ys. sent = xs @ 8 # ys \<longrightarrow> line_after line1 xs \<noteq> []"
      using Cons.IH [of "g1\<lparr>replies := replies g @ [k]\<rparr>" line1 v1] Cons.prems(1,2) g1(3) by auto
    have l1: "line_after line (k # zs) = line_after line1 zs" for zs by (simp add: line1_def)
    have er: "line_after line xs \<noteq> []" if "k # sent = xs @ 8 # ys" for xs ys
      using that r(6) False l1 by (cases xs) auto
    show ?thesis using run r l1 er by (intro exI [of _ g'] exI [of _ v'] exI [of _ "k # sent"]) simp
  qed
qed simp


text \<open>
  Typing a line at the terminal: for keys that print a character or erase one, the bytes the
  shell receives describe the same line as the keys, every backspace among them has a character to
  erase, and the terminal's count of the typed characters is the length of the line; so no backspace
  reaches the prompt.
\<close>

theorem typed_line_forwarded:
  assumes "\<forall>k \<in> set ks. k = 8 \<or> k = 9 \<or> 32 \<le> k" and "\<forall>v. \<forall>k \<in> set ks. \<forall>e \<in> set (fst (advance v [k])). drawable font e \<and> plain e"
    and "term_ok g" and "input_len g = 0"
  shows "\<exists>g' v' sent. type_keys advance font ks (g, v) = Some (g', v') \<and> replies g' = replies g @ sent \<and>
    line_after [] sent = line_after [] ks \<and> input_len g' = length (line_after [] ks) \<and>
    (\<forall>xs ys. sent = xs @ 8 # ys \<longrightarrow> line_after [] xs \<noteq> [])"
  using type_keys_law [OF assms(1-3), of "[]" v] assms(4) by auto

text \<open>Only the first byte of a chunk is looked at: further backspaces in it pass unchecked.\<close>

lemma chunk_erases_prompt:
  assumes "input_len g = 0" and "advance v [97, 8, 8] = (es, v')" and "term_run font es (g\<lparr>input_len := 3\<rparr>) = Some g'"
  shows "kbd_input advance font (Some [97, 8, 8]) (g, v) = Some (g'\<lparr>replies := replies g' @ [97, 8, 8]\<rparr>, v') \<and>
    line_after [62] [97, 8, 8] = []"
  using assms by (simp add: kbd_input_def feed_def to_shell_def Let_def numeral_3_eq_3)

section \<open>The loop does not crash\<close>

lemma feed_law:
  assumes "term_ok g" and "\<forall>v bs. \<forall>e \<in> set (fst (advance v bs)). drawable font e"
  shows "\<exists>g' v'. feed advance font bs (g, v) = Some (g', v') \<and> term_ok g'"
proof -
  have run: "\<exists>g'. term_run font es g = Some g' \<and> term_ok g'" if "term_ok g" "\<forall>e \<in> set es. drawable font e" for es g
    using that
  proof (induction es arbitrary: g)
    case (Cons e es)
    obtain g1 where "term_step font e g = Some g1" "term_ok g1" using term_step_law [OF Cons.prems(1), of font e] Cons.prems(2) by auto
    then show ?case using Cons.IH [of g1] Cons.prems(2) by simp
  qed simp
  obtain es v' where a: "advance v bs = (es, v')" by (cases "advance v bs")
  have "\<forall>e \<in> set es. drawable font e" using assms(2) a by (metis fst_conv)
  then obtain g' where "term_run font es g = Some g'" "term_ok g'" using run [OF assms(1)] by blast
  then show ?thesis using a by (simp add: feed_def)
qed

lemma term_ok_upd [simp]:
  "term_ok (g\<lparr>input_len := n\<rparr>) = term_ok g" "term_ok (g\<lparr>replies := r\<rparr>) = term_ok g"
  by (simp_all add: term_ok_def)

lemma kbd_input_law:
  assumes "term_ok g" and "\<forall>v bs. \<forall>e \<in> set (fst (advance v bs)). drawable font e"
  shows "\<exists>g' v'. kbd_input advance font r (g, v) = Some (g', v') \<and> term_ok g'"
proof -
  have f: "\<exists>g' v'. map_option (to_shell bs) (feed advance font bs (g0, v)) = Some (g', v') \<and> term_ok g'" if "term_ok g0" for g0 bs
    using feed_law [OF that assms(2), of bs v] by (auto simp: to_shell_def)
  show ?thesis
  proof (cases "r = None \<or> r = Some []")
    case False
    then obtain b bs where "r = Some (b # bs)" by (cases r) (auto simp: neq_Nil_conv)
    then show ?thesis using f assms(1) by (simp add: kbd_input_def Let_def)
  qed (use assms(1) in \<open>auto simp: kbd_input_def\<close>)
qed

lemma shell_output_law:
  assumes "term_ok g" and "\<forall>v bs. \<forall>e \<in> set (fst (advance v bs)). drawable font e"
  shows "\<exists>b g' v'. shell_output advance font r (g, v) = Some (b, g', v') \<and> term_ok g'"
proof (cases "r = None \<or> r = Some []")
  case False
  then obtain b bs where r: "r = Some (b # bs)" by (cases r) (auto simp: neq_Nil_conv)
  have "term_ok (g\<lparr>input_len := 0\<rparr>)" using assms(1) by simp
  from feed_law [OF this assms(2), of "b # bs" v] show ?thesis by (auto simp: shell_output_def r Let_def)
qed (use assms(1) in \<open>auto simp: shell_output_def Let_def\<close>)

lemma term_loop_law:
  assumes "term_ok g" and "\<forall>v bs. \<forall>e \<in> set (fst (advance v bs)). drawable font e"
  shows "\<exists>g' v'. term_loop advance font turns (g, v) = Some (g', v') \<and> term_ok g'"
  using assms(1)
proof (induction turns arbitrary: g v)
  case (Cons t turns)
  obtain kbd shell where t: "t = (kbd, shell)" by (cases t)
  obtain g1 v1 where 1: "(case kbd of None \<Rightarrow> ret (g, v) | Some r \<Rightarrow> kbd_input advance font r (g, v)) = Some (g1, v1)" "term_ok g1"
    using Cons.prems kbd_input_law [OF Cons.prems assms(2), of "the kbd" v] by (cases kbd) auto
  obtain b g2 v2 where "(case shell of None \<Rightarrow> ret (True, g1, v1) | Some r \<Rightarrow> shell_output advance font r (g1, v1)) = Some (b, g2, v2)" "term_ok g2"
    using 1(2) shell_output_law [OF 1(2) assms(2), of "the shell" v1] by (cases shell) auto
  then show ?case using 1(1) Cons.IH [of g2 v2] by (cases b) (auto simp: t term_turn_def)
qed simp


section \<open>Witness\<close>

definition toy_parser :: "unit parser" where
  "toy_parser v bs = (map (\<lambda>b. if b < 32 then Execute b else Print (unat b)) bs, ())"

theorem typed_line_forwarded_witness:
  "\<exists>g' sent. type_keys toy_parser (replicate 5000 0) [8, 104, 120, 8, 105] (grid_new \<lparr>fb_width = 640, fb_height = 480, fb_pitch = 2560, px = (\<lambda>_. 0)\<rparr>, ()) = Some (g', ()) \<and>
     input_len g' = 2 \<and> line_after [] sent = [104, 105]"
proof -
  let ?g = "grid_new \<lparr>fb_width = 640, fb_height = 480, fb_pitch = 2560, px = (\<lambda>_. 0)\<rparr>"
  have ok: "term_ok ?g" by (simp add: term_ok_def grid_new_def clear_screen_def PADDING_X_def PADDING_Y_def pixel_count_def Let_def)
  have i: "input_len ?g = 0" by (simp add: grid_new_def clear_screen_def Let_def)
  have ks: "\<forall>k \<in> set [8, 104, 120, 8, 105 :: u8]. k = 8 \<or> k = 9 \<or> 32 \<le> k" by simp
  have ev: "\<forall>v. \<forall>k \<in> set [8, 104, 120, 8, 105]. \<forall>e \<in> set (fst (toy_parser v [k])). drawable (replicate 5000 0) e \<and> plain e"
    by (simp add: toy_parser_def drawable_def)
  from typed_line_forwarded [OF ks ev ok i, of "()"] show ?thesis by auto
qed


end
