(* ===== verification/Elf.thy ===== *)
theory Elf
  imports Page_Memory Vma Abi
begin

text \<open>
  Loading programs: \<^verbatim>\<open>core/program/parser.rs\<close> and \<^verbatim>\<open>load_elf\<close> in \<^verbatim>\<open>core/program/mod.rs\<close>. A file is a byte
  list; the file object's handlers are arguments. Reads of the segment bytes are raw pointer
  reads and may run past the file buffer: \<open>heap i\<close> is the byte the kernel heap holds \<open>i\<close> bytes after
  the start of the buffer.
\<close>

section \<open>The ELF format\<close>

datatype loader_error =
    InvalidBuffer | InvalidMagicNumbers | NotAWashingMachine | Not64BitElf
  | UnsupportedElfType u16 | UnsupportedArch u16 | UnsupportedABI u8 | FileReadError

record ehdr =
  e_ident :: "u8 list"
  e_type :: u16
  e_machine :: u16
  e_version :: u32
  e_entry :: u64
  e_phoff :: u64
  e_shoff :: u64
  e_flags :: u32
  e_ehsize :: u16
  e_phentsize :: u16
  e_phnum :: u16
  e_shentsize :: u16
  e_shnum :: u16
  e_shstrndx :: u16

definition decode_ehdr :: "u8 list \<Rightarrow> ehdr" where
  "decode_ehdr bs =
    \<lparr>e_ident = take 16 bs, e_type = field bs 16 2, e_machine = field bs 18 2, e_version = field bs 20 4, e_entry = field bs 24 8,
     e_phoff = field bs 32 8, e_shoff = field bs 40 8, e_flags = field bs 48 4, e_ehsize = field bs 52 2, e_phentsize = field bs 54 2,
     e_phnum = field bs 56 2, e_shentsize = field bs 58 2, e_shnum = field bs 60 2, e_shstrndx = field bs 62 2\<rparr>"

definition ELF_MAGIC_NUMBERS :: "u8 list" where
  "ELF_MAGIC_NUMBERS = [0x7F, 69, 76, 70]"

definition ehdr_from_bytes :: "u8 list \<Rightarrow> loader_error + ehdr" where
  "ehdr_from_bytes bs =
    (if length bs < 64 then Inl InvalidBuffer
     else if take 4 bs \<noteq> ELF_MAGIC_NUMBERS then Inl InvalidMagicNumbers
     else Inr (decode_ehdr bs))"

datatype elf_type = ET_EXEC | ET_DYN

definition get_type :: "ehdr \<Rightarrow> loader_error + elf_type" where
  "get_type h = (if e_type h = 2 then Inr ET_EXEC else if e_type h = 3 then Inr ET_DYN else Inl (UnsupportedElfType (e_type h)))"

definition validate :: "ehdr \<Rightarrow> loader_error + unit" where
  "validate h =
    (if e_ident h ! 4 \<noteq> 2 then Inl Not64BitElf
     else if e_ident h ! 5 \<noteq> 1 then Inl NotAWashingMachine
     else if e_ident h ! 7 \<noteq> 0 then Inl (UnsupportedABI (e_ident h ! 7))
     else if e_machine h \<noteq> 0x3E then Inl (UnsupportedArch (e_machine h))
     else if e_type h \<noteq> 2 \<and> e_type h \<noteq> 3 then Inl (UnsupportedElfType (e_type h))
     else Inr ())"

record phdr =
  p_type :: u32
  p_flags :: u32
  p_offset :: u64
  p_vaddr :: u64
  p_paddr :: u64
  p_filesz :: u64
  p_memsz :: u64
  p_align :: u64

definition decode_phdr :: "u8 list \<Rightarrow> phdr" where
  "decode_phdr bs =
    \<lparr>p_type = field bs 0 4, p_flags = field bs 4 4, p_offset = field bs 8 8, p_vaddr = field bs 16 8, p_paddr = field bs 24 8,
     p_filesz = field bs 32 8, p_memsz = field bs 40 8, p_align = field bs 48 8\<rparr>"

definition phdr_from_bytes :: "u8 list \<Rightarrow> loader_error + phdr" where
  "phdr_from_bytes bs = (if length bs < 56 then Inl InvalidBuffer else Inr (decode_phdr bs))"

record ph_iter =
  table_bytes :: "u8 list"
  ph_size :: nat
  ph_current :: nat
  ph_total :: nat

definition prog_headers :: "ehdr \<Rightarrow> u8 list \<Rightarrow> ph_iter option" where
  "prog_headers h file_bytes =
    (let ph_off = unat (e_phoff h); ph_num = unat (e_phnum h); size = unat (e_phentsize h)
     in if size \<noteq> 56 then None
        else if 2 ^ 64 \<le> ph_num * size then None
        else if 2 ^ 64 \<le> ph_off + ph_num * size then None
        else if length file_bytes < ph_off + ph_num * size then None
        else Some \<lparr>table_bytes = take (ph_num * size) (drop ph_off file_bytes), ph_size = size, ph_current = 0, ph_total = ph_num\<rparr>)"

definition ph_next :: "ph_iter \<Rightarrow> (phdr option \<times> ph_iter) run" where
  "ph_next it =
    (if ph_total it \<le> ph_current it then ret (None, it)
     else let start = ph_current it * ph_size it
          in if length (table_bytes it) < start + ph_size it then panic
             else ret (case phdr_from_bytes (take (ph_size it) (drop start (table_bytes it))) of Inl _ \<Rightarrow> None | Inr p \<Rightarrow> Some p,
                       it\<lparr>ph_current := ph_current it + 1\<rparr>))"

definition PF_X :: u32 where "PF_X = 1"
definition PF_W :: u32 where "PF_W = 2"
definition PT_LOAD :: u32 where "PT_LOAD = 1"

section \<open>Loading a segment\<close>

definition file_at :: "u8 list \<Rightarrow> (nat \<Rightarrow> u8) \<Rightarrow> nat \<Rightarrow> u8" where
  "file_at bs heap i = (if i < length bs then bs ! i else heap i)"

text \<open>
  The page loop: each page is requested from the memory object, cleared, and the part of the
  file's bytes that falls into it is copied.
\<close>

function load_pages ::
  "('c \<Rightarrow> (nat \<times> 'c) run) \<Rightarrow> (nat \<Rightarrow> u8) \<Rightarrow> phdr \<Rightarrow> nat \<Rightarrow> nat \<Rightarrow> vmo \<Rightarrow> pmem \<Rightarrow> 'c \<Rightarrow> ((loader_error + unit) \<times> vmo \<times> pmem \<times> 'c) run" where
  "load_pages palloc src ph total_map_size page_off v m c =
    (if total_map_size \<le> page_off then ret (Inr (), v, m, c)
     else do { (r, v1, c1) \<leftarrow> request_page palloc v c (of_nat page_off);
               case r of
                 Inl _ \<Rightarrow> ret (Inl FileReadError, v1, m, c1)
               | Inr pfn \<Rightarrow>
                   let first = unat (p_vaddr ph AND 0xFFF);
                       m1 = poke m pfn (replicate 4096 0);
                       overlap_start = max page_off first;
                       overlap_end = min (page_off + 4096) (unat ((p_vaddr ph AND 0xFFF) + p_filesz ph));
                       m2 = (if overlap_start < overlap_end
                             then poke m1 (pfn + (overlap_start - page_off))
                                    (map (\<lambda>k. src (unat (p_offset ph + of_nat (overlap_start - first)) + k)) [0..<overlap_end - overlap_start])
                             else m1)
                   in load_pages palloc src ph total_map_size (page_off + 4096) v1 m2 c1 })"
  by pat_completeness auto
termination
  by (relation "measure (\<lambda>(pa, src, ph, total, po, v, m, c). total - po)") auto

declare load_pages.simps [simp del]

definition segment_flags :: "phdr \<Rightarrow> u64" where
  "segment_flags ph = VM_FLAG_USER OR (if p_flags ph AND PF_W \<noteq> 0 then VM_FLAG_WRITE else 0) OR
     (if p_flags ph AND PF_X \<noteq> 0 then VM_FLAG_EXEC else 0)"

text \<open>The address space of the new process: its regions and the memory objects behind them, by number.\<close>

record 'c image =
  im_regions :: "vma list"
  im_objs :: "vmo list"
  im_mem :: pmem
  im_core :: 'c

definition load_segment :: "('c \<Rightarrow> (nat \<times> 'c) run) \<Rightarrow> (nat \<Rightarrow> u8) \<Rightarrow> phdr \<Rightarrow> 'c image \<Rightarrow> ((loader_error + unit) \<times> 'c image) run" where
  "load_segment palloc src ph im =
    (let aligned_vaddr = p_vaddr ph AND NOT 0xFFF;
         total_map_size = align_up ((p_vaddr ph AND 0xFFF) + p_memsz ph)
     in do { (r, v, m, c) \<leftarrow> load_pages palloc src ph (unat total_map_size) 0 (vmo_new total_map_size) (im_mem im) (im_core im);
             let im1 = im\<lparr>im_mem := m, im_core := c\<rparr>
             in case r of
                  Inl e \<Rightarrow> ret (Inl e, im1)
                | Inr _ \<Rightarrow>
                    (case mmap_vmo_at (im_regions im) aligned_vaddr total_map_size (segment_flags ph) (length (im_objs im)) of
                       (None, _) \<Rightarrow> ret (Inl FileReadError, im1)
                     | (Some _, vs) \<Rightarrow> ret (Inr (), im1\<lparr>im_regions := vs, im_objs := im_objs im @ [v]\<rparr>)) })"

function load_headers :: "('c \<Rightarrow> (nat \<times> 'c) run) \<Rightarrow> (nat \<Rightarrow> u8) \<Rightarrow> ph_iter \<Rightarrow> 'c image \<Rightarrow> ((loader_error + unit) \<times> 'c image) run" where
  "load_headers palloc src it im =
    do { (r, it1) \<leftarrow> ph_next it;
         case r of
           None \<Rightarrow> ret (Inr (), im)
         | Some ph \<Rightarrow>
             if p_type ph = PT_LOAD
             then do { (q, im1) \<leftarrow> load_segment palloc src ph im;
                       case q of Inl e \<Rightarrow> ret (Inl e, im1) | Inr _ \<Rightarrow> load_headers palloc src it1 im1 }
             else load_headers palloc src it1 im }"
  by pat_completeness auto
termination
  by (relation "measure (\<lambda>(pa, src, it, im). ph_total it - ph_current it)") (auto simp: ph_next_def Let_def split: if_splits)

declare load_headers.simps [simp del]

text \<open>
  The whole loader. \<open>stat\<close> and \<open>read\<close> are the handlers of the resolved file object on its state; a
  read may deliver fewer bytes than asked for, the rest of the buffer keeps what the heap held.
  The missing check of the program headers is the \<^verbatim>\<open>unwrap\<close> of the code.
\<close>

definition load_elf ::
  "('c \<Rightarrow> (nat \<times> 'c) run) \<Rightarrow> ('f \<Rightarrow> ((invocation_error + u64) \<times> 'f) run) \<Rightarrow> ('f \<Rightarrow> u64 \<Rightarrow> ((invocation_error + u8 list) \<times> 'f) run)
     \<Rightarrow> (nat \<Rightarrow> u8) \<Rightarrow> (invocation_error + 'f) \<Rightarrow> 'c image \<Rightarrow> ((loader_error + u64) \<times> 'c image) run" where
  "load_elf palloc stat read heap file im =
    (case file of
       Inl _ \<Rightarrow> ret (Inl FileReadError, im)
     | Inr f \<Rightarrow>
         do { (sz, f1) \<leftarrow> stat f;
              case sz of
                Inl _ \<Rightarrow> ret (Inl FileReadError, im)
              | Inr file_size \<Rightarrow>
                  if 2 ^ 63 - 8 < unat file_size then ret (Inl FileReadError, im)
                  else do { (r, f2) \<leftarrow> read f1 file_size;
                            case r of
                              Inl _ \<Rightarrow> ret (Inl FileReadError, im)
                            | Inr bs \<Rightarrow>
                                let file_bytes = map (file_at bs heap) [0..<unat file_size]
                                in case ehdr_from_bytes file_bytes of
                                     Inl e \<Rightarrow> ret (Inl e, im)
                                   | Inr h \<Rightarrow>
                                       (case prog_headers h file_bytes of
                                          None \<Rightarrow> panic
                                        | Some it \<Rightarrow>
                                            do { (q, im1) \<leftarrow> load_headers palloc (file_at file_bytes heap) it im;
                                                 ret (case q of Inl e \<Rightarrow> Inl e | Inr _ \<Rightarrow> Inr (e_entry h), im1) }) } })"

section \<open>What a segment holds\<close>

abbreviation seg_first :: "phdr \<Rightarrow> nat" where
  "seg_first ph \<equiv> unat (p_vaddr ph AND 0xFFF)"

definition seg_byte :: "(nat \<Rightarrow> u8) \<Rightarrow> phdr \<Rightarrow> nat \<Rightarrow> u8" where
  "seg_byte src ph i =
    (if seg_first ph \<le> i \<and> i < seg_first ph + unat (p_filesz ph) then src (unat (p_offset ph) + (i - seg_first ph)) else 0)"

definition seg_pages :: "phdr \<Rightarrow> nat" where
  "seg_pages ph = (seg_first ph + unat (p_memsz ph) + 4095) div 4096"

text \<open>The sizes of a segment do not wrap around.\<close>

definition seg_ok :: "phdr \<Rightarrow> bool" where
  "seg_ok ph \<longleftrightarrow> seg_first ph + unat (p_memsz ph) + 4095 < 2 ^ 64 \<and> seg_first ph + unat (p_filesz ph) < 2 ^ 64 \<and>
     unat (p_offset ph) + unat (p_filesz ph) < 2 ^ 64"

definition pages_hold :: "('c \<Rightarrow> nat \<Rightarrow> bool) \<Rightarrow> (nat \<Rightarrow> u8) \<Rightarrow> nat set \<Rightarrow> vmo \<Rightarrow> pmem \<Rightarrow> 'c \<Rightarrow> bool" where
  "pages_hold lv f P v m c \<longleftrightarrow> (\<forall>j \<in> P. \<exists>pg. resident v (of_nat (4096 * j)) = Some pg \<and> lv c pg \<and> (\<forall>t < 4096. m (pg + t) = f (4096 * j + t)))"

lemma align_up_pages:
  assumes "unat x + 4095 < 2 ^ 64"
  shows "unat (align_up x) = 4096 * ((unat x + 4095) div 4096)"
proof -
  have "align_up x = round_to (mask 12) x" by (simp add: align_up_def round_to_def mask_eq_exp_minus_1)
  then show ?thesis using unat_round_to [of 12 x] assms by (simp add: round_up_def mult.commute add.commute)
qed

lemma seg_map_size: "seg_ok ph \<Longrightarrow> unat (align_up ((p_vaddr ph AND 0xFFF) + p_memsz ph)) = 4096 * seg_pages ph"
proof -
  assume ok: "seg_ok ph"
  then have "unat ((p_vaddr ph AND 0xFFF) + p_memsz ph) = seg_first ph + unat (p_memsz ph)"
    using unat_add_lem [of "p_vaddr ph AND 0xFFF" "p_memsz ph"] by (simp add: seg_ok_def)
  then show ?thesis using ok align_up_pages [of "(p_vaddr ph AND 0xFFF) + p_memsz ph"] by (simp add: seg_ok_def seg_pages_def)
qed

text \<open>One page of the loop.\<close>

lemma page_bytes:
  assumes "seg_ok ph" and "t < 4096"
    and "a = max po (seg_first ph)" and "b = min (po + 4096) (unat ((p_vaddr ph AND 0xFFF) + p_filesz ph))"
    and "m' = (if a < b then poke (poke m pg (replicate 4096 0)) (pg + (a - po))
                 (map (\<lambda>k. src (unat (p_offset ph + of_nat (a - seg_first ph)) + k)) [0..<b - a])
               else poke m pg (replicate 4096 0))"
  shows "m' (pg + t) = seg_byte src ph (po + t)"
proof -
  have fe: "unat ((p_vaddr ph AND 0xFFF) + p_filesz ph) = seg_first ph + unat (p_filesz ph)"
    using unat_add_lem [of "p_vaddr ph AND 0xFFF" "p_filesz ph"] assms(1) by (simp add: seg_ok_def)
  show ?thesis
  proof (cases "a < b")
    case True
    then have "a < seg_first ph + unat (p_filesz ph)" using assms(4) fe by simp
    then have "a - seg_first ph \<le> unat (p_filesz ph)" by linarith
    then have lt: "unat (p_offset ph) + (a - seg_first ph) < 2 ^ 64" using assms(1) by (simp add: seg_ok_def)
    then have u: "unat (of_nat (a - seg_first ph) :: u64) = a - seg_first ph" by (simp add: unsigned_of_nat take_bit_nat_eq_self)
    then have "unat (p_offset ph + of_nat (a - seg_first ph)) = unat (p_offset ph) + (a - seg_first ph)"
      using lt unat_add_lem [of "p_offset ph" "of_nat (a - seg_first ph)"] by simp
    moreover obtain d where d: "a = po + d" using assms(3) by (metis le_iff_add max.cobounded1)
    ultimately have src: "m' (pg + t) = (if d \<le> t \<and> po + t < b then src (unat (p_offset ph) + (a - seg_first ph) + (t - d)) else 0)"
      using True assms(2,5) by (auto simp: poke_def)
    have "d \<le> t \<longleftrightarrow> seg_first ph \<le> po + t" "po + t < b \<longleftrightarrow> po + t < seg_first ph + unat (p_filesz ph)"
      "seg_first ph \<le> po + t \<Longrightarrow> a - seg_first ph + (t - d) = po + t - seg_first ph"
      using assms(2-4) d fe by auto
    then show ?thesis unfolding src seg_byte_def by (simp add: add.assoc)
  next
    case False
    then have "\<not> (seg_first ph \<le> po + t \<and> po + t < seg_first ph + unat (p_filesz ph))" using assms(2-4) fe by auto
    then show ?thesis using False assms(2,5) by (auto simp: poke_def seg_byte_def)
  qed
qed

context byte_frames
begin

lemma request_fresh:
  assumes "pok c" and "vmo_inv live c v" and "\<not> is_physical v" and "off < vmo_size v" and "resident v off = None"
    and "reserve < card (stock c)"
  shows "\<exists>a v' c'. request_page palloc v c off = Some (Inr a, v', c') \<and> pok c' \<and> vmo_inv live c' v' \<and> \<not> is_physical v' \<and>
    vmo_size v' = vmo_size v \<and> a \<in> stock c \<and> live c' a \<and> stock c' = stock c - {a} \<and> card (stock c) = Suc (card (stock c')) \<and>
    (\<forall>b. live c b \<longrightarrow> live c' b) \<and> resident v' = (resident v)(off \<mapsto> a)"
proof -
  obtain a c1 where a: "palloc c = Some (a, c1)" using palloc_returns [OF assms(1,6)] by auto
  note al = palloc_some [OF assms(1) a]
  let ?v = "v\<lparr>vmo_pages := bt_insert off a (vmo_pages v)\<rparr>"
  have run: "request_page palloc v c off = Some (Inr a, ?v, c1)" using assms(3-5) a by (simp add: request_page_def not_le)
  have "bt_ok (vmo_pages v)" using assms(2) by (simp add: vmo_inv_def)
  then have res: "resident ?v = (resident v)(off \<mapsto> a)" using al by (auto simp: resident_def fun_eq_iff)
  have "vmo_inv live c1 ?v" using request_page_law [OF assms(1,2), of off] run a by auto
  then show ?thesis using run al res palloc_card [OF assms(1) a] assms(3) by auto
qed

lemma load_pages_law:
  assumes "seg_ok ph" and "n = seg_pages ph" and "pok c" and "vmo_inv live c v" and "\<not> is_physical v"
    and "unat (vmo_size v) = 4096 * n" and "\<forall>j. i \<le> j \<and> j < n \<longrightarrow> resident v (of_nat (4096 * j)) = None"
    and "reserve + (n - i) \<le> card (stock c)" and "i \<le> n"
  shows "\<exists>v' m' c'. load_pages palloc src ph (4096 * n) (4096 * i) v m c = Some (Inr (), v', m', c') \<and> pok c' \<and> vmo_inv live c' v' \<and>
    \<not> is_physical v' \<and> vmo_size v' = vmo_size v \<and> stock c' \<subseteq> stock c \<and> card (stock c) = card (stock c') + (n - i) \<and> kept c m m' \<and>
    (\<forall>b. live c b \<longrightarrow> live c' b) \<and> (\<forall>k a. resident v k = Some a \<longrightarrow> resident v' k = Some a) \<and> pages_hold live (seg_byte src ph) {i..<n} v' m' c'"
  using assms
proof (induction "n - i" arbitrary: i v m c)
  case 0
  then show ?case by (subst load_pages.simps) (simp add: pages_hold_def)
next
  case (Suc d)
  have il: "i < n" and d: "d = n - Suc i" using Suc.hyps(2) by auto
  have sz: "4096 * n < 2 ^ 64" using Suc.prems(6) unsigned_less [of "vmo_size v", where ?'a = nat] by simp
  have u: "unat (of_nat (4096 * j) :: u64) = 4096 * j" if "j < n" for j
  proof -
    have "4096 * j < 2 ^ 64" using that sz by linarith
    then show ?thesis by (rule unat_of_nat64)
  qed
  define off :: u64 where "off = of_nat (4096 * i)"
  have none: "resident v off = None" and room: "reserve < card (stock c)" using Suc.prems(7,8) il by (simp_all add: off_def)
  have "off < vmo_size v" using Suc.prems(6) il u [OF il] by (simp add: off_def word_less_nat_alt)
  then obtain a v1 c1 where rq: "request_page palloc v c off = Some (Inr a, v1, c1)" "pok c1" "vmo_inv live c1 v1" "\<not> is_physical v1"
    "vmo_size v1 = vmo_size v" "a \<in> stock c" "live c1 a" "stock c1 = stock c - {a}" "card (stock c) = Suc (card (stock c1))"
    "\<forall>b. live c b \<longrightarrow> live c1 b" "resident v1 = (resident v)(off \<mapsto> a)"
    using request_fresh [OF Suc.prems(3-5) _ none room] by blast
  define ls le where "ls = max (4096 * i) (seg_first ph)" and "le = min (4096 * i + 4096) (unat ((p_vaddr ph AND 0xFFF) + p_filesz ph))"
  define m2 where "m2 = (if ls < le then poke (poke m a (replicate 4096 0)) (a + (ls - 4096 * i))
         (map (\<lambda>k. src (unat (p_offset ph + of_nat (ls - seg_first ph)) + k)) [0..<le - ls])
       else poke m a (replicate 4096 0))"
  have bytes: "\<forall>t < 4096. m2 (a + t) = seg_byte src ph (4096 * i + t)"
    using page_bytes [OF Suc.prems(1) _ ls_def le_def m2_def] by blast
  have k1: "kept c m (poke m a (replicate 4096 0))" using poke_page_kept [OF Suc.prems(3) rq(6), of 0] by simp
  have k2: "kept c m m2"
  proof (cases "ls < le")
    case True
    have "ls - 4096 * i + length [0..<le - ls] \<le> 4096" using True by (simp add: ls_def le_def)
    then show ?thesis using kept_trans [OF k1 poke_page_kept [OF Suc.prems(3) rq(6)]] True by (simp add: m2_def)
  qed (simp add: m2_def k1)
  have fresh: "resident v1 (of_nat (4096 * j)) = None" if "Suc i \<le> j" "j < n" for j
  proof -
    have "(of_nat (4096 * j) :: u64) \<noteq> off" using u [OF that(2)] u [OF il] that(1) unfolding off_def by (metis Suc_n_not_le_n mult_left_cancel zero_neq_numeral)
    then show ?thesis using Suc.prems(7) that rq(11) by simp
  qed
  have pre: "unat (vmo_size v1) = 4096 * n" "\<forall>j. Suc i \<le> j \<and> j < n \<longrightarrow> resident v1 (of_nat (4096 * j)) = None"
    "reserve + (n - Suc i) \<le> card (stock c1)" "Suc i \<le> n"
    using Suc.prems(6,8) rq(5,9) fresh il by (simp, blast, linarith, simp)
  obtain v' m' c' where ih: "load_pages palloc src ph (4096 * n) (4096 * Suc i) v1 m2 c1 = Some (Inr (), v', m', c')" "pok c'" "vmo_inv live c' v'"
    "\<not> is_physical v'" "vmo_size v' = vmo_size v1" "stock c' \<subseteq> stock c1" "card (stock c1) = card (stock c') + (n - Suc i)" "kept c1 m2 m'"
    "\<forall>b. live c1 b \<longrightarrow> live c' b" "\<forall>k a. resident v1 k = Some a \<longrightarrow> resident v' k = Some a" "pages_hold live (seg_byte src ph) {Suc i..<n} v' m' c'"
    using Suc.hyps(1) [OF d Suc.prems(1,2) rq(2-4) pre] by blast
  have "load_pages palloc src ph (4096 * n) (4096 * i) v m c = load_pages palloc src ph (4096 * n) (4096 * i + 4096) v1 m2 c1"
    using il unfolding load_pages.simps [of palloc src ph "4096 * n" "4096 * i" v m c] off_def [symmetric] rq(1) Let_def
      ls_def [symmetric] le_def [symmetric] by (simp add: m2_def)
  then have "load_pages palloc src ph (4096 * n) (4096 * i) v m c = Some (Inr (), v', m', c')" using ih(1) by (simp add: add.commute)
  moreover have "kept c m m'" using kept_trans [OF k2 kept_shrink [OF _ ih(8)]] rq(8) by auto
  moreover have "pages_hold live (seg_byte src ph) {i..<n} v' m' c'"
  proof -
    have "resident v' off = Some a" using ih(10) rq(11) by simp
    moreover have "\<forall>t < 4096. m' (a + t) = seg_byte src ph (4096 * i + t)" using live_apart [OF rq(2,7) ih(8)] bytes by simp
    ultimately have "pages_hold live (seg_byte src ph) {i} v' m' c'" using ih(9) rq(7) unfolding pages_hold_def off_def by blast
    moreover have "{i..<n} = insert i {Suc i..<n}" using il by auto
    ultimately show ?thesis using ih(11) by (simp add: pages_hold_def)
  qed
  moreover have "resident v' k = Some b" if "resident v k = Some b" for k b
  proof -
    have "k \<noteq> off" using that Suc.prems(7) il by (auto simp: off_def)
    then show ?thesis using that ih(10) rq(11) by simp
  qed
  ultimately show ?case using ih(2-7,9) rq(5,8,9,10) il by auto
qed

lemma pages_hold_later:
  assumes "pages_hold live f P v m c" and "pok c" and "kept c m m'" and "\<forall>b. live c b \<longrightarrow> live c' b"
  shows "pages_hold live f P v m' c'"
  using assms live_apart [OF assms(2) _ assms(3)] unfolding pages_hold_def by metis

lemma load_segment_law:
  assumes "seg_ok ph" and "pok (im_core im)" and "reserve + seg_pages ph \<le> card (stock (im_core im))"
  shows "\<exists>v m' c'. load_segment palloc src ph im =
      Some (case mmap_vmo_at (im_regions im) (p_vaddr ph AND NOT 0xFFF) (of_nat (4096 * seg_pages ph)) (segment_flags ph) (length (im_objs im)) of
          (None, _) \<Rightarrow> (Inl FileReadError, im\<lparr>im_mem := m', im_core := c'\<rparr>)
        | (Some _, vs) \<Rightarrow> (Inr (), im\<lparr>im_mem := m', im_core := c', im_regions := vs, im_objs := im_objs im @ [v]\<rparr>)) \<and>
    pok c' \<and> vmo_inv live c' v \<and> unat (vmo_size v) = 4096 * seg_pages ph \<and> pages_hold live (seg_byte src ph) {0..<seg_pages ph} v m' c' \<and>
    stock c' \<subseteq> stock (im_core im) \<and> card (stock (im_core im)) = card (stock c') + seg_pages ph \<and> kept (im_core im) (im_mem im) m' \<and>
    (\<forall>b. live (im_core im) b \<longrightarrow> live c' b)"
proof -
  let ?sz = "align_up ((p_vaddr ph AND 0xFFF) + p_memsz ph)"
  note sz = seg_map_size [OF assms(1)]
  have "of_nat (unat ?sz) = ?sz" by simp
  then have eq: "?sz = of_nat (4096 * seg_pages ph)" unfolding sz by simp
  have "bt_ok (vmo_pages (vmo_new ?sz))" "vmo_frames (vmo_new ?sz) = []" by (rule vmo_new_empty)+
  then have iv: "vmo_inv live (im_core im) (vmo_new ?sz)" "\<not> is_physical (vmo_new ?sz)" by (simp_all add: vmo_inv_def) (simp add: vmo_new_def)
  have "resident (vmo_new ?sz) k = None" for k by (rule vmo_new_resident)
  moreover have "unat (vmo_size (vmo_new ?sz)) = 4096 * seg_pages ph" using sz by (simp add: vmo_new_def)
  ultimately obtain v m' c' where l: "load_pages palloc src ph (4096 * seg_pages ph) 0 (vmo_new ?sz) (im_mem im) (im_core im) = Some (Inr (), v, m', c')"
    "pok c'" "vmo_inv live c' v" "vmo_size v = ?sz" "stock c' \<subseteq> stock (im_core im)" "card (stock (im_core im)) = card (stock c') + seg_pages ph"
    "kept (im_core im) (im_mem im) m'" "\<forall>b. live (im_core im) b \<longrightarrow> live c' b" "pages_hold live (seg_byte src ph) {0..<seg_pages ph} v m' c'"
    using load_pages_law [OF assms(1) refl assms(2) iv, of 0 src "im_mem im"] assms(3) by (auto simp: vmo_new_def)
  have "load_segment palloc src ph im =
      Some (case mmap_vmo_at (im_regions im) (p_vaddr ph AND NOT 0xFFF) (of_nat (4096 * seg_pages ph)) (segment_flags ph) (length (im_objs im)) of
          (None, _) \<Rightarrow> (Inl FileReadError, im\<lparr>im_mem := m', im_core := c'\<rparr>)
        | (Some _, vs) \<Rightarrow> (Inr (), im\<lparr>im_mem := m', im_core := c', im_regions := vs, im_objs := im_objs im @ [v]\<rparr>))"
    unfolding load_segment_def Let_def sz using l(1) by (simp add: eq split: prod.split option.split)
  then show ?thesis using l(2-9) sz by metis
qed

end

section \<open>The whole image\<close>

text \<open>The program headers of a file and the regions they ask for, placed one after the other.\<close>

definition loads :: "phdr list \<Rightarrow> phdr list" where
  "loads phs = filter (\<lambda>ph. p_type ph = PT_LOAD) phs"

fun place :: "vma list \<Rightarrow> nat \<Rightarrow> phdr list \<Rightarrow> vma list option" where
  "place vs k [] = Some vs"
| "place vs k (ph # phs) =
    (case mmap_vmo_at vs (p_vaddr ph AND NOT 0xFFF) (of_nat (4096 * seg_pages ph)) (segment_flags ph) k of
       (None, _) \<Rightarrow> None
     | (Some _, vs') \<Rightarrow> place vs' (Suc k) phs)"

definition iter_headers :: "ph_iter \<Rightarrow> phdr list" where
  "iter_headers it = map (\<lambda>i. decode_phdr (take 56 (drop (i * 56) (table_bytes it)))) [ph_current it..<ph_total it]"

definition iter_ok :: "ph_iter \<Rightarrow> bool" where
  "iter_ok it \<longleftrightarrow> ph_size it = 56 \<and> length (table_bytes it) = ph_total it * 56"

lemma ph_next_law:
  assumes "iter_ok it"
  shows "ph_next it = (case iter_headers it of [] \<Rightarrow> Some (None, it) | ph # _ \<Rightarrow> Some (Some ph, it\<lparr>ph_current := Suc (ph_current it)\<rparr>))"
    and "iter_headers (it\<lparr>ph_current := Suc (ph_current it)\<rparr>) = tl (iter_headers it)"
    and "iter_ok (it\<lparr>ph_current := n\<rparr>)"
proof -
  show "iter_ok (it\<lparr>ph_current := n\<rparr>)" using assms by (simp add: iter_ok_def)
  show "iter_headers (it\<lparr>ph_current := Suc (ph_current it)\<rparr>) = tl (iter_headers it)" by (simp add: iter_headers_def map_tl [symmetric])
  show "ph_next it = (case iter_headers it of [] \<Rightarrow> Some (None, it) | ph # _ \<Rightarrow> Some (Some ph, it\<lparr>ph_current := Suc (ph_current it)\<rparr>))"
  proof (cases "ph_total it \<le> ph_current it")
    case False
    then have "Suc (ph_current it) * 56 \<le> ph_total it * 56" by (intro mult_le_mono1) simp
    then have "ph_current it * 56 + 56 \<le> length (table_bytes it)" using assms by (simp add: iter_ok_def)
    then show ?thesis using False assms by (simp add: ph_next_def iter_headers_def iter_ok_def Let_def phdr_from_bytes_def upt_conv_Cons)
  qed (simp add: ph_next_def iter_headers_def)
qed

text \<open>An image in which the memory objects from number \<open>k\<close> on hold the given segments.\<close>

definition holds_segments :: "('c \<Rightarrow> nat \<Rightarrow> bool) \<Rightarrow> (nat \<Rightarrow> u8) \<Rightarrow> phdr list \<Rightarrow> nat \<Rightarrow> 'c image \<Rightarrow> bool" where
  "holds_segments lv src phs k im \<longleftrightarrow> length (im_objs im) = k + length phs \<and>
    (\<forall>j < length phs. unat (vmo_size (im_objs im ! (k + j))) = 4096 * seg_pages (phs ! j) \<and>
       pages_hold lv (seg_byte src (phs ! j)) {0..<seg_pages (phs ! j)} (im_objs im ! (k + j)) (im_mem im) (im_core im))"

context byte_frames
begin

lemma load_headers_law:
  assumes "iter_ok it" and "\<forall>ph \<in> set (loads (iter_headers it)). seg_ok ph" and "pok (im_core im)"
    and "reserve + sum_list (map seg_pages (loads (iter_headers it))) \<le> card (stock (im_core im))"
    and "holds_segments live src done k im"
  shows "\<exists>im'. load_headers palloc src it im =
      Some (if place (im_regions im) (k + length done) (loads (iter_headers it)) = None then Inl FileReadError else Inr (), im') \<and>
    pok (im_core im') \<and> kept (im_core im) (im_mem im) (im_mem im') \<and> stock (im_core im') \<subseteq> stock (im_core im) \<and>
    card (stock (im_core im)) \<le> card (stock (im_core im')) + sum_list (map seg_pages (loads (iter_headers it))) \<and>
    take k (im_objs im') = take k (im_objs im) \<and>
    (\<forall>vs. place (im_regions im) (k + length done) (loads (iter_headers it)) = Some vs \<longrightarrow>
       im_regions im' = vs \<and> holds_segments live src (done @ loads (iter_headers it)) k im')"
  using assms
proof (induction "length (iter_headers it)" arbitrary: it im "done")
  case 0
  then show ?case by (subst load_headers.simps) (simp add: ph_next_law(1) loads_def)
next
  case (Suc n)
  obtain ph phs where h: "iter_headers it = ph # phs" using Suc.hyps(2) by (cases "iter_headers it") auto
  let ?it = "it\<lparr>ph_current := Suc (ph_current it)\<rparr>"
  have it: "iter_ok ?it" "iter_headers ?it = phs" using ph_next_law(2,3) [OF Suc.prems(1)] h by auto
  have nx: "ph_next it = Some (Some ph, ?it)" using ph_next_law(1) [OF Suc.prems(1)] h by simp
  have len: "n = length (iter_headers ?it)" using Suc.hyps(2) h it(2) by simp
  show ?case
  proof (cases "p_type ph = PT_LOAD")
    case False
    then have l: "loads (iter_headers it) = loads (iter_headers ?it)" by (simp add: loads_def h it(2))
    have "load_headers palloc src it im = load_headers palloc src ?it im" using nx False by (subst load_headers.simps) simp
    then show ?thesis using Suc.hyps(1) [OF len it(1)] Suc.prems(2-5) unfolding l by simp
  next
    case True
    then have l: "loads (iter_headers it) = ph # loads phs" by (simp add: loads_def h)
    let ?r = "mmap_vmo_at (im_regions im) (p_vaddr ph AND NOT 0xFFF) (of_nat (4096 * seg_pages ph)) (segment_flags ph) (length (im_objs im))"
    have ol: "length (im_objs im) = k + length done" using Suc.prems(5) by (simp add: holds_segments_def)
    obtain v m' c' where s: "load_segment palloc src ph im =
      Some (case ?r of (None, _) \<Rightarrow> (Inl FileReadError, im\<lparr>im_mem := m', im_core := c'\<rparr>)
        | (Some _, vs) \<Rightarrow> (Inr (), im\<lparr>im_mem := m', im_core := c', im_regions := vs, im_objs := im_objs im @ [v]\<rparr>))"
      "pok c'" "unat (vmo_size v) = 4096 * seg_pages ph" "pages_hold live (seg_byte src ph) {0..<seg_pages ph} v m' c'"
      "stock c' \<subseteq> stock (im_core im)" "card (stock (im_core im)) = card (stock c') + seg_pages ph" "kept (im_core im) (im_mem im) m'"
      "\<forall>b. live (im_core im) b \<longrightarrow> live c' b"
      using load_segment_law [of ph im src] Suc.prems(2-4) l by auto
    obtain o' vs where r: "?r = (o', vs)" by (cases ?r)
    show ?thesis
    proof (cases o')
      case None
      then have "place (im_regions im) (k + length done) (loads (iter_headers it)) = None" using r by (simp add: l ol)
      moreover have "load_headers palloc src it im = Some (Inl FileReadError, im\<lparr>im_mem := m', im_core := c'\<rparr>)"
        using nx True s(1) r None by (subst load_headers.simps) simp
      ultimately show ?thesis using s(2,5,6,7) by (simp add: l)
    next
      case (Some a)
      let ?im = "im\<lparr>im_mem := m', im_core := c', im_regions := vs, im_objs := im_objs im @ [v]\<rparr>"
      have run: "load_headers palloc src it im = load_headers palloc src ?it ?im"
        using nx True s(1) r Some by (subst load_headers.simps) simp
      have pl: "place (im_regions im) (k + length done) (loads (iter_headers it)) = place vs (k + length (done @ [ph])) (loads phs)"
        using r Some by (simp add: l ol)
      have hs: "holds_segments live src (done @ [ph]) k ?im"
        using Suc.prems(5) s(3,4) pages_hold_later [OF _ Suc.prems(3) s(7,8)] unfolding holds_segments_def
        by (auto simp: nth_append less_Suc_eq)
      obtain im' where ih: "load_headers palloc src ?it ?im =
          Some (if place vs (k + length (done @ [ph])) (loads phs) = None then Inl FileReadError else Inr (), im')"
        "pok (im_core im')" "kept c' m' (im_mem im')" "stock (im_core im') \<subseteq> stock c'" "take k (im_objs im') = take k (im_objs im @ [v])"
        "card (stock c') \<le> card (stock (im_core im')) + sum_list (map seg_pages (loads phs))"
        "\<forall>ws. place vs (k + length (done @ [ph])) (loads phs) = Some ws \<longrightarrow> im_regions im' = ws \<and> holds_segments live src ((done @ [ph]) @ loads phs) k im'"
        using Suc.hyps(1) [OF len it(1), of ?im "done @ [ph]"] Suc.prems(2,4) s(2,6) hs unfolding it(2) l by auto
      have "kept (im_core im) (im_mem im) (im_mem im')" using kept_trans [OF s(7) kept_shrink [OF s(5) ih(3)]] .
      moreover have "take k (im_objs im') = take k (im_objs im)" using ih(5) ol by simp
      moreover have "card (stock (im_core im)) \<le> card (stock (im_core im')) + sum_list (map seg_pages (loads (iter_headers it)))"
        using s(6) ih(6) by (simp add: l)
      moreover have "(done @ [ph]) @ loads phs = done @ loads (iter_headers it)" by (simp add: l)
      ultimately show ?thesis using ih(1,2,4,7) s(5) unfolding run pl by auto
    qed
  qed
qed

end

lemma prog_headers_ok: "prog_headers h bs = Some it \<Longrightarrow> iter_ok it"
  by (auto simp: prog_headers_def iter_ok_def Let_def split: if_splits)

text \<open>The state after the loader has run on segments \<open>phs\<close>.\<close>

definition loaded :: "(nat \<Rightarrow> u8) \<Rightarrow> phdr list \<Rightarrow> core_alloc image \<Rightarrow> core_alloc image \<Rightarrow> bool" where
  "loaded src phs im im' \<longleftrightarrow> core_ok (im_core im') \<and> (\<forall>a. a div 4096 * 4096 \<notin> core_stock (im_core im) \<longrightarrow> im_mem im' a = im_mem im a) \<and>
     card (core_stock (im_core im)) \<le> card (core_stock (im_core im')) + sum_list (map seg_pages phs) \<and>
     (\<forall>vs. place (im_regions im) (length (im_objs im)) phs = Some vs \<longrightarrow> im_regions im' = vs \<and>
        take (length (im_objs im)) (im_objs im') = im_objs im \<and> holds_segments core_live src phs (length (im_objs im)) im')"

lemma load_elf_law:
  assumes "stat f = Some (Inr (of_nat (length bs)), f1)" and "read f1 (of_nat (length bs)) = Some (Inr bs, f2)" and "length bs \<le> 2 ^ 63 - 8"
    and "ehdr_from_bytes bs = Inr h" and "prog_headers h bs = Some it" and "phs = loads (iter_headers it)"
    and "\<forall>ph \<in> set phs. seg_ok ph" and "core_ok (im_core im)" and "127 + sum_list (map seg_pages phs) \<le> card (core_stock (im_core im))"
  shows "\<exists>im'. load_elf core_page_alloc stat read heap (Inr f) im =
       Some (if place (im_regions im) (length (im_objs im)) phs = None then Inl FileReadError else Inr (e_entry h), im') \<and>
     loaded (file_at bs heap) phs im im'"
proof -
  have l: "length bs < 2 ^ 64" using assms(3) by simp
  have u: "unat (of_nat (length bs) :: u64) = length bs" by (rule unat_of_nat64 [OF l])
  have fb: "map (file_at bs heap) [0..<length bs] = bs" by (rule nth_equalityI) (simp_all add: file_at_def)
  define k where "k = length (im_objs im)"
  have "holds_segments core_live (file_at bs heap) [] k im" by (simp add: holds_segments_def k_def)
  then obtain im' where im': "load_headers core_page_alloc (file_at bs heap) it im =
       Some (if place (im_regions im) k phs = None then Inl FileReadError else Inr (), im')"
     "core_ok (im_core im')" "core_mem.kept (im_core im) (im_mem im) (im_mem im')" "take k (im_objs im') = take k (im_objs im)"
     "card (core_stock (im_core im)) \<le> card (core_stock (im_core im')) + sum_list (map seg_pages phs)"
     "\<forall>vs. place (im_regions im) k phs = Some vs \<longrightarrow> im_regions im' = vs \<and> holds_segments core_live (file_at bs heap) phs k im'"
    using core_mem.load_headers_law [OF prog_headers_ok [OF assms(5)], of im "file_at bs heap" "[]" k] assms(6-9) by auto
  have "load_elf core_page_alloc stat read heap (Inr f) im =
      Some (if place (im_regions im) k phs = None then Inl FileReadError else Inr (e_entry h), im')"
    using assms(1-5) im'(1) by (simp add: load_elf_def u fb)
  then show ?thesis using im'(2-6) by (auto simp: loaded_def core_mem.kept_def k_def)
qed

text \<open>
  C16. Loading a program. For a file that is delivered whole, starts with an ELF header and has its
  program headers inside, with enough free frames, the loader returns: the entry point if every
  loadable segment finds a free place at its address, an error otherwise. In the first case the
  process has one new region per loadable segment, placed in order and with the segment's
  rights, whose memory object has a frame for every page; the frames hold the file's bytes where
  the segment has file contents and zero everywhere else. No frame that was in use is changed.
\<close>

theorem load_elf_correct:
  assumes "stat f = Some (Inr (of_nat (length bs)), f1)" and "read f1 (of_nat (length bs)) = Some (Inr bs, f2)" and "length bs \<le> 2 ^ 63 - 8"
    and "ehdr_from_bytes bs = Inr h" and "prog_headers h bs = Some it" and "phs = loads (iter_headers it)"
    and "\<forall>ph \<in> set phs. seg_ok ph" and "core_ok (im_core im)" and "127 + sum_list (map seg_pages phs) \<le> card (core_stock (im_core im))"
    and "k = length (im_objs im)"
  shows "\<exists>im'. load_elf core_page_alloc stat read heap (Inr f) im =
       Some (if place (im_regions im) k phs = None then Inl FileReadError else Inr (e_entry h), im') \<and>
     core_ok (im_core im') \<and> (\<forall>a. a div 4096 * 4096 \<notin> core_stock (im_core im) \<longrightarrow> im_mem im' a = im_mem im a) \<and>
     (\<forall>vs. place (im_regions im) k phs = Some vs \<longrightarrow>
        im_regions im' = vs \<and> take k (im_objs im') = im_objs im \<and> holds_segments core_live (file_at bs heap) phs k im')"
  using load_elf_law [of stat f bs f1 read f2 h it phs im heap, OF assms(1-9)] unfolding loaded_def assms(10) by blast

text \<open>A program of one segment: four bytes of code at 0x400078, in a page that is otherwise zero.\<close>

definition sample_elf :: "u8 list" where
  "sample_elf =
    [0x7F, 69, 76, 70, 2, 1, 1, 0] @ replicate 8 0 @ le_bytes 2 (2 :: u16) @ le_bytes 2 (0x3E :: u16) @ le_bytes 4 (1 :: u32) @
    le_bytes 8 (0x400078 :: u64) @ le_bytes 8 (64 :: u64) @ replicate 12 0 @ le_bytes 2 (64 :: u16) @ le_bytes 2 (56 :: u16) @
    le_bytes 2 (1 :: u16) @ replicate 6 0 @
    le_bytes 4 (1 :: u32) @ le_bytes 4 (5 :: u32) @ le_bytes 8 (120 :: u64) @ le_bytes 8 (0x400078 :: u64) @ replicate 8 0 @
    le_bytes 8 (4 :: u64) @ le_bytes 8 (4 :: u64) @ le_bytes 8 (0x1000 :: u64) @ [0x90, 0x90, 0xEB, 0xFE]"

definition sample_phdr :: phdr where
  "sample_phdr = \<lparr>p_type = 1, p_flags = 5, p_offset = 120, p_vaddr = 0x400078, p_paddr = 0, p_filesz = 4, p_memsz = 4, p_align = 0x1000\<rparr>"

definition sample_image :: "core_alloc image" where
  "sample_image = \<lparr>im_regions = [], im_objs = [], im_mem = (\<lambda>_. 7), im_core = roomy_core\<rparr>"

lemma sample_elf_header:
  "\<exists>h it. ehdr_from_bytes sample_elf = Inr h \<and> prog_headers h sample_elf = Some it \<and> loads (iter_headers it) = [sample_phdr] \<and> e_entry h = 0x400078"
proof -
  have len: "length sample_elf = 124" by (simp add: sample_elf_def)
  have h: "ehdr_from_bytes sample_elf = Inr (decode_ehdr sample_elf)"
    by (simp add: ehdr_from_bytes_def len) (simp add: sample_elf_def ELF_MAGIC_NUMBERS_def)
  have f: "e_phoff (decode_ehdr sample_elf) = 64" "e_phnum (decode_ehdr sample_elf) = 1" "e_phentsize (decode_ehdr sample_elf) = 56"
    "e_entry (decode_ehdr sample_elf) = 0x400078"
    by (simp_all add: decode_ehdr_def sample_elf_def le_roundtrip)
  have "decode_phdr (take 56 (drop 64 sample_elf)) = sample_phdr"
    by (simp add: decode_phdr_def sample_phdr_def sample_elf_def le_roundtrip)
  then show ?thesis using h f
    by (simp add: prog_headers_def len iter_headers_def loads_def PT_LOAD_def) (simp add: sample_phdr_def)
qed

theorem load_elf_correct_witness:
  "\<exists>im' v. load_elf core_page_alloc (\<lambda>f. Some (Inr 124, f)) (\<lambda>f _. Some (Inr sample_elf, f)) (\<lambda>_. 0) (Inr ()) sample_image =
     Some (Inr 0x400078, im') \<and> im_objs im' = [v] \<and>
     pages_hold core_live (seg_byte (file_at sample_elf (\<lambda>_. 0)) sample_phdr) {0} v (im_mem im') (im_core im')"
proof -
  obtain h it where h: "ehdr_from_bytes sample_elf = Inr h" "prog_headers h sample_elf = Some it" "loads (iter_headers it) = [sample_phdr]"
    "e_entry h = 0x400078" using sample_elf_header by blast
  have len: "length sample_elf = 124" by (simp add: sample_elf_def)
  have pg: "seg_pages sample_phdr = 1" "seg_ok sample_phdr" by (simp_all add: seg_pages_def seg_ok_def sample_phdr_def)
  have core: "core_ok (im_core sample_image)" "card (core_stock (im_core sample_image)) = 512" using roomy_core_ok by (simp_all add: sample_image_def)
  obtain vs where pl: "place (im_regions sample_image) 0 [sample_phdr] = Some vs" by (simp add: sample_image_def mmap_vmo_at_def Let_def)
  obtain im' where "load_elf core_page_alloc (\<lambda>f. Some (Inr 124, f)) (\<lambda>f _. Some (Inr sample_elf, f)) (\<lambda>_. 0) (Inr ()) sample_image =
     Some (Inr 0x400078, im')" "holds_segments core_live (file_at sample_elf (\<lambda>_. 0)) [sample_phdr] 0 im'"
    using load_elf_correct [of "\<lambda>f. Some (Inr 124, f)" "()" sample_elf "()" "\<lambda>f _. Some (Inr sample_elf, f)" "()" h it "[sample_phdr]" sample_image 0 "\<lambda>_. 0"]
      h pl pg core len by (auto simp: sample_image_def)
  then show ?thesis using pg by (cases "im_objs im'") (auto simp: holds_segments_def)
qed

text \<open>
  The result of looking for the program headers is unwrapped: a file with the right magic bytes
  whose header names another entry size, or a table outside the file, panics the kernel.
\<close>

lemma malformed_headers_panic:
  assumes "stat f = Some (Inr (of_nat (length bs)), f1)" and "read f1 (of_nat (length bs)) = Some (Inr bs, f2)" and "64 \<le> length bs"
    and "length bs \<le> 2 ^ 63 - 8" and "take 4 bs = ELF_MAGIC_NUMBERS" and "(field bs 54 2 :: u16) \<noteq> 56"
  shows "load_elf palloc stat read heap (Inr f) im = None"
proof -
  have l: "length bs < 2 ^ 64" using assms(4) by simp
  have u: "unat (of_nat (length bs) :: u64) = length bs" by (rule unat_of_nat64 [OF l])
  have fb: "map (file_at bs heap) [0..<length bs] = bs" by (rule nth_equalityI) (simp_all add: file_at_def)
  have "e_phentsize (decode_ehdr bs) \<noteq> 56" using assms(6) by (simp add: decode_ehdr_def)
  then have "unat (e_phentsize (decode_ehdr bs)) \<noteq> 56" using word_unat_eq_iff [of "e_phentsize (decode_ehdr bs)" 56] by simp
  then show ?thesis using assms(1-5) by (simp add: load_elf_def u fb ehdr_from_bytes_def prog_headers_def Let_def)
qed

end
