(* ===== verification/Procenv.thy ===== *)
theory Procenv
  imports Elf Handles Usermem
begin

text \<open>
  Starting a process: \<^verbatim>\<open>ProcessEnvironment::inject\<close> (\<^verbatim>\<open>core/program/env.rs\<close>), which lays the init package,
  the granted handles and the arguments out on the top page of the new stack, and the spawn
  operation of \<^verbatim>\<open>core/object/models/procman.rs\<close> that composes it with the handle table and the loader.
  Structures are written in their C layout; \<open>pad\<close> is what the padding bytes of a grant hold.
\<close>

section \<open>The init package\<close>

record init_package =
  self_handle :: handle_id
  root_handle :: handle_id
  source_handle :: handle_id
  sink_handle :: handle_id
  extra_handles_ptr :: u64
  extra_handles_len :: u64
  pk_argc :: u64
  pk_argv :: u64

definition encode_package :: "init_package \<Rightarrow> u8 list" where
  "encode_package p = le_bytes 8 (self_handle p) @ le_bytes 8 (root_handle p) @ le_bytes 8 (source_handle p) @ le_bytes 8 (sink_handle p) @
     le_bytes 8 (extra_handles_ptr p) @ le_bytes 8 (extra_handles_len p) @ le_bytes 8 (pk_argc p) @ le_bytes 8 (pk_argv p)"

definition decode_package :: "u8 list \<Rightarrow> init_package" where
  "decode_package bs =
    \<lparr>self_handle = field bs 0 8, root_handle = field bs 8 8, source_handle = field bs 16 8, sink_handle = field bs 24 8,
     extra_handles_ptr = field bs 32 8, extra_handles_len = field bs 40 8, pk_argc = field bs 48 8, pk_argv = field bs 56 8\<rparr>"

definition encode_grant :: "u8 list \<Rightarrow> handle_grant \<Rightarrow> u8 list" where
  "encode_grant pad g = le_bytes 8 (hg_id g) @ le_bytes 1 (hg_rights g) @ pad @ le_bytes 8 (hg_tag g)"

definition decode_grant :: "u8 list \<Rightarrow> handle_grant" where
  "decode_grant bs = \<lparr>hg_id = field bs 0 8, hg_rights = field bs 8 1, hg_tag = field bs 16 8\<rparr>"

section \<open>Laying out the stack page\<close>

text \<open>
  The scan of the argument buffer: at every terminator the address of the string that ends there
  is written to the next slot of the pointer array.
\<close>

fun argv_loop :: "u8 list \<Rightarrow> nat \<Rightarrow> nat \<Rightarrow> u64 \<Rightarrow> nat \<Rightarrow> nat \<Rightarrow> pmem \<Rightarrow> pmem" where
  "argv_loop [] i start cur arg_idx argv_ptr m = m"
| "argv_loop (b # bs) i start cur arg_idx argv_ptr m =
    (if b = 0
     then argv_loop bs (i + 1) (i + 1) (cur + of_nat (i - start + 1)) (arg_idx + 1) argv_ptr (poke m (argv_ptr + 8 * arg_idx) (le_bytes 8 cur))
     else argv_loop bs (i + 1) start cur arg_idx argv_ptr m)"

definition inject ::
  "('c \<Rightarrow> (nat \<times> 'c) run) \<Rightarrow> u8 list \<Rightarrow> vmo \<Rightarrow> u64 \<Rightarrow> u64 \<Rightarrow> handle_grant list \<Rightarrow> u8 list \<Rightarrow> nat \<Rightarrow> init_package \<Rightarrow> pmem \<Rightarrow> 'c
     \<Rightarrow> ((invocation_error + u64 \<times> u64) \<times> vmo \<times> pmem \<times> 'c) run" where
  "inject palloc pad stack_vmo stack_vaddr stack_size extra_handles args_buffer argc initpkg m c =
    (let top_page_offset = stack_size - 0x1000
     in do { (r, v1, c1) \<leftarrow> request_page palloc stack_vmo c top_page_offset;
             case r of
               Inl _ \<Rightarrow> ret (Inl OutOfMemory, v1, m, c1)
             | Inr phys_frame \<Rightarrow>
                 let handles_array_size = length extra_handles * 24;
                     argv_array_size = (argc + 1) * 8;
                     strings_size = length args_buffer;
                     total_payload_size = 64 + handles_array_size + argv_array_size + strings_size
                 in if 4096 < total_payload_size then ret (Inl OutOfMemory, v1, m, c1)
                    else
                      let pkg_offset = (4096 - total_payload_size) div 16 * 16;
                          handles_offset = pkg_offset + 64;
                          argv_offset = handles_offset + handles_array_size;
                          strings_offset = argv_offset + argv_array_size;
                          base_vaddr = stack_vaddr + top_page_offset;
                          m1 = poke m (phys_frame + strings_offset) args_buffer;
                          m2 = argv_loop args_buffer 0 0 (base_vaddr + of_nat strings_offset) 0 (phys_frame + argv_offset) m1;
                          m3 = poke m2 (phys_frame + argv_offset + 8 * argc) (le_bytes 8 (0 :: u64));
                          m4 = poke m3 (phys_frame + handles_offset) (concat (map (encode_grant pad) extra_handles));
                          pkg_vaddr = base_vaddr + of_nat pkg_offset;
                          m5 = poke m4 (phys_frame + pkg_offset)
                                 (encode_package (initpkg\<lparr>extra_handles_ptr := base_vaddr + of_nat handles_offset, pk_argc := of_nat argc,
                                    pk_argv := base_vaddr + of_nat argv_offset\<rparr>))
                      in ret (Inr (pkg_vaddr, pkg_vaddr - 8), v1, m5, c1) })"

section \<open>Spawning\<close>

text \<open>
  The grants and the arguments are copied from the caller's memory; the number of arguments is
  the number of terminators. A length whose buffer would exceed the largest allocation panics;
  that the kernel heap can be exhausted by a smaller one is not modelled. The thread that starts the process is placed by the dispatcher:
  the result names its entry point, stack pointer and argument.
\<close>

definition read_grants :: "umem \<Rightarrow> u64 \<Rightarrow> u64 \<Rightarrow> (handle_grant list option) run" where
  "read_grants um ptr len =
    do { (okay, bs) \<leftarrow> safe_copy_from um ptr (24 * len);
         ret (if okay then Some (map (\<lambda>i. decode_grant (take 24 (drop (24 * i) bs))) [0..<unat len]) else None) }"

definition read_args :: "umem \<Rightarrow> u64 \<Rightarrow> u64 \<Rightarrow> (u8 list option) run" where
  "read_args um ptr len =
    (if len = 0 then ret (Some [])
     else if 2 ^ 63 \<le> unat len then panic
     else do { (okay, bs) \<leftarrow> safe_copy_from um ptr len; ret (if okay then Some bs else None) })"

definition stack_bytes :: u64 where
  "stack_bytes = 16384"

record start_info =
  st_entry :: u64
  st_stack_top :: u64
  st_arg :: u64

definition spawn_process ::
  "('c \<Rightarrow> (nat \<times> 'c) run) \<Rightarrow> ('f \<Rightarrow> ((invocation_error + u64) \<times> 'f) run) \<Rightarrow> ('f \<Rightarrow> u64 \<Rightarrow> ((invocation_error + u8 list) \<times> 'f) run)
     \<Rightarrow> (nat \<Rightarrow> u8) \<Rightarrow> u8 list \<Rightarrow> ('o \<Rightarrow> 'f) \<Rightarrow> 'o \<Rightarrow> umem \<Rightarrow> access_rights \<Rightarrow> proc_man_op \<Rightarrow> 'o handle_table \<Rightarrow> 'c image
     \<Rightarrow> ((invocation_error + u64 \<times> start_info \<times> 'o handle_table) \<times> 'o handle_table \<times> 'c image) run" where
  "spawn_process palloc stat rd heap pad file_of new_proc um calling op parent im =
    (case op of Spawn exec_handle rooth root_rights source sink extra_ptr extra_len args_ptr args_len \<Rightarrow>
     if \<not> flags_contains calling CREATE then ret (Inl AccessDenied, parent, im)
     else do { gs \<leftarrow> (if isl (resolve parent rooth root_rights) then ret None
                     else if 2 ^ 63 \<le> 24 * unat extra_len then panic
                     else if 0 < extra_len then read_grants um extra_ptr extra_len else ret (Some []));
       case spawn_table (\<lambda>_ _. gs) new_proc parent rooth root_rights source sink extra_ptr extra_len of
         Inl e \<Rightarrow> ret (Inl e, parent, im)
       | Inr (child, child_extra) \<Rightarrow>
           do { (le, im1) \<leftarrow> load_elf palloc stat rd heap (case resolve parent exec_handle READ of Inl e \<Rightarrow> Inl e | Inr ob \<Rightarrow> Inr (file_of ob)) im;
                case le of
                  Inl _ \<Rightarrow> ret (Inl InvalidHandle, parent, im1)
                | Inr entry \<Rightarrow>
                    do { ar \<leftarrow> read_args um args_ptr args_len;
                         case ar of
                           None \<Rightarrow> ret (Inl InvalidPointer, parent, im1)
                         | Some args \<Rightarrow>
                             let argc = length (filter (\<lambda>b. b = 0) args); k = length (im_objs im1)
                             in (case mmap_vmo (im_regions im1) stack_bytes (VM_FLAG_USER OR VM_FLAG_WRITE) k of
                                   (None, vs) \<Rightarrow> ret (Inl OutOfMemory, parent, im1\<lparr>im_regions := vs\<rparr>)
                                 | (Some stack_addr, vs) \<Rightarrow>
                                     do { (r, v, m, c) \<leftarrow> inject palloc pad (vmo_new stack_bytes) stack_addr stack_bytes child_extra args argc
                                            \<lparr>self_handle = 1, root_handle = 0, source_handle = 2, sink_handle = 3, extra_handles_ptr = 0,
                                             extra_handles_len = extra_len, pk_argc = 0, pk_argv = 0\<rparr> (im_mem im1) (im_core im1);
                                          let im2 = im1\<lparr>im_regions := vs, im_objs := im_objs im1 @ [v], im_mem := m, im_core := c\<rparr>
                                          in ret (case r of
                                               Inl e \<Rightarrow> (Inl e, parent, im2)
                                             | Inr (pkg_vaddr, stack_top) \<Rightarrow>
                                                 (case ht_insert parent new_proc (READ OR WRITE OR MUTATE) of (h, parent') \<Rightarrow>
                                                  (Inr (h, \<lparr>st_entry = entry, st_stack_top = stack_top, st_arg = pkg_vaddr\<rparr>, child), parent', im2))) }) } } })"

section \<open>Reading the page back\<close>

lemma poke_append: "poke (poke m p xs) (p + length xs) ys = poke m p (xs @ ys)"
  by (auto simp: poke_def fun_eq_iff nth_append)

lemma decode_encode_package: "decode_package (encode_package p) = p"
  by (simp add: decode_package_def encode_package_def le_roundtrip)

lemma length_encode_package [simp]: "length (encode_package p) = 64"
  by (simp add: encode_package_def)

lemma decode_encode_grant: "length pad = 7 \<Longrightarrow> decode_grant (encode_grant pad g) = g"
  by (simp add: decode_grant_def encode_grant_def le_roundtrip)

lemma length_encode_grant: "length pad = 7 \<Longrightarrow> length (encode_grant pad g) = 24"
  by (simp add: encode_grant_def)

lemma concat_chunks:
  assumes "\<forall>x. length (f x) = n"
  shows "length (concat (map f xs)) = length xs * n"
    and "j < length xs \<Longrightarrow> take n (drop (n * j) (concat (map f xs))) = f (xs ! j)"
proof -
  show "length (concat (map f xs)) = length xs * n" using assms by (induction xs) auto
  show "j < length xs \<Longrightarrow> take n (drop (n * j) (concat (map f xs))) = f (xs ! j)"
  proof (induction xs arbitrary: j)
    case (Cons x xs)
    then show ?case using assms by (cases j) auto
  qed simp
qed

text \<open>The strings of the argument buffer and the addresses they get.\<close>

definition arg_bytes :: "u8 list list \<Rightarrow> u8 list" where
  "arg_bytes ss = concat (map (\<lambda>s. s @ [0]) ss)"

fun arg_ptrs :: "u64 \<Rightarrow> u8 list list \<Rightarrow> u64 list" where
  "arg_ptrs cur [] = []"
| "arg_ptrs cur (s # ss) = cur # arg_ptrs (cur + of_nat (length s + 1)) ss"

lemma length_arg_ptrs [simp]: "length (arg_ptrs cur ss) = length ss"
  by (induction ss arbitrary: cur) auto

lemma arg_bytes_Cons: "arg_bytes (s # ss) = s @ 0 # arg_bytes ss"
  by (simp add: arg_bytes_def)

lemma arg_bytes_count: "\<forall>s \<in> set ss. 0 \<notin> set s \<Longrightarrow> length (filter (\<lambda>b. b = 0) (arg_bytes ss)) = length ss"
proof (induction ss)
  case (Cons s ss)
  then have "filter (\<lambda>b. b = 0) s = []" by (auto simp: filter_empty_conv)
  then show ?case using Cons by (simp add: arg_bytes_Cons)
qed (simp add: arg_bytes_def)

lemma arg_ptr_nth:
  "j < length ss \<Longrightarrow> arg_ptrs cur ss ! j = cur + of_nat (length (arg_bytes (take j ss))) \<and>
     take (length (ss ! j) + 1) (drop (length (arg_bytes (take j ss))) (arg_bytes ss)) = ss ! j @ [0] \<and>
     length (arg_bytes (take j ss)) + length (ss ! j) + 1 \<le> length (arg_bytes ss)"
proof (induction ss arbitrary: j cur)
  case (Cons s ss)
  show ?case
  proof (cases j)
    case 0
    then show ?thesis by (simp add: arg_bytes_def)
  next
    case (Suc i)
    then show ?thesis using Cons.IH [of i "cur + of_nat (length s + 1)"] Cons.prems by (simp add: arg_bytes_Cons add.assoc)
  qed
qed simp

lemma argv_skip:
  "0 \<notin> set s \<Longrightarrow> argv_loop (s @ 0 # rest) i start cur k p m =
     argv_loop rest (i + length s + 1) (i + length s + 1) (cur + of_nat (i + length s - start + 1)) (k + 1) p (poke m (p + 8 * k) (le_bytes 8 cur))"
  by (induction s arbitrary: i) auto

lemma argv_loop_law:
  assumes "\<forall>s \<in> set ss. 0 \<notin> set s"
  shows "argv_loop (arg_bytes ss) i i cur k p m = poke m (p + 8 * k) (concat (map (le_bytes 8) (arg_ptrs cur ss)))"
  using assms
proof (induction ss arbitrary: i cur k m)
  case (Cons s ss)
  have "argv_loop (arg_bytes (s # ss)) i i cur k p m =
      argv_loop (arg_bytes ss) (i + length s + 1) (i + length s + 1) (cur + of_nat (length s + 1)) (k + 1) p (poke m (p + 8 * k) (le_bytes 8 cur))"
    using argv_skip [of s "arg_bytes ss" i i cur k p m] Cons.prems by (simp add: arg_bytes_Cons)
  also have "\<dots> = poke (poke m (p + 8 * k) (le_bytes 8 cur)) (p + 8 * k + length (le_bytes 8 cur))
      (concat (map (le_bytes 8) (arg_ptrs (cur + of_nat (length s + 1)) ss)))"
    using Cons.IH Cons.prems by (simp add: algebra_simps)
  finally show ?case by (simp only: poke_append) simp
qed (simp add: arg_bytes_def)

text \<open>The page as one sequence of bytes, from the package on.\<close>

definition env_bytes :: "u8 list \<Rightarrow> handle_grant list \<Rightarrow> u64 \<Rightarrow> u8 list list \<Rightarrow> init_package \<Rightarrow> u8 list" where
  "env_bytes pad gs strs ss pkg = encode_package pkg @ concat (map (encode_grant pad) gs) @
     concat (map (le_bytes 8) (arg_ptrs strs ss @ [0])) @ arg_bytes ss"

lemma poke_below: "poke (poke m (p + length xs) ys) p xs = poke m p (xs @ ys)"
  by (auto simp: poke_def fun_eq_iff nth_append)

definition env_total :: "handle_grant list \<Rightarrow> u8 list list \<Rightarrow> nat" where
  "env_total gs ss = 64 + length gs * 24 + (length ss + 1) * 8 + length (arg_bytes ss)"

definition env_offset :: "handle_grant list \<Rightarrow> u8 list list \<Rightarrow> nat" where
  "env_offset gs ss = (4096 - env_total gs ss) div 16 * 16"

definition env_package :: "handle_grant list \<Rightarrow> u8 list list \<Rightarrow> u64 \<Rightarrow> init_package \<Rightarrow> init_package" where
  "env_package gs ss base pkg = pkg\<lparr>extra_handles_ptr := base + of_nat (env_offset gs ss + 64), pk_argc := of_nat (length ss),
     pk_argv := base + of_nat (env_offset gs ss + 64 + length gs * 24)\<rparr>"

definition env_strings :: "handle_grant list \<Rightarrow> u8 list list \<Rightarrow> nat" where
  "env_strings gs ss = env_offset gs ss + 64 + length gs * 24 + (length ss + 1) * 8"

lemma inject_law:
  assumes "length pad = 7" and "\<forall>s \<in> set ss. 0 \<notin> set s" and "env_total gs ss \<le> 4096"
    and "request_page palloc v c (sz - 0x1000) = Some (Inr fr, v1, c1)" and "base = vaddr + (sz - 0x1000)"
  shows "inject palloc pad v vaddr sz gs (arg_bytes ss) (length ss) pkg m c =
    Some (Inr (base + of_nat (env_offset gs ss), base + of_nat (env_offset gs ss) - 8), v1,
      poke m (fr + env_offset gs ss) (env_bytes pad gs (base + of_nat (env_strings gs ss)) ss (env_package gs ss base pkg)), c1)"
proof -
  let ?o = "env_offset gs ss"
  note gl = concat_chunks(1) [of "encode_grant pad" 24 gs] length_encode_grant [OF assms(1)]
  have pl: "length (concat (map (le_bytes 8) (arg_ptrs cur ss))) = length ss * 8" for cur
    using concat_chunks(1) [of "le_bytes 8 :: u64 \<Rightarrow> u8 list" 8] by simp
  let ?p = "concat (map (le_bytes 8) (arg_ptrs (base + of_nat (env_strings gs ss)) ss))" and ?z = "le_bytes 8 (0 :: u64)"
  let ?g = "concat (map (encode_grant pad) gs)" and ?k = "encode_package (env_package gs ss base pkg)"
  have "poke (poke (poke m (fr + (?o + 64 + length gs * 24 + (length ss + 1) * 8)) (arg_bytes ss)) (fr + (?o + 64 + length gs * 24)) ?p)
      (fr + (?o + 64 + length gs * 24) + 8 * length ss) ?z = poke m (fr + (?o + 64 + length gs * 24)) ((?p @ ?z) @ arg_bytes ss)"
    using poke_append [of _ "fr + (?o + 64 + length gs * 24)" ?p ?z] poke_below [of m "fr + (?o + 64 + length gs * 24)" "?p @ ?z" "arg_bytes ss"] pl
    by (simp add: algebra_simps)
  moreover have "poke (poke m (fr + (?o + 64 + length gs * 24)) ys) (fr + (?o + 64)) ?g = poke m (fr + (?o + 64)) (?g @ ys)" for ys
    using poke_below [of m "fr + (?o + 64)" ?g ys] gl by (simp add: algebra_simps)
  moreover have "poke (poke m (fr + (?o + 64)) ys) (fr + ?o) ?k = poke m (fr + ?o) (?k @ ys)" for ys
    using poke_below [of m "fr + ?o" ?k ys] by (simp add: algebra_simps)
  ultimately show ?thesis
    using assms(3) unfolding inject_def Let_def assms(4) env_total_def [symmetric] env_offset_def [symmetric] assms(5) [symmetric]
      env_strings_def [symmetric] env_package_def [symmetric]
    by (simp add: argv_loop_law [OF assms(2), where k = 0, simplified] env_bytes_def)
qed

section \<open>What the new process finds\<close>

text \<open>
  The view of the top stack page at offset \<open>o\<close> of frame \<open>fr\<close>, which the process sees at \<open>base\<close>: the
  package, the grants, the argument pointers with the strings behind them, and the terminator.
\<close>

definition env_view :: "pmem \<Rightarrow> nat \<Rightarrow> u64 \<Rightarrow> handle_grant list \<Rightarrow> u8 list list \<Rightarrow> init_package \<Rightarrow> bool" where
  "env_view m fr base gs ss pkg \<longleftrightarrow>
    (let o1 = env_offset gs ss; p = decode_package (peek m (fr + o1) 64); o2 = o1 + 64; o3 = o2 + 24 * length gs
     in p = env_package gs ss base pkg \<and> env_strings gs ss + length (arg_bytes ss) \<le> 4096 \<and>
        (\<forall>j < length gs. decode_grant (peek m (fr + o2 + 24 * j) 24) = gs ! j) \<and>
        (\<forall>j < length ss. \<exists>off. le_word (peek m (fr + o3 + 8 * j) 8) = base + of_nat off \<and> off + length (ss ! j) + 1 \<le> 4096 \<and>
           peek m (fr + off) (length (ss ! j) + 1) = ss ! j @ [0]) \<and>
        le_word (peek m (fr + o3 + 8 * length ss) 8) = (0 :: u64))"

lemma env_fits: "env_total gs ss \<le> 4096 \<Longrightarrow> env_offset gs ss + env_total gs ss \<le> 4096"
  unfolding env_offset_def using div_times_less_eq_dividend [of "4096 - env_total gs ss" 16] by linarith

lemma env_view_law:
  assumes "length pad = 7" and "env_total gs ss \<le> 4096" and "strs = base + of_nat (env_strings gs ss)"
    and "m' = poke m (fr + env_offset gs ss) (env_bytes pad gs strs ss (env_package gs ss base pkg))"
  shows "env_view m' fr base gs ss pkg"
proof -
  let ?o = "env_offset gs ss" and ?all = "env_bytes pad gs strs ss (env_package gs ss base pkg)"
  let ?k = "encode_package (env_package gs ss base pkg)" and ?g = "concat (map (encode_grant pad) gs)"
  let ?p = "concat (map (le_bytes 8) (arg_ptrs strs ss @ [0]))"
  have ge: "\<forall>x. length (encode_grant pad x) = 24" using length_encode_grant [OF assms(1)] by blast
  have pe: "\<forall>x :: u64. length (le_bytes 8 x) = 8" by simp
  note gl = concat_chunks [OF ge, where xs = gs] and pl = concat_chunks [OF pe, where xs = "arg_ptrs strs ss @ [0]"]
  have pl1: "length ?p = 8 * length ss + 8" using pl(1) by simp
  have all: "?all = ?k @ ?g @ ?p @ arg_bytes ss" by (simp add: env_bytes_def)
  have len: "length ?all = env_total gs ss" using gl(1) pl1 by (simp add: all env_total_def del: map_append concat_append)
  have at: "peek m' (fr + ?o + a) n = take n (drop a ?all)" if "a + n \<le> env_total gs ss" for a n
    unfolding assms(4) using peek_poke_within [of a n ?all m "fr + ?o"] that len by simp
  have et: "env_total gs ss = 64 + 24 * length gs + (8 * length ss + 8) + length (arg_bytes ss)" by (simp add: env_total_def)
  have 1: "decode_package (peek m' (fr + ?o) 64) = env_package gs ss base pkg"
    using at [of 0 64] et by (simp add: all decode_encode_package)
  have 2: "decode_grant (peek m' (fr + ?o + 64 + 24 * j) 24) = gs ! j" if "j < length gs" for j
  proof -
    have "24 * j + 24 \<le> 24 * length gs" using that by simp
    then have "take 24 (drop (64 + 24 * j) ?all) = take 24 (drop (24 * j) ?g)" using gl(1) by (simp add: all del: map_append concat_append)
    then show ?thesis using at [of "64 + 24 * j" 24] gl(2) [OF that] that et decode_encode_grant [OF assms(1)] by (simp add: add.assoc)
  qed
  have ptr: "le_word (peek m' (fr + ?o + 64 + 24 * length gs + 8 * j) 8) = (arg_ptrs strs ss @ [0]) ! j" if "j \<le> length ss" for j
  proof -
    have "take 8 (drop (64 + 24 * length gs + 8 * j) ?all) = take 8 (drop (8 * j) ?p)"
      using gl(1) pl1 that by (simp add: all mult.commute del: map_append concat_append)
    also have "\<dots> = le_bytes 8 ((arg_ptrs strs ss @ [0]) ! j)" using pl(2) [of j] that by simp
    finally show ?thesis using at [of "64 + 24 * length gs + 8 * j" 8] that et by (simp add: add.assoc le_roundtrip)
  qed
  have eo: "env_strings gs ss = ?o + (64 + 24 * length gs + (8 * length ss + 8))" by (simp add: env_strings_def)
  have fits: "env_strings gs ss + length (arg_bytes ss) \<le> 4096" using env_fits [OF assms(2)] et eo by simp
  have 3: "\<exists>off. le_word (peek m' (fr + ?o + 64 + 24 * length gs + 8 * j) 8) = base + of_nat off \<and> off + length (ss ! j) + 1 \<le> 4096 \<and>
           peek m' (fr + off) (length (ss ! j) + 1) = ss ! j @ [0]" if "j < length ss" for j
  proof (intro exI conjI)
    let ?a = "length (arg_bytes (take j ss))"
    note nt = arg_ptr_nth [OF that, of strs]
    show "le_word (peek m' (fr + ?o + 64 + 24 * length gs + 8 * j) 8) = base + of_nat (env_strings gs ss + ?a)"
      using ptr [of j] that nt by (simp add: assms(3) nth_append add.assoc)
    show "env_strings gs ss + ?a + length (ss ! j) + 1 \<le> 4096" using nt fits by linarith
    have "take (length (ss ! j) + 1) (drop (64 + 24 * length gs + (8 * length ss + 8) + ?a) ?all) = take (length (ss ! j) + 1) (drop ?a (arg_bytes ss))"
      using gl(1) pl1 by (simp add: all mult.commute del: map_append concat_append)
    then show "peek m' (fr + (env_strings gs ss + ?a)) (length (ss ! j) + 1) = ss ! j @ [0]"
      using at [of "64 + 24 * length gs + (8 * length ss + 8) + ?a" "length (ss ! j) + 1"] nt et eo by (simp add: add.assoc)
  qed
  have 4: "le_word (peek m' (fr + ?o + 64 + 24 * length gs + 8 * length ss) 8) = (0 :: u64)" using ptr [of "length ss"] by (simp add: nth_append)
  show ?thesis unfolding env_view_def Let_def using 1 2 3 4 fits by (simp add: mult.commute add.assoc)
qed

lemma inject_core:
  assumes "core_ok c" and "127 < card (core_stock c)" and "vmo_inv core_live c v" and "\<not> is_physical v"
    and "sz - 0x1000 < vmo_size v" and "resident v (sz - 0x1000) = None"
    and "length pad = 7" and "\<forall>s \<in> set ss. 0 \<notin> set s" and "env_total gs ss \<le> 4096" and "base = vaddr + (sz - 0x1000)"
  shows "\<exists>fr v' m' c'. inject core_page_alloc pad v vaddr sz gs (arg_bytes ss) (length ss) pkg m c =
       Some (Inr (base + of_nat (env_offset gs ss), base + of_nat (env_offset gs ss) - 8), v', m', c') \<and>
     resident v' = (resident v)(sz - 0x1000 \<mapsto> fr) \<and> core_live c' fr \<and> env_view m' fr base gs ss pkg \<and>
     core_ok c' \<and> core_mem.kept c m m' \<and> (\<forall>b. core_live c b \<longrightarrow> core_live c' b)"
proof -
  obtain fr v' c' where rq: "request_page core_page_alloc v c (sz - 0x1000) = Some (Inr fr, v', c')" "core_ok c'" "fr \<in> core_stock c"
    "core_live c' fr" "resident v' = (resident v)(sz - 0x1000 \<mapsto> fr)" "\<forall>b. core_live c b \<longrightarrow> core_live c' b"
    using core_mem.request_fresh [OF assms(1,3-6,2)] by blast
  let ?bs = "env_bytes pad gs (base + of_nat (env_strings gs ss)) ss (env_package gs ss base pkg)"
  have pl: "length (concat (map (le_bytes 8) (xs :: u64 list))) = length xs * 8" for xs by (rule concat_chunks(1)) simp
  have gl: "length (concat (map (encode_grant pad) gs)) = length gs * 24" by (rule concat_chunks(1)) (simp add: length_encode_grant [OF assms(7)])
  have "length ?bs = env_total gs ss" using gl pl [of "arg_ptrs (base + of_nat (env_strings gs ss)) ss @ [0]"]
    by (simp add: env_bytes_def env_total_def del: map_append concat_append)
  then have "core_mem.kept c m (poke m (fr + env_offset gs ss) ?bs)"
    using core_mem.poke_page_kept [OF assms(1) rq(3)] env_fits [OF assms(9)] by simp
  then show ?thesis
    using inject_law [OF assms(7,8,9) rq(1) assms(10), of pkg m] env_view_law [OF assms(7,9) refl refl] rq(2,4,5,6) by blast
qed

text \<open>
  The start-up block of a process. When it fits on a page, the package, the granted handles, the
  argument pointers and the argument strings are laid out on the top page of the new stack so
  that a process that reads them in their C layout gets back exactly what the parent passed:
  every grant, every argument string terminated by a zero, the count and the null pointer after
  the last argument. The package is aligned to 16 bytes, the stack starts 8 bytes below it, and
  no page in use changes.
\<close>

theorem inject_correct:
  assumes "core_ok c" and "127 < card (core_stock c)" and "vmo_inv core_live c v" and "\<not> is_physical v"
    and "sz - 0x1000 < vmo_size v" and "resident v (sz - 0x1000) = None"
    and "length pad = 7" and "\<forall>s \<in> set ss. 0 \<notin> set s" and "env_total gs ss \<le> 4096" and "base = vaddr + (sz - 0x1000)"
  shows "\<exists>fr v' m' c'. inject core_page_alloc pad v vaddr sz gs (arg_bytes ss) (length ss) pkg m c =
       Some (Inr (base + of_nat (env_offset gs ss), base + of_nat (env_offset gs ss) - 8), v', m', c') \<and>
     16 dvd env_offset gs ss \<and> env_offset gs ss + env_total gs ss \<le> 4096 \<and>
     resident v' = (resident v)(sz - 0x1000 \<mapsto> fr) \<and> core_live c' fr \<and> env_view m' fr base gs ss pkg \<and>
     core_ok c' \<and> (\<forall>a. a div 4096 * 4096 \<notin> core_stock c \<longrightarrow> m' a = m a)"
proof -
  have "16 dvd env_offset gs ss" by (simp add: env_offset_def)
  then show ?thesis
    using inject_core [OF assms, of pkg m] env_fits [OF assms(9)] unfolding core_mem.kept_def by blast
qed

definition sample_package :: init_package where
  "sample_package = \<lparr>self_handle = 1, root_handle = 0, source_handle = 2, sink_handle = 3, extra_handles_ptr = 0,
     extra_handles_len = 1, pk_argc = 0, pk_argv = 0\<rparr>"

theorem inject_correct_witness:
  "\<exists>fr v' m' c'. inject core_page_alloc (replicate 7 0) (vmo_new 16384) 0x40000000 16384 [\<lparr>hg_id = 4, hg_rights = READ, hg_tag = 9\<rparr>]
       [108, 115, 0, 47, 0] 2 sample_package (\<lambda>_. 1) roomy_core = Some (Inr (0x40003F80, 0x40003F78), v', m', c') \<and>
     le_word (peek m' (fr + 0xF80 + 64 + 24 + 16) 8) = (0 :: u64)"
proof -
  let ?g = "[\<lparr>hg_id = 4, hg_rights = READ, hg_tag = 9\<rparr>]" and ?ss = "[[108, 115], [47]]"
  have ab: "arg_bytes ?ss = [108, 115, 0, 47, 0]" by (simp add: arg_bytes_def)
  have n: "length ?ss = 2" by simp
  have t: "env_total ?g ?ss = 117" by (simp add: env_total_def ab)
  have o: "env_offset ?g ?ss = 0xF80" by (simp add: env_offset_def t)
  have "vmo_inv core_live roomy_core (vmo_new 16384)" "\<not> is_physical (vmo_new 16384)" "vmo_size (vmo_new 16384) = 16384"
    using vmo_new_empty by (simp_all add: vmo_inv_def) (simp_all add: vmo_new_def)
  then show ?thesis
    using inject_correct [OF roomy_core_ok(1), where v = "vmo_new 16384" and sz = 16384 and pad = "replicate 7 0" and ss = ?ss and gs = ?g
        and vaddr = "0x40000000" and pkg = sample_package and m = "\<lambda>_. 1", OF _ _ _ _ vmo_new_resident _ _ _ refl] roomy_core_ok(3) t o
    unfolding ab n by (auto simp: env_view_def Let_def o n)
qed


definition sample_parent :: "nat handle_table" where
  "sample_parent = snd (ht_insert (snd (ht_insert handle_table_new 7 READ)) 8 READ)"


end
