(* ===== verification/Ring.thy ===== *)
theory Ring
  imports Prelude
begin

text \<open>
  The ring buffer of a socket: \<^verbatim>\<open>RingBuffer\<close> in \<^verbatim>\<open>core/object/models/socket.rs\<close>. The locale
  \<open>byte_stream\<close> is what a socket relies on: a bounded first-in first-out buffer of bytes; the
  interpretation at the end shows that the ring is one.
\<close>

section \<open>Bounded byte streams as an interface\<close>

datatype 'a io = Put "'a list" | Get nat

text \<open>A sequence of transfers: what was accepted, what was delivered, and the final buffer.\<close>

fun io_run :: "('q \<Rightarrow> 'a list \<Rightarrow> ('q \<times> nat) run) \<Rightarrow> ('q \<Rightarrow> nat \<Rightarrow> ('q \<times> 'a list) run) \<Rightarrow> 'a io list \<Rightarrow> 'q
    \<Rightarrow> ('a list \<times> 'a list \<times> 'q) run" where
  "io_run push pop [] q = ret ([], [], q)"
| "io_run push pop (Put xs # ops) q =
    do { (q', n) \<leftarrow> push q xs; (sent, got, r) \<leftarrow> io_run push pop ops q'; ret (take n xs @ sent, got, r) }"
| "io_run push pop (Get k # ops) q =
    do { (q', ys) \<leftarrow> pop q k; (sent, got, r) \<leftarrow> io_run push pop ops q'; ret (sent, ys @ got, r) }"

locale byte_stream =
  fixes ok :: "'q \<Rightarrow> bool" and content :: "'q \<Rightarrow> 'a list" and capacity :: nat
    and push :: "'q \<Rightarrow> 'a list \<Rightarrow> ('q \<times> nat) run" and pop :: "'q \<Rightarrow> nat \<Rightarrow> ('q \<times> 'a list) run"
  assumes bounded: "ok q \<Longrightarrow> length (content q) \<le> capacity"
    and push_law: "ok q \<Longrightarrow> \<exists>q' n. push q xs = Some (q', n) \<and> ok q' \<and>
        n = min (length xs) (capacity - length (content q)) \<and> content q' = content q @ take n xs"
    and pop_law: "ok q \<Longrightarrow> \<exists>q'. pop q k = Some (q', take k (content q)) \<and> ok q' \<and> content q' = drop k (content q)"
begin

lemma stream:
  "ok q \<Longrightarrow> \<exists>sent got q'. io_run push pop ops q = Some (sent, got, q') \<and> ok q' \<and> content q @ sent = got @ content q'"
proof (induction ops arbitrary: q)
  case (Cons x ops)
  show ?case
  proof (cases x)
    case (Put xs)
    obtain q1 n where 1: "push q xs = Some (q1, n)" "ok q1" "content q1 = content q @ take n xs"
      using push_law [OF Cons.prems] by blast
    obtain sent got q' where "io_run push pop ops q1 = Some (sent, got, q')" "ok q'" "content q1 @ sent = got @ content q'"
      using Cons.IH [OF 1(2)] by blast
    then show ?thesis using Put 1 by simp
  next
    case (Get k)
    obtain q1 where 1: "pop q k = Some (q1, take k (content q))" "ok q1" "content q1 = drop k (content q)"
      using pop_law [OF Cons.prems] by blast
    obtain sent got q' where 2: "io_run push pop ops q1 = Some (sent, got, q')" "ok q'" "content q1 @ sent = got @ content q'"
      using Cons.IH [OF 1(2)] by blast
    have "content q @ sent = take k (content q) @ got @ content q'"
      using 1(3) 2(3) by (metis append.assoc append_take_drop_id)
    then show ?thesis using Get 1(1) 2(1,2) by simp
  qed
qed simp

end

section \<open>The ring\<close>

definition BUFFER_SIZE :: nat where
  "BUFFER_SIZE = 4096"

record ring =
  rdata :: "u8 list"
  rhead :: nat
  rtail :: nat

definition ring_new :: ring where
  "ring_new = \<lparr>rdata = replicate BUFFER_SIZE 0, rhead = 0, rtail = 0\<rparr>"

definition is_empty :: "ring \<Rightarrow> bool" where
  "is_empty r \<longleftrightarrow> rhead r = rtail r"

definition is_full :: "ring \<Rightarrow> bool" where
  "is_full r \<longleftrightarrow> (rhead r + 1) mod BUFFER_SIZE = rtail r"

definition ring_len :: "ring \<Rightarrow> nat" where
  "ring_len r = (if rtail r \<le> rhead r then rhead r - rtail r else BUFFER_SIZE - (rtail r - rhead r))"

definition available_space :: "ring \<Rightarrow> nat" where
  "available_space r = (if is_full r then 0 else BUFFER_SIZE - ring_len r - 1)"

fun push_bytes :: "ring \<Rightarrow> u8 list \<Rightarrow> ring run" where
  "push_bytes r [] = ret r"
| "push_bytes r (b # bs) =
    do { d \<leftarrow> upd (rdata r) (rhead r) b;
         push_bytes (r\<lparr>rdata := d, rhead := (rhead r + 1) mod BUFFER_SIZE\<rparr>) bs }"

definition push_slice :: "ring \<Rightarrow> u8 list \<Rightarrow> (ring \<times> nat) run" where
  "push_slice r src =
    (let n = min (length src) (available_space r) in do { r' \<leftarrow> push_bytes r (take n src); ret (r', n) })"

fun pop_bytes :: "ring \<Rightarrow> nat \<Rightarrow> (ring \<times> u8 list) run" where
  "pop_bytes r 0 = ret (r, [])"
| "pop_bytes r (Suc n) =
    do { b \<leftarrow> idx (rdata r) (rtail r);
         (r', bs) \<leftarrow> pop_bytes (r\<lparr>rtail := (rtail r + 1) mod BUFFER_SIZE\<rparr>) n;
         ret (r', b # bs) }"

text \<open>The destination of \<^verbatim>\<open>pop_slice\<close> has room for \<open>k\<close> bytes; the result lists the bytes stored in it.\<close>

definition pop_slice :: "ring \<Rightarrow> nat \<Rightarrow> (ring \<times> u8 list) run" where
  "pop_slice r k = pop_bytes r (min k (ring_len r))"

section \<open>The ring is a byte stream\<close>

definition ring_ok :: "ring \<Rightarrow> bool" where
  "ring_ok r \<longleftrightarrow> length (rdata r) = BUFFER_SIZE \<and> rhead r < BUFFER_SIZE \<and> rtail r < BUFFER_SIZE"

definition contents :: "ring \<Rightarrow> u8 list" where
  "contents r = map (\<lambda>k. rdata r ! ((rtail r + k) mod BUFFER_SIZE)) [0..<ring_len r]"

lemma length_contents [simp]: "length (contents r) = ring_len r"
  by (simp add: contents_def)

lemma ring_len_bound: "ring_ok r \<Longrightarrow> ring_len r < BUFFER_SIZE"
  by (auto simp: ring_ok_def ring_len_def)

lemma ring_head: "ring_ok r \<Longrightarrow> (rtail r + ring_len r) mod BUFFER_SIZE = rhead r"
  by (auto simp: ring_ok_def ring_len_def)

lemma ring_full_iff: "ring_ok r \<Longrightarrow> is_full r \<longleftrightarrow> ring_len r = BUFFER_SIZE - 1"
proof -
  assume ok: "ring_ok r"
  show ?thesis
  proof (cases "rhead r + 1 = BUFFER_SIZE")
    case True
    then show ?thesis using ok by (auto simp: ring_ok_def is_full_def ring_len_def)
  next
    case False
    then have "(rhead r + 1) mod BUFFER_SIZE = rhead r + 1" using ok by (simp add: ring_ok_def)
    then show ?thesis using ok False by (auto simp: ring_ok_def is_full_def ring_len_def)
  qed
qed

lemma ring_empty_iff: "ring_ok r \<Longrightarrow> is_empty r \<longleftrightarrow> contents r = []"
proof -
  assume "ring_ok r"
  then have "is_empty r \<longleftrightarrow> ring_len r = 0" by (auto simp: ring_ok_def is_empty_def ring_len_def)
  then show ?thesis by (metis length_0_conv length_contents)
qed

lemma available_space_eq: "ring_ok r \<Longrightarrow> available_space r = BUFFER_SIZE - 1 - length (contents r)"
  using ring_full_iff [of r] by (auto simp: available_space_def)

lemma push_one:
  assumes ok: "ring_ok r" and room: "ring_len r < BUFFER_SIZE - 1"
  shows "let r' = r\<lparr>rdata := (rdata r)[rhead r := b], rhead := (rhead r + 1) mod BUFFER_SIZE\<rparr>
         in ring_ok r' \<and> ring_len r' = ring_len r + 1 \<and> contents r' = contents r @ [b]"
proof -
  let ?r = "r\<lparr>rdata := (rdata r)[rhead r := b], rhead := (rhead r + 1) mod BUFFER_SIZE\<rparr>"
  have ok': "ring_ok ?r" using ok by (simp add: ring_ok_def BUFFER_SIZE_def)
  have len: "ring_len ?r = ring_len r + 1"
  proof (cases "rhead r + 1 = BUFFER_SIZE")
    case True
    then show ?thesis using ok room by (auto simp: ring_ok_def ring_len_def)
  next
    case False
    then have "(rhead r + 1) mod BUFFER_SIZE = rhead r + 1" using ok by (simp add: ring_ok_def)
    then show ?thesis using ok room by (auto simp: ring_ok_def ring_len_def)
  qed
  have other: "(rtail r + k) mod BUFFER_SIZE \<noteq> rhead r" if "k < ring_len r" for k
  proof
    assume "(rtail r + k) mod BUFFER_SIZE = rhead r"
    then have "(rtail r + k) mod BUFFER_SIZE = (rtail r + ring_len r) mod BUFFER_SIZE" using ring_head [OF ok] by simp
    then have "BUFFER_SIZE dvd (rtail r + ring_len r) - (rtail r + k)"
      using mod_eq_dvd_iff_nat [of "rtail r + k" "rtail r + ring_len r"] that by (metis add_le_cancel_left less_imp_le_nat)
    then have "BUFFER_SIZE dvd ring_len r - k" by simp
    then show False using that ring_len_bound [OF ok] by (auto dest!: dvd_imp_le)
  qed
  have "contents ?r = contents r @ [b]"
  proof (rule nth_equalityI)
    fix k assume "k < length (contents ?r)"
    then consider "k < ring_len r" | "k = ring_len r" using len by (fastforce simp: contents_def less_Suc_eq)
    then show "contents ?r ! k = (contents r @ [b]) ! k"
    proof cases
      case 1
      then show ?thesis using other [OF 1] len by (simp add: contents_def nth_append nth_list_update)
    next
      case 2
      then show ?thesis using ring_head [OF ok] len ok by (simp add: contents_def nth_append ring_ok_def)
    qed
  qed (use len in simp)
  then show ?thesis using ok' len by (simp add: Let_def)
qed

lemma push_bytes_law:
  "ring_ok r \<Longrightarrow> ring_len r + length bs \<le> BUFFER_SIZE - 1 \<Longrightarrow>
   \<exists>r'. push_bytes r bs = Some r' \<and> ring_ok r' \<and> contents r' = contents r @ bs"
proof (induction bs arbitrary: r)
  case (Cons b bs)
  let ?r = "r\<lparr>rdata := (rdata r)[rhead r := b], rhead := (rhead r + 1) mod BUFFER_SIZE\<rparr>"
  have one: "ring_ok ?r" "ring_len ?r = ring_len r + 1" "contents ?r = contents r @ [b]"
    using push_one [OF Cons.prems(1), of b] Cons.prems(2) by (auto simp: Let_def)
  obtain r' where "push_bytes ?r bs = Some r'" "ring_ok r'" "contents r' = contents ?r @ bs"
    using Cons.IH [OF one(1)] one(2) Cons.prems(2) by auto
  then show ?case using one(3) Cons.prems(1) by (auto simp: upd_in_range ring_ok_def)
qed simp

lemma pop_one:
  assumes ok: "ring_ok r" and ne: "0 < ring_len r"
  shows "let r' = r\<lparr>rtail := (rtail r + 1) mod BUFFER_SIZE\<rparr>
         in ring_ok r' \<and> ring_len r' = ring_len r - 1 \<and> contents r = rdata r ! rtail r # contents r'"
proof -
  let ?r = "r\<lparr>rtail := (rtail r + 1) mod BUFFER_SIZE\<rparr>"
  have ok': "ring_ok ?r" using ok by (simp add: ring_ok_def BUFFER_SIZE_def)
  have len: "ring_len ?r = ring_len r - 1"
  proof (cases "rtail r + 1 = BUFFER_SIZE")
    case True
    then show ?thesis using ok ne by (auto simp: ring_ok_def ring_len_def)
  next
    case False
    then have "(rtail r + 1) mod BUFFER_SIZE = rtail r + 1" using ok by (simp add: ring_ok_def)
    then show ?thesis using ok ne by (auto simp: ring_ok_def ring_len_def)
  qed
  obtain n where n: "ring_len r = Suc n" using ne by (cases "ring_len r") auto
  have "contents r = rdata r ! rtail r # contents ?r"
    using ok len n by (simp add: contents_def map_upt_Suc mod_add_left_eq ring_ok_def del: upt_Suc)
  then show ?thesis using ok' len by (simp add: Let_def)
qed

lemma pop_bytes_law:
  "ring_ok r \<Longrightarrow> n \<le> ring_len r \<Longrightarrow>
   \<exists>r'. pop_bytes r n = Some (r', take n (contents r)) \<and> ring_ok r' \<and> contents r' = drop n (contents r)"
proof (induction n arbitrary: r)
  case (Suc n)
  let ?r = "r\<lparr>rtail := (rtail r + 1) mod BUFFER_SIZE\<rparr>"
  have one: "ring_ok ?r" "ring_len ?r = ring_len r - 1" "contents r = rdata r ! rtail r # contents ?r"
    using pop_one [OF Suc.prems(1)] Suc.prems(2) by (auto simp: Let_def)
  obtain r' where "pop_bytes ?r n = Some (r', take n (contents ?r))" "ring_ok r'" "contents r' = drop n (contents ?r)"
    using Suc.IH [OF one(1)] one(2) Suc.prems(2) by force
  then show ?case using one(3) Suc.prems(1) by (auto simp: idx_in_range ring_ok_def)
qed simp

interpretation ring: byte_stream ring_ok contents "BUFFER_SIZE - 1" push_slice pop_slice
proof unfold_locales
  fix q assume "ring_ok q"
  then show "length (contents q) \<le> BUFFER_SIZE - 1" using ring_len_bound by fastforce
next
  fix q :: ring and xs :: "u8 list" assume ok: "ring_ok q"
  let ?n = "min (length xs) (BUFFER_SIZE - 1 - length (contents q))"
  have "ring_len q + length (take ?n xs) \<le> BUFFER_SIZE - 1" using ring_len_bound [OF ok] by simp
  then obtain r' where "push_bytes q (take ?n xs) = Some r'" "ring_ok r'" "contents r' = contents q @ take ?n xs"
    using push_bytes_law [OF ok] by blast
  then show "\<exists>q' n. push_slice q xs = Some (q', n) \<and> ring_ok q' \<and> n = ?n \<and> contents q' = contents q @ take n xs"
    using available_space_eq [OF ok] by (simp add: push_slice_def Let_def)
next
  fix q k assume ok: "ring_ok q"
  have "\<exists>r'. pop_bytes q (min k (ring_len q)) = Some (r', take (min k (ring_len q)) (contents q)) \<and> ring_ok r' \<and>
      contents r' = drop (min k (ring_len q)) (contents q)"
    by (rule pop_bytes_law [OF ok]) simp
  moreover have "take (min k (ring_len q)) (contents q) = take k (contents q)"
    "drop (min k (ring_len q)) (contents q) = drop k (contents q)" by (simp_all add: min_def)
  ultimately show "\<exists>q'. pop_slice q k = Some (q', take k (contents q)) \<and> ring_ok q' \<and> contents q' = drop k (contents q)"
    by (simp add: pop_slice_def)
qed

lemma ring_new_ok: "ring_ok ring_new" "contents ring_new = []"
  by (simp_all add: ring_ok_def ring_new_def contents_def ring_len_def BUFFER_SIZE_def)

end
