(* ===== verification/Socket.thy ===== *)
theory Socket
  imports Ring Usermem Handles
begin

text \<open>
  Sockets: \<^verbatim>\<open>core/object/models/socket.rs\<close> and the multi-socket wait of \<^verbatim>\<open>models/process.rs\<close>. A pair
  of endpoints shares two buses, each a ring buffer with a closed flag and one waker per
  direction. The asynchronous operations are their poll functions: a poll is \<open>Ready\<close> with a
  result or \<open>Pending\<close>, and a waker is the number of the task it wakes.
\<close>

section \<open>State\<close>

datatype 'a poll = Pending | Ready 'a

record bus =
  bus_ring :: ring
  bus_closed :: bool
  read_waker :: "nat option"
  write_waker :: "nat option"

record endpoint =
  read_bus :: nat
  write_bus :: nat
  is_nb :: bool

record sockets =
  buses :: "nat \<Rightarrow> bus"
  eps :: "nat \<Rightarrow> endpoint"
  next_bus :: nat
  next_ep :: nat
  woken :: "nat list"

definition bus_new :: bus where
  "bus_new = \<lparr>bus_ring = ring_new, bus_closed = False, read_waker = None, write_waker = None\<rparr>"

definition set_bus :: "nat \<Rightarrow> bus \<Rightarrow> sockets \<Rightarrow> sockets" where
  "set_bus b v s = s\<lparr>buses := (buses s)(b := v)\<rparr>"

definition wake_reader :: "nat \<Rightarrow> sockets \<Rightarrow> sockets" where
  "wake_reader b s =
    (case read_waker (buses s b) of
       Some w \<Rightarrow> (set_bus b ((buses s b)\<lparr>read_waker := None\<rparr>) s)\<lparr>woken := woken s @ [w]\<rparr>
     | None \<Rightarrow> s)"

definition wake_writer :: "nat \<Rightarrow> sockets \<Rightarrow> sockets" where
  "wake_writer b s =
    (case write_waker (buses s b) of
       Some w \<Rightarrow> (set_bus b ((buses s b)\<lparr>write_waker := None\<rparr>) s)\<lparr>woken := woken s @ [w]\<rparr>
     | None \<Rightarrow> s)"

definition new_pair :: "sockets \<Rightarrow> (nat \<times> nat) \<times> sockets" where
  "new_pair s =
    (let bus1 = next_bus s; bus2 = next_bus s + 1; ep1 = next_ep s; ep2 = next_ep s + 1
     in ((ep1, ep2),
         s\<lparr>buses := (buses s)(bus1 := bus_new, bus2 := bus_new), next_bus := next_bus s + 2,
           eps := (eps s)(ep1 := \<lparr>read_bus = bus1, write_bus = bus2, is_nb = False\<rparr>,
                          ep2 := \<lparr>read_bus = bus2, write_bus = bus1, is_nb = False\<rparr>),
           next_ep := next_ep s + 2\<rparr>))"

section \<open>Operations of an endpoint\<close>

definition TEMP_BUF :: nat where
  "TEMP_BUF = 512"

definition read_async ::
  "nat \<Rightarrow> u64 \<Rightarrow> u64 \<Rightarrow> nat \<Rightarrow> umem \<Rightarrow> sockets \<Rightarrow> ((invocation_error + u64) poll \<times> umem \<times> sockets) run" where
  "read_async e buffer_ptr len task m s =
    (let ep = eps s e; b = read_bus ep; bus = buses s b
     in if len = 0 then ret (Ready (Inr 0), m, s)
        else if \<not> is_empty (bus_ring bus)
        then do { (r, bs) \<leftarrow> pop_slice (bus_ring bus) (min (unat len) TEMP_BUF);
                  (copied, m') \<leftarrow> safe_copy_to m buffer_ptr bs;
                  let s' = set_bus b (bus\<lparr>bus_ring := r\<rparr>) s
                  in if copied then ret (Ready (Inr (of_nat (length bs))), m', wake_writer b s')
                     else ret (Ready (Inl InvalidPointer), m', s') }
        else if bus_closed bus then ret (Ready (Inr 0), m, s)
        else if is_nb ep then ret (Ready (Inl WouldBlock), m, s)
        else ret (Pending, m, set_bus b (bus\<lparr>read_waker := Some task\<rparr>) s))"

definition write_async ::
  "nat \<Rightarrow> u64 \<Rightarrow> u64 \<Rightarrow> nat \<Rightarrow> umem \<Rightarrow> sockets \<Rightarrow> ((invocation_error + u64) poll \<times> sockets) run" where
  "write_async e buffer_ptr len task m s =
    (let ep = eps s e; b = write_bus ep; bus = buses s b
     in if bus_closed bus then ret (Ready (Inl UnsupportedOperation), s)
        else if len = 0 then ret (Ready (Inr 0), s)
        else do { (copied, bs) \<leftarrow> safe_copy_from m buffer_ptr (of_nat (min (unat len) TEMP_BUF));
                  if \<not> copied then ret (Ready (Inl InvalidPointer), s)
                  else if bus_closed bus then ret (Ready (Inl UnsupportedOperation), s)
                  else if is_full (bus_ring bus)
                  then if is_nb ep then ret (Ready (Inl WouldBlock), s)
                       else ret (Pending, set_bus b (bus\<lparr>write_waker := Some task\<rparr>) s)
                  else do { (r, n) \<leftarrow> push_slice (bus_ring bus) bs;
                            ret (Ready (Inr (of_nat n)), wake_reader b (set_bus b (bus\<lparr>bus_ring := r\<rparr>) s)) } })"

text \<open>
  Waiting for signals looks at each signal under the bus lock, releases it, and registers the
  waker afterwards; the two halves are separate functions.
\<close>

definition wait_check :: "nat \<Rightarrow> signal \<Rightarrow> sockets \<Rightarrow> bool \<times> bool" where
  "wait_check e sig s =
    (let ep = eps s e; rb = buses s (read_bus ep); wb = buses s (write_bus ep);
         st0 = (False, False);
         st1 = (if flags_contains sig READABLE \<and> is_empty (bus_ring rb) \<and> \<not> bus_closed rb then (True, False) else st0);
         st2 = (if flags_contains sig WRITABLE \<and> is_full (bus_ring wb) \<and> \<not> bus_closed wb then (True, True) else st1);
         st3 = (if flags_contains sig PEER_CLOSED \<and> \<not> bus_closed rb then (True, False) else st2)
     in st3)"

definition wait_register :: "nat \<Rightarrow> bool \<times> bool \<Rightarrow> nat \<Rightarrow> sockets \<Rightarrow> (invocation_error + u64) poll \<times> sockets" where
  "wait_register e = (\<lambda>(should_block, is_write) task s.
    let ep = eps s e
    in if \<not> should_block then (Ready (Inr 0), s)
       else if is_write
       then (Pending, set_bus (write_bus ep) ((buses s (write_bus ep))\<lparr>write_waker := Some task\<rparr>) s)
       else (Pending, set_bus (read_bus ep) ((buses s (read_bus ep))\<lparr>read_waker := Some task\<rparr>) s))"

definition wait_for_signals_async :: "nat \<Rightarrow> signal \<Rightarrow> nat \<Rightarrow> sockets \<Rightarrow> (invocation_error + u64) poll \<times> sockets" where
  "wait_for_signals_async e sig task s = wait_register e (wait_check e sig s) task s"

definition ep_drop :: "nat \<Rightarrow> sockets \<Rightarrow> sockets" where
  "ep_drop e s =
    (let b = write_bus (eps s e)
     in wake_writer b (wake_reader b (set_bus b ((buses s b)\<lparr>bus_closed := True\<rparr>) s)))"

fun socket_invoke ::
  "nat \<Rightarrow> invocation \<Rightarrow> access_rights \<Rightarrow> nat \<Rightarrow> umem \<Rightarrow> sockets \<Rightarrow> ((invocation_error + u64) poll \<times> umem \<times> sockets) run" where
  "socket_invoke e (FileInv (FileRead off buffer_ptr len)) rs task m s =
    (if \<not> flags_contains rs READ then ret (Ready (Inl AccessDenied), m, s)
     else read_async e buffer_ptr len task m s)"
| "socket_invoke e (FileInv (FileWrite off buffer_ptr len)) rs task m s =
    (if \<not> flags_contains rs WRITE then ret (Ready (Inl AccessDenied), m, s)
     else do { (p, s') \<leftarrow> write_async e buffer_ptr len task m s; ret (p, m, s') })"
| "socket_invoke e (SocketInv (SetNB nb)) rs task m s =
    (if \<not> flags_contains rs WRITE then ret (Ready (Inl AccessDenied), m, s)
     else ret (Ready (Inr 0), m, s\<lparr>eps := (eps s)(e := (eps s e)\<lparr>is_nb := nb\<rparr>)\<rparr>))"
| "socket_invoke e (WaitInv (WaitOne sig)) rs task m s =
    (if \<not> flags_contains rs READ then ret (Ready (Inl AccessDenied), m, s)
     else case wait_for_signals_async e sig task s of (p, s') \<Rightarrow> ret (p, m, s'))"
| "socket_invoke e _ rs task m s = ret (Ready (Inl UnsupportedOperation), m, s)"

text \<open>The factory gives the caller handles to both ends and packs their ids into one word.\<close>

fun socket_factory_invoke ::
  "(nat \<Rightarrow> 'o) \<Rightarrow> invocation \<Rightarrow> access_rights \<Rightarrow> 'o handle_table \<Rightarrow> sockets
     \<Rightarrow> (invocation_error + u64) \<times> 'o handle_table \<times> sockets" where
  "socket_factory_invoke obj (SocketInv (Create _ _)) rs t s =
    (if \<not> flags_contains rs CREATE then (Inl AccessDenied, t, s)
     else case new_pair s of ((ep1, ep2), s') \<Rightarrow>
       case ht_insert t (obj ep1) flags_all of (h1, t1) \<Rightarrow>
         case ht_insert t1 (obj ep2) flags_all of (h2, t2) \<Rightarrow>
           (Inr ((h1 AND 0xFFFFFFFF) OR push_bit 32 (h2 AND 0xFFFFFFFF)), t2, s'))"
| "socket_factory_invoke obj _ rs t s = (Inl UnsupportedOperation, t, s)"

section \<open>Waiting on many sockets\<close>

record wait_item =
  item_handle :: handle_id
  item_signal :: signal
  item_pending :: signal

text \<open>
  \<open>sock\<close> tells which objects are sockets (their type name) and which endpoint each one is. The
  items are the caller's array; copying it in and out is \<^verbatim>\<open>safe_copy_from\<close> and \<^verbatim>\<open>safe_copy_to\<close>
  on the encoding of the items, and the copy back is not checked.
\<close>

fun collect_endpoints ::
  "('o \<Rightarrow> nat option) \<Rightarrow> 'o handle_table \<Rightarrow> wait_item list \<Rightarrow> invocation_error + nat list" where
  "collect_endpoints sock t [] = Inr []"
| "collect_endpoints sock t (x # xs) =
    (case resolve_entry t (item_handle x) READ of
       Inl e \<Rightarrow> Inl e
     | Inr en \<Rightarrow>
         (case sock (object en) of
            None \<Rightarrow> Inl UnsupportedOperation
          | Some e \<Rightarrow> (case collect_endpoints sock t xs of Inl er \<Rightarrow> Inl er | Inr es \<Rightarrow> Inr (e # es))))"

definition poll_item :: "sockets \<Rightarrow> nat \<Rightarrow> wait_item \<Rightarrow> wait_item" where
  "poll_item s e x =
    (let rb = buses s (read_bus (eps s e));
         p1 = (if flags_contains (item_signal x) READABLE \<and> (\<not> is_empty (bus_ring rb) \<or> bus_closed rb) then READABLE else 0);
         p2 = (if flags_contains (item_signal x) PEER_CLOSED \<and> bus_closed rb then p1 OR PEER_CLOSED else p1)
     in x\<lparr>item_pending := p2\<rparr>)"

definition wait_many_async ::
  "('o \<Rightarrow> nat option) \<Rightarrow> 'o handle_table \<Rightarrow> wait_item list \<Rightarrow> nat \<Rightarrow> sockets
     \<Rightarrow> (invocation_error + u64) poll \<times> wait_item list \<times> sockets" where
  "wait_many_async sock t items task s =
    (case collect_endpoints sock t items of
       Inl e \<Rightarrow> (Ready (Inl e), items, s)
     | Inr es \<Rightarrow>
         let polled = map2 (poll_item s) es items
         in if \<exists>x \<in> set polled. item_pending x \<noteq> 0 then (Ready (Inr 0), polled, s)
            else (Pending, items,
                  fold (\<lambda>e s. set_bus (read_bus (eps s e)) ((buses s (read_bus (eps s e)))\<lparr>read_waker := Some task\<rparr>) s) es s))"

section \<open>Streams\<close>

lemma set_bus_simps [simp]:
  "buses (set_bus b v s) = (buses s)(b := v)" "eps (set_bus b v s) = eps s"
  by (simp_all add: set_bus_def)

lemma wake_simps [simp]:
  "bus_ring (buses (wake_reader b s) c) = bus_ring (buses s c)" "bus_closed (buses (wake_reader b s) c) = bus_closed (buses s c)"
  "eps (wake_reader b s) = eps s"
  "bus_ring (buses (wake_writer b s) c) = bus_ring (buses s c)" "bus_closed (buses (wake_writer b s) c) = bus_closed (buses s c)"
  "eps (wake_writer b s) = eps s"
  by (auto simp: wake_reader_def wake_writer_def split: option.splits)

text \<open>One poll of a writer and of a reader, seen as what moves through the bus.\<close>

definition moved :: "(invocation_error + u64) poll \<Rightarrow> nat" where
  "moved p = (case p of Ready (Inr n) \<Rightarrow> unat n | _ \<Rightarrow> 0)"

abbreviation stream_of :: "sockets \<Rightarrow> nat \<Rightarrow> u8 list" where
  "stream_of s b \<equiv> contents (bus_ring (buses s b))"

lemma write_async_moves:
  assumes "mem_open m" and "user_range p l" and ok: "ring_ok (bus_ring (buses s (write_bus (eps s e))))"
  shows "\<exists>r s'. write_async e p l task m s = Some (r, s') \<and> eps s' = eps s \<and>
     ring_ok (bus_ring (buses s' (write_bus (eps s e)))) \<and>
     (\<forall>c. c \<noteq> write_bus (eps s e) \<longrightarrow> bus_ring (buses s' c) = bus_ring (buses s c)) \<and>
     stream_of s' (write_bus (eps s e)) = stream_of s (write_bus (eps s e)) @ bytes_at m p (moved r)"
proof -
  let ?b = "write_bus (eps s e)"
  let ?n = "min (unat l) TEMP_BUF"
  let ?bs = "bytes_at m p ?n"
  have copy: "safe_copy_from m p (of_nat ?n) = Some (True, ?bs)"
    using safe_copy_from_open [OF assms(1,2), of ?n] by simp
  obtain r n where push: "push_slice (bus_ring (buses s ?b)) ?bs = Some (r, n)" "ring_ok r"
    "n \<le> length ?bs" "contents r = stream_of s ?b @ take n ?bs"
    using ring.push_law [OF ok, of ?bs] by (metis min.cobounded1)
  have n: "unat (of_nat n :: u64) = n" using push(3) by (simp add: unsigned_of_nat take_bit_nat_eq_self TEMP_BUF_def)
  have t: "take n ?bs = bytes_at m p n" using push(3) by (simp add: bytes_at_def take_map)
  show ?thesis using ok copy push n t by (auto simp: write_async_def Let_def moved_def)
qed

lemma read_async_moves:
  assumes "mem_open m" and "user_range p l" and ok: "ring_ok (bus_ring (buses s (read_bus (eps s e))))"
  shows "\<exists>r m' s'. read_async e p l task m s = Some (r, m', s') \<and> mem_open m' \<and> eps s' = eps s \<and>
     ring_ok (bus_ring (buses s' (read_bus (eps s e)))) \<and>
     (\<forall>c. c \<noteq> read_bus (eps s e) \<longrightarrow> bus_ring (buses s' c) = bus_ring (buses s c)) \<and>
     stream_of s (read_bus (eps s e)) = bytes_at m' p (moved r) @ stream_of s' (read_bus (eps s e))"
proof -
  let ?b = "read_bus (eps s e)"
  let ?k = "min (unat l) TEMP_BUF"
  let ?bs = "take ?k (stream_of s ?b)"
  obtain r where pop: "pop_slice (bus_ring (buses s ?b)) ?k = Some (r, ?bs)" "ring_ok r" "contents r = drop ?k (stream_of s ?b)"
    using ring.pop_law [OF ok, of ?k] by auto
  have le: "length ?bs \<le> unat l" by simp
  obtain m' where copy: "safe_copy_to m p ?bs = Some (True, m')" "mem_open m'" "bytes_at m' p (length ?bs) = ?bs"
    using safe_copy_to_open [OF assms(1,2) le] by blast
  have n: "unat (of_nat (length ?bs) :: u64) = length ?bs" by (simp add: unsigned_of_nat take_bit_nat_eq_self TEMP_BUF_def)
  show ?thesis
  proof (cases "l = 0 \<or> is_empty (bus_ring (buses s ?b))")
    case True
    then show ?thesis using ok assms(1) by (auto simp: read_async_def Let_def moved_def)
  next
    case False
    then show ?thesis using pop copy n by (simp add: read_async_def Let_def moved_def)
  qed
qed

text \<open>
  Any sequence of polls by any endpoints. Per bus, \<open>sent\<close> collects the bytes that \<open>write\<close> reported
  as accepted and \<open>got\<close> the bytes that \<open>read\<close> left in the caller's buffer.
\<close>

datatype sock_op = Send nat u64 u64 | Recv nat u64 u64

fun sock_op_ok :: "sock_op \<Rightarrow> bool" where
  "sock_op_ok (Send e p l) = user_range p l"
| "sock_op_ok (Recv e p l) = user_range p l"

fun sock_run :: "sock_op list \<Rightarrow> umem \<Rightarrow> sockets \<Rightarrow> ((nat \<Rightarrow> u8 list) \<times> (nat \<Rightarrow> u8 list) \<times> umem \<times> sockets) run" where
  "sock_run [] m s = ret (\<lambda>_. [], \<lambda>_. [], m, s)"
| "sock_run (Send e p l # ops) m s =
    (let b = write_bus (eps s e)
     in do { (r, s') \<leftarrow> write_async e p l e m s;
             (sent, got, m2, s2) \<leftarrow> sock_run ops m s';
             ret (sent(b := bytes_at m p (moved r) @ sent b), got, m2, s2) })"
| "sock_run (Recv e p l # ops) m s =
    (let b = read_bus (eps s e)
     in do { (r, m', s') \<leftarrow> read_async e p l e m s;
             (sent, got, m2, s2) \<leftarrow> sock_run ops m' s';
             ret (sent, got(b := bytes_at m' p (moved r) @ got b), m2, s2) })"


definition no_sockets :: sockets where
  "no_sockets = \<lparr>buses = (\<lambda>_. bus_new), eps = (\<lambda>_. \<lparr>read_bus = 0, write_bus = 0, is_nb = False\<rparr>),
                 next_bus = 0, next_ep = 0, woken = []\<rparr>"

definition flat_mem :: umem where
  "flat_mem = \<lparr>mbyte = (\<lambda>a. ucast a), can_read = (\<lambda>_. True), can_write = (\<lambda>_. True)\<rparr>"


text \<open>
  A wake-up can be lost while waiting for a signal. The waiter looks at the buffer under the
  bus lock, releases the lock and registers its waker afterwards. If the peer writes in
  between, the waiter goes to sleep although the socket is readable, and nothing has woken it.
\<close>

theorem wait_signal_loses_wakeup:
  "\<exists>s' s''. write_async 1 0x1000 1 7 flat_mem (snd (new_pair no_sockets)) = Some (Ready (Inr 1), s') \<and>
     wait_register 0 (wait_check 0 READABLE (snd (new_pair no_sockets))) 3 s' = (Pending, s'') \<and>
     woken s'' = [] \<and> \<not> is_empty (bus_ring (buses s'' (read_bus (eps s'' 0)))) \<and>
     fst (wait_for_signals_async 0 READABLE 3 s'') = Ready (Inr 0)"
proof -
  let ?s = "snd (new_pair no_sockets)"
  have e: "eps ?s 0 = \<lparr>read_bus = 0, write_bus = 1, is_nb = False\<rparr>" "eps ?s 1 = \<lparr>read_bus = 1, write_bus = 0, is_nb = False\<rparr>"
    "buses ?s = (\<lambda>_. bus_new)" "woken ?s = []"
    by (auto simp: new_pair_def no_sockets_def Let_def)
  have ne: "is_empty ring_new" "\<not> is_full ring_new" by (simp_all add: is_empty_def is_full_def ring_new_def BUFFER_SIZE_def)
  have push: "push_slice ring_new [0] = Some (ring_new\<lparr>rdata := (rdata ring_new)[0 := 0], rhead := 1\<rparr>, 1)"
    by (simp add: push_slice_def available_space_def ring_len_def ne Let_def) (simp add: ring_new_def BUFFER_SIZE_def upd_in_range)
  let ?r = "ring_new\<lparr>rdata := (rdata ring_new)[0 := 0], rhead := 1\<rparr>"
  let ?s1 = "wake_reader 0 (set_bus 0 (bus_new\<lparr>bus_ring := ?r\<rparr>) ?s)"
  let ?s2 = "set_bus 0 ((buses ?s1 0)\<lparr>read_waker := Some 3\<rparr>) ?s1"
  have copy: "safe_copy_from flat_mem 0x1000 1 = Some (True, [0])"
    by (simp add: safe_copy_from_def copy_from_user_def user_range_def KERNEL_BASE_def flat_mem_def)
  have w: "write_async 1 0x1000 1 7 flat_mem ?s = Some (Ready (Inr 1), ?s1)"
    using e ne push copy by (simp add: write_async_def Let_def bus_new_def TEMP_BUF_def)
  have "wait_check 0 READABLE ?s = (True, False)"
    using e ne by (simp add: wait_check_def Let_def bus_new_def flags_contains_def signal_defs)
  then have "wait_register 0 (wait_check 0 READABLE ?s) 3 ?s1 = (Pending, ?s2)"
    using e by (simp add: wait_register_def Let_def)
  moreover have "woken ?s2 = []" "\<not> is_empty (bus_ring (buses ?s2 (read_bus (eps ?s2 0))))"
    "fst (wait_for_signals_async 0 READABLE 3 ?s2) = Ready (Inr 0)"
    using e by (simp_all add: set_bus_def wake_reader_def bus_new_def is_empty_def ring_new_def wait_for_signals_async_def
        wait_check_def wait_register_def flags_contains_def signal_defs Let_def)
  ultimately show ?thesis using w by blast
qed

text \<open>
  Closing. Dropping an endpoint closes the bus it writes to; the peer's writes test the other
  bus, so they are never refused.
\<close>

lemma drop_keeps_peer_writable:
  assumes "read_bus (eps s e) \<noteq> write_bus (eps s e)" and "write_bus (eps s p) = read_bus (eps s e)"
  shows "bus_closed (buses (ep_drop e s) (write_bus (eps s p))) = bus_closed (buses s (write_bus (eps s p)))"
  using assms by (simp add: ep_drop_def Let_def)

lemma drop_closes_peer_reads:
  assumes "read_bus (eps s p) = write_bus (eps s e)" and "is_empty (bus_ring (buses s (read_bus (eps s p))))" and "0 < len"
  shows "\<exists>s'. read_async p ptr len task m (ep_drop e s) = Some (Ready (Inr 0), m, s')"
  using assms by (auto simp: read_async_def ep_drop_def Let_def)

end
