(* ===== verification/Syscall.thy ===== *)
theory Syscall
  imports Socket Handles
begin

text \<open>
  The boundary between user programs and the kernel: \<^verbatim>\<open>syscall_dispatch\<close> of
  \<^verbatim>\<open>arch/x86_64/task/syscall.rs\<close>, which every system call enters, and the wrappers of
  \<^verbatim>\<open>vespertine-rt/src/syscall.rs\<close> through which programs make one. The kernel side gets the registers the
  entry stub saved; the user side sees the registers after the return.
\<close>

section \<open>The system call entry\<close>

record frame =
  f_rax :: u64
  f_rdi :: u64
  f_rsi :: u64
  f_rdx :: u64

datatype 's outcome = Returned frame 's | ThreadEnds 's

definition report :: "frame \<Rightarrow> (invocation_error + u64) \<Rightarrow> frame" where
  "report fr r =
    (case r of
       Inr payload \<Rightarrow> fr\<lparr>f_rax := of_nat (sys_error_code SysSuccess), f_rdx := payload\<rparr>
     | Inl e \<Rightarrow> fr\<lparr>f_rax := of_nat (sys_error_code (from_invocation_err e))\<rparr>)"

text \<open>
  \<open>inv_size\<close> and \<open>decode\<close> are the size and the layout the compiler gives the invocation type, \<open>table\<close> and
  \<open>set_table\<close> reach the caller's handle table in the state, and \<open>sys_invoke\<close> runs the invocation.
\<close>

definition syscall_dispatch ::
  "u64 \<Rightarrow> (u8 list \<Rightarrow> invocation) \<Rightarrow> ('s \<Rightarrow> 'o handle_table) \<Rightarrow> ('o handle_table \<Rightarrow> 's \<Rightarrow> 's)
     \<Rightarrow> (handle_id \<Rightarrow> invocation \<Rightarrow> 's \<Rightarrow> ((invocation_error + u64) \<times> 's) run) \<Rightarrow> umem \<Rightarrow> frame \<Rightarrow> 's \<Rightarrow> 's outcome run" where
  "syscall_dispatch inv_size decode table set_table sys_invoke um fr s =
    (if f_rax fr = 0
     then if KERNEL_BASE \<le> f_rsi fr then ret (Returned (fr\<lparr>f_rax := of_nat (sys_error_code SysInvalidPointer)\<rparr>) s)
          else case copy_from_user um (f_rsi fr) inv_size of (copied, bs) \<Rightarrow>
            if \<not> copied then ret (Returned (fr\<lparr>f_rax := of_nat (sys_error_code SysBadAddress)\<rparr>) s)
            else do { (r, s') \<leftarrow> sys_invoke (f_rdi fr) (decode bs) s; ret (Returned (report fr r) s') }
     else if f_rax fr = 1
     then (case ht_close (table s) (f_rdi fr) of (r, t) \<Rightarrow> ret (Returned (report fr (map_sum id (\<lambda>_. 0) r)) (set_table t s)))
     else if f_rax fr = 2 \<or> f_rax fr = 3 then ret (ThreadEnds s)
     else ret (Returned (fr\<lparr>f_rax := of_nat (sys_error_code SysUnknownSyscall)\<rparr>) s))"

section \<open>The wrappers of the runtime\<close>

text \<open>The error numbers as the runtime decodes them.\<close>

definition rt_error_from :: "u64 \<Rightarrow> sys_error" where
  "rt_error_from errnum =
    (if errnum = 0 then SysSuccess else if errnum = 1 then SysInvalidPointer
     else if errnum = 2 then SysBadAddress else if errnum = 3 then SysOutOfMemory
     else if errnum = 21 then SysInvalidHandle else if errnum = 22 then SysAccessDenied
     else if errnum = 23 then SysInvalidArgument else if errnum = 24 then SysUnsupportedOperation
     else if errnum = 25 then SysBufferFull else if errnum = 26 then SysWouldBlock
     else if errnum = 27 then SysPoolExhausted else if errnum = 28 then SysNameTooLong
     else if errnum = 29 then SysInvalidEncoding else if errnum = 30 then SysNotMapped
     else if errnum = 50 then SysThreadSpawnFail else SysUnknownSyscall)"

text \<open>
  \<open>enter\<close> is what the \<^verbatim>\<open>syscall\<close> instruction does: it enters the kernel with the registers and comes back with new
  ones. \<open>junk\<close> is the value \<^verbatim>\<open>rdx\<close> (and for a close \<^verbatim>\<open>rsi\<close>) happens to hold. A thread that ends does not return.
\<close>

definition rt_sys_invoke ::
  "(frame \<Rightarrow> 's \<Rightarrow> 's outcome run) \<Rightarrow> u64 \<Rightarrow> handle_id \<Rightarrow> u64 \<Rightarrow> 's \<Rightarrow> ((sys_error + u64) \<times> 's) run" where
  "rt_sys_invoke enter junk h op_ptr s =
    do { out \<leftarrow> enter \<lparr>f_rax = 0, f_rdi = h, f_rsi = op_ptr, f_rdx = junk\<rparr> s;
         case out of
           ThreadEnds _ \<Rightarrow> panic
         | Returned fr s' \<Rightarrow> ret (if f_rax fr = 0 then Inr (f_rdx fr) else Inl (rt_error_from (f_rax fr)), s') }"

definition rt_sys_close ::
  "(frame \<Rightarrow> 's \<Rightarrow> 's outcome run) \<Rightarrow> u64 \<Rightarrow> handle_id \<Rightarrow> 's \<Rightarrow> ((sys_error + unit) \<times> 's) run" where
  "rt_sys_close enter junk h s =
    do { out \<leftarrow> enter \<lparr>f_rax = 1, f_rdi = h, f_rsi = junk, f_rdx = junk\<rparr> s;
         case out of
           ThreadEnds _ \<Rightarrow> panic
         | Returned fr s' \<Rightarrow> ret (if f_rax fr = 0 then Inr () else Inl (rt_error_from (f_rax fr)), s') }"

text \<open>
  The typed wrappers. \<open>call\<close> is \<open>rt_sys_invoke\<close> on an invocation placed in the program's memory.
\<close>

type_synonym 's invoker = "handle_id \<Rightarrow> invocation \<Rightarrow> 's \<Rightarrow> ((sys_error + u64) \<times> 's) run"

definition sys_create_socket :: "'s invoker \<Rightarrow> handle_id \<Rightarrow> 's \<Rightarrow> ((sys_error + handle_id \<times> handle_id) \<times> 's) run" where
  "sys_create_socket call factory s =
    do { (r, s') \<leftarrow> call factory (SocketInv (Create 1 1)) s;
         ret (map_sum id (\<lambda>packed. (packed AND 0xFFFFFFFF, drop_bit 32 packed)) r, s') }"

definition sys_lookup :: "'s invoker \<Rightarrow> handle_id \<Rightarrow> u64 \<Rightarrow> u64 \<Rightarrow> 's \<Rightarrow> ((sys_error + handle_id) \<times> 's) run" where
  "sys_lookup call dir name name_len s = call dir (DirectoryInv (Lookup name name_len)) s"

definition sys_read :: "'s invoker \<Rightarrow> handle_id \<Rightarrow> u64 \<Rightarrow> u64 \<Rightarrow> u64 \<Rightarrow> 's \<Rightarrow> ((sys_error + u64) \<times> 's) run" where
  "sys_read call h buffer_ptr len offset s = call h (FileInv (FileRead offset buffer_ptr len)) s"

definition sys_write :: "'s invoker \<Rightarrow> handle_id \<Rightarrow> u64 \<Rightarrow> u64 \<Rightarrow> u64 \<Rightarrow> 's \<Rightarrow> ((sys_error + u64) \<times> 's) run" where
  "sys_write call h buffer_ptr len offset s = call h (FileInv (FileWrite offset buffer_ptr len)) s"

definition sys_set_nb :: "'s invoker \<Rightarrow> handle_id \<Rightarrow> bool \<Rightarrow> 's \<Rightarrow> ((sys_error + u64) \<times> 's) run" where
  "sys_set_nb call h nb s = call h (SocketInv (SetNB nb)) s"

definition sys_wait :: "'s invoker \<Rightarrow> handle_id \<Rightarrow> signal \<Rightarrow> 's \<Rightarrow> ((sys_error + u64) \<times> 's) run" where
  "sys_wait call h sg s = call h (WaitInv (WaitOne sg)) s"

section \<open>The register protocol\<close>

lemma rt_error_code: "rt_error_from (of_nat (sys_error_code e)) = e"
  by (cases e) (simp_all add: rt_error_from_def)

lemma error_code_zero: "(of_nat (sys_error_code e) :: u64) = 0 \<longleftrightarrow> e = SysSuccess"
  by (cases e) simp_all

lemma report_fields:
  "f_rdi (report fr r) = f_rdi fr" "f_rsi (report fr r) = f_rsi fr"
  "f_rax (report fr r) = of_nat (sys_error_code (case r of Inl e \<Rightarrow> from_invocation_err e | Inr _ \<Rightarrow> SysSuccess))"
  "f_rdx (report fr r) = (case r of Inl _ \<Rightarrow> f_rdx fr | Inr x \<Rightarrow> x)"
  by (auto simp: report_def split: sum.splits)


text \<open>
  C15. Round trip of a system call: an invocation that lies readable in user memory reaches the
  kernel's handler as it was written, and the program gets the handler's answer back: the payload
  on success, the error of the interface that stands for the handler's error otherwise.
\<close>

theorem syscall_roundtrip:
  assumes "user_range op_ptr inv_size" and "\<forall>k < unat inv_size. can_read um (op_ptr + of_nat k)"
    and "decode (bytes_at um op_ptr (unat inv_size)) = invo" and "sys_invoke h invo s = Some (r, s')"
  shows "rt_sys_invoke (syscall_dispatch inv_size decode table set_table sys_invoke um) junk h op_ptr s =
    Some (map_sum from_invocation_err id r, s')"
proof -
  have c: "copy_from_user um op_ptr inv_size = (True, bytes_at um op_ptr (unat inv_size))"
    using assms(1,2) read_bytes_ok by (simp add: copy_from_user_def)
  have b: "\<not> KERNEL_BASE \<le> op_ptr" by (rule user_range_below [OF assms(1)])
  let ?fr = "\<lparr>f_rax = 0, f_rdi = h, f_rsi = op_ptr, f_rdx = junk\<rparr>"
  have run: "syscall_dispatch inv_size decode table set_table sys_invoke um ?fr s = Some (Returned (report ?fr r) s')"
    using b c assms(3,4) by (simp add: syscall_dispatch_def)
  show ?thesis
    unfolding rt_sys_invoke_def run
    by (cases r) (simp_all add: report_fields error_code_zero from_invocation_err_not_success rt_error_code)
qed

text \<open>Closing a handle: the program learns whether the handle existed, and the table loses it.\<close>

theorem close_roundtrip:
  "rt_sys_close (syscall_dispatch inv_size decode table set_table sys_invoke um) junk h s =
     (case ht_close (table s) h of (r, t) \<Rightarrow> Some (map_sum from_invocation_err id r, set_table t s))"
  by (cases "ht_close (table s) h"; cases "fst (ht_close (table s) h)")
    (simp_all add: rt_sys_close_def syscall_dispatch_def report_fields error_code_zero from_invocation_err_not_success rt_error_code)

lemma packed_halves:
  fixes a b :: u64
  assumes "a < 2 ^ 32" and "b < 2 ^ 32"
  shows "((a AND 0xFFFFFFFF) OR push_bit 32 (b AND 0xFFFFFFFF)) AND 0xFFFFFFFF = a"
    and "drop_bit 32 ((a AND 0xFFFFFFFF) OR push_bit 32 (b AND 0xFFFFFFFF)) = b"
proof -
  have m: "(0xFFFFFFFF :: u64) = mask 32" by (simp add: mask_eq_exp_minus_1)
  have t: "take_bit 32 a = a" "take_bit 32 b = b"
    using assms by (simp_all add: word_unat_eq_iff unsigned_take_bit_eq take_bit_nat_eq_self word_less_nat_alt)
  have e: "a AND mask 32 = a" "b AND mask 32 = b" using t by (simp_all add: take_bit_eq_mask)
  have ab: "bit a n \<Longrightarrow> n < 32" "bit b n \<Longrightarrow> n < 32" for n
    using t by (metis bit_take_bit_iff)+
  show "((a AND 0xFFFFFFFF) OR push_bit 32 (b AND 0xFFFFFFFF)) AND 0xFFFFFFFF = a"
    "drop_bit 32 ((a AND 0xFFFFFFFF) OR push_bit 32 (b AND 0xFFFFFFFF)) = b"
    unfolding m e by (auto intro!: bit_word_eqI simp: bit_simps dest: ab)
qed

text \<open>
  Creating a socket pair: the kernel packs the two new handles into one register and the
  runtime unpacks them. As long as handle numbers stay below \<open>2 ^ 32 - 1\<close>, the pair the program gets
  names the two ends of the new pair, in order and with all rights.
\<close>

theorem create_socket_roundtrip:
  assumes "flags_contains rs CREATE" and "next_id t < 0xFFFFFFFF"
    and "\<And>st. call factory (SocketInv (Create 1 1)) st =
          (case socket_factory_invoke obj (SocketInv (Create 1 1)) rs (fst st) (snd st) of (r, st') \<Rightarrow> Some (map_sum from_invocation_err id r, st'))"
  shows "\<exists>h1 h2 t' s' ep1 ep2. sys_create_socket call factory (t, s) = Some (Inr (h1, h2), t', s') \<and> new_pair s = ((ep1, ep2), s') \<and>
    h1 \<noteq> h2 \<and> entries t' h1 = Some \<lparr>rights = flags_all, object = obj ep1\<rparr> \<and> entries t' h2 = Some \<lparr>rights = flags_all, object = obj ep2\<rparr>"
proof -
  obtain ep1 ep2 s' where np: "new_pair s = ((ep1, ep2), s')" by (metis surj_pair)
  let ?h = "next_id t"
  have le: "?h < 2 ^ 32" "?h + 1 < 2 ^ 32" "?h \<noteq> ?h + 1"
    using assms(2) unat_add_lem [of ?h 1] by (auto simp: word_less_nat_alt)
  let ?p = "(?h AND 0xFFFFFFFF) OR push_bit 32 ((?h + 1) AND 0xFFFFFFFF)"
  have p: "?p AND 0xFFFFFFFF = ?h" "drop_bit 32 ?p = ?h + 1" using packed_halves [OF le(1,2)] by simp_all
  let ?t1 = "snd (ht_insert t (obj ep1) flags_all)" and ?t2 = "snd (ht_insert (snd (ht_insert t (obj ep1) flags_all)) (obj ep2) flags_all)"
  have "socket_factory_invoke obj (SocketInv (Create 1 1)) rs t s = (Inr ?p, ?t2, s')"
    using assms(1) np by (simp add: ht_insert_def Let_def)
  then have "sys_create_socket call factory (t, s) = Some (Inr (?h, ?h + 1), ?t2, s')"
    using assms(3) [of "(t, s)"] p by (simp add: sys_create_socket_def)
  moreover have "entries ?t2 ?h = Some \<lparr>rights = flags_all, object = obj ep1\<rparr>"
    "entries ?t2 (?h + 1) = Some \<lparr>rights = flags_all, object = obj ep2\<rparr>"
    using le(3) by (simp_all add: ht_insert_def Let_def)
  ultimately show ?thesis using np le(3) by blast
qed

section \<open>Witnesses\<close>


lemma flat_readable: "\<forall>k < n. can_read flat_mem (p + of_nat k)" "user_range 0x1000 64"
  by (simp_all add: flat_mem_def user_range_def KERNEL_BASE_def)

theorem syscall_roundtrip_witness:
  "rt_sys_invoke (syscall_dispatch 64 (\<lambda>bs. if hd bs = 0 then GetInfo else Ping) id (\<lambda>t _. t)
      (\<lambda>h op s. if op = GetInfo then Some (Inl AccessDenied, s) else None) flat_mem) 0 7 0x1000 (handle_table_new :: nat handle_table) =
    Some (Inl SysAccessDenied, handle_table_new)"
proof -
  have b: "(if hd (bytes_at flat_mem 0x1000 (unat (64 :: u64))) = 0 then GetInfo else Ping) = GetInfo"
    by (simp add: bytes_at_def flat_mem_def upt_rec)
  show ?thesis
    using syscall_roundtrip [where decode = "\<lambda>bs. if hd bs = 0 then GetInfo else Ping" and um = flat_mem and invo = GetInfo and h = 7 and junk = 0
        and sys_invoke = "\<lambda>h op s. if op = GetInfo then Some (Inl AccessDenied, s) else None" and s = "handle_table_new :: nat handle_table"
        and r = "Inl AccessDenied" and s' = "handle_table_new :: nat handle_table" and table = id and set_table = "\<lambda>t _. t",
        OF flat_readable(2) flat_readable(1) b] by simp
qed

theorem create_socket_roundtrip_witness:
  "\<exists>h1 h2 t' s' ep1 ep2.
     sys_create_socket (\<lambda>h op st. case socket_factory_invoke id op flags_all (fst st) (snd st) of (r, st') \<Rightarrow> Some (map_sum from_invocation_err id r, st'))
       5 (handle_table_new, no_sockets) = Some (Inr (h1, h2), t', s') \<and> new_pair no_sockets = ((ep1, ep2), s') \<and>
     h1 \<noteq> h2 \<and> entries t' h1 = Some \<lparr>rights = flags_all, object = id ep1\<rparr>"
proof -
  have c: "flags_contains flags_all CREATE" "next_id (handle_table_new :: nat handle_table) < 0xFFFFFFFF"
    by (simp_all add: flags_contains_def flags_all_def CREATE_def handle_table_new_def)
  show ?thesis
    using create_socket_roundtrip [OF c, where obj = id and factory = 5 and s = no_sockets
        and call = "\<lambda>h op st. case socket_factory_invoke id op flags_all (fst st) (snd st) of (r, st') \<Rightarrow> Some (map_sum from_invocation_err id r, st')"] by blast
qed

end
