(* ===== verification/Userio.thy ===== *)
theory Userio
  imports Directory Page_Memory Objects Syscall
begin

text \<open>
  Input and output of user programs: the reader and writer traits (\<^verbatim>\<open>vespertine-std/src/io.rs\<close>), files
  (\<^verbatim>\<open>fs/file.rs\<close>), path walking (\<^verbatim>\<open>path.rs\<close>), the error kinds (\<^verbatim>\<open>error.rs\<close>), and the line reader and buffered
  writer of the runtime (\<^verbatim>\<open>vespertine-rt/src/source.rs\<close>, \<^verbatim>\<open>sink.rs\<close>). A reader is a function that
  delivers bytes into a buffer; a loop that need not end is a partial function whose missing
  value is not returning.
\<close>

section \<open>Errors\<close>

datatype error_kind =
    NotFound | EkAccessDenied | EkInvalidArgument | EkInvalidHandle | EkInvalidPointer | EkOutOfMemory
  | BrokenSocket | EkWouldBlock | EkBufferFull | EkPoolExhausted | EkNameTooLong | EkInvalidEncoding
  | EkNotMapped | Unknown

record io_error =
  kind :: error_kind
  message :: string

fun error_kind_from :: "sys_error \<Rightarrow> error_kind" where
  "error_kind_from SysInvalidHandle = NotFound"
| "error_kind_from SysAccessDenied = EkAccessDenied"
| "error_kind_from SysInvalidArgument = EkInvalidArgument"
| "error_kind_from SysOutOfMemory = EkOutOfMemory"
| "error_kind_from SysWouldBlock = EkWouldBlock"
| "error_kind_from SysBufferFull = EkBufferFull"
| "error_kind_from SysPoolExhausted = EkPoolExhausted"
| "error_kind_from SysNameTooLong = EkNameTooLong"
| "error_kind_from SysInvalidEncoding = EkInvalidEncoding"
| "error_kind_from SysNotMapped = EkNotMapped"
| "error_kind_from _ = Unknown"

definition error_from :: "sys_error \<Rightarrow> io_error" where
  "error_from e = \<lparr>kind = error_kind_from e, message = ''''\<rparr>"

section \<open>Readers and writers\<close>

text \<open>
  \<open>read len\<close> fills a buffer of \<open>len\<close> bytes: it returns the bytes it put there. More bytes than fit
  make the slice of the buffer panic.
\<close>

type_synonym 's reader = "nat \<Rightarrow> 's \<Rightarrow> ((io_error + u8 list) \<times> 's) run"
type_synonym 's writer = "u8 list \<Rightarrow> 's \<Rightarrow> ((io_error + u64) \<times> 's) run"

partial_function (option) read_to_end_from :: "'s reader \<Rightarrow> u8 list \<Rightarrow> 's \<Rightarrow> ((io_error + u8 list) \<times> 's) run" where
  "read_to_end_from read buf s =
    Option.bind (read 512 s) (\<lambda>(r, s').
      case r of
        Inl e \<Rightarrow> Some (Inl e, s')
      | Inr chunk \<Rightarrow>
          if chunk = [] then Some (Inr buf, s')
          else if 512 < length chunk then None
          else read_to_end_from read (buf @ chunk) s')"

definition read_to_end :: "'s reader \<Rightarrow> 's \<Rightarrow> ((io_error + u8 list) \<times> 's) run" where
  "read_to_end read s = read_to_end_from read [] s"

definition read_to_string :: "'s reader \<Rightarrow> 's \<Rightarrow> ((io_error + u8 list) \<times> 's) run" where
  "read_to_string read s =
    do { (r, s') \<leftarrow> read_to_end read s;
         ret (case r of
                Inl e \<Rightarrow> Inl e
              | Inr bytes \<Rightarrow> if utf8_valid bytes then Inr bytes
                             else Inl \<lparr>kind = EkInvalidArgument, message = ''Stream contains invalid UTF-8''\<rparr>, s') }"

text \<open>The unsent rest of the buffer is the argument; the writer says how much of it it took.\<close>

partial_function (option) write_all :: "'s writer \<Rightarrow> u8 list \<Rightarrow> 's \<Rightarrow> ((io_error + unit) \<times> 's) run" where
  "write_all write buf s =
    (if buf = [] then Some (Inr (), s)
     else Option.bind (write buf s) (\<lambda>(r, s').
       case r of
         Inl e \<Rightarrow> Some (Inl e, s')
       | Inr n \<Rightarrow> if n = 0 then Some (Inl \<lparr>kind = EkOutOfMemory, message = ''Write failed''\<rparr>, s')
                  else write_all write (drop (unat n) buf) s'))"

section \<open>Files\<close>

record ufile =
  uf_handle :: handle_id
  uf_cursor :: u64

definition file_from :: "handle_id \<Rightarrow> ufile" where
  "file_from h = \<lparr>uf_handle = h, uf_cursor = 0\<rparr>"

definition file_stat :: "'s invoker \<Rightarrow> ufile \<Rightarrow> 's \<Rightarrow> ((io_error + u64) \<times> 's) run" where
  "file_stat call f s = do { (r, s') \<leftarrow> call (uf_handle f) (FileInv Stat) s; ret (map_sum error_from id r, s') }"

definition file_seek :: "u64 \<Rightarrow> ufile \<Rightarrow> ufile" where
  "file_seek p f = f\<lparr>uf_cursor := p\<rparr>"

definition file_read :: "'s invoker \<Rightarrow> u64 \<Rightarrow> u64 \<Rightarrow> ufile \<Rightarrow> 's \<Rightarrow> ((io_error + u64) \<times> ufile \<times> 's) run" where
  "file_read call buf len f s =
    do { (r, s') \<leftarrow> sys_read call (uf_handle f) buf len (uf_cursor f) s;
         ret (case r of Inr n \<Rightarrow> (Inr n, f\<lparr>uf_cursor := uf_cursor f + n\<rparr>, s') | Inl e \<Rightarrow> (Inl (error_from e), f, s')) }"

definition file_write :: "'s invoker \<Rightarrow> u64 \<Rightarrow> u64 \<Rightarrow> ufile \<Rightarrow> 's \<Rightarrow> ((io_error + u64) \<times> ufile \<times> 's) run" where
  "file_write call buf len f s =
    do { (r, s') \<leftarrow> sys_write call (uf_handle f) buf len (uf_cursor f) s;
         ret (case r of Inr n \<Rightarrow> (Inr n, f\<lparr>uf_cursor := uf_cursor f + n\<rparr>, s') | Inl e \<Rightarrow> (Inl (error_from e), f, s')) }"

text \<open>
  A file as a reader: the buffer of the reading loop is at \<open>buf\<close> in the program's memory, and the
  bytes read are what lies there after the call.
\<close>

definition file_reader :: "'s invoker \<Rightarrow> ('s \<Rightarrow> umem) \<Rightarrow> u64 \<Rightarrow> (ufile \<times> 's) reader" where
  "file_reader call mem_of buf len = (\<lambda>(f, s).
    do { (r, f', s') \<leftarrow> file_read call buf (of_nat len) f s;
         ret (map_sum id (\<lambda>n. bytes_at (mem_of s') buf (unat n)) r, f', s') })"

section \<open>Walking a path\<close>

text \<open>\<open>look\<close> is the lookup system call on a name in the program's memory.\<close>

fun walk_segments ::
  "(handle_id \<Rightarrow> u8 list \<Rightarrow> 's \<Rightarrow> ((sys_error + handle_id) \<times> 's) run) \<Rightarrow> (handle_id \<Rightarrow> 's \<Rightarrow> ((sys_error + unit) \<times> 's) run)
     \<Rightarrow> handle_id \<Rightarrow> u8 list list \<Rightarrow> handle_id \<Rightarrow> 's \<Rightarrow> ((sys_error + handle_id) \<times> 's) run" where
  "walk_segments look close root [] current s = ret (Inr current, s)"
| "walk_segments look close root (segment # rest) current s =
    (if segment = [] then walk_segments look close root rest current s
     else do { (r, s1) \<leftarrow> look current segment s;
               case r of
                 Inl e \<Rightarrow> ret (Inl e, s1)
               | Inr child \<Rightarrow>
                   if current \<noteq> root
                   then do { (q, s2) \<leftarrow> close current s1;
                             case q of Inl e \<Rightarrow> ret (Inl e, s2) | Inr _ \<Rightarrow> walk_segments look close root rest child s2 }
                   else walk_segments look close root rest child s1 })"

definition walk_path ::
  "(handle_id \<Rightarrow> u8 list \<Rightarrow> 's \<Rightarrow> ((sys_error + handle_id) \<times> 's) run) \<Rightarrow> (handle_id \<Rightarrow> 's \<Rightarrow> ((sys_error + unit) \<times> 's) run)
     \<Rightarrow> u8 list \<Rightarrow> handle_id \<Rightarrow> 's \<Rightarrow> ((sys_error + handle_id) \<times> 's) run" where
  "walk_path look close pth root s = walk_segments look close root (split_slash pth) root s"

section \<open>Reading a line\<close>

text \<open>
  \<open>next_byte\<close> is the one-byte read from the source: \<^verbatim>\<open>None\<close> for the end of the input or an error. The byte is
  stored at the current length before it is looked at.
\<close>

partial_function (option) read_line :: "('s \<Rightarrow> u8 option \<times> 's) \<Rightarrow> u8 list \<Rightarrow> nat \<Rightarrow> 's \<Rightarrow> (nat \<times> u8 list \<times> 's) run" where
  "read_line next_byte buf n s =
    (case next_byte s of
       (None, s') \<Rightarrow> Some (n, buf, s')
     | (Some b, s') \<Rightarrow>
         if length buf \<le> n then None
         else let buf' = buf[n := b]
              in if b = 8 then read_line next_byte buf' (if 0 < n then n - 1 else n) s'
                 else if b = 10 \<or> length buf \<le> n + 1 then Some (n + 1, buf', s')
                 else read_line next_byte buf' (n + 1) s')"

section \<open>The buffered writer\<close>

text \<open>\<open>emit\<close> is the write system call on the sink, whose result is ignored. The first \<open>pos\<close> bytes of the buffer are kept.\<close>

record 's sink_writer =
  sw_buf :: "u8 list"
  sw_out :: 's

definition flush :: "(u8 list \<Rightarrow> 's \<Rightarrow> 's) \<Rightarrow> 's sink_writer \<Rightarrow> 's sink_writer" where
  "flush emit w = (if sw_buf w = [] then w else \<lparr>sw_buf = [], sw_out = emit (sw_buf w) (sw_out w)\<rparr>)"

function write_str :: "(u8 list \<Rightarrow> 's \<Rightarrow> 's) \<Rightarrow> u8 list \<Rightarrow> 's sink_writer \<Rightarrow> 's sink_writer" where
  "write_str emit bytes w =
    (if bytes = [] then w
     else let space = 1024 - length (sw_buf w)
          in if space = 0 then write_str emit bytes (flush emit w)
             else let chunk = min (length bytes) space
                  in write_str emit (drop chunk bytes) (w\<lparr>sw_buf := sw_buf w @ take chunk bytes\<rparr>))"
  by pat_completeness auto
termination
  by (relation "measures [\<lambda>(_, bytes, w). length bytes, \<lambda>(_, bytes, w). length (sw_buf w)]")
    (auto simp: flush_def min_def Let_def)

declare write_str.simps [simp del]

definition print_all :: "(u8 list \<Rightarrow> 's \<Rightarrow> 's) \<Rightarrow> u8 list list \<Rightarrow> 's \<Rightarrow> 's" where
  "print_all emit strs out = sw_out (flush emit (fold (write_str emit) strs \<lparr>sw_buf = [], sw_out = out\<rparr>))"

section \<open>Files are read to their end\<close>

text \<open>
  The handle of a file object: a call on it runs the object's handler in the kernel and brings its
  answer back as in \<open>syscall_roundtrip\<close>.
\<close>

definition file_call :: "handle_id \<Rightarrow> file_obj \<Rightarrow> umem invoker" where
  "file_call h f h' invo um =
    (if h' = h then do { (r, um') \<leftarrow> file_invoke f invo um; ret (map_sum from_invocation_err id r, um') }
     else ret (Inl SysInvalidHandle, um))"

definition file_bytes :: "file_obj \<Rightarrow> umem \<Rightarrow> u64 \<Rightarrow> u8 list" where
  "file_bytes f um cur = bytes_at um (fo_addr f + cur) (unat (fo_size f) - unat cur)"

text \<open>The contents of the file lie in kernel memory, the buffer in the program's.\<close>

definition file_placed :: "file_obj \<Rightarrow> u64 \<Rightarrow> bool" where
  "file_placed f buf \<longleftrightarrow> KERNEL_BASE \<le> fo_addr f \<and> unat (fo_addr f) + unat (fo_size f) \<le> 2 ^ 64 \<and> user_range buf 512"

lemma user_buffer_apart:
  assumes "user_range buf 512" and "KERNEL_BASE \<le> a"
  shows "512 \<le> unat (a - buf)"
proof -
  have "unat buf + 512 < 2 ^ 64" and b: "unat (buf + 512) < unat KERNEL_BASE" "unat (buf + 512) = unat buf + 512"
    using assms(1) unat_add_lem [of buf 512] by (auto simp: user_range_def word_less_nat_alt)
  then have "unat buf + 512 < unat a" using assms(2) by (simp add: word_le_nat_alt)
  moreover from this have "buf \<le> a" by (simp add: word_le_nat_alt)
  ultimately show ?thesis by (simp add: unat_sub)
qed

lemma file_addr_kernel:
  assumes "file_placed f buf" and "k < unat (fo_size f)"
  shows "KERNEL_BASE \<le> fo_addr f + of_nat k"
proof -
  have "unat (fo_addr f) + k < 2 ^ 64" and k: "k < 2 ^ 64" using assms by (auto simp: file_placed_def)
  then have "unat (fo_addr f + of_nat k) = unat (fo_addr f) + k" using unat_add_lem [of "fo_addr f" "of_nat k"] unat_of_nat64 [OF k] by simp
  then show ?thesis using assms(1) by (simp add: file_placed_def word_le_nat_alt)
qed

lemma file_chunk:
  assumes pl: "file_placed f buf" and op: "mem_open um" and cur: "uf_cursor uf \<le> fo_size f"
    and n: "n = min (unat (fo_size f) - unat (uf_cursor uf)) 512"
  shows "\<exists>um'. file_reader (file_call (uf_handle uf) f) id buf 512 (uf, um) =
      Some (Inr (take n (file_bytes f um (uf_cursor uf))), uf\<lparr>uf_cursor := uf_cursor uf + of_nat n\<rparr>, um') \<and>
    mem_open um' \<and> (\<forall>a \<ge> KERNEL_BASE. mbyte um' a = mbyte um a)"
proof -
  let ?cur = "uf_cursor uf"
  let ?len = "min (fo_size f - ?cur) 512"
  let ?bs = "bytes_at um (fo_addr f + ?cur) (unat ?len)"
  have le: "unat ?cur \<le> unat (fo_size f)" using cur by (simp add: word_le_nat_alt)
  have len: "unat ?len = n" using le cur by (simp add: n min_def word_le_nat_alt unat_sub)
  have bs: "take n (file_bytes f um ?cur) = ?bs"
    unfolding len by (auto simp: file_bytes_def n bytes_at_def take_map)
  show ?thesis
  proof (cases "?len = 0")
    case True
    then have "n = 0" using len by simp
    moreover have "read_file f ?cur buf 512 um = Some (Inr 0, um)" using True by (simp add: read_file_def)
    ultimately show ?thesis using op by (simp add: file_reader_def file_read_def sys_read_def file_call_def)
  next
    case False
    then have lt: "\<not> fo_size f \<le> ?cur" using cur by (auto simp: min_def)
    have r: "user_range buf 512" "length ?bs \<le> unat (512 :: u64)" using pl len n by (simp_all add: file_placed_def)
    obtain um' where w: "safe_copy_to um buf ?bs = Some (True, um')" "mem_open um'" "bytes_at um' buf (length ?bs) = ?bs"
      "\<forall>a. length ?bs \<le> unat (a - buf) \<longrightarrow> mbyte um' a = mbyte um a"
      using safe_copy_to_open [OF op r] by blast
    have same: "mbyte um' a = mbyte um a" if "KERNEL_BASE \<le> a" for a
      using w(4) user_buffer_apart [OF r(1) that] r(2) by simp
    have "read_file f ?cur buf 512 um = Some (Inr ?len, um')"
      using lt False w(1) by (simp add: read_file_def Let_def copy_out_def)
    then have "file_reader (file_call (uf_handle uf) f) id buf 512 (uf, um) = Some (Inr ?bs, uf\<lparr>uf_cursor := ?cur + ?len\<rparr>, um')"
      using w(3) by (simp add: file_reader_def file_read_def sys_read_def file_call_def)
    moreover have "?len = of_nat n" using len by (metis of_nat_unat ucast_id)
    ultimately show ?thesis using w(2) same bs by simp
  qed
qed

lemma file_bytes_step:
  assumes pl: "file_placed f buf" and same: "\<forall>a \<ge> KERNEL_BASE. mbyte um' a = mbyte um a"
    and n: "unat cur + n \<le> unat (fo_size f)"
  shows "file_bytes f um' (cur + of_nat n) = drop n (file_bytes f um cur)" and "unat (cur + of_nat n) = unat cur + n"
proof -
  have sz: "unat (fo_size f) < 2 ^ 64" using unsigned_less [of "fo_size f"] by simp
  then have nb: "n < 2 ^ 64" using n by simp
  show u: "unat (cur + of_nat n) = unat cur + n" using unat_add_lem [of cur "of_nat n"] unat_of_nat64 [OF nb] n sz by simp
  have "mbyte um' (fo_addr f + (cur + of_nat n) + of_nat k) = mbyte um (fo_addr f + cur + of_nat (n + k))"
    if "k < unat (fo_size f) - (unat cur + n)" for k
  proof -
    have e: "fo_addr f + (cur + of_nat n) + of_nat k = fo_addr f + of_nat (unat cur + n + k)" by (simp add: algebra_simps)
    have "KERNEL_BASE \<le> fo_addr f + of_nat (unat cur + n + k)" by (rule file_addr_kernel [OF pl]) (use that in simp)
    then show ?thesis using same unfolding e by (simp add: algebra_simps)
  qed
  then show "file_bytes f um' (cur + of_nat n) = drop n (file_bytes f um cur)"
    by (auto simp: file_bytes_def u bytes_at_def drop_map intro!: nth_equalityI)
qed

text \<open>
  C32. Reading a file to its end. On an open file whose object lies in kernel memory, the reading
  loop comes to an end, from any cursor up to the size, and returns exactly the bytes of the file
  from the cursor on; the cursor is at the end of the file and kernel memory is untouched.
\<close>

theorem read_to_end_terminates:
  assumes "file_placed f buf" and "mem_open um" and "uf_cursor uf \<le> fo_size f"
  shows "\<exists>um'. read_to_end (file_reader (file_call (uf_handle uf) f) id buf) (uf, um) =
      Some (Inr (file_bytes f um (uf_cursor uf)), uf\<lparr>uf_cursor := fo_size f\<rparr>, um') \<and>
    (\<forall>a \<ge> KERNEL_BASE. mbyte um' a = mbyte um a)"
proof -
  have "\<exists>um'. read_to_end_from (file_reader (file_call (uf_handle u) f) id buf) acc (u, um) =
      Some (Inr (acc @ file_bytes f um (uf_cursor u)), u\<lparr>uf_cursor := fo_size f\<rparr>, um') \<and> (\<forall>a \<ge> KERNEL_BASE. mbyte um' a = mbyte um a)"
    if "mem_open um" "uf_cursor u \<le> fo_size f" for acc u um
    using that
  proof (induction "unat (fo_size f) - unat (uf_cursor u)" arbitrary: acc u um rule: less_induct)
    case (less u)
    define n where "n = min (unat (fo_size f) - unat (uf_cursor u)) 512"
    have le: "unat (uf_cursor u) \<le> unat (fo_size f)" using less.prems(2) by (simp add: word_le_nat_alt)
    then have nle: "unat (uf_cursor u) + n \<le> unat (fo_size f)" by (simp add: n_def)
    obtain um1 where c: "file_reader (file_call (uf_handle u) f) id buf 512 (u, um) =
        Some (Inr (take n (file_bytes f um (uf_cursor u))), u\<lparr>uf_cursor := uf_cursor u + of_nat n\<rparr>, um1)"
      "mem_open um1" "\<forall>a \<ge> KERNEL_BASE. mbyte um1 a = mbyte um a"
      using file_chunk [OF assms(1) less.prems n_def] by blast
    note st = file_bytes_step [OF assms(1) c(3) nle]
    have len: "length (file_bytes f um (uf_cursor u)) = unat (fo_size f) - unat (uf_cursor u)" by (simp add: file_bytes_def)
    show ?case
    proof (cases "n = 0")
      case True
      then have "uf_cursor u = fo_size f" using le by (simp add: n_def word_unat_eq_iff min_def split: if_splits)
      moreover from this have "file_bytes f um (uf_cursor u) = []" using len by simp
      ultimately show ?thesis using c True by (subst read_to_end_from.simps) simp
    next
      case False
      let ?u = "u\<lparr>uf_cursor := uf_cursor u + of_nat n\<rparr>"
      have "uf_cursor ?u \<le> fo_size f" using st(2) nle by (simp add: word_le_nat_alt)
      moreover have "unat (fo_size f) - unat (uf_cursor ?u) < unat (fo_size f) - unat (uf_cursor u)"
        using st(2) nle False by simp
      ultimately obtain um2 where r: "read_to_end_from (file_reader (file_call (uf_handle ?u) f) id buf) (acc @ take n (file_bytes f um (uf_cursor u))) (?u, um1) =
          Some (Inr ((acc @ take n (file_bytes f um (uf_cursor u))) @ file_bytes f um1 (uf_cursor ?u)), ?u\<lparr>uf_cursor := fo_size f\<rparr>, um2)"
          "\<forall>a \<ge> KERNEL_BASE. mbyte um2 a = mbyte um1 a"
        using less.hyps [of ?u um1 "acc @ take n (file_bytes f um (uf_cursor u))"] c(2) by blast
      have ch: "take n (file_bytes f um (uf_cursor u)) \<noteq> []" "\<not> 512 < length (take n (file_bytes f um (uf_cursor u)))"
        using False len nle by (auto simp: n_def)
      have "read_to_end_from (file_reader (file_call (uf_handle u) f) id buf) acc (u, um) =
          Some (Inr (acc @ file_bytes f um (uf_cursor u)), u\<lparr>uf_cursor := fo_size f\<rparr>, um2)"
        using c(1) ch r(1) st(1) by (subst read_to_end_from.simps) simp
      then show ?thesis using r(2) c(3) by auto
    qed
  qed
  from this [OF assms(2,3), of "[]"] show ?thesis by (simp add: read_to_end_def)
qed

section \<open>Writing\<close>

text \<open>Writing a whole buffer through a writer that takes a non-empty part of it each time.\<close>

lemma write_all_law:
  assumes took: "\<And>buf s. P s \<Longrightarrow> buf \<noteq> [] \<Longrightarrow> \<exists>n s'. write buf s = Some (Inr n, s') \<and> n \<noteq> 0 \<and> P s' \<and> log s' = log s @ take (unat n) buf"
  shows "P s \<Longrightarrow> \<exists>s'. write_all write buf s = Some (Inr (), s') \<and> log s' = log s @ buf \<and> P s'"
proof (induction "length buf" arbitrary: buf s rule: less_induct)
  case less
  show ?case
  proof (cases "buf = []")
    case True
    then show ?thesis using less.prems by (subst write_all.simps) simp
  next
    case False
    obtain n s1 where w: "write buf s = Some (Inr n, s1)" "n \<noteq> 0" "P s1" "log s1 = log s @ take (unat n) buf"
      using took [OF less.prems False] by blast
    have "0 < unat n" using w(2) by (simp add: unat_gt_0)
    then have "length (drop (unat n) buf) < length buf" using False by simp
    then obtain s2 where "write_all write (drop (unat n) buf) s1 = Some (Inr (), s2)" "log s2 = log s1 @ drop (unat n) buf" "P s2"
      using less.hyps w(3) by blast
    then show ?thesis using w False by (subst write_all.simps) simp
  qed
qed

lemma write_str_law:
  "length (sw_buf w) \<le> 1024 \<Longrightarrow>
   \<exists>chunks. sw_out (write_str emit bytes w) = fold emit chunks (sw_out w) \<and>
     concat chunks @ sw_buf (write_str emit bytes w) = sw_buf w @ bytes \<and>
     (\<forall>c \<in> set chunks. c \<noteq> [] \<and> length c \<le> 1024) \<and> length (sw_buf (write_str emit bytes w)) \<le> 1024"
proof (induction emit bytes w rule: write_str.induct)
  case (1 emit bytes w)
  consider (nil) "bytes = []" | (full) "bytes \<noteq> []" "1024 - length (sw_buf w) = 0" | (room) "bytes \<noteq> []" "1024 - length (sw_buf w) \<noteq> 0" by blast
  then show ?case
  proof cases
    case nil
    then show ?thesis using 1(3) by (intro exI [of _ "[]"]) (simp add: write_str.simps)
  next
    case full
    have ne: "sw_buf w \<noteq> []" using full(2) by auto
    then have f: "flush emit w = \<lparr>sw_buf = [], sw_out = emit (sw_buf w) (sw_out w)\<rparr>" by (simp add: flush_def)
    then obtain chunks where c: "sw_out (write_str emit bytes (flush emit w)) = fold emit chunks (emit (sw_buf w) (sw_out w))"
      "concat chunks @ sw_buf (write_str emit bytes (flush emit w)) = bytes" "\<forall>c \<in> set chunks. c \<noteq> [] \<and> length c \<le> 1024"
      "length (sw_buf (write_str emit bytes (flush emit w))) \<le> 1024"
      using 1(1) [OF full(1) refl full(2)] by auto
    have "write_str emit bytes w = write_str emit bytes (flush emit w)" using full by (subst write_str.simps) simp
    then show ?thesis using c ne 1(3) by (intro exI [of _ "sw_buf w # chunks"]) simp
  next
    case room
    let ?k = "min (length bytes) (1024 - length (sw_buf w))"
    let ?w = "w\<lparr>sw_buf := sw_buf w @ take ?k bytes\<rparr>"
    have "length (sw_buf ?w) \<le> 1024" using 1(3) by simp
    then obtain chunks where c: "sw_out (write_str emit (drop ?k bytes) ?w) = fold emit chunks (sw_out w)"
      "concat chunks @ sw_buf (write_str emit (drop ?k bytes) ?w) = (sw_buf w @ take ?k bytes) @ drop ?k bytes"
      "\<forall>c \<in> set chunks. c \<noteq> [] \<and> length c \<le> 1024" "length (sw_buf (write_str emit (drop ?k bytes) ?w)) \<le> 1024"
      using 1(2) [OF room(1) refl room(2) refl] by auto
    have "write_str emit bytes w = write_str emit (drop ?k bytes) ?w" using room by (subst write_str.simps) (simp add: Let_def)
    then show ?thesis using c by (intro exI [of _ chunks]) simp
  qed
qed

text \<open>
  What a program prints. The strings of one print go through a buffer of 1024 bytes; when the
  writer is dropped, the sink has received non-empty pieces of at most 1024 bytes whose
  concatenation is the printed text.
\<close>

theorem print_delivers:
  "\<exists>chunks. print_all emit strs out = fold emit chunks out \<and> concat chunks = concat strs \<and>
    (\<forall>c \<in> set chunks. 0 < length c \<and> length c \<le> 1024)"
proof -
  have "\<exists>chunks. sw_out (fold (write_str emit) strs w) = fold emit chunks (sw_out w) \<and>
      concat chunks @ sw_buf (fold (write_str emit) strs w) = sw_buf w @ concat strs \<and>
      (\<forall>c \<in> set chunks. c \<noteq> [] \<and> length c \<le> 1024) \<and> length (sw_buf (fold (write_str emit) strs w)) \<le> 1024"
    if "length (sw_buf w) \<le> 1024" for w using that
  proof (induction strs arbitrary: w)
    case Nil
    then show ?case by (intro exI [of _ "[]"]) simp
  next
    case (Cons x strs)
    obtain c1 where c1: "sw_out (write_str emit x w) = fold emit c1 (sw_out w)" "concat c1 @ sw_buf (write_str emit x w) = sw_buf w @ x"
      "\<forall>c \<in> set c1. c \<noteq> [] \<and> length c \<le> 1024" "length (sw_buf (write_str emit x w)) \<le> 1024"
      using write_str_law [OF Cons.prems] by blast
    obtain c2 where c2: "sw_out (fold (write_str emit) strs (write_str emit x w)) = fold emit c2 (sw_out (write_str emit x w))"
      "concat c2 @ sw_buf (fold (write_str emit) strs (write_str emit x w)) = sw_buf (write_str emit x w) @ concat strs"
      "\<forall>c \<in> set c2. c \<noteq> [] \<and> length c \<le> 1024" "length (sw_buf (fold (write_str emit) strs (write_str emit x w))) \<le> 1024"
      using Cons.IH [OF c1(4)] by blast
    have "concat (c1 @ c2) @ sw_buf (fold (write_str emit) strs (write_str emit x w)) = sw_buf w @ concat (x # strs)"
      using c1(2) c2(2) by (metis append.assoc concat.simps(2) concat_append)
    then show ?case using c1 c2 by (intro exI [of _ "c1 @ c2"]) auto
  qed
  from this [of "\<lparr>sw_buf = [], sw_out = out\<rparr>"]
  obtain chunks where c: "sw_out (fold (write_str emit) strs \<lparr>sw_buf = [], sw_out = out\<rparr>) = fold emit chunks out"
    "concat chunks @ sw_buf (fold (write_str emit) strs \<lparr>sw_buf = [], sw_out = out\<rparr>) = concat strs"
    "\<forall>c \<in> set chunks. c \<noteq> [] \<and> length c \<le> 1024" "length (sw_buf (fold (write_str emit) strs \<lparr>sw_buf = [], sw_out = out\<rparr>)) \<le> 1024" by auto
  let ?w = "fold (write_str emit) strs \<lparr>sw_buf = [], sw_out = out\<rparr>"
  show ?thesis
  proof (cases "sw_buf ?w = []")
    case True
    then show ?thesis using c by (intro exI [of _ chunks]) (simp add: print_all_def flush_def)
  next
    case False
    then show ?thesis using c by (intro exI [of _ "chunks @ [sw_buf ?w]"]) (auto simp: print_all_def flush_def)
  qed
qed

section \<open>Editing a line\<close>

text \<open>The line a user ends up with: a backspace removes the last byte, a newline or a full buffer ends it.\<close>

fun edit_line :: "nat \<Rightarrow> u8 list \<Rightarrow> u8 list \<Rightarrow> u8 list" where
  "edit_line cap acc [] = acc"
| "edit_line cap acc (b # bs) =
    (if b = 8 then edit_line cap (butlast acc) bs
     else if b = 10 \<or> cap \<le> length acc + 1 then acc @ [b] else edit_line cap (acc @ [b]) bs)"

fun typed :: "u8 list \<Rightarrow> u8 option \<times> u8 list" where
  "typed [] = (None, [])"
| "typed (b # bs) = (Some b, bs)"

text \<open>
  The line reader edits in place: for every input that ends, reading into a non-empty buffer
  returns, and the bytes it reports are the line a user sees after the backspaces, cut off at the
  first newline or when the buffer is full.
\<close>

theorem read_line_edits:
  assumes "buf \<noteq> []"
  shows "\<exists>n buf' rest. read_line typed buf 0 input = Some (n, buf', rest) \<and> take n buf' = edit_line (length buf) [] input \<and>
    n \<le> length buf \<and> length buf' = length buf"
proof -
  have "\<exists>m buf' rest. read_line typed buf n input = Some (m, buf', rest) \<and> take m buf' = edit_line (length buf) (take n buf) input \<and>
      m \<le> length buf \<and> length buf' = length buf" if "n < length buf" for n and buf :: "u8 list" using that
  proof (induction input arbitrary: n buf)
    case Nil
    then show ?case by (subst read_line.simps) simp
  next
    case (Cons b input)
    let ?buf = "buf[n := b]"
    have t: "take (n + 1) ?buf = take n buf @ [b]" using Cons.prems by (simp add: take_Suc_conv_app_nth)
    consider (erase) "b = 8" | (stop) "b \<noteq> 8" "b = 10 \<or> length buf \<le> n + 1" | (go) "b \<noteq> 8" "b \<noteq> 10" "n + 1 < length buf" by force
    then show ?case
    proof cases
      case erase
      have "(if 0 < n then n - 1 else n) < length ?buf" "take (if 0 < n then n - 1 else n) ?buf = butlast (take n buf)"
        using Cons.prems by (auto simp: butlast_take)
      then show ?thesis using Cons.IH [of "if 0 < n then n - 1 else n" ?buf] Cons.prems erase by (subst read_line.simps) simp
    next
      case stop
      then show ?thesis using Cons.prems t by (subst read_line.simps) (auto simp: Let_def)
    next
      case go
      then show ?thesis using Cons.IH [of "n + 1" ?buf] Cons.prems t by (subst read_line.simps) (simp add: Let_def)
    qed
  qed
  from this [of 0 buf] show ?thesis using assms by simp
qed

section \<open>Walking from user space\<close>

definition look_call :: "(kobj \<Rightarrow> filename \<Rightarrow> access_rights \<Rightarrow> world \<Rightarrow> (invocation_error + u64) \<times> world) \<Rightarrow> handle_id \<Rightarrow> u8 list \<Rightarrow> world
    \<Rightarrow> ((sys_error + handle_id) \<times> world) run" where
  "look_call other h nm w = (case lookup_through other h nm w of (r, w') \<Rightarrow> Some (map_sum from_invocation_err id r, w'))"

definition close_call :: "handle_id \<Rightarrow> world \<Rightarrow> ((sys_error + unit) \<times> world) run" where
  "close_call h w = (case ht_close (handles w) h of (r, t) \<Rightarrow> Some (map_sum from_invocation_err id r, w\<lparr>handles := t\<rparr>))"

text \<open>Lookups by other object classes close no handle.\<close>

definition lookup_adds :: "(kobj \<Rightarrow> filename \<Rightarrow> access_rights \<Rightarrow> world \<Rightarrow> (invocation_error + u64) \<times> world) \<Rightarrow> bool" where
  "lookup_adds other \<longleftrightarrow> (\<forall>ob nm rs w. dom (entries (handles w)) \<subseteq> dom (entries (handles (snd (other ob nm rs w)))))"

lemma lookup_through_adds:
  assumes "lookup_adds other"
  shows "dom (entries (handles w)) \<subseteq> dom (entries (handles (snd (lookup_through other h nm w))))"
proof (cases "resolve_entry (handles w) h (required_rights (DirectoryInv (Lookup 0 0)))")
  case (Inl e)
  then show ?thesis by (simp add: lookup_through_def)
next
  case (Inr en)
  have d: "dom (entries (handles w)) \<subseteq> dom (entries (handles (snd (dir_lookup d nm rs w))))" for d rs
    by (auto simp: dir_lookup_def ht_insert_def Let_def split: option.splits)
  have o: "dom (entries (handles w)) \<subseteq> dom (entries (handles (snd (other ob nm rs w))))" for ob rs
    using assms by (simp only: lookup_adds_def)
  show ?thesis using d o Inr by (cases "object en") (simp_all add: lookup_through_def)
qed

lemma lookup_through_open:
  "lookup_through other h nm w = (Inr h', w') \<Longrightarrow> h \<in> dom (entries (handles w))"
  by (auto simp: lookup_through_def resolve_entry_def split: option.splits)


section \<open>Witnesses\<close>

theorem read_to_end_terminates_witness:
  "\<exists>um'. read_to_end (file_reader (file_call 5 \<lparr>fo_addr = 0xFFFF800000001000, fo_size = 1000\<rparr>) id 0x2000) (\<lparr>uf_handle = 5, uf_cursor = 10\<rparr>, flat_mem) =
      Some (Inr (bytes_at flat_mem 0xFFFF80000000100A 990), \<lparr>uf_handle = 5, uf_cursor = 1000\<rparr>, um')"
proof -
  let ?f = "\<lparr>fo_addr = 0xFFFF800000001000, fo_size = 1000\<rparr>"
  have "file_placed ?f 0x2000" "mem_open flat_mem"
    by (simp_all add: file_placed_def KERNEL_BASE_def user_range_def mem_open_def flat_mem_def)
  then show ?thesis
    using read_to_end_terminates [of ?f "0x2000" flat_mem "\<lparr>uf_handle = 5, uf_cursor = 10\<rparr>"] by (auto simp: file_bytes_def)
qed

theorem read_line_edits_witness:
  "\<exists>n buf' rest. read_line typed (replicate 128 0) 0 [108, 120, 8, 115, 10, 65] = Some (n, buf', rest) \<and> take n buf' = [108, 115, 10]"
proof -
  have "edit_line 128 [] [108, 120, 8, 115, 10, 65] = [108, 115, 10]" by simp
  then show ?thesis using read_line_edits [of "replicate 128 0" "[108, 120, 8, 115, 10, 65]"] by auto
qed


end
