(* ===== verification/Userenv.thy ===== *)
theory Userenv
  imports Procenv Userio
begin

text \<open>
  The environment of a program as the program reads it (\<^verbatim>\<open>vespertine-std/src/env.rs\<close>, \<^verbatim>\<open>ext\<close> of
  \<^verbatim>\<open>vespertine-abi/src/lib.rs\<close>) and the request that starts another program (\<^verbatim>\<open>vespertine-std/src/exec.rs\<close>). Memory is
  what the program sees at each virtual address. \<open>lossy\<close> is what the conversion of a C string to text
  makes of its bytes; it leaves valid text alone.
\<close>

section \<open>Reading the environment\<close>

definition vpeek :: "(u64 \<Rightarrow> u8) \<Rightarrow> u64 \<Rightarrow> nat \<Rightarrow> u8 list" where
  "vpeek vm p n = map (\<lambda>k. vm (p + of_nat k)) [0..<n]"

definition env_pkg :: "(u64 \<Rightarrow> u8) \<Rightarrow> u64 \<Rightarrow> init_package run" where
  "env_pkg vm pkg_ptr = (if pkg_ptr = 0 then panic else ret (decode_package (vpeek vm pkg_ptr 64)))"

partial_function (option) cstr :: "(u64 \<Rightarrow> u8) \<Rightarrow> u64 \<Rightarrow> u8 list run" where
  "cstr vm p = (if vm p = 0 then Some [] else Option.bind (cstr vm (p + 1)) (\<lambda>s. Some (vm p # s)))"

fun read_argv :: "(u8 list \<Rightarrow> u8 list) \<Rightarrow> (u64 \<Rightarrow> u8) \<Rightarrow> u64 \<Rightarrow> nat list \<Rightarrow> u8 list list run" where
  "read_argv lossy vm argv [] = ret []"
| "read_argv lossy vm argv (i # is) =
    (let arg_ptr = (le_word (vpeek vm (argv + of_nat (8 * i)) 8) :: u64)
     in if arg_ptr = 0 then read_argv lossy vm argv is
        else do { s \<leftarrow> cstr vm arg_ptr; rest \<leftarrow> read_argv lossy vm argv is; ret (lossy s # rest) })"

definition env_args :: "(u8 list \<Rightarrow> u8 list) \<Rightarrow> (u64 \<Rightarrow> u8) \<Rightarrow> u64 \<Rightarrow> u8 list list run" where
  "env_args lossy vm pkg_ptr = do { p \<leftarrow> env_pkg vm pkg_ptr; read_argv lossy vm (pk_argv p) [0..<unat (pk_argc p)] }"

definition env_extra_handles :: "(u64 \<Rightarrow> u8) \<Rightarrow> u64 \<Rightarrow> handle_grant list run" where
  "env_extra_handles vm pkg_ptr =
    do { p \<leftarrow> env_pkg vm pkg_ptr;
         ret (map (\<lambda>i. decode_grant (vpeek vm (extra_handles_ptr p + of_nat (24 * i)) 24)) [0..<unat (extra_handles_len p)]) }"

definition env_find_tag :: "(u64 \<Rightarrow> u8) \<Rightarrow> u64 \<Rightarrow> u64 \<Rightarrow> handle_grant option run" where
  "env_find_tag vm pkg_ptr tag = do { gs \<leftarrow> env_extra_handles vm pkg_ptr; ret (find (\<lambda>g. hg_tag g = tag) gs) }"

section \<open>Starting a program\<close>

record exec =
  ex_name :: "u8 list"
  ex_args :: "u8 list list"
  ex_root :: handle_id
  ex_source :: handle_id
  ex_sink :: handle_id
  ex_extra :: "handle_grant list"
  ex_root_rights :: access_rights

definition exec_new :: "u8 list \<Rightarrow> init_package \<Rightarrow> exec" where
  "exec_new name p =
    \<lparr>ex_name = name, ex_args = [], ex_root = root_handle p, ex_source = source_handle p, ex_sink = sink_handle p, ex_extra = [],
     ex_root_rights = 0\<rparr>"

definition exec_arg :: "u8 list \<Rightarrow> exec \<Rightarrow> exec" where
  "exec_arg a e = e\<lparr>ex_args := ex_args e @ [a]\<rparr>"

definition exec_args :: "u8 list list \<Rightarrow> exec \<Rightarrow> exec" where
  "exec_args as e = e\<lparr>ex_args := ex_args e @ as\<rparr>"

definition exec_grant :: "handle_grant \<Rightarrow> exec \<Rightarrow> exec" where
  "exec_grant g e = e\<lparr>ex_extra := ex_extra e @ [g]\<rparr>"

definition inherit_capabilities :: "handle_grant list \<Rightarrow> exec \<Rightarrow> exec" where
  "inherit_capabilities gs e = e\<lparr>ex_extra := ex_extra e @ gs\<rparr>"

text \<open>The buffer of arguments: the name of the program first, each argument ended by a zero.\<close>

definition args_buf :: "exec \<Rightarrow> u8 list" where
  "args_buf e = fold (\<lambda>arg buf. (buf @ arg) @ [0]) (ex_args e) (([] @ ex_name e) @ [0])"

definition TAG_SYS_PROCMAN :: u64 where
  "TAG_SYS_PROCMAN = 0x2002"

text \<open>
  \<open>look\<close> and \<open>call\<close> are the system calls, \<open>grants_ptr\<close> and \<open>args_ptr\<close> the addresses of the two buffers.
\<close>

definition programs_name :: "u8 list" where
  "programs_name = map (of_nat \<circ> of_char) ''Programs''"

definition exec_spawn ::
  "(handle_id \<Rightarrow> u8 list \<Rightarrow> 's \<Rightarrow> ((sys_error + handle_id) \<times> 's) run) \<Rightarrow> 's invoker \<Rightarrow> u64 \<Rightarrow> u64 \<Rightarrow> handle_grant list \<Rightarrow> handle_id
     \<Rightarrow> exec \<Rightarrow> 's \<Rightarrow> ((io_error + handle_id) \<times> 's) run" where
  "exec_spawn look call grants_ptr args_ptr own_grants own_root e s =
    (case find (\<lambda>g. hg_tag g = TAG_SYS_PROCMAN) own_grants of
       None \<Rightarrow> ret (Inl \<lparr>kind = EkAccessDenied, message = ''[ERROR] Process manager capability not found.''\<rparr>, s)
     | Some pm \<Rightarrow>
         do { (r, s1) \<leftarrow> look own_root programs_name s;
              case r of
                Inl er \<Rightarrow> ret (Inl (error_from er), s1)
              | Inr programs \<Rightarrow>
                  do { (r2, s2) \<leftarrow> look programs (ex_name e) s1;
                       case r2 of
                         Inl er \<Rightarrow> ret (Inl (error_from er), s2)
                       | Inr prog \<Rightarrow>
                           do { (r3, s3) \<leftarrow> call (hg_id pm)
                                  (ProcessManager (Spawn prog (ex_root e) (ex_root_rights e) (ex_source e) (ex_sink e) grants_ptr
                                     (of_nat (length (ex_extra e))) args_ptr (of_nat (length (args_buf e))))) s2;
                                ret (map_sum error_from id r3, s3) } } })"

section \<open>Arguments arrive\<close>

lemma args_buf_bytes: "args_buf e = arg_bytes (ex_name e # ex_args e)"
proof -
  have "fold (\<lambda>arg buf. (buf @ arg) @ [0]) as buf = buf @ arg_bytes as" for as and buf :: "u8 list"
    by (induction as arbitrary: buf) (simp_all add: arg_bytes_def)
  then show ?thesis by (simp add: args_buf_def arg_bytes_def)
qed

text \<open>The top page of the stack, frame \<open>fr\<close> seen at \<open>base\<close>.\<close>

definition page_view :: "pmem \<Rightarrow> nat \<Rightarrow> u64 \<Rightarrow> u64 \<Rightarrow> u8" where
  "page_view m fr base a = m (fr + unat (a - base))"

lemma vpeek_page: "n + k \<le> 4096 \<Longrightarrow> vpeek (page_view m fr base) (base + of_nat n) k = peek m (fr + n) k"
proof (rule nth_equalityI)
  fix i assume n: "n + k \<le> 4096" and "i < length (vpeek (page_view m fr base) (base + of_nat n) k)"
  then have i: "i < k" by (simp add: vpeek_def)
  have "base + of_nat n + of_nat i - base = (of_nat (n + i) :: u64)" by simp
  then show "vpeek (page_view m fr base) (base + of_nat n) k ! i = peek m (fr + n) k ! i"
    using i n unat_of_nat64 [of "n + i"] by (simp add: vpeek_def page_view_def add.assoc)
qed (simp add: vpeek_def)

lemma cstr_ends:
  "vpeek vm p (length s + 1) = s @ [0] \<Longrightarrow> 0 \<notin> set s \<Longrightarrow> cstr vm p = Some s"
proof (induction s arbitrary: p)
  case Nil
  then show ?case by (subst cstr.simps) (simp add: vpeek_def)
next
  case (Cons b s)
  have "vpeek vm p (length (b # s) + 1) = vm p # vpeek vm (p + 1) (length s + 1)"
    by (simp add: vpeek_def map_upt_Suc add.assoc del: upt_Suc)
  then have "vm p = b" "cstr vm (p + 1) = Some s" using Cons by auto
  then show ?case using Cons.prems(2) by (subst cstr.simps) auto
qed

lemma env_reads:
  assumes v: "env_view m fr base gs ss pkg" and z: "\<forall>s \<in> set ss. 0 \<notin> set s" and b: "base \<noteq> 0" "unat base + 4096 \<le> 2 ^ 64"
    and len: "extra_handles_len pkg = of_nat (length gs)" and lossy: "\<forall>s \<in> set ss. lossy s = s"
  shows "env_args lossy (page_view m fr base) (base + of_nat (env_offset gs ss)) = Some ss"
    and "env_extra_handles (page_view m fr base) (base + of_nat (env_offset gs ss)) = Some gs"
proof -
  let ?o = "env_offset gs ss" and ?vm = "page_view m fr base"
  let ?o3 = "?o + 64 + 24 * length gs"
  have p: "decode_package (peek m (fr + ?o) 64) = env_package gs ss base pkg" and st: "env_strings gs ss + length (arg_bytes ss) \<le> 4096"
    and g: "\<forall>j < length gs. decode_grant (peek m (fr + (?o + 64 + 24 * j)) 24) = gs ! j"
    and a: "\<forall>j < length ss. \<exists>off. le_word (peek m (fr + (?o3 + 8 * j)) 8) = base + of_nat off \<and> off + length (ss ! j) + 1 \<le> 4096 \<and>
       peek m (fr + off) (length (ss ! j) + 1) = ss ! j @ [0]"
    using v by (simp_all add: env_view_def Let_def add.assoc)
  have fits: "?o3 + 8 * length ss + 8 \<le> 4096" using st by (simp add: env_strings_def mult.commute)
  have nz: "base + of_nat n \<noteq> 0" if "n < 4096" for n
  proof -
    have "unat (base + of_nat n) = unat base + n" using unat_add_lem [of base "of_nat n"] unat_of_nat64 [of n] b(2) that by simp
    then show ?thesis using b(1) by (metis add_is_0 unat_0 unat_eq_zero)
  qed
  have pkg: "env_pkg ?vm (base + of_nat ?o) = Some (env_package gs ss base pkg)"
    using vpeek_page [of ?o 64 m fr base] fits nz [of ?o] p by (simp add: env_pkg_def)
  have argc: "unat (of_nat (length ss) :: u64) = length ss" "unat (of_nat (length gs) :: u64) = length gs" using fits by (auto intro!: unat_of_nat64)
  have rd: "read_argv lossy ?vm (base + of_nat ?o3) is = Some (map (\<lambda>i. ss ! i) is)" if "\<forall>i \<in> set is. i < length ss" for "is"
    using that
  proof (induction "is")
    case (Cons i "is")
    then have i: "i < length ss" by simp
    obtain off where off: "le_word (peek m (fr + (?o3 + 8 * i)) 8) = base + of_nat off" "off + length (ss ! i) + 1 \<le> 4096"
      "peek m (fr + off) (length (ss ! i) + 1) = ss ! i @ [0]" using a i by blast
    have e: "base + of_nat ?o3 + of_nat (8 * i) = base + of_nat (?o3 + 8 * i)" by simp
    have "vpeek ?vm (base + of_nat (?o3 + 8 * i)) 8 = peek m (fr + (?o3 + 8 * i)) 8" by (rule vpeek_page) (use fits i in simp)
    moreover have "cstr ?vm (base + of_nat off) = Some (ss ! i)"
      using vpeek_page [OF off(2) [unfolded add.assoc], of m fr base] off(3) z i by (intro cstr_ends) auto
    ultimately show ?case using Cons off(1) nz [of off] off(2) lossy i unfolding read_argv.simps e by (simp add: Let_def)
  qed simp
  have ar: "pk_argv (env_package gs ss base pkg) = base + of_nat ?o3" "pk_argc (env_package gs ss base pkg) = of_nat (length ss)"
    by (simp_all add: env_package_def mult.commute)
  show "env_args lossy ?vm (base + of_nat ?o) = Some ss"
    using rd [of "[0..<length ss]"] by (simp add: env_args_def pkg ar argc(1) map_nth)
  have "decode_grant (vpeek ?vm (base + of_nat (?o + 64) + of_nat (24 * j)) 24) = gs ! j" if "j < length gs" for j
  proof -
    have e: "base + of_nat (?o + 64) + of_nat (24 * j) = base + of_nat (?o + 64 + 24 * j)" by simp
    have "vpeek ?vm (base + of_nat (?o + 64 + 24 * j)) 24 = peek m (fr + (?o + 64 + 24 * j)) 24" by (rule vpeek_page) (use fits that in simp)
    then show ?thesis using g that unfolding e by simp
  qed
  moreover have "extra_handles_ptr (env_package gs ss base pkg) = base + of_nat (?o + 64)" "extra_handles_len (env_package gs ss base pkg) = of_nat (length gs)"
    using len by (simp_all add: env_package_def)
  ultimately show "env_extra_handles ?vm (base + of_nat ?o) = Some gs"
    by (auto simp: env_extra_handles_def pkg argc(2) simp del: of_nat_add of_nat_mult intro!: nth_equalityI)
qed



end
