(* ===== verification/Readdir.thy ===== *)
theory Readdir
  imports Userio Ring
begin

text \<open>
  Listing a directory from user space: the iterator \<^verbatim>\<open>ReadDir\<close> of \<^verbatim>\<open>vespertine-std/src/fs/dir.rs\<close>, which cuts
  the packets a directory writes (theory \<open>Directory\<close>) out of the byte stream of a socket (theory
  \<open>Ring\<close>). Cursor and limit are machine words; the unsafe copies out of the buffer are not
  checked, so \<open>beyond\<close> gives the bytes that lie behind it.
\<close>

section \<open>The iterator\<close>

datatype entry_kind = EntryFile | EntryDirectory | EntryObject

record dir_entry =
  de_name :: "u8 list"
  de_kind :: entry_kind

record read_dir =
  rd_finished :: bool
  rd_buffer :: "u8 list"
  rd_cursor :: u64
  rd_limit :: u64

definition FULL_ENTRY :: u64 where
  "FULL_ENTRY = 280"

definition read_dir_new :: read_dir where
  "read_dir_new = \<lparr>rd_finished = False, rd_buffer = replicate 4096 0, rd_cursor = 0, rd_limit = 0\<rparr>"

type_synonym 'q source = "nat \<Rightarrow> 'q \<Rightarrow> ((sys_error + u8 list) \<times> 'q) run"

definition copy_front :: "u8 list \<Rightarrow> nat \<Rightarrow> nat \<Rightarrow> u8 list run" where
  "copy_front buf from to =
    (if from \<le> to \<and> to \<le> length buf then ret (take (to - from) (drop from buf) @ drop (to - from) buf) else panic)"

definition overlay :: "u8 list \<Rightarrow> nat \<Rightarrow> u8 list \<Rightarrow> u8 list" where
  "overlay buf p bs = take p buf @ bs @ drop (p + length bs) buf"

definition rd_fill :: "'q source \<Rightarrow> read_dir \<Rightarrow> 'q \<Rightarrow> (bool \<times> read_dir \<times> 'q) run" where
  "rd_fill read d q =
    (let remaining = rd_limit d - rd_cursor d
     in if remaining < FULL_ENTRY
        then do { buf \<leftarrow> (if 0 < remaining then copy_front (rd_buffer d) (unat (rd_cursor d)) (unat (rd_limit d)) else ret (rd_buffer d));
                  (r, q') \<leftarrow> read (unat (4096 - remaining)) q;
                  let d1 = d\<lparr>rd_buffer := buf, rd_cursor := 0, rd_limit := remaining\<rparr>
                  in (case r of
                        Inr (b # bs) \<Rightarrow>
                          ret (True, d1\<lparr>rd_buffer := overlay buf (unat remaining) (b # bs), rd_limit := remaining + of_nat (length (b # bs))\<rparr>, q')
                      | _ \<Rightarrow> if rd_limit d1 - rd_cursor d1 < 280 then ret (False, d1\<lparr>rd_finished := True\<rparr>, q') else ret (True, d1, q')) }
        else ret (True, d, q))"

definition fetch :: "(nat \<Rightarrow> u8) \<Rightarrow> u8 list \<Rightarrow> nat \<Rightarrow> nat \<Rightarrow> u8 list" where
  "fetch beyond buf p n = map (\<lambda>i. if i < length buf then buf ! i else beyond i) [p..<p + n]"

definition entry_kind_of :: "u8 \<Rightarrow> entry_kind" where
  "entry_kind_of t = (if t = 1 then EntryDirectory else if t = 2 then EntryFile else EntryObject)"

definition invalid_name :: "u8 list" where
  "invalid_name = map (of_nat \<circ> of_char) ''Invalid UTF-8''"

definition rd_next :: "(nat \<Rightarrow> u8) \<Rightarrow> 'q source \<Rightarrow> read_dir \<Rightarrow> 'q \<Rightarrow> (dir_entry option \<times> read_dir \<times> 'q) run" where
  "rd_next beyond read d q =
    (if rd_finished d then ret (None, d, q)
     else do { (go, d1, q1) \<leftarrow> rd_fill read d q;
               if \<not> go then ret (None, d1, q1)
               else let header = fetch beyond (rd_buffer d1) (unat (rd_cursor d1)) 24;
                        d2 = d1\<lparr>rd_cursor := rd_cursor d1 + 24\<rparr>
                    in if (field header 0 4 :: u32) \<noteq> VESPER_MAGIC then ret (None, d2\<lparr>rd_finished := True\<rparr>, q1)
                       else let entry = fetch beyond (rd_buffer d2) (unat (rd_cursor d2)) 256;
                                d3 = d2\<lparr>rd_cursor := rd_cursor d2 + 256,
                                        rd_finished := (rd_finished d2 \<or> \<not> flags_contains (field header 6 2 :: u16) HAS_NEXT)\<rparr>;
                                name_len = unat (entry ! 1);
                                name_bytes = take name_len (drop 2 entry)
                            in if 254 < name_len then panic
                               else ret (Some \<lparr>de_name = (if utf8_valid name_bytes then name_bytes else invalid_name),
                                               de_kind = entry_kind_of (entry ! 0)\<rparr>, d3, q1) })"

text \<open>The loop that takes entries until there is none.\<close>

partial_function (option) rd_collect :: "(nat \<Rightarrow> u8) \<Rightarrow> 'q source \<Rightarrow> read_dir \<Rightarrow> 'q \<Rightarrow> (dir_entry list \<times> 'q) run" where
  "rd_collect beyond read d q =
    Option.bind (rd_next beyond read d q) (\<lambda>(e, d', q').
      case e of
        None \<Rightarrow> Some ([], q')
      | Some en \<Rightarrow> Option.bind (rd_collect beyond read d' q') (\<lambda>(es, q''). Some (en # es, q'')))"

section \<open>Packets\<close>

definition entry_of :: "dir_packet \<Rightarrow> dir_entry" where
  "entry_of p = \<lparr>de_name = entry_name p, de_kind = entry_kind_of (entry_type p)\<rparr>"

definition packet_ok :: "dir_packet \<Rightarrow> bool" where
  "packet_ok p \<longleftrightarrow> length (entry_name p) \<le> 254 \<and> utf8_valid (entry_name p)"

lemma packet_fields:
  assumes "length pad = 4" and "length (entry_name p) \<le> 254"
  defines "b \<equiv> encode_packet pad p"
  shows "(field (take 24 b) 0 4 :: u32) = VESPER_MAGIC" "(field (take 24 b) 6 2 :: u16) = packet_flags p"
    "drop 24 b ! 0 = entry_type p" "unat (drop 24 b ! 1) = length (entry_name p)"
    "take (length (entry_name p)) (drop 2 (drop 24 b)) = entry_name p"
proof -
  have l: "le_bytes 4 VESPER_MAGIC @ le_bytes 2 (1 :: u16) @ le_bytes 2 (packet_flags p) @ le_bytes 4 (1 :: u32) @
      le_bytes 4 (256 :: u32) @ le_bytes 4 (0 :: u32) @ pad = take 24 b"
    "[entry_type p, of_nat (length (entry_name p))] @ entry_name p @ replicate (254 - length (entry_name p)) 0 = drop 24 b"
    using assms(1) by (simp_all add: b_def encode_packet_def)
  show "(field (take 24 b) 0 4 :: u32) = VESPER_MAGIC" "(field (take 24 b) 6 2 :: u16) = packet_flags p"
    unfolding l(1) [symmetric] by (simp_all add: le_roundtrip)
  show "drop 24 b ! 0 = entry_type p" "unat (drop 24 b ! 1) = length (entry_name p)"
    "take (length (entry_name p)) (drop 2 (drop 24 b)) = entry_name p"
    unfolding l(2) [symmetric] using assms(2) by (simp_all add: unsigned_of_nat take_bit_nat_eq_self)
qed

section \<open>Cutting the stream\<close>

locale packet_source =
  fixes read :: "'q source" and ok :: "'q \<Rightarrow> bool" and content :: "'q \<Rightarrow> u8 list"
  assumes read_law: "ok q \<Longrightarrow> \<exists>bs q'. read len q = Some (Inr bs, q') \<and> ok q' \<and> content q = bs @ content q' \<and>
      length bs \<le> len \<and> min len (min 280 (length (content q))) \<le> length bs"
begin

definition pending :: "read_dir \<Rightarrow> 'q \<Rightarrow> u8 list" where
  "pending d q = take (unat (rd_limit d) - unat (rd_cursor d)) (drop (unat (rd_cursor d)) (rd_buffer d)) @ content q"

definition rd_ok :: "read_dir \<Rightarrow> bool" where
  "rd_ok d \<longleftrightarrow> length (rd_buffer d) = 4096 \<and> rd_cursor d \<le> rd_limit d \<and> rd_limit d \<le> 4096"

lemma rd_fill_law:
  assumes d: "rd_ok d" and q: "ok q" and some: "280 \<le> length (pending d q)"
  shows "\<exists>d' q'. rd_fill read d q = Some (True, d', q') \<and> rd_ok d' \<and> ok q' \<and> pending d' q' = pending d q \<and>
    rd_finished d' = rd_finished d \<and> unat (rd_cursor d') + 280 \<le> unat (rd_limit d')"
proof -
  have le: "unat (rd_cursor d) \<le> unat (rd_limit d)" "unat (rd_limit d) \<le> 4096" "length (rd_buffer d) = 4096"
    using d by (simp_all add: rd_ok_def word_le_nat_alt)
  define rem where "rem = rd_limit d - rd_cursor d"
  have rem: "unat rem = unat (rd_limit d) - unat (rd_cursor d)" using d by (simp add: rem_def rd_ok_def unat_sub)
  show ?thesis
  proof (cases "rem < 280")
    case False
    then have "unat (rd_cursor d) + 280 \<le> unat (rd_limit d)" using rem le by (simp add: not_less word_le_nat_alt)
    then show ?thesis using False d q by (simp add: rd_fill_def Let_def FULL_ENTRY_def flip: rem_def)
  next
    case True
    then have r280: "unat rem < 280" by (simp add: word_less_nat_alt)
    let ?front = "take (unat rem) (drop (unat (rd_cursor d)) (rd_buffer d))"
    define buf where "buf = ?front @ drop (unat rem) (rd_buffer d)"
    have fl: "length ?front = unat rem" using rem le by simp
    have bl: "length buf = 4096" using fl le(3) r280 by (simp add: buf_def)
    have cf: "(if 0 < rem then copy_front (rd_buffer d) (unat (rd_cursor d)) (unat (rd_limit d)) else ret (rd_buffer d)) = Some buf"
    proof (cases "0 < rem")
      case True
      then show ?thesis using le rem by (simp add: copy_front_def buf_def)
    next
      case False
      then have "rem = 0" by (auto simp: not_less)
      then show ?thesis using False by (simp add: buf_def)
    qed
    have tr: "unat (4096 - rem) = 4096 - unat rem" using r280 by (simp add: unat_sub word_le_nat_alt)
    obtain bs q' where rd: "read (4096 - unat rem) q = Some (Inr bs, q')" "ok q'" "content q = bs @ content q'"
      "length bs \<le> 4096 - unat rem" "min (4096 - unat rem) (min 280 (length (content q))) \<le> length bs"
      using read_law [OF q] by blast
    have pl: "pending d q = ?front @ content q" by (simp add: pending_def rem)
    have "280 \<le> unat rem + length bs"
      using rd(5) some r280 fl unfolding pl by (simp add: min_def split: if_splits)
    moreover from this obtain b bs' where bs: "bs = b # bs'" using r280 by (cases bs) auto
    let ?d = "d\<lparr>rd_buffer := overlay buf (unat rem) bs, rd_cursor := 0, rd_limit := rem + of_nat (length bs)\<rparr>"
    have nb: "unat (of_nat (length bs) :: u64) = length bs" using rd(4) by (intro unat_of_nat64) simp
    have "unat rem + length bs < 2 ^ 64" using rd(4) r280 by simp
    then have lim: "unat (rd_limit ?d) = unat rem + length bs" using unat_add_lem [of rem "of_nat (length bs)"] nb by simp
    have "take (unat rem + length bs) (overlay buf (unat rem) bs) = ?front @ bs" using fl bl rd(4) r280 by (simp add: overlay_def buf_def)
    then have "pending ?d q' = pending d q" unfolding pl using rd(3) lim by (simp add: pending_def)
    moreover have "rd_ok ?d" using lim rd(4) bl r280 by (simp add: rd_ok_def word_le_nat_alt overlay_def)
    moreover have "rd_fill read d q = Some (True, ?d, q')"
      using True cf rd(1) tr bs by (simp add: rd_fill_def Let_def FULL_ENTRY_def flip: rem_def)
    ultimately show ?thesis using rd(2) lim by (intro exI [of _ ?d] exI [of _ q']) simp
  qed
qed


lemma rd_next_law:
  assumes d: "rd_ok d" "ok q" "\<not> rd_finished d" and p: "packet_ok p" "length pad = 4" and pend: "pending d q = encode_packet pad p @ rest"
  shows "\<exists>d' q'. rd_next beyond read d q = Some (Some (entry_of p), d', q') \<and> rd_ok d' \<and> ok q' \<and> pending d' q' = rest \<and>
    rd_finished d' = (\<not> flags_contains (packet_flags p) HAS_NEXT)"
proof -
  have n: "length (entry_name p) \<le> 254" "utf8_valid (entry_name p)" using p(1) by (simp_all add: packet_ok_def)
  have len: "length (encode_packet pad p) = 280" by (rule length_encode_packet [OF p(2) n(1)])
  note pf = packet_fields [OF p(2) n(1)]
  obtain d1 q1 where f: "rd_fill read d q = Some (True, d1, q1)" "rd_ok d1" "ok q1" "pending d1 q1 = pending d q"
    "rd_finished d1 = rd_finished d" "unat (rd_cursor d1) + 280 \<le> unat (rd_limit d1)"
    using rd_fill_law [OF d(1,2)] pend len by auto
  let ?c = "unat (rd_cursor d1)" and ?b = "rd_buffer d1"
  have lb: "length ?b = 4096" "unat (rd_limit d1) \<le> 4096" using f(2) by (simp_all add: rd_ok_def word_le_nat_alt)
  have enc: "take 280 (drop ?c ?b) = encode_packet pad p"
  proof -
    have "280 \<le> unat (rd_limit d1) - ?c" "280 \<le> length (drop ?c ?b)" using f(6) lb by simp_all
    then have "take 280 (pending d1 q1) = take 280 (drop ?c ?b)" by (simp add: pending_def min_absorb1)
    then show ?thesis using f(4) pend len by simp
  qed
  have fe: "fetch beyond ?b i k = take k (drop i ?b)" if "i + k \<le> 4096" for i k
    using that lb(1) by (auto simp: fetch_def intro!: nth_equalityI)
  have "fetch beyond ?b ?c 24 = take 24 (take 280 (drop ?c ?b))" using fe [of ?c 24] f(6) lb by simp
  then have h: "fetch beyond ?b ?c 24 = take 24 (encode_packet pad p)" by (simp only: enc)
  have u: "unat (rd_cursor d1 + 24) = ?c + 24" "unat (rd_cursor d1 + 24 + 256) = ?c + 280"
    using f(6) lb(2) unat_add_lem [of "rd_cursor d1" 24] unat_add_lem [of "rd_cursor d1 + 24" 256] by simp_all
  have "fetch beyond ?b (?c + 24) 256 = drop 24 (take 280 (drop ?c ?b))" using fe [of "?c + 24" 256] f(6) lb by (simp add: drop_take add.commute)
  then have e: "fetch beyond ?b (?c + 24) 256 = drop 24 (encode_packet pad p)" by (simp only: enc)
  let ?d = "d1\<lparr>rd_cursor := rd_cursor d1 + 24 + 256, rd_finished := (\<not> flags_contains (packet_flags p) HAS_NEXT)\<rparr>"
  have "rd_next beyond read d q = Some (Some (entry_of p), ?d, q1)"
    using d(3) f(1,5) n pf by (simp add: rd_next_def Let_def h u e entry_of_def)
  moreover have "rd_ok ?d" using f(2,6) u by (simp add: rd_ok_def word_le_nat_alt)
  moreover have "pending ?d q1 = rest"
  proof -
    have "pending ?d q1 = drop 280 (pending d1 q1)"
      using f(6) lb u(2) by (simp add: pending_def drop_take add.commute)
    then show ?thesis using f(4) pend len by simp
  qed
  ultimately show ?thesis using f(3) by (intro exI [of _ ?d] exI [of _ q1]) simp
qed

lemma rd_next_empty:
  assumes "rd_ok d" and "ok q" and "pending d q = []"
  shows "\<exists>d' q'. rd_next beyond read d q = Some (None, d', q')"
proof (cases "rd_finished d")
  case True
  then show ?thesis by (simp add: rd_next_def)
next
  case False
  have "unat (rd_limit d) = unat (rd_cursor d)" "content q = []" using assms by (auto simp: pending_def rd_ok_def word_le_nat_alt)
  then have eq: "rd_limit d = rd_cursor d" by (simp add: word_unat_eq_iff)
  obtain bs q' where "read 4096 q = Some (Inr bs, q')" "content q = bs @ content q'" using read_law [OF assms(2)] by blast
  then have "read 4096 q = Some (Inr [], q')" using \<open>content q = []\<close> by simp
  then show ?thesis using False eq by (simp add: rd_next_def rd_fill_def FULL_ENTRY_def Let_def)
qed

lemma rd_collect_law:
  assumes "\<forall>p \<in> set ps. packet_ok p" and "length pad = 4" and "rd_ok d" and "ok q" and "pending d q = concat (map (encode_packet pad) ps)"
    and "\<forall>i < length ps. flags_contains (packet_flags (ps ! i)) HAS_NEXT \<longleftrightarrow> Suc i < length ps" and "ps \<noteq> [] \<longrightarrow> \<not> rd_finished d"
  shows "\<exists>q'. rd_collect beyond read d q = Some (map entry_of ps, q')"
  using assms
proof (induction ps arbitrary: d q)
  case Nil
  obtain d' q' where "rd_next beyond read d q = Some (None, d', q')" using rd_next_empty [of d q beyond] Nil by auto
  then show ?case by (subst rd_collect.simps) simp
next
  case (Cons p ps)
  obtain d' q' where n: "rd_next beyond read d q = Some (Some (entry_of p), d', q')" "rd_ok d'" "ok q'"
    "pending d' q' = concat (map (encode_packet pad) ps)" "rd_finished d' = (\<not> flags_contains (packet_flags p) HAS_NEXT)"
    using rd_next_law [of d q p pad "concat (map (encode_packet pad) ps)" beyond] Cons.prems by auto
  have "\<forall>i < length ps. flags_contains (packet_flags (ps ! i)) HAS_NEXT \<longleftrightarrow> Suc i < length ps"
    using Cons.prems(6) by force
  moreover have "ps \<noteq> [] \<longrightarrow> \<not> rd_finished d'" using Cons.prems(6) [rule_format, of 0] n(5) by simp
  ultimately obtain q'' where "rd_collect beyond read d' q' = Some (map entry_of ps, q'')"
    using Cons.IH [OF _ Cons.prems(2) n(2,3,4)] Cons.prems(1) by auto
  then show ?case using n(1) by (subst rd_collect.simps) simp
qed

end

section \<open>Through a socket\<close>

text \<open>
  A read from the socket of a listing after its write end was closed: at most 512 bytes at a time
  (\<^verbatim>\<open>read_async\<close>), nothing when it is empty. The packets went in one push each, whose counts the
  directory ignores.
\<close>

definition ring_read :: "ring source" where
  "ring_read len r = do { (r', bs) \<leftarrow> pop_slice r (min len 512); ret (Inr bs, r') }"

fun ring_write_all :: "ring \<Rightarrow> u8 list list \<Rightarrow> (nat list \<times> ring) run" where
  "ring_write_all r [] = ret ([], r)"
| "ring_write_all r (b # bs) = do { (r1, n) \<leftarrow> push_slice r (take 512 b); (ns, r2) \<leftarrow> ring_write_all r1 bs; ret (n # ns, r2) }"

interpretation socket_source: packet_source ring_read ring_ok contents
proof
  fix q :: ring and len
  assume "ring_ok q"
  then obtain q' where "pop_slice q (min len 512) = Some (q', take (min len 512) (contents q))" "ring_ok q'" "contents q' = drop (min len 512) (contents q)"
    using ring.pop_law by blast
  then show "\<exists>bs q'. ring_read len q = Some (Inr bs, q') \<and> ring_ok q' \<and> contents q = bs @ contents q' \<and>
      length bs \<le> len \<and> min len (min 280 (length (contents q))) \<le> length bs"
    by (intro exI [of _ "take (min len 512) (contents q)"] exI [of _ q']) (auto simp: ring_read_def)
qed

lemma ring_write_law:
  assumes "ring_ok r" and "\<forall>b \<in> set bs. length b = 280" and "length (contents r) + 280 * length bs \<le> 4095"
  shows "\<exists>r'. ring_write_all r bs = Some (replicate (length bs) 280, r') \<and> ring_ok r' \<and> contents r' = contents r @ concat bs"
  using assms
proof (induction bs arbitrary: r)
  case (Cons b bs)
  obtain r1 n where p: "push_slice r (take 512 b) = Some (r1, n)" "ring_ok r1" "n = min (length (take 512 b)) (BUFFER_SIZE - 1 - length (contents r))"
    "contents r1 = contents r @ take n (take 512 b)" using ring.push_law [OF Cons.prems(1)] by blast
  have "n = 280" "take n (take 512 b) = b" using p(3) Cons.prems(2,3) by (auto simp: BUFFER_SIZE_def)
  then show ?case using Cons.IH [OF p(2)] Cons.prems(2,3) p(1,4) by auto
qed simp

text \<open>
  C26. Round trip of a directory listing: for a directory of at most 14 entries with valid names,
  the packets the kernel writes into an empty socket arrive in the program's iterator as exactly
  the entries of the directory, in order, with their names and kinds, and the iteration ends.
\<close>

theorem listing_roundtrip:
  assumes "length es \<le> 14" and "\<forall>(nm, ob) \<in> set es. utf8_valid nm \<and> length nm \<le> 254" and "length pad = 4"
  shows "\<exists>r r'. ring_write_all ring_new (map (encode_packet pad) (list_packets es)) = Some (replicate (length es) 280, r) \<and>
    rd_collect beyond ring_read read_dir_new r =
      Some (map (\<lambda>(nm, ob). \<lparr>de_name = nm, de_kind = entry_kind_of (entry_type_of (type_name ob))\<rparr>) es, r')"
proof -
  let ?ps = "list_packets es"
  have len: "length ?ps = length es" by (induction es rule: list_packets.induct) auto
  have ok: "\<forall>p \<in> set ?ps. packet_ok p" and ent: "map entry_of ?ps = map (\<lambda>(nm, ob). \<lparr>de_name = nm, de_kind = entry_kind_of (entry_type_of (type_name ob))\<rparr>) es"
    using assms(2) by (induction es rule: list_packets.induct) (auto simp: packet_ok_def entry_of_def)
  have "\<forall>b \<in> set (map (encode_packet pad) ?ps). length b = 280"
    using ok length_encode_packet [OF assms(3)] by (auto simp: packet_ok_def)
  moreover have new: "ring_ok ring_new" "contents ring_new = []"
    by (simp_all add: ring_ok_def ring_new_def contents_def ring_len_def BUFFER_SIZE_def)
  ultimately obtain r where r: "ring_write_all ring_new (map (encode_packet pad) ?ps) = Some (replicate (length es) 280, r)" "ring_ok r"
    "contents r = concat (map (encode_packet pad) ?ps)"
    using ring_write_law [of ring_new "map (encode_packet pad) ?ps"] assms(1) len by auto
  have fl: "\<forall>i < length ?ps. flags_contains (packet_flags (?ps ! i)) HAS_NEXT \<longleftrightarrow> Suc i < length ?ps"
    using list_packets_flags [of _ es] len by (auto simp: flags_contains_def IS_STREAM_def HAS_NEXT_def)
  have d: "socket_source.rd_ok read_dir_new" "socket_source.pending read_dir_new r = concat (map (encode_packet pad) ?ps)"
    using r(3) by (simp_all add: socket_source.rd_ok_def socket_source.pending_def read_dir_new_def)
  obtain r' where "rd_collect beyond ring_read read_dir_new r = Some (map entry_of ?ps, r')"
    using socket_source.rd_collect_law [OF ok assms(3) d(1) r(2) d(2) fl, of beyond] by (auto simp: read_dir_new_def)
  then show ?thesis using r(1) ent by auto
qed

text \<open>
  The fifteenth packet of a listing does not fit: with 14 packets in the socket the next write
  is cut after 175 of its 280 bytes, and the directory does not look at the count.
\<close>

theorem fifteenth_packet_truncated:
  assumes "length bs = 14" and "\<forall>b \<in> set bs. length b = 280" and "length b = 280"
  shows "\<exists>r. ring_write_all ring_new (bs @ [b]) = Some (replicate 14 280 @ [175], r) \<and> contents r = concat bs @ take 175 b"
proof -
  have app: "ring_write_all r xs = Some (ns, r1) \<Longrightarrow> push_slice r1 (take 512 y) = Some (r2, n) \<Longrightarrow> ring_write_all r (xs @ [y]) = Some (ns @ [n], r2)" for r xs ns r1 y r2 n
    by (induction xs arbitrary: r ns) (auto simp: bind_eq_Some_conv)
  have new: "ring_ok ring_new" "contents ring_new = []"
    by (simp_all add: ring_ok_def ring_new_def contents_def ring_len_def BUFFER_SIZE_def)
  obtain r1 where r1: "ring_write_all ring_new bs = Some (replicate 14 280, r1)" "ring_ok r1" "contents r1 = concat bs"
    using ring_write_law [OF new(1) assms(2)] new(2) assms(1) by auto
  have "length (concat bs) = 3920" using assms(1,2) by (simp add: length_concat sum_list_triv map_cong [OF refl, of _ length "\<lambda>_. 280"])
  then obtain r2 where "push_slice r1 (take 512 b) = Some (r2, 175)" "contents r2 = concat bs @ take 175 b"
    using ring.push_law [OF r1(2), of "take 512 b"] r1(3) assms(3) by (auto simp: BUFFER_SIZE_def)
  then show ?thesis using app [OF r1(1)] by blast
qed

theorem listing_roundtrip_witness:
  "\<exists>r r'. ring_write_all ring_new (map (encode_packet [0, 0, 0, 0]) (list_packets [([97], KFile 1), ([98], KDirectory 2)])) = Some ([280, 280], r) \<and>
    rd_collect (\<lambda>_. 0) ring_read read_dir_new r =
      Some ([\<lparr>de_name = [97], de_kind = EntryFile\<rparr>, \<lparr>de_name = [98], de_kind = EntryDirectory\<rparr>], r')"
  using listing_roundtrip [of "[([97], KFile 1), ([98], KDirectory 2)]" "[0, 0, 0, 0]" "\<lambda>_. 0"]
  by (simp add: entry_kind_of_def entry_type_of_def del: list_packets.simps ring_write_all.simps)

theorem fifteenth_packet_truncated_witness:
  "\<exists>r. ring_write_all ring_new (replicate 14 (replicate 280 1) @ [replicate 280 2]) = Some (replicate 14 280 @ [175], r) \<and>
    contents r = concat (replicate 14 (replicate 280 1)) @ replicate 175 2"
  using fifteenth_packet_truncated [of "replicate 14 (replicate 280 1)" "replicate 280 2"]
  by (simp del: ring_write_all.simps replicate.simps)

end
