(* ===== verification/Usersock.thy ===== *)
theory Usersock
  imports Userenv Readdir
begin

text \<open>
  Sockets and directories of the standard library, \<^verbatim>\<open>lib/vespertine-std/src/socket.rs\<close> and the
  \<^verbatim>\<open>Dir\<close> part of \<^verbatim>\<open>fs/dir.rs\<close>: values that own handles. \<open>call\<close> and \<open>close\<close> are the system calls, \<open>grants\<close> the
  program's start-up grants.
\<close>

type_synonym 's shutter = "handle_id \<Rightarrow> 's \<Rightarrow> ((sys_error + unit) \<times> 's) run"

section \<open>Sockets\<close>

record usocket =
  rd_handle :: "handle_id option"
  wr_handle :: "handle_id option"

definition TAG_SYS_SOCKFAC :: u64 where
  "TAG_SYS_SOCKFAC = 0x2003"

definition usocket_new :: "'s invoker \<Rightarrow> handle_grant list \<Rightarrow> 's \<Rightarrow> ((io_error + usocket) \<times> 's) run" where
  "usocket_new call grants s =
    (case find (\<lambda>g. hg_tag g = TAG_SYS_SOCKFAC) grants of
       None \<Rightarrow> panic
     | Some sf \<Rightarrow>
         do { (r, s1) \<leftarrow> sys_create_socket call (hg_id sf) s;
              ret (map_sum error_from (\<lambda>(r, w). \<lparr>rd_handle = Some r, wr_handle = Some w\<rparr>) r, s1) })"

definition from_read_handle :: "handle_id \<Rightarrow> usocket" where
  "from_read_handle h = \<lparr>rd_handle = Some h, wr_handle = None\<rparr>"

definition from_write_handle :: "handle_id \<Rightarrow> usocket" where
  "from_write_handle h = \<lparr>rd_handle = None, wr_handle = Some h\<rparr>"

definition or_error :: "'a option \<Rightarrow> error_kind \<Rightarrow> string \<Rightarrow> io_error + 'a" where
  "or_error h k msg = (case h of Some x \<Rightarrow> Inr x | None \<Rightarrow> Inl \<lparr>kind = k, message = msg\<rparr>)"

definition usock_read_handle :: "usocket \<Rightarrow> io_error + handle_id" where
  "usock_read_handle sk = or_error (rd_handle sk) EkInvalidHandle ''No read handle!''"

definition usock_write_handle :: "usocket \<Rightarrow> io_error + handle_id" where
  "usock_write_handle sk = or_error (wr_handle sk) EkInvalidHandle ''No write handle!''"

definition close_write :: "'s shutter \<Rightarrow> usocket \<Rightarrow> 's \<Rightarrow> (usocket \<times> 's) run" where
  "close_write close sk s =
    (case wr_handle sk of
       Some h \<Rightarrow> do { (_, s1) \<leftarrow> close h s; ret (sk\<lparr>wr_handle := None\<rparr>, s1) }
     | None \<Rightarrow> ret (sk, s))"

definition setnb_on :: "'s invoker \<Rightarrow> bool \<Rightarrow> handle_id option \<Rightarrow> 's \<Rightarrow> ((io_error + unit) \<times> 's) run" where
  "setnb_on call nb h s =
    (case h of
       Some x \<Rightarrow> do { (r, s1) \<leftarrow> sys_set_nb call x nb s; ret (map_sum error_from (\<lambda>_. ()) r, s1) }
     | None \<Rightarrow> ret (Inr (), s))"

definition usock_setnb :: "'s invoker \<Rightarrow> bool \<Rightarrow> usocket \<Rightarrow> 's \<Rightarrow> ((io_error + unit) \<times> 's) run" where
  "usock_setnb call nb sk s =
    do { (r, s1) \<leftarrow> setnb_on call nb (rd_handle sk) s;
         case r of Inl e \<Rightarrow> ret (Inl e, s1) | Inr _ \<Rightarrow> setnb_on call nb (wr_handle sk) s1 }"

definition wait_on :: "'s invoker \<Rightarrow> signal \<Rightarrow> string \<Rightarrow> handle_id option \<Rightarrow> 's \<Rightarrow> ((io_error + unit) \<times> 's) run" where
  "wait_on call sig msg h s =
    (case h of
       None \<Rightarrow> ret (Inl \<lparr>kind = EkAccessDenied, message = msg\<rparr>, s)
     | Some x \<Rightarrow> do { (r, s1) \<leftarrow> sys_wait call x sig s; ret (map_sum error_from (\<lambda>_. ()) r, s1) })"

definition usock_wait :: "'s invoker \<Rightarrow> signal \<Rightarrow> usocket \<Rightarrow> 's \<Rightarrow> ((io_error + unit) \<times> 's) run" where
  "usock_wait call sig sk s =
    (if flags_contains sig READABLE \<or> flags_contains sig PEER_CLOSED
     then wait_on call sig ''Socket is write-only, cannot wait for read'' (rd_handle sk) s
     else if flags_contains sig WRITABLE then wait_on call sig ''Socket is read-only, cannot wait for write'' (wr_handle sk) s
     else ret (Inr (), s))"

definition usock_read :: "'s invoker \<Rightarrow> u64 \<Rightarrow> u64 \<Rightarrow> usocket \<Rightarrow> 's \<Rightarrow> ((io_error + u64) \<times> 's) run" where
  "usock_read call buf len sk s =
    (case or_error (rd_handle sk) EkAccessDenied ''Socket is write-only'' of
       Inl e \<Rightarrow> ret (Inl e, s)
     | Inr h \<Rightarrow> do { (r, s1) \<leftarrow> sys_read call h buf len 0 s; ret (map_sum error_from id r, s1) })"

definition usock_write :: "'s invoker \<Rightarrow> u64 \<Rightarrow> u64 \<Rightarrow> usocket \<Rightarrow> 's \<Rightarrow> ((io_error + u64) \<times> 's) run" where
  "usock_write call buf len sk s =
    (case or_error (wr_handle sk) EkAccessDenied ''Socket is read-only'' of
       Inl e \<Rightarrow> ret (Inl e, s)
     | Inr h \<Rightarrow> do { (r, s1) \<leftarrow> sys_write call h buf len 0 s; ret (map_sum error_from id r, s1) })"

definition close_opt :: "'s shutter \<Rightarrow> handle_id option \<Rightarrow> 's \<Rightarrow> 's run" where
  "close_opt close h s = (case h of Some x \<Rightarrow> map_option snd (close x s) | None \<Rightarrow> ret s)"

definition usock_drop :: "'s shutter \<Rightarrow> usocket \<Rightarrow> 's \<Rightarrow> 's run" where
  "usock_drop close sk s = do { s1 \<leftarrow> close_opt close (rd_handle sk) s; close_opt close (wr_handle sk) s1 }"

section \<open>Directories\<close>

text \<open>\<open>walk\<close> is the path walk from the root; a name is given by its place in memory.\<close>

definition dir_open :: "('s \<Rightarrow> ((sys_error + handle_id) \<times> 's) run) \<Rightarrow> 's \<Rightarrow> ((io_error + handle_id) \<times> 's) run" where
  "dir_open walk s = do { (r, s1) \<leftarrow> walk s; ret (map_sum error_from id r, s1) }"

definition dir_list_open ::
  "'s invoker \<Rightarrow> 's shutter \<Rightarrow> handle_grant list \<Rightarrow> handle_id \<Rightarrow> 's \<Rightarrow> ((io_error + handle_id \<times> read_dir) \<times> 's) run" where
  "dir_list_open call close grants dir s =
    (case find (\<lambda>g. hg_tag g = TAG_SYS_SOCKFAC) grants of
       None \<Rightarrow> ret (Inl \<lparr>kind = NotFound, message = ''Socket factory not found''\<rparr>, s)
     | Some sf \<Rightarrow>
         do { (r, s1) \<leftarrow> sys_create_socket call (hg_id sf) s;
              case r of
                Inl e \<Rightarrow> ret (Inl (error_from e), s1)
              | Inr (read_end, write_end) \<Rightarrow>
                  do { (r2, s2) \<leftarrow> call dir (DirectoryInv (ListDir 0 write_end)) s1;
                       case r2 of
                         Inl e \<Rightarrow> ret (Inl (error_from e), s2)
                       | Inr _ \<Rightarrow> do { (_, s3) \<leftarrow> close write_end s2; ret (Inr (read_end, read_dir_new), s3) } } })"

definition dir_lookup_name :: "'s invoker \<Rightarrow> handle_id \<Rightarrow> u64 \<Rightarrow> u64 \<Rightarrow> 's \<Rightarrow> ((io_error + handle_id) \<times> 's) run" where
  "dir_lookup_name call dir name len s =
    do { (r, s1) \<leftarrow> call dir (DirectoryInv (Lookup name len)) s; ret (map_sum error_from id r, s1) }"

definition read_dir_drop :: "'s shutter \<Rightarrow> handle_id \<Rightarrow> 's \<Rightarrow> 's run" where
  "read_dir_drop close h s = map_option snd (close h s)"

section \<open>Handles are given back\<close>

text \<open>The program's view of its handle table: closing removes an entry, other calls on sockets keep the table.\<close>

definition table_close :: "('o handle_table \<times> 'x) shutter" where
  "table_close h = (\<lambda>(t, x). case ht_close t h of (r, t') \<Rightarrow> ret (map_sum from_invocation_err id r, t', x))"

datatype usock_op = SetNb bool | WaitFor signal | ReadInto u64 u64 | WriteFrom u64 u64 | CloseWrite

fun usock_do ::
  "('o handle_table \<times> 'x) invoker \<Rightarrow> usock_op \<Rightarrow> usocket \<Rightarrow> 'o handle_table \<times> 'x \<Rightarrow> (usocket \<times> 'o handle_table \<times> 'x) run" where
  "usock_do call (SetNb nb) sk s = map_option (\<lambda>(_, s1). (sk, s1)) (usock_setnb call nb sk s)"
| "usock_do call (WaitFor sig) sk s = map_option (\<lambda>(_, s1). (sk, s1)) (usock_wait call sig sk s)"
| "usock_do call (ReadInto p l) sk s = map_option (\<lambda>(_, s1). (sk, s1)) (usock_read call p l sk s)"
| "usock_do call (WriteFrom p l) sk s = map_option (\<lambda>(_, s1). (sk, s1)) (usock_write call p l sk s)"
| "usock_do call CloseWrite sk s = close_write table_close sk s"

fun usock_use ::
  "('o handle_table \<times> 'x) invoker \<Rightarrow> usock_op list \<Rightarrow> usocket \<Rightarrow> 'o handle_table \<times> 'x \<Rightarrow> (usocket \<times> 'o handle_table \<times> 'x) run" where
  "usock_use call [] sk s = ret (sk, s)"
| "usock_use call (op1 # ops) sk s = do { (sk1, s1) \<leftarrow> usock_do call op1 sk s; usock_use call ops sk1 s1 }"

definition keeps_table :: "('o handle_table \<times> 'x) invoker \<Rightarrow> bool" where
  "keeps_table call \<longleftrightarrow> (\<forall>h invo t x. (\<forall>a b. invo \<noteq> SocketInv (Create a b)) \<longrightarrow> (\<exists>r x'. call h invo (t, x) = Some (r, t, x')))"

lemma usock_do_law:
  assumes "keeps_table call" and "op1 \<noteq> CloseWrite"
  shows "\<exists>x'. usock_do call op1 sk (t, x) = Some (sk, t, x')"
proof -
  have c: "\<exists>r x'. call h invo (t, x) = Some (r, t, x')" if "\<And>a b. invo \<noteq> SocketInv (Create a b)" for h invo x
    using assms(1) that by (simp add: keeps_table_def)
  have nb: "\<exists>r x'. setnb_on call b h (t, x) = Some (r, t, x')" for b h x
    using c [of "SocketInv (SetNB b)" "the h" x] by (cases h) (auto simp: setnb_on_def sys_set_nb_def)
  have wt: "\<exists>r x'. wait_on call sig msg h (t, x) = Some (r, t, x')" for sig msg h x
    using c [of "WaitInv (WaitOne sig)" "the h" x] by (cases h) (auto simp: wait_on_def sys_wait_def)
  show ?thesis
  proof (cases op1)
    case (SetNb b)
    obtain r x1 where r: "setnb_on call b (rd_handle sk) (t, x) = Some (r, t, x1)" using nb by blast
    obtain r2 x2 where "setnb_on call b (wr_handle sk) (t, x1) = Some (r2, t, x2)" using nb by blast
    then show ?thesis using SetNb r by (cases r) (simp_all add: usock_setnb_def)
  next
    case (WaitFor sig)
    have "\<exists>r x'. (if flags_contains sig READABLE \<or> flags_contains sig PEER_CLOSED
        then wait_on call sig ''Socket is write-only, cannot wait for read'' (rd_handle sk) (t, x)
        else if flags_contains sig WRITABLE then wait_on call sig ''Socket is read-only, cannot wait for write'' (wr_handle sk) (t, x)
        else ret (Inr (), t, x)) = Some (r, t, x')" using wt by simp
    then show ?thesis using WaitFor by (auto simp: usock_wait_def)
  next
    case (ReadInto p l)
    then show ?thesis using c [of "FileInv (FileRead 0 p l)" "the (rd_handle sk)" x]
      by (cases "rd_handle sk") (auto simp: usock_read_def or_error_def sys_read_def)
  next
    case (WriteFrom p l)
    then show ?thesis using c [of "FileInv (FileWrite 0 p l)" "the (wr_handle sk)" x]
      by (cases "wr_handle sk") (auto simp: usock_write_def or_error_def sys_write_def)
  qed (use assms(2) in simp)
qed

definition own_handles :: "usocket \<Rightarrow> handle_id set" where
  "own_handles sk = set_option (rd_handle sk) \<union> set_option (wr_handle sk)"

lemma usock_use_law:
  assumes "keeps_table call" and "own_handles sk \<subseteq> dom (entries t)" and "rd_handle sk \<noteq> wr_handle sk \<or> rd_handle sk = None"
  shows "\<exists>sk' t' x'. usock_use call ops sk (t, x) = Some (sk', t', x') \<and>
    own_handles sk' \<subseteq> dom (entries t') \<and> (rd_handle sk' \<noteq> wr_handle sk' \<or> rd_handle sk' = None) \<and>
    (entries t') |` (- own_handles sk') = (entries t) |` (- own_handles sk)"
  using assms(2,3)
proof (induction ops arbitrary: sk t x)
  case (Cons op1 ops)
  show ?case
  proof (cases "op1 = CloseWrite \<and> wr_handle sk \<noteq> None")
    case True
    then obtain h where h: "wr_handle sk = Some h" by auto
    let ?sk = "sk\<lparr>wr_handle := None\<rparr>" and ?t = "t\<lparr>entries := (entries t)(h := None)\<rparr>"
    have step: "usock_do call op1 sk (t, x) = Some (?sk, ?t, x)"
      using Cons.prems(1) h True by (auto simp: close_write_def table_close_def ht_close_def own_handles_def split: option.splits)
    have own: "own_handles ?sk \<subseteq> dom (entries ?t)" using Cons.prems h by (auto simp: own_handles_def)
    have same: "(entries ?t) |` (- own_handles ?sk) = (entries t) |` (- own_handles sk)"
      using h Cons.prems(2) by (auto simp: fun_eq_iff restrict_map_def own_handles_def)
    have dif: "rd_handle ?sk \<noteq> wr_handle ?sk \<or> rd_handle ?sk = None" by auto
    obtain sk' t' x' where "usock_use call ops ?sk (?t, x) = Some (sk', t', x')" "own_handles sk' \<subseteq> dom (entries t')"
        "rd_handle sk' \<noteq> wr_handle sk' \<or> rd_handle sk' = None" "(entries t') |` (- own_handles sk') = (entries t) |` (- own_handles sk)"
      using Cons.IH [OF own dif, of x] unfolding same by blast
    then show ?thesis using step by (intro exI [of _ sk'] exI [of _ t'] exI [of _ x']) simp
  next
    case False
    then obtain x1 where "usock_do call op1 sk (t, x) = Some (sk, t, x1)"
      using usock_do_law [OF assms(1), of op1 sk t x] by (cases "op1 = CloseWrite") (auto simp: close_write_def)
    then show ?thesis using Cons.IH [OF Cons.prems, of x1] by (simp del: disj_not1)
  qed
qed simp

text \<open>
  A socket gives its handles back: after a socket is created, used in any way, with its write end
  closed early or not, and dropped, the handle table of the process has exactly the entries it had
  before; no operation on the way panics.
\<close>

theorem socket_handles_returned:
  assumes "keeps_table call" and "usocket_new call grants (t, x) = Some (Inr sk, t1, x1)" and "rd_handle sk = Some r" and "wr_handle sk = Some w"
    and "r \<noteq> w" and "entries t r = None" and "entries t w = None" and "entries t1 = (entries t)(r \<mapsto> e1, w \<mapsto> e2)"
  shows "\<exists>sk' s' t2 x2. usock_use call ops sk (t1, x1) = Some (sk', s') \<and> usock_drop table_close sk' s' = Some (t2, x2) \<and> entries t2 = entries t"
proof -
  have own: "own_handles sk = {r, w}" using assms(3,4) by (auto simp: own_handles_def)
  obtain sk' t' x' where u: "usock_use call ops sk (t1, x1) = Some (sk', t', x')" "own_handles sk' \<subseteq> dom (entries t')"
      "(entries t') |` (- own_handles sk') = (entries t1) |` (- own_handles sk)"
    using usock_use_law [OF assms(1), of sk t1 ops x1] own assms(3-5,8) by auto
  have base: "(entries t1) |` (- {r, w}) = entries t" using assms(6-8) by (auto simp: fun_eq_iff restrict_map_def)
  have del: "(entries t')(h := None) = (entries t') |` (- {h})" for h by (auto simp: fun_eq_iff restrict_map_def)
  have "\<exists>t2 x2. usock_drop table_close sk' (t', x') = Some (t2, x2) \<and> entries t2 = (entries t') |` (- own_handles sk')"
    using u(2) by (cases "rd_handle sk'"; cases "wr_handle sk'")
      (auto simp: usock_drop_def close_opt_def table_close_def ht_close_def own_handles_def restrict_map_def fun_eq_iff split: option.splits)
  then show ?thesis using u(1,3) base own by auto
qed

text \<open>When the listing fails, both ends of the socket made for it stay open.\<close>

lemma failed_listing_leaks:
  assumes "find (\<lambda>g. hg_tag g = TAG_SYS_SOCKFAC) grants = Some sf" and "sys_create_socket call (hg_id sf) (t, x) = Some (Inr (r, w), t1, x1)"
    and "call dir (DirectoryInv (ListDir 0 w)) (t1, x1) = Some (Inl e, t1, x2)" and "r \<in> dom (entries t1)" and "w \<in> dom (entries t1)"
  shows "dir_list_open call table_close grants dir (t, x) = Some (Inl (error_from e), t1, x2) \<and> {r, w} \<subseteq> dom (entries t1)"
  using assms by (simp add: dir_list_open_def)

end
