(* ===== verification/Objects_Inv.thy ===== *)
theory Objects_Inv
  imports Objects Page_Memory Socket
begin

text \<open>
  What the handlers of theory \<open>Objects\<close> guarantee: calls on memory objects through handles keep the
  objects apart and lose no frame, a clone is a copy; and three ways in which they fall short.
\<close>

section \<open>Copies of memory objects\<close>

lemma num_pages_bound: "num_pages len \<le> 2 ^ 52"
proof -
  have "unat len < 2 ^ 64" using unsigned_less [of len] by simp
  then show ?thesis unfolding num_pages_def by (intro div_ceil_least) simp_all
qed

lemma page_key_inj: "i < 2 ^ 52 \<Longrightarrow> j < 2 ^ 52 \<Longrightarrow> (of_nat i * VMO_PAGE = of_nat j * VMO_PAGE) = (i = j)"
proof -
  have u: "unat (of_nat k * VMO_PAGE) = k * 4096" if "k < 2 ^ 52" for k
  proof -
    have "of_nat k * VMO_PAGE = of_nat (k * 4096)" by (simp add: VMO_PAGE_def)
    then show ?thesis using that unat_of_nat64 [of "k * 4096"] by simp
  qed
  assume "i < 2 ^ 52" "j < 2 ^ 52"
  then show ?thesis using u by (metis mult_right_cancel zero_neq_numeral)
qed

lemma resident_frame:
  assumes "resident v off = Some p" and "\<not> is_physical v"
  shows "p \<in> set (vmo_frames v)"
  using assms map_of_SomeD [of "vmo_pages v" off]
  by (force simp: resident_def vmo_frames_def frames_of_def split: option.splits if_splits)

context page_frames
begin

lemma clone_pages_law:
  assumes "pok c" and "reserve + length is \<le> card (stock c)" and "distinct is" and "\<forall>i \<in> set is. i < 2 ^ 52"
    and "bt_ok child" and "distinct (frames_of child)" and "\<forall>a \<in> set (frames_of child). live c a"
    and "\<forall>i \<in> set is. map_of child (of_nat i * VMO_PAGE) = None"
    and "\<forall>k p. resident v k = Some p \<longrightarrow> live c p"
  shows "\<exists>child' m' c'. clone_pages palloc v off is child m c = Some (child', m', c') \<and> pok c' \<and>
     bt_ok child' \<and> distinct (frames_of child') \<and> (\<forall>a \<in> set (frames_of child'). live c' a) \<and>
     stock c' \<union> set (frames_of child') = stock c \<union> set (frames_of child) \<and> (\<forall>b. live c b \<longrightarrow> live c' b) \<and>
     card (stock c) = card (stock c') + length is \<and> (\<forall>a. a \<notin> stock c \<longrightarrow> m' a = m a) \<and>
     (\<forall>k. k \<notin> (\<lambda>i. of_nat i * VMO_PAGE) ` set is \<longrightarrow> map_of child' k = map_of child k) \<and>
     (\<forall>i \<in> set is. \<exists>a. map_of child' (of_nat i * VMO_PAGE) = Some a \<and> a \<in> stock c \<and> a \<noteq> 0 \<and>
        (\<forall>p. resident v (off + of_nat i * VMO_PAGE) = Some p \<longrightarrow> m' a = m p))"
  using assms
proof (induction "is" arbitrary: child m c)
  case (Cons i "is")
  let ?k = "\<lambda>i. of_nat i * VMO_PAGE :: u64"
  obtain a c1 where a: "palloc c = Some (a, c1)" using palloc_returns [OF Cons.prems(1)] Cons.prems(2) by fastforce
  note al = palloc_some [OF Cons.prems(1) a] and cd = palloc_card [OF Cons.prems(1) a]
  let ?m = "case resident v (off + ?k i) of Some p \<Rightarrow> m(a := m p) | None \<Rightarrow> m"
  let ?ch = "bt_insert (?k i) a child"
  have none: "map_of child (?k i) = None" using Cons.prems(8) by simp
  have an: "a \<notin> set (frames_of child)" using Cons.prems(7) al by auto
  note fi = frames_insert [OF Cons.prems(5) disjI1 [OF none], of a]
  have st: "set (frames_of ?ch) = insert a (set (frames_of child))" "distinct (frames_of ?ch)"
    using fi an al Cons.prems(6) by auto
  have lvc: "\<forall>b \<in> set (frames_of ?ch). live c1 b" using st(1) al Cons.prems(7) by auto
  have kn: "\<forall>j \<in> set is. map_of ?ch (?k j) = None"
    using Cons.prems(3,4,8) page_key_inj by (auto simp: Cons.prems(5))
  have rl: "\<forall>k p. resident v k = Some p \<longrightarrow> live c1 p" using Cons.prems(9) al by blast
  have len: "reserve + length is \<le> card (stock c1)" using Cons.prems(2) cd by simp
  obtain child' m' c' where r: "clone_pages palloc v off is ?ch ?m c1 = Some (child', m', c')" "pok c'"
     "bt_ok child'" "distinct (frames_of child')" "\<forall>b \<in> set (frames_of child'). live c' b"
     "stock c' \<union> set (frames_of child') = stock c1 \<union> set (frames_of ?ch)" "\<forall>b. live c1 b \<longrightarrow> live c' b"
     "card (stock c1) = card (stock c') + length is" "\<forall>b. b \<notin> stock c1 \<longrightarrow> m' b = ?m b"
     "\<forall>k. k \<notin> ?k ` set is \<longrightarrow> map_of child' k = map_of ?ch k"
     "\<forall>j \<in> set is. \<exists>b. map_of child' (?k j) = Some b \<and> b \<in> stock c1 \<and> b \<noteq> 0 \<and>
        (\<forall>p. resident v (off + ?k j) = Some p \<longrightarrow> m' b = ?m p)"
    using Cons.IH [of c1 ?ch ?m] al len Cons.prems(3,4) bt_insert_ok [OF Cons.prems(5)] st(2) lvc kn rl by auto
  have mp: "?m p = m p" if "resident v k = Some p" for k p
    
  proof -
    have "p \<noteq> a" using Cons.prems(9) al that by auto
    then show ?thesis by (cases "resident v (off + ?k i)") auto
  qed
  have ki: "?k i \<notin> ?k ` set is" using Cons.prems(3,4) page_key_inj by auto
  have "m' a = m p" if "resident v (off + ?k i) = Some p" for p
    using r(9) al that by simp
  then have "\<exists>b. map_of child' (?k i) = Some b \<and> b \<in> stock c \<and> b \<noteq> 0 \<and> (\<forall>p. resident v (off + ?k i) = Some p \<longrightarrow> m' b = m p)"
    using r(10) ki al by (auto simp: Cons.prems(5))
  moreover have "\<exists>b. map_of child' (?k j) = Some b \<and> b \<in> stock c \<and> b \<noteq> 0 \<and> (\<forall>p. resident v (off + ?k j) = Some p \<longrightarrow> m' b = m p)"
    if "j \<in> set is" for j using r(11) that mp al by (metis DiffD1)
  ultimately have pages: "\<forall>j \<in> set (i # is). \<exists>b. map_of child' (?k j) = Some b \<and> b \<in> stock c \<and> b \<noteq> 0 \<and>
        (\<forall>p. resident v (off + ?k j) = Some p \<longrightarrow> m' b = m p)" by auto
  have rest: "\<forall>k. k \<notin> ?k ` set (i # is) \<longrightarrow> map_of child' k = map_of child k"
    using r(10) by (auto simp: Cons.prems(5))
  have mem: "\<forall>b. b \<notin> stock c \<longrightarrow> m' b = m b" 
  proof (intro allI impI)
    fix b assume b: "b \<notin> stock c"
    then have "?m b = m b" using al by (cases "resident v (off + ?k i)") auto
    then show "m' b = m b" using r(9) al b by auto
  qed
  have un: "stock c' \<union> set (frames_of child') = stock c \<union> set (frames_of child)"
    unfolding r(6) st(1) using al by blast
  have run: "clone_pages palloc v off (i # is) child m c = Some (child', m', c')"
    using a r(1) by (simp add: Let_def)
  have lv: "\<forall>b. live c b \<longrightarrow> live c' b" using r(7) al by blast
  have cds: "card (stock c) = card (stock c') + length (i # is)" using r(8) cd by simp
  show ?case
    by (intro exI [of _ child'] exI [of _ m'] exI [of _ c'] conjI)
      (fact run r(2) r(3) r(4) r(5) un lv cds mem rest pages)+
qed auto

end

section \<open>Calls on memory objects\<close>

text \<open>
  A call resolves its handle with the rights the invocation demands and runs the handler of the
  object; \<open>other\<close> is the handler of the remaining object classes.
\<close>

definition mem_invoke ::
  "(kobj \<Rightarrow> invocation \<Rightarrow> access_rights \<Rightarrow> invocation_error + u64) \<Rightarrow> handle_id \<Rightarrow> invocation \<Rightarrow> msys \<Rightarrow> ((invocation_error + u64) \<times> msys) run" where
  "mem_invoke other h invo w =
    (case resolve_entry (ms_handles w) h (required_rights invo) of
       Inl e \<Rightarrow> ret (Inl e, w)
     | Inr en \<Rightarrow> (case object en of
         KVmo i \<Rightarrow> vmo_invoke i invo w
       | KPool pth \<Rightarrow> ret (pool_invoke pth invo (rights en) w)
       | KMemoryManager \<Rightarrow> ret (memman_invoke invo (rights en) w)
       | ob \<Rightarrow> ret (other ob invo (rights en), w)))"

fun mem_run ::
  "(kobj \<Rightarrow> invocation \<Rightarrow> access_rights \<Rightarrow> invocation_error + u64) \<Rightarrow> (handle_id \<times> invocation) list \<Rightarrow> msys \<Rightarrow> msys run" where
  "mem_run other [] w = ret w"
| "mem_run other ((h, invo) # calls) w = do { (_, w1) \<leftarrow> mem_invoke other h invo w; mem_run other calls w1 }"

text \<open>The most frames a call takes from the allocator.\<close>

fun demand :: "invocation \<Rightarrow> nat" where
  "demand (VmoInv (GetPage _)) = 1"
| "demand (VmoInv (CloneVmo _ len)) = num_pages len"
| "demand _ = 0"

definition held_frames :: "msys \<Rightarrow> nat set" where
  "held_frames w = (\<Union>i < ms_nvmo w. set (vmo_frames (ms_vmos w i)))"

definition mem_inv :: "msys \<Rightarrow> bool" where
  "mem_inv w \<longleftrightarrow>
    core_ok (ms_core w) \<and> (\<forall>i < ms_nvmo w. vmo_inv core_live (ms_core w) (ms_vmos w i)) \<and>
    (\<forall>i < ms_nvmo w. \<forall>j < ms_nvmo w. i \<noteq> j \<longrightarrow> set (vmo_frames (ms_vmos w i)) \<inter> set (vmo_frames (ms_vmos w j)) = {}) \<and>
    (\<forall>h e i. entries (ms_handles w) h = Some e \<longrightarrow> object e = KVmo i \<longrightarrow> i < ms_nvmo w)"

text \<open>Every handle is an old one or names an object that did not exist before.\<close>

definition fresh_obj :: "msys \<Rightarrow> kobj \<Rightarrow> bool" where
  "fresh_obj w ob \<longleftrightarrow> (case ob of KVmo i \<Rightarrow> ms_nvmo w \<le> i | KPool (p # _) \<Rightarrow> ms_npool w \<le> p | _ \<Rightarrow> False)"

definition mem_step_ok :: "msys \<Rightarrow> msys \<Rightarrow> bool" where
  "mem_step_ok w w' \<longleftrightarrow> mem_inv w' \<and> core_stock (ms_core w') \<union> held_frames w' = core_stock (ms_core w) \<union> held_frames w \<and>
    ms_nvmo w \<le> ms_nvmo w' \<and> ms_npool w \<le> ms_npool w' \<and>
    (\<forall>h e. entries (ms_handles w') h = Some e \<longrightarrow> entries (ms_handles w) h = Some e \<or> fresh_obj w (object e))"

lemma mem_step_ok_refl: "mem_inv w \<Longrightarrow> mem_step_ok w w"
  by (simp add: mem_step_ok_def)

lemma mem_step_ok_trans: "mem_step_ok w w1 \<Longrightarrow> mem_step_ok w1 w2 \<Longrightarrow> mem_step_ok w w2"
proof -
  assume a: "mem_step_ok w w1" "mem_step_ok w1 w2"
  have "fresh_obj w ob" if "fresh_obj w1 ob" for ob
    using that a(1) by (auto simp: fresh_obj_def mem_step_ok_def split: kobj.splits list.splits)
  then show ?thesis using a unfolding mem_step_ok_def by (metis order_trans)
qed

lemma held_frames_upd:
  "i < ms_nvmo w \<Longrightarrow> held_frames (w\<lparr>ms_vmos := (ms_vmos w)(i := v), ms_core := c\<rparr>) =
     set (vmo_frames v) \<union> (\<Union>j \<in> {..< ms_nvmo w} - {i}. set (vmo_frames (ms_vmos w j)))"
  by (auto simp: held_frames_def split: if_splits)

lemma object_update_ok:
  assumes iv: "mem_inv w" and i: "i < ms_nvmo w" and ok: "core_ok c'" and v: "vmo_inv core_live c' v'"
    and st: "core_stock c' \<union> set (vmo_frames v') = core_stock (ms_core w) \<union> set (vmo_frames (ms_vmos w i))"
    and lv: "\<And>b. core_live (ms_core w) b \<Longrightarrow> b \<notin> set (vmo_frames (ms_vmos w i)) \<Longrightarrow> core_live c' b"
  shows "mem_step_ok w (w\<lparr>ms_vmos := (ms_vmos w)(i := v'), ms_core := c'\<rparr>)"
proof -
  let ?w = "w\<lparr>ms_vmos := (ms_vmos w)(i := v'), ms_core := c'\<rparr>"
  have old: "vmo_inv core_live (ms_core w) (ms_vmos w j)" if "j < ms_nvmo w" for j using iv that by (simp add: mem_inv_def)
  have dj: "set (vmo_frames (ms_vmos w j)) \<inter> set (vmo_frames (ms_vmos w i)) = {}" if "j < ms_nvmo w" "j \<noteq> i" for j
    using iv that i by (simp add: mem_inv_def)
  have lj: "core_live (ms_core w) b" "b \<notin> core_stock (ms_core w)" if "j < ms_nvmo w" "b \<in> set (vmo_frames (ms_vmos w j))" for j b
    using old [OF that(1)] that(2) core_pages.live_not_stock iv by (auto simp: vmo_inv_def mem_inv_def)
  have apart: "set (vmo_frames v') \<inter> set (vmo_frames (ms_vmos w j)) = {}" if "j < ms_nvmo w" "j \<noteq> i" for j
    using st dj [OF that] lj(2) [OF that(1)] by blast
  have "vmo_inv core_live c' (ms_vmos w j)" if "j < ms_nvmo w" "j \<noteq> i" for j
    using old [OF that(1)] lv dj [OF that] by (auto simp: vmo_inv_def)
  then have "mem_inv ?w"
    using iv ok v apart unfolding mem_inv_def by (auto simp: Int_commute)
  moreover have "core_stock c' \<union> held_frames ?w = core_stock (ms_core w) \<union> held_frames w"
  proof -
    have "held_frames w = set (vmo_frames (ms_vmos w i)) \<union> (\<Union>j \<in> {..< ms_nvmo w} - {i}. set (vmo_frames (ms_vmos w j)))"
      using i by (auto simp: held_frames_def)
    then show ?thesis using st unfolding held_frames_upd [OF i] by blast
  qed
  ultimately show ?thesis by (simp add: mem_step_ok_def)
qed

lemma add_handle_ok:
  assumes "mem_step_ok w w1" and "fresh_obj w ob" and "\<And>i. ob = KVmo i \<Longrightarrow> i < ms_nvmo w1"
  shows "mem_step_ok w (snd (add_handle ob rs w1))"
  using assms by (auto simp: mem_step_ok_def mem_inv_def held_frames_def add_handle_def ht_insert_def Let_def split: if_splits)

lemma add_vmo_ok:
  assumes iv: "mem_inv w" and ok: "core_ok c" and v: "vmo_inv core_live c v"
    and st: "core_stock c \<union> set (vmo_frames v) = core_stock (ms_core w)"
    and lv: "\<And>b. core_live (ms_core w) b \<Longrightarrow> core_live c b"
  shows "mem_step_ok w (snd (add_vmo v rs (w\<lparr>ms_frames := fr, ms_core := c\<rparr>)))"
proof -
  have "b \<notin> core_stock (ms_core w)" if "j < ms_nvmo w" "b \<in> set (vmo_frames (ms_vmos w j))" for j b
    using that core_pages.live_not_stock iv by (auto simp: vmo_inv_def mem_inv_def)
  then have apart: "set (vmo_frames v) \<inter> set (vmo_frames (ms_vmos w j)) = {}" if "j < ms_nvmo w" for j
    using st that by blast
  let ?w = "w\<lparr>ms_frames := fr, ms_core := c, ms_vmos := (ms_vmos w)(ms_nvmo w := v), ms_nvmo := Suc (ms_nvmo w)\<rparr>"
  have "vmo_inv core_live c (ms_vmos w j)" if "j < ms_nvmo w" for j
    using iv that lv by (auto simp: vmo_inv_def mem_inv_def)
  then have "mem_inv ?w"
    using iv ok v apart unfolding mem_inv_def by (auto simp: less_Suc_eq Int_commute)
  moreover have "held_frames ?w = held_frames w \<union> set (vmo_frames v)"
    by (auto simp: held_frames_def lessThan_Suc)
  ultimately have "mem_step_ok w ?w" using st by (auto simp: mem_step_ok_def)
  then show ?thesis unfolding add_vmo_def by (intro add_handle_ok) (simp_all add: fresh_obj_def)
qed

lemma request_page_keeps:
  assumes "core_ok c" and "request_page core_page_alloc v c off = Some (r, v', c')" and "core_live c b"
  shows "core_live c' b"
  using assms core_pages.palloc_some [OF assms(1)]
  by (auto simp: request_page_def bind_eq_Some_conv split: if_splits option.splits)

lemma resize_object_keeps:
  assumes ok: "core_ok c" and iv: "vmo_inv core_live c v" and run: "resize_object core_page_free v c n = Some (r, v', c')"
    and b: "core_live c b" "b \<notin> set (vmo_frames v)"
  shows "core_live c' b"
proof (cases "is_physical v \<or> vmo_size v \<le> n")
  case True
  then show ?thesis using run b by (auto simp: resize_object_def split: if_splits)
next
  case False
  let ?gone = "map snd (filter (\<lambda>(off, pfn). n \<le> off \<and> pfn \<noteq> 0) (vmo_pages v))"
  have d: "distinct (frames_of (vmo_pages v))" and lv: "\<forall>a \<in> set (frames_of (vmo_pages v)). core_live c a"
    using iv False by (auto simp: vmo_inv_def vmo_frames_def)
  note p = frames_partition [OF d, of n]
  have g: "\<forall>a \<in> set ?gone. core_live c a" "b \<notin> set ?gone" unfolding p(2) using lv b(2) False by (auto simp: vmo_frames_def)
  obtain c1 where c1: "free_each core_page_free c ?gone = Some c1" "\<forall>b. b \<notin> set ?gone \<longrightarrow> core_live c b \<longrightarrow> core_live c1 b"
    using core_pages.free_each_law [OF ok p(1)] g(1) by blast
  have "resize_object core_page_free v c n = Some (Inr (), v\<lparr>vmo_pages := filter (\<lambda>(off, _). \<not> n \<le> off) (vmo_pages v), vmo_size := n\<rparr>, c1)"
    using False c1(1) by (auto simp: resize_object_def)
  then show ?thesis using run c1(2) g(2) b(1) by simp
qed

lemma clone_range_refused:
  "is_physical v \<or> vmo_size v < off + len \<Longrightarrow> clone_range palloc v fr c off len = Some (Inl (), fr, c)"
  by (auto simp: clone_range_def)

lemma clone_range_law:
  assumes ok: "core_ok c" and iv: "vmo_inv core_live c v" and room: "127 + num_pages len \<le> card (core_stock c)"
    and fits: "\<not> (is_physical v \<or> vmo_size v < off + len)"
  shows "\<exists>ch fr' c'. clone_range core_page_alloc v fr c off len = Some (Inr ch, fr', c') \<and> core_ok c' \<and>
     (\<forall>b. core_live c b \<longrightarrow> core_live c' b) \<and> card (core_stock c) \<le> card (core_stock c') + num_pages len \<and>
     (\<forall>a. a \<notin> core_stock c \<longrightarrow> fr' a = fr a) \<and>
     vmo_inv core_live c' ch \<and> vmo_size ch = len \<and> core_stock c' \<union> set (vmo_frames ch) = core_stock c \<and>
     (\<forall>k < num_pages len. \<exists>a. resident ch (of_nat k * VMO_PAGE) = Some a \<and> a \<in> core_stock c \<and>
        (\<forall>p. resident v (off + of_nat k * VMO_PAGE) = Some p \<longrightarrow> fr' a = fr p))"
proof -
  have rl: "\<forall>k p. resident v k = Some p \<longrightarrow> core_live c p"
    using iv fits resident_frame by (auto simp: vmo_inv_def)
  have small: "\<forall>i \<in> set [0..<num_pages len]. i < 2 ^ 52" using num_pages_bound [of len] by auto
  obtain ch fr' c' where r: "clone_pages core_page_alloc v off [0..<num_pages len] [] fr c = Some (ch, fr', c')" "core_ok c'"
    "bt_ok ch" "distinct (frames_of ch)" "\<forall>a \<in> set (frames_of ch). core_live c' a"
    "core_stock c' \<union> set (frames_of ch) = core_stock c" "\<forall>b. core_live c b \<longrightarrow> core_live c' b"
    "card (core_stock c) = card (core_stock c') + num_pages len" "\<forall>a. a \<notin> core_stock c \<longrightarrow> fr' a = fr a"
    "\<forall>i \<in> set [0..<num_pages len]. \<exists>a. map_of ch (of_nat i * VMO_PAGE) = Some a \<and> a \<in> core_stock c \<and> a \<noteq> 0 \<and>
        (\<forall>p. resident v (off + of_nat i * VMO_PAGE) = Some p \<longrightarrow> fr' a = fr p)"
    using core_pages.clone_pages_law [OF ok, of "[0..<num_pages len]" "[]" v off fr] room small rl by auto
  let ?ch = "\<lparr>vmo_size = len, vmo_pages = ch, is_physical = False\<rparr>"
  have run: "clone_range core_page_alloc v fr c off len = Some (Inr ?ch, fr', c')"
    using fits r(1) by (simp add: clone_range_def)
  have "\<exists>a. resident ?ch (of_nat k * VMO_PAGE) = Some a \<and> a \<in> core_stock c \<and>
      (\<forall>p. resident v (off + of_nat k * VMO_PAGE) = Some p \<longrightarrow> fr' a = fr p)" if k: "k < num_pages len" for k
  proof -
    obtain a where "map_of ch (of_nat k * VMO_PAGE) = Some a" "a \<in> core_stock c" "a \<noteq> 0"
        "\<forall>p. resident v (off + of_nat k * VMO_PAGE) = Some p \<longrightarrow> fr' a = fr p"
      using r(10) [rule_format, of k] k by auto
    then show ?thesis by (auto simp: resident_def)
  qed
  moreover have "vmo_inv core_live c' ?ch" using r(3-5) by (simp add: vmo_inv_def vmo_frames_def)
  ultimately show ?thesis using run r(2,6-9) by (auto simp: vmo_frames_def)
qed

lemma vmo_invoke_ok:
  assumes iv: "mem_inv w" and i: "i < ms_nvmo w" and room: "127 + demand invo \<le> card (core_stock (ms_core w))"
  shows "\<exists>r w'. vmo_invoke i invo w = Some (r, w') \<and> mem_step_ok w w' \<and>
    card (core_stock (ms_core w)) \<le> card (core_stock (ms_core w')) + demand invo"
proof -
  have ok: "core_ok (ms_core w)" and v: "vmo_inv core_live (ms_core w) (ms_vmos w i)" using iv i by (auto simp: mem_inv_def)
  consider (get) off where "invo = VmoInv (GetPage off)" | (resize) n where "invo = VmoInv (Resize n)"
    | (clone) off len where "invo = VmoInv (CloneVmo off len)" | (map) a len fl where "invo = VmoInv (MapIntoProc a len fl)"
    | (other) "\<forall>op. invo \<noteq> VmoInv op"
    by (metis vmo_op.exhaust)
  then show ?thesis
  proof cases
    case get
    have "core_page_alloc (ms_core w) \<noteq> None" using core_pages.palloc_returns [OF ok] room get by simp
    then obtain r v' c' where r: "request_page core_page_alloc (ms_vmos w i) (ms_core w) off = Some (r, v', c')" "core_ok c'"
      "vmo_inv core_live c' v'" "core_stock c' \<union> set (vmo_frames v') = core_stock (ms_core w) \<union> set (vmo_frames (ms_vmos w i))"
      "card (core_stock (ms_core w)) \<le> Suc (card (core_stock c'))"
      using core_pages.request_page_law [OF ok v, of off] by (auto simp del: Un_iff)
    show ?thesis using object_update_ok [OF iv i r(2-4)] request_page_keeps [OF ok r(1)] r(1,5) get by simp
  next
    case resize
    obtain r v' c' where r: "resize_object core_page_free (ms_vmos w i) (ms_core w) n = Some (r, v', c')" "core_ok c'"
      "vmo_inv core_live c' v'" "core_stock c' \<union> set (vmo_frames v') = core_stock (ms_core w) \<union> set (vmo_frames (ms_vmos w i))"
      "core_stock (ms_core w) \<subseteq> core_stock c'"
      by (rule core_pages.resize_object_law [OF ok v, of n])
    have "card (core_stock (ms_core w)) \<le> card (core_stock c')" by (rule card_mono [OF core_finite [OF r(2)] r(5)])
    then show ?thesis using object_update_ok [OF iv i r(2-4)] resize_object_keeps [OF ok v r(1)] r(1) resize by simp
  next
    case clone
    show ?thesis
    proof (cases "is_physical (ms_vmos w i) \<or> vmo_size (ms_vmos w i) < off + len")
      case True
      note run = clone_range_refused [OF True, of core_page_alloc "ms_frames w" "ms_core w"]
      show ?thesis using mem_step_ok_refl [OF iv] clone run by simp
    next
      case False
      have "127 + num_pages len \<le> card (core_stock (ms_core w))" using room clone by simp
      from clone_range_law [OF ok v this False, of "ms_frames w"]
      obtain ch fr' c' where r: "clone_range core_page_alloc (ms_vmos w i) (ms_frames w) (ms_core w) off len = Some (Inr ch, fr', c')"
        "core_ok c'" "\<forall>b. core_live (ms_core w) b \<longrightarrow> core_live c' b"
        "card (core_stock (ms_core w)) \<le> card (core_stock c') + num_pages len"
        "vmo_inv core_live c' ch" "core_stock c' \<union> set (vmo_frames ch) = core_stock (ms_core w)" by blast
      have "mem_step_ok w (snd (add_vmo ch flags_all (w\<lparr>ms_frames := fr', ms_core := c'\<rparr>)))"
        using add_vmo_ok [OF iv r(2,5,6)] r(3) by blast
      then show ?thesis using r(1,4) clone by (simp add: add_vmo_def add_handle_def ht_insert_def Let_def)
    qed
  next
    case map
    then show ?thesis using iv by (auto simp: mem_step_ok_def mem_inv_def held_frames_def split: prod.splits)
  next
    case other
    then have "vmo_invoke i invo w = Some (Inl UnsupportedOperation, w)" by (cases invo) auto
    then show ?thesis using mem_step_ok_refl [OF iv] by simp
  qed
qed

lemma pool_invoke_ok:
  assumes iv: "mem_inv w"
  shows "mem_step_ok w (snd (pool_invoke pth invo calling w)) \<and> ms_core (snd (pool_invoke pth invo calling w)) = ms_core w"
proof -
  have upd: "mem_step_ok w (w\<lparr>ms_pools := ps, ms_npool := n\<rparr>)" if "ms_npool w \<le> n" for ps n
    using iv that by (simp add: mem_step_ok_def mem_inv_def held_frames_def)
  have core: "ms_core (snd (add_handle ob rs w1)) = ms_core w1" "ms_core (snd (add_vmo v rs w1)) = ms_core w1" for ob rs w1 v
    by (auto simp: add_handle_def add_vmo_def split: prod.splits)
  consider (vmo) sz where "invo = MemPoolInv (AllocateVmo sz)" | (sub) lim where "invo = MemPoolInv (CreateSubPool lim)"
    | (other) "\<forall>op. invo \<noteq> MemPoolInv op" by (metis mem_pool_op.exhaust)
  then show ?thesis
  proof cases
    case vmo
    obtain r ps where t: "try_allocate pth sz (ms_pools w) = (r, ps)" by fastforce
    let ?w = "w\<lparr>ms_pools := ps\<rparr>"
    have inv1: "mem_inv ?w" and same: "mem_step_ok w ?w"
      using upd [of "ms_npool w" ps] iv by (auto simp: mem_step_ok_def)
    have "mem_step_ok ?w (snd (add_vmo (vmo_new sz) rs (?w\<lparr>ms_frames := ms_frames ?w, ms_core := ms_core ?w\<rparr>)))" for rs
      by (rule add_vmo_ok [OF inv1]) (use iv vmo_new_empty [of sz] in \<open>auto simp: mem_inv_def vmo_inv_def\<close>)
    then show ?thesis using vmo t core same mem_step_ok_refl [OF iv] mem_step_ok_trans [OF same] by (cases r) auto
  next
    case sub
    have "mem_step_ok w (snd (add_handle (KPool (ms_npool w # pth)) rs (w\<lparr>ms_pools := ps, ms_npool := Suc (ms_npool w)\<rparr>)))" for rs ps
      by (rule add_handle_ok [OF upd]) (simp_all add: fresh_obj_def)
    then show ?thesis using sub core mem_step_ok_refl [OF iv] by simp
  next
    case other
    then have "pool_invoke pth invo calling w = (Inl UnsupportedOperation, w)" by (cases invo) auto
    then show ?thesis using mem_step_ok_refl [OF iv] by simp
  qed
qed

lemma memman_invoke_ok:
  assumes iv: "mem_inv w"
  shows "mem_step_ok w (snd (memman_invoke invo calling w)) \<and> ms_core (snd (memman_invoke invo calling w)) = ms_core w"
proof (cases "\<exists>lim. invo = MemoryManager (CreatePool lim)")
  case True
  then obtain lim where i: "invo = MemoryManager (CreatePool lim)" by blast
  have "mem_step_ok w (snd (add_handle (KPool [ms_npool w]) rs (w\<lparr>ms_pools := ps, ms_npool := Suc (ms_npool w)\<rparr>)))" for rs ps
    by (rule add_handle_ok) (use iv in \<open>simp_all add: fresh_obj_def mem_step_ok_def mem_inv_def held_frames_def\<close>)
  then show ?thesis using i mem_step_ok_refl [OF iv] by (auto simp: add_handle_def split: prod.splits)
next
  case False
  then have "memman_invoke invo calling w = (Inl UnsupportedOperation, w)"
    by (cases invo) (auto, metis mem_man_op.exhaust)
  then show ?thesis using mem_step_ok_refl [OF iv] by simp
qed

lemma mem_invoke_ok:
  assumes iv: "mem_inv w" and room: "127 + demand invo \<le> card (core_stock (ms_core w))"
  shows "\<exists>r w'. mem_invoke other h invo w = Some (r, w') \<and> mem_step_ok w w' \<and>
    card (core_stock (ms_core w)) \<le> card (core_stock (ms_core w')) + demand invo"
proof (cases "resolve_entry (ms_handles w) h (required_rights invo)")
  case (Inl e)
  then show ?thesis using mem_step_ok_refl [OF iv] by (simp add: mem_invoke_def)
next
  case (Inr en)
  then have en: "entries (ms_handles w) h = Some en" by (auto simp: resolve_entry_def split: option.splits if_splits)
  show ?thesis
  proof (cases "object en")
    case (KVmo i)
    then have "i < ms_nvmo w" using iv en by (auto simp: mem_inv_def)
    then show ?thesis using vmo_invoke_ok [OF iv _ room, of i] Inr KVmo by (simp add: mem_invoke_def)
  next
    case (KPool pth)
    then show ?thesis using pool_invoke_ok [OF iv, of pth invo "rights en"] Inr
      by (cases "pool_invoke pth invo (rights en) w") (simp add: mem_invoke_def)
  next
    case KMemoryManager
    then show ?thesis using memman_invoke_ok [OF iv, of invo "rights en"] Inr
      by (cases "memman_invoke invo (rights en) w") (simp add: mem_invoke_def)
  qed (use Inr mem_step_ok_refl [OF iv] in \<open>simp_all add: mem_invoke_def\<close>)
qed

text \<open>
  C12. Memory objects stay apart. Run any sequence of invocations through handles: page requests,
  resizes, clones and mappings of memory objects, allocations from pools, new pools. With enough
  free frames the whole sequence completes. Afterwards every frame of a memory object is
  allocated and no two objects share one; no frame is lost or invented, so the free frames
  together with the frames of all objects are the same set as before; and each handle is either
  an old one or names an object created during the sequence.
\<close>

theorem memory_objects_isolated:
  assumes "mem_inv w" and "127 + (\<Sum>(h, invo) \<leftarrow> calls. demand invo) \<le> card (core_stock (ms_core w))"
  shows "\<exists>w'. mem_run other calls w = Some w' \<and> mem_inv w' \<and>
    core_stock (ms_core w') \<union> held_frames w' = core_stock (ms_core w) \<union> held_frames w \<and>
    (\<forall>h e. entries (ms_handles w') h = Some e \<longrightarrow> entries (ms_handles w) h = Some e \<or> fresh_obj w (object e))"
proof -
  have "\<exists>w'. mem_run other calls w = Some w' \<and> mem_step_ok w w'" using assms
  proof (induction calls arbitrary: w)
    case Nil
    then show ?case by (simp add: mem_step_ok_refl)
  next
    case (Cons x calls)
    obtain h invo where x: "x = (h, invo)" by (cases x)
    obtain r w1 where r: "mem_invoke other h invo w = Some (r, w1)" "mem_step_ok w w1"
      "card (core_stock (ms_core w)) \<le> card (core_stock (ms_core w1)) + demand invo"
      using mem_invoke_ok [OF Cons.prems(1), of invo other h] Cons.prems(2) x by auto
    then obtain w2 where "mem_run other calls w1 = Some w2" "mem_step_ok w1 w2"
      using Cons.IH [of w1] Cons.prems(2) x by (auto simp: mem_step_ok_def)
    then show ?case using r mem_step_ok_trans x by auto
  qed
  then show ?thesis by (auto simp: mem_step_ok_def)
qed

text \<open>
  Cloning a range of an anonymous memory object gives the caller a handle with all rights on a
  new object of the range's length. Each of its pages is a frame that was free before and holds
  a copy of the page of the parent at the same place in the range, where the parent had one.
  Every object that existed keeps its pages and their contents.
\<close>

theorem clone_copies:
  assumes iv: "mem_inv w" and i: "i < ms_nvmo w" and v: "\<not> is_physical (ms_vmos w i)" "off + len \<le> vmo_size (ms_vmos w i)"
    and room: "127 + num_pages len \<le> card (core_stock (ms_core w))"
  shows "\<exists>h w'. vmo_invoke i (VmoInv (CloneVmo off len)) w = Some (Inr h, w') \<and>
    entries (ms_handles w') h = Some \<lparr>rights = flags_all, object = KVmo (ms_nvmo w)\<rparr> \<and>
    vmo_size (ms_vmos w' (ms_nvmo w)) = len \<and>
    (\<forall>k < num_pages len. \<exists>a. resident (ms_vmos w' (ms_nvmo w)) (of_nat k * 4096) = Some a \<and> a \<in> core_stock (ms_core w) \<and>
       (\<forall>p. resident (ms_vmos w i) (off + of_nat k * 4096) = Some p \<longrightarrow> ms_frames w' a = ms_frames w p)) \<and>
    (\<forall>j < ms_nvmo w. ms_vmos w' j = ms_vmos w j \<and> (\<forall>a \<in> set (vmo_frames (ms_vmos w j)). ms_frames w' a = ms_frames w a))"
proof -
  have ok: "core_ok (ms_core w)" and vi: "vmo_inv core_live (ms_core w) (ms_vmos w i)" using iv i by (auto simp: mem_inv_def)
  have "\<not> (is_physical (ms_vmos w i) \<or> vmo_size (ms_vmos w i) < off + len)" using v by auto
  from clone_range_law [OF ok vi room this, of "ms_frames w"]
  obtain ch fr' c' where r: "clone_range core_page_alloc (ms_vmos w i) (ms_frames w) (ms_core w) off len = Some (Inr ch, fr', c')"
    "vmo_size ch = len" "\<forall>a. a \<notin> core_stock (ms_core w) \<longrightarrow> fr' a = ms_frames w a"
    "\<forall>k < num_pages len. \<exists>a. resident ch (of_nat k * VMO_PAGE) = Some a \<and> a \<in> core_stock (ms_core w) \<and>
       (\<forall>p. resident (ms_vmos w i) (off + of_nat k * VMO_PAGE) = Some p \<longrightarrow> fr' a = ms_frames w p)"
    by blast
  have "a \<notin> core_stock (ms_core w)" if "j < ms_nvmo w" "a \<in> set (vmo_frames (ms_vmos w j))" for j a
    using that core_pages.live_not_stock [OF ok] iv by (auto simp: mem_inv_def vmo_inv_def)
  then show ?thesis
    using r(1,2,3) r(4) [unfolded VMO_PAGE_def] by (auto simp: add_vmo_def add_handle_def ht_insert_def Let_def)
qed

section \<open>What the handlers get wrong\<close>

text \<open>
  Growing an anonymous memory object is not charged to any pool: whatever the limits are, the
  resize succeeds, the object has the new size and every pool is as it was.
\<close>

theorem resize_escapes_quota:
  assumes iv: "mem_inv w" and i: "i < ms_nvmo w" and v: "\<not> is_physical (ms_vmos w i)"
  shows "\<exists>w'. vmo_invoke i (VmoInv (Resize n)) w = Some (Inr 0, w') \<and> vmo_size (ms_vmos w' i) = n \<and> ms_pools w' = ms_pools w"
proof -
  have ok: "core_ok (ms_core w)" and vi: "vmo_inv core_live (ms_core w) (ms_vmos w i)" using iv i by (auto simp: mem_inv_def)
  obtain r v' c' where r: "resize_object core_page_free (ms_vmos w i) (ms_core w) n = Some (r, v', c')"
    "r = Inr () \<and> vmo_size v' = n"
    by (rule core_pages.resize_object_law [OF ok vi, of n]) (use v in blast)
  then show ?thesis by simp
qed

text \<open>
  The buffer of a file read may be a kernel address: the bytes of the file are then copied over
  kernel memory, and the read succeeds.
\<close>

theorem kernel_buffer_overwritten:
  assumes "mem_open um" and "KERNEL_BASE \<le> buf" and "off < fo_size f" and "len \<noteq> 0"
  shows "\<exists>um'. file_invoke f (FileInv (FileRead off buf len)) um = Some (Inr (min (fo_size f - off) len), um') \<and>
    (\<forall>k < unat (min (fo_size f - off) len). mbyte um' (buf + of_nat k) = mbyte um (fo_addr f + off + of_nat k))"
proof -
  let ?n = "min (fo_size f - off) len"
  let ?bs = "bytes_at um (fo_addr f + off) (unat ?n)"
  have n: "?n \<noteq> 0" using assms(3,4) by (auto simp: min_def)
  have nl: "\<not> fo_size f \<le> off" using assms(3) by simp
  have lt: "unat ?n < 2 ^ 64" using unsigned_less [of ?n] by simp
  obtain um' where w: "write_bytes um buf ?bs = (True, um')"
    "\<forall>a. mbyte um' a = (if unat (a - buf) < length ?bs then ?bs ! unat (a - buf) else mbyte um a)"
    using write_bytes_ok [of ?bs um buf] assms(1) lt by (auto simp: mem_open_def)
  have run: "file_invoke f (FileInv (FileRead off buf len)) um = Some (Inr ?n, um')"
    using assms(2) nl n w(1) by (simp add: read_file_def Let_def copy_out_def safe_copy_to_def)
  have "mbyte um' (buf + of_nat k) = mbyte um (fo_addr f + off + of_nat k)" if k: "k < unat ?n" for k
  proof -
    have "unat (buf + of_nat k - buf) = k" using k lt by (simp add: unat_of_nat64)
    then show ?thesis using w(2) k by (simp add: bytes_at_def)
  qed
  then show ?thesis using run by blast
qed

text \<open>
  Killing a thread that waits in the ready queue of another core links it into the graveyard
  while it stays at the head of that queue. The next thread the core picks is the killed one,
  and the queue is empty afterwards: the threads behind it are never run again.
\<close>

theorem kill_loses_ready_threads:
  assumes wr: "flags_contains calling WRITE" and away: "home_core (tcbs (mem s) t) = home" "home \<noteq> this_core"
    and c: "get_core s home = Some c" and act: "active_priorities c \<noteq> 0" "trailing_zeros 32 (bit (active_priorities c)) = p"
    and q: "p < length (ready_queue_heads c)" "p < length (ready_queue_tails c)" "ready_queue_heads c ! p = t" "t \<noteq> 0"
    and g: "q_tail graveyard = 0" and behind: "nx (mem s) t = b" "b \<noteq> 0"
  shows "\<exists>g' s' m' c'. thread_invoke resched this_core t (ThreadInv KillThread) calling graveyard s = Some (Inr 0, g', s') \<and>
    q_head g' = t \<and> get_core s' home = Some c \<and> sched_pop (mem s') c = Some (t, m', c') \<and>
    tstate (tcbs m' t) = Terminated \<and> nx m' t \<noteq> b \<and> ready_queue_heads c' ! p = 0 \<and> ready_queue_tails c' ! p = 0"
proof -
  let ?m = "(set_state (mem s) t Terminated)\<lparr>nx := (nx (mem s))(t := 0)\<rparr>"
  let ?g = "graveyard\<lparr>q_head := t, q_tail := t, q_len := q_len graveyard + 1\<rparr>"
  let ?s = "s\<lparr>mem := ?m, ipis := home # ipis s\<rparr>"
  have push: "queue_push (nx (set_state (mem s) t Terminated)) graveyard t = ((nx (mem s))(t := 0), ?g)"
    using g q(4) by (simp add: queue_push_def Let_def set_state_def)
  have hc: "home_core (tcbs (set_state (mem s) t Terminated) t) = home" using away(1) by (simp add: set_state_def)
  have gc: "get_core (s\<lparr>mem := x\<rparr>) home = get_core s home" "get_core (s\<lparr>mem := x, ipis := y\<rparr>) home = get_core s home" for x y
    by (simp_all add: get_core_def try_get_core_def)
  have run: "thread_invoke resched this_core t (ThreadInv KillThread) calling graveyard s = Some (Inr 0, ?g, ?s)"
    using wr push hc away(2) gc(1) c by (simp add: Let_def)
  have "\<exists>m' c'. sched_pop ?m c = Some (t, m', c') \<and> tcbs m' = tcbs ?m \<and> nx m' t = 0 \<and> ready_queue_heads c' ! p = 0 \<and> ready_queue_tails c' ! p = 0"
    using act q by (simp add: sched_pop_def Let_def idx_def upd_def)
  then show ?thesis using run c gc(2) behind(2) by (auto simp: set_state_def)
qed

section \<open>Witnesses\<close>

definition sample_msys :: msys where
  "sample_msys =
    \<lparr>ms_handles = \<lparr>entries = [1 \<mapsto> \<lparr>rights = flags_all, object = KVmo 0\<rparr>], next_id = 2\<rparr>, ms_mem = flat_mem,
     ms_vmos = (\<lambda>_. vmo_new 8192), ms_frames = (\<lambda>_. []), ms_pools = \<lparr>limit = (\<lambda>_. Some 4096), allocated = (\<lambda>_. 0)\<rparr>,
     ms_nvmo = 1, ms_npool = 0, ms_vmm = sample_vmm, ms_tables = empty_tables, ms_core = roomy_core\<rparr>"

lemma sample_msys_inv: "mem_inv sample_msys" "card (core_stock (ms_core sample_msys)) = 512"
  using roomy_core_ok by (auto simp: mem_inv_def sample_msys_def vmo_inv_def vmo_new_empty split: if_splits)

theorem memory_objects_isolated_witness:
  "\<exists>w'. mem_run (\<lambda>_ _ _. Inl UnsupportedOperation) [(1, VmoInv (GetPage 0)), (1, VmoInv (CloneVmo 0 4096)), (2, VmoInv (Resize 0))] sample_msys = Some w' \<and>
     mem_inv w'"
  using memory_objects_isolated [OF sample_msys_inv(1), of "[(1, VmoInv (GetPage 0)), (1, VmoInv (CloneVmo 0 4096)), (2, VmoInv (Resize 0))]"
      "\<lambda>_ _ _. Inl UnsupportedOperation"] sample_msys_inv(2)
  by (auto simp: num_pages_def div_ceil_def)

lemma sample_vmo: "ms_nvmo sample_msys = 1" "\<not> is_physical (ms_vmos sample_msys 0)" "vmo_size (ms_vmos sample_msys 0) = 8192"
  by (simp_all add: sample_msys_def vmo_new_def)

theorem clone_copies_witness:
  "\<exists>h w'. vmo_invoke 0 (VmoInv (CloneVmo 4096 4096)) sample_msys = Some (Inr h, w') \<and> vmo_size (ms_vmos w' 1) = 4096"
  using clone_copies [OF sample_msys_inv(1), of 0 4096 4096] sample_vmo sample_msys_inv(2)
  by (auto simp: num_pages_def div_ceil_def)

theorem resize_escapes_quota_witness:
  "\<exists>w'. vmo_invoke 0 (VmoInv (Resize 0x10000000)) sample_msys = Some (Inr 0, w') \<and> vmo_size (ms_vmos w' 0) = 0x10000000 \<and>
     ms_pools w' = ms_pools sample_msys"
  by (rule resize_escapes_quota [OF sample_msys_inv(1)]) (use sample_vmo in simp_all)

theorem kernel_buffer_overwritten_witness:
  "\<exists>um'. file_invoke \<lparr>fo_addr = 0xFFFF800000001000, fo_size = 100\<rparr> (FileInv (FileRead 10 0xFFFF900000000000 4)) flat_mem = Some (Inr 4, um') \<and>
     mbyte um' 0xFFFF900000000003 = mbyte flat_mem 0xFFFF80000000100D"
proof -
  have m: "mem_open flat_mem" by (simp add: mem_open_def flat_mem_def)
  have "min (100 - 10) 4 = (4 :: u64)" by (simp add: min_def)
  then show ?thesis
    using kernel_buffer_overwritten [OF m, where buf = "0xFFFF900000000000" and off = 10 and len = 4 and f = "\<lparr>fo_addr = 0xFFFF800000001000, fo_size = 100\<rparr>"]
    by (auto simp: KERNEL_BASE_def dest!: spec [of _ 3])
qed

definition ready_core :: core where
  "ready_core = (core_new 0)\<lparr>ready_queue_heads := [8], ready_queue_tails := [16], active_priorities := 1\<rparr>"

definition two_ready :: machine where
  "two_ready =
    \<lparr>mem = \<lparr>tcbs = (\<lambda>_. sample_tcb MAXIMUM thread_state.Ready), nx = (\<lambda>_. 0)(8 := 16)\<rparr>,
     cores = [Some ready_core, Some (core_new 1)],
     ipis = []\<rparr>"

theorem kill_loses_ready_threads_witness:
  "\<exists>g' s' m' c'. thread_invoke ret 1 8 (ThreadInv KillThread) WRITE queue_new two_ready = Some (Inr 0, g', s') \<and>
     sched_pop (mem s') ready_core = Some (8, m', c') \<and> ready_queue_heads c' ! 0 = 0"
proof -
  have c: "get_core two_ready 0 = Some ready_core" by (simp add: get_core_def try_get_core_def two_ready_def MAX_CORES_def idx_def)
  have r: "active_priorities ready_core = 1" "ready_queue_heads ready_core = [8]" "ready_queue_tails ready_core = [16]"
    "trailing_zeros 32 (bit (1 :: u32)) = 0"
    by (simp_all add: ready_core_def trailing_zeros_def tz_from.simps [of 0])
  have w: "home_core (tcbs (mem two_ready) 8) = 0" "nx (mem two_ready) 8 = 16" "q_tail queue_new = 0" "flags_contains WRITE WRITE"
    by (simp_all add: two_ready_def sample_tcb_def tcb_init_def queue_new_def flags_contains_def)
  show ?thesis
    using kill_loses_ready_threads [OF w(4,1) _ c _ _ _ _ _ _ w(3,2), where this_core = 1 and p = 0 and resched = ret] r
    by (simp del: thread_invoke.simps) blast
qed

end
