(* ===== verification/Userheap.thy ===== *)
theory Userheap
  imports Heap Objects_Inv Syscall
begin

text \<open>
  The heap of a user program: \<^verbatim>\<open>lib/vespertine-rt/src/memory.rs\<close> and the heap part of \<^verbatim>\<open>lib.rs\<close>. A small arena
  mapped at start-up serves the first pages, later ones are memory objects taken from the
  program's pool by system calls. The slab allocator above it is the kernel's (theory \<open>Slab\<close>); its
  interface to the pages is discharged here for the arena together with the kernel's model of pools
  and memory objects. \<open>None\<close> is a panic of the program, after which nothing more of it runs.
\<close>

section \<open>The page provider\<close>

record user_provider =
  mem_pool_handle :: handle_id
  arena_start :: u64
  arena_offset :: u64
  arena_size :: u64

text \<open>
  \<open>call\<close> and \<open>close\<close> are the system calls. \<open>res_man\<close> is the resource manager's handle among the program's
  grants, if it has one. The request and the response lie at \<open>req_ptr\<close> and \<open>res_ptr\<close>; \<open>status_at\<close> reads the
  response back.
\<close>

type_synonym 's closer = "handle_id \<Rightarrow> 's \<Rightarrow> ((sys_error + unit) \<times> 's) run"

definition expect :: "('e + 'a) \<times> 's \<Rightarrow> ('a \<times> 's) run" where
  "expect = (\<lambda>(r, s). case r of Inl _ \<Rightarrow> panic | Inr a \<Rightarrow> ret (a, s))"

definition ask_resources :: "'s invoker \<Rightarrow> ('s \<Rightarrow> u64 \<Rightarrow> u8) \<Rightarrow> u64 \<Rightarrow> u64 \<Rightarrow> handle_id \<Rightarrow> 's \<Rightarrow> (u8 \<times> 's) run" where
  "ask_resources call status_at req_ptr res_ptr res_man s =
    do { (_, s1) \<leftarrow> sys_write call res_man req_ptr 16 0 s \<bind> expect;
         (_, s2) \<leftarrow> sys_wait call res_man READABLE s1 \<bind> expect;
         (_, s3) \<leftarrow> sys_read call res_man res_ptr 1 0 s2 \<bind> expect;
         ret (status_at s3 res_ptr, s3) }"

definition map_pages :: "'s invoker \<Rightarrow> 's closer \<Rightarrow> handle_id \<Rightarrow> u64 \<Rightarrow> 's \<Rightarrow> (u64 \<times> 's) run" where
  "map_pages call close vmo sz s =
    do { (mapped_addr, s1) \<leftarrow> call vmo (VmoInv (MapIntoProc 0 sz 5)) s \<bind> expect;
         (_, s2) \<leftarrow> close vmo s1;
         ret (mapped_addr, s2) }"

partial_function (option) pages_from_kernel ::
  "'s invoker \<Rightarrow> 's closer \<Rightarrow> ('s \<Rightarrow> u64 \<Rightarrow> u8) \<Rightarrow> u64 \<Rightarrow> u64 \<Rightarrow> handle_id option \<Rightarrow> handle_id \<Rightarrow> u64 \<Rightarrow> 's \<Rightarrow> (u64 \<times> 's) run" where
  "pages_from_kernel call close status_at req_ptr res_ptr res_man pool sz s =
    do { (vmo_idx, s1) \<leftarrow> call pool (MemPoolInv (AllocateVmo sz)) s;
         case vmo_idx of
           Inr vmo_id \<Rightarrow> map_pages call close vmo_id sz s1
         | Inl e \<Rightarrow>
             if e = SysPoolExhausted then
               (case res_man of
                  None \<Rightarrow> ret (0, s1)
                | Some rm \<Rightarrow>
                    do { (status, s2) \<leftarrow> ask_resources call status_at req_ptr res_ptr rm s1;
                         if status = 0 then pages_from_kernel call close status_at req_ptr res_ptr res_man pool sz s2
                         else ret (0, s2) })
             else ret (0, s1) }"

definition user_allocate_pages ::
  "'s invoker \<Rightarrow> 's closer \<Rightarrow> ('s \<Rightarrow> u64 \<Rightarrow> u8) \<Rightarrow> u64 \<Rightarrow> u64 \<Rightarrow> handle_id option \<Rightarrow> user_provider \<times> 's \<Rightarrow> nat \<Rightarrow> (nat \<times> user_provider \<times> 's) run" where
  "user_allocate_pages call close status_at req_ptr res_ptr res_man = (\<lambda>(p, s) n.
    let sz = of_nat n; offset = arena_offset p
    in if offset + sz \<le> arena_size p then ret (unat (arena_start p + offset), p\<lparr>arena_offset := offset + sz\<rparr>, s)
       else do { (addr, s1) \<leftarrow> pages_from_kernel call close status_at req_ptr res_ptr res_man (mem_pool_handle p) sz s;
                 ret (unat addr, p, s1) })"

text \<open>Pages of the arena are never given back; other pages are unmapped through the process's own handle.\<close>

definition user_free_pages :: "'s invoker \<Rightarrow> user_provider \<times> 's \<Rightarrow> nat \<Rightarrow> nat \<Rightarrow> (user_provider \<times> 's) run" where
  "user_free_pages call = (\<lambda>(p, s) ptr n.
    let addr = of_nat ptr; sz = of_nat n
    in if ptr = 0 \<or> sz = 0 then ret (p, s)
       else if arena_start p \<le> addr \<and> addr < arena_start p + arena_size p then ret (p, s)
       else do { (_, s1) \<leftarrow> call 1 (ProcInv (Unmap addr sz)) s \<bind> expect; ret (p, s1) })"

section \<open>Starting the heap\<close>

definition ARENA_SIZE :: u64 where
  "ARENA_SIZE = 1024 * 64"

text \<open>\<open>name\<close> gives the place and length of the three names in the program's data.\<close>

definition get_memory_manager :: "'s invoker \<Rightarrow> (string \<Rightarrow> u64 \<times> u64) \<Rightarrow> 's \<Rightarrow> ((sys_error + handle_id) \<times> 's) run" where
  "get_memory_manager call name s =
    do { (sys_dir, s1) \<leftarrow> case_prod (sys_lookup call 0) (name ''System'') s;
         case sys_dir of
           Inl e \<Rightarrow> ret (Inl e, s1)
         | Inr d \<Rightarrow>
             do { (srv_dir, s2) \<leftarrow> case_prod (sys_lookup call d) (name ''Services'') s1;
                  case srv_dir of Inl e \<Rightarrow> ret (Inl e, s2) | Inr v \<Rightarrow> case_prod (sys_lookup call v) (name ''MemoryManager'') s2 } }"

definition create_private_pool :: "'s invoker \<Rightarrow> handle_id \<Rightarrow> 's \<Rightarrow> ((sys_error + handle_id) \<times> 's) run" where
  "create_private_pool call mem_man s = call mem_man (MemoryManager (CreatePool 0)) s"

definition init_heap :: "'s invoker \<Rightarrow> 's closer \<Rightarrow> (string \<Rightarrow> u64 \<times> u64) \<Rightarrow> 's \<Rightarrow> (user_provider \<times> 's) run" where
  "init_heap call close name s =
    do { (mem_man, s1) \<leftarrow> get_memory_manager call name s \<bind> expect;
         (pool, s2) \<leftarrow> create_private_pool call mem_man s1 \<bind> expect;
         (vmo, s3) \<leftarrow> call pool (MemPoolInv (AllocateVmo ARENA_SIZE)) s2 \<bind> expect;
         (mapped_addr, s4) \<leftarrow> map_pages call close vmo ARENA_SIZE s3;
         ret (\<lparr>mem_pool_handle = pool, arena_start = mapped_addr, arena_offset = 0, arena_size = ARENA_SIZE\<rparr>, s4) }"

definition start_heap :: "'s invoker \<Rightarrow> 's closer \<Rightarrow> (string \<Rightarrow> u64 \<times> u64) \<Rightarrow> (nat \<Rightarrow> nat) \<Rightarrow> 's \<Rightarrow> (user_provider \<times> 's) slab run" where
  "start_heap call close name heap0 s =
    do { ps \<leftarrow> init_heap call close name s; ret \<lparr>caches = slab_new, memory = heap0, provider = ps\<rparr> }"

section \<open>System calls on the kernel's objects\<close>

text \<open>The calls of the heap reach pools, memory objects and the memory manager through the process's handles.\<close>

definition sys_mem :: "(kobj \<Rightarrow> invocation \<Rightarrow> access_rights \<Rightarrow> invocation_error + u64) \<Rightarrow> msys invoker" where
  "sys_mem other h invo w = do { (r, w1) \<leftarrow> mem_invoke other h invo w; ret (map_sum from_invocation_err id r, w1) }"

definition sys_mem_close :: "msys closer" where
  "sys_mem_close h w = (case ht_close (ms_handles w) h of (r, t) \<Rightarrow> ret (map_sum from_invocation_err id r, w\<lparr>ms_handles := t\<rparr>))"


section \<open>Pages of the program\<close>

text \<open>
  A well-formed heap: the arena is one of the process's regions and the pool has no limit, which is
  how \<^verbatim>\<open>init_heap\<close> creates it. A handle is used per mapping, so handle numbers stay below \<open>2 ^ 63\<close> plus the
  bytes mapped and cannot wrap.
\<close>

definition map_total :: "vma list \<Rightarrow> nat" where
  "map_total vs = sum_list (map (\<lambda>n. unat (vlen n)) vs)"

definition pool_ready :: "handle_id \<Rightarrow> msys \<Rightarrow> bool" where
  "pool_ready h w \<longleftrightarrow> (\<exists>rs pth. entries (ms_handles w) h = Some \<lparr>rights = rs, object = KPool pth\<rparr> \<and>
     flags_contains rs WRITE \<and> flags_contains rs CREATE \<and> (\<forall>q \<in> set pth. limit (ms_pools w) q = None))"

definition space_ok :: "msys \<Rightarrow> bool" where
  "space_ok w \<longleftrightarrow> regions_ok (regions (ms_vmm w)) \<and> ht_inv (ms_handles w) \<and>
     unat (next_id (ms_handles w)) \<le> 2 ^ 63 + map_total (regions (ms_vmm w))"

definition uheap_ok :: "user_provider \<times> msys \<Rightarrow> bool" where
  "uheap_ok = (\<lambda>(p, w). space_ok w \<and> pool_ready (mem_pool_handle p) w \<and>
     4096 dvd unat (arena_start p) \<and> 4096 dvd unat (arena_offset p) \<and> arena_offset p \<le> arena_size p \<and> arena_start p \<noteq> 0 \<and>
     (\<exists>n \<in> set (regions (ms_vmm w)). lo n = unat (arena_start p) \<and> hi n = unat (arena_start p) + unat (arena_size p)))"

definition uheap_live :: "user_provider \<times> msys \<Rightarrow> nat set" where
  "uheap_live = (\<lambda>(p, w).
     {a. unat (arena_start p) \<le> a \<and> a < unat (arena_start p) + unat (arena_offset p)} \<union>
     {a. (\<exists>n \<in> set (regions (ms_vmm w)). lo n \<le> a \<and> a < hi n) \<and>
         \<not> (unat (arena_start p) \<le> a \<and> a < unat (arena_start p) + unat (arena_size p))})"

lemma map_total_bound: "vmas_ok vs \<Longrightarrow> map_total vs \<le> USER_TOP"
proof -
  have "sorted_wrt (\<lambda>a b. hi a \<le> lo b) vs \<Longrightarrow> \<forall>n \<in> set vs. b \<le> lo n \<and> hi n \<le> USER_TOP \<Longrightarrow> b \<le> USER_TOP \<Longrightarrow> map_total vs + b \<le> USER_TOP" for b
  proof (induction vs arbitrary: b)
    case (Cons n vs)
    then have "map_total vs + hi n \<le> USER_TOP" by simp
    moreover have "b + unat (vlen n) \<le> hi n" using Cons.prems(2) by (simp add: hi_def lo_def)
    ultimately show ?case by (simp add: map_total_def)
  qed (simp add: map_total_def)
  from this [of 0] show "vmas_ok vs \<Longrightarrow> map_total vs \<le> USER_TOP" by (simp add: vmas_ok_def)
qed

lemma next_handle_fits:
  assumes "space_ok w"
  shows "unat (next_id (ms_handles w) + 1) = unat (next_id (ms_handles w)) + 1"
proof -
  have "unat (next_id (ms_handles w)) \<le> 2 ^ 63 + USER_TOP"
    using assms map_total_bound [of "regions (ms_vmm w)"] by (simp add: space_ok_def regions_ok_def)
  then show ?thesis using unat_add_lem [of "next_id (ms_handles w)" 1] by (simp add: USER_TOP_def)
qed

lemma try_allocate_unlimited: "\<forall>q \<in> set pth. limit ps q = None \<Longrightarrow> \<exists>ps'. try_allocate pth sz ps = (Inr (), ps') \<and> limit ps' = limit ps"
proof (induction pth arbitrary: ps)
  case (Cons q pth)
  obtain ps' where "try_allocate pth sz (reserve_at q sz ps) = (Inr (), ps')" "limit ps' = limit ps"
    using Cons.IH [of "reserve_at q sz ps"] Cons.prems by auto
  moreover have "\<not> over_limit ps q sz" using Cons.prems by (simp add: over_limit_def)
  ultimately show ?case by simp
qed simp

lemma mmap_nonzero:
  assumes "regions_ok vs" and "mmap_vmo vs sz 5 obj = (Some a, vs')" and "round_to (page_mask 5) sz = sz" and "unat sz \<le> USER_TOP - 0x40000000"
  shows "0 < unat a" and "map_total vs' = map_total vs + unat sz"
proof -
  have bits: "page_bits 5 = 12" by (simp add: page_bits_def VM_FLAG_HUGE_def)
  obtain j where g: "find_gap (mask 12) sz vs = Some (a, j)"
    and vs': "vs' = insert_vma j \<lparr>vstart = a, vlen = sz, vflags = 5, backing_vmo = Some obj, vmo_offset = 0\<rparr> vs"
    using assms(2,3) by (auto simp: mmap_vmo_def mmap_internal_def Let_def page_mask_eq bits split: option.splits)
  have ok: "vmas_ok vs" "below_top 12 vs" using assms(1) below_top_12 by (auto simp: regions_ok_def)
  note gs = find_gap_some [OF g ok(1) _ ok(2) assms(4)]
  have t: "map_total vs = map_total (take j vs) + map_total (drop j vs)"
    unfolding map_total_def by (metis append_take_drop_id map_append sum_list_append)
  show "map_total vs' = map_total vs + unat sz" unfolding vs' t by (simp add: insert_vma_def map_total_def)
  show "0 < unat a"
  proof (cases "vs = []")
    case True
    then show ?thesis using g top_words by (simp add: find_gap_def)
  next
    case False
    show ?thesis using g False
    proof (cases rule: find_gap_cases)
      case head
      then show ?thesis using top_words by simp
    next
      case mid
      then have j: "0 < j" "j < length vs" using gap_after_some [OF mid ok(1)] by simp_all
      then have "hi (vs ! (j - 1)) \<le> unat a" using gs by simp
      moreover have "vs ! (j - 1) \<in> set vs" using j by simp
      ultimately show ?thesis using assms(1) by (fastforce simp: regions_ok_def hi_def)
    next
      case tail
      then have j: "0 < j" "j = length vs" using False by simp_all
      then have "hi (vs ! (j - 1)) \<le> unat a" using gs by simp
      moreover have "vs ! (j - 1) \<in> set vs" using j by simp
      ultimately show ?thesis using assms(1) by (fastforce simp: regions_ok_def hi_def)
    qed
  qed
qed

lemma page_rounds: "round_to (page_mask 5) 4096 = 4096" "round_to (page_mask 5) ARENA_SIZE = ARENA_SIZE"
  by (simp_all add: page_mask_def VM_FLAG_HUGE_def round_to_def ARENA_SIZE_def)

lemmas one_page = mmap_nonzero [OF _ _ page_rounds(1), simplified USER_TOP_def, simplified]

text \<open>One page from the kernel: a fresh region of the process, or a panic when none fits.\<close>

lemma pages_from_kernel_law:
  assumes "space_ok w" and "pool_ready h w"
  shows "case mmap_vmo (regions (ms_vmm w)) 4096 5 (ms_nvmo w) of
      (None, _) \<Rightarrow> pages_from_kernel (sys_mem other) sys_mem_close st rq rp rm h 4096 w = None
    | (Some a, vs) \<Rightarrow> \<exists>w'. pages_from_kernel (sys_mem other) sys_mem_close st rq rp rm h 4096 w = Some (a, w') \<and>
        regions (ms_vmm w') = vs \<and> entries (ms_handles w') = entries (ms_handles w) \<and>
        next_id (ms_handles w') = next_id (ms_handles w) + 1 \<and> limit (ms_pools w') = limit (ms_pools w)"
proof -
  obtain rs pth where e: "entries (ms_handles w) h = Some \<lparr>rights = rs, object = KPool pth\<rparr>" "flags_contains rs WRITE"
      "flags_contains rs CREATE" "\<forall>q \<in> set pth. limit (ms_pools w) q = None" using assms(2) by (auto simp: pool_ready_def)
  obtain ps where ps: "try_allocate pth 4096 (ms_pools w) = (Inr (), ps)" "limit ps = limit (ms_pools w)"
    using try_allocate_unlimited [OF e(4)] by blast
  let ?h = "next_id (ms_handles w)"
  have fresh: "entries (ms_handles w) ?h = None" using assms(1) by (auto simp: space_ok_def ht_inv_def)
  have fc: "flags_contains (READ OR WRITE OR MUTATE) MUTATE" by (simp add: flags_contains_def rights_defs)
  show ?thesis
    using e ps fresh fc
    by (subst (1 2) pages_from_kernel.simps)
      (auto simp: sys_mem_def mem_invoke_def resolve_entry_def add_vmo_def add_handle_def ht_insert_def Let_def map_pages_def
        expect_def sys_mem_close_def ht_close_def fun_upd_idem split: prod.splits option.splits)
qed


lemma arena_page:
  assumes "uheap_ok (p, w)" and "arena_offset p + 4096 \<le> arena_size p"
  shows "unat (arena_start p + arena_offset p) = unat (arena_start p) + unat (arena_offset p)"
    and "unat (arena_offset p + 4096) = unat (arena_offset p) + 4096" and "uheap_ok (p\<lparr>arena_offset := arena_offset p + 4096\<rparr>, w)"
proof -
  obtain n where n: "n \<in> set (regions (ms_vmm w))" "hi n = unat (arena_start p) + unat (arena_size p)"
    and ok: "regions_ok (regions (ms_vmm w))" "arena_offset p \<le> arena_size p" using assms(1) by (auto simp: uheap_ok_def space_ok_def)
  have top: "unat (arena_start p) + unat (arena_size p) \<le> USER_TOP" using n ok(1) by (fastforce simp: regions_ok_def vmas_ok_def)
  have ofs: "unat (arena_offset p) \<le> unat (arena_size p)" using ok(2) by (simp add: word_le_nat_alt)
  show "unat (arena_start p + arena_offset p) = unat (arena_start p) + unat (arena_offset p)"
    using top ofs unat_add_lem [of "arena_start p" "arena_offset p"] by (simp add: USER_TOP_def)
  show o4: "unat (arena_offset p + 4096) = unat (arena_offset p) + 4096"
    using top ofs unat_add_lem [of "arena_offset p" 4096] by (simp add: USER_TOP_def)
  show "uheap_ok (p\<lparr>arena_offset := arena_offset p + 4096\<rparr>, w)"
    using assms by (auto simp: uheap_ok_def pool_ready_def o4)
qed

lemma kernel_page:
  assumes "uheap_ok (p, w)" and "mmap_vmo (regions (ms_vmm w)) 4096 5 (ms_nvmo w) = (Some a, vs)"
    and "regions (ms_vmm w') = vs" and "entries (ms_handles w') = entries (ms_handles w)"
    and "next_id (ms_handles w') = next_id (ms_handles w) + 1" and "limit (ms_pools w') = limit (ms_pools w)"
  shows "uheap_ok (p, w')" and "4096 dvd unat a" and "unat a \<notin> uheap_live (p, w)"
    and "insert (unat a) (uheap_live (p, w)) \<subseteq> uheap_live (p, w')"
proof -
  have sp: "space_ok w" and pr: "pool_ready (mem_pool_handle p) w" using assms(1) by (simp_all add: uheap_ok_def)
  have ok: "regions_ok (regions (ms_vmm w))" using sp by (simp add: space_ok_def)
  then have vo: "vmas_ok (regions (ms_vmm w))" by (simp add: regions_ok_def)
  have bits: "page_bits 5 = 12" by (simp add: page_bits_def VM_FLAG_HUGE_def)
  have r: "round_up 4096 4096 = 4096" by (simp add: round_up_def)
  obtain n where m: "vmas_ok vs" "4096 dvd unat a" "\<forall>n \<in> set (regions (ms_vmm w)). \<not> overlaps (unat a) 4096 n"
      "set vs = insert n (set (regions (ms_vmm w)))" "lo n = unat a" "hi n = unat a + 4096"
    using mmap_law [of "regions (ms_vmm w)" 5 4096 "Some (ms_nvmo w)" 0] vo below_top_12 [OF vo] assms(2)
    by (auto simp: mmap_vmo_def bits r USER_TOP_def)
  have vl: "0 < unat (vlen n)" using m(5,6) by (simp add: lo_def hi_def)
  have ro: "regions_ok vs" using m(1,4) vl ok by (auto simp: regions_ok_def)
  have inv: "ht_inv (ms_handles w')"
    using sp next_handle_fits [OF sp] unfolding space_ok_def ht_inv_def assms(4,5) by (auto simp: word_less_nat_alt intro: less_SucI)
  have nx: "unat (next_id (ms_handles w')) \<le> 2 ^ 63 + map_total vs"
    using sp next_handle_fits [OF sp] one_page(2) [OF ok assms(2)] unfolding space_ok_def assms(5) by simp
  obtain ar where ar: "ar \<in> set (regions (ms_vmm w))" "lo ar = unat (arena_start p)" "hi ar = unat (arena_start p) + unat (arena_size p)"
    using assms(1) by (auto simp: uheap_ok_def)
  show "4096 dvd unat a" by (rule m(2))
  have "space_ok w'" using ro inv nx by (simp add: space_ok_def assms(3))
  moreover have "pool_ready (mem_pool_handle p) w'" using pr by (simp add: pool_ready_def assms(4,6))
  moreover have "ar \<in> set (regions (ms_vmm w'))" using ar(1) m(4) assms(3) by simp
  ultimately show "uheap_ok (p, w')" using assms(1) ar(2,3) by (auto simp: uheap_ok_def)
  have apart: "\<not> (lo k \<le> unat a \<and> unat a < hi k)" if "k \<in> set (regions (ms_vmm w))" for k
    using m(3) that by (auto simp: overlaps_def)
  have arena: "\<not> (unat (arena_start p) \<le> unat a \<and> unat a < unat (arena_start p) + unat (arena_size p))" using apart [OF ar(1)] ar(2,3) by simp
  moreover have "unat (arena_offset p) \<le> unat (arena_size p)" using assms(1) by (simp add: uheap_ok_def word_le_nat_alt)
  ultimately show "unat a \<notin> uheap_live (p, w)" using apart by (auto simp: uheap_live_def)
  show "insert (unat a) (uheap_live (p, w)) \<subseteq> uheap_live (p, w')"
    using m(4-6) arena by (auto simp: uheap_live_def assms(3))
qed

interpretation uheap: page_provider "user_allocate_pages (sys_mem other) sys_mem_close st rq rp rm" uheap_ok uheap_live
  for other st rq rp rm
proof unfold_locales
  fix ps a ps'
  assume ok: "uheap_ok ps" and run: "user_allocate_pages (sys_mem other) sys_mem_close st rq rp rm ps SLAB_PAGE_SIZE = Some (a, ps')"
  obtain p w where ps: "ps = (p, w)" by (cases ps)
  show "uheap_ok ps' \<and> a \<noteq> 0 \<and> SLAB_PAGE_SIZE dvd a \<and> a \<notin> uheap_live ps \<and> insert a (uheap_live ps) \<subseteq> uheap_live ps'"
  proof (cases "arena_offset p + 4096 \<le> arena_size p")
    case True
    note ar = arena_page [OF ok [unfolded ps] True]
    have e: "a = unat (arena_start p) + unat (arena_offset p)" "ps' = (p\<lparr>arena_offset := arena_offset p + 4096\<rparr>, w)"
      using run True ar(1) by (simp_all add: user_allocate_pages_def ps SLAB_PAGE_SIZE_def Let_def)
    have le: "unat (arena_offset p) + 4096 \<le> unat (arena_size p)" using True ar(2) by (simp add: word_le_nat_alt)
    have "uheap_ok ps'" "a \<noteq> 0" "4096 dvd a" using ok ar(3) unfolding e ps by (auto simp: uheap_ok_def unat_eq_zero)
    moreover have "a \<notin> uheap_live ps" "insert a (uheap_live ps) \<subseteq> uheap_live ps'" using le ar(2) unfolding e ps by (auto simp: uheap_live_def)
    ultimately show ?thesis by (simp add: SLAB_PAGE_SIZE_def)
  next
    case False
    have sp: "space_ok w" "pool_ready (mem_pool_handle p) w" using ok by (simp_all add: uheap_ok_def ps)
    obtain addr w' where k: "pages_from_kernel (sys_mem other) sys_mem_close st rq rp rm (mem_pool_handle p) 4096 w = Some (addr, w')"
      and e: "a = unat addr" "ps' = (p, w')"
      using run False by (auto simp: user_allocate_pages_def ps SLAB_PAGE_SIZE_def split: bind_splits)
    obtain vs where mv: "mmap_vmo (regions (ms_vmm w)) 4096 5 (ms_nvmo w) = (Some addr, vs)"
      and w': "regions (ms_vmm w') = vs" "entries (ms_handles w') = entries (ms_handles w)"
        "next_id (ms_handles w') = next_id (ms_handles w) + 1" "limit (ms_pools w') = limit (ms_pools w)"
      using pages_from_kernel_law [OF sp, of other st rq rp rm] k by (auto split: prod.splits option.splits)
    have "regions_ok (regions (ms_vmm w))" using sp(1) by (simp add: space_ok_def)
    then have "0 < unat addr" using one_page(1) mv by blast
    then show ?thesis using kernel_page [OF ok [unfolded ps] mv w'] by (simp add: e ps SLAB_PAGE_SIZE_def)
  qed
qed


section \<open>Allocating\<close>

definition user_heap_ok :: "(user_provider \<times> msys) slab \<Rightarrow> (nat \<Rightarrow> nat option) \<Rightarrow> (nat \<Rightarrow> nat list) \<Rightarrow> bool" where
  "user_heap_ok s G X \<longleftrightarrow> slab_rel s G X \<and> uheap_ok (provider s) \<and> dom G \<subseteq> uheap_live (provider s)"

lemma user_heap_ok_iff: "user_heap_ok s G X \<longleftrightarrow> uheap.slab_ok s G X"
  by (simp add: user_heap_ok_def uheap.slab_ok_def)

text \<open>A page is left: in the arena, or as a gap of the address space.\<close>

definition pages_left :: "user_provider \<times> msys \<Rightarrow> bool" where
  "pages_left = (\<lambda>(p, w). arena_offset p + 4096 \<le> arena_size p \<or> fst (mmap_vmo (regions (ms_vmm w)) 4096 5 (ms_nvmo w)) \<noteq> None)"

lemma provider_returns:
  assumes "uheap_ok ps" and "pages_left ps"
  shows "\<exists>a ps'. user_allocate_pages (sys_mem other) sys_mem_close st rq rp rm ps SLAB_PAGE_SIZE = Some (a, ps')"
proof -
  obtain p w where ps: "ps = (p, w)" by (cases ps)
  have sp: "space_ok w" "pool_ready (mem_pool_handle p) w" using assms(1) by (simp_all add: uheap_ok_def ps)
  show ?thesis using assms(2) pages_from_kernel_law [OF sp, of other st rq rp rm]
    by (auto simp: user_allocate_pages_def ps SLAB_PAGE_SIZE_def Let_def pages_left_def split: prod.splits option.splits)
qed



text \<open>
  The start-up code establishes that state: with a handle to the memory manager that may create
  pools and a gap of 64 KiB, it creates an unlimited pool, maps the arena and leaves an empty heap.
\<close>

lemma start_heap_ok:
  assumes "get_memory_manager (sys_mem other) name w = Some (Inr mm, w)"
    and "entries (ms_handles w) mm = Some \<lparr>rights = rs, object = KMemoryManager\<rparr>" and "flags_contains rs CREATE"
    and "regions_ok (regions (ms_vmm w))" and "ht_inv (ms_handles w)" and "unat (next_id (ms_handles w)) \<le> 2 ^ 63"
    and "mmap_vmo (regions (ms_vmm w)) ARENA_SIZE 5 (ms_nvmo w) = (Some a, vs)"
  shows "\<exists>s. start_heap (sys_mem other) sys_mem_close name h0 w = Some s \<and> user_heap_ok s Map.empty (\<lambda>_. []) \<and> pages_left (provider s)"
proof -
  let ?n = "next_id (ms_handles w)"
  have n1: "unat (?n + 1) = unat ?n + 1" using assms(6) unat_add_lem [of ?n 1] by simp
  have n2: "unat (?n + 1 + 1) = unat ?n + 2" using assms(6) n1 unat_add_lem [of "?n + 1" 1] by simp
  have ne: "?n + 1 \<noteq> ?n" by (metis n1 Suc_eq_plus1 n_not_Suc_n)
  have fresh: "entries (ms_handles w) ?n = None" "entries (ms_handles w) (?n + 1) = None"
    using assms(5) n1 by (auto simp: ht_inv_def dom_def word_less_nat_alt)
  have rt: "flags_contains (READ OR WRITE OR CREATE) CREATE" "flags_contains (READ OR WRITE OR CREATE) WRITE"
    "flags_contains (READ OR WRITE OR MUTATE) MUTATE" by (simp_all add: flags_contains_def rights_defs)
  let ?p = "\<lparr>mem_pool_handle = ?n, arena_start = a, arena_offset = 0, arena_size = ARENA_SIZE\<rparr>"
  have ent: "(entries (ms_handles w))(?n \<mapsto> e, ?n + 1 \<mapsto> e2, ?n + 1 := None) = (entries (ms_handles w))(?n \<mapsto> e)" for e e2
    using fresh ne by (auto simp: fun_eq_iff)
  have "\<exists>w'. init_heap (sys_mem other) sys_mem_close name w = Some (?p, w') \<and> regions (ms_vmm w') = vs \<and>
      entries (ms_handles w') = (entries (ms_handles w))(?n \<mapsto> \<lparr>rights = READ OR WRITE OR CREATE, object = KPool [ms_npool w]\<rparr>) \<and>
      next_id (ms_handles w') = ?n + 1 + 1 \<and> limit (ms_pools w') (ms_npool w) = None"
    using assms(1,2,3,7) rt ne ent
    by (simp add: init_heap_def expect_def create_private_pool_def sys_mem_def mem_invoke_def resolve_entry_def add_handle_def
        add_vmo_def ht_insert_def Let_def map_pages_def sys_mem_close_def ht_close_def pool_new_def over_limit_def fun_upd_idem)
  then obtain w' where w': "init_heap (sys_mem other) sys_mem_close name w = Some (?p, w')" "regions (ms_vmm w') = vs"
      "entries (ms_handles w') = (entries (ms_handles w))(?n \<mapsto> \<lparr>rights = READ OR WRITE OR CREATE, object = KPool [ms_npool w]\<rparr>)"
      "next_id (ms_handles w') = ?n + 1 + 1" "limit (ms_pools w') (ms_npool w) = None" by blast
  have bits: "page_bits 5 = 12" by (simp add: page_bits_def VM_FLAG_HUGE_def)
  have az: "unat ARENA_SIZE = 65536" "round_up 4096 65536 = 65536" by (simp_all add: ARENA_SIZE_def round_up_def)
  have vo: "vmas_ok (regions (ms_vmm w))" using assms(4) by (simp add: regions_ok_def)
  obtain n where m: "vmas_ok vs" "4096 dvd unat a" "set vs = insert n (set (regions (ms_vmm w)))" "lo n = unat a" "hi n = unat a + 65536"
    using mmap_law [of "regions (ms_vmm w)" 5 ARENA_SIZE "Some (ms_nvmo w)" 0] vo below_top_12 [OF vo] assms(7)
    by (auto simp: mmap_vmo_def bits az USER_TOP_def)
  have pos: "0 < unat a" "map_total vs = map_total (regions (ms_vmm w)) + 65536"
    using mmap_nonzero [OF assms(4,7) page_rounds(2)] by (simp_all add: az USER_TOP_def)
  have "0 < unat (vlen n)" using m(4,5) by (simp add: lo_def hi_def)
  then have ro: "regions_ok vs" using m(1,3) assms(4) by (auto simp: regions_ok_def)
  have inv: "ht_inv (ms_handles w')"
    unfolding ht_inv_def
  proof
    fix i assume "i \<in> dom (entries (ms_handles w'))"
    then have "i = ?n \<or> i < ?n" using assms(5) by (auto simp: w'(3) ht_inv_def split: if_splits)
    then have "unat i < unat ?n + 2" by (auto simp: word_less_nat_alt)
    then show "i < next_id (ms_handles w')" by (simp only: w'(4) word_less_nat_alt n2)
  qed
  have "space_ok w'" using ro inv n2 pos(2) assms(6) by (simp add: space_ok_def w'(2,4))
  moreover have "pool_ready ?n w'" using rt w'(5) by (simp add: pool_ready_def w'(3))
  ultimately have "uheap_ok (?p, w')" using m pos(1) by (auto simp: uheap_ok_def w'(2) az)
  then have "user_heap_ok \<lparr>caches = slab_new, memory = h0, provider = (?p, w')\<rparr> Map.empty (\<lambda>_. [])"
    by (simp add: user_heap_ok_def slab_new_rel)
  then show ?thesis using w'(1) by (simp add: start_heap_def pages_left_def ARENA_SIZE_def)
qed

section \<open>When the pool is exhausted\<close>

text \<open>
  A resource manager that acknowledges every request without enlarging the pool makes the loop run
  for ever: the allocation never returns.
\<close>

lemma exhausted_pool_spins:
  assumes "\<And>s. Q s \<Longrightarrow> \<exists>s1 s2. call pool (MemPoolInv (AllocateVmo sz)) s = Some (Inl SysPoolExhausted, s1) \<and>
      ask_resources call st rq rp rm s1 = Some (0, s2) \<and> Q s2"
    and "Q s"
  shows "pages_from_kernel call close st rq rp (Some rm) pool sz s = None"
proof -
  have "call' = call \<and> st' = st \<and> rq' = rq \<and> rp' = rp \<and> rm' = Some rm \<and> pool' = pool \<and> sz' = sz \<longrightarrow> \<not> Q s'"
    if "pages_from_kernel call' close' st' rq' rp' rm' pool' sz' s' = Some y" for call' close' st' rq' rp' rm' pool' sz' s' y
    using that
  proof (induction rule: pages_from_kernel.raw_induct [rotated, consumes 1, case_names step])
    case (step f call' close' st' rq' rp' rm' pool' sz' s' y)
    show ?case
    proof (intro impI notI, elim conjE)
      assume "call' = call" "st' = st" "rq' = rq" "rp' = rp" "rm' = Some rm" "pool' = pool" "sz' = sz" "Q s'"
      then show False using step.hyps step.IH assms(1) [of s'] by fastforce
    qed
  qed
  then show ?thesis using assms(2) by (cases "pages_from_kernel call close st rq rp (Some rm) pool sz s") auto
qed

text \<open>The slab allocator does not check for a null page: it then hands out addresses of page zero.\<close>

lemma null_page_used:
  assumes "alloc_pages p SLAB_PAGE_SIZE = Some (0, p')" and "object_size c = 8" and "freelist_head c = None"
  shows "\<exists>c' h'. cache_allocate alloc_pages c h p = Some (0, c', h', p') \<and>
    (\<exists>c'' h''. cache_allocate alloc_pages c' h' p' = Some (8, c'', h'', p'))"
  using assms by (simp add: cache_allocate_def refill_def SLAB_PAGE_SIZE_def Let_def)

section \<open>Witness\<close>

definition small_process :: msys where
  "small_process = sample_msys\<lparr>
     ms_handles := \<lparr>entries = [5 \<mapsto> \<lparr>rights = flags_all, object = KPool [0]\<rparr>], next_id = 6\<rparr>,
     ms_pools := \<lparr>limit = (\<lambda>_. None), allocated = (\<lambda>_. 0)\<rparr>,
     ms_vmm := sample_vmm\<lparr>regions := [\<lparr>vstart = 0x40000000, vlen = 0x10000, vflags = 5, backing_vmo = Some 0, vmo_offset = 0\<rparr>]\<rparr>\<rparr>"

definition small_heap :: "(user_provider \<times> msys) slab" where
  "small_heap = \<lparr>caches = slab_new, memory = (\<lambda>_. 0),
     provider = (\<lparr>mem_pool_handle = 5, arena_start = 0x40000000, arena_offset = 0, arena_size = ARENA_SIZE\<rparr>, small_process)\<rparr>"


end
