(* ===== verification/Shootdown.thy ===== *)
theory Shootdown
  imports Steps
begin

text \<open>
  Invalidation of translations on all cores: \<^verbatim>\<open>kernel/src/arch/x86_64/interrupts/shootdown.rs\<close> and its
  interrupt handler in \<^verbatim>\<open>handle.rs\<close>. A step is one shared access of one core. A core has an
  interrupt flag, a request bit and an in-service bit of its local controller for vector 65; the controller
  delivers a request when interrupts are enabled and no interrupt of the same class is in
  service. The handler runs on top of whatever the core was doing. The set \<open>live\<close> holds the pages the
  page tables map: only those can enter a translation buffer.
\<close>

section \<open>Model\<close>

text \<open>Program points of \<open>shootdown\<close>; the flag is the interrupt state the lock guard restores.\<close>

datatype sd_pc =
    SdOut
  | SdLock u64 bool
  | SdAddr u64 bool
  | SdCount u64 bool
  | SdSend u64 bool nat
  | SdFlush u64 bool
  | SdWait u64 bool
  | SdDrop u64 bool

text \<open>Program points of the handler.\<close>

datatype sd_handler = HOut | HLoad | HFlush u64 | HDec

record shootdown_info =
  sd_addr :: u64
  sd_counter :: u64
  sd_owner :: "nat option"
  sd_pcs :: "sd_pc list"
  sd_hands :: "sd_handler list"
  sd_if :: "bool list"
  sd_irr :: "bool list"
  sd_isr :: "bool list"
  sd_tlb :: "u64 set list"

definition tlb_page :: "u64 \<Rightarrow> u64" where
  "tlb_page a = a AND NOT 0xFFF"

definition flush_tlb :: "u64 \<Rightarrow> nat \<Rightarrow> u64 set list \<Rightarrow> u64 set list" where
  "flush_tlb a i tlbs = tlbs[i := tlbs ! i - {tlb_page a}]"

abbreviation cores :: "shootdown_info \<Rightarrow> nat" where
  "cores s \<equiv> length (sd_pcs s)"

text \<open>Core \<open>i\<close> runs its own code, not the handler.\<close>

definition runs_at :: "shootdown_info \<Rightarrow> nat \<Rightarrow> sd_pc \<Rightarrow> bool" where
  "runs_at s i p \<longleftrightarrow> i < cores s \<and> sd_hands s ! i = HOut \<and> sd_pcs s ! i = p"

definition goto :: "nat \<Rightarrow> sd_pc \<Rightarrow> shootdown_info \<Rightarrow> shootdown_info" where
  "goto i p s = s\<lparr>sd_pcs := (sd_pcs s)[i := p]\<rparr>"

definition hand :: "nat \<Rightarrow> sd_handler \<Rightarrow> shootdown_info \<Rightarrow> shootdown_info" where
  "hand i h s = s\<lparr>sd_hands := (sd_hands s)[i := h]\<rparr>"

inductive sd_step :: "u64 set \<Rightarrow> shootdown_info \<Rightarrow> nat \<Rightarrow> shootdown_info \<Rightarrow> bool" for live where
  sd_call: "runs_at s i SdOut \<Longrightarrow>
    sd_step live s i (goto i (SdLock a (sd_if s ! i)) (s\<lparr>sd_if := (sd_if s)[i := False]\<rparr>))"
| sd_acquire: "runs_at s i (SdLock a f) \<Longrightarrow> sd_owner s = None \<Longrightarrow>
    sd_step live s i (goto i (SdAddr a f) (s\<lparr>sd_owner := Some i\<rparr>))"
| sd_store_addr: "runs_at s i (SdAddr a f) \<Longrightarrow>
    sd_step live s i (goto i (SdCount a f) (s\<lparr>sd_addr := a\<rparr>))"
| sd_store_count: "runs_at s i (SdCount a f) \<Longrightarrow>
    sd_step live s i (goto i (SdSend a f 0) (s\<lparr>sd_counter := of_nat (cores s) - 1\<rparr>))"
| sd_skip: "runs_at s i (SdSend a f i) \<Longrightarrow>
    sd_step live s i (goto i (SdSend a f (Suc i)) s)"
| sd_send: "runs_at s i (SdSend a f k) \<Longrightarrow> k < cores s \<Longrightarrow> k \<noteq> i \<Longrightarrow>
    sd_step live s i (goto i (SdSend a f (Suc k)) (s\<lparr>sd_irr := (sd_irr s)[k := True]\<rparr>))"
| sd_sent: "runs_at s i (SdSend a f k) \<Longrightarrow> k = cores s \<Longrightarrow>
    sd_step live s i (goto i (SdFlush a f) s)"
| sd_flush: "runs_at s i (SdFlush a f) \<Longrightarrow>
    sd_step live s i (goto i (SdWait a f) (s\<lparr>sd_tlb := flush_tlb a i (sd_tlb s)\<rparr>))"
| sd_wait: "runs_at s i (SdWait a f) \<Longrightarrow> sd_counter s = 0 \<Longrightarrow>
    sd_step live s i (goto i (SdDrop a f) s)"
| sd_drop: "runs_at s i (SdDrop a f) \<Longrightarrow>
    sd_step live s i (goto i SdOut (s\<lparr>sd_owner := None, sd_if := (sd_if s)[i := f]\<rparr>))"
| sd_deliver: "i < cores s \<Longrightarrow> sd_hands s ! i = HOut \<Longrightarrow> sd_irr s ! i \<Longrightarrow> sd_if s ! i \<Longrightarrow> \<not> sd_isr s ! i \<Longrightarrow>
    sd_step live s i (hand i HLoad (s\<lparr>sd_irr := (sd_irr s)[i := False], sd_isr := (sd_isr s)[i := True]\<rparr>))"
| sd_load: "i < cores s \<Longrightarrow> sd_hands s ! i = HLoad \<Longrightarrow>
    sd_step live s i (hand i (HFlush (sd_addr s)) s)"
| sd_flush_here: "i < cores s \<Longrightarrow> sd_hands s ! i = HFlush b \<Longrightarrow>
    sd_step live s i (hand i HDec (s\<lparr>sd_tlb := flush_tlb b i (sd_tlb s)\<rparr>))"
| sd_done: "i < cores s \<Longrightarrow> sd_hands s ! i = HDec \<Longrightarrow>
    sd_step live s i (hand i HOut (s\<lparr>sd_counter := sd_counter s - 1\<rparr>))"
| sd_fill: "i < cores s \<Longrightarrow> p \<in> live \<Longrightarrow>
    sd_step live s i (s\<lparr>sd_tlb := (sd_tlb s)[i := insert p (sd_tlb s ! i)]\<rparr>)"
| sd_cli_sti: "runs_at s i SdOut \<Longrightarrow>
    sd_step live s i (s\<lparr>sd_if := (sd_if s)[i := b]\<rparr>)"

definition sd_start :: "shootdown_info \<Rightarrow> bool" where
  "sd_start s \<longleftrightarrow> sd_owner s = None \<and> cores s < 2 ^ 64 \<and> length (sd_hands s) = cores s \<and> length (sd_if s) = cores s \<and>
     length (sd_irr s) = cores s \<and> length (sd_isr s) = cores s \<and> length (sd_tlb s) = cores s \<and>
     (\<forall>j < cores s. sd_pcs s ! j = SdOut \<and> sd_hands s ! j = HOut \<and> \<not> sd_irr s ! j)"

section \<open>Invariant\<close>

definition sd_inside :: "sd_pc \<Rightarrow> bool" where
  "sd_inside p \<longleftrightarrow> (case p of SdOut \<Rightarrow> False | SdLock _ _ \<Rightarrow> False | _ \<Rightarrow> True)"

definition quiet :: "shootdown_info \<Rightarrow> nat \<Rightarrow> bool" where
  "quiet s j \<longleftrightarrow> sd_hands s ! j = HOut \<and> \<not> sd_irr s ! j"

definition clean :: "u64 set \<Rightarrow> shootdown_info \<Rightarrow> u64 \<Rightarrow> nat \<Rightarrow> bool" where
  "clean live s a j \<longleftrightarrow> (tlb_page a \<in> sd_tlb s ! j \<longrightarrow> tlb_page a \<in> live)"

text \<open>The cores whose flush the caller still has to see.\<close>

definition owing :: "shootdown_info \<Rightarrow> nat \<Rightarrow> nat \<Rightarrow> nat set" where
  "owing s i k = {j. j < cores s \<and> j \<noteq> i \<and> (k \<le> j \<or> \<not> quiet s j)}"

definition core_ok :: "u64 set \<Rightarrow> shootdown_info \<Rightarrow> nat \<Rightarrow> u64 \<Rightarrow> nat \<Rightarrow> nat \<Rightarrow> bool" where
  "core_ok live s i a k j \<longleftrightarrow> (j = i \<or> k \<le> j \<longrightarrow> quiet s j) \<and>
     (case sd_hands s ! j of HOut \<Rightarrow> j \<noteq> i \<and> j < k \<and> \<not> sd_irr s ! j \<longrightarrow> clean live s a j
      | HLoad \<Rightarrow> \<not> sd_irr s ! j | HFlush b \<Rightarrow> \<not> sd_irr s ! j \<and> b = a | HDec \<Rightarrow> \<not> sd_irr s ! j \<and> clean live s a j)"

definition progress :: "u64 set \<Rightarrow> shootdown_info \<Rightarrow> nat \<Rightarrow> u64 \<Rightarrow> nat \<Rightarrow> bool" where
  "progress live s i a k \<longleftrightarrow> k \<le> cores s \<and> sd_addr s = a \<and> sd_counter s = of_nat (card (owing s i k)) \<and>
     (\<forall>j < cores s. core_ok live s i a k j)"

definition sd_round :: "u64 set \<Rightarrow> shootdown_info \<Rightarrow> nat \<Rightarrow> bool" where
  "sd_round live s i \<longleftrightarrow>
    (case sd_pcs s ! i of
       SdAddr a f \<Rightarrow> \<forall>j < cores s. quiet s j
     | SdCount a f \<Rightarrow> (\<forall>j < cores s. quiet s j) \<and> sd_addr s = a
     | SdSend a f k \<Rightarrow> progress live s i a k
     | SdFlush a f \<Rightarrow> progress live s i a (cores s)
     | SdWait a f \<Rightarrow> progress live s i a (cores s) \<and> clean live s a i
     | SdDrop a f \<Rightarrow> \<forall>j < cores s. quiet s j \<and> clean live s a j
     | _ \<Rightarrow> False)"

definition sd_good :: "u64 set \<Rightarrow> shootdown_info \<Rightarrow> bool" where
  "sd_good live s \<longleftrightarrow> cores s < 2 ^ 64 \<and> length (sd_hands s) = cores s \<and> length (sd_if s) = cores s \<and>
     length (sd_irr s) = cores s \<and> length (sd_isr s) = cores s \<and> length (sd_tlb s) = cores s \<and>
     owned sd_inside (sd_owner s) (sd_pcs s) \<and>
     (case sd_owner s of None \<Rightarrow> \<forall>j < cores s. quiet s j | Some i \<Rightarrow> sd_round live s i)"


lemmas sd_defs = quiet_def clean_def goto_def hand_def runs_at_def flush_tlb_def

lemma finite_owing [simp]: "finite (owing s i k)"
  by (simp add: owing_def)

lemma card_owing_less: "cores s < 2 ^ 64 \<Longrightarrow> card (owing s i k) < 2 ^ 64"
  using card_mono [of "{..<cores s}" "owing s i k"] by (force simp: owing_def)

lemma owing_first: "i < cores s \<Longrightarrow> owing s i 0 = {..<cores s} - {i}"
  by (auto simp: owing_def)

lemma owing_empty:
  assumes "sd_counter s = 0" and "progress live s i a k" and "cores s < 2 ^ 64"
  shows "owing s i k = {}"
proof -
  have "(of_nat (card (owing s i k)) :: u64) = 0" using assms by (simp add: progress_def)
  then have "unat (of_nat (card (owing s i k)) :: u64) = 0" by simp
  then show ?thesis using card_owing_less [OF assms(3), of i k] by (simp add: unsigned_of_nat take_bit_nat_eq_self)
qed

text \<open>A step that touches one core only keeps the account when it does so for that core.\<close>

definition same_core :: "shootdown_info \<Rightarrow> shootdown_info \<Rightarrow> nat \<Rightarrow> bool" where
  "same_core s s' x \<longleftrightarrow> sd_hands s' ! x = sd_hands s ! x \<and> sd_irr s' ! x = sd_irr s ! x \<and> sd_tlb s' ! x = sd_tlb s ! x"

lemma same_core_facts:
  assumes "same_core s s' x"
  shows "quiet s' x = quiet s x" "clean live s' a x = clean live s a x" "core_ok live s' i a k x = core_ok live s i a k x"
  using assms by (auto simp: same_core_def quiet_def clean_def core_ok_def split: sd_handler.split)

lemma progress_one:
  assumes "progress live s i a k" and "cores s' = cores s" and "sd_addr s' = sd_addr s" and "sd_counter s' = sd_counter s"
    and "\<forall>x < cores s. x \<noteq> j \<longrightarrow> same_core s s' x" and "j < cores s \<Longrightarrow> quiet s' j = quiet s j \<and> core_ok live s' i a k j"
  shows "progress live s' i a k"
proof -
  have q: "quiet s' x = quiet s x" if "x < cores s" for x
    using that assms(5,6) same_core_facts(1) by (cases "x = j") auto
  have "core_ok live s' i a k x" if "x < cores s" for x
    using that assms(1,5,6) same_core_facts(3) [of s s' x live i a k] by (cases "x = j") (auto simp: progress_def)
  moreover have "owing s' i k = owing s i k" using q assms(2) by (auto simp: owing_def)
  ultimately show ?thesis using assms(1-4) by (simp add: progress_def)
qed

lemma progress_at: "progress live s i a k \<Longrightarrow> j < cores s \<Longrightarrow> core_ok live s i a k j"
  by (simp add: progress_def)

text \<open>Sending to the next core, or passing over the caller, moves the account on.\<close>

lemma progress_send:
  assumes "progress live s i a k" and "k < cores s" and "k \<noteq> i" and "length (sd_irr s) = cores s"
  shows "progress live (goto i p (s\<lparr>sd_irr := (sd_irr s)[k := True]\<rparr>)) i a (Suc k)"
proof -
  let ?s = "goto i p (s\<lparr>sd_irr := (sd_irr s)[k := True]\<rparr>)"
  have q: "quiet ?s j = (j \<noteq> k \<and> quiet s j)" if "j < cores s" for j
    using that assms(2,4) by (auto simp: sd_defs nth_list_update)
  have "owing ?s i (Suc k) = owing s i k"
    using assms q by (auto simp: owing_def goto_def Suc_le_eq le_less)
  moreover have "core_ok live ?s i a (Suc k) j" if "j < cores s" for j
    using that progress_at [OF assms(1) that] assms(2-4)
    by (cases "j = k") (auto simp: core_ok_def sd_defs nth_list_update less_Suc_eq split: sd_handler.splits)
  ultimately show ?thesis using assms by (simp add: progress_def goto_def)
qed

lemma progress_skip:
  assumes "progress live s i a i" and "i < cores s"
  shows "progress live (goto i p s) i a (Suc i)"
proof -
  have "owing (goto i p s) i (Suc i) = owing s i i"
    using assms by (auto simp: owing_def sd_defs)
  moreover have "core_ok live (goto i p s) i a (Suc i) j" if "j < cores s" for j
    using progress_at [OF assms(1) that] by (cases "j = i") (auto simp: core_ok_def sd_defs less_Suc_eq split: sd_handler.splits)
  ultimately show ?thesis using assms by (simp add: progress_def goto_def)
qed

lemma progress_fields:
  "progress live (goto j p s) i a k = progress live s i a k"
  "progress live (s\<lparr>sd_owner := ow\<rparr>) i a k = progress live s i a k"
  "progress live (s\<lparr>sd_if := fs\<rparr>) i a k = progress live s i a k"
proof -
  have *: "progress live s1 i a k \<Longrightarrow> cores s2 = cores s1 \<Longrightarrow> sd_addr s2 = sd_addr s1 \<Longrightarrow> sd_counter s2 = sd_counter s1 \<Longrightarrow>
      \<forall>x. same_core s1 s2 x \<Longrightarrow> progress live s2 i a k" for s1 s2
    by (erule progress_one [where j = "cores s1"]) auto
  show "progress live (goto j p s) i a k = progress live s i a k"
    "progress live (s\<lparr>sd_owner := ow\<rparr>) i a k = progress live s i a k"
    "progress live (s\<lparr>sd_if := fs\<rparr>) i a k = progress live s i a k"
    by (rule iffI; erule *; simp add: goto_def same_core_def)+
qed

lemma progress_deliver:
  assumes "progress live s i a k" and "j < cores s" and "sd_hands s ! j = HOut" and "sd_irr s ! j"
    and "length (sd_irr s) = cores s" and "length (sd_hands s) = cores s"
  shows "progress live (hand j HLoad (s\<lparr>sd_irr := (sd_irr s)[j := False], sd_isr := v\<rparr>)) i a k"
  by (rule progress_one [OF assms(1), where j = j])
    (use assms progress_at [OF assms(1,2)] in \<open>auto simp: same_core_def core_ok_def sd_defs\<close>)

lemma progress_load:
  assumes "progress live s i a k" and "j < cores s" and "sd_hands s ! j = HLoad" and "length (sd_hands s) = cores s"
  shows "progress live (hand j (HFlush (sd_addr s)) s) i a k"
  by (rule progress_one [OF assms(1), where j = j])
    (use assms progress_at [OF assms(1,2)] in \<open>auto simp: same_core_def core_ok_def sd_defs progress_def\<close>)

lemma progress_flush:
  assumes "progress live s i a k" and "j < cores s" and "sd_hands s ! j = HFlush b"
    and "length (sd_hands s) = cores s" and "length (sd_tlb s) = cores s"
  shows "progress live (hand j HDec (s\<lparr>sd_tlb := flush_tlb b j (sd_tlb s)\<rparr>)) i a k"
  by (rule progress_one [OF assms(1), where j = j])
    (use assms progress_at [OF assms(1,2)] in \<open>auto simp: same_core_def core_ok_def sd_defs\<close>)

lemma progress_self:
  assumes "progress live s i a k" and "i < cores s" and "length (sd_tlb s) = cores s"
  shows "progress live (s\<lparr>sd_tlb := flush_tlb b i (sd_tlb s)\<rparr>) i a k"
  by (rule progress_one [OF assms(1), where j = i])
    (use assms progress_at [OF assms(1,2)] in \<open>auto simp: same_core_def core_ok_def sd_defs\<close>)

lemma clean_fill:
  "p \<in> live \<Longrightarrow> clean live s a x \<Longrightarrow> clean live (s\<lparr>sd_tlb := (sd_tlb s)[j := insert p (sd_tlb s ! j)]\<rparr>) a x"
  by (cases "j < length (sd_tlb s)") (auto simp: clean_def nth_list_update list_update_beyond split: if_splits)

lemma progress_fill:
  assumes "progress live s i a k" and "p \<in> live"
  shows "progress live (s\<lparr>sd_tlb := (sd_tlb s)[j := insert p (sd_tlb s ! j)]\<rparr>) i a k"
proof (rule progress_one [OF assms(1), where j = j])
  assume j: "j < cores s"
  show "quiet (s\<lparr>sd_tlb := (sd_tlb s)[j := insert p (sd_tlb s ! j)]\<rparr>) j = quiet s j \<and>
      core_ok live (s\<lparr>sd_tlb := (sd_tlb s)[j := insert p (sd_tlb s ! j)]\<rparr>) i a k j"
    using progress_at [OF assms(1) j] clean_fill [OF assms(2), of s a j j]
    by (auto simp: core_ok_def quiet_def split: sd_handler.splits)
qed (auto simp: same_core_def)

lemma progress_done:
  assumes "progress live s i a k" and "j < cores s" and "sd_hands s ! j = HDec" and "length (sd_hands s) = cores s"
  shows "progress live (hand j HOut (s\<lparr>sd_counter := sd_counter s - 1\<rparr>)) i a k"
proof -
  let ?s = "hand j HOut (s\<lparr>sd_counter := sd_counter s - 1\<rparr>)"
  have j: "\<not> quiet s j" "\<not> sd_irr s ! j" "j \<noteq> i" "j < k" "clean live s a j"
    using progress_at [OF assms(1,2)] assms(3) by (auto simp: core_ok_def quiet_def not_le [symmetric])
  have same: "same_core s ?s x" if "x \<noteq> j" for x using that by (simp add: same_core_def hand_def)
  have qj: "quiet ?s j" "core_ok live ?s i a k j" using j assms by (auto simp: sd_defs core_ok_def)
  have q: "quiet ?s x = (x = j \<or> quiet s x)" for x using same_core_facts(1) [OF same] qj by (cases "x = j") auto
  have o: "owing ?s i k = owing s i k - {j}" "j \<in> owing s i k"
    using q j assms(2) by (auto simp: owing_def hand_def)
  define m where "m = card (owing ?s i k)"
  have "card (owing s i k) = Suc m" using card_Suc_Diff1 [OF finite_owing o(2)] o(1) by (simp add: m_def)
  then have "sd_counter ?s = of_nat m" using assms(1) by (simp add: progress_def hand_def)
  then have "sd_counter ?s = of_nat (card (owing ?s i k))" by (simp only: m_def)
  moreover have "core_ok live ?s i a k x" if "x < cores s" for x
    using same_core_facts(3) [OF same] qj(2) progress_at [OF assms(1) that] by (cases "x = j") auto
  ultimately show ?thesis using assms(1) by (simp add: progress_def hand_def)
qed


text \<open>Every other step, by phase of the caller.\<close>

definition phase :: "shootdown_info \<Rightarrow> sd_pc \<Rightarrow> (u64 \<times> nat) option" where
  "phase s p = (case p of SdSend a f k \<Rightarrow> Some (a, k) | SdFlush a f \<Rightarrow> Some (a, cores s) | SdWait a f \<Rightarrow> Some (a, cores s) | _ \<Rightarrow> None)"

lemma sd_round_phase: "sd_round live s i \<Longrightarrow> phase s (sd_pcs s ! i) = Some (a, k) \<Longrightarrow> progress live s i a k"
  by (auto simp: sd_round_def phase_def split: sd_pc.splits)

lemma sd_round_busy:
  assumes "sd_round live s i" and "j < cores s" and "\<not> quiet s j"
  obtains a k where "phase s (sd_pcs s ! i) = Some (a, k)" "progress live s i a k" "j \<noteq> i"
  using assms by (auto simp: sd_round_def phase_def progress_def core_ok_def split: sd_pc.splits)

lemma sd_good_None: "sd_good live s \<Longrightarrow> sd_owner s = None \<Longrightarrow> j < cores s \<Longrightarrow> quiet s j"
  by (simp add: sd_good_def)

lemma sd_good_Some: "sd_good live s \<Longrightarrow> sd_owner s = Some i \<Longrightarrow> sd_round live s i \<and> i < cores s \<and> sd_inside (sd_pcs s ! i)"
  by (auto simp: sd_good_def owned_def set_eq_iff at_pc_def)

lemma sd_good_inside: "sd_good live s \<Longrightarrow> i < cores s \<Longrightarrow> sd_inside (sd_pcs s ! i) \<Longrightarrow> sd_owner s = Some i"
  by (auto simp: sd_good_def intro: owned_is)

text \<open>A step of the handler, a fill or a change of an interrupt flag: no program point of the protocol moves.\<close>

lemma sd_good_other:
  assumes "sd_good live s" and "sd_pcs s' = sd_pcs s" and "sd_owner s' = sd_owner s" and "sd_addr s' = sd_addr s"
    and "length (sd_hands s') = cores s" "length (sd_if s') = cores s" "length (sd_irr s') = cores s" "length (sd_isr s') = cores s" "length (sd_tlb s') = cores s"
    and "\<And>i a k. sd_owner s = Some i \<Longrightarrow> phase s (sd_pcs s ! i) = Some (a, k) \<Longrightarrow> progress live s i a k \<Longrightarrow> progress live s' i a k"
    and "\<And>j. \<forall>j < cores s. quiet s j \<Longrightarrow> j < cores s \<Longrightarrow> quiet s' j"
    and "\<And>a j. j < cores s \<Longrightarrow> clean live s a j \<Longrightarrow> clean live s' a j"
  shows "sd_good live s'"
proof (cases "sd_owner s")
  case None
  then show ?thesis using assms by (simp add: sd_good_def)
next
  case (Some i)
  note r = sd_good_Some [OF assms(1) Some]
  have "sd_round live s' i"
  proof (cases "phase s (sd_pcs s ! i)")
    case None
    then have "\<forall>j < cores s. quiet s j" using r by (auto simp: sd_round_def phase_def split: sd_pc.splits)
    then show ?thesis using r None assms(2,4,11,12) by (auto simp: sd_round_def phase_def split: sd_pc.splits)
  next
    case (Some x)
    then show ?thesis using r sd_round_phase [of live s i] assms(10) [OF \<open>sd_owner s = Some i\<close>] assms(2,12)
      by (auto simp: sd_round_def phase_def split: sd_pc.splits)
  qed
  then show ?thesis using assms Some by (simp add: sd_good_def)
qed


text \<open>A step of the caller.\<close>

lemma sd_good_caller:
  assumes "sd_good live s" and "sd_owner s = Some i" and "s' = goto i p s1" and "sd_inside p"
    and "sd_pcs s1 = sd_pcs s" "sd_owner s1 = sd_owner s" "length (sd_hands s1) = cores s" "length (sd_if s1) = cores s"
    "length (sd_irr s1) = cores s" "length (sd_isr s1) = cores s" "length (sd_tlb s1) = cores s"
    and "sd_round live s' i"
  shows "sd_good live s'"
proof -
  have "i < cores s" "sd_inside (sd_pcs s ! i)" using sd_good_Some [OF assms(1,2)] by auto
  then have "owned sd_inside (Some i) ((sd_pcs s)[i := p])"
    using assms(1,2,4) by (intro owned_upd) (auto simp: sd_good_def)
  then show ?thesis using assms by (simp add: sd_good_def goto_def)
qed

lemma sd_good_enter:
  assumes "sd_good live s" and "i < cores s" and "\<not> sd_inside (sd_pcs s ! i)" and "\<not> sd_inside p" and "length fs = cores s"
  shows "sd_good live (goto i p (s\<lparr>sd_if := fs\<rparr>))"
proof -
  let ?s = "goto i p (s\<lparr>sd_if := fs\<rparr>)"
  have o: "owned sd_inside (sd_owner s) ((sd_pcs s)[i := p])" using assms by (intro owned_upd) (auto simp: sd_good_def)
  have q: "quiet ?s j = quiet s j" "clean live ?s a j = clean live s a j" for j a by (simp_all add: sd_defs)
  have "sd_round live ?s w" if "sd_owner s = Some w" for w
  proof -
    note r = sd_good_Some [OF assms(1) that]
    then have ne: "w \<noteq> i" using assms(3) by auto
    then have "sd_pcs ?s ! w = sd_pcs s ! w" "cores ?s = cores s" "sd_addr ?s = sd_addr s" by (simp_all add: goto_def)
    then show ?thesis using r q by (auto simp: sd_round_def progress_fields split: sd_pc.splits)
  qed
  then show ?thesis using assms(1,5) o q by (auto simp: sd_good_def goto_def split: option.splits)
qed

lemma sd_count_ok:
  assumes "\<forall>j < cores s. quiet s j" and "sd_addr s = a" and "i < cores s" and "c = of_nat (cores s) - 1"
  shows "progress live (s\<lparr>sd_counter := c\<rparr>) i a 0"
proof -
  let ?s = "s\<lparr>sd_counter := c\<rparr>"
  have "card (owing ?s i 0) = cores s - 1" using owing_first [of i ?s] assms(3) by simp
  then have "c = of_nat (card (owing ?s i 0))"
    using assms(3,4) of_nat_diff [of 1 "cores s", where 'a = u64] by (simp only: of_nat_1)
  moreover have "core_ok live ?s i a 0 j" if "j < cores s" for j using assms(1) that by (simp add: core_ok_def quiet_def)
  ultimately show ?thesis using assms(2) by (simp add: progress_def)
qed

lemma sd_step_good:
  assumes "sd_good live s" and "sd_step live s i s'"
  shows "sd_good live s'"
proof -
  note g = assms(1)
  have len: "length (sd_hands s) = cores s" "length (sd_if s) = cores s" "length (sd_irr s) = cores s"
      "length (sd_isr s) = cores s" "length (sd_tlb s) = cores s" "cores s < 2 ^ 64"
    using g by (auto simp: sd_good_def)
  have own: "sd_owner s = Some i \<and> sd_round live s i \<and> i < cores s" if "runs_at s i p" "sd_inside p" for p
    using that sd_good_inside [OF g, of i] sd_good_Some [OF g, of i] by (auto simp: runs_at_def)
  show ?thesis using assms(2)
  proof (cases rule: sd_step.cases)
    case (sd_call a)
    then show ?thesis using sd_good_enter [OF g, of i] len by (simp add: runs_at_def sd_inside_def)
  next
    case (sd_acquire a f)
    then have "i < cores s" "\<forall>j < cores s. quiet s j" using sd_good_None [OF g] by (auto simp: runs_at_def)
    moreover have "owned sd_inside (Some i) ((sd_pcs s)[i := SdAddr a f])"
      using g sd_acquire by (intro owned_take) (auto simp: sd_good_def runs_at_def sd_inside_def)
    ultimately show ?thesis using sd_acquire len by (simp add: sd_good_def goto_def sd_round_def quiet_def)
  next
    case (sd_store_addr a f)
    note o = own [OF sd_store_addr(2)]
    show ?thesis using o sd_store_addr len
      by (intro sd_good_caller [OF g, of i s' "SdCount a f" "s\<lparr>sd_addr := a\<rparr>"])
        (auto simp: sd_inside_def sd_round_def runs_at_def goto_def quiet_def)
  next
    case (sd_store_count a f)
    note o = own [OF sd_store_count(2)]
    have "progress live (s\<lparr>sd_counter := of_nat (cores s) - 1\<rparr>) i a 0"
      using o sd_store_count by (intro sd_count_ok) (auto simp: sd_inside_def sd_round_def runs_at_def)
    then have "progress live s' i a 0" by (simp add: sd_store_count(1) progress_fields)
    then have "sd_round live s' i" using o sd_store_count by (simp add: sd_round_def sd_inside_def goto_def)
    then show ?thesis using o sd_store_count len
      by (intro sd_good_caller [OF g, of i s' "SdSend a f 0" "s\<lparr>sd_counter := of_nat (cores s) - 1\<rparr>"]) (auto simp: sd_inside_def)
  next
    case (sd_skip a f)
    note o = own [OF sd_skip(2)]
    have "progress live s' i a (Suc i)" using o sd_skip progress_skip [of live s i a]
      by (auto simp: sd_inside_def sd_round_def runs_at_def)
    then have "sd_round live s' i" using o sd_skip by (auto simp: sd_round_def sd_inside_def goto_def)
    then show ?thesis using o sd_skip len
      by (intro sd_good_caller [OF g, of i s' "SdSend a f (Suc i)" s]) (auto simp: sd_inside_def)
  next
    case (sd_send a f k)
    note o = own [OF sd_send(2)]
    have "progress live s' i a (Suc k)" using o sd_send progress_send [of live s i a k] len
      by (auto simp: sd_inside_def sd_round_def runs_at_def)
    then have "sd_round live s' i" using o sd_send by (auto simp: sd_round_def sd_inside_def goto_def)
    then show ?thesis using o sd_send len
      by (intro sd_good_caller [OF g, of i s' "SdSend a f (Suc k)" "s\<lparr>sd_irr := (sd_irr s)[k := True]\<rparr>"]) (auto simp: sd_inside_def)
  next
    case (sd_sent a f k)
    note o = own [OF sd_sent(2)]
    have "progress live s' i a (cores s)" using o sd_sent by (auto simp: sd_inside_def sd_round_def runs_at_def progress_fields)
    then have "sd_round live s' i" using o sd_sent by (auto simp: sd_round_def sd_inside_def goto_def)
    then show ?thesis using o sd_sent len by (intro sd_good_caller [OF g, of i s' "SdFlush a f" s]) (auto simp: sd_inside_def)
  next
    case (sd_flush a f)
    note o = own [OF sd_flush(2)]
    have "progress live s' i a (cores s)" using o sd_flush len progress_self [of live s i a "cores s" a]
      by (auto simp: sd_inside_def sd_round_def runs_at_def progress_fields)
    then have "sd_round live s' i" using o sd_flush len
      by (auto simp: sd_round_def sd_inside_def goto_def clean_def flush_tlb_def)
    then show ?thesis using o sd_flush len
      by (intro sd_good_caller [OF g, of i s' "SdWait a f" "s\<lparr>sd_tlb := flush_tlb a i (sd_tlb s)\<rparr>"]) (auto simp: sd_inside_def flush_tlb_def)
  next
    case (sd_wait a f)
    note o = own [OF sd_wait(2)]
    have p: "progress live s i a (cores s)" "clean live s a i" using o sd_wait by (auto simp: sd_inside_def sd_round_def runs_at_def)
    have "quiet s j \<and> clean live s a j" if "j < cores s" for j
      using owing_empty [OF sd_wait(3) p(1) len(6)] progress_at [OF p(1) that] p(2) that
      by (cases "j = i") (auto simp: owing_def core_ok_def quiet_def)
    then have "sd_round live s' i" using o sd_wait by (auto simp: sd_round_def sd_inside_def sd_defs)
    then show ?thesis using o sd_wait len by (intro sd_good_caller [OF g, of i s' "SdDrop a f" s]) (auto simp: sd_inside_def)
  next
    case (sd_drop a f)
    note o = own [OF sd_drop(2)]
    have "owned sd_inside None ((sd_pcs s)[i := SdOut])"
      using g o sd_drop by (intro owned_drop [of _ "Some i"]) (auto simp: sd_good_def runs_at_def sd_inside_def)
    then show ?thesis using o sd_drop len by (auto simp: sd_good_def sd_defs sd_round_def sd_inside_def)
  next
    case sd_deliver
    show ?thesis unfolding sd_deliver(1)
      by (rule sd_good_other [OF g]) (use sd_deliver len progress_deliver [of live s _ _ _ i] in \<open>auto simp: hand_def clean_def quiet_def\<close>)
  next
    case sd_load
    show ?thesis unfolding sd_load(1)
      by (rule sd_good_other [OF g]) (use sd_load len in \<open>auto simp: hand_def clean_def quiet_def
        intro: progress_load [unfolded hand_def]\<close>)
  next
    case (sd_flush_here b)
    show ?thesis unfolding sd_flush_here(1)
      by (rule sd_good_other [OF g]) (use sd_flush_here len progress_flush [of live s _ _ _ i b] in \<open>auto simp: hand_def clean_def quiet_def flush_tlb_def nth_list_update split: if_splits\<close>)
  next
    case sd_done
    show ?thesis unfolding sd_done(1)
      by (rule sd_good_other [OF g]) (use sd_done len progress_done [of live s _ _ _ i] in \<open>auto simp: hand_def clean_def quiet_def\<close>)
  next
    case (sd_fill p)
    show ?thesis unfolding sd_fill(1)
      by (rule sd_good_other [OF g]) (use sd_fill len in \<open>auto simp: quiet_def intro: progress_fill clean_fill\<close>)
  next
    case (sd_cli_sti b)
    show ?thesis unfolding sd_cli_sti(1)
      by (rule sd_good_other [OF g]) (use len in \<open>auto simp: quiet_def clean_def progress_fields\<close>)
  qed
qed

interpretation shootdown: threads_system "sd_step live" sd_start "sd_good live" for live
proof unfold_locales
  fix s assume "sd_start s"
  then show "sd_good live s"
    by (auto simp: sd_start_def sd_good_def owned_def at_pc_def sd_inside_def quiet_def split: option.splits)
qed (rule sd_step_good)


section \<open>What the caller may rely on\<close>

text \<open>
  C22. When \<open>shootdown\<close> is about to return, no core holds a translation of the page of its address any more,
  provided that the page tables do not map it: in every interleaving of the calls, the interrupt handlers,
  the changes of the interrupt flags and the fills of the translation buffers.
\<close>
theorem shootdown_complete:
  assumes "sd_start s0" and "runs (sd_step live) s0 s" and "i < cores s" and "sd_pcs s ! i = SdDrop a f"
    and "tlb_page a \<notin> live" and "j < cores s"
  shows "tlb_page a \<notin> sd_tlb s ! j"
proof -
  have g: "sd_good live s" by (rule shootdown.reachable_good [OF assms(2,1)])
  then have "sd_owner s = Some i" using sd_good_inside [OF g assms(3)] assms(4) by (simp add: sd_inside_def)
  then have "sd_round live s i" using sd_good_Some [OF g] by simp
  then show ?thesis using assms(4-6) by (simp add: sd_round_def clean_def)
qed

section \<open>Where it does not return\<close>

text \<open>
  A core is deaf to the request when the controller still counts an earlier one as in service (the handler never
  signals its end), or when it waits for the lock of the protocol, which it does with interrupts disabled.
\<close>

definition deaf :: "shootdown_info \<Rightarrow> nat \<Rightarrow> bool" where
  "deaf s j \<longleftrightarrow> sd_isr s ! j \<or> (\<exists>b g. sd_pcs s ! j = SdLock b g) \<and> \<not> sd_if s ! j"

definition hung :: "u64 set \<Rightarrow> shootdown_info \<Rightarrow> nat \<Rightarrow> nat \<Rightarrow> bool" where
  "hung live s i j \<longleftrightarrow> sd_good live s \<and> sd_owner s = Some i \<and> j < cores s \<and> j \<noteq> i \<and> deaf s j \<and> sd_hands s ! j = HOut \<and>
    (case sd_pcs s ! i of SdAddr a f \<Rightarrow> True | SdCount a f \<Rightarrow> True | SdSend a f k \<Rightarrow> k \<le> j \<or> sd_irr s ! j
     | SdFlush a f \<Rightarrow> sd_irr s ! j | SdWait a f \<Rightarrow> sd_irr s ! j | _ \<Rightarrow> False)"

lemma hung_no_wait:
  assumes "hung live s i j" and "sd_pcs s ! i = SdWait a f"
  shows "sd_counter s \<noteq> 0"
proof
  assume z: "sd_counter s = 0"
  have g: "sd_good live s" "sd_owner s = Some i" using assms(1) by (simp_all add: hung_def)
  have "progress live s i a (cores s)" using sd_good_Some [OF g] assms(2) by (simp add: sd_round_def)
  then have "owing s i (cores s) = {}" using z g(1) by (intro owing_empty) (auto simp: sd_good_def)
  moreover have "j \<in> owing s i (cores s)" using assms by (simp add: hung_def owing_def quiet_def)
  ultimately show False by simp
qed

lemma hung_step:
  assumes "hung live s i j" and "sd_step live s c s'"
  shows "hung live s' i j"
proof -
  have g': "sd_good live s'" using assms by (auto simp: hung_def intro: sd_step_good)
  have g: "sd_good live s" "sd_owner s = Some i" "j < cores s" "j \<noteq> i" "deaf s j" "sd_hands s ! j = HOut"
    using assms(1) by (simp_all add: hung_def)
  have len: "length (sd_hands s) = cores s" "length (sd_if s) = cores s" "length (sd_irr s) = cores s" "length (sd_isr s) = cores s"
    using g(1) by (auto simp: sd_good_def)
  have ins: "c = i" if "runs_at s c p" "sd_inside p" for p
    using that sd_good_inside [OF g(1), of c] g(2) by (auto simp: runs_at_def)
  have i: "i < cores s" "sd_inside (sd_pcs s ! i)" using sd_good_Some [OF g(1,2)] by auto
  note h = assms(1) [unfolded hung_def]
  show ?thesis using assms(2)
  proof (cases rule: sd_step.cases)
    case (sd_wait a f)
    then have "c = i" "sd_pcs s ! i = SdWait a f" using ins by (auto simp: sd_inside_def runs_at_def)
    then show ?thesis using hung_no_wait [OF assms(1)] sd_wait(3) by simp
  next
    case (sd_send a f k)
    then have "c = i" using ins by (auto simp: sd_inside_def)
    then show ?thesis using sd_send h g' len i by (auto simp: hung_def deaf_def sd_defs nth_list_update)
  next
    case (sd_flush a f)
    then have "c = i" using ins by (auto simp: sd_inside_def)
    then show ?thesis using sd_flush h g' len i by (auto simp: hung_def deaf_def sd_defs nth_list_update)
  next
    case (sd_drop a f)
    then have "c = i" using ins by (auto simp: sd_inside_def)
    then show ?thesis using sd_drop h by (auto simp: runs_at_def)
  next
    case sd_deliver
    then have "c \<noteq> j" using g(5,2) by (auto simp: deaf_def)
    then show ?thesis using sd_deliver h g' len i by (auto simp: hung_def deaf_def sd_defs nth_list_update split: sd_pc.splits)
  qed (use h g' len i ins in \<open>auto simp: hung_def deaf_def sd_defs nth_list_update sd_inside_def split: sd_pc.splits if_splits\<close>)
qed

text \<open>From there on the caller keeps the lock for ever.\<close>

lemma hung_forever:
  assumes "runs (sd_step live) s s'" and "hung live s i j"
  shows "sd_owner s' = Some i"
proof -
  have "hung live s' i j" using assms by (induction rule: runs.induct) (blast intro: hung_step)+
  then show ?thesis by (simp add: hung_def)
qed

text \<open>A second call, while a core that took part in an earlier one has not signalled the end of the interrupt, never returns.\<close>

lemma second_shootdown_hangs:
  assumes "sd_start s0" and "runs (sd_step live) s0 s" and "i < cores s" and "sd_pcs s ! i = SdAddr a f"
    and "j < cores s" and "j \<noteq> i" and "sd_isr s ! j" and "runs (sd_step live) s s'"
  shows "sd_owner s' = Some i"
proof -
  have g: "sd_good live s" by (rule shootdown.reachable_good [OF assms(2,1)])
  then have o: "sd_owner s = Some i" using sd_good_inside [OF g assms(3)] assms(4) by (simp add: sd_inside_def)
  then have "quiet s j" using sd_good_Some [OF g o] assms(4,5) by (simp add: sd_round_def)
  then have "hung live s i j" using g o assms by (simp add: hung_def deaf_def quiet_def)
  then show ?thesis by (rule hung_forever [OF assms(8)])
qed

text \<open>Two calls at the same time: the core that waits for the lock never takes the interrupt the other one waits for.\<close>

lemma concurrent_shootdowns_hang:
  assumes "sd_start s0" and "runs (sd_step live) s0 s" and "i < cores s" and "sd_pcs s ! i = SdAddr a f"
    and "j < cores s" and "sd_pcs s ! j = SdLock b g" and "\<not> sd_if s ! j" and "runs (sd_step live) s s'"
  shows "sd_owner s' = Some i"
proof -
  have good: "sd_good live s" by (rule shootdown.reachable_good [OF assms(2,1)])
  then have o: "sd_owner s = Some i" using sd_good_inside [OF good assms(3)] assms(4) by (simp add: sd_inside_def)
  then have "quiet s j" using sd_good_Some [OF good o] assms(4,5) by (simp add: sd_round_def)
  then have "hung live s i j" using good o assms by (auto simp: hung_def deaf_def quiet_def)
  then show ?thesis by (rule hung_forever [OF assms(8)])
qed

section \<open>Witness\<close>

definition two_cores :: "u64 \<Rightarrow> u64 \<Rightarrow> nat option \<Rightarrow> sd_pc \<Rightarrow> sd_handler \<Rightarrow> bool list \<Rightarrow> bool \<Rightarrow> bool \<Rightarrow> u64 set list \<Rightarrow> shootdown_info" where
  "two_cores a c w p h fs rq sv tlbs =
    \<lparr>sd_addr = a, sd_counter = c, sd_owner = w, sd_pcs = [p, SdOut], sd_hands = [HOut, h], sd_if = fs,
     sd_irr = [False, rq], sd_isr = [False, sv], sd_tlb = tlbs\<rparr>"

lemma two_cores_run:
  "runs (sd_step {}) (two_cores 0 0 None SdOut HOut [True, True] False False [{0x1000}, {0x1000, 0x2000}])
     (two_cores 0x1000 0 (Some 0) (SdDrop 0x1000 True) HOut [False, True] False True [{}, {0x2000}])"
proof -
  let ?t = "two_cores" and ?T = "[{0x1000}, {0x1000, 0x2000}] :: u64 set list" and ?a = "0x1000 :: u64"
  note d = two_cores_def sd_defs tlb_page_def
  have "sd_step {} (?t 0 0 None SdOut HOut [True, True] False False ?T) 0 (?t 0 0 None (SdLock ?a True) HOut [False, True] False False ?T)"
    using sd_call [of "?t 0 0 None SdOut HOut [True, True] False False ?T" 0 "{}" ?a] by (simp add: d)
  moreover have "sd_step {} (?t 0 0 None (SdLock ?a True) HOut [False, True] False False ?T) 0 (?t 0 0 (Some 0) (SdAddr ?a True) HOut [False, True] False False ?T)"
    using sd_acquire [of "?t 0 0 None (SdLock ?a True) HOut [False, True] False False ?T" 0 ?a True "{}"] by (simp add: d)
  moreover have "sd_step {} (?t 0 0 (Some 0) (SdAddr ?a True) HOut [False, True] False False ?T) 0 (?t ?a 0 (Some 0) (SdCount ?a True) HOut [False, True] False False ?T)"
    using sd_store_addr [of "?t 0 0 (Some 0) (SdAddr ?a True) HOut [False, True] False False ?T" 0 ?a True "{}"] by (simp add: d)
  moreover have "sd_step {} (?t ?a 0 (Some 0) (SdCount ?a True) HOut [False, True] False False ?T) 0 (?t ?a 1 (Some 0) (SdSend ?a True 0) HOut [False, True] False False ?T)"
    using sd_store_count [of "?t ?a 0 (Some 0) (SdCount ?a True) HOut [False, True] False False ?T" 0 ?a True "{}"] by (simp add: d)
  moreover have "sd_step {} (?t ?a 1 (Some 0) (SdSend ?a True 0) HOut [False, True] False False ?T) 0 (?t ?a 1 (Some 0) (SdSend ?a True 1) HOut [False, True] False False ?T)"
    using sd_skip [of "?t ?a 1 (Some 0) (SdSend ?a True 0) HOut [False, True] False False ?T" 0 ?a True "{}"] by (simp add: d)
  moreover have "sd_step {} (?t ?a 1 (Some 0) (SdSend ?a True 1) HOut [False, True] False False ?T) 0 (?t ?a 1 (Some 0) (SdSend ?a True (Suc 1)) HOut [False, True] True False ?T)"
    using sd_send [of "?t ?a 1 (Some 0) (SdSend ?a True 1) HOut [False, True] False False ?T" 0 ?a True 1 "{}"] by (simp add: d)
  moreover have "sd_step {} (?t ?a 1 (Some 0) (SdSend ?a True (Suc 1)) HOut [False, True] True False ?T) 0 (?t ?a 1 (Some 0) (SdFlush ?a True) HOut [False, True] True False ?T)"
    using sd_sent [of "?t ?a 1 (Some 0) (SdSend ?a True (Suc 1)) HOut [False, True] True False ?T" 0 ?a True "Suc 1" "{}"] by (simp add: d)
  moreover have "sd_step {} (?t ?a 1 (Some 0) (SdFlush ?a True) HOut [False, True] True False ?T) 0 (?t ?a 1 (Some 0) (SdWait ?a True) HOut [False, True] True False [{}, {0x1000, 0x2000}])"
    using sd_flush [of "?t ?a 1 (Some 0) (SdFlush ?a True) HOut [False, True] True False ?T" 0 ?a True "{}"] by (simp add: d)
  moreover have "sd_step {} (?t ?a 1 (Some 0) (SdWait ?a True) HOut [False, True] True False [{}, {0x1000, 0x2000}]) 1 (?t ?a 1 (Some 0) (SdWait ?a True) HLoad [False, True] False True [{}, {0x1000, 0x2000}])"
    using sd_deliver [of 1 "?t ?a 1 (Some 0) (SdWait ?a True) HOut [False, True] True False [{}, {0x1000, 0x2000}]" "{}"] by (simp add: d)
  moreover have "sd_step {} (?t ?a 1 (Some 0) (SdWait ?a True) HLoad [False, True] False True [{}, {0x1000, 0x2000}]) 1 (?t ?a 1 (Some 0) (SdWait ?a True) (HFlush ?a) [False, True] False True [{}, {0x1000, 0x2000}])"
    using sd_load [of 1 "?t ?a 1 (Some 0) (SdWait ?a True) HLoad [False, True] False True [{}, {0x1000, 0x2000}]" "{}"] by (simp add: d)
  moreover have "sd_step {} (?t ?a 1 (Some 0) (SdWait ?a True) (HFlush ?a) [False, True] False True [{}, {0x1000, 0x2000}]) 1 (?t ?a 1 (Some 0) (SdWait ?a True) HDec [False, True] False True [{}, {0x2000}])"
    using sd_flush_here [of 1 "?t ?a 1 (Some 0) (SdWait ?a True) (HFlush ?a) [False, True] False True [{}, {0x1000, 0x2000}]" ?a "{}"] by (simp add: d insert_Diff_if)
  moreover have "sd_step {} (?t ?a 1 (Some 0) (SdWait ?a True) HDec [False, True] False True [{}, {0x2000}]) 1 (?t ?a 0 (Some 0) (SdWait ?a True) HOut [False, True] False True [{}, {0x2000}])"
    using sd_done [of 1 "?t ?a 1 (Some 0) (SdWait ?a True) HDec [False, True] False True [{}, {0x2000}]" "{}"] by (simp add: d)
  moreover have "sd_step {} (?t ?a 0 (Some 0) (SdWait ?a True) HOut [False, True] False True [{}, {0x2000}]) 0 (?t ?a 0 (Some 0) (SdDrop ?a True) HOut [False, True] False True [{}, {0x2000}])"
    using sd_wait [of "?t ?a 0 (Some 0) (SdWait ?a True) HOut [False, True] False True [{}, {0x2000}]" 0 ?a True "{}"] by (simp add: d)
  ultimately show ?thesis by (meson runs_refl runs_step)
qed

theorem shootdown_complete_witness:
  "0x1000 \<notin> sd_tlb (two_cores 0x1000 0 (Some 0) (SdDrop 0x1000 True) HOut [False, True] False True [{}, {0x2000}]) ! 1"
proof -
  have "sd_start (two_cores 0 0 None SdOut HOut [True, True] False False [{0x1000}, {0x1000, 0x2000}])"
    by (auto simp: two_cores_def sd_start_def less_Suc_eq)
  then show ?thesis using shootdown_complete [OF _ two_cores_run, of 0 "0x1000" True 1]
    by (simp add: two_cores_def tlb_page_def)
qed

end
