(* ===== verification/Interrupts.thy ===== *)
theory Interrupts
  imports Vmm Scheduler_Inv Keyboard Shootdown
begin

text \<open>
  Interrupt and exception entry: \<^verbatim>\<open>kernel/src/arch/x86_64/interrupts/\<close> (\<^verbatim>\<open>idt.rs\<close>, \<^verbatim>\<open>handle.rs\<close>, \<^verbatim>\<open>extable.rs\<close>) and the segment
  descriptors of \<^verbatim>\<open>cpu/gdt.rs\<close>. The dispatcher works on the saved frame, the current process's address space, the
  scheduler of its core and the keyboard ring. The addresses of the assembly stubs are an argument, the bytes waiting in
  the keyboard controller and the faulting address are part of the state. A panic is \<^term>\<open>None\<close>;
  stopping the machine is a result of its own.
\<close>

section \<open>Descriptors\<close>

record interrupt_descriptor =
  address_low :: "16 word"
  selector :: "16 word"
  ist :: u8
  gate_flags :: u8
  address_mid :: "16 word"
  address_high :: u32
  id_reserved :: u32

definition FLAGS_INTERRUPT_GATE :: u8 where "FLAGS_INTERRUPT_GATE = 0x8E"
definition KERNEL_CODE_SEGMENT :: "16 word" where "KERNEL_CODE_SEGMENT = 0x08"

definition interrupt_descriptor_new :: "u64 \<Rightarrow> interrupt_descriptor" where
  "interrupt_descriptor_new handler_address =
    \<lparr>address_low = ucast handler_address, selector = KERNEL_CODE_SEGMENT, ist = 0, gate_flags = FLAGS_INTERRUPT_GATE,
     address_mid = ucast (drop_bit 16 handler_address), address_high = ucast (drop_bit 32 handler_address), id_reserved = 0\<rparr>"

text \<open>The table has one descriptor per stub; the stub table has 256 entries.\<close>

fun idt_from :: "u64 list \<Rightarrow> nat list \<Rightarrow> interrupt_descriptor list run" where
  "idt_from isr_stub_table [] = ret []"
| "idt_from isr_stub_table (i # is') =
    do { a \<leftarrow> idx isr_stub_table i; ds \<leftarrow> idt_from isr_stub_table is'; ret (interrupt_descriptor_new a # ds) }"

definition init_idt :: "u64 list \<Rightarrow> interrupt_descriptor list run" where
  "init_idt isr_stub_table = idt_from isr_stub_table [0..<256]"

record gdt_entry =
  limit_low :: "16 word"
  base_low :: "16 word"
  base_middle :: u8
  access :: u8
  granularity :: u8
  base_high :: u8

definition gdt_entry_new :: "u8 \<Rightarrow> u8 \<Rightarrow> gdt_entry" where
  "gdt_entry_new acc fl =
    \<lparr>limit_low = 0xFFFF, base_low = 0, base_middle = 0, access = acc, granularity = fl OR 0x0F, base_high = 0\<rparr>"

definition get_gdt_template :: "gdt_entry list" where
  "get_gdt_template =
    [\<lparr>limit_low = 0, base_low = 0, base_middle = 0, access = 0, granularity = 0, base_high = 0\<rparr>,
     gdt_entry_new 0x9A 0xA0, gdt_entry_new 0x92 0xA0, gdt_entry_new 0xF2 0xA0, gdt_entry_new 0xFA 0xA0,
     gdt_entry_new 0 0, gdt_entry_new 0 0]"

definition KERNEL_CS :: u64 where "KERNEL_CS = 0x08"
definition KERNEL_SS :: u64 where "KERNEL_SS = 0x10"
definition USER_SS :: u64 where "USER_SS = 0x18 OR 3"
definition USER_CS :: u64 where "USER_CS = 0x20 OR 3"

text \<open>The two entries that describe the task state segment at \<open>tss_base\<close>, 104 bytes long.\<close>

definition init_core_gdt :: "u64 \<Rightarrow> gdt_entry list" where
  "init_core_gdt tss_base =
    (let high = (ucast (drop_bit 32 tss_base) :: u32)
     in get_gdt_template
       [5 := \<lparr>limit_low = 104 - 1, base_low = ucast tss_base, base_middle = ucast (drop_bit 16 tss_base), access = 0x89,
              granularity = 0, base_high = ucast (drop_bit 24 tss_base)\<rparr>,
        6 := \<lparr>limit_low = ucast high, base_low = ucast (drop_bit 16 high), base_middle = 0, access = 0, granularity = 0, base_high = 0\<rparr>])"

text \<open>The value that \<^verbatim>\<open>init_syscall_msrs\<close> writes to the STAR register.\<close>

definition star_value :: u64 where
  "star_value =
    (let kernel_base_selector = (0x08 OR 0 :: u32); user_base_selector = (0x10 OR 3 :: u32);
         high = push_bit 16 user_base_selector OR kernel_base_selector
     in push_bit 32 (ucast high))"

section \<open>The frame\<close>

record iframe =
  fr_rax :: u64
  fr_rbx :: u64
  fr_rcx :: u64
  fr_rdx :: u64
  fr_rsi :: u64
  fr_rdi :: u64
  fr_rbp :: u64
  fr_r8 :: u64
  fr_r9 :: u64
  fr_r10 :: u64
  fr_r11 :: u64
  fr_r12 :: u64
  fr_r13 :: u64
  fr_r14 :: u64
  fr_r15 :: u64
  interrupt_number :: u64
  error_code :: u64
  instruction_pointer :: u64
  code_segment :: u64
  cpu_flags :: u64
  stack_pointer :: u64
  stack_segment :: u64

section \<open>Recovering from a fault in a user copy\<close>

text \<open>The table lies in memory between two symbols; \<open>rd\<close> reads a word.\<close>

partial_function (option) extable_search :: "(u64 \<Rightarrow> u64) \<Rightarrow> u64 \<Rightarrow> u64 \<Rightarrow> u64 \<Rightarrow> u64 option run" where
  "extable_search rd fault_rip ptr end_ptr =
    (if ptr < end_ptr
     then if fault_rip = rd ptr then ret (Some (rd (ptr + 8))) else extable_search rd fault_rip (ptr + 16) end_ptr
     else ret None)"

definition fixup_exception :: "(u64 \<Rightarrow> u64) \<Rightarrow> u64 \<Rightarrow> u64 \<Rightarrow> iframe \<Rightarrow> (bool \<times> iframe) run" where
  "fixup_exception rd start_ptr end_ptr fr =
    do { r \<leftarrow> extable_search rd (instruction_pointer fr) start_ptr end_ptr;
         ret (case r of Some f \<Rightarrow> (True, fr\<lparr>instruction_pointer := f\<rparr>) | None \<Rightarrow> (False, fr)) }"

section \<open>Handlers\<close>

record 'v irq_state =
  ir_frame :: iframe
  ir_cr2 :: u64
  ir_vmm :: "vmm option"
  ir_objs :: 'v
  ir_mem :: mem_state
  ir_threads :: threads
  ir_core :: core
  ir_eois :: nat
  ir_kbd :: kbd_ring
  ir_port :: "u8 list"
  ir_sd_addr :: u64
  ir_sd_counter :: u64
  ir_tlb :: "u64 set"

datatype irq_result = Resume | Switched switch | Halted

type_synonym 'v fault_req = "nat \<Rightarrow> u64 \<Rightarrow> 'v \<Rightarrow> core_alloc \<Rightarrow> ((unit + nat) \<times> 'v \<times> core_alloc) run"

text \<open>\<^verbatim>\<open>memory::handle_page_fault\<close>: on behalf of the current process.\<close>

definition current_page_fault :: "'v fault_req \<Rightarrow> u64 \<Rightarrow> 'v irq_state \<Rightarrow> ((fault_error + unit) \<times> 'v irq_state) run" where
  "current_page_fault req off s =
    (case ir_vmm s of
       None \<Rightarrow> ret (Inl InvalidAddress, s)
     | Some vm \<Rightarrow> do { (r, objs, st) \<leftarrow> handle_page_fault req off vm (ir_objs s) (ir_mem s) (ir_cr2 s) (error_code (ir_frame s));
                       ret (r, s\<lparr>ir_objs := objs, ir_mem := st\<rparr>) })"

definition page_fault_handler ::
  "'v fault_req \<Rightarrow> u64 \<Rightarrow> (u64 \<Rightarrow> u64) \<Rightarrow> u64 \<Rightarrow> u64 \<Rightarrow> 'v irq_state \<Rightarrow> (irq_result \<times> 'v irq_state) run" where
  "page_fault_handler req off rd ex_start ex_end s =
    do { (r, s1) \<leftarrow> current_page_fault req off s;
         case r of
           Inr _ \<Rightarrow> ret (Resume, s1)
         | Inl _ \<Rightarrow> do { (fixed, fr) \<leftarrow> fixup_exception rd ex_start ex_end (ir_frame s1);
                          if fixed then ret (Resume, s1\<lparr>ir_frame := fr\<rparr>) else panic } }"

definition eoi :: "'v irq_state \<Rightarrow> 'v irq_state" where
  "eoi s = s\<lparr>ir_eois := ir_eois s + 1\<rparr>"

text \<open>The daemon is made ready when it sleeps; the tail is \<^verbatim>\<open>schedule\<close>.\<close>

definition wake_timer_daemon :: "threads \<Rightarrow> core \<Rightarrow> (threads \<times> core) run" where
  "wake_timer_daemon m c =
    (let td = timer_daemon_tcb c
     in if td \<noteq> 0 \<and> tstate (tcbs m td) = Blocked then sched_push (set_state m td Ready) c td else ret (m, c))"

definition run_schedule :: "(nat \<Rightarrow> u64) \<Rightarrow> u64 \<Rightarrow> u64 \<Rightarrow> 'v irq_state \<Rightarrow> (irq_result \<times> 'v irq_state) run" where
  "run_schedule pml4 now quantum s =
    do { (sw, m, c) \<leftarrow> schedule pml4 now quantum (ir_threads s) (ir_core s);
         ret (Switched sw, s\<lparr>ir_threads := m, ir_core := c\<rparr>) }"

definition timer_interrupt_handler :: "(nat \<Rightarrow> u64) \<Rightarrow> u64 \<Rightarrow> u64 \<Rightarrow> 'v irq_state \<Rightarrow> (irq_result \<times> 'v irq_state) run" where
  "timer_interrupt_handler pml4 now quantum s0 =
    (let s = eoi s0
     in if idle_thread (ir_core s) = 0 then ret (Resume, s\<lparr>ir_core := (ir_core s)\<lparr>hw_timer := Armed 100000\<rparr>\<rparr>)
        else do { (m, c) \<leftarrow> wake_timer_daemon (ir_threads s) (ir_core s);
                  run_schedule pml4 now quantum (s\<lparr>ir_threads := m, ir_core := c\<rparr>) })"

definition ipi_handler :: "(nat \<Rightarrow> u64) \<Rightarrow> u64 \<Rightarrow> u64 \<Rightarrow> 'v irq_state \<Rightarrow> (irq_result \<times> 'v irq_state) run" where
  "ipi_handler pml4 now quantum s = run_schedule pml4 now quantum (eoi s)"

text \<open>At most 256 rounds, each of which looks at the status bit first.\<close>

fun drain_port :: "nat \<Rightarrow> u8 list \<Rightarrow> kbd_ring \<Rightarrow> u8 list \<times> kbd_ring" where
  "drain_port 0 waiting r = (waiting, r)"
| "drain_port (Suc n) [] r = ([], r)"
| "drain_port (Suc n) (b # bs) r = drain_port n bs (push_scancode b r)"

definition keyboard_irq_handler :: "'v irq_state \<Rightarrow> irq_result \<times> 'v irq_state" where
  "keyboard_irq_handler s0 =
    (let s = eoi s0
     in case drain_port 256 (ir_port s) (ir_kbd s) of (p, r) \<Rightarrow> (Resume, s\<lparr>ir_port := p, ir_kbd := r\<rparr>))"

definition shootdown_handler :: "'v irq_state \<Rightarrow> irq_result \<times> 'v irq_state" where
  "shootdown_handler s =
    (Resume, s\<lparr>ir_tlb := ir_tlb s - {tlb_page (ir_sd_addr s)}, ir_sd_counter := ir_sd_counter s - 1\<rparr>)"

definition interrupt_dispatch ::
  "'v fault_req \<Rightarrow> u64 \<Rightarrow> (u64 \<Rightarrow> u64) \<Rightarrow> u64 \<Rightarrow> u64 \<Rightarrow> (nat \<Rightarrow> u64) \<Rightarrow> u64 \<Rightarrow> u64 \<Rightarrow> 'v irq_state \<Rightarrow> (irq_result \<times> 'v irq_state) run" where
  "interrupt_dispatch req off rd ex_start ex_end pml4 now quantum s =
    (let n = interrupt_number (ir_frame s)
     in if n = 6 then panic
        else if n = 8 then panic
        else if n = 13 then ret (Halted, s)
        else if n = 14 then page_fault_handler req off rd ex_start ex_end s
        else if n = 15 then ret (Resume, s)
        else if n = 33 then ret (keyboard_irq_handler s)
        else if n = 35 then timer_interrupt_handler pml4 now quantum s
        else if n = 64 then ipi_handler pml4 now quantum s
        else if n = 65 then ret (shootdown_handler s)
        else if 32 \<le> n then ret (Halted, s)
        else ret (Resume, s))"

section \<open>Descriptors hold what they were built from\<close>

definition gate_address :: "interrupt_descriptor \<Rightarrow> u64" where
  "gate_address d = ucast (address_low d) OR push_bit 16 (ucast (address_mid d)) OR push_bit 32 (ucast (address_high d))"

lemma gate_address_new: "gate_address (interrupt_descriptor_new a) = a"
proof (rule bit_word_eqI)
  fix n assume "n < LENGTH(64)"
  then show "bit (gate_address (interrupt_descriptor_new a)) n = bit a n"
    by (cases "n < 16"; cases "n < 32") (auto simp: gate_address_def interrupt_descriptor_new_def bit_simps not_less)
qed

lemma init_idt_installs:
  assumes "length stubs = 256"
  shows "\<exists>ds. init_idt stubs = Some ds \<and> map gate_address ds = stubs \<and> (\<forall>d \<in> set ds. selector d = KERNEL_CODE_SEGMENT \<and> gate_flags d = FLAGS_INTERRUPT_GATE)"
proof -
  have "idt_from stubs js = Some (map (\<lambda>i. interrupt_descriptor_new (stubs ! i)) js)" if "\<forall>i \<in> set js. i < 256" for js
    using that assms by (induction js) (auto simp: idx_in_range)
  then have e: "init_idt stubs = Some (map (\<lambda>i. interrupt_descriptor_new (stubs ! i)) [0..<256])"
    by (simp add: init_idt_def del: upt_rec_numeral)
  moreover have "map gate_address (map (\<lambda>i. interrupt_descriptor_new (stubs ! i)) [0..<256]) = stubs"
    using assms by (intro nth_equalityI) (simp_all add: gate_address_new del: upt_rec_numeral)
  ultimately show ?thesis by (auto simp: interrupt_descriptor_new_def simp del: upt_rec_numeral)
qed

definition tss_address :: "gdt_entry list \<Rightarrow> u64" where
  "tss_address g = ucast (base_low (g ! 5)) OR push_bit 16 (ucast (base_middle (g ! 5))) OR push_bit 24 (ucast (base_high (g ! 5))) OR
     push_bit 32 (ucast (limit_low (g ! 6))) OR push_bit 48 (ucast (base_low (g ! 6)))"

lemma tss_address_init: "tss_address (init_core_gdt a) = a"
proof (rule bit_word_eqI)
  fix n assume "n < LENGTH(64)"
  then show "bit (tss_address (init_core_gdt a)) n = bit a n"
    by (cases "n < 16"; cases "n < 24"; cases "n < 32"; cases "n < 48")
      (auto simp: tss_address_def init_core_gdt_def get_gdt_template_def Let_def bit_simps not_less)
qed

text \<open>
  The selectors name the descriptors with their privilege, and the two system call instructions
  derive exactly them from the register: entry takes the kernel base and the next selector, return the user base plus
  16 and plus 8.
\<close>

lemma selectors_consistent:
  "unat (drop_bit 3 KERNEL_CS) = 1" "unat (drop_bit 3 KERNEL_SS) = 2" "unat (drop_bit 3 USER_SS) = 3" "unat (drop_bit 3 USER_CS) = 4"
  "map access (take 5 (init_core_gdt a)) = [0, 0x9A, 0x92, 0xF2, 0xFA]"
  "drop_bit 32 star_value AND 0xFFFF = KERNEL_CS" "(drop_bit 32 star_value AND 0xFFFF) + 8 = KERNEL_SS"
  "(drop_bit 48 star_value + 8) OR 3 = USER_SS" "(drop_bit 48 star_value + 16) OR 3 = USER_CS"
  by (simp_all add: KERNEL_CS_def KERNEL_SS_def USER_SS_def USER_CS_def star_value_def Let_def
      init_core_gdt_def get_gdt_template_def gdt_entry_new_def)

section \<open>The exception table\<close>

text \<open>The table as a list of pairs of a faulting and a recovery address.\<close>

definition table_at :: "(u64 \<Rightarrow> u64) \<Rightarrow> u64 \<Rightarrow> (u64 \<times> u64) list \<Rightarrow> bool" where
  "table_at rd base ts \<longleftrightarrow>
    (\<forall>k < length ts. rd (base + of_nat (16 * k)) = fst (ts ! k) \<and> rd (base + of_nat (16 * k) + 8) = snd (ts ! k))"

lemma unat_offset: "unat base + k < 2 ^ 64 \<Longrightarrow> unat (base + of_nat k :: u64) = unat base + k"
  by (subst unat_word_ariths) (simp add: unsigned_of_nat take_bit_nat_eq_self)

lemma extable_search_law:
  assumes "table_at rd base ts" and "unat base + 16 * length ts < 2 ^ 64"
  shows "extable_search rd rip base (base + of_nat (16 * length ts)) = Some (map_of ts rip)"
  using assms
proof (induction ts arbitrary: base)
  case Nil
  show ?case by (subst extable_search.simps) simp
next
  case (Cons e ts)
  let ?stop = "base + of_nat (16 * length (e # ts))"
  have "unat ?stop = unat base + 16 * length (e # ts)"
    using Cons.prems(2) by (rule unat_offset)
  then have lt: "base < ?stop" by (simp add: word_less_nat_alt)
  have u: "unat (base + 16) = unat base + 16" using Cons.prems(2) by (subst unat_word_ariths) simp
  have e: "rd base = fst e" "rd (base + 8) = snd e"
    using Cons.prems(1) [unfolded table_at_def, rule_format, of 0] by simp_all
  have "table_at rd (base + 16) ts" unfolding table_at_def
  proof (intro allI impI)
    fix k assume "k < length ts"
    then show "rd (base + 16 + of_nat (16 * k)) = fst (ts ! k) \<and> rd (base + 16 + of_nat (16 * k) + 8) = snd (ts ! k)"
      using Cons.prems(1) [unfolded table_at_def, rule_format, of "Suc k"] by (simp add: algebra_simps)
  qed
  moreover have "base + 16 + of_nat (16 * length ts) = ?stop" by (simp add: algebra_simps)
  ultimately have "extable_search rd rip (base + 16) ?stop = Some (map_of ts rip)"
    using Cons.IH [of "base + 16"] u Cons.prems(2) by (simp add: add.assoc)
  then show ?case using lt e by (subst extable_search.simps) (cases e, auto)
qed

text \<open>
  What a page fault does, on every branch. A fault the address space resolves resumes the program with the frame
  as it was. One it rejects is looked up in the exception table.
\<close>

lemma page_fault_outcome:
  assumes "table_at rd base ts" and "unat base + 16 * length ts < 2 ^ 64" and "interrupt_number (ir_frame s) = 14"
    and "current_page_fault req off s = Some (r, s')"
  shows "interrupt_dispatch req off rd base (base + of_nat (16 * length ts)) pml4 now quantum s =
    (case r of Inr _ \<Rightarrow> Some (Resume, s')
     | Inl _ \<Rightarrow> (case map_of ts (instruction_pointer (ir_frame s)) of
         Some f \<Rightarrow> Some (Resume, s'\<lparr>ir_frame := (ir_frame s)\<lparr>instruction_pointer := f\<rparr>\<rparr>)
       | None \<Rightarrow> None))"
proof -
  have "ir_frame s' = ir_frame s"
    using assms(4) by (auto simp: current_page_fault_def split: option.splits bind_splits)
  then show ?thesis using assms(3,4) extable_search_law [OF assms(1,2)]
    by (simp add: interrupt_dispatch_def page_fault_handler_def fixup_exception_def split: sum.splits option.splits)
qed

text \<open>A fault no region of the process allows: outside of all of them, or a write where writing is not allowed.\<close>

definition bad_fault :: "'v irq_state \<Rightarrow> bool" where
  "bad_fault s \<longleftrightarrow> (case ir_vmm s of None \<Rightarrow> True
     | Some vm \<Rightarrow> vmas_ok (regions vm) \<and> (\<forall>n \<in> set (regions vm). lo n \<le> unat (ir_cr2 s) \<and> unat (ir_cr2 s) < hi n \<longrightarrow>
         error_code (ir_frame s) AND 2 \<noteq> 0 \<and> vflags n AND VM_FLAG_WRITE = 0))"

lemma bad_fault_rejected:
  assumes "bad_fault s"
  shows "\<exists>e. current_page_fault req off s = Some (Inl e, s)"
proof (cases "ir_vmm s")
  case None
  then show ?thesis by (simp add: current_page_fault_def)
next
  case (Some vm)
  let ?in = "\<lambda>n. lo n \<le> unat (ir_cr2 s) \<and> unat (ir_cr2 s) < hi n"
  have v: "vmas_ok (regions vm)" "\<forall>n \<in> set (regions vm). ?in n \<longrightarrow> error_code (ir_frame s) AND 2 \<noteq> 0 \<and> vflags n AND VM_FLAG_WRITE = 0"
    using assms Some by (simp_all add: bad_fault_def)
  have "\<exists>e. handle_page_fault req off vm (ir_objs s) (ir_mem s) (ir_cr2 s) (error_code (ir_frame s)) = Some (Inl e, ir_objs s, ir_mem s)"
  proof (cases "\<exists>n \<in> set (regions vm). ?in n")
    case True
    then obtain n where n: "n \<in> set (regions vm)" "lo n \<le> unat (ir_cr2 s)" "unat (ir_cr2 s) < hi n" by blast
    then show ?thesis using find_vma_mem [OF v(1) n] v(2) by (cases "ir_mem s") (auto simp: handle_page_fault_def)
  next
    case False
    then show ?thesis using find_vma_none [OF v(1)] by (cases "ir_mem s") (auto simp: handle_page_fault_def)
  qed
  then show ?thesis using Some by (auto simp: current_page_fault_def)
qed

text \<open>
  C10. A bad pointer handed to a system call does not take the kernel down: when the copy from or to user memory faults at an
  address that no region of the process allows, the dispatcher resumes at the recovery address of the
  exception table and changes nothing but the instruction pointer.
\<close>
theorem bad_pointer_recovered:
  assumes "table_at rd base ts" and "unat base + 16 * length ts < 2 ^ 64" and "interrupt_number (ir_frame s) = 14"
    and "bad_fault s" and "map_of ts (instruction_pointer (ir_frame s)) = Some f"
  shows "interrupt_dispatch req off rd base (base + of_nat (16 * length ts)) pml4 now quantum s =
    Some (Resume, s\<lparr>ir_frame := (ir_frame s)\<lparr>instruction_pointer := f\<rparr>\<rparr>)"
  using page_fault_outcome [OF assms(1-3)] bad_fault_rejected [OF assms(4)] assms(5) by fastforce

section \<open>Faults of programs\<close>

text \<open>The same fault anywhere else is a panic, also when a program caused it in its own code.\<close>

lemma program_fault_panics:
  assumes "table_at rd base ts" and "unat base + 16 * length ts < 2 ^ 64" and "interrupt_number (ir_frame s) = 14"
    and "bad_fault s" and "map_of ts (instruction_pointer (ir_frame s)) = None"
  shows "interrupt_dispatch req off rd base (base + of_nat (16 * length ts)) pml4 now quantum s = None"
  using page_fault_outcome [OF assms(1-3)] bad_fault_rejected [OF assms(4)] assms(5) by fastforce

text \<open>
  The other exceptions: an invalid opcode panics, a protection fault stops the machine, and most of the rest,
  a division by zero among them, returns to the same instruction without any change.
\<close>

lemma exception_fates:
  "interrupt_number (ir_frame s) = 6 \<Longrightarrow> interrupt_dispatch req off rd b e pml4 now quantum s = None"
  "interrupt_number (ir_frame s) = 13 \<Longrightarrow> interrupt_dispatch req off rd b e pml4 now quantum s = Some (Halted, s)"
  "interrupt_number (ir_frame s) < 32 \<Longrightarrow> interrupt_number (ir_frame s) \<notin> {6, 8, 13, 14, 15} \<Longrightarrow>
     interrupt_dispatch req off rd b e pml4 now quantum s = Some (Resume, s)"
  by (auto simp: interrupt_dispatch_def Let_def not_le)

section \<open>Device interrupts\<close>

lemma drain_port_law:
  "drain_port n bs r = (drop n bs, fold push_scancode (take n bs) r)"
  by (induction n bs r rule: drain_port.induct) simp_all

text \<open>The keyboard interrupt moves the waiting bytes into the ring in their order, at most as many as the ring has places.\<close>

lemma keyboard_irq_drains:
  "keyboard_irq_handler s = (Resume, s\<lparr>ir_eois := ir_eois s + 1, ir_port := drop 256 (ir_port s), ir_kbd := fold push_scancode (take 256 (ir_port s)) (ir_kbd s)\<rparr>)"
  by (simp add: keyboard_irq_handler_def eoi_def drain_port_law Let_def del: drain_port.simps)

text \<open>Pushing a thread keeps the posted threads of the mailbox.\<close>

lemma queued_push_posted:
  assumes q: "queued m c Q M" and a: "a \<noteq> 0" "a \<notin> ready Q \<union> set M" "unat (priority (tcbs m a)) < 32"
  obtains m' c' Q' where "sched_push (set_state m a Ready) c a = Some (m', c')" "queued m' c' Q' M" "ready Q' = insert a (ready Q)"
    "tcbs m' = tcbs (set_state m a Ready)" "same_rest c c'"
proof -
  let ?m = "set_state m a Ready" and ?p = "unat (priority (tcbs m a))"
  have ok: "ready_ok ?m c Q" using q ready_ok_fields [of ?m m c c Q] by (simp add: queued_def set_state_def)
  have p: "?p = unat (priority (tcbs ?m a))" by (simp add: set_state_def)
  have nin: "a \<notin> set (Q ?p)" using a(2,3) by (auto simp: ready_def)
  obtain m' c' where ps: "sched_push ?m c a = Some (m', c')" "ready_ok m' c' (Q(?p := Q ?p @ [a]))"
    "tcbs m' = tcbs ?m" "same_rest c c'" "\<And>b. b \<noteq> a \<Longrightarrow> b \<notin> set (Q ?p) \<Longrightarrow> nx m' b = nx ?m b"
    by (rule sched_push_ok [OF ok a(1) p a(3) nin]) blast
  have nx: "nx m' b = nx m b" if "b \<in> set M" for b
    using that ps(5) [of b] a(2,3) q by (auto simp: queued_def ready_def set_state_def)
  have "qrep (nx m') (mailbox c') M"
    using q ps(4) linked_cong [of M "nx m'" "nx m"] nx by (auto simp: queued_def qrep_def same_rest_def)
  then have "queued m' c' (Q(?p := Q ?p @ [a])) M"
    using q ps(2-4) a(2,3) by (auto simp: queued_def ready_push set_state_def)
  then show ?thesis using that [OF ps(1) _ ready_push [OF a(3)] ps(3,4)] by blast
qed

text \<open>
  The timer interrupt on a core that runs threads: the daemon, if it sleeps, joins the ready queues, no other thread changes,
  and the scheduler runs on a consistent core.
\<close>

lemma timer_tick_schedules:
  assumes "core_inv (ir_threads s) (ir_core s) Q M" and "td = timer_daemon_tcb (ir_core s)"
  shows "\<exists>m c Q'. core_inv m c Q' M \<and>
    timer_interrupt_handler pml4 now quantum s =
      run_schedule pml4 now quantum (s\<lparr>ir_eois := ir_eois s + 1, ir_threads := m, ir_core := c\<rparr>) \<and>
    ready Q' = ready Q \<union> (if td \<noteq> 0 \<and> tstate (tcbs (ir_threads s) td) = Blocked then {td} else {}) \<and>
    (\<forall>t. t \<noteq> td \<longrightarrow> tcbs m t = tcbs (ir_threads s) t)"
proof (cases "td \<noteq> 0 \<and> tstate (tcbs (ir_threads s) td) = Blocked")
  case False
  then have "wake_timer_daemon (ir_threads s) (ir_core s) = Some (ir_threads s, ir_core s)"
    using assms(2) by (auto simp: wake_timer_daemon_def Let_def)
  then show ?thesis using False assms
    by (intro exI [of _ "ir_threads s"] exI [of _ "ir_core s"] exI [of _ Q])
      (auto simp: timer_interrupt_handler_def eoi_def Let_def core_inv_def)
next
  case True
  let ?m = "ir_threads s" and ?c = "ir_core s"
  have i: "queued ?m ?c Q M" "unat (priority (tcbs ?m td)) < 32" "idle_thread ?c \<noteq> 0" "td \<noteq> idle_thread ?c"
    using assms by (auto simp: core_inv_def)
  have nr: "td \<notin> ready Q \<union> set M" using i(1) True by (auto simp: queued_def)
  obtain m' c' Q' where ps: "sched_push (set_state ?m td Ready) ?c td = Some (m', c')" "queued m' c' Q' M"
    "ready Q' = insert td (ready Q)" "tcbs m' = tcbs (set_state ?m td Ready)" "same_rest ?c c'"
    by (rule queued_push_posted [OF i(1) _ nr i(2)]) (use True in auto)
  have "priority (tcbs m' t) = priority (tcbs ?m t)" for t by (simp add: ps(4) set_state_def)
  then have "core_inv m' c' Q' M" using assms ps(2,3,5) i by (auto simp: core_inv_def same_rest_def)
  moreover have "timer_interrupt_handler pml4 now quantum s =
      run_schedule pml4 now quantum (s\<lparr>ir_eois := ir_eois s + 1, ir_threads := m', ir_core := c'\<rparr>)"
    using ps(1) True i(3) assms(2) by (simp add: timer_interrupt_handler_def wake_timer_daemon_def eoi_def Let_def)
  ultimately show ?thesis using ps(3,4) True by (intro exI [of _ m'] exI [of _ c'] exI [of _ Q']) (auto simp: set_state_def)
qed

section \<open>Witness\<close>

definition sample_irq :: "unit irq_state" where
  "sample_irq =
    \<lparr>ir_frame = \<lparr>fr_rax = 0, fr_rbx = 0, fr_rcx = 0, fr_rdx = 0, fr_rsi = 0, fr_rdi = 0, fr_rbp = 0, fr_r8 = 0, fr_r9 = 0, fr_r10 = 0,
       fr_r11 = 0, fr_r12 = 0, fr_r13 = 0, fr_r14 = 0, fr_r15 = 0, interrupt_number = 14, error_code = 0,
       instruction_pointer = 0x500, code_segment = 8, cpu_flags = 0x202, stack_pointer = 0, stack_segment = 16\<rparr>,
     ir_cr2 = 0x50000000, ir_vmm = Some sample_vmm, ir_objs = (), ir_mem = (empty_tables, roomy_core), ir_threads = sample_threads,
     ir_core = sample_sched, ir_eois = 0, ir_kbd = \<lparr>kr_buffer = replicate 256 0, kr_head = 0, kr_tail = 0\<rparr>, ir_port = [],
     ir_sd_addr = 0, ir_sd_counter = 0, ir_tlb = {}\<rparr>"

definition sample_extable :: "u64 \<Rightarrow> u64" where
  "sample_extable a = (if a = 0x9000 then 0x400 else if a = 0x9008 then 0x600 else if a = 0x9010 then 0x500 else 0x600)"

theorem bad_pointer_recovered_witness:
  "interrupt_dispatch (\<lambda>_ _ _ _. None) 0 sample_extable 0x9000 0x9020 (\<lambda>_. 0) 0 0 sample_irq =
     Some (Resume, sample_irq\<lparr>ir_frame := (ir_frame sample_irq)\<lparr>instruction_pointer := 0x600\<rparr>\<rparr>)"
proof -
  have t: "table_at sample_extable 0x9000 [(0x400, 0x600), (0x500, 0x600)]"
    by (auto simp: table_at_def sample_extable_def less_Suc_eq)
  have b: "bad_fault sample_irq"
    using sample_vmm_ok(1) by (simp add: bad_fault_def sample_irq_def sample_vmm_def sample_region_def lo_def hi_def)
  from bad_pointer_recovered [OF t _ _ b, of "0x600"] show ?thesis by (simp add: sample_irq_def)
qed

end
