(* ===== verification/Context.thy ===== *)
theory Context
  imports Interrupts Page_Memory
begin

text \<open>
  Threads at the level of the processor: \<^verbatim>\<open>kernel/src/arch/x86_64/task/context.rs\<close> (the first stack of a thread),
  \<^verbatim>\<open>task/switch.asm\<close> (the switch and the entry stub), the construction and the reaping of a thread in
  \<^verbatim>\<open>core/thread/dispatch.rs\<close> and \<^verbatim>\<open>reap.rs\<close>. Memory is a word per address; the structures are read and written field by
  field. The contents of the areas for the extended registers are opaque values, one per area; the heap is an
  argument.
\<close>

section \<open>Words in memory\<close>

fun put_words :: "u64 \<Rightarrow> u64 list \<Rightarrow> (u64 \<Rightarrow> u64) \<Rightarrow> u64 \<Rightarrow> u64" where
  "put_words a [] w = w"
| "put_words a (x # xs) w = put_words (a + 8) xs (w(a := x))"

definition word_at :: "(u64 \<Rightarrow> u64) \<Rightarrow> u64 \<Rightarrow> nat \<Rightarrow> u64" where
  "word_at w a k = w (a + of_nat (8 * k))"

section \<open>The first stack\<close>

text \<open>A thread context has the fields of an interrupt frame, in the same order.\<close>

type_synonym thread_context = iframe

definition context_at :: "(u64 \<Rightarrow> u64) \<Rightarrow> u64 \<Rightarrow> thread_context" where
  "context_at w a =
    \<lparr>fr_rax = word_at w a 0, fr_rbx = word_at w a 1, fr_rcx = word_at w a 2, fr_rdx = word_at w a 3, fr_rsi = word_at w a 4,
     fr_rdi = word_at w a 5, fr_rbp = word_at w a 6, fr_r8 = word_at w a 7, fr_r9 = word_at w a 8, fr_r10 = word_at w a 9,
     fr_r11 = word_at w a 10, fr_r12 = word_at w a 11, fr_r13 = word_at w a 12, fr_r14 = word_at w a 13, fr_r15 = word_at w a 14,
     interrupt_number = word_at w a 15, error_code = word_at w a 16, instruction_pointer = word_at w a 17,
     code_segment = word_at w a 18, cpu_flags = word_at w a 19, stack_pointer = word_at w a 20, stack_segment = word_at w a 21\<rparr>"

definition context_words :: "thread_context \<Rightarrow> u64 list" where
  "context_words c =
    [fr_rax c, fr_rbx c, fr_rcx c, fr_rdx c, fr_rsi c, fr_rdi c, fr_rbp c, fr_r8 c, fr_r9 c, fr_r10 c, fr_r11 c, fr_r12 c,
     fr_r13 c, fr_r14 c, fr_r15 c, interrupt_number c, error_code c, instruction_pointer c, code_segment c, cpu_flags c,
     stack_pointer c, stack_segment c]"

definition zero_gp :: "thread_context \<Rightarrow> thread_context" where
  "zero_gp c = c\<lparr>fr_rax := 0, fr_rbx := 0, fr_rcx := 0, fr_rdx := 0, fr_rsi := 0, fr_rdi := 0, fr_rbp := 0, fr_r8 := 0, fr_r9 := 0,
     fr_r10 := 0, fr_r11 := 0, fr_r12 := 0, fr_r13 := 0, fr_r14 := 0, fr_r15 := 0\<rparr>"

definition context_init :: "u64 \<Rightarrow> u64 \<Rightarrow> u64 \<Rightarrow> thread_context \<Rightarrow> thread_context" where
  "context_init entry_point stack_top arg c =
    (zero_gp c)\<lparr>instruction_pointer := entry_point, stack_pointer := stack_top, code_segment := KERNEL_CS,
      stack_segment := KERNEL_SS, cpu_flags := 0x202, fr_rdi := arg\<rparr>"

definition context_init_user :: "u64 \<Rightarrow> u64 \<Rightarrow> u64 \<Rightarrow> thread_context \<Rightarrow> thread_context" where
  "context_init_user entry_point stack_top arg c =
    (zero_gp c)\<lparr>instruction_pointer := entry_point, stack_pointer := stack_top, code_segment := USER_CS,
      stack_segment := USER_SS, cpu_flags := 0x202, fr_rdi := arg\<rparr>"

text \<open>The switch context: r15, r14, r13, r12, rbp, rbx and the return address.\<close>

definition switch_init :: "u64 \<Rightarrow> u64 list" where
  "switch_init rip = [0, 0, 0, 0, 0, 0, rip]"

text \<open>The stack part of \<^verbatim>\<open>init_thread_stack\<close>; \<open>stub\<close> is the address of the entry stub.\<close>

definition build_stack :: "u64 \<Rightarrow> u64 \<Rightarrow> u64 \<Rightarrow> u64 \<Rightarrow> u64 \<Rightarrow> bool \<Rightarrow> u64 \<Rightarrow> (u64 \<Rightarrow> u64) \<Rightarrow> u64 \<times> (u64 \<Rightarrow> u64)" where
  "build_stack stub entry_point arg stack_base_v stack_size_v is_user user_stack_top w =
    (let stack_top = stack_base_v + stack_size_v;
         context_addr = (stack_top - 176) AND NOT 0xF;
         c = (if is_user then context_init_user entry_point user_stack_top arg (context_at w context_addr)
              else context_init entry_point (stack_top - 8) arg (context_at w context_addr));
         w1 = put_words context_addr (context_words c) w;
         switch_addr = context_addr - 56
     in (switch_addr, put_words switch_addr (switch_init stub) w1))"

section \<open>Building and reaping a thread\<close>

datatype thread_error = SpawnAllocationError | AllocationFailed

record ('h, 'f) kstate =
  k_words :: "u64 \<Rightarrow> u64"
  k_areas :: "u64 \<Rightarrow> 'f"
  k_heap :: 'h
  k_threads :: threads

record 'f fpu_config =
  use_xsave :: bool
  fpu_cxt_size :: u64
  clean_fpu_cxt :: 'f
  clean_legacy_cxt :: "'f option"

type_synonym 'h allocator = "u64 \<Rightarrow> u64 \<Rightarrow> 'h \<Rightarrow> u64 \<times> 'h"

text \<open>A layout is refused when its size, rounded up to the alignment, exceeds the largest signed value.\<close>

definition layout_fits :: "u64 \<Rightarrow> u64 \<Rightarrow> bool" where
  "layout_fits sz al \<longleftrightarrow> unat sz \<le> 2 ^ 63 - unat al"

definition fpu_area :: "'h allocator \<Rightarrow> 'f fpu_config \<Rightarrow> ('h, 'f) kstate \<Rightarrow> ((thread_error + u64) \<times> ('h, 'f) kstate) run" where
  "fpu_area alloc cfg s =
    (let sz = fpu_cxt_size cfg; al = (if use_xsave cfg then 64 else 16)
     in if \<not> layout_fits sz al then ret (Inl SpawnAllocationError, s)
        else case alloc sz al (k_heap s) of (p, h) \<Rightarrow>
          let s1 = s\<lparr>k_heap := h\<rparr>
          in if use_xsave cfg then ret (Inr p, s1\<lparr>k_areas := (k_areas s)(p := clean_fpu_cxt cfg)\<rparr>)
             else if p = 0 then ret (Inl AllocationFailed, s1)
             else do { f \<leftarrow> clean_legacy_cxt cfg; ret (Inr p, s1\<lparr>k_areas := (k_areas s)(p := f)\<rparr>) })"

definition init_thread_stack ::
  "'h allocator \<Rightarrow> 'f fpu_config \<Rightarrow> u64 \<Rightarrow> u64 \<Rightarrow> u64 \<Rightarrow> u64 \<Rightarrow> u64 \<Rightarrow> bool \<Rightarrow> u64 \<Rightarrow> ('h, 'f) kstate
     \<Rightarrow> ((thread_error + u64 \<times> u64) \<times> ('h, 'f) kstate) run" where
  "init_thread_stack alloc cfg stub entry_point arg stack_base_v stack_size_v is_user user_stack_top s =
    do { (r, s1) \<leftarrow> fpu_area alloc cfg s;
         case r of
           Inl e \<Rightarrow> ret (Inl e, s1)
         | Inr fpu_ptr \<Rightarrow>
             (case build_stack stub entry_point arg stack_base_v stack_size_v is_user user_stack_top (k_words s1) of
                (switch_addr, w) \<Rightarrow> ret (Inr (switch_addr, fpu_ptr), s1\<lparr>k_words := w\<rparr>)) }"

definition THREAD_STACK_SIZE :: u64 where "THREAD_STACK_SIZE = 4096 * 4"
definition TCB_SIZE :: u64 where "TCB_SIZE = 96"

text \<open>\<^verbatim>\<open>create_tcb\<close> and \<^verbatim>\<open>create_user_tcb\<close>: a kernel thread has no user stack. The thread id is an argument.\<close>

definition create_tcb ::
  "'h allocator \<Rightarrow> 'f fpu_config \<Rightarrow> u64 \<Rightarrow> u64 \<Rightarrow> u64 \<Rightarrow> u64 \<Rightarrow> u64 option \<Rightarrow> thread_priority \<Rightarrow> nat \<Rightarrow> ('h, 'f) kstate
     \<Rightarrow> ((thread_error + u64) \<times> ('h, 'f) kstate) run" where
  "create_tcb alloc cfg stub tid entry_point arg user_stack prio proc s =
    (case alloc TCB_SIZE 8 (k_heap s) of (tcb_ptr, h1) \<Rightarrow>
     case alloc THREAD_STACK_SIZE 4096 h1 of (base, h2) \<Rightarrow>
       let s2 = s\<lparr>k_heap := h2, k_words := put_words base (replicate (unat THREAD_STACK_SIZE div 8) 0) (k_words s)\<rparr>
       in do { (r, s3) \<leftarrow> init_thread_stack alloc cfg stub entry_point arg base THREAD_STACK_SIZE
                 (user_stack \<noteq> None) (case user_stack of Some t \<Rightarrow> t | None \<Rightarrow> 0) s2;
               case r of
                 Inl e \<Rightarrow> ret (Inl e, s3)
               | Inr (switch_addr, fpu_ptr) \<Rightarrow>
                   let m = k_threads s3
                   in ret (Inr tcb_ptr, s3\<lparr>k_threads := m\<lparr>tcbs := (tcbs m)(unat tcb_ptr :=
                          tcb_init tid switch_addr base THREAD_STACK_SIZE fpu_ptr 0 prio proc), nx := (nx m)(unat tcb_ptr := 0)\<rparr>\<rparr>) })"

text \<open>What the reaper gives back to the heap: address, size and alignment, in order.\<close>

definition reap_thread :: "'f fpu_config \<Rightarrow> threads \<Rightarrow> nat \<Rightarrow> (u64 \<times> u64 \<times> u64) list run" where
  "reap_thread cfg m t =
    (let tc = tcbs m t
     in if stack_base tc = 0 then ret []
        else if \<not> layout_fits (stack_size tc) 16 \<or> \<not> layout_fits (fpu_cxt_size cfg) (if use_xsave cfg then 64 else 16) then panic
        else ret [(stack_base tc, stack_size tc, 16),
                  (extended_context tc, fpu_cxt_size cfg, if use_xsave cfg then 64 else 16),
                  (of_nat t, TCB_SIZE, 8)])"

section \<open>The switch\<close>

record 'f cpu =
  regs :: iframe
  gs_swapped :: bool
  fpu :: 'f
  mem_words :: "u64 \<Rightarrow> u64"
  mem_areas :: "u64 \<Rightarrow> 'f"

definition cpu_push :: "u64 \<Rightarrow> 'f cpu \<Rightarrow> 'f cpu" where
  "cpu_push v c = (let sp = stack_pointer (regs c) - 8
     in c\<lparr>regs := (regs c)\<lparr>stack_pointer := sp\<rparr>, mem_words := (mem_words c)(sp := v)\<rparr>)"

definition cpu_pop :: "(iframe \<Rightarrow> u64 \<Rightarrow> iframe) \<Rightarrow> 'f cpu \<Rightarrow> 'f cpu" where
  "cpu_pop put c = (let sp = stack_pointer (regs c)
     in c\<lparr>regs := put ((regs c)\<lparr>stack_pointer := sp + 8\<rparr>) (mem_words c sp)\<rparr>)"

text \<open>
  \<^verbatim>\<open>switch_threads_legacy\<close> and \<^verbatim>\<open>switch_threads_avx\<close>, which differ in the instructions that save and restore the extended
  registers: the callee-saved registers go on the old stack, its pointer to \<open>old_stack_ptr\<close>, and those of the new thread
  come from its stack.
\<close>

definition switch_threads :: "u64 \<Rightarrow> u64 \<Rightarrow> u64 \<Rightarrow> u64 \<Rightarrow> 'f cpu \<Rightarrow> 'f cpu" where
  "switch_threads old_stack_ptr new_stack_ptr old_ext new_ext c =
    (let c1 = cpu_push (fr_r15 (regs c)) (cpu_push (fr_r14 (regs c)) (cpu_push (fr_r13 (regs c)) (cpu_push (fr_r12 (regs c))
                (cpu_push (fr_rbp (regs c)) (cpu_push (fr_rbx (regs c)) c)))));
         c2 = c1\<lparr>mem_areas := (mem_areas c1)(old_ext := fpu c1)\<rparr>;
         c3 = c2\<lparr>mem_words := (mem_words c2)(old_stack_ptr := stack_pointer (regs c2)), regs := (regs c2)\<lparr>stack_pointer := new_stack_ptr\<rparr>\<rparr>;
         c4 = c3\<lparr>fpu := mem_areas c3 new_ext\<rparr>
     in cpu_pop (\<lambda>r v. r\<lparr>instruction_pointer := v\<rparr>) (cpu_pop (\<lambda>r v. r\<lparr>fr_rbx := v\<rparr>) (cpu_pop (\<lambda>r v. r\<lparr>fr_rbp := v\<rparr>)
          (cpu_pop (\<lambda>r v. r\<lparr>fr_r12 := v\<rparr>) (cpu_pop (\<lambda>r v. r\<lparr>fr_r13 := v\<rparr>) (cpu_pop (\<lambda>r v. r\<lparr>fr_r14 := v\<rparr>)
            (cpu_pop (\<lambda>r v. r\<lparr>fr_r15 := v\<rparr>) c4)))))))"

text \<open>The entry stub: the general registers, the swap of the segment base for a program, and the return from interrupt.\<close>

definition thread_entry_stub :: "'f cpu \<Rightarrow> 'f cpu" where
  "thread_entry_stub c =
    (let w = mem_words c; sp = stack_pointer (regs c); f = context_at w sp
     in c\<lparr>regs := (regs c)\<lparr>fr_rax := fr_rax f, fr_rbx := fr_rbx f, fr_rcx := fr_rcx f, fr_rdx := fr_rdx f, fr_rsi := fr_rsi f,
            fr_rdi := fr_rdi f, fr_rbp := fr_rbp f, fr_r8 := fr_r8 f, fr_r9 := fr_r9 f, fr_r10 := fr_r10 f, fr_r11 := fr_r11 f,
            fr_r12 := fr_r12 f, fr_r13 := fr_r13 f, fr_r14 := fr_r14 f, fr_r15 := fr_r15 f,
            instruction_pointer := instruction_pointer f, code_segment := code_segment f, cpu_flags := cpu_flags f,
            stack_pointer := stack_pointer f, stack_segment := stack_segment f\<rparr>,
          gs_swapped := (if w (sp + 8 * 15 + 24) AND 3 = 0 then gs_swapped c else \<not> gs_swapped c)\<rparr>)"

section \<open>Reading back what was written\<close>

lemma offset_eq_iff:
  assumes "k < 2 ^ 60" and "j < 2 ^ 60"
  shows "a + of_nat (8 * k) = (a + of_nat (8 * j) :: u64) \<longleftrightarrow> k = j"
proof -
  have "unat (of_nat (8 * k) :: u64) = 8 * k" "unat (of_nat (8 * j) :: u64) = 8 * j"
    using assms by (simp_all add: unat_of_nat64 del: of_nat_mult)
  then have "(of_nat (8 * k) :: u64) = of_nat (8 * j) \<longleftrightarrow> 8 * k = 8 * j" by metis
  then show ?thesis by (simp only: add_left_cancel) simp
qed

lemma put_words_out:
  "\<forall>k < length xs. x \<noteq> a + of_nat (8 * k) \<Longrightarrow> put_words a xs w x = w x"
proof (induction xs arbitrary: a w)
  case (Cons y ys)
  have "x \<noteq> a" using Cons.prems [rule_format, of 0] by simp
  moreover have "x \<noteq> a + 8 + of_nat (8 * k)" if "k < length ys" for k
    using Cons.prems [rule_format, of "Suc k"] that by (simp add: algebra_simps)
  ultimately show ?case using Cons.IH [of "a + 8"] by simp
qed simp

lemma put_words_in:
  "k < length xs \<Longrightarrow> length xs < 2 ^ 60 \<Longrightarrow> word_at (put_words a xs w) a k = xs ! k"
proof (induction xs arbitrary: a w k)
  case (Cons y ys)
  show ?case
  proof (cases k)
    case 0
    have "a \<noteq> a + 8 + of_nat (8 * j)" if "j < length ys" for j
      using offset_eq_iff [of 0 "Suc j" a] that Cons.prems(2) by (simp add: algebra_simps)
    then have "put_words (a + 8) ys (w(a := y)) a = y" using put_words_out [of ys a "a + 8" "w(a := y)"] by simp
    then show ?thesis using 0 by (simp add: word_at_def)
  next
    case (Suc j)
    then have "word_at (put_words (a + 8) ys (w(a := y))) (a + 8) j = ys ! j" using Cons by simp
    then show ?thesis using Suc by (simp add: word_at_def algebra_simps)
  qed
qed simp

lemma length_context_words [simp]: "length (context_words c) = 22"
  by (simp add: context_words_def)

lemma context_read:
  assumes "\<And>j. j < 22 \<Longrightarrow> word_at w a j = context_words c ! j"
  shows "context_at w a = c"
  using assms [of 0] assms [of 1] assms [of 2] assms [of 3] assms [of 4] assms [of 5] assms [of 6] assms [of 7] assms [of 8]
    assms [of 9] assms [of 10] assms [of 11] assms [of 12] assms [of 13] assms [of 14] assms [of 15] assms [of 16] assms [of 17]
    assms [of 18] assms [of 19] assms [of 20] assms [of 21]
  by (simp add: context_at_def context_words_def)

lemma context_cong:
  assumes "\<And>j. j < 22 \<Longrightarrow> word_at w' a j = word_at w a j"
  shows "context_at w' a = context_at w a"
  by (simp add: context_at_def assms)

section \<open>Where the first stack lies\<close>

text \<open>The 29 words of the frame lie inside of the stack, the context on a multiple of 16.\<close>

lemma frame_bounds:
  fixes base sz ca :: u64
  assumes "unat base + unat sz < 2 ^ 64" and "256 \<le> unat sz" and "ca = ((base + sz) - 176) AND NOT 0xF"
  shows "unat base \<le> unat (ca - 56)" "unat (ca - 56) + 232 \<le> unat base + unat sz" "16 dvd unat ca" "ca - 56 + 56 = ca"
proof -
  have top: "unat (base + sz) = unat base + unat sz" using assms(1) by (simp add: unat_word_ariths)
  then have sub: "unat (base + sz - 176) = unat base + unat sz - 176"
    using assms(2) by (subst unat_sub) (simp_all add: word_le_nat_alt)
  have "unat ca = (unat base + unat sz - 176) div 16 * 16"
    using unat_and_not_mask [of "base + sz - 176" 4] sub assms(3) by (simp add: mask_eq_exp_minus_1)
  then have ca: "16 dvd unat ca" "unat ca \<le> unat base + unat sz - 176" "unat base + unat sz - 192 < unat ca"
    using assms(2) by auto
  then have u: "unat (ca - 56) = unat ca - 56" using assms(2) by (subst unat_sub) (simp_all add: word_le_nat_alt)
  show "unat base \<le> unat (ca - 56)" "unat (ca - 56) + 232 \<le> unat base + unat sz" using u ca assms(2) by auto
  show "16 dvd unat ca" "ca - 56 + 56 = ca" using ca by simp_all
qed

definition outside :: "u64 \<Rightarrow> u64 \<Rightarrow> u64 \<Rightarrow> bool" where
  "outside base sz x \<longleftrightarrow> unat x < unat base \<or> unat base + unat sz \<le> unat x"

lemma outside_frame:
  assumes "unat base + unat sz < 2 ^ 64" and "256 \<le> unat sz" and "ca = ((base + sz) - 176) AND NOT 0xF" and "outside base sz x" and "k < 29"
  shows "x \<noteq> ca - 56 + of_nat (8 * k)"
proof -
  note f = frame_bounds [OF assms(1-3)]
  have "unat (ca - 56) + 8 * k < 2 ^ 64" using f(2) assms(1,5) by linarith
  then have "unat (ca - 56 + of_nat (8 * k)) = unat (ca - 56) + 8 * k" by (rule unat_offset)
  then show ?thesis using assms(4,5) f(1,2) by (auto simp: outside_def)
qed

section \<open>The first switch to a thread\<close>

definition fresh_regs :: "u64 \<Rightarrow> u64 \<Rightarrow> u64 \<Rightarrow> bool \<Rightarrow> iframe \<Rightarrow> iframe" where
  "fresh_regs entry_point arg sp is_user r =
    (zero_gp r)\<lparr>fr_rdi := arg, instruction_pointer := entry_point, stack_pointer := sp, cpu_flags := 0x202,
       code_segment := (if is_user then USER_CS else KERNEL_CS), stack_segment := (if is_user then USER_SS else KERNEL_SS)\<rparr>"

lemma build_stack_frame:
  assumes "build_stack stub entry_point arg base sz is_user user_top w = (sw, w')" and "ca = ((base + sz) - 176) AND NOT 0xF"
    and "unat base + unat sz < 2 ^ 64" and "256 \<le> unat sz"
  shows "sw = ca - 56" "\<And>k. k < 7 \<Longrightarrow> word_at w' sw k = switch_init stub ! k"
    "\<exists>n e. context_at w' ca = (fresh_regs entry_point arg (if is_user then user_top else base + sz - 8) is_user r)\<lparr>interrupt_number := n, error_code := e\<rparr>"
    "\<And>x. outside base sz x \<Longrightarrow> w' x = w x"
proof -
  let ?c = "if is_user then context_init_user entry_point user_top arg (context_at w ca)
    else context_init entry_point (base + sz - 8) arg (context_at w ca)"
  have b: "sw = ca - 56" "w' = put_words (ca - 56) (switch_init stub) (put_words ca (context_words ?c) w)"
    using assms(1,2) by (auto simp: build_stack_def Let_def)
  have ca: "ca - 56 + 56 = ca" by simp
  show "sw = ca - 56" by (fact b)
  show "word_at w' sw k = switch_init stub ! k" if "k < 7" for k
    unfolding b using that by (intro put_words_in) (simp_all add: switch_init_def)
  have apart: "ca + of_nat (8 * j) \<noteq> ca - 56 + of_nat (8 * k)" if "j < 22" "k < 7" for j k
    using offset_eq_iff [of "j + 7" k "ca - 56"] that by (simp add: algebra_simps)
  have "word_at w' ca j = context_words ?c ! j" if "j < 22" for j
  proof -
    have "word_at w' ca j = word_at (put_words ca (context_words ?c) w) ca j"
      unfolding b word_at_def using apart [OF that] by (intro put_words_out) (auto simp: switch_init_def)
    also have "\<dots> = context_words ?c ! j" by (intro put_words_in) (simp_all add: that)
    finally show ?thesis .
  qed
  then have "context_at w' ca = ?c" by (rule context_read)
  then show "\<exists>n e. context_at w' ca = (fresh_regs entry_point arg (if is_user then user_top else base + sz - 8) is_user r)\<lparr>interrupt_number := n, error_code := e\<rparr>"
    by (intro exI [of _ "word_at w ca 15"] exI [of _ "word_at w ca 16"])
      (simp add: context_init_def context_init_user_def fresh_regs_def zero_gp_def context_at_def)
  show "w' x = w x" if "outside base sz x" for x
  proof -
    note o = outside_frame [OF assms(3,4,2) that]
    have "\<forall>k < length (context_words ?c). x \<noteq> ca + of_nat (8 * k)" using o [of "_ + 7"] by (auto simp: algebra_simps)
    moreover have "\<forall>k < length (switch_init stub). x \<noteq> ca - 56 + of_nat (8 * k)" using o by (auto simp: switch_init_def)
    ultimately show ?thesis unfolding b by (simp only: put_words_out)
  qed
qed

text \<open>The slots of the old stack that a switch writes, and the place of the saved stack pointer.\<close>

definition switch_writes :: "u64 \<Rightarrow> 'f cpu \<Rightarrow> u64 set" where
  "switch_writes old_stack_ptr c = insert old_stack_ptr ((\<lambda>k. stack_pointer (regs c) - of_nat (8 * k)) ` {1..6})"

lemma switch_threads_result:
  assumes "\<forall>k < 7. sw + of_nat (8 * k) \<notin> switch_writes old_ptr c" and "old_ext \<noteq> new_ext"
  defines "c' \<equiv> switch_threads old_ptr sw old_ext new_ext c"
  shows "regs c' = (regs c)\<lparr>fr_r15 := word_at (mem_words c) sw 0, fr_r14 := word_at (mem_words c) sw 1, fr_r13 := word_at (mem_words c) sw 2,
      fr_r12 := word_at (mem_words c) sw 3, fr_rbp := word_at (mem_words c) sw 4, fr_rbx := word_at (mem_words c) sw 5,
      instruction_pointer := word_at (mem_words c) sw 6, stack_pointer := sw + 56\<rparr>"
    and "fpu c' = mem_areas c new_ext" and "gs_swapped c' = gs_swapped c"
    and "\<And>x. x \<notin> switch_writes old_ptr c \<Longrightarrow> mem_words c' x = mem_words c x"
proof -
  have w: "switch_writes old_ptr c = {old_ptr, stack_pointer (regs c) - 8, stack_pointer (regs c) - 16, stack_pointer (regs c) - 24,
      stack_pointer (regs c) - 32, stack_pointer (regs c) - 40, stack_pointer (regs c) - 48}"
    by (auto simp: switch_writes_def atLeastAtMost_insertL [symmetric] numeral_eq_Suc)
  show mem: "mem_words c' x = mem_words c x" if "x \<notin> switch_writes old_ptr c" for x
    using that unfolding w by (simp add: c'_def switch_threads_def cpu_push_def cpu_pop_def Let_def algebra_simps)
  show "fpu c' = mem_areas c new_ext" "gs_swapped c' = gs_swapped c"
    using assms(2) by (simp_all add: c'_def switch_threads_def cpu_push_def cpu_pop_def Let_def)
  note n = assms(1) [rule_format]
  show "regs c' = (regs c)\<lparr>fr_r15 := word_at (mem_words c) sw 0, fr_r14 := word_at (mem_words c) sw 1, fr_r13 := word_at (mem_words c) sw 2,
      fr_r12 := word_at (mem_words c) sw 3, fr_rbp := word_at (mem_words c) sw 4, fr_rbx := word_at (mem_words c) sw 5,
      instruction_pointer := word_at (mem_words c) sw 6, stack_pointer := sw + 56\<rparr>"
    using n [of 0] n [of 1] n [of 2] n [of 3] n [of 4] n [of 5] n [of 6] unfolding w
    by (simp add: c'_def switch_threads_def cpu_push_def cpu_pop_def Let_def word_at_def algebra_simps)
qed

lemma frame_inside:
  assumes "unat base + unat sz < 2 ^ 64" and "256 \<le> unat sz" and "ca = ((base + sz) - 176) AND NOT 0xF" and "k < 29"
  shows "\<not> outside base sz (ca - 56 + of_nat (8 * k))"
  using outside_frame [OF assms(1-3) _ assms(4)] by blast

lemma first_switch:
  assumes "build_stack stub entry_point arg base sz is_user user_top w = (sw, w')"
    and "unat base + unat sz < 2 ^ 64" and "256 \<le> unat sz" and "old_ext \<noteq> new_ext"
    and "\<forall>x. \<not> outside base sz x \<longrightarrow> mem_words c x = w' x" and "\<forall>x \<in> switch_writes old_ptr c. outside base sz x"
  defines "c1 \<equiv> switch_threads old_ptr sw old_ext new_ext c"
  shows "instruction_pointer (regs c1) = stub \<and>
    regs (thread_entry_stub c1) = fresh_regs entry_point arg (if is_user then user_top else base + sz - 8) is_user (regs c) \<and>
    fpu (thread_entry_stub c1) = mem_areas c new_ext \<and> gs_swapped (thread_entry_stub c1) = (gs_swapped c \<noteq> is_user)"
proof -
  define ca where "ca = ((base + sz) - 176) AND NOT (0xF :: u64)"
  note b = build_stack_frame [OF assms(1) ca_def assms(2,3)]
  have ins: "\<not> outside base sz (sw + of_nat (8 * k))" if "k < 29" for k
    using frame_inside [OF assms(2,3) ca_def that] b(1) by simp
  have free: "\<forall>k < 7. sw + of_nat (8 * k) \<notin> switch_writes old_ptr c" using ins assms(6) by force
  note r = switch_threads_result [OF free assms(4), folded c1_def]
  have ca: "sw + 56 = ca" using b(1) by simp
  have sp: "stack_pointer (regs c1) = ca" using r(1) ca by simp
  have "word_at (mem_words c) sw 6 = stub" using b(2) [of 6] assms(5) ins [of 6] by (simp add: word_at_def switch_init_def)
  then have ip: "instruction_pointer (regs c1) = stub" using r(1) by simp
  have "word_at (mem_words c1) ca j = word_at w' ca j" if "j < 22" for j
  proof -
    have a: "ca + of_nat (8 * j) = sw + of_nat (8 * (j + 7))" using ca by (simp add: algebra_simps)
    have "\<not> outside base sz (ca + of_nat (8 * j))" unfolding a using ins [of "j + 7"] that by simp
    then show ?thesis using r(4) assms(5,6) by (auto simp: word_at_def)
  qed
  then have same: "context_at (mem_words c1) ca = context_at w' ca" by (rule context_cong)
  obtain n e where f: "context_at (mem_words c1) ca =
      (fresh_regs entry_point arg (if is_user then user_top else base + sz - 8) is_user (regs c1))\<lparr>interrupt_number := n, error_code := e\<rparr>"
    using b(3) [of "regs c1"] same by auto
  have "mem_words c1 (ca + 8 * 15 + 24) = code_segment (context_at (mem_words c1) ca)" by (simp add: context_at_def word_at_def algebra_simps)
  then have "mem_words c1 (ca + 8 * 15 + 24) AND 3 = (if is_user then 3 else 0)"
    using f by (simp add: fresh_regs_def USER_CS_def KERNEL_CS_def)
  moreover have "fresh_regs e1 a1 s1 u1 (regs c1) = fresh_regs e1 a1 s1 u1 (regs c)" for e1 a1 s1 u1
    using r(1) by (simp add: fresh_regs_def zero_gp_def)
  moreover have "regs (thread_entry_stub c1) = fresh_regs entry_point arg (if is_user then user_top else base + sz - 8) is_user (regs c1)"
    using f sp by (simp add: thread_entry_stub_def Let_def fresh_regs_def zero_gp_def)
  ultimately show ?thesis using ip r(2,3) sp by (simp add: thread_entry_stub_def Let_def)
qed

text \<open>
  C7. A new thread starts where and as it was asked to. When the three allocations succeed, creating a thread builds its
  control block, and the first switch to it, from any thread whose stack and control block lie elsewhere, followed by the
  entry stub, leaves the processor at the entry point with the argument in the first argument register, all other
  general registers zero, interrupts enabled, the right stack, the clean extended registers, and the
  selectors and segment base of the kernel or of a program.
\<close>
theorem new_thread_starts:
  assumes "alloc TCB_SIZE 8 (k_heap s) = (t, h1)" and "alloc THREAD_STACK_SIZE 4096 h1 = (base, h2)"
    and "alloc (fpu_cxt_size cfg) (if use_xsave cfg then 64 else 16) h2 = (p, h3)" and "p \<noteq> 0"
    and "layout_fits (fpu_cxt_size cfg) (if use_xsave cfg then 64 else 16)" and "unat base + 16384 < 2 ^ 64"
    and "(if use_xsave cfg then Some (clean_fpu_cxt cfg) else clean_legacy_cxt cfg) = Some f0"
  shows "\<exists>s'. create_tcb alloc cfg stub tid entry_point arg user_stack prio proc s = Some (Inr t, s') \<and>
    (let tc = tcbs (k_threads s') (unat t) in
      tstate tc = Ready \<and> priority tc = prio \<and> process tc = proc \<and>
      (\<forall>c old_ptr old_ext. (\<forall>x. \<not> outside base THREAD_STACK_SIZE x \<longrightarrow> mem_words c x = k_words s' x) \<and> mem_areas c p = k_areas s' p \<and>
          old_ext \<noteq> p \<and> (\<forall>x \<in> switch_writes old_ptr c. outside base THREAD_STACK_SIZE x) \<longrightarrow>
        (let c1 = switch_threads old_ptr (stack_ptr tc) old_ext (extended_context tc) c; c2 = thread_entry_stub c1 in
          instruction_pointer (regs c1) = stub \<and> fpu c2 = f0 \<and> gs_swapped c2 = (gs_swapped c \<noteq> (user_stack \<noteq> None)) \<and>
          regs c2 = fresh_regs entry_point arg (case user_stack of Some ut \<Rightarrow> ut | None \<Rightarrow> base + THREAD_STACK_SIZE - 8)
            (user_stack \<noteq> None) (regs c))))"
proof -
  let ?w = "put_words base (replicate (unat THREAD_STACK_SIZE div 8) 0) (k_words s)" and ?u = "user_stack \<noteq> None"
  let ?top = "case user_stack of Some ut \<Rightarrow> ut | None \<Rightarrow> 0"
  obtain sw w' where b: "build_stack stub entry_point arg base THREAD_STACK_SIZE ?u ?top ?w = (sw, w')" by fastforce
  define m where "m = (k_threads s)\<lparr>tcbs := (tcbs (k_threads s))(unat t := tcb_init tid sw base THREAD_STACK_SIZE p 0 prio proc),
    nx := (nx (k_threads s))(unat t := 0)\<rparr>"
  define s' where "s' = s\<lparr>k_heap := h3, k_words := w', k_areas := (k_areas s)(p := f0), k_threads := m\<rparr>"
  have sz: "unat THREAD_STACK_SIZE = 16384" by (simp add: THREAD_STACK_SIZE_def)
  have bd: "unat base + unat THREAD_STACK_SIZE < 2 ^ 64" "256 \<le> unat THREAD_STACK_SIZE" using assms(6) sz by simp_all
  have run: "create_tcb alloc cfg stub tid entry_point arg user_stack prio proc s = Some (Inr t, s')"
    using assms(1-5,7) b by (cases "use_xsave cfg") (auto simp: create_tcb_def init_thread_stack_def fpu_area_def Let_def s'_def m_def)
  have tc: "tcbs m (unat t) = tcb_init tid sw base THREAD_STACK_SIZE p 0 prio proc" by (simp add: m_def)
  have top: "(if ?u then ?top else base + THREAD_STACK_SIZE - 8) = (case user_stack of Some ut \<Rightarrow> ut | None \<Rightarrow> base + THREAD_STACK_SIZE - 8)"
    by (cases user_stack) auto
  show ?thesis
  proof (intro exI [of _ s'] conjI run, unfold Let_def, intro conjI allI impI; (elim conjE)?)
    fix c :: "'b cpu" and old_ptr old_ext
    assume h: "\<forall>x. \<not> outside base THREAD_STACK_SIZE x \<longrightarrow> mem_words c x = k_words s' x" "mem_areas c p = k_areas s' p" "old_ext \<noteq> p"
      "\<forall>x \<in> switch_writes old_ptr c. outside base THREAD_STACK_SIZE x"
    have agree: "\<forall>x. \<not> outside base THREAD_STACK_SIZE x \<longrightarrow> mem_words c x = w' x" using h(1) by (simp add: s'_def)
    note f = first_switch [OF b bd h(3) agree h(4)]
    let ?tc = "tcbs (k_threads s') (unat t)"
    have x: "stack_ptr ?tc = sw" "extended_context ?tc = p" using tc by (simp_all add: s'_def tcb_init_def)
    show "instruction_pointer (regs (switch_threads old_ptr (stack_ptr ?tc) old_ext (extended_context ?tc) c)) = stub"
      "fpu (thread_entry_stub (switch_threads old_ptr (stack_ptr ?tc) old_ext (extended_context ?tc) c)) = f0"
      "gs_swapped (thread_entry_stub (switch_threads old_ptr (stack_ptr ?tc) old_ext (extended_context ?tc) c)) = (gs_swapped c \<noteq> ?u)"
      "regs (thread_entry_stub (switch_threads old_ptr (stack_ptr ?tc) old_ext (extended_context ?tc) c)) =
        fresh_regs entry_point arg (case user_stack of Some ut \<Rightarrow> ut | None \<Rightarrow> base + THREAD_STACK_SIZE - 8) ?u (regs c)"
      unfolding x using f h(2) top by (simp_all add: s'_def)
  qed (simp_all add: s'_def tc tcb_init_def)
qed

section \<open>Switching back\<close>

text \<open>
  Between two switches the other threads leave the stack, the saved pointer and the saved registers of the first thread
  alone; then the second switch brings back its callee-saved registers, its stack pointer (at the return address
  of the call) and its extended registers.
\<close>

lemma switch_roundtrip:
  assumes "c1 = switch_threads ptr_a sp_b ext_a ext_b c" and "ext_a \<noteq> ext_b" and "ptr_a \<notin> (\<lambda>k. stack_pointer (regs c) - of_nat (8 * k)) ` {1..6}"
    and "sp_a = mem_words c1 ptr_a"
    and "\<forall>k < 7. mem_words d (sp_a + of_nat (8 * k)) = mem_words c1 (sp_a + of_nat (8 * k))" and "mem_areas d ext_a = mem_areas c1 ext_a"
    and "\<forall>k < 7. sp_a + of_nat (8 * k) \<notin> switch_writes ptr_b d" and "ptr_a \<noteq> stack_pointer (regs c)"
  defines "r \<equiv> switch_threads ptr_b sp_a ext_b ext_a d"
  shows "sp_a = stack_pointer (regs c) - 48 \<and> fpu r = fpu c \<and> stack_pointer (regs r) = stack_pointer (regs c) + 8 \<and>
    instruction_pointer (regs r) = mem_words c (stack_pointer (regs c)) \<and> fr_rbx (regs r) = fr_rbx (regs c) \<and> fr_rbp (regs r) = fr_rbp (regs c) \<and>
    fr_r12 (regs r) = fr_r12 (regs c) \<and> fr_r13 (regs r) = fr_r13 (regs c) \<and> fr_r14 (regs r) = fr_r14 (regs c) \<and> fr_r15 (regs r) = fr_r15 (regs c)"
proof -
  let ?sp = "stack_pointer (regs c)"
  have img: "(\<lambda>k. ?sp - of_nat (8 * k)) ` {1..6} = {?sp - 8, ?sp - 16, ?sp - 24, ?sp - 32, ?sp - 40, ?sp - 48}"
    by (auto simp: atLeastAtMost_insertL [symmetric] numeral_eq_Suc)
  have ne: "ptr_a \<noteq> ?sp - 8" "ptr_a \<noteq> ?sp - 16" "ptr_a \<noteq> ?sp - 24" "ptr_a \<noteq> ?sp - 32" "ptr_a \<noteq> ?sp - 40" "ptr_a \<noteq> ?sp - 48"
    using assms(3) unfolding img by auto
  have sp: "sp_a = ?sp - 48" using ne assms(4)
    by (simp add: assms(1) switch_threads_def cpu_push_def cpu_pop_def Let_def algebra_simps)
  have area: "mem_areas c1 ext_a = fpu c" by (simp add: assms(1) switch_threads_def cpu_push_def cpu_pop_def Let_def)
  have saved: "mem_words c1 (?sp - 48) = fr_r15 (regs c)" "mem_words c1 (?sp - 40) = fr_r14 (regs c)" "mem_words c1 (?sp - 32) = fr_r13 (regs c)"
    "mem_words c1 (?sp - 24) = fr_r12 (regs c)" "mem_words c1 (?sp - 16) = fr_rbp (regs c)" "mem_words c1 (?sp - 8) = fr_rbx (regs c)"
    "mem_words c1 ?sp = mem_words c ?sp"
    using ne assms(8) by (simp_all add: assms(1) switch_threads_def cpu_push_def cpu_pop_def Let_def diff_diff_add)
  note w = assms(5) [rule_format]
  note f = switch_threads_result [OF assms(7) assms(2) [symmetric], folded r_def]
  show ?thesis
    using f(1,2) w [of 0] w [of 1] w [of 2] w [of 3] w [of 4] w [of 5] w [of 6] saved area assms(6) sp
    by (simp add: word_at_def algebra_simps)
qed

section \<open>Reaping\<close>

text \<open>
  The reaper returns each block of a thread to the heap with the address and size it was allocated with. The stack's
  alignment differs from the one asked for, which the heap does not look at for a block of several pages.
\<close>

lemma reaped_blocks:
  assumes "tcbs m (unat t) = tcb_init tid sw base THREAD_STACK_SIZE p 0 prio proc" and "base \<noteq> 0"
    and "layout_fits (fpu_cxt_size cfg) (if use_xsave cfg then 64 else 16)"
  shows "reap_thread cfg m (unat t) =
    Some [(base, THREAD_STACK_SIZE, 16), (p, fpu_cxt_size cfg, if use_xsave cfg then 64 else 16), (t, TCB_SIZE, 8)]"
  using assms by (simp add: reap_thread_def tcb_init_def Let_def layout_fits_def THREAD_STACK_SIZE_def)

section \<open>Witness\<close>

definition bump :: "u64 allocator" where
  "bump sz al h = (h, h + 0x10000)"

definition kstate0 :: "(u64, nat) kstate" where
  "kstate0 = \<lparr>k_words = (\<lambda>_. 0), k_areas = (\<lambda>_. 0), k_heap = 0x100000, k_threads = sample_threads\<rparr>"

definition config0 :: "nat fpu_config" where
  "config0 = \<lparr>use_xsave = True, fpu_cxt_size = 832, clean_fpu_cxt = 7, clean_legacy_cxt = None\<rparr>"

theorem new_thread_starts_witness:
  "\<exists>s'. create_tcb bump config0 0x5000 9 0x400000 42 (Some 0x7FFF000) HIGH 3 kstate0 = Some (Inr 0x100000, s') \<and>
     tstate (tcbs (k_threads s') (unat (0x100000 :: u64))) = Ready"
proof -
  have "layout_fits 832 64" by (simp add: layout_fits_def)
  with new_thread_starts [of bump kstate0 "0x100000" "0x110000" "0x110000" "0x120000" config0 "0x120000" "0x130000" 7 "0x5000" 9 "0x400000" 42
      "Some 0x7FFF000" HIGH 3]
  show ?thesis by (auto simp: bump_def kstate0_def config0_def Let_def)
qed

end
