(* ===== verification/Apic.thy ===== *)
theory Apic
  imports Bitflags
begin

text \<open>
  Interrupt controllers and the calibration of the timers: \<^verbatim>\<open>kernel/src/arch/x86_64/apic/\<close> (\<^verbatim>\<open>lapic.rs\<close>, \<^verbatim>\<open>ioapic.rs\<close>) and
  \<^verbatim>\<open>timer/mod.rs\<close>. An operation is the list of its volatile writes to memory or to model specific registers; what a
  read returns is an argument. The local controller has two drivers, one for each mode of the hardware.
\<close>

section \<open>Accesses\<close>

datatype io = Mmio u64 u32 | Msr u32 u64

definition SV_OFFSET :: u64 where "SV_OFFSET = 0xF0"
definition EOI_OFFSET :: u64 where "EOI_OFFSET = 0xB0"
definition TIMER_LVT_OFFSET :: u64 where "TIMER_LVT_OFFSET = 0x320"
definition LAPIC_ID_OFFSET :: u64 where "LAPIC_ID_OFFSET = 0x20"
definition TPR_OFFSET :: u64 where "TPR_OFFSET = 0x80"
definition DIVIDE_CONFIG_OFFSET :: u64 where "DIVIDE_CONFIG_OFFSET = 0x3E0"
definition INIT_COUNT_OFFSET :: u64 where "INIT_COUNT_OFFSET = 0x380"
definition CURRENT_COUNT_OFFSET :: u64 where "CURRENT_COUNT_OFFSET = 0x390"
definition IA32_APIC_BASE :: u32 where "IA32_APIC_BASE = 0x1B"

datatype timer_mode = OneShotMode | PeriodicMode | TscDeadlineMode

definition timer_mode_bits :: "timer_mode \<Rightarrow> u32" where
  "timer_mode_bits m = (case m of OneShotMode \<Rightarrow> 0x00000 | PeriodicMode \<Rightarrow> 0x20000 | TscDeadlineMode \<Rightarrow> 0x40000)"

text \<open>The two drivers hold their base: an address, or the number of the first register.\<close>

datatype apic_mode = XApic u64 | X2Apic u64

section \<open>Registers\<close>

definition xapic_write_reg :: "u64 \<Rightarrow> u64 \<Rightarrow> u32 \<Rightarrow> io list" where
  "xapic_write_reg base_addr off v = [Mmio (base_addr + off) v]"

definition x2apic_write_reg :: "u64 \<Rightarrow> u64 \<Rightarrow> u32 \<Rightarrow> io list" where
  "x2apic_write_reg base_addr off v = [Msr (ucast (base_addr + drop_bit 4 off)) (ucast v)]"

definition write_reg :: "apic_mode \<Rightarrow> u64 \<Rightarrow> u32 \<Rightarrow> io list" where
  "write_reg m off v = (case m of XApic b \<Rightarrow> xapic_write_reg b off v | X2Apic b \<Rightarrow> x2apic_write_reg b off v)"

text \<open>A register is read at an address in memory (\<open>rdm\<close>) or by its number (\<open>rds\<close>).\<close>

definition read_reg :: "(u64 \<Rightarrow> u32) \<Rightarrow> (u32 \<Rightarrow> u64) \<Rightarrow> apic_mode \<Rightarrow> u64 \<Rightarrow> u32" where
  "read_reg rdm rds m off = (case m of XApic b \<Rightarrow> rdm (b + off) | X2Apic b \<Rightarrow> ucast (rds (ucast (b + drop_bit 4 off))))"

section \<open>The driver\<close>

definition apic_eoi :: "apic_mode \<Rightarrow> io list" where
  "apic_eoi m = write_reg m EOI_OFFSET 0"

definition apic_id :: "(u64 \<Rightarrow> u32) \<Rightarrow> (u32 \<Rightarrow> u64) \<Rightarrow> apic_mode \<Rightarrow> u32" where
  "apic_id rdm rds m = read_reg rdm rds m LAPIC_ID_OFFSET"

definition timer_setup :: "apic_mode \<Rightarrow> u8 \<Rightarrow> u32 \<Rightarrow> timer_mode \<Rightarrow> io list" where
  "timer_setup m vector init_count mode =
    write_reg m DIVIDE_CONFIG_OFFSET 0x03 @ write_reg m TIMER_LVT_OFFSET (timer_mode_bits mode OR ucast vector) @
    write_reg m INIT_COUNT_OFFSET (if mode = TscDeadlineMode then 0 else init_count)"

definition stop_timer :: "apic_mode \<Rightarrow> io list" where
  "stop_timer m = write_reg m INIT_COUNT_OFFSET 0"

definition current_count :: "(u64 \<Rightarrow> u32) \<Rightarrow> (u32 \<Rightarrow> u64) \<Rightarrow> apic_mode \<Rightarrow> u64" where
  "current_count rdm rds m = ucast (read_reg rdm rds m CURRENT_COUNT_OFFSET)"

definition arm_oneshot :: "apic_mode \<Rightarrow> u32 \<Rightarrow> io list" where
  "arm_oneshot m ticks = write_reg m INIT_COUNT_OFFSET ticks"

definition send_ipi :: "apic_mode \<Rightarrow> u32 \<Rightarrow> u32 \<Rightarrow> io list" where
  "send_ipi m target_id vector =
    (case m of
       XApic b \<Rightarrow> xapic_write_reg b 0x310 (push_bit 24 target_id) @ xapic_write_reg b 0x300 (vector OR 0x4000)
     | X2Apic b \<Rightarrow> [Msr 0x830 (push_bit 32 (ucast target_id) OR 0x4000 OR ucast vector)])"

text \<open>
  Which mode is used: \<open>apic_base_msr\<close> is the value of the base register, \<open>feats\<close> the feature bits. The register reads back what was
  written to it.
\<close>

definition get_apic_base :: "u64 \<Rightarrow> u64" where "get_apic_base apic_base_msr = apic_base_msr AND NOT 0xFFF"
definition get_apic_flags :: "u64 \<Rightarrow> u64" where "get_apic_flags apic_base_msr = apic_base_msr AND 0xFFF"

definition newbase :: "u64 \<Rightarrow> u64" where
  "newbase apic_base_msr = get_apic_base apic_base_msr OR get_apic_flags apic_base_msr OR push_bit 10 1"

definition check_enable_x2apic :: "u64 \<Rightarrow> u32 \<Rightarrow> bool \<times> u64 \<times> io list" where
  "check_enable_x2apic apic_base_msr feats =
    (if check_bit_at (get_apic_flags apic_base_msr) 10 then (True, apic_base_msr, [])
     else if check_bit_at feats 21 then (True, newbase apic_base_msr, [Msr IA32_APIC_BASE (newbase apic_base_msr)])
     else (False, apic_base_msr, []))"

text \<open>
  The two \<^verbatim>\<open>init\<close> functions, after the old controller is masked: \<open>sv\<close> is the value read from the spurious vector register.
\<close>

definition apic_init :: "apic_mode \<Rightarrow> u64 \<Rightarrow> u32 \<Rightarrow> io list" where
  "apic_init m apic_base_msr sv =
    (case m of XApic _ \<Rightarrow> []
     | X2Apic _ \<Rightarrow> if check_bit_at (get_apic_flags apic_base_msr) 10 then [] else [Msr IA32_APIC_BASE (newbase apic_base_msr)]) @
    write_reg m SV_OFFSET (sv OR push_bit 8 1 OR 0xFF) @ write_reg m TPR_OFFSET 0"

definition init_local_apic :: "u64 \<Rightarrow> u64 \<Rightarrow> u32 \<Rightarrow> u32 \<Rightarrow> apic_mode \<times> io list" where
  "init_local_apic hhdm apic_base_msr feats sv =
    (case check_enable_x2apic apic_base_msr feats of (x2, msr, ios) \<Rightarrow>
       let m = (if x2 then X2Apic 0x800 else XApic (get_apic_base msr + hhdm)) in (m, ios @ apic_init m msr sv))"

section \<open>What the controller sees\<close>

text \<open>
  The documented register map: in memory a register lies at its offset from the base, and an interrupt is sent by writing the
  target to 0x310 and then the command to 0x300; as model specific registers, register \<open>r\<close> is
  number 0x800 plus \<open>r\<close> divided by 16, the command is the single register 0x830, and the base register 0x1B is not one of them.
\<close>

datatype apic_event = RegWrite u64 u32 | Ipi u32 u32

fun xapic_events :: "u64 \<Rightarrow> u32 \<Rightarrow> io list \<Rightarrow> apic_event list" where
  "xapic_events b dest [] = []"
| "xapic_events b dest (Mmio a v # ios) =
    (if a = b + 0x310 then xapic_events b (drop_bit 24 v) ios
     else if a = b + 0x300 then Ipi dest v # xapic_events b dest ios
     else RegWrite (a - b) v # xapic_events b dest ios)"
| "xapic_events b dest (Msr r v # ios) = xapic_events b dest ios"

fun x2apic_events :: "io list \<Rightarrow> apic_event list" where
  "x2apic_events [] = []"
| "x2apic_events (Msr r v # ios) =
    (if r = 0x830 then Ipi (ucast (drop_bit 32 v)) (ucast v) # x2apic_events ios
     else if r = IA32_APIC_BASE then x2apic_events ios
     else RegWrite (push_bit 4 (ucast r - 0x800)) (ucast v) # x2apic_events ios)"
| "x2apic_events (Mmio a v # ios) = x2apic_events ios"

datatype apic_op = Eoi | TimerSetup u8 u32 timer_mode | StopTimer | ArmOneshot u32 | SendIpi u32 u32 | Init u64 u32

definition apic_do :: "apic_mode \<Rightarrow> apic_op \<Rightarrow> io list" where
  "apic_do m op =
    (case op of Eoi \<Rightarrow> apic_eoi m | TimerSetup v n md \<Rightarrow> timer_setup m v n md | StopTimer \<Rightarrow> stop_timer m
     | ArmOneshot n \<Rightarrow> arm_oneshot m n | SendIpi t v \<Rightarrow> send_ipi m t v | Init msr sv \<Rightarrow> apic_init m msr sv)"

lemmas apic_offsets = SV_OFFSET_def EOI_OFFSET_def TIMER_LVT_OFFSET_def LAPIC_ID_OFFSET_def TPR_OFFSET_def DIVIDE_CONFIG_OFFSET_def
  INIT_COUNT_OFFSET_def CURRENT_COUNT_OFFSET_def

lemma u32_up_down [simp]: "ucast (ucast (x :: u32) :: u64) = x"
  by (rule bit_word_eqI) (simp add: bit_simps)

lemma x2_ipi_fields:
  "ucast (drop_bit 32 (push_bit 32 (ucast (t :: u32))) OR drop_bit 32 (ucast (v :: u32)) :: u64) = t"
  "ucast (push_bit 32 (ucast (t :: u32)) OR 0x4000 OR ucast (v :: u32) :: u64) = (v OR 0x4000 :: u32)"
proof -
  show "ucast (drop_bit 32 (push_bit 32 (ucast t)) OR drop_bit 32 (ucast v) :: u64) = t"
    by (rule bit_word_eqI) (auto simp: bit_simps dest: bit_imp_le_length)
  have "ucast (push_bit 32 (ucast t) OR 0x4000 OR ucast v :: u64) = (ucast (0x4000 :: u64) OR v :: u32)"
    by (rule bit_word_eqI) (auto simp: bit_simps)
  then show "ucast (push_bit 32 (ucast t) OR 0x4000 OR ucast v :: u64) = (v OR 0x4000 :: u32)"
    by (simp add: or.commute)
qed

definition op_events :: "apic_op \<Rightarrow> apic_event list" where
  "op_events op =
    (case op of Eoi \<Rightarrow> [RegWrite 0xB0 0]
     | TimerSetup v n md \<Rightarrow> [RegWrite 0x3E0 3, RegWrite 0x320 (timer_mode_bits md OR ucast v), RegWrite 0x380 (if md = TscDeadlineMode then 0 else n)]
     | StopTimer \<Rightarrow> [RegWrite 0x380 0] | ArmOneshot n \<Rightarrow> [RegWrite 0x380 n] | SendIpi t v \<Rightarrow> [Ipi t (v OR 0x4000)]
     | Init msr sv \<Rightarrow> [RegWrite 0xF0 (sv OR push_bit 8 1 OR 0xFF), RegWrite 0x80 0])"

lemma xapic_op:
  assumes "case op of SendIpi t v \<Rightarrow> t < 256 | _ \<Rightarrow> True"
  shows "\<exists>d'. xapic_events b d (apic_do (XApic b) op @ ios) = op_events op @ xapic_events b d' ios"
proof (cases op)
  case (SendIpi t v)
  have "drop_bit 24 (push_bit 24 t) = take_bit 8 t" by (rule bit_word_eqI) (auto simp: bit_simps)
  also have "\<dots> = t" using assms SendIpi by (simp add: word_unat_eq_iff unsigned_take_bit_eq take_bit_nat_eq_self word_less_nat_alt)
  finally have "drop_bit 24 (push_bit 24 t) = t" .
  then show ?thesis using SendIpi by (auto simp: apic_do_def send_ipi_def xapic_write_reg_def op_events_def)
qed (simp_all add: apic_do_def apic_eoi_def timer_setup_def stop_timer_def arm_oneshot_def apic_init_def write_reg_def xapic_write_reg_def
    op_events_def apic_offsets exI)

lemma x2apic_op: "x2apic_events (apic_do (X2Apic 0x800) op @ ios) = op_events op @ x2apic_events ios"
  by (cases op)
    (simp_all add: apic_do_def apic_eoi_def timer_setup_def stop_timer_def arm_oneshot_def apic_init_def write_reg_def x2apic_write_reg_def
      send_ipi_def x2_ipi_fields op_events_def apic_offsets IA32_APIC_BASE_def)

text \<open>
  The two drivers of the local interrupt controller do the same: for any sequence of operations in which the targets of
  interrupts are below 256, the controller sees the same register writes and interrupts in both modes.
\<close>
theorem apic_modes_agree:
  assumes "\<forall>op \<in> set ops. case op of SendIpi t v \<Rightarrow> t < 256 | _ \<Rightarrow> True"
  shows "xapic_events b d (concat (map (apic_do (XApic b)) ops)) = x2apic_events (concat (map (apic_do (X2Apic 0x800)) ops)) \<and>
    x2apic_events (concat (map (apic_do (X2Apic 0x800)) ops)) = concat (map op_events ops)"
  using assms
proof (induction ops arbitrary: d)
  case (Cons op ops)
  obtain d' where "xapic_events b d (apic_do (XApic b) op @ concat (map (apic_do (XApic b)) ops)) =
      op_events op @ xapic_events b d' (concat (map (apic_do (XApic b)) ops))"
    using xapic_op [of op b d "concat (map (apic_do (XApic b)) ops)"] Cons.prems by auto
  then show ?case using Cons.IH [of d'] Cons.prems x2apic_op [of op] by simp
qed simp

theorem apic_modes_agree_witness:
  "xapic_events 0xFEE00000 0 (concat (map (apic_do (XApic 0xFEE00000)) [Init 0xFEE00900 0, SendIpi 3 64, Eoi])) =
     [RegWrite 0xF0 0x1FF, RegWrite 0x80 0, Ipi 3 0x4040, RegWrite 0xB0 0]"
  using apic_modes_agree [of "[Init 0xFEE00900 0, SendIpi 3 64, Eoi]" "0xFEE00000" 0] by (simp add: op_events_def)

text \<open>In the memory-mapped mode a target of 256 or more loses its upper bits.\<close>

lemma wide_target_truncated:
  "xapic_events b d (send_ipi (XApic b) 0x103 v) = [Ipi 3 (v OR 0x4000)]"
  by (simp add: send_ipi_def xapic_write_reg_def)

section \<open>The redirection table\<close>

definition IOREGSEL_OFFSET :: u64 where "IOREGSEL_OFFSET = 0x00"
definition IOWIN_OFFSET :: u64 where "IOWIN_OFFSET = 0x10"
definition IOREDTBL_BASE :: u8 where "IOREDTBL_BASE = 0x10"

record ioapic =
  io_base :: u64
  gsi_base :: u64

definition ioapic_init :: "u64 \<Rightarrow> u64 \<Rightarrow> u64 \<Rightarrow> ioapic" where
  "ioapic_init hhdm addr gsi = \<lparr>io_base = addr + hhdm, gsi_base = gsi\<rparr>"

definition io_write_reg :: "ioapic \<Rightarrow> u8 \<Rightarrow> u32 \<Rightarrow> io list" where
  "io_write_reg a reg v = [Mmio (io_base a + IOREGSEL_OFFSET) (ucast reg), Mmio (io_base a + IOWIN_OFFSET) v]"

text \<open>A read selects its register and returns the given value. \<open>version\<close> is what register 1 holds; the index is a byte and wraps.\<close>

definition io_select :: "ioapic \<Rightarrow> u8 \<Rightarrow> io list" where
  "io_select a reg = [Mmio (io_base a + IOREGSEL_OFFSET) (ucast reg)]"

definition mask_all :: "ioapic \<Rightarrow> u32 \<Rightarrow> io list" where
  "mask_all a version =
    (let max_entry = (ucast (drop_bit 16 version AND 0xFF) :: u8)
     in io_select a 0x01 @
        concat (map (\<lambda>k. let i = of_nat k
          in io_write_reg a (IOREDTBL_BASE + i * 2) (push_bit 16 1) @ io_write_reg a (IOREDTBL_BASE + i * 2 + 1) 0) [0..<Suc (unat max_entry)]))"

definition entry_low :: "u8 \<Rightarrow> bool \<Rightarrow> bool \<Rightarrow> bool \<Rightarrow> u32" where
  "entry_low vector masked active_high edge_triggered =
    ucast vector OR (if masked then push_bit 16 1 else 0) OR (if \<not> active_high then push_bit 13 1 else 0) OR
      (if \<not> edge_triggered then push_bit 15 1 else 0)"

definition set_entry :: "ioapic \<Rightarrow> u32 \<Rightarrow> u8 \<Rightarrow> u32 \<Rightarrow> bool \<Rightarrow> bool \<Rightarrow> bool \<Rightarrow> io list" where
  "set_entry a gsi vector lapic_id masked active_high edge_triggered =
    (if gsi < ucast (gsi_base a) then []
     else let rel_gsi = (ucast (gsi - ucast (gsi_base a)) :: u8)
          in io_write_reg a (IOREDTBL_BASE + rel_gsi * 2) (entry_low vector masked active_high edge_triggered) @
             io_write_reg a (IOREDTBL_BASE + rel_gsi * 2 + 1) (push_bit 24 lapic_id))"

text \<open>The documented device: one register selects, the other is a window on the selected register.\<close>

fun io_regs :: "u64 \<Rightarrow> u32 \<times> (u32 \<Rightarrow> u32) \<Rightarrow> io list \<Rightarrow> u32 \<times> (u32 \<Rightarrow> u32)" where
  "io_regs b st [] = st"
| "io_regs b (sel, r) (Mmio a v # ios) =
    (if a = b then io_regs b (v, r) ios else if a = b + 0x10 then io_regs b (sel, r(sel := v)) ios else io_regs b (sel, r) ios)"
| "io_regs b st (Msr n v # ios) = io_regs b st ios"

lemma io_regs_write: "io_regs (io_base a) (sel, r) (io_write_reg a reg v @ ios) = io_regs (io_base a) (ucast reg, r(ucast reg := v)) ios"
  by (simp add: io_write_reg_def IOREGSEL_OFFSET_def IOWIN_OFFSET_def)

text \<open>
  Routing an interrupt of the controller's first 24 lines programs its table entry with the vector, the mask, the polarity, the
  trigger mode and the target, and no other register.
\<close>

lemma set_entry_programs:
  assumes "ucast (gsi_base a) \<le> gsi" and "k = gsi - ucast (gsi_base a)" and "k < 24" and "gsi_base a < 2 ^ 32"
  shows "snd (io_regs (io_base a) (sel, r) (set_entry a gsi vector lapic masked high edge)) =
    r(0x10 + 2 * k := entry_low vector masked high edge, 0x11 + 2 * k := push_bit 24 lapic)"
proof -
  have k: "unat k < 24" using assms(3) by (simp add: word_less_nat_alt)
  have u: "unat (ucast k :: u8) = unat k" using k by (simp add: unsigned_ucast_eq take_bit_nat_eq_self)
  have "unat (IOREDTBL_BASE + ucast k * 2) = 16 + 2 * unat k" "unat (IOREDTBL_BASE + ucast k * 2 + 1) = 17 + 2 * unat k"
    using u k by (simp_all add: unat_word_ariths IOREDTBL_BASE_def)
  moreover have "unat (0x10 + 2 * k) = 16 + 2 * unat k" "unat (0x11 + 2 * k) = 17 + 2 * unat k"
    using k by (simp_all add: unat_word_ariths)
  ultimately have "ucast (IOREDTBL_BASE + ucast k * 2) = 0x10 + 2 * k" "ucast (IOREDTBL_BASE + ucast k * 2 + 1) = 0x11 + 2 * k"
    using k by (simp_all add: word_unat_eq_iff unsigned_ucast_eq take_bit_nat_eq_self del: unat_plus_if' unat_mult_lem)
  moreover have "\<not> gsi < ucast (gsi_base a)" using assms(1) by (simp add: not_less)
  ultimately show ?thesis unfolding set_entry_def assms(2) [symmetric] Let_def
    by (simp add: io_regs_write io_regs_write [where ios = "[]", unfolded append_Nil2])
qed

text \<open>Masking leaves every entry of the table masked, for a controller with at most 120 entries.\<close>

definition mask_entry :: "ioapic \<Rightarrow> nat \<Rightarrow> io list" where
  "mask_entry a k = (let i = of_nat k
     in io_write_reg a (IOREDTBL_BASE + i * 2) (push_bit 16 1) @ io_write_reg a (IOREDTBL_BASE + i * 2 + 1) 0)"

lemma mask_entry_registers:
  assumes "k < 120"
  shows "ucast (IOREDTBL_BASE + of_nat k * 2) = (of_nat (16 + 2 * k) :: u32)" "ucast (IOREDTBL_BASE + of_nat k * 2 + 1) = (of_nat (17 + 2 * k) :: u32)"
proof -
  have "unat (of_nat k :: u8) = k" using assms by (simp add: unsigned_of_nat take_bit_nat_eq_self)
  then have "unat (IOREDTBL_BASE + of_nat k * 2) = 16 + 2 * k" "unat (IOREDTBL_BASE + of_nat k * 2 + 1) = 17 + 2 * k"
    using assms by (simp_all add: unat_word_ariths IOREDTBL_BASE_def)
  moreover have "unat (of_nat (16 + 2 * k) :: u32) = 16 + 2 * k" "unat (of_nat (17 + 2 * k) :: u32) = 17 + 2 * k"
    using assms by (simp_all only: unsigned_of_nat) (simp_all add: take_bit_nat_eq_self)
  ultimately show "ucast (IOREDTBL_BASE + of_nat k * 2) = (of_nat (16 + 2 * k) :: u32)"
      "ucast (IOREDTBL_BASE + of_nat k * 2 + 1) = (of_nat (17 + 2 * k) :: u32)"
    using assms by (simp_all only: word_unat_eq_iff unsigned_ucast_eq) (simp_all add: take_bit_nat_eq_self)
qed

lemma mask_entries:
  assumes "n \<le> 120"
  shows "\<exists>sel' r'. (\<forall>ios. io_regs (io_base a) (sel, r) (concat (map (mask_entry a) [0..<n]) @ ios) = io_regs (io_base a) (sel', r') ios) \<and>
    (\<forall>k < n. r' (of_nat (16 + 2 * k)) = 0x10000)"
  using assms
proof (induction n)
  case (Suc n)
  then obtain sel' r' where h: "\<And>ios. io_regs (io_base a) (sel, r) (concat (map (mask_entry a) [0..<n]) @ ios) = io_regs (io_base a) (sel', r') ios"
    "\<forall>k < n. r' (of_nat (16 + 2 * k)) = 0x10000" by auto
  have n: "n < 120" using Suc.prems by simp
  let ?r = "r'(of_nat (16 + 2 * n) := 0x10000, of_nat (17 + 2 * n) := 0)"
  have step: "io_regs (io_base a) (sel', r') (mask_entry a n @ ios) = io_regs (io_base a) (of_nat (17 + 2 * n), ?r) ios" for ios
    unfolding mask_entry_def Let_def append_assoc io_regs_write mask_entry_registers [OF n] by (simp add: push_bit_eq_mult)
  have u: "unat (of_nat j :: u32) = j" if "j < 300" for j using that by (simp add: unsigned_of_nat take_bit_nat_eq_self)
  have "(of_nat (16 + 2 * k) :: u32) \<noteq> of_nat (17 + 2 * n)" if "k < Suc n" for k
  proof
    assume "(of_nat (16 + 2 * k) :: u32) = of_nat (17 + 2 * n)"
    then have "unat (of_nat (16 + 2 * k) :: u32) = unat (of_nat (17 + 2 * n) :: u32)" by (rule arg_cong)
    then have "16 + 2 * k = 17 + 2 * n" using that n by (simp only: u)
    then show False by presburger
  qed
  then have "\<forall>k < Suc n. ?r (of_nat (16 + 2 * k)) = 0x10000" using h(2) by (auto simp: less_Suc_eq simp del: of_nat_add of_nat_mult)
  moreover have "\<forall>ios. io_regs (io_base a) (sel, r) (concat (map (mask_entry a) [0..<Suc n]) @ ios) = io_regs (io_base a) (of_nat (17 + 2 * n), ?r) ios"
    using h(1) by (simp only: upt_Suc_append map_append concat_append append_assoc list.map concat.simps append_Nil2 step le0 append_Nil simp_thms)
  ultimately show ?case by blast
qed auto

lemma mask_all_masks:
  assumes "k \<le> unat (drop_bit 16 version AND 0xFF)" and "unat (drop_bit 16 version AND 0xFF) < 120"
  shows "snd (io_regs (io_base a) (sel, r) (mask_all a version)) (of_nat (16 + 2 * k)) = 0x10000"
proof -
  let ?n = "unat (ucast (drop_bit 16 version AND 0xFF) :: u8)"
  have n: "?n = unat (drop_bit 16 version AND 0xFF)"
    using assms(2) by (simp only: unsigned_ucast_eq) (simp add: take_bit_nat_eq_self)
  have e: "mask_all a version = io_select a 1 @ concat (map (mask_entry a) [0..<Suc ?n]) @ []"
    by (simp add: mask_all_def mask_entry_def [abs_def] Let_def)
  have s: "io_regs (io_base a) (sel, r) (io_select a 1 @ ios) = io_regs (io_base a) (1, r) ios" for ios
    by (simp add: io_select_def IOREGSEL_OFFSET_def)
  obtain sel' r' where "io_regs (io_base a) (1, r) (concat (map (mask_entry a) [0..<Suc ?n]) @ []) = io_regs (io_base a) (sel', r') []"
    "\<forall>k < Suc ?n. r' (of_nat (16 + 2 * k)) = 0x10000" using mask_entries [of "Suc ?n" a 1 r] n assms(2) by fastforce
  then show ?thesis unfolding e s using n assms(1) by (simp del: upt_Suc of_nat_add of_nat_mult)
qed

section \<open>Calibration of the timers\<close>

datatype time_source = NoSource | TSC u64 | HPET u64

record timer_plan =
  lapic_fq :: u64
  time_source :: time_source
  tsc_deadline :: bool

definition sat_sub :: "u64 \<Rightarrow> u64 \<Rightarrow> u64" where
  "sat_sub a b = (if b \<le> a then a - b else 0)"

text \<open>
  \<^verbatim>\<open>timer::init\<close>. Arguments: whether the time stamp counter is invariant, the frequencies the processor reports (0 for none), the
  frequency of the other timer if there is one, and the readings of the two counters before and after the
  interval of 10 ms.
\<close>

definition timer_init :: "bool \<Rightarrow> u64 \<Rightarrow> u64 \<Rightarrow> u64 option \<Rightarrow> u64 \<times> u64 \<Rightarrow> u64 \<times> u64 \<Rightarrow> bool \<Rightarrow> timer_plan run" where
  "timer_init use_tsc tsc0 lapic0 hpet lapic_readings tsc_readings deadline =
    (let need_calibration = use_tsc \<and> tsc0 = 0 \<or> lapic0 = 0;
         need_hpet = need_calibration \<or> \<not> use_tsc;
         hpet_opt = (if need_hpet then hpet else None);
         lapic = (if need_calibration \<and> lapic0 = 0 then sat_sub (fst lapic_readings) (snd lapic_readings) * 100 * 100 * 16 else lapic0);
         tsc = (if need_calibration \<and> use_tsc \<and> tsc0 = 0 then sat_sub (snd tsc_readings) (fst tsc_readings) * 100 else tsc0);
         hpet_left = (if need_calibration \<and> use_tsc then None else hpet_opt)
     in if need_hpet \<and> hpet = None \<and> \<not> use_tsc then panic
        else if lapic = 0 then panic
        else if use_tsc then if tsc = 0 then panic else ret \<lparr>lapic_fq = lapic, time_source = TSC tsc, tsc_deadline = deadline\<rparr>
        else (case hpet_left of None \<Rightarrow> panic
              | Some fq \<Rightarrow> ret \<lparr>lapic_fq = lapic, time_source = HPET fq, tsc_deadline = deadline\<rparr>))"

text \<open>
  The time source is calibrated correctly: a counter that advances by a hundredth of its rate in the interval gets its rate. The
  rate of the local timer, which already counts after its divider, comes out 1600 times too high.
\<close>

lemma calibration_rates:
  assumes "timer_init True 0 0 hpet (sl, el) (st, st + d) dl = Some plan" and "sl = el + e" and "el \<le> sl" and "st \<le> st + d"
  shows "time_source plan = TSC (d * 100)" "lapic_fq plan = 1600 * (e * 100)"
  using assms by (auto simp: timer_init_def Let_def sat_sub_def algebra_simps split: if_splits)

end
