(* ===== verification/Pci.thy ===== *)
theory Pci
  imports Bitflags
begin

text \<open>
  The PCI bus: \<^verbatim>\<open>kernel/src/drivers/pci/\<close> (\<^verbatim>\<open>config.rs\<close>, \<^verbatim>\<open>enumerate.rs\<close>, \<^verbatim>\<open>mod.rs\<close>). Configuration space is a parameter: \<open>rd\<close> and
  \<open>wr\<close> access the register that the address written to the address port selects, on an arbitrary state of the devices.
\<close>

section \<open>Configuration space\<close>

type_synonym 's cfg_read = "u32 \<Rightarrow> 's \<Rightarrow> u32"
type_synonym 's cfg_write = "u32 \<Rightarrow> u32 \<Rightarrow> 's \<Rightarrow> 's"

definition pci_build_addr :: "u8 \<Rightarrow> u8 \<Rightarrow> u8 \<Rightarrow> u8 \<Rightarrow> u32" where
  "pci_build_addr bus slot func offset =
    push_bit 16 (ucast bus) OR push_bit 11 (ucast slot) OR push_bit 8 (ucast func) OR ucast (offset AND 0xFC) OR 0x80000000"

definition pci_config_read_16 :: "'s cfg_read \<Rightarrow> u8 \<Rightarrow> u8 \<Rightarrow> u8 \<Rightarrow> u8 \<Rightarrow> 's \<Rightarrow> 16 word" where
  "pci_config_read_16 rd bus slot func offset s =
    ucast (drop_bit (unat ((offset AND 2) * 8)) (rd (pci_build_addr bus slot func offset) s) AND 0xFFFF)"

definition pci_config_read_32 :: "'s cfg_read \<Rightarrow> u8 \<Rightarrow> u8 \<Rightarrow> u8 \<Rightarrow> u8 \<Rightarrow> 's \<Rightarrow> u32" where
  "pci_config_read_32 rd bus slot func offset s = rd (pci_build_addr bus slot func offset) s"

definition pci_config_write_32 :: "'s cfg_write \<Rightarrow> u8 \<Rightarrow> u8 \<Rightarrow> u8 \<Rightarrow> u8 \<Rightarrow> u32 \<Rightarrow> 's \<Rightarrow> 's" where
  "pci_config_write_32 wr bus slot func offset v s = wr (pci_build_addr bus slot func offset) v s"

section \<open>Enumeration\<close>

record pci_device =
  bus :: u8
  slot :: u8
  func :: u8
  vendor_id :: "16 word"
  device_id :: "16 word"
  class_code :: u8
  sub_class :: u8
  header_type :: u8

definition check_addr :: "'s cfg_read \<Rightarrow> 's \<Rightarrow> u8 \<Rightarrow> u8 \<Rightarrow> u8 \<Rightarrow> u8 \<Rightarrow> pci_device option" where
  "check_addr rd s b sl f offset =
    (let reg0 = pci_config_read_32 rd b sl f offset s;
         dev = (ucast (drop_bit 16 reg0) :: 16 word);
         vendor = (ucast (reg0 AND 0xFFFF) :: 16 word)
     in if vendor = 0xFFFF then None
        else let reg2 = pci_config_read_32 rd b sl f 0x8 s; reg3 = pci_config_read_32 rd b sl f 0xC s
             in Some \<lparr>bus = b, slot = sl, func = f, vendor_id = vendor, device_id = dev, class_code = ucast (drop_bit 24 reg2),
                      sub_class = ucast (drop_bit 16 reg2 AND 0xFF), header_type = ucast (drop_bit 16 reg3 AND 0xFF)\<rparr>)"

definition check_slot :: "'s cfg_read \<Rightarrow> 's \<Rightarrow> u8 \<Rightarrow> u8 \<Rightarrow> pci_device list" where
  "check_slot rd s b sl =
    (case check_addr rd s b sl 0 0 of
       None \<Rightarrow> []
     | Some dev \<Rightarrow> dev # (if check_bit_at (header_type dev) 7
         then List.map_filter (\<lambda>f. check_addr rd s b sl (of_nat f) 0) [1..<8] else []))"

definition enumerate_pci_devices :: "'s cfg_read \<Rightarrow> 's \<Rightarrow> pci_device list" where
  "enumerate_pci_devices rd s =
    concat (map (\<lambda>b. concat (map (\<lambda>sl. check_slot rd s (of_nat b) (of_nat sl)) [0..<32])) [0..<256])"

definition pci_get_dev :: "pci_device list \<Rightarrow> 16 word \<Rightarrow> 16 word \<Rightarrow> pci_device option" where
  "pci_get_dev devs vendor dev = find (\<lambda>d. vendor_id d = vendor \<and> device_id d = dev) devs"

section \<open>Base address registers\<close>

datatype pci_bar = MemoryBar bool bool u64 u64 | IOSpace u32 u64

definition probe_bar_size_mask :: "'s cfg_read \<Rightarrow> 's cfg_write \<Rightarrow> u8 \<Rightarrow> u8 \<Rightarrow> u8 \<Rightarrow> u8 \<Rightarrow> u32 \<Rightarrow> 's \<Rightarrow> u32 \<times> 's" where
  "probe_bar_size_mask rd wr b sl f offset orig s =
    (let s1 = pci_config_write_32 wr b sl f offset 0xFFFFFFFF s;
         m = pci_config_read_32 rd b sl f offset s1
     in (m, pci_config_write_32 wr b sl f offset orig s1))"

definition get_bar :: "'s cfg_read \<Rightarrow> 's cfg_write \<Rightarrow> pci_device \<Rightarrow> u8 \<Rightarrow> 's \<Rightarrow> pci_bar \<times> 's" where
  "get_bar rd wr dev bar_n s =
    (let offset = 0x10 + bar_n * 4;
         rawbar = pci_config_read_32 rd (bus dev) (slot dev) (func dev) offset s
     in if \<not> check_bit_at rawbar 0
        then let quad = (drop_bit 1 rawbar AND 3 = 2);
                 prefetchable = (drop_bit 3 rawbar AND 1 = 1);
                 addr = (ucast (rawbar AND NOT 0xF) :: u64)
             in case probe_bar_size_mask rd wr (bus dev) (slot dev) (func dev) offset rawbar s of (m, s1) \<Rightarrow>
                  if quad
                  then let offset2 = 0x10 + (bar_n + 1) * 4;
                           upper = pci_config_read_32 rd (bus dev) (slot dev) (func dev) offset2 s1
                       in case probe_bar_size_mask rd wr (bus dev) (slot dev) (func dev) offset2 upper s1 of (hm, s2) \<Rightarrow>
                            (MemoryBar quad prefetchable (addr OR push_bit 32 (ucast upper))
                               (NOT ((ucast m OR push_bit 32 (ucast hm)) AND NOT 0xF) + 1), s2)
                  else (MemoryBar quad prefetchable addr (NOT (ucast m AND NOT 0xF) + 1), s1)
        else case probe_bar_size_mask rd wr (bus dev) (slot dev) (func dev) offset rawbar s of (m, s1) \<Rightarrow>
               (IOSpace (rawbar AND NOT 0x3) (ucast (NOT (m AND NOT 0x3) + 1)), s1))"

section \<open>Addresses are distinct\<close>

text \<open>With a slot below 32 and a function below 8 the fields of an address do not overlap: they are read back.\<close>

lemma small_bits: "unat x < 2 ^ k \<Longrightarrow> bit x n \<Longrightarrow> n < k" for x :: "'a::len word"
proof (rule ccontr)
  assume "unat x < 2 ^ k" "bit x n" "\<not> n < k"
  then have "bit (unat x) n" "unat x < 2 ^ n" by (auto simp: bit_unsigned_iff not_less intro: less_le_trans power_increasing)
  then show False by (simp add: bit_iff_odd)
qed

lemma bit_build_addr:
  "bit (pci_build_addr b sl f off) n \<longleftrightarrow> n < 32 \<and>
     (16 \<le> n \<and> bit b (n - 16) \<or> 11 \<le> n \<and> bit sl (n - 11) \<or> 8 \<le> n \<and> bit f (n - 8) \<or> bit (off AND 0xFC) n \<or> n = 31)"
proof -
  have m: "(0x80000000 :: u32) = push_bit 31 1" by simp
  show ?thesis unfolding pci_build_addr_def m
    by (auto simp: bit_simps simp del: push_bit_of_1 push_bit_numeral)
qed

lemma build_addr_fields:
  assumes "unat sl < 32" and "unat f < 8"
  shows "ucast (drop_bit 16 (pci_build_addr b sl f off)) = b" "ucast (drop_bit 11 (pci_build_addr b sl f off)) AND mask 5 = sl"
    "ucast (drop_bit 8 (pci_build_addr b sl f off)) AND mask 3 = f" "ucast (pci_build_addr b sl f off) = off AND 0xFC"
proof -
  have s: "n < 5" if "bit sl n" for n using small_bits [of sl 5 n] assms(1) that by simp
  have g: "n < 3" if "bit f n" for n using small_bits [of f 3 n] assms(2) that by simp
  have o: "n < 8" if "bit (off AND 0xFC) n" for n using bit_imp_le_length [OF that] by simp
  show "ucast (drop_bit 16 (pci_build_addr b sl f off)) = b"
    by (rule bit_word_eqI) (auto simp: bit_ucast_iff bit_drop_bit_eq bit_build_addr dest!: s g o)
  show "ucast (drop_bit 11 (pci_build_addr b sl f off)) AND mask 5 = sl"
    by (rule bit_word_eqI) (auto simp: bit_ucast_iff bit_drop_bit_eq bit_and_iff bit_mask_iff bit_build_addr dest: s dest!: g o)
  show "ucast (drop_bit 8 (pci_build_addr b sl f off)) AND mask 3 = f"
    by (rule bit_word_eqI) (auto simp: bit_ucast_iff bit_drop_bit_eq bit_and_iff bit_mask_iff bit_build_addr dest: g dest!: s o)
  show "ucast (pci_build_addr b sl f off) = off AND 0xFC"
    by (rule bit_word_eqI) (auto simp: bit_ucast_iff bit_build_addr dest: o)
qed

text \<open>So two different registers never share an address.\<close>

lemma build_addr_inj:
  assumes "pci_build_addr b sl f off = pci_build_addr b' sl' f' off'" and "unat sl < 32" "unat f < 8" "unat sl' < 32" "unat f' < 8"
  shows "b = b'" "sl = sl'" "f = f'" "off AND 0xFC = off' AND 0xFC"
  using build_addr_fields [OF assms(2,3), of b off] build_addr_fields [OF assms(4,5), of b' off'] assms(1) by simp_all

section \<open>What enumeration finds\<close>

lemma u8_below: "unat x < n \<Longrightarrow> n \<le> 256 \<Longrightarrow> \<exists>k < n. x = of_nat k" for x :: u8
  by (intro exI [of _ "unat x"]) simp

lemma check_addr_at: "check_addr rd s b sl f off = Some d \<Longrightarrow> bus d = b \<and> slot d = sl \<and> func d = f"
  by (auto simp: check_addr_def Let_def split: if_splits)

text \<open>
  Enumeration finds every function of every slot that answers, and nothing else: function 0, and the functions 1 to 7 of
  those devices whose function 0 reports several.
\<close>
theorem enumeration_complete:
  "d \<in> set (enumerate_pci_devices rd s) \<longleftrightarrow>
    unat (slot d) < 32 \<and> unat (func d) < 8 \<and> check_addr rd s (bus d) (slot d) (func d) 0 = Some d \<and>
    (func d = 0 \<or> (\<exists>d0. check_addr rd s (bus d) (slot d) 0 0 = Some d0 \<and> check_bit_at (header_type d0) 7))"
proof
  assume "d \<in> set (enumerate_pci_devices rd s)"
  then obtain b sl where bs: "sl < 32" "d \<in> set (check_slot rd s (of_nat b) (of_nat sl))"
    by (auto simp: enumerate_pci_devices_def simp del: upt_rec_numeral)
  then obtain d0 where e: "check_addr rd s (of_nat b) (of_nat sl) 0 0 = Some d0"
    by (cases "check_addr rd s (of_nat b) (of_nat sl) 0 0") (simp_all add: check_slot_def)
  then have d0: "d = d0 \<or> check_bit_at (header_type d0) 7 \<and> (\<exists>f. 1 \<le> f \<and> f < 8 \<and> check_addr rd s (of_nat b) (of_nat sl) (of_nat f) 0 = Some d)"
    using bs(2) by (auto simp: check_slot_def List.map_filter_def split: if_splits simp del: upt_rec_numeral)
  have u: "unat (of_nat k :: u8) = k" if "k < 256" for k using that by (simp add: unsigned_of_nat take_bit_nat_eq_self)
  show "unat (slot d) < 32 \<and> unat (func d) < 8 \<and> check_addr rd s (bus d) (slot d) (func d) 0 = Some d \<and>
    (func d = 0 \<or> (\<exists>d0. check_addr rd s (bus d) (slot d) 0 0 = Some d0 \<and> check_bit_at (header_type d0) 7))"
    using d0 e bs(1) u [of sl] u check_addr_at by fastforce
next
  assume r: "unat (slot d) < 32 \<and> unat (func d) < 8 \<and> check_addr rd s (bus d) (slot d) (func d) 0 = Some d \<and>
    (func d = 0 \<or> (\<exists>d0. check_addr rd s (bus d) (slot d) 0 0 = Some d0 \<and> check_bit_at (header_type d0) 7))"
  have "d \<in> set (check_slot rd s (bus d) (slot d))"
  proof (cases "func d = 0")
    case True
    then show ?thesis using r by (simp add: check_slot_def)
  next
    case False
    then obtain d0 where "check_addr rd s (bus d) (slot d) 0 0 = Some d0" "check_bit_at (header_type d0) 7" using r by blast
    moreover have "unat (func d) \<in> {1..<8}" "of_nat (unat (func d)) = func d" using r False by (auto simp: unat_gt_0 Suc_le_eq)
    ultimately show ?thesis using r by (force simp: check_slot_def List.map_filter_def simp del: upt_rec_numeral)
  qed
  moreover have "unat (bus d) < 256" using unsigned_less [of "bus d"] by simp
  moreover have "bus d = of_nat (unat (bus d))" "slot d = of_nat (unat (slot d))" by simp_all
  ultimately show "d \<in> set (enumerate_pci_devices rd s)"
    using r unfolding enumerate_pci_devices_def by (force simp del: upt_rec_numeral)
qed

section \<open>Sizing a base address register\<close>

text \<open>
  A probe puts the register back; a 64-bit memory register whose writable bits are those above \<open>k\<close> is sized \<open>2 ^ k\<close>.
\<close>

lemma quad_bar_sized:
  assumes "A1 = pci_build_addr (bus d) (slot d) (func d) (0x10 + n * 4)" and "A2 = pci_build_addr (bus d) (slot d) (func d) (0x10 + (n + 1) * 4)"
    and "\<not> check_bit_at (rd A1 s) 0" and "drop_bit 1 (rd A1 s) AND 3 = 2"
    and "wr A1 (rd A1 s) (wr A1 0xFFFFFFFF s) = s" and "wr A2 (rd A2 s) (wr A2 0xFFFFFFFF s) = s"
    and "(ucast (rd A1 (wr A1 0xFFFFFFFF s)) OR push_bit 32 (ucast (rd A2 (wr A2 0xFFFFFFFF s)))) AND NOT 0xF = NOT (mask k :: u64)"
  shows "get_bar rd wr d n s =
    (MemoryBar True (drop_bit 3 (rd A1 s) AND 1 = 1) (ucast (rd A1 s AND NOT 0xF) OR push_bit 32 (ucast (rd A2 s))) (2 ^ k), s)"
proof -
  have e: "NOT ((ucast (rd A1 (wr A1 0xFFFFFFFF s)) OR push_bit 32 (ucast (rd A2 (wr A2 0xFFFFFFFF s)))) AND NOT 0xF) + 1 = (2 ^ k :: u64)"
    unfolding assms(7) by (simp add: mask_eq_exp_minus_1)
  show ?thesis
    using assms(3-6) unfolding e [symmetric] get_bar_def Let_def probe_bar_size_mask_def pci_config_read_32_def pci_config_write_32_def
      assms(1,2) [symmetric] by simp
qed

text \<open>The mask of a 32-bit memory register is widened before it is inverted, so its size has all upper bits set.\<close>

lemma narrow_bar_size_wrong:
  assumes "A1 = pci_build_addr (bus d) (slot d) (func d) (0x10 + n * 4)" and "rd A1 s = 0xFEB00000"
    and "rd A1 (wr A1 0xFFFFFFFF s) = 0xFFFFF000" and "wr A1 0xFEB00000 (wr A1 0xFFFFFFFF s) = s"
  shows "get_bar rd wr d n s = (MemoryBar False False 0xFEB00000 0xFFFFFFFF00001000, s)"
  using assms(2-4) by (simp add: get_bar_def Let_def probe_bar_size_mask_def pci_config_read_32_def pci_config_write_32_def
      assms(1) [symmetric] check_bit_at_iff)

end
