(* ===== verification/Spec2Isabelle.thy ===== *)
theory Spec2Isabelle
  imports Rwlock Async Calendar Virtio Ext2_Obj Keyboard Tar Termloop Usersock Userheap Context Apic Pci
begin

text \<open>
  A verification development for Vespertine, a capability-based microkernel for x86_64 written in Rust, and for the
  user-space library and programs that come with it. Paths below are relative to \<^verbatim>\<open>src/\<close>; \<^verbatim>\<open>kernel/src\<close> is
  written \<^verbatim>\<open>K\<close> and \<^verbatim>\<open>lib\<close> is written \<^verbatim>\<open>L\<close>.

  \<^bold>\<open>The program and how its parts interact.\<close>
  The boot loader's memory map becomes a frame bitmap, from which the buddy allocator is built. Cores take single pages
  from the buddy allocator through per-core magazines; the kernel heap is a slab allocator over those pages. Page tables,
  memory objects and regions make up an address space, whose page faults pull frames from the same source. Threads are
  queued by priority and scheduled per core; they block on locks, semaphores, sockets and timers and are woken across cores.
  Every resource is a kernel object behind a handle with access rights. A program reaches objects with one system call,
  whose invocation is copied from user memory, checked against the rights of the handle and given to the handler of the
  object. Files live in an archive in memory and on an ext2 volume, which is read through a block cache, a partition and a
  virtio disk. A spawn loads an ELF program, builds the handle table of the child out of the grants of the parent and lays
  out a start-up block on its stack, which the user library reads back. The user library provides files, directories,
  sockets, printing and a heap on top of the system calls; the terminal and the shell are programs that use it.

  \<^bold>\<open>Conventions of the model.\<close>
  Machine integers are words of their width, and their arithmetic wraps as it does in the release build. Structures are
  records, enumerations datatypes with the constructors of the source. A function that can panic (an index out of range,
  \<^verbatim>\<open>unwrap\<close>, \<^verbatim>\<open>expect\<close>, a checked shift) returns an option in which \<^term>\<open>None\<close> is the panic, so that a theorem
  that concludes \<^verbatim>\<open>= Some ...\<close> also says that the code does not panic. Errors of the interface are the left side of a
  sum. State is passed explicitly. Loops whose recursion is structural are \<^verbatim>\<open>fun\<close>; a loop with another
  reason to end is a \<^verbatim>\<open>function\<close> with a termination proof by a measure (block counts, remaining bytes, offsets);
  a loop that may run for ever in the source is a \<^verbatim>\<open>partial_function (option)\<close>, and the theorems about it prove that a
  result is returned. No fuel is used as an argument of a theorem without a proof that the stated amount is enough.
  Concurrent code is a step relation of any number of threads in which one step is one atomic access of the source, and
  the properties hold in every reachable state of every interleaving. Code outside of the repository (the escape sequence parser,
  the font, the drive behind the virtio queue, the firmware's tables, which addresses fault) is an argument.

  \<^bold>\<open>Theories.\<close>

  \<^item> \<^verbatim>\<open>Prelude\<close>, \<^verbatim>\<open>Bytes\<close>, \<^verbatim>\<open>Steps\<close>, \<^verbatim>\<open>Frames\<close>, \<^verbatim>\<open>Page_Memory\<close>: the shared library. Collections of facts, word and list
    lemmas; little-endian encoding; interleavings of threads (locale \<^verbatim>\<open>threads_system\<close>); the contracts of page sources (locales
    \<^verbatim>\<open>page_frames\<close>, \<^verbatim>\<open>byte_frames\<close>).
  \<^item> \<^verbatim>\<open>Bitflags\<close>, \<^verbatim>\<open>Abi\<close>: \<^verbatim>\<open>K/util/bitwise.rs\<close>, \<^verbatim>\<open>L/vespertine-abi\<close>. Flag sets with their Boolean laws (locale
    \<^verbatim>\<open>flag_set\<close>), rights, operations, invocations, demanded rights, error codes.
  \<^item> \<^verbatim>\<open>Pmm\<close>, \<^verbatim>\<open>Pmm_Inv\<close>, \<^verbatim>\<open>Pmm_Init\<close>, \<^verbatim>\<open>Magazine\<close>: \<^verbatim>\<open>K/memory/pmm.rs\<close>, \<^verbatim>\<open>init_pmm.rs\<close>, \<^verbatim>\<open>magazine.rs\<close>. The buddy
    allocator keeps its lists well formed, hands out aligned free blocks, merges buddies completely, and loses no frame;
    the boot-time construction establishes the invariant; the magazine refines a set of pages (locale \<^verbatim>\<open>frame_source\<close>, provided by the
    buddy allocator).
  \<^item> \<^verbatim>\<open>Slab\<close>, \<^verbatim>\<open>Heap\<close>, \<^verbatim>\<open>Userheap\<close>: \<^verbatim>\<open>L/vespertine-common/src/slab.rs\<close>, \<^verbatim>\<open>K/memory/heap.rs\<close>, \<^verbatim>\<open>bootalloc.rs\<close>,
    \<^verbatim>\<open>L/vespertine-rt/src/memory.rs\<close>. The slab allocator is proved once over any page provider (locale \<^verbatim>\<open>page_provider\<close>), which is
    interpreted by the kernel's provider and by that of user programs running on the modelled system calls: blocks are
    aligned, disjoint and on owned pages.
  \<^item> \<^verbatim>\<open>Paging\<close>, \<^verbatim>\<open>Paging_Inv\<close>, \<^verbatim>\<open>Vmo\<close>, \<^verbatim>\<open>Core_Frames\<close>, \<^verbatim>\<open>Vma\<close>, \<^verbatim>\<open>Vmm\<close>: \<^verbatim>\<open>K/memory/paging.rs\<close>, \<^verbatim>\<open>vmo.rs\<close>, \<^verbatim>\<open>vmm.rs\<close>. Mapping changes one
    translation and keeps the tables a tree (locale \<^verbatim>\<open>table_source\<close>); objects own their frames; regions stay disjoint; a page fault
    maps the right frame of the right object or is rejected without an effect; unmapping takes exactly the range away.
  \<^item> \<^verbatim>\<open>Queue\<close>, \<^verbatim>\<open>Scheduler\<close>, \<^verbatim>\<open>Scheduler_Inv\<close>, \<^verbatim>\<open>Dispatch\<close>, \<^verbatim>\<open>Clock\<close>: \<^verbatim>\<open>K/util/queue.rs\<close>, \<^verbatim>\<open>K/core/thread\<close>, \<^verbatim>\<open>K/core/time\<close>. The
    intrusive queue is first in, first out (locale \<^verbatim>\<open>fifo\<close>); schedule picks the oldest thread of the highest priority and
    keeps the ready set; placement, wake-up and the timer daemon.
  \<^item> \<^verbatim>\<open>Locks\<close>, \<^verbatim>\<open>Blocking\<close>, \<^verbatim>\<open>Rwlock\<close>, \<^verbatim>\<open>Async\<close>: \<^verbatim>\<open>L/vespertine-common/src/lock.rs\<close>, \<^verbatim>\<open>K/core/sync\<close>, \<^verbatim>\<open>K/core/asynchronous\<close>. Exclusion
    (locale \<^verbatim>\<open>exclusive_lock\<close>), order of service, single initialisation, and the absence of lost wake-ups.
  \<^item> \<^verbatim>\<open>Shootdown\<close>: \<^verbatim>\<open>K/arch/x86_64/interrupts/shootdown.rs\<close>. The invalidation of a translation on all cores: when it returns, no core has
    the page any more; the situations in which it never returns.
  \<^item> \<^verbatim>\<open>Interrupts\<close>, \<^verbatim>\<open>Context\<close>: \<^verbatim>\<open>K/arch/x86_64/interrupts\<close>, \<^verbatim>\<open>cpu/gdt.rs\<close>, \<^verbatim>\<open>task/context.rs\<close>, \<^verbatim>\<open>task/switch.asm\<close>, \<^verbatim>\<open>K/core/thread/dispatch.rs\<close>,
    \<^verbatim>\<open>reap.rs\<close>. Descriptors hold what they were built from; a bad pointer in a user copy is recovered through the exception table;
    a timer tick wakes the daemon and schedules on a consistent core; a new thread starts at its entry point with its argument, and a
    thread that is switched back to has its registers.
  \<^item> \<^verbatim>\<open>Apic\<close>, \<^verbatim>\<open>Pci\<close>: \<^verbatim>\<open>K/arch/x86_64/apic\<close>, \<^verbatim>\<open>timer/mod.rs\<close>, \<^verbatim>\<open>K/drivers/pci\<close>. The two drivers of the local controller make it see the same
    writes; routing programs one entry of the redirection table and masking all of them; enumeration finds exactly the functions
    that answer; the sizes of base address registers.
  \<^item> \<^verbatim>\<open>Handles\<close>, \<^verbatim>\<open>Mempool\<close>, \<^verbatim>\<open>Usermem\<close>, \<^verbatim>\<open>Ring\<close>, \<^verbatim>\<open>Socket\<close>, \<^verbatim>\<open>Directory\<close>, \<^verbatim>\<open>Objects\<close>, \<^verbatim>\<open>Objects_Inv\<close>, \<^verbatim>\<open>Syscall\<close>: \<^verbatim>\<open>K/core/object\<close>,
    \<^verbatim>\<open>K/arch/x86_64/task/syscall.rs\<close>. The handle table (locale \<^verbatim>\<open>capability_table\<close>) never amplifies rights; quotas hold under
    races; sockets carry streams (locale \<^verbatim>\<open>byte_stream\<close>); path walks resolve names; memory objects stay isolated under any
    sequence of invocations; a system call leaves a typed frame and transports results and errors.
  \<^item> \<^verbatim>\<open>Elf\<close>, \<^verbatim>\<open>Procenv\<close>, \<^verbatim>\<open>Userenv\<close>: \<^verbatim>\<open>K/core/program\<close>, \<^verbatim>\<open>procman.rs\<close>, \<^verbatim>\<open>L/vespertine-std/src/env.rs\<close>, \<^verbatim>\<open>exec.rs\<close>. The loader maps what the file says;
    a spawned process has the grants of its parent, and reads its environment back.
  \<^item> \<^verbatim>\<open>Blockdev\<close>, \<^verbatim>\<open>Bcache\<close>, \<^verbatim>\<open>Ext2\<close>, \<^verbatim>\<open>Ext2_Inv\<close>, \<^verbatim>\<open>Ext2_Obj\<close>, \<^verbatim>\<open>Virtio\<close>, \<^verbatim>\<open>Tar\<close>: \<^verbatim>\<open>K/drivers\<close>. A partition is confined and is again a sound
    device (locales \<^verbatim>\<open>block_device\<close>, \<^verbatim>\<open>sound_device\<close>); the cache is transparent (locale \<^verbatim>\<open>block_store\<close>); file blocks, directory
    entries and file objects of a volume are read correctly (locale \<^verbatim>\<open>ext2_world\<close>); a transfer of the disk queue delivers its
    data and returns its descriptors; the archive of the boot disk is unpacked to its tree.
  \<^item> \<^verbatim>\<open>Userio\<close>, \<^verbatim>\<open>Readdir\<close>, \<^verbatim>\<open>Usersock\<close>: \<^verbatim>\<open>L/vespertine-std\<close>, \<^verbatim>\<open>L/vespertine-rt\<close>. Reading to the end terminates with the file's
    bytes, printing delivers its text, the user path walk agrees with the kernel's, a listing arrives as the entries of the
    directory (locale \<^verbatim>\<open>packet_source\<close>), and sockets give their handles back.
  \<^item> \<^verbatim>\<open>Terminal\<close>, \<^verbatim>\<open>Termloop\<close>, \<^verbatim>\<open>Keyboard\<close>, \<^verbatim>\<open>Acpi\<close>, \<^verbatim>\<open>Calendar\<close>: \<^verbatim>\<open>userland/terminal\<close>, part of \<^verbatim>\<open>userland/shell\<close>, \<^verbatim>\<open>K/drivers/keyboard\<close>,
    \<^verbatim>\<open>K/core/acpi\<close>, \<^verbatim>\<open>K/core/time/datetime.rs\<close>. The terminal does not panic and keeps its grid; line editing; scancodes; the
    firmware's interrupt table; calendar conversion.

  Each locale states what a client relies on; each is interpreted on the model's own definitions in the theory of the
  component that provides it, and the theorems about clients are the instances of the lemmas proved in the locale.
  Every property with a hypothesis is followed by a witness that applies it to a concrete state.

  \<^bold>\<open>Where the code falls short of what it means to do.\<close>
  Some lemmas record behaviour that is surely not intended, on the model and with a concrete cause: a double free that is not
  detected, the wrapped limit check of a pool, wake-ups lost between a check and a registration, the leak of a handle by a
  failed walk or listing, the kernel buffer a read can overwrite, the allocation that spins on an exhausted pool, the cut-off packet
  of a long listing. They are kept as lemmas beside the definitions they are about.

  \<^bold>\<open>Not modelled.\<close>
  The assembly stubs that save and restore the frame of an interrupt or a system call, the instructions that load tables and control
  registers, and feature detection. Readings of hardware counters and the contents of the extended registers are arguments. The
  registers of the virtio transport are volatile device accesses. The logger, the
  serial port and the early video output only format diagnostics. The order of boot-time calls is a sequence of modelled
  operations on statically allocated objects. The condition variable has no user; the work queue and the reaper thread are endless loops
  around the modelled queue, semaphore and reaping of a thread. The main functions of the small user programs and the command loop of the shell
  are sequences of library calls. Value formatting by the language's own machinery is not modelled; it hands finished strings to
  the modelled sinks. Cache maintenance has no effect on the modelled state, and translation buffers are
  only modelled where cores invalidate each other's entries.
\<close>

end
